(* ===== verification/Tc_Prelude.thy ===== *)
theory Tc_Prelude
  imports Complex_Main "HOL-Library.Word"
begin

text \<open>
  Shared vocabulary of the development: the outcome of a piece of C++ code (a value, or the reason
  why the process does not go on), the rules that carry proofs through sequences of such code,
  addresses, and a few lemmas on lists and functions that several components need.
\<close>

section \<open>Outcomes\<close>

text \<open>
  \<open>Segv\<close>: a NULL pointer or a pointer to a deleted object is dereferenced, or an array is accessed
  out of its bounds.  \<open>Abort\<close>: the code gives up by itself (\<open>abort()\<close>, \<open>Log(kCrash, ...)\<close>,
  \<open>CHECK_CONDITION\<close>, \<open>RAW_CHECK\<close>).  \<open>Diverge\<close>: a loop does not end within the fuel it was given.
\<close>

datatype fault = Segv | Abort | Diverge

type_synonym 'a res = "fault + 'a"

fun bind_res :: "'a res \<Rightarrow> ('a \<Rightarrow> 'b res) \<Rightarrow> 'b res" where
  "bind_res (Inl f) k = Inl f"
| "bind_res (Inr x) k = k x"

lemma bind_res_Inr_iff: "bind_res m k = Inr y \<longleftrightarrow> (\<exists>x. m = Inr x \<and> k x = Inr y)"
  by (cases m) auto

lemma bind_res_assoc: "bind_res (bind_res m k) l = bind_res m (\<lambda>x. bind_res (k x) l)"
  by (cases m) auto

lemma bind_res_cong [fundef_cong]:
  "m = m' \<Longrightarrow> (\<And>x. m' = Inr x \<Longrightarrow> k x = k' x) \<Longrightarrow> bind_res m k = bind_res m' k'"
  by (cases m') auto

text \<open>
  \<open>returns P r\<close>: the code returns, with a value that satisfies \<open>P\<close>.  \<open>safe P r\<close>: the code returns
  such a value or gives up by itself; it neither touches memory it may not touch nor diverges.
\<close>

definition returns :: "('a \<Rightarrow> bool) \<Rightarrow> 'a res \<Rightarrow> bool" where
  "returns P r = (case r of Inl f \<Rightarrow> False | Inr x \<Rightarrow> P x)"

definition safe :: "('a \<Rightarrow> bool) \<Rightarrow> 'a res \<Rightarrow> bool" where
  "safe P r = (case r of Inl f \<Rightarrow> f = Abort | Inr x \<Rightarrow> P x)"

named_theorems outcome_intros \<open>introduction rules for \<^const>\<open>returns\<close> and \<^const>\<open>safe\<close>\<close>

lemma returns_simps [simp]: "returns P (Inr x) = P x" "returns P (Inl f) = False"
  by (simp_all add: returns_def)

lemma safe_simps [simp]: "safe P (Inr x) = P x" "safe P (Inl f) = (f = Abort)"
  by (simp_all add: safe_def)

lemma returns_bind [outcome_intros]:
  "returns Q m \<Longrightarrow> (\<And>x. Q x \<Longrightarrow> returns P (k x)) \<Longrightarrow> returns P (bind_res m k)"
  by (cases m) auto

lemma safe_bind [outcome_intros]:
  "safe Q m \<Longrightarrow> (\<And>x. Q x \<Longrightarrow> safe P (k x)) \<Longrightarrow> safe P (bind_res m k)"
  by (cases m) auto

lemma returns_mono: "returns Q m \<Longrightarrow> (\<And>x. Q x \<Longrightarrow> P x) \<Longrightarrow> returns P m"
  by (cases m) auto

lemma safe_mono: "safe Q m \<Longrightarrow> (\<And>x. Q x \<Longrightarrow> P x) \<Longrightarrow> safe P m"
  by (cases m) auto

lemma returns_safe: "returns P m \<Longrightarrow> safe P m"
  by (cases m) auto

lemma returns_iff: "returns P m \<longleftrightarrow> (\<exists>x. m = Inr x \<and> P x)"
  by (cases m) auto

lemma safe_Inr_D: "safe P m \<Longrightarrow> m = Inr x \<Longrightarrow> P x"
  by simp

lemma safe_conj: "safe P m \<Longrightarrow> safe Q m \<Longrightarrow> safe (\<lambda>x. P x \<and> Q x) m"
  by (cases m) auto

text \<open>\<open>outcome b\<close>: \<open>returns\<close> when \<open>b\<close> holds, \<open>safe\<close> otherwise.\<close>

definition outcome :: "bool \<Rightarrow> ('a \<Rightarrow> bool) \<Rightarrow> 'a res \<Rightarrow> bool" where
  "outcome b P r = (if b then returns P r else safe P r)"

lemma outcome_simps [simp]: "outcome b P (Inr x) = P x" "outcome b P (Inl f) = (\<not> b \<and> f = Abort)"
  by (simp_all add: outcome_def)

lemma outcome_bind [outcome_intros]:
  "outcome b Q m \<Longrightarrow> (\<And>x. Q x \<Longrightarrow> outcome b P (k x)) \<Longrightarrow> outcome b P (bind_res m k)"
  by (cases m) auto

lemma outcome_mono: "outcome b Q m \<Longrightarrow> (\<And>x. Q x \<Longrightarrow> P x) \<Longrightarrow> outcome b P m"
  by (cases m) auto

lemma outcome_safe: "outcome b P m \<Longrightarrow> safe P m"
  by (cases m) auto

section \<open>Addresses and machine integers\<close>

text \<open>
  Addresses are natural numbers and 0 is NULL.  \<open>size_t\<close>, \<open>uintptr_t\<close> and \<open>uint64_t\<close> are 64 bits
  wide, \<open>int\<close> is 32 bits wide (the LP64 model the sources are configured for in \<open>config.h\<close>).
\<close>

type_synonym addr = nat
type_synonym u64 = "64 word"
type_synonym u32 = "32 word"

definition to_int32 :: "int \<Rightarrow> int" where
  "to_int32 x = (x + 2 ^ 31) mod 2 ^ 32 - 2 ^ 31"

lemma to_int32_id [simp]: "- (2 ^ 31) \<le> x \<Longrightarrow> x < 2 ^ 31 \<Longrightarrow> to_int32 x = x"
  by (simp add: to_int32_def)

lemma to_int32_range: "- (2 ^ 31) \<le> to_int32 x \<and> to_int32 x < 2 ^ 31"
  using pos_mod_bound [of "2 ^ 32 :: int" "x + 2 ^ 31"]
    pos_mod_sign [of "2 ^ 32 :: int" "x + 2 ^ 31"]
  by (simp add: to_int32_def)

lemma le_zdiv_iff: "0 < b \<Longrightarrow> c \<le> a div b \<longleftrightarrow> c * b \<le> a" for a b c :: int
proof
  assume b: "0 < b"
  show "c * b \<le> a" if "c \<le> a div b"
  proof -
    have "c * b \<le> a div b * b" using that b by (intro mult_right_mono) auto
    also have "\<dots> \<le> a" using pos_mod_sign [OF b, of a] by (simp add: minus_mod_eq_div_mult [symmetric])
    finally show ?thesis .
  qed
  show "c \<le> a div b" if "c * b \<le> a"
    using zdiv_mono1 [OF that b] b by simp
qed

lemma zdiv_less_iff: "0 < b \<Longrightarrow> a div b < c \<longleftrightarrow> a < c * b" for a b c :: int
  using le_zdiv_iff [of b c a] by linarith

text \<open>A loop that does not end, as a fault, and the object at an address.\<close>

definition ends :: "'a res option \<Rightarrow> 'a res" where
  "ends r = (case r of None \<Rightarrow> Inl Diverge | Some x \<Rightarrow> x)"

definition at_ptr :: "(addr \<rightharpoonup> 'n) \<Rightarrow> addr \<Rightarrow> 'n res" where
  "at_ptr h p = (case h p of None \<Rightarrow> Inl Segv | Some n \<Rightarrow> Inr n)"

section \<open>Arrays\<close>

text \<open>C arrays are lists; an access outside the array is a fault.\<close>

definition rd :: "'a list \<Rightarrow> int \<Rightarrow> 'a res" where
  "rd xs i = (if 0 \<le> i \<and> i < int (length xs) then Inr (xs ! nat i) else Inl Segv)"

definition wr :: "'a list \<Rightarrow> int \<Rightarrow> 'a \<Rightarrow> 'a list res" where
  "wr xs i v = (if 0 \<le> i \<and> i < int (length xs) then Inr (xs[nat i := v]) else Inl Segv)"

lemma rd_Inr [simp]: "0 \<le> i \<Longrightarrow> i < int (length xs) \<Longrightarrow> rd xs i = Inr (xs ! nat i)"
  by (simp add: rd_def)

lemma wr_Inr [simp]: "0 \<le> i \<Longrightarrow> i < int (length xs) \<Longrightarrow> wr xs i v = Inr (xs[nat i := v])"
  by (simp add: wr_def)

text \<open>\<open>a[i] += d\<close>.\<close>

definition incr :: "int list \<Rightarrow> int \<Rightarrow> int \<Rightarrow> int list res" where
  "incr xs i d = bind_res (rd xs i) (\<lambda>v. wr xs i (v + d))"

lemma incr_Inr [simp]:
  "0 \<le> i \<Longrightarrow> i < int (length xs) \<Longrightarrow> incr xs i d = Inr (xs[nat i := xs ! nat i + d])"
  by (simp add: incr_def)

text \<open>Division and remainder of C truncate towards zero.\<close>

definition c_div :: "int \<Rightarrow> int \<Rightarrow> int" where
  "c_div a b = sgn a * sgn b * (\<bar>a\<bar> div \<bar>b\<bar>)"

lemma c_div_div [simp]: "0 \<le> a \<Longrightarrow> 0 < b \<Longrightarrow> c_div a b = a div b"
  by (cases "a = 0") (simp_all add: c_div_def)

definition c_rem :: "int \<Rightarrow> int \<Rightarrow> int" where
  "c_rem a b = sgn a * (\<bar>a\<bar> mod \<bar>b\<bar>)"

lemma c_rem_mod [simp]: "0 \<le> a \<Longrightarrow> 0 < b \<Longrightarrow> c_rem a b = a mod b"
  by (cases "a = 0") (simp_all add: c_rem_def)

section \<open>Lists\<close>

lemma take_drop_nth: "i < length xs \<Longrightarrow> xs = take i xs @ xs ! i # drop (Suc i) xs"
  by (simp add: id_take_nth_drop)

lemma distinct_nth_notin_take:
  "distinct xs \<Longrightarrow> i < length xs \<Longrightarrow> xs ! i \<notin> set (take i xs)"
  by (auto simp: in_set_conv_nth nth_eq_iff_index_eq)

lemma distinct_nth_notin_drop:
  "distinct xs \<Longrightarrow> i < length xs \<Longrightarrow> xs ! i \<notin> set (drop (Suc i) xs)"
  by (auto simp: in_set_conv_nth nth_eq_iff_index_eq)

lemma last_take_nth: "0 < n \<Longrightarrow> n \<le> length xs \<Longrightarrow> last (take n xs) = xs ! (n - 1)"
  by (cases n) (auto simp: take_Suc_conv_app_nth)

end
