(* ===== verification/Linked_List.thy ===== *)
theory Linked_List
  imports Tc_Prelude
begin

text \<open>
  The singly linked lists of \<open>linked_list.h\<close>: free objects are chained through their own first
  word.  The memory is the map from the address of an object to that word.  A \<open>void **list\<close>
  argument is the current head, passed by value and returned updated.
\<close>

type_synonym mem = "addr \<Rightarrow> addr"

section \<open>Operations\<close>

definition SLL_Next :: "mem \<Rightarrow> addr \<Rightarrow> addr res" where
  "SLL_Next m t = (if t = 0 then Inl Segv else Inr (m t))"

definition SLL_SetNext :: "mem \<Rightarrow> addr \<Rightarrow> addr \<Rightarrow> mem res" where
  "SLL_SetNext m t n = (if t = 0 then Inl Segv else Inr (m(t := n)))"

definition SLL_Push :: "mem \<Rightarrow> addr \<Rightarrow> addr \<Rightarrow> (addr \<times> mem) res" where
  "SLL_Push m list element =
     bind_res (SLL_SetNext m element list) (\<lambda>m. Inr (element, m))"

text \<open>The result is the popped object and the new head.\<close>

definition SLL_Pop :: "mem \<Rightarrow> addr \<Rightarrow> (addr \<times> addr) res" where
  "SLL_Pop m list = bind_res (SLL_Next m list) (\<lambda>n. Inr (list, n))"

text \<open>The loop of \<open>SLL_PopRange\<close>: follow the link \<open>k\<close> times.\<close>

fun SLL_walk :: "mem \<Rightarrow> addr \<Rightarrow> nat \<Rightarrow> addr res" where
  "SLL_walk m tmp 0 = Inr tmp"
| "SLL_walk m tmp (Suc k) = bind_res (SLL_Next m tmp) (\<lambda>tmp. SLL_walk m tmp k)"

text \<open>The result is \<open>(*start, *end, *head, memory)\<close>.\<close>

definition SLL_PopRange :: "mem \<Rightarrow> addr \<Rightarrow> int \<Rightarrow> (addr \<times> addr \<times> addr \<times> mem) res" where
  "SLL_PopRange m head N =
     (if N = 0 then Inr (0, 0, head, m)
      else bind_res (SLL_walk m head (nat (N - 1))) (\<lambda>tmp.
           bind_res (SLL_Next m tmp) (\<lambda>head'.
           bind_res (SLL_SetNext m tmp 0) (\<lambda>m'.
           Inr (head, tmp, head', m')))))"

definition SLL_PushRange :: "mem \<Rightarrow> addr \<Rightarrow> addr \<Rightarrow> addr \<Rightarrow> (addr \<times> mem) res" where
  "SLL_PushRange m head start fin =
     (if start = 0 then Inr (head, m)
      else bind_res (SLL_SetNext m fin head) (\<lambda>m. Inr (start, m)))"

text \<open>\<open>SLL_Size\<close> does not return on a cyclic chain, so its result is optional.\<close>

partial_function (option) SLL_Size_loop :: "mem \<Rightarrow> addr \<Rightarrow> nat \<Rightarrow> nat option" where
  "SLL_Size_loop m head count =
     (if head = 0 then Some count else SLL_Size_loop m (m head) (Suc count))"

definition SLL_Size :: "mem \<Rightarrow> addr \<Rightarrow> nat option" where
  "SLL_Size m head = SLL_Size_loop m head 0"

section \<open>Chains\<close>

text \<open>\<open>chain m p xs q\<close>: from \<open>p\<close> the links visit exactly \<open>xs\<close> and then reach \<open>q\<close>.\<close>

fun chain :: "mem \<Rightarrow> addr \<Rightarrow> addr list \<Rightarrow> addr \<Rightarrow> bool" where
  "chain m p [] q = (p = q)"
| "chain m p (x # xs) q = (p = x \<and> x \<noteq> 0 \<and> chain m (m x) xs q)"

abbreviation sll :: "mem \<Rightarrow> addr \<Rightarrow> addr list \<Rightarrow> bool" where
  "sll m p xs \<equiv> chain m p xs 0"

lemma chain_append [simp]:
  "chain m p (xs @ ys) q \<longleftrightarrow> (\<exists>r. chain m p xs r \<and> chain m r ys q)"
  by (induction xs arbitrary: p) auto

lemma chain_upd [simp]: "u \<notin> set xs \<Longrightarrow> chain (m(u := v)) p xs q = chain m p xs q"
  by (induction xs arbitrary: p) auto

lemma chain_cong: "(\<And>x. x \<in> set xs \<Longrightarrow> m x = m' x) \<Longrightarrow> chain m p xs q = chain m' p xs q"
  by (induction xs arbitrary: p) auto

lemma sll_NULL [simp]: "sll m 0 xs \<longleftrightarrow> xs = []"
  by (cases xs) auto

lemma sll_not_NULL: "p \<noteq> 0 \<Longrightarrow> sll m p xs \<longleftrightarrow> (\<exists>ys. xs = p # ys \<and> sll m (m p) ys)"
  by (cases xs) auto

lemma sll_unique: "sll m p xs \<Longrightarrow> sll m p ys \<Longrightarrow> xs = ys"
  by (induction xs arbitrary: p ys) (auto simp: sll_not_NULL)

lemma sll_nonzero: "sll m p xs \<Longrightarrow> 0 \<notin> set xs"
  by (induction xs arbitrary: p) auto

lemma sll_tail_notin: "sll m (m x) xs \<Longrightarrow> x \<noteq> 0 \<Longrightarrow> x \<notin> set xs"
proof
  assume sll: "sll m (m x) xs" and nz: "x \<noteq> 0" and "x \<in> set xs"
  then obtain ys zs where xs: "xs = ys @ x # zs"
    by (meson split_list)
  with sll have "sll m (m x) zs" by auto
  with sll have "xs = zs" by (blast dest: sll_unique)
  with xs show False by simp
qed

lemma sll_distinct: "sll m p xs \<Longrightarrow> distinct xs"
  by (induction xs arbitrary: p) (auto dest: sll_tail_notin)

lemma chain_last: "chain m p xs q \<Longrightarrow> xs \<noteq> [] \<Longrightarrow> m (last xs) = q \<and> last xs \<noteq> 0"
  by (induction xs arbitrary: p) auto

lemma chain_hd: "chain m p xs q \<Longrightarrow> xs \<noteq> [] \<Longrightarrow> p = hd xs \<and> p \<noteq> 0"
  by (cases xs) auto

lemma SLL_walk_chain:
  "chain m p xs q \<Longrightarrow> SLL_walk m p (length xs) = Inr q"
  by (induction xs arbitrary: p) (auto simp: SLL_Next_def)

lemma SLL_Size_chain: "sll m p xs \<Longrightarrow> SLL_Size_loop m p n = Some (n + length xs)"
  by (induction xs arbitrary: p n) (auto simp: SLL_Size_loop.simps)

section \<open>What the operations do to chains\<close>

lemma SLL_Push_sll:
  "sll m p xs \<Longrightarrow> x \<noteq> 0 \<Longrightarrow> x \<notin> set xs \<Longrightarrow>
   SLL_Push m p x = Inr (x, m(x := p)) \<and> sll (m(x := p)) x (x # xs)"
  by (simp add: SLL_Push_def SLL_SetNext_def)

lemma SLL_Pop_sll: "sll m p (x # xs) \<Longrightarrow> SLL_Pop m p = Inr (x, m x) \<and> sll m (m x) xs"
  by (simp add: SLL_Pop_def SLL_Next_def)

lemma SLL_PopRange_sll:
  assumes sll: "sll m p (xs @ ys)" and xs: "xs \<noteq> []" and N: "N = int (length xs)"
  shows "SLL_PopRange m p N =
    Inr (p, last xs, m (last xs), m(last xs := 0))"
    and "sll (m(last xs := 0)) p xs" and "sll (m(last xs := 0)) (m (last xs)) ys"
proof -
  obtain bs b where xs': "xs = bs @ [b]"
    using xs by (metis append_butlast_last_id)
  have dist: "distinct (xs @ ys)" using sll by (rule sll_distinct)
  have b: "chain m p bs b" "b \<noteq> 0" "sll m (m b) ys" using sll xs' by auto
  have "SLL_walk m p (nat (N - 1)) = Inr b"
    using SLL_walk_chain [OF b(1)] N xs' by simp
  then show "SLL_PopRange m p N = Inr (p, last xs, m (last xs), m(last xs := 0))"
    using b N xs' by (simp add: SLL_PopRange_def SLL_Next_def SLL_SetNext_def)
  show "sll (m(last xs := 0)) p xs" "sll (m(last xs := 0)) (m (last xs)) ys"
    using b dist xs' by auto
qed

lemma SLL_PushRange_sll:
  assumes "sll m p ys" and "sll m s xs" and "xs \<noteq> []" and "set xs \<inter> set ys = {}"
  shows "SLL_PushRange m p s (last xs) = Inr (s, m(last xs := p))"
    and "sll (m(last xs := p)) s (xs @ ys)"
proof -
  obtain bs b where xs': "xs = bs @ [b]"
    using assms(3) by (metis append_butlast_last_id)
  have dist: "distinct xs" using assms(2) by (rule sll_distinct)
  have b: "chain m s bs b" "b \<noteq> 0" using assms(2) xs' by auto
  have "s \<noteq> 0" using chain_hd [OF assms(2,3)] by simp
  then show "SLL_PushRange m p s (last xs) = Inr (s, m(last xs := p))"
    using b xs' by (simp add: SLL_PushRange_def SLL_SetNext_def)
  show "sll (m(last xs := p)) s (xs @ ys)"
    using assms b dist xs' by auto
qed

section \<open>Property\<close>

text \<open>
  Moving a batch of \<open>N\<close> objects between free lists is exact.  \<open>SLL_PopRange\<close> cuts the first \<open>N\<close>
  objects off a list as a NULL-terminated chain that ends in \<open>end\<close>, in the same order, leaving the
  rest; \<open>SLL_PushRange\<close> of that chain gives the original list with the original links, and
  \<open>SLL_Size\<close> terminates and counts both parts.
\<close>

lemma SLL_PopRange_PushRange:
  assumes "sll m p zs" "0 < N" "N \<le> length zs"
  shows "returns (\<lambda>(start, fin, head, m').
           sll m' start (take N zs) \<and> sll m' head (drop N zs) \<and>
           SLL_Size m' start = Some N \<and> SLL_Size m' head = Some (length zs - N) \<and>
           SLL_PushRange m' head start fin = Inr (p, m))
         (SLL_PopRange m p (int N))"
proof -
  define xs ys where "xs = take N zs" and "ys = drop N zs"
  have z: "sll m p (xs @ ys)" "xs \<noteq> []" "length xs = N" "length ys = length zs - N"
    using assms by (auto simp: xs_def ys_def)
  note pop = SLL_PopRange_sll [OF z(1,2), of "int N"]
  have b: "last xs \<noteq> 0" "p \<noteq> 0" using pop(2) z(2,3) chain_last [of _ p xs 0] chain_hd [of _ p xs 0] by blast+
  have "(m(last xs := 0))(last xs := m (last xs)) = m" by simp
  then show ?thesis
    using pop z b unfolding xs_def [symmetric] ys_def [symmetric]
    by (simp add: SLL_Size_def SLL_Size_chain [of _ _ xs] SLL_Size_chain [of _ _ ys] SLL_PushRange_def SLL_SetNext_def)
qed

lemma SLL_PopRange_PushRange_example:
  "let m = (\<lambda>_. 0)(8 := 16, 16 := 24)
   in sll m 8 [8, 16, 24] \<and>
      returns (\<lambda>(start, fin, head, m'). sll m' start [8, 16] \<and> sll m' head [24] \<and>
        SLL_PushRange m' head start fin = Inr (8, m)) (SLL_PopRange m 8 2)"
  using SLL_PopRange_PushRange [of "(\<lambda>_. 0)(8 := 16, 16 := 24)" 8 "[8, 16, 24]" 2]
  by (auto simp: Let_def numeral_2_eq_2 elim!: returns_mono)

end
