(* ===== verification/Ieee_Round.thy ===== *)
theory Ieee_Round
  imports Tc_Prelude "HOL-Library.Log_Nat"
begin

text \<open>
  The floating-point operations the sources use.  A \<open>float\<close> or \<open>double\<close> that is neither infinite
  nor NaN is the rational number it stands for, and every operation is the exact operation
  followed by rounding to the nearest representable number, ties to even, with a significand of
  24 bits (\<open>float\<close>) or 53 bits (\<open>double\<close>).  The exponent range is not bounded: the values of the
  modelled code lie far inside it.
\<close>

definition rat_pow2 :: "int \<Rightarrow> rat" where
  "rat_pow2 e = (if 0 \<le> e then 2 ^ nat e else 1 / 2 ^ nat (- e))"

text \<open>The exponent \<open>e\<close> with \<open>2 ^ e \<le> x < 2 ^ (e + 1)\<close>, for a positive rational \<open>x\<close>.\<close>

definition rat_log2 :: "rat \<Rightarrow> int" where
  "rat_log2 x = (let (a, b) = quotient_of x;
                     e = int (floorlog 2 (nat a)) - int (floorlog 2 (nat b))
                 in if rat_pow2 e \<le> x then e else e - 1)"

text \<open>Round to the nearest integer, ties to even.\<close>

definition rat_rne :: "rat \<Rightarrow> int" where
  "rat_rne x = (let f = \<lfloor>x\<rfloor>; d = x - of_int f
                in if d < 1 / 2 then f else if 1 / 2 < d then f + 1
                   else if even f then f else f + 1)"

definition ieee_round :: "nat \<Rightarrow> rat \<Rightarrow> rat" where
  "ieee_round p x =
     (if x = 0 then 0
      else let u = rat_pow2 (rat_log2 \<bar>x\<bar> - int p + 1) in of_int (rat_rne (x / u)) * u)"

abbreviation dbl :: "rat \<Rightarrow> rat" where "dbl \<equiv> ieee_round 53"
abbreviation flt :: "rat \<Rightarrow> rat" where "flt \<equiv> ieee_round 24"

text \<open>Conversion to \<open>int\<close> truncates towards zero.\<close>

definition rat_trunc :: "rat \<Rightarrow> int" where
  "rat_trunc x = (if 0 \<le> x then \<lfloor>x\<rfloor> else \<lceil>x\<rceil>)"

section \<open>Basic facts\<close>

lemma rat_pow2_pos [simp]: "0 < rat_pow2 e"
  by (simp add: rat_pow2_def)

lemma rat_pow2_nonzero [simp]: "rat_pow2 e \<noteq> 0"
  by (simp add: rat_pow2_def)

lemma rat_pow2_powi: "rat_pow2 e = 2 powi e"
  by (simp add: rat_pow2_def power_int_def field_simps)

lemma rat_pow2_add: "rat_pow2 (a + b) = rat_pow2 a * rat_pow2 b"
  by (simp add: rat_pow2_powi power_int_add)

lemma rat_pow2_nat: "rat_pow2 (int n) = 2 ^ n"
  by (simp add: rat_pow2_def)

lemma rat_pow2_neg: "rat_pow2 (- int n) = 1 / 2 ^ n"
  by (cases n) (simp_all add: rat_pow2_def nat_add_distrib)

lemma rat_pow2_mono: "a \<le> b \<Longrightarrow> rat_pow2 a \<le> rat_pow2 b"
  by (simp add: rat_pow2_powi power_int_increasing)

lemma rat_rne_of_int [simp]: "rat_rne (of_int n) = n"
  by (simp add: rat_rne_def)

lemma rat_rne_lower: "of_int n \<le> x \<Longrightarrow> n \<le> rat_rne x"
proof -
  assume "of_int n \<le> x"
  then have "n \<le> \<lfloor>x\<rfloor>" by (simp add: le_floor_iff)
  then show ?thesis by (auto simp: rat_rne_def Let_def)
qed

lemma floorlog2_bounds: "0 < n \<Longrightarrow> 2 ^ (floorlog 2 n - 1) \<le> n \<and> n < 2 ^ floorlog 2 n"
  using floorlog_bounds [of n 2] by auto

lemma floorlog2_pos: "0 < n \<Longrightarrow> 0 < floorlog 2 n"
  by (simp add: floorlog_def)

lemma rat_log2_lower:
  assumes "0 < x"
  shows "rat_pow2 (rat_log2 x) \<le> x"
proof -
  obtain a b where ab: "quotient_of x = (a, b)" by (cases "quotient_of x")
  have b: "0 < b" using ab quotient_of_denom_pos by blast
  have x: "x = of_int a / of_int b" using ab by (rule quotient_of_div)
  have a: "0 < a" using assms x b by (simp add: zero_less_divide_iff)
  define m where "m = floorlog 2 (nat a)"
  define n where "n = floorlog 2 (nat b)"
  have mn: "0 < m" "0 < n" using a b by (simp_all add: m_def n_def floorlog2_pos)
  have "2 ^ (m - 1) \<le> nat a" using floorlog2_bounds [of "nat a"] a by (simp add: m_def)
  then have ra: "(2::rat) ^ (m - 1) \<le> of_int a"
    using a by (metis of_int_le_iff of_int_numeral of_int_power of_nat_le_iff of_nat_numeral
        of_nat_power zero_less_imp_eq_int nat_int)
  have "nat b < 2 ^ n" using floorlog2_bounds [of "nat b"] b by (simp add: n_def)
  then have rb: "of_int b \<le> (2::rat) ^ n"
    using b by (metis less_imp_le of_int_le_iff of_int_numeral of_int_power of_nat_le_iff
        of_nat_numeral of_nat_power zero_less_imp_eq_int nat_int)
  have "rat_pow2 (int m - int n - 1) = rat_pow2 (int (m - 1)) * rat_pow2 (- int n)"
    using mn by (subst rat_pow2_add [symmetric]) (simp add: of_nat_diff algebra_simps)
  also have "\<dots> = 2 ^ (m - 1) / 2 ^ n"
    by (simp only: rat_pow2_nat rat_pow2_neg) simp
  also have "\<dots> \<le> of_int a / of_int b"
    using ra rb a b by (intro frac_le) auto
  finally have "rat_pow2 (int m - int n - 1) \<le> x" using x by simp
  then show ?thesis
    using ab by (simp add: rat_log2_def Let_def m_def n_def)
qed

lemma ieee_round_0 [simp]: "ieee_round p 0 = 0"
  by (simp add: ieee_round_def)

text \<open>Integers that fit the significand are represented exactly.\<close>

lemma ieee_round_int:
  assumes "\<bar>n\<bar> < 2 ^ p"
  shows "ieee_round p (of_int n) = of_int n"
proof (cases "n = 0")
  case False
  define e where "e = rat_log2 \<bar>of_int n\<bar>"
  have "rat_pow2 e \<le> \<bar>of_int n\<bar>" using False by (simp add: e_def rat_log2_lower)
  also have "\<bar>of_int n :: rat\<bar> < rat_pow2 (int p)"
    using assms by (simp add: rat_pow2_nat) (metis of_int_abs of_int_less_iff of_int_numeral of_int_power)
  finally have "e < int p" using rat_pow2_mono [of "int p" e] by (cases "e < int p") auto
  then have k: "e - int p + 1 = - int (nat (int p - e - 1))" (is "_ = - int ?k") by simp
  have u: "rat_pow2 (e - int p + 1) = 1 / 2 ^ ?k" by (subst k) (rule rat_pow2_neg)
  have "(of_int n :: rat) / (1 / 2 ^ ?k) = of_int (n * 2 ^ ?k)" by simp
  then have "rat_rne ((of_int n :: rat) / (1 / 2 ^ ?k)) = n * 2 ^ ?k"
    by (simp only: rat_rne_of_int)
  then show ?thesis
    using False by (simp add: ieee_round_def Let_def e_def [symmetric] u)
qed simp

text \<open>Rounding never takes a number that is at least 1 below 1.\<close>

lemma ieee_round_ge_1:
  assumes "1 \<le> x" and "0 < p"
  shows "1 \<le> ieee_round p x"
proof -
  have x: "0 < x" "\<bar>x\<bar> = x" using assms by auto
  define e where "e = rat_log2 x"
  define u where "u = rat_pow2 (e - int p + 1)"
  have le: "rat_pow2 e \<le> x" using x by (simp add: e_def rat_log2_lower)
  have up: "0 < u" by (simp add: u_def)
  have main: "1 \<le> of_int (rat_rne (x / u)) * u"
  proof (cases "e - int p + 1 \<le> 0")
    case True
    define k where "k = nat (- (e - int p + 1))"
    have "e - int p + 1 = - int k" using True by (simp add: k_def)
    then have u: "u = 1 / 2 ^ k" by (simp only: u_def rat_pow2_neg)
    have "of_int (2 ^ k) \<le> x / u" using assms(1) by (simp add: u)
    then have "2 ^ k \<le> rat_rne (x / u)" by (rule rat_rne_lower)
    then have "of_int (2 ^ k) \<le> (of_int (rat_rne (x / u)) :: rat)" by (simp only: of_int_le_iff)
    then show ?thesis by (simp add: u field_simps)
  next
    case False
    have "rat_pow2 (e - int p + 1) \<le> rat_pow2 e" using assms(2) by (intro rat_pow2_mono) simp
    with le have "u \<le> x" by (simp add: u_def)
    then have "of_int 1 \<le> x / u" using up by (simp add: le_divide_eq)
    then have "1 \<le> rat_rne (x / u)" by (rule rat_rne_lower)
    then have r: "(1::rat) \<le> of_int (rat_rne (x / u))" by simp
    have "1 \<le> u" using False rat_pow2_mono [of 0 "e - int p + 1"]
      by (simp add: u_def rat_pow2_def)
    with r show ?thesis using mult_mono [of 1 "of_int (rat_rne (x / u))" 1 u] by simp
  qed
  then show ?thesis using x by (simp add: ieee_round_def Let_def u_def e_def)
qed

lemma rat_trunc_of_int [simp]: "rat_trunc (of_int n) = n"
  by (simp add: rat_trunc_def)

lemma rat_rne_error: "\<bar>of_int (rat_rne x) - x\<bar> \<le> 1 / 2"
proof -
  have "of_int \<lfloor>x\<rfloor> \<le> x" "x < of_int \<lfloor>x\<rfloor> + 1" by (rule of_int_floor_le, linarith)
  then show ?thesis
    unfolding rat_rne_def Let_def by (auto simp: abs_le_iff algebra_simps)
qed

text \<open>The relative error of rounding.\<close>

lemma ieee_round_error:
  assumes "0 < x"
  shows "\<bar>ieee_round p x - x\<bar> \<le> x / 2 ^ p"
proof -
  define u where "u = rat_pow2 (rat_log2 x - int p + 1)"
  have u: "0 < u" by (simp add: u_def)
  have "u = rat_pow2 (rat_log2 x + (- int p) + 1)" by (simp add: u_def)
  also have "\<dots> = rat_pow2 (rat_log2 x) * (1 / 2 ^ p) * 2"
    by (simp only: rat_pow2_add rat_pow2_neg) (simp add: rat_pow2_def)
  finally have "u = rat_pow2 (rat_log2 x) / 2 ^ p * 2" by simp
  with rat_log2_lower [OF assms] have le: "u / 2 \<le> x / 2 ^ p"
    by (simp add: divide_right_mono)
  have "ieee_round p x - x = (of_int (rat_rne (x / u)) - x / u) * u"
    using assms u by (simp add: ieee_round_def Let_def u_def algebra_simps)
  then have "\<bar>ieee_round p x - x\<bar> = \<bar>of_int (rat_rne (x / u)) - x / u\<bar> * u"
    using u by (simp add: abs_mult)
  also have "\<dots> \<le> 1 / 2 * u" using u by (intro mult_right_mono rat_rne_error) simp
  finally have "\<bar>ieee_round p x - x\<bar> \<le> u / 2" by simp
  then show ?thesis using le by (rule order_trans)
qed

text \<open>Truncating the rounded quotient of integers gives the integer quotient.\<close>

lemma trunc_ieee_div:
  assumes b: "0 < b" and a: "0 < a" and ab: "a * 2 < 2 ^ p"
  shows "rat_trunc (ieee_round p (of_int a / of_int b)) = a div b"
proof -
  define x :: rat where "x = of_int a / of_int b"
  define q where "q = a div b"
  have rb: "(0::rat) < of_int b" using b by simp
  have x: "0 < x" and xb: "x * of_int b = of_int a" using a b rb by (simp_all add: x_def)
  have q: "of_int q * of_int b + of_int (a mod b) = (of_int a :: rat)"
    by (metis div_mult_mod_eq of_int_add of_int_mult q_def)
  have q0: "0 \<le> q" using a b by (simp add: q_def pos_imp_zdiv_nonneg_iff)
  show ?thesis
  proof (cases "a mod b = 0")
    case True
    then have "x = of_int q" using q rb by (simp add: x_def field_simps)
    moreover have "q * 1 \<le> q * b" using b q0 by (intro mult_left_mono) auto
    moreover have "q * b \<le> a" using le_zdiv_iff [OF b, of q a] by (simp add: q_def)
    ultimately show ?thesis
      using ieee_round_int [of q p] ab a q0 unfolding x_def [symmetric] by (simp add: q_def)
  next
    case False
    have m: "1 \<le> a mod b" "a mod b \<le> b - 1"
      using False b pos_mod_sign [OF b, of a] pos_mod_bound [OF b, of a] by linarith+
    then have "(of_int 1 :: rat) \<le> of_int (a mod b)" "(of_int (a mod b) :: rat) \<le> of_int (b - 1)"
      by (simp_all only: of_int_le_iff)
    with q xb have lo: "of_int q * of_int b + 1 \<le> x * of_int b"
        and hi: "x * of_int b \<le> of_int q * of_int b + of_int b - 1" by simp_all
    have "of_int (a * 2) < (of_int (2 ^ p) :: rat)" using ab by (simp only: of_int_less_iff)
    then have "x / 2 ^ p * of_int b < 1 / 2" using xb by (simp add: field_simps)
    moreover have "\<bar>(ieee_round p x - x) * of_int b\<bar> \<le> x / 2 ^ p * of_int b"
      using mult_right_mono [OF ieee_round_error [OF x, of p], of "of_int b"] rb
      by (simp add: abs_mult)
    ultimately have "\<bar>(ieee_round p x - x) * of_int b\<bar> < 1" by linarith
    then have "\<bar>ieee_round p x * of_int b - x * of_int b\<bar> < 1" by (simp only: left_diff_distrib)
    with lo hi have "of_int q * of_int b < ieee_round p x * of_int b"
        and "ieee_round p x * of_int b < of_int q * of_int b + 1 * of_int b" by linarith+
    then have "of_int q * of_int b < ieee_round p x * of_int b"
        and "ieee_round p x * of_int b < (of_int q + 1) * of_int b"
      by (simp_all only: distrib_right)
    with rb have "of_int q < ieee_round p x" "ieee_round p x < of_int q + 1" by simp_all
    moreover from this q0 have "0 \<le> ieee_round p x"
      by (metis le_less_trans less_imp_le of_int_0_le_iff)
    ultimately have "\<lfloor>ieee_round p x\<rfloor> = q" "0 \<le> ieee_round p x" by (simp_all add: floor_eq_iff)
    then show ?thesis unfolding x_def [symmetric] by (simp add: rat_trunc_def q_def)
  qed
qed

lemma rat_trunc_ge_1: "1 \<le> x \<Longrightarrow> 1 \<le> rat_trunc x"
  by (simp add: rat_trunc_def le_floor_iff)

end
