(* ===== verification/Reuse.thy ===== *)
theory Reuse
  imports Ieee_Round
begin

text \<open>
  The reuse model of the allocator (\<open>thread_cache.h\<close>, the code marked "for reuse calculation"):
  while a burst is sampled, the thread cache records for each allocation that takes a freed object
  the time at which that object was freed and the time of the allocation.  \<open>CalculateReuse\<close> turns
  the recorded intervals into the average number of reuses in a window of \<open>k\<close> allocations, for every
  \<open>k\<close>, in time linear in the length of the trace.
\<close>

section \<open>State of one size class\<close>

definition TRACE_LENGTH :: int where "TRACE_LENGTH = 1000"
definition HIBERNATE_LENGTH :: int where "HIBERNATE_LENGTH = - 1"
definition DEFAULT_APF :: int where "DEFAULT_APF = 400"

text \<open>
  The thread cache keeps one array per field, indexed by the size class; the record groups the
  fields of one class.  \<open>hibernate_period_len\<close> is a field of the whole thread cache, the same for
  all its classes.
\<close>

record reuse_state =
  time_cnt :: nat
  reuse :: "rat list"
  reserved :: "rat list"
  reuse_cnt :: int
  reuse_s :: "int list"
  reuse_e :: "int list"
  circle_buffer :: "int list"
  cb_next :: int
  bursty_in_progress :: bool
  bursty_start :: int
  hibernate_counter :: int
  hibernate_period_len :: int
  effective_trace_len :: int

definition reuse_init :: reuse_state where
  "reuse_init = \<lparr> time_cnt = 0,
     reuse = replicate (nat (TRACE_LENGTH + 1)) 0,
     reserved = replicate (nat (TRACE_LENGTH + 1)) 0,
     reuse_cnt = 0,
     reuse_s = replicate (nat (TRACE_LENGTH + 1)) (- 1),
     reuse_e = replicate (nat (TRACE_LENGTH + 1)) (- 1),
     circle_buffer = replicate (nat TRACE_LENGTH) (- 1),
     cb_next = 0,
     bursty_in_progress = True,
     bursty_start = 0,
     hibernate_counter = 1,
     hibernate_period_len = HIBERNATE_LENGTH,
     effective_trace_len = 0 \<rparr>"

section \<open>\<open>CalculateReuse\<close>\<close>

definition lmax :: "int \<Rightarrow> int \<Rightarrow> int" where "lmax a b = (if a > b then a else b)"
definition lmin :: "int \<Rightarrow> int \<Rightarrow> int" where "lmin a b = (if a < b then a else b)"

text \<open>The sums and the histograms of the first loop; \<open>memset\<close> clears the histograms before it.\<close>

record calc_state =
  cX :: int
  cY :: int
  cZ :: int
  X_1 :: "int list"
  X_2 :: "int list"
  Y_1 :: "int list"
  Y_2 :: "int list"
  Z_1 :: "int list"
  Z_2 :: "int list"

definition calc_clear :: calc_state where
  "calc_clear = (let z = replicate (nat (TRACE_LENGTH + 1)) 0 in
     \<lparr> cX = 0, cY = 0, cZ = 0, X_1 = z, X_2 = z, Y_1 = z, Y_2 = z, Z_1 = z, Z_2 = z \<rparr>)"

text \<open>The body of the first loop, for one recorded interval.\<close>

definition calc_add :: "int \<Rightarrow> int \<Rightarrow> int \<Rightarrow> calc_state \<Rightarrow> calc_state res" where
  "calc_add trace_len s e c =
     (let c = (if s = e then c\<lparr>cX := cX c + s, cY := cY c + e, cZ := cZ c + 1\<rparr> else c);
          w = e - s + 1
      in bind_res (incr (X_1 c) s 1) (\<lambda>x1.
         bind_res (incr (X_2 c) w (lmin (trace_len - w) s)) (\<lambda>x2.
         bind_res (incr (Y_1 c) e 1) (\<lambda>y1.
         bind_res (incr (Y_2 c) w (lmax (w - 1) e)) (\<lambda>y2.
         bind_res (incr (Z_1 c) (e - s) 1) (\<lambda>z1.
         bind_res (incr (Z_2 c) w w) (\<lambda>z2.
         Inr (c\<lparr>X_1 := x1, X_2 := x2, Y_1 := y1, Y_2 := y2, Z_1 := z1, Z_2 := z2\<rparr>))))))))"

fun calc_loop1 :: "reuse_state \<Rightarrow> int \<Rightarrow> nat \<Rightarrow> int \<Rightarrow> calc_state \<Rightarrow> calc_state res" where
  "calc_loop1 st trace_len 0 i c = Inr c"
| "calc_loop1 st trace_len (Suc r) i c =
     bind_res (rd (reuse_s st) i) (\<lambda>s.
     bind_res (rd (reuse_e st) i) (\<lambda>e.
     bind_res (calc_add trace_len s e c) (\<lambda>c.
     calc_loop1 st trace_len r (i + 1) c)))"

text \<open>\<open>((double) X - Y + Z) / (d)\<close>, every operation rounded.\<close>

definition reuse_value :: "int \<Rightarrow> int \<Rightarrow> int \<Rightarrow> int \<Rightarrow> rat" where
  "reuse_value X Y Z d =
     dbl (dbl (dbl (dbl (of_int X) - dbl (of_int Y)) + dbl (of_int Z)) / dbl (of_int d))"

record loop_state =
  lX :: int
  lY :: int
  lZ :: int
  XX_1 :: int
  YY_1 :: int
  ZZ_1 :: int
  l_reuse :: "rat list"
  l_reserved :: "rat list"
  ever_max_reserved :: int

definition calc_step :: "int \<Rightarrow> calc_state \<Rightarrow> int \<Rightarrow> loop_state \<Rightarrow> loop_state res" where
  "calc_step trace_len c k l =
     bind_res (rd (X_1 c) (trace_len - (k - 1))) (\<lambda>x1.
     bind_res (rd (X_2 c) k) (\<lambda>x2.
     bind_res (rd (Y_1 c) (k - 2)) (\<lambda>y1.
     bind_res (rd (Y_2 c) k) (\<lambda>y2.
     bind_res (rd (Z_1 c) (k - 2)) (\<lambda>z1.
     bind_res (rd (Z_2 c) k) (\<lambda>z2.
     (let XX = XX_1 l + x1; X = lX l - XX + x2;
          YY = YY_1 l + y1; Y = lY l + YY + y2;
          ZZ = ZZ_1 l + z1; Z = lZ l + ZZ + z2;
          ru = reuse_value X Y Z (trace_len - k + 1);
          re = of_int (rat_trunc (dbl (of_int k - ru)));
          mx = ever_max_reserved l
      in bind_res (wr (l_reuse l) k ru) (\<lambda>reuse'.
         bind_res (wr (l_reserved l) k (if re < of_int mx then of_int mx else re)) (\<lambda>reserved'.
         Inr \<lparr> lX = X, lY = Y, lZ = Z, XX_1 = XX, YY_1 = YY, ZZ_1 = ZZ,
               l_reuse = reuse', l_reserved = reserved',
               ever_max_reserved = (if re < of_int mx then mx else rat_trunc re) \<rparr>)))))))))"

fun calc_loop2 :: "int \<Rightarrow> calc_state \<Rightarrow> nat \<Rightarrow> int \<Rightarrow> loop_state \<Rightarrow> loop_state res" where
  "calc_loop2 trace_len c 0 k l = Inr l"
| "calc_loop2 trace_len c (Suc r) k l =
     bind_res (calc_step trace_len c k l) (\<lambda>l. calc_loop2 trace_len c r (k + 1) l)"

definition CalculateReuse :: "reuse_state \<Rightarrow> int \<Rightarrow> reuse_state res" where
  "CalculateReuse st trace_len =
     bind_res (calc_loop1 st trace_len (nat (reuse_cnt st)) 0 calc_clear) (\<lambda>c.
     bind_res (wr (reuse st) 1 (reuse_value (cX c) (cY c) (cZ c) trace_len)) (\<lambda>reuse'.
     bind_res (wr (reserved st) 1 1) (\<lambda>reserved'.
     bind_res (calc_loop2 trace_len c (nat (trace_len - 1)) 2
       \<lparr> lX = cX c, lY = cY c, lZ = cZ c, XX_1 = 0, YY_1 = 0, ZZ_1 = 0,
         l_reuse = reuse', l_reserved = reserved', ever_max_reserved = 1 \<rparr>) (\<lambda>l.
     (let st = st\<lparr>reuse := l_reuse l, reserved := l_reserved l\<rparr>
      in Inr (if trace_len = TRACE_LENGTH
              then st\<lparr>reuse_cnt := 0, bursty_in_progress := False,
                      hibernate_counter := hibernate_period_len st\<rparr>
              else st))))))"

section \<open>\<open>UpdateReuse\<close>\<close>

definition UpdateReuse :: "reuse_state \<Rightarrow> reuse_state res" where
  "UpdateReuse st =
     (let i = c_rem (cb_next st - 1 + TRACE_LENGTH) TRACE_LENGTH in
      bind_res (rd (circle_buffer st) i) (\<lambda>s_time.
      bind_res
        (if s_time \<ge> bursty_start st then
           bind_res (wr (circle_buffer st) i (- 1)) (\<lambda>cb.
           bind_res (wr (reuse_s st) (reuse_cnt st) (to_int32 (s_time - bursty_start st))) (\<lambda>rs.
           bind_res (wr (reuse_e st) (reuse_cnt st)
                        (to_int32 (int (time_cnt st) - bursty_start st))) (\<lambda>re.
           Inr (st\<lparr>circle_buffer := cb, cb_next := i, reuse_s := rs, reuse_e := re,
                   reuse_cnt := reuse_cnt st + 1\<rparr>))))
         else Inr st) (\<lambda>st.
      (let u = to_int32 (int (time_cnt st) - bursty_start st + 1) in
       if u = 100 \<or> u = 200 \<or> u = 500 \<or> u = 1000 \<or> u = 5000 \<or> u = 10000 \<or> u = TRACE_LENGTH
       then CalculateReuse (st\<lparr>effective_trace_len := u\<rparr>) u
       else Inr st))))"

section \<open>Reference: reuses in all windows of length \<open>k\<close>\<close>

text \<open>The recorded intervals: freed at the first component, allocated again at the second.\<close>

definition intervals :: "reuse_state \<Rightarrow> (int \<times> int) list" where
  "intervals st = zip (take (nat (reuse_cnt st)) (reuse_s st)) (take (nat (reuse_cnt st)) (reuse_e st))"

text \<open>
  In a trace of \<open>n\<close> allocations, numbered from 0, the windows of length \<open>k\<close> start at \<open>0, ..., n - k\<close>;
  a window contains a reuse when both ends of the interval lie in it.
\<close>

definition window_reuses :: "(int \<times> int) list \<Rightarrow> int \<Rightarrow> int \<Rightarrow> int" where
  "window_reuses ps k j = (\<Sum>(s, e) \<leftarrow> ps. if j \<le> s \<and> e \<le> j + k - 1 then 1 else 0)"

definition total_reuses :: "(int \<times> int) list \<Rightarrow> int \<Rightarrow> int \<Rightarrow> int" where
  "total_reuses ps n k = (\<Sum>j = 0..n - k. window_reuses ps k j)"

definition avg_reuse :: "(int \<times> int) list \<Rightarrow> int \<Rightarrow> int \<Rightarrow> rat" where
  "avg_reuse ps n k = dbl (of_int (total_reuses ps n k) / of_int (n - k + 1))"

text \<open>
  The number of objects to reserve for \<open>k\<close> allocations: what the reuses do not cover, made
  monotone in \<open>k\<close>.
\<close>

definition reserve_target :: "(int \<times> int) list \<Rightarrow> int \<Rightarrow> int \<Rightarrow> int" where
  "reserve_target ps n k =
     Max (insert 1 ((\<lambda>j. rat_trunc (dbl (of_int j - avg_reuse ps n j))) ` {2..k}))"

definition reuse_wf :: "reuse_state \<Rightarrow> bool" where
  "reuse_wf st \<longleftrightarrow>
     length (reuse st) = nat (TRACE_LENGTH + 1) \<and> length (reserved st) = nat (TRACE_LENGTH + 1) \<and>
     length (reuse_s st) = nat (TRACE_LENGTH + 1) \<and> length (reuse_e st) = nat (TRACE_LENGTH + 1) \<and>
     length (circle_buffer st) = nat TRACE_LENGTH \<and>
     0 \<le> reuse_cnt st \<and> reuse_cnt st \<le> TRACE_LENGTH + 1 \<and>
     0 \<le> cb_next st \<and> cb_next st < TRACE_LENGTH"

definition intervals_in :: "int \<Rightarrow> (int \<times> int) list \<Rightarrow> bool" where
  "intervals_in n ps \<longleftrightarrow> (\<forall>(s, e) \<in> set ps. 0 \<le> s \<and> s \<le> e \<and> e < n)"

end
