(* ===== verification/Reuse_Correct.thy ===== *)
theory Reuse_Correct
  imports Reuse
begin

text \<open>
  \<open>CalculateReuse\<close> is correct: the two linear loops compute, for every window length \<open>k\<close>, exactly
  the average of the reference definition \<open>total_reuses\<close>; the target \<open>reserved\<close> is at least 1 and
  grows with \<open>k\<close>.  The state that the loops carry is described by sums over the recorded intervals,
  one lemma per loop.
\<close>

section \<open>Closed forms\<close>

text \<open>The contribution of one interval to the three sums at window length \<open>k\<close>.\<close>

definition Xsum :: "(int \<times> int) list \<Rightarrow> int \<Rightarrow> int \<Rightarrow> int" where
  "Xsum ps n k = (\<Sum>(s, e) \<leftarrow> ps. if e - s + 1 \<le> k then min (n - k) s else 0)"

definition Ysum :: "(int \<times> int) list \<Rightarrow> int \<Rightarrow> int" where
  "Ysum ps k = (\<Sum>(s, e) \<leftarrow> ps. if e - s + 1 \<le> k then max (k - 1) e else 0)"

definition Zsum :: "(int \<times> int) list \<Rightarrow> int \<Rightarrow> int" where
  "Zsum ps k = (\<Sum>(s, e) \<leftarrow> ps. if e - s + 1 \<le> k then k else 0)"

definition count_if :: "(int \<Rightarrow> int \<Rightarrow> bool) \<Rightarrow> (int \<times> int) list \<Rightarrow> int" where
  "count_if P ps = (\<Sum>(s, e) \<leftarrow> ps. if P s e then 1 else 0)"

definition sum_if :: "(int \<Rightarrow> int \<Rightarrow> bool) \<Rightarrow> (int \<Rightarrow> int \<Rightarrow> int) \<Rightarrow> (int \<times> int) list \<Rightarrow> int" where
  "sum_if P f ps = (\<Sum>(s, e) \<leftarrow> ps. if P s e then f s e else 0)"

text \<open>What the first loop has collected from the intervals \<open>ps\<close>.\<close>

definition collected :: "int \<Rightarrow> (int \<times> int) list \<Rightarrow> calc_state \<Rightarrow> bool" where
  "collected n ps c \<longleftrightarrow>
     length (X_1 c) = 1001 \<and> length (X_2 c) = 1001 \<and> length (Y_1 c) = 1001 \<and>
     length (Y_2 c) = 1001 \<and> length (Z_1 c) = 1001 \<and> length (Z_2 c) = 1001 \<and>
     cX c = sum_if (\<lambda>s e. s = e) (\<lambda>s e. s) ps \<and> cY c = sum_if (\<lambda>s e. s = e) (\<lambda>s e. e) ps \<and>
     cZ c = count_if (\<lambda>s e. s = e) ps \<and>
     (\<forall>j. 0 \<le> j \<and> j \<le> 1000 \<longrightarrow>
        X_1 c ! nat j = count_if (\<lambda>s e. s = j) ps \<and>
        X_2 c ! nat j = sum_if (\<lambda>s e. e - s + 1 = j) (\<lambda>s e. min (n - j) s) ps \<and>
        Y_1 c ! nat j = count_if (\<lambda>s e. e = j) ps \<and>
        Y_2 c ! nat j = sum_if (\<lambda>s e. e - s + 1 = j) (\<lambda>s e. max (j - 1) e) ps \<and>
        Z_1 c ! nat j = count_if (\<lambda>s e. e - s = j) ps \<and>
        Z_2 c ! nat j = sum_if (\<lambda>s e. e - s + 1 = j) (\<lambda>s e. j) ps)"

lemma lmin_min: "lmin a b = min a b"
  by (auto simp: lmin_def)

lemma lmax_max: "lmax a b = max a b"
  by (auto simp: lmax_def)

lemma sums_Nil [simp]:
  "count_if P [] = 0" "sum_if P f [] = 0" "Xsum [] n k = 0" "Ysum [] k = 0" "Zsum [] k = 0"
  by (simp_all add: count_if_def sum_if_def Xsum_def Ysum_def Zsum_def)

lemma sums_snoc [simp]:
  "count_if P (ps @ [(s, e)]) = count_if P ps + (if P s e then 1 else 0)"
  "sum_if P f (ps @ [(s, e)]) = sum_if P f ps + (if P s e then f s e else 0)"
  by (simp_all add: count_if_def sum_if_def)

lemma sums_Cons [simp]:
  "count_if P ((s, e) # ps) = (if P s e then 1 else 0) + count_if P ps"
  "sum_if P f ((s, e) # ps) = (if P s e then f s e else 0) + sum_if P f ps"
  "Xsum ((s, e) # ps) n k = (if e - s + 1 \<le> k then min (n - k) s else 0) + Xsum ps n k"
  "Ysum ((s, e) # ps) k = (if e - s + 1 \<le> k then max (k - 1) e else 0) + Ysum ps k"
  "Zsum ((s, e) # ps) k = (if e - s + 1 \<le> k then k else 0) + Zsum ps k"
  by (simp_all add: count_if_def sum_if_def Xsum_def Ysum_def Zsum_def)

lemma intervals_in_Nil [simp]: "intervals_in n []"
  by (simp add: intervals_in_def)

lemma intervals_in_Cons [simp]:
  "intervals_in n ((s, e) # ps) \<longleftrightarrow> 0 \<le> s \<and> s \<le> e \<and> e < n \<and> intervals_in n ps"
  by (auto simp: intervals_in_def)

section \<open>The first loop\<close>

lemma collected_clear: "collected n [] calc_clear"
  by (auto simp: collected_def calc_clear_def Let_def TRACE_LENGTH_def nat_less_iff)

lemma nth_incr:
  "length xs = 1001 \<Longrightarrow> 0 \<le> i \<Longrightarrow> i \<le> 1000 \<Longrightarrow> 0 \<le> j \<Longrightarrow> j \<le> 1000 \<Longrightarrow>
   xs[nat i := xs ! nat i + d] ! nat j = xs ! nat j + (if i = j then d else (0::int))"
  by (auto simp: nth_list_update nat_eq_iff)

lemma calc_add_collected:
  assumes col: "collected n ps c" and n: "n \<le> 1000" and se: "0 \<le> s" "s \<le> e" "e < n"
  shows "\<exists>c'. calc_add n s e c = Inr c' \<and> collected n (ps @ [(s, e)]) c'"
proof -
  define w where "w = e - s + 1"
  define c0 where "c0 = (if s = e then c\<lparr>cX := cX c + s, cY := cY c + e, cZ := cZ c + 1\<rparr> else c)"
  have w: "1 \<le> w" "w \<le> 1000" using n se by (auto simp: w_def)
  have arr: "X_1 c0 = X_1 c" "X_2 c0 = X_2 c" "Y_1 c0 = Y_1 c" "Y_2 c0 = Y_2 c"
      "Z_1 c0 = Z_1 c" "Z_2 c0 = Z_2 c"
    by (simp_all add: c0_def)
  have len: "length (X_1 c) = 1001" "length (X_2 c) = 1001" "length (Y_1 c) = 1001"
      "length (Y_2 c) = 1001" "length (Z_1 c) = 1001" "length (Z_2 c) = 1001"
    using col by (simp_all add: collected_def)
  define c' where "c' = c0\<lparr>
      X_1 := (X_1 c)[nat s := X_1 c ! nat s + 1],
      X_2 := (X_2 c)[nat w := X_2 c ! nat w + min (n - w) s],
      Y_1 := (Y_1 c)[nat e := Y_1 c ! nat e + 1],
      Y_2 := (Y_2 c)[nat w := Y_2 c ! nat w + max (w - 1) e],
      Z_1 := (Z_1 c)[nat (e - s) := Z_1 c ! nat (e - s) + 1],
      Z_2 := (Z_2 c)[nat w := Z_2 c ! nat w + w]\<rparr>"
  have "calc_add n s e c = Inr c'"
    unfolding calc_add_def Let_def c0_def [symmetric] w_def [symmetric] arr
    using n se w len by (simp add: c'_def lmin_min lmax_max)
  moreover have "collected n (ps @ [(s, e)]) c'"
    unfolding collected_def
  proof (intro conjI allI impI)
    fix j :: int assume j: "0 \<le> j \<and> j \<le> 1000"
    have old: "X_1 c ! nat j = count_if (\<lambda>s e. s = j) ps"
        "X_2 c ! nat j = sum_if (\<lambda>s e. e - s + 1 = j) (\<lambda>s e. min (n - j) s) ps"
        "Y_1 c ! nat j = count_if (\<lambda>s e. e = j) ps"
        "Y_2 c ! nat j = sum_if (\<lambda>s e. e - s + 1 = j) (\<lambda>s e. max (j - 1) e) ps"
        "Z_1 c ! nat j = count_if (\<lambda>s e. e - s = j) ps"
        "Z_2 c ! nat j = sum_if (\<lambda>s e. e - s + 1 = j) (\<lambda>s e. j) ps"
      using col j by (simp_all add: collected_def)
    show "X_1 c' ! nat j = count_if (\<lambda>s e. s = j) (ps @ [(s, e)])"
      using j se n len by (simp add: c'_def nth_incr old)
    show "X_2 c' ! nat j = sum_if (\<lambda>s e. e - s + 1 = j) (\<lambda>s e. min (n - j) s) (ps @ [(s, e)])"
      using j w len by (simp add: c'_def nth_incr old) (simp add: w_def)
    show "Y_1 c' ! nat j = count_if (\<lambda>s e. e = j) (ps @ [(s, e)])"
      using j se n len by (simp add: c'_def nth_incr old)
    show "Y_2 c' ! nat j = sum_if (\<lambda>s e. e - s + 1 = j) (\<lambda>s e. max (j - 1) e) (ps @ [(s, e)])"
      using j w len by (simp add: c'_def nth_incr old) (simp add: w_def)
    show "Z_1 c' ! nat j = count_if (\<lambda>s e. e - s = j) (ps @ [(s, e)])"
      using j se n len by (simp add: c'_def nth_incr old)
    show "Z_2 c' ! nat j = sum_if (\<lambda>s e. e - s + 1 = j) (\<lambda>s e. j) (ps @ [(s, e)])"
      using j w len by (simp add: c'_def nth_incr old) (simp add: w_def)
  qed (use col in \<open>simp_all add: collected_def c'_def c0_def\<close>)
  ultimately show ?thesis by blast
qed

lemma calc_loop1_collected:
  assumes "collected n ps c" and "n \<le> 1000"
    and "\<And>k. k < r \<Longrightarrow> rd (reuse_s st) (i + int k) = Inr (fst (qs ! k)) \<and>
                       rd (reuse_e st) (i + int k) = Inr (snd (qs ! k))"
    and "length qs = r" and "intervals_in n qs"
  shows "\<exists>c'. calc_loop1 st n r i c = Inr c' \<and> collected n (ps @ qs) c'"
  using assms
proof (induction r arbitrary: i c ps qs)
  case (Suc r)
  obtain s e qs' where qs: "qs = (s, e) # qs'" using Suc.prems(4) by (cases qs) auto
  have se: "0 \<le> s" "s \<le> e" "e < n" and qs': "intervals_in n qs'" "length qs' = r"
    using Suc.prems(4,5) qs by auto
  obtain c1 where c1: "calc_add n s e c = Inr c1" "collected n (ps @ [(s, e)]) c1"
    using calc_add_collected [OF Suc.prems(1,2) se] by blast
  have step: "rd (reuse_s st) (i + 1 + int k) = Inr (fst (qs' ! k)) \<and>
              rd (reuse_e st) (i + 1 + int k) = Inr (snd (qs' ! k))" if "k < r" for k
    using Suc.prems(3) [of "Suc k"] that qs by (simp add: algebra_simps)
  obtain c' where "calc_loop1 st n r (i + 1) c1 = Inr c'" "collected n ((ps @ [(s, e)]) @ qs') c'"
    using Suc.IH [OF c1(2) Suc.prems(2) step qs'(2,1)] by blast
  moreover have "rd (reuse_s st) i = Inr s" "rd (reuse_e st) i = Inr e"
    using Suc.prems(3) [of 0] qs by simp_all
  ultimately show ?case using c1 qs by simp
qed simp

section \<open>The second loop\<close>

text \<open>One step of the recurrences, for the sums over the intervals.\<close>

lemma Xsum_step:
  "intervals_in n ps \<Longrightarrow>
   Xsum ps n k = Xsum ps n (k - 1) - count_if (\<lambda>s e. n - k + 1 \<le> s) ps +
     sum_if (\<lambda>s e. e - s + 1 = k) (\<lambda>s e. min (n - k) s) ps"
  by (induction ps) (auto simp: min_def)

lemma Ysum_step:
  "intervals_in n ps \<Longrightarrow>
   Ysum ps k = Ysum ps (k - 1) + count_if (\<lambda>s e. e \<le> k - 2) ps +
     sum_if (\<lambda>s e. e - s + 1 = k) (\<lambda>s e. max (k - 1) e) ps"
  by (induction ps) (auto simp: max_def)

lemma Zsum_step:
  "Zsum ps k = Zsum ps (k - 1) + count_if (\<lambda>s e. e - s + 1 \<le> k - 1) ps +
     sum_if (\<lambda>s e. e - s + 1 = k) (\<lambda>s e. k) ps"
  by (induction ps) auto

lemma count_step:
  "count_if (\<lambda>s e. n - k + 1 \<le> s) ps =
     count_if (\<lambda>s e. n - (k - 1) + 1 \<le> s) ps + count_if (\<lambda>s e. s = n - (k - 1)) ps"
  "count_if (\<lambda>s e. e \<le> k - 2) ps =
     count_if (\<lambda>s e. e \<le> k - 1 - 2) ps + count_if (\<lambda>s e. e = k - 2) ps"
  "count_if (\<lambda>s e. e - s + 1 \<le> k - 1) ps =
     count_if (\<lambda>s e. e - s + 1 \<le> k - 1 - 1) ps + count_if (\<lambda>s e. e - s = k - 2) ps"
  by (induction ps) auto

lemma sums_at_1:
  assumes "intervals_in n ps"
  shows "sum_if (\<lambda>s e. s = e) (\<lambda>s e. s) ps = Xsum ps n 1"
    and "sum_if (\<lambda>s e. s = e) (\<lambda>s e. e) ps = Ysum ps 1"
    and "count_if (\<lambda>s e. s = e) ps = Zsum ps 1"
    and "count_if (\<lambda>s e. n - 1 + 1 \<le> s) ps = 0"
    and "count_if (\<lambda>s e. e \<le> 1 - 2) ps = 0"
    and "count_if (\<lambda>s e. e - s + 1 \<le> 1 - 1) ps = 0"
  using assms by (induction ps) auto

lemma sums_bounds:
  assumes "intervals_in n ps" and "1 \<le> k" and "k \<le> n"
  shows "0 \<le> Xsum ps n k \<and> Xsum ps n k \<le> int (length ps) * n"
    and "0 \<le> Ysum ps k \<and> Ysum ps k \<le> int (length ps) * n"
    and "0 \<le> Zsum ps k \<and> Zsum ps k \<le> int (length ps) * n"
  using assms by (induction ps) (auto simp: algebra_simps)

section \<open>The reference\<close>

lemma window_count:
  fixes n k s e :: int
  assumes "0 \<le> s" "s \<le> e" "e < n" "1 \<le> k" "k \<le> n"
  shows "(\<Sum>j = 0..n - k. if j \<le> s \<and> e \<le> j + k - 1 then 1 else 0) =
    (if e - s + 1 \<le> k then min (n - k) s - max (k - 1) e + k else 0)"
proof -
  have "(\<Sum>j = 0..n - k. if j \<le> s \<and> e \<le> j + k - 1 then 1 else (0::int)) =
        int (card ({0..n - k} \<inter> {j. j \<le> s \<and> e \<le> j + k - 1}))"
    by (simp add: sum.If_cases)
  also have "{0..n - k} \<inter> {j. j \<le> s \<and> e \<le> j + k - 1} = {max 0 (e - k + 1)..min (n - k) s}"
    using assms by auto
  also have "int (card \<dots>) = (if e - s + 1 \<le> k then min (n - k) s - max (k - 1) e + k else 0)"
    using assms by (auto simp: min_def max_def)
  finally show ?thesis .
qed

lemma total_reuses_closed:
  assumes "intervals_in n ps" and "1 \<le> k" and "k \<le> n"
  shows "total_reuses ps n k = Xsum ps n k - Ysum ps k + Zsum ps k"
  using assms
proof (induction ps)
  case Nil
  then show ?case by (simp add: total_reuses_def window_reuses_def)
next
  case (Cons p ps)
  obtain s e where p: "p = (s, e)" by (cases p)
  have "total_reuses (p # ps) n k =
      (\<Sum>j = 0..n - k. if j \<le> s \<and> e \<le> j + k - 1 then 1 else 0) + total_reuses ps n k"
    by (simp add: total_reuses_def window_reuses_def p sum.distrib)
  also have "(\<Sum>j = 0..n - k. if j \<le> s \<and> e \<le> j + k - 1 then 1 else 0) =
      (if e - s + 1 \<le> k then min (n - k) s - max (k - 1) e + k else 0)"
    using Cons.prems p by (intro window_count) auto
  also have "total_reuses ps n k = Xsum ps n k - Ysum ps k + Zsum ps k"
    using Cons.prems p by (intro Cons.IH) auto
  finally show ?case by (simp add: p)
qed

section \<open>Loop invariant\<close>

lemma reserve_target_1: "reserve_target ps n 1 = 1"
  by (simp add: reserve_target_def)

lemma reserve_target_step:
  assumes "2 \<le> k"
  shows "reserve_target ps n k =
    max (reserve_target ps n (k - 1)) (rat_trunc (dbl (of_int k - avg_reuse ps n k)))"
proof -
  let ?f = "\<lambda>j. rat_trunc (dbl (of_int j - avg_reuse ps n j))"
  have "{2..k} = insert k {2..k - 1}" using assms by auto
  then have "insert 1 (?f ` {2..k}) = insert (?f k) (insert 1 (?f ` {2..k - 1}))" by auto
  then show ?thesis
    by (simp only: reserve_target_def) (subst Max_insert, auto simp: max.commute)
qed

lemma reuse_value_exact:
  assumes "\<bar>X\<bar> < 2 ^ 50" "\<bar>Y\<bar> < 2 ^ 50" "\<bar>Z\<bar> < 2 ^ 50" "\<bar>d\<bar> < 2 ^ 50"
  shows "reuse_value X Y Z d = dbl (of_int (X - Y + Z) / of_int d)"
proof -
  have ex: "dbl (of_int x) = of_int x" if "\<bar>x\<bar> < 2 ^ 53" for x
    using that by (rule ieee_round_int)
  have "dbl (of_int X - of_int Y) = of_int (X - Y)"
    using ex [of "X - Y"] assms by simp
  moreover have "dbl (of_int (X - Y) + of_int Z) = of_int (X - Y + Z)"
    using ex [of "X - Y + Z"] assms by simp
  ultimately show ?thesis
    using assms by (simp add: reuse_value_def ex)
qed

lemma reuse_value_avg:
  assumes "intervals_in n ps" "length ps \<le> 1001" "1 \<le> k" "k \<le> n" "n \<le> 1000"
  shows "reuse_value (Xsum ps n k) (Ysum ps k) (Zsum ps k) (n - k + 1) = avg_reuse ps n k"
proof -
  have "int (length ps) * n \<le> 1001 * 1000" using assms by (intro mult_mono) auto
  then have "\<bar>Xsum ps n k\<bar> < 2 ^ 50 \<and> \<bar>Ysum ps k\<bar> < 2 ^ 50 \<and> \<bar>Zsum ps k\<bar> < 2 ^ 50"
    using sums_bounds [OF assms(1,3,4)] by simp
  then show ?thesis
    using assms by (simp add: reuse_value_exact avg_reuse_def total_reuses_closed)
qed

definition loop_inv :: "int \<Rightarrow> (int \<times> int) list \<Rightarrow> int \<Rightarrow> loop_state \<Rightarrow> bool" where
  "loop_inv n ps k l \<longleftrightarrow>
     lX l = Xsum ps n k \<and> lY l = Ysum ps k \<and> lZ l = Zsum ps k \<and>
     XX_1 l = count_if (\<lambda>s e. n - k + 1 \<le> s) ps \<and> YY_1 l = count_if (\<lambda>s e. e \<le> k - 2) ps \<and>
     ZZ_1 l = count_if (\<lambda>s e. e - s + 1 \<le> k - 1) ps \<and>
     length (l_reuse l) = 1001 \<and> length (l_reserved l) = 1001 \<and>
     ever_max_reserved l = reserve_target ps n k \<and>
     (\<forall>j. 1 \<le> j \<and> j \<le> k \<longrightarrow>
        l_reuse l ! nat j = avg_reuse ps n j \<and>
        l_reserved l ! nat j = of_int (reserve_target ps n j))"

lemma nth_upd_1001:
  "length xs = 1001 \<Longrightarrow> 0 \<le> i \<Longrightarrow> i \<le> 1000 \<Longrightarrow> 0 \<le> j \<Longrightarrow> j \<le> 1000 \<Longrightarrow>
   xs[nat i := v] ! nat j = (if i = j then v else xs ! nat j)"
  by (auto simp: nth_list_update nat_eq_iff)

lemma calc_step_inv:
  assumes inv: "loop_inv n ps (k - 1) l" and col: "collected n ps c" and iv: "intervals_in n ps"
    and len: "length ps \<le> 1001" and k: "2 \<le> k" "k \<le> n" and n: "n \<le> 1000"
  shows "\<exists>l'. calc_step n c k l = Inr l' \<and> loop_inv n ps k l'"
proof -
  have arr: "length (X_1 c) = 1001" "length (X_2 c) = 1001" "length (Y_1 c) = 1001"
      "length (Y_2 c) = 1001" "length (Z_1 c) = 1001" "length (Z_2 c) = 1001"
      "X_1 c ! nat (n - (k - 1)) = count_if (\<lambda>s e. s = n - (k - 1)) ps"
      "X_2 c ! nat k = sum_if (\<lambda>s e. e - s + 1 = k) (\<lambda>s e. min (n - k) s) ps"
      "Y_1 c ! nat (k - 2) = count_if (\<lambda>s e. e = k - 2) ps"
      "Y_2 c ! nat k = sum_if (\<lambda>s e. e - s + 1 = k) (\<lambda>s e. max (k - 1) e) ps"
      "Z_1 c ! nat (k - 2) = count_if (\<lambda>s e. e - s = k - 2) ps"
      "Z_2 c ! nat k = sum_if (\<lambda>s e. e - s + 1 = k) (\<lambda>s e. k) ps"
    using col k n by (simp_all add: collected_def)
  have old: "lX l = Xsum ps n (k - 1)" "lY l = Ysum ps (k - 1)" "lZ l = Zsum ps (k - 1)"
      "XX_1 l = count_if (\<lambda>s e. n - (k - 1) + 1 \<le> s) ps"
      "YY_1 l = count_if (\<lambda>s e. e \<le> k - 1 - 2) ps"
      "ZZ_1 l = count_if (\<lambda>s e. e - s + 1 \<le> k - 1 - 1) ps"
      "length (l_reuse l) = 1001" "length (l_reserved l) = 1001"
      "ever_max_reserved l = reserve_target ps n (k - 1)"
    using inv by (simp_all add: loop_inv_def)
  define ru where "ru = avg_reuse ps n k"
  define re where "re = rat_trunc (dbl (of_int k - ru))"
  define mx where "mx = reserve_target ps n (k - 1)"
  have ru: "reuse_value (Xsum ps n k) (Ysum ps k) (Zsum ps k) (n - k + 1) = ru"
    unfolding ru_def using reuse_value_avg [OF iv len _ k(2) n] k by simp
  have tgt: "reserve_target ps n k = max mx re"
    using reserve_target_step [OF k(1)] by (simp add: mx_def re_def ru_def)
  define l' where "l' = \<lparr> lX = Xsum ps n k, lY = Ysum ps k, lZ = Zsum ps k,
      XX_1 = count_if (\<lambda>s e. n - k + 1 \<le> s) ps, YY_1 = count_if (\<lambda>s e. e \<le> k - 2) ps,
      ZZ_1 = count_if (\<lambda>s e. e - s + 1 \<le> k - 1) ps,
      l_reuse = (l_reuse l)[nat k := ru],
      l_reserved = (l_reserved l)[nat k := of_int (max mx re)],
      ever_max_reserved = max mx re \<rparr>"
  have rds: "rd (X_1 c) (n - (k - 1)) = Inr (X_1 c ! nat (n - (k - 1)))"
      "rd (X_2 c) k = Inr (X_2 c ! nat k)" "rd (Y_1 c) (k - 2) = Inr (Y_1 c ! nat (k - 2))"
      "rd (Y_2 c) k = Inr (Y_2 c ! nat k)" "rd (Z_1 c) (k - 2) = Inr (Z_1 c ! nat (k - 2))"
      "rd (Z_2 c) k = Inr (Z_2 c ! nat k)"
    using arr(1-6) k n by (auto intro!: rd_Inr)
  have new: "XX_1 l + X_1 c ! nat (n - (k - 1)) = count_if (\<lambda>s e. n - k + 1 \<le> s) ps"
      "YY_1 l + Y_1 c ! nat (k - 2) = count_if (\<lambda>s e. e \<le> k - 2) ps"
      "ZZ_1 l + Z_1 c ! nat (k - 2) = count_if (\<lambda>s e. e - s + 1 \<le> k - 1) ps"
      "lX l - count_if (\<lambda>s e. n - k + 1 \<le> s) ps + X_2 c ! nat k = Xsum ps n k"
      "lY l + count_if (\<lambda>s e. e \<le> k - 2) ps + Y_2 c ! nat k = Ysum ps k"
      "lZ l + count_if (\<lambda>s e. e - s + 1 \<le> k - 1) ps + Z_2 c ! nat k = Zsum ps k"
    unfolding arr old by (rule count_step(1) [symmetric], rule count_step(2) [symmetric],
        rule count_step(3) [symmetric], rule Xsum_step [OF iv, symmetric],
        rule Ysum_step [OF iv, symmetric], rule Zsum_step [symmetric])
  have "calc_step n c k l = Inr l'"
    unfolding calc_step_def rds bind_res.simps Let_def new ru old(9) re_def [symmetric]
      mx_def [symmetric]
    using k n old(7,8) by (simp add: l'_def max_def)
  moreover have "loop_inv n ps k l'"
    unfolding loop_inv_def
  proof (intro conjI allI impI)
    fix j :: int assume j: "1 \<le> j \<and> j \<le> k"
    have "j < k \<Longrightarrow> l_reuse l ! nat j = avg_reuse ps n j \<and>
        l_reserved l ! nat j = of_int (reserve_target ps n j)"
      using inv j by (simp add: loop_inv_def)
    with j k n old(7,8) tgt show "l_reuse l' ! nat j = avg_reuse ps n j"
        "l_reserved l' ! nat j = of_int (reserve_target ps n j)"
      by (auto simp: l'_def nth_upd_1001 ru_def)
  qed (simp_all add: l'_def old tgt)
  ultimately show ?thesis by blast
qed

lemma calc_loop2_inv:
  assumes "loop_inv n ps (k - 1) l" and "collected n ps c" and "intervals_in n ps"
    and "length ps \<le> 1001" and "2 \<le> k" and "k - 1 + int r = n" and "n \<le> 1000"
  shows "\<exists>l'. calc_loop2 n c r k l = Inr l' \<and> loop_inv n ps n l'"
  using assms
proof (induction r arbitrary: k l)
  case (Suc r)
  obtain l1 where l1: "calc_step n c k l = Inr l1" "loop_inv n ps k l1"
    using calc_step_inv [of n ps k l c] Suc.prems by auto
  then show ?case
    using Suc.IH [of "k + 1" l1] Suc.prems by simp
qed simp

section \<open>\<open>CalculateReuse\<close>\<close>

lemma intervals_nth:
  assumes "reuse_wf st"
  shows "length (intervals st) = nat (reuse_cnt st)"
    and "k < nat (reuse_cnt st) \<Longrightarrow> intervals st ! k = (reuse_s st ! k, reuse_e st ! k)"
  using assms by (auto simp: intervals_def reuse_wf_def TRACE_LENGTH_def)

lemma CalculateReuse_loops:
  assumes wf: "reuse_wf st" and n: "1 \<le> n" "n \<le> TRACE_LENGTH"
    and iv: "intervals_in n (intervals st)"
  shows "\<exists>l. loop_inv n (intervals st) n l \<and> CalculateReuse st n =
    (let st = st\<lparr>reuse := l_reuse l, reserved := l_reserved l\<rparr>
     in Inr (if n = TRACE_LENGTH
             then st\<lparr>reuse_cnt := 0, bursty_in_progress := False,
                     hibernate_counter := hibernate_period_len st\<rparr>
             else st))"
proof -
  let ?ps = "intervals st"
  have n': "n \<le> 1000" using n by (simp add: TRACE_LENGTH_def)
  have len: "length ?ps = nat (reuse_cnt st)" "length ?ps \<le> 1001"
    using wf by (auto simp: intervals_nth reuse_wf_def TRACE_LENGTH_def)
  have lens: "length (reuse st) = 1001" "length (reserved st) = 1001"
      "length (reuse_s st) = 1001" "length (reuse_e st) = 1001"
    using wf by (simp_all add: reuse_wf_def TRACE_LENGTH_def)
  have rd: "rd (reuse_s st) (0 + int k) = Inr (fst (?ps ! k)) \<and>
            rd (reuse_e st) (0 + int k) = Inr (snd (?ps ! k))" if "k < nat (reuse_cnt st)" for k
    using that wf lens intervals_nth(2) [OF wf that] len by auto
  obtain c where c: "calc_loop1 st n (nat (reuse_cnt st)) 0 calc_clear = Inr c"
      "collected n ?ps c"
    using calc_loop1_collected [OF collected_clear n' rd len(1) iv] by auto
  have cs: "cX c = Xsum ?ps n 1" "cY c = Ysum ?ps 1" "cZ c = Zsum ?ps 1"
    using c(2) sums_at_1 [OF iv] by (simp_all add: collected_def)
  define l0 where "l0 = \<lparr> lX = cX c, lY = cY c, lZ = cZ c, XX_1 = 0, YY_1 = 0, ZZ_1 = 0,
      l_reuse = (reuse st)[Suc 0 := avg_reuse ?ps n 1], l_reserved = (reserved st)[Suc 0 := 1],
      ever_max_reserved = 1 \<rparr>"
  have rv: "reuse_value (cX c) (cY c) (cZ c) n = avg_reuse ?ps n 1"
    using reuse_value_avg [OF iv len(2), of 1] n n' cs by simp
  have "loop_inv n ?ps (2 - 1) l0"
    using sums_at_1 [OF iv] lens
    by (auto simp: loop_inv_def l0_def cs reserve_target_1 [simplified])
  then obtain l where l: "calc_loop2 n c (nat (n - 1)) 2 l0 = Inr l" "loop_inv n ?ps n l"
    using calc_loop2_inv [of n ?ps 2 l0 c "nat (n - 1)"] c(2) iv len n n' by auto
  then show ?thesis
    using c(1) lens unfolding CalculateReuse_def
    by (intro exI [of _ l]) (simp add: rv l0_def [symmetric])
qed

text \<open>
  C1. For a trace of \<open>n\<close> allocations, the linear-time \<open>CalculateReuse\<close> returns (no array access
  is out of bounds), and for every window length \<open>k\<close> the value stored in \<open>reuse[k]\<close> is the number
  of recorded reuses that lie inside a window of length \<open>k\<close>, averaged over all \<open>n - k + 1\<close>
  windows, in double precision.
\<close>

theorem CalculateReuse_average:
  assumes "reuse_wf st" and "1 \<le> n" and "n \<le> TRACE_LENGTH" and "intervals_in n (intervals st)"
  shows "returns (\<lambda>st'. \<forall>k. 1 \<le> k \<and> k \<le> n \<longrightarrow>
    reuse st' ! nat k = dbl (of_int (total_reuses (intervals st) n k) / of_int (n - k + 1)))
    (CalculateReuse st n)"
  using CalculateReuse_loops [OF assms] by (auto simp: loop_inv_def avg_reuse_def Let_def)

text \<open>
  C2. After \<open>CalculateReuse\<close> the number of objects to reserve for \<open>k\<close> allocations is at least 1,
  never decreases with \<open>k\<close>, and is the smallest such bound of the truncated demand
  \<open>j - reuse[j]\<close>, \<open>2 \<le> j \<le> k\<close>.
\<close>

theorem CalculateReuse_reserved:
  assumes "reuse_wf st" and "1 \<le> n" and "n \<le> TRACE_LENGTH" and "intervals_in n (intervals st)"
  shows "returns (\<lambda>st'. \<forall>k. 1 \<le> k \<and> k \<le> n \<longrightarrow>
    reserved st' ! nat k = of_int (reserve_target (intervals st) n k) \<and>
    1 \<le> reserved st' ! nat k \<and>
    (\<forall>j. 1 \<le> j \<and> j \<le> k \<longrightarrow> reserved st' ! nat j \<le> reserved st' ! nat k))
    (CalculateReuse st n)"
proof -
  have one: "1 \<le> reserve_target ps n k" for ps k
    by (simp add: reserve_target_def)
  have mono: "reserve_target ps n j \<le> reserve_target ps n k" if "j \<le> k" for ps j k
    unfolding reserve_target_def using that by (intro Max_mono) auto
  show ?thesis
    using CalculateReuse_loops [OF assms] one mono by (auto simp: loop_inv_def Let_def)
qed

section \<open>Witnesses\<close>

text \<open>One object, freed at time 0 and allocated again at time 1, in a trace of length 2.\<close>

definition reuse_example :: reuse_state where
  "reuse_example = reuse_init\<lparr>reuse_cnt := 1,
     reuse_s := 0 # replicate 1000 (- 1), reuse_e := 1 # replicate 1000 (- 1)\<rparr>"

lemma reuse_example_facts:
  "reuse_wf reuse_example" "intervals reuse_example = [(0, 1)]" "intervals_in 2 [(0, 1)]"
  by (simp_all add: reuse_example_def reuse_wf_def reuse_init_def TRACE_LENGTH_def intervals_def)

theorem CalculateReuse_average_witness:
  "reuse_wf reuse_example \<and> intervals_in 2 (intervals reuse_example) \<and>
   returns (\<lambda>st'. reuse st' ! 2 = 1) (CalculateReuse reuse_example 2)"
proof -
  have "total_reuses [(0, 1)] 2 2 = 1" by code_simp
  then show ?thesis
    using CalculateReuse_average [of reuse_example 2] reuse_example_facts
      ieee_round_int [of 1 53]
    by (auto simp: TRACE_LENGTH_def returns_iff dest: spec [of _ 2])
qed

theorem CalculateReuse_reserved_witness:
  "reuse_wf reuse_example \<and> intervals_in 2 (intervals reuse_example) \<and>
   returns (\<lambda>st'. 1 \<le> reserved st' ! 2) (CalculateReuse reuse_example 2)"
  using CalculateReuse_reserved [of reuse_example 2] reuse_example_facts
  by (auto simp: TRACE_LENGTH_def returns_iff dest: spec [of _ 2])

end
