(* ===== verification/Size_Map.thy ===== *)
theory Size_Map
  imports Ieee_Round
begin

text \<open>
  Size classes (\<open>common.h\<close>, \<open>common.cc\<close>): constants, \<open>pages\<close>, \<open>AlignmentForSize\<close>, the class
  \<open>SizeMap\<close> and its initialisation.  Sizes are integers; every value that occurs lies between 0
  and a few hundred thousand, so no width is reached, except in \<open>pages\<close>, whose argument is any
  \<open>size_t\<close> and which is modelled on 64-bit words.
\<close>

section \<open>Configuration\<close>

definition kPageShift :: nat where "kPageShift = 13"
definition kNumClasses :: int where "kNumClasses = 88"
definition kMinAlign :: int where "kMinAlign = 16"
definition kMaxThreadCacheSize :: int where "kMaxThreadCacheSize = 4 * 2 ^ 20"
definition kPageSize :: int where "kPageSize = 2 ^ kPageShift"
definition kMaxSize :: int where "kMaxSize = 256 * 1024"
definition kAlignment :: int where "kAlignment = 8"
definition kMaxPages :: nat where "kMaxPages = 2 ^ (20 - kPageShift)"
definition kDefaultOverallThreadCacheSize :: int where
  "kDefaultOverallThreadCacheSize = 8 * kMaxThreadCacheSize"
definition kMinThreadCacheSize :: int where "kMinThreadCacheSize = kMaxSize * 2"
definition kStealAmount :: int where "kStealAmount = 2 ^ 16"
definition kMaxValidPages :: nat where "kMaxValidPages = (2 ^ 64 - 1) div 2 ^ kPageShift"
definition kAddressBits :: nat where "kAddressBits = 48"

lemmas size_config =
  kPageShift_def kNumClasses_def kMinAlign_def kMaxThreadCacheSize_def kPageSize_def kMaxSize_def
  kAlignment_def kMaxPages_def kDefaultOverallThreadCacheSize_def kMinThreadCacheSize_def
  kStealAmount_def kMaxValidPages_def kAddressBits_def

definition pages :: "u64 \<Rightarrow> u64" where
  "pages bytes = drop_bit kPageShift bytes +
     (if and bytes (push_bit kPageShift 1 - 1) > 0 then 1 else 0)"

section \<open>Alignment\<close>

text \<open>The loop of \<open>LgFloor\<close> over the shifts 16, 8, 4, 2, 1.\<close>

fun LgFloor_loop :: "nat list \<Rightarrow> int \<Rightarrow> int \<Rightarrow> int" where
  "LgFloor_loop [] n lg = lg"
| "LgFloor_loop (i # is) n lg =
     (let shift = 2 ^ i; x = n div 2 ^ shift
      in if x \<noteq> 0 then LgFloor_loop is x (lg + int shift) else LgFloor_loop is n lg)"

definition LgFloor :: "int \<Rightarrow> int" where
  "LgFloor n = LgFloor_loop [4, 3, 2, 1, 0] n 0"

definition AlignmentForSize :: "int \<Rightarrow> int res" where
  "AlignmentForSize sz =
     (let alignment =
            (if sz > kMaxSize then kPageSize
             else if sz \<ge> 128 then 2 ^ nat (LgFloor sz) div 8
             else if sz \<ge> kMinAlign then kMinAlign
             else kAlignment);
          alignment = (if alignment > kPageSize then kPageSize else alignment)
      in if \<not> (sz < kMinAlign \<or> alignment \<ge> kMinAlign) then Inl Abort
         else if and alignment (alignment - 1) \<noteq> 0 then Inl Abort
         else Inr alignment)"

section \<open>\<open>SizeMap\<close>\<close>

definition kMaxSmallSize :: int where "kMaxSmallSize = 1024"
definition kClassArraySize :: int where
  "kClassArraySize = (kMaxSize + 127 + 120 * 2 ^ 7) div 2 ^ 7 + 1"

record SizeMap =
  num_objects_to_move_arr :: "int list"
  class_array :: "int list"
  class_to_size_arr :: "int list"
  class_to_pages_arr :: "int list"

definition SizeMap_zero :: SizeMap where
  "SizeMap_zero = \<lparr> num_objects_to_move_arr = replicate (nat kNumClasses) 0,
     class_array = replicate (nat kClassArraySize) 0,
     class_to_size_arr = replicate (nat kNumClasses) 0,
     class_to_pages_arr = replicate (nat kNumClasses) 0 \<rparr>"

definition ClassIndex :: "int \<Rightarrow> int" where
  "ClassIndex s = (if s \<le> kMaxSmallSize then (s + 7) div 2 ^ 3
                   else (s + 127 + 120 * 2 ^ 7) div 2 ^ 7)"

definition SizeClass :: "SizeMap \<Rightarrow> int \<Rightarrow> int res" where
  "SizeClass m sz = rd (class_array m) (ClassIndex sz)"

definition ByteSizeForClass :: "SizeMap \<Rightarrow> int \<Rightarrow> int res" where
  "ByteSizeForClass m cl = rd (class_to_size_arr m) cl"

definition class_to_size :: "SizeMap \<Rightarrow> int \<Rightarrow> int res" where
  "class_to_size m cl = rd (class_to_size_arr m) cl"

definition class_to_pages :: "SizeMap \<Rightarrow> int \<Rightarrow> int res" where
  "class_to_pages m cl = rd (class_to_pages_arr m) cl"

definition num_objects_to_move :: "SizeMap \<Rightarrow> int \<Rightarrow> int res" where
  "num_objects_to_move m cl = rd (num_objects_to_move_arr m) cl"

text \<open>
  The argument \<open>flags\<close> is \<open>FLAGS_tcmalloc_transfer_num_objects\<close>: 32768 unless the environment
  variable \<open>TCMALLOC_TRANSFER_NUM_OBJ\<close> sets it (its parsed value is \<open>envval\<close>).
\<close>

definition kDefaultTransferNumObjecs :: int where "kDefaultTransferNumObjecs = 32768"

definition InitTCMallocTransferNumObjects :: "int option \<Rightarrow> int \<Rightarrow> int" where
  "InitTCMallocTransferNumObjects envval flags =
     (if flags = 0 then (case envval of None \<Rightarrow> kDefaultTransferNumObjecs | Some v \<Rightarrow> to_int32 v)
      else flags)"

definition NumMoveSize :: "int \<Rightarrow> int \<Rightarrow> int" where
  "NumMoveSize flags sz =
     (if sz = 0 then 0
      else let num = rat_trunc (dbl (dbl (64 * 1024) / of_int sz));
               num = (if num < 2 then 2 else num)
           in if num > flags then flags else num)"

text \<open>The inner loops that choose the number of bytes of a span; \<open>sz\<close> is positive.\<close>

function grow_waste :: "int \<Rightarrow> int \<Rightarrow> int" where
  "grow_waste sz psize =
     (if 0 < sz \<and> psize mod sz > psize div 2 ^ 3 then grow_waste sz (psize + kPageSize)
      else psize)"
  by pat_completeness auto
termination
proof (relation "measure (\<lambda>(sz, psize). nat (8 * sz - psize))")
  fix sz psize :: int
  assume *: "0 < sz \<and> psize mod sz > psize div 2 ^ 3"
  then have "psize div 8 < psize mod sz" and "psize mod sz < sz" by simp_all
  then have "psize div 8 < sz" by (rule less_trans)
  then have "psize < 8 * sz" by linarith
  then show "((sz, psize + kPageSize), sz, psize) \<in> measure (\<lambda>(sz, psize). nat (8 * sz - psize))"
    by (simp add: kPageSize_def kPageShift_def)
qed simp

declare grow_waste.simps [simp del]

lemma grow_waste_ge: "psize \<le> grow_waste sz psize"
proof (induction sz psize rule: grow_waste.induct)
  case (1 sz psize)
  then show ?case
    by (subst grow_waste.simps) (auto simp: kPageSize_def kPageShift_def)
qed

function span_bytes :: "int \<Rightarrow> int \<Rightarrow> int \<Rightarrow> int" where
  "span_bytes sz blocks psize =
     (let psize' = grow_waste sz (psize + kPageSize)
      in if 0 < sz \<and> psize' div sz < blocks mod 2 ^ 64 then span_bytes sz blocks psize'
         else psize')"
  by pat_completeness auto
termination
proof (relation "measure (\<lambda>(sz, blocks, psize). nat ((blocks mod 2 ^ 64) * sz - psize))")
  fix sz blocks psize psize' :: int
  assume p: "psize' = grow_waste sz (psize + kPageSize)"
    and c: "0 < sz \<and> psize' div sz < blocks mod 2 ^ 64"
  have "psize + 8192 \<le> psize'"
    using grow_waste_ge [of "psize + kPageSize" sz] p by (simp add: kPageSize_def kPageShift_def)
  moreover have "psize' < (blocks mod 2 ^ 64) * sz"
    using c zdiv_less_iff [of sz psize' "blocks mod 2 ^ 64"] by blast
  ultimately show "((sz, blocks, psize'), sz, blocks, psize)
      \<in> measure (\<lambda>(sz, blocks, psize). nat ((blocks mod 2 ^ 64) * sz - psize))"
    by simp
qed simp

declare span_bytes.simps [simp del]

text \<open>Whether the size can be merged into the previous class.\<close>

definition merges :: "SizeMap \<Rightarrow> int \<Rightarrow> int \<Rightarrow> int \<Rightarrow> bool res" where
  "merges m sc sz my_pages =
     (if sc > 1 then
        bind_res (rd (class_to_pages_arr m) (sc - 1)) (\<lambda>p.
        if my_pages = p then
          bind_res (rd (class_to_size_arr m) (sc - 1)) (\<lambda>s.
          Inr (my_pages * 2 ^ kPageShift div sz = p * 2 ^ kPageShift div s))
        else Inr False)
      else Inr False)"

text \<open>One iteration: the alignment, the next class and the updated map.\<close>

definition size_step :: "int \<Rightarrow> int \<Rightarrow> int \<Rightarrow> SizeMap \<Rightarrow> (int \<times> int \<times> SizeMap) res" where
  "size_step flags sz sc m =
     bind_res (AlignmentForSize sz) (\<lambda>alignment.
     if sz mod alignment \<noteq> 0 then Inl Abort
     else let blocks_to_move = c_div (NumMoveSize flags sz) 4;
              my_pages = span_bytes sz blocks_to_move 0 div 2 ^ kPageShift
          in bind_res (merges m sc sz my_pages) (\<lambda>mg.
             if mg then
               bind_res (wr (class_to_size_arr m) (sc - 1) sz) (\<lambda>cs.
               Inr (alignment, sc, m\<lparr>class_to_size_arr := cs\<rparr>))
             else
               bind_res (wr (class_to_pages_arr m) sc my_pages) (\<lambda>cp.
               bind_res (wr (class_to_size_arr m) sc sz) (\<lambda>cs.
               Inr (alignment, sc + 1, m\<lparr>class_to_pages_arr := cp, class_to_size_arr := cs\<rparr>)))))"

lemma LgFloor_loop_bounds:
  assumes "0 < n" "n < 2 ^ (2 ^ k)" "0 \<le> l"
  shows "\<exists>r. LgFloor_loop (rev [0..<k]) n l = l + int r \<and> 2 ^ r \<le> n \<and> n < 2 ^ (r + 1)"
  using assms
proof (induction k arbitrary: n l)
  case (Suc k)
  let ?x = "n div 2 ^ (2 ^ k)"
  show ?case
  proof (cases "?x = 0")
    case True
    then have "n < 2 ^ (2 ^ k)"
      using pos_imp_zdiv_pos_iff [of "2 ^ 2 ^ k" n] by simp
    then show ?thesis using Suc.IH [of n l] Suc.prems True by simp
  next
    case False
    have "0 \<le> ?x" using Suc.prems(1) by (simp add: pos_imp_zdiv_nonneg_iff)
    with False have x: "0 < ?x" by linarith
    have "n < 2 ^ (2 ^ k) * 2 ^ (2 ^ k)"
      using Suc.prems(2) by (simp add: power_add [symmetric] mult_2)
    then have "?x < 2 ^ (2 ^ k)" by (simp add: zdiv_less_iff)
    with x obtain r where r: "LgFloor_loop (rev [0..<k]) ?x (l + int (2 ^ k)) = l + int (2 ^ k) + int r"
        "2 ^ r \<le> ?x" "?x < 2 ^ (r + 1)"
      using Suc.IH [of ?x "l + int (2 ^ k)"] Suc.prems(3) by fastforce
    have lo: "2 ^ r * 2 ^ (2 ^ k) \<le> n"
      using r(2) by (simp add: le_zdiv_iff)
    have hi: "n < 2 ^ (r + 1) * 2 ^ (2 ^ k)"
      using r(3) by (subst (asm) zdiv_less_iff) auto
    have "LgFloor_loop (rev [0..<Suc k]) n l = l + int (2 ^ k + r) \<and> 2 ^ (2 ^ k + r) \<le> n \<and>
          n < 2 ^ (2 ^ k + r + 1)"
      using False r(1) lo hi by (simp add: power_add mult.commute)
    then show ?thesis by blast
  qed
qed simp

lemma LgFloor_bounds:
  assumes "0 < n" "n < 2 ^ 32"
  shows "0 \<le> LgFloor n" "2 ^ nat (LgFloor n) \<le> n" "n < 2 ^ (nat (LgFloor n) + 1)"
proof -
  have "rev [0..<5] = [4, 3, 2, 1, 0 :: nat]" by code_simp
  then obtain r where "LgFloor n = int r" "2 ^ r \<le> n" "n < 2 ^ (r + 1)"
    using LgFloor_loop_bounds [of n 5 0] assms by (auto simp: LgFloor_def)
  then show "0 \<le> LgFloor n" "2 ^ nat (LgFloor n) \<le> n" "n < 2 ^ (nat (LgFloor n) + 1)"
    by simp_all
qed

lemma LgFloor_ge:
  assumes "2 ^ k \<le> n" "n < 2 ^ 32"
  shows "k \<le> nat (LgFloor n)"
proof (rule ccontr)
  assume "\<not> k \<le> nat (LgFloor n)"
  then have "(2::int) ^ (nat (LgFloor n) + 1) \<le> 2 ^ k" by (intro power_increasing) auto
  moreover have "0 < n" using assms(1) by (smt (verit) zero_less_power)
  ultimately show False using LgFloor_bounds(3) [of n] assms by simp
qed

lemma AlignmentForSize_pos: "AlignmentForSize sz = Inr al \<Longrightarrow> 0 < al"
proof -
  assume al: "AlignmentForSize sz = Inr al"
  have "0 < (2::int) ^ nat (LgFloor sz) div 8" if "128 \<le> sz" "sz \<le> kMaxSize"
  proof -
    have "3 \<le> nat (LgFloor sz)" using that by (intro LgFloor_ge) (auto simp: size_config)
    then have "(2::int) ^ 3 \<le> 2 ^ nat (LgFloor sz)" by (intro power_increasing) auto
    then show ?thesis by (simp add: pos_imp_zdiv_pos_iff)
  qed
  then show ?thesis
    using al unfolding AlignmentForSize_def Let_def
    by (auto simp: size_config split: if_splits)
qed

lemma size_step_pos: "size_step flags sz sc m = Inr (al, sc', m') \<Longrightarrow> 0 < al"
  by (auto simp: size_step_def bind_res_Inr_iff Let_def split: if_splits dest: AlignmentForSize_pos)

function size_loop :: "int \<Rightarrow> int \<Rightarrow> int \<Rightarrow> SizeMap \<Rightarrow> (int \<times> SizeMap) res" where
  "size_loop flags sz sc m =
     (if sz \<le> kMaxSize then
        bind_res (size_step flags sz sc m) (\<lambda>(alignment, sc, m).
        size_loop flags (sz + alignment) sc m)
      else Inr (sc, m))"
  by pat_completeness auto
termination
  by (relation "measure (\<lambda>(flags, sz, sc, m). nat (kMaxSize + 1 - sz))")
    (auto dest: size_step_pos)

declare size_loop.simps [simp del]

function fill_sizes :: "int \<Rightarrow> int \<Rightarrow> int \<Rightarrow> int list \<Rightarrow> int list res" where
  "fill_sizes c s max_size arr =
     (if s \<le> max_size then
        bind_res (wr arr (ClassIndex s) c) (\<lambda>arr. fill_sizes c (s + kAlignment) max_size arr)
      else Inr arr)"
  by pat_completeness auto
termination
  by (relation "measure (\<lambda>(c, s, mx, arr). nat (mx + 1 - s))") (auto simp: kAlignment_def)

declare fill_sizes.simps [simp del]

function fill_classes :: "int list \<Rightarrow> int \<Rightarrow> int \<Rightarrow> int list \<Rightarrow> int list res" where
  "fill_classes sizes c next_size arr =
     (if c < kNumClasses then
        bind_res (rd sizes c) (\<lambda>max_size.
        bind_res (fill_sizes c next_size max_size arr) (\<lambda>arr.
        fill_classes sizes (c + 1) (max_size + kAlignment) arr))
      else Inr arr)"
  by pat_completeness auto
termination
  by (relation "measure (\<lambda>(sizes, c, n, arr). nat (kNumClasses - c))") auto

declare fill_classes.simps [simp del]

text \<open>The double check: every sz up to \<open>kMaxSize\<close> is mapped to the smallest class that fits.\<close>

definition check_size :: "SizeMap \<Rightarrow> int \<Rightarrow> unit res" where
  "check_size m sz =
     bind_res (SizeClass m sz) (\<lambda>sc.
     if sc \<le> 0 \<or> sc \<ge> kNumClasses then Inl Abort
     else bind_res (if sc > 1 then bind_res (rd (class_to_size_arr m) (sc - 1)) (\<lambda>s. Inr (sz \<le> s))
                    else Inr False) (\<lambda>large.
     if large then Inl Abort
     else bind_res (rd (class_to_size_arr m) sc) (\<lambda>s.
     if sz > s \<or> s = 0 then Inl Abort else Inr ())))"

function check_sizes :: "SizeMap \<Rightarrow> int \<Rightarrow> unit res" where
  "check_sizes m sz =
     (if sz \<le> kMaxSize then
        bind_res (check_size m sz) (\<lambda>_.
        check_sizes m (if sz \<le> kMaxSmallSize then sz + 8 else sz + 128))
      else Inr ())"
  by pat_completeness auto
termination
  by (relation "measure (\<lambda>(m, sz). nat (kMaxSize + 1 - sz))") auto

declare check_sizes.simps [simp del]

definition SizeMap_Init :: "int \<Rightarrow> SizeMap res" where
  "SizeMap_Init flags =
     (if ClassIndex 0 \<noteq> 0 then Inl Abort
      else if ClassIndex kMaxSize \<ge> kClassArraySize then Inl Abort
      else bind_res (size_loop flags kAlignment 1 SizeMap_zero) (\<lambda>(sc, m).
      if sc \<noteq> kNumClasses then Inl Abort
      else bind_res (fill_classes (class_to_size_arr m) 1 0 (class_array m)) (\<lambda>arr.
      (let m = m\<lparr>class_array := arr\<rparr> in
       bind_res (check_sizes m 0) (\<lambda>_.
       Inr (m\<lparr>num_objects_to_move_arr :=
                hd (num_objects_to_move_arr m) # map (NumMoveSize flags) (tl (class_to_size_arr m))\<rparr>))))))"

end
