(* ===== verification/Size_Map_Correct.thy ===== *)
theory Size_Map_Correct
  imports Size_Map
begin

text \<open>
  \<open>SizeMap::Init\<close> succeeds with the default configuration: it finds exactly \<open>kNumClasses\<close> classes,
  none of its checks fails, and every size up to \<open>kMaxSize\<close> is mapped to the smallest class that can
  hold it.  The first loop is followed through the list of sizes it visits; the tables it builds are
  then the list \<open>size_classes\<close>, evaluated by the kernel.
\<close>

section \<open>The sizes the first loop visits\<close>

text \<open>For every size: its alignment and the number of pages of a span for it.\<close>

definition size_plan :: "(int \<times> int \<times> int) list" where
  "size_plan = [
     (8, 8, 2), (16, 16, 2), (32, 16, 2), (48, 16, 2), (64, 16, 2), (80, 16, 2), (96, 16, 2),
     (112, 16, 2), (128, 16, 2), (144, 16, 2), (160, 16, 2), (176, 16, 2), (192, 16, 2), (208,
     16, 2), (224, 16, 2), (240, 16, 2), (256, 32, 2), (288, 32, 2), (320, 32, 2), (352, 32,
     2), (384, 32, 2), (416, 32, 2), (448, 32, 2), (480, 32, 2), (512, 64, 2), (576, 64, 2),
     (640, 64, 2), (704, 64, 2), (768, 64, 2), (832, 64, 2), (896, 64, 2), (960, 64, 2),
     (1024, 128, 2), (1152, 128, 2), (1280, 128, 2), (1408, 128, 2), (1536, 128, 2), (1664,
     128, 2), (1792, 128, 2), (1920, 128, 2), (2048, 256, 2), (2304, 256, 2), (2560, 256, 2),
     (2816, 256, 3), (3072, 256, 2), (3328, 256, 3), (3584, 256, 2), (3840, 256, 2), (4096,
     512, 2), (4608, 512, 3), (5120, 512, 2), (5632, 512, 3), (6144, 512, 3), (6656, 512, 5),
     (7168, 512, 2), (7680, 512, 2), (8192, 1024, 2), (9216, 1024, 5), (10240, 1024, 4),
     (11264, 1024, 3), (12288, 1024, 3), (13312, 1024, 5), (14336, 1024, 2), (15360, 1024, 2),
     (16384, 2048, 2), (18432, 2048, 5), (20480, 2048, 5), (22528, 2048, 3), (24576, 2048, 3),
     (26624, 2048, 7), (28672, 2048, 4), (30720, 2048, 4), (32768, 4096, 4), (36864, 4096, 5),
     (40960, 4096, 5), (45056, 4096, 6), (49152, 4096, 6), (53248, 4096, 7), (57344, 4096, 7),
     (61440, 4096, 8), (65536, 8192, 8), (73728, 8192, 9), (81920, 8192, 10), (90112, 8192,
     11), (98304, 8192, 12), (106496, 8192, 13), (114688, 8192, 14), (122880, 8192, 15),
     (131072, 8192, 16), (139264, 8192, 17), (147456, 8192, 18), (155648, 8192, 19), (163840,
     8192, 20), (172032, 8192, 21), (180224, 8192, 22), (188416, 8192, 23), (196608, 8192,
     24), (204800, 8192, 25), (212992, 8192, 26), (221184, 8192, 27), (229376, 8192, 28),
     (237568, 8192, 29), (245760, 8192, 30), (253952, 8192, 31), (262144, 8192, 32)]"

text \<open>The classes: the size and the number of pages.\<close>

definition size_classes :: "(int \<times> int) list" where
  "size_classes = [
     (8, 2), (16, 2), (32, 2), (48, 2), (64, 2), (80, 2), (96, 2), (112, 2), (128, 2), (144,
     2), (160, 2), (176, 2), (192, 2), (208, 2), (224, 2), (240, 2), (256, 2), (288, 2), (320,
     2), (352, 2), (384, 2), (416, 2), (448, 2), (480, 2), (512, 2), (576, 2), (640, 2), (704,
     2), (768, 2), (832, 2), (896, 2), (960, 2), (1024, 2), (1152, 2), (1280, 2), (1408, 2),
     (1536, 2), (1792, 2), (2048, 2), (2304, 2), (2560, 2), (2816, 3), (3072, 2), (3328, 3),
     (4096, 2), (4608, 3), (5120, 2), (6144, 3), (6656, 5), (8192, 2), (9216, 5), (10240, 4),
     (12288, 3), (13312, 5), (16384, 2), (20480, 5), (24576, 3), (26624, 7), (32768, 4),
     (40960, 5), (49152, 6), (57344, 7), (65536, 8), (73728, 9), (81920, 10), (90112, 11),
     (98304, 12), (106496, 13), (114688, 14), (122880, 15), (131072, 16), (139264, 17),
     (147456, 18), (155648, 19), (163840, 20), (172032, 21), (180224, 22), (188416, 23),
     (196608, 24), (204800, 25), (212992, 26), (221184, 27), (229376, 28), (237568, 29),
     (245760, 30), (253952, 31), (262144, 32)]"

text \<open>What one size does to the list of classes found so far.\<close>

definition add_class :: "(int \<times> int) list \<Rightarrow> int \<times> int \<times> int \<Rightarrow> (int \<times> int) list" where
  "add_class cs e =
     (case e of (s, a, p) \<Rightarrow>
        if cs \<noteq> [] \<and> p = snd (last cs) \<and> p * 8192 div s = snd (last cs) * 8192 div fst (last cs)
        then butlast cs @ [(s, p)] else cs @ [(s, p)])"

definition plan_alignment :: "int \<times> int \<times> int \<Rightarrow> bool" where
  "plan_alignment e = (case e of (s, a, p) \<Rightarrow> AlignmentForSize s = Inr a \<and> s mod a = 0 \<and> 0 < s)"

definition plan_pages :: "int \<times> int \<times> int \<Rightarrow> bool" where
  "plan_pages e = (case e of (s, a, p) \<Rightarrow>
     span_bytes s (min (max 2 (65536 div s)) 32768 div 4) 0 div 8192 = p)"

fun plan_linked :: "int \<Rightarrow> (int \<times> int \<times> int) list \<Rightarrow> bool" where
  "plan_linked x [] = (kMaxSize < x)"
| "plan_linked x ((s, a, p) # es) = (x = s \<and> s \<le> kMaxSize \<and> plan_linked (s + a) es)"

definition class_table :: "SizeMap \<Rightarrow> (int \<times> int) list \<Rightarrow> bool" where
  "class_table m cs \<longleftrightarrow> length cs \<le> 87 \<and>
     class_to_size_arr m = 0 # map fst cs @ replicate (87 - length cs) 0 \<and>
     class_to_pages_arr m = 0 # map snd cs @ replicate (87 - length cs) 0"

lemma NumMoveSize_div:
  assumes "0 < sz"
  shows "NumMoveSize flags sz = min (max 2 (65536 div sz)) flags"
proof -
  have "dbl (64 * 1024) = 65536" using ieee_round_int [of 65536 53] by simp
  moreover have "rat_trunc (dbl (65536 / of_int sz)) = 65536 div sz"
    using trunc_ieee_div [of sz 65536 53] assms by simp
  ultimately show ?thesis
    using assms by (auto simp: NumMoveSize_def Let_def)
qed

lemma size_plan_alignment: "list_all plan_alignment size_plan"
  unfolding plan_alignment_def size_plan_def
  by (simp add: AlignmentForSize_def LgFloor_def Let_def size_config)

lemma size_plan_pages: "list_all plan_pages size_plan"
  by code_simp

lemma size_plan_linked: "plan_linked 8 size_plan"
  by (simp add: size_plan_def kMaxSize_def)

lemma size_plan_classes: "foldl add_class [] size_plan = size_classes"
  by code_simp

section \<open>The first loop\<close>

lemma class_table_arrays:
  assumes "class_table m cs"
  shows "length (class_to_size_arr m) = 88" "length (class_to_pages_arr m) = 88"
    "cs \<noteq> [] \<Longrightarrow> class_to_size_arr m ! length cs = fst (last cs)"
    "cs \<noteq> [] \<Longrightarrow> class_to_pages_arr m ! length cs = snd (last cs)"
  using assms by (cases cs rule: rev_cases; simp add: class_table_def nth_append)+

lemma table_append:
  assumes "length xs < n"
  shows "(0 # xs @ replicate (n - length xs) 0)[Suc (length xs) := v] =
         0 # (xs @ [v]) @ replicate (n - length (xs @ [v])) (0::int)"
proof -
  obtain k where "n - length xs = Suc k" using assms by (metis Suc_diff_Suc)
  moreover have "n - length (xs @ [v]) = k" using calculation by simp
  ultimately show ?thesis by (simp add: list_update_append)
qed

lemma merges_table:
  assumes "class_table m cs"
  shows "merges m (1 + int (length cs)) s p = Inr (cs \<noteq> [] \<and> p = snd (last cs) \<and>
           p * 8192 div s = snd (last cs) * 8192 div fst (last cs))"
proof (cases "cs = []")
  case False
  then have "length cs \<le> 87" using assms by (simp add: class_table_def)
  with False show ?thesis
    using class_table_arrays [OF assms] by (auto simp: merges_def kPageShift_def)
qed (simp add: merges_def)

lemma size_step_table:
  assumes tab: "class_table m cs" and al: "plan_alignment e" and pg: "plan_pages e"
    and len: "length (add_class cs e) \<le> 87" and e: "e = (s, a, p)"
  shows "\<exists>m'. size_step kDefaultTransferNumObjecs s (1 + int (length cs)) m =
           Inr (a, 1 + int (length (add_class cs e)), m') \<and> class_table m' (add_class cs e) \<and>
           class_array m' = class_array m \<and> num_objects_to_move_arr m' = num_objects_to_move_arr m"
proof -
  have s: "0 < s" "AlignmentForSize s = Inr a" "s mod a = 0"
    using al e by (auto simp: plan_alignment_def)
  have "span_bytes s (c_div (NumMoveSize kDefaultTransferNumObjecs s) 4) 0 div 2 ^ kPageShift = p"
    using pg e s(1) by (simp add: plan_pages_def NumMoveSize_div kDefaultTransferNumObjecs_def kPageShift_def)
  then have step: "size_step kDefaultTransferNumObjecs s (1 + int (length cs)) m =
      (if cs \<noteq> [] \<and> p = snd (last cs) \<and> p * 8192 div s = snd (last cs) * 8192 div fst (last cs)
       then bind_res (wr (class_to_size_arr m) (int (length cs)) s) (\<lambda>ns.
              Inr (a, 1 + int (length cs), m\<lparr>class_to_size_arr := ns\<rparr>))
       else bind_res (wr (class_to_pages_arr m) (1 + int (length cs)) p) (\<lambda>cp.
            bind_res (wr (class_to_size_arr m) (1 + int (length cs)) s) (\<lambda>ns.
              Inr (a, 2 + int (length cs), m\<lparr>class_to_pages_arr := cp, class_to_size_arr := ns\<rparr>))))"
    using s unfolding size_step_def by (auto simp: merges_table [OF tab])
  let ?mg = "cs \<noteq> [] \<and> p = snd (last cs) \<and> p * 8192 div s = snd (last cs) * 8192 div fst (last cs)"
  show ?thesis
  proof (cases ?mg)
    case True
    then obtain ds q where cs: "cs = ds @ [(q, p)]"
      by (metis append_butlast_last_id prod.collapse)
    have add: "add_class cs e = ds @ [(s, p)]" using True by (simp add: add_class_def e cs)
    have len': "length cs \<le> 87" using tab by (simp add: class_table_def)
    have w: "wr (class_to_size_arr m) (int (length cs)) s = Inr ((class_to_size_arr m)[length cs := s])"
      using class_table_arrays(1) [OF tab] len' by (simp add: wr_def)
    have "class_table (m\<lparr>class_to_size_arr := (class_to_size_arr m)[length cs := s]\<rparr>) (ds @ [(s, p)])"
      using tab by (simp add: class_table_def cs list_update_append)
    then show ?thesis
      unfolding step if_P [OF True] w bind_res.simps add by (auto simp: cs)
  next
    case False
    have add: "add_class cs e = cs @ [(s, p)]" using False by (auto simp: add_class_def e)
    then have len': "length cs < 87" using len by simp
    have w: "wr (class_to_size_arr m) (1 + int (length cs)) s = Inr ((class_to_size_arr m)[Suc (length cs) := s])"
       "wr (class_to_pages_arr m) (1 + int (length cs)) p = Inr ((class_to_pages_arr m)[Suc (length cs) := p])"
      using class_table_arrays(1,2) [OF tab] len' by (simp_all add: wr_def nat_add_distrib)
    have "class_table (m\<lparr>class_to_pages_arr := (class_to_pages_arr m)[Suc (length cs) := p],
            class_to_size_arr := (class_to_size_arr m)[Suc (length cs) := s]\<rparr>) (cs @ [(s, p)])"
      using tab len' table_append [of "map fst cs" 87 s] table_append [of "map snd cs" 87 p]
      by (simp add: class_table_def)
    then show ?thesis
      unfolding step if_not_P [OF False] w bind_res.simps add by auto
  qed
qed

lemma add_class_length: "length cs \<le> length (add_class cs e)"
  by (auto simp: add_class_def split: prod.split)

lemma foldl_add_class_length: "length cs \<le> length (foldl add_class cs es)"
proof (induction es arbitrary: cs)
  case (Cons e es)
  then show ?case using add_class_length [of cs e] le_trans by fastforce
qed simp

lemma size_loop_table:
  assumes "class_table m cs" "list_all plan_alignment es" "list_all plan_pages es"
    "length (foldl add_class cs es) \<le> 87" "plan_linked x es"
  shows "\<exists>m'. size_loop kDefaultTransferNumObjecs x (1 + int (length cs)) m =
           Inr (1 + int (length (foldl add_class cs es)), m') \<and>
           class_table m' (foldl add_class cs es) \<and>
           class_array m' = class_array m \<and> num_objects_to_move_arr m' = num_objects_to_move_arr m"
  using assms
proof (induction es arbitrary: x m cs)
  case Nil
  then show ?case by (simp add: size_loop.simps)
next
  case (Cons e es)
  obtain s a p where e: "e = (s, a, p)" by (cases e)
  have x: "x = s" "s \<le> kMaxSize" "plan_linked (s + a) es" using Cons.prems(5) by (auto simp: e)
  have len: "length (add_class cs e) \<le> 87"
    using Cons.prems(4) foldl_add_class_length [of "add_class cs e" es] by simp
  obtain m' where m': "size_step kDefaultTransferNumObjecs s (1 + int (length cs)) m =
           Inr (a, 1 + int (length (add_class cs e)), m')" "class_table m' (add_class cs e)"
           "class_array m' = class_array m" "num_objects_to_move_arr m' = num_objects_to_move_arr m"
    using size_step_table [OF Cons.prems(1) _ _ len e] Cons.prems(2,3) by auto
  have unf: "size_loop kDefaultTransferNumObjecs x (1 + int (length cs)) m =
      size_loop kDefaultTransferNumObjecs (s + a) (1 + int (length (add_class cs e))) m'"
    using m'(1) x by (subst size_loop.simps) simp
  show ?case
    using Cons.IH [OF m'(2) _ _ _ x(3)] Cons.prems(2-4) m'(3,4) unf by simp
qed

section \<open>The index of a size\<close>

text \<open>
  Class sizes are multiples of 8, and of 128 above \<open>kMaxSmallSize\<close>; the index of such a size
  separates the sizes below it from those above.
\<close>

definition class_aligned :: "int \<Rightarrow> bool" where
  "class_aligned t \<longleftrightarrow> 0 \<le> t \<and> t \<le> kMaxSize \<and> (if t \<le> kMaxSmallSize then 8 dvd t else 128 dvd t)"

lemma ClassIndex_small: "s \<le> 1024 \<Longrightarrow> ClassIndex s = (s + 7) div 8"
  by (simp add: ClassIndex_def kMaxSmallSize_def)

lemma ClassIndex_large: "1024 < s \<Longrightarrow> ClassIndex s = (s + 127) div 128 + 120"
  using div_mult_self1 [of 128 "s + 127" 120] by (simp add: ClassIndex_def kMaxSmallSize_def)

lemma ClassIndex_mono: "0 \<le> s \<Longrightarrow> s \<le> t \<Longrightarrow> ClassIndex s \<le> ClassIndex t"
  by (cases "s \<le> 1024"; cases "t \<le> 1024"; simp add: ClassIndex_small ClassIndex_large; linarith)

lemma ClassIndex_range: "0 \<le> s \<Longrightarrow> s \<le> kMaxSize \<Longrightarrow> 0 \<le> ClassIndex s \<and> ClassIndex s < 2169"
  by (cases "s \<le> 1024") (auto simp: ClassIndex_small ClassIndex_large kMaxSize_def)

lemma ClassIndex_step: "0 \<le> s \<Longrightarrow> ClassIndex (s + 8) \<le> ClassIndex s + 1"
  by (cases "s \<le> 1024"; cases "s + 8 \<le> 1024"; simp add: ClassIndex_small ClassIndex_large; linarith)

lemma ClassIndex_le_iff:
  assumes "0 \<le> s" "class_aligned t"
  shows "ClassIndex s \<le> ClassIndex t \<longleftrightarrow> s \<le> t"
proof
  assume le: "ClassIndex s \<le> ClassIndex t"
  show "s \<le> t"
  proof (cases "t \<le> 1024")
    case True
    then obtain k where "t = 8 * k" using assms(2) by (auto simp: class_aligned_def kMaxSmallSize_def)
    then show ?thesis
      using le True by (cases "s \<le> 1024"; simp add: ClassIndex_small ClassIndex_large; linarith)
  next
    case False
    then obtain k where "t = 128 * k" using assms(2) by (auto simp: class_aligned_def kMaxSmallSize_def)
    then show ?thesis
      using le False by (cases "s \<le> 1024"; simp add: ClassIndex_small ClassIndex_large; linarith)
  qed
qed (simp add: ClassIndex_mono assms)

section \<open>The class array\<close>

lemma fill_sizes_spec:
  assumes "0 \<le> s" "class_aligned mx" "length arr = 2169"
  shows "\<exists>arr'. fill_sizes c s mx arr = Inr arr' \<and> length arr' = 2169 \<and>
           (\<forall>i. ClassIndex s \<le> i \<and> i \<le> ClassIndex mx \<longrightarrow> arr' ! nat i = c) \<and>
           (\<forall>i. 0 \<le> i \<and> i < ClassIndex s \<longrightarrow> arr' ! nat i = arr ! nat i)"
  using assms
proof (induction c s mx arr rule: fill_sizes.induct)
  case (1 c s mx arr)
  show ?case
  proof (cases "s \<le> mx")
    case False
    then have "ClassIndex mx < ClassIndex s"
      using ClassIndex_le_iff [OF "1.prems"(1,2)] by simp
    with False "1.prems" show ?thesis by (subst fill_sizes.simps) auto
  next
    case True
    let ?i = "ClassIndex s" let ?arr = "arr[nat ?i := c]"
    have i: "0 \<le> ?i" "?i < 2169"
      using ClassIndex_range [OF "1.prems"(1)] True "1.prems"(2) by (auto simp: class_aligned_def)
    have w: "wr arr ?i c = Inr ?arr" using i "1.prems"(3) by simp
    obtain arr' where arr': "fill_sizes c (s + kAlignment) mx ?arr = Inr arr'" "length arr' = 2169"
      "\<And>j. ClassIndex (s + 8) \<le> j \<Longrightarrow> j \<le> ClassIndex mx \<Longrightarrow> arr' ! nat j = c"
      "\<And>j. 0 \<le> j \<Longrightarrow> j < ClassIndex (s + 8) \<Longrightarrow> arr' ! nat j = ?arr ! nat j"
      using "1.IH" [OF True w] "1.prems" by (auto simp: kAlignment_def)
    have "arr' ! nat j = c" if "?i \<le> j" "j \<le> ClassIndex mx" for j
    proof (cases "ClassIndex (s + 8) \<le> j")
      case False
      then have "j = ?i" using that ClassIndex_step [OF "1.prems"(1)] by simp
      with False show ?thesis using arr'(4) [of j] i "1.prems"(3) by simp
    qed (use arr'(3) that in blast)
    moreover have "arr' ! nat j = arr ! nat j" if "0 \<le> j" "j < ?i" for j
    proof -
      have "j < ClassIndex (s + 8)" using that ClassIndex_mono [of s "s + 8"] "1.prems"(1) by simp
      then have "arr' ! nat j = ?arr ! nat j" using arr'(4) that by blast
      moreover have "nat j \<noteq> nat ?i" using that by (simp add: nat_eq_iff)
      ultimately show ?thesis by simp
    qed
    ultimately show ?thesis
      using True w arr'(1,2) by (subst fill_sizes.simps) auto
  qed
qed

text \<open>The table of class sizes: entry 0 is unused, the others grow.\<close>

definition class_sizes :: "int list \<Rightarrow> bool" where
  "class_sizes sizes \<longleftrightarrow> length sizes = 88 \<and> sizes ! 0 = 0 \<and> sizes ! 87 = kMaxSize \<and>
     (\<forall>c\<in>{..<88}. class_aligned (sizes ! c)) \<and> (\<forall>c\<in>{..<87}. sizes ! c < sizes ! Suc c)"

definition filled :: "int list \<Rightarrow> int \<Rightarrow> int list \<Rightarrow> bool" where
  "filled sizes c arr \<longleftrightarrow> length arr = 2169 \<and>
     (\<forall>i. 1 < c \<and> 0 \<le> i \<and> i \<le> ClassIndex (sizes ! nat (c - 1)) \<longrightarrow>
        1 \<le> arr ! nat i \<and> arr ! nat i < c \<and> i \<le> ClassIndex (sizes ! nat (arr ! nat i)) \<and>
        (1 < arr ! nat i \<longrightarrow> ClassIndex (sizes ! nat (arr ! nat i - 1)) < i))"

lemma fill_classes_spec:
  assumes "class_sizes sizes" "1 \<le> c" "c \<le> 88"
    "next = (if c = 1 then 0 else sizes ! nat (c - 1) + 8)" "filled sizes c arr"
  shows "\<exists>arr'. fill_classes sizes c next arr = Inr arr' \<and> filled sizes 88 arr'"
  using assms
proof (induction sizes c "next" arr rule: fill_classes.induct)
  case (1 sizes c "next" arr)
  show ?case
  proof (cases "c < 88")
    case False
    then show ?thesis using "1.prems" by (subst fill_classes.simps) (simp add: kNumClasses_def)
  next
    case True
    have c: "nat c < 88" "1 \<le> nat c" "nat (c - 1) < 87" "Suc (nat (c - 1)) = nat c"
      using True "1.prems"(2) by auto
    let ?mx = "sizes ! nat c" and ?pv = "sizes ! nat (c - 1)"
    have al: "class_aligned ?mx" "class_aligned ?pv"
      using "1.prems"(1) c unfolding class_sizes_def by auto
    have grow: "?pv < ?mx" using "1.prems"(1) c unfolding class_sizes_def
      by (metis lessThan_iff)
    have rd: "rd sizes c = Inr ?mx" using "1.prems"(1,2) True by (simp add: class_sizes_def)
    have n0: "0 \<le> next" using "1.prems"(4) al(2) by (simp add: class_aligned_def)
    obtain arr1 where arr1: "fill_sizes c next ?mx arr = Inr arr1" "length arr1 = 2169"
      "\<And>i. ClassIndex next \<le> i \<Longrightarrow> i \<le> ClassIndex ?mx \<Longrightarrow> arr1 ! nat i = c"
      "\<And>i. 0 \<le> i \<Longrightarrow> i < ClassIndex next \<Longrightarrow> arr1 ! nat i = arr ! nat i"
      using fill_sizes_spec [OF n0 al(1), of arr c] "1.prems"(5) by (auto simp: filled_def)
    have first: "i \<le> ClassIndex ?pv" if "c \<noteq> 1" "i < ClassIndex next" for i
      using ClassIndex_step [of ?pv] that "1.prems"(4) al(2) by (simp add: class_aligned_def)
    have below: "ClassIndex ?pv < ClassIndex next" if "c \<noteq> 1"
      using ClassIndex_le_iff [OF n0 al(2)] that "1.prems"(4) by simp
    have "filled sizes (c + 1) arr1"
      unfolding filled_def
    proof (rule conjI [OF arr1(2)], intro allI impI)
      fix i assume i: "1 < c + 1 \<and> 0 \<le> i \<and> i \<le> ClassIndex (sizes ! nat (c + 1 - 1))"
      show "1 \<le> arr1 ! nat i \<and> arr1 ! nat i < c + 1 \<and> i \<le> ClassIndex (sizes ! nat (arr1 ! nat i)) \<and>
        (1 < arr1 ! nat i \<longrightarrow> ClassIndex (sizes ! nat (arr1 ! nat i - 1)) < i)"
      proof (cases "i < ClassIndex next")
        case True
        then have "c \<noteq> 1" using i "1.prems"(4) by (auto simp: ClassIndex_small)
        then show ?thesis
          using True i first [of i] arr1(4) [of i] "1.prems"(2,5) unfolding filled_def by auto
      next
        case False
        then have "arr1 ! nat i = c" using i arr1(3) by simp
        then show ?thesis using i below False "1.prems"(2) by auto
      qed
    qed
    then obtain arr2 where "fill_classes sizes (c + 1) (?mx + kAlignment) arr1 = Inr arr2"
        "filled sizes 88 arr2"
      using "1.IH" [OF _ rd arr1(1)] "1.prems" True by (auto simp: kAlignment_def kNumClasses_def)
    then show ?thesis
      using True rd arr1(1) by (subst fill_classes.simps) (auto simp: kNumClasses_def)
  qed
qed

text \<open>What the finished map promises for a size: the smallest class that holds it.\<close>

definition best_class :: "SizeMap \<Rightarrow> int \<Rightarrow> int \<Rightarrow> bool" where
  "best_class m s c \<longleftrightarrow> 1 \<le> c \<and> c < kNumClasses \<and> s \<le> class_to_size_arr m ! nat c \<and>
     (\<forall>c'. 1 \<le> c' \<and> c' < c \<longrightarrow> class_to_size_arr m ! nat c' < s)"

lemma class_sizes_mono:
  assumes "class_sizes sizes" "i < j" "j < 88"
  shows "sizes ! i < sizes ! j"
  using assms(2,3)
proof (induction j)
  case (Suc j)
  have "sizes ! j < sizes ! Suc j" using assms(1) Suc.prems(2) by (auto simp: class_sizes_def)
  then show ?case using Suc by (cases "i = j") auto
qed simp

lemma SizeClass_filled:
  assumes sizes: "class_sizes (class_to_size_arr m)" and arr: "filled (class_to_size_arr m) 88 (class_array m)"
    and s: "0 \<le> s" "s \<le> kMaxSize"
  shows "\<exists>c. SizeClass m s = Inr c \<and> best_class m s c"
proof -
  let ?t = "class_to_size_arr m" and ?i = "ClassIndex s"
  let ?c = "class_array m ! nat ?i"
  have i: "0 \<le> ?i" "?i < 2169" using ClassIndex_range s by auto
  have "?i \<le> ClassIndex (?t ! 87)" using sizes s ClassIndex_mono by (simp add: class_sizes_def)
  then have c: "1 \<le> ?c" "?c < 88" "?i \<le> ClassIndex (?t ! nat ?c)"
      "1 < ?c \<Longrightarrow> ClassIndex (?t ! nat (?c - 1)) < ?i"
    using arr i by (auto simp: filled_def)
  have al: "class_aligned (?t ! k)" if "k < 88" for k using sizes that by (simp add: class_sizes_def)
  have up: "s \<le> ?t ! nat ?c"
    using c al [of "nat ?c"] ClassIndex_le_iff [OF s(1)] by simp
  have "?t ! nat c' < s" if "1 \<le> c'" "c' < ?c" for c'
  proof -
    have "\<not> s \<le> ?t ! nat (?c - 1)"
      using c that al [of "nat (?c - 1)"] ClassIndex_le_iff [OF s(1), of "?t ! nat (?c - 1)"] by simp
    moreover have "?t ! nat c' \<le> ?t ! nat (?c - 1)"
      using that c class_sizes_mono [OF sizes, of "nat c'" "nat (?c - 1)"]
      by (cases "c' = ?c - 1") (auto simp: nat_less_iff)
    ultimately show ?thesis by simp
  qed
  then have "best_class m s ?c" using c up by (auto simp: best_class_def kNumClasses_def)
  moreover have "SizeClass m s = Inr ?c" using i arr by (simp add: SizeClass_def filled_def)
  ultimately show ?thesis by blast
qed

lemma check_sizes_filled:
  assumes "class_sizes (class_to_size_arr m)" "filled (class_to_size_arr m) 88 (class_array m)" "0 \<le> s"
  shows "check_sizes m s = Inr ()"
  using assms
proof (induction m s rule: check_sizes.induct)
  case (1 m s)
  show ?case
  proof (cases "s \<le> kMaxSize")
    case True
    obtain c where c: "SizeClass m s = Inr c" "best_class m s c"
      using SizeClass_filled [OF "1.prems" True] by blast
    let ?t = "class_to_size_arr m"
    have c': "1 \<le> c" "c < 88" "s \<le> ?t ! nat c" "1 < c \<Longrightarrow> ?t ! nat (c - 1) < s"
      using c(2) by (auto simp: best_class_def kNumClasses_def)
    have len: "length ?t = 88" and z: "?t ! 0 = 0" using "1.prems"(1) by (auto simp: class_sizes_def)
    have pos: "?t ! nat c \<noteq> 0"
      using class_sizes_mono [OF "1.prems"(1), of 0 "nat c"] z c'(1,2) by (simp add: nat_less_iff)
    have "check_size m s = Inr ()"
      using c(1) c' len pos by (cases "c = 1") (auto simp: check_size_def kNumClasses_def)
    then show ?thesis
      using "1.IH" [OF True] "1.prems" True by (subst check_sizes.simps) auto
  qed (subst check_sizes.simps, simp)
qed

section \<open>\<open>SizeMap::Init\<close>\<close>

lemma size_classes_facts:
  "length size_classes = 87"
  "list_all (\<lambda>e. class_aligned (fst e)) size_classes"
  "sorted_wrt (<) (map fst size_classes)"
  "fst (size_classes ! 86) = 262144" "fst (size_classes ! 0) = 8"
  by (simp_all add: size_classes_def class_aligned_def size_config kMaxSmallSize_def)

lemma size_classes_class_sizes: "class_sizes (0 # map fst size_classes)"
proof -
  have nth: "(0 # map fst size_classes) ! Suc c = fst (size_classes ! c)" if "c < 87" for c
    using that by (simp add: size_classes_facts(1))
  have "class_aligned ((0 # map fst size_classes) ! c)" if "c < 88" for c
    using that size_classes_facts(1,2)
    by (cases c) (auto simp: list_all_length class_aligned_def size_config kMaxSmallSize_def)
  moreover have "(0 # map fst size_classes) ! c < (0 # map fst size_classes) ! Suc c" if "c < 87" for c
    using that size_classes_facts(1,3,5)
    by (cases c) (auto simp: sorted_wrt_iff_nth_less)
  ultimately show ?thesis
    using size_classes_facts(1,4) by (simp add: class_sizes_def kMaxSize_def)
qed

definition map_of_classes :: "SizeMap \<Rightarrow> bool" where
  "map_of_classes m \<longleftrightarrow> class_to_size_arr m = 0 # map fst size_classes \<and>
     class_to_pages_arr m = 0 # map snd size_classes \<and>
     num_objects_to_move_arr m = 0 # map (\<lambda>e. NumMoveSize kDefaultTransferNumObjecs (fst e)) size_classes \<and>
     filled (class_to_size_arr m) 88 (class_array m)"

lemma SizeMap_Init_map: "\<exists>m. SizeMap_Init kDefaultTransferNumObjecs = Inr m \<and> map_of_classes m"
proof -
  have t0: "class_table SizeMap_zero []"
    by (simp add: class_table_def SizeMap_zero_def kNumClasses_def flip: replicate_Suc)
  obtain m where m: "size_loop kDefaultTransferNumObjecs 8 1 SizeMap_zero = Inr (88, m)"
      "class_table m size_classes" "class_array m = class_array SizeMap_zero"
      "num_objects_to_move_arr m = num_objects_to_move_arr SizeMap_zero"
    using size_loop_table [OF t0 size_plan_alignment size_plan_pages _ size_plan_linked]
    by (auto simp: size_plan_classes size_classes_facts(1))
  have tab: "class_to_size_arr m = 0 # map fst size_classes" "class_to_pages_arr m = 0 # map snd size_classes"
    using m(2) by (auto simp: class_table_def size_classes_facts(1))
  have "filled (class_to_size_arr m) 1 (class_array m)"
    using m(3) by (simp add: filled_def SizeMap_zero_def kClassArraySize_def kMaxSize_def)
  then obtain arr where arr: "fill_classes (class_to_size_arr m) 1 0 (class_array m) = Inr arr"
      "filled (class_to_size_arr m) 88 arr"
    using fill_classes_spec [of "class_to_size_arr m" 1 0 "class_array m"] size_classes_class_sizes tab
    by auto
  have chk: "check_sizes (m\<lparr>class_array := arr\<rparr>) 0 = Inr ()"
    using check_sizes_filled [of "m\<lparr>class_array := arr\<rparr>" 0] size_classes_class_sizes tab arr(2) by simp
  have "hd (num_objects_to_move_arr m) = 0"
    using m(4) by (simp add: SizeMap_zero_def kNumClasses_def hd_replicate)
  then show ?thesis
    using m(1) arr chk tab
    by (simp add: SizeMap_Init_def ClassIndex_def size_config kMaxSmallSize_def kClassArraySize_def
        map_of_classes_def comp_def)
qed

text \<open>
  C3: initialising the size map with the default transfer size succeeds (none of its checks fails
  and no array is accessed out of its bounds), and afterwards \<open>SizeClass\<close> maps every size from 0 to
  \<open>kMaxSize\<close> to the smallest class whose objects are large enough.
\<close>

theorem SizeMap_Init_best_class:
  "returns (\<lambda>m. \<forall>s. 0 \<le> s \<and> s \<le> kMaxSize \<longrightarrow> returns (best_class m s) (SizeClass m s))
     (SizeMap_Init kDefaultTransferNumObjecs)"
proof -
  obtain m where m: "SizeMap_Init kDefaultTransferNumObjecs = Inr m" "map_of_classes m"
    using SizeMap_Init_map by blast
  then have "class_sizes (class_to_size_arr m)"
    using size_classes_class_sizes by (simp add: map_of_classes_def)
  then show ?thesis
    using m SizeClass_filled [of m] by (fastforce simp: map_of_classes_def returns_iff)
qed

theorem SizeMap_Init_best_class_witness:
  "returns (\<lambda>m. returns (best_class m 1000) (SizeClass m 1000)) (SizeMap_Init kDefaultTransferNumObjecs)"
  using SizeMap_Init_best_class by (rule returns_mono) (simp add: kMaxSize_def)

text \<open>The geometry of the spans of a class.\<close>

definition span_geometry :: "int \<Rightarrow> int \<Rightarrow> int \<Rightarrow> bool" where
  "span_geometry sz pgs mv \<longleftrightarrow> 0 < sz \<and> sz mod kAlignment = 0 \<and> (kMinAlign \<le> sz \<longrightarrow> sz mod kMinAlign = 0) \<and>
     1 \<le> pgs \<and> pgs * kPageSize mod sz \<le> pgs * kPageSize div 8 \<and> mv div 4 \<le> pgs * kPageSize div sz \<and>
     1 \<le> pgs * kPageSize div sz \<and> 2 \<le> mv \<and> mv \<le> 8192"

lemma size_classes_geometry:
  "list_all (\<lambda>e. span_geometry (fst e) (snd e) (min (max 2 (65536 div fst e)) 32768)) size_classes"
  by (simp add: size_classes_def span_geometry_def size_config)

text \<open>
  C4: after initialisation every size class has objects of a positive, suitably aligned size, its
  spans have at least one page, hold at least one object and at least a quarter of a transfer batch
  of objects, waste at most one eighth of their bytes, and a batch has between 2 and 8192 objects.
\<close>

theorem SizeMap_Init_geometry:
  "returns (\<lambda>m. \<forall>c. 1 \<le> c \<and> c < kNumClasses \<longrightarrow>
       returns (\<lambda>sz. returns (\<lambda>pgs. returns (span_geometry sz pgs) (num_objects_to_move m c))
         (class_to_pages m c)) (class_to_size m c))
     (SizeMap_Init kDefaultTransferNumObjecs)"
proof -
  obtain m where m: "SizeMap_Init kDefaultTransferNumObjecs = Inr m" "map_of_classes m"
    using SizeMap_Init_map by blast
  have "span_geometry (class_to_size_arr m ! nat c) (class_to_pages_arr m ! nat c)
          (num_objects_to_move_arr m ! nat c)" if "1 \<le> c" "c < 88" for c
  proof -
    define k where "k = nat (c - 1)"
    have k: "nat c = Suc k" "k < 87" using that by (auto simp: k_def)
    have g: "span_geometry (fst (size_classes ! k)) (snd (size_classes ! k))
        (min (max 2 (65536 div fst (size_classes ! k))) 32768)"
      using size_classes_geometry k(2) size_classes_facts(1) by (simp add: list_all_length)
    then have "NumMoveSize kDefaultTransferNumObjecs (fst (size_classes ! k)) =
        min (max 2 (65536 div fst (size_classes ! k))) 32768"
      by (simp add: NumMoveSize_div span_geometry_def kDefaultTransferNumObjecs_def)
    then show ?thesis using g m(2) k by (simp add: map_of_classes_def size_classes_facts(1))
  qed
  then show ?thesis
    using m by (auto simp: map_of_classes_def class_to_size_def class_to_pages_def
        num_objects_to_move_def kNumClasses_def size_classes_facts(1))
qed

theorem SizeMap_Init_geometry_witness:
  "returns (\<lambda>m. returns (\<lambda>sz. returns (\<lambda>pgs. returns (span_geometry sz pgs) (num_objects_to_move m 44))
         (class_to_pages m 44)) (class_to_size m 44)) (SizeMap_Init kDefaultTransferNumObjecs)"
  using SizeMap_Init_geometry by (rule returns_mono) (simp add: kNumClasses_def)

end
