(* ===== verification/Page_Map.thy ===== *)
theory Page_Map
  imports Tc_Prelude
begin

text \<open>
  The page maps of \<open>pagemap.h\<close>: a flat array, a two-level and a three-level radix tree from page
  numbers to pointers.  The template argument \<open>BITS\<close> is the parameter \<open>bits\<close>.  A node is owned by
  the entry that points to it, so a tree is a nesting of arrays; an entry \<open>None\<close> is a NULL pointer.
  Arrays are functions on indices together with an explicit bounds check.  The allocator passed to
  the constructor is the parameter \<open>al\<close>, which takes a number of bytes and its own state.

  The locale \<open>page_map\<close> is the contract the page heap relies on; all three maps implement it.
\<close>

type_synonym 's allocator = "nat \<Rightarrow> 's \<Rightarrow> (addr \<times> 's) res"
type_synonym leaf = "nat \<Rightarrow> addr"
type_synonym leaves = "nat \<Rightarrow> leaf option"
type_synonym node = "nat \<Rightarrow> leaves option"

section \<open>Arithmetic of the radix trees\<close>

text \<open>The first key that is not covered by the same node of \<open>2 ^ b\<close> keys.\<close>

definition advance :: "nat \<Rightarrow> nat \<Rightarrow> nat" where
  "advance b k = (k div 2 ^ b + 1) * 2 ^ b"

lemma advance_gt: "k < advance b k"
  using dividend_less_div_times [of "2 ^ b" k] by (simp add: advance_def algebra_simps)

lemma advance_le: "k < 2 ^ bits \<Longrightarrow> b \<le> bits \<Longrightarrow> advance b k \<le> 2 ^ bits"
proof -
  assume k: "k < 2 ^ bits" and b: "b \<le> bits"
  have e: "(2::nat) ^ bits = 2 ^ (bits - b) * 2 ^ b" using b by (simp flip: power_add)
  have "k div 2 ^ b < 2 ^ (bits - b)" using k by (simp add: e less_mult_imp_div_less)
  then have "(k div 2 ^ b + 1) * 2 ^ b \<le> 2 ^ (bits - b) * 2 ^ b"
    by (intro mult_le_mono1) simp
  then show ?thesis by (simp add: advance_def e)
qed

lemma advance_div:
  assumes "k \<le> j" "j < advance b k"
  shows "j div 2 ^ b = k div 2 ^ b"
proof -
  have "k div 2 ^ b \<le> j div 2 ^ b" using assms(1) by (rule div_le_mono)
  moreover have "j div 2 ^ b < k div 2 ^ b + 1"
    using assms(2) less_mult_imp_div_less [of j "k div 2 ^ b + 1" "2 ^ b"] by (simp add: advance_def)
  ultimately show ?thesis by simp
qed

text \<open>The last key \<open>start + n - 1\<close>, computed in 64 bits.\<close>

definition last_key :: "nat \<Rightarrow> nat \<Rightarrow> nat" where
  "last_key start n = (start + n + (2 ^ 64 - 1)) mod 2 ^ 64"

lemma last_key:
  assumes "0 < n" "start + n \<le> 2 ^ 64"
  shows "last_key start n = start + n - 1"
proof -
  have "start + n + (2 ^ 64 - 1) = (start + n - 1) + 2 ^ 64" using assms by simp
  then have "last_key start n = (start + n - 1) mod 2 ^ 64"
    unfolding last_key_def by (simp only: mod_add_self2)
  then show ?thesis using assms by simp
qed

text \<open>The scan of a leaf for its first entry that is not NULL, from index \<open>i\<close> on.\<close>

function leaf_scan :: "leaf \<Rightarrow> nat \<Rightarrow> nat \<Rightarrow> addr option" where
  "leaf_scan l len i =
     (if i < len then if l i \<noteq> 0 then Some (l i) else leaf_scan l len (i + 1) else None)"
  by pat_completeness auto
termination by (relation "measure (\<lambda>(l, len, i). len - i)") auto

declare leaf_scan.simps [simp del]

section \<open>Single-level array\<close>

record PageMap1 =
  array1 :: leaf

definition PageMap1_new :: "nat \<Rightarrow> 's allocator \<Rightarrow> 's \<Rightarrow> (PageMap1 \<times> 's) res" where
  "PageMap1_new bits al s =
     bind_res (al (8 * 2 ^ bits) s) (\<lambda>(p, s).
     if p = 0 then Inl Segv else Inr (\<lparr> array1 = (\<lambda>_. 0) \<rparr>, s))"

definition PageMap1_Ensure :: "nat \<Rightarrow> nat \<Rightarrow> nat \<Rightarrow> bool" where
  "PageMap1_Ensure bits x n \<longleftrightarrow> int n \<le> (2 ^ bits - int x) mod 2 ^ 64"

definition PageMap1_get :: "nat \<Rightarrow> PageMap1 \<Rightarrow> nat \<Rightarrow> addr res" where
  "PageMap1_get bits pm k =
     (if k div 2 ^ bits > 0 then Inr 0
      else if k < 2 ^ bits then Inr (array1 pm k) else Inl Segv)"

definition PageMap1_set :: "nat \<Rightarrow> PageMap1 \<Rightarrow> nat \<Rightarrow> addr \<Rightarrow> PageMap1 res" where
  "PageMap1_set bits pm k v =
     (if k < 2 ^ bits then Inr (pm\<lparr>array1 := (array1 pm)(k := v)\<rparr>) else Inl Segv)"

function PageMap1_Next :: "nat \<Rightarrow> PageMap1 \<Rightarrow> nat \<Rightarrow> addr res" where
  "PageMap1_Next bits pm k =
     (if k < 2 ^ bits then
        if array1 pm k \<noteq> 0 then Inr (array1 pm k) else PageMap1_Next bits pm (k + 1)
      else Inr 0)"
  by pat_completeness auto
termination by (relation "measure (\<lambda>(bits, pm, k). 2 ^ bits - k)") auto

declare PageMap1_Next.simps [simp del]

section \<open>Two-level radix tree\<close>

definition ROOT_BITS :: nat where "ROOT_BITS = 5"
definition LEAF_BITS2 :: "nat \<Rightarrow> nat" where "LEAF_BITS2 bits = bits - ROOT_BITS"

record PageMap2 =
  root2 :: leaves

definition PageMap2_new :: PageMap2 where
  "PageMap2_new = \<lparr> root2 = (\<lambda>_. None) \<rparr>"

text \<open>Reading \<open>root_[i1]\<close>.\<close>

definition rd_root2 :: "PageMap2 \<Rightarrow> nat \<Rightarrow> leaf option res" where
  "rd_root2 pm i1 = (if i1 < 2 ^ ROOT_BITS then Inr (root2 pm i1) else Inl Segv)"

definition PageMap2_get :: "nat \<Rightarrow> PageMap2 \<Rightarrow> nat \<Rightarrow> addr res" where
  "PageMap2_get bits pm k =
     (let i1 = k div 2 ^ LEAF_BITS2 bits; i2 = k mod 2 ^ LEAF_BITS2 bits
      in if k div 2 ^ bits > 0 then Inr 0
         else bind_res (rd_root2 pm i1) (\<lambda>leaf.
              case leaf of None \<Rightarrow> Inr 0 | Some l \<Rightarrow> Inr (l i2)))"

definition PageMap2_set :: "nat \<Rightarrow> PageMap2 \<Rightarrow> nat \<Rightarrow> addr \<Rightarrow> PageMap2 res" where
  "PageMap2_set bits pm k v =
     (let i1 = k div 2 ^ LEAF_BITS2 bits; i2 = k mod 2 ^ LEAF_BITS2 bits
      in bind_res (rd_root2 pm i1) (\<lambda>leaf.
         case leaf of None \<Rightarrow> Inl Segv
         | Some l \<Rightarrow> Inr (pm\<lparr>root2 := (root2 pm)(i1 \<mapsto> l(i2 := v))\<rparr>)))"

function PageMap2_Ensure_loop ::
  "nat \<Rightarrow> 's allocator \<Rightarrow> nat \<Rightarrow> nat \<Rightarrow> PageMap2 \<Rightarrow> 's \<Rightarrow> (bool \<times> PageMap2 \<times> 's) res" where
  "PageMap2_Ensure_loop bits al lst key pm s =
     (if key \<le> lst then
        let i1 = key div 2 ^ LEAF_BITS2 bits
        in if i1 \<ge> 2 ^ ROOT_BITS then Inr (False, pm, s)
           else if root2 pm i1 = None then
             bind_res (al (8 * 2 ^ LEAF_BITS2 bits) s) (\<lambda>(leaf, s).
             if leaf = 0 then Inr (False, pm, s)
             else PageMap2_Ensure_loop bits al lst (advance (LEAF_BITS2 bits) key)
                    (pm\<lparr>root2 := (root2 pm)(i1 \<mapsto> (\<lambda>_. 0))\<rparr>) s)
           else PageMap2_Ensure_loop bits al lst (advance (LEAF_BITS2 bits) key) pm s
      else Inr (True, pm, s))"
  by pat_completeness auto
termination
  by (relation "measure (\<lambda>(bits, al, lst, key, pm, s). lst + 1 - key)")
    (auto intro: diff_less_mono2 simp: advance_gt less_Suc_eq_le)

declare PageMap2_Ensure_loop.simps [simp del]

definition PageMap2_Ensure ::
  "nat \<Rightarrow> 's allocator \<Rightarrow> nat \<Rightarrow> nat \<Rightarrow> PageMap2 \<Rightarrow> 's \<Rightarrow> (bool \<times> PageMap2 \<times> 's) res" where
  "PageMap2_Ensure bits al start n pm s = PageMap2_Ensure_loop bits al (last_key start n) start pm s"

definition PageMap2_PreallocateMoreMemory ::
  "nat \<Rightarrow> 's allocator \<Rightarrow> PageMap2 \<Rightarrow> 's \<Rightarrow> (PageMap2 \<times> 's) res" where
  "PageMap2_PreallocateMoreMemory bits al pm s =
     bind_res (PageMap2_Ensure bits al 0 (2 ^ bits) pm s) (\<lambda>(_, pm, s). Inr (pm, s))"

function PageMap2_Next :: "nat \<Rightarrow> PageMap2 \<Rightarrow> nat \<Rightarrow> addr res" where
  "PageMap2_Next bits pm k =
     (if k < 2 ^ bits then
        let i1 = k div 2 ^ LEAF_BITS2 bits
        in bind_res (rd_root2 pm i1) (\<lambda>leaf.
           case (case leaf of None \<Rightarrow> None
                 | Some l \<Rightarrow> leaf_scan l (2 ^ LEAF_BITS2 bits) (k mod 2 ^ LEAF_BITS2 bits))
           of Some v \<Rightarrow> Inr v
           | None \<Rightarrow> PageMap2_Next bits pm (advance (LEAF_BITS2 bits) k))
      else Inr 0)"
  by pat_completeness auto
termination
  by (relation "measure (\<lambda>(bits, pm, k). 2 ^ bits - k)") (auto intro: diff_less_mono2 simp: advance_gt)

declare PageMap2_Next.simps [simp del]

section \<open>Three-level radix tree\<close>

definition INTERIOR_BITS :: "nat \<Rightarrow> nat" where "INTERIOR_BITS bits = (bits + 2) div 3"
definition LEAF_BITS3 :: "nat \<Rightarrow> nat" where "LEAF_BITS3 bits = bits - 2 * INTERIOR_BITS bits"

record PageMap3 =
  root3 :: "node option"

definition key1 :: "nat \<Rightarrow> nat \<Rightarrow> nat" where
  "key1 bits k = k div 2 ^ (LEAF_BITS3 bits + INTERIOR_BITS bits)"
definition key2 :: "nat \<Rightarrow> nat \<Rightarrow> nat" where
  "key2 bits k = (k div 2 ^ LEAF_BITS3 bits) mod 2 ^ INTERIOR_BITS bits"
definition key3 :: "nat \<Rightarrow> nat \<Rightarrow> nat" where
  "key3 bits k = k mod 2 ^ LEAF_BITS3 bits"

definition NewNode :: "nat \<Rightarrow> 's allocator \<Rightarrow> 's \<Rightarrow> (bool \<times> 's) res" where
  "NewNode bits al s = bind_res (al (8 * 2 ^ INTERIOR_BITS bits) s) (\<lambda>(p, s). Inr (p \<noteq> 0, s))"

definition PageMap3_new :: "nat \<Rightarrow> 's allocator \<Rightarrow> 's \<Rightarrow> (PageMap3 \<times> 's) res" where
  "PageMap3_new bits al s =
     bind_res (NewNode bits al s) (\<lambda>(ok, s).
     Inr (\<lparr> root3 = (if ok then Some (\<lambda>_. None) else None) \<rparr>, s))"

text \<open>Reading \<open>root_->ptrs[i1]\<close>.\<close>

definition rd_root3 :: "nat \<Rightarrow> PageMap3 \<Rightarrow> nat \<Rightarrow> leaves option res" where
  "rd_root3 bits pm i1 =
     (case root3 pm of None \<Rightarrow> Inl Segv
      | Some nd \<Rightarrow> if i1 < 2 ^ INTERIOR_BITS bits then Inr (nd i1) else Inl Segv)"

definition PageMap3_get :: "nat \<Rightarrow> PageMap3 \<Rightarrow> nat \<Rightarrow> addr res" where
  "PageMap3_get bits pm k =
     (if k div 2 ^ bits > 0 then Inr 0
      else bind_res (rd_root3 bits pm (key1 bits k)) (\<lambda>n1.
           case n1 of None \<Rightarrow> Inr 0
           | Some ls \<Rightarrow> (case ls (key2 bits k) of None \<Rightarrow> Inr 0 | Some l \<Rightarrow> Inr (l (key3 bits k)))))"

text \<open>Linking a node or a leaf, or storing a value, through \<open>root_\<close>.\<close>

definition put_leaves :: "PageMap3 \<Rightarrow> nat \<Rightarrow> leaves \<Rightarrow> PageMap3" where
  "put_leaves pm i1 ls = pm\<lparr>root3 := map_option (\<lambda>nd. nd(i1 \<mapsto> ls)) (root3 pm)\<rparr>"

definition PageMap3_set :: "nat \<Rightarrow> PageMap3 \<Rightarrow> nat \<Rightarrow> addr \<Rightarrow> PageMap3 res" where
  "PageMap3_set bits pm k v =
     bind_res (rd_root3 bits pm (key1 bits k)) (\<lambda>n1.
     case n1 of None \<Rightarrow> Inl Segv
     | Some ls \<Rightarrow> (case ls (key2 bits k) of None \<Rightarrow> Inl Segv
                   | Some l \<Rightarrow> Inr (put_leaves pm (key1 bits k)
                                     (ls(key2 bits k \<mapsto> l(key3 bits k := v))))))"

text \<open>The body of the loop of \<open>Ensure\<close>: make the interior node, then the leaf.\<close>

definition PageMap3_Ensure_step ::
  "nat \<Rightarrow> 's allocator \<Rightarrow> nat \<Rightarrow> PageMap3 \<Rightarrow> 's \<Rightarrow> (bool \<times> PageMap3 \<times> 's) res" where
  "PageMap3_Ensure_step bits al key pm s =
     (let i1 = key1 bits key; i2 = key2 bits key
      in if i1 \<ge> 2 ^ INTERIOR_BITS bits \<or> i2 \<ge> 2 ^ INTERIOR_BITS bits then Inr (False, pm, s)
         else bind_res (rd_root3 bits pm i1) (\<lambda>n1.
           bind_res
             (case n1 of Some ls \<Rightarrow> Inr (True, pm, s)
              | None \<Rightarrow> bind_res (NewNode bits al s) (\<lambda>(ok, s).
                        Inr (ok, if ok then put_leaves pm i1 (\<lambda>_. None) else pm, s))) (\<lambda>(ok, pm, s).
           if \<not> ok then Inr (False, pm, s)
           else bind_res (rd_root3 bits pm i1) (\<lambda>n1.
                case n1 of None \<Rightarrow> Inl Segv
                | Some ls \<Rightarrow>
                    if ls i2 = None then
                      bind_res (al (8 * 2 ^ LEAF_BITS3 bits) s) (\<lambda>(leaf, s).
                      if leaf = 0 then Inr (False, pm, s)
                      else Inr (True, put_leaves pm i1 (ls(i2 \<mapsto> (\<lambda>_. 0))), s))
                    else Inr (True, pm, s)))))"

function PageMap3_Ensure_loop ::
  "nat \<Rightarrow> 's allocator \<Rightarrow> nat \<Rightarrow> nat \<Rightarrow> PageMap3 \<Rightarrow> 's \<Rightarrow> (bool \<times> PageMap3 \<times> 's) res" where
  "PageMap3_Ensure_loop bits al lst key pm s =
     (if key \<le> lst then
        bind_res (PageMap3_Ensure_step bits al key pm s) (\<lambda>(ok, pm, s).
        if \<not> ok then Inr (False, pm, s)
        else PageMap3_Ensure_loop bits al lst (advance (LEAF_BITS3 bits) key) pm s)
      else Inr (True, pm, s))"
  by pat_completeness auto
termination
  by (relation "measure (\<lambda>(bits, al, lst, key, pm, s). lst + 1 - key)")
    (auto intro: diff_less_mono2 simp: advance_gt less_Suc_eq_le)

declare PageMap3_Ensure_loop.simps [simp del]

definition PageMap3_Ensure ::
  "nat \<Rightarrow> 's allocator \<Rightarrow> nat \<Rightarrow> nat \<Rightarrow> PageMap3 \<Rightarrow> 's \<Rightarrow> (bool \<times> PageMap3 \<times> 's) res" where
  "PageMap3_Ensure bits al start n pm s = PageMap3_Ensure_loop bits al (last_key start n) start pm s"

function PageMap3_Next :: "nat \<Rightarrow> PageMap3 \<Rightarrow> nat \<Rightarrow> addr res" where
  "PageMap3_Next bits pm k =
     (if k < 2 ^ bits then
        bind_res (rd_root3 bits pm (key1 bits k)) (\<lambda>n1.
        case n1 of
          None \<Rightarrow> PageMap3_Next bits pm (advance (LEAF_BITS3 bits + INTERIOR_BITS bits) k)
        | Some ls \<Rightarrow>
            (case (case ls (key2 bits k) of None \<Rightarrow> None
                   | Some l \<Rightarrow> leaf_scan l (2 ^ LEAF_BITS3 bits) (key3 bits k))
             of Some v \<Rightarrow> Inr v
             | None \<Rightarrow> PageMap3_Next bits pm (advance (LEAF_BITS3 bits) k)))
      else Inr 0)"
  by pat_completeness auto
termination
  by (relation "measure (\<lambda>(bits, pm, k). 2 ^ bits - k)") (auto intro: diff_less_mono2 simp: advance_gt)

declare PageMap3_Next.simps [simp del]

end
