(* ===== verification/Page_Map_Correct.thy ===== *)
theory Page_Map_Correct
  imports Page_Map
begin

text \<open>
  The contract of a page map and the proofs that the three maps of \<open>pagemap.h\<close> implement it: what
  \<open>get\<close> returns after \<open>set\<close>, what \<open>Ensure\<close> makes settable, that neither loses an entry, and that
  \<open>Next\<close> finds the first entry at or after a key.
\<close>

section \<open>The contract\<close>

text \<open>The first non-NULL value of \<open>g\<close> at a key of \<open>{k..<bnd}\<close>, or NULL.\<close>

definition first_entry :: "(nat \<Rightarrow> addr) \<Rightarrow> nat \<Rightarrow> nat \<Rightarrow> addr" where
  "first_entry g bnd k =
     (case filter (\<lambda>j. g j \<noteq> 0) [k..<bnd] of [] \<Rightarrow> 0 | j # js \<Rightarrow> g j)"

lemma first_entry_end: "bnd \<le> k \<Longrightarrow> first_entry g bnd k = 0"
  by (simp add: first_entry_def)

lemma first_entry_hit: "k < bnd \<Longrightarrow> g k \<noteq> 0 \<Longrightarrow> first_entry g bnd k = g k"
  by (simp add: first_entry_def upt_conv_Cons)

lemma first_entry_skip:
  assumes "k \<le> k'" "\<And>j. k \<le> j \<Longrightarrow> j < k' \<Longrightarrow> j < bnd \<Longrightarrow> g j = 0"
  shows "first_entry g bnd k = first_entry g bnd k'"
proof (cases "k' \<le> bnd")
  case True
  have "[k..<bnd] = [k..<k'] @ [k'..<bnd]" using upt_add_eq_append [of k k' "bnd - k'"] assms(1) True by simp
  moreover have "filter (\<lambda>j. g j \<noteq> 0) [k..<k'] = []"
    using assms(2) True by (simp add: filter_empty_conv)
  ultimately show ?thesis unfolding first_entry_def by simp
next
  case False
  then have "filter (\<lambda>j. g j \<noteq> 0) [k..<bnd] = []"
    using assms(2) by (simp add: filter_empty_conv)
  with False show ?thesis unfolding first_entry_def by simp
qed

locale page_map =
  fixes bnd :: nat
    and get :: "'m \<Rightarrow> nat \<Rightarrow> addr res"
    and set :: "'m \<Rightarrow> nat \<Rightarrow> addr \<Rightarrow> 'm res"
    and ensured :: "'m \<Rightarrow> nat \<Rightarrow> bool"
    and wf :: "'m \<Rightarrow> bool"
    and Next :: "'m \<Rightarrow> nat \<Rightarrow> addr res"
    and view :: "'m \<Rightarrow> nat \<Rightarrow> addr"
  assumes get_view: "wf pm \<Longrightarrow> get pm k = Inr (view pm k)"
    and view_out: "wf pm \<Longrightarrow> bnd \<le> k \<Longrightarrow> view pm k = 0"
    and ensured_lim: "ensured pm k \<Longrightarrow> k < bnd"
    and set_ensured: "wf pm \<Longrightarrow> ensured pm k \<Longrightarrow>
      returns (\<lambda>pm'. wf pm' \<and> ensured pm' = ensured pm \<and> view pm' = (view pm)(k := v)) (set pm k v)"
    and Next_view: "wf pm \<Longrightarrow> Next pm k = Inr (first_entry (view pm) bnd k)"
begin

text \<open>Setting a run of entries one after the other, as the page heap does for the pages of a span.\<close>

primrec set_run :: "'m \<Rightarrow> nat \<Rightarrow> nat \<Rightarrow> addr \<Rightarrow> 'm res" where
  "set_run pm k 0 v = Inr pm"
| "set_run pm k (Suc n) v = bind_res (set pm k v) (\<lambda>pm. set_run pm (k + 1) n v)"

lemma set_run_view:
  assumes "wf pm" "\<And>j. k \<le> j \<Longrightarrow> j < k + n \<Longrightarrow> ensured pm j"
  shows "returns (\<lambda>pm'. wf pm' \<and> ensured pm' = ensured pm \<and>
           view pm' = (\<lambda>j. if k \<le> j \<and> j < k + n then v else view pm j)) (set_run pm k n v)"
  using assms
proof (induction n arbitrary: pm k)
  case (Suc n)
  have "returns (\<lambda>pm'. wf pm' \<and> ensured pm' = ensured pm \<and> view pm' = (view pm)(k := v)) (set pm k v)"
    using Suc.prems by (intro set_ensured) auto
  then show ?case
  proof (simp, rule returns_bind)
    fix pm' assume pm': "wf pm' \<and> ensured pm' = ensured pm \<and> view pm' = (view pm)(k := v)"
    then have "returns (\<lambda>pm''. wf pm'' \<and> ensured pm'' = ensured pm' \<and>
           view pm'' = (\<lambda>j. if k + 1 \<le> j \<and> j < k + 1 + n then v else view pm' j)) (set_run pm' (k + 1) n v)"
      using Suc.prems(2) by (intro Suc.IH) auto
    then show "returns (\<lambda>pm'. wf pm' \<and> ensured pm' = ensured pm \<and>
           view pm' = (\<lambda>j. if k \<le> j \<and> j < Suc (k + n) then v else view pm j)) (set_run pm' (Suc k) n v)"
      using pm' by (auto elim!: returns_mono simp: fun_eq_iff)
  qed
qed auto

lemma get_set_same: "wf pm \<Longrightarrow> ensured pm k \<Longrightarrow> bind_res (set pm k v) (\<lambda>pm. get pm k) = Inr v"
  using set_ensured [of pm k v] by (auto simp: returns_iff get_view)

lemma get_set_other:
  "wf pm \<Longrightarrow> ensured pm k \<Longrightarrow> j \<noteq> k \<Longrightarrow> bind_res (set pm k v) (\<lambda>pm. get pm j) = get pm j"
  using set_ensured [of pm k v] by (auto simp: returns_iff get_view)

lemma Next_set_same: "wf pm \<Longrightarrow> ensured pm k \<Longrightarrow> v \<noteq> 0 \<Longrightarrow> bind_res (set pm k v) (\<lambda>pm. Next pm k) = Inr v"
  using set_ensured [of pm k v] ensured_lim [of pm k]
  by (auto simp: returns_iff Next_view first_entry_hit)

end

section \<open>The flat array\<close>

definition view1 :: "nat \<Rightarrow> PageMap1 \<Rightarrow> nat \<Rightarrow> addr" where
  "view1 bits pm k = (if k < 2 ^ bits then array1 pm k else 0)"

lemma PageMap1_Next_first: "PageMap1_Next bits pm k = Inr (first_entry (view1 bits pm) (2 ^ bits) k)"
proof (induction bits pm k rule: PageMap1_Next.induct)
  case (1 bits pm k)
  show ?case
  proof (cases "k < 2 ^ bits \<and> array1 pm k = 0")
    case True
    then have "PageMap1_Next bits pm k = Inr (first_entry (view1 bits pm) (2 ^ bits) (k + 1))"
      using "1" by (subst PageMap1_Next.simps) auto
    also have "first_entry (view1 bits pm) (2 ^ bits) (k + 1) = first_entry (view1 bits pm) (2 ^ bits) k"
      using True by (intro first_entry_skip [symmetric]) (auto simp: view1_def less_Suc_eq)
    finally show ?thesis .
  next
    case False
    then show ?thesis
      by (subst PageMap1_Next.simps) (auto simp: first_entry_end first_entry_hit view1_def)
  qed
qed

interpretation pm1: page_map "2 ^ bits" "PageMap1_get bits" "PageMap1_set bits"
  "\<lambda>pm k. k < 2 ^ bits" "\<lambda>pm. True" "PageMap1_Next bits" "view1 bits" for bits
  by unfold_locales
    (auto simp: PageMap1_get_def PageMap1_set_def view1_def fun_eq_iff PageMap1_Next_first div_greater_zero_iff)

section \<open>Leaves\<close>

lemma leaf_scan_None: "leaf_scan l len i = None \<longleftrightarrow> (\<forall>j. i \<le> j \<and> j < len \<longrightarrow> l j = 0)"
proof (induction l len i rule: leaf_scan.induct)
  case (1 l len i)
  then show ?case by (subst leaf_scan.simps) (auto, metis Suc_leI le_neq_implies_less)
qed

lemma leaf_scan_Some:
  "leaf_scan l len i = Some v \<Longrightarrow> \<exists>j. i \<le> j \<and> j < len \<and> l j = v \<and> v \<noteq> 0 \<and> (\<forall>j'. i \<le> j' \<and> j' < j \<longrightarrow> l j' = 0)"
proof (induction l len i rule: leaf_scan.induct)
  case (1 l len i)
  show ?case
  proof (cases "i < len \<and> l i = 0")
    case True
    then have "leaf_scan l len (i + 1) = Some v" using "1.prems" leaf_scan.simps [of l len i] by simp
    then have "\<exists>j. i + 1 \<le> j \<and> j < len \<and> l j = v \<and> v \<noteq> 0 \<and> (\<forall>j'. i + 1 \<le> j' \<and> j' < j \<longrightarrow> l j' = 0)"
      using True by (intro "1.IH") simp_all
    then obtain j where "i + 1 \<le> j" "j < len" "l j = v" "v \<noteq> 0" "\<forall>j'. i + 1 \<le> j' \<and> j' < j \<longrightarrow> l j' = 0"
      by (elim exE conjE)
    then show ?thesis using True by (intro exI [of _ j]) (auto simp: Suc_le_eq dest: le_imp_less_or_eq)
  next
    case False
    then have "i < len \<and> l i = v \<and> v \<noteq> 0"
      using "1.prems" leaf_scan.simps [of l len i] by (auto split: if_splits)
    then show ?thesis by (intro exI [of _ i]) simp
  qed
qed

text \<open>
  A scan of the leaf that holds \<open>k\<close> decides the search within that leaf; \<open>b\<close> is the number of bits
  of a key that index a leaf.
\<close>

lemma leaf_scan_first:
  assumes l: "\<And>j. k \<le> j \<Longrightarrow> j < advance b k \<Longrightarrow> g j = l (j mod 2 ^ b)"
    and bnd: "advance b k \<le> bnd"
  shows "first_entry g bnd k = (case leaf_scan l (2 ^ b) (k mod 2 ^ b) of Some v \<Rightarrow> v
           | None \<Rightarrow> first_entry g bnd (advance b k))"
proof -
  define base where "base = k div 2 ^ b * 2 ^ b"
  have k: "k = base + k mod 2 ^ b" unfolding base_def by (rule div_mult_mod_eq [symmetric])
  have adv: "advance b k = base + 2 ^ b" by (simp add: advance_def base_def)
  have mod: "(base + i) mod 2 ^ b = i" if "i < 2 ^ b" for i using that by (simp add: base_def)
  have g: "g (base + i) = l i" if "k mod 2 ^ b \<le> i" "i < 2 ^ b" for i
  proof -
    have "k \<le> base + i" using that(1) k by linarith
    then show ?thesis using l [of "base + i"] that(2) adv mod by simp
  qed
  show ?thesis
  proof (cases "leaf_scan l (2 ^ b) (k mod 2 ^ b)")
    case None
    have "g j = 0" if j: "k \<le> j" "j < advance b k" for j
    proof -
      have jb: "j = base + (j - base)" "k mod 2 ^ b \<le> j - base" "j - base < 2 ^ b" using j k adv by auto
      then have "g j = l (j - base)" using g [of "j - base"] by simp
      also have "\<dots> = 0" using None jb by (auto simp: leaf_scan_None)
      finally show ?thesis .
    qed
    then have "first_entry g bnd k = first_entry g bnd (advance b k)"
      using advance_gt [of k b] by (intro first_entry_skip) auto
    then show ?thesis using None by simp
  next
    case (Some v)
    obtain i where i: "k mod 2 ^ b \<le> i" "i < 2 ^ b" "l i = v" "v \<noteq> 0"
        "\<forall>j'. k mod 2 ^ b \<le> j' \<and> j' < i \<longrightarrow> l j' = 0"
      using leaf_scan_Some [OF Some] by blast
    have "first_entry g bnd k = first_entry g bnd (base + i)"
    proof (rule first_entry_skip)
      show "k \<le> base + i" using i(1) k by linarith
      fix j assume j: "k \<le> j" "j < base + i"
      have jb: "j = base + (j - base)" "k mod 2 ^ b \<le> j - base" "j - base < i" using j k by auto
      then show "g j = 0" using g [of "j - base"] i(2,5) by auto
    qed
    also have "\<dots> = v" using i(1-4) g [of i] adv bnd by (subst first_entry_hit) auto
    finally show ?thesis using Some by simp
  qed
qed

section \<open>The two-level tree\<close>

definition view2 :: "nat \<Rightarrow> PageMap2 \<Rightarrow> nat \<Rightarrow> addr" where
  "view2 bits pm k =
     (if k < 2 ^ bits then
        case root2 pm (k div 2 ^ LEAF_BITS2 bits) of None \<Rightarrow> 0 | Some l \<Rightarrow> l (k mod 2 ^ LEAF_BITS2 bits)
      else 0)"

definition ensured2 :: "nat \<Rightarrow> PageMap2 \<Rightarrow> nat \<Rightarrow> bool" where
  "ensured2 bits pm k \<longleftrightarrow> k < 2 ^ bits \<and> root2 pm (k div 2 ^ LEAF_BITS2 bits) \<noteq> None"

lemma root_index2: "ROOT_BITS \<le> bits \<Longrightarrow> k div 2 ^ LEAF_BITS2 bits < 2 ^ ROOT_BITS \<longleftrightarrow> k < 2 ^ bits"
  for k :: nat
proof -
  assume "ROOT_BITS \<le> bits"
  then have "(2::nat) ^ bits = 2 ^ ROOT_BITS * 2 ^ LEAF_BITS2 bits"
    by (simp add: LEAF_BITS2_def flip: power_add)
  then show ?thesis by (simp add: div_less_iff_less_mult)
qed

lemma key_split2: "j div 2 ^ b = k div 2 ^ b \<Longrightarrow> j mod 2 ^ b = k mod 2 ^ b \<Longrightarrow> j = (k::nat)"
  by (metis div_mult_mod_eq)

lemma PageMap2_set_ensured:
  assumes "ROOT_BITS \<le> bits" "ensured2 bits pm k"
  shows "returns (\<lambda>pm'. ensured2 bits pm' = ensured2 bits pm \<and> view2 bits pm' = (view2 bits pm)(k := v))
           (PageMap2_set bits pm k v)"
proof -
  let ?b = "LEAF_BITS2 bits"
  obtain l where l: "k < 2 ^ bits" "root2 pm (k div 2 ^ ?b) = Some l" using assms(2) by (auto simp: ensured2_def)
  let ?pm = "pm\<lparr>root2 := (root2 pm)(k div 2 ^ ?b \<mapsto> l(k mod 2 ^ ?b := v))\<rparr>"
  have "PageMap2_set bits pm k v = Inr ?pm"
    using l root_index2 [OF assms(1), of k] by (simp add: PageMap2_set_def rd_root2_def Let_def)
  moreover have "ensured2 bits ?pm = ensured2 bits pm"
    using l by (intro ext) (auto simp: ensured2_def)
  moreover have "view2 bits ?pm = (view2 bits pm)(k := v)"
    using l key_split2 [of _ ?b k] by (auto simp: view2_def fun_eq_iff split: option.splits)
  ultimately show ?thesis by simp
qed

lemma PageMap2_Next_first:
  assumes "ROOT_BITS \<le> bits"
  shows "PageMap2_Next bits pm k = Inr (first_entry (view2 bits pm) (2 ^ bits) k)"
  using assms
proof (induction bits pm k rule: PageMap2_Next.induct)
  case (1 bits pm k)
  let ?b = "LEAF_BITS2 bits"
  show ?case
  proof (cases "k < 2 ^ bits")
    case False
    then show ?thesis by (subst PageMap2_Next.simps) (simp add: first_entry_end)
  next
    case True
    have le: "advance ?b k \<le> 2 ^ bits" using True by (intro advance_le) (auto simp: LEAF_BITS2_def)
    define l where "l = (case root2 pm (k div 2 ^ ?b) of None \<Rightarrow> \<lambda>_. 0 | Some l \<Rightarrow> l)"
    have "view2 bits pm j = l (j mod 2 ^ ?b)" if "k \<le> j" "j < advance ?b k" for j
      using advance_div [OF that] that le by (auto simp: view2_def l_def split: option.split)
    note first = leaf_scan_first [of k ?b "view2 bits pm" l, OF this le]
    have rd: "rd_root2 pm (k div 2 ^ ?b) = Inr (root2 pm (k div 2 ^ ?b))"
      using True root_index2 [OF "1.prems", of k] by (simp add: rd_root2_def)
    have IH: "PageMap2_Next bits pm (advance ?b k) = Inr (first_entry (view2 bits pm) (2 ^ bits) (advance ?b k))"
      if "(case root2 pm (k div 2 ^ ?b) of None \<Rightarrow> None | Some l \<Rightarrow> leaf_scan l (2 ^ ?b) (k mod 2 ^ ?b)) = None"
      using "1.IH" [OF True refl rd that] "1.prems" by simp
    have "leaf_scan (\<lambda>_. 0) (2 ^ ?b) (k mod 2 ^ ?b) = None" by (simp add: leaf_scan_None)
    then show ?thesis
      using first IH True rd by (subst PageMap2_Next.simps) (auto simp: l_def Let_def split: option.splits)
  qed
qed

lemma pm2_page_map: "ROOT_BITS \<le> bits \<Longrightarrow> page_map (2 ^ bits) (PageMap2_get bits) (PageMap2_set bits)
    (ensured2 bits) (\<lambda>pm. True) (PageMap2_Next bits) (view2 bits)"
  using PageMap2_set_ensured PageMap2_Next_first root_index2 [of bits]
  by unfold_locales
    (auto simp: PageMap2_get_def rd_root2_def view2_def ensured2_def Let_def div_greater_zero_iff
      split: option.split)

text \<open>
  The map of 32-bit systems has \<open>32 - kPageShift = 19\<close> bits.
\<close>

interpretation pm2: page_map "2 ^ 19" "PageMap2_get 19" "PageMap2_set 19" "ensured2 19" "\<lambda>pm. True"
  "PageMap2_Next 19" "view2 19"
  by (rule pm2_page_map) (simp add: ROOT_BITS_def)


section \<open>The three-level tree\<close>

definition view3 :: "nat \<Rightarrow> PageMap3 \<Rightarrow> nat \<Rightarrow> addr" where
  "view3 bits pm k =
     (if k < 2 ^ bits then
        case root3 pm of None \<Rightarrow> 0 | Some nd \<Rightarrow>
          (case nd (key1 bits k) of None \<Rightarrow> 0 | Some ls \<Rightarrow>
             (case ls (key2 bits k) of None \<Rightarrow> 0 | Some l \<Rightarrow> l (key3 bits k)))
      else 0)"

definition ensured3 :: "nat \<Rightarrow> PageMap3 \<Rightarrow> nat \<Rightarrow> bool" where
  "ensured3 bits pm k \<longleftrightarrow> k < 2 ^ bits \<and>
     (\<exists>nd ls l. root3 pm = Some nd \<and> nd (key1 bits k) = Some ls \<and> ls (key2 bits k) = Some l)"

definition wf3 :: "PageMap3 \<Rightarrow> bool" where
  "wf3 pm \<longleftrightarrow> root3 pm \<noteq> None"

text \<open>The number of bits is large enough for the leaves to have an index at all.\<close>

definition bits_ok :: "nat \<Rightarrow> bool" where
  "bits_ok bits \<longleftrightarrow> 2 * INTERIOR_BITS bits \<le> bits \<and> bits < 64"

lemma bits_ok_power:
  assumes "bits_ok bits"
  shows "(2::nat) ^ bits = 2 ^ INTERIOR_BITS bits * 2 ^ (LEAF_BITS3 bits + INTERIOR_BITS bits)"
  using assms by (simp add: bits_ok_def LEAF_BITS3_def flip: power_add)

lemma key1_less: "bits_ok bits \<Longrightarrow> key1 bits k < 2 ^ INTERIOR_BITS bits \<longleftrightarrow> k < 2 ^ bits"
  using bits_ok_power [of bits] by (simp add: key1_def div_less_iff_less_mult)

lemma key2_less: "key2 bits k < 2 ^ INTERIOR_BITS bits"
  by (simp add: key2_def)

lemma key1_key2: "key1 bits k * 2 ^ INTERIOR_BITS bits + key2 bits k = k div 2 ^ LEAF_BITS3 bits"
proof -
  have "key1 bits k = k div 2 ^ LEAF_BITS3 bits div 2 ^ INTERIOR_BITS bits"
    by (simp add: key1_def power_add div_mult2_eq)
  then show ?thesis by (simp only: key2_def div_mult_mod_eq)
qed

lemma key12_eq:
  "key1 bits j = key1 bits k \<and> key2 bits j = key2 bits k \<longleftrightarrow> j div 2 ^ LEAF_BITS3 bits = k div 2 ^ LEAF_BITS3 bits"
proof
  assume "key1 bits j = key1 bits k \<and> key2 bits j = key2 bits k"
  then show "j div 2 ^ LEAF_BITS3 bits = k div 2 ^ LEAF_BITS3 bits"
    using key1_key2 [of bits j] key1_key2 [of bits k] by simp
next
  assume "j div 2 ^ LEAF_BITS3 bits = k div 2 ^ LEAF_BITS3 bits"
  then show "key1 bits j = key1 bits k \<and> key2 bits j = key2 bits k"
    by (simp add: key1_def key2_def power_add div_mult2_eq)
qed

lemma key_split3:
  "key1 bits j = key1 bits k \<Longrightarrow> key2 bits j = key2 bits k \<Longrightarrow> key3 bits j = key3 bits k \<Longrightarrow> j = k"
  using key12_eq [of bits j k] key_split2 [of j "LEAF_BITS3 bits" k] by (simp add: key3_def)

lemma rd_root3: "bits_ok bits \<Longrightarrow> root3 pm = Some nd \<Longrightarrow> k < 2 ^ bits \<Longrightarrow>
    rd_root3 bits pm (key1 bits k) = Inr (nd (key1 bits k))"
  by (simp add: rd_root3_def key1_less)

lemma put_leaves_root: "root3 pm = Some nd \<Longrightarrow> root3 (put_leaves pm i ls) = Some (nd(i \<mapsto> ls))"
  by (simp add: put_leaves_def)

lemma PageMap3_get_view:
  assumes "bits_ok bits" "wf3 pm"
  shows "PageMap3_get bits pm k = Inr (view3 bits pm k)"
  using assms
  by (auto simp: PageMap3_get_def wf3_def view3_def rd_root3 div_greater_zero_iff split: option.split)

lemma PageMap3_set_ensured:
  assumes "bits_ok bits" "ensured3 bits pm k"
  shows "returns (\<lambda>pm'. wf3 pm' \<and> ensured3 bits pm' = ensured3 bits pm \<and>
           view3 bits pm' = (view3 bits pm)(k := v)) (PageMap3_set bits pm k v)"
proof -
  obtain nd ls l where r: "k < 2 ^ bits" "root3 pm = Some nd" "nd (key1 bits k) = Some ls" "ls (key2 bits k) = Some l"
    using assms(2) by (auto simp: ensured3_def)
  let ?pm = "put_leaves pm (key1 bits k) (ls(key2 bits k \<mapsto> l(key3 bits k := v)))"
  have root: "root3 ?pm = Some (nd(key1 bits k \<mapsto> ls(key2 bits k \<mapsto> l(key3 bits k := v))))"
    by (rule put_leaves_root [OF r(2)])
  have "PageMap3_set bits pm k v = Inr ?pm"
    using r by (simp add: PageMap3_set_def rd_root3 [OF assms(1) r(2,1)])
  moreover have "ensured3 bits ?pm = ensured3 bits pm"
    unfolding ensured3_def root using r by (intro ext) auto
  moreover have "view3 bits ?pm = (view3 bits pm)(k := v)"
  proof (rule ext)
    fix j show "view3 bits ?pm j = ((view3 bits pm)(k := v)) j"
      unfolding view3_def root using r key_split3 [of bits j k]
      by (cases "key1 bits j = key1 bits k"; cases "key2 bits j = key2 bits k"; cases "key3 bits j = key3 bits k") auto
  qed
  ultimately show ?thesis using root by (simp add: wf3_def)
qed

lemma PageMap3_Next_first:
  assumes "bits_ok bits" "wf3 pm"
  shows "PageMap3_Next bits pm k = Inr (first_entry (view3 bits pm) (2 ^ bits) k)"
  using assms
proof (induction bits pm k rule: PageMap3_Next.induct)
  case (1 bits pm k)
  let ?b = "LEAF_BITS3 bits" and ?g = "view3 bits pm"
  obtain nd where nd: "root3 pm = Some nd" using "1.prems"(2) by (auto simp: wf3_def)
  show ?case
  proof (cases "k < 2 ^ bits")
    case False
    then show ?thesis by (subst PageMap3_Next.simps) (simp add: first_entry_end)
  next
    case True
    note rd = rd_root3 [OF "1.prems"(1) nd True]
    have le: "advance ?b k \<le> 2 ^ bits" "advance (?b + INTERIOR_BITS bits) k \<le> 2 ^ bits"
      using True "1.prems"(1) by (auto intro!: advance_le simp: LEAF_BITS3_def bits_ok_def)
    show ?thesis
    proof (cases "nd (key1 bits k)")
      case None
      have "?g j = 0" if "k \<le> j" "j < advance (?b + INTERIOR_BITS bits) k" for j
        using advance_div [OF that] None nd by (simp add: view3_def key1_def)
      then have "first_entry ?g (2 ^ bits) k = first_entry ?g (2 ^ bits) (advance (?b + INTERIOR_BITS bits) k)"
        using advance_gt less_imp_le by (intro first_entry_skip) blast+
      then show ?thesis
        using "1.IH"(1) [OF True rd None] "1.prems" True rd None by (subst PageMap3_Next.simps) simp
    next
      case (Some ls)
      define l where "l = (case ls (key2 bits k) of None \<Rightarrow> \<lambda>_. 0 | Some l \<Rightarrow> l)"
      have "?g j = l (j mod 2 ^ ?b)" if "k \<le> j" "j < advance ?b k" for j
        using advance_div [OF that] key12_eq [of bits j k] that le(1) nd Some
        by (auto simp: view3_def l_def key3_def split: option.split)
      note first = leaf_scan_first [of k ?b ?g l, OF this le(1), folded key3_def]
      have IH: "PageMap3_Next bits pm (advance ?b k) = Inr (first_entry ?g (2 ^ bits) (advance ?b k))"
        if "(case ls (key2 bits k) of None \<Rightarrow> None | Some l \<Rightarrow> leaf_scan l (2 ^ ?b) (key3 bits k)) = None"
        using "1.IH"(2) [OF True rd Some that] "1.prems" by simp
      have "leaf_scan (\<lambda>_. 0) (2 ^ ?b) (key3 bits k) = None" by (simp add: leaf_scan_None)
      then show ?thesis
        using first IH True rd Some
        by (subst PageMap3_Next.simps) (auto simp: l_def split: option.splits)
    qed
  qed
qed

lemma pm3_page_map: "bits_ok bits \<Longrightarrow> page_map (2 ^ bits) (PageMap3_get bits) (PageMap3_set bits)
    (ensured3 bits) wf3 (PageMap3_Next bits) (view3 bits)"
  using PageMap3_get_view PageMap3_set_ensured PageMap3_Next_first
  by unfold_locales (auto simp: view3_def ensured3_def)


text \<open>
  The page heap uses the three-level tree with \<open>kAddressBits - kPageShift = 35\<close> bits.
\<close>

definition kPageMapBits :: nat where "kPageMapBits = 35"

lemma kPageMapBits_ok: "bits_ok kPageMapBits"
  by (simp add: bits_ok_def kPageMapBits_def INTERIOR_BITS_def)

interpretation pm3: page_map "2 ^ kPageMapBits" "PageMap3_get kPageMapBits" "PageMap3_set kPageMapBits"
  "ensured3 kPageMapBits" wf3 "PageMap3_Next kPageMapBits" "view3 kPageMapBits"
  by (rule pm3_page_map [OF kPageMapBits_ok])

section \<open>\<open>Ensure\<close>\<close>

text \<open>
  Growing a map keeps what it returns; when \<open>Ensure\<close> succeeds the whole range can be set.
\<close>

definition grows2 :: "nat \<Rightarrow> PageMap2 \<Rightarrow> PageMap2 \<Rightarrow> bool" where
  "grows2 bits pm pm' \<longleftrightarrow> view2 bits pm' = view2 bits pm \<and> (\<forall>k. ensured2 bits pm k \<longrightarrow> ensured2 bits pm' k)"

definition grows3 :: "nat \<Rightarrow> PageMap3 \<Rightarrow> PageMap3 \<Rightarrow> bool" where
  "grows3 bits pm pm' \<longleftrightarrow> wf3 pm' \<and> view3 bits pm' = view3 bits pm \<and>
     (\<forall>k. ensured3 bits pm k \<longrightarrow> ensured3 bits pm' k)"

lemma grows3_trans: "grows3 bits a b \<Longrightarrow> grows3 bits b c \<Longrightarrow> grows3 bits a c"
  by (auto simp: grows3_def)

lemma PageMap2_add_leaf:
  assumes "root2 pm i = None"
  shows "grows2 bits pm (pm\<lparr>root2 := (root2 pm)(i \<mapsto> (\<lambda>_. 0))\<rparr>)"
  using assms by (auto simp: grows2_def view2_def ensured2_def fun_eq_iff split: option.split)

text \<open>
  What a map relies on of its allocator: an invariant \<open>P\<close> of the allocator's state is kept by every
  request of a reasonable size.  It may return NULL or give up, unless it \<open>never_fails\<close>.
\<close>

definition allocator_keeps :: "'s allocator \<Rightarrow> ('s \<Rightarrow> bool) \<Rightarrow> bool" where
  "allocator_keeps al P \<longleftrightarrow> (\<forall>n s. 0 < n \<and> n < 2 ^ 63 \<and> P s \<longrightarrow> safe (\<lambda>(p, s'). P s') (al n s))"

definition never_fails :: "'s allocator \<Rightarrow> ('s \<Rightarrow> bool) \<Rightarrow> bool" where
  "never_fails al P \<longleftrightarrow> (\<forall>n s. 0 < n \<and> n < 2 ^ 63 \<and> P s \<longrightarrow> returns (\<lambda>(p, s'). p \<noteq> 0) (al n s))"

lemma allocator_outcome:
  assumes "allocator_keeps al P" "P s" "0 < n" "n < 2 ^ 63"
  shows "outcome (never_fails al P) (\<lambda>(p, s'). P s' \<and> (never_fails al P \<longrightarrow> p \<noteq> 0)) (al n s)"
proof -
  have "safe (\<lambda>(p, s'). P s') (al n s)" using assms by (simp add: allocator_keeps_def)
  moreover have "never_fails al P \<Longrightarrow> returns (\<lambda>(p, s'). p \<noteq> 0) (al n s)" using assms(2-4) by (simp add: never_fails_def)
  ultimately show ?thesis by (cases "al n s") auto
qed

definition grown2 ::
  "nat \<Rightarrow> 's allocator \<Rightarrow> ('s \<Rightarrow> bool) \<Rightarrow> nat \<Rightarrow> nat \<Rightarrow> PageMap2 \<Rightarrow> bool \<times> PageMap2 \<times> 's \<Rightarrow> bool" where
  "grown2 bits al P lo hi pm r = (case r of (ok, pm', s') \<Rightarrow>
     P s' \<and> grows2 bits pm pm' \<and> (ok \<longrightarrow> (\<forall>j. lo \<le> j \<and> j < hi \<longrightarrow> ensured2 bits pm' j)) \<and>
     (never_fails al P \<and> hi \<le> 2 ^ bits \<longrightarrow> ok))"

lemma grown2_extend:
  assumes "grown2 bits al P (advance b key) hi pm1 r" "grows2 bits pm pm1"
    "\<And>j. key \<le> j \<Longrightarrow> j < advance b key \<Longrightarrow> ensured2 bits pm1 j"
  shows "grown2 bits al P key hi pm r"
  using assms unfolding grown2_def grows2_def by (auto split: prod.splits) (meson not_le)+

lemma PageMap2_Ensure_loop_spec:
  assumes "ROOT_BITS \<le> bits" "bits < 64" "allocator_keeps al P" "P s"
  shows "outcome (never_fails al P) (grown2 bits al P key (lst + 1) pm) (PageMap2_Ensure_loop bits al lst key pm s)"
  using assms
proof (induction bits al lst key pm s rule: PageMap2_Ensure_loop.induct)
  case (1 bits al lst key pm s)
  let ?b = "LEAF_BITS2 bits" and ?i = "key div 2 ^ LEAF_BITS2 bits"
  note unf = PageMap2_Ensure_loop.simps [of bits al lst key pm s]
  note idx = root_index2 [OF "1.prems"(1)]
  have cover: "ensured2 bits pm1 j" if "root2 pm1 ?i \<noteq> None" "\<not> 2 ^ ROOT_BITS \<le> ?i" "key \<le> j" "j < advance ?b key" for j pm1
    using advance_div [OF that(3,4)] that(1,2) idx [of j] by (auto simp: ensured2_def)
  consider "lst < key" | "key \<le> lst" "2 ^ ROOT_BITS \<le> ?i"
    | (new) "key \<le> lst" "\<not> 2 ^ ROOT_BITS \<le> ?i" "root2 pm ?i = None"
    | (old) "key \<le> lst" "\<not> 2 ^ ROOT_BITS \<le> ?i" "root2 pm ?i \<noteq> None"
    by linarith
  then show ?case
  proof cases
    case old
    have "outcome (never_fails al P) (grown2 bits al P (advance ?b key) (lst + 1) pm)
        (PageMap2_Ensure_loop bits al lst (advance ?b key) pm s)"
      using "1.IH"(2) [OF old(1) refl old(2)] "1.prems" old(3) by simp
    then show ?thesis
      unfolding unf using old
      by (auto simp: Let_def intro!: outcome_mono [of _ _ _ "grown2 _ _ _ _ _ _"] grown2_extend [of bits al P ?b key]
          cover simp: grows2_def)
  next
    case new
    let ?pm = "pm\<lparr>root2 := (root2 pm)(?i \<mapsto> (\<lambda>_. 0))\<rparr>"
    have sz: "0 < 8 * (2::nat) ^ ?b" "8 * (2::nat) ^ ?b < 2 ^ 63"
    proof -
      have "(2::nat) ^ ?b \<le> 2 ^ 58" using "1.prems"(2) by (intro power_increasing) (auto simp: LEAF_BITS2_def ROOT_BITS_def)
      then show "8 * (2::nat) ^ ?b < 2 ^ 63" by simp
    qed simp
    have rec: "outcome (never_fails al P) (grown2 bits al P key (lst + 1) pm)
        (PageMap2_Ensure_loop bits al lst (advance ?b key) ?pm s1)" if al: "al (8 * 2 ^ ?b) s = Inr (leaf, s1)" "P s1" "leaf \<noteq> 0" for leaf s1
    proof -
      have "outcome (never_fails al P) (grown2 bits al P (advance ?b key) (lst + 1) ?pm)
          (PageMap2_Ensure_loop bits al lst (advance ?b key) ?pm s1)"
        using "1.IH"(1) [OF new(1) refl new(2,3) al(1) refl al(3)] "1.prems" al(2) by simp
      then show ?thesis
        by (rule outcome_mono) (auto intro!: grown2_extend [of bits al P ?b key] PageMap2_add_leaf new(3) cover new(2))
    qed
    note out = allocator_outcome [OF "1.prems"(3,4) sz]
    have eq: "PageMap2_Ensure_loop bits al lst key pm s =
        bind_res (al (8 * 2 ^ ?b) s) (\<lambda>(leaf, s). if leaf = 0 then Inr (False, pm, s)
             else PageMap2_Ensure_loop bits al lst (advance ?b key) ?pm s)"
      unfolding unf using new by (simp add: Let_def)
    show ?thesis
    proof (cases "al (8 * 2 ^ ?b) s")
      case (Inr r)
      obtain leaf s1 where r: "r = (leaf, s1)" by (cases r)
      show ?thesis
        using out eq rec [of leaf s1] Inr r
        by (cases "leaf = 0") (auto simp: grown2_def [of _ _ _ _ _ _ "(False, _)"] grows2_def)
    qed (use out eq in simp)
  qed (use "1.prems" unf idx [of key] in \<open>auto simp: grown2_def grows2_def Let_def\<close>)
qed

lemma PageMap3_add_leaves:
  assumes "root3 pm = Some nd" "nd i = None"
  shows "grows3 bits pm (put_leaves pm i (\<lambda>_. None))"
  using assms unfolding grows3_def view3_def ensured3_def wf3_def put_leaves_root [OF assms(1)]
  by (intro conjI ext) (auto split: option.split)

lemma PageMap3_add_leaf:
  assumes "root3 pm = Some nd" "nd i = Some ls" "ls j = None"
  shows "grows3 bits pm (put_leaves pm i (ls(j \<mapsto> (\<lambda>_. 0))))"
  using assms unfolding grows3_def view3_def ensured3_def wf3_def put_leaves_root [OF assms(1)]
  by (intro conjI ext) (auto split: option.split)

definition grown3 ::
  "nat \<Rightarrow> 's allocator \<Rightarrow> ('s \<Rightarrow> bool) \<Rightarrow> nat \<Rightarrow> nat \<Rightarrow> PageMap3 \<Rightarrow> bool \<times> PageMap3 \<times> 's \<Rightarrow> bool" where
  "grown3 bits al P lo hi pm r = (case r of (ok, pm', s') \<Rightarrow>
     P s' \<and> grows3 bits pm pm' \<and> (ok \<longrightarrow> (\<forall>j. lo \<le> j \<and> j < hi \<longrightarrow> ensured3 bits pm' j)) \<and>
     (never_fails al P \<and> hi \<le> 2 ^ bits \<longrightarrow> ok))"

lemma node_sizes:
  assumes "bits_ok bits"
  shows "0 < 8 * (2::nat) ^ INTERIOR_BITS bits" "8 * (2::nat) ^ INTERIOR_BITS bits < 2 ^ 63"
    "0 < 8 * (2::nat) ^ LEAF_BITS3 bits" "8 * (2::nat) ^ LEAF_BITS3 bits < 2 ^ 63"
proof -
  have le: "INTERIOR_BITS bits \<le> 21" "LEAF_BITS3 bits \<le> 22"
    using assms by (auto simp: bits_ok_def INTERIOR_BITS_def LEAF_BITS3_def)
  have "(2::nat) ^ INTERIOR_BITS bits \<le> 2 ^ 21" "(2::nat) ^ LEAF_BITS3 bits \<le> 2 ^ 22"
    using le by (auto intro: power_increasing simp del: power_numeral)
  then show "8 * (2::nat) ^ INTERIOR_BITS bits < 2 ^ 63" "8 * (2::nat) ^ LEAF_BITS3 bits < 2 ^ 63" by simp_all
qed simp_all

lemma ensured3_node:
  assumes "bits_ok bits" "root3 pm = Some nd" "nd (key1 bits key) = Some ls" "ls (key2 bits key) \<noteq> None"
    "key < 2 ^ bits" "key \<le> j" "j < advance (LEAF_BITS3 bits) key"
  shows "ensured3 bits pm j"
proof -
  have "key1 bits j = key1 bits key \<and> key2 bits j = key2 bits key"
    using advance_div [OF assms(6,7)] by (simp add: key12_eq)
  moreover have "j < 2 ^ bits"
    using key1_less [OF assms(1), of j] key1_less [OF assms(1), of key] calculation assms(5) by simp
  ultimately show ?thesis using assms(2-4) by (auto simp: ensured3_def)
qed

lemma PageMap3_leaf_part:
  assumes "bits_ok bits" "key < 2 ^ bits" "allocator_keeps al P" "P s" "root3 pm = Some nd" "nd (key1 bits key) = Some ls"
  shows "outcome (never_fails al P) (grown3 bits al P key (advance (LEAF_BITS3 bits) key) pm)
      (if ls (key2 bits key) = None then
         bind_res (al (8 * 2 ^ LEAF_BITS3 bits) s) (\<lambda>(leaf, s).
         if leaf = 0 then Inr (False, pm, s)
         else Inr (True, put_leaves pm (key1 bits key) (ls(key2 bits key \<mapsto> (\<lambda>_. 0))), s))
       else Inr (True, pm, s))"
proof (cases "ls (key2 bits key)")
  case (Some l)
  then show ?thesis
    using ensured3_node [OF assms(1,5,6) _ assms(2)] assms(4,5) by (auto simp: grown3_def grows3_def wf3_def)
next
  case None
  let ?pm = "put_leaves pm (key1 bits key) (ls(key2 bits key \<mapsto> (\<lambda>_. 0)))"
  have g: "grows3 bits pm ?pm" by (rule PageMap3_add_leaf [OF assms(5,6) None])
  have e: "ensured3 bits ?pm j" if "key \<le> j" "j < advance (LEAF_BITS3 bits) key" for j
    by (rule ensured3_node [OF assms(1) put_leaves_root [OF assms(5)], where key = key])
      (use assms(2) that in auto)
  show ?thesis
    unfolding if_P [OF None]
    by (rule outcome_bind [OF allocator_outcome [OF assms(3,4) node_sizes(3,4) [OF assms(1)]]])
      (use g e assms(5) in \<open>auto simp: grown3_def grows3_def wf3_def\<close>)
qed

lemma PageMap3_Ensure_step_spec:
  assumes "bits_ok bits" "wf3 pm" "key < 2 ^ bits" "allocator_keeps al P" "P s"
  shows "outcome (never_fails al P) (grown3 bits al P key (advance (LEAF_BITS3 bits) key) pm)
      (PageMap3_Ensure_step bits al key pm s)"
proof -
  let ?i = "key1 bits key" and ?j = "key2 bits key" and ?hi = "advance (LEAF_BITS3 bits) key"
  obtain nd where nd: "root3 pm = Some nd" using assms(2) by (auto simp: wf3_def)
  have i: "\<not> (?i \<ge> 2 ^ INTERIOR_BITS bits \<or> ?j \<ge> 2 ^ INTERIOR_BITS bits)"
    using key1_less [OF assms(1), of key] key2_less [of bits key] assms(3) by simp
  note rd = rd_root3 [OF assms(1) _ assms(3)]
  note leaf = PageMap3_leaf_part [OF assms(1,3,4)]
  show ?thesis
  proof (cases "nd ?i")
    case (Some ls)
    then show ?thesis
      unfolding PageMap3_Ensure_step_def Let_def if_not_P [OF i]
      using leaf [OF assms(5) nd Some] by (simp add: rd [OF nd])
  next
    case None
    let ?pm = "put_leaves pm ?i (\<lambda>_. None)"
    have g: "grows3 bits pm ?pm" by (rule PageMap3_add_leaves [OF nd None])
    have root: "root3 ?pm = Some (nd(?i \<mapsto> (\<lambda>_. None)))" by (rule put_leaves_root [OF nd])
    have rest: "outcome (never_fails al P) (grown3 bits al P key ?hi pm)
        (bind_res (al (8 * 2 ^ LEAF_BITS3 bits) s1) (\<lambda>(leaf, s).
         if leaf = 0 then Inr (False, ?pm, s)
         else Inr (True, put_leaves ?pm ?i ((\<lambda>_. None)(?j \<mapsto> (\<lambda>_. 0))), s)))" if "P s1" for s1
    proof -
      have "outcome (never_fails al P) (grown3 bits al P key ?hi ?pm)
          (bind_res (al (8 * 2 ^ LEAF_BITS3 bits) s1) (\<lambda>(leaf, s).
           if leaf = 0 then Inr (False, ?pm, s)
           else Inr (True, put_leaves ?pm ?i ((\<lambda>_. None)(?j \<mapsto> (\<lambda>_. 0))), s)))"
        using leaf [OF that root, of "\<lambda>_. None"] by simp
      then show ?thesis
        by (rule outcome_mono) (use g grows3_trans in \<open>auto simp: grown3_def\<close>)
    qed
    show ?thesis
      unfolding PageMap3_Ensure_step_def Let_def if_not_P [OF i] NewNode_def rd [OF nd] bind_res.simps None
        option.case bind_res_assoc
    proof (rule outcome_bind [OF allocator_outcome [OF assms(4,5) node_sizes(1,2) [OF assms(1)]]], clarify)
      fix p1 s1 assume "P s1" and nf: "never_fails al P \<longrightarrow> p1 \<noteq> 0"
      show "outcome (never_fails al P) (grown3 bits al P key ?hi pm)
        (bind_res (Inr (p1 \<noteq> 0, s1)) (\<lambda>x. bind_res (case x of (ok, s) \<Rightarrow> Inr (ok, if ok then ?pm else pm, s))
           (\<lambda>(ok, pm, s). if \<not> ok then Inr (False, pm, s)
              else bind_res (rd_root3 bits pm ?i) (\<lambda>n1. case n1 of None \<Rightarrow> Inl Segv
                | Some ls \<Rightarrow> if ls ?j = None then bind_res (al (8 * 2 ^ LEAF_BITS3 bits) s)
                    (\<lambda>(leaf, s). if leaf = 0 then Inr (False, pm, s)
                       else Inr (True, put_leaves pm ?i (ls(?j \<mapsto> (\<lambda>_. 0))), s)) else Inr (True, pm, s)))))"
        using rest [OF \<open>P s1\<close>] nf assms(2) \<open>P s1\<close>
        by (cases "p1 = 0") (simp_all add: rd [OF root] grown3_def [of _ _ _ _ _ _ "(False, pm, _)"] grows3_def)
    qed
  qed
qed

lemma PageMap3_Ensure_loop_spec:
  assumes "bits_ok bits" "wf3 pm" "allocator_keeps al P" "P s"
  shows "outcome (never_fails al P) (grown3 bits al P key (lst + 1) pm) (PageMap3_Ensure_loop bits al lst key pm s)"
  using assms
proof (induction bits al lst key pm s rule: PageMap3_Ensure_loop.induct)
  case (1 bits al lst key pm s)
  let ?next = "advance (LEAF_BITS3 bits) key"
  note unf = PageMap3_Ensure_loop.simps [of bits al lst key pm s]
  consider "lst < key" | "key \<le> lst" "2 ^ bits \<le> key" | (step) "key \<le> lst" "key < 2 ^ bits" by linarith
  then show ?case
  proof cases
    case step
    have nxt: "?next \<le> 2 ^ bits" using step(2) "1.prems"(1) by (intro advance_le) (auto simp: LEAF_BITS3_def)
    note st = PageMap3_Ensure_step_spec [OF "1.prems"(1,2) step(2) "1.prems"(3,4)]
    show ?thesis
    proof (cases "PageMap3_Ensure_step bits al key pm s")
      case (Inl f)
      then show ?thesis unfolding unf using st step(1) by simp
    next
      case (Inr r)
      obtain ok pm1 s1 where r: "r = (ok, pm1, s1)" by (cases r)
      have g: "grown3 bits al P key ?next pm (ok, pm1, s1)" using st Inr r by simp
      show ?thesis
      proof (cases ok)
        case True
        have "outcome (never_fails al P) (grown3 bits al P ?next (lst + 1) pm1) (PageMap3_Ensure_loop bits al lst ?next pm1 s1)"
        proof (rule "1.IH" [OF step(1) Inr r [symmetric] refl _ "1.prems"(1) _ "1.prems"(3)])
          show "wf3 pm1" "P s1" using g by (simp_all add: grown3_def grows3_def)
        qed (simp add: True)
        then have "outcome (never_fails al P) (grown3 bits al P key (lst + 1) pm) (PageMap3_Ensure_loop bits al lst ?next pm1 s1)"
          by (rule outcome_mono) (use g True in \<open>auto simp: grown3_def grows3_def, (meson not_le)+\<close>)
        then show ?thesis unfolding unf using step(1) Inr r True by simp
      next
        case False
        then show ?thesis
          unfolding unf using g Inr r step(1) nxt by (auto simp: grown3_def)
      qed
    qed
  qed (use unf "1.prems" key1_less [of bits key] in
      \<open>auto simp: grown3_def grows3_def PageMap3_Ensure_step_def Let_def not_le [symmetric]\<close>)
qed

lemma PageMap3_Ensure_grown:
  assumes "wf3 pm" "0 < n" "start + n \<le> 2 ^ 64" "allocator_keeps al P" "P s"
  shows "outcome (never_fails al P) (grown3 kPageMapBits al P start (start + n) pm)
      (PageMap3_Ensure kPageMapBits al start n pm s)"
proof -
  have "last_key start n + 1 = start + n" using last_key [OF assms(2,3)] assms(2) by simp
  then show ?thesis
    using PageMap3_Ensure_loop_spec [OF kPageMapBits_ok assms(1,4,5), of start "last_key start n"]
    by (simp add: PageMap3_Ensure_def)
qed

section \<open>Properties\<close>

text \<open>
  C5: in the three-level page map of the 64-bit build, once a key has been ensured, \<open>set\<close> succeeds,
  a later \<open>get\<close> of that key returns the stored value and every other key keeps its value, a key that
  is out of range reads as NULL, and \<open>Next(k)\<close> returns the first non-NULL entry at or after \<open>k\<close>.
\<close>

theorem PageMap3_get_set_Next:
  assumes "wf3 pm" "ensured3 kPageMapBits pm k"
  shows "returns (\<lambda>pm'. wf3 pm' \<and>
           (\<forall>j. PageMap3_get kPageMapBits pm' j =
                 (if j = k then Inr v else PageMap3_get kPageMapBits pm j)) \<and>
           (\<forall>j\<ge>2 ^ kPageMapBits. PageMap3_get kPageMapBits pm' j = Inr 0) \<and>
           (\<forall>j. PageMap3_Next kPageMapBits pm' j =
                 Inr (first_entry ((view3 kPageMapBits pm)(k := v)) (2 ^ kPageMapBits) j)))
         (PageMap3_set kPageMapBits pm k v)"
  using pm3.set_ensured [OF assms, of v]
  by (rule returns_mono)
    (use pm3.ensured_lim [OF assms(2)] in \<open>auto simp: pm3.get_view pm3.view_out pm3.Next_view assms(1)\<close>)

theorem PageMap3_get_set_Next_witness:
  "returns (\<lambda>pm'. PageMap3_get kPageMapBits pm' 5 = Inr 77)
     (PageMap3_set kPageMapBits \<lparr> root3 = Some (\<lambda>_. Some (\<lambda>_. Some (\<lambda>_. 0))) \<rparr> 5 77)"
  by (rule returns_mono [OF PageMap3_get_set_Next [of _ 5 77]])
    (auto simp: wf3_def ensured3_def kPageMapBits_def)

text \<open>
  C6: \<open>Ensure(start, n)\<close> of the three-level map changes no value that \<open>get\<close> returns, keeps ensured
  keys ensured, keeps every invariant that the allocator keeps, and when it returns true every key of
  the range can be set.  It gives up only if the allocator does; when the allocator never fails and
  the range lies within the map, it returns true.
\<close>

theorem PageMap3_Ensure_spec:
  assumes "wf3 pm" "0 < n" "start + n \<le> 2 ^ 64" "allocator_keeps al P" "P s"
  shows "outcome (never_fails al P) (\<lambda>(ok, pm', s'). wf3 pm' \<and> P s' \<and>
           (\<forall>j. PageMap3_get kPageMapBits pm' j = PageMap3_get kPageMapBits pm j) \<and>
           (\<forall>j. ensured3 kPageMapBits pm j \<longrightarrow> ensured3 kPageMapBits pm' j) \<and>
           (ok \<longrightarrow> (\<forall>j. start \<le> j \<and> j < start + n \<longrightarrow> ensured3 kPageMapBits pm' j)) \<and>
           (never_fails al P \<and> start + n \<le> 2 ^ kPageMapBits \<longrightarrow> ok))
         (PageMap3_Ensure kPageMapBits al start n pm s)"
  using PageMap3_Ensure_grown [OF assms]
  by (rule outcome_mono) (auto simp: grown3_def grows3_def pm3.get_view assms(1))

theorem PageMap3_Ensure_spec_witness:
  "returns (\<lambda>(ok, pm', s'). ok \<and> ensured3 kPageMapBits pm' 4097)
     (PageMap3_Ensure kPageMapBits (\<lambda>n s. Inr (8 + s, s + n)) 1 5000 \<lparr> root3 = Some (\<lambda>_. None) \<rparr> (0::nat))"
proof -
  have "never_fails (\<lambda>n s. Inr (8 + s, s + n :: nat)) (\<lambda>_. True)" by (simp add: never_fails_def)
  then show ?thesis
    using PageMap3_Ensure_spec [of "\<lparr> root3 = Some (\<lambda>_. None) \<rparr>" 5000 1 "\<lambda>n s. Inr (8 + s, s + n :: nat)" "\<lambda>_. True" 0]
    by (auto simp: outcome_def wf3_def allocator_keeps_def kPageMapBits_def elim!: returns_mono)
qed

text \<open>
  The two-level page map of the 32-bit build behaves as the flat array: \<open>Ensure\<close> changes no value
  and makes its range settable when it returns true, and after \<open>set\<close> the tree reads, key by key and
  in \<open>Next\<close>, like the array with that one element updated.
\<close>

lemma PageMap2_like_array:
  assumes "PageMap2_Ensure 19 al start n pm s = Inr (True, pm1, s1)" "0 < n" "start + n \<le> 2 ^ 64"
    "allocator_keeps al P" "P s"
    "start \<le> k" "k < start + n" "\<And>j. j < 2 ^ 19 \<Longrightarrow> PageMap2_get 19 pm j = PageMap1_get 19 arr j"
  shows "returns (\<lambda>pm2. returns (\<lambda>arr2.
             (\<forall>j. PageMap2_get 19 pm2 j = PageMap1_get 19 arr2 j \<and>
                   PageMap2_Next 19 pm2 j = PageMap1_Next 19 arr2 j))
           (PageMap1_set 19 arr k v)) (PageMap2_set 19 pm1 k v)"
proof -
  have "last_key start n + 1 = start + n" using last_key [OF assms(2,3)] assms(2) by simp
  then have "outcome (never_fails al P) (grown2 19 al P start (start + n) pm) (Inr (True, pm1, s1))"
    using PageMap2_Ensure_loop_spec [OF _ _ assms(4,5), of 19 start "last_key start n" pm] assms(1)
    by (simp add: PageMap2_Ensure_def ROOT_BITS_def)
  then have g: "view2 19 pm1 = view2 19 pm" "ensured2 19 pm1 k"
    using assms(6,7) by (auto simp: grown2_def grows2_def)
  have "view2 19 pm j = view1 19 arr j" for j
  proof (cases "j < 2 ^ 19")
    case True
    then show ?thesis using assms(8) [OF True] pm2.get_view pm1.get_view [of 19 arr j] by (simp only: sum.inject)
  qed (simp add: view1_def view2_def)
  then have eq: "view2 19 pm1 = view1 19 arr" using g(1) by auto
  have k: "k < 2 ^ 19" using pm2.ensured_lim [OF g(2)] .
  show ?thesis
  proof (rule returns_mono [OF pm2.set_ensured [OF TrueI g(2), of v]], rule returns_mono [OF pm1.set_ensured [OF TrueI k, of arr v]])
    fix pm2 arr2
    assume a: "True \<and> ensured2 19 pm2 = ensured2 19 pm1 \<and> view2 19 pm2 = (view2 19 pm1)(k := v)"
      and b: "True \<and> (\<lambda>k. k < 2 ^ 19) = (\<lambda>k. k < 2 ^ 19) \<and> view1 19 arr2 = (view1 19 arr)(k := v)"
    then have "view2 19 pm2 = view1 19 arr2" using eq by simp
    then show "\<forall>j. PageMap2_get 19 pm2 j = PageMap1_get 19 arr2 j \<and> PageMap2_Next 19 pm2 j = PageMap1_Next 19 arr2 j"
      by (simp only: pm2.get_view pm1.get_view pm2.Next_view pm1.Next_view simp_thms)
  qed
qed

lemma PageMap2_like_array_example:
  "returns (\<lambda>pm2. returns (\<lambda>arr2. PageMap2_get 19 pm2 7 = PageMap1_get 19 arr2 7)
      (PageMap1_set 19 \<lparr> array1 = (\<lambda>_. 0) \<rparr> 3 9))
     (PageMap2_set 19 \<lparr> root2 = (\<lambda>_. Some (\<lambda>_. 0)) \<rparr> 3 9)"
proof -
  have e: "PageMap2_Ensure 19 (\<lambda>n s. Inr (0, s)) 3 1 \<lparr> root2 = (\<lambda>_. Some (\<lambda>_. 0)) \<rparr> () =
      Inr (True, \<lparr> root2 = (\<lambda>_. Some (\<lambda>_. 0)) \<rparr>, ())"
    by (simp add: PageMap2_Ensure_def last_key_def PageMap2_Ensure_loop.simps LEAF_BITS2_def ROOT_BITS_def
        advance_def)
  have k: "allocator_keeps (\<lambda>n s. Inr (0, s :: unit)) (\<lambda>_. True)" by (simp add: allocator_keeps_def)
  have "PageMap2_get 19 \<lparr> root2 = (\<lambda>_. Some (\<lambda>_. 0)) \<rparr> j = PageMap1_get 19 \<lparr> array1 = (\<lambda>_. 0) \<rparr> j" for j
    by (simp only: pm2.get_view pm1.get_view) (simp add: view1_def view2_def)
  then show ?thesis
    using PageMap2_like_array [OF e _ _ k, of 3 "\<lparr> array1 = (\<lambda>_. 0) \<rparr>" 9]
    by (fastforce elim!: returns_mono)
qed

text \<open>
  The range check of the flat array is done in unsigned arithmetic: it accepts a start beyond the
  end of the array.
\<close>

lemma PageMap1_Ensure_beyond: "PageMap1_Ensure 19 (2 ^ 19 + 1) 1" "PageMap1_set 19 arr (2 ^ 19 + 1) v = Inl Segv"
  by (simp_all add: PageMap1_Ensure_def PageMap1_set_def)

lemma PageMap1_Ensure_within:
  assumes "bits < 64" "x \<le> 2 ^ bits" "PageMap1_Ensure bits x n"
  shows "x + n \<le> 2 ^ bits"
proof -
  have "(2::int) ^ bits < 2 ^ 64" using assms(1) by (intro power_strict_increasing) auto
  moreover have "int x \<le> 2 ^ bits" using assms(2) by (metis of_nat_le_iff of_nat_numeral of_nat_power)
  ultimately have "(2 ^ bits - int x) mod 2 ^ 64 = 2 ^ bits - int x" by (intro mod_pos_pos_trivial) auto
  then have "int (x + n) \<le> int (2 ^ bits)" using assms(3) by (simp add: PageMap1_Ensure_def)
  then show ?thesis by (simp only: of_nat_le_iff)
qed

end
