(* ===== verification/Packed_Cache.thy ===== *)
theory Packed_Cache
  imports Tc_Prelude
begin

text \<open>
  The direct-mapped cache of \<open>packed-cache-inl.h\<close>, instantiated for entries of type \<open>uint64_t\<close> as
  the page heap does (\<open>PackedCache<kAddressBits - kPageShift, uint64_t>\<close>).  The number of key bits is
  the parameter \<open>kb\<close>; both layouts of an entry, the whole key and only its upper part, are modelled.
  The locale \<open>lossy_cache\<close> is what the page heap relies on.
\<close>

unbundle bit_operations_syntax

section \<open>The cache\<close>

definition kHashbits :: nat where "kHashbits = 16"
definition kValuebits :: nat where "kValuebits = 7"

definition N_ONES :: "nat \<Rightarrow> u64" where
  "N_ONES n = (if n = 0 then 0 else (push_bit (n - 1) 1 - 1) + push_bit (n - 1) 1)"

definition kUseWholeKeys :: "nat \<Rightarrow> bool" where
  "kUseWholeKeys kb \<longleftrightarrow> kb + kValuebits \<le> 64"

definition kUpperbits :: "nat \<Rightarrow> nat" where
  "kUpperbits kb = (if kUseWholeKeys kb then kb else kb - kHashbits)"

definition kKeyMask :: "nat \<Rightarrow> u64" where "kKeyMask kb = N_ONES kb"
definition kUpperMask :: "nat \<Rightarrow> u64" where "kUpperMask kb = push_bit kValuebits (N_ONES (kUpperbits kb))"
definition kValueMask :: u64 where "kValueMask = N_ONES kValuebits"

record PackedCache =
  entries :: "u64 \<Rightarrow> u64"

definition EntryToValue :: "u64 \<Rightarrow> u64" where
  "EntryToValue t = t AND kValueMask"

definition KeyToUpper :: "nat \<Rightarrow> u64 \<Rightarrow> u64" where
  "KeyToUpper kb k = (if kUseWholeKeys kb then push_bit kValuebits k
                      else drop_bit (kHashbits - kValuebits) k AND kUpperMask kb)"

definition Hash :: "u64 \<Rightarrow> u64" where
  "Hash key = key AND N_ONES kHashbits"

definition KeyMatch :: "nat \<Rightarrow> u64 \<Rightarrow> u64 \<Rightarrow> bool" where
  "KeyMatch kb entry key \<longleftrightarrow> (if kUseWholeKeys kb then drop_bit kValuebits entry = key
                            else ((KeyToUpper kb key XOR entry) AND kUpperMask kb) = 0)"

definition Put :: "nat \<Rightarrow> PackedCache \<Rightarrow> u64 \<Rightarrow> u64 \<Rightarrow> PackedCache" where
  "Put kb c key v = c\<lparr>entries := (entries c)(Hash key := KeyToUpper kb key OR v)\<rparr>"

definition Has :: "nat \<Rightarrow> PackedCache \<Rightarrow> u64 \<Rightarrow> bool" where
  "Has kb c key \<longleftrightarrow> KeyMatch kb (entries c (Hash key)) key"

definition GetOrDefault :: "nat \<Rightarrow> PackedCache \<Rightarrow> u64 \<Rightarrow> u64 \<Rightarrow> u64" where
  "GetOrDefault kb c key default_value =
     (let entry = entries c (Hash key)
      in if KeyMatch kb entry key then EntryToValue entry else default_value)"

definition Clear :: "nat \<Rightarrow> PackedCache \<Rightarrow> u64 \<Rightarrow> PackedCache" where
  "Clear kb c v = c\<lparr>entries := (\<lambda>i. if i < 2 ^ kHashbits
       then if kUseWholeKeys kb then v OR KeyToUpper kb i else v else entries c i)\<rparr>"

section \<open>Masks and entries\<close>

lemma N_ONES_mask: "N_ONES n = mask n"
  by (cases n) (simp_all add: N_ONES_def push_bit_eq_mult mask_eq_exp_minus_1)

text \<open>A word fits in \<open>n\<close> bits when it has no bit from position \<open>n\<close> on.\<close>

definition fits :: "nat \<Rightarrow> u64 \<Rightarrow> bool" where
  "fits n w \<longleftrightarrow> w = w AND N_ONES n"

lemma bit_u64: "bit (w::u64) i \<Longrightarrow> i < 64"
  using bit_imp_le_length by fastforce

lemma fits_iff_bit: "n \<le> 64 \<Longrightarrow> fits n w \<longleftrightarrow> (\<forall>i. bit w i \<longrightarrow> i < n)"
  by (auto simp: fits_def N_ONES_mask bit_eq_iff bit_and_iff bit_mask_iff dest: bit_u64)

lemma fits_bit: "n \<le> 64 \<Longrightarrow> fits n w \<Longrightarrow> bit w i \<Longrightarrow> i < n"
  by (simp add: fits_iff_bit)

lemma Hash_bit: "bit (Hash k) i \<longleftrightarrow> bit k i \<and> i < 16"
  by (auto simp: Hash_def kHashbits_def N_ONES_mask bit_and_iff bit_mask_iff dest: bit_u64)

text \<open>The widths the compile-time assertions of the constructor allow.\<close>

definition key_width_ok :: "nat \<Rightarrow> bool" where
  "key_width_ok kb \<longleftrightarrow> kHashbits \<le> kb \<and> kb \<le> 64"

lemma upper_mask_bit:
  "key_width_ok kb \<Longrightarrow> \<not> kUseWholeKeys kb \<Longrightarrow> bit (kUpperMask kb) i \<longleftrightarrow> 7 \<le> i \<and> i < kb - 9"
  by (auto simp: kUpperMask_def kUpperbits_def key_width_ok_def N_ONES_mask kHashbits_def kValuebits_def
      bit_push_bit_iff bit_mask_iff kUseWholeKeys_def)

lemma KeyToUpper_low: "key_width_ok kb \<Longrightarrow> bit (KeyToUpper kb k) i \<Longrightarrow> 7 \<le> i"
  by (auto simp: KeyToUpper_def bit_push_bit_iff kValuebits_def bit_and_iff upper_mask_bit split: if_splits)

lemma EntryToValue_put:
  assumes "key_width_ok kb" "fits 7 v"
  shows "EntryToValue (KeyToUpper kb k OR v) = v"
proof (rule bit_word_eqI)
  fix i
  show "bit (EntryToValue (KeyToUpper kb k OR v)) i \<longleftrightarrow> bit v i"
    using KeyToUpper_low [OF assms(1), of k i] fits_bit [OF _ assms(2), of i]
    by (auto simp: EntryToValue_def kValueMask_def kValuebits_def N_ONES_mask bit_and_iff bit_or_iff bit_mask_iff dest: bit_u64)
qed

lemma KeyMatch_put:
  assumes kb: "key_width_ok kb" and v: "fits 7 v" and k: "fits kb k" "fits kb k'" and h: "Hash k' = Hash k"
  shows "KeyMatch kb (KeyToUpper kb k OR v) k' \<longleftrightarrow> k' = k"
proof (cases "kUseWholeKeys kb")
  case True
  have "drop_bit 7 (push_bit 7 k OR v) = k"
  proof (rule bit_word_eqI)
    fix i assume "i < LENGTH(64)"
    show "bit (drop_bit 7 (push_bit 7 k OR v)) i \<longleftrightarrow> bit k i"
      using fits_bit [OF _ v, of "7 + i"] fits_bit [OF _ k(1), of i] True kb
      by (auto simp: bit_drop_bit_eq bit_or_iff bit_push_bit_iff kUseWholeKeys_def kValuebits_def key_width_ok_def)
  qed
  then show ?thesis using True by (auto simp: KeyMatch_def KeyToUpper_def kValuebits_def)
next
  case False
  note ub = upper_mask_bit [OF kb False]
  have up: "bit (KeyToUpper kb x) i \<longleftrightarrow> bit x (i + 9) \<and> 7 \<le> i \<and> i < kb - 9" for x i
    using False by (auto simp: KeyToUpper_def kHashbits_def kValuebits_def bit_and_iff ub bit_drop_bit_eq add.commute)
  have low: "\<not> bit v i" if "7 \<le> i" for i using fits_bit [OF _ v, of i] that by auto
  have kb64: "i < kb - 9 \<Longrightarrow> i < 64" for i using kb by (auto simp: key_width_ok_def)
  have "KeyMatch kb (KeyToUpper kb k OR v) k' \<longleftrightarrow>
      (\<forall>i. 7 \<le> i \<and> i < kb - 9 \<longrightarrow> (bit k' (i + 9) \<longleftrightarrow> bit k (i + 9)))"
    using False low
    by (auto simp: KeyMatch_def bit_eq_iff bit_and_iff bit_xor_iff bit_or_iff up ub dest: kb64)
  also have "\<dots> \<longleftrightarrow> (\<forall>j. 16 \<le> j \<and> j < kb \<longrightarrow> (bit k' j \<longleftrightarrow> bit k j))"
  proof (rule iffI; intro allI impI)
    fix j assume a: "\<forall>i. 7 \<le> i \<and> i < kb - 9 \<longrightarrow> (bit k' (i + 9) \<longleftrightarrow> bit k (i + 9))" and j: "16 \<le> j \<and> j < kb"
    then have "7 \<le> j - 9 \<and> j - 9 < kb - 9" "j - 9 + 9 = j" by auto
    then show "bit k' j \<longleftrightarrow> bit k j" using a [rule_format, of "j - 9"] by simp
  qed auto
  also have "\<dots> \<longleftrightarrow> k' = k"
  proof
    assume hi: "\<forall>j. 16 \<le> j \<and> j < kb \<longrightarrow> (bit k' j \<longleftrightarrow> bit k j)"
    show "k' = k"
    proof (rule bit_word_eqI)
      fix i
      have kb64: "kb \<le> 64" using kb by (simp add: key_width_ok_def)
      show "bit k' i \<longleftrightarrow> bit k i"
        using hi Hash_bit [of k' i] Hash_bit [of k i] h fits_bit [OF kb64 k(1), of i] fits_bit [OF kb64 k(2), of i]
        by (cases "i < 16"; cases "i < kb") auto
    qed
  qed simp
  finally show ?thesis .
qed

section \<open>What the cache promises\<close>

lemma GetOrDefault_Put:
  assumes "key_width_ok kb" "fits 7 v" "fits kb k" "fits kb k'"
  shows "GetOrDefault kb (Put kb c k v) k' d =
           (if k' = k then v else if Hash k' = Hash k then d else GetOrDefault kb c k' d)"
  using KeyMatch_put [OF assms] EntryToValue_put [OF assms(1,2)]
  by (auto simp: GetOrDefault_def Put_def Let_def)

locale lossy_cache =
  fixes put :: "'c \<Rightarrow> 'k \<Rightarrow> 'v \<Rightarrow> 'c"
    and get :: "'c \<Rightarrow> 'k \<Rightarrow> 'v \<Rightarrow> 'v"
    and key :: "'k \<Rightarrow> bool"
    and val :: "'v \<Rightarrow> bool"
  assumes get_put_same: "key k \<Longrightarrow> val v \<Longrightarrow> get (put c k v) k d = v"
    and get_put_other: "key k \<Longrightarrow> key k' \<Longrightarrow> val v \<Longrightarrow> k' \<noteq> k \<Longrightarrow>
      get (put c k v) k' d = get c k' d \<or> get (put c k v) k' d = d"
begin

text \<open>The cache never contradicts the map \<open>f\<close> that it caches.\<close>

definition sound :: "'c \<Rightarrow> ('k \<Rightarrow> 'v) \<Rightarrow> bool" where
  "sound c f \<longleftrightarrow> (\<forall>k d. key k \<longrightarrow> get c k d = f k \<or> get c k d = d)"

lemma sound_put: "sound c f \<Longrightarrow> key k \<Longrightarrow> val v \<Longrightarrow> sound (put c k v) (f(k := v))"
  unfolding sound_def by (metis fun_upd_apply get_put_other get_put_same)

lemma sound_put_same: "sound c f \<Longrightarrow> key k \<Longrightarrow> val (f k) \<Longrightarrow> sound (put c k (f k)) f"
  using sound_put [of c f k "f k"] by simp

lemma sound_puts:
  "sound c f \<Longrightarrow> (\<And>k v. (k, v) \<in> set kvs \<Longrightarrow> key k \<and> val v) \<Longrightarrow>
    sound (fold (\<lambda>(k, v) c. put c k v) kvs c) (fold (\<lambda>(k, v) f. f(k := v)) kvs f)"
proof (induction kvs arbitrary: c f)
  case (Cons kv kvs)
  obtain k v where kv: "kv = (k, v)" by (cases kv)
  have "sound (put c k v) (f(k := v))" using Cons.prems kv by (intro sound_put) auto
  then have "sound (fold (\<lambda>(k, v) c. put c k v) kvs (put c k v)) (fold (\<lambda>(k, v) f. f(k := v)) kvs (f(k := v)))"
    by (rule Cons.IH) (use Cons.prems(2) in auto)
  then show ?case by (simp only: kv fold_simps case_prod_conv)
qed simp

end

definition kKeybits :: nat where "kKeybits = 35"

lemma kKeybits_ok: "key_width_ok kKeybits"
  by (simp add: key_width_ok_def kKeybits_def kHashbits_def)

interpretation pcache: lossy_cache "Put kKeybits" "GetOrDefault kKeybits" "fits kKeybits" "fits 7"
  using GetOrDefault_Put [OF kKeybits_ok] by unfold_locales auto

text \<open>
  C7: a lookup in the packed cache after \<open>Put(key, value)\<close> returns the value for that key, the default
  for another key with the same hash (whose entry was overwritten), and is unaffected for all other
  keys, for every admissible key width and both entry layouts, provided the value fits in
  \<open>kValuebits\<close> bits and the keys in \<open>kKeybits\<close> bits (the assertions of the code).  \<open>Has\<close> agrees.
\<close>

theorem PackedCache_Put_Get:
  assumes "key_width_ok kb" "fits 7 v" "fits kb k" "fits kb k'"
  shows "GetOrDefault kb (Put kb c k v) k' d =
           (if k' = k then v else if Hash k' = Hash k then d else GetOrDefault kb c k' d)
      \<and> (Has kb (Put kb c k v) k' \<longleftrightarrow> k' = k \<or> (Hash k' \<noteq> Hash k \<and> Has kb c k'))"
  using GetOrDefault_Put [OF assms] KeyMatch_put [OF assms] by (auto simp: Has_def Put_def)

theorem PackedCache_Put_Get_witness:
  "GetOrDefault 60 (Put 60 \<lparr>entries = (\<lambda>_. 0)\<rparr> 74565 9) 74565 3 = 9 \<and>
   GetOrDefault 60 (Put 60 \<lparr>entries = (\<lambda>_. 0)\<rparr> 74565 9) 9029 3 = 3"
  using PackedCache_Put_Get [where kb = 60 and v = 9 and k = 74565 and k' = 74565 and d = 3 and c = "\<lparr>entries = (\<lambda>_. 0)\<rparr>"]
    PackedCache_Put_Get [where kb = 60 and v = 9 and k = 74565 and k' = 9029 and d = 3 and c = "\<lparr>entries = (\<lambda>_. 0)\<rparr>"]
  by (simp add: key_width_ok_def kHashbits_def fits_def N_ONES_def Hash_def)

text \<open>
  C8: a cache that has only been filled from a map never contradicts it: after \<open>Clear\<close> with the value
  of all keys and any sequence of \<open>Put\<close>s that go along with updates of the map, a lookup returns the
  current value of the map or the default.
\<close>

lemma GetOrDefault_Clear:
  assumes "key_width_ok kb" "fits 7 v" "fits kb k"
  shows "GetOrDefault kb (Clear kb c v) k d = (if k = Hash k then v else d)"
proof -
  have h: "Hash k < 2 ^ kHashbits"
    using and_mask_less_size [of 16 k] by (simp add: Hash_def N_ONES_mask kHashbits_def word_size)
  have hh: "Hash (Hash k) = Hash k" by (rule bit_word_eqI) (auto simp: Hash_bit)
  have kb64: "kb \<le> 64" using assms(1) by (simp add: key_width_ok_def)
  have fh: "fits kb (Hash k)"
    using fits_bit [OF kb64 assms(3)] by (auto simp: fits_iff_bit [OF kb64] Hash_bit)
  have up0: "KeyToUpper kb (Hash k) = 0" if "\<not> kUseWholeKeys kb"
  proof (rule bit_word_eqI)
    fix i
    show "bit (KeyToUpper kb (Hash k)) i \<longleftrightarrow> bit 0 i"
      using that upper_mask_bit [OF assms(1) that, of i]
      by (auto simp: KeyToUpper_def bit_and_iff bit_drop_bit_eq kHashbits_def kValuebits_def Hash_bit)
  qed
  have e: "entries (Clear kb c v) (Hash k) = KeyToUpper kb (Hash k) OR v"
    using h up0 by (simp add: Clear_def or.commute)
  show ?thesis
    using KeyMatch_put [OF assms(1,2) fh assms(3)] EntryToValue_put [OF assms(1,2), of "Hash k"] hh
    by (auto simp: GetOrDefault_def Let_def e)
qed

theorem PackedCache_sound:
  assumes "fits 7 v" "\<forall>(k, w)\<in>set kvs. fits kKeybits k \<and> fits 7 w" "fits kKeybits k"
  shows "GetOrDefault kKeybits (fold (\<lambda>(k, w) c. Put kKeybits c k w) kvs (Clear kKeybits c v)) k d
           \<in> {fold (\<lambda>(k, w) f. f(k := w)) kvs (\<lambda>_. v) k, d}"
proof -
  have "pcache.sound (Clear kKeybits c v) (\<lambda>_. v)"
    using GetOrDefault_Clear [OF kKeybits_ok assms(1)] by (auto simp: pcache.sound_def)
  then have "pcache.sound (fold (\<lambda>(k, w) c. Put kKeybits c k w) kvs (Clear kKeybits c v))
      (fold (\<lambda>(k, w) f. f(k := w)) kvs (\<lambda>_. v))"
    using assms(2) by (intro pcache.sound_puts) auto
  then show ?thesis using assms(3) unfolding pcache.sound_def by blast
qed

theorem PackedCache_sound_witness:
  "GetOrDefault kKeybits (fold (\<lambda>(k, w) c. Put kKeybits c k w) [(5, 9), (6, 10)]
      (Clear kKeybits \<lparr>entries = (\<lambda>_. 0)\<rparr> 1)) 5 2 \<in> {9, 2}"
  using PackedCache_sound [of 1 "[(5, 9), (6, 10)]" 5 "\<lparr>entries = (\<lambda>_. 0)\<rparr>" 2]
  by (simp add: fits_def N_ONES_def kKeybits_def)

end
