(* ===== verification/System_Alloc.thy ===== *)
theory System_Alloc
  imports Size_Map
begin

text \<open>
  Memory from the operating system (\<open>system-alloc.cc\<close>).  The system calls are a parameter: a record
  \<open>'o os\<close> of functions on an arbitrary state \<open>'o\<close> of the kernel.  What the code relies on is the
  predicate \<open>os_ok\<close>, stated with the set \<open>owned\<close> of the addresses the process has been given: it is
  the documented behaviour of \<open>sbrk\<close>, \<open>mmap\<close>, \<open>munmap\<close>, \<open>madvise\<close> and \<open>getpagesize\<close>.

  The static variables of the file are the record \<open>sys_state\<close>; the records of the components above it
  extend it.  Sizes are natural numbers, and every sum that the code computes in \<open>size_t\<close> is written
  modulo \<open>2 ^ 64\<close>.
\<close>

unbundle bit_operations_syntax

section \<open>The operating system\<close>

datatype madvise_result = MadviseOk | MadviseAgain | MadviseFailed

text \<open>
  \<open>os_retries\<close> bounds how often \<open>madvise\<close> is called again after \<open>EAGAIN\<close>; the loop of the code has no
  such bound, and going beyond it is the outcome \<open>Diverge\<close>.  \<open>os_munmap_fails\<close> says whether \<open>munmap\<close>
  returns -1; only \<open>lmmumap\<close> looks at that.
\<close>

record 'o os =
  os_sbrk :: "nat \<Rightarrow> 'o \<Rightarrow> nat \<times> 'o"
  os_mmap :: "nat \<Rightarrow> 'o \<Rightarrow> nat \<times> 'o"
  os_munmap :: "nat \<Rightarrow> nat \<Rightarrow> 'o \<Rightarrow> 'o"
  os_madvise :: "nat \<Rightarrow> nat \<Rightarrow> 'o \<Rightarrow> madvise_result \<times> 'o"
  os_getpagesize :: nat
  os_retries :: nat
  os_munmap_fails :: "nat \<Rightarrow> nat \<Rightarrow> 'o \<Rightarrow> bool"

datatype SysAllocator = SbrkSysAllocator | MmapSysAllocator

record 'o sys_state =
  os_st :: 'o
  pagesize :: nat
  FLAGS_malloc_skip_sbrk :: bool
  FLAGS_malloc_skip_mmap :: bool
  FLAGS_malloc_disable_memory_release :: bool
  FLAGS_malloc_devmem_start :: int
  system_alloc_inited :: bool
  failed :: "bool list"
  allocs :: "SysAllocator option list"
  TCMalloc_SystemTaken :: nat

text \<open>The pointer \<open>-1\<close>, which is also \<open>MAP_FAILED\<close>.\<close>

definition minus1 :: nat where "minus1 = 2 ^ 64 - 1"

definition wrap64 :: "nat \<Rightarrow> nat" where "wrap64 n = n mod 2 ^ 64"

lemma wrap64_id [simp]: "n < 2 ^ 64 \<Longrightarrow> wrap64 n = n"
  by (simp add: wrap64_def)

text \<open>System calls on the state of the program.\<close>

definition call_sbrk :: "'o os \<Rightarrow> nat \<Rightarrow> ('o, 'z) sys_state_scheme \<Rightarrow> nat \<times> ('o, 'z) sys_state_scheme" where
  "call_sbrk os n st = (let (p, s) = os_sbrk os n (os_st st) in (p, st\<lparr>os_st := s\<rparr>))"

definition call_mmap :: "'o os \<Rightarrow> nat \<Rightarrow> ('o, 'z) sys_state_scheme \<Rightarrow> nat \<times> ('o, 'z) sys_state_scheme" where
  "call_mmap os n st = (let (p, s) = os_mmap os n (os_st st) in (p, st\<lparr>os_st := s\<rparr>))"

definition call_munmap :: "'o os \<Rightarrow> nat \<Rightarrow> nat \<Rightarrow> ('o, 'z) sys_state_scheme \<Rightarrow> ('o, 'z) sys_state_scheme" where
  "call_munmap os p n st = st\<lparr>os_st := os_munmap os p n (os_st st)\<rparr>"

section \<open>The allocators\<close>

definition CheckAddressBits :: "nat \<Rightarrow> nat \<Rightarrow> bool" where
  "CheckAddressBits address_bits ptr \<longleftrightarrow> address_bits = 64 \<or> ptr div 2 ^ address_bits = 0"

definition round_to :: "nat \<Rightarrow> nat \<Rightarrow> nat" where
  "round_to sz alignment = wrap64 (wrap64 (sz + alignment - 1) div alignment * alignment)"

text \<open>
  An allocator gets the size, the alignment and the current contents of \<open>*actual_size\<close>; it returns
  the pointer (0 is NULL) and the new contents.
\<close>

definition Sbrk_Alloc ::
  "'o os \<Rightarrow> nat \<Rightarrow> nat \<Rightarrow> nat \<Rightarrow> ('o, 'z) sys_state_scheme \<Rightarrow> addr \<times> nat \<times> ('o, 'z) sys_state_scheme" where
  "Sbrk_Alloc os sz actual alignment st =
     (if FLAGS_malloc_skip_sbrk st then (0, actual, st)
      else if wrap64 (sz + alignment) \<ge> 2 ^ 63 then (0, actual, st)
      else let sz = round_to sz alignment; actual = sz; (brk, st) = call_sbrk os 0 st
           in if wrap64 (brk + sz) < sz then (0, actual, st)
              else let (ptr, st) = call_sbrk os sz st
                   in if ptr = minus1 then (0, actual, st)
                      else if ptr AND (alignment - 1) = 0 then (ptr, actual, st)
                      else let extra = alignment - (ptr AND (alignment - 1));
                               (r2, st) = call_sbrk os extra st
                           in if r2 = wrap64 (ptr + sz) then (wrap64 (ptr + extra), actual, st)
                              else let (ptr, st) = call_sbrk os (wrap64 (sz + alignment - 1)) st
                                   in if ptr = minus1 then (0, actual, st)
                                      else if ptr AND (alignment - 1) \<noteq> 0
                                      then (wrap64 (ptr + (alignment - (ptr AND (alignment - 1)))), actual, st)
                                      else (ptr, actual, st))"

definition get_pagesize :: "'o os \<Rightarrow> ('o, 'z) sys_state_scheme \<Rightarrow> ('o, 'z) sys_state_scheme" where
  "get_pagesize os st = (if pagesize st = 0 then st\<lparr>pagesize := os_getpagesize os\<rparr> else st)"

definition Mmap_Alloc ::
  "'o os \<Rightarrow> nat \<Rightarrow> nat \<Rightarrow> nat \<Rightarrow> ('o, 'z) sys_state_scheme \<Rightarrow> addr \<times> nat \<times> ('o, 'z) sys_state_scheme" where
  "Mmap_Alloc os sz actual alignment st =
     (if FLAGS_malloc_skip_mmap st then (0, actual, st)
      else let st = get_pagesize os st;
               alignment = (if alignment < pagesize st then pagesize st else alignment);
               aligned_size = round_to sz alignment
           in if aligned_size < sz then (0, actual, st)
              else let sz = aligned_size; actual = sz;
                       extra = (if alignment > pagesize st then alignment - pagesize st else 0);
                       (ptr, st) = call_mmap os (wrap64 (sz + extra)) st
                   in if ptr = minus1 then (0, actual, st)
                      else let adjust = (if ptr AND (alignment - 1) \<noteq> 0
                                         then alignment - (ptr AND (alignment - 1)) else 0);
                               st = (if adjust > 0 then call_munmap os ptr adjust st else st);
                               st = (if adjust < extra
                                     then call_munmap os (wrap64 (ptr + adjust + sz)) (extra - adjust) st else st)
                           in (wrap64 (ptr + adjust), actual, st))"

definition SysAllocator_Alloc ::
  "'o os \<Rightarrow> SysAllocator \<Rightarrow> nat \<Rightarrow> nat \<Rightarrow> nat \<Rightarrow> ('o, 'z) sys_state_scheme \<Rightarrow>
   addr \<times> nat \<times> ('o, 'z) sys_state_scheme" where
  "SysAllocator_Alloc os a =
     (case a of SbrkSysAllocator \<Rightarrow> Sbrk_Alloc os | MmapSysAllocator \<Rightarrow> Mmap_Alloc os)"

definition kMaxAllocators :: nat where "kMaxAllocators = 2"

text \<open>The loop of \<open>DefaultSysAllocator::Alloc\<close> over the indices of the children, and its reset.\<close>

fun Default_Alloc_loop ::
  "'o os \<Rightarrow> nat list \<Rightarrow> nat \<Rightarrow> nat \<Rightarrow> nat \<Rightarrow> ('o, 'z) sys_state_scheme \<Rightarrow>
   addr \<times> nat \<times> ('o, 'z) sys_state_scheme" where
  "Default_Alloc_loop os [] sz actual alignment st =
     (0, actual, st\<lparr>failed := replicate kMaxAllocators False\<rparr>)"
| "Default_Alloc_loop os (i # is) sz actual alignment st =
     (case allocs st ! i of
        None \<Rightarrow> Default_Alloc_loop os is sz actual alignment st
      | Some a \<Rightarrow>
          if failed st ! i then Default_Alloc_loop os is sz actual alignment st
          else let (result, actual, st) = SysAllocator_Alloc os a sz actual alignment st
               in if result \<noteq> 0 then (result, actual, st)
                  else Default_Alloc_loop os is sz actual alignment (st\<lparr>failed := (failed st)[i := True]\<rparr>))"

definition Default_Alloc ::
  "'o os \<Rightarrow> nat \<Rightarrow> nat \<Rightarrow> nat \<Rightarrow> ('o, 'z) sys_state_scheme \<Rightarrow> addr \<times> nat \<times> ('o, 'z) sys_state_scheme" where
  "Default_Alloc os = Default_Alloc_loop os [0..<kMaxAllocators]"

definition SetChildAllocator ::
  "SysAllocator option \<Rightarrow> nat \<Rightarrow> ('o, 'z) sys_state_scheme \<Rightarrow> ('o, 'z) sys_state_scheme" where
  "SetChildAllocator a i st =
     (if i < kMaxAllocators \<and> a \<noteq> None
      then st\<lparr>allocs := (allocs st)[i := a], failed := (failed st)[i := False]\<rparr> else st)"

text \<open>The build without \<open>NDEBUG\<close> would put the mmap allocator first.\<close>

definition kDebugMode :: bool where "kDebugMode = False"

definition InitSystemAllocators :: "('o, 'z) sys_state_scheme \<Rightarrow> ('o, 'z) sys_state_scheme" where
  "InitSystemAllocators st =
     (let st = st\<lparr>failed := replicate kMaxAllocators True, allocs := replicate kMaxAllocators None\<rparr>
      in if kDebugMode
         then SetChildAllocator (Some SbrkSysAllocator) 1 (SetChildAllocator (Some MmapSysAllocator) 0 st)
         else SetChildAllocator (Some MmapSysAllocator) 1 (SetChildAllocator (Some SbrkSysAllocator) 0 st))"

text \<open>\<open>sizeof(MemoryAligner)\<close>: a union of pointers aligned to a cache line.\<close>

definition sizeof_MemoryAligner :: nat where "sizeof_MemoryAligner = 64"

definition TCMalloc_SystemAlloc ::
  "'o os \<Rightarrow> nat \<Rightarrow> nat \<Rightarrow> ('o, 'z) sys_state_scheme \<Rightarrow> (addr \<times> nat \<times> ('o, 'z) sys_state_scheme) res" where
  "TCMalloc_SystemAlloc os sz alignment st =
     (if wrap64 (sz + alignment) < sz then Inr (0, 0, st)
      else let st = (if \<not> system_alloc_inited st
                     then (InitSystemAllocators st)\<lparr>system_alloc_inited := True\<rparr> else st);
               alignment = (if alignment < sizeof_MemoryAligner then sizeof_MemoryAligner else alignment);
               (result, actual, st) = Default_Alloc os sz 0 alignment st
           in if result \<noteq> 0 then
                if \<not> CheckAddressBits kAddressBits (wrap64 (result + actual + (2 ^ 64 - 1))) then Inl Abort
                else Inr (result, actual, st\<lparr>TCMalloc_SystemTaken := wrap64 (TCMalloc_SystemTaken st + actual)\<rparr>)
              else Inr (result, actual, st))"

section \<open>Releasing memory\<close>

primrec madvise_loop ::
  "nat \<Rightarrow> 'o os \<Rightarrow> nat \<Rightarrow> nat \<Rightarrow> ('o, 'z) sys_state_scheme \<Rightarrow> (bool \<times> ('o, 'z) sys_state_scheme) res" where
  "madvise_loop 0 os start len st = Inl Diverge"
| "madvise_loop (Suc n) os start len st =
     (let (r, s) = os_madvise os start len (os_st st); st = st\<lparr>os_st := s\<rparr>
      in case r of MadviseAgain \<Rightarrow> madvise_loop n os start len st
         | MadviseOk \<Rightarrow> Inr (True, st) | MadviseFailed \<Rightarrow> Inr (False, st))"

text \<open>\<open>x & ~pagemask\<close>.\<close>

definition clear_mask :: "nat \<Rightarrow> nat \<Rightarrow> nat" where
  "clear_mask pgsize x = x - (x AND (pgsize - 1))"

definition TCMalloc_SystemRelease ::
  "'o os \<Rightarrow> nat \<Rightarrow> nat \<Rightarrow> ('o, 'z) sys_state_scheme \<Rightarrow> (bool \<times> ('o, 'z) sys_state_scheme) res" where
  "TCMalloc_SystemRelease os start len st =
     (if FLAGS_malloc_devmem_start st \<noteq> 0 then Inr (False, st)
      else if FLAGS_malloc_disable_memory_release st then Inr (False, st)
      else let st = get_pagesize os st;
               end = wrap64 (start + len);
               new_start = clear_mask (pagesize st) (wrap64 (start + pagesize st - 1));
               new_end = clear_mask (pagesize st) end
           in if new_end > new_start
              then madvise_loop (Suc (os_retries os)) os new_start (new_end - new_start) st
              else Inr (False, st))"

definition TCMalloc_SystemCommit ::
  "nat \<Rightarrow> nat \<Rightarrow> ('o, 'z) sys_state_scheme \<Rightarrow> ('o, 'z) sys_state_scheme" where
  "TCMalloc_SystemCommit start len st = st"

section \<open>What the code relies on\<close>

definition sbrk_ok :: "'o os \<Rightarrow> ('o \<Rightarrow> addr set) \<Rightarrow> bool" where
  "sbrk_ok os owned \<longleftrightarrow> (\<forall>n s p s'. os_sbrk os n s = (p, s') \<longrightarrow>
     (if n = 0 then s' = s
      else if p = minus1 then owned s' = owned s
      else p \<noteq> 0 \<and> p + n < minus1 \<and> {p..<p + n} \<inter> owned s = {} \<and> owned s' = owned s \<union> {p..<p + n}))"

definition mmap_ok :: "'o os \<Rightarrow> ('o \<Rightarrow> addr set) \<Rightarrow> bool" where
  "mmap_ok os owned \<longleftrightarrow> (\<forall>n s p s'. os_mmap os n s = (p, s') \<longrightarrow>
     (if p = minus1 then owned s' = owned s
      else p \<noteq> 0 \<and> os_getpagesize os dvd p \<and> p + n < 2 ^ 64 \<and> {p..<p + n} \<inter> owned s = {} \<and>
           owned s' = owned s \<union> {p..<p + n}))"

definition munmap_ok :: "'o os \<Rightarrow> ('o \<Rightarrow> addr set) \<Rightarrow> bool" where
  "munmap_ok os owned \<longleftrightarrow> (\<forall>p n s. owned s - {p..<p + n} \<subseteq> owned (os_munmap os p n s) \<and>
     owned (os_munmap os p n s) \<subseteq> owned s)"

definition madvise_ok :: "'o os \<Rightarrow> ('o \<Rightarrow> addr set) \<Rightarrow> bool" where
  "madvise_ok os owned \<longleftrightarrow> (\<forall>p n s. owned (snd (os_madvise os p n s)) = owned s)"

definition os_ok :: "'o os \<Rightarrow> ('o \<Rightarrow> addr set) \<Rightarrow> bool" where
  "os_ok os owned \<longleftrightarrow> sbrk_ok os owned \<and> mmap_ok os owned \<and> munmap_ok os owned \<and> madvise_ok os owned \<and>
     (\<forall>s. 0 \<notin> owned s) \<and> (\<exists>k\<le>16. os_getpagesize os = 2 ^ k)"

text \<open>\<open>madvise\<close> does not answer \<open>EAGAIN\<close> more often in a row than the model follows it.\<close>

definition madvise_answers :: "'o os \<Rightarrow> bool" where
  "madvise_answers os \<longleftrightarrow> (\<forall>p n s. \<exists>k\<le>os_retries os.
     fst (os_madvise os p n (((\<lambda>s. snd (os_madvise os p n s)) ^^ k) s)) \<noteq> MadviseAgain)"

end
