(* ===== verification/System_Alloc_Correct.thy ===== *)
theory System_Alloc_Correct
  imports System_Alloc
begin

text \<open>
  A block that \<open>TCMalloc_SystemAlloc\<close> returns is new: it is aligned, at least as large as requested,
  lies below \<open>2 ^ kAddressBits\<close>, belongs to the process afterwards, and no byte of it did before.
\<close>

section \<open>Alignment arithmetic\<close>

lemma and_pow2: "x AND (2 ^ k - 1) = x mod 2 ^ k" for x :: nat
  by (metis mask_eq_exp_minus_1 take_bit_eq_mask take_bit_eq_mod)

lemma align_up:
  fixes x :: nat
  shows "x AND (2 ^ k - 1) \<noteq> 0 \<Longrightarrow> 2 ^ k dvd x + (2 ^ k - (x AND (2 ^ k - 1)))"
    and "x AND (2 ^ k - 1) = 0 \<Longrightarrow> 2 ^ k dvd x"
proof -
  have lt: "x mod 2 ^ k < 2 ^ k" by simp
  have "x + (2 ^ k - x mod 2 ^ k) = x div 2 ^ k * 2 ^ k + 2 ^ k"
    using lt div_mult_mod_eq [of x "2 ^ k"] by linarith
  then have "2 ^ k dvd x + (2 ^ k - x mod 2 ^ k)" by (metis dvd_add dvd_refl dvd_triv_right)
  then show "2 ^ k dvd x + (2 ^ k - (x AND (2 ^ k - 1)))" unfolding and_pow2 .
next
  assume "x AND (2 ^ k - 1) = 0"
  then show "2 ^ k dvd x" unfolding and_pow2 by (simp only: dvd_eq_mod_eq_0)
qed

lemma and_pow2_less: "x AND (2 ^ k - 1) < 2 ^ k" for x :: nat
  unfolding and_pow2 by simp

lemma round_to_bounds:
  assumes "sz + 2 ^ k \<le> 2 ^ 64" "0 < sz"
  shows "sz \<le> round_to sz (2 ^ k)" "round_to sz (2 ^ k) < sz + 2 ^ k" "2 ^ k dvd round_to sz (2 ^ k)"
    "round_to sz (2 ^ k) + 2 ^ k \<le> 2 ^ 64"
proof -
  let ?r = "(sz + 2 ^ k - 1) div 2 ^ k * 2 ^ k"
  have w: "wrap64 (sz + 2 ^ k - 1) = sz + 2 ^ k - 1" using assms by (intro wrap64_id) linarith
  have m: "?r + (sz + 2 ^ k - 1) mod 2 ^ k = sz + 2 ^ k - 1" by (rule div_mult_mod_eq)
  have lt: "(sz + 2 ^ k - 1) mod 2 ^ k < 2 ^ k" by simp
  have r: "sz \<le> ?r" "?r < sz + 2 ^ k" using m lt by linarith+
  have "round_to sz (2 ^ k) = ?r"
    unfolding round_to_def w using r(2) assms by (intro wrap64_id) linarith
  note eq = this
  show "sz \<le> round_to sz (2 ^ k)" "round_to sz (2 ^ k) < sz + 2 ^ k" "2 ^ k dvd round_to sz (2 ^ k)"
    using r by (simp_all add: eq)
  have "(2::nat) ^ k < 2 ^ 64" using assms by linarith
  then have "k < 64" using power_less_imp_less_exp [of "2::nat" k 64] by simp
  then have "(2::nat) ^ k dvd 2 ^ 64" by (intro le_imp_power_dvd) simp
  then obtain c where c: "(2::nat) ^ 64 = 2 ^ k * c" by (rule dvdE)
  have "(sz + 2 ^ k - 1) div 2 ^ k * 2 ^ k < c * 2 ^ k" using r(2) assms c by (simp add: mult.commute)
  then have "(sz + 2 ^ k - 1) div 2 ^ k < c" by simp
  then have "((sz + 2 ^ k - 1) div 2 ^ k + 1) * 2 ^ k \<le> c * 2 ^ k" by (intro mult_le_mono1) simp
  then show "round_to sz (2 ^ k) + 2 ^ k \<le> 2 ^ 64" using c by (simp add: eq algebra_simps)
qed

section \<open>The contract\<close>

text \<open>Only the variables of this file change.\<close>

definition sys_frame :: "('o, 'z) sys_state_scheme \<Rightarrow> ('o, 'z) sys_state_scheme \<Rightarrow> bool" where
  "sys_frame st st' \<longleftrightarrow> (\<exists>s pg fl al ini tk. st' = st\<lparr>os_st := s, pagesize := pg, failed := fl,
     allocs := al, system_alloc_inited := ini, TCMalloc_SystemTaken := tk\<rparr>)"

lemma sys_frame_upd:
  assumes "st' = st\<lparr>os_st := s, pagesize := pg, failed := fl, allocs := al, system_alloc_inited := ini,
    TCMalloc_SystemTaken := tk\<rparr>"
  shows "sys_frame st st'"
  using assms unfolding sys_frame_def by blast

lemma sys_frame_trans: "sys_frame a b \<Longrightarrow> sys_frame b c \<Longrightarrow> sys_frame a c"
  unfolding sys_frame_def by (elim exE) (simp, blast)

lemma sys_frame_simps [simp]:
  "sys_frame st st"
  "sys_frame st (st\<lparr>os_st := s\<rparr>)"
  "sys_frame st (st\<lparr>pagesize := pg\<rparr>)"
  "sys_frame st (st\<lparr>failed := fl\<rparr>)"
  "sys_frame st (st\<lparr>failed := fl, allocs := al\<rparr>)"
  "sys_frame st (st\<lparr>allocs := al, failed := fl\<rparr>)"
  "sys_frame st (st\<lparr>system_alloc_inited := ini\<rparr>)"
  "sys_frame st (st\<lparr>TCMalloc_SystemTaken := tk\<rparr>)"
  by (rule sys_frame_upd [where s = "os_st st" and pg = "pagesize st" and fl = "failed st" and al = "allocs st"
        and ini = "system_alloc_inited st" and tk = "TCMalloc_SystemTaken st"], simp)
    (rule sys_frame_upd [where s = s and pg = "pagesize st" and fl = "failed st" and al = "allocs st"
        and ini = "system_alloc_inited st" and tk = "TCMalloc_SystemTaken st"], simp,
     rule sys_frame_upd [where s = "os_st st" and pg = pg and fl = "failed st" and al = "allocs st"
        and ini = "system_alloc_inited st" and tk = "TCMalloc_SystemTaken st"], simp,
     rule sys_frame_upd [where s = "os_st st" and pg = "pagesize st" and fl = fl and al = "allocs st"
        and ini = "system_alloc_inited st" and tk = "TCMalloc_SystemTaken st"], simp,
     rule sys_frame_upd [where s = "os_st st" and pg = "pagesize st" and fl = fl and al = al
        and ini = "system_alloc_inited st" and tk = "TCMalloc_SystemTaken st"], simp,
     rule sys_frame_upd [where s = "os_st st" and pg = "pagesize st" and fl = fl and al = al
        and ini = "system_alloc_inited st" and tk = "TCMalloc_SystemTaken st"], simp,
     rule sys_frame_upd [where s = "os_st st" and pg = "pagesize st" and fl = "failed st" and al = "allocs st"
        and ini = ini and tk = "TCMalloc_SystemTaken st"], simp,
     rule sys_frame_upd [where s = "os_st st" and pg = "pagesize st" and fl = "failed st" and al = "allocs st"
        and ini = "system_alloc_inited st" and tk = tk], simp)

definition fresh_block :: "addr set \<Rightarrow> addr set \<Rightarrow> nat \<Rightarrow> nat \<Rightarrow> addr \<Rightarrow> nat \<Rightarrow> bool" where
  "fresh_block before after sz alignment p actual \<longleftrightarrow>
     alignment dvd p \<and> sz \<le> actual \<and> actual < sz + max alignment (2 ^ 16) \<and> p + actual < 2 ^ 64 \<and>
     {p..<p + actual} \<subseteq> after \<and> {p..<p + actual} \<inter> before = {}"

definition alloc_post ::
  "'o os \<Rightarrow> ('o \<Rightarrow> addr set) \<Rightarrow> nat \<Rightarrow> nat \<Rightarrow> ('o, 'z) sys_state_scheme \<Rightarrow>
   addr \<times> nat \<times> ('o, 'z) sys_state_scheme \<Rightarrow> bool" where
  "alloc_post os owned sz alignment st r = (case r of (p, actual, st') \<Rightarrow>
     sys_frame st st' \<and> allocs st' = allocs st \<and> failed st' = failed st \<and>
     system_alloc_inited st' = system_alloc_inited st \<and>
     pagesize st' \<in> {pagesize st, os_getpagesize os} \<and>
     owned (os_st st) \<subseteq> owned (os_st st') \<and>
     (p \<noteq> 0 \<longrightarrow> fresh_block (owned (os_st st)) (owned (os_st st')) sz alignment p actual))"

text \<open>The part of the contract that every step keeps.\<close>

definition alloc_step :: "'o os \<Rightarrow> ('o \<Rightarrow> addr set) \<Rightarrow> ('o, 'z) sys_state_scheme \<Rightarrow> ('o, 'z) sys_state_scheme \<Rightarrow> bool" where
  "alloc_step os owned st st' \<longleftrightarrow> sys_frame st st' \<and> allocs st' = allocs st \<and> failed st' = failed st \<and>
     system_alloc_inited st' = system_alloc_inited st \<and>
     pagesize st' \<in> {pagesize st, os_getpagesize os} \<and> owned (os_st st) \<subseteq> owned (os_st st')"

lemma alloc_step_refl [simp]: "alloc_step os owned st st"
  by (simp add: alloc_step_def)

lemma alloc_step_trans: "alloc_step os owned a b \<Longrightarrow> alloc_step os owned b c \<Longrightarrow> alloc_step os owned a c"
  unfolding alloc_step_def by (auto intro: sys_frame_trans)

lemma call_sbrk_step:
  assumes "sbrk_ok os owned" "call_sbrk os n st = (p, st')"
  shows "alloc_step os owned st st'"
    and "n = 0 \<Longrightarrow> st' = st"
    and "0 < n \<Longrightarrow> p \<noteq> minus1 \<Longrightarrow> p \<noteq> 0 \<and> p + n < minus1 \<and> {p..<p + n} \<inter> owned (os_st st) = {} \<and>
          {p..<p + n} \<subseteq> owned (os_st st')"
proof -
  obtain s' where s': "os_sbrk os n (os_st st) = (p, s')" "st' = st\<lparr>os_st := s'\<rparr>"
    using assms(2) by (auto simp: call_sbrk_def split: prod.splits)
  have *: "if n = 0 then s' = os_st st else if p = minus1 then owned s' = owned (os_st st)
      else p \<noteq> 0 \<and> p + n < minus1 \<and> {p..<p + n} \<inter> owned (os_st st) = {} \<and> owned s' = owned (os_st st) \<union> {p..<p + n}"
    using assms(1) s'(1) unfolding sbrk_ok_def by blast
  then show "alloc_step os owned st st'" using s'(2) by (auto simp: alloc_step_def split: if_splits)
  show "n = 0 \<Longrightarrow> st' = st" using * s'(2) by simp
  show "0 < n \<Longrightarrow> p \<noteq> minus1 \<Longrightarrow> p \<noteq> 0 \<and> p + n < minus1 \<and> {p..<p + n} \<inter> owned (os_st st) = {} \<and>
          {p..<p + n} \<subseteq> owned (os_st st')"
    using * s'(2) by auto
qed

lemma fresh_blockI:
  assumes "alignment dvd p" "sz \<le> actual" "actual < sz + max alignment (2 ^ 16)" "p + actual < 2 ^ 64"
    "{p..<p + actual} \<subseteq> block" "block \<subseteq> after" "block \<inter> before = {}"
  shows "fresh_block before after sz alignment p actual"
  using assms by (auto simp: fresh_block_def)

lemma Sbrk_Alloc_post:
  assumes os: "sbrk_ok os owned" and sz: "0 < sz" "sz + 2 ^ k < 2 ^ 64" and r: "Sbrk_Alloc os sz act (2 ^ k) st = (p, act', st')"
  shows "alloc_step os owned st st' \<and>
    (p \<noteq> 0 \<longrightarrow> fresh_block (owned (os_st st)) (owned (os_st st')) sz (2 ^ k) p act')"
proof (cases "FLAGS_malloc_skip_sbrk st \<or> wrap64 (sz + 2 ^ k) \<ge> 2 ^ 63")
  case True
  then show ?thesis using r by (auto simp: Sbrk_Alloc_def split: if_splits)
next
  case False
  let ?sz = "round_to sz (2 ^ k)" and ?m = "(2::nat) ^ k - 1"
  note rb = round_to_bounds [OF less_imp_le [OF sz(2)] sz(1)]
  obtain brk st0 where c0: "call_sbrk os 0 st = (brk, st0)" by (cases "call_sbrk os 0 st")
  have st0: "st0 = st" using call_sbrk_step(2) [OF os c0] by simp
  obtain p1 st1 where c1: "call_sbrk os ?sz st = (p1, st1)" by (cases "call_sbrk os ?sz st")
  note s1 = call_sbrk_step [OF os c1]
  define extra where "extra = 2 ^ k - (p1 AND ?m)"
  obtain r2 st2 where c2: "call_sbrk os extra st1 = (r2, st2)" by (cases "call_sbrk os extra st1")
  note s2 = call_sbrk_step [OF os c2]
  have lt: "p1 AND ?m < 2 ^ k" by (rule and_pow2_less)
  have ex: "0 < extra" "extra \<le> 2 ^ k" using lt by (auto simp: extra_def)
  obtain p3 st3 where c3: "call_sbrk os (?sz + 2 ^ k - 1) st2 = (p3, st3)"
    by (cases "call_sbrk os (?sz + 2 ^ k - 1) st2")
  note s3 = call_sbrk_step [OF os c3]
  have w: "wrap64 (?sz + 2 ^ k - 1) = ?sz + 2 ^ k - 1" using rb(1,4) sz(1) by (intro wrap64_id) linarith
  have unf: "(p, act', st') =
     (if wrap64 (brk + ?sz) < ?sz then (0, ?sz, st)
      else if p1 = minus1 then (0, ?sz, st1)
      else if p1 AND ?m = 0 then (p1, ?sz, st1)
      else if r2 = wrap64 (p1 + ?sz) then (wrap64 (p1 + extra), ?sz, st2)
      else if p3 = minus1 then (0, ?sz, st3)
      else if p3 AND ?m \<noteq> 0 then (wrap64 (p3 + (2 ^ k - (p3 AND ?m))), ?sz, st3)
      else (p3, ?sz, st3))"
    using False c0 st0 c1 c2 c3 w unfolding r [symmetric] Sbrk_Alloc_def extra_def by (simp add: Let_def)
  note chain = alloc_step_trans [OF s1(1) s2(1)] alloc_step_trans [OF alloc_step_trans [OF s1(1) s2(1)] s3(1)]
  have mono: "owned (os_st st) \<subseteq> owned (os_st st1)" "owned (os_st st1) \<subseteq> owned (os_st st2)"
    using s1(1) s2(1) by (auto simp: alloc_step_def)
  consider (nul) "p = 0" "st' \<in> {st, st1, st2, st3}"
    | (one) "p1 \<noteq> minus1" "p1 AND ?m = 0" "p = p1" "st' = st1" "act' = ?sz"
    | (two) "p1 \<noteq> minus1" "p1 AND ?m \<noteq> 0" "r2 = wrap64 (p1 + ?sz)" "p = wrap64 (p1 + extra)" "st' = st2" "act' = ?sz"
    | (three) "p3 \<noteq> minus1" "st' = st3" "act' = ?sz"
        "p = (if p3 AND ?m \<noteq> 0 then wrap64 (p3 + (2 ^ k - (p3 AND ?m))) else p3)"
    using unf
    by (cases "wrap64 (brk + ?sz) < ?sz"; cases "p1 = minus1"; cases "p1 AND ?m = 0";
        cases "r2 = wrap64 (p1 + ?sz)"; cases "p3 = minus1"; simp split: if_splits)
  then show ?thesis
  proof cases
    case nul
    then show ?thesis using s1(1) chain by auto
  next
    case one
    then show ?thesis
      using s1(1) s1(3) rb sz(1) align_up(2) [of p1 k]
      by (auto simp: minus1_def intro!: fresh_blockI [where block = "{p1..<p1 + ?sz}"])
  next
    case two
    have f1: "p1 + ?sz < minus1" "{p1..<p1 + ?sz} \<inter> owned (os_st st) = {}" "{p1..<p1 + ?sz} \<subseteq> owned (os_st st1)"
      using s1(3) two(1) rb(1) sz(1) by auto
    then have r2: "r2 = p1 + ?sz" "r2 \<noteq> minus1" using two(3) by (auto simp: minus1_def wrap64_def)
    then have f2: "p1 + ?sz + extra < 2 ^ 64" "{r2..<r2 + extra} \<inter> owned (os_st st1) = {}"
        "{r2..<r2 + extra} \<subseteq> owned (os_st st2)"
      using s2(3) ex by (auto simp: minus1_def)
    have p: "p = p1 + extra" using two(4) f2(1) by simp
    have "2 ^ k dvd p" using align_up(1) [OF two(2)] by (simp add: p extra_def)
    then have "fresh_block (owned (os_st st)) (owned (os_st st2)) sz (2 ^ k) p ?sz"
      using rb f1 f2 mono p r2(1)
      by (intro fresh_blockI [where block = "{p1..<p1 + ?sz} \<union> {r2..<r2 + extra}"]) auto
    then show ?thesis using two chain by simp
  next
    case three
    have k1: "Suc 0 \<le> 2 ^ k" by simp
    then have n3: "0 < ?sz + 2 ^ k - 1" using rb(1) sz(1) by linarith
    have f3: "p3 + (?sz + 2 ^ k - 1) < 2 ^ 64" "{p3..<p3 + (?sz + 2 ^ k - 1)} \<inter> owned (os_st st2) = {}"
        "{p3..<p3 + (?sz + 2 ^ k - 1)} \<subseteq> owned (os_st st3)"
      using s3(3) [OF n3 three(1)] by (auto simp: minus1_def)
    have lt3: "p3 AND ?m < 2 ^ k" by (rule and_pow2_less)
    define q where "q = (if p3 AND ?m \<noteq> 0 then p3 + (2 ^ k - (p3 AND ?m)) else p3)"
    have "q = p3 \<or> (p3 AND ?m \<noteq> 0 \<and> q = p3 + (2 ^ k - (p3 AND ?m)))" by (simp add: q_def)
    then have q: "p3 \<le> q" "q \<le> p3 + (2 ^ k - 1)" "2 ^ k dvd q"
      using lt3 align_up [of p3 k] k1 by (linarith, linarith, auto simp: q_def)
    have "q < 2 ^ 64" using q(2) f3(1) rb(1) sz(1) by linarith
    then have p: "p = q" using three(4) by (auto simp: q_def split: if_splits)
    have "fresh_block (owned (os_st st)) (owned (os_st st3)) sz (2 ^ k) q ?sz"
      using rb f3 mono q
      by (intro fresh_blockI [where block = "{p3..<p3 + (?sz + 2 ^ k - 1)}"]) auto
    then show ?thesis using three chain p by simp
  qed
qed

text \<open>The size, rounded up modulo \<open>2 ^ 64\<close>, is only smaller than the size when the sum wrapped around.\<close>

lemma round_to_overflow:
  assumes "sz < 2 ^ 64" "2 ^ k < (2::nat) ^ 64" "2 ^ 64 \<le> sz + 2 ^ k - 1"
  shows "round_to sz (2 ^ k) < sz"
proof -
  have w: "wrap64 (sz + 2 ^ k - 1) = sz + 2 ^ k - 1 - 2 ^ 64"
    unfolding wrap64_def using assms by (subst mod_if) auto
  have "round_to sz (2 ^ k) \<le> wrap64 (sz + 2 ^ k - 1) div 2 ^ k * 2 ^ k"
    unfolding round_to_def wrap64_def [of "_ * _"] by (rule mod_less_eq_dividend)
  also have "\<dots> \<le> wrap64 (sz + 2 ^ k - 1)" by (rule div_times_less_eq_dividend)
  also have "\<dots> < sz" unfolding w using assms by linarith
  finally show ?thesis .
qed

lemma call_munmap_step:
  assumes "munmap_ok os owned" "{q..<q + n} \<inter> old = {}" "old \<subseteq> owned (os_st st)"
  shows "sys_frame st (call_munmap os q n st)" "old \<subseteq> owned (os_st (call_munmap os q n st))"
    "owned (os_st st) - {q..<q + n} \<subseteq> owned (os_st (call_munmap os q n st))"
    "pagesize (call_munmap os q n st) = pagesize st" "allocs (call_munmap os q n st) = allocs st"
    "failed (call_munmap os q n st) = failed st"
    "system_alloc_inited (call_munmap os q n st) = system_alloc_inited st"
  using assms unfolding munmap_ok_def call_munmap_def by (simp_all, blast+)

lemma get_pagesize_step:
  "alloc_step os owned st (get_pagesize os st)" "os_st (get_pagesize os st) = os_st st"
  by (auto simp: get_pagesize_def alloc_step_def)

text \<open>Giving back the two ends of a mapping keeps the block in the middle.\<close>

lemma trim_mapping:
  assumes os: "munmap_ok os owned" and blk: "{p..<p + n} \<inter> owned (os_st st0) = {}"
    "{p..<p + n} \<subseteq> owned (os_st st)" "owned (os_st st0) \<subseteq> owned (os_st st)"
    and a: "adjust + sz + rest = n"
  defines "st1 \<equiv> (if adjust > 0 then call_munmap os p adjust st else st)"
  defines "st2 \<equiv> (if 0 < rest then call_munmap os (p + adjust + sz) rest st1 else st1)"
  shows "alloc_step os owned st0 st \<Longrightarrow> alloc_step os owned st0 st2"
    and "{p + adjust..<p + adjust + sz} \<subseteq> owned (os_st st2)"
proof -
  have d1: "{p..<p + adjust} \<inter> owned (os_st st0) = {}" "{p + adjust + sz..<p + adjust + sz + rest} \<inter> owned (os_st st0) = {}"
    using blk(1) unfolding a [symmetric] by (auto simp: disjoint_iff)
  have o1: "owned (os_st st0) \<subseteq> owned (os_st st1)" "owned (os_st st) - {p..<p + adjust} \<subseteq> owned (os_st st1)"
    using call_munmap_step [OF os d1(1) blk(3)] blk(3) by (auto simp: st1_def)
  have o2: "owned (os_st st0) \<subseteq> owned (os_st st2)"
      "owned (os_st st1) - {p + adjust + sz..<p + adjust + sz + rest} \<subseteq> owned (os_st st2)"
    using call_munmap_step [OF os d1(2) o1(1)] o1(1) by (auto simp: st2_def)
  show "{p + adjust..<p + adjust + sz} \<subseteq> owned (os_st st2)"
    using o1(2) o2(2) blk(2) a by fastforce
  show "alloc_step os owned st0 st \<Longrightarrow> alloc_step os owned st0 st2"
    using o2(1) call_munmap_step [OF os d1(1) blk(3)] call_munmap_step [OF os d1(2) o1(1)]
    unfolding alloc_step_def st2_def st1_def by (auto split: if_splits intro: sys_frame_trans)
qed

lemma adjust_bound:
  assumes "g \<le> j" "2 ^ g dvd q" "q AND (2 ^ j - 1) \<noteq> (0::nat)"
  shows "2 ^ j - (q AND (2 ^ j - 1)) \<le> 2 ^ j - 2 ^ g"
proof -
  have "(2::nat) ^ g dvd 2 ^ j" using assms(1) by (rule le_imp_power_dvd)
  then have "2 ^ g dvd q mod 2 ^ j" using assms(2) by (simp add: dvd_mod)
  then have "2 ^ g \<le> q mod 2 ^ j" using assms(3) unfolding and_pow2 by (intro dvd_imp_le) auto
  then show ?thesis unfolding and_pow2 by simp
qed

lemma Mmap_Alloc_post:
  assumes os: "mmap_ok os owned" "munmap_ok os owned" "os_getpagesize os = 2 ^ g" "g \<le> 16"
    and pg: "pagesize st \<in> {0, os_getpagesize os}"
    and sz: "0 < sz" "sz + 2 ^ k < 2 ^ 64" and r: "Mmap_Alloc os sz act (2 ^ k) st = (p, act', st')"
  shows "alloc_step os owned st st' \<and>
    (p \<noteq> 0 \<longrightarrow> fresh_block (owned (os_st st)) (owned (os_st st')) sz (2 ^ k) p act')"
proof -
  define st0 where "st0 = get_pagesize os st"
  have st0: "alloc_step os owned st st0" "os_st st0 = os_st st" "pagesize st0 = 2 ^ g"
    using get_pagesize_step(1) [where os = os and owned = owned and st = st] get_pagesize_step(2) [where os = os and st = st] pg os(3) by (auto simp: st0_def get_pagesize_def)
  define j where "j = max k g"
  have al: "(if (2::nat) ^ k < 2 ^ g then 2 ^ g else 2 ^ k) = 2 ^ j" by (simp add: j_def max_def)
  let ?sz = "round_to sz (2 ^ j)" and ?ex = "if (2::nat) ^ j > 2 ^ g then 2 ^ j - 2 ^ g else (0::nat)"
  have ex: "?ex = 2 ^ j - 2 ^ g" by auto
  have g64: "(2::nat) ^ g \<le> 2 ^ 16" using os(4) by (intro power_increasing) auto
  have jle: "(2::nat) ^ j \<le> max (2 ^ k) (2 ^ 16)"
    using g64 by (cases "k \<le> g") (auto simp: j_def max_absorb1 max_absorb2 le_max_iff_disj)
  have j64: "(2::nat) ^ j < 2 ^ 64" using jle sz by auto
  note unf0 = r [unfolded Mmap_Alloc_def Let_def, folded st0_def, unfolded st0(3) al]
  show ?thesis
  proof (cases "FLAGS_malloc_skip_mmap st \<or> ?sz < sz")
    case True
    then show ?thesis using unf0 st0(1) by (auto split: if_splits)
  next
    case False
    then have F: "\<not> FLAGS_malloc_skip_mmap st" "\<not> ?sz < sz" by simp_all
    have no: "sz + 2 ^ j \<le> 2 ^ 64"
      using False round_to_overflow [of sz j] sz j64 by linarith
    note rb = round_to_bounds [OF no sz(1)]
    have w: "wrap64 (?sz + (2 ^ j - 2 ^ g)) = ?sz + (2 ^ j - 2 ^ g)"
    proof (rule wrap64_id)
      have "0 < (2::nat) ^ g" "(2::nat) ^ g \<le> 2 ^ j" by (simp_all add: j_def)
      then show "?sz + (2 ^ j - 2 ^ g) < 2 ^ 64" using rb(4) by linarith
    qed
    obtain q s1 where c: "os_mmap os (?sz + (2 ^ j - 2 ^ g)) (os_st st) = (q, s1)"
      by (cases "os_mmap os (?sz + (2 ^ j - 2 ^ g)) (os_st st)")
    define st1 where "st1 = st0\<lparr>os_st := s1\<rparr>"
    have cm: "call_mmap os (wrap64 (?sz + ?ex)) st0 = (q, st1)"
      using c st0(2) unfolding ex w by (simp add: call_mmap_def st1_def)
    have mo: "if q = minus1 then owned s1 = owned (os_st st)
        else q \<noteq> 0 \<and> os_getpagesize os dvd q \<and> q + (?sz + (2 ^ j - 2 ^ g)) < 2 ^ 64 \<and>
             {q..<q + (?sz + (2 ^ j - 2 ^ g))} \<inter> owned (os_st st) = {} \<and>
             owned s1 = owned (os_st st) \<union> {q..<q + (?sz + (2 ^ j - 2 ^ g))}"
      using os(1) c unfolding mmap_ok_def by blast
    have step1: "alloc_step os owned st st1"
      using st0(1) mo by (auto simp: alloc_step_def st1_def st0(2) intro: sys_frame_trans split: if_splits)
    show ?thesis
    proof (cases "q = minus1")
      case True
      then have "(p, act', st') = (0, ?sz, st1)"
        using unf0 [unfolded cm] False by simp
      then show ?thesis using step1 by simp
    next
      case q: False
      define adj where "adj = (if q AND (2 ^ j - 1) \<noteq> 0 then 2 ^ j - (q AND (2 ^ j - 1)) else 0)"
      have gj: "g \<le> j" by (simp add: j_def)
      have "2 ^ g dvd q" using mo q os(3) by simp
      then have adj: "adj \<le> 2 ^ j - 2 ^ g" "2 ^ j dvd q + adj"
        using adjust_bound [OF gj, of q] align_up [of q j] by (auto simp: adj_def)
      let ?n = "?sz + (2 ^ j - 2 ^ g)" and ?rest = "2 ^ j - 2 ^ g - adj"
      have n: "adj + ?sz + ?rest = ?n" using adj(1) by simp
      have blk: "{q..<q + ?n} \<inter> owned (os_st st) = {}" "{q..<q + ?n} \<subseteq> owned (os_st st1)"
          "owned (os_st st) \<subseteq> owned (os_st st1)" "q + ?n < 2 ^ 64" "q \<noteq> 0"
        using mo q by (auto simp: st1_def)
      have w2: "wrap64 (q + adj + ?sz) = q + adj + ?sz" "wrap64 (q + adj) = q + adj"
        using blk(4) n by auto
      note tr = trim_mapping [OF os(2) blk(1-3) n]
      let ?st2 = "if adj > 0 then call_munmap os q adj st1 else st1"
      let ?st3 = "if 0 < ?rest then call_munmap os (q + adj + ?sz) ?rest ?st2 else ?st2"
      have "(p, act', st') = (q + adj, ?sz, ?st3)"
        using unf0 [unfolded ex, unfolded cm [unfolded ex] case_prod_conv, folded adj_def, unfolded w2]
        unfolding if_not_P [OF F(1)] if_not_P [OF F(2)] if_not_P [OF q] zero_less_diff by (rule sym)
      moreover have "fresh_block (owned (os_st st)) (owned (os_st ?st3)) sz (2 ^ k) (q + adj) ?sz"
      proof (rule fresh_blockI [where block = "{q + adj..<q + adj + ?sz}", OF _ rb(1) _ _ subset_refl tr(2)])
        have "(2::nat) ^ k dvd 2 ^ j" by (rule le_imp_power_dvd) (simp add: j_def)
        then show "2 ^ k dvd q + adj" using adj(2) by (rule dvd_trans)
        show "?sz < sz + max (2 ^ k) (2 ^ 16)" using rb(2) jle by linarith
        show "q + adj + ?sz < 2 ^ 64" using blk(4) n by linarith
        show "{q + adj..<q + adj + ?sz} \<inter> owned (os_st st) = {}" using blk(1) n by (auto simp: disjoint_iff)
      qed
      ultimately show ?thesis using tr(1) [OF step1] by simp
    qed
  qed
qed

section \<open>\<open>TCMalloc_SystemAlloc\<close>\<close>

definition sys_inv :: "'o os \<Rightarrow> ('o, 'z) sys_state_scheme \<Rightarrow> bool" where
  "sys_inv os st \<longleftrightarrow> pagesize st \<in> {0, os_getpagesize os} \<and>
     (system_alloc_inited st \<longrightarrow> length (allocs st) = kMaxAllocators \<and> length (failed st) = kMaxAllocators)"

definition sys_post ::
  "'o os \<Rightarrow> ('o \<Rightarrow> addr set) \<Rightarrow> nat \<Rightarrow> nat \<Rightarrow> ('o, 'z) sys_state_scheme \<Rightarrow>
   addr \<times> nat \<times> ('o, 'z) sys_state_scheme \<Rightarrow> bool" where
  "sys_post os owned sz alignment st r = (case r of (p, actual, st') \<Rightarrow>
     sys_frame st st' \<and> sys_inv os st' \<and> owned (os_st st) \<subseteq> owned (os_st st') \<and>
     (p \<noteq> 0 \<longrightarrow> fresh_block (owned (os_st st)) (owned (os_st st')) sz alignment p actual))"

lemma SysAllocator_Alloc_post:
  assumes "os_ok os owned" "0 < sz" "sz + 2 ^ k < 2 ^ 64" "pagesize st \<in> {0, os_getpagesize os}"
    "SysAllocator_Alloc os a sz act (2 ^ k) st = (p, act', st')"
  shows "alloc_step os owned st st' \<and>
    (p \<noteq> 0 \<longrightarrow> fresh_block (owned (os_st st)) (owned (os_st st')) sz (2 ^ k) p act')"
proof (cases a)
  case SbrkSysAllocator
  then have "Sbrk_Alloc os sz act (2 ^ k) st = (p, act', st')" using assms(5) by (simp add: SysAllocator_Alloc_def)
  then show ?thesis
    using assms(1) by (intro Sbrk_Alloc_post [OF _ assms(2,3)]) (simp_all add: os_ok_def)
next
  case MmapSysAllocator
  obtain g where "os_getpagesize os = 2 ^ g" "g \<le> 16" using assms(1) by (auto simp: os_ok_def)
  moreover have "Mmap_Alloc os sz act (2 ^ k) st = (p, act', st')"
    using assms(5) MmapSysAllocator by (simp add: SysAllocator_Alloc_def)
  ultimately show ?thesis
    using assms(1) by (intro Mmap_Alloc_post [OF _ _ _ _ assms(4,2,3)]) (simp_all add: os_ok_def)
qed

lemma Default_Alloc_loop_post:
  assumes "os_ok os owned" "0 < sz" "sz + 2 ^ k < 2 ^ 64" "sys_inv os st" "system_alloc_inited st"
    "Default_Alloc_loop os is sz act (2 ^ k) st = (p, act', st')"
  shows "sys_post os owned sz (2 ^ k) st (p, act', st') \<and> system_alloc_inited st'"
  using assms(4-6)
proof (induction "is" arbitrary: act st)
  case Nil
  then show ?case by (auto simp: sys_post_def sys_inv_def)
next
  case (Cons i "is")
  show ?case
  proof (cases "allocs st ! i = None \<or> failed st ! i")
    case True
    then have "Default_Alloc_loop os is sz act (2 ^ k) st = (p, act', st')"
      using Cons.prems(3) by (auto split: option.splits)
    then show ?thesis by (rule Cons.IH [OF Cons.prems(1,2)])
  next
    case False
    then obtain a where a: "allocs st ! i = Some a" "\<not> failed st ! i" by auto
    obtain q act1 st1 where r: "SysAllocator_Alloc os a sz act (2 ^ k) st = (q, act1, st1)"
      by (cases "SysAllocator_Alloc os a sz act (2 ^ k) st")
    have pg: "pagesize st \<in> {0, os_getpagesize os}" using Cons.prems(1) by (simp add: sys_inv_def)
    note post = SysAllocator_Alloc_post [OF assms(1-3) pg r]
    have inv1: "sys_inv os st1" "system_alloc_inited st1"
      using post Cons.prems(1,2) by (auto simp: alloc_step_def sys_inv_def)
    show ?thesis
    proof (cases "q = 0")
      case False
      then have "(p, act', st') = (q, act1, st1)" using Cons.prems(3) a r by simp
      then show ?thesis using post inv1 False by (simp add: sys_post_def alloc_step_def)
    next
      case True
      let ?st = "st1\<lparr>failed := (failed st1)[i := True]\<rparr>"
      have "sys_inv os ?st" "system_alloc_inited ?st" using inv1 by (auto simp: sys_inv_def)
      moreover have "Default_Alloc_loop os is sz act1 (2 ^ k) ?st = (p, act', st')"
        using Cons.prems(3) a r True by simp
      ultimately have IH: "sys_post os owned sz (2 ^ k) ?st (p, act', st') \<and> system_alloc_inited st'"
        by (rule Cons.IH)
      have "sys_frame st st1" "sys_frame ?st st'" using post IH by (auto simp: sys_post_def alloc_step_def)
      then have "sys_frame st st'" by (rule sys_frame_trans [OF _ sys_frame_trans [OF sys_frame_simps(4)]])
      then show ?thesis using post IH by (auto simp: sys_post_def alloc_step_def fresh_block_def)
    qed
  qed
qed

text \<open>The alignment that is in force: at least a cache line.\<close>

definition min_alignment :: "nat \<Rightarrow> nat" where
  "min_alignment alignment = (if alignment < sizeof_MemoryAligner then sizeof_MemoryAligner else alignment)"

lemma min_alignment_pow2:
  assumes "alignment = 0 \<or> alignment = 2 ^ a" "sz + sizeof_MemoryAligner < 2 ^ 64" "sz + alignment < 2 ^ 64"
  obtains k where "min_alignment alignment = 2 ^ k" "sz + 2 ^ k < 2 ^ 64" "alignment dvd 2 ^ k \<or> alignment = 0"
proof (cases "alignment < sizeof_MemoryAligner")
  case True
  have "alignment dvd 2 ^ 6 \<or> alignment = 0"
  proof (cases "alignment = 0")
    case False
    then have "(2::nat) ^ a < 2 ^ 6" using assms(1) True by (auto simp: sizeof_MemoryAligner_def)
    then have "a < 6" using power_less_imp_less_exp [of "2::nat" a 6] by simp
    then show ?thesis using assms(1) False le_imp_power_dvd [of a 6 "2::nat"] by auto
  qed simp
  then show ?thesis using that [of 6] True assms(2) by (simp add: min_alignment_def sizeof_MemoryAligner_def)
next
  case False
  then show ?thesis using that [of a] assms by (auto simp: min_alignment_def sizeof_MemoryAligner_def)
qed

lemma InitSystemAllocators_simps:
  "InitSystemAllocators st = st\<lparr>failed := [False, False], allocs := [Some SbrkSysAllocator, Some MmapSysAllocator]\<rparr>"
  by (simp add: InitSystemAllocators_def SetChildAllocator_def kMaxAllocators_def kDebugMode_def numeral_2_eq_2)

lemma TCMalloc_SystemAlloc_spec:
  assumes "os_ok os owned" "sys_inv os st" "0 < sz" "sz + sizeof_MemoryAligner < 2 ^ 64"
    "alignment = 0 \<or> alignment = 2 ^ a" "alignment < 2 ^ 64"
  shows "safe (\<lambda>(p, actual, st'). sys_frame st st' \<and> sys_inv os st' \<and>
           owned (os_st st) \<subseteq> owned (os_st st') \<and>
           (p \<noteq> 0 \<longrightarrow> fresh_block (owned (os_st st)) (owned (os_st st')) sz (min_alignment alignment) p actual \<and>
                      p + actual \<le> 2 ^ kAddressBits))
         (TCMalloc_SystemAlloc os sz alignment st)"
proof (cases "wrap64 (sz + alignment) < sz")
  case True
  then show ?thesis using assms(2) by (simp add: TCMalloc_SystemAlloc_def)
next
  case False
  have no: "sz + alignment < 2 ^ 64"
  proof (rule ccontr)
    assume ge: "\<not> sz + alignment < 2 ^ 64"
    have "wrap64 (sz + alignment) = sz + alignment - 2 ^ 64"
      unfolding wrap64_def using ge assms(4,6) by (subst mod_if) auto
    then show False using False ge assms(6) by linarith
  qed
  obtain k where k: "min_alignment alignment = 2 ^ k" "sz + 2 ^ k < 2 ^ 64"
    using min_alignment_pow2 [OF assms(5,4) no] by blast
  define st0 where "st0 = (if \<not> system_alloc_inited st
      then (InitSystemAllocators st)\<lparr>system_alloc_inited := True\<rparr> else st)"
  have st0: "sys_frame st st0" "os_st st0 = os_st st" "sys_inv os st0" "system_alloc_inited st0"
    using assms(2) sys_frame_trans [OF sys_frame_simps(5) sys_frame_simps(7)]
    by (auto simp: st0_def InitSystemAllocators_simps sys_inv_def kMaxAllocators_def)
  obtain p act st1 where r: "Default_Alloc os sz 0 (2 ^ k) st0 = (p, act, st1)"
    by (cases "Default_Alloc os sz 0 (2 ^ k) st0")
  have post: "sys_post os owned sz (2 ^ k) st0 (p, act, st1)"
    using Default_Alloc_loop_post [OF assms(1,3) k(2) st0(3,4) r [unfolded Default_Alloc_def]] by simp
  let ?b = "CheckAddressBits kAddressBits (wrap64 (p + act + (2 ^ 64 - 1)))"
  let ?st = "st1\<lparr>TCMalloc_SystemTaken := wrap64 (TCMalloc_SystemTaken st1 + act)\<rparr>"
  have unf: "TCMalloc_SystemAlloc os sz alignment st =
      (if p \<noteq> 0 then if \<not> ?b then Inl Abort else Inr (p, act, ?st) else Inr (p, act, st1))"
    using False r k(1) unfolding TCMalloc_SystemAlloc_def min_alignment_def st0_def by (simp add: Let_def)
  have fr: "sys_frame st st1" "sys_frame st ?st"
    using st0(1) post by (auto simp: sys_post_def intro: sys_frame_trans)
  have hi: "p + act \<le> 2 ^ kAddressBits" if "p \<noteq> 0" ?b
  proof -
    have fb: "p + act < 2 ^ 64" "0 < p + act" using post that(1) by (auto simp: sys_post_def fresh_block_def)
    then have "p + act + (2 ^ 64 - 1) = (p + act - 1) + 2 ^ 64" by simp
    then have "wrap64 (p + act + (2 ^ 64 - 1)) = p + act - 1"
      unfolding wrap64_def using fb by (simp only: mod_add_self2) simp
    then have "(p + act - 1) div 2 ^ kAddressBits = 0"
      using that(2) by (auto simp: CheckAddressBits_def kAddressBits_def)
    then show ?thesis using fb(2) by (simp add: div_eq_0_iff)
  qed
  show ?thesis
    unfolding unf using post fr hi st0(2) k(1)
    by (auto simp: sys_post_def sys_inv_def fresh_block_def)
qed

text \<open>
  C9: whatever memory the process already owns, a block returned by \<open>TCMalloc_SystemAlloc\<close> is aligned
  as requested (and to a cache line), at least as large as requested, lies within the 48-bit address
  space, is owned by the process afterwards and has no byte in common with what it owned before; the
  process loses no memory, on failure either; and the call neither faults nor diverges.  This holds
  for the fallback from \<open>sbrk\<close> to \<open>mmap\<close> and for every way either of them can misalign or fail.
\<close>

theorem TCMalloc_SystemAlloc_fresh:
  assumes "os_ok os owned" "sys_inv os st" "0 < sz" "sz + sizeof_MemoryAligner < 2 ^ 64"
    "alignment = 0 \<or> alignment = 2 ^ a" "alignment < 2 ^ 64"
  shows "safe (\<lambda>(p, actual, st'). sys_frame st st' \<and> sys_inv os st' \<and>
           owned (os_st st) \<subseteq> owned (os_st st') \<and>
           (p \<noteq> 0 \<longrightarrow> fresh_block (owned (os_st st)) (owned (os_st st')) sz (min_alignment alignment) p actual \<and>
                      p + actual \<le> 2 ^ kAddressBits))
         (TCMalloc_SystemAlloc os sz alignment st)"
  by (rule TCMalloc_SystemAlloc_spec [OF assms])

text \<open>A small system: \<open>sbrk\<close> hands out consecutive addresses, \<open>mmap\<close> always fails.\<close>

definition brk_os :: "nat os" where
  "brk_os = \<lparr> os_sbrk = (\<lambda>n s. if n = 0 then (s + 1, s) else if s + 1 + n < 2 ^ 40 then (s + 1, s + n) else (minus1, s)),
     os_mmap = (\<lambda>n s. (minus1, s)), os_munmap = (\<lambda>p n s. s), os_madvise = (\<lambda>p n s. (MadviseOk, s)),
     os_getpagesize = 4096, os_retries = 0, os_munmap_fails = (\<lambda>p n s. False) \<rparr>"

definition brk_owned :: "nat \<Rightarrow> addr set" where "brk_owned s = {1..<min s (2 ^ 40) + 1}"

definition brk_state :: "nat sys_state" where
  "brk_state = \<lparr> os_st = 5000, pagesize = 0, FLAGS_malloc_skip_sbrk = False, FLAGS_malloc_skip_mmap = False,
     FLAGS_malloc_disable_memory_release = False, FLAGS_malloc_devmem_start = 0,
     system_alloc_inited = False, failed = [], allocs = [], TCMalloc_SystemTaken = 0 \<rparr>"

lemma brk_os_ok: "os_ok brk_os brk_owned"
proof -
  have "\<exists>k\<le>16. os_getpagesize brk_os = 2 ^ k" by (rule exI [of _ 12]) (simp add: brk_os_def)
  then show ?thesis
    by (auto simp: os_ok_def sbrk_ok_def mmap_ok_def munmap_ok_def madvise_ok_def brk_os_def brk_owned_def
        minus1_def split: if_splits)
qed

theorem TCMalloc_SystemAlloc_fresh_witness:
  "safe (\<lambda>(p, actual, st'). p \<noteq> 0 \<longrightarrow> 4096 dvd p \<and> 100 \<le> actual \<and> {p..<p + actual} \<inter> {1..<5001} = {})
     (TCMalloc_SystemAlloc brk_os 100 4096 brk_state)"
  by (rule safe_mono [OF TCMalloc_SystemAlloc_fresh [OF brk_os_ok, of _ _ _ 12]])
    (auto simp: brk_state_def sys_inv_def sizeof_MemoryAligner_def min_alignment_def fresh_block_def brk_owned_def)

section \<open>\<open>TCMalloc_SystemRelease\<close>\<close>

lemma clear_mask_pow2: "clear_mask (2 ^ g) x = x div 2 ^ g * 2 ^ g"
  unfolding clear_mask_def and_pow2 by (simp add: minus_mod_eq_div_mult)

lemma madvise_loop_returns:
  assumes "madvise_ok os owned"
    "k \<le> n" "fst (os_madvise os p len (((\<lambda>s. snd (os_madvise os p len s)) ^^ k) (os_st st))) \<noteq> MadviseAgain"
  shows "returns (\<lambda>(ok, st'). (\<exists>s. st' = st\<lparr>os_st := s\<rparr>) \<and> owned (os_st st') = owned (os_st st) \<and>
            (ok \<longrightarrow> (\<exists>s. fst (os_madvise os p len s) = MadviseOk))) (madvise_loop (Suc n) os p len st)"
  using assms(2,3)
proof (induction n arbitrary: k st)
  case 0
  obtain r s where rs: "os_madvise os p len (os_st st) = (r, s)" by (cases "os_madvise os p len (os_st st)")
  have ow: "owned s = owned (os_st st)" using assms(1) rs unfolding madvise_ok_def by (metis snd_conv)
  have "\<exists>s. fst (os_madvise os p len s) = r" using rs by (metis fst_conv)
  then show ?case using 0 rs ow by (cases r) auto
next
  case (Suc n)
  obtain r s where rs: "os_madvise os p len (os_st st) = (r, s)" by (cases "os_madvise os p len (os_st st)")
  have ow: "owned s = owned (os_st st)" using assms(1) rs unfolding madvise_ok_def by (metis snd_conv)
  have ex: "\<exists>s. fst (os_madvise os p len s) = r" using rs by (metis fst_conv)
  show ?case
  proof (cases r)
    case MadviseAgain
    then obtain k' where k': "k = Suc k'" using Suc.prems(2) rs by (cases k) auto
    have "returns (\<lambda>(ok, st'). (\<exists>t. st' = st\<lparr>os_st := s\<rparr>\<lparr>os_st := t\<rparr>) \<and> owned (os_st st') = owned (os_st (st\<lparr>os_st := s\<rparr>)) \<and>
            (ok \<longrightarrow> (\<exists>s. fst (os_madvise os p len s) = MadviseOk))) (madvise_loop (Suc n) os p len (st\<lparr>os_st := s\<rparr>))"
      using Suc.prems(1) Suc.prems(2) [unfolded k' funpow_Suc_right comp_apply rs snd_conv] k'
      by (intro Suc.IH [of k']) simp_all
    moreover have "madvise_loop (Suc (Suc n)) os p len st = madvise_loop (Suc n) os p len (st\<lparr>os_st := s\<rparr>)"
      unfolding madvise_loop.simps(2) [of "Suc n"] using rs MadviseAgain by simp
    ultimately show ?thesis using ow by (auto elim!: returns_mono simp del: madvise_loop.simps)
  qed (use ex ow rs in auto)
qed

lemma round_up_ge: "x \<le> (x + 2 ^ g - 1) div 2 ^ g * 2 ^ g" for x :: nat
proof -
  have "(x + 2 ^ g - 1) mod 2 ^ g < 2 ^ g" by simp
  then show ?thesis using div_mult_mod_eq [of "x + 2 ^ g - 1" "2 ^ g"] by linarith
qed

lemma round_page_le: "start \<le> x * 2 ^ g \<Longrightarrow> (start + 2 ^ g - 1) div 2 ^ g * 2 ^ g \<le> x * 2 ^ g" for x :: nat
proof -
  assume "start \<le> x * 2 ^ g"
  then have "(start + 2 ^ g - 1) div 2 ^ g \<le> (x * 2 ^ g + 2 ^ g - 1) div 2 ^ g" by (intro div_le_mono) linarith
  also have "\<dots> \<le> x"
  proof -
    have "0 < (2::nat) ^ g" by simp
    then have "x * 2 ^ g + 2 ^ g - 1 < (x + 1) * 2 ^ g" unfolding add_mult_distrib by linarith
    then have "(x * 2 ^ g + 2 ^ g - 1) div 2 ^ g < x + 1" by (rule less_mult_imp_div_less)
    then show ?thesis by simp
  qed
  finally show ?thesis by simp
qed

lemma round_page_ge: "y * 2 ^ g \<le> z \<Longrightarrow> y * 2 ^ g \<le> z div 2 ^ g * 2 ^ g" for y :: nat
proof -
  assume "y * 2 ^ g \<le> z"
  then have "y * 2 ^ g div 2 ^ g \<le> z div 2 ^ g" by (rule div_le_mono)
  then show ?thesis by simp
qed

text \<open>The pages that lie completely within an address range.\<close>

definition whole_pages :: "nat \<Rightarrow> nat \<Rightarrow> nat \<Rightarrow> nat \<Rightarrow> nat \<Rightarrow> bool" where
  "whole_pages pg start fin lo hi \<longleftrightarrow> start \<le> lo \<and> lo < hi \<and> hi \<le> fin \<and> pg dvd lo \<and> pg dvd hi \<and>
     (\<forall>x. start \<le> x * pg \<and> (x + 1) * pg \<le> fin \<longrightarrow> lo \<le> x * pg \<and> (x + 1) * pg \<le> hi)"

lemma madvise_loop_taken:
  "madvise_loop n os p len st = Inr (ok, st') \<Longrightarrow> TCMalloc_SystemTaken st' = TCMalloc_SystemTaken st"
proof (induction n arbitrary: st)
  case (Suc n)
  obtain r s where rs: "os_madvise os p len (os_st st) = (r, s)" by (cases "os_madvise os p len (os_st st)")
  then show ?case using Suc.prems Suc.IH [of "st\<lparr>os_st := s\<rparr>"] by (cases r) auto
qed simp

lemma TCMalloc_SystemRelease_taken:
  "TCMalloc_SystemRelease os p len st = Inr (ok, st') \<Longrightarrow> TCMalloc_SystemTaken st' = TCMalloc_SystemTaken st"
  by (auto simp: TCMalloc_SystemRelease_def Let_def get_pagesize_def simp del: madvise_loop.simps
      dest!: madvise_loop_taken split: if_splits)

lemma TCMalloc_SystemRelease_spec:
  assumes "os_ok os owned" "sys_inv os st" "madvise_answers os" "start + len + 2 ^ 16 < 2 ^ 64"
  shows "returns (\<lambda>(ok, st'). sys_frame st st' \<and> sys_inv os st' \<and> owned (os_st st') = owned (os_st st) \<and>
           (ok \<longrightarrow> (\<exists>lo hi s. whole_pages (os_getpagesize os) start (start + len) lo hi \<and>
                            fst (os_madvise os lo (hi - lo) s) = MadviseOk)))
         (TCMalloc_SystemRelease os start len st)"
proof (cases "FLAGS_malloc_devmem_start st \<noteq> 0 \<or> FLAGS_malloc_disable_memory_release st")
  case True
  then show ?thesis using assms(2) by (auto simp: TCMalloc_SystemRelease_def)
next
  case False
  obtain g where g: "os_getpagesize os = 2 ^ g" "g \<le> 16" using assms(1) by (auto simp: os_ok_def)
  have g16: "(2::nat) ^ g \<le> 2 ^ 16" using g(2) by (intro power_increasing) auto
  define st0 where "st0 = get_pagesize os st"
  have st0: "sys_frame st st0" "os_st st0 = os_st st" "pagesize st0 = 2 ^ g" "sys_inv os st0"
    using assms(2) g(1) by (auto simp: st0_def get_pagesize_def sys_inv_def)
  let ?lo = "(start + 2 ^ g - 1) div 2 ^ g * 2 ^ g" and ?hi = "(start + len) div 2 ^ g * 2 ^ g"
  have w: "wrap64 (start + len) = start + len" "wrap64 (start + 2 ^ g - 1) = start + 2 ^ g - 1"
    using assms(4) g16 by auto
  have unf: "TCMalloc_SystemRelease os start len st =
      (if ?hi > ?lo then madvise_loop (Suc (os_retries os)) os ?lo (?hi - ?lo) st0 else Inr (False, st0))"
    using False unfolding TCMalloc_SystemRelease_def
    by (simp add: Let_def st0_def [symmetric] st0(3) w clear_mask_pow2 del: madvise_loop.simps One_nat_def)
  show ?thesis
  proof (cases "?lo < ?hi")
    case True
    have lo: "start \<le> ?lo" by (rule round_up_ge)
    have hi: "?hi \<le> start + len" by (rule div_times_less_eq_dividend)
    have all: "?lo \<le> x * 2 ^ g \<and> (x + 1) * 2 ^ g \<le> ?hi" if "start \<le> x * 2 ^ g" "(x + 1) * 2 ^ g \<le> start + len" for x
      using round_page_le [of start x g] round_page_ge [of "x + 1" g "start + len"] that by blast
    have whole: "whole_pages (os_getpagesize os) start (start + len) ?lo ?hi"
      using lo hi all True by (auto simp: whole_pages_def g(1))
    obtain k where k: "k \<le> os_retries os"
        "fst (os_madvise os ?lo (?hi - ?lo) (((\<lambda>s. snd (os_madvise os ?lo (?hi - ?lo) s)) ^^ k) (os_st st0))) \<noteq> MadviseAgain"
      using assms(3) unfolding madvise_answers_def by blast
    have "madvise_ok os owned" using assms(1) by (simp add: os_ok_def)
    note returned = madvise_loop_returns [OF this k]
    show ?thesis
      unfolding unf if_P [OF True]
      by (rule returns_mono [OF returned])
        (use st0 whole in \<open>auto simp: sys_inv_def intro: sys_frame_trans\<close>)
  next
    case False
    then show ?thesis unfolding unf using st0 by simp
  qed
qed



text \<open>
  The overflow check of \<open>TCMalloc_SystemAlloc\<close> is made with the alignment of the caller, before it is
  raised to a cache line: for a size within 64 bytes of \<open>2 ^ 64\<close> the rounded size wraps around to 0.
\<close>

lemma round_to_wraps:
  "\<not> wrap64 (2 ^ 64 - 10 + 8) < 2 ^ 64 - 10" "round_to (2 ^ 64 - 10) sizeof_MemoryAligner = 0"
  by (simp_all add: wrap64_def round_to_def sizeof_MemoryAligner_def)

end
