(* ===== verification/Meta_Alloc.thy ===== *)
theory Meta_Alloc
  imports System_Alloc_Correct Linked_List
begin

text \<open>
  Memory for the allocator's own data: \<open>MetaDataAlloc\<close> (\<open>common.cc\<close>), which carves small blocks out of
  chunks from the system, and \<open>PageHeapAllocator\<close> (\<open>page_heap_allocator.h\<close>), which hands out objects
  of one type.  The record \<open>meta_state\<close> extends the state of \<open>system-alloc.cc\<close>.  The first word of a
  deleted object links it to the next one; these words are the memory \<open>links\<close>.

  The locale \<open>object_allocator\<close> is what the users of an allocator rely on.
\<close>

unbundle bit_operations_syntax

section \<open>\<open>MetaDataAlloc\<close>\<close>

record 'o meta_state = "'o sys_state" +
  metadata_system_bytes :: nat
  metadata_chunk_alloc :: addr
  metadata_chunk_avail :: nat

definition kMetadataAllocChunkSize :: nat where "kMetadataAllocChunkSize = 8 * 1024 * 1024"
definition kMetadataAllignment :: nat where "kMetadataAllignment = 8"

definition MetaDataAlloc ::
  "'o os \<Rightarrow> nat \<Rightarrow> ('o, 'z) meta_state_scheme \<Rightarrow> (addr \<times> ('o, 'z) meta_state_scheme) res" where
  "MetaDataAlloc os bytes st =
     (if bytes \<ge> kMetadataAllocChunkSize then
        bind_res (TCMalloc_SystemAlloc os bytes kMetadataAllignment st) (\<lambda>(rv, _, st).
        Inr (rv, if rv \<noteq> 0
                 then st\<lparr>metadata_system_bytes := wrap64 (metadata_system_bytes st + bytes)\<rparr> else st))
      else
        let alignment = wrap64 (2 ^ 64 - metadata_chunk_alloc st) AND (kMetadataAllignment - 1)
        in bind_res
             (if metadata_chunk_avail st < bytes + alignment then
                bind_res (TCMalloc_SystemAlloc os kMetadataAllocChunkSize kMetadataAllignment st)
                  (\<lambda>(ptr, real_size, st).
                  if ptr = 0 then Inr (False, 0, st)
                  else Inr (True, 0, st\<lparr>metadata_chunk_alloc := ptr, metadata_chunk_avail := real_size\<rparr>))
              else Inr (True, alignment, st)) (\<lambda>(ok, alignment, st).
           if \<not> ok then Inr (0, st)
           else let rv = metadata_chunk_alloc st + alignment; bytes = bytes + alignment
                in Inr (rv, st\<lparr>metadata_chunk_alloc := metadata_chunk_alloc st + bytes,
                               metadata_chunk_avail := metadata_chunk_avail st - bytes,
                               metadata_system_bytes := wrap64 (metadata_system_bytes st + bytes)\<rparr>)))"

section \<open>\<open>PageHeapAllocator\<close>\<close>

record PageHeapAllocator =
  free_area :: addr
  free_avail :: nat
  free_list :: addr
  inuse :: int

definition kAllocIncrement :: nat where "kAllocIncrement = 128 * 2 ^ 10"

text \<open>The argument \<open>sz\<close> is \<open>sizeof(T)\<close>.\<close>

definition PHA_New ::
  "'o os \<Rightarrow> nat \<Rightarrow> PageHeapAllocator \<Rightarrow> mem \<Rightarrow> ('o, 'z) meta_state_scheme \<Rightarrow>
   (addr \<times> PageHeapAllocator \<times> ('o, 'z) meta_state_scheme) res" where
  "PHA_New os sz a links st =
     (if free_list a \<noteq> 0 then
        bind_res (SLL_Pop links (free_list a)) (\<lambda>(result, fl).
        Inr (result, a\<lparr>free_list := fl, inuse := to_int32 (inuse a + 1)\<rparr>, st))
      else
        bind_res
          (if free_avail a < sz then
             bind_res (MetaDataAlloc os kAllocIncrement st) (\<lambda>(p, st).
             if p = 0 then Inl Abort
             else Inr (a\<lparr>free_area := p, free_avail := kAllocIncrement\<rparr>, st))
           else Inr (a, st)) (\<lambda>(a, st).
        let result = free_area a
        in Inr (result, a\<lparr>free_area := free_area a + sz, free_avail := free_avail a - sz,
                          inuse := to_int32 (inuse a + 1)\<rparr>, st)))"

definition PHA_Delete :: "addr \<Rightarrow> PageHeapAllocator \<Rightarrow> mem \<Rightarrow> (PageHeapAllocator \<times> mem) res" where
  "PHA_Delete p a links =
     bind_res (SLL_Push links (free_list a) p) (\<lambda>(fl, links).
     Inr (a\<lparr>free_list := fl, inuse := to_int32 (inuse a - 1)\<rparr>, links))"

definition PHA_Init ::
  "'o os \<Rightarrow> nat \<Rightarrow> mem \<Rightarrow> ('o, 'z) meta_state_scheme \<Rightarrow>
   (PageHeapAllocator \<times> mem \<times> ('o, 'z) meta_state_scheme) res" where
  "PHA_Init os sz links st =
     bind_res (PHA_New os sz \<lparr> free_area = 0, free_avail = 0, free_list = 0, inuse = 0 \<rparr> links st)
       (\<lambda>(p, a, st).
     bind_res (PHA_Delete p a links) (\<lambda>(a, links). Inr (a, links, st)))"

section \<open>The metadata chunk\<close>

text \<open>
  \<open>used\<close> is the memory that is in use already: it stays untouched, and what is still free in the
  chunk has nothing in common with it.
\<close>

definition chunk :: "('o, 'z) meta_state_scheme \<Rightarrow> addr set" where
  "chunk st = {metadata_chunk_alloc st..<metadata_chunk_alloc st + metadata_chunk_avail st}"

definition meta_inv :: "'o os \<Rightarrow> ('o \<Rightarrow> addr set) \<Rightarrow> addr set \<Rightarrow> ('o, 'z) meta_state_scheme \<Rightarrow> bool" where
  "meta_inv os owned used st \<longleftrightarrow> os_ok os owned \<and> sys_inv os st \<and> used \<subseteq> owned (os_st st) \<and>
     chunk st \<subseteq> owned (os_st st) \<and> chunk st \<inter> used = {} \<and>
     metadata_chunk_alloc st + metadata_chunk_avail st \<le> 2 ^ kAddressBits"

text \<open>The variables of the components above are untouched.\<close>

definition meta_frame :: "('o, 'z) meta_state_scheme \<Rightarrow> ('o, 'z) meta_state_scheme \<Rightarrow> bool" where
  "meta_frame st st' \<longleftrightarrow> meta_state.more st' = meta_state.more st"

lemma meta_frame_refl [simp]: "meta_frame st st"
  by (simp add: meta_frame_def)

lemma meta_frame_trans: "meta_frame a b \<Longrightarrow> meta_frame b c \<Longrightarrow> meta_frame a c"
  by (simp add: meta_frame_def)

lemma sys_meta_frame: "sys_frame st st' \<Longrightarrow> meta_frame st st'"
  by (auto simp: sys_frame_def meta_frame_def)

lemma sys_frame_chunk:
  "sys_frame st st' \<Longrightarrow> metadata_chunk_alloc st' = metadata_chunk_alloc st \<and>
     metadata_chunk_avail st' = metadata_chunk_avail st \<and> chunk st' = chunk st"
  by (auto simp: sys_frame_def chunk_def)

definition meta_post ::
  "'o os \<Rightarrow> ('o \<Rightarrow> addr set) \<Rightarrow> addr set \<Rightarrow> nat \<Rightarrow> ('o, 'z) meta_state_scheme \<Rightarrow>
   addr \<times> ('o, 'z) meta_state_scheme \<Rightarrow> bool" where
  "meta_post os owned used bytes st r = (case r of (rv, st') \<Rightarrow>
     meta_frame st st' \<and> owned (os_st st) \<subseteq> owned (os_st st') \<and>
     (if rv = 0 then meta_inv os owned used st'
      else meta_inv os owned (used \<union> {rv..<rv + bytes}) st' \<and> {rv..<rv + bytes} \<inter> used = {} \<and>
           kMetadataAllignment dvd rv \<and> rv + bytes \<le> 2 ^ kAddressBits))"

lemma SystemAlloc_meta:
  assumes "meta_inv os owned used st" "0 < bytes" "bytes + 64 < 2 ^ 64"
  shows "safe (\<lambda>(p, actual, st'). sys_frame st st' \<and> meta_inv os owned used st' \<and> owned (os_st st) \<subseteq> owned (os_st st') \<and>
            (p \<noteq> 0 \<longrightarrow> kMetadataAllignment dvd p \<and> bytes \<le> actual \<and> p + actual \<le> 2 ^ kAddressBits \<and>
               {p..<p + actual} \<subseteq> owned (os_st st') \<and> {p..<p + actual} \<inter> (used \<union> chunk st) = {}))
         (TCMalloc_SystemAlloc os bytes kMetadataAllignment st)"
proof -
  have i: "os_ok os owned" "sys_inv os st" using assms(1) by (auto simp: meta_inv_def)
  show ?thesis
    by (rule safe_mono [OF TCMalloc_SystemAlloc_spec [OF i assms(2), of kMetadataAllignment 3]])
      (use assms in \<open>auto simp: sizeof_MemoryAligner_def kMetadataAllignment_def meta_inv_def min_alignment_def
        fresh_block_def sys_frame_chunk elim!: dvd_trans [rotated]\<close>)
qed

lemma meta_inv_use:
  assumes "meta_inv os owned used st" "blk \<subseteq> owned (os_st st)" "blk \<inter> chunk st = {}"
  shows "meta_inv os owned (used \<union> blk) (st\<lparr>metadata_system_bytes := b\<rparr>)"
  using assms unfolding meta_inv_def sys_inv_def chunk_def by (simp, blast)

lemma meta_inv_new_chunk:
  assumes "meta_inv os owned used st" "{p..<p + n} \<subseteq> owned (os_st st)" "{p..<p + n} \<inter> used = {}"
    "p + n \<le> 2 ^ kAddressBits"
  shows "meta_inv os owned used (st\<lparr>metadata_chunk_alloc := p, metadata_chunk_avail := n\<rparr>)"
  using assms unfolding meta_inv_def sys_inv_def chunk_def by simp

lemma meta_inv_carve:
  assumes "meta_inv os owned used st" "bytes + a \<le> metadata_chunk_avail st"
  defines "rv \<equiv> metadata_chunk_alloc st + a"
  shows "meta_inv os owned (used \<union> {rv..<rv + bytes})
      (st\<lparr>metadata_chunk_alloc := metadata_chunk_alloc st + (bytes + a),
         metadata_chunk_avail := metadata_chunk_avail st - (bytes + a), metadata_system_bytes := b\<rparr>)"
    and "{rv..<rv + bytes} \<inter> used = {}" "rv + bytes \<le> 2 ^ kAddressBits"
proof -
  let ?st = "st\<lparr>metadata_chunk_alloc := metadata_chunk_alloc st + (bytes + a),
         metadata_chunk_avail := metadata_chunk_avail st - (bytes + a), metadata_system_bytes := b\<rparr>"
  have blk: "{rv..<rv + bytes} \<subseteq> chunk st" and rest: "chunk ?st \<subseteq> chunk st - {rv..<rv + bytes}"
    using assms(2) by (auto simp: rv_def chunk_def)
  have c: "used \<subseteq> owned (os_st st)" "chunk st \<subseteq> owned (os_st st)" "chunk st \<inter> used = {}"
    using assms(1) by (auto simp: meta_inv_def)
  have "chunk ?st \<inter> (used \<union> {rv..<rv + bytes}) = {}" "used \<union> {rv..<rv + bytes} \<subseteq> owned (os_st st)"
      "chunk ?st \<subseteq> owned (os_st st)"
    using blk rest c by blast+
  then show "meta_inv os owned (used \<union> {rv..<rv + bytes}) ?st"
    using assms(1,2) unfolding meta_inv_def sys_inv_def by simp
  show "{rv..<rv + bytes} \<inter> used = {}" using blk c by blast
  show "rv + bytes \<le> 2 ^ kAddressBits" using assms(1,2) by (simp add: meta_inv_def rv_def)
qed

lemma pad_align:
  assumes "c < 2 ^ 64"
  shows "8 dvd c + (wrap64 (2 ^ 64 - c) AND (kMetadataAllignment - 1))"
proof -
  have k: "kMetadataAllignment - 1 = 2 ^ 3 - (1::nat)" by (simp add: kMetadataAllignment_def)
  have "wrap64 (2 ^ 64 - c) mod 2 ^ 3 = (2 ^ 64 - c) mod 2 ^ 3" by (simp add: wrap64_def mod_mod_cancel)
  then have "(c + wrap64 (2 ^ 64 - c) mod 2 ^ 3) mod 2 ^ 3 = (c + (2 ^ 64 - c)) mod (2 ^ 3 :: nat)"
    by (metis mod_add_right_eq)
  also have "\<dots> = 0" using assms by simp
  finally show ?thesis unfolding k and_pow2 by (simp add: dvd_eq_mod_eq_0)
qed

lemma MetaDataAlloc_meta:
  assumes inv: "meta_inv os owned used st" and b: "0 < bytes" "bytes + 64 < 2 ^ 64"
  shows "safe (meta_post os owned used bytes st) (MetaDataAlloc os bytes st)"
proof (cases "bytes \<ge> kMetadataAllocChunkSize")
  case True
  have "meta_post os owned used bytes st
        (p, if p \<noteq> 0 then st1\<lparr>metadata_system_bytes := wrap64 (metadata_system_bytes st1 + bytes)\<rparr> else st1)"
    if st1: "sys_frame st st1" "meta_inv os owned used st1" "owned (os_st st) \<subseteq> owned (os_st st1)"
      and blk: "p \<noteq> 0 \<longrightarrow> kMetadataAllignment dvd p \<and> bytes \<le> act \<and> p + act \<le> 2 ^ kAddressBits \<and>
        {p..<p + act} \<subseteq> owned (os_st st1) \<and> {p..<p + act} \<inter> (used \<union> chunk st) = {}" for p act st1
  proof (cases "p = 0")
    case True
    then show ?thesis using st1 by (simp add: meta_post_def sys_meta_frame)
  next
    case False
    then have sub: "{p..<p + bytes} \<subseteq> {p..<p + act}" using blk by auto
    have "chunk st1 = chunk st" using sys_frame_chunk [OF st1(1)] by simp
    then have "{p..<p + bytes} \<inter> chunk st1 = {}" "{p..<p + bytes} \<subseteq> owned (os_st st1)" "{p..<p + bytes} \<inter> used = {}"
      using blk sub False by blast+
    then show ?thesis
      using False st1 sys_meta_frame [OF st1(1)] blk meta_inv_use [OF st1(2)] by (simp add: meta_post_def meta_frame_def)
  qed
  then show ?thesis
    unfolding MetaDataAlloc_def if_P [OF True]
    by (intro safe_bind [OF SystemAlloc_meta [OF inv b]]) (clarify, simp only: safe_simps)
next
  case False
  let ?al = "wrap64 (2 ^ 64 - metadata_chunk_alloc st) AND (kMetadataAllignment - 1)"
  let ?P = "\<lambda>(ok, al, st1). meta_frame st st1 \<and> meta_inv os owned used st1 \<and> owned (os_st st) \<subseteq> owned (os_st st1) \<and>
      (ok \<longrightarrow> bytes + al \<le> metadata_chunk_avail st1 \<and> 8 dvd metadata_chunk_alloc st1 + al)"
  have kb: "(2::nat) ^ kAddressBits < 2 ^ 64" by (simp add: kAddressBits_def)
  have ck: "0 < kMetadataAllocChunkSize" "kMetadataAllocChunkSize + 64 < 2 ^ 64"
    by (simp_all add: kMetadataAllocChunkSize_def)
  have grow: "safe ?P (if metadata_chunk_avail st < bytes + ?al then
                bind_res (TCMalloc_SystemAlloc os kMetadataAllocChunkSize kMetadataAllignment st)
                  (\<lambda>(ptr, real_size, st).
                  if ptr = 0 then Inr (False, 0, st)
                  else Inr (True, 0, st\<lparr>metadata_chunk_alloc := ptr, metadata_chunk_avail := real_size\<rparr>))
              else Inr (True, ?al, st))"
  proof (cases "metadata_chunk_avail st < bytes + ?al")
    case True
    show ?thesis
      unfolding if_P [OF True]
    proof (rule safe_bind [OF SystemAlloc_meta [OF inv ck]], clarify)
      fix p act st1
      assume st1: "sys_frame st st1" "meta_inv os owned used st1" "owned (os_st st) \<subseteq> owned (os_st st1)"
        and blk: "p \<noteq> 0 \<longrightarrow> kMetadataAllignment dvd p \<and> kMetadataAllocChunkSize \<le> act \<and> p + act \<le> 2 ^ kAddressBits \<and>
          {p..<p + act} \<subseteq> owned (os_st st1) \<and> {p..<p + act} \<inter> (used \<union> chunk st) = {}"
      show "safe ?P (if p = 0 then Inr (False, 0, st1)
          else Inr (True, 0, st1\<lparr>metadata_chunk_alloc := p, metadata_chunk_avail := act\<rparr>))"
        using st1 blk False sys_meta_frame [OF st1(1)] meta_inv_new_chunk [OF st1(2), of p act]
        by (auto simp: meta_frame_def kMetadataAllignment_def)
    qed
  next
    case large: False
    have "metadata_chunk_alloc st < 2 ^ 64" using inv kb by (auto simp: meta_inv_def)
    then show ?thesis unfolding if_not_P [OF large] using inv large pad_align by auto
  qed
  have carve: "meta_post os owned used bytes st (metadata_chunk_alloc st1 + al,
        st1\<lparr>metadata_chunk_alloc := metadata_chunk_alloc st1 + (bytes + al),
            metadata_chunk_avail := metadata_chunk_avail st1 - (bytes + al),
            metadata_system_bytes := wrap64 (metadata_system_bytes st1 + (bytes + al))\<rparr>)"
    if "meta_frame st st1" "meta_inv os owned used st1" "owned (os_st st) \<subseteq> owned (os_st st1)"
      "bytes + al \<le> metadata_chunk_avail st1" "8 dvd metadata_chunk_alloc st1 + al" for al st1
  proof -
    have "metadata_chunk_alloc st1 + al \<in> owned (os_st st1)" "0 \<notin> owned (os_st st1)"
      using that(2,4) b(1) by (auto simp: meta_inv_def os_ok_def chunk_def)
    then show ?thesis
      using meta_inv_carve [OF that(2,4)] that by (auto simp: meta_post_def meta_frame_def kMetadataAllignment_def)
  qed
  show ?thesis
    unfolding MetaDataAlloc_def if_not_P [OF False] Let_def
    by (rule safe_bind [OF grow]) (auto intro: carve simp: meta_post_def [of _ _ _ _ _ "(0, _)"])
qed

end
