(* ===== verification/Object_Alloc.thy ===== *)
theory Object_Alloc
  imports Meta_Alloc "HOL-Library.Disjoint_Sets"
begin

text \<open>
  \<open>PageHeapAllocator\<close> hands out objects that do not overlap: the contract \<open>object_allocator\<close>, its
  proof for the allocator of \<open>page_heap_allocator.h\<close>, and the properties of \<open>MetaDataAlloc\<close> and of
  sequences of \<open>New\<close> and \<open>Delete\<close>.
\<close>

lemma distinct_remove_nth:
  assumes "distinct xs" "i < length xs"
  shows "set (take i xs @ drop (Suc i) xs) = set xs - {xs ! i}" "distinct (take i xs @ drop (Suc i) xs)"
proof -
  obtain ys x zs where xs: "take i xs = ys" "xs ! i = x" "drop (Suc i) xs = zs" "xs = ys @ x # zs"
    using take_drop_nth [OF assms(2)] by blast
  then show "set (take i xs @ drop (Suc i) xs) = set xs - {xs ! i}" "distinct (take i xs @ drop (Suc i) xs)"
    using assms(1) by (auto simp: xs(1-3))
qed

section \<open>The contract of an object allocator\<close>

text \<open>
  \<open>inv live s\<close>: the objects in \<open>live\<close> have been handed out and not deleted since.  \<open>new\<close> may also give
  up when there is no memory at all.
\<close>

locale object_allocator =
  fixes sz :: nat
    and new :: "'s \<Rightarrow> (addr \<times> 's) res"
    and delete :: "addr \<Rightarrow> 's \<Rightarrow> 's res"
    and inv :: "addr set \<Rightarrow> 's \<Rightarrow> bool"
  assumes inv_separate: "inv live s \<Longrightarrow> disjoint_family_on (\<lambda>p. {p..<p + sz}) live \<and> 0 \<notin> live"
    and new_fresh: "inv live s \<Longrightarrow> safe (\<lambda>(p, s'). p \<notin> live \<and> inv (insert p live) s') (new s)"
    and delete_live: "inv live s \<Longrightarrow> p \<in> live \<Longrightarrow> returns (inv (live - {p})) (delete p s)"
begin

text \<open>Any sequence of requests; \<open>None\<close> asks for an object, \<open>Some i\<close> deletes the \<open>i\<close>-th oldest live one.\<close>

fun run :: "nat option list \<Rightarrow> addr list \<Rightarrow> 's \<Rightarrow> (addr list \<times> 's) res" where
  "run [] live s = Inr (live, s)"
| "run (None # rs) live s = bind_res (new s) (\<lambda>(p, s). run rs (live @ [p]) s)"
| "run (Some i # rs) live s =
     (if i < length live
      then bind_res (delete (live ! i) s) (\<lambda>s. run rs (take i live @ drop (Suc i) live) s)
      else run rs live s)"

lemma run_inv:
  assumes "inv (set live) s" "distinct live"
  shows "safe (\<lambda>(live', s'). inv (set live') s' \<and> distinct live') (run rs live s)"
  using assms
proof (induction rs arbitrary: live s)
  case (Cons r rs)
  show ?case
  proof (cases r)
    case None
    then show ?thesis
      using Cons.prems by (auto intro!: safe_bind [OF new_fresh [OF Cons.prems(1)]] Cons.IH)
  next
    case (Some i)
    show ?thesis
    proof (cases "i < length live")
      case True
      note split = distinct_remove_nth [OF Cons.prems(2) True]
      show ?thesis
        unfolding Some run.simps if_P [OF True]
        by (rule safe_bind [OF returns_safe [OF delete_live [OF Cons.prems(1)]]])
          (use True split Cons.IH in auto)
    next
      case False
      then show ?thesis using Some Cons by simp
    qed
  qed
qed simp

end

section \<open>\<open>PageHeapAllocator\<close> keeps the contract\<close>

definition block :: "nat \<Rightarrow> addr \<Rightarrow> addr set" where "block sz p = {p..<p + sz}"

definition area :: "PageHeapAllocator \<Rightarrow> addr set" where
  "area a = {free_area a..<free_area a + free_avail a}"

definition pha_objects :: "nat \<Rightarrow> addr set \<Rightarrow> addr list \<Rightarrow> PageHeapAllocator \<Rightarrow> addr set \<Rightarrow> bool" where
  "pha_objects sz live fl a used \<longleftrightarrow> set fl \<inter> live = {} \<and> disjoint_family_on (block sz) (set fl \<union> live) \<and>
     (\<forall>p\<in>set fl \<union> live. p \<noteq> 0 \<and> block sz p \<subseteq> used \<and> block sz p \<inter> area a = {}) \<and> area a \<subseteq> used"

definition pha_inv ::
  "'o os \<Rightarrow> ('o \<Rightarrow> addr set) \<Rightarrow> nat \<Rightarrow> addr set \<Rightarrow> PageHeapAllocator \<times> mem \<times> ('o, 'z) meta_state_scheme \<Rightarrow> bool" where
  "pha_inv os owned sz live s = (case s of (a, links, st) \<Rightarrow> 0 < sz \<and> sz \<le> kAllocIncrement \<and>
     (\<exists>fl used. sll links (free_list a) fl \<and> pha_objects sz live fl a used \<and> meta_inv os owned used st))"

definition pha_new where
  "pha_new os sz s = (case s of (a, links, st) \<Rightarrow>
     bind_res (PHA_New os sz a links st) (\<lambda>(p, a, st). Inr (p, (a, links, st))))"

definition pha_delete where
  "pha_delete p s = (case s of (a, links, st) \<Rightarrow>
     bind_res (PHA_Delete p a links) (\<lambda>(a, links). Inr (a, links, st)))"

lemma pha_objects_pop:
  "pha_objects sz live (p # fl) a used \<Longrightarrow> p \<notin> set fl \<Longrightarrow>
    p \<notin> live \<and> pha_objects sz (insert p live) fl (a\<lparr>free_list := q, inuse := n\<rparr>) used"
  by (auto simp: pha_objects_def area_def)

lemma pha_objects_push:
  "pha_objects sz live fl a used \<Longrightarrow> p \<in> live \<Longrightarrow>
    pha_objects sz (live - {p}) (p # fl) (a\<lparr>free_list := q, inuse := n\<rparr>) used"
  by (auto simp: pha_objects_def area_def insert_absorb disjoint_family_on_def)

lemma pha_objects_area:
  assumes "pha_objects sz live fl a used" "blk \<inter> used = {}" "blk = {q..<q + n}"
  shows "pha_objects sz live fl (a\<lparr>free_area := q, free_avail := n\<rparr>) (used \<union> blk)"
  using assms by (auto simp: pha_objects_def area_def)

lemma pha_objects_carve:
  assumes "pha_objects sz live fl a used" "sz \<le> free_avail a" "0 < sz" "0 \<notin> used"
  shows "free_area a \<notin> live \<and> pha_objects sz (insert (free_area a) live) fl
      (a\<lparr>free_area := free_area a + sz, free_avail := free_avail a - sz, inuse := n\<rparr>) used"
proof -
  let ?p = "free_area a" and ?a = "a\<lparr>free_area := free_area a + sz, free_avail := free_avail a - sz, inuse := n\<rparr>"
  have ar: "block sz ?p \<subseteq> area a" "area ?a \<subseteq> area a" "block sz ?p \<inter> area ?a = {}" "?p \<in> block sz ?p"
    using assms(2,3) by (auto simp: block_def area_def)
  have o: "\<And>p. p \<in> set fl \<union> live \<Longrightarrow> p \<noteq> 0 \<and> block sz p \<subseteq> used \<and> block sz p \<inter> area a = {} \<and> p \<in> block sz p"
      "area a \<subseteq> used" "disjoint_family_on (block sz) (set fl \<union> live)" "set fl \<inter> live = {}"
    using assms(1,3) by (auto simp: pha_objects_def block_def)
  have nin: "?p \<notin> set fl \<union> live" using o(1) ar(1,4) by blast
  have "block sz ?p \<inter> (\<Union>p\<in>set fl \<union> live. block sz p) = {}" using o(1) ar(1) by blast
  then have dis: "disjoint_family_on (block sz) (insert ?p (set fl \<union> live))"
    using disjoint_family_on_insert [OF nin, of "block sz"] o(3) by blast
  have "?p \<noteq> 0" using ar(1,4) o(2) assms(4) by (metis subsetD)
  then have "\<forall>p\<in>insert ?p (set fl \<union> live). p \<noteq> 0 \<and> block sz p \<subseteq> used \<and> block sz p \<inter> area ?a = {}"
    using o(1,2) ar by blast
  then show ?thesis
    using dis o(2,4) ar(2) nin unfolding pha_objects_def by auto
qed

definition pha_new_post where
  "pha_new_post os owned sz live links st r = (case r of (p, a1, st1) \<Rightarrow>
     p \<notin> live \<and> pha_inv os owned sz (insert p live) (a1, links, st1) \<and> meta_frame st st1 \<and>
     owned (os_st st) \<subseteq> owned (os_st st1))"

lemma PHA_New_post:
  assumes "pha_inv os owned sz live (a, links, st)"
  shows "safe (pha_new_post os owned sz live links st) (PHA_New os sz a links st)"
proof -
  obtain fl used where i: "0 < sz" "sz \<le> kAllocIncrement" "sll links (free_list a) fl"
      "pha_objects sz live fl a used" "meta_inv os owned used st"
    using assms by (auto simp: pha_inv_def)
  show ?thesis
  proof (cases "free_list a = 0")
    case False
    then obtain fl' where fl: "fl = free_list a # fl'" "sll links (links (free_list a)) fl'"
      using i(3) by (auto simp: sll_not_NULL)
    have "free_list a \<notin> set fl'" using sll_distinct [OF i(3)] fl(1) by simp
    then show ?thesis
      using False i fl pha_objects_pop [of sz live "free_list a" fl' a used]
      by (auto simp: PHA_New_def SLL_Pop_def SLL_Next_def pha_inv_def pha_new_post_def)
  next
    case True
    then have fl: "fl = []" using i(3) by simp
    have zero: "0 \<notin> used" if "meta_inv os owned used st'" for used st'
      using that by (auto simp: meta_inv_def os_ok_def)
    let ?P = "\<lambda>(a1, st1). free_list a1 = 0 \<and> sz \<le> free_avail a1 \<and> meta_frame st st1 \<and> owned (os_st st) \<subseteq> owned (os_st st1) \<and>
      (\<exists>used. pha_objects sz live fl a1 used \<and> meta_inv os owned used st1)"
    have k: "0 < kAllocIncrement" "kAllocIncrement + 64 < 2 ^ 64" by (simp_all add: kAllocIncrement_def)
    have grow: "safe ?P (if free_avail a < sz then
             bind_res (MetaDataAlloc os kAllocIncrement st) (\<lambda>(p, st).
             if p = 0 then Inl Abort
             else Inr (a\<lparr>free_area := p, free_avail := kAllocIncrement\<rparr>, st))
           else Inr (a, st))"
    proof (cases "free_avail a < sz")
      case True
      have new: "?P (a\<lparr>free_area := p, free_avail := kAllocIncrement\<rparr>, st1)"
        if "meta_post os owned used kAllocIncrement st (p, st1)" "p \<noteq> 0" for p st1
        using that pha_objects_area [OF i(4) _ refl, of p kAllocIncrement] i(2) \<open>free_list a = 0\<close>
        by (auto simp: meta_post_def)
      show ?thesis
        unfolding if_P [OF True]
        by (rule safe_bind [OF MetaDataAlloc_meta [OF i(5) k]]) (use new in auto)
    qed (use i True in auto)
    have nz: "\<not> free_list a \<noteq> 0" using True by simp
    have carve: "pha_new_post os owned sz live links st (free_area a1,
        a1\<lparr>free_area := free_area a1 + sz, free_avail := free_avail a1 - sz, inuse := n\<rparr>, st1)"
      if P: "?P (a1, st1)" for a1 n st1
    proof -
      obtain used where u: "pha_objects sz live fl a1 used" "meta_inv os owned used st1" using P by auto
      then show ?thesis
        using P pha_objects_carve [OF u(1) _ i(1) zero [OF u(2)]] i(1,2)
        by (auto simp: pha_inv_def fl pha_new_post_def)
    qed
    show ?thesis
      unfolding PHA_New_def Let_def if_not_P [OF nz]
    proof (rule safe_bind [OF grow])
      fix x assume x: "?P x"
      obtain a1 st1 where x1: "x = (a1, st1)" by (cases x)
      show "safe (pha_new_post os owned sz live links st)
          (case x of (a, st) \<Rightarrow> Inr (free_area a, a\<lparr>free_area := free_area a + sz, free_avail := free_avail a - sz,
             inuse := to_int32 (inuse a + 1)\<rparr>, st))"
        using carve [OF x [unfolded x1], of "to_int32 (inuse a1 + 1)"] by (simp add: x1)
    qed
  qed
qed

lemma pha_new_fresh:
  assumes "pha_inv os owned sz live s"
  shows "safe (\<lambda>(p, s'). p \<notin> live \<and> pha_inv os owned sz (insert p live) s') (pha_new os sz s)"
proof -
  obtain a links st where s: "s = (a, links, st)" by (cases s)
  show ?thesis
    unfolding pha_new_def s prod.case
    by (rule safe_bind [OF PHA_New_post [OF assms [unfolded s]]]) (auto simp: pha_new_post_def)
qed

lemma pha_delete_live:
  assumes "pha_inv os owned sz live s" "p \<in> live"
  shows "returns (pha_inv os owned sz (live - {p})) (pha_delete p s)"
proof -
  obtain a links st where s: "s = (a, links, st)" by (cases s)
  obtain fl used where i: "0 < sz" "sz \<le> kAllocIncrement" "sll links (free_list a) fl"
      "pha_objects sz live fl a used" "meta_inv os owned used st"
    using assms(1) by (auto simp: pha_inv_def s)
  have p: "p \<noteq> 0" "p \<notin> set fl" using i(4) assms(2) by (auto simp: pha_objects_def)
  have "sll (links(p := free_list a)) p (p # fl)" using i(3) p by simp
  then show ?thesis
    using i p pha_objects_push [OF i(4) assms(2)]
    by (auto simp: s pha_delete_def PHA_Delete_def SLL_Push_def SLL_SetNext_def pha_inv_def
        intro!: exI [of _ "p # fl"] exI [of _ used] simp del: fun_upd_apply)
qed

interpretation pha: object_allocator sz "pha_new os sz" pha_delete "pha_inv os owned sz" for sz os owned
proof
  fix live s
  assume "pha_inv os owned sz live s"
  then show "disjoint_family_on (\<lambda>p. {p..<p + sz}) live \<and> 0 \<notin> live"
    by (auto simp: pha_inv_def pha_objects_def block_def disjoint_family_on_def)
qed (rule pha_new_fresh pha_delete_live, assumption+)+

section \<open>Properties\<close>


definition brk_meta :: "nat meta_state" where
  "brk_meta = sys_state.extend brk_state
     \<lparr> metadata_system_bytes = 0, metadata_chunk_alloc = 0, metadata_chunk_avail = 0 \<rparr>"

lemma brk_meta_inv: "meta_inv brk_os brk_owned {} brk_meta"
  using brk_os_ok
  by (simp add: meta_inv_def brk_meta_def brk_state_def sys_state.defs meta_state.defs sys_inv_def chunk_def)


text \<open>
  Whatever sequence of \<open>New\<close> and \<open>Delete\<close> calls is made on a \<open>PageHeapAllocator\<close>, the objects that
  are live at any moment are distinct, not NULL and do not overlap, even though deleted objects are
  reused and linked through their own memory.
\<close>

lemma PageHeapAllocator_separate:
  assumes "pha_inv os owned sz (set live) s" "distinct live"
  shows "safe (\<lambda>(live', s'). distinct live' \<and> 0 \<notin> set live' \<and> disjoint_family_on (\<lambda>p. {p..<p + sz}) (set live') \<and>
            pha_inv os owned sz (set live') s') (pha.run os sz rs live s)"
  using pha.run_inv [OF assms] by (rule safe_mono) (auto dest: pha.inv_separate)

lemma PageHeapAllocator_separate_example:
  "safe (\<lambda>(live', s'). disjoint_family_on (\<lambda>p. {p..<p + 48}) (set live'))
     (pha.run brk_os 48 [None, None, Some 0, None] []
        (\<lparr> free_area = 0, free_avail = 0, free_list = 0, inuse = 0 \<rparr>, \<lambda>_. 0, brk_meta))"
  by (rule safe_mono [OF PageHeapAllocator_separate [where owned = brk_owned]])
    (use brk_meta_inv in \<open>auto simp: pha_inv_def pha_objects_def area_def kAllocIncrement_def disjoint_family_on_def
      intro!: exI [of _ "{}"]\<close>)

end
