(* ===== verification/Dll.thy ===== *)
theory Dll
  imports Tc_Prelude
begin

text \<open>
  Circular doubly linked lists with a sentinel, as a property of two link functions.  The lists of
  spans (\<open>span.cc\<close>) and the kernel-style lists of \<open>lmutility.h\<close> have this shape.
\<close>

text \<open>From \<open>a\<close> the forward links visit \<open>xs\<close> and reach \<open>b\<close>, and the backward links mirror them.\<close>

fun dseg :: "('n \<Rightarrow> 'n) \<Rightarrow> ('n \<Rightarrow> 'n) \<Rightarrow> 'n \<Rightarrow> 'n list \<Rightarrow> 'n \<Rightarrow> bool" where
  "dseg nx pv a [] b \<longleftrightarrow> nx a = b \<and> pv b = a"
| "dseg nx pv a (x # xs) b \<longleftrightarrow> nx a = x \<and> pv x = a \<and> dseg nx pv x xs b"

definition dlist :: "('n \<Rightarrow> 'n) \<Rightarrow> ('n \<Rightarrow> 'n) \<Rightarrow> 'n \<Rightarrow> 'n list \<Rightarrow> bool" where
  "dlist nx pv h xs \<longleftrightarrow> dseg nx pv h xs h \<and> distinct (h # xs)"

lemma dseg_append [simp]: "dseg nx pv a (xs @ y # ys) b \<longleftrightarrow> dseg nx pv a xs y \<and> dseg nx pv y ys b"
  by (induction xs arbitrary: a) auto

lemma dseg_next [simp]: "u \<noteq> a \<Longrightarrow> u \<notin> set xs \<Longrightarrow> dseg (nx(u := v)) pv a xs b = dseg nx pv a xs b"
  by (induction xs arbitrary: a) auto

lemma dseg_prev [simp]: "u \<noteq> b \<Longrightarrow> u \<notin> set xs \<Longrightarrow> dseg nx (pv(u := v)) a xs b = dseg nx pv a xs b"
  by (induction xs arbitrary: a) auto

lemma dseg_cong:
  "(\<And>x. x \<in> insert a (set xs) \<Longrightarrow> nx x = nx' x) \<Longrightarrow> (\<And>x. x \<in> insert b (set xs) \<Longrightarrow> pv x = pv' x) \<Longrightarrow>
   dseg nx pv a xs b = dseg nx' pv' a xs b"
  by (induction xs arbitrary: a) auto

lemma dlist_cong:
  "(\<And>x. x \<in> insert h (set xs) \<Longrightarrow> nx x = nx' x \<and> pv x = pv' x) \<Longrightarrow> dlist nx pv h xs = dlist nx' pv' h xs"
  unfolding dlist_def by (subst dseg_cong [of h xs nx nx' h pv pv']) auto

lemma dlist_init: "nx h = h \<Longrightarrow> pv h = h \<Longrightarrow> dlist nx pv h []"
  by (simp add: dlist_def)

lemma dseg_first: "dseg nx pv a xs b \<Longrightarrow> nx a = (case xs of [] \<Rightarrow> b | x # _ \<Rightarrow> x)"
  by (cases xs) auto

lemma dseg_last: "dseg nx pv a xs b \<Longrightarrow> pv b = (if xs = [] then a else last xs)"
  by (induction xs arbitrary: a) auto

lemma dlist_empty: "dlist nx pv h xs \<Longrightarrow> nx h = h \<longleftrightarrow> xs = []"
  by (cases xs) (auto simp: dlist_def)

lemma dlist_first: "dlist nx pv h (x # xs) \<Longrightarrow> nx h = x"
  by (simp add: dlist_def)

lemma dlist_last: "dlist nx pv h xs \<Longrightarrow> xs \<noteq> [] \<Longrightarrow> pv h = last xs"
  by (auto simp: dlist_def dest: dseg_last)

text \<open>Inserting \<open>x\<close> between \<open>h\<close> and its successor; the updates are those of \<open>DLL_Prepend\<close>.\<close>

lemma dlist_prepend:
  assumes "dlist nx pv h xs" "x \<notin> insert h (set xs)"
  shows "dlist (nx(x := nx h, h := x)) (pv(x := h, nx h := x)) h (x # xs)"
proof (cases xs)
  case Nil
  then show ?thesis using assms by (auto simp: dlist_def)
next
  case (Cons y ys)
  then show ?thesis using assms by (auto simp: dlist_def)
qed

text \<open>Inserting \<open>x\<close> between the predecessor of \<open>h\<close> and \<open>h\<close>.\<close>

lemma dlist_append:
  assumes "dlist nx pv h xs" "x \<notin> insert h (set xs)"
  shows "dlist (nx(x := h, pv h := x)) (pv(x := pv h, h := x)) h (xs @ [x])"
proof (cases xs rule: rev_cases)
  case Nil
  then show ?thesis using assms by (auto simp: dlist_def)
next
  case (snoc ys y)
  then show ?thesis using assms by (auto simp: dlist_def)
qed

text \<open>Unlinking \<open>x\<close>: only its neighbours are written.\<close>

lemma dlist_remove:
  assumes "dlist nx pv h (xs @ x # ys)"
  shows "dlist (nx(pv x := nx x)) (pv(nx x := pv x)) h (xs @ ys)"
    and "nx x \<in> insert h (set (xs @ ys))" "pv x \<in> insert h (set (xs @ ys))"
proof -
  have d: "dseg nx pv h xs x" "dseg nx pv x ys h" "distinct (h # xs @ x # ys)"
    using assms by (auto simp: dlist_def)
  have p: "pv x = (if xs = [] then h else last xs)" using dseg_last [OF d(1)] .
  have n: "nx x = (case ys of [] \<Rightarrow> h | y # _ \<Rightarrow> y)" using dseg_first [OF d(2)] .
  show "nx x \<in> insert h (set (xs @ ys))" using n by (cases ys) auto
  show "pv x \<in> insert h (set (xs @ ys))" using p by (auto simp: last_in_set)
  have "dseg (nx(pv x := nx x)) (pv(nx x := pv x)) h (xs @ ys) h"
  proof (cases ys)
    case Nil
    show ?thesis
    proof (cases xs rule: rev_cases)
      case Nil
      then show ?thesis using \<open>ys = []\<close> p n by simp
    next
      case (snoc zs z)
      then show ?thesis using \<open>ys = []\<close> p n d by auto
    qed
  next
    case (Cons y ys')
    show ?thesis
    proof (cases xs rule: rev_cases)
      case Nil
      then show ?thesis using Cons p n d by auto
    next
      case (snoc zs z)
      then show ?thesis using Cons p n d by auto
    qed
  qed
  then show "dlist (nx(pv x := nx x)) (pv(nx x := pv x)) h (xs @ ys)"
    using d(3) by (auto simp: dlist_def)
qed

text \<open>The links of a list stay within the list.\<close>

lemma dlist_closed:
  assumes "dlist nx pv h xs" "x \<in> insert h (set xs)"
  shows "nx x \<in> insert h (set xs)" "pv x \<in> insert h (set xs)"
proof -
  have "nx x \<in> insert h (set xs) \<and> pv x \<in> insert h (set xs)"
  proof (cases "x = h")
    case True
    have seg: "dseg nx pv h xs h" using assms(1) by (simp add: dlist_def)
    have "nx h \<in> insert h (set xs)" using dseg_first [OF seg] by (auto split: list.splits)
    moreover have "pv h \<in> insert h (set xs)" using dseg_last [OF seg] by auto
    ultimately show ?thesis unfolding True by simp
  next
    case False
    then obtain ys zs where xs: "xs = ys @ x # zs" using assms(2) by (auto dest: split_list)
    then show ?thesis using dlist_remove(2,3) [of nx pv h ys x zs] assms(1) by auto
  qed
  then show "nx x \<in> insert h (set xs)" "pv x \<in> insert h (set xs)" by auto
qed

end
