(* ===== verification/Span.thy ===== *)
theory Span
  imports Dll Linked_List
begin

text \<open>
  Spans and their doubly linked lists (\<open>span.h\<close>, \<open>span.cc\<close>).  A \<open>Span*\<close> is a value of type \<open>sptr\<close>: the
  address of a span object from the span allocator (\<open>Obj 0\<close> is NULL), or one of the sentinels that are
  embedded in other objects: \<open>free_[i].normal\<close> and \<open>free_[i].returned\<close> of the page heap, with index
  \<open>kMaxPages\<close> for \<open>large_\<close>, \<open>empty_\<close> and \<open>nonempty_\<close> of the central free list of a size class, and
  \<open>Static::sampled_objects_\<close>.  The
  store maps the pointers to the existing objects; dereferencing any other pointer is a fault.
\<close>

datatype sptr = Obj addr | NormalHd nat | ReturnedHd nat | EmptyHd nat | NonemptyHd nat | SampledHd

datatype span_location = IN_USE | ON_NORMAL_FREELIST | ON_RETURNED_FREELIST

record Span =
  start :: nat
  span_length :: nat
  nxt :: sptr
  prv :: sptr
  objects :: addr
  refcount :: nat
  sizeclass :: nat
  location :: span_location
  sample :: bool

type_synonym store = "sptr \<rightharpoonup> Span"

definition NULLspan :: sptr where "NULLspan = Obj 0"

definition sizeof_Span :: nat where "sizeof_Span = 48"

text \<open>A \<open>Span\<close> as \<open>NewSpan\<close> makes it: zeroed, then the start and the length are set.\<close>

definition new_span :: "nat \<Rightarrow> nat \<Rightarrow> Span" where
  "new_span p n = \<lparr> start = p, span_length = n, nxt = NULLspan, prv = NULLspan, objects = 0, refcount = 0,
     sizeclass = 0, location = IN_USE, sample = False \<rparr>"

section \<open>Access\<close>

definition deref :: "store \<Rightarrow> sptr \<Rightarrow> Span res" where
  "deref ss p = (case ss p of None \<Rightarrow> Inl Segv | Some s \<Rightarrow> Inr s)"

definition upd_span :: "sptr \<Rightarrow> (Span \<Rightarrow> Span) \<Rightarrow> store \<Rightarrow> store res" where
  "upd_span p f ss = bind_res (deref ss p) (\<lambda>s. Inr (ss(p \<mapsto> f s)))"

lemma deref_Some [simp]: "ss p = Some s \<Longrightarrow> deref ss p = Inr s"
  by (simp add: deref_def)

lemma upd_span_Some [simp]: "ss p = Some s \<Longrightarrow> upd_span p f ss = Inr (ss(p \<mapsto> f s))"
  by (simp add: upd_span_def)

section \<open>Lists of spans\<close>

definition DLL_Init :: "sptr \<Rightarrow> store \<Rightarrow> store res" where
  "DLL_Init list ss =
     bind_res (upd_span list (nxt_update (\<lambda>_. list)) ss) (\<lambda>ss.
     upd_span list (prv_update (\<lambda>_. list)) ss)"

definition DLL_Remove :: "sptr \<Rightarrow> store \<Rightarrow> store res" where
  "DLL_Remove sp ss =
     bind_res (deref ss sp) (\<lambda>s.
     bind_res (upd_span (prv s) (nxt_update (\<lambda>_. nxt s)) ss) (\<lambda>ss.
     bind_res (deref ss sp) (\<lambda>s.
     bind_res (upd_span (nxt s) (prv_update (\<lambda>_. prv s)) ss) (\<lambda>ss.
     bind_res (upd_span sp (prv_update (\<lambda>_. NULLspan)) ss) (\<lambda>ss.
     upd_span sp (nxt_update (\<lambda>_. NULLspan)) ss)))))"

definition DLL_IsEmpty :: "sptr \<Rightarrow> store \<Rightarrow> bool res" where
  "DLL_IsEmpty list ss = bind_res (deref ss list) (\<lambda>s. Inr (nxt s = list))"

definition DLL_Prepend :: "sptr \<Rightarrow> sptr \<Rightarrow> store \<Rightarrow> store res" where
  "DLL_Prepend list sp ss =
     bind_res (deref ss list) (\<lambda>l.
     bind_res (upd_span sp (nxt_update (\<lambda>_. nxt l)) ss) (\<lambda>ss.
     bind_res (upd_span sp (prv_update (\<lambda>_. list)) ss) (\<lambda>ss.
     bind_res (deref ss list) (\<lambda>l.
     bind_res (upd_span (nxt l) (prv_update (\<lambda>_. sp)) ss) (\<lambda>ss.
     upd_span list (nxt_update (\<lambda>_. sp)) ss)))))"

text \<open>
  The loops over a list (\<open>for (s = list->next; s != list; s = s->next)\<close>) as the list of the spans they
  visit.  On links that never lead back to \<open>list\<close> the loop does not end.
\<close>

partial_function (option) dll_walk :: "store \<Rightarrow> sptr \<Rightarrow> sptr \<Rightarrow> sptr list \<Rightarrow> sptr list res option" where
  "dll_walk ss list s acc =
     (if s = list then Some (Inr (rev acc))
      else case ss s of None \<Rightarrow> Some (Inl Segv)
           | Some x \<Rightarrow> dll_walk ss list (nxt x) (s # acc))"

definition dll_spans :: "sptr \<Rightarrow> store \<Rightarrow> sptr list res" where
  "dll_spans list ss =
     bind_res (deref ss list) (\<lambda>l.
     case dll_walk ss list (nxt l) [] of None \<Rightarrow> Inl Diverge | Some r \<Rightarrow> r)"

definition DLL_Length :: "sptr \<Rightarrow> store \<Rightarrow> int res" where
  "DLL_Length list ss = bind_res (dll_spans list ss) (\<lambda>xs. Inr (to_int32 (int (length xs))))"

section \<open>A family of lists in one store\<close>

definition lnext :: "store \<Rightarrow> sptr \<Rightarrow> sptr" where "lnext ss p = nxt (the (ss p))"
definition lprev :: "store \<Rightarrow> sptr \<Rightarrow> sptr" where "lprev ss p = prv (the (ss p))"

text \<open>The contents of a span apart from its links.\<close>

definition unlink :: "Span \<Rightarrow> Span" where "unlink s = s\<lparr>nxt := NULLspan, prv := NULLspan\<rparr>"

definition same_data :: "store \<Rightarrow> store \<Rightarrow> bool" where
  "same_data ss ss' \<longleftrightarrow> (\<forall>p. map_option unlink (ss p) = map_option unlink (ss' p))"

lemma same_data_refl [simp]: "same_data ss ss"
  by (simp add: same_data_def)

lemma same_data_trans: "same_data a b \<Longrightarrow> same_data b c \<Longrightarrow> same_data a c"
  by (simp add: same_data_def)

lemma same_data_dom: "same_data ss ss' \<Longrightarrow> dom ss' = dom ss"
  unfolding same_data_def dom_def by (metis (no_types, lifting) option.map_disc_iff)

lemma unlink_simps [simp]:
  "unlink (s\<lparr>nxt := a\<rparr>) = unlink s" "unlink (s\<lparr>prv := a\<rparr>) = unlink s"
  "start (unlink s) = start s" "span_length (unlink s) = span_length s" "location (unlink s) = location s"
  "sizeclass (unlink s) = sizeclass s" "objects (unlink s) = objects s" "refcount (unlink s) = refcount s"
  "sample (unlink s) = sample s"
  by (simp_all add: unlink_def)

text \<open>\<open>F h\<close> is the list with the sentinel \<open>h\<close>, for the sentinels in \<open>H\<close>.\<close>

definition lists_ok :: "store \<Rightarrow> sptr set \<Rightarrow> (sptr \<Rightarrow> sptr list) \<Rightarrow> bool" where
  "lists_ok ss H F \<longleftrightarrow>
     (\<forall>h\<in>H. dlist (lnext ss) (lprev ss) h (F h) \<and> insert h (set (F h)) \<subseteq> dom ss \<and> set (F h) \<inter> H = {}) \<and>
     (\<forall>h\<in>H. \<forall>h'\<in>H. h \<noteq> h' \<longrightarrow> set (F h) \<inter> set (F h') = {})"

lemma lists_okD:
  assumes "lists_ok ss H F" "h \<in> H"
  shows "dlist (lnext ss) (lprev ss) h (F h)" "insert h (set (F h)) \<subseteq> dom ss" "set (F h) \<inter> H = {}"
    "h' \<in> H \<Longrightarrow> h \<noteq> h' \<Longrightarrow> set (F h) \<inter> set (F h') = {}"
  using assms by (auto simp: lists_ok_def)

text \<open>Objects that are in no list may change, appear and disappear.\<close>

lemma lists_ok_cong:
  assumes "lists_ok ss H F"
    "\<And>h x. h \<in> H \<Longrightarrow> x \<in> insert h (set (F h)) \<Longrightarrow> x \<in> dom ss' \<and> lnext ss' x = lnext ss x \<and> lprev ss' x = lprev ss x"
  shows "lists_ok ss' H F"
proof -
  have "dlist (lnext ss') (lprev ss') h (F h)" if "h \<in> H" for h
    using lists_okD(1) [OF assms(1) that] assms(2) [OF that]
    by (subst dlist_cong [of h "F h" "lnext ss'" "lnext ss" "lprev ss'" "lprev ss"]) auto
  then show ?thesis using assms by (auto simp: lists_ok_def)
qed

lemma lists_ok_upd_data:
  assumes "lists_ok ss H F" "ss p = Some s" "nxt s' = nxt s" "prv s' = prv s"
  shows "lists_ok (ss(p \<mapsto> s')) H F"
  using assms by (intro lists_ok_cong [OF assms(1)]) (auto simp: lnext_def lprev_def lists_ok_def)

lemma lists_ok_upd_other:
  assumes "lists_ok ss H F" "p \<notin> H" "\<And>h. h \<in> H \<Longrightarrow> p \<notin> set (F h)"
  shows "lists_ok (ss(p := x)) H F"
  using assms by (intro lists_ok_cong [OF assms(1)]) (auto simp: lnext_def lprev_def lists_ok_def)

text \<open>Changing one list of the family.\<close>

lemma lists_ok_change:
  assumes ok: "lists_ok ss H F" and h: "h \<in> H"
    and l: "dlist (lnext ss') (lprev ss') h xs" "set xs \<subseteq> insert x (set (F h))" "dom ss' = dom ss"
    and x: "x \<in> dom ss" "x \<notin> H" "\<And>h'. h' \<in> H \<Longrightarrow> h' \<noteq> h \<Longrightarrow> x \<notin> set (F h')"
    and same: "\<And>y. y \<notin> insert h (insert x (set (F h))) \<Longrightarrow> lnext ss' y = lnext ss y \<and> lprev ss' y = lprev ss y"
  shows "lists_ok ss' H (F(h := xs))"
proof -
  note d = lists_okD [OF ok]
  have oth: "dlist (lnext ss') (lprev ss') h' (F h')" if h': "h' \<in> H" "h' \<noteq> h" for h'
  proof (subst dlist_cong [of h' "F h'" "lnext ss'" "lnext ss" "lprev ss'" "lprev ss"])
    fix y assume "y \<in> insert h' (set (F h'))"
    then have "y \<notin> insert h (insert x (set (F h)))"
      using d(3) [OF h] d(3) [OF h'(1)] d(4) [OF h h'(1)] x(2,3) h h' by auto
    then show "lnext ss' y = lnext ss y \<and> lprev ss' y = lprev ss y" by (rule same)
  qed (rule d(1) [OF h'(1)])
  have xs: "insert h (set xs) \<subseteq> dom ss'" "set xs \<inter> H = {}"
    using d(2,3) [OF h] l(2,3) x(1,2) by auto
  have dis: "set xs \<inter> set (F h') = {}" if "h' \<in> H" "h' \<noteq> h" for h'
    using d(4) [OF h that(1)] that x(3) l(2) by auto
  show ?thesis
    unfolding lists_ok_def
    using oth l(1,3) xs dis d by (auto simp: Int_commute)
qed

lemma DLL_Prepend_lists:
  assumes ok: "lists_ok ss H F" and h: "h \<in> H" and x: "x \<in> dom ss" "x \<notin> H" "\<And>h. h \<in> H \<Longrightarrow> x \<notin> set (F h)"
  shows "returns (\<lambda>ss'. lists_ok ss' H (F(h := x # F h)) \<and> same_data ss ss') (DLL_Prepend h x ss)"
proof -
  note d = lists_okD [OF ok h]
  obtain l sx where s: "ss h = Some l" "ss x = Some sx" using d(2) x(1) by auto
  have xh: "x \<noteq> h" using x(2) h by blast
  have "lnext ss h \<in> insert h (set (F h))" by (rule dlist_closed(1) [OF d(1)]) simp
  then have n: "nxt l \<in> insert h (set (F h))" by (simp add: lnext_def s)
  then obtain sn where sn: "ss (nxt l) = Some sn" using d(2) by blast
  have xn: "x \<noteq> nxt l" using n x(3) [OF h] xh by auto
  let ?ss = "if nxt l = h then ss(x \<mapsto> sx\<lparr>nxt := nxt l, prv := h\<rparr>, h \<mapsto> l\<lparr>prv := x, nxt := x\<rparr>)
    else ss(x \<mapsto> sx\<lparr>nxt := nxt l, prv := h\<rparr>, nxt l \<mapsto> sn\<lparr>prv := x\<rparr>, h \<mapsto> l\<lparr>nxt := x\<rparr>)"
  have run: "DLL_Prepend h x ss = Inr ?ss"
    using s sn xh xn by (auto simp: DLL_Prepend_def)
  have data: "same_data ss ?ss" using s sn xh xn by (auto simp: same_data_def)
  have links: "lnext ?ss = (lnext ss)(x := lnext ss h, h := x)" "lprev ?ss = (lprev ss)(x := h, lnext ss h := x)"
    using s sn xh xn by (auto simp: lnext_def lprev_def fun_eq_iff)
  have "dlist (lnext ?ss) (lprev ?ss) h (x # F h)"
    unfolding links using d(1) x(3) [OF h] xh by (intro dlist_prepend) auto
  then have "lists_ok ?ss H (F(h := x # F h))"
  proof (rule lists_ok_change [OF ok h _ _ same_data_dom [OF data] x(1,2)])
    fix y assume "y \<notin> insert h (insert x (set (F h)))"
    then show "lnext ?ss y = lnext ss y \<and> lprev ?ss y = lprev ss y"
      unfolding links using n by (auto simp: lnext_def s)
  qed (use x(3) in auto)
  then show ?thesis using run data by simp
qed

lemma DLL_Remove_lists:
  assumes ok: "lists_ok ss H F" and h: "h \<in> H" and x: "F h = xs @ x # ys"
  shows "returns (\<lambda>ss'. lists_ok ss' H (F(h := xs @ ys)) \<and> same_data ss ss') (DLL_Remove x ss)"
proof -
  note d = lists_okD [OF ok h]
  have dl: "dlist (lnext ss) (lprev ss) h (xs @ x # ys)" using d(1) x by simp
  have dist: "distinct (h # xs @ x # ys)" using dl by (simp add: dlist_def)
  obtain s where s: "ss x = Some s" using d(2) x by auto
  note rm = dlist_remove [OF dl]
  have in_p: "prv s \<in> insert h (set (xs @ ys))" using rm(3) by (simp add: lprev_def s)
  have in_n: "nxt s \<in> insert h (set (xs @ ys))" using rm(2) by (simp add: lnext_def s)
  have "insert h (set (xs @ ys)) \<subseteq> dom ss" using d(2) x by auto
  then obtain sp sn where p: "ss (prv s) = Some sp" and n: "ss (nxt s) = Some sn"
    using in_p in_n by (meson domD subsetD)
  have ne: "prv s \<noteq> x" "nxt s \<noteq> x" using in_p in_n dist by auto
  let ?ss = "if prv s = nxt s then ss(prv s \<mapsto> sp\<lparr>nxt := nxt s, prv := prv s\<rparr>, x \<mapsto> s\<lparr>prv := NULLspan, nxt := NULLspan\<rparr>)
    else ss(prv s \<mapsto> sp\<lparr>nxt := nxt s\<rparr>, nxt s \<mapsto> sn\<lparr>prv := prv s\<rparr>, x \<mapsto> s\<lparr>prv := NULLspan, nxt := NULLspan\<rparr>)"
  have run: "DLL_Remove x ss = Inr ?ss"
    using s p n ne by (auto simp: DLL_Remove_def)
  have data: "same_data ss ?ss" using s p n ne by (auto simp: same_data_def)
  have links: "lnext ?ss = (lnext ss)(lprev ss x := lnext ss x, x := NULLspan)"
      "lprev ?ss = (lprev ss)(lnext ss x := lprev ss x, x := NULLspan)"
    using s p n ne by (auto simp: lnext_def lprev_def fun_eq_iff)
  have "dlist (lnext ?ss) (lprev ?ss) h (xs @ ys)"
    using rm(1) dist unfolding links
    by (subst dlist_cong [of h "xs @ ys" _ "(lnext ss)(lprev ss x := lnext ss x)" _ "(lprev ss)(lnext ss x := lprev ss x)"]) auto
  then have "lists_ok ?ss H (F(h := xs @ ys))"
  proof (rule lists_ok_change [OF ok h _ _ same_data_dom [OF data]])
    show "x \<in> dom ss" using s by blast
    show "x \<notin> H" using d(3) x by auto
    show "x \<notin> set (F h')" if "h' \<in> H" "h' \<noteq> h" for h' using d(4) [OF that(1)] that(2) x by auto
    fix y assume "y \<notin> insert h (insert x (set (F h)))"
    then show "lnext ?ss y = lnext ss y \<and> lprev ?ss y = lprev ss y"
      unfolding links using in_p in_n x by (auto simp: lnext_def lprev_def s)
  qed (use x in auto)
  then show ?thesis using run data by simp
qed

lemma DLL_IsEmpty_lists: "lists_ok ss H F \<Longrightarrow> h \<in> H \<Longrightarrow> DLL_IsEmpty h ss = Inr (F h = [])"
  using lists_okD(1,2) [of ss H F h] dlist_empty [of "lnext ss" "lprev ss" h "F h"]
  by (auto simp: DLL_IsEmpty_def lnext_def)

lemma first_span: "lists_ok ss H F \<Longrightarrow> h \<in> H \<Longrightarrow> F h = x # xs \<Longrightarrow> \<exists>l. ss h = Some l \<and> nxt l = x"
  using lists_okD(1,2) [of ss H F h] dlist_first [of "lnext ss" "lprev ss" h x xs] by (auto simp: lnext_def)

lemma last_span: "lists_ok ss H F \<Longrightarrow> h \<in> H \<Longrightarrow> F h \<noteq> [] \<Longrightarrow> \<exists>l. ss h = Some l \<and> prv l = last (F h)"
  using lists_okD(1,2) [of ss H F h] dlist_last [of "lnext ss" "lprev ss" h "F h"] by (auto simp: lprev_def)

lemma dll_walk_seg:
  "dseg (lnext ss) (lprev ss) a xs h \<Longrightarrow> h \<notin> set xs \<Longrightarrow> set xs \<subseteq> dom ss \<Longrightarrow>
   dll_walk ss h (lnext ss a) acc = Some (Inr (rev acc @ xs))"
proof (induction xs arbitrary: a acc)
  case Nil
  then show ?case by (subst dll_walk.simps) simp
next
  case (Cons x xs)
  then obtain s where s: "ss x = Some s" by auto
  have "dll_walk ss h (lnext ss x) (x # acc) = Some (Inr (rev (x # acc) @ xs))"
    using Cons.prems by (intro Cons.IH) auto
  then show ?case using Cons.prems s by (subst dll_walk.simps) (auto simp: lnext_def)
qed

lemma dll_spans_lists:
  assumes "lists_ok ss H F" "h \<in> H"
  shows "dll_spans h ss = Inr (F h)"
proof -
  note d = lists_okD [OF assms]
  obtain l where l: "ss h = Some l" using d(2) by auto
  have "dll_walk ss h (lnext ss h) [] = Some (Inr (F h))"
    using dll_walk_seg [of ss h "F h" h "[]"] d(1,2) by (auto simp: dlist_def)
  then show ?thesis by (simp add: dll_spans_def l lnext_def)
qed

section \<open>Property\<close>

text \<open>
  The span lists are independent doubly linked lists.  In a store that holds any family of disjoint
  circular lists, \<open>DLL_Remove\<close> of a span followed by \<open>DLL_Prepend\<close> to another list of the family takes
  the span out of the first list and puts it in front of the second, leaves every other list and all
  contents of all spans apart from their links as they were, and \<open>DLL_Length\<close> and \<open>DLL_IsEmpty\<close> report
  the new lists.
\<close>

lemma DLL_move:
  assumes "lists_ok ss H F" "h \<in> H" "h' \<in> H" "h \<noteq> h'" "F h = xs @ x # ys"
  shows "returns (\<lambda>ss'. lists_ok ss' H (F(h := xs @ ys, h' := x # F h')) \<and> same_data ss ss' \<and>
           DLL_Length h ss' = Inr (to_int32 (int (length xs + length ys))) \<and>
           DLL_Length h' ss' = Inr (to_int32 (int (Suc (length (F h'))))) \<and>
           DLL_IsEmpty h ss' = Inr (xs = [] \<and> ys = []) \<and> DLL_IsEmpty h' ss' = Inr False)
         (bind_res (DLL_Remove x ss) (DLL_Prepend h' x))"
proof (rule returns_bind [OF DLL_Remove_lists [OF assms(1,2,5)]], elim conjE)
  fix ss1 assume 1: "lists_ok ss1 H (F(h := xs @ ys))" "same_data ss ss1"
  note d = lists_okD [OF assms(1,2)]
  have x: "x \<in> dom ss1" "x \<notin> H" using d(2,3) assms(5) same_data_dom [OF 1(2)] by auto
  have dist: "distinct (F h)" using d(1) by (simp add: dlist_def)
  have "x \<notin> set ((F(h := xs @ ys)) k)" if "k \<in> H" for k
    using dist assms(5) d(4) [OF that] by (cases "k = h") auto
  then have "returns (\<lambda>ss'. lists_ok ss' H ((F(h := xs @ ys))(h' := x # F h')) \<and> same_data ss1 ss') (DLL_Prepend h' x ss1)"
    using DLL_Prepend_lists [OF 1(1) assms(3) x] assms(4) by simp
  then show "returns (\<lambda>ss'. lists_ok ss' H (F(h := xs @ ys, h' := x # F h')) \<and> same_data ss ss' \<and>
           DLL_Length h ss' = Inr (to_int32 (int (length xs + length ys))) \<and>
           DLL_Length h' ss' = Inr (to_int32 (int (Suc (length (F h'))))) \<and>
           DLL_IsEmpty h ss' = Inr (xs = [] \<and> ys = []) \<and> DLL_IsEmpty h' ss' = Inr False) (DLL_Prepend h' x ss1)"
  proof (rule returns_mono, elim conjE)
    fix ss' assume 2: "lists_ok ss' H (F(h := xs @ ys, h' := x # F h'))" "same_data ss1 ss'"
    show "lists_ok ss' H (F(h := xs @ ys, h' := x # F h')) \<and> same_data ss ss' \<and>
           DLL_Length h ss' = Inr (to_int32 (int (length xs + length ys))) \<and>
           DLL_Length h' ss' = Inr (to_int32 (int (Suc (length (F h'))))) \<and>
           DLL_IsEmpty h ss' = Inr (xs = [] \<and> ys = []) \<and> DLL_IsEmpty h' ss' = Inr False"
      using 2(1) same_data_trans [OF 1(2) 2(2)] dll_spans_lists [OF 2(1)] DLL_IsEmpty_lists [OF 2(1)] assms(2-4)
      by (simp add: DLL_Length_def)
  qed
qed

text \<open>A store with one span on the normal list of length 1 and an empty returned list.\<close>

definition two_lists :: store where
  "two_lists = [Obj 48 \<mapsto> (new_span 1 1)\<lparr>nxt := NormalHd 1, prv := NormalHd 1\<rparr>,
     NormalHd 1 \<mapsto> (new_span 0 0)\<lparr>nxt := Obj 48, prv := Obj 48\<rparr>,
     ReturnedHd 1 \<mapsto> (new_span 0 0)\<lparr>nxt := ReturnedHd 1, prv := ReturnedHd 1\<rparr>]"

lemma DLL_move_example:
  "returns (\<lambda>ss'. DLL_Length (NormalHd 1) ss' = Inr 0 \<and> DLL_Length (ReturnedHd 1) ss' = Inr 1)
     (bind_res (DLL_Remove (Obj 48) two_lists) (DLL_Prepend (ReturnedHd 1) (Obj 48)))"
proof -
  have "lists_ok two_lists {NormalHd 1, ReturnedHd 1} ((\<lambda>_. [])(NormalHd 1 := [Obj 48]))"
    by (simp add: lists_ok_def two_lists_def dlist_def lnext_def lprev_def)
  from DLL_move [OF this, of "NormalHd 1" "ReturnedHd 1" "[]" "Obj 48" "[]"]
  show ?thesis by (auto simp: to_int32_def elim!: returns_mono)
qed

end
