(* ===== verification/Page_Heap.thy ===== *)
theory Page_Heap
  imports Object_Alloc Span Page_Map_Correct Packed_Cache Ieee_Round
begin

text \<open>
  The page heap (\<open>page_heap.h\<close>, \<open>page_heap.cc\<close>): runs of pages, called spans, are taken from the
  system, split, handed out, coalesced when they come back and released to the system.

  The record \<open>heap\<close> extends the metadata state by the object \<open>PageHeap\<close>, by the span allocator and by
  the store of spans.  Page numbers and lengths are natural numbers: both are below \<open>2 ^ 52\<close>, so their
  sums do not wrap; quantities in bytes and differences do, and are written modulo \<open>2 ^ 64\<close>.  The
  \<open>const int extra\<close> of \<open>Carve\<close> and \<open>Split\<close> is truncated to 32 bits as in the code.
\<close>

section \<open>State\<close>

record 'o heap = "'o meta_state" +
  span_allocator :: PageHeapAllocator
  span_links :: mem
  spans :: store
  pagemap :: PageMap3
  pagemap_cache :: PackedCache
  system_bytes :: nat
  free_bytes :: nat
  unmapped_bytes :: nat
  committed_bytes :: nat
  scavenge_counter :: int
  release_index :: nat
  aggressive_decommit :: bool
  FLAGS_tcmalloc_release_rate :: rat
  FLAGS_tcmalloc_heap_limit_mb :: int

definition kMinSystemAlloc :: nat where "kMinSystemAlloc = kMaxPages"
definition kMaxReleaseDelay :: int where "kMaxReleaseDelay = 2 ^ 20"
definition kDefaultReleaseDelay :: int where "kDefaultReleaseDelay = 2 ^ 18"
definition kForcedCoalesceInterval :: nat where "kForcedCoalesceInterval = 128 * 1024 * 1024"
definition kPageMapBigAllocationThreshold :: nat where "kPageMapBigAllocationThreshold = 128 * 2 ^ 20"

text \<open>\<open>n << kPageShift\<close>, and sums and differences of \<open>uint64_t\<close>.\<close>

definition page_bytes :: "nat \<Rightarrow> nat" where "page_bytes n = wrap64 (n * 2 ^ kPageShift)"
definition add64 :: "nat \<Rightarrow> nat \<Rightarrow> nat" where "add64 a b = wrap64 (a + b)"
definition sub64 :: "nat \<Rightarrow> nat \<Rightarrow> nat" where "sub64 a b = wrap64 (a + (2 ^ 64 - b mod 2 ^ 64))"

section \<open>Spans, lists and the page map in the state\<close>

definition get_span :: "sptr \<Rightarrow> ('o, 'z) heap_scheme \<Rightarrow> Span res" where
  "get_span sp st = deref (spans st) sp"

definition on_spans :: "(store \<Rightarrow> store res) \<Rightarrow> ('o, 'z) heap_scheme \<Rightarrow> ('o, 'z) heap_scheme res" where
  "on_spans f st = bind_res (f (spans st)) (\<lambda>ss. Inr (st\<lparr>spans := ss\<rparr>))"

definition NewSpan ::
  "'o os \<Rightarrow> nat \<Rightarrow> nat \<Rightarrow> ('o, 'z) heap_scheme \<Rightarrow> (sptr \<times> ('o, 'z) heap_scheme) res" where
  "NewSpan os p len st =
     bind_res (PHA_New os sizeof_Span (span_allocator st) (span_links st) st) (\<lambda>(a, pha, st).
     Inr (Obj a, st\<lparr>span_allocator := pha, spans := (spans st)(Obj a \<mapsto> new_span p len)\<rparr>))"

definition DeleteSpan :: "sptr \<Rightarrow> ('o, 'z) heap_scheme \<Rightarrow> ('o, 'z) heap_scheme res" where
  "DeleteSpan sp st =
     (case sp of Obj a \<Rightarrow>
        bind_res (PHA_Delete a (span_allocator st) (span_links st)) (\<lambda>(pha, links).
        Inr (st\<lparr>span_allocator := pha, span_links := links, spans := (spans st)(sp := None)\<rparr>))
      | _ \<Rightarrow> Inl Segv)"

definition GetDescriptor :: "nat \<Rightarrow> ('o, 'z) heap_scheme \<Rightarrow> sptr res" where
  "GetDescriptor p st = bind_res (PageMap3_get kPageMapBits (pagemap st) p) (\<lambda>a. Inr (Obj a))"

definition pagemap_set :: "nat \<Rightarrow> sptr \<Rightarrow> ('o, 'z) heap_scheme \<Rightarrow> ('o, 'z) heap_scheme res" where
  "pagemap_set k sp st =
     (case sp of Obj a \<Rightarrow>
        bind_res (PageMap3_set kPageMapBits (pagemap st) k a) (\<lambda>pm. Inr (st\<lparr>pagemap := pm\<rparr>))
      | _ \<Rightarrow> Inl Segv)"

definition RecordSpan :: "sptr \<Rightarrow> ('o, 'z) heap_scheme \<Rightarrow> ('o, 'z) heap_scheme res" where
  "RecordSpan sp st =
     bind_res (get_span sp st) (\<lambda>s.
     bind_res (pagemap_set (start s) sp st) (\<lambda>st.
     if span_length s > 1 then pagemap_set (start s + span_length s - 1) sp st else Inr st))"

text \<open>The index of the list for spans of a length; \<open>kMaxPages\<close> stands for \<open>large_\<close>.\<close>

definition list_index :: "nat \<Rightarrow> nat" where
  "list_index len = (if len < kMaxPages then len else kMaxPages)"

definition PrependToFreeList :: "sptr \<Rightarrow> ('o, 'z) heap_scheme \<Rightarrow> ('o, 'z) heap_scheme res" where
  "PrependToFreeList sp st =
     bind_res (get_span sp st) (\<lambda>s.
     if location s = ON_NORMAL_FREELIST then
       on_spans (DLL_Prepend (NormalHd (list_index (span_length s))) sp)
         (st\<lparr>free_bytes := add64 (free_bytes st) (page_bytes (span_length s))\<rparr>)
     else
       on_spans (DLL_Prepend (ReturnedHd (list_index (span_length s))) sp)
         (st\<lparr>unmapped_bytes := add64 (unmapped_bytes st) (page_bytes (span_length s))\<rparr>))"

definition RemoveFromFreeList :: "sptr \<Rightarrow> ('o, 'z) heap_scheme \<Rightarrow> ('o, 'z) heap_scheme res" where
  "RemoveFromFreeList sp st =
     bind_res (get_span sp st) (\<lambda>s.
     on_spans (DLL_Remove sp)
       (if location s = ON_NORMAL_FREELIST
        then st\<lparr>free_bytes := sub64 (free_bytes st) (page_bytes (span_length s))\<rparr>
        else st\<lparr>unmapped_bytes := sub64 (unmapped_bytes st) (page_bytes (span_length s))\<rparr>))"

definition CommitSpan :: "sptr \<Rightarrow> ('o, 'z) heap_scheme \<Rightarrow> ('o, 'z) heap_scheme res" where
  "CommitSpan sp st =
     bind_res (get_span sp st) (\<lambda>s.
     let st = TCMalloc_SystemCommit (page_bytes (start s)) (page_bytes (span_length s)) st
     in Inr (st\<lparr>committed_bytes := add64 (committed_bytes st) (page_bytes (span_length s))\<rparr>))"

definition DecommitSpan :: "'o os \<Rightarrow> sptr \<Rightarrow> ('o, 'z) heap_scheme \<Rightarrow> (bool \<times> ('o, 'z) heap_scheme) res" where
  "DecommitSpan os sp st =
     bind_res (get_span sp st) (\<lambda>s.
     bind_res (TCMalloc_SystemRelease os (page_bytes (start s)) (page_bytes (span_length s)) st) (\<lambda>(rv, st).
     Inr (rv, if rv then st\<lparr>committed_bytes := sub64 (committed_bytes st) (page_bytes (span_length s))\<rparr> else st)))"

section \<open>Splitting\<close>

text \<open>The \<open>int\<close> \<open>extra\<close>, passed on as a \<open>Length\<close>.\<close>

definition extra_pages :: "nat \<Rightarrow> nat \<Rightarrow> int" where
  "extra_pages len n = to_int32 (int len - int n)"

definition as_length :: "int \<Rightarrow> nat" where
  "as_length i = nat (i mod 2 ^ 64)"

definition Carve :: "'o os \<Rightarrow> sptr \<Rightarrow> nat \<Rightarrow> ('o, 'z) heap_scheme \<Rightarrow> (sptr \<times> ('o, 'z) heap_scheme) res" where
  "Carve os sp n st =
     bind_res (get_span sp st) (\<lambda>s.
     let old_location = location s in
     bind_res (RemoveFromFreeList sp st) (\<lambda>st.
     bind_res (on_spans (upd_span sp (location_update (\<lambda>_. IN_USE))) st) (\<lambda>st.
     let extra = extra_pages (span_length s) n in
     bind_res
       (if extra > 0 then
          bind_res (NewSpan os (start s + n) (as_length extra) st) (\<lambda>(leftover, st).
          bind_res (on_spans (upd_span leftover (location_update (\<lambda>_. old_location))) st) (\<lambda>st.
          bind_res (RecordSpan leftover st) (\<lambda>st.
          bind_res (PrependToFreeList leftover st) (\<lambda>st.
          bind_res (on_spans (upd_span sp (span_length_update (\<lambda>_. n))) st) (\<lambda>st.
          pagemap_set (start s + n - 1) sp st)))))
        else Inr st) (\<lambda>st.
     bind_res (if old_location = ON_RETURNED_FREELIST then CommitSpan sp st else Inr st) (\<lambda>st.
     Inr (sp, st))))))"

definition Split :: "'o os \<Rightarrow> sptr \<Rightarrow> nat \<Rightarrow> ('o, 'z) heap_scheme \<Rightarrow> (sptr \<times> ('o, 'z) heap_scheme) res" where
  "Split os sp n st =
     bind_res (get_span sp st) (\<lambda>s.
     let extra = extra_pages (span_length s) n in
     bind_res (NewSpan os (start s + n) (as_length extra) st) (\<lambda>(leftover, st).
     bind_res (RecordSpan leftover st) (\<lambda>st.
     bind_res (pagemap_set (start s + n - 1) sp st) (\<lambda>st.
     bind_res (on_spans (upd_span sp (span_length_update (\<lambda>_. n))) st) (\<lambda>st.
     Inr (leftover, st))))))"

section \<open>Coalescing\<close>

definition MayMergeSpans :: "Span \<Rightarrow> Span \<Rightarrow> ('o, 'z) heap_scheme \<Rightarrow> bool" where
  "MayMergeSpans s oth st =
     (if aggressive_decommit st then location oth \<noteq> IN_USE else location s = location oth)"

text \<open>Merging the span before, and the span after, into \<open>sp\<close>; the result is \<open>temp_committed\<close>.\<close>

definition merge_prev :: "sptr \<Rightarrow> nat \<Rightarrow> ('o, 'z) heap_scheme \<Rightarrow> (nat \<times> ('o, 'z) heap_scheme) res" where
  "merge_prev sp p st =
     bind_res (GetDescriptor (wrap64 (p + (2 ^ 64 - 1))) st) (\<lambda>prev.
     if prev = NULLspan then Inr (0, st)
     else bind_res (get_span prev st) (\<lambda>q.
          bind_res (get_span sp st) (\<lambda>s.
          if \<not> MayMergeSpans s q st then Inr (0, st)
          else
            let len = span_length q;
                temp_committed = (if aggressive_decommit st \<and> location q = ON_RETURNED_FREELIST
                                  then page_bytes len else 0)
            in bind_res (RemoveFromFreeList prev st) (\<lambda>st.
               bind_res (DeleteSpan prev st) (\<lambda>st.
               bind_res (on_spans (upd_span sp (\<lambda>s. s\<lparr>start := start s - len, span_length := span_length s + len\<rparr>)) st) (\<lambda>st.
               bind_res (get_span sp st) (\<lambda>s.
               bind_res (pagemap_set (start s) sp st) (\<lambda>st.
               Inr (temp_committed, st)))))))))"

definition merge_next :: "sptr \<Rightarrow> nat \<Rightarrow> nat \<Rightarrow> ('o, 'z) heap_scheme \<Rightarrow> (nat \<times> ('o, 'z) heap_scheme) res" where
  "merge_next sp pn temp_committed st =
     bind_res (GetDescriptor pn st) (\<lambda>next.
     if next = NULLspan then Inr (temp_committed, st)
     else bind_res (get_span next st) (\<lambda>q.
          bind_res (get_span sp st) (\<lambda>s.
          if \<not> MayMergeSpans s q st then Inr (temp_committed, st)
          else
            let len = span_length q;
                temp_committed = (if aggressive_decommit st \<and> location q = ON_RETURNED_FREELIST
                                  then add64 temp_committed (page_bytes len) else temp_committed)
            in bind_res (RemoveFromFreeList next st) (\<lambda>st.
               bind_res (DeleteSpan next st) (\<lambda>st.
               bind_res (on_spans (upd_span sp (\<lambda>s. s\<lparr>span_length := span_length s + len\<rparr>)) st) (\<lambda>st.
               bind_res (get_span sp st) (\<lambda>s.
               bind_res (pagemap_set (start s + span_length s - 1) sp st) (\<lambda>st.
               Inr (temp_committed, st)))))))))"

definition MergeIntoFreeList :: "'o os \<Rightarrow> sptr \<Rightarrow> ('o, 'z) heap_scheme \<Rightarrow> ('o, 'z) heap_scheme res" where
  "MergeIntoFreeList os sp st =
     bind_res (get_span sp st) (\<lambda>s.
     let p = start s; n = span_length s in
     bind_res (merge_prev sp p st) (\<lambda>(temp_committed, st).
     bind_res (merge_next sp (p + n) temp_committed st) (\<lambda>(temp_committed, st).
     bind_res
       (if aggressive_decommit st then
          bind_res (DecommitSpan os sp st) (\<lambda>(rv, st).
          if rv then
            bind_res (on_spans (upd_span sp (location_update (\<lambda>_. ON_RETURNED_FREELIST))) st) (\<lambda>st.
            Inr (st\<lparr>committed_bytes := add64 (committed_bytes st) temp_committed\<rparr>))
          else Inr st)
        else Inr st) (\<lambda>st.
     PrependToFreeList sp st))))"

section \<open>Releasing memory to the system\<close>

definition ReleaseLastNormalSpan ::
  "'o os \<Rightarrow> nat \<Rightarrow> ('o, 'z) heap_scheme \<Rightarrow> (nat \<times> ('o, 'z) heap_scheme) res" where
  "ReleaseLastNormalSpan os i st =
     bind_res (get_span (NormalHd i) st) (\<lambda>l.
     let sp = prv l in
     bind_res (DecommitSpan os sp st) (\<lambda>(rv, st).
     if rv then
       bind_res (RemoveFromFreeList sp st) (\<lambda>st.
       bind_res (get_span sp st) (\<lambda>s.
       bind_res (on_spans (upd_span sp (location_update (\<lambda>_. ON_RETURNED_FREELIST))) st) (\<lambda>st.
       bind_res (MergeIntoFreeList os sp st) (\<lambda>st.
       Inr (span_length s, st)))))
     else Inr (0, st)))"

text \<open>
  The inner loop of \<open>ReleaseAtLeastNPages\<close>; the first component of the result says whether the
  function returns from within the loop.
\<close>

primrec release_round ::
  "nat \<Rightarrow> 'o os \<Rightarrow> nat \<Rightarrow> nat \<Rightarrow> ('o, 'z) heap_scheme \<Rightarrow> (bool \<times> nat \<times> ('o, 'z) heap_scheme) res" where
  "release_round 0 os num_pages released st = Inr (False, released, st)"
| "release_round (Suc k) os num_pages released st =
     (if released < num_pages then
        let st = (if release_index st > kMaxPages then st\<lparr>release_index := 0\<rparr> else st);
            i = release_index st
        in bind_res (DLL_IsEmpty (NormalHd i) (spans st)) (\<lambda>empty.
           if \<not> empty then
             bind_res (ReleaseLastNormalSpan os i st) (\<lambda>(released_len, st).
             if released_len = 0 then Inr (True, released, st)
             else release_round k os num_pages (released + released_len)
                    (st\<lparr>release_index := release_index st + 1\<rparr>))
           else release_round k os num_pages released (st\<lparr>release_index := release_index st + 1\<rparr>))
      else Inr (False, released, st))"

text \<open>
  The outer loop, with fuel.  Every round releases at least one page of the free bytes, so that
  \<open>free_bytes / kPageSize + 1\<close> rounds are enough.
\<close>

primrec release_rounds ::
  "nat \<Rightarrow> 'o os \<Rightarrow> nat \<Rightarrow> nat \<Rightarrow> ('o, 'z) heap_scheme \<Rightarrow> (nat \<times> ('o, 'z) heap_scheme) res" where
  "release_rounds 0 os num_pages released st = Inl Diverge"
| "release_rounds (Suc k) os num_pages released st =
     (if released < num_pages \<and> free_bytes st > 0 then
        bind_res (release_round (kMaxPages + 1) os num_pages released st) (\<lambda>(ret, released, st).
        if ret then Inr (released, st) else release_rounds k os num_pages released st)
      else Inr (released, st))"

definition ReleaseAtLeastNPages ::
  "'o os \<Rightarrow> nat \<Rightarrow> ('o, 'z) heap_scheme \<Rightarrow> (nat \<times> ('o, 'z) heap_scheme) res" where
  "ReleaseAtLeastNPages os num_pages st =
     release_rounds (free_bytes st div 2 ^ kPageShift + 1) os num_pages 0 st"

definition IncrementalScavenge ::
  "'o os \<Rightarrow> nat \<Rightarrow> ('o, 'z) heap_scheme \<Rightarrow> ('o, 'z) heap_scheme res" where
  "IncrementalScavenge os n st =
     (let st = st\<lparr>scavenge_counter := scavenge_counter st - int n\<rparr>
      in if scavenge_counter st \<ge> 0 then Inr st
         else let rate = FLAGS_tcmalloc_release_rate st
         in if rate \<le> dbl (1 / 1000000) then Inr (st\<lparr>scavenge_counter := kDefaultReleaseDelay\<rparr>)
            else bind_res (ReleaseAtLeastNPages os 1 st) (\<lambda>(released_pages, st).
                 if released_pages = 0 then Inr (st\<lparr>scavenge_counter := kDefaultReleaseDelay\<rparr>)
                 else let mult = dbl (1000 / rate);
                          wait = dbl (mult * dbl (of_nat released_pages));
                          wait = (if wait > of_int kMaxReleaseDelay then of_int kMaxReleaseDelay else wait)
                      in Inr (st\<lparr>scavenge_counter := rat_trunc wait\<rparr>)))"

definition Delete :: "'o os \<Rightarrow> sptr \<Rightarrow> ('o, 'z) heap_scheme \<Rightarrow> ('o, 'z) heap_scheme res" where
  "Delete os sp st =
     bind_res (get_span sp st) (\<lambda>s.
     bind_res (on_spans (upd_span sp (\<lambda>s. s\<lparr>sizeclass := 0, sample := False, location := ON_NORMAL_FREELIST\<rparr>)) st) (\<lambda>st.
     bind_res (MergeIntoFreeList os sp st) (\<lambda>st.
     IncrementalScavenge os (span_length s) st)))"

section \<open>The limit\<close>

definition heap_limit :: "('o, 'z) heap_scheme \<Rightarrow> nat" where
  "heap_limit st = nat (FLAGS_tcmalloc_heap_limit_mb st * 1024 * 1024 div 2 ^ kPageShift mod 2 ^ 64)"

definition EnsureLimit ::
  "'o os \<Rightarrow> nat \<Rightarrow> bool \<Rightarrow> ('o, 'z) heap_scheme \<Rightarrow> (bool \<times> ('o, 'z) heap_scheme) res" where
  "EnsureLimit os n withRelease st =
     (let limit = heap_limit st
      in if limit = 0 then Inr (True, st)
         else
           let takenPages = sub64 (TCMalloc_SystemTaken st div 2 ^ kPageShift) (unmapped_bytes st div 2 ^ kPageShift)
           in bind_res
                (if add64 takenPages n > limit \<and> withRelease then
                   bind_res (ReleaseAtLeastNPages os (sub64 (add64 takenPages n) limit) st) (\<lambda>(r, st).
                   Inr (sub64 takenPages r, st))
                 else Inr (takenPages, st)) (\<lambda>(takenPages, st).
              Inr (add64 takenPages n \<le> limit, st)))"

section \<open>Allocation\<close>

text \<open>The body of the two loops of \<open>AllocLarge\<close>: address-ordered best fit.\<close>

definition better_fit :: "nat \<Rightarrow> store \<Rightarrow> sptr \<Rightarrow> sptr option \<Rightarrow> sptr option" where
  "better_fit n ss sp best =
     (case ss sp of None \<Rightarrow> best
      | Some s \<Rightarrow>
          if span_length s \<ge> n then
            (case best of None \<Rightarrow> Some sp
             | Some b \<Rightarrow> (case ss b of None \<Rightarrow> Some sp
                 | Some t \<Rightarrow> if span_length s < span_length t \<or> span_length s = span_length t \<and> start s < start t
                             then Some sp else best))
          else best)"

text \<open>
  The call of itself happens only after the limit has been ensured; then the inner call does not get
  there again, so that a depth of 2 is enough.
\<close>

primrec AllocLarge_depth ::
  "nat \<Rightarrow> 'o os \<Rightarrow> nat \<Rightarrow> ('o, 'z) heap_scheme \<Rightarrow> (sptr option \<times> ('o, 'z) heap_scheme) res" where
  "AllocLarge_depth 0 os n st = Inl Diverge"
| "AllocLarge_depth (Suc k) os n st =
     bind_res (dll_spans (NormalHd kMaxPages) (spans st)) (\<lambda>normal.
     bind_res (dll_spans (ReturnedHd kMaxPages) (spans st)) (\<lambda>returned.
     let bestNormal = fold (better_fit n (spans st)) normal None;
         best = fold (better_fit n (spans st)) returned bestNormal
     in if best = bestNormal then
          (case best of None \<Rightarrow> Inr (None, st)
           | Some b \<Rightarrow> bind_res (Carve os b n st) (\<lambda>(sp, st). Inr (Some sp, st)))
        else
          bind_res (EnsureLimit os n False st) (\<lambda>(ok, st).
          if ok then bind_res (Carve os (the best) n st) (\<lambda>(sp, st). Inr (Some sp, st))
          else bind_res (EnsureLimit os n True st) (\<lambda>(ok, st).
               if ok then AllocLarge_depth k os n st else Inr (None, st)))))"

definition AllocLarge ::
  "'o os \<Rightarrow> nat \<Rightarrow> ('o, 'z) heap_scheme \<Rightarrow> (sptr option \<times> ('o, 'z) heap_scheme) res" where
  "AllocLarge os n st = AllocLarge_depth 2 os n st"

text \<open>The loop over the exact-size lists, from length \<open>n\<close> to \<open>kMaxPages - 1\<close>.\<close>

fun search_lists ::
  "'o os \<Rightarrow> nat \<Rightarrow> nat list \<Rightarrow> ('o, 'z) heap_scheme \<Rightarrow> (sptr option \<times> ('o, 'z) heap_scheme) res" where
  "search_lists os n [] st = AllocLarge os n st"
| "search_lists os n (s # ss) st =
     bind_res (DLL_IsEmpty (NormalHd s) (spans st)) (\<lambda>empty.
     if \<not> empty then
       bind_res (get_span (NormalHd s) st) (\<lambda>l.
       bind_res (Carve os (nxt l) n st) (\<lambda>(sp, st). Inr (Some sp, st)))
     else
       bind_res (DLL_IsEmpty (ReturnedHd s) (spans st)) (\<lambda>empty.
       if \<not> empty then
         bind_res (EnsureLimit os n True st) (\<lambda>(ok, st).
         if ok then
           bind_res (DLL_IsEmpty (ReturnedHd s) (spans st)) (\<lambda>empty.
           if \<not> empty then
             bind_res (get_span (ReturnedHd s) st) (\<lambda>l.
             bind_res (Carve os (nxt l) n st) (\<lambda>(sp, st). Inr (Some sp, st)))
           else search_lists os n ss st)
         else search_lists os n ss st)
       else search_lists os n ss st))"

definition SearchFreeAndLargeLists ::
  "'o os \<Rightarrow> nat \<Rightarrow> ('o, 'z) heap_scheme \<Rightarrow> (sptr option \<times> ('o, 'z) heap_scheme) res" where
  "SearchFreeAndLargeLists os n st = search_lists os n [n..<kMaxPages] st"

definition GrowHeap_alloc ::
  "'o os \<Rightarrow> nat \<Rightarrow> ('o, 'z) heap_scheme \<Rightarrow> (addr \<times> nat \<times> ('o, 'z) heap_scheme) res" where
  "GrowHeap_alloc os ask st =
     bind_res (EnsureLimit os ask True st) (\<lambda>(ok, st).
     if ok then TCMalloc_SystemAlloc os (page_bytes ask) (2 ^ kPageShift) st else Inr (0, 0, st))"

definition GrowHeap :: "'o os \<Rightarrow> nat \<Rightarrow> ('o, 'z) heap_scheme \<Rightarrow> (bool \<times> ('o, 'z) heap_scheme) res" where
  "GrowHeap os n st =
     (if n > kMaxValidPages then Inr (False, st)
      else
        let ask = (if n > kMinSystemAlloc then n else kMinSystemAlloc)
        in bind_res (GrowHeap_alloc os ask st) (\<lambda>(ptr, actual_size, st).
           bind_res (if ptr = 0 \<and> n < ask then GrowHeap_alloc os n st else Inr (ptr, actual_size, st))
             (\<lambda>(ptr, actual_size, st).
           if ptr = 0 then Inr (False, st)
           else
             let ask = actual_size div 2 ^ kPageShift;
                 st = st\<lparr>system_bytes := add64 (system_bytes st) (page_bytes ask),
                         committed_bytes := add64 (committed_bytes st) (page_bytes ask)\<rparr>;
                 p = ptr div 2 ^ kPageShift
             in bind_res (PageMap3_Ensure kPageMapBits (MetaDataAlloc os) (wrap64 (p + (2 ^ 64 - 1))) (ask + 2) (pagemap st) st)
                  (\<lambda>(ok, pm, st).
                let st = st\<lparr>pagemap := pm\<rparr>
                in if ok then
                     bind_res (NewSpan os p ask st) (\<lambda>(sp, st).
                     bind_res (RecordSpan sp st) (\<lambda>st.
                     bind_res (Delete os sp st) (\<lambda>st.
                     Inr (True, st))))
                   else Inr (False, st)))))"

definition New :: "'o os \<Rightarrow> nat \<Rightarrow> ('o, 'z) heap_scheme \<Rightarrow> (sptr option \<times> ('o, 'z) heap_scheme) res" where
  "New os n st =
     bind_res (SearchFreeAndLargeLists os n st) (\<lambda>(result, st).
     if result \<noteq> None then Inr (result, st)
     else
       bind_res
         (if free_bytes st \<noteq> 0 \<and> unmapped_bytes st \<noteq> 0 \<and>
             add64 (free_bytes st) (unmapped_bytes st) \<ge> system_bytes st div 4 \<and>
             system_bytes st div kForcedCoalesceInterval \<noteq>
               add64 (system_bytes st) (page_bytes n) div kForcedCoalesceInterval
          then
            bind_res (ReleaseAtLeastNPages os 0x7fffffff st) (\<lambda>(_, st).
            SearchFreeAndLargeLists os n st)
          else Inr (None, st)) (\<lambda>(result, st).
       if result \<noteq> None then Inr (result, st)
       else
         bind_res (GrowHeap os n st) (\<lambda>(ok, st).
         if \<not> ok then Inr (None, st) else SearchFreeAndLargeLists os n st)))"

section \<open>Size classes and statistics\<close>

primrec set_pages :: "nat \<Rightarrow> nat \<Rightarrow> sptr \<Rightarrow> ('o, 'z) heap_scheme \<Rightarrow> ('o, 'z) heap_scheme res" where
  "set_pages 0 k sp st = Inr st"
| "set_pages (Suc m) k sp st = bind_res (pagemap_set k sp st) (\<lambda>st. set_pages m (k + 1) sp st)"

text \<open>\<open>span->sizeclass\<close> is a bit field of 8 bits.\<close>

definition RegisterSizeClass :: "sptr \<Rightarrow> nat \<Rightarrow> ('o, 'z) heap_scheme \<Rightarrow> ('o, 'z) heap_scheme res" where
  "RegisterSizeClass sp sc st =
     bind_res (on_spans (upd_span sp (sizeclass_update (\<lambda>_. sc mod 256))) st) (\<lambda>st.
     bind_res (get_span sp st) (\<lambda>s.
     set_pages (span_length s - 2) (start s + 1) sp st))"

definition GetSizeClassIfCached :: "nat \<Rightarrow> ('o, 'z) heap_scheme \<Rightarrow> nat" where
  "GetSizeClassIfCached p st = unat (GetOrDefault kKeybits (pagemap_cache st) (of_nat p) 0)"

definition CacheSizeClass :: "nat \<Rightarrow> nat \<Rightarrow> ('o, 'z) heap_scheme \<Rightarrow> ('o, 'z) heap_scheme" where
  "CacheSizeClass p cl st = st\<lparr>pagemap_cache := Put kKeybits (pagemap_cache st) (of_nat p) (of_nat cl)\<rparr>"

text \<open>The lengths of the normal and of the returned list, for every length below \<open>kMaxPages\<close>.\<close>

fun small_stats :: "nat list \<Rightarrow> ('o, 'z) heap_scheme \<Rightarrow> (int \<times> int) list res" where
  "small_stats [] st = Inr []"
| "small_stats (i # is) st =
     bind_res (DLL_Length (NormalHd i) (spans st)) (\<lambda>nl.
     bind_res (DLL_Length (ReturnedHd i) (spans st)) (\<lambda>rl.
     bind_res (small_stats is st) (\<lambda>rs. Inr ((nl, rl) # rs))))"

definition GetSmallSpanStats :: "('o, 'z) heap_scheme \<Rightarrow> (int \<times> int) list res" where
  "GetSmallSpanStats st = small_stats [0..<kMaxPages] st"

definition sum_lengths :: "store \<Rightarrow> sptr list \<Rightarrow> nat" where
  "sum_lengths ss xs = sum_list (map (\<lambda>x. case ss x of None \<Rightarrow> 0 | Some s \<Rightarrow> span_length s) xs)"

definition GetLargeSpanStats :: "('o, 'z) heap_scheme \<Rightarrow> (nat \<times> nat \<times> nat) res" where
  "GetLargeSpanStats st =
     bind_res (dll_spans (NormalHd kMaxPages) (spans st)) (\<lambda>normal.
     bind_res (dll_spans (ReturnedHd kMaxPages) (spans st)) (\<lambda>returned.
     Inr (length normal + length returned, sum_lengths (spans st) normal, sum_lengths (spans st) returned)))"

fun check_spans :: "sptr list \<Rightarrow> nat \<Rightarrow> nat \<Rightarrow> span_location \<Rightarrow> ('o, 'z) heap_scheme \<Rightarrow> bool res" where
  "check_spans [] mn mx loc st = Inr True"
| "check_spans (sp # sps) mn mx loc st =
     bind_res (get_span sp st) (\<lambda>s.
     bind_res (GetDescriptor (start s) st) (\<lambda>d1.
     bind_res (GetDescriptor (start s + span_length s - 1) st) (\<lambda>d2.
     if location s \<noteq> loc \<or> \<not> span_length s \<ge> mn \<or> \<not> span_length s \<le> mx \<or> d1 \<noteq> sp \<or> d2 \<noteq> sp then Inl Abort
     else check_spans sps mn mx loc st)))"

definition CheckList :: "sptr \<Rightarrow> nat \<Rightarrow> nat \<Rightarrow> span_location \<Rightarrow> ('o, 'z) heap_scheme \<Rightarrow> bool res" where
  "CheckList list mn mx loc st =
     bind_res (dll_spans list (spans st)) (\<lambda>sps. check_spans sps mn mx loc st)"

fun check_lists :: "nat list \<Rightarrow> ('o, 'z) heap_scheme \<Rightarrow> bool res" where
  "check_lists [] st = Inr True"
| "check_lists (s # ss) st =
     bind_res (CheckList (NormalHd s) s s ON_NORMAL_FREELIST st) (\<lambda>_.
     bind_res (CheckList (ReturnedHd s) s s ON_RETURNED_FREELIST st) (\<lambda>_.
     check_lists ss st))"

definition CheckExpensive :: "('o, 'z) heap_scheme \<Rightarrow> bool res" where
  "CheckExpensive st =
     bind_res (CheckList (NormalHd kMaxPages) kMaxPages 1000000000 ON_NORMAL_FREELIST st) (\<lambda>_.
     bind_res (CheckList (ReturnedHd kMaxPages) kMaxPages 1000000000 ON_RETURNED_FREELIST st) (\<lambda>_.
     check_lists [1..<kMaxPages] st))"

end
