(* ===== verification/Page_Heap_Inv.thy ===== *)
theory Page_Heap_Inv
  imports Page_Heap
begin

text \<open>
  The invariant of the page heap, and what its elementary steps do.

  \<open>sdata\<close> is the abstract view of the store: the spans by address, without their links.  \<open>H\<close> is the set
  of all list sentinels in the store and \<open>F\<close> gives their lists; the sentinels of the page heap itself
  are \<open>heads\<close>, the others belong to the central free lists and hold spans that are in use.
\<close>

section \<open>The abstract view\<close>

definition sdata :: "store \<Rightarrow> addr \<rightharpoonup> Span" where
  "sdata ss a = map_option unlink (ss (Obj a))"

lemma sdata_same: "same_data ss ss' \<Longrightarrow> sdata ss' = sdata ss"
  by (auto simp: sdata_def same_data_def)

lemma sdata_upd [simp]: "sdata (ss(Obj a \<mapsto> s)) = (sdata ss)(a \<mapsto> unlink s)"
  by (auto simp: sdata_def)

lemma sdata_del [simp]: "sdata (ss(Obj a := None)) = (sdata ss)(a := None)"
  by (auto simp: sdata_def)

lemma sdata_Some: "sdata ss a = Some s \<Longrightarrow> \<exists>t. ss (Obj a) = Some t \<and> unlink t = s"
  by (auto simp: sdata_def)

lemma unlink_idem [simp]: "unlink (unlink s) = unlink s"
  by (simp add: unlink_def)

lemma sdata_unlinked: "sdata ss a = Some s \<Longrightarrow> unlink s = s"
  by (auto simp: sdata_def)

definition pages_of :: "Span \<Rightarrow> nat set" where
  "pages_of s = {start s..<start s + span_length s}"

definition heads :: "sptr set" where
  "heads = NormalHd ` {..kMaxPages} \<union> ReturnedHd ` {..kMaxPages}"

text \<open>The sentinel of the list that a free span belongs to.\<close>

definition head_of :: "Span \<Rightarrow> sptr" where
  "head_of s = (if location s = ON_NORMAL_FREELIST then NormalHd (list_index (span_length s))
                else ReturnedHd (list_index (span_length s)))"

lemma head_of_heads [simp]: "head_of s \<in> heads"
  by (auto simp: head_of_def heads_def list_index_def)

section \<open>The invariant\<close>

definition spans_wf :: "(addr \<rightharpoonup> Span) \<Rightarrow> bool" where
  "spans_wf D \<longleftrightarrow> finite (dom D) \<and>
     (\<forall>a s. D a = Some s \<longrightarrow> a \<noteq> 0 \<and> 0 < span_length s \<and> 0 < start s \<and> start s + span_length s \<le> 2 ^ kPageMapBits) \<and>
     (\<forall>a b s t. D a = Some s \<and> D b = Some t \<and> a \<noteq> b \<longrightarrow> pages_of s \<inter> pages_of t = {})"

definition map_ok :: "(addr \<rightharpoonup> Span) \<Rightarrow> PageMap3 \<Rightarrow> bool" where
  "map_ok D pm \<longleftrightarrow> wf3 pm \<and>
     (\<forall>a s. D a = Some s \<longrightarrow>
        view3 kPageMapBits pm (start s) = a \<and> view3 kPageMapBits pm (start s + span_length s - 1) = a \<and>
        (\<forall>k\<in>pages_of s. ensured3 kPageMapBits pm k) \<and>
        (sizeclass s \<noteq> 0 \<longrightarrow> location s = IN_USE \<and> (\<forall>k\<in>pages_of s. view3 kPageMapBits pm k = a))) \<and>
     (\<forall>k. view3 kPageMapBits pm k \<noteq> 0 \<longrightarrow> (\<exists>a s. D a = Some s \<and> k \<in> pages_of s))"

definition free_span :: "Span \<Rightarrow> bool" where
  "free_span s \<longleftrightarrow> location s \<noteq> IN_USE"

definition lists_exact :: "(addr \<rightharpoonup> Span) \<Rightarrow> sptr set \<Rightarrow> (sptr \<Rightarrow> sptr list) \<Rightarrow> bool" where
  "lists_exact D H F \<longleftrightarrow> heads \<subseteq> H \<and> H \<inter> range Obj = {} \<and>
     (\<forall>h\<in>heads. set (F h) = {Obj a | a s. D a = Some s \<and> free_span s \<and> head_of s = h}) \<and>
     (\<forall>h\<in>H - heads. \<forall>x\<in>set (F h). \<exists>a s. x = Obj a \<and> D a = Some s \<and> location s = IN_USE)"

definition coalesced :: "(addr \<rightharpoonup> Span) \<Rightarrow> bool" where
  "coalesced D \<longleftrightarrow> (\<forall>a b s t. D a = Some s \<and> D b = Some t \<and> start t = start s + span_length s \<and>
     location s = location t \<longrightarrow> location s = IN_USE)"

text \<open>The number of pages in spans with some property.\<close>

definition npages :: "(Span \<Rightarrow> bool) \<Rightarrow> (addr \<rightharpoonup> Span) \<Rightarrow> nat" where
  "npages P D = (\<Sum>a\<in>{a \<in> dom D. P (the (D a))}. span_length (the (D a)))"

definition span_bytes_of :: "Span \<Rightarrow> addr set" where
  "span_bytes_of s = {start s * 2 ^ kPageShift..<(start s + span_length s) * 2 ^ kPageShift}"

text \<open>The process never owns 16 TB, so that no span has \<open>2 ^ 31\<close> pages.\<close>

definition os_limit :: "('o \<Rightarrow> addr set) \<Rightarrow> bool" where
  "os_limit owned \<longleftrightarrow> (\<forall>s. finite (owned s) \<and> card (owned s) < 2 ^ 44)"

definition mem_ok :: "'o os \<Rightarrow> ('o \<Rightarrow> addr set) \<Rightarrow> (addr \<rightharpoonup> Span) \<Rightarrow> ('o, 'z) heap_scheme \<Rightarrow> bool" where
  "mem_ok os owned D st \<longleftrightarrow> os_limit owned \<and> madvise_answers os \<and>
     pha_inv os owned sizeof_Span (dom D) (span_allocator st, span_links st, st) \<and>
     (\<forall>a s. D a = Some s \<longrightarrow> span_bytes_of s \<subseteq> owned (os_st st)) \<and>
     system_bytes st \<le> card (owned (os_st st))"

text \<open>
  Everything but the balance of committed bytes, for a view \<open>D\<close> of the spans.  While a span is being
  moved between the lists, \<open>D\<close> shows it as in use.
\<close>

definition hgen0 ::
  "'o os \<Rightarrow> ('o \<Rightarrow> addr set) \<Rightarrow> sptr set \<Rightarrow> (sptr \<Rightarrow> sptr list) \<Rightarrow> (addr \<rightharpoonup> Span) \<Rightarrow> ('o, 'z) heap_scheme \<Rightarrow> bool" where
  "hgen0 os owned H F D st \<longleftrightarrow>
     mem_ok os owned D st \<and> spans_wf D \<and> lists_ok (spans st) H F \<and> lists_exact D H F \<and> coalesced D \<and>
     free_bytes st = 2 ^ kPageShift * npages (\<lambda>s. location s = ON_NORMAL_FREELIST) D \<and>
     unmapped_bytes st = 2 ^ kPageShift * npages (\<lambda>s. location s = ON_RETURNED_FREELIST) D \<and>
     2 ^ kPageShift * npages (\<lambda>_. True) D \<le> system_bytes st \<and> \<not> aggressive_decommit st"

definition hgen ::
  "'o os \<Rightarrow> ('o \<Rightarrow> addr set) \<Rightarrow> sptr set \<Rightarrow> (sptr \<Rightarrow> sptr list) \<Rightarrow> (addr \<rightharpoonup> Span) \<Rightarrow> ('o, 'z) heap_scheme \<Rightarrow> bool" where
  "hgen os owned H F D st \<longleftrightarrow> hgen0 os owned H F D st \<and> map_ok D (pagemap st)"

definition hcore ::
  "'o os \<Rightarrow> ('o \<Rightarrow> addr set) \<Rightarrow> sptr set \<Rightarrow> (sptr \<Rightarrow> sptr list) \<Rightarrow> ('o, 'z) heap_scheme \<Rightarrow> bool" where
  "hcore os owned H F st \<longleftrightarrow> hgen os owned H F (sdata (spans st)) st"

definition hinv ::
  "'o os \<Rightarrow> ('o \<Rightarrow> addr set) \<Rightarrow> sptr set \<Rightarrow> (sptr \<Rightarrow> sptr list) \<Rightarrow> ('o, 'z) heap_scheme \<Rightarrow> bool" where
  "hinv os owned H F st \<longleftrightarrow> hcore os owned H F st \<and>
     committed_bytes st + unmapped_bytes st = system_bytes st"

section \<open>Counting pages\<close>

lemma npages_insert:
  assumes "finite (dom D)" "D a = None"
  shows "npages P (D(a \<mapsto> s)) = npages P D + (if P s then span_length s else 0)"
proof -
  let ?A = "{b \<in> dom D. P (the (D b))}"
  have set: "{b \<in> dom (D(a \<mapsto> s)). P (the ((D(a \<mapsto> s)) b))} = (if P s then insert a ?A else ?A)"
    using assms(2) by auto
  have sum: "(\<Sum>b\<in>?A. span_length (the ((D(a \<mapsto> s)) b))) = (\<Sum>b\<in>?A. span_length (the (D b)))"
    using assms(2) by (intro sum.cong) auto
  have "a \<notin> ?A" "finite ?A" using assms by auto
  then show ?thesis unfolding npages_def set using sum by auto
qed

lemma npages_delete:
  assumes "finite (dom D)" "D a = Some s"
  shows "npages P D = npages P (D(a := None)) + (if P s then span_length s else 0)"
proof -
  have "D = (D(a := None))(a \<mapsto> s)" using assms(2) by auto
  then show ?thesis using npages_insert [of "D(a := None)" a P s] assms(1) by simp
qed

lemma npages_update:
  assumes "finite (dom D)" "D a = Some s"
  shows "npages P (D(a \<mapsto> t)) + (if P s then span_length s else 0) = npages P D + (if P t then span_length t else 0)"
  using npages_delete [OF assms, of P] npages_insert [of "D(a := None)" a P t] assms(1) by simp

lemma npages_le: "finite (dom D) \<Longrightarrow> npages P D \<le> npages (\<lambda>_. True) D"
  unfolding npages_def by (intro sum_mono2) auto

lemma npages_disjoint:
  assumes "finite (dom D)" "\<And>s. \<not> (P s \<and> Q s)"
  shows "npages P D + npages Q D \<le> npages (\<lambda>_. True) D"
proof -
  let ?A = "{a \<in> dom D. P (the (D a))}" and ?B = "{a \<in> dom D. Q (the (D a))}"
  have "npages P D + npages Q D = (\<Sum>a\<in>?A \<union> ?B. span_length (the (D a)))"
    unfolding npages_def using assms by (subst sum.union_disjoint) auto
  also have "\<dots> \<le> npages (\<lambda>_. True) D"
    unfolding npages_def using assms(1) by (intro sum_mono2) auto
  finally show ?thesis .
qed

lemma span_le_npages: "finite (dom D) \<Longrightarrow> D a = Some s \<Longrightarrow> P s \<Longrightarrow> span_length s \<le> npages P D"
  using npages_delete [of D a s P] by simp

lemma span_bytes_disjoint:
  assumes "pages_of s \<inter> pages_of t = {}"
  shows "span_bytes_of s \<inter> span_bytes_of t = {}"
proof -
  have "x div 2 ^ kPageShift \<in> pages_of s" if "x \<in> span_bytes_of s" for x s
    using that by (auto simp: span_bytes_of_def pages_of_def less_mult_imp_div_less
        intro: order_trans [OF _ div_le_mono, of _ "start s * 2 ^ kPageShift" "2 ^ kPageShift"])
  then show ?thesis using assms by blast
qed

lemma npages_owned:
  assumes "spans_wf D" "\<And>a s. D a = Some s \<Longrightarrow> span_bytes_of s \<subseteq> B" "finite B"
  shows "2 ^ kPageShift * npages (\<lambda>_. True) D \<le> card B"
proof -
  let ?b = "\<lambda>a. span_bytes_of (the (D a))"
  have fin: "finite (dom D)" using assms(1) by (simp add: spans_wf_def)
  have dis: "?b a \<inter> ?b b = {}" if "a \<in> dom D" "b \<in> dom D" "a \<noteq> b" for a b
    using assms(1) that span_bytes_disjoint unfolding spans_wf_def by (metis domD option.sel)
  have "card (\<Union>a\<in>dom D. ?b a) = (\<Sum>a\<in>dom D. card (?b a))"
    using fin dis by (intro card_UN_disjoint) (auto simp: span_bytes_of_def)
  also have "\<dots> = (\<Sum>a\<in>dom D. 2 ^ kPageShift * span_length (the (D a)))"
    by (intro sum.cong) (auto simp: span_bytes_of_def add_mult_distrib mult.commute)
  also have "\<dots> = 2 ^ kPageShift * npages (\<lambda>_. True) D"
    by (simp add: npages_def sum_distrib_left)
  finally have "2 ^ kPageShift * npages (\<lambda>_. True) D = card (\<Union>a\<in>dom D. ?b a)" by simp
  also have "\<dots> \<le> card B"
  proof (rule card_mono [OF assms(3)], rule UN_least)
    fix a assume "a \<in> dom D"
    then obtain s where "D a = Some s" by blast
    then show "?b a \<subseteq> B" using assms(2) [of a s] by simp
  qed
  finally show ?thesis .
qed

text \<open>No quantity reaches the width of its type.\<close>

lemma hgen_bounds:
  assumes "hgen0 os owned H F D st"
  shows "npages (\<lambda>_. True) D < 2 ^ 31" "free_bytes st + unmapped_bytes st < 2 ^ 44" "system_bytes st < 2 ^ 44"
    "D a = Some s \<Longrightarrow> span_length s < 2 ^ 31" "free_bytes st + unmapped_bytes st \<le> system_bytes st"
proof -
  have m: "spans_wf D" "os_limit owned" "\<And>a s. D a = Some s \<Longrightarrow> span_bytes_of s \<subseteq> owned (os_st st)"
      "system_bytes st \<le> card (owned (os_st st))"
    using assms by (auto simp: hgen0_def mem_ok_def)
  have fin: "finite (dom D)" using m(1) by (simp add: spans_wf_def)
  have lim: "finite (owned (os_st st))" "card (owned (os_st st)) < 2 ^ 44" using m(2) by (auto simp: os_limit_def)
  have le: "2 ^ kPageShift * npages (\<lambda>_. True) D \<le> card (owned (os_st st))" by (rule npages_owned [OF m(1,3) lim(1)])
  then show n: "npages (\<lambda>_. True) D < 2 ^ 31" using lim(2) by (simp add: kPageShift_def)
  show "system_bytes st < 2 ^ 44" using m(4) lim(2) by linarith
  have "npages (\<lambda>s. location s = ON_NORMAL_FREELIST) D + npages (\<lambda>s. location s = ON_RETURNED_FREELIST) D
      \<le> npages (\<lambda>_. True) D"
    by (rule npages_disjoint [OF fin]) auto
  then have all: "free_bytes st + unmapped_bytes st \<le> 2 ^ kPageShift * npages (\<lambda>_. True) D"
    using assms by (simp add: hgen0_def flip: distrib_left)
  then show "free_bytes st + unmapped_bytes st < 2 ^ 44" using le lim(2) by linarith
  show "free_bytes st + unmapped_bytes st \<le> system_bytes st" using all assms by (simp add: hgen0_def)
  show "D a = Some s \<Longrightarrow> span_length s < 2 ^ 31"
    using span_le_npages [OF fin, of a s "\<lambda>_. True"] n by simp
qed

lemma page_bytes_id: "n < 2 ^ 51 \<Longrightarrow> page_bytes n = 2 ^ kPageShift * n"
  by (simp add: page_bytes_def kPageShift_def wrap64_def)

lemma add64_id: "a + b < 2 ^ 64 \<Longrightarrow> add64 a b = a + b"
  by (simp add: add64_def)

lemma sub64_id: "b \<le> a \<Longrightarrow> a < 2 ^ 64 \<Longrightarrow> sub64 a b = a - b"
proof -
  assume *: "b \<le> a" "a < 2 ^ 64"
  then have "a + (2 ^ 64 - b mod 2 ^ 64) = (a - b) + 2 ^ 64" by simp
  then show ?thesis unfolding sub64_def wrap64_def using * by (simp only: mod_add_self2) simp
qed

section \<open>Elementary steps\<close>

lemma RemoveFromFreeList_eff:
  assumes "lists_ok (spans st) H F" "h \<in> H" "F h = xs @ Obj a # ys" "spans st (Obj a) = Some s"
  shows "\<exists>ss'. RemoveFromFreeList (Obj a) st = Inr (if location s = ON_NORMAL_FREELIST
        then st\<lparr>free_bytes := sub64 (free_bytes st) (page_bytes (span_length s)), spans := ss'\<rparr>
        else st\<lparr>unmapped_bytes := sub64 (unmapped_bytes st) (page_bytes (span_length s)), spans := ss'\<rparr>) \<and>
      lists_ok ss' H (F(h := xs @ ys)) \<and> same_data (spans st) ss'"
  using DLL_Remove_lists [OF assms(1-3)] assms(4)
  by (auto simp: returns_iff RemoveFromFreeList_def get_span_def on_spans_def)

lemma PrependToFreeList_eff:
  assumes "lists_ok (spans st) H F" "heads \<subseteq> H" "spans st (Obj a) = Some s" "Obj a \<notin> H" "\<And>h. h \<in> H \<Longrightarrow> Obj a \<notin> set (F h)"
  shows "\<exists>ss'. PrependToFreeList (Obj a) st = Inr (if location s = ON_NORMAL_FREELIST
        then st\<lparr>free_bytes := add64 (free_bytes st) (page_bytes (span_length s)), spans := ss'\<rparr>
        else st\<lparr>unmapped_bytes := add64 (unmapped_bytes st) (page_bytes (span_length s)), spans := ss'\<rparr>) \<and>
      lists_ok ss' H (F(head_of s := Obj a # F (head_of s))) \<and> same_data (spans st) ss'"
proof -
  have "head_of s \<in> H" "Obj a \<in> dom (spans st)" using assms(2,3) head_of_heads by blast+
  then obtain ss' where ss': "DLL_Prepend (head_of s) (Obj a) (spans st) = Inr ss'"
      "lists_ok ss' H (F(head_of s := Obj a # F (head_of s)))" "same_data (spans st) ss'"
    using DLL_Prepend_lists [OF assms(1) _ _ assms(4,5), of "head_of s"] by (auto simp: returns_iff)
  then show ?thesis
    using assms(3)
    by (intro exI [of _ ss'], cases "location s = ON_NORMAL_FREELIST")
      (simp_all add: PrependToFreeList_def get_span_def on_spans_def head_of_def)
qed

lemma pagemap_set_eff:
  assumes "wf3 (pagemap st)" "ensured3 kPageMapBits (pagemap st) k"
  shows "\<exists>pm'. pagemap_set k (Obj a) st = Inr (st\<lparr>pagemap := pm'\<rparr>) \<and> wf3 pm' \<and>
      ensured3 kPageMapBits pm' = ensured3 kPageMapBits (pagemap st) \<and>
      view3 kPageMapBits pm' = (view3 kPageMapBits (pagemap st))(k := a)"
  using pm3.set_ensured [OF assms, of a] by (auto simp: returns_iff pagemap_set_def)

lemma RecordSpan_eff:
  assumes "wf3 (pagemap st)" "spans st (Obj a) = Some s" "0 < span_length s"
    "\<And>k. k \<in> pages_of s \<Longrightarrow> ensured3 kPageMapBits (pagemap st) k"
  shows "\<exists>pm'. RecordSpan (Obj a) st = Inr (st\<lparr>pagemap := pm'\<rparr>) \<and> wf3 pm' \<and>
      ensured3 kPageMapBits pm' = ensured3 kPageMapBits (pagemap st) \<and>
      view3 kPageMapBits pm' = (view3 kPageMapBits (pagemap st))(start s := a, start s + span_length s - 1 := a)"
proof -
  have e: "ensured3 kPageMapBits (pagemap st) (start s)" "ensured3 kPageMapBits (pagemap st) (start s + span_length s - 1)"
    using assms(3,4) by (auto simp: pages_of_def)
  obtain pm1 where pm1: "pagemap_set (start s) (Obj a) st = Inr (st\<lparr>pagemap := pm1\<rparr>)" "wf3 pm1"
      "ensured3 kPageMapBits pm1 = ensured3 kPageMapBits (pagemap st)"
      "view3 kPageMapBits pm1 = (view3 kPageMapBits (pagemap st))(start s := a)"
    using pagemap_set_eff [OF assms(1) e(1), of a] by blast
  obtain pm2 where pm2: "pagemap_set (start s + span_length s - 1) (Obj a) (st\<lparr>pagemap := pm1\<rparr>) = Inr (st\<lparr>pagemap := pm2\<rparr>)" "wf3 pm2"
      "ensured3 kPageMapBits pm2 = ensured3 kPageMapBits (pagemap st)"
      "view3 kPageMapBits pm2 = (view3 kPageMapBits (pagemap st))(start s := a, start s + span_length s - 1 := a)"
    using pagemap_set_eff [of "st\<lparr>pagemap := pm1\<rparr>" "start s + span_length s - 1" a] pm1 e(2) by auto
  show ?thesis
  proof (cases "1 < span_length s")
    case True
    then show ?thesis using assms(2) pm1 pm2 by (intro exI [of _ pm2]) (simp add: RecordSpan_def get_span_def)
  next
    case False
    then have "span_length s = 1" using assms(3) by simp
    then show ?thesis using assms(2) pm1 by (intro exI [of _ pm1]) (simp add: RecordSpan_def get_span_def)
  qed
qed

lemma GetDescriptor_eff: "wf3 (pagemap st) \<Longrightarrow> GetDescriptor p st = Inr (Obj (view3 kPageMapBits (pagemap st) p))"
  by (simp add: GetDescriptor_def pm3.get_view)

text \<open>What a step leaves alone: everything but spans, lists, page map and the bytes on the lists.\<close>

definition hrest where
  "hrest st = (meta_state.truncate st, (system_bytes st, committed_bytes st, scavenge_counter st, release_index st),
     (aggressive_decommit st, FLAGS_tcmalloc_release_rate st, FLAGS_tcmalloc_heap_limit_mb st, pagemap_cache st),
     heap.more st)"

lemma hrest_simps [simp]:
  "hrest (st\<lparr>spans := ss\<rparr>) = hrest st" "hrest (st\<lparr>pagemap := pm\<rparr>) = hrest st"
  "hrest (st\<lparr>free_bytes := n\<rparr>) = hrest st" "hrest (st\<lparr>unmapped_bytes := n\<rparr>) = hrest st"
  "hrest (st\<lparr>span_allocator := pha\<rparr>) = hrest st" "hrest (st\<lparr>span_links := l\<rparr>) = hrest st"
  by (simp_all add: hrest_def meta_state.defs)

lemma hrestD:
  assumes "hrest st' = hrest st"
  shows "system_bytes st' = system_bytes st" "committed_bytes st' = committed_bytes st"
    "scavenge_counter st' = scavenge_counter st" "release_index st' = release_index st"
    "aggressive_decommit st' = aggressive_decommit st" "heap.more st' = heap.more st"
    "FLAGS_tcmalloc_release_rate st' = FLAGS_tcmalloc_release_rate st"
    "FLAGS_tcmalloc_heap_limit_mb st' = FLAGS_tcmalloc_heap_limit_mb st" "pagemap_cache st' = pagemap_cache st"
    "os_st st' = os_st st" "TCMalloc_SystemTaken st' = TCMalloc_SystemTaken st"
    "meta_inv os owned used st' = meta_inv os owned used st"
proof -
  have t: "meta_state.truncate st' = meta_state.truncate st" using assms by (simp add: hrest_def)
  have f: "os_st st' = os_st st" "TCMalloc_SystemTaken st' = TCMalloc_SystemTaken st" "pagesize st' = pagesize st"
      "allocs st' = allocs st" "failed st' = failed st" "system_alloc_inited st' = system_alloc_inited st"
      "metadata_chunk_alloc st' = metadata_chunk_alloc st" "metadata_chunk_avail st' = metadata_chunk_avail st"
    using t by (simp_all add: meta_state.defs)
  show "os_st st' = os_st st" "TCMalloc_SystemTaken st' = TCMalloc_SystemTaken st" by (rule f)+
  show "meta_inv os owned used st' = meta_inv os owned used st"
    unfolding meta_inv_def chunk_def sys_inv_def f by simp
qed (use assms in \<open>simp_all add: hrest_def\<close>)

lemma pha_inv_rest: "hrest st' = hrest st \<Longrightarrow> pha_inv os owned sz live (a, links, st') = pha_inv os owned sz live (a, links, st)"
  using hrestD(12) [of st' st os owned] by (simp add: pha_inv_def)

text \<open>A free span leaves its list and ceases to exist.\<close>

lemma list_split:
  assumes "lists_exact D H F" "D b = Some t" "free_span t"
  shows "\<exists>xs ys. F (head_of t) = xs @ Obj b # ys"
proof -
  have "Obj b \<in> set (F (head_of t))" using assms by (auto simp: lists_exact_def)
  then show ?thesis by (rule split_list)
qed

lemma lists_ok_distinct: "lists_ok ss H F \<Longrightarrow> h \<in> H \<Longrightarrow> distinct (F h)"
  using lists_okD(1) [of ss H F h] by (simp add: dlist_def)

lemma lists_exact_remove:
  assumes ex: "lists_exact D H F" and D: "D b = Some t" "free_span t" and F: "F (head_of t) = xs @ Obj b # ys"
    and dist: "distinct (F (head_of t))" and D': "\<And>a. a \<noteq> b \<Longrightarrow> D' a = D a" "\<And>s. D' b = Some s \<Longrightarrow> location s = IN_USE"
  shows "lists_exact D' H (F(head_of t := xs @ ys))"
proof -
  let ?S = "\<lambda>D h. {Obj a | a s. D a = Some s \<and> free_span s \<and> head_of s = h}"
  have S: "?S D' h = ?S D h - {Obj b}" for h
  proof -
    have "(\<exists>s. D' a = Some s \<and> free_span s \<and> head_of s = h) \<longleftrightarrow> a \<noteq> b \<and> (\<exists>s. D a = Some s \<and> free_span s \<and> head_of s = h)" for a
      using D' by (cases "a = b") (auto simp: free_span_def)
    then show ?thesis by auto
  qed
  have e: "\<And>h. h \<in> heads \<Longrightarrow> set (F h) = ?S D h" "heads \<subseteq> H" "H \<inter> range Obj = {}"
      "\<And>h x. h \<in> H - heads \<Longrightarrow> x \<in> set (F h) \<Longrightarrow> \<exists>a s. x = Obj a \<and> D a = Some s \<and> location s = IN_USE"
    using ex unfolding lists_exact_def by blast+
  have "set ((F(head_of t := xs @ ys)) h) = ?S D' h" if "h \<in> heads" for h
  proof (cases "h = head_of t")
    case True
    have "set (xs @ ys) = set (F (head_of t)) - {Obj b}" using F dist by auto
    then show ?thesis using True e(1) [OF that] S by simp
  next
    case False
    then have "Obj b \<notin> ?S D h" using D(1) by auto
    then show ?thesis using False e(1) [OF that] S [of h] by simp
  qed
  moreover have "\<exists>a s. x = Obj a \<and> D' a = Some s \<and> location s = IN_USE"
    if hx: "h \<in> H - heads" "x \<in> set ((F(head_of t := xs @ ys)) h)" for h x
  proof -
    have "h \<noteq> head_of t" using hx(1) by auto
    then have "x \<in> set (F h)" using hx(2) by simp
    then obtain a s where a: "x = Obj a" "D a = Some s" "location s = IN_USE" using e(4) [OF hx(1)] by blast
    then have "a \<noteq> b" using D by (auto simp: free_span_def)
    then show ?thesis using a D'(1) by auto
  qed
  ultimately show ?thesis using e(2,3) unfolding lists_exact_def by blast
qed

lemma RemoveFromFreeList_bytes:
  assumes "hgen0 os owned H F D st" "D b = Some t" "free_span t"
  shows "if location t = ON_NORMAL_FREELIST
    then sub64 (free_bytes st) (page_bytes (span_length t)) =
           2 ^ kPageShift * (npages (\<lambda>s. location s = ON_NORMAL_FREELIST) D - span_length t) \<and>
         span_length t \<le> npages (\<lambda>s. location s = ON_NORMAL_FREELIST) D
    else sub64 (unmapped_bytes st) (page_bytes (span_length t)) =
           2 ^ kPageShift * (npages (\<lambda>s. location s = ON_RETURNED_FREELIST) D - span_length t) \<and>
         span_length t \<le> npages (\<lambda>s. location s = ON_RETURNED_FREELIST) D"
proof -
  have fin: "finite (dom D)" using assms(1) by (simp add: hgen0_def spans_wf_def)
  note b = hgen_bounds [OF assms(1)]
  have pb: "page_bytes (span_length t) = 2 ^ kPageShift * span_length t"
    using b(4) [OF assms(2)] by (intro page_bytes_id) simp
  have le: "location t = l \<Longrightarrow> span_length t \<le> npages (\<lambda>s. location s = l) D" for l
    using span_le_npages [OF fin assms(2), of "\<lambda>s. location s = l"] by simp
  have bytes: "free_bytes st = 2 ^ kPageShift * npages (\<lambda>s. location s = ON_NORMAL_FREELIST) D"
      "unmapped_bytes st = 2 ^ kPageShift * npages (\<lambda>s. location s = ON_RETURNED_FREELIST) D"
    using assms(1) by (auto simp: hgen0_def)
  have sub: "2 ^ kPageShift * m < 2 ^ 64 \<Longrightarrow> k \<le> m \<Longrightarrow> sub64 (2 ^ kPageShift * m) (2 ^ kPageShift * k) = 2 ^ kPageShift * (m - k)" for m k
    by (subst sub64_id) (auto simp: diff_mult_distrib2)
  show ?thesis
    using le [of "location t"] sub [of "npages (\<lambda>s. location s = location t) D" "span_length t"] b(2) bytes assms(3)
    unfolding pb free_span_def by (cases "location t") auto
qed

text \<open>The step that changes a span and is known to keep the spans apart.\<close>

lemma spans_wf_sub:
  assumes "spans_wf D" "\<And>a s. D' a = Some s \<Longrightarrow> \<exists>t. D a = Some t \<and> start s = start t \<and> span_length s = span_length t"
  shows "spans_wf D'"
proof -
  have "dom D' \<subseteq> dom D" using assms(2) by blast
  then have fin: "finite (dom D')" using assms(1) finite_subset by (auto simp: spans_wf_def)
  have wf: "\<And>a s. D a = Some s \<Longrightarrow> a \<noteq> 0 \<and> 0 < span_length s \<and> 0 < start s \<and> start s + span_length s \<le> 2 ^ kPageMapBits"
    and dis: "\<And>a b s t. D a = Some s \<Longrightarrow> D b = Some t \<Longrightarrow> a \<noteq> b \<Longrightarrow> pages_of s \<inter> pages_of t = {}"
    using assms(1) unfolding spans_wf_def by blast+
  have one: "a \<noteq> 0 \<and> 0 < span_length s \<and> 0 < start s \<and> start s + span_length s \<le> 2 ^ kPageMapBits" if "D' a = Some s" for a s
    using assms(2) [OF that] wf by fastforce
  have two: "pages_of s \<inter> pages_of t = {}" if st: "D' a = Some s" "D' b = Some t" "a \<noteq> b" for a b s t
  proof -
    obtain s' t' where "D a = Some s'" "D b = Some t'" "pages_of s = pages_of s'" "pages_of t = pages_of t'"
      using assms(2) [OF st(1)] assms(2) [OF st(2)] by (auto simp: pages_of_def)
    then show ?thesis using dis [of a s' b t'] st(3) by simp
  qed
  show ?thesis unfolding spans_wf_def using fin one two by blast
qed

lemma coalesced_sub:
  assumes "coalesced D" "\<And>a s. D' a = Some s \<Longrightarrow> location s = IN_USE \<or> D a = Some s"
  shows "coalesced D'"
  using assms unfolding coalesced_def by metis

definition on_no_list :: "sptr set \<Rightarrow> (sptr \<Rightarrow> sptr list) \<Rightarrow> addr \<Rightarrow> bool" where
  "on_no_list H F a \<longleftrightarrow> (\<forall>h\<in>H. Obj a \<notin> set (F h))"

definition bytes_on :: "span_location \<Rightarrow> ('o, 'z) heap_scheme \<Rightarrow> nat" where
  "bytes_on l st = (if l = ON_NORMAL_FREELIST then free_bytes st else unmapped_bytes st)"

lemma mem_ok_step:
  assumes "mem_ok os owned D st" "hrest st' = hrest st" "span_allocator st' = span_allocator st" "span_links st' = span_links st"
    "dom D' = dom D" "\<And>a s. D' a = Some s \<Longrightarrow> \<exists>t. D a = Some t \<and> span_bytes_of s = span_bytes_of t"
  shows "mem_ok os owned D' st'"
proof -
  have "span_bytes_of s \<subseteq> owned (os_st st)" if "D' a = Some s" for a s
    using assms(6) [OF that] assms(1) by (auto simp: mem_ok_def)
  then show ?thesis
    using assms(1,3-5) hrestD(1,10) [OF assms(2)] pha_inv_rest [OF assms(2)] by (simp add: mem_ok_def)
qed

lemma remove_take:
  assumes inv: "hgen0 os owned H F D st" and b: "D b = Some t" "free_span t" "sdata (spans st) b = Some t"
  shows "\<exists>st1 F'. RemoveFromFreeList (Obj b) st = Inr st1 \<and> hgen0 os owned H F' (D(b \<mapsto> t\<lparr>location := IN_USE\<rparr>)) st1 \<and>
    on_no_list H F' b \<and> sdata (spans st1) = sdata (spans st) \<and> pagemap st1 = pagemap st \<and> hrest st1 = hrest st \<and>
    (\<forall>h. h \<notin> heads \<longrightarrow> F' h = F h) \<and> (\<forall>a. on_no_list H F a \<longrightarrow> on_no_list H F' a) \<and>
    (\<forall>k. bytes_on k st1 + (if k = ON_NORMAL_FREELIST \<longleftrightarrow> location t = ON_NORMAL_FREELIST then 2 ^ kPageShift * span_length t else 0) = bytes_on k st)"
proof -
  have i: "mem_ok os owned D st" "spans_wf D" "lists_ok (spans st) H F" "lists_exact D H F" "coalesced D" "\<not> aggressive_decommit st"
    using inv by (auto simp: hgen0_def)
  have fin: "finite (dom D)" using i(2) by (simp add: spans_wf_def)
  let ?t = "t\<lparr>location := IN_USE\<rparr>" and ?D = "D(b \<mapsto> t\<lparr>location := IN_USE\<rparr>)"
  obtain xs ys where F: "F (head_of t) = xs @ Obj b # ys" using list_split [OF i(4) b(1,2)] by blast
  let ?F = "F(head_of t := xs @ ys)"
  have hd: "head_of t \<in> H" using i(4) head_of_heads by (auto simp: lists_exact_def)
  obtain t' where t': "spans st (Obj b) = Some t'" "unlink t' = t" using sdata_Some [OF b(3)] by blast
  have t'f: "location t' = location t" "span_length t' = span_length t" using t'(2) by auto
  obtain ss' where ss': "RemoveFromFreeList (Obj b) st = Inr (if location t' = ON_NORMAL_FREELIST
        then st\<lparr>free_bytes := sub64 (free_bytes st) (page_bytes (span_length t')), spans := ss'\<rparr>
        else st\<lparr>unmapped_bytes := sub64 (unmapped_bytes st) (page_bytes (span_length t')), spans := ss'\<rparr>)"
      "lists_ok ss' H ?F" "same_data (spans st) ss'"
    using RemoveFromFreeList_eff [OF i(3) hd F t'(1)] by blast
  define st1 where "st1 = (if location t = ON_NORMAL_FREELIST
        then st\<lparr>free_bytes := sub64 (free_bytes st) (page_bytes (span_length t)), spans := ss'\<rparr>
        else st\<lparr>unmapped_bytes := sub64 (unmapped_bytes st) (page_bytes (span_length t)), spans := ss'\<rparr>)"
  have r1: "RemoveFromFreeList (Obj b) st = Inr st1" using ss'(1) by (simp add: st1_def t'f)
  have s1: "hrest st1 = hrest st" "spans st1 = ss'" "pagemap st1 = pagemap st"
      "span_allocator st1 = span_allocator st" "span_links st1 = span_links st"
    by (simp_all add: st1_def)
  have dist: "distinct (F (head_of t))" by (rule lists_ok_distinct [OF i(3) hd])
  have no: "on_no_list H ?F b" "\<forall>a. on_no_list H F a \<longrightarrow> on_no_list H ?F a"
    using dist F lists_okD(4) [OF i(3) hd] by (fastforce simp: on_no_list_def split: if_splits)+
  have mem: "mem_ok os owned ?D st1"
    by (rule mem_ok_step [OF i(1) s1(1,4,5)]) (use b(1) in \<open>auto simp: span_bytes_of_def split: if_splits\<close>)
  have le: "lists_exact ?D H ?F"
    by (rule lists_exact_remove [OF i(4) b(1,2) F dist]) auto
  have wf: "spans_wf ?D" by (rule spans_wf_sub [OF i(2)]) (use b(1) in \<open>auto split: if_splits\<close>)
  have co: "coalesced ?D" by (rule coalesced_sub [OF i(5)]) (auto split: if_splits)
  note np = npages_update [OF fin b(1), of _ ?t]
  have bytes: "free_bytes st1 = 2 ^ kPageShift * npages (\<lambda>s. location s = ON_NORMAL_FREELIST) ?D"
      "unmapped_bytes st1 = 2 ^ kPageShift * npages (\<lambda>s. location s = ON_RETURNED_FREELIST) ?D"
    using RemoveFromFreeList_bytes [OF inv b(1,2)] np [of "\<lambda>s. location s = ON_NORMAL_FREELIST"]
      np [of "\<lambda>s. location s = ON_RETURNED_FREELIST"] b(2) inv
    by (cases "location t"; simp add: st1_def free_span_def hgen0_def)+
  have tot: "2 ^ kPageShift * npages (\<lambda>_. True) ?D \<le> system_bytes st1"
    using np [of "\<lambda>_. True"] inv hrestD(1) [OF s1(1)] by (simp add: hgen0_def)
  have inv': "hgen0 os owned H ?F ?D st1"
    unfolding hgen0_def using mem wf ss'(2) s1(2) le co bytes tot hrestD(5) [OF s1(1)] i(6) by simp
  have "bytes_on k st1 + (if k = ON_NORMAL_FREELIST \<longleftrightarrow> location t = ON_NORMAL_FREELIST then 2 ^ kPageShift * span_length t else 0) = bytes_on k st" for k
    using np [of "\<lambda>s. location s = ON_NORMAL_FREELIST"] np [of "\<lambda>s. location s = ON_RETURNED_FREELIST"] b(2) inv
    unfolding bytes_on_def bytes by (cases "location t") (auto simp: free_span_def hgen0_def simp flip: distrib_left)
  moreover have "?F h = F h" if "h \<notin> heads" for h using that head_of_heads [of t] by auto
  ultimately show ?thesis
    using r1 inv' no sdata_same [OF ss'(3)] s1 by (intro exI [of _ st1] exI [of _ ?F]) simp
qed

lemma delete_in_use:
  assumes inv: "hgen0 os owned H F D st" and b: "D b = Some t" "location t = IN_USE" "on_no_list H F b"
  shows "\<exists>st'. DeleteSpan (Obj b) st = Inr st' \<and> hgen0 os owned H F (D(b := None)) st' \<and>
    sdata (spans st') = (sdata (spans st))(b := None) \<and> pagemap st' = pagemap st \<and> hrest st' = hrest st \<and>
    (\<forall>k. bytes_on k st' = bytes_on k st)"
proof -
  have i: "mem_ok os owned D st" "spans_wf D" "lists_ok (spans st) H F" "lists_exact D H F" "coalesced D" "\<not> aggressive_decommit st"
    using inv by (auto simp: hgen0_def)
  have fin: "finite (dom D)" using i(2) by (simp add: spans_wf_def)
  obtain pha links where del: "PHA_Delete b (span_allocator st) (span_links st) = Inr (pha, links)"
      "pha_inv os owned sizeof_Span (dom D - {b}) (pha, links, st)"
    using pha_delete_live [of os owned sizeof_Span "dom D" "(span_allocator st, span_links st, st)" b] b(1) i(1)
    by (auto simp: mem_ok_def pha_delete_def returns_iff bind_res_Inr_iff)
  define st' where "st' = st\<lparr>span_allocator := pha, span_links := links, spans := (spans st)(Obj b := None)\<rparr>"
  have r: "DeleteSpan (Obj b) st = Inr st'" "hrest st' = hrest st" using del(1) by (simp_all add: DeleteSpan_def st'_def)
  have "Obj b \<notin> H" using i(4) by (auto simp: lists_exact_def)
  then have lo: "lists_ok (spans st') H F"
    using lists_ok_upd_other [OF i(3)] b(3) by (simp add: st'_def on_no_list_def)
  have "(\<exists>s. (D(b := None)) a = Some s \<and> free_span s \<and> head_of s = h) \<longleftrightarrow> (\<exists>s. D a = Some s \<and> free_span s \<and> head_of s = h)" for a h
    using b(1,2) by (auto simp: free_span_def)
  then have e: "{Obj a | a s. (D(b := None)) a = Some s \<and> free_span s \<and> head_of s = h} = {Obj a | a s. D a = Some s \<and> free_span s \<and> head_of s = h}" for h
    by auto
  have "\<exists>a s. x = Obj a \<and> (D(b := None)) a = Some s \<and> location s = IN_USE" if "h \<in> H - heads" "x \<in> set (F h)" for h x
  proof -
    have "\<exists>a s. x = Obj a \<and> D a = Some s \<and> location s = IN_USE" using that i(4) unfolding lists_exact_def by blast
    moreover have "x \<noteq> Obj b" using that b(3) by (auto simp: on_no_list_def)
    ultimately show ?thesis by auto
  qed
  then have cen: "\<forall>h\<in>H - heads. \<forall>x\<in>set (F h). \<exists>a s. x = Obj a \<and> (D(b := None)) a = Some s \<and> location s = IN_USE"
    by blast
  have le: "lists_exact (D(b := None)) H F"
    unfolding lists_exact_def e using i(4) cen by (auto simp only: lists_exact_def)
  have "dom (D(b := None)) = dom D - {b}" by auto
  then have mem: "mem_ok os owned (D(b := None)) st'"
    using i(1) del(2) hrestD(1,10) [OF r(2)] pha_inv_rest [OF r(2), of os owned sizeof_Span "dom D - {b}" pha links]
    by (auto simp: mem_ok_def st'_def split: if_splits)
  have wf: "spans_wf (D(b := None))" by (rule spans_wf_sub [OF i(2)]) (auto split: if_splits)
  have co: "coalesced (D(b := None))" by (rule coalesced_sub [OF i(5)]) (auto split: if_splits)
  note np = npages_delete [OF fin b(1)]
  have "2 ^ kPageShift * npages (\<lambda>_. True) (D(b := None)) \<le> 2 ^ kPageShift * npages (\<lambda>_. True) D"
    using np [of "\<lambda>_. True"] by (intro mult_le_mono2) simp
  also have "\<dots> \<le> system_bytes st'" using inv by (simp add: hgen0_def st'_def)
  finally have tot: "2 ^ kPageShift * npages (\<lambda>_. True) (D(b := None)) \<le> system_bytes st'" .
  have "hgen0 os owned H F (D(b := None)) st'"
    unfolding hgen0_def using mem wf lo le co tot hrestD(5) [OF r(2)] i(6) inv b(2)
      np [of "\<lambda>s. location s = ON_NORMAL_FREELIST"] np [of "\<lambda>s. location s = ON_RETURNED_FREELIST"]
    by (auto simp: st'_def hgen0_def)
  then show ?thesis using r by (intro exI [of _ st']) (simp add: st'_def bytes_on_def)
qed

lemma remove_delete:
  assumes inv: "hgen0 os owned H F D st" and b: "D b = Some t" "free_span t" "sdata (spans st) b = Some t"
  shows "\<exists>st' F'. bind_res (RemoveFromFreeList (Obj b) st) (DeleteSpan (Obj b)) = Inr st' \<and>
    hgen0 os owned H F' (D(b := None)) st' \<and> sdata (spans st') = (sdata (spans st))(b := None) \<and>
    pagemap st' = pagemap st \<and> hrest st' = hrest st \<and>
    (\<forall>h. h \<notin> heads \<longrightarrow> F' h = F h) \<and> (\<forall>a. on_no_list H F a \<longrightarrow> on_no_list H F' a)"
proof -
  obtain st1 F' where 1: "RemoveFromFreeList (Obj b) st = Inr st1" "hgen0 os owned H F' (D(b \<mapsto> t\<lparr>location := IN_USE\<rparr>)) st1"
      "on_no_list H F' b" "sdata (spans st1) = sdata (spans st)" "pagemap st1 = pagemap st" "hrest st1 = hrest st"
      "\<forall>h. h \<notin> heads \<longrightarrow> F' h = F h" "\<forall>a. on_no_list H F a \<longrightarrow> on_no_list H F' a"
    using remove_take [OF assms] by blast
  obtain st' where 2: "DeleteSpan (Obj b) st1 = Inr st'" "hgen0 os owned H F' (D(b := None)) st'"
      "sdata (spans st') = (sdata (spans st1))(b := None)" "pagemap st' = pagemap st1" "hrest st' = hrest st1"
    using delete_in_use [OF 1(2), of b "t\<lparr>location := IN_USE\<rparr>"] 1(3) by auto
  show ?thesis using 1 2 by (intro exI [of _ st'] exI [of _ F']) simp
qed

end
