(* ===== verification/Page_Heap_Merge.thy ===== *)
theory Page_Heap_Merge
  imports Page_Heap_Inv
begin

text \<open>
  Coalescing keeps the invariant of the page heap: merging the neighbours of a span that is about to
  be freed, and putting it on its free list.  The spans in use are the abstract state of the page heap.
\<close>

section \<open>Consequences of the invariant\<close>

lemma spans_wfD:
  assumes "spans_wf D" "D a = Some s"
  shows "a \<noteq> 0" "0 < span_length s" "0 < start s" "start s + span_length s \<le> 2 ^ kPageMapBits"
    "start s \<in> pages_of s" "start s + span_length s - 1 \<in> pages_of s"
proof -
  have "a \<noteq> 0 \<and> 0 < span_length s \<and> 0 < start s \<and> start s + span_length s \<le> 2 ^ kPageMapBits"
    using assms unfolding spans_wf_def by blast
  then show "a \<noteq> 0" "0 < span_length s" "0 < start s" "start s + span_length s \<le> 2 ^ kPageMapBits"
    "start s \<in> pages_of s" "start s + span_length s - 1 \<in> pages_of s"
    by (auto simp: pages_of_def)
qed

lemma spans_disjoint: "spans_wf D \<Longrightarrow> D a = Some s \<Longrightarrow> D b = Some t \<Longrightarrow> a \<noteq> b \<Longrightarrow> pages_of s \<inter> pages_of t = {}"
  unfolding spans_wf_def by blast

lemma spans_finite: "spans_wf D \<Longrightarrow> finite (dom D)"
  by (simp add: spans_wf_def)

lemma map_okD:
  assumes "map_ok D pm" "D a = Some s"
  shows "view3 kPageMapBits pm (start s) = a" "view3 kPageMapBits pm (start s + span_length s - 1) = a"
    "k \<in> pages_of s \<Longrightarrow> ensured3 kPageMapBits pm k" "sizeclass s \<noteq> 0 \<Longrightarrow> location s = IN_USE"
    "sizeclass s \<noteq> 0 \<Longrightarrow> k \<in> pages_of s \<Longrightarrow> view3 kPageMapBits pm k = a"
  using assms unfolding map_ok_def by blast+

lemma map_ok_covers: "map_ok D pm \<Longrightarrow> view3 kPageMapBits pm k \<noteq> 0 \<Longrightarrow> \<exists>a s. D a = Some s \<and> k \<in> pages_of s"
  unfolding map_ok_def by blast

lemma coalescedD:
  assumes "coalesced D" "D a = Some s" "D b = Some t" "start t = start s + span_length s" "location s = location t"
  shows "location s = IN_USE"
  using assms unfolding coalesced_def by blast

lemma unlinkD:
  assumes "unlink t = s"
  shows "location t = location s" "span_length t = span_length s" "start t = start s" "sizeclass t = sizeclass s"
    "head_of t = head_of s"
  using assms by (auto simp: head_of_def)

section \<open>Changing the view of one span\<close>

definition in_use :: "(addr \<rightharpoonup> Span) \<Rightarrow> addr \<rightharpoonup> Span" where
  "in_use D a = (case D a of None \<Rightarrow> None | Some s \<Rightarrow> if location s = IN_USE then Some s else None)"

lemma in_use_upd [simp]: "in_use (D(a \<mapsto> s)) = (in_use D)(a := if location s = IN_USE then Some s else None)"
  by (auto simp: in_use_def)

lemma in_use_del [simp]: "in_use (D(a := None)) = (in_use D)(a := None)"
  by (auto simp: in_use_def)

lemma in_use_free: "D a = Some s \<Longrightarrow> free_span s \<Longrightarrow> in_use D a = None"
  by (auto simp: in_use_def free_span_def)

definition room_for :: "(addr \<rightharpoonup> Span) \<Rightarrow> addr \<Rightarrow> Span \<Rightarrow> bool" where
  "room_for D a s \<longleftrightarrow> 0 < span_length s \<and> 0 < start s \<and> start s + span_length s \<le> 2 ^ kPageMapBits \<and>
     (\<forall>b t. b \<noteq> a \<and> D b = Some t \<longrightarrow> pages_of s \<inter> pages_of t = {})"

lemma spans_wf_upd:
  assumes "spans_wf D" "a \<noteq> 0" "room_for D a s"
  shows "spans_wf (D(a \<mapsto> s))"
  using assms by (auto simp: spans_wf_def room_for_def Int_commute)

lemma npages_in_use:
  assumes "finite (dom D)" "\<And>t. D a = Some t \<Longrightarrow> location t = IN_USE" "location s = IN_USE" "l \<noteq> IN_USE"
  shows "npages (\<lambda>s. location s = l) (D(a \<mapsto> s)) = npages (\<lambda>s. location s = l) D"
proof (cases "D a")
  case None
  then show ?thesis using npages_insert [OF assms(1) None] assms(3,4) by simp
next
  case (Some t)
  then show ?thesis
    using npages_update [OF assms(1) Some, of "\<lambda>s. location s = l" s] assms(2) [OF Some] assms(3,4) by simp
qed

lemma lists_exact_in_use:
  assumes "lists_exact D H F" "\<And>t. D a = Some t \<Longrightarrow> location t = IN_USE" "location s = IN_USE"
  shows "lists_exact (D(a \<mapsto> s)) H F"
proof -
  have e: "(\<exists>t. (D(a \<mapsto> s)) b = Some t \<and> free_span t \<and> head_of t = h) \<longleftrightarrow> (\<exists>t. D b = Some t \<and> free_span t \<and> head_of t = h)" for b h
    using assms(2,3) by (auto simp: free_span_def)
  have "{Obj b | b t. (D(a \<mapsto> s)) b = Some t \<and> free_span t \<and> head_of t = h} = {Obj b | b t. D b = Some t \<and> free_span t \<and> head_of t = h}" for h
    using e [of _ h] by blast
  moreover have "\<exists>b t. x = Obj b \<and> (D(a \<mapsto> s)) b = Some t \<and> location t = IN_USE"
    if "\<exists>b t. x = Obj b \<and> D b = Some t \<and> location t = IN_USE" for x
    using that assms(3) by (auto split: if_splits)
  ultimately show ?thesis using assms(1) unfolding lists_exact_def by simp
qed

text \<open>A span in use may change its extent within the room it has.\<close>

lemma hgen0_in_use:
  assumes inv: "hgen0 os owned H F D st" and a: "D a = Some s" "location s = IN_USE"
    and s': "location s' = IN_USE" "room_for D a s'" "span_bytes_of s' \<subseteq> owned (os_st st)"
      "2 ^ kPageShift * npages (\<lambda>_. True) (D(a \<mapsto> s')) \<le> system_bytes st"
  shows "hgen0 os owned H F (D(a \<mapsto> s')) st"
proof -
  have i: "mem_ok os owned D st" "spans_wf D" "lists_exact D H F" "coalesced D"
    using inv by (auto simp: hgen0_def)
  have fin: "finite (dom D)" and nz: "a \<noteq> 0" using i(2) a(1) by (auto simp: spans_wf_def)
  have "dom (D(a \<mapsto> s')) = dom D" using a(1) by auto
  then have m: "mem_ok os owned (D(a \<mapsto> s')) st" using i(1) s'(3) unfolding mem_ok_def by auto
  have c: "coalesced (D(a \<mapsto> s'))" using i(4) s'(1) unfolding coalesced_def by (metis map_upd_Some_unfold)
  show ?thesis
    using inv m c spans_wf_upd [OF i(2) nz s'(2)] lists_exact_in_use [OF i(3) _ s'(1), of a] a
      npages_in_use [OF fin _ s'(1), of a] s'(4)
    unfolding hgen0_def by simp
qed

lemma hgen0_store:
  assumes "hgen0 os owned H F D st" "lists_ok ss H F"
  shows "hgen0 os owned H F D (st\<lparr>spans := ss\<rparr>)"
  using assms pha_inv_rest [of "st\<lparr>spans := ss\<rparr>" st] by (simp add: hgen0_def mem_ok_def)

lemma hgen0_pagemap: "hgen0 os owned H F D (st\<lparr>pagemap := pm\<rparr>) = hgen0 os owned H F D st"
  using pha_inv_rest [of "st\<lparr>pagemap := pm\<rparr>" st] by (simp add: hgen0_def mem_ok_def)

lemma lists_exact_list:
  assumes "lists_exact D H F" "h \<in> H" "Obj a \<in> set (F h)"
  shows "\<exists>s. D a = Some s"
proof (cases "h \<in> heads")
  case True
  then have "Obj a \<in> {Obj a | a s. D a = Some s \<and> free_span s \<and> head_of s = h}"
    using assms(1,3) unfolding lists_exact_def by blast
  then show ?thesis by blast
next
  case False
  then have "\<exists>b s. Obj a = Obj b \<and> D b = Some s \<and> location s = IN_USE"
    using assms unfolding lists_exact_def by blast
  then show ?thesis by blast
qed

lemma on_no_list_new: "hgen0 os owned H F D st \<Longrightarrow> D a = None \<Longrightarrow> on_no_list H F a"
  using lists_exact_list [of D H F _ a] by (fastforce simp: hgen0_def on_no_list_def)

lemma Obj_notin_H: "hgen0 os owned H F D st \<Longrightarrow> Obj a \<notin> H"
  by (auto simp: hgen0_def lists_exact_def)

section \<open>Changing the page map\<close>

lemma map_ok_change:
  assumes ok: "map_ok D pm" and wf: "wf3 pm'" "ensured3 kPageMapBits pm' = ensured3 kPageMapBits pm" and D: "spans_wf D"
    and same: "\<And>c t. D' c = Some t \<Longrightarrow>
       D c = Some t \<and> (\<forall>k\<in>pages_of t. view3 kPageMapBits pm' k = view3 kPageMapBits pm k) \<or>
       view3 kPageMapBits pm' (start t) = c \<and> view3 kPageMapBits pm' (start t + span_length t - 1) = c \<and>
       (\<forall>k\<in>pages_of t. ensured3 kPageMapBits pm k) \<and> sizeclass t = 0"
    and cov: "\<And>k. view3 kPageMapBits pm' k \<noteq> view3 kPageMapBits pm k \<or> (\<exists>b t. D b = Some t \<and> k \<in> pages_of t) \<Longrightarrow>
       \<exists>b t. D' b = Some t \<and> k \<in> pages_of t"
  shows "map_ok D' pm'"
proof -
  have one: "view3 kPageMapBits pm' (start t) = c \<and> view3 kPageMapBits pm' (start t + span_length t - 1) = c \<and>
      (\<forall>k\<in>pages_of t. ensured3 kPageMapBits pm' k) \<and>
      (sizeclass t \<noteq> 0 \<longrightarrow> location t = IN_USE \<and> (\<forall>k\<in>pages_of t. view3 kPageMapBits pm' k = c))"
    if "D' c = Some t" for c t
    using same [OF that]
  proof
    assume u: "D c = Some t \<and> (\<forall>k\<in>pages_of t. view3 kPageMapBits pm' k = view3 kPageMapBits pm k)"
    then have "start t \<in> pages_of t" "start t + span_length t - 1 \<in> pages_of t"
      using spans_wfD(5,6) [OF D] by blast+
    then show ?thesis using u map_okD [OF ok, of c t] wf(2) by auto
  next
    assume "view3 kPageMapBits pm' (start t) = c \<and> view3 kPageMapBits pm' (start t + span_length t - 1) = c \<and>
       (\<forall>k\<in>pages_of t. ensured3 kPageMapBits pm k) \<and> sizeclass t = 0"
    then show ?thesis using wf(2) by simp
  qed
  have two: "\<exists>b t. D' b = Some t \<and> k \<in> pages_of t" if k: "view3 kPageMapBits pm' k \<noteq> 0" for k
  proof (cases "view3 kPageMapBits pm' k = view3 kPageMapBits pm k")
    case True
    then have "\<exists>b t. D b = Some t \<and> k \<in> pages_of t" using k map_ok_covers [OF ok, of k] by simp
    then show ?thesis by (rule cov [OF disjI2])
  qed (rule cov [OF disjI1])
  show ?thesis unfolding map_ok_def using wf(1) one two by blast
qed

lemma map_ok_same_extent:
  assumes "map_ok D pm" "spans_wf D" "D a = Some s" "start s' = start s" "span_length s' = span_length s" "sizeclass s' = 0"
  shows "map_ok (D(a \<mapsto> s')) pm"
proof (rule map_ok_change [OF assms(1) _ refl assms(2)])
  show "wf3 pm" using assms(1) by (simp add: map_ok_def)
  have pg: "pages_of s' = pages_of s" using assms(4,5) by (simp add: pages_of_def)
  show "D c = Some t \<and> (\<forall>k\<in>pages_of t. view3 kPageMapBits pm k = view3 kPageMapBits pm k) \<or>
       view3 kPageMapBits pm (start t) = c \<and> view3 kPageMapBits pm (start t + span_length t - 1) = c \<and>
       (\<forall>k\<in>pages_of t. ensured3 kPageMapBits pm k) \<and> sizeclass t = 0" if "(D(a \<mapsto> s')) c = Some t" for c t
  proof (cases "c = a")
    case True
    then have "t = s'" using that by simp
    then show ?thesis using True assms(4-6) map_okD(1,2) [OF assms(1,3)] map_okD(3) [OF assms(1,3)] pg by (intro disjI2) simp
  next
    case False
    then show ?thesis using that by simp
  qed
  fix k assume "view3 kPageMapBits pm k \<noteq> view3 kPageMapBits pm k \<or> (\<exists>b t. D b = Some t \<and> k \<in> pages_of t)"
  then obtain b t where b: "D b = Some t" "k \<in> pages_of t" by blast
  have "(D(a \<mapsto> s')) b = Some (if b = a then s' else t)" using b(1) by simp
  moreover have "k \<in> pages_of (if b = a then s' else t)" using b assms(3) pg by (cases "b = a") simp_all
  ultimately show "\<exists>b t. (D(a \<mapsto> s')) b = Some t \<and> k \<in> pages_of t"
    by (intro exI [of _ b] exI [of _ "if b = a then s' else t"] conjI)
qed

lemma map_ok_location:
  assumes "map_ok D pm" "spans_wf D" "D a = Some s" "sizeclass s = 0"
  shows "map_ok (D(a \<mapsto> s\<lparr>location := l\<rparr>)) pm"
  using map_ok_same_extent [OF assms(1-3), of "s\<lparr>location := l\<rparr>"] assms(4) by simp

text \<open>The descriptor of the page before, and of the page after a span, is that of its neighbour.\<close>

lemma prev_neighbour:
  assumes "map_ok D pm" "spans_wf D" "D a = Some s" "view3 kPageMapBits pm (start s - 1) = b" "b \<noteq> 0"
  shows "\<exists>t. D b = Some t \<and> start t + span_length t = start s \<and> b \<noteq> a"
proof -
  note pos = spans_wfD [OF assms(2,3)]
  obtain c t where t: "D c = Some t" "start s - 1 \<in> pages_of t"
    using map_ok_covers [OF assms(1), of "start s - 1"] assms(4,5) by blast
  have "start s - 1 \<notin> pages_of s" using pos(3) by (auto simp: pages_of_def)
  then have ca: "c \<noteq> a" using t assms(3) by auto
  then have "start s \<notin> pages_of t" using spans_disjoint [OF assms(2) t(1) assms(3)] pos(5) by auto
  then have e: "start t + span_length t = start s" using t(2) pos(3) by (auto simp: pages_of_def)
  then have "c = b" using map_okD(2) [OF assms(1) t(1)] assms(4) by simp
  then show ?thesis using t(1) e ca by auto
qed

lemma next_neighbour:
  assumes "map_ok D pm" "spans_wf D" "D a = Some s" "view3 kPageMapBits pm (start s + span_length s) = b" "b \<noteq> 0"
  shows "\<exists>t. D b = Some t \<and> start t = start s + span_length s \<and> b \<noteq> a"
proof -
  note pos = spans_wfD [OF assms(2,3)]
  obtain c t where t: "D c = Some t" "start s + span_length s \<in> pages_of t"
    using map_ok_covers [OF assms(1), of "start s + span_length s"] assms(4,5) by blast
  have "start s + span_length s \<notin> pages_of s" by (auto simp: pages_of_def)
  then have ca: "c \<noteq> a" using t assms(3) by auto
  then have "start s + span_length s - 1 \<notin> pages_of t" using spans_disjoint [OF assms(2) t(1) assms(3)] pos(6) by auto
  then have e: "start t = start s + span_length s" using t(2) pos(2) by (auto simp: pages_of_def)
  then have "c = b" using map_okD(1) [OF assms(1) t(1)] assms(4) by simp
  then show ?thesis using t(1) e ca by auto
qed

section \<open>Putting a span on its free list\<close>

lemma lists_exact_add:
  assumes ex: "lists_exact D H F" and a: "D a = Some s" "location s = IN_USE" "on_no_list H F a" and l: "free_span s'"
  shows "lists_exact (D(a \<mapsto> s')) H (F(head_of s' := Obj a # F (head_of s')))"
proof -
  let ?F = "F(head_of s' := Obj a # F (head_of s'))"
  let ?S = "\<lambda>D h. {Obj a | a s. D a = Some s \<and> free_span s \<and> head_of s = h}"
  have e: "\<And>h. h \<in> heads \<Longrightarrow> set (F h) = ?S D h" "heads \<subseteq> H" "H \<inter> range Obj = {}"
      "\<And>h x. h \<in> H - heads \<Longrightarrow> x \<in> set (F h) \<Longrightarrow> \<exists>a s. x = Obj a \<and> D a = Some s \<and> location s = IN_USE"
    using ex unfolding lists_exact_def by blast+
  have S: "?S (D(a \<mapsto> s')) h = (if h = head_of s' then insert (Obj a) (?S D h) else ?S D h)" for h
  proof -
    have "(\<exists>t. (D(a \<mapsto> s')) b = Some t \<and> free_span t \<and> head_of t = h) \<longleftrightarrow>
        (b = a \<and> h = head_of s' \<or> (\<exists>t. D b = Some t \<and> free_span t \<and> head_of t = h))" for b
      using a(1,2) l by (auto simp: free_span_def)
    then show ?thesis by auto
  qed
  have "set (?F h) = ?S (D(a \<mapsto> s')) h" if "h \<in> heads" for h
    unfolding S using e(1) [OF that] by (cases "h = head_of s'") (simp_all only: fun_upd_same fun_upd_other if_True if_False list.set simp_thms)
  moreover have "\<exists>b t. x = Obj b \<and> (D(a \<mapsto> s')) b = Some t \<and> location t = IN_USE"
    if hx: "h \<in> H - heads" "x \<in> set (?F h)" for h x
  proof -
    have x: "x \<in> set (F h)" "x \<noteq> Obj a" using hx a(3) head_of_heads [of s'] by (auto simp: on_no_list_def split: if_splits)
    then show ?thesis using e(4) [OF hx(1) x(1)] by auto
  qed
  ultimately show ?thesis using e(2,3) unfolding lists_exact_def by blast
qed

lemma npages_free:
  assumes "finite (dom D)" "D a = Some s" "location s = IN_USE" "l \<noteq> IN_USE"
  shows "npages (\<lambda>s. location s = l) (D(a \<mapsto> s')) =
    npages (\<lambda>s. location s = l) D + (if location s' = l then span_length s' else 0)"
  using npages_update [OF assms(1,2), of "\<lambda>s. location s = l" s'] assms(3,4) by simp

lemma coalesced_add:
  assumes "coalesced D" and p: "\<And>b t. b \<noteq> a \<Longrightarrow> D b = Some t \<Longrightarrow> start t + span_length t = start s' \<Longrightarrow> location t \<noteq> location s'"
    and n: "\<And>b t. b \<noteq> a \<Longrightarrow> D b = Some t \<Longrightarrow> start t = start s' + span_length s' \<Longrightarrow> location t \<noteq> location s'" and "0 < span_length s'"
  shows "coalesced (D(a \<mapsto> s'))"
  unfolding coalesced_def
proof (intro allI impI, elim conjE)
  fix b c t u assume D: "(D(a \<mapsto> s')) b = Some t" "(D(a \<mapsto> s')) c = Some u" "start u = start t + span_length t" "location t = location u"
  show "location t = IN_USE"
  proof (cases "b = a"; cases "c = a")
    assume "b = a" "c = a" then show ?thesis using D assms(4) by auto
  next
    assume "b = a" "c \<noteq> a" then show ?thesis using D n [of c u] by auto
  next
    assume "b \<noteq> a" "c = a" then show ?thesis using D p [of b t] by auto
  next
    assume "b \<noteq> a" "c \<noteq> a" then show ?thesis using D assms(1) unfolding coalesced_def by auto
  qed
qed

text \<open>No other span next to \<open>s\<close> has location \<open>l\<close>.\<close>

definition no_neighbour :: "(addr \<rightharpoonup> Span) \<Rightarrow> addr \<Rightarrow> Span \<Rightarrow> span_location \<Rightarrow> bool" where
  "no_neighbour D a s l \<longleftrightarrow> (\<forall>b t. b \<noteq> a \<and> D b = Some t \<and>
     (start t + span_length t = start s \<or> start t = start s + span_length s) \<longrightarrow> location t \<noteq> l)"

lemma put_free:
  assumes inv: "hgen0 os owned H F D st" and a: "D a = Some s" "location s = IN_USE" "on_no_list H F a"
    and sd: "sdata (spans st) a = Some (s\<lparr>location := l\<rparr>)" and l: "l \<noteq> IN_USE"
    and alone: "no_neighbour D a s l"
  shows "\<exists>st' F'. PrependToFreeList (Obj a) st = Inr st' \<and> hgen0 os owned H F' (D(a \<mapsto> s\<lparr>location := l\<rparr>)) st' \<and>
    (\<forall>h. h \<notin> heads \<longrightarrow> F' h = F h) \<and> (\<forall>b. b \<noteq> a \<longrightarrow> on_no_list H F b \<longrightarrow> on_no_list H F' b) \<and>
    sdata (spans st') = sdata (spans st) \<and> pagemap st' = pagemap st \<and> hrest st' = hrest st \<and>
    (\<forall>k. bytes_on k st' = bytes_on k st + (if k = ON_NORMAL_FREELIST \<longleftrightarrow> l = ON_NORMAL_FREELIST then 2 ^ kPageShift * span_length s else 0))"
proof -
  let ?s = "s\<lparr>location := l\<rparr>" and ?D = "D(a \<mapsto> s\<lparr>location := l\<rparr>)"
  have i: "mem_ok os owned D st" "spans_wf D" "lists_ok (spans st) H F" "lists_exact D H F" "coalesced D" "\<not> aggressive_decommit st"
    using inv by (auto simp: hgen0_def)
  note fin = spans_finite [OF i(2)]
  have hd: "heads \<subseteq> H" "Obj a \<notin> H" using i(4) Obj_notin_H [OF inv] by (auto simp: lists_exact_def)
  obtain t where t: "spans st (Obj a) = Some t" "unlink t = ?s" using sdata_Some [OF sd] by blast
  have tf: "location t = l" "span_length t = span_length s" "head_of t = head_of ?s"
    using unlinkD [OF t(2)] by simp_all
  obtain ss' where ss': "PrependToFreeList (Obj a) st = Inr (if location t = ON_NORMAL_FREELIST
        then st\<lparr>free_bytes := add64 (free_bytes st) (page_bytes (span_length t)), spans := ss'\<rparr>
        else st\<lparr>unmapped_bytes := add64 (unmapped_bytes st) (page_bytes (span_length t)), spans := ss'\<rparr>)"
      "lists_ok ss' H (F(head_of t := Obj a # F (head_of t)))" "same_data (spans st) ss'"
    using PrependToFreeList_eff [OF i(3) hd(1) t(1) hd(2)] a(3) by (auto simp: on_no_list_def)
  define st' where "st' = (if l = ON_NORMAL_FREELIST
        then st\<lparr>free_bytes := add64 (free_bytes st) (page_bytes (span_length s)), spans := ss'\<rparr>
        else st\<lparr>unmapped_bytes := add64 (unmapped_bytes st) (page_bytes (span_length s)), spans := ss'\<rparr>)"
  have run: "PrependToFreeList (Obj a) st = Inr st'" using ss'(1) by (simp add: st'_def tf)
  have st': "hrest st' = hrest st" "spans st' = ss'" "pagemap st' = pagemap st"
      "span_allocator st' = span_allocator st" "span_links st' = span_links st"
    by (simp_all add: st'_def)
  note bd = hgen_bounds [OF inv]
  have len: "page_bytes (span_length s) = 2 ^ kPageShift * span_length s" "2 ^ kPageShift * span_length s < 2 ^ 44"
    using bd(4) [OF a(1)] page_bytes_id [of "span_length s"] by (auto simp: kPageShift_def)
  have byt: "bytes_on k st' = bytes_on k st + (if k = ON_NORMAL_FREELIST \<longleftrightarrow> l = ON_NORMAL_FREELIST then 2 ^ kPageShift * span_length s else 0)" for k
    unfolding st'_def bytes_on_def len(1) using bd(2) len(2) by (auto simp: add64_id)
  have sd': "sdata (spans st') = sdata (spans st)" using sdata_same [OF ss'(3)] st'(2) by simp
  have "dom ?D = dom D" using a(1) by auto
  then have m: "mem_ok os owned ?D st'"
    using i(1) a(1) hrestD(1,10) [OF st'(1)] pha_inv_rest [OF st'(1)] st'(4,5)
    by (auto simp: mem_ok_def span_bytes_of_def split: if_splits)
  have w: "spans_wf ?D" by (rule spans_wf_sub [OF i(2)]) (use a(1) in \<open>auto split: if_splits\<close>)
  have c: "coalesced ?D"
    by (rule coalesced_add [OF i(5)]) (use alone spans_wfD(2) [OF i(2) a(1)] in \<open>auto simp: no_neighbour_def\<close>)
  have le: "lists_exact ?D H (F(head_of ?s := Obj a # F (head_of ?s)))"
    by (rule lists_exact_add [OF i(4) a]) (use l in \<open>simp add: free_span_def\<close>)
  have np: "free_bytes st' = 2 ^ kPageShift * npages (\<lambda>s. location s = ON_NORMAL_FREELIST) ?D"
      "unmapped_bytes st' = 2 ^ kPageShift * npages (\<lambda>s. location s = ON_RETURNED_FREELIST) ?D"
    using byt [of ON_NORMAL_FREELIST] byt [of ON_RETURNED_FREELIST] inv l npages_free [OF fin a(1,2), of _ ?s]
    by (cases l; simp add: bytes_on_def hgen0_def algebra_simps)+
  have tot: "2 ^ kPageShift * npages (\<lambda>_. True) ?D \<le> system_bytes st'"
    using npages_update [OF fin a(1), of "\<lambda>_. True" ?s] inv hrestD(1) [OF st'(1)] by (simp add: hgen0_def)
  have "hgen0 os owned H (F(head_of ?s := Obj a # F (head_of ?s))) ?D st'"
    unfolding hgen0_def using m w c le np tot ss'(2) st'(2) tf(3) hrestD(5) [OF st'(1)] i(6) by simp
  moreover have "on_no_list H (F(head_of ?s := Obj a # F (head_of ?s))) b" if "b \<noteq> a" "on_no_list H F b" for b
    using that by (auto simp: on_no_list_def)
  moreover have "(F(head_of ?s := Obj a # F (head_of ?s))) h = F h" if "h \<notin> heads" for h using that head_of_heads [of ?s] by auto
  ultimately show ?thesis
    using run sd' st'(1,3) byt by (intro exI [of _ st'] exI [of _ "F(head_of ?s := Obj a # F (head_of ?s))"]) blast
qed

section \<open>Merging with the neighbours\<close>

text \<open>
  A detached span is on no list although it is marked as free with location \<open>l\<close>; the view \<open>D\<close> shows it
  as in use.
\<close>

definition detached ::
  "'o os \<Rightarrow> ('o \<Rightarrow> addr set) \<Rightarrow> sptr set \<Rightarrow> (sptr \<Rightarrow> sptr list) \<Rightarrow> (addr \<rightharpoonup> Span) \<Rightarrow> addr \<Rightarrow> Span \<Rightarrow> span_location \<Rightarrow>
   ('o, 'z) heap_scheme \<Rightarrow> bool" where
  "detached os owned H F D a s l st \<longleftrightarrow> hgen os owned H F D st \<and> D a = Some s \<and> location s = IN_USE \<and> sizeclass s = 0 \<and>
     on_no_list H F a \<and> sdata (spans st) = D(a \<mapsto> s\<lparr>location := l\<rparr>) \<and> l \<noteq> IN_USE"

text \<open>What merging keeps: with the bytes of the detached span, the bytes on the lists stay the same.\<close>

definition merged ::
  "(sptr \<Rightarrow> sptr list) \<Rightarrow> (sptr \<Rightarrow> sptr list) \<Rightarrow> span_location \<Rightarrow> Span \<Rightarrow> Span \<Rightarrow> ('o, 'z) heap_scheme \<Rightarrow> ('o, 'z) heap_scheme \<Rightarrow> bool" where
  "merged F F' l s s' st st' \<longleftrightarrow> (\<forall>h. h \<notin> heads \<longrightarrow> F' h = F h) \<and> hrest st' = hrest st \<and>
     (\<forall>k. bytes_on k st' + (if k = ON_NORMAL_FREELIST \<longleftrightarrow> l = ON_NORMAL_FREELIST then 2 ^ kPageShift * span_length s' else 0) =
          bytes_on k st + (if k = ON_NORMAL_FREELIST \<longleftrightarrow> l = ON_NORMAL_FREELIST then 2 ^ kPageShift * span_length s else 0))"

lemma merged_refl: "merged F F l s s st st"
  by (simp add: merged_def)

lemma merged_trans: "merged F F1 l s s1 st st1 \<Longrightarrow> merged F1 F2 l s1 s2 st1 st2 \<Longrightarrow> merged F F2 l s s2 st st2"
  by (simp add: merged_def)

lemma span_bytes_un:
  assumes "pages_of s' = pages_of s \<union> pages_of t"
  shows "span_bytes_of s' \<subseteq> span_bytes_of s \<union> span_bytes_of t"
proof -
  have iff: "x \<in> span_bytes_of u \<longleftrightarrow> x div 2 ^ kPageShift \<in> pages_of u" for x u
    by (auto simp: span_bytes_of_def pages_of_def less_mult_imp_div_less div_less_iff_less_mult less_eq_div_iff_mult_less_eq)
  then show ?thesis using assms by auto
qed

lemma absorb_room:
  assumes wf: "spans_wf D" and a: "D a = Some s" and b: "D b = Some t" "b \<noteq> a"
    and s': "pages_of s' = pages_of s \<union> pages_of t" "span_length s' = span_length s + span_length t"
  shows "room_for (D(b := None)) a s'"
proof -
  have "start s' \<in> pages_of s'" "start s' + span_length s' - 1 \<in> pages_of s'"
    using s'(2) spans_wfD(2) [OF wf a] by (auto simp: pages_of_def)
  moreover have "0 \<notin> pages_of s \<union> pages_of t" "\<forall>k\<in>pages_of s \<union> pages_of t. k < 2 ^ kPageMapBits"
    using spans_wfD(3,4) [OF wf a] spans_wfD(3,4) [OF wf b(1)] by (auto simp: pages_of_def)
  ultimately have "0 < start s'" "start s' + span_length s' - 1 < 2 ^ kPageMapBits" unfolding s'(1) by (metis gr0I, blast)
  moreover have "pages_of s' \<inter> pages_of v = {}" if "c \<noteq> a" "(D(b := None)) c = Some v" for c v
    using that spans_disjoint [OF wf a, of c v] spans_disjoint [OF wf b(1), of c v] s'(1) by (auto split: if_splits)
  ultimately show ?thesis
    using s'(2) spans_wfD(2) [OF wf a] unfolding room_for_def by (intro conjI allI impI) (linarith | blast)+
qed

lemma absorb_map:
  assumes ok: "map_ok D pm" "spans_wf D" and a: "D a = Some s" and b: "D b = Some t" "b \<noteq> a"
    and room: "room_for (D(b := None)) a s'" and s': "pages_of s' = pages_of s \<union> pages_of t" "sizeclass s' = 0"
    and k: "k = start s' \<and> start s' + span_length s' = start s + span_length s \<or>
      k = start s' + span_length s' - 1 \<and> start s' = start s"
    and pm': "wf3 pm'" "ensured3 kPageMapBits pm' = ensured3 kPageMapBits pm" "view3 kPageMapBits pm' = (view3 kPageMapBits pm)(k := a)"
  shows "map_ok (D(b := None, a \<mapsto> s')) pm'"
proof (rule map_ok_change [OF ok(1) pm'(1,2) ok(2)])
  let ?D = "D(b := None, a \<mapsto> s')"
  have kk: "k \<in> pages_of s'" using k room by (auto simp: pages_of_def room_for_def)
  have ens: "ensured3 kPageMapBits pm j" if "j \<in> pages_of s'" for j
    using that s'(1) map_okD(3) [OF ok(1) a] map_okD(3) [OF ok(1) b(1)] by auto
  show "D c = Some v \<and> (\<forall>j\<in>pages_of v. view3 kPageMapBits pm' j = view3 kPageMapBits pm j) \<or>
     view3 kPageMapBits pm' (start v) = c \<and> view3 kPageMapBits pm' (start v + span_length v - 1) = c \<and>
     (\<forall>k\<in>pages_of v. ensured3 kPageMapBits pm k) \<and> sizeclass v = 0" if c: "?D c = Some v" for c v
  proof (cases "c = a")
    case True
    have "start s' = k \<or> start s' = start s" "start s' + span_length s' = start s + span_length s \<or> start s' + span_length s' - 1 = k"
      using k by auto
    then show ?thesis using True c map_okD(1,2) [OF ok(1) a] ens s'(2) by (auto simp: pm'(3))
  next
    case False
    then have "D c = Some v" "pages_of s' \<inter> pages_of v = {}" using c room by (auto simp: room_for_def split: if_splits)
    then show ?thesis using kk by (auto simp: pm'(3))
  qed
  fix j assume "view3 kPageMapBits pm' j \<noteq> view3 kPageMapBits pm j \<or> (\<exists>b t. D b = Some t \<and> j \<in> pages_of t)"
  then have "j \<in> pages_of s' \<or> (\<exists>c v. D c = Some v \<and> j \<in> pages_of v)"
    using kk by (auto simp: pm'(3) split: if_splits)
  then have "j \<in> pages_of s' \<or> (\<exists>c v. c \<noteq> a \<and> c \<noteq> b \<and> D c = Some v \<and> j \<in> pages_of v)"
    using s'(1) b(1) a by (metis UnI1 UnI2 option.inject)
  then show "\<exists>b t. ?D b = Some t \<and> j \<in> pages_of t"
  proof
    assume "j \<in> pages_of s'" then show ?thesis by (intro exI [of _ a] exI [of _ s']) simp
  next
    assume "\<exists>c v. c \<noteq> a \<and> c \<noteq> b \<and> D c = Some v \<and> j \<in> pages_of v"
    then obtain c v where "c \<noteq> a" "c \<noteq> b" "D c = Some v" "j \<in> pages_of v" by blast
    then show ?thesis by (intro exI [of _ c] exI [of _ v]) simp
  qed
qed

lemma absorb_merged:
  assumes g: "hgen0 os owned H F D st" "hgen0 os owned H F' (D(b := None)) st0" and b: "D b = Some t" "location t = l" "l \<noteq> IN_USE"
    and len: "span_length s' = span_length s + span_length t" and F: "\<And>h. h \<notin> heads \<Longrightarrow> F' h = F h"
    and st': "hrest st' = hrest st" "free_bytes st' = free_bytes st0" "unmapped_bytes st' = unmapped_bytes st0"
  shows "merged F F' l s s' st st'"
proof -
  have fin: "finite (dom D)" using g(1) by (simp add: hgen0_def spans_wf_def)
  have by0: "free_bytes st' = 2 ^ kPageShift * npages (\<lambda>s. location s = ON_NORMAL_FREELIST) (D(b := None))"
      "unmapped_bytes st' = 2 ^ kPageShift * npages (\<lambda>s. location s = ON_RETURNED_FREELIST) (D(b := None))"
    using g(2) by (simp_all add: st' hgen0_def)
  have by1: "free_bytes st = 2 ^ kPageShift * npages (\<lambda>s. location s = ON_NORMAL_FREELIST) D"
      "unmapped_bytes st = 2 ^ kPageShift * npages (\<lambda>s. location s = ON_RETURNED_FREELIST) D"
    using g(1) by (simp_all add: hgen0_def)
  have "bytes_on j st' + (if j = ON_NORMAL_FREELIST \<longleftrightarrow> l = ON_NORMAL_FREELIST then 2 ^ kPageShift * span_length s' else 0) =
        bytes_on j st + (if j = ON_NORMAL_FREELIST \<longleftrightarrow> l = ON_NORMAL_FREELIST then 2 ^ kPageShift * span_length s else 0)" for j
    using npages_delete [OF fin b(1), of "\<lambda>s. location s = ON_NORMAL_FREELIST"]
      npages_delete [OF fin b(1), of "\<lambda>s. location s = ON_RETURNED_FREELIST"] b(2,3) len
    unfolding bytes_on_def by0 by1 by (cases l) (auto simp: algebra_simps)
  then show ?thesis using F st'(1) by (simp add: merged_def)
qed

lemma absorb:
  assumes det: "detached os owned H F D a s l st" and b: "D b = Some t" "location t = l" "b \<noteq> a"
    and s': "pages_of s' = pages_of s \<union> pages_of t" "span_length s' = span_length s + span_length t"
      "location s' = IN_USE" "sizeclass s' = 0"
    and k: "k = start s' \<and> start s' + span_length s' = start s + span_length s \<or>
      k = start s' + span_length s' - 1 \<and> start s' = start s"
    and f: "\<And>u. unlink u = s\<lparr>location := l\<rparr> \<Longrightarrow> unlink (f u) = s'\<lparr>location := l\<rparr> \<and> nxt (f u) = nxt u \<and> prv (f u) = prv u"
  shows "\<exists>st0 st1 u st' F'. bind_res (RemoveFromFreeList (Obj b) st) (DeleteSpan (Obj b)) = Inr st0 \<and>
    on_spans (upd_span (Obj a) f) st0 = Inr st1 \<and> get_span (Obj a) st1 = Inr u \<and> unlink u = s'\<lparr>location := l\<rparr> \<and>
    pagemap_set k (Obj a) st1 = Inr st' \<and> detached os owned H F' (D(b := None, a \<mapsto> s')) a s' l st' \<and> merged F F' l s s' st st'"
proof -
  have d: "hgen0 os owned H F D st" "map_ok D (pagemap st)" "D a = Some s" "location s = IN_USE" "on_no_list H F a"
      "sdata (spans st) = D(a \<mapsto> s\<lparr>location := l\<rparr>)" "l \<noteq> IN_USE"
    using det by (auto simp: detached_def hgen_def)
  have wf: "spans_wf D" using d(1) by (simp add: hgen0_def)
  have fs: "free_span t" using b(2) d(7) by (simp add: free_span_def)
  have "sdata (spans st) b = Some t" using d(6) b(1,3) by simp
  then obtain st0 F' where r0: "bind_res (RemoveFromFreeList (Obj b) st) (DeleteSpan (Obj b)) = Inr st0"
      and F0: "on_no_list H F' a" "\<And>h. h \<notin> heads \<Longrightarrow> F' h = F h" and h0: "hgen0 os owned H F' (D(b := None)) st0"
      and sd0: "sdata (spans st0) = (sdata (spans st))(b := None)" and pm0: "pagemap st0 = pagemap st" and hr0: "hrest st0 = hrest st"
    using remove_delete [OF d(1) b(1) fs] d(5) by blast
  let ?F = "F'" and ?D = "D(b := None, a \<mapsto> s')"
  have "sdata (spans st0) a = Some (s\<lparr>location := l\<rparr>)" using sd0 d(6) b(3) by simp
  then obtain u0 where u0: "spans st0 (Obj a) = Some u0" "unlink u0 = s\<lparr>location := l\<rparr>" using sdata_Some by blast
  note fu = f [OF u0(2)]
  define st1 where "st1 = st0\<lparr>spans := (spans st0)(Obj a \<mapsto> f u0)\<rparr>"
  have r1: "on_spans (upd_span (Obj a) f) st0 = Inr st1" "get_span (Obj a) st1 = Inr (f u0)"
    using u0(1) by (simp_all add: on_spans_def st1_def get_span_def)
  note room = absorb_room [OF wf d(3) b(1,3) s'(1,2)]
  have own: "span_bytes_of s' \<subseteq> owned (os_st st0)"
  proof -
    have "span_bytes_of s \<subseteq> owned (os_st st)" "span_bytes_of t \<subseteq> owned (os_st st)"
      using d(1,3) b(1) by (auto simp: hgen0_def mem_ok_def)
    then show ?thesis using span_bytes_un [OF s'(1)] hrestD(10) [OF hr0] by auto
  qed
  have tot: "npages (\<lambda>_. True) ?D = npages (\<lambda>_. True) D"
    using npages_delete [OF spans_finite [OF wf] b(1), of "\<lambda>_. True"] npages_update [of "D(b := None)" a s "\<lambda>_. True" s']
      spans_finite [OF wf] d(3) b(3) s'(2) by simp
  have sy: "system_bytes st1 = system_bytes st" using hrestD(1) [OF hr0] by (simp add: st1_def)
  have g1: "hgen0 os owned H ?F ?D st1"
  proof -
    have "lists_ok (spans st1) H ?F"
      using h0 fu u0(1) lists_ok_upd_data [of "spans st0" H ?F "Obj a" u0 "f u0"] by (simp add: st1_def hgen0_def)
    then have "hgen0 os owned H ?F (D(b := None)) st1" unfolding st1_def using hgen0_store [OF h0] by simp
    then show ?thesis
      by (rule hgen0_in_use [where s = s]) (use d(1,3,4) b(3) s'(3) room own tot sy in \<open>auto simp: st1_def hgen0_def\<close>)
  qed
  have kk: "k \<in> pages_of s'" using k s'(2) spans_wfD(2) [OF wf d(3)] by (auto simp: pages_of_def)
  have ens: "ensured3 kPageMapBits (pagemap st) j" if "j \<in> pages_of s'" for j
    using that s'(1) map_okD(3) [OF d(2,3)] map_okD(3) [OF d(2) b(1)] by auto
  have w3: "wf3 (pagemap st1)" "pagemap st1 = pagemap st" using d(2) pm0 by (auto simp: map_ok_def st1_def)
  obtain pm' where pm': "pagemap_set k (Obj a) st1 = Inr (st1\<lparr>pagemap := pm'\<rparr>)" "wf3 pm'"
      "ensured3 kPageMapBits pm' = ensured3 kPageMapBits (pagemap st)"
      "view3 kPageMapBits pm' = (view3 kPageMapBits (pagemap st))(k := a)"
    using pagemap_set_eff [OF w3(1), of k a] ens [OF kk] w3(2) by auto
  define st' where "st' = st1\<lparr>pagemap := pm'\<rparr>"
  note mp = absorb_map [OF d(2) wf d(3) b(1,3) room s'(1,4) k pm'(2-4)]
  have "sdata (spans st') = ?D(a \<mapsto> s'\<lparr>location := l\<rparr>)"
    using fu sd0 d(6) b(3) by (simp add: st'_def st1_def fun_upd_twist)
  then have det': "detached os owned H ?F ?D a s' l st'"
    unfolding detached_def hgen_def
    using g1 mp s'(3,4) d(7) F0(1) by (simp add: st'_def hgen0_pagemap)
  have rs: "hrest st' = hrest st" using hr0 by (simp add: st'_def st1_def)
  have mg: "merged F ?F l s s' st st'"
    by (rule absorb_merged [OF d(1) h0 b(1,2) d(7) s'(2) F0(2) rs]) (simp_all add: st'_def st1_def)
  have r2: "pagemap_set k (Obj a) st1 = Inr st'" using pm'(1) by (simp add: st'_def)
  show ?thesis
    by (intro exI [of _ st0] exI [of _ st1] exI [of _ "f u0"] exI [of _ st'] exI [of _ ?F] conjI r0 r1 r2 det' mg)
      (use fu in simp)
qed

lemma wrap64_pred: "0 < p \<Longrightarrow> p \<le> 2 ^ 64 \<Longrightarrow> wrap64 (p + (2 ^ 64 - 1)) = p - 1"
proof -
  assume p: "0 < p" "p \<le> 2 ^ 64"
  then have "p + (2 ^ 64 - 1) = (p - 1) + 2 ^ 64" by simp
  then show ?thesis unfolding wrap64_def using p by (simp only: mod_add_self2) simp
qed

lemma detachedD:
  assumes "detached os owned H F D a s l st"
  shows "hgen0 os owned H F D st" "map_ok D (pagemap st)" "wf3 (pagemap st)" "spans_wf D" "coalesced D" "D a = Some s"
    "location s = IN_USE" "sizeclass s = 0" "on_no_list H F a" "sdata (spans st) = D(a \<mapsto> s\<lparr>location := l\<rparr>)" "l \<noteq> IN_USE"
    "\<not> aggressive_decommit st" "\<exists>u. get_span (Obj a) st = Inr u \<and> unlink u = s\<lparr>location := l\<rparr>"
    "b \<noteq> a \<Longrightarrow> D b = Some t \<Longrightarrow> \<exists>u. get_span (Obj b) st = Inr u \<and> unlink u = t"
proof -
  show sd: "sdata (spans st) = D(a \<mapsto> s\<lparr>location := l\<rparr>)" using assms by (simp add: detached_def)
  have "\<exists>u. get_span (Obj b) st = Inr u \<and> unlink u = v" if "sdata (spans st) b = Some v" for b v
    using sdata_Some [OF that] by (auto simp: get_span_def)
  then show "\<exists>u. get_span (Obj a) st = Inr u \<and> unlink u = s\<lparr>location := l\<rparr>"
      "b \<noteq> a \<Longrightarrow> D b = Some t \<Longrightarrow> \<exists>u. get_span (Obj b) st = Inr u \<and> unlink u = t"
    using sd by auto
qed (use assms in \<open>auto simp: detached_def hgen_def hgen0_def map_ok_def\<close>)

lemma merge_prev_eff:
  assumes det: "detached os owned H F D a s l st"
  shows "\<exists>st' F' D' s'. merge_prev (Obj a) (start s) st = Inr (0, st') \<and> detached os owned H F' D' a s' l st' \<and>
    merged F F' l s s' st st' \<and> in_use D' = (in_use D)(a \<mapsto> s') \<and> (\<forall>b t. b \<noteq> a \<longrightarrow> D' b = Some t \<longrightarrow> D b = Some t) \<and>
    start s' + span_length s' = start s + span_length s \<and>
    (\<forall>b t. b \<noteq> a \<longrightarrow> D' b = Some t \<longrightarrow> start t + span_length t = start s' \<longrightarrow> location t \<noteq> l)"
proof -
  note d = detachedD [OF det]
  have iu: "in_use D = (in_use D)(a \<mapsto> s)" using d(6,7) by (auto simp: in_use_def)
  define b where "b = view3 kPageMapBits (pagemap st) (start s - 1)"
  have "start s \<le> 2 ^ kPageMapBits" using spans_wfD(4) [OF d(4,6)] by simp
  then have wr: "wrap64 (start s + (2 ^ 64 - 1)) = start s - 1"
    using spans_wfD(3) [OF d(4,6)] by (intro wrap64_pred) (auto simp: kPageMapBits_def)
  have gd: "GetDescriptor (wrap64 (start s + (2 ^ 64 - 1))) st = Inr (Obj b)"
    unfolding wr b_def by (rule GetDescriptor_eff [OF d(3)])
  have prev: "view3 kPageMapBits (pagemap st) (start s - 1) = c" if "D c = Some t" "start t + span_length t = start s" for c t
    using map_okD(2) [OF d(2) that(1)] that(2) by simp
  show ?thesis
  proof (cases "\<exists>t. b \<noteq> 0 \<and> D b = Some t \<and> location t = l")
    case False
    have "merge_prev (Obj a) (start s) st = Inr (0, st)"
    proof (cases "b = 0")
      case True
      then show ?thesis unfolding merge_prev_def gd by (simp add: NULLspan_def)
    next
      case b: False
      obtain t where t: "D b = Some t" "b \<noteq> a" using prev_neighbour [OF d(2,4,6) b_def [symmetric] b] by blast
      obtain u v where uv: "get_span (Obj b) st = Inr u" "unlink u = t" "get_span (Obj a) st = Inr v" "unlink v = s\<lparr>location := l\<rparr>"
        using d(13) d(14) [OF t(2,1)] by blast
      then show ?thesis
        using False t(1) b d(12) unlinkD(1) [OF uv(2)] unlinkD(1) [OF uv(4)]
        unfolding merge_prev_def gd by (simp add: NULLspan_def MayMergeSpans_def)
    qed
    moreover have "location t \<noteq> l" if t: "c \<noteq> a" "D c = Some t" "start t + span_length t = start s" for c t
      using prev [OF t(2,3)] t(2) False spans_wfD(1) [OF d(4) t(2)] by (auto simp: b_def)
    ultimately show ?thesis
      using det merged_refl iu by (intro exI [of _ st] exI [of _ F] exI [of _ D] exI [of _ s]) auto
  next
    case True
    then obtain t where t: "b \<noteq> 0" "D b = Some t" "location t = l" by blast
    have adj: "start t + span_length t = start s" "b \<noteq> a"
      using prev_neighbour [OF d(2,4,6) b_def [symmetric] t(1)] t(2) by auto
    obtain u v where uv: "get_span (Obj b) st = Inr u" "unlink u = t" "get_span (Obj a) st = Inr v" "unlink v = s\<lparr>location := l\<rparr>"
      using d(13) d(14) [OF adj(2) t(2)] by blast
    note un = unlinkD [OF uv(2)] unlinkD(1) [OF uv(4)]
    let ?f = "\<lambda>s. s\<lparr>start := start s - span_length u, span_length := span_length s + span_length u\<rparr>"
    define s' where "s' = s\<lparr>start := start t, span_length := span_length s + span_length t\<rparr>"
    have st: "start s - span_length t = start t" using adj(1) by simp
    have f: "unlink (?f w) = s'\<lparr>location := l\<rparr> \<and> nxt (?f w) = nxt w \<and> prv (?f w) = prv w" if "unlink w = s\<lparr>location := l\<rparr>" for w
    proof -
      have "unlink (?f w) = ?f (unlink w)" by (simp add: unlink_def)
      then show ?thesis using that st by (simp add: s'_def un(2))
    qed
    have pg: "pages_of s' = pages_of s \<union> pages_of t" using adj(1) by (auto simp: pages_of_def s'_def)
    obtain st0 st1 w st' F' where r: "bind_res (RemoveFromFreeList (Obj b) st) (DeleteSpan (Obj b)) = Inr st0"
        "on_spans (upd_span (Obj a) ?f) st0 = Inr st1" "get_span (Obj a) st1 = Inr w" "unlink w = s'\<lparr>location := l\<rparr>"
        "pagemap_set (start s') (Obj a) st1 = Inr st'" "detached os owned H F' (D(b := None, a \<mapsto> s')) a s' l st'" "merged F F' l s s' st st'"
      using absorb [OF det t(2,3) adj(2) pg, of "start s'" ?f] f adj(1) d(7,8) by (auto simp: s'_def)
    obtain st0' where r0: "RemoveFromFreeList (Obj b) st = Inr st0'" "DeleteSpan (Obj b) st0' = Inr st0"
      using r(1) by (auto simp: bind_res_Inr_iff)
    have "merge_prev (Obj a) (start s) st = Inr (0, st')"
      unfolding merge_prev_def gd
      using t(1,3) uv un d(12) r0 r(2,3,5) unlinkD(3) [OF r(4)] by (simp add: NULLspan_def MayMergeSpans_def Let_def)
    moreover have "in_use (D(b := None, a \<mapsto> s')) = (in_use D)(a \<mapsto> s')"
      using d(7) in_use_free [of D b t] t(2,3) d(11) by (simp add: s'_def free_span_def fun_upd_idem)
    moreover have "location v \<noteq> l" if v: "c \<noteq> a" "(D(b := None, a \<mapsto> s')) c = Some v" "start v + span_length v = start s'" for c v
    proof -
      have "D c = Some v" "start t = start v + span_length v" using v by (auto simp: s'_def split: if_splits)
      then show ?thesis using coalescedD [OF d(5), of c v b t] d(11) t(2,3) by auto
    qed
    moreover have "start s' + span_length s' = start s + span_length s" using adj(1) by (simp add: s'_def)
    ultimately show ?thesis
      using r(6,7)
      by (intro exI [of _ st'] exI [of _ F'] exI [of _ "D(b := None, a \<mapsto> s')"] exI [of _ s']) (auto split: if_splits)
  qed
qed

lemma merge_next_eff:
  assumes det: "detached os owned H F D a s l st" and pn: "pn = start s + span_length s"
  shows "\<exists>st' F' D' s'. merge_next (Obj a) pn 0 st = Inr (0, st') \<and> detached os owned H F' D' a s' l st' \<and>
    merged F F' l s s' st st' \<and> in_use D' = (in_use D)(a \<mapsto> s') \<and> (\<forall>b t. b \<noteq> a \<longrightarrow> D' b = Some t \<longrightarrow> D b = Some t) \<and>
    start s' = start s \<and>
    (\<forall>b t. b \<noteq> a \<longrightarrow> D' b = Some t \<longrightarrow> start t = start s' + span_length s' \<longrightarrow> location t \<noteq> l)"
proof -
  note d = detachedD [OF det]
  have iu: "in_use D = (in_use D)(a \<mapsto> s)" using d(6,7) by (auto simp: in_use_def)
  define b where "b = view3 kPageMapBits (pagemap st) (start s + span_length s)"
  have gd: "GetDescriptor pn st = Inr (Obj b)" unfolding pn b_def by (rule GetDescriptor_eff [OF d(3)])
  have nxt_view: "view3 kPageMapBits (pagemap st) (start s + span_length s) = c" if "D c = Some t" "start t = start s + span_length s" for c t
    using map_okD(1) [OF d(2) that(1)] that(2) by simp
  show ?thesis
  proof (cases "\<exists>t. b \<noteq> 0 \<and> D b = Some t \<and> location t = l")
    case False
    have "merge_next (Obj a) pn 0 st = Inr (0, st)"
    proof (cases "b = 0")
      case True
      then show ?thesis unfolding merge_next_def gd by (simp add: NULLspan_def)
    next
      case b: False
      obtain t where t: "D b = Some t" "b \<noteq> a" using next_neighbour [OF d(2,4,6) b_def [symmetric] b] by blast
      obtain u v where uv: "get_span (Obj b) st = Inr u" "unlink u = t" "get_span (Obj a) st = Inr v" "unlink v = s\<lparr>location := l\<rparr>"
        using d(13) d(14) [OF t(2,1)] by blast
      then show ?thesis
        using False t(1) b d(12) unlinkD(1) [OF uv(2)] unlinkD(1) [OF uv(4)]
        unfolding merge_next_def gd by (simp add: NULLspan_def MayMergeSpans_def)
    qed
    moreover have "location t \<noteq> l" if t: "c \<noteq> a" "D c = Some t" "start t = start s + span_length s" for c t
      using nxt_view [OF t(2,3)] t(2) False spans_wfD(1) [OF d(4) t(2)] by (auto simp: b_def)
    ultimately show ?thesis
      using det merged_refl iu by (intro exI [of _ st] exI [of _ F] exI [of _ D] exI [of _ s]) auto
  next
    case True
    then obtain t where t: "b \<noteq> 0" "D b = Some t" "location t = l" by blast
    have adj: "start t = start s + span_length s" "b \<noteq> a"
      using next_neighbour [OF d(2,4,6) b_def [symmetric] t(1)] t(2) by auto
    obtain u v where uv: "get_span (Obj b) st = Inr u" "unlink u = t" "get_span (Obj a) st = Inr v" "unlink v = s\<lparr>location := l\<rparr>"
      using d(13) d(14) [OF adj(2) t(2)] by blast
    note un = unlinkD [OF uv(2)] unlinkD(1) [OF uv(4)]
    let ?f = "\<lambda>s. s\<lparr>span_length := span_length s + span_length u\<rparr>"
    define s' where "s' = s\<lparr>span_length := span_length s + span_length t\<rparr>"
    have f: "unlink (?f w) = s'\<lparr>location := l\<rparr> \<and> nxt (?f w) = nxt w \<and> prv (?f w) = prv w" if "unlink w = s\<lparr>location := l\<rparr>" for w
    proof -
      have "unlink (?f w) = ?f (unlink w)" by (simp add: unlink_def)
      then show ?thesis using that by (simp add: s'_def un(2))
    qed
    have pg: "pages_of s' = pages_of s \<union> pages_of t" using adj(1) by (auto simp: pages_of_def s'_def)
    obtain st0 st1 w st' F' where r: "bind_res (RemoveFromFreeList (Obj b) st) (DeleteSpan (Obj b)) = Inr st0"
        "on_spans (upd_span (Obj a) ?f) st0 = Inr st1" "get_span (Obj a) st1 = Inr w" "unlink w = s'\<lparr>location := l\<rparr>"
        "pagemap_set (start s' + span_length s' - 1) (Obj a) st1 = Inr st'"
        "detached os owned H F' (D(b := None, a \<mapsto> s')) a s' l st'" "merged F F' l s s' st st'"
      using absorb [OF det t(2,3) adj(2) pg, of "start s' + span_length s' - 1" ?f] f adj(1) d(7,8) by (auto simp: s'_def)
    obtain st0' where r0: "RemoveFromFreeList (Obj b) st = Inr st0'" "DeleteSpan (Obj b) st0' = Inr st0"
      using r(1) by (auto simp: bind_res_Inr_iff)
    have "merge_next (Obj a) pn 0 st = Inr (0, st')"
      unfolding merge_next_def gd
      using t(1,3) uv un d(12) r0 r(2,3,5) unlinkD(2,3) [OF r(4)] by (simp add: NULLspan_def MayMergeSpans_def Let_def)
    moreover have "in_use (D(b := None, a \<mapsto> s')) = (in_use D)(a \<mapsto> s')"
      using d(7) in_use_free [of D b t] t(2,3) d(11) by (simp add: s'_def free_span_def fun_upd_idem)
    moreover have "location v \<noteq> l" if v: "c \<noteq> a" "(D(b := None, a \<mapsto> s')) c = Some v" "start v = start s' + span_length s'" for c v
    proof -
      have "D c = Some v" "start v = start t + span_length t" using v adj(1) by (auto simp: s'_def split: if_splits)
      then show ?thesis using coalescedD [OF d(5) t(2), of c v] d(11) t(3) by auto
    qed
    moreover have "start s' = start s" by (simp add: s'_def)
    ultimately show ?thesis
      using r(6,7)
      by (intro exI [of _ st'] exI [of _ F'] exI [of _ "D(b := None, a \<mapsto> s')"] exI [of _ s']) (auto split: if_splits)
  qed
qed

text \<open>
  \<open>MergeIntoFreeList\<close> of a detached span: it leaves the spans in use, all lists but those of free spans
  and the rest of the state alone, and adds the bytes of the span to those of its kind.
\<close>

lemma MergeIntoFreeList_eff:
  assumes det: "detached os owned H F D a s l st"
  shows "\<exists>st' F'. MergeIntoFreeList os (Obj a) st = Inr st' \<and> hcore os owned H F' st' \<and>
    (\<forall>h. h \<notin> heads \<longrightarrow> F' h = F h) \<and> hrest st' = hrest st \<and> in_use (sdata (spans st')) = (in_use D)(a := None) \<and>
    (\<forall>k. bytes_on k st' = bytes_on k st + (if k = ON_NORMAL_FREELIST \<longleftrightarrow> l = ON_NORMAL_FREELIST then 2 ^ kPageShift * span_length s else 0))"
proof -
  obtain st1 F1 D1 s1 where 1: "merge_prev (Obj a) (start s) st = Inr (0, st1)" "detached os owned H F1 D1 a s1 l st1"
      "merged F F1 l s s1 st st1" "in_use D1 = (in_use D)(a \<mapsto> s1)" "start s1 + span_length s1 = start s + span_length s"
      "\<And>b t. b \<noteq> a \<Longrightarrow> D1 b = Some t \<Longrightarrow> start t + span_length t = start s1 \<Longrightarrow> location t \<noteq> l"
    using merge_prev_eff [OF det] by blast
  obtain st2 F2 D2 s2 where 2: "merge_next (Obj a) (start s + span_length s) 0 st1 = Inr (0, st2)" "detached os owned H F2 D2 a s2 l st2"
      "merged F1 F2 l s1 s2 st1 st2" "in_use D2 = (in_use D1)(a \<mapsto> s2)" "start s2 = start s1"
      "\<And>b t. b \<noteq> a \<Longrightarrow> D2 b = Some t \<Longrightarrow> D1 b = Some t"
      "\<And>b t. b \<noteq> a \<Longrightarrow> D2 b = Some t \<Longrightarrow> start t = start s2 + span_length s2 \<Longrightarrow> location t \<noteq> l"
    using merge_next_eff [OF 1(2) 1(5) [symmetric]] by blast
  note d = detachedD [OF det] and d2 = detachedD [OF 2(2)]
  have "location t \<noteq> l" if "b \<noteq> a" "D2 b = Some t" "start t + span_length t = start s2" for b t
    using 1(6) [OF that(1) 2(6) [OF that(1,2)]] that(3) 2(5) by simp
  then have alone: "no_neighbour D2 a s2 l" using 2(7) unfolding no_neighbour_def by blast
  have sd2: "sdata (spans st2) a = Some (s2\<lparr>location := l\<rparr>)" using d2(10) by simp
  obtain st' F' where 3: "PrependToFreeList (Obj a) st2 = Inr st'" "hgen0 os owned H F' (D2(a \<mapsto> s2\<lparr>location := l\<rparr>)) st'"
      "\<forall>h. h \<notin> heads \<longrightarrow> F' h = F2 h" "sdata (spans st') = sdata (spans st2)" "pagemap st' = pagemap st2" "hrest st' = hrest st2"
      "\<forall>k. bytes_on k st' = bytes_on k st2 + (if k = ON_NORMAL_FREELIST \<longleftrightarrow> l = ON_NORMAL_FREELIST then 2 ^ kPageShift * span_length s2 else 0)"
    using put_free [OF d2(1,6,7,9) sd2 d2(11) alone] by blast
  note mg = merged_trans [OF 1(3) 2(3)]
  obtain u where u: "get_span (Obj a) st = Inr u" "unlink u = s\<lparr>location := l\<rparr>" using d(13) by blast
  have run: "MergeIntoFreeList os (Obj a) st = Inr st'"
    using u unlinkD(2,3) [OF u(2)] 1(1) 2(1) 3(1) d2(12) by (simp add: MergeIntoFreeList_def Let_def)
  have "map_ok (D2(a \<mapsto> s2\<lparr>location := l\<rparr>)) (pagemap st2)"
    by (rule map_ok_location [OF d2(2,4,6,8)])
  then have core: "hcore os owned H F' st'" using 3(2,4,5) d2(10) by (simp add: hcore_def hgen_def)
  have iu: "in_use (sdata (spans st')) = (in_use D)(a := None)"
    using 3(4) d2(10,11) 2(4) 1(4) by simp
  have "bytes_on k st' = bytes_on k st + (if k = ON_NORMAL_FREELIST \<longleftrightarrow> l = ON_NORMAL_FREELIST then 2 ^ kPageShift * span_length s else 0)" for k
    using mg 3(7) by (simp add: merged_def)
  then show ?thesis using run core iu mg 3(3,6) by (intro exI [of _ st'] exI [of _ F']) (simp add: merged_def)
qed

end
