(* ===== verification/Page_Heap_Release.thy ===== *)
theory Page_Heap_Release
  imports Page_Heap_Merge
begin

text \<open>
  Releasing free spans to the system keeps the invariant and the spans in use, moves bytes from the
  free to the unmapped ones, and terminates; so do \<open>Delete\<close> and \<open>EnsureLimit\<close>, which rest on it.
\<close>

section \<open>Taking a span off its free list\<close>

lemma detach:
  assumes inv: "hgen0 os owned H F D st" and b: "D b = Some t" "free_span t" "sdata (spans st) b = Some t"
  shows "\<exists>st1 u st2 F'. RemoveFromFreeList (Obj b) st = Inr st1 \<and> get_span (Obj b) st1 = Inr u \<and> unlink u = t \<and>
    on_spans (upd_span (Obj b) (location_update (\<lambda>_. l))) st1 = Inr st2 \<and>
    hgen0 os owned H F' (D(b \<mapsto> t\<lparr>location := IN_USE\<rparr>)) st2 \<and> on_no_list H F' b \<and>
    sdata (spans st2) = (sdata (spans st))(b \<mapsto> t\<lparr>location := l\<rparr>) \<and> pagemap st2 = pagemap st \<and> hrest st2 = hrest st \<and>
    (\<forall>h. h \<notin> heads \<longrightarrow> F' h = F h) \<and>
    (\<forall>k. bytes_on k st2 + (if k = ON_NORMAL_FREELIST \<longleftrightarrow> location t = ON_NORMAL_FREELIST then 2 ^ kPageShift * span_length t else 0) = bytes_on k st)"
proof -
  obtain st1 F' where 1: "RemoveFromFreeList (Obj b) st = Inr st1" "hgen0 os owned H F' (D(b \<mapsto> t\<lparr>location := IN_USE\<rparr>)) st1"
      "on_no_list H F' b" "sdata (spans st1) = sdata (spans st)" "pagemap st1 = pagemap st" "hrest st1 = hrest st"
      "\<forall>h. h \<notin> heads \<longrightarrow> F' h = F h"
      "\<forall>k. bytes_on k st1 + (if k = ON_NORMAL_FREELIST \<longleftrightarrow> location t = ON_NORMAL_FREELIST then 2 ^ kPageShift * span_length t else 0) = bytes_on k st"
    using remove_take [OF assms] by blast
  obtain u where u: "spans st1 (Obj b) = Some u" "unlink u = t" using sdata_Some [of "spans st1" b t] 1(4) b(3) by auto
  define st2 where "st2 = st1\<lparr>spans := (spans st1)(Obj b \<mapsto> u\<lparr>location := l\<rparr>)\<rparr>"
  have r2: "get_span (Obj b) st1 = Inr u" "on_spans (upd_span (Obj b) (location_update (\<lambda>_. l))) st1 = Inr st2"
    using u(1) by (simp_all add: on_spans_def st2_def get_span_def)
  have "unlink (u\<lparr>location := l\<rparr>) = (unlink u)\<lparr>location := l\<rparr>" by (simp add: unlink_def)
  then have sd: "sdata (spans st2) = (sdata (spans st))(b \<mapsto> t\<lparr>location := l\<rparr>)"
    using 1(4) u(2) by (simp add: st2_def)
  have "lists_ok ((spans st1)(Obj b \<mapsto> u\<lparr>location := l\<rparr>)) H F'"
    using 1(2) lists_ok_upd_data [of "spans st1" H F' "Obj b" u "u\<lparr>location := l\<rparr>"] u(1) by (simp add: hgen0_def)
  then have "hgen0 os owned H F' (D(b \<mapsto> t\<lparr>location := IN_USE\<rparr>)) st2" unfolding st2_def by (rule hgen0_store [OF 1(2)])
  moreover have "pagemap st2 = pagemap st" "hrest st2 = hrest st" "\<And>k. bytes_on k st2 = bytes_on k st1"
    using 1(5,6) by (simp_all add: st2_def bytes_on_def)
  ultimately show ?thesis
    using 1(1,3,7,8) r2 u(2) sd by (intro exI [of _ st1] exI [of _ u] exI [of _ st2] exI [of _ F']) simp
qed

section \<open>What the releasing operations keep\<close>

definition hfix where
  "hfix st = (system_bytes st, TCMalloc_SystemTaken st, aggressive_decommit st, FLAGS_tcmalloc_release_rate st,
     FLAGS_tcmalloc_heap_limit_mb st, pagemap_cache st,
     (FLAGS_malloc_disable_memory_release st, FLAGS_malloc_devmem_start st), heap.more st)"

lemma hfix_rest: "hrest st' = hrest st \<Longrightarrow> hfix st' = hfix st"
  by (simp add: hfix_def hrest_def meta_state.defs)

lemma hfix_simps [simp]:
  "hfix (st\<lparr>committed_bytes := n\<rparr>) = hfix st" "hfix (st\<lparr>scavenge_counter := i\<rparr>) = hfix st"
  "hfix (st\<lparr>release_index := n\<rparr>) = hfix st" "hfix (st\<lparr>spans := ss\<rparr>) = hfix st"
  by (simp_all add: hfix_def)

text \<open>Fields that the invariant does not mention.\<close>

lemma pha_inv_fields:
  "pha_inv os owned sz live (a, links, st\<lparr>committed_bytes := n\<rparr>) = pha_inv os owned sz live (a, links, st)"
  "pha_inv os owned sz live (a, links, st\<lparr>scavenge_counter := i\<rparr>) = pha_inv os owned sz live (a, links, st)"
  "pha_inv os owned sz live (a, links, st\<lparr>release_index := n\<rparr>) = pha_inv os owned sz live (a, links, st)"
  by (simp_all add: pha_inv_def meta_inv_def chunk_def sys_inv_def)

lemma hgen0_fields [simp]:
  "hgen0 os owned H F D (st\<lparr>committed_bytes := n\<rparr>) = hgen0 os owned H F D st"
  "hgen0 os owned H F D (st\<lparr>scavenge_counter := i\<rparr>) = hgen0 os owned H F D st"
  "hgen0 os owned H F D (st\<lparr>release_index := n\<rparr>) = hgen0 os owned H F D st"
  by (simp_all add: hgen0_def mem_ok_def pha_inv_fields)

lemma hcore_fields [simp]:
  "hcore os owned H F (st\<lparr>committed_bytes := n\<rparr>) = hcore os owned H F st"
  "hcore os owned H F (st\<lparr>scavenge_counter := i\<rparr>) = hcore os owned H F st"
  "hcore os owned H F (st\<lparr>release_index := n\<rparr>) = hcore os owned H F st"
  by (simp_all add: hcore_def hgen_def)

lemma meta_inv_sys:
  assumes "meta_inv os owned used st" "sys_frame st st'" "sys_inv os st'" "owned (os_st st) \<subseteq> owned (os_st st')"
  shows "meta_inv os owned used st'"
proof -
  have "chunk st' = chunk st" "metadata_chunk_alloc st' = metadata_chunk_alloc st" "metadata_chunk_avail st' = metadata_chunk_avail st"
    using assms(2) by (auto simp: sys_frame_def chunk_def)
  then show ?thesis using assms by (auto simp: meta_inv_def)
qed

lemma hgen0_sys:
  assumes "hgen0 os owned H F D st" "sys_frame st st'" "sys_inv os st'" "owned (os_st st) \<subseteq> owned (os_st st')"
  shows "hgen0 os owned H F D st'"
proof -
  have "pha_inv os owned sizeof_Span (dom D) (span_allocator st, span_links st, st')"
    using assms meta_inv_sys [OF _ assms(2-4)] by (auto simp: hgen0_def mem_ok_def pha_inv_def)
  moreover have "span_allocator st' = span_allocator st" "span_links st' = span_links st" "spans st' = spans st"
      "free_bytes st' = free_bytes st" "unmapped_bytes st' = unmapped_bytes st" "system_bytes st' = system_bytes st"
      "aggressive_decommit st' = aggressive_decommit st"
    using assms(2) by (auto simp: sys_frame_def)
  moreover have "card (owned (os_st st)) \<le> card (owned (os_st st'))"
    using assms(1,4) by (intro card_mono) (auto simp: hgen0_def mem_ok_def os_limit_def)
  ultimately show ?thesis using assms(1,4) by (auto simp: hgen0_def mem_ok_def)
qed

text \<open>The system takes memory back whenever it is asked to.\<close>

definition release_works :: "'o os \<Rightarrow> ('o, 'z) heap_scheme \<Rightarrow> bool" where
  "release_works os st \<longleftrightarrow> FLAGS_malloc_devmem_start st = 0 \<and> \<not> FLAGS_malloc_disable_memory_release st \<and>
     os_getpagesize os \<le> 2 ^ kPageShift \<and> (\<forall>p n s. fst (os_madvise os p n s) = MadviseOk)"

lemma release_works_hfix: "hfix st' = hfix st \<Longrightarrow> release_works os st' = release_works os st"
  by (simp add: hfix_def release_works_def)

lemma SystemRelease_works:
  assumes os: "os_ok os owned" "sys_inv os st" "release_works os st" and p: "p + n \<le> 2 ^ kPageMapBits" "0 < n"
    and r: "TCMalloc_SystemRelease os (2 ^ kPageShift * p) (2 ^ kPageShift * n) st = Inr (ok, st')"
  shows ok
proof -
  obtain g where g: "os_getpagesize os = 2 ^ g" using os(1) by (auto simp: os_ok_def)
  have "(2::nat) ^ g \<le> 2 ^ 13" using os(3) g by (simp add: release_works_def kPageShift_def)
  then have g13: "g \<le> 13" by (rule power_le_imp_le_exp [rotated]) simp
  define m where "m = (2::nat) ^ (13 - g)"
  have m: "2 ^ kPageShift = m * 2 ^ g" "0 < m" using g13 by (simp_all add: m_def kPageShift_def flip: power_add)
  define st0 where "st0 = get_pagesize os st"
  have st0: "pagesize st0 = 2 ^ g" using os(2) g by (auto simp: st0_def get_pagesize_def sys_inv_def)
  have "2 ^ kPageShift * (p + n) \<le> 2 ^ kPageShift * 2 ^ kPageMapBits" using p(1) by simp
  then have le: "2 ^ kPageShift * (p + n) \<le> 2 ^ 48" by (simp add: kPageShift_def kPageMapBits_def)
  have g13': "(2::nat) ^ g \<le> 2 ^ 13" using g13 by (intro power_increasing) auto
  have e: "2 ^ kPageShift * p + 2 ^ kPageShift * n = m * (p + n) * 2 ^ g" "2 ^ kPageShift * p = m * p * 2 ^ g"
    by (simp_all add: m(1) algebra_simps)
  have lt: "m * (p + n) * 2 ^ g < 2 ^ 64" "m * p * 2 ^ g + 2 ^ g - 1 < 2 ^ 64" using le e g13' by (simp_all add: distrib_left)
  have w1: "wrap64 (2 ^ kPageShift * p + 2 ^ kPageShift * n) = m * (p + n) * 2 ^ g"
    unfolding e(1) wrap64_def by (rule mod_less [OF lt(1)])
  have "wrap64 (2 ^ kPageShift * p + 2 ^ g - 1) = m * p * 2 ^ g + 2 ^ g - 1"
    unfolding e(2) wrap64_def by (rule mod_less [OF lt(2)])
  then have w: "wrap64 (2 ^ kPageShift * p + 2 ^ kPageShift * n) = m * (p + n) * 2 ^ g"
      "wrap64 (2 ^ kPageShift * p + 2 ^ g - 1) = m * p * 2 ^ g + (2 ^ g - 1)"
    using w1 by simp_all
  have d: "(m * p * 2 ^ g + (2 ^ g - 1)) div 2 ^ g = m * p" by (subst div_mult_self3) auto
  then have d': "(m * p * 2 ^ g + 2 ^ g - 1) div 2 ^ g = m * p" by simp
  have "m * p < m * (p + n)" using m(2) p(2) by simp
  then have lt2: "m * p * 2 ^ g < m * (p + n) * 2 ^ g" by simp
  have "os_madvise os q k (os_st st0) = (MadviseOk, snd (os_madvise os q k (os_st st0)))" for q k
    using os(3) by (simp add: release_works_def prod_eq_iff)
  then have "madvise_loop (Suc k) os q j st0 = Inr (True, st0\<lparr>os_st := snd (os_madvise os q j (os_st st0))\<rparr>)" for q j k
    by (simp add: case_prod_unfold Let_def del: split_paired_All) (metis (no_types, lifting) fst_conv madvise_result.simps(7))
  then show ?thesis
    using r os(3) lt2 unfolding TCMalloc_SystemRelease_def release_works_def
    by (simp add: Let_def st0_def [symmetric] st0 w clear_mask_pow2 d d' del: madvise_loop.simps One_nat_def)
qed

lemma DecommitSpan_eff:
  assumes inv: "hgen0 os owned H F D st" and a: "D a = Some s" "spans st (Obj a) = Some u" "unlink u = s"
  shows "\<exists>ok st1. DecommitSpan os (Obj a) st =
      Inr (ok, if ok then st1\<lparr>committed_bytes := sub64 (committed_bytes st) (page_bytes (span_length s))\<rparr> else st1) \<and>
    hgen0 os owned H F D st1 \<and> spans st1 = spans st \<and> pagemap st1 = pagemap st \<and> hfix st1 = hfix st \<and>
    owned (os_st st1) = owned (os_st st) \<and> committed_bytes st1 = committed_bytes st \<and> (\<forall>k. bytes_on k st1 = bytes_on k st) \<and>
    release_index st1 = release_index st \<and> (release_works os st \<longrightarrow> ok)"
proof -
  have m: "os_ok os owned" "sys_inv os st" "madvise_answers os" "spans_wf D"
    using inv by (auto simp: hgen0_def mem_ok_def pha_inv_def meta_inv_def)
  note w = spans_wfD [OF m(4) a(1)]
  have st: "page_bytes (start s) = 2 ^ kPageShift * start s" "page_bytes (span_length s) = 2 ^ kPageShift * span_length s"
    using w(4) by (auto intro!: page_bytes_id simp: kPageMapBits_def)
  have "2 ^ kPageShift * start s + 2 ^ kPageShift * span_length s \<le> 2 ^ kPageShift * 2 ^ kPageMapBits"
    using w(4) by (simp flip: distrib_left)
  then have "2 ^ kPageShift * start s + 2 ^ kPageShift * span_length s + 2 ^ 16 < 2 ^ 64" by (simp add: kPageShift_def kPageMapBits_def)
  then obtain ok st1 where r: "TCMalloc_SystemRelease os (page_bytes (start s)) (page_bytes (span_length s)) st = Inr (ok, st1)"
      "sys_frame st st1" "sys_inv os st1" "owned (os_st st1) = owned (os_st st)"
    using TCMalloc_SystemRelease_spec [OF m(1-3), of "page_bytes (start s)" "page_bytes (span_length s)"]
    unfolding st by (auto simp: returns_iff)
  have tk: "TCMalloc_SystemTaken st1 = TCMalloc_SystemTaken st" by (rule TCMalloc_SystemRelease_taken [OF r(1)])
  have f: "spans st1 = spans st" "pagemap st1 = pagemap st" "committed_bytes st1 = committed_bytes st" "\<forall>k. bytes_on k st1 = bytes_on k st"
      "release_index st1 = release_index st" "hfix st1 = hfix st"
    using r(2) tk by (auto simp: sys_frame_def bytes_on_def hfix_def)
  have "DecommitSpan os (Obj a) st =
      Inr (ok, if ok then st1\<lparr>committed_bytes := sub64 (committed_bytes st) (page_bytes (span_length s))\<rparr> else st1)"
    using a(2) r(1) unlinkD(2,3) [OF a(3)] f(3) by (simp add: DecommitSpan_def get_span_def)
  moreover have "release_works os st \<longrightarrow> ok"
    using SystemRelease_works [OF m(1,2) _ w(4,2)] r(1) unfolding st by blast
  ultimately show ?thesis using hgen0_sys [OF inv r(2,3)] f r(4) by blast
qed

section \<open>Releasing spans\<close>

text \<open>
  \<open>n\<close> pages have moved from the normal to the returned lists; spans in use, the central lists and
  everything else that others see is as before.
\<close>

definition released ::
  "'o os \<Rightarrow> ('o \<Rightarrow> addr set) \<Rightarrow> sptr set \<Rightarrow> (sptr \<Rightarrow> sptr list) \<Rightarrow> (sptr \<Rightarrow> sptr list) \<Rightarrow>
   ('o, 'z) heap_scheme \<Rightarrow> nat \<Rightarrow> ('o, 'z) heap_scheme \<Rightarrow> bool" where
  "released os owned H F F' st n st' \<longleftrightarrow> hinv os owned H F' st' \<and> (\<forall>h. h \<notin> heads \<longrightarrow> F' h = F h) \<and> hfix st' = hfix st \<and>
     owned (os_st st') = owned (os_st st) \<and> in_use (sdata (spans st')) = in_use (sdata (spans st)) \<and>
     free_bytes st' + 2 ^ kPageShift * n = free_bytes st \<and> unmapped_bytes st' = unmapped_bytes st + 2 ^ kPageShift * n"

lemma released_refl: "hinv os owned H F st \<Longrightarrow> released os owned H F F st 0 st"
  by (simp add: released_def)

lemma released_trans:
  "released os owned H F F1 st n st1 \<Longrightarrow> released os owned H F1 F2 st1 m st2 \<Longrightarrow> released os owned H F F2 st (n + m) st2"
  by (auto simp: released_def distrib_left)

lemma hinv_fields [simp]:
  "hinv os owned H F (st\<lparr>scavenge_counter := i\<rparr>) = hinv os owned H F st"
  "hinv os owned H F (st\<lparr>release_index := n\<rparr>) = hinv os owned H F st"
  by (simp_all add: hinv_def)

lemma released_fields [simp]:
  "released os owned H F F' st n (st'\<lparr>scavenge_counter := i\<rparr>) = released os owned H F F' st n st'"
  "released os owned H F F' st n (st'\<lparr>release_index := k\<rparr>) = released os owned H F F' st n st'"
  "released os owned H F F' (st\<lparr>scavenge_counter := i\<rparr>) n st' = released os owned H F F' st n st'"
  "released os owned H F F' (st\<lparr>release_index := k\<rparr>) n st' = released os owned H F F' st n st'"
  by (simp_all add: released_def)

lemma hinvD:
  assumes "hinv os owned H F st"
  shows "hgen0 os owned H F (sdata (spans st)) st" "map_ok (sdata (spans st)) (pagemap st)" "lists_ok (spans st) H F"
    "lists_exact (sdata (spans st)) H F" "heads \<subseteq> H" "committed_bytes st + unmapped_bytes st = system_bytes st"
    "spans_wf (sdata (spans st))"
  using assms by (auto simp: hinv_def hcore_def hgen_def hgen0_def lists_exact_def)

lemma free_list_span:
  assumes "lists_exact D H F" "h \<in> heads" "x \<in> set (F h)"
  shows "\<exists>a s. x = Obj a \<and> D a = Some s \<and> free_span s \<and> head_of s = h"
  using assms unfolding lists_exact_def by blast

lemma ReleaseLastNormalSpan_eff:
  assumes inv: "hinv os owned H F st" and i: "i \<le> kMaxPages" "F (NormalHd i) \<noteq> []"
  shows "\<exists>n st' F'. ReleaseLastNormalSpan os i st = Inr (n, st') \<and> released os owned H F F' st n st' \<and>
    release_index st' = release_index st \<and> (release_works os st \<longrightarrow> 0 < n)"
proof -
  note d = hinvD [OF inv]
  let ?D = "sdata (spans st)"
  have hd: "NormalHd i \<in> heads" using i(1) by (auto simp: heads_def)
  obtain a s where a: "last (F (NormalHd i)) = Obj a" "?D a = Some s" "free_span s" "head_of s = NormalHd i"
    using free_list_span [OF d(4) hd last_in_set [OF i(2)]] by blast
  have loc: "location s = ON_NORMAL_FREELIST" using a(4) by (simp add: head_of_def split: if_splits)
  obtain l where l: "spans st (NormalHd i) = Some l" "prv l = Obj a" using last_span [OF d(3) _ i(2)] hd d(5) a(1) by auto
  obtain u where u: "spans st (Obj a) = Some u" "unlink u = s" using sdata_Some [OF a(2)] by blast
  obtain ok st1 where r1: "DecommitSpan os (Obj a) st =
        Inr (ok, if ok then st1\<lparr>committed_bytes := sub64 (committed_bytes st) (page_bytes (span_length s))\<rparr> else st1)"
      "hgen0 os owned H F ?D st1" "spans st1 = spans st" "pagemap st1 = pagemap st" "hfix st1 = hfix st"
      "owned (os_st st1) = owned (os_st st)" "committed_bytes st1 = committed_bytes st" "release_index st1 = release_index st"
      "\<forall>k. bytes_on k st1 = bytes_on k st" "release_works os st \<longrightarrow> ok"
    using DecommitSpan_eff [OF d(1) a(2) u] by blast
  have by1: "free_bytes st1 = free_bytes st" "unmapped_bytes st1 = unmapped_bytes st"
    using r1(9) [rule_format, of ON_NORMAL_FREELIST] r1(9) [rule_format, of IN_USE] by (simp_all add: bytes_on_def)
  have sys1: "system_bytes st1 = system_bytes st" using r1(5) by (simp add: hfix_def)
  show ?thesis
  proof (cases ok)
    case False
    have "hinv os owned H F st1" using r1 d(2,6) by1 sys1 by (simp add: hinv_def hcore_def hgen_def)
    then have "released os owned H F F st 0 st1" using r1 by1 by (simp add: released_def)
    moreover have "ReleaseLastNormalSpan os i st = Inr (0, st1)"
      using l r1(1) False by (simp add: ReleaseLastNormalSpan_def get_span_def)
    ultimately show ?thesis using r1(8,10) False by blast
  next
    case True
    define st1c where "st1c = st1\<lparr>committed_bytes := sub64 (committed_bytes st) (page_bytes (span_length s))\<rparr>"
    have g1: "hgen0 os owned H F ?D st1c" "sdata (spans st1c) a = Some s" "spans st1c = spans st" using r1(2,3) a(2) by (simp_all add: st1c_def)
    obtain st2 v st3 F3 where r3: "RemoveFromFreeList (Obj a) st1c = Inr st2" "get_span (Obj a) st2 = Inr v" "unlink v = s"
        "on_spans (upd_span (Obj a) (location_update (\<lambda>_. ON_RETURNED_FREELIST))) st2 = Inr st3"
        "hgen0 os owned H F3 (?D(a \<mapsto> s\<lparr>location := IN_USE\<rparr>)) st3" "on_no_list H F3 a"
        "sdata (spans st3) = ?D(a \<mapsto> s\<lparr>location := ON_RETURNED_FREELIST\<rparr>)" "pagemap st3 = pagemap st1c" "hrest st3 = hrest st1c"
        "\<forall>h. h \<notin> heads \<longrightarrow> F3 h = F h"
        "\<forall>k. bytes_on k st3 + (if k = ON_NORMAL_FREELIST \<longleftrightarrow> location s = ON_NORMAL_FREELIST then 2 ^ kPageShift * span_length s else 0) = bytes_on k st1c"
      using detach [OF g1(1) a(2,3) g1(2), of ON_RETURNED_FREELIST] g1(3) by auto
    have sc: "sizeclass s = 0" using map_okD(4) [OF d(2) a(2)] a(3) by (auto simp: free_span_def)
    have det: "detached os owned H F3 (?D(a \<mapsto> s\<lparr>location := IN_USE\<rparr>)) a (s\<lparr>location := IN_USE\<rparr>) ON_RETURNED_FREELIST st3"
      unfolding detached_def hgen_def using r3(5-8) sc map_ok_location [OF d(2,7) a(2) sc] r1(4) by (simp add: st1c_def)
    obtain st' F' where r4: "MergeIntoFreeList os (Obj a) st3 = Inr st'" "hcore os owned H F' st'" "\<forall>h. h \<notin> heads \<longrightarrow> F' h = F3 h"
        "hrest st' = hrest st3" "in_use (sdata (spans st')) = (in_use (?D(a \<mapsto> s\<lparr>location := IN_USE\<rparr>)))(a := None)"
        "\<forall>k. bytes_on k st' = bytes_on k st3 + (if k = ON_NORMAL_FREELIST \<longleftrightarrow> ON_RETURNED_FREELIST = ON_NORMAL_FREELIST
           then 2 ^ kPageShift * span_length (s\<lparr>location := IN_USE\<rparr>) else 0)"
      using MergeIntoFreeList_eff [OF det] by blast
    have run: "ReleaseLastNormalSpan os i st = Inr (span_length s, st')"
      using l r1(1) True r3(1-4) r4(1) unlinkD(2) [OF r3(3)]
      by (simp add: ReleaseLastNormalSpan_def get_span_def st1c_def)
    have hr: "hrest st' = hrest st1c" using r3(9) r4(4) by simp
    have byt: "free_bytes st' + 2 ^ kPageShift * span_length s = free_bytes st" "unmapped_bytes st' = unmapped_bytes st + 2 ^ kPageShift * span_length s"
      using r3(11) [rule_format, of ON_NORMAL_FREELIST] r3(11) [rule_format, of IN_USE] r4(6) [rule_format, of ON_NORMAL_FREELIST]
        r4(6) [rule_format, of IN_USE] loc by1 by (simp_all add: bytes_on_def st1c_def)
    note bd = hgen_bounds [OF d(1)]
    have len: "page_bytes (span_length s) = 2 ^ kPageShift * span_length s" using bd(4) [OF a(2)] by (intro page_bytes_id) simp
    have "sub64 (committed_bytes st) (page_bytes (span_length s)) = committed_bytes st - 2 ^ kPageShift * span_length s"
      unfolding len using bd(3,5) d(6) byt(1) by (intro sub64_id) simp_all
    then have "committed_bytes st' = committed_bytes st - 2 ^ kPageShift * span_length s" "system_bytes st' = system_bytes st"
      using hrestD(1,2) [OF hr] sys1 by (simp_all add: st1c_def)
    then have "hinv os owned H F' st'"
      using r4(2) d(6) byt bd(5) by (simp add: hinv_def)
    moreover have "hfix st' = hfix st" using hfix_rest [OF hr] r1(5) by (simp add: st1c_def)
    moreover have "owned (os_st st') = owned (os_st st)" using hrestD(10) [OF hr] r1(6) by (simp add: st1c_def)
    moreover have "in_use (sdata (spans st')) = in_use ?D"
      using r4(5) in_use_free [of ?D a s] a(2,3) by (simp add: fun_upd_idem)
    ultimately have "released os owned H F F' st (span_length s) st'"
      using byt r3(10) r4(3) by (simp add: released_def)
    moreover have "release_index st' = release_index st" using hrestD(4) [OF hr] r1(8) by (simp add: st1c_def)
    ultimately show ?thesis using run spans_wfD(2) [OF d(7) a(2)] by blast
  qed
qed

section \<open>The release loop terminates\<close>

definition round_index :: "nat \<Rightarrow> nat" where
  "round_index r = (if r > kMaxPages then 0 else r)"

lemma round_index_Suc: "round_index (Suc (round_index r)) = (round_index r + 1) mod (kMaxPages + 1)"
proof -
  have "round_index r \<le> kMaxPages" by (simp add: round_index_def)
  moreover have "round_index (Suc k) = (if k < kMaxPages then Suc k else 0)" for k by (simp add: round_index_def)
  ultimately show ?thesis by (cases "round_index r = kMaxPages") simp_all
qed

lemma release_round_eff:
  "hinv os owned H F st \<Longrightarrow> \<exists>ret n st' F'. release_round k os np rel st = Inr (ret, rel + n, st') \<and> released os owned H F F' st n st' \<and>
     (\<not> ret \<and> n = 0 \<and> rel < np \<longrightarrow> (\<forall>j<k. F (NormalHd ((round_index (release_index st) + j) mod (kMaxPages + 1))) = [])) \<and>
     (release_works os st \<longrightarrow> \<not> ret)"
proof (induction k arbitrary: rel st F)
  case 0
  then show ?case
    by (intro exI [of _ False] exI [of _ "0::nat"] exI [of _ st] exI [of _ F]) (simp add: released_refl)
next
  case (Suc k)
  show ?case
  proof (cases "rel < np")
    case False
    then show ?thesis using released_refl [OF Suc.prems]
      by (intro exI [of _ False] exI [of _ "0::nat"] exI [of _ st] exI [of _ F]) simp
  next
    case True
    define i where "i = round_index (release_index st)"
    define st1 where "st1 = (if release_index st > kMaxPages then st\<lparr>release_index := 0\<rparr> else st)"
    have i: "i \<le> kMaxPages" "release_index st1 = i" "spans st1 = spans st" by (auto simp: i_def round_index_def st1_def)
    have inv1: "hinv os owned H F st1" using Suc.prems by (simp add: st1_def)
    have hd: "NormalHd i \<in> H" using i(1) hinvD(5) [OF Suc.prems] by (auto simp: heads_def)
    have emp: "DLL_IsEmpty (NormalHd i) (spans st1) = Inr (F (NormalHd i) = [])"
      by (rule DLL_IsEmpty_lists [OF hinvD(3) [OF inv1] hd])
    have rel1: "released os owned H F F' st1 n st' = released os owned H F F' st n st'" for F' n st' by (simp add: st1_def)
    have wk: "release_works os st1 = release_works os st" by (rule release_works_hfix) (simp add: st1_def)
    have ix: "(round_index (i + 1) + j) mod (kMaxPages + 1) = (i + Suc j) mod (kMaxPages + 1)" for j
      using round_index_Suc [of "release_index st"] by (simp add: i_def [symmetric] mod_simps)
    show ?thesis
    proof (cases "F (NormalHd i) = []")
      case e: True
      let ?st = "st1\<lparr>release_index := i + 1\<rparr>"
      have "hinv os owned H F ?st" using inv1 by simp
      from Suc.IH [OF this, of rel] obtain ret n st' F' where ih: "release_round k os np rel ?st = Inr (ret, rel + n, st')"
          "released os owned H F F' ?st n st'" "release_works os ?st \<longrightarrow> \<not> ret"
          "\<not> ret \<and> n = 0 \<and> rel < np \<longrightarrow> (\<forall>j<k. F (NormalHd ((round_index (i + 1) + j) mod (kMaxPages + 1))) = [])"
        by auto
      have "release_round (Suc k) os np rel st = Inr (ret, rel + n, st')"
        using True e emp ih(1) i(2) by (simp add: st1_def [symmetric] Let_def)
      moreover have "F (NormalHd ((i + j) mod (kMaxPages + 1))) = []" if "\<not> ret" "n = 0" "j < Suc k" for j
        using that e i(1) ih(4) True ix by (cases j) auto
      moreover have "release_works os ?st = release_works os st" using wk release_works_hfix [of ?st st1 os] by simp
      ultimately show ?thesis using ih(2,3) rel1 unfolding i_def by (intro exI conjI) auto
    next
      case False
      obtain n1 st2 F2 where r: "ReleaseLastNormalSpan os i st1 = Inr (n1, st2)" "released os owned H F F2 st1 n1 st2"
          "release_index st2 = i" "release_works os st1 \<longrightarrow> 0 < n1"
        using ReleaseLastNormalSpan_eff [OF inv1 i(1) False] i(2) by blast
      show ?thesis
      proof (cases "n1 = 0")
        case z: True
        have "release_round (Suc k) os np rel st = Inr (True, rel + n1, st2)"
          using True False emp r(1) i(2) z by (simp add: st1_def [symmetric] Let_def)
        then show ?thesis using r z rel1 wk by (intro exI conjI) auto
      next
        case nz: False
        let ?st = "st2\<lparr>release_index := i + 1\<rparr>"
        have "hinv os owned H F2 ?st" using r(2) by (simp add: released_def)
        from Suc.IH [OF this, of "rel + n1"] obtain ret n st' F' where
            ih: "release_round k os np (rel + n1) ?st = Inr (ret, rel + n1 + n, st')" "released os owned H F2 F' ?st n st'"
              "release_works os ?st \<longrightarrow> \<not> ret"
          by blast
        have "release_round (Suc k) os np rel st = Inr (ret, rel + (n1 + n), st')"
          using True False emp r(1,3) i(2) nz ih(1) by (simp add: st1_def [symmetric] Let_def add.assoc)
        moreover have "released os owned H F F' st (n1 + n) st'"
          using released_trans [OF r(2), of F' n st'] ih(2) rel1 by simp
        moreover have "release_works os ?st = release_works os st"
          using wk release_works_hfix [of ?st st1 os] r(2) by (simp add: released_def)
        ultimately show ?thesis using ih(3) nz by (intro exI conjI) auto
      qed
    qed
  qed
qed

lemma normal_list_nonempty:
  assumes "hinv os owned H F st" "0 < free_bytes st"
  shows "\<exists>i\<le>kMaxPages. F (NormalHd i) \<noteq> []"
proof -
  note d = hinvD [OF assms(1)]
  let ?D = "sdata (spans st)"
  have "npages (\<lambda>s. location s = ON_NORMAL_FREELIST) ?D \<noteq> 0" using d(1) assms(2) by (auto simp: hgen0_def)
  then have "{a \<in> dom ?D. location (the (?D a)) = ON_NORMAL_FREELIST} \<noteq> {}" unfolding npages_def by force
  then obtain a s where a: "?D a = Some s" "location s = ON_NORMAL_FREELIST" by auto
  then have "free_span s" "head_of s = NormalHd (list_index (span_length s))" by (simp_all add: free_span_def head_of_def)
  then have "F (NormalHd (list_index (span_length s))) \<noteq> []" using list_split [OF d(4) a(1)] by auto
  then show ?thesis by (intro exI [of _ "list_index (span_length s)"]) (simp add: list_index_def)
qed

lemma sub64_add: "sub64 a (b + c) = sub64 (sub64 a b) c"
proof -
  have i: "int (sub64 a b) = (int a - int b) mod 2 ^ 64" for a b
  proof -
    have "b mod 2 ^ 64 \<le> 2 ^ 64" by (simp add: order_less_imp_le)
    then have "int (2 ^ 64 - b mod 2 ^ 64) = 2 ^ 64 - int b mod 2 ^ 64" by (simp add: of_nat_diff zmod_int)
    then have "int (a + (2 ^ 64 - b mod 2 ^ 64)) = int a - int b mod 2 ^ 64 + 2 ^ 64" by simp
    then have "int (sub64 a b) = (int a - int b mod 2 ^ 64 + 2 ^ 64) mod 2 ^ 64" unfolding sub64_def wrap64_def by (simp only: zmod_int) simp
    also have "\<dots> = (int a - int b) mod 2 ^ 64" by (simp only: mod_add_self2 mod_diff_right_eq)
    finally show ?thesis .
  qed
  have "int (sub64 a (b + c)) = int (sub64 (sub64 a b) c)"
    unfolding i by (simp add: mod_diff_left_eq algebra_simps)
  then show ?thesis by simp
qed

lemma release_rounds_eff:
  "hinv os owned H F st \<Longrightarrow> free_bytes st div 2 ^ kPageShift < k \<Longrightarrow>
   \<exists>n st' F'. release_rounds k os np rel st = Inr (rel + n, st') \<and> released os owned H F F' st n st' \<and>
     (release_works os st \<longrightarrow> np \<le> rel + n \<or> free_bytes st' = 0)"
proof (induction k arbitrary: rel st F)
  case (Suc k)
  show ?case
  proof (cases "rel < np \<and> free_bytes st > 0")
    case False
    then show ?thesis using released_refl [OF Suc.prems(1)]
      by (intro exI [of _ "0::nat"] exI [of _ st] exI [of _ F]) auto
  next
    case True
    obtain ret n1 st1 F1 where r: "release_round (kMaxPages + 1) os np rel st = Inr (ret, rel + n1, st1)" "released os owned H F F1 st n1 st1"
        "\<not> ret \<and> n1 = 0 \<and> rel < np \<longrightarrow> (\<forall>j<kMaxPages + 1. F (NormalHd ((round_index (release_index st) + j) mod (kMaxPages + 1))) = [])"
        "release_works os st \<longrightarrow> \<not> ret"
      using release_round_eff [OF Suc.prems(1)] by blast
    show ?thesis
    proof (cases ret)
      case r': True
      then have "release_rounds (Suc k) os np rel st = Inr (rel + n1, st1)" using True r(1) by (simp del: release_round.simps)
      then show ?thesis using r(2,4) r' by blast
    next
      case nr: False
      have pos: "0 < n1"
      proof (rule ccontr)
        assume "\<not> 0 < n1"
        obtain i where i: "i \<le> kMaxPages" "F (NormalHd i) \<noteq> []" using normal_list_nonempty [OF Suc.prems(1) conjunct2 [OF True]] by auto
        define r0 where "r0 = round_index (release_index st)"
        have r0: "r0 \<le> kMaxPages" by (simp add: r0_def round_index_def)
        define j where "j = (i + (kMaxPages + 1) - r0) mod (kMaxPages + 1)"
        have "(r0 + j) mod (kMaxPages + 1) = (r0 + (i + (kMaxPages + 1) - r0)) mod (kMaxPages + 1)"
          by (simp only: j_def mod_add_right_eq)
        also have "r0 + (i + (kMaxPages + 1) - r0) = i + (kMaxPages + 1)" using r0 by simp
        finally have "(r0 + j) mod (kMaxPages + 1) = i" using i(1) by (simp only: mod_add_self2) simp
        moreover have "j < kMaxPages + 1" by (simp add: j_def)
        ultimately show False using r(3) nr \<open>\<not> 0 < n1\<close> True i(2) unfolding r0_def [symmetric] by blast
      qed
      have fb: "free_bytes st1 + 2 ^ kPageShift * n1 = free_bytes st" "hinv os owned H F1 st1" "hfix st1 = hfix st"
        using r(2) by (auto simp: released_def)
      have "free_bytes st1 div 2 ^ kPageShift + n1 = free_bytes st div 2 ^ kPageShift"
        using fb(1) [symmetric] by simp
      then have "free_bytes st1 div 2 ^ kPageShift < k" using pos Suc.prems(2) by simp
      from Suc.IH [OF fb(2) this, of "rel + n1"] obtain n st' F' where
          ih: "release_rounds k os np (rel + n1) st1 = Inr (rel + n1 + n, st')" "released os owned H F1 F' st1 n st'"
            "release_works os st1 \<longrightarrow> np \<le> rel + n1 + n \<or> free_bytes st' = 0"
        by blast
      have "release_rounds (Suc k) os np rel st = Inr (rel + (n1 + n), st')"
        using True nr r(1) ih(1) by (simp add: add.assoc del: release_round.simps)
      then show ?thesis
        using released_trans [OF r(2) ih(2)] ih(3) release_works_hfix [OF fb(3), of os]
        by (intro exI [of _ "n1 + n"] exI [of _ st'] exI [of _ F']) (simp add: add.assoc)
    qed
  qed
qed simp

lemma ReleaseAtLeastNPages_eff:
  assumes "hinv os owned H F st"
  shows "\<exists>n st' F'. ReleaseAtLeastNPages os np st = Inr (n, st') \<and> released os owned H F F' st n st' \<and>
    (release_works os st \<longrightarrow> np \<le> n \<or> free_bytes st' = 0)"
  using release_rounds_eff [OF assms, of "free_bytes st div 2 ^ kPageShift + 1" np 0]
  by (simp add: ReleaseAtLeastNPages_def)

section \<open>Scavenging, the limit and deletion\<close>

lemma IncrementalScavenge_eff:
  assumes "hinv os owned H F st"
  shows "\<exists>m st' F'. IncrementalScavenge os n st = Inr st' \<and> released os owned H F F' st m st'"
proof -
  define st1 where "st1 = st\<lparr>scavenge_counter := scavenge_counter st - int n\<rparr>"
  have inv1: "hinv os owned H F st1" using assms by (simp add: st1_def)
  have rel1: "released os owned H F F' st1 m st' = released os owned H F F' st m st'" for F' m st' by (simp add: st1_def)
  have r0: "released os owned H F F st 0 (st1\<lparr>scavenge_counter := c\<rparr>)" "released os owned H F F st 0 st1" for c
    using released_refl [OF assms] by (simp_all add: st1_def)
  obtain m st2 F2 where r: "ReleaseAtLeastNPages os 1 st1 = Inr (m, st2)" "released os owned H F F2 st m st2"
    using ReleaseAtLeastNPages_eff [OF inv1, of 1] rel1 by blast
  have "\<exists>c. IncrementalScavenge os n st \<in> {Inr st1, Inr (st1\<lparr>scavenge_counter := c\<rparr>), Inr (st2\<lparr>scavenge_counter := c\<rparr>)}"
    unfolding IncrementalScavenge_def Let_def st1_def [symmetric] by (simp add: r(1) del: One_nat_def) blast
  then obtain c where "IncrementalScavenge os n st \<in> {Inr st1, Inr (st1\<lparr>scavenge_counter := c\<rparr>), Inr (st2\<lparr>scavenge_counter := c\<rparr>)}" by blast
  then consider "IncrementalScavenge os n st = Inr st1" | "IncrementalScavenge os n st = Inr (st1\<lparr>scavenge_counter := c\<rparr>)"
    | "IncrementalScavenge os n st = Inr (st2\<lparr>scavenge_counter := c\<rparr>)" by blast
  then show ?thesis
  proof cases
    case 3
    have "released os owned H F F2 st m (st2\<lparr>scavenge_counter := c\<rparr>)" using r(2) by simp
    then show ?thesis using 3 by blast
  qed (use r0 in blast)+
qed

text \<open>
  \<open>EnsureLimit\<close> with release, when it succeeds, leaves a state in which it succeeds without.
\<close>

lemma EnsureLimit_eff:
  assumes "hinv os owned H F st"
  shows "\<exists>ok m st' F'. EnsureLimit os n rls st = Inr (ok, st') \<and> released os owned H F F' st m st' \<and> (\<not> rls \<longrightarrow> st' = st) \<and>
    (ok \<longrightarrow> EnsureLimit os n False st' = Inr (True, st'))"
proof -
  define tk where "tk st = sub64 (TCMalloc_SystemTaken st div 2 ^ kPageShift) (unmapped_bytes st div 2 ^ kPageShift)" for st :: "('a, 'b) heap_scheme"
  have no: "EnsureLimit os n False st = Inr (heap_limit st = 0 \<or> add64 (tk st) n \<le> heap_limit st, st)" for st :: "('a, 'b) heap_scheme"
    by (simp add: EnsureLimit_def Let_def tk_def)
  show ?thesis
  proof (cases "rls \<and> heap_limit st \<noteq> 0 \<and> add64 (tk st) n > heap_limit st")
    case False
    then have "EnsureLimit os n rls st = Inr (heap_limit st = 0 \<or> add64 (tk st) n \<le> heap_limit st, st)"
      by (auto simp: EnsureLimit_def Let_def tk_def)
    then show ?thesis using released_refl [OF assms] no by auto
  next
    case True
    obtain m st1 F1 where r: "ReleaseAtLeastNPages os (sub64 (add64 (tk st) n) (heap_limit st)) st = Inr (m, st1)" "released os owned H F F1 st m st1"
      using ReleaseAtLeastNPages_eff [OF assms] by blast
    have f: "heap_limit st1 = heap_limit st" "TCMalloc_SystemTaken st1 = TCMalloc_SystemTaken st"
        "unmapped_bytes st1 = unmapped_bytes st + 2 ^ kPageShift * m"
      using r(2) by (auto simp: released_def hfix_def heap_limit_def)
    have "unmapped_bytes st1 div 2 ^ kPageShift = unmapped_bytes st div 2 ^ kPageShift + m" unfolding f(3) by simp
    then have tk1: "tk st1 = sub64 (tk st) m" unfolding tk_def f(2) by (simp add: sub64_add)
    have "EnsureLimit os n rls st = Inr (add64 (sub64 (tk st) m) n \<le> heap_limit st, st1)"
      using True r(1) by (simp add: EnsureLimit_def Let_def tk_def)
    then show ?thesis using r(2) True no [of st1] f(1) tk1 by auto
  qed
qed

lemma room_for_same:
  assumes "spans_wf D" "D a = Some s" "start s' = start s" "span_length s' \<le> span_length s" "0 < span_length s'"
  shows "room_for D a s'"
proof -
  have "pages_of s' \<subseteq> pages_of s" using assms(3,4) by (auto simp: pages_of_def)
  then show ?thesis
    using spans_wfD(3,4) [OF assms(1,2)] spans_disjoint [OF assms(1,2)] assms(3-5) unfolding room_for_def
    by (intro conjI allI impI) (simp_all, blast)
qed

lemma hgen0_same_extent:
  assumes "hgen0 os owned H F D st" "D a = Some s" "location s = IN_USE" "location s' = IN_USE"
    "start s' = start s" "span_length s' = span_length s"
  shows "hgen0 os owned H F (D(a \<mapsto> s')) st"
proof -
  have w: "spans_wf D" "span_bytes_of s \<subseteq> owned (os_st st)" using assms(1,2) by (auto simp: hgen0_def mem_ok_def)
  have "npages (\<lambda>_. True) (D(a \<mapsto> s')) = npages (\<lambda>_. True) D"
    using npages_update [OF spans_finite [OF w(1)] assms(2), of "\<lambda>_. True" s'] assms(6) by simp
  then show ?thesis
    using hgen0_in_use [OF assms(1-4) room_for_same [OF w(1) assms(2,5)]] assms(1,5,6) w(2) spans_wfD(2) [OF w(1) assms(2)]
    by (simp add: span_bytes_of_def hgen0_def)
qed

lemma Delete_eff:
  assumes inv: "hinv os owned H F st" and a: "sdata (spans st) a = Some s" "location s = IN_USE" "on_no_list H F a"
  shows "\<exists>st' F'. Delete os (Obj a) st = Inr st' \<and> hinv os owned H F' st' \<and> (\<forall>h. h \<notin> heads \<longrightarrow> F' h = F h) \<and> hfix st' = hfix st \<and>
    owned (os_st st') = owned (os_st st) \<and> in_use (sdata (spans st')) = (in_use (sdata (spans st)))(a := None) \<and>
    free_bytes st' + unmapped_bytes st' = free_bytes st + unmapped_bytes st + 2 ^ kPageShift * span_length s"
proof -
  note d = hinvD [OF inv]
  let ?D = "sdata (spans st)" and ?f = "\<lambda>s. s\<lparr>sizeclass := 0, sample := False, location := ON_NORMAL_FREELIST\<rparr>"
  define s0 where "s0 = s\<lparr>sizeclass := 0, sample := False\<rparr>"
  obtain u where u: "spans st (Obj a) = Some u" "unlink u = s" using sdata_Some [OF a(1)] by blast
  define st1 where "st1 = st\<lparr>spans := (spans st)(Obj a \<mapsto> ?f u)\<rparr>"
  have r1: "on_spans (upd_span (Obj a) ?f) st = Inr st1" "get_span (Obj a) st = Inr u"
    using u(1) by (simp_all add: on_spans_def st1_def get_span_def)
  have "unlink (?f u) = ?f (unlink u)" by (simp add: unlink_def)
  then have "unlink (?f u) = s0\<lparr>location := ON_NORMAL_FREELIST\<rparr>" unfolding u(2) by (simp add: s0_def)
  then have sd1: "sdata (spans st1) = ?D(a \<mapsto> s0\<lparr>location := ON_NORMAL_FREELIST\<rparr>)" by (simp add: st1_def)
  have "lists_ok ((spans st)(Obj a \<mapsto> ?f u)) H F" using d(3) u(1) by (intro lists_ok_upd_data) auto
  then have g1: "hgen0 os owned H F ?D st1" unfolding st1_def by (rule hgen0_store [OF d(1)])
  have "hgen os owned H F (?D(a \<mapsto> s0)) st1"
    unfolding hgen_def
    using hgen0_same_extent [OF g1 a(1,2), of s0] map_ok_same_extent [OF d(2,7) a(1), of s0] a(2) by (simp add: s0_def st1_def)
  then have det: "detached os owned H F (?D(a \<mapsto> s0)) a s0 ON_NORMAL_FREELIST st1"
    using sd1 a(2,3) by (simp add: detached_def s0_def)
  obtain st2 F2 where r2: "MergeIntoFreeList os (Obj a) st1 = Inr st2" "hcore os owned H F2 st2" "\<forall>h. h \<notin> heads \<longrightarrow> F2 h = F h"
      "hrest st2 = hrest st1" "in_use (sdata (spans st2)) = (in_use (?D(a \<mapsto> s0)))(a := None)"
      "\<forall>k. bytes_on k st2 = bytes_on k st1 + (if k = ON_NORMAL_FREELIST \<longleftrightarrow> ON_NORMAL_FREELIST = ON_NORMAL_FREELIST then 2 ^ kPageShift * span_length s0 else 0)"
    using MergeIntoFreeList_eff [OF det] by blast
  have b2: "free_bytes st2 = free_bytes st + 2 ^ kPageShift * span_length s" "unmapped_bytes st2 = unmapped_bytes st"
    using r2(6) [rule_format, of ON_NORMAL_FREELIST] r2(6) [rule_format, of IN_USE] by (simp_all add: bytes_on_def st1_def s0_def)
  have hr: "hrest st2 = hrest st" using r2(4) by (simp add: st1_def)
  have "hinv os owned H F2 st2" using r2(2) hrestD(1,2) [OF hr] b2 d(6) by (simp add: hinv_def)
  then obtain m st' F' where r3: "IncrementalScavenge os (span_length s) st2 = Inr st'" "released os owned H F2 F' st2 m st'"
    using IncrementalScavenge_eff by blast
  have run: "Delete os (Obj a) st = Inr st'" using r1 r2(1) r3(1) unlinkD(2) [OF u(2)] by (simp add: Delete_def)
  have "in_use (sdata (spans st')) = (in_use ?D)(a := None)" using r3(2) r2(5) by (simp add: released_def)
  then show ?thesis
    using run r3(2) r2(3) hfix_rest [OF hr] hrestD(10) [OF hr] b2 unfolding released_def
    by (intro exI [of _ st'] exI [of _ F'] conjI) simp_all
qed

end
