(* ===== verification/Page_Heap_Alloc.thy ===== *)
theory Page_Heap_Alloc
  imports Page_Heap_Release
begin

text \<open>
  Allocation from the page heap: making span descriptors, carving and splitting spans.
\<close>

section \<open>Making a span descriptor\<close>

definition hkeep where
  "hkeep st = ((system_bytes st, free_bytes st, unmapped_bytes st, committed_bytes st),
     (scavenge_counter st, release_index st, aggressive_decommit st, pagemap_cache st),
     (FLAGS_tcmalloc_release_rate st, FLAGS_tcmalloc_heap_limit_mb st), heap.more st)"

lemma hkeep_simps [simp]: "hkeep (st\<lparr>spans := ss\<rparr>) = hkeep st" "hkeep (st\<lparr>pagemap := pm\<rparr>) = hkeep st"
  by (simp_all add: hkeep_def)

lemma hkeepD:
  assumes "hkeep st' = hkeep st"
  shows "system_bytes st' = system_bytes st" "free_bytes st' = free_bytes st" "unmapped_bytes st' = unmapped_bytes st"
    "committed_bytes st' = committed_bytes st" "aggressive_decommit st' = aggressive_decommit st" "pagemap_cache st' = pagemap_cache st"
    "FLAGS_tcmalloc_release_rate st' = FLAGS_tcmalloc_release_rate st" "FLAGS_tcmalloc_heap_limit_mb st' = FLAGS_tcmalloc_heap_limit_mb st"
    "heap.more st' = heap.more st"
  using assms by (simp_all add: hkeep_def)

lemma meta_frame_heap:
  fixes st st' :: "('o, 'z) heap_scheme"
  assumes "meta_frame st st'"
  shows "hkeep st' = hkeep st" "spans st' = spans st" "pagemap st' = pagemap st" "span_links st' = span_links st"
    "span_allocator st' = span_allocator st"
  using assms by (cases st, cases st', auto simp: meta_frame_def hkeep_def)+

lemma new_span_simps [simp]:
  "start (new_span p n) = p" "span_length (new_span p n) = n" "location (new_span p n) = IN_USE" "sizeclass (new_span p n) = 0"
  "unlink (new_span p n) = new_span p n"
  by (simp_all add: new_span_def unlink_def)

definition new_span_post where
  "new_span_post os owned H F D p len st r \<longleftrightarrow> (case r of (sp, st') \<Rightarrow> \<exists>c. sp = Obj c \<and> D c = None \<and> c \<noteq> 0 \<and>
     hgen0 os owned H F (D(c \<mapsto> new_span p len)) st' \<and> on_no_list H F c \<and>
     sdata (spans st') = (sdata (spans st))(c \<mapsto> new_span p len) \<and> pagemap st' = pagemap st \<and> hkeep st' = hkeep st \<and>
     owned (os_st st) \<subseteq> owned (os_st st'))"

lemma NewSpan_eff:
  assumes inv: "hgen0 os owned H F D st" and room: "room_for D 0 (new_span p len)"
    and own: "span_bytes_of (new_span p len) \<subseteq> owned (os_st st)"
    and tot: "2 ^ kPageShift * (npages (\<lambda>_. True) D + len) \<le> system_bytes st"
  shows "safe (new_span_post os owned H F D p len st) (NewSpan os p len st)"
  unfolding NewSpan_def
proof (rule safe_bind [where Q = "pha_new_post os owned sizeof_Span (dom D) (span_links st) st"])
  have i: "mem_ok os owned D st" "spans_wf D" "lists_ok (spans st) H F" "lists_exact D H F" "coalesced D" "\<not> aggressive_decommit st"
    using inv by (auto simp: hgen0_def)
  show "safe (pha_new_post os owned sizeof_Span (dom D) (span_links st) st) (PHA_New os sizeof_Span (span_allocator st) (span_links st) st)"
    using i(1) by (intro PHA_New_post) (simp add: mem_ok_def)
  fix r assume post: "pha_new_post os owned sizeof_Span (dom D) (span_links st) st r"
  obtain c a1 st1 where r: "r = (c, a1, st1)" by (cases r)
  have p: "c \<notin> dom D" "pha_inv os owned sizeof_Span (insert c (dom D)) (a1, span_links st, st1)" "meta_frame st st1"
      "owned (os_st st) \<subseteq> owned (os_st st1)"
    using post by (auto simp: pha_new_post_def r)
  have cnz: "c \<noteq> 0" "D c = None" using p(1,2) by (auto simp: pha_inv_def pha_objects_def)
  note fr = meta_frame_heap [OF p(3)]
  let ?D = "D(c \<mapsto> new_span p len)"
  define st' where "st' = st1\<lparr>span_allocator := a1, spans := (spans st1)(Obj c \<mapsto> new_span p len)\<rparr>"
  have hk: "hkeep st' = hkeep st" using fr(1) by (simp add: st'_def hkeep_def)
  have os': "os_st st' = os_st st1" by (simp add: st'_def)
  have no: "on_no_list H F c" by (rule on_no_list_new [OF inv cnz(2)])
  have "Obj c \<notin> H" by (rule Obj_notin_H [OF inv])
  then have lo: "lists_ok (spans st') H F"
    using lists_ok_upd_other [OF i(3)] no fr(2) by (simp add: st'_def on_no_list_def)
  have le: "lists_exact ?D H F" using lists_exact_in_use [OF i(4), of c "new_span p len"] cnz(2) by simp
  have "dom ?D = insert c (dom D)" by auto
  moreover have "pha_inv os owned sizeof_Span (insert c (dom D)) (a1, span_links st, st')"
    using p(2) by (simp add: st'_def pha_inv_def meta_inv_def chunk_def sys_inv_def)
  moreover have "system_bytes st' \<le> card (owned (os_st st'))"
  proof -
    have "finite (owned (os_st st'))" using i(1) by (simp add: mem_ok_def os_limit_def)
    then have "card (owned (os_st st)) \<le> card (owned (os_st st'))" using p(4) os' by (simp add: card_mono)
    then show ?thesis using i(1) hkeepD(1) [OF hk] by (simp add: mem_ok_def)
  qed
  moreover have "span_bytes_of s \<subseteq> owned (os_st st')" if "?D b = Some s" for b s
  proof -
    have "span_bytes_of s \<subseteq> owned (os_st st)" using that own i(1) by (auto simp: mem_ok_def split: if_splits)
    then show ?thesis using p(4) os' by simp
  qed
  ultimately have mem: "mem_ok os owned ?D st'"
    using i(1) fr(4) by (simp add: mem_ok_def st'_def)
  have "pages_of (new_span p len) \<inter> pages_of v = {}" if "D b = Some v" for b v
    using room that spans_wfD(1) [OF i(2) that] unfolding room_for_def by blast
  then have "room_for D c (new_span p len)" using room unfolding room_for_def by blast
  then have wf: "spans_wf ?D" using spans_wf_upd [OF i(2) cnz(1)] by simp
  have co: "coalesced ?D" by (rule coalesced_sub [OF i(5)]) (auto split: if_splits)
  note np = npages_insert [OF spans_finite [OF i(2)] cnz(2), of _ "new_span p len"]
  have "hgen0 os owned H F ?D st'"
    unfolding hgen0_def using mem wf lo le co hkeepD(1-3,5) [OF hk] inv tot np by (simp add: hgen0_def)
  moreover have "sdata (spans st') = (sdata (spans st))(c \<mapsto> new_span p len)" using fr(2) by (simp add: st'_def)
  ultimately show "safe (new_span_post os owned H F D p len st)
      (case r of (a, pha, st) \<Rightarrow> Inr (Obj a, st\<lparr>span_allocator := pha, spans := (spans st)(Obj a \<mapsto> new_span p len)\<rparr>))"
    using cnz no hk p(4) os' fr(3) by (simp add: r new_span_post_def st'_def)
qed

section \<open>Splitting a span in two\<close>

text \<open>The page map after the first part keeps the descriptor \<open>a\<close> and the rest gets \<open>c\<close>.\<close>

lemma split_map:
  assumes ok: "map_ok D pm" "spans_wf D" and a: "D a = Some s" "sizeclass s = 0" and c: "D c = None"
    and n: "0 < n" "n < span_length s"
    and sn: "start sn = start s" "span_length sn = n" "sizeclass sn = 0"
    and t: "start t = start s + n" "span_length t = span_length s - n" "sizeclass t = 0"
    and pm': "wf3 pm'" "ensured3 kPageMapBits pm' = ensured3 kPageMapBits pm"
      "view3 kPageMapBits pm' = (view3 kPageMapBits pm)(start s + n := c, start s + span_length s - 1 := c, start s + n - 1 := a)"
  shows "map_ok (D(a \<mapsto> sn, c \<mapsto> t)) pm'"
proof (rule map_ok_change [OF ok(1) pm'(1,2) ok(2)])
  let ?D = "D(a \<mapsto> sn, c \<mapsto> t)"
  have ac: "a \<noteq> c" using a(1) c by auto
  have pg: "pages_of s = pages_of sn \<union> pages_of t" "pages_of sn = {start s..<start s + n}" "pages_of t = {start s + n..<start s + span_length s}"
    using n sn t by (auto simp: pages_of_def)
  have key: "{start s + n, start s + span_length s - 1, start s + n - 1} \<subseteq> pages_of s" using n by (auto simp: pages_of_def)
  show "D b = Some v \<and> (\<forall>j\<in>pages_of v. view3 kPageMapBits pm' j = view3 kPageMapBits pm j) \<or>
     view3 kPageMapBits pm' (start v) = b \<and> view3 kPageMapBits pm' (start v + span_length v - 1) = b \<and>
     (\<forall>k\<in>pages_of v. ensured3 kPageMapBits pm k) \<and> sizeclass v = 0" if b: "?D b = Some v" for b v
  proof (cases "b = a \<or> b = c")
    case True
    have ends: "start s + n - 1 \<noteq> start s + n" "start s + n - 1 \<noteq> start s + span_length s - 1" "start s \<noteq> start s + n"
        "start s \<noteq> start s + span_length s - 1" "start t + span_length t - 1 = start s + span_length s - 1"
      using n t by auto
    have e: "ensured3 kPageMapBits pm k" if "k \<in> pages_of sn \<union> pages_of t" for k
      using that pg(1) map_okD(3) [OF ok(1) a(1)] by simp
    have "view3 kPageMapBits pm' (start sn) = a" "view3 kPageMapBits pm' (start sn + span_length sn - 1) = a"
        "view3 kPageMapBits pm' (start t) = c" "view3 kPageMapBits pm' (start t + span_length t - 1) = c"
      using ends map_okD(1) [OF ok(1) a(1)] by (simp_all add: pm'(3) sn t(1))
    then show ?thesis using True b e sn(3) t(3) ac by (cases "b = c") (auto simp: ac)
  next
    case False
    then have v: "D b = Some v" using b by simp
    then have "pages_of s \<inter> pages_of v = {}" using spans_disjoint [OF ok(2) a(1)] False by blast
    then have "view3 kPageMapBits pm' j = view3 kPageMapBits pm j" if "j \<in> pages_of v" for j
      using that key unfolding pm'(3) by (auto simp: fun_upd_def)
    then show ?thesis using v by blast
  qed
  fix j assume j: "view3 kPageMapBits pm' j \<noteq> view3 kPageMapBits pm j \<or> (\<exists>b v. D b = Some v \<and> j \<in> pages_of v)"
  have "j \<in> pages_of s \<or> (\<exists>b v. b \<noteq> a \<and> D b = Some v \<and> j \<in> pages_of v)"
  proof (cases "view3 kPageMapBits pm' j = view3 kPageMapBits pm j")
    case True
    then show ?thesis using j a(1) by (metis option.inject)
  next
    case False
    then show ?thesis using key by (auto simp: pm'(3) split: if_splits)
  qed
  then consider "j \<in> pages_of sn" | "j \<in> pages_of t" | b v where "b \<noteq> a" "D b = Some v" "j \<in> pages_of v" using pg(1) by blast
  then show "\<exists>b v. ?D b = Some v \<and> j \<in> pages_of v"
  proof cases
    case 1 then show ?thesis using ac by (intro exI [of _ a] exI [of _ sn]) simp
  next
    case 2 then show ?thesis by (intro exI [of _ c] exI [of _ t]) simp
  next
    case 3 then show ?thesis using c by (intro exI [of _ b] exI [of _ v]) auto
  qed
qed

lemma extra_pages_id: "n \<le> len \<Longrightarrow> len < 2 ^ 31 \<Longrightarrow> extra_pages len n = int (len - n)"
  by (simp add: extra_pages_def of_nat_diff)

lemma as_length_id: "m < 2 ^ 64 \<Longrightarrow> as_length (int m) = m"
  by (simp add: as_length_def)

text \<open>Room for the two parts once the view shows the first one shortened.\<close>

lemma split_room:
  assumes inv: "hgen0 os owned H F D st" and a: "D a = Some s" "location s = IN_USE" and n: "0 < n" "n < span_length s"
  shows "hgen0 os owned H F (D(a \<mapsto> s\<lparr>span_length := n\<rparr>)) st"
    "room_for (D(a \<mapsto> s\<lparr>span_length := n\<rparr>)) 0 (new_span (start s + n) (span_length s - n))"
    "span_bytes_of (new_span (start s + n) (span_length s - n)) \<subseteq> owned (os_st st)"
    "2 ^ kPageShift * (npages (\<lambda>_. True) (D(a \<mapsto> s\<lparr>span_length := n\<rparr>)) + (span_length s - n)) \<le> system_bytes st"
proof -
  let ?s = "s\<lparr>span_length := n\<rparr>" and ?t = "new_span (start s + n) (span_length s - n)"
  have w: "spans_wf D" "span_bytes_of s \<subseteq> owned (os_st st)" "2 ^ kPageShift * npages (\<lambda>_. True) D \<le> system_bytes st"
    using inv a(1) by (auto simp: hgen0_def mem_ok_def)
  have np: "npages (\<lambda>_. True) (D(a \<mapsto> ?s)) + (span_length s - n) = npages (\<lambda>_. True) D"
    using npages_update [OF spans_finite [OF w(1)] a(1), of "\<lambda>_. True" ?s] n by simp
  show "2 ^ kPageShift * (npages (\<lambda>_. True) (D(a \<mapsto> ?s)) + (span_length s - n)) \<le> system_bytes st" unfolding np by (rule w(3))
  have "(start s + n) * 2 ^ kPageShift \<le> (start s + span_length s) * 2 ^ kPageShift"
      "start s * 2 ^ kPageShift \<le> (start s + n) * 2 ^ kPageShift" using n by simp_all
  then have b: "span_bytes_of ?s \<subseteq> span_bytes_of s" "span_bytes_of ?t \<subseteq> span_bytes_of s"
    using n by (auto simp: span_bytes_of_def)
  then show "span_bytes_of ?t \<subseteq> owned (os_st st)" using w(2) by blast
  have "2 ^ kPageShift * npages (\<lambda>_. True) (D(a \<mapsto> ?s)) \<le> 2 ^ kPageShift * npages (\<lambda>_. True) D" using np by (intro mult_le_mono2) simp
  then have "2 ^ kPageShift * npages (\<lambda>_. True) (D(a \<mapsto> ?s)) \<le> system_bytes st" using w(3) by linarith
  then show "hgen0 os owned H F (D(a \<mapsto> ?s)) st"
    by (intro hgen0_in_use [OF inv a _ room_for_same [OF w(1) a(1)]]) (use a(2) n b w(2) in auto)
  have "pages_of ?t \<subseteq> pages_of s" "pages_of ?t \<inter> pages_of ?s = {}" using n by (auto simp: pages_of_def)
  then have "pages_of ?t \<inter> pages_of v = {}" if "(D(a \<mapsto> ?s)) b = Some v" for b v
    using that spans_disjoint [OF w(1) a(1), of b v] by (auto split: if_splits)
  then show "room_for (D(a \<mapsto> ?s)) 0 ?t"
    using spans_wfD(3,4) [OF w(1) a(1)] n unfolding room_for_def by (intro conjI allI impI) (simp_all, blast)
qed

section \<open>Carving\<close>

text \<open>
  What an allocation step keeps: the lists of the central caches and what is not the page heap's;
  memory is only added.
\<close>

definition hframe ::
  "('o \<Rightarrow> addr set) \<Rightarrow> (sptr \<Rightarrow> sptr list) \<Rightarrow> (sptr \<Rightarrow> sptr list) \<Rightarrow> ('o, 'z) heap_scheme \<Rightarrow> ('o, 'z) heap_scheme \<Rightarrow> bool" where
  "hframe owned F F' st st' \<longleftrightarrow> (\<forall>h. h \<notin> heads \<longrightarrow> F' h = F h) \<and> owned (os_st st) \<subseteq> owned (os_st st') \<and>
     pagemap_cache st' = pagemap_cache st \<and> aggressive_decommit st' = aggressive_decommit st \<and>
     FLAGS_tcmalloc_release_rate st' = FLAGS_tcmalloc_release_rate st \<and>
     FLAGS_tcmalloc_heap_limit_mb st' = FLAGS_tcmalloc_heap_limit_mb st \<and> heap.more st' = heap.more st"

lemma hframe_refl: "hframe owned F F st st"
  by (simp add: hframe_def)

lemma hframe_trans: "hframe owned F F1 st st1 \<Longrightarrow> hframe owned F1 F2 st1 st2 \<Longrightarrow> hframe owned F F2 st st2"
  by (auto simp: hframe_def)

lemma hframe_released: "released os owned H F F' st n st' \<Longrightarrow> hframe owned F F' st st'"
  by (simp add: hframe_def released_def hfix_def)

definition carved :: "nat \<Rightarrow> Span \<Rightarrow> Span" where
  "carved n s = s\<lparr>location := IN_USE, span_length := n\<rparr>"

lemma carved_simps [simp]:
  "start (carved n s) = start s" "span_length (carved n s) = n" "location (carved n s) = IN_USE" "sizeclass (carved n s) = sizeclass s"
  "carved n (s\<lparr>location := l\<rparr>) = carved n s"
  by (simp_all add: carved_def)

text \<open>The branch of \<open>Carve\<close> for a span that is longer than requested, from the state after \<open>detach\<close>.\<close>

definition carve_rest where
  "carve_rest os sp p n len loc st =
     bind_res (NewSpan os (p + n) (as_length (extra_pages len n)) st) (\<lambda>(leftover, st).
     bind_res (on_spans (upd_span leftover (location_update (\<lambda>_. loc))) st) (\<lambda>st.
     bind_res (RecordSpan leftover st) (\<lambda>st.
     bind_res (PrependToFreeList leftover st) (\<lambda>st.
     bind_res (on_spans (upd_span sp (span_length_update (\<lambda>_. n))) st) (\<lambda>st.
     pagemap_set (p + n - 1) sp st)))))"

definition carve_post where
  "carve_post os owned H F D a s n l st st' \<longleftrightarrow> (\<exists>F'. hcore os owned H F' st' \<and> hframe owned F F' st st' \<and> on_no_list H F' a \<and>
     in_use (sdata (spans st')) = (in_use D)(a \<mapsto> carved n s) \<and> sdata (spans st') a = Some (carved n s) \<and> system_bytes st' = system_bytes st \<and>
     committed_bytes st' = committed_bytes st \<and>
     (\<forall>k. bytes_on k st' = bytes_on k st + (if k = ON_NORMAL_FREELIST \<longleftrightarrow> l = ON_NORMAL_FREELIST then 2 ^ kPageShift * (span_length s - n) else 0)))"

lemma unlink_upds:
  "unlink (u\<lparr>location := l\<rparr>) = (unlink u)\<lparr>location := l\<rparr>" "unlink (u\<lparr>span_length := n\<rparr>) = (unlink u)\<lparr>span_length := n\<rparr>"
  "unlink (u\<lparr>sizeclass := m\<rparr>) = (unlink u)\<lparr>sizeclass := m\<rparr>"
  by (simp_all add: unlink_def)

lemma upd_span_eff:
  assumes "sdata (spans st) a = Some s" "hgen0 os owned H F D st"
    and f: "\<And>u. unlink u = s \<Longrightarrow> unlink (f u) = s' \<and> nxt (f u) = nxt u \<and> prv (f u) = prv u"
  shows "\<exists>ss. on_spans (upd_span (Obj a) f) st = Inr (st\<lparr>spans := ss\<rparr>) \<and> sdata ss = (sdata (spans st))(a \<mapsto> s') \<and>
    hgen0 os owned H F D (st\<lparr>spans := ss\<rparr>)"
proof -
  obtain u where u: "spans st (Obj a) = Some u" "unlink u = s" using sdata_Some [OF assms(1)] by blast
  have "lists_ok ((spans st)(Obj a \<mapsto> f u)) H F"
    using assms(2) f [OF u(2)] u(1) by (intro lists_ok_upd_data) (auto simp: hgen0_def)
  then show ?thesis
    using u(1) f [OF u(2)] hgen0_store [OF assms(2)]
    by (intro exI [of _ "(spans st)(Obj a \<mapsto> f u)"]) (simp add: on_spans_def)
qed

lemma RecordSpan_sdata:
  assumes "wf3 (pagemap st)" "sdata (spans st) a = Some s" "0 < span_length s" "\<And>k. k \<in> pages_of s \<Longrightarrow> ensured3 kPageMapBits (pagemap st) k"
  shows "\<exists>pm'. RecordSpan (Obj a) st = Inr (st\<lparr>pagemap := pm'\<rparr>) \<and> wf3 pm' \<and>
      ensured3 kPageMapBits pm' = ensured3 kPageMapBits (pagemap st) \<and>
      view3 kPageMapBits pm' = (view3 kPageMapBits (pagemap st))(start s := a, start s + span_length s - 1 := a)"
proof -
  obtain u where u: "spans st (Obj a) = Some u" "unlink u = s" using sdata_Some [OF assms(2)] by blast
  note un = unlinkD [OF u(2)]
  have "pages_of u = pages_of s" by (simp add: pages_of_def un)
  then show ?thesis using RecordSpan_eff [OF assms(1) u(1)] assms(3,4) un by simp
qed

lemma leftover_alone:
  assumes "spans_wf D" "coalesced D" "D a = Some s" "free_span s" "D c = None" "0 < n" "n < span_length s"
  shows "no_neighbour (D(a \<mapsto> carved n s, c \<mapsto> t)) c (new_span (start s + n) (span_length s - n)) (location s)"
  unfolding no_neighbour_def
proof (intro allI impI, elim conjE)
  fix b v assume b: "b \<noteq> c" "(D(a \<mapsto> carved n s, c \<mapsto> t)) b = Some v"
    and nb: "start v + span_length v = start (new_span (start s + n) (span_length s - n)) \<or>
      start v = start (new_span (start s + n) (span_length s - n)) + span_length (new_span (start s + n) (span_length s - n))"
  show "location v \<noteq> location s"
  proof (cases "b = a")
    case True
    then show ?thesis using b assms(4) by (auto simp: free_span_def)
  next
    case False
    then have v: "D b = Some v" using b by simp
    have "start v + span_length v - 1 \<notin> pages_of s" using spans_disjoint [OF assms(1) v assms(3) False] spans_wfD(6) [OF assms(1) v] by auto
    then have "start v = start s + span_length s" using nb assms(6,7) by (auto simp: pages_of_def)
    then show ?thesis using coalescedD [OF assms(2,3) v] assms(4) by (auto simp: free_span_def)
  qed
qed

lemma carve_finish:
  assumes h3: "hgen0 os owned H F (D(a \<mapsto> carved n s, c \<mapsto> new_span (start s + n) (span_length s - n))) st" "on_no_list H F c"
    and mp: "map_ok D (pagemap st)" "spans_wf D" "coalesced D" and a: "D a = Some s" "free_span s" "on_no_list H F a" and c: "D c = None" "c \<noteq> a"
    and sd: "sdata (spans st) = D(a \<mapsto> s\<lparr>location := IN_USE\<rparr>, c \<mapsto> new_span (start s + n) (span_length s - n))"
    and n: "0 < n" "n < span_length s" and l: "l = location s"
  shows "returns (carve_post os owned H F D a s n l st)
     (bind_res (on_spans (upd_span (Obj c) (location_update (\<lambda>_. l))) st) (\<lambda>st.
      bind_res (RecordSpan (Obj c) st) (\<lambda>st. bind_res (PrependToFreeList (Obj c) st) (\<lambda>st.
      bind_res (on_spans (upd_span (Obj a) (span_length_update (\<lambda>_. n))) st) (\<lambda>st. pagemap_set (start s + n - 1) (Obj a) st)))))"
proof -
  let ?s1 = "s\<lparr>location := IN_USE\<rparr>" and ?t = "new_span (start s + n) (span_length s - n)"
  let ?tl = "?t\<lparr>location := l\<rparr>" and ?Dn = "D(a \<mapsto> carved n s)"
  have sc: "sizeclass s = 0" using map_okD(4) [OF mp(1) a(1)] a(2) by (auto simp: free_span_def)
  have li: "l \<noteq> IN_USE" using a(2) l by (simp add: free_span_def)
  have ns: "a \<noteq> c" using c(2) by simp
  have f1: "unlink (u\<lparr>location := l\<rparr>) = ?tl \<and> nxt (u\<lparr>location := l\<rparr>) = nxt u \<and> prv (u\<lparr>location := l\<rparr>) = prv u" if "unlink u = ?t" for u
    using that by (simp add: unlink_upds)
  obtain ss1 where 1: "on_spans (upd_span (Obj c) (location_update (\<lambda>_. l))) st = Inr (st\<lparr>spans := ss1\<rparr>)"
      "sdata ss1 = D(a \<mapsto> ?s1, c \<mapsto> ?tl)" "hgen0 os owned H F (?Dn(c \<mapsto> ?t)) (st\<lparr>spans := ss1\<rparr>)"
    using upd_span_eff [OF _ h3(1) f1, of c] sd by auto
  define st1 where "st1 = st\<lparr>spans := ss1\<rparr>"
  have pgt: "pages_of ?tl \<subseteq> pages_of s" using n by (auto simp: pages_of_def)
  have w3: "wf3 (pagemap st1)" using mp(1) by (simp add: map_ok_def st1_def)
  obtain pm2 where 2: "RecordSpan (Obj c) st1 = Inr (st1\<lparr>pagemap := pm2\<rparr>)" "wf3 pm2"
      "ensured3 kPageMapBits pm2 = ensured3 kPageMapBits (pagemap st)"
      "view3 kPageMapBits pm2 = (view3 kPageMapBits (pagemap st))(start s + n := c, start s + span_length s - 1 := c)"
    using RecordSpan_sdata [OF w3, of c ?tl] 1(2) map_okD(3) [OF mp(1) a(1)] pgt n by (auto simp: st1_def)
  define st2 where "st2 = st1\<lparr>pagemap := pm2\<rparr>"
  have g2: "hgen0 os owned H F (?Dn(c \<mapsto> ?t)) st2" using 1(3) by (simp add: st2_def st1_def hgen0_pagemap)
  have alone: "no_neighbour (?Dn(c \<mapsto> ?t)) c ?t l" unfolding l by (rule leftover_alone [OF mp(2,3) a(1,2) c(1) n])
  obtain st3 F3 where 3: "PrependToFreeList (Obj c) st2 = Inr st3" "hgen0 os owned H F3 (?Dn(c \<mapsto> ?t, c \<mapsto> ?tl)) st3"
      "\<forall>h. h \<notin> heads \<longrightarrow> F3 h = F h" "\<forall>b. b \<noteq> c \<longrightarrow> on_no_list H F b \<longrightarrow> on_no_list H F3 b"
      "sdata (spans st3) = sdata (spans st2)" "pagemap st3 = pagemap st2" "hrest st3 = hrest st2"
      "\<forall>k. bytes_on k st3 = bytes_on k st2 + (if k = ON_NORMAL_FREELIST \<longleftrightarrow> l = ON_NORMAL_FREELIST then 2 ^ kPageShift * span_length ?t else 0)"
    using put_free [OF g2 _ _ h3(2) _ li alone] 1(2) by (auto simp: st2_def st1_def)
  have f4: "unlink (u\<lparr>span_length := n\<rparr>) = carved n s \<and> nxt (u\<lparr>span_length := n\<rparr>) = nxt u \<and> prv (u\<lparr>span_length := n\<rparr>) = prv u"
    if "unlink u = ?s1" for u
    using that by (simp add: unlink_upds carved_def)
  have sd3: "sdata (spans st3) = D(a \<mapsto> ?s1, c \<mapsto> ?tl)" using 3(5) 1(2) by (simp add: st2_def st1_def)
  obtain ss4 where 4: "on_spans (upd_span (Obj a) (span_length_update (\<lambda>_. n))) st3 = Inr (st3\<lparr>spans := ss4\<rparr>)"
      "sdata ss4 = ?Dn(c \<mapsto> ?tl)" "hgen0 os owned H F3 (?Dn(c \<mapsto> ?tl)) (st3\<lparr>spans := ss4\<rparr>)"
    using upd_span_eff [OF _ 3(2) f4, of a] sd3 ns by (auto simp: fun_upd_twist)
  define st4 where "st4 = st3\<lparr>spans := ss4\<rparr>"
  have pm4: "pagemap st4 = pm2" using 3(6) by (simp add: st4_def st2_def)
  have "start s + n - 1 \<in> pages_of s" using n by (auto simp: pages_of_def)
  then obtain pm5 where 5: "pagemap_set (start s + n - 1) (Obj a) st4 = Inr (st4\<lparr>pagemap := pm5\<rparr>)" "wf3 pm5"
      "ensured3 kPageMapBits pm5 = ensured3 kPageMapBits (pagemap st)"
      "view3 kPageMapBits pm5 = (view3 kPageMapBits pm2)(start s + n - 1 := a)"
    using pagemap_set_eff [of st4 "start s + n - 1" a] pm4 2(2,3) map_okD(3) [OF mp(1) a(1)] by auto
  define st5 where "st5 = st4\<lparr>pagemap := pm5\<rparr>"
  have "map_ok (?Dn(c \<mapsto> ?tl)) pm5"
    by (rule split_map [OF mp(1,2) a(1) sc c(1) n _ _ _ _ _ _ 5(2,3)]) (use sc 2(4) 5(4) in simp_all)
  then have core: "hcore os owned H F3 st5"
    using 4(2,3) by (simp add: hcore_def hgen_def st5_def st4_def hgen0_pagemap)
  have hr: "hrest st5 = hrest st" using 3(7) by (simp add: st5_def st4_def st2_def st1_def)
  have "in_use (sdata (spans st5)) = (in_use D)(a \<mapsto> carved n s)"
    using 4(2) li ns c(1) by (auto simp: st5_def st4_def in_use_def fun_eq_iff)
  moreover have "bytes_on k st5 = bytes_on k st + (if k = ON_NORMAL_FREELIST \<longleftrightarrow> l = ON_NORMAL_FREELIST then 2 ^ kPageShift * (span_length s - n) else 0)" for k
    using 3(8) [rule_format, of k] by (auto simp: st5_def st4_def st2_def st1_def bytes_on_def split: if_splits)
  moreover have "sdata (spans st5) a = Some (carved n s)" using 4(2) ns by (simp add: st5_def st4_def)
  ultimately have "carve_post os owned H F D a s n l st st5"
    unfolding carve_post_def hframe_def
    using core 3(3,4) a(3) ns hrestD(1,2,5-10) [OF hr] by (intro exI [of _ F3]) simp
  then show ?thesis using 1(1) 2(1) 3(1) 4(1) 5(1) by (simp add: st1_def st2_def st4_def st5_def)
qed

lemma carve_post_from:
  assumes "carve_post os owned H F D a s n l st3 st'" "hkeep st3 = hkeep st" "owned (os_st st) \<subseteq> owned (os_st st3)"
  shows "carve_post os owned H F D a s n l st st'"
proof -
  note k = hkeepD [OF assms(2)]
  have "hframe owned F F' st3 st' \<Longrightarrow> hframe owned F F' st st'" for F' using k assms(3) by (auto simp: hframe_def)
  moreover have "bytes_on j st3 = bytes_on j st" for j using k by (simp add: bytes_on_def)
  ultimately show ?thesis using assms(1) k unfolding carve_post_def by auto
qed

lemma carve_rest_eff:
  assumes inv: "hgen0 os owned H F (D(a \<mapsto> s\<lparr>location := IN_USE\<rparr>)) st" and mp: "map_ok D (pagemap st)" "spans_wf D" "coalesced D"
    and a: "D a = Some s" "free_span s" "on_no_list H F a" and sd: "sdata (spans st) = D(a \<mapsto> s\<lparr>location := IN_USE\<rparr>)"
    and n: "0 < n" "n < span_length s" "span_length s < 2 ^ 31" and l: "l = location s"
  shows "safe (carve_post os owned H F D a s n l st) (carve_rest os (Obj a) (start s) n (span_length s) l st)"
proof -
  let ?s1 = "s\<lparr>location := IN_USE\<rparr>" and ?t = "new_span (start s + n) (span_length s - n)"
  let ?D1 = "D(a \<mapsto> ?s1)" and ?Dn = "D(a \<mapsto> carved n s)"
  have cs: "?D1(a \<mapsto> ?s1\<lparr>span_length := n\<rparr>) = ?Dn" by (simp add: carved_def)
  have sp: "hgen0 os owned H F ?Dn st" "room_for ?Dn 0 ?t" "span_bytes_of ?t \<subseteq> owned (os_st st)"
      "2 ^ kPageShift * (npages (\<lambda>_. True) ?Dn + (span_length s - n)) \<le> system_bytes st"
    using split_room [OF inv, of a ?s1 n] n cs by simp_all
  have ex: "as_length (extra_pages (span_length s) n) = span_length s - n"
    using n extra_pages_id [of n "span_length s"] as_length_id [of "span_length s - n"] by simp
  show ?thesis
    unfolding carve_rest_def ex
  proof (rule safe_bind [OF NewSpan_eff [OF sp]])
    fix r assume "new_span_post os owned H F ?Dn (start s + n) (span_length s - n) st r"
    then obtain c st3 where r: "r = (Obj c, st3)" and c: "?Dn c = None" "c \<noteq> 0" and h3: "hgen0 os owned H F (?Dn(c \<mapsto> ?t)) st3" "on_no_list H F c"
        and sd3: "sdata (spans st3) = (sdata (spans st))(c \<mapsto> ?t)" and pm3: "pagemap st3 = pagemap st" and hk3: "hkeep st3 = hkeep st"
        and ow3: "owned (os_st st) \<subseteq> owned (os_st st3)"
      by (auto simp: new_span_post_def split: prod.splits)
    have ac: "c \<noteq> a" "D c = None" using c(1) a(1) by (auto split: if_splits)
    show "safe (carve_post os owned H F D a s n l st) (case r of (leftover, st) \<Rightarrow>
       bind_res (on_spans (upd_span leftover (location_update (\<lambda>_. l))) st) (\<lambda>st.
       bind_res (RecordSpan leftover st) (\<lambda>st. bind_res (PrependToFreeList leftover st) (\<lambda>st.
       bind_res (on_spans (upd_span (Obj a) (span_length_update (\<lambda>_. n))) st) (\<lambda>st. pagemap_set (start s + n - 1) (Obj a) st)))))"
      unfolding r prod.case
      by (rule returns_safe, rule returns_mono [OF carve_finish [where st = st3 and F = F and D = D] carve_post_from])
        (use h3 mp a ac n l sd3 sd pm3 hk3 ow3 in simp_all)
  qed
qed

lemma carve_none:
  assumes inv: "hgen0 os owned H F (D(a \<mapsto> s\<lparr>location := IN_USE\<rparr>)) st" and mp: "map_ok D (pagemap st)" "spans_wf D"
    and a: "D a = Some s" "free_span s" "on_no_list H F a" and sd: "sdata (spans st) = D(a \<mapsto> s\<lparr>location := IN_USE\<rparr>)"
  shows "carve_post os owned H F D a s (span_length s) l st st"
proof -
  have sc: "sizeclass s = 0" using map_okD(4) [OF mp(1) a(1)] a(2) by (auto simp: free_span_def)
  have "s\<lparr>location := IN_USE\<rparr> = carved (span_length s) s" by (simp add: carved_def)
  then show ?thesis
    unfolding carve_post_def
    using inv map_ok_location [OF mp a(1) sc, of IN_USE] sd a(3)
    by (intro exI [of _ F]) (simp add: hcore_def hgen_def hframe_refl)
qed

text \<open>The specification of \<open>Carve\<close>.\<close>

definition carve_spec where
  "carve_spec os owned H F a s n st r \<longleftrightarrow> (case r of (sp, st') \<Rightarrow> sp = Obj a \<and> (\<exists>F'. hinv os owned H F' st' \<and> hframe owned F F' st st' \<and>
     on_no_list H F' a \<and> in_use (sdata (spans st')) = (in_use (sdata (spans st)))(a \<mapsto> carved n s) \<and>
     system_bytes st' = system_bytes st \<and>
     free_bytes st' + unmapped_bytes st' + 2 ^ kPageShift * n = free_bytes st + unmapped_bytes st))"

lemma Carve_eff:
  assumes inv: "hinv os owned H F st" and a: "sdata (spans st) a = Some s" "free_span s" and n: "0 < n" "n \<le> span_length s"
  shows "safe (carve_spec os owned H F a s n st) (Carve os (Obj a) n st)"
proof -
  note d = hinvD [OF inv]
  let ?D = "sdata (spans st)"
  note bd = hgen_bounds [OF d(1)]
  have co: "coalesced ?D" using d(1) by (simp add: hgen0_def)
  obtain u where u: "get_span (Obj a) st = Inr u" "unlink u = s" using sdata_Some [OF a(1)] by (auto simp: get_span_def)
  note un = unlinkD [OF u(2)]
  obtain st1 v st2 F2 where 2: "RemoveFromFreeList (Obj a) st = Inr st1"
      "on_spans (upd_span (Obj a) (location_update (\<lambda>_. IN_USE))) st1 = Inr st2"
      "hgen0 os owned H F2 (?D(a \<mapsto> s\<lparr>location := IN_USE\<rparr>)) st2" "on_no_list H F2 a"
      "sdata (spans st2) = ?D(a \<mapsto> s\<lparr>location := IN_USE\<rparr>)" "pagemap st2 = pagemap st" "hrest st2 = hrest st" "\<forall>h. h \<notin> heads \<longrightarrow> F2 h = F h"
      "\<forall>k. bytes_on k st2 + (if k = ON_NORMAL_FREELIST \<longleftrightarrow> location s = ON_NORMAL_FREELIST then 2 ^ kPageShift * span_length s else 0) = bytes_on k st"
    using detach [OF d(1) a(1,2,1), of IN_USE] by blast
  have mp: "map_ok ?D (pagemap st2)" using d(2) 2(6) by simp
  have ex: "extra_pages (span_length s) n = int (span_length s - n)" using n(2) bd(4) [OF a(1)] by (intro extra_pages_id)
  have post: "safe (carve_post os owned H F2 ?D a s n (location s) st2)
      (if extra_pages (span_length s) n > 0 then carve_rest os (Obj a) (start s) n (span_length s) (location s) st2 else Inr st2)"
  proof (cases "n < span_length s")
    case True
    then show ?thesis
      using carve_rest_eff [OF 2(3) mp d(7) co a 2(4,5) n(1) True bd(4) [OF a(1)] refl] ex by simp
  next
    case False
    then have "n = span_length s" using n(2) by simp
    then show ?thesis using carve_none [OF 2(3) mp d(7) a 2(4,5)] ex by simp
  qed
  have run: "Carve os (Obj a) n st =
     bind_res (if extra_pages (span_length s) n > 0 then carve_rest os (Obj a) (start s) n (span_length s) (location s) st2 else Inr st2) (\<lambda>st.
     bind_res (if location s = ON_RETURNED_FREELIST then CommitSpan (Obj a) st else Inr st) (\<lambda>st. Inr (Obj a, st)))"
    using u(1) un 2(1,2) by (simp add: Carve_def carve_rest_def Let_def cong: if_cong)
  show ?thesis
    unfolding run
  proof (rule safe_bind [OF post])
    fix st3 assume "carve_post os owned H F2 ?D a s n (location s) st2 st3"
    then obtain F' where 3: "hcore os owned H F' st3" "hframe owned F2 F' st2 st3" "on_no_list H F' a"
        "in_use (sdata (spans st3)) = (in_use ?D)(a \<mapsto> carved n s)" "sdata (spans st3) a = Some (carved n s)" "system_bytes st3 = system_bytes st2"
        "committed_bytes st3 = committed_bytes st2"
        "\<forall>k. bytes_on k st3 = bytes_on k st2 + (if k = ON_NORMAL_FREELIST \<longleftrightarrow> location s = ON_NORMAL_FREELIST then 2 ^ kPageShift * (span_length s - n) else 0)"
      by (auto simp: carve_post_def)
    have sy: "system_bytes st3 = system_bytes st" "committed_bytes st3 = committed_bytes st" using 3(6,7) hrestD(1,2) [OF 2(7)] by simp_all
    have "bytes_on k st3 + (if k = ON_NORMAL_FREELIST \<longleftrightarrow> location s = ON_NORMAL_FREELIST then 2 ^ kPageShift * n else 0) = bytes_on k st" for k
    proof -
      have "2 ^ kPageShift * (span_length s - n) + 2 ^ kPageShift * n = 2 ^ kPageShift * span_length s" using n(2) by (simp flip: distrib_left)
      then show ?thesis using 3(8) [rule_format, of k] 2(9) [rule_format, of k] by (auto split: if_splits)
    qed
    from this [of ON_NORMAL_FREELIST] this [of IN_USE]
    have byt: "free_bytes st3 + (if location s = ON_NORMAL_FREELIST then 2 ^ kPageShift * n else 0) = free_bytes st"
        "unmapped_bytes st3 + (if location s = ON_NORMAL_FREELIST then 0 else 2 ^ kPageShift * n) = unmapped_bytes st"
      by (simp_all add: bytes_on_def split: if_splits)
    have fr: "hframe owned F F' st st3" using 3(2) 2(8) hrestD(5-10) [OF 2(7)] by (auto simp: hframe_def)
    show "safe (carve_spec os owned H F a s n st)
        (bind_res (if location s = ON_RETURNED_FREELIST then CommitSpan (Obj a) st3 else Inr st3) (\<lambda>st. Inr (Obj a, st)))"
    proof (cases "location s = ON_RETURNED_FREELIST")
      case True
      obtain w where w: "get_span (Obj a) st3 = Inr w" "span_length w = n"
      proof -
        obtain w where "spans st3 (Obj a) = Some w" "unlink w = carved n s" using sdata_Some [OF 3(5)] by blast
        then show thesis using that [of w] unlinkD(2) [of w "carved n s"] by (simp add: get_span_def)
      qed
      have pb: "page_bytes n = 2 ^ kPageShift * n" using bd(4) [OF a(1)] n(2) by (intro page_bytes_id) simp
      have "add64 (committed_bytes st3) (page_bytes n) = committed_bytes st + 2 ^ kPageShift * n"
        unfolding pb sy(2) using bd(3) d(6) byt True by (intro add64_id) simp
      then have "CommitSpan (Obj a) st3 = Inr (st3\<lparr>committed_bytes := committed_bytes st + 2 ^ kPageShift * n\<rparr>)"
        using w by (simp add: CommitSpan_def TCMalloc_SystemCommit_def)
      moreover have "hinv os owned H F' (st3\<lparr>committed_bytes := committed_bytes st + 2 ^ kPageShift * n\<rparr>)"
        using 3(1) sy byt True d(6) by (simp add: hinv_def)
      moreover have "hframe owned F F' st (st3\<lparr>committed_bytes := committed_bytes st + 2 ^ kPageShift * n\<rparr>)"
        using fr by (simp add: hframe_def)
      ultimately show ?thesis
        using True 3(3,4) sy byt by (auto simp: carve_spec_def)
    next
      case False
      then have "location s = ON_NORMAL_FREELIST" using a(2) by (cases "location s") (auto simp: free_span_def)
      moreover from this have "hinv os owned H F' st3" using 3(1) sy byt d(6) by (simp add: hinv_def)
      ultimately show ?thesis using 3(3,4) sy byt fr by (auto simp: carve_spec_def)
    qed
  qed
qed

end
