(* ===== verification/Page_Heap_Search.thy ===== *)
theory Page_Heap_Search
  imports Page_Heap_Alloc
begin

text \<open>
  Searching the free lists: best fit in the large lists, first fit in the exact ones.
\<close>

section \<open>Best fit\<close>

lemma better_fit_fold:
  assumes "fold (better_fit n ss) xs b = Some x"
  shows "b = Some x \<or> x \<in> set xs \<and> (\<exists>s. ss x = Some s \<and> n \<le> span_length s)"
  using assms
proof (induction xs arbitrary: b)
  case (Cons y ys)
  from Cons.IH [of "better_fit n ss y b"] Cons.prems
  consider "better_fit n ss y b = Some x" | "x \<in> set ys \<and> (\<exists>s. ss x = Some s \<and> n \<le> span_length s)" by auto
  then show ?case
  proof cases
    case 1
    then show ?thesis by (auto simp: better_fit_def split: option.splits if_splits)
  qed auto
qed simp

lemma better_fit_Some: "fold (better_fit n ss) xs (Some b) \<noteq> None"
proof (induction xs arbitrary: b)
  case (Cons x xs)
  have "\<exists>c. better_fit n ss x (Some b) = Some c" by (auto simp: better_fit_def split: option.split)
  then show ?case using Cons.IH by auto
qed simp

section \<open>Searching\<close>

definition alloc_spec ::
  "'o os \<Rightarrow> ('o \<Rightarrow> addr set) \<Rightarrow> sptr set \<Rightarrow> (sptr \<Rightarrow> sptr list) \<Rightarrow> nat \<Rightarrow> ('o, 'z) heap_scheme \<Rightarrow>
   sptr option \<times> ('o, 'z) heap_scheme \<Rightarrow> bool" where
  "alloc_spec os owned H F n st r \<longleftrightarrow> (case r of (res, st') \<Rightarrow> \<exists>F'. hinv os owned H F' st' \<and> hframe owned F F' st st' \<and>
     (case res of None \<Rightarrow> in_use (sdata (spans st')) = in_use (sdata (spans st))
      | Some sp \<Rightarrow> \<exists>a s. sp = Obj a \<and> in_use (sdata (spans st)) a = None \<and> span_length s = n \<and> location s = IN_USE \<and> sizeclass s = 0 \<and>
          on_no_list H F' a \<and> in_use (sdata (spans st')) = (in_use (sdata (spans st)))(a \<mapsto> s)))"

lemma alloc_spec_from:
  assumes "alloc_spec os owned H F1 n st1 r" "hframe owned F F1 st st1" "in_use (sdata (spans st1)) = in_use (sdata (spans st))"
  shows "alloc_spec os owned H F n st r"
proof -
  obtain res st' where r: "r = (res, st')" by (cases r)
  obtain F' where F': "hinv os owned H F' st'" "hframe owned F1 F' st1 st'"
    "case res of None \<Rightarrow> in_use (sdata (spans st')) = in_use (sdata (spans st1))
      | Some sp \<Rightarrow> \<exists>a s. sp = Obj a \<and> in_use (sdata (spans st1)) a = None \<and> span_length s = n \<and> location s = IN_USE \<and> sizeclass s = 0 \<and>
          on_no_list H F' a \<and> in_use (sdata (spans st')) = (in_use (sdata (spans st1)))(a \<mapsto> s)"
    using assms(1) by (auto simp: alloc_spec_def r)
  then show ?thesis
    using hframe_trans [OF assms(2) F'(2)] unfolding alloc_spec_def r prod.case assms(3) by blast
qed

lemma alloc_none: "hinv os owned H F st \<Longrightarrow> alloc_spec os owned H F n st (None, st)"
  using hframe_refl by (auto simp: alloc_spec_def)

lemma Carve_alloc:
  assumes inv: "hinv os owned H F st" and s: "sdata (spans st) a = Some s" "free_span s" and n: "0 < n" "n \<le> span_length s"
  shows "safe (alloc_spec os owned H F n st) (bind_res (Carve os (Obj a) n st) (\<lambda>(sp, st). Inr (Some sp, st)))"
proof -
  have sc: "sizeclass s = 0" using map_okD(4) [OF hinvD(2) [OF inv] s(1)] s(2) by (auto simp: free_span_def)
  have "alloc_spec os owned H F n st (Some sp, st')" if c: "carve_spec os owned H F a s n st (sp, st')" for sp st'
  proof -
    obtain F' where F': "sp = Obj a" "hinv os owned H F' st'" "hframe owned F F' st st'" "on_no_list H F' a"
        "in_use (sdata (spans st')) = (in_use (sdata (spans st)))(a \<mapsto> carved n s)"
      using c unfolding carve_spec_def prod.case by blast
    show ?thesis
      unfolding alloc_spec_def prod.case option.case
      by (intro exI [of _ F'] exI [of _ a] exI [of _ "carved n s"] conjI F' in_use_free [of "sdata (spans st)" a s, OF s]) (simp_all add: sc)
  qed
  then show ?thesis by (intro safe_bind [OF Carve_eff [OF inv s n]]) auto
qed

lemma Carve_listed:
  assumes inv: "hinv os owned H F st" and h: "h \<in> heads" and x: "x \<in> set (F h)" "spans st x = Some u" "n \<le> span_length u" and n: "0 < n"
  shows "safe (alloc_spec os owned H F n st) (bind_res (Carve os x n st) (\<lambda>(sp, st). Inr (Some sp, st)))"
proof -
  obtain a s where a: "x = Obj a" "sdata (spans st) a = Some s" "free_span s" using free_list_span [OF hinvD(4) [OF inv] h x(1)] by blast
  have "unlink u = s" using a(1,2) x(2) by (simp add: sdata_def)
  from unlinkD(2) [OF this] have "n \<le> span_length s" using x(3) by simp
  then show ?thesis unfolding a(1) by (rule Carve_alloc [OF inv a(2,3) n])
qed

lemma AllocLarge_best:
  assumes inv: "hinv os owned H F st" and n: "0 < n"
    and b: "fold (better_fit n (spans st)) (F (ReturnedHd kMaxPages)) (fold (better_fit n (spans st)) (F (NormalHd kMaxPages)) None) = Some x"
  shows "safe (alloc_spec os owned H F n st) (bind_res (Carve os x n st) (\<lambda>(sp, st). Inr (Some sp, st)))"
proof -
  have hd: "NormalHd kMaxPages \<in> heads" "ReturnedHd kMaxPages \<in> heads" by (auto simp: heads_def)
  from better_fit_fold [OF b] consider
      "fold (better_fit n (spans st)) (F (NormalHd kMaxPages)) None = Some x"
    | u where "x \<in> set (F (ReturnedHd kMaxPages))" "spans st x = Some u" "n \<le> span_length u" by blast
  then show ?thesis
  proof cases
    case 1
    then obtain u where "x \<in> set (F (NormalHd kMaxPages))" "spans st x = Some u" "n \<le> span_length u"
      using better_fit_fold [OF 1] by auto
    then show ?thesis by (rule Carve_listed [OF inv hd(1) _ _ _ n])
  next
    case 2
    then show ?thesis by (rule Carve_listed [OF inv hd(2) _ _ _ n])
  qed
qed

lemma AllocLarge_unfold:
  assumes inv: "hinv os owned H F st" and n: "0 < n"
    and limit: "safe (alloc_spec os owned H F n st) (bind_res (EnsureLimit os n True st) (\<lambda>(ok, st).
       if ok then AllocLarge_depth k os n st else Inr (None, st))) \<or> EnsureLimit os n False st = Inr (True, st)"
  shows "safe (alloc_spec os owned H F n st) (AllocLarge_depth (Suc k) os n st)"
proof -
  note d = hinvD [OF inv]
  have hd: "NormalHd kMaxPages \<in> H" "ReturnedHd kMaxPages \<in> H" using d(5) by (auto simp: heads_def)
  note w = dll_spans_lists [OF d(3) hd(1)] dll_spans_lists [OF d(3) hd(2)]
  let ?bn = "fold (better_fit n (spans st)) (F (NormalHd kMaxPages)) None"
  let ?b = "fold (better_fit n (spans st)) (F (ReturnedHd kMaxPages)) ?bn"
  have unf: "AllocLarge_depth (Suc k) os n st =
     (if ?b = ?bn then (case ?b of None \<Rightarrow> Inr (None, st) | Some b \<Rightarrow> bind_res (Carve os b n st) (\<lambda>(sp, st). Inr (Some sp, st)))
      else bind_res (EnsureLimit os n False st) (\<lambda>(ok, st).
          if ok then bind_res (Carve os (the ?b) n st) (\<lambda>(sp, st). Inr (Some sp, st))
          else bind_res (EnsureLimit os n True st) (\<lambda>(ok, st). if ok then AllocLarge_depth k os n st else Inr (None, st))))"
    by (simp add: w Let_def del: dll_spans_def)
  show ?thesis
  proof (cases "?b = ?bn")
    case True
    then show ?thesis using alloc_none [OF inv] AllocLarge_best [OF inv n] unfolding unf if_P [OF True] by (auto split: option.split)
  next
    case False
    then obtain x where x: "?b = Some x"
      using better_fit_Some [of n "spans st" "F (ReturnedHd kMaxPages)" "the ?bn"] by (cases ?bn; cases ?b) simp_all
    obtain ok where ok: "EnsureLimit os n False st = Inr (ok, st)" using EnsureLimit_eff [OF inv, of n False] by blast
    show ?thesis
      using limit AllocLarge_best [OF inv n x] unfolding unf if_not_P [OF False] unfolding ok x by auto
  qed
qed

lemma AllocLarge_limit:
  fixes st :: "('o, 'z) heap_scheme"
  assumes inv: "hinv os owned H F st" and n: "0 < n"
    and k: "\<And>F' (st' :: ('o, 'z) heap_scheme). hinv os owned H F' st' \<Longrightarrow> EnsureLimit os n False st' = Inr (True, st') \<Longrightarrow>
       safe (alloc_spec os owned H F' n st') (AllocLarge_depth k os n st')"
  shows "safe (alloc_spec os owned H F n st) (bind_res (EnsureLimit os n True st) (\<lambda>(ok, st).
       if ok then AllocLarge_depth k os n st else Inr (None, st)))"
proof -
  obtain ok m st' F' where e: "EnsureLimit os n True st = Inr (ok, st')" "released os owned H F F' st m st'"
      "ok \<longrightarrow> EnsureLimit os n False st' = Inr (True, st')"
    using EnsureLimit_eff [OF inv, of n True] by blast
  have r: "hinv os owned H F' st'" "in_use (sdata (spans st')) = in_use (sdata (spans st))"
    using e(2) by (simp_all add: released_def)
  note frm = alloc_spec_from [OF _ hframe_released [OF e(2)] r(2)]
  show ?thesis
  proof (cases ok)
    case True
    then show ?thesis using e safe_mono [OF k [OF r(1)] frm] by simp
  qed (use frm [OF alloc_none [OF r(1)]] e(1) in simp)
qed

lemma AllocLarge_eff:
  assumes inv: "hinv os owned H F st" and n: "0 < n"
  shows "safe (alloc_spec os owned H F n st) (AllocLarge os n st)"
proof -
  have "safe (alloc_spec os owned H F n st) (AllocLarge_depth (Suc (Suc 0)) os n st)"
    by (intro AllocLarge_unfold [OF inv n] disjI1 AllocLarge_limit [OF inv n] AllocLarge_unfold [OF _ n] disjI2) assumption+
  then show ?thesis unfolding AllocLarge_def numeral_2_eq_2 .
qed

text \<open>The lists of one length.\<close>

lemma Carve_first:
  assumes inv: "hinv os owned H F st" and h: "h = NormalHd k \<or> h = ReturnedHd k" "k < kMaxPages" "n \<le> k" "F h \<noteq> []" and n: "0 < n"
  shows "safe (alloc_spec os owned H F n st)
    (bind_res (get_span h st) (\<lambda>l. bind_res (Carve os (nxt l) n st) (\<lambda>(sp, st). Inr (Some sp, st))))"
proof -
  note d = hinvD [OF inv]
  have hd: "h \<in> heads" using h(1,2) by (auto simp: heads_def)
  obtain x xs where x: "F h = x # xs" using h(4) by (cases "F h") auto
  obtain l where l: "spans st h = Some l" "nxt l = x" using first_span [OF d(3) subsetD [OF d(5) hd] x] by blast
  obtain a s where a: "x = Obj a" "sdata (spans st) a = Some s" "free_span s" "head_of s = h"
    using free_list_span [OF d(4) hd, of x] x by auto
  have "span_length s = k" using a(4) h(1,2) by (auto simp: head_of_def list_index_def split: if_splits)
  then show ?thesis using Carve_alloc [OF inv a(2,3) n] h(3) by (simp add: get_span_def l a(1))
qed

lemma search_lists_eff:
  fixes st :: "('o, 'z) heap_scheme"
  assumes n: "0 < n"
  shows "hinv os owned H F st \<Longrightarrow> \<forall>k\<in>set ks. n \<le> k \<and> k < kMaxPages \<Longrightarrow>
    safe (alloc_spec os owned H F n st) (search_lists os n ks st)"
proof (induction ks arbitrary: F st)
  case Nil
  then show ?case using AllocLarge_eff [OF _ n] by simp
next
  case (Cons k ks)
  note inv = Cons.prems(1)
  have hd: "NormalHd k \<in> heads" "ReturnedHd k \<in> heads" "n \<le> k" "k < kMaxPages" using Cons.prems(2) by (auto simp: heads_def)
  have emp: "DLL_IsEmpty h (spans st) = Inr (F h = [])" if "hinv os owned H F st" "h \<in> heads" for h F and st :: "('o, 'z) heap_scheme"
    using DLL_IsEmpty_lists [OF hinvD(3) [OF that(1)]] hinvD(5) [OF that(1)] that(2) by auto
  have rest: "safe (alloc_spec os owned H F n st) (search_lists os n ks st)" if "hinv os owned H F st" for F and st :: "('o, 'z) heap_scheme"
    using Cons.IH [OF that] Cons.prems(2) by simp
  obtain ok m st' F' where e: "EnsureLimit os n True st = Inr (ok, st')" "released os owned H F F' st m st'"
    using EnsureLimit_eff [OF inv, of n True] by blast
  have r: "hinv os owned H F' st'" "in_use (sdata (spans st')) = in_use (sdata (spans st))"
    using e(2) by (simp_all add: released_def)
  note frm = safe_mono [OF _ alloc_spec_from [OF _ hframe_released [OF e(2)] r(2)]]
  show ?case
  proof (cases "F (NormalHd k) = []")
    case False
    then show ?thesis
      using Carve_first [OF inv _ hd(4,3) False n] by (simp add: emp [OF inv hd(1)])
  next
    case True
    then show ?thesis
      using frm [OF Carve_first [OF r(1) _ hd(4,3) _ n, of "ReturnedHd k"]] frm [OF rest [OF r(1)]] rest [OF inv]
      by (simp add: emp [OF inv] emp [OF r(1)] hd(1,2) e(1))
  qed
qed

lemma SearchFreeAndLargeLists_eff:
  assumes "hinv os owned H F st" "0 < n"
  shows "safe (alloc_spec os owned H F n st) (SearchFreeAndLargeLists os n st)"
  unfolding SearchFreeAndLargeLists_def by (rule search_lists_eff [OF assms(2,1)]) auto

end
