(* ===== verification/Page_Heap_Grow.thy ===== *)
theory Page_Heap_Grow
  imports Page_Heap_Search
begin

text \<open>
  Growing the heap: memory from the system becomes a free span; \<open>New\<close> as a whole.
\<close>

section \<open>Metadata\<close>

lemma pha_objects_used: "pha_objects sz live fl a used \<Longrightarrow> used \<subseteq> used' \<Longrightarrow> pha_objects sz live fl a used'"
  by (auto simp: pha_objects_def)

lemma hgen0_meta:
  fixes st st' :: "('o, 'z) heap_scheme"
  assumes inv: "hgen0 os owned H F D st" and f: "meta_frame st st'" "owned (os_st st) \<subseteq> owned (os_st st')"
    and pha: "pha_inv os owned sizeof_Span (dom D) (span_allocator st, span_links st, st')"
  shows "hgen0 os owned H F D st'"
proof -
  have "card (owned (os_st st)) \<le> card (owned (os_st st'))"
    using inv f(2) by (intro card_mono) (auto simp: hgen0_def mem_ok_def os_limit_def)
  then show ?thesis
    using inv f(2) pha meta_frame_heap [OF f(1)] hkeepD [OF meta_frame_heap(1) [OF f(1)]] by (auto simp: hgen0_def mem_ok_def)
qed

lemma MetaDataAlloc_pha:
  assumes inv: "pha_inv os owned sz live (al, links, st)" and n: "0 < n" "n < 2 ^ 63"
  shows "safe (\<lambda>(p, st'). pha_inv os owned sz live (al, links, st') \<and> meta_frame st st' \<and> owned (os_st st) \<subseteq> owned (os_st st')) (MetaDataAlloc os n st)"
proof -
  obtain fl used where u: "sll links (free_list al) fl" "pha_objects sz live fl al used" "meta_inv os owned used st" "sz \<le> kAllocIncrement" "0 < sz"
    using inv by (auto simp: pha_inv_def)
  have post: "pha_inv os owned sz live (al, links, st')" if p: "meta_post os owned used n st (p, st')" for p st'
  proof -
    obtain used' where "meta_inv os owned used' st'" "used \<subseteq> used'" using p by (auto simp: meta_post_def split: if_splits)
    then show ?thesis using u pha_objects_used [OF u(2)] by (auto simp: pha_inv_def)
  qed
  show ?thesis
    using n by (intro safe_mono [OF MetaDataAlloc_meta [OF u(3)]]) (auto simp: post, auto simp: meta_post_def)
qed

lemma MetaDataAlloc_hgen0:
  fixes st :: "('o, 'z) heap_scheme"
  assumes inv: "hgen0 os owned H F D st" and n: "0 < n" "n < 2 ^ 63"
  shows "safe (\<lambda>(p, st'). hgen0 os owned H F D st' \<and> meta_frame st st' \<and> owned (os_st st) \<subseteq> owned (os_st st')) (MetaDataAlloc os n st)"
proof -
  have "pha_inv os owned sizeof_Span (dom D) (span_allocator st, span_links st, st)" using inv by (simp add: hgen0_def mem_ok_def)
  from MetaDataAlloc_pha [OF this n] show ?thesis by (rule safe_mono) (use hgen0_meta [OF inv] in auto)
qed

section \<open>Memory from the system\<close>

definition grow_post where
  "grow_post os owned H F st r \<longleftrightarrow> (case r of (p, actual, st') \<Rightarrow> \<exists>F'. hinv os owned H F' st' \<and> hframe owned F F' st st' \<and>
     in_use (sdata (spans st')) = in_use (sdata (spans st)) \<and>
     (p \<noteq> 0 \<longrightarrow> 2 ^ kPageShift dvd p \<and> 2 ^ kPageShift \<le> actual \<and> p + actual \<le> 2 ^ kAddressBits \<and> {p..<p + actual} \<subseteq> owned (os_st st') \<and>
        (\<forall>a s. sdata (spans st') a = Some s \<longrightarrow> span_bytes_of s \<inter> {p..<p + actual} = {}) \<and>
        system_bytes st' + actual \<le> card (owned (os_st st'))))"

lemma grow_post_from:
  assumes "grow_post os owned H F1 st1 r" "hframe owned F F1 st st1" "in_use (sdata (spans st1)) = in_use (sdata (spans st))"
  shows "grow_post os owned H F st r"
proof -
  obtain p n st' where r: "r = (p, n, st')" by (cases r)
  show ?thesis
    using assms(1) hframe_trans [OF assms(2)] unfolding grow_post_def r prod.case assms(3) by meson
qed

lemma sys_frame_heap:
  fixes st st' :: "('o, 'z) heap_scheme"
  assumes "sys_frame st st'"
  shows "spans st' = spans st" "pagemap st' = pagemap st" "hkeep st' = hkeep st"
  using meta_frame_heap [OF sys_meta_frame [OF assms]] by auto

lemma SystemAlloc_grow:
  fixes st :: "('o, 'z) heap_scheme"
  assumes inv: "hinv os owned H F st" and n: "0 < n" "n \<le> kMaxValidPages"
  shows "safe (grow_post os owned H F st) (TCMalloc_SystemAlloc os (page_bytes n) (2 ^ kPageShift) st)"
proof -
  note d = hinvD [OF inv]
  have m: "os_ok os owned" "sys_inv os st" "os_limit owned" "system_bytes st \<le> card (owned (os_st st))"
      "\<And>a s. sdata (spans st) a = Some s \<Longrightarrow> span_bytes_of s \<subseteq> owned (os_st st)"
    using d(1) by (auto simp: hgen0_def mem_ok_def pha_inv_def meta_inv_def)
  have b: "page_bytes n = 2 ^ kPageShift * n" using n(2) by (intro page_bytes_id) (simp add: kMaxValidPages_def kPageShift_def)
  have sz: "0 < page_bytes n" "page_bytes n + sizeof_MemoryAligner < 2 ^ 64" "2 ^ kPageShift \<le> page_bytes n"
    using n unfolding b by (auto simp: kMaxValidPages_def kPageShift_def sizeof_MemoryAligner_def)
  have al: "min_alignment (2 ^ kPageShift) = 2 ^ kPageShift" by (simp add: min_alignment_def sizeof_MemoryAligner_def kPageShift_def)
  have "grow_post os owned H F st (p, actual, st')"
    if f: "sys_frame st st'" "sys_inv os st'" "owned (os_st st) \<subseteq> owned (os_st st')"
      and blk: "p \<noteq> 0 \<longrightarrow> fresh_block (owned (os_st st)) (owned (os_st st')) (page_bytes n) (2 ^ kPageShift) p actual \<and> p + actual \<le> 2 ^ kAddressBits"
    for p actual and st' :: "('o, 'z) heap_scheme"
  proof -
    note h = sys_frame_heap [OF f(1)] hkeepD [OF sys_frame_heap(3) [OF f(1)]]
    have "hinv os owned H F st'"
      using hgen0_sys [OF d(1) f] d(2,6) by (simp add: hinv_def hcore_def hgen_def h)
    moreover have "hframe owned F F st st'" using f(3) by (simp add: hframe_def h)
    moreover have "system_bytes st' + actual \<le> card (owned (os_st st'))" if "p \<noteq> 0"
    proof -
      have "card (owned (os_st st)) + card {p..<p + actual} = card (owned (os_st st) \<union> {p..<p + actual})"
        using blk that m(3) by (intro card_Un_disjoint [symmetric]) (auto simp: fresh_block_def os_limit_def)
      also have "\<dots> \<le> card (owned (os_st st'))"
        using blk that f(3) m(3) by (intro card_mono) (auto simp: fresh_block_def os_limit_def)
      finally show ?thesis using m(4) by (simp add: h)
    qed
    ultimately show ?thesis
      using blk m(5) sz(3) unfolding grow_post_def prod.case h fresh_block_def by (intro exI [of _ F]) (auto, fastforce+)
  qed
  then show ?thesis
    by (intro safe_mono [OF TCMalloc_SystemAlloc_spec [OF m(1,2) sz(1,2), of "2 ^ kPageShift" kPageShift]])
      (auto simp: al, simp add: kPageShift_def)
qed

lemma GrowHeap_alloc_eff:
  assumes inv: "hinv os owned H F st" and n: "0 < n" "n \<le> kMaxValidPages"
  shows "safe (grow_post os owned H F st) (GrowHeap_alloc os n st)"
proof -
  obtain ok m st' F' where e: "EnsureLimit os n True st = Inr (ok, st')" "released os owned H F F' st m st'"
    using EnsureLimit_eff [OF inv, of n True] by blast
  have r: "hinv os owned H F' st'" "in_use (sdata (spans st')) = in_use (sdata (spans st))"
    using e(2) by (simp_all add: released_def)
  have "grow_post os owned H F' st' (0, 0, st')" using r(1) hframe_refl unfolding grow_post_def by auto
  then show ?thesis
    using safe_mono [OF SystemAlloc_grow [OF r(1) n] grow_post_from [OF _ hframe_released [OF e(2)] r(2)]]
      grow_post_from [OF _ hframe_released [OF e(2)] r(2)]
    by (auto simp: GrowHeap_alloc_def e(1))
qed

section \<open>A new span for the memory\<close>

lemma map_ok_grows: "map_ok D pm \<Longrightarrow> grows3 kPageMapBits pm pm' \<Longrightarrow> map_ok D pm'"
  by (auto simp: map_ok_def grows3_def)

lemma map_ok_new:
  assumes ok: "map_ok D pm" "spans_wf D" and c: "D c = None" "room_for D 0 s" "sizeclass s = 0"
    and e: "\<And>k. k \<in> pages_of s \<Longrightarrow> ensured3 kPageMapBits pm k"
    and pm': "wf3 pm'" "ensured3 kPageMapBits pm' = ensured3 kPageMapBits pm"
      "view3 kPageMapBits pm' = (view3 kPageMapBits pm)(start s := c, start s + span_length s - 1 := c)"
  shows "map_ok (D(c \<mapsto> s)) pm'"
proof (rule map_ok_change [OF ok(1) pm'(1,2) ok(2)])
  have ends: "start s \<in> pages_of s" "start s + span_length s - 1 \<in> pages_of s"
    using c(2) by (auto simp: room_for_def pages_of_def)
  fix b t assume b: "(D(c \<mapsto> s)) b = Some t"
  show "D b = Some t \<and> (\<forall>k\<in>pages_of t. view3 kPageMapBits pm' k = view3 kPageMapBits pm k) \<or>
       view3 kPageMapBits pm' (start t) = b \<and> view3 kPageMapBits pm' (start t + span_length t - 1) = b \<and>
       (\<forall>k\<in>pages_of t. ensured3 kPageMapBits pm k) \<and> sizeclass t = 0"
  proof (cases "b = c")
    case True
    then have "t = s" using b by simp
    then show ?thesis using True e c(3) unfolding pm'(3) by simp
  next
    case False
    then have D: "D b = Some t" using b by simp
    have "b \<noteq> 0" by (rule spans_wfD(1) [OF ok(2) D])
    then have "pages_of s \<inter> pages_of t = {}" using c(2) D unfolding room_for_def by blast
    then have "view3 kPageMapBits pm' k = view3 kPageMapBits pm k" if "k \<in> pages_of t" for k
      using that ends unfolding pm'(3) by (metis disjoint_iff fun_upd_apply)
    then show ?thesis using D by blast
  qed
next
  have ends: "start s \<in> pages_of s" "start s + span_length s - 1 \<in> pages_of s"
    using c(2) by (auto simp: room_for_def pages_of_def)
  fix k assume k: "view3 kPageMapBits pm' k \<noteq> view3 kPageMapBits pm k \<or> (\<exists>b t. D b = Some t \<and> k \<in> pages_of t)"
  show "\<exists>b t. (D(c \<mapsto> s)) b = Some t \<and> k \<in> pages_of t"
  proof (cases "\<exists>b t. D b = Some t \<and> k \<in> pages_of t")
    case True
    then obtain b t where "D b = Some t" "k \<in> pages_of t" by blast
    moreover have "b \<noteq> c" using calculation(1) c(1) by auto
    ultimately show ?thesis by (intro exI [of _ b] exI [of _ t]) simp
  next
    case False
    then have "view3 kPageMapBits pm' k \<noteq> view3 kPageMapBits pm k" using k by blast
    then have "k \<in> pages_of s" using ends unfolding pm'(3) by (metis fun_upd_apply)
    then show ?thesis by (intro exI [of _ c] exI [of _ s]) simp
  qed
qed

text \<open>The span over the new memory is recorded and put on a free list.\<close>

definition grown where
  "grown os owned H F st r \<longleftrightarrow> (case r of (ok, st') \<Rightarrow> \<exists>F'. hinv os owned H F' st' \<and> hframe owned F F' st st' \<and>
     in_use (sdata (spans st')) = in_use (sdata (spans st)) \<and> (ok \<longrightarrow> free_bytes st + unmapped_bytes st < free_bytes st' + unmapped_bytes st'))"

lemma record_delete:
  fixes st :: "('o, 'z) heap_scheme"
  assumes g: "hgen0 os owned H F (D(c \<mapsto> new_span p n)) st" and sd: "sdata (spans st) = D(c \<mapsto> new_span p n)"
    and mp: "map_ok D (pagemap st)" "spans_wf D" and c: "D c = None" "room_for D 0 (new_span p n)" "on_no_list H F c"
    and e: "\<And>k. k \<in> pages_of (new_span p n) \<Longrightarrow> ensured3 kPageMapBits (pagemap st) k"
    and bal: "committed_bytes st + unmapped_bytes st = system_bytes st"
  shows "\<exists>st' F'. bind_res (RecordSpan (Obj c) st) (\<lambda>st. bind_res (Delete os (Obj c) st) (\<lambda>st. Inr (True, st))) = Inr (True, st') \<and>
    hinv os owned H F' st' \<and> hframe owned F F' st st' \<and> in_use (sdata (spans st')) = in_use D \<and>
    free_bytes st' + unmapped_bytes st' = free_bytes st + unmapped_bytes st + 2 ^ kPageShift * n"
proof -
  let ?s = "new_span p n"
  have wf: "wf3 (pagemap st)" "0 < span_length ?s" using mp(1) c(2) by (simp_all add: map_ok_def room_for_def)
  have sc: "sdata (spans st) c = Some ?s" unfolding sd by simp
  obtain pm' where pm': "RecordSpan (Obj c) st = Inr (st\<lparr>pagemap := pm'\<rparr>)" "wf3 pm'"
      "ensured3 kPageMapBits pm' = ensured3 kPageMapBits (pagemap st)"
      "view3 kPageMapBits pm' = (view3 kPageMapBits (pagemap st))(start ?s := c, start ?s + span_length ?s - 1 := c)"
    using RecordSpan_sdata [OF wf(1) sc wf(2) e] by blast
  have "map_ok (D(c \<mapsto> ?s)) pm'" by (rule map_ok_new [OF mp c(1,2) _ e pm'(2-4)]) simp
  then have inv: "hinv os owned H F (st\<lparr>pagemap := pm'\<rparr>)"
    using g bal by (simp add: hinv_def hcore_def hgen_def sd hgen0_pagemap)
  obtain st' F' where d: "Delete os (Obj c) (st\<lparr>pagemap := pm'\<rparr>) = Inr st'" "hinv os owned H F' st'" "\<forall>h. h \<notin> heads \<longrightarrow> F' h = F h"
      "hfix st' = hfix (st\<lparr>pagemap := pm'\<rparr>)" "owned (os_st st') = owned (os_st st)"
      "in_use (sdata (spans st')) = (in_use (sdata (spans st)))(c := None)"
      "free_bytes st' + unmapped_bytes st' = free_bytes st + unmapped_bytes st + 2 ^ kPageShift * n"
    using Delete_eff [OF inv, of c ?s] sc c(3) by auto
  have "in_use (sdata (spans st')) = in_use D" unfolding d(6) sd using c(1) by (auto simp: in_use_def fun_eq_iff)
  moreover have "hframe owned F F' st st'" using d(3,4,5) by (simp add: hframe_def hfix_def)
  ultimately show ?thesis using pm'(1) d(1,2,7) by (intro exI [of _ st'] exI [of _ F']) simp
qed

lemma hgen0_system_bytes:
  assumes "hgen0 os owned H F D st" "system_bytes st \<le> n" "n \<le> card (owned (os_st st))"
  shows "hgen0 os owned H F D (st\<lparr>system_bytes := n, committed_bytes := m\<rparr>)"
proof -
  have "pha_inv os owned sizeof_Span (dom D) (span_allocator st, span_links st, st\<lparr>system_bytes := n\<rparr>)"
    using assms(1) by (simp add: hgen0_def mem_ok_def pha_inv_def meta_inv_def chunk_def sys_inv_def)
  then have "hgen0 os owned H F D (st\<lparr>system_bytes := n\<rparr>)"
    using assms by (simp add: hgen0_def mem_ok_def)
  then show ?thesis by simp
qed

lemma block_room:
  assumes wf: "spans_wf D" and p: "2 ^ kPageShift dvd ptr" "ptr \<noteq> 0" "2 ^ kPageShift \<le> actual" "ptr + actual \<le> 2 ^ kAddressBits"
    and dis: "\<forall>a s. D a = Some s \<longrightarrow> span_bytes_of s \<inter> {ptr..<ptr + actual} = {}"
  defines "s \<equiv> new_span (ptr div 2 ^ kPageShift) (actual div 2 ^ kPageShift)"
  shows "room_for D 0 s" "span_bytes_of s \<subseteq> {ptr..<ptr + actual}"
proof -
  let ?k = "2 ^ kPageShift :: nat"
  have k: "0 < ?k" by simp
  obtain q where q: "ptr = ?k * q" using p(1) by (auto elim: dvdE)
  have st: "start s = q" "span_length s = actual div ?k" "0 < q" using p(2) q by (auto simp: s_def)
  have len: "0 < span_length s" using p(3) k unfolding st by (simp add: div_greater_zero_iff)
  have le: "?k * (actual div ?k) \<le> actual" by simp
  show sub: "span_bytes_of s \<subseteq> {ptr..<ptr + actual}"
    using le by (auto simp: span_bytes_of_def st q algebra_simps)
  have "?k * (q + actual div ?k) \<le> ?k * 2 ^ kPageMapBits"
    using le p(4) unfolding q by (simp add: distrib_left kPageMapBits_def kPageShift_def kAddressBits_def)
  then have lim: "start s + span_length s \<le> 2 ^ kPageMapBits" unfolding st using k by simp
  have "pages_of s \<inter> pages_of t = {}" if "D b = Some t" for b t
  proof (rule ccontr)
    assume "pages_of s \<inter> pages_of t \<noteq> {}"
    then obtain j where "j \<in> pages_of s" "j \<in> pages_of t" by blast
    then have "j * ?k \<in> span_bytes_of s" "j * ?k \<in> span_bytes_of t" by (auto simp: span_bytes_of_def pages_of_def)
    then show False using dis sub that by blast
  qed
  then show "room_for D 0 s" using len lim st(1,3) unfolding room_for_def by blast
qed

definition grow_rest where
  "grow_rest os ptr actual_size st =
     (let ask = actual_size div 2 ^ kPageShift;
          st = st\<lparr>system_bytes := add64 (system_bytes st) (page_bytes ask),
                  committed_bytes := add64 (committed_bytes st) (page_bytes ask)\<rparr>;
          p = ptr div 2 ^ kPageShift
      in bind_res (PageMap3_Ensure kPageMapBits (MetaDataAlloc os) (wrap64 (p + (2 ^ 64 - 1))) (ask + 2) (pagemap st) st)
           (\<lambda>(ok, pm, st).
         let st = st\<lparr>pagemap := pm\<rparr>
         in if ok then
              bind_res (NewSpan os p ask st) (\<lambda>(sp, st).
              bind_res (RecordSpan sp st) (\<lambda>st.
              bind_res (Delete os sp st) (\<lambda>st.
              Inr (True, st))))
            else Inr (False, st)))"

lemma GrowHeap_unfold:
  "GrowHeap os n st =
     (if n > kMaxValidPages then Inr (False, st)
      else let ask = (if n > kMinSystemAlloc then n else kMinSystemAlloc)
        in bind_res (GrowHeap_alloc os ask st) (\<lambda>(ptr, actual_size, st).
           bind_res (if ptr = 0 \<and> n < ask then GrowHeap_alloc os n st else Inr (ptr, actual_size, st))
             (\<lambda>(ptr, actual_size, st). if ptr = 0 then Inr (False, st) else grow_rest os ptr actual_size st)))"
  unfolding GrowHeap_def grow_rest_def by (rule refl)

lemma hgen0_frame_fields:
  assumes "hkeep st' = hkeep st"
  shows "committed_bytes st' + unmapped_bytes st' = system_bytes st' \<longleftrightarrow> committed_bytes st + unmapped_bytes st = system_bytes st"
  using hkeepD [OF assms] by simp

lemma grow_install:
  fixes st :: "('o, 'z) heap_scheme"
  assumes g: "hgen0 os owned H F D st" and sd: "sdata (spans st) = D" and mp: "map_ok D (pagemap st)"
    and bal: "committed_bytes st + unmapped_bytes st = system_bytes st"
    and s: "room_for D 0 (new_span p n)" "span_bytes_of (new_span p n) \<subseteq> owned (os_st st)"
      "2 ^ kPageShift * (npages (\<lambda>_. True) D + n) \<le> system_bytes st"
    and e: "\<And>k. k \<in> pages_of (new_span p n) \<Longrightarrow> ensured3 kPageMapBits (pagemap st) k"
  shows "safe (grown os owned H F st)
     (bind_res (NewSpan os p n st) (\<lambda>(sp, st). bind_res (RecordSpan sp st) (\<lambda>st. bind_res (Delete os sp st) (\<lambda>st. Inr (True, st)))))"
proof (rule safe_bind [OF NewSpan_eff [OF g s]])
  fix r assume "new_span_post os owned H F D p n st r"
  then obtain c st1 where c: "r = (Obj c, st1)" "D c = None" "hgen0 os owned H F (D(c \<mapsto> new_span p n)) st1" "on_no_list H F c"
      "sdata (spans st1) = D(c \<mapsto> new_span p n)" "pagemap st1 = pagemap st" "hkeep st1 = hkeep st" "owned (os_st st) \<subseteq> owned (os_st st1)"
    unfolding new_span_post_def sd by (cases r) auto
  have wf: "spans_wf D" using g by (simp add: hgen0_def)
  have n: "0 < 2 ^ kPageShift * n" using s(1) by (simp add: room_for_def)
  obtain st' F' where r: "bind_res (RecordSpan (Obj c) st1) (\<lambda>st. bind_res (Delete os (Obj c) st) (\<lambda>st. Inr (True, st))) = Inr (True, st')"
      "hinv os owned H F' st'" "hframe owned F F' st1 st'" "in_use (sdata (spans st')) = in_use D"
      "free_bytes st' + unmapped_bytes st' = free_bytes st1 + unmapped_bytes st1 + 2 ^ kPageShift * n"
    using record_delete [OF c(3,5) _ wf c(2) s(1) c(4)] mp e bal unfolding c(6) hgen0_frame_fields [OF c(7)] by blast
  have "hframe owned F F st st1" using c(8) hkeepD [OF c(7)] by (simp add: hframe_def)
  then have fr: "hframe owned F F' st st'" using r(3) by (rule hframe_trans)
  have "grown os owned H F st (True, st')"
    unfolding grown_def prod.case using r(2,4,5) fr n hkeepD [OF c(7)] sd by (intro exI [of _ F']) simp
  then show "safe (grown os owned H F st)
      (case r of (sp, st) \<Rightarrow> bind_res (RecordSpan sp st) (\<lambda>st. bind_res (Delete os sp st) (\<lambda>st. Inr (True, st))))"
    unfolding c(1) prod.case r(1) by simp
qed

lemma grown_from:
  assumes "grown os owned H F st1 r" "hframe owned F F st st1" "spans st1 = spans st"
    "free_bytes st1 = free_bytes st" "unmapped_bytes st1 = unmapped_bytes st"
  shows "grown os owned H F st r"
proof -
  obtain ok st' where r: "r = (ok, st')" by (cases r)
  show ?thesis using assms(1) hframe_trans [OF assms(2)] unfolding grown_def r prod.case assms(3-5) by meson
qed

lemma grow_ensured:
  fixes st st1 :: "('o, 'z) heap_scheme"
  assumes g: "hgen0 os owned H F D st" and sd: "sdata (spans st) = D" and mp: "map_ok D (pagemap st)"
    and bal: "committed_bytes st + unmapped_bytes st = system_bytes st"
    and s: "room_for D 0 (new_span p n)" "span_bytes_of (new_span p n) \<subseteq> owned (os_st st)"
      "2 ^ kPageShift * (npages (\<lambda>_. True) D + n) \<le> system_bytes st"
    and st1: "hgen0 os owned H F D st1" "meta_frame st st1" "owned (os_st st) \<subseteq> owned (os_st st1)"
    and pm: "grows3 kPageMapBits (pagemap st) pm" "ok \<longrightarrow> (\<forall>j\<in>pages_of (new_span p n). ensured3 kPageMapBits pm j)"
  shows "safe (grown os owned H F st)
    (if ok then bind_res (NewSpan os p n (st1\<lparr>pagemap := pm\<rparr>)) (\<lambda>(sp, st). bind_res (RecordSpan sp st) (\<lambda>st. bind_res (Delete os sp st) (\<lambda>st. Inr (True, st))))
     else Inr (False, st1\<lparr>pagemap := pm\<rparr>))"
proof -
  let ?st = "st1\<lparr>pagemap := pm\<rparr>"
  note f = meta_frame_heap [OF st1(2)]
  have k: "hkeep ?st = hkeep st" using f(1) by simp
  note kd = hkeepD [OF k]
  have fr: "hframe owned F F st ?st" using st1(3) kd by (simp add: hframe_def)
  have g': "hgen0 os owned H F D ?st" using st1(1) by (simp add: hgen0_pagemap)
  have mp': "map_ok D (pagemap ?st)" using map_ok_grows [OF mp pm(1)] by simp
  have bal': "committed_bytes ?st + unmapped_bytes ?st = system_bytes ?st" using bal kd by simp
  have sp: "spans ?st = spans st" using f(2) by simp
  have sd': "sdata (spans ?st) = D" using sd sp by simp
  show ?thesis
  proof (cases ok)
    case True
    have "safe (grown os owned H F ?st)
     (bind_res (NewSpan os p n ?st) (\<lambda>(sp, st). bind_res (RecordSpan sp st) (\<lambda>st. bind_res (Delete os sp st) (\<lambda>st. Inr (True, st)))))"
      by (rule grow_install [OF g' sd' mp' bal' s(1)]) (use s(2,3) st1(3) kd pm(2) True in auto)
    then show ?thesis
      unfolding if_P [OF True] by (rule safe_mono) (rule grown_from [OF _ fr sp kd(2,3)])
  next
    case False
    have "hinv os owned H F ?st" using g' mp' bal' sd' by (simp add: hinv_def hcore_def hgen_def)
    then have "grown os owned H F st (False, ?st)" unfolding grown_def prod.case using fr sp by (intro exI [of _ F]) simp
    then show ?thesis using False by simp
  qed
qed

lemma grow_rest_eff:
  fixes st :: "('o, 'z) heap_scheme"
  assumes inv: "hinv os owned H F st" and p: "ptr \<noteq> 0" "2 ^ kPageShift dvd ptr" "2 ^ kPageShift \<le> actual" "ptr + actual \<le> 2 ^ kAddressBits"
      "{ptr..<ptr + actual} \<subseteq> owned (os_st st)"
      "\<forall>a s. sdata (spans st) a = Some s \<longrightarrow> span_bytes_of s \<inter> {ptr..<ptr + actual} = {}"
    and sys: "system_bytes st + actual \<le> card (owned (os_st st))"
  shows "safe (grown os owned H F st) (grow_rest os ptr actual st)"
proof -
  note d = hinvD [OF inv]
  define D where "D = sdata (spans st)"
  define q n where qn: "q = ptr div 2 ^ kPageShift" "n = actual div 2 ^ kPageShift"
  note rm = block_room [OF d(7) p(2,1,3,4,6), folded qn D_def]
  have lim: "q + n \<le> 2 ^ kPageMapBits" "0 < q" "0 < n" using rm(1) by (simp_all add: room_for_def)
  have card: "card (owned (os_st st)) < 2 ^ 44" using d(1) by (simp add: hgen0_def mem_ok_def os_limit_def)
  have pb: "page_bytes n = 2 ^ kPageShift * n" using lim(1) by (intro page_bytes_id) (simp add: kPageMapBits_def)
  have nb: "2 ^ kPageShift * n \<le> actual" by (simp add: qn)
  have ws: "add64 (system_bytes st) (page_bytes n) = system_bytes st + 2 ^ kPageShift * n"
      "add64 (committed_bytes st) (page_bytes n) = committed_bytes st + 2 ^ kPageShift * n"
    unfolding pb using sys card nb d(6) by (auto intro!: add64_id)
  define st1 where "st1 = st\<lparr>system_bytes := system_bytes st + 2 ^ kPageShift * n, committed_bytes := committed_bytes st + 2 ^ kPageShift * n\<rparr>"
  have g1: "hgen0 os owned H F D st1" unfolding st1_def D_def by (rule hgen0_system_bytes [OF d(1)]) (use sys nb in auto)
  define P where "P = (\<lambda>st'. hgen0 os owned H F D st' \<and> meta_frame st1 st' \<and> owned (os_st st1) \<subseteq> owned (os_st st'))"
  have keeps: "allocator_keeps (MetaDataAlloc os) P"
    unfolding allocator_keeps_def P_def
    by (auto intro!: safe_mono [OF MetaDataAlloc_hgen0] dest: meta_frame_trans)
  have wf: "wf3 (pagemap st1)" using d(2) by (simp add: st1_def map_ok_def)
  have w: "wrap64 (q + (2 ^ 64 - 1)) = q - 1" using lim by (intro wrap64_pred) (auto simp: kPageMapBits_def)
  have b: "0 < n + 2" "q - 1 + (n + 2) \<le> 2 ^ 64" using lim by (auto simp: kPageMapBits_def)
  have ens: "safe (grown3 kPageMapBits (MetaDataAlloc os) P (q - 1) (q - 1 + (n + 2)) (pagemap st1))
      (PageMap3_Ensure kPageMapBits (MetaDataAlloc os) (q - 1) (n + 2) (pagemap st1) st1)"
    by (rule outcome_safe [OF PageMap3_Ensure_grown [OF wf b keeps]]) (simp add: P_def g1)
  show ?thesis
    unfolding grow_rest_def Let_def qn [symmetric] ws w st1_def [symmetric]
  proof (rule safe_bind [OF ens])
    fix r assume "grown3 kPageMapBits (MetaDataAlloc os) P (q - 1) (q - 1 + (n + 2)) (pagemap st1) r"
    then obtain ok pm st2 where r: "r = (ok, pm, st2)" "P st2" "grows3 kPageMapBits (pagemap st1) pm"
        "ok \<longrightarrow> (\<forall>j. q - 1 \<le> j \<and> j < q - 1 + (n + 2) \<longrightarrow> ensured3 kPageMapBits pm j)"
      by (cases r) (auto simp: grown3_def)
    have "safe (grown os owned H F st1)
      (if ok then bind_res (NewSpan os q n (st2\<lparr>pagemap := pm\<rparr>)) (\<lambda>(sp, st). bind_res (RecordSpan sp st) (\<lambda>st. bind_res (Delete os sp st) (\<lambda>st. Inr (True, st))))
       else Inr (False, st2\<lparr>pagemap := pm\<rparr>))"
    proof (rule grow_ensured [OF g1 _ _ _ rm(1) _ _ _ _ _ r(3)])
      show "2 ^ kPageShift * (npages (\<lambda>_. True) D + n) \<le> system_bytes st1"
        using d(1) by (simp add: hgen0_def st1_def D_def distrib_left)
      show "ok \<longrightarrow> (\<forall>j\<in>pages_of (new_span q n). ensured3 kPageMapBits pm j)" using r(4) lim(2) by (auto simp: pages_of_def)
    qed (use r(2) rm(2) p(5) d(2,6) in \<open>auto simp: P_def D_def st1_def\<close>)
    then have "safe (grown os owned H F st)
      (if ok then bind_res (NewSpan os q n (st2\<lparr>pagemap := pm\<rparr>)) (\<lambda>(sp, st). bind_res (RecordSpan sp st) (\<lambda>st. bind_res (Delete os sp st) (\<lambda>st. Inr (True, st))))
       else Inr (False, st2\<lparr>pagemap := pm\<rparr>))"
      by (rule safe_mono) (auto intro!: grown_from [of os owned H F st1 _ st] simp: st1_def hframe_def)
    then show "safe (grown os owned H F st)
        (case r of (ok, pm, st) \<Rightarrow> if ok then bind_res (NewSpan os q n (st\<lparr>pagemap := pm\<rparr>)) (\<lambda>(sp, st).
              bind_res (RecordSpan sp st) (\<lambda>st. bind_res (Delete os sp st) (\<lambda>st. Inr (True, st))))
            else Inr (False, st\<lparr>pagemap := pm\<rparr>))"
      unfolding r(1) prod.case .
  qed
qed

lemma GrowHeap_eff:
  fixes st :: "('o, 'z) heap_scheme"
  assumes inv: "hinv os owned H F st" and n: "0 < n"
  shows "safe (\<lambda>(ok, st'). \<exists>F'. hinv os owned H F' st' \<and> hframe owned F F' st st' \<and>
     in_use (sdata (spans st')) = in_use (sdata (spans st))) (GrowHeap os n st)"
    (is "safe ?P _")
proof (cases "n > kMaxValidPages")
  case True
  then show ?thesis using inv hframe_refl by (auto simp: GrowHeap_def)
next
  case False
  define ask where "ask = (if n > kMinSystemAlloc then n else kMinSystemAlloc)"
  have ask: "0 < ask" "ask \<le> kMaxValidPages" "0 < n" "n \<le> kMaxValidPages"
    using n False by (auto simp: ask_def kMinSystemAlloc_def kMaxPages_def kMaxValidPages_def kPageShift_def)
  have retry: "safe (grow_post os owned H F st)
      (case r of (ptr, actual_size, st) \<Rightarrow> if ptr = 0 \<and> n < ask then GrowHeap_alloc os n st else Inr (ptr, actual_size, st))"
    if g: "grow_post os owned H F st r" for r
  proof -
    obtain p k st1 where r: "r = (p, k, st1)" by (cases r)
    obtain F1 where F1: "hinv os owned H F1 st1" "hframe owned F F1 st st1" "in_use (sdata (spans st1)) = in_use (sdata (spans st))"
      using g unfolding grow_post_def r prod.case by blast
    show ?thesis
      unfolding r prod.case using g [unfolded r] safe_mono [OF GrowHeap_alloc_eff [OF F1(1) ask(3,4)] grow_post_from [OF _ F1(2,3)]]
      by simp
  qed
  have install: "safe ?P (case r of (ptr, actual_size, st) \<Rightarrow> if ptr = 0 then Inr (False, st) else grow_rest os ptr actual_size st)"
    if g: "grow_post os owned H F st r" for r
  proof -
    obtain p k st1 where r: "r = (p, k, st1)" by (cases r)
    obtain F1 where F1: "hinv os owned H F1 st1" "hframe owned F F1 st st1" "in_use (sdata (spans st1)) = in_use (sdata (spans st))"
       "p \<noteq> 0 \<longrightarrow> 2 ^ kPageShift dvd p \<and> 2 ^ kPageShift \<le> k \<and> p + k \<le> 2 ^ kAddressBits \<and> {p..<p + k} \<subseteq> owned (os_st st1) \<and>
        (\<forall>a s. sdata (spans st1) a = Some s \<longrightarrow> span_bytes_of s \<inter> {p..<p + k} = {}) \<and>
        system_bytes st1 + k \<le> card (owned (os_st st1))"
      using g unfolding grow_post_def r prod.case by blast
    show ?thesis
    proof (cases "p = 0")
      case False
      have "?P x" if x: "grown os owned H F1 st1 x" for x
        using x hframe_trans [OF F1(2)] F1(3) unfolding grown_def by (cases x) fastforce
      moreover have "safe (grown os owned H F1 st1) (grow_rest os p k st1)"
        using F1(4) False by (intro grow_rest_eff [OF F1(1)]) blast+
      ultimately show ?thesis using False by (auto simp: r elim: safe_mono)
    qed (use F1 r in auto)
  qed
  show ?thesis
    unfolding GrowHeap_unfold Let_def if_not_P [OF False] ask_def [symmetric]
  proof (rule safe_bind [OF GrowHeap_alloc_eff [OF inv ask(1,2)]])
    fix r assume "grow_post os owned H F st r"
    from safe_bind [OF retry [OF this] install]
    show "safe ?P (case r of (ptr, actual_size, st) \<Rightarrow>
       bind_res (if ptr = 0 \<and> n < ask then GrowHeap_alloc os n st else Inr (ptr, actual_size, st))
         (\<lambda>(ptr, actual_size, st). if ptr = 0 then Inr (False, st) else grow_rest os ptr actual_size st))"
      by (cases r) simp
  qed
qed

section \<open>\<open>New\<close>\<close>

lemma New_eff:
  fixes st :: "('o, 'z) heap_scheme"
  assumes inv: "hinv os owned H F st" and n: "0 < n"
  shows "safe (alloc_spec os owned H F n st) (New os n st)"
proof -
  let ?S = "alloc_spec os owned H F n st"
  have none: "\<exists>F1. hinv os owned H F1 st1 \<and> hframe owned F F1 st st1 \<and> in_use (sdata (spans st1)) = in_use (sdata (spans st))"
    if "?S (None, st1)" for st1 using that by (auto simp: alloc_spec_def)
  have again: "safe ?S (SearchFreeAndLargeLists os n st1)"
    if "hinv os owned H F1 st1" "hframe owned F F1 st st1" "in_use (sdata (spans st1)) = in_use (sdata (spans st))"
    for F1 and st1 :: "('o, 'z) heap_scheme"
    by (rule safe_mono [OF SearchFreeAndLargeLists_eff [OF that(1) n]]) (rule alloc_spec_from [OF _ that(2,3)])
  have coalesce: "safe ?S (bind_res (ReleaseAtLeastNPages os m st1) (\<lambda>(_, st). SearchFreeAndLargeLists os n st))"
    if s: "?S (None, st1)" for m and st1 :: "('o, 'z) heap_scheme"
  proof -
    obtain F1 where F1: "hinv os owned H F1 st1" "hframe owned F F1 st st1" "in_use (sdata (spans st1)) = in_use (sdata (spans st))"
      using none [OF s] by blast
    obtain k st2 F2 where r: "ReleaseAtLeastNPages os m st1 = Inr (k, st2)" "released os owned H F1 F2 st1 k st2"
      using ReleaseAtLeastNPages_eff [OF F1(1), of m] by blast
    show ?thesis
      using again [of F2 st2] hframe_trans [OF F1(2) hframe_released [OF r(2)]] F1(3) r(2) by (simp add: r(1) released_def)
  qed
  have grow: "safe ?S (bind_res (GrowHeap os n st1) (\<lambda>(ok, st). if \<not> ok then Inr (None, st) else SearchFreeAndLargeLists os n st))"
    if s: "?S (None, st1)" for st1 :: "('o, 'z) heap_scheme"
  proof -
    obtain F1 where F1: "hinv os owned H F1 st1" "hframe owned F F1 st st1" "in_use (sdata (spans st1)) = in_use (sdata (spans st))"
      using none [OF s] by blast
    show ?thesis
    proof (rule safe_bind [OF GrowHeap_eff [OF F1(1) n]], clarify)
      fix ok st2 F2
      assume "hinv os owned H F2 st2" "hframe owned F1 F2 st1 st2" "in_use (sdata (spans st2)) = in_use (sdata (spans st1))"
      then show "safe ?S (if \<not> ok then Inr (None, st2) else SearchFreeAndLargeLists os n st2)"
        using again [of F2 st2] hframe_trans [OF F1(2)] F1(3) alloc_spec_from [OF alloc_none, of os owned H F2 st2 F st n] by auto
    qed
  qed
  show ?thesis
    unfolding New_def
  proof (intro safe_bind [OF SearchFreeAndLargeLists_eff [OF inv n]], clarify)
    fix res st1 assume s: "?S (res, st1)"
    show "safe ?S (if res \<noteq> None then Inr (res, st1) else bind_res
         (if free_bytes st1 \<noteq> 0 \<and> unmapped_bytes st1 \<noteq> 0 \<and> add64 (free_bytes st1) (unmapped_bytes st1) \<ge> system_bytes st1 div 4 \<and>
             system_bytes st1 div kForcedCoalesceInterval \<noteq> add64 (system_bytes st1) (page_bytes n) div kForcedCoalesceInterval
          then bind_res (ReleaseAtLeastNPages os 0x7fffffff st1) (\<lambda>(_, st). SearchFreeAndLargeLists os n st)
          else Inr (None, st1)) (\<lambda>(result, st). if result \<noteq> None then Inr (result, st)
       else bind_res (GrowHeap os n st) (\<lambda>(ok, st). if \<not> ok then Inr (None, st) else SearchFreeAndLargeLists os n st)))"
    proof (cases res)
      case None
      then show ?thesis
        unfolding None using s [unfolded None] by (auto intro!: safe_bind [where Q = ?S] coalesce grow)
    qed (use s in simp)
  qed
qed

end
