(* ===== verification/Page_Heap_Client.thy ===== *)
theory Page_Heap_Client
  imports Page_Heap_Grow
begin

text \<open>
  What the clients of the page heap do with a span they own: splitting it and giving it a size class.
\<close>

section \<open>\<open>Split\<close>\<close>

definition split_spec where
  "split_spec os owned H F a s n st r \<longleftrightarrow> (case r of (sp, st') \<Rightarrow> \<exists>c. sp = Obj c \<and> sdata (spans st) c = None \<and> c \<noteq> 0 \<and>
     hinv os owned H F st' \<and> hframe owned F F st st' \<and> on_no_list H F c \<and>
     sdata (spans st') = (sdata (spans st))(a \<mapsto> s\<lparr>span_length := n\<rparr>, c \<mapsto> new_span (start s + n) (span_length s - n)))"

lemma Split_eff:
  fixes st :: "('o, 'z) heap_scheme"
  assumes inv: "hinv os owned H F st" and a: "sdata (spans st) a = Some s" "location s = IN_USE" "sizeclass s = 0"
    and n: "0 < n" "n < span_length s"
  shows "safe (split_spec os owned H F a s n st) (Split os (Obj a) n st)"
proof -
  note d = hinvD [OF inv]
  let ?D = "sdata (spans st)" and ?t = "new_span (start s + n) (span_length s - n)"
  let ?Dn = "?D(a \<mapsto> s\<lparr>span_length := n\<rparr>)"
  obtain u where u: "get_span (Obj a) st = Inr u" "unlink u = s" using sdata_Some [OF a(1)] by (auto simp: get_span_def)
  note un = unlinkD [OF u(2)]
  note sp = split_room [OF d(1) a(1,2) n]
  have ex: "as_length (extra_pages (span_length s) n) = span_length s - n"
    using n hgen_bounds(4) [OF d(1) a(1)] extra_pages_id [of n "span_length s"] as_length_id [of "span_length s - n"] by simp
  have run: "Split os (Obj a) n st = bind_res (NewSpan os (start s + n) (span_length s - n) st) (\<lambda>(leftover, st).
     bind_res (RecordSpan leftover st) (\<lambda>st. bind_res (pagemap_set (start s + n - 1) (Obj a) st) (\<lambda>st.
     bind_res (on_spans (upd_span (Obj a) (span_length_update (\<lambda>_. n))) st) (\<lambda>st. Inr (leftover, st)))))"
    using u(1) un ex by (simp add: Split_def)
  show ?thesis
    unfolding run
  proof (rule safe_bind [OF NewSpan_eff [OF sp]])
    fix r assume "new_span_post os owned H F ?Dn (start s + n) (span_length s - n) st r"
    then obtain c st1 where r: "r = (Obj c, st1)" and c: "?Dn c = None" "c \<noteq> 0" and h1: "hgen0 os owned H F (?Dn(c \<mapsto> ?t)) st1" "on_no_list H F c"
        and sd1: "sdata (spans st1) = ?D(c \<mapsto> ?t)" and pm1: "pagemap st1 = pagemap st" and hk1: "hkeep st1 = hkeep st"
        and ow1: "owned (os_st st) \<subseteq> owned (os_st st1)"
      by (auto simp: new_span_post_def split: prod.splits)
    have ac: "c \<noteq> a" "?D c = None" using c(1) a(1) by (auto split: if_splits)
    have wf1: "wf3 (pagemap st1)" "sdata (spans st1) c = Some ?t" "0 < span_length ?t"
      using d(2) pm1 sd1 n by (simp_all add: map_ok_def)
    have e1: "ensured3 kPageMapBits (pagemap st1) k" if "k \<in> pages_of ?t \<or> k = start s + n - 1" for k
    proof -
      have "k \<in> pages_of s" using that n by (simp add: pages_of_def) linarith
      then show ?thesis unfolding pm1 by (rule map_okD(3) [OF d(2) a(1)])
    qed
    obtain pm2 where 2: "RecordSpan (Obj c) st1 = Inr (st1\<lparr>pagemap := pm2\<rparr>)" "wf3 pm2" "ensured3 kPageMapBits pm2 = ensured3 kPageMapBits (pagemap st1)"
        "view3 kPageMapBits pm2 = (view3 kPageMapBits (pagemap st1))(start ?t := c, start ?t + span_length ?t - 1 := c)"
      using RecordSpan_sdata [OF wf1] e1 by blast
    obtain pm3 where 3: "pagemap_set (start s + n - 1) (Obj a) (st1\<lparr>pagemap := pm2\<rparr>) = Inr (st1\<lparr>pagemap := pm3\<rparr>)" "wf3 pm3"
        "ensured3 kPageMapBits pm3 = ensured3 kPageMapBits pm2" "view3 kPageMapBits pm3 = (view3 kPageMapBits pm2)(start s + n - 1 := a)"
      using pagemap_set_eff [of "st1\<lparr>pagemap := pm2\<rparr>" "start s + n - 1" a] 2(2,3) e1 by auto
    have sa: "sdata (spans (st1\<lparr>pagemap := pm3\<rparr>)) a = Some s" using sd1 ac(1) a(1) by simp
    have h3: "hgen0 os owned H F (?Dn(c \<mapsto> ?t)) (st1\<lparr>pagemap := pm3\<rparr>)" using h1(1) by (simp add: hgen0_pagemap)
    obtain ss where 4: "on_spans (upd_span (Obj a) (span_length_update (\<lambda>_. n))) (st1\<lparr>pagemap := pm3\<rparr>) = Inr (st1\<lparr>pagemap := pm3, spans := ss\<rparr>)"
        "sdata ss = (sdata (spans st1))(a \<mapsto> s\<lparr>span_length := n\<rparr>)" "hgen0 os owned H F (?Dn(c \<mapsto> ?t)) (st1\<lparr>pagemap := pm3, spans := ss\<rparr>)"
      using upd_span_eff [OF sa h3, of "span_length_update (\<lambda>_. n)" "s\<lparr>span_length := n\<rparr>"] by (auto simp: unlink_upds)
    define st' where "st' = st1\<lparr>pagemap := pm3, spans := ss\<rparr>"
    have sd': "sdata (spans st') = ?Dn(c \<mapsto> ?t)" unfolding st'_def using 4(2) sd1 ac by (simp add: fun_upd_twist)
    have "map_ok (?Dn(c \<mapsto> ?t)) pm3"
      by (rule split_map [OF d(2,7) a(1,3) ac(2) n _ _ _ _ _ _ 3(2)]) (use a(3) 2(3,4) 3(3,4) n pm1 in \<open>simp_all add: add.commute\<close>)
    then have "hcore os owned H F st'" using 4(3) sd' by (simp add: hcore_def hgen_def st'_def)
    moreover have k: "hkeep st' = hkeep st" using hk1 by (simp add: st'_def)
    ultimately have "split_spec os owned H F a s n st (Obj c, st')"
      using hkeepD [OF k] d(6) ac c(2) h1(2) sd' ow1 by (auto simp: split_spec_def hinv_def hframe_def st'_def)
    then show "safe (split_spec os owned H F a s n st) (case r of (leftover, st) \<Rightarrow>
        bind_res (RecordSpan leftover st) (\<lambda>st. bind_res (pagemap_set (start s + n - 1) (Obj a) st) (\<lambda>st.
        bind_res (on_spans (upd_span (Obj a) (span_length_update (\<lambda>_. n))) st) (\<lambda>st. Inr (leftover, st)))))"
      unfolding r prod.case 2(1) bind_res.simps 3(1) 4(1) by (simp add: st'_def)
  qed
qed

section \<open>Spans in use\<close>

text \<open>Descriptors of spans in use may be changed as long as their extent stays.\<close>

lemma map_ok_in_use:
  assumes ok: "map_ok D pm" "spans_wf D" and a: "D a = Some s" and s': "location s' = IN_USE" "start s' = start s" "span_length s' = span_length s"
    and pm': "wf3 pm'" "ensured3 kPageMapBits pm' = ensured3 kPageMapBits pm"
    and vw: "\<And>k. k \<notin> pages_of s \<Longrightarrow> view3 kPageMapBits pm' k = view3 kPageMapBits pm k"
    and vs: "view3 kPageMapBits pm' (start s) = a" "view3 kPageMapBits pm' (start s + span_length s - 1) = a"
      "sizeclass s' \<noteq> 0 \<Longrightarrow> \<forall>k\<in>pages_of s. view3 kPageMapBits pm' k = a"
  shows "map_ok (D(a \<mapsto> s')) pm'"
  unfolding map_ok_def
proof (intro conjI allI impI)
  show "wf3 pm'" by (rule pm'(1))
  have pg: "pages_of s' = pages_of s" using s'(2,3) by (simp add: pages_of_def)
  fix c t assume c: "(D(a \<mapsto> s')) c = Some t"
  have "view3 kPageMapBits pm' (start t) = c \<and> view3 kPageMapBits pm' (start t + span_length t - 1) = c \<and>
      (\<forall>k\<in>pages_of t. ensured3 kPageMapBits pm' k) \<and> (sizeclass t \<noteq> 0 \<longrightarrow> location t = IN_USE \<and> (\<forall>k\<in>pages_of t. view3 kPageMapBits pm' k = c))"
  proof (cases "c = a")
    case True
    then have t: "t = s'" using c by simp
    have "\<forall>k\<in>pages_of s. ensured3 kPageMapBits pm k" using map_okD(3) [OF ok(1) a] by blast
    then show ?thesis unfolding t True pm'(2) pg s'(2,3) using vs s'(1) by blast
  next
    case False
    then have c: "D c = Some t" using c by simp
    have "pages_of t \<inter> pages_of s = {}" by (rule spans_disjoint [OF ok(2) c a False])
    then have v: "view3 kPageMapBits pm' k = view3 kPageMapBits pm k" if "k \<in> pages_of t" for k using vw that by blast
    show ?thesis
      using map_okD [OF ok(1) c] v [OF spans_wfD(5) [OF ok(2) c]] v [OF spans_wfD(6) [OF ok(2) c]] v unfolding pm'(2) by simp
  qed
  then show "view3 kPageMapBits pm' (start t) = c" "view3 kPageMapBits pm' (start t + span_length t - 1) = c"
    "\<forall>k\<in>pages_of t. ensured3 kPageMapBits pm' k" "sizeclass t \<noteq> 0 \<Longrightarrow> location t = IN_USE"
    "sizeclass t \<noteq> 0 \<Longrightarrow> \<forall>k\<in>pages_of t. view3 kPageMapBits pm' k = c" by blast+
next
  have pg: "pages_of s' = pages_of s" using s'(2,3) by (simp add: pages_of_def)
  fix k assume k: "view3 kPageMapBits pm' k \<noteq> 0"
  show "\<exists>c t. (D(a \<mapsto> s')) c = Some t \<and> k \<in> pages_of t"
  proof (cases "k \<in> pages_of s")
    case True
    then show ?thesis by (intro exI [of _ a] exI [of _ s']) (simp add: pg)
  next
    case False
    then obtain c t where c: "D c = Some t" "k \<in> pages_of t" using map_ok_covers [OF ok(1)] k vw by metis
    then have "c \<noteq> a" using a False by auto
    then show ?thesis using c by (intro exI [of _ c] exI [of _ t]) simp
  qed
qed

lemma upd_in_use:
  fixes st :: "('o, 'z) heap_scheme"
  assumes inv: "hinv os owned H F st" and a: "sdata (spans st) a = Some s" "location s = IN_USE"
    and f: "\<And>u. unlink u = s \<Longrightarrow> unlink (f u) = s' \<and> nxt (f u) = nxt u \<and> prv (f u) = prv u"
    and s': "location s' = IN_USE" "start s' = start s" "span_length s' = span_length s" "sizeclass s' = sizeclass s"
  shows "\<exists>ss. on_spans (upd_span (Obj a) f) st = Inr (st\<lparr>spans := ss\<rparr>) \<and> sdata ss = (sdata (spans st))(a \<mapsto> s') \<and>
    hinv os owned H F (st\<lparr>spans := ss\<rparr>)"
proof -
  note d = hinvD [OF inv]
  obtain ss where ss: "on_spans (upd_span (Obj a) f) st = Inr (st\<lparr>spans := ss\<rparr>)" "sdata ss = (sdata (spans st))(a \<mapsto> s')"
      "hgen0 os owned H F (sdata (spans st)) (st\<lparr>spans := ss\<rparr>)"
    using upd_span_eff [OF a(1) d(1) f] by blast
  have g: "hgen0 os owned H F (sdata ss) (st\<lparr>spans := ss\<rparr>)"
    unfolding ss(2) by (rule hgen0_same_extent [OF ss(3) a s'(1-3)])
  note mo = map_okD [OF d(2) a(1)]
  have "map_ok (sdata ss) (pagemap st)"
    unfolding ss(2) by (rule map_ok_in_use [OF d(2,7) a(1) s'(1-3)]) (use mo d(2) s'(4) in \<open>simp_all add: map_ok_def\<close>)
  then have "hinv os owned H F (st\<lparr>spans := ss\<rparr>)" using g d(6) by (simp add: hinv_def hcore_def hgen_def)
  then show ?thesis using ss(1,2) by blast
qed

section \<open>Size classes\<close>

lemma set_pages_eff:
  fixes st :: "('o, 'z) heap_scheme"
  assumes "wf3 (pagemap st)" "\<forall>k. j \<le> k \<and> k < j + m \<longrightarrow> ensured3 kPageMapBits (pagemap st) k"
  shows "\<exists>pm. set_pages m j (Obj a) st = Inr (st\<lparr>pagemap := pm\<rparr>) \<and> wf3 pm \<and> ensured3 kPageMapBits pm = ensured3 kPageMapBits (pagemap st) \<and>
    (\<forall>k. view3 kPageMapBits pm k = (if j \<le> k \<and> k < j + m then a else view3 kPageMapBits (pagemap st) k))"
  using assms
proof (induction m arbitrary: j st)
  case 0
  then show ?case by (intro exI [of _ "pagemap st"]) auto
next
  case (Suc m)
  obtain pm where 1: "pagemap_set j (Obj a) st = Inr (st\<lparr>pagemap := pm\<rparr>)" "wf3 pm" "ensured3 kPageMapBits pm = ensured3 kPageMapBits (pagemap st)"
      "view3 kPageMapBits pm = (view3 kPageMapBits (pagemap st))(j := a)"
    using pagemap_set_eff [OF Suc.prems(1), of j a] Suc.prems(2) by auto
  let ?st = "st\<lparr>pagemap := pm\<rparr>"
  have "wf3 (pagemap ?st)" "\<forall>k. j + 1 \<le> k \<and> k < j + 1 + m \<longrightarrow> ensured3 kPageMapBits (pagemap ?st) k"
    using 1(2,3) Suc.prems(2) by auto
  from Suc.IH [OF this] obtain pm' where 2: "set_pages m (j + 1) (Obj a) ?st = Inr (?st\<lparr>pagemap := pm'\<rparr>)" "wf3 pm'"
      "ensured3 kPageMapBits pm' = ensured3 kPageMapBits pm"
      "\<And>k. view3 kPageMapBits pm' k = (if j + 1 \<le> k \<and> k < j + 1 + m then a else view3 kPageMapBits pm k)"
    by (auto simp del: One_nat_def)
  have "view3 kPageMapBits pm' k = (if j \<le> k \<and> k < j + Suc m then a else view3 kPageMapBits (pagemap st) k)" for k
    unfolding 2(4) 1(4) by auto
  then show ?case using 1(1,3) 2(1-3) by (intro exI [of _ pm']) simp
qed

lemma RegisterSizeClass_eff:
  fixes st :: "('o, 'z) heap_scheme"
  assumes inv: "hinv os owned H F st" and a: "sdata (spans st) a = Some s" "location s = IN_USE" and sc: "sc < 256"
  shows "\<exists>st'. RegisterSizeClass (Obj a) sc st = Inr st' \<and> hinv os owned H F st' \<and> hframe owned F F st st' \<and>
    sdata (spans st') = (sdata (spans st))(a \<mapsto> s\<lparr>sizeclass := sc\<rparr>) \<and>
    (\<forall>k\<in>pages_of s. view3 kPageMapBits (pagemap st') k = a)"
proof -
  note d = hinvD [OF inv]
  let ?D = "sdata (spans st)" and ?s = "s\<lparr>sizeclass := sc\<rparr>"
  obtain ss where ss: "on_spans (upd_span (Obj a) (sizeclass_update (\<lambda>_. sc mod 256))) st = Inr (st\<lparr>spans := ss\<rparr>)" "sdata ss = ?D(a \<mapsto> ?s)"
      "hgen0 os owned H F ?D (st\<lparr>spans := ss\<rparr>)"
    using upd_span_eff [OF a(1) d(1), of "sizeclass_update (\<lambda>_. sc mod 256)" ?s] sc by (auto simp: unlink_upds)
  have g: "hgen0 os owned H F (?D(a \<mapsto> ?s)) (st\<lparr>spans := ss\<rparr>)" by (rule hgen0_same_extent [OF ss(3) a]) (use a(2) in simp_all)
  obtain u where u: "ss (Obj a) = Some u" "unlink u = ?s" using sdata_Some [of ss a ?s] ss(2) by auto
  note un = unlinkD(2,3) [OF u(2)] and mo = map_okD [OF d(2) a(1)]
  let ?in = "\<lambda>k. start s + 1 \<le> k \<and> k < start s + 1 + (span_length s - 2)" and ?st = "st\<lparr>spans := ss\<rparr>"
  have pre: "wf3 (pagemap ?st)" "\<forall>k. ?in k \<longrightarrow> ensured3 kPageMapBits (pagemap ?st) k"
    using mo(3) d(2) by (auto simp: pages_of_def map_ok_def [of _ "pagemap st"])
  obtain pm where pm: "set_pages (span_length s - 2) (start s + 1) (Obj a) ?st = Inr (?st\<lparr>pagemap := pm\<rparr>)" "wf3 pm"
      "ensured3 kPageMapBits pm = ensured3 kPageMapBits (pagemap ?st)"
      "\<forall>k. view3 kPageMapBits pm k = (if ?in k then a else view3 kPageMapBits (pagemap ?st) k)"
    using set_pages_eff [OF pre] by blast
  define st' where "st' = st\<lparr>spans := ss, pagemap := pm\<rparr>"
  have cov: "k = start s \<or> k = start s + span_length s - 1 \<or> ?in k" if "k \<in> pages_of s" for k
    using that by (simp add: pages_of_def) linarith
  have all: "\<forall>k\<in>pages_of s. view3 kPageMapBits pm k = a" using cov mo(1,2) pm(4) by auto
  have "map_ok (?D(a \<mapsto> ?s)) pm"
  proof (rule map_ok_in_use [OF d(2,7) a(1) _ _ _ pm(2)])
    show "view3 kPageMapBits pm k = view3 kPageMapBits (pagemap st) k" if "k \<notin> pages_of s" for k
      using that pm(4) by (auto simp: pages_of_def)
  qed (use a(2) all pm(3) spans_wfD(5,6) [OF d(7) a(1)] in simp_all)
  then have "hinv os owned H F st'" using g d(6) ss(2) by (simp add: hinv_def hcore_def hgen_def hgen0_pagemap st'_def)
  moreover have "RegisterSizeClass (Obj a) sc st = Inr st'"
    using ss(1) u(1) un pm(1) by (simp add: RegisterSizeClass_def get_span_def st'_def)
  ultimately show ?thesis using all ss(2) by (intro exI [of _ st']) (simp add: st'_def hframe_def)
qed

end
