(* ===== verification/Page_Heap_Init.thy ===== *)
theory Page_Heap_Init
  imports Page_Heap_Client
begin

text \<open>
  The constructor of \<open>PageHeap\<close> and the enumeration of address ranges; the constructor establishes the
  invariant of the page heap.
\<close>

section \<open>Constructor\<close>

text \<open>The two loops of \<open>DLL_Init\<close> calls, over \<open>large_\<close> (index \<open>kMaxPages\<close>) and \<open>free_[0..kMaxPages)\<close>.\<close>

fun init_lists :: "nat list \<Rightarrow> store \<Rightarrow> store res" where
  "init_lists [] ss = Inr ss"
| "init_lists (i # is) ss =
     bind_res (DLL_Init (NormalHd i) ss) (\<lambda>ss.
     bind_res (DLL_Init (ReturnedHd i) ss) (\<lambda>ss.
     init_lists is ss))"

text \<open>
  The sentinels are members of the object: they exist once there is memory for it.  What they
  contain before \<open>DLL_Init\<close> plays no role.
\<close>

definition add_sentinels :: "store \<Rightarrow> store" where
  "add_sentinels ss p =
     (case p of NormalHd i \<Rightarrow> if i \<le> kMaxPages then Some (new_span 0 0) else ss p
      | ReturnedHd i \<Rightarrow> if i \<le> kMaxPages then Some (new_span 0 0) else ss p
      | _ \<Rightarrow> ss p)"

definition PageHeap_new :: "'o os \<Rightarrow> ('o, 'z) heap_scheme \<Rightarrow> ('o, 'z) heap_scheme res" where
  "PageHeap_new os st =
     bind_res (PageMap3_new kPageMapBits (MetaDataAlloc os) st) (\<lambda>(pm, st).
     let st = st\<lparr>pagemap := pm, pagemap_cache := Clear kKeybits (pagemap_cache st) 0,
                 system_bytes := 0, free_bytes := 0, unmapped_bytes := 0, committed_bytes := 0,
                 scavenge_counter := 0, release_index := kMaxPages, aggressive_decommit := False\<rparr>
     in on_spans (init_lists (kMaxPages # [0..<kMaxPages])) (st\<lparr>spans := add_sentinels (spans st)\<rparr>))"

section \<open>Ranges\<close>

datatype range_type = INUSE | FREE | UNMAPPED

record MallocRange =
  address :: nat
  range_length :: nat
  range_type :: range_type
  fraction :: rat

definition GetNextRange :: "SizeMap \<Rightarrow> nat \<Rightarrow> ('o, 'z) heap_scheme \<Rightarrow> MallocRange option res" where
  "GetNextRange sm p st =
     bind_res (PageMap3_Next kPageMapBits (pagemap st) p) (\<lambda>a.
     if a = 0 then Inr None
     else
       bind_res (get_span (Obj a) st) (\<lambda>s.
       let len = page_bytes (span_length s)
       in bind_res
            (case location s of
               IN_USE \<Rightarrow>
                 if sizeclass s > 0 then
                   bind_res (class_to_size sm (int (sizeclass s))) (\<lambda>osize.
                   Inr (INUSE, dbl (dbl (dbl (of_int osize) * of_nat (refcount s)) / dbl (of_nat len))))
                 else Inr (INUSE, 1)
             | ON_NORMAL_FREELIST \<Rightarrow> Inr (FREE, 0)
             | ON_RETURNED_FREELIST \<Rightarrow> Inr (UNMAPPED, 0)) (\<lambda>(ty, fr).
          Inr (Some \<lparr> address = page_bytes (start s), range_length = len, range_type = ty, fraction = fr \<rparr>))))"

section \<open>The constructor establishes the invariant\<close>

lemma DLL_Init_eff:
  assumes "lists_ok ss H F" "h \<notin> H" "h \<in> dom ss" "\<forall>h'\<in>H. h \<notin> set (F h')" "F h = []"
  shows "\<exists>ss'. DLL_Init h ss = Inr ss' \<and> lists_ok ss' (insert h H) F \<and> (\<forall>p. p \<noteq> h \<longrightarrow> ss' p = ss p) \<and> dom ss' = dom ss"
proof -
  obtain s where s: "ss h = Some s" using assms(3) by blast
  let ?ss = "ss(h \<mapsto> s\<lparr>nxt := h, prv := h\<rparr>)"
  have run: "DLL_Init h ss = Inr ?ss" using s by (simp add: DLL_Init_def)
  have "lists_ok ?ss H F" using assms(2,4) by (intro lists_ok_upd_other [OF assms(1)]) auto
  moreover have "dlist (lnext ?ss) (lprev ?ss) h (F h)" by (simp add: assms(5) dlist_def lnext_def lprev_def)
  ultimately have "lists_ok ?ss (insert h H) F"
    using assms(4,5) by (auto simp: lists_ok_def)
  then show ?thesis using run s by (intro exI [of _ ?ss]) auto
qed

lemma init_lists_eff:
  assumes "lists_ok ss H F" "distinct is" "\<forall>i\<in>set is. NormalHd i \<notin> H \<and> ReturnedHd i \<notin> H \<and> NormalHd i \<in> dom ss \<and> ReturnedHd i \<in> dom ss"
    "\<forall>h\<in>H. set (F h) \<subseteq> range Obj" "\<forall>i\<in>set is. F (NormalHd i) = [] \<and> F (ReturnedHd i) = []"
  shows "\<exists>ss'. init_lists is ss = Inr ss' \<and> lists_ok ss' (H \<union> NormalHd ` set is \<union> ReturnedHd ` set is) F \<and>
    (\<forall>a. ss' (Obj a) = ss (Obj a))"
  using assms
proof (induction "is" arbitrary: ss H)
  case (Cons i js)
  have "\<exists>ss1. DLL_Init (NormalHd i) ss = Inr ss1 \<and> lists_ok ss1 (insert (NormalHd i) H) F \<and> (\<forall>p. p \<noteq> NormalHd i \<longrightarrow> ss1 p = ss p) \<and> dom ss1 = dom ss"
    using Cons.prems by (intro DLL_Init_eff) auto
  then obtain ss1 where 1: "DLL_Init (NormalHd i) ss = Inr ss1" "lists_ok ss1 (insert (NormalHd i) H) F" "\<forall>p. p \<noteq> NormalHd i \<longrightarrow> ss1 p = ss p" "dom ss1 = dom ss" by blast
  have "\<exists>ss2. DLL_Init (ReturnedHd i) ss1 = Inr ss2 \<and> lists_ok ss2 (insert (ReturnedHd i) (insert (NormalHd i) H)) F \<and> (\<forall>p. p \<noteq> ReturnedHd i \<longrightarrow> ss2 p = ss1 p) \<and> dom ss2 = dom ss1"
    using Cons.prems 1(2,4) by (intro DLL_Init_eff) auto
  then obtain ss2 where 2: "DLL_Init (ReturnedHd i) ss1 = Inr ss2" "lists_ok ss2 (insert (ReturnedHd i) (insert (NormalHd i) H)) F" "\<forall>p. p \<noteq> ReturnedHd i \<longrightarrow> ss2 p = ss1 p" "dom ss2 = dom ss1" by blast
  let ?H = "insert (ReturnedHd i) (insert (NormalHd i) H)"
  have "\<exists>ss'. init_lists js ss2 = Inr ss' \<and> lists_ok ss' (?H \<union> NormalHd ` set js \<union> ReturnedHd ` set js) F \<and> (\<forall>a. ss' (Obj a) = ss2 (Obj a))"
    using Cons.prems 2(2,4) 1(4) by (intro Cons.IH) auto
  then obtain ss' where 3: "init_lists js ss2 = Inr ss'" "lists_ok ss' (?H \<union> NormalHd ` set js \<union> ReturnedHd ` set js) F" "\<forall>a. ss' (Obj a) = ss2 (Obj a)" by blast
  have "?H \<union> NormalHd ` set js \<union> ReturnedHd ` set js = H \<union> NormalHd ` set (i # js) \<union> ReturnedHd ` set (i # js)" by auto
  then show ?case using 1 2 3 by (intro exI [of _ ss']) simp
qed auto

lemma pha_inv_subset: "pha_inv os owned sz live s \<Longrightarrow> live' \<subseteq> live \<Longrightarrow> pha_inv os owned sz live' s"
proof -
  assume "pha_inv os owned sz live s" "live' \<subseteq> live"
  moreover have "pha_objects sz live' fl a used" if "pha_objects sz live fl a used" "live' \<subseteq> live" for fl a used
    using that disjoint_family_on_mono [of "set fl \<union> live'" "set fl \<union> live" "block sz"] unfolding pha_objects_def by blast
  ultimately show ?thesis unfolding pha_inv_def by (cases s) blast
qed

lemma empty_heap:
  fixes st :: "('o, 'z) heap_scheme"
  assumes "os_limit owned" "madvise_answers os" "pha_inv os owned sizeof_Span {} (span_allocator st, span_links st, st)"
    "lists_ok (spans st) H (\<lambda>_. [])" "heads \<subseteq> H" "H \<inter> range Obj = {}" "\<forall>a. spans st (Obj a) = None"
    "root3 (pagemap st) = Some (\<lambda>_. None)" "system_bytes st = 0" "free_bytes st = 0" "unmapped_bytes st = 0" "committed_bytes st = 0"
    "\<not> aggressive_decommit st"
  shows "hinv os owned H (\<lambda>_. []) st"
proof -
  have sd: "sdata (spans st) = Map.empty" using assms(7) by (auto simp: sdata_def fun_eq_iff)
  have v: "view3 kPageMapBits (pagemap st) k = 0" for k using assms(8) by (simp add: view3_def)
  have "mem_ok os owned Map.empty st" using assms(1-3,9) by (simp add: mem_ok_def)
  moreover have "lists_exact Map.empty H (\<lambda>_. [])" using assms(5,6) by (simp add: lists_exact_def)
  ultimately have "hgen0 os owned H (\<lambda>_. []) Map.empty st"
    using assms(4,10-13) by (simp add: hgen0_def spans_wf_def coalesced_def npages_def)
  moreover have "map_ok Map.empty (pagemap st)" using v assms(8) by (simp add: map_ok_def wf3_def)
  ultimately show ?thesis using assms(9,11,12) by (simp add: hinv_def hcore_def hgen_def sd)
qed

lemma PageHeap_new_inv:
  fixes st :: "('o, 'z) heap_scheme"
  assumes os: "os_limit owned" "madvise_answers os" and pha: "pha_inv os owned sizeof_Span live (span_allocator st, span_links st, st)"
    and H: "lists_ok (spans st) H (\<lambda>_. [])" "H \<inter> heads = {}" "H \<inter> range Obj = {}" "\<forall>a. spans st (Obj a) = None"
  shows "safe (\<lambda>st'. (root3 (pagemap st') \<noteq> None \<longrightarrow> hinv os owned (H \<union> heads) (\<lambda>_. []) st') \<and> (\<forall>a. spans st' (Obj a) = None))
    (PageHeap_new os st)"
proof -
  have sz: "0 < 8 * (2::nat) ^ INTERIOR_BITS kPageMapBits" "8 * (2::nat) ^ INTERIOR_BITS kPageMapBits < 2 ^ 63"
    using node_sizes [OF kPageMapBits_ok] by simp_all
  have hd: "H \<union> NormalHd ` set (kMaxPages # [0..<kMaxPages]) \<union> ReturnedHd ` set (kMaxPages # [0..<kMaxPages]) = H \<union> heads"
    by (auto simp: heads_def)
  let ?ss = "add_sentinels (spans st)"
  have same: "?ss h = spans st h" if "h \<in> H" for h
    using that H(2) by (auto simp: add_sentinels_def heads_def split: sptr.splits)
  have "lists_ok ?ss H (\<lambda>_. [])"
    by (rule lists_ok_cong [OF H(1)]) (use same lists_okD(2) [OF H(1)] in \<open>auto simp: lnext_def lprev_def dom_def\<close>)
  then have "\<exists>ss'. init_lists (kMaxPages # [0..<kMaxPages]) ?ss = Inr ss' \<and>
      lists_ok ss' (H \<union> NormalHd ` set (kMaxPages # [0..<kMaxPages]) \<union> ReturnedHd ` set (kMaxPages # [0..<kMaxPages])) (\<lambda>_. []) \<and>
      (\<forall>a. ss' (Obj a) = ?ss (Obj a))"
    by (rule init_lists_eff) (use H(2) in \<open>auto simp: heads_def add_sentinels_def dom_def\<close>)
  then obtain ss where ss: "init_lists (kMaxPages # [0..<kMaxPages]) ?ss = Inr ss" "lists_ok ss (H \<union> heads) (\<lambda>_. [])" "\<forall>a. ss (Obj a) = ?ss (Obj a)"
    unfolding hd by blast
  show ?thesis
    unfolding PageHeap_new_def PageMap3_new_def NewNode_def bind_res_assoc
  proof (rule safe_bind [OF MetaDataAlloc_pha [OF pha sz]], clarify)
    fix p and st1 :: "('o, 'z) heap_scheme"
    assume 1: "pha_inv os owned sizeof_Span live (span_allocator st, span_links st, st1)" "meta_frame st st1"
    note f = meta_frame_heap [OF 1(2)]
    let ?st = "st1\<lparr>pagemap := \<lparr>root3 = if p \<noteq> 0 then Some (\<lambda>_. None) else None\<rparr>, pagemap_cache := Clear kKeybits (pagemap_cache st1) 0,
      system_bytes := 0, free_bytes := 0, unmapped_bytes := 0, committed_bytes := 0,
      scavenge_counter := 0, release_index := kMaxPages, aggressive_decommit := False, spans := ss\<rparr>"
    have "pha_inv os owned sizeof_Span {} (span_allocator st, span_links st, ?st)"
      using pha_inv_subset [OF 1(1), of "{}"] by (simp add: pha_inv_def meta_inv_def chunk_def sys_inv_def)
    then have "root3 (pagemap ?st) \<noteq> None \<longrightarrow> hinv os owned (H \<union> heads) (\<lambda>_. []) ?st"
      using os ss(2,3) H(3,4) f by (intro impI empty_heap) (auto simp: heads_def add_sentinels_def)
    then show "safe (\<lambda>st'. (root3 (pagemap st') \<noteq> None \<longrightarrow> hinv os owned (H \<union> heads) (\<lambda>_. []) st') \<and> (\<forall>a. spans st' (Obj a) = None))
       (bind_res (Inr (p \<noteq> 0, st1)) (\<lambda>x. bind_res (case x of (ok, s) \<Rightarrow> Inr (\<lparr>root3 = if ok then Some (\<lambda>_. None) else None\<rparr>, s))
         (\<lambda>(pm, st). let st = st\<lparr>pagemap := pm, pagemap_cache := Clear kKeybits (pagemap_cache st) 0, system_bytes := 0, free_bytes := 0,
             unmapped_bytes := 0, committed_bytes := 0, scavenge_counter := 0, release_index := kMaxPages, aggressive_decommit := False\<rparr>
           in on_spans (init_lists (kMaxPages # [0..<kMaxPages])) (st\<lparr>spans := add_sentinels (spans st)\<rparr>))))"
      using ss(1,3) H(4) f(2) by (simp add: on_spans_def Let_def add_sentinels_def)
  qed
qed

end
