(* ===== verification/Page_Heap_Correct.thy ===== *)
theory Page_Heap_Correct
  imports Page_Heap_Init
begin

text \<open>
  The page heap as its clients see it: every sequence of calls keeps the invariant, and what the
  invariant gives in terms of the code's own data.
\<close>

section \<open>Clients\<close>

text \<open>
  A client owns the spans in \<open>L\<close>.  It may allocate, delete and split what it owns, give a span it owns
  a size class, and have memory released.
\<close>

inductive heap_calls ::
  "'o os \<Rightarrow> ('o, 'z) heap_scheme \<Rightarrow> addr set \<Rightarrow> ('o, 'z) heap_scheme \<Rightarrow> bool" for os st0 where
  init: "heap_calls os st0 {} st0"
| new_some: "heap_calls os st0 L st \<Longrightarrow> 0 < n \<Longrightarrow> New os n st = Inr (Some (Obj a), st') \<Longrightarrow> heap_calls os st0 (insert a L) st'"
| new_none: "heap_calls os st0 L st \<Longrightarrow> 0 < n \<Longrightarrow> New os n st = Inr (None, st') \<Longrightarrow> heap_calls os st0 L st'"
| delete: "heap_calls os st0 L st \<Longrightarrow> a \<in> L \<Longrightarrow> Delete os (Obj a) st = Inr st' \<Longrightarrow> heap_calls os st0 (L - {a}) st'"
| split: "heap_calls os st0 L st \<Longrightarrow> a \<in> L \<Longrightarrow> get_span (Obj a) st = Inr s \<Longrightarrow> sizeclass s = 0 \<Longrightarrow> 0 < n \<Longrightarrow> n < span_length s \<Longrightarrow>
    Split os (Obj a) n st = Inr (Obj c, st') \<Longrightarrow> heap_calls os st0 (insert c L) st'"
| register: "heap_calls os st0 L st \<Longrightarrow> a \<in> L \<Longrightarrow> sc < 256 \<Longrightarrow> RegisterSizeClass (Obj a) sc st = Inr st' \<Longrightarrow> heap_calls os st0 L st'"
| release: "heap_calls os st0 L st \<Longrightarrow> ReleaseAtLeastNPages os n st = Inr (m, st') \<Longrightarrow> heap_calls os st0 L st'"

lemma in_use_iff: "a \<in> dom (in_use D) \<longleftrightarrow> (\<exists>s. D a = Some s \<and> location s = IN_USE)"
  by (auto simp: in_use_def dom_def split: option.splits if_splits)

lemma in_use_listed:
  assumes inv: "hinv os owned heads F st" and a: "sdata (spans st) a = Some s" "location s = IN_USE"
  shows "on_no_list heads F a"
proof -
  have "Obj a \<notin> set (F h)" if "h \<in> heads" for h
    using free_list_span [OF hinvD(4) [OF inv] that, of "Obj a"] a by (auto simp: free_span_def)
  then show ?thesis by (simp add: on_no_list_def)
qed

definition heap_state where
  "heap_state os owned L st \<longleftrightarrow> (\<exists>F. hinv os owned heads F st) \<and> L = dom (in_use (sdata (spans st)))"

lemma heap_calls_state:
  fixes st :: "('o, 'z) heap_scheme"
  assumes "heap_calls os st0 L st" and init: "heap_state os owned {} st0"
  shows "heap_state os owned L st"
  using assms(1)
proof (induction rule: heap_calls.induct)
  case init
  show ?case by (rule assms(2))
next
  case (new_some L st n a st')
  obtain F where F: "hinv os owned heads F st" "L = dom (in_use (sdata (spans st)))" using new_some.IH by (auto simp: heap_state_def)
  then show ?case
    using safe_Inr_D [OF New_eff [OF F(1) new_some.hyps(2)] new_some.hyps(3)] by (auto simp: alloc_spec_def heap_state_def)
next
  case (new_none L st n st')
  obtain F where F: "hinv os owned heads F st" "L = dom (in_use (sdata (spans st)))" using new_none.IH by (auto simp: heap_state_def)
  then show ?case
    using safe_Inr_D [OF New_eff [OF F(1) new_none.hyps(2)] new_none.hyps(3)] by (auto simp: alloc_spec_def heap_state_def)
next
  case (delete L st a st')
  obtain F where F: "hinv os owned heads F st" "L = dom (in_use (sdata (spans st)))" using delete.IH by (auto simp: heap_state_def)
  then obtain s where s: "sdata (spans st) a = Some s" "location s = IN_USE" using delete.hyps(2) in_use_iff by blast
  show ?case
    using Delete_eff [OF F(1) s in_use_listed [OF F(1) s]] delete.hyps(3) F(2) by (auto simp: heap_state_def split: if_splits)
next
  case (split L st a u n c st')
  obtain F where F: "hinv os owned heads F st" "L = dom (in_use (sdata (spans st)))" using split.IH by (auto simp: heap_state_def)
  then obtain s where s: "sdata (spans st) a = Some s" "location s = IN_USE" using split.hyps(2) in_use_iff by blast
  have u: "unlink u = s" using s(1) split.hyps(3) by (auto simp: sdata_def get_span_def deref_def split: option.splits)
  have "split_spec os owned heads F a s n st (Obj c, st')"
    by (rule safe_Inr_D [OF Split_eff [OF F(1) s] split.hyps(7)]) (use split.hyps(4-6) unlinkD [OF u] in simp_all)
  then show ?case using F(2) s split.hyps(2) by (auto simp: split_spec_def heap_state_def)
next
  case (register L st a sc st')
  obtain F where F: "hinv os owned heads F st" "L = dom (in_use (sdata (spans st)))" using register.IH by (auto simp: heap_state_def)
  then obtain s where s: "sdata (spans st) a = Some s" "location s = IN_USE" using register.hyps(2) in_use_iff by blast
  then show ?case
    using RegisterSizeClass_eff [OF F(1) s register.hyps(3)] register.hyps(2,4) F(2) by (auto simp: heap_state_def)
next
  case (release L st n m st')
  obtain F where F: "hinv os owned heads F st" "L = dom (in_use (sdata (spans st)))" using release.IH by (auto simp: heap_state_def)
  then show ?case
    using ReleaseAtLeastNPages_eff [OF F(1), of n] release.hyps(2) by (auto simp: heap_state_def released_def)
qed

section \<open>The consistency check\<close>

lemma check_spans_ok:
  assumes inv: "hinv os owned H F st"
    and xs: "\<forall>x\<in>set xs. \<exists>a s. x = Obj a \<and> sdata (spans st) a = Some s \<and> location s = loc \<and> mn \<le> span_length s \<and> span_length s \<le> mx"
  shows "check_spans xs mn mx loc st = Inr True"
  using xs
proof (induction xs)
  case (Cons x xs)
  note d = hinvD [OF inv]
  obtain a s where a: "x = Obj a" "sdata (spans st) a = Some s" "location s = loc" "mn \<le> span_length s" "span_length s \<le> mx"
    using Cons.prems by auto
  obtain u where u: "get_span (Obj a) st = Inr u" "unlink u = s" using sdata_Some [OF a(2)] by (auto simp: get_span_def)
  have "wf3 (pagemap st)" using d(2) by (simp add: map_ok_def)
  then show ?case
    using Cons u(1) unlinkD [OF u(2)] a map_okD(1,2) [OF d(2) a(2)] by (simp add: GetDescriptor_eff)
qed simp

lemma CheckList_ok:
  assumes inv: "hinv os owned H F st" and h: "h \<in> heads" and loc: "loc \<noteq> IN_USE"
    and len: "\<And>s. free_span s \<Longrightarrow> head_of s = h \<Longrightarrow> location s = loc"
      "\<And>a s. sdata (spans st) a = Some s \<Longrightarrow> head_of s = h \<Longrightarrow> mn \<le> span_length s \<and> span_length s \<le> mx"
  shows "CheckList h mn mx loc st = Inr True"
proof -
  note d = hinvD [OF inv]
  have "dll_spans h (spans st) = Inr (F h)" using dll_spans_lists [OF d(3)] h d(5) by blast
  moreover have "check_spans (F h) mn mx loc st = Inr True"
    by (rule check_spans_ok [OF inv]) (use free_list_span [OF d(4) h] len in blast)
  ultimately show ?thesis by (simp add: CheckList_def)
qed

lemma head_location:
  "free_span s \<Longrightarrow> head_of s = NormalHd i \<Longrightarrow> location s = ON_NORMAL_FREELIST"
  "free_span s \<Longrightarrow> head_of s = ReturnedHd i \<Longrightarrow> location s = ON_RETURNED_FREELIST"
  by (cases "location s"; simp add: head_of_def free_span_def)+

lemma head_length:
  assumes "head_of s = NormalHd i \<or> head_of s = ReturnedHd i"
  shows "i < kMaxPages \<Longrightarrow> span_length s = i" "i = kMaxPages \<Longrightarrow> kMaxPages \<le> span_length s"
  using assms by (auto simp: head_of_def list_index_def split: if_splits)

lemma check_lists_ok:
  assumes inv: "hinv os owned H F st" and js: "\<forall>i\<in>set js. i < kMaxPages"
  shows "check_lists js st = Inr True"
  using js
proof (induction js)
  case (Cons i js)
  have "CheckList (NormalHd i) i i ON_NORMAL_FREELIST st = Inr True" "CheckList (ReturnedHd i) i i ON_RETURNED_FREELIST st = Inr True"
    using Cons.prems by (auto intro!: CheckList_ok [OF inv] head_location simp: heads_def dest: head_length(1) [OF disjI1] head_length(1) [OF disjI2])
  then show ?case using Cons by simp
qed simp

lemma CheckExpensive_ok:
  assumes inv: "hinv os owned H F st" and small: "system_bytes st \<le> 1000000000 * 2 ^ kPageShift"
  shows "CheckExpensive st = Inr True"
proof -
  note d = hinvD [OF inv]
  have "2 ^ kPageShift * npages (\<lambda>_. True) (sdata (spans st)) \<le> system_bytes st" using d(1) by (simp add: hgen0_def)
  then have n: "npages (\<lambda>_. True) (sdata (spans st)) \<le> 1000000000" using small by (simp add: kPageShift_def)
  have len: "span_length s \<le> 1000000000" if "sdata (spans st) a = Some s" for a s
    using span_le_npages [OF spans_finite [OF d(7)] that, of "\<lambda>_. True"] n by simp
  have "CheckList (NormalHd kMaxPages) kMaxPages 1000000000 ON_NORMAL_FREELIST st = Inr True"
      "CheckList (ReturnedHd kMaxPages) kMaxPages 1000000000 ON_RETURNED_FREELIST st = Inr True"
    using len by (auto intro!: CheckList_ok [OF inv] head_location simp: heads_def dest: head_length(2) [OF disjI1] head_length(2) [OF disjI2])
  then show ?thesis using check_lists_ok [OF inv, of "[1..<kMaxPages]"] by (simp add: CheckExpensive_def)
qed

section \<open>Accounting\<close>

lemma npages_parts:
  assumes "finite (dom D)"
  shows "npages (\<lambda>s. location s = IN_USE) D + npages (\<lambda>s. location s = ON_NORMAL_FREELIST) D +
    npages (\<lambda>s. location s = ON_RETURNED_FREELIST) D = npages (\<lambda>_. True) D"
proof -
  let ?A = "\<lambda>l. {a \<in> dom D. location (the (D a)) = l}"
  have un: "{a \<in> dom D. True} = ?A IN_USE \<union> ?A ON_NORMAL_FREELIST \<union> ?A ON_RETURNED_FREELIST"
    using span_location.exhaust by blast
  have fin: "finite (?A l)" for l using assms by simp
  show ?thesis
    unfolding npages_def un
    by (subst sum.union_disjoint; (use fin in auto)?) (subst sum.union_disjoint; (use fin in auto)?)
qed

lemma in_use_pages:
  "(\<Sum>a\<in>dom (in_use (sdata ss)). span_length (the (ss (Obj a)))) = npages (\<lambda>s. location s = IN_USE) (sdata ss)"
  unfolding npages_def
proof (rule sum.cong)
  show "dom (in_use (sdata ss)) = {a \<in> dom (sdata ss). location (the (sdata ss a)) = IN_USE}"
    by (auto simp: in_use_def split: option.splits if_splits)
qed (auto simp: in_use_def sdata_def split: option.splits if_splits)

section \<open>Ranges\<close>

lemma first_entry_least:
  assumes "first_entry g bnd k = a" "a \<noteq> 0"
  shows "\<exists>j. k \<le> j \<and> j < bnd \<and> g j = a \<and> (\<forall>i. k \<le> i \<and> i < j \<longrightarrow> g i = 0)"
proof -
  obtain j js where j: "filter (\<lambda>j. g j \<noteq> 0) [k..<bnd] = j # js" "a = g j"
    using assms by (auto simp: first_entry_def split: list.splits)
  from j(1) have "j \<in> set (filter (\<lambda>j. g j \<noteq> 0) [k..<bnd])" by simp
  then have jb: "k \<le> j" "j < bnd" by auto
  have so: "sorted (filter (\<lambda>j. g j \<noteq> 0) [k..<bnd])" by (intro sorted_wrt_filter sorted_upt)
  have "g i = 0" if "k \<le> i" "i < j" for i
  proof (rule ccontr)
    assume "g i \<noteq> 0"
    then have "i \<in> set (j # js)" using that jb j(1) [symmetric] by simp
    then show False using that so unfolding j(1) by auto
  qed
  then show ?thesis using jb j(2) by blast
qed

lemma first_entry_none: "first_entry g bnd k = 0 \<Longrightarrow> k \<le> j \<Longrightarrow> j < bnd \<Longrightarrow> g j = 0"
proof (rule ccontr)
  assume a: "first_entry g bnd k = 0" "k \<le> j" "j < bnd" "g j \<noteq> 0"
  then have "j \<in> set (filter (\<lambda>j. g j \<noteq> 0) [k..<bnd])" by simp
  then obtain i js where f: "filter (\<lambda>j. g j \<noteq> 0) [k..<bnd] = i # js" by (cases "filter (\<lambda>j. g j \<noteq> 0) [k..<bnd]") (auto simp: filter_empty_conv)
  then have "i \<in> set (filter (\<lambda>j. g j \<noteq> 0) [k..<bnd])" by simp
  then have "g i \<noteq> 0" by auto
  then show False using a(1) f by (simp add: first_entry_def)
qed

text \<open>
  The span that \<open>pagemap_.Next(p)\<close> finds when \<open>p\<close> is not inside a span.  Inside a span the page map may still
  have entries of spans that were coalesced and whose descriptors are gone.
\<close>

definition at_boundary :: "nat \<Rightarrow> ('o, 'z) heap_scheme \<Rightarrow> bool" where
  "at_boundary p st \<longleftrightarrow> (\<forall>a s. sdata (spans st) a = Some s \<longrightarrow> p \<le> start s \<or> start s + span_length s \<le> p)"

lemma Next_span:
  assumes inv: "hinv os owned H F st" and p: "at_boundary p st"
  shows "\<exists>a. PageMap3_Next kPageMapBits (pagemap st) p = Inr a \<and>
     (if a = 0 then \<forall>b t. sdata (spans st) b = Some t \<longrightarrow> start t < p
      else \<exists>s. sdata (spans st) a = Some s \<and> p \<le> start s \<and>
        (\<forall>b t. sdata (spans st) b = Some t \<and> p \<le> start t \<longrightarrow> start s \<le> start t))"
proof -
  note d = hinvD [OF inv]
  let ?v = "view3 kPageMapBits (pagemap st)"
  define a where "a = first_entry ?v (2 ^ kPageMapBits) p"
  have "wf3 (pagemap st)" using d(2) by (simp add: map_ok_def)
  then have run: "PageMap3_Next kPageMapBits (pagemap st) p = Inr a" using pm3.Next_view [of "pagemap st" p] by (simp add: a_def)
  have first: "?v (start t) = b \<and> b \<noteq> 0 \<and> start t < 2 ^ kPageMapBits" if t: "sdata (spans st) b = Some t" for b t
    using map_okD(1) [OF d(2) t] spans_wfD(1,2,4) [OF d(7) t] by simp
  show ?thesis
  proof (cases "a = 0")
    case True
    have "start t < p" if "sdata (spans st) b = Some t" for b t
      using first_entry_none [of ?v "2 ^ kPageMapBits" p "start t"] True first [OF that] unfolding a_def by (meson not_le)
    then show ?thesis using run True by auto
  next
    case False
    then obtain j where j: "p \<le> j" "?v j = a" "\<forall>i. p \<le> i \<and> i < j \<longrightarrow> ?v i = 0" using first_entry_least [OF a_def [symmetric]] by blast
    obtain c s where s: "sdata (spans st) c = Some s" "j \<in> pages_of s" using map_ok_covers [OF d(2), of j] j(2) False by blast
    have ps: "p \<le> start s" using p s j(1) by (fastforce simp: at_boundary_def pages_of_def)
    have "j = start s" using j(3) first [OF s(1)] s(2) ps by (metis atLeastLessThan_iff le_neq_implies_less pages_of_def)
    then have "sdata (spans st) a = Some s" using first [OF s(1)] s(1) j(2) by simp
    moreover have "start s \<le> start t" if "sdata (spans st) b = Some t" "p \<le> start t" for b t
      using j(3) first [OF that(1)] that(2) \<open>j = start s\<close> by (meson not_le)
    ultimately show ?thesis using run False ps by auto
  qed
qed

section \<open>An empty heap\<close>

definition empty_lists :: store where
  "empty_lists p = (case p of NormalHd i \<Rightarrow> if i \<le> kMaxPages then Some ((new_span 0 0)\<lparr>nxt := p, prv := p\<rparr>) else None
     | ReturnedHd i \<Rightarrow> if i \<le> kMaxPages then Some ((new_span 0 0)\<lparr>nxt := p, prv := p\<rparr>) else None
     | _ \<Rightarrow> None)"

definition brk_heap :: "nat heap" where
  "brk_heap = meta_state.extend brk_meta
     \<lparr> span_allocator = \<lparr> free_area = 0, free_avail = 0, free_list = 0, inuse = 0 \<rparr>, span_links = (\<lambda>_. 0), spans = empty_lists,
       pagemap = \<lparr> root3 = Some (\<lambda>_. None) \<rparr>, pagemap_cache = \<lparr> entries = (\<lambda>_. 0) \<rparr>,
       system_bytes = 0, free_bytes = 0, unmapped_bytes = 0, committed_bytes = 0, scavenge_counter = 0, release_index = kMaxPages,
       aggressive_decommit = False, FLAGS_tcmalloc_release_rate = 1, FLAGS_tcmalloc_heap_limit_mb = 0 \<rparr>"

lemma brk_heap_pha:
  "pha_inv brk_os brk_owned sizeof_Span {} (span_allocator brk_heap, span_links brk_heap, brk_heap)"
proof -
  have "meta_inv brk_os brk_owned {} brk_heap"
    using brk_meta_inv by (simp add: meta_inv_def brk_heap_def meta_state.defs chunk_def sys_inv_def)
  then show ?thesis
    by (auto simp: pha_inv_def pha_objects_def area_def sizeof_Span_def kAllocIncrement_def brk_heap_def meta_state.defs disjoint_family_on_def
      intro!: exI [of _ "{}"])
qed

lemma brk_limits: "os_limit brk_owned" "madvise_answers brk_os"
  by (auto simp: os_limit_def brk_owned_def madvise_answers_def brk_os_def)

lemma brk_heap_inv: "hinv brk_os brk_owned heads (\<lambda>_. []) brk_heap"
proof (rule empty_heap [OF brk_limits brk_heap_pha])
  show "lists_ok (spans brk_heap) heads (\<lambda>_. [])"
    by (auto simp: lists_ok_def heads_def brk_heap_def meta_state.defs empty_lists_def dlist_def lnext_def lprev_def)
qed (auto simp: brk_heap_def meta_state.defs heads_def empty_lists_def)

lemma brk_heap_state: "heap_state brk_os brk_owned {} brk_heap"
proof -
  have "sdata (spans brk_heap) = Map.empty" by (simp add: sdata_def brk_heap_def meta_state.defs empty_lists_def fun_eq_iff)
  then have "in_use (sdata (spans brk_heap)) = Map.empty" by (simp add: in_use_def fun_eq_iff)
  then show ?thesis using brk_heap_inv unfolding heap_state_def by auto
qed

text \<open>A heap with one span in use, the pages 1 to 10.\<close>

definition one_span :: Span where "one_span = new_span 1 10"

definition one_map :: PageMap3 where
  "one_map = \<lparr> root3 = Some (\<lambda>i. if i = 0 then Some (\<lambda>j. if j = 0 then Some (\<lambda>k. if k = 1 \<or> k = 10 then 500000 else 0) else None) else None) \<rparr>"

definition one_heap :: "nat heap" where
  "one_heap = brk_heap\<lparr>os_st := 2 ^ 20, spans := empty_lists(Obj 500000 \<mapsto> one_span), pagemap := one_map,
     system_bytes := 10 * 2 ^ kPageShift, committed_bytes := 10 * 2 ^ kPageShift\<rparr>"

lemma one_heap_sdata: "sdata (spans one_heap) = [500000 \<mapsto> one_span]"
  by (simp add: sdata_def one_heap_def empty_lists_def fun_eq_iff one_span_def)

lemma one_heap_span: "sdata (spans one_heap) 500000 = Some one_span" "location one_span = IN_USE"
  by (simp_all add: one_heap_sdata one_span_def)

lemma leaf_view:
  assumes "root3 pm = Some (\<lambda>i. if i = 0 then Some (\<lambda>j. if j = 0 then Some g else None) else None)"
  shows "view3 kPageMapBits pm k = (if k < 2 ^ LEAF_BITS3 kPageMapBits then g k else 0)"
proof (cases "k < 2 ^ LEAF_BITS3 kPageMapBits")
  case True
  then have "key1 kPageMapBits k = 0" "key2 kPageMapBits k = 0" "key3 kPageMapBits k = k" "k < 2 ^ kPageMapBits"
    by (simp_all add: key1_def key2_def key3_def kPageMapBits_def LEAF_BITS3_def INTERIOR_BITS_def)
  then show ?thesis using True by (simp add: view3_def assms)
next
  case False
  have "key1 kPageMapBits k \<noteq> 0 \<or> key2 kPageMapBits k \<noteq> 0"
  proof (rule ccontr)
    assume "\<not> ?thesis"
    then have "k < 2 ^ (LEAF_BITS3 kPageMapBits + INTERIOR_BITS kPageMapBits)" "(k div 2 ^ LEAF_BITS3 kPageMapBits) mod 2 ^ INTERIOR_BITS kPageMapBits = 0"
      by (auto simp: key1_def key2_def div_eq_0_iff)
    moreover have "k div 2 ^ LEAF_BITS3 kPageMapBits < 2 ^ INTERIOR_BITS kPageMapBits"
      using calculation(1) by (simp add: less_mult_imp_div_less power_add mult.commute)
    ultimately show False using False by (simp add: div_eq_0_iff)
  qed
  then show ?thesis using False by (auto simp: view3_def assms)
qed

lemma one_map_view: "view3 kPageMapBits one_map k = (if k = 1 \<or> k = 10 then 500000 else 0)"
  by (subst leaf_view [of _ "\<lambda>k. if k = 1 \<or> k = 10 then 500000 else 0"])
    (auto simp: one_map_def LEAF_BITS3_def INTERIOR_BITS_def kPageMapBits_def)

lemma one_heap_mem: "mem_ok brk_os brk_owned [500000 \<mapsto> one_span] one_heap"
proof -
  have mi: "meta_inv brk_os brk_owned {500000..<500048} one_heap"
    using brk_os_ok by (auto simp: meta_inv_def one_heap_def brk_heap_def brk_meta_def brk_state_def sys_state.defs meta_state.defs sys_inv_def chunk_def brk_owned_def)
  have "pha_objects sizeof_Span {500000} [] (span_allocator one_heap) {500000..<500048}"
    by (auto simp: pha_objects_def block_def area_def sizeof_Span_def one_heap_def brk_heap_def meta_state.defs disjoint_family_on_def)
  then have "pha_inv brk_os brk_owned sizeof_Span {500000} (span_allocator one_heap, span_links one_heap, one_heap)"
    unfolding pha_inv_def prod.case using mi
    by (intro conjI exI [of _ "[]"] exI [of _ "{500000..<500048}"]) (simp_all add: sizeof_Span_def kAllocIncrement_def one_heap_def brk_heap_def meta_state.defs)
  moreover have "span_bytes_of one_span \<subseteq> brk_owned (os_st one_heap)"
    by (auto simp: span_bytes_of_def one_span_def brk_owned_def one_heap_def kPageShift_def)
  ultimately show ?thesis
    using brk_limits by (simp add: mem_ok_def) (simp add: one_heap_def brk_owned_def kPageShift_def)
qed

lemma one_heap_inv: "hinv brk_os brk_owned heads (\<lambda>_. []) one_heap"
proof -
  let ?D = "[500000 \<mapsto> one_span]"
  have wf: "spans_wf ?D" by (auto simp: spans_wf_def one_span_def kPageMapBits_def)
  have ens: "ensured3 kPageMapBits one_map k" if "k \<in> pages_of one_span" for k
    using that by (auto simp: ensured3_def pages_of_def one_span_def one_map_def key1_def key2_def kPageMapBits_def LEAF_BITS3_def INTERIOR_BITS_def)
  have map: "map_ok ?D one_map"
    using ens by (auto simp: map_ok_def one_map_view wf3_def one_map_def [THEN arg_cong [of _ _ root3]] pages_of_def one_span_def split: if_splits)
  have lists: "lists_ok (spans one_heap) heads (\<lambda>_. [])"
    by (auto simp: lists_ok_def heads_def one_heap_def empty_lists_def dlist_def lnext_def lprev_def)
  have n: "npages P ?D = (if P one_span then 10 else 0)" for P
    using npages_insert [of "Map.empty" 500000 P one_span] by (simp add: npages_def one_span_def)
  have "hgen0 brk_os brk_owned heads (\<lambda>_. []) ?D one_heap"
    using one_heap_mem wf lists unfolding hgen0_def n
    by (simp add: lists_exact_def coalesced_def one_span_def free_span_def) (auto simp: heads_def one_heap_def brk_heap_def meta_state.defs)
  then show ?thesis
    using map by (simp add: hinv_def hcore_def hgen_def one_heap_sdata) (simp add: one_heap_def brk_heap_def meta_state.defs)
qed

section \<open>Properties\<close>

text \<open>
  C12: whatever sequence of calls the clients of the page heap make (allocating, deleting, splitting,
  registering a size class, releasing memory), every span a client owns exists, is marked in use, lies in
  memory obtained from the system and is found by \<open>GetDescriptor\<close> from its first and its last page, and
  the pages of different spans do not overlap.
\<close>

theorem PageHeap_spans_safe:
  assumes "heap_calls os st0 L st" "heap_state os owned {} st0"
  shows "(\<forall>a\<in>L. \<exists>s. get_span (Obj a) st = Inr s \<and> location s = IN_USE \<and> 0 < span_length s \<and> span_bytes_of s \<subseteq> owned (os_st st) \<and>
            GetDescriptor (start s) st = Inr (Obj a) \<and> GetDescriptor (start s + span_length s - 1) st = Inr (Obj a)) \<and>
    (\<forall>a b s t. a \<in> L \<and> b \<in> L \<and> a \<noteq> b \<and> get_span (Obj a) st = Inr s \<and> get_span (Obj b) st = Inr t \<longrightarrow> pages_of s \<inter> pages_of t = {})"
proof -
  obtain F where F: "hinv os owned heads F st" "L = dom (in_use (sdata (spans st)))"
    using heap_calls_state [OF assms] by (auto simp: heap_state_def)
  note d = hinvD [OF F(1)]
  have wf: "wf3 (pagemap st)" using d(2) by (simp add: map_ok_def)
  have own: "span_bytes_of s \<subseteq> owned (os_st st)" if "sdata (spans st) a = Some s" for a s
    using d(1) that by (simp add: hgen0_def mem_ok_def)
  have one: "\<exists>u. get_span (Obj a) st = Inr u \<and> location u = IN_USE \<and> 0 < span_length u \<and> span_bytes_of u \<subseteq> owned (os_st st) \<and>
      GetDescriptor (start u) st = Inr (Obj a) \<and> GetDescriptor (start u + span_length u - 1) st = Inr (Obj a)" if "a \<in> L" for a
  proof -
    obtain s where s: "sdata (spans st) a = Some s" "location s = IN_USE" using \<open>a \<in> L\<close> F(2) in_use_iff by blast
    obtain u where u: "get_span (Obj a) st = Inr u" "unlink u = s" using sdata_Some [OF s(1)] by (auto simp: get_span_def)
    have "span_bytes_of u = span_bytes_of s" using unlinkD [OF u(2)] by (simp add: span_bytes_of_def)
    then show ?thesis
      using u(1) unlinkD [OF u(2)] s own map_okD(1,2) [OF d(2) s(1)] spans_wfD(2) [OF d(7) s(1)] by (simp add: GetDescriptor_eff [OF wf])
  qed
  moreover have "pages_of s \<inter> pages_of t = {}" if "a \<noteq> b" "get_span (Obj a) st = Inr s" "get_span (Obj b) st = Inr t" for a b s t
  proof -
    have "sdata (spans st) a = Some (unlink s)" "sdata (spans st) b = Some (unlink t)"
      using that by (auto simp: sdata_def get_span_def deref_def split: option.splits)
    then have "pages_of (unlink s) \<inter> pages_of (unlink t) = {}" using spans_disjoint [OF d(7)] that(1) by blast
    then show ?thesis by (simp add: pages_of_def)
  qed
  ultimately show ?thesis by blast
qed

theorem PageHeap_spans_safe_witness:
  "safe (\<lambda>(res, st'). \<forall>a. res = Some (Obj a) \<longrightarrow> (\<exists>s. get_span (Obj a) st' = Inr s \<and> GetDescriptor (start s) st' = Inr (Obj a)))
     (New brk_os 5 brk_heap)"
proof (cases "New brk_os 5 brk_heap")
  case (Inl f)
  then show ?thesis using New_eff [OF brk_heap_inv, of 5] by simp
next
  case (Inr r)
  obtain res st' where r: "r = (res, st')" by (cases r)
  have "\<exists>s. get_span (Obj a) st' = Inr s \<and> GetDescriptor (start s) st' = Inr (Obj a)" if a: "res = Some (Obj a)" for a
  proof -
    have "heap_calls brk_os brk_heap {a} st'"
      using heap_calls.new_some [OF heap_calls.init, of 5 brk_os brk_heap a st'] Inr r a by simp
    from PageHeap_spans_safe [OF this brk_heap_state] show ?thesis by blast
  qed
  then show ?thesis using Inr r by simp
qed



text \<open>
  C14: \<open>New(n)\<close> refines the abstract operation on the map of the spans in use: it returns NULL and that
  map is unchanged, or it adds exactly one span, of exactly \<open>n\<close> pages, none of which belonged to
  a span in use, all in memory obtained from the system.  The lists of other components and the
  size-class cache are untouched.  It never touches memory that is not its own and always ends; it
  may only give up when there is no memory for its metadata.
\<close>

theorem PageHeap_New_refines:
  assumes "hinv os owned H F st" "0 < n"
  shows "safe (\<lambda>(res, st'). (\<exists>F'. hinv os owned H F' st' \<and> (\<forall>h. h \<notin> heads \<longrightarrow> F' h = F h)) \<and> pagemap_cache st' = pagemap_cache st \<and>
      (case res of None \<Rightarrow> in_use (sdata (spans st')) = in_use (sdata (spans st))
       | Some sp \<Rightarrow> \<exists>a s. sp = Obj a \<and> in_use (sdata (spans st)) a = None \<and> span_length s = n \<and>
           in_use (sdata (spans st')) = (in_use (sdata (spans st)))(a \<mapsto> s) \<and> span_bytes_of s \<subseteq> owned (os_st st') \<and>
           (\<forall>b t. in_use (sdata (spans st)) b = Some t \<longrightarrow> pages_of s \<inter> pages_of t = {})))
    (New os n st)"
proof (rule safe_mono [OF New_eff [OF assms]])
  fix r assume r: "alloc_spec os owned H F n st r"
  obtain res st' where r1: "r = (res, st')" by (cases r)
  obtain F' where F': "hinv os owned H F' st'" "hframe owned F F' st st'" using r unfolding alloc_spec_def r1 prod.case by blast
  note d = hinvD [OF F'(1)]
  have sub: "sdata (spans st') b = Some t" if "in_use (sdata (spans st')) b = Some t" for b t
    using that by (auto simp: in_use_def split: option.splits if_splits)
  have "\<exists>a s. sp = Obj a \<and> in_use (sdata (spans st)) a = None \<and> span_length s = n \<and>
           in_use (sdata (spans st')) = (in_use (sdata (spans st)))(a \<mapsto> s) \<and> span_bytes_of s \<subseteq> owned (os_st st') \<and>
           (\<forall>b t. in_use (sdata (spans st)) b = Some t \<longrightarrow> pages_of s \<inter> pages_of t = {})" if sp: "res = Some sp" for sp
  proof -
    obtain a s where a: "sp = Obj a" "in_use (sdata (spans st)) a = None" "span_length s = n"
        "in_use (sdata (spans st')) = (in_use (sdata (spans st)))(a \<mapsto> s)"
      using r unfolding alloc_spec_def r1 prod.case sp option.case by blast
    have s: "sdata (spans st') a = Some s" by (rule sub) (simp add: a(4))
    have "span_bytes_of s \<subseteq> owned (os_st st')" using d(1) s by (simp add: hgen0_def mem_ok_def)
    moreover have "pages_of s \<inter> pages_of t = {}" if b: "in_use (sdata (spans st)) b = Some t" for b t
    proof -
      have ne: "b \<noteq> a" using b a(2) by auto
      then have "sdata (spans st') b = Some t" using b by (intro sub) (simp add: a(4))
      then show ?thesis using spans_disjoint [OF d(7) s] ne by blast
    qed
    ultimately show ?thesis using a by blast
  qed
  moreover have "in_use (sdata (spans st')) = in_use (sdata (spans st))" if "res = None"
    using r unfolding alloc_spec_def r1 prod.case that option.case by blast
  ultimately show "case r of (res, st') \<Rightarrow> (\<exists>F'. hinv os owned H F' st' \<and> (\<forall>h. h \<notin> heads \<longrightarrow> F' h = F h)) \<and> pagemap_cache st' = pagemap_cache st \<and>
      (case res of None \<Rightarrow> in_use (sdata (spans st')) = in_use (sdata (spans st))
       | Some sp \<Rightarrow> \<exists>a s. sp = Obj a \<and> in_use (sdata (spans st)) a = None \<and> span_length s = n \<and>
           in_use (sdata (spans st')) = (in_use (sdata (spans st)))(a \<mapsto> s) \<and> span_bytes_of s \<subseteq> owned (os_st st') \<and>
           (\<forall>b t. in_use (sdata (spans st)) b = Some t \<longrightarrow> pages_of s \<inter> pages_of t = {}))"
    using F' unfolding r1 prod.case hframe_def by (cases res) (simp_all only: option.case, blast+)
qed

theorem PageHeap_New_refines_witness:
  "safe (\<lambda>(res, st'). res \<noteq> None \<longrightarrow> (\<exists>a s. in_use (sdata (spans st')) a = Some s \<and> span_length s = 7)) (New brk_os 7 brk_heap)"
proof (rule safe_mono [OF PageHeap_New_refines [OF brk_heap_inv, of 7]], simp, clarify)
  fix st' sp
  assume "case Some sp of None \<Rightarrow> in_use (sdata (spans st')) = in_use (sdata (spans brk_heap))
       | Some sp \<Rightarrow> \<exists>a s. sp = Obj a \<and> in_use (sdata (spans brk_heap)) a = None \<and> span_length s = 7 \<and>
           in_use (sdata (spans st')) = (in_use (sdata (spans brk_heap)))(a \<mapsto> s) \<and> span_bytes_of s \<subseteq> brk_owned (os_st st') \<and>
           (\<forall>b t. in_use (sdata (spans brk_heap)) b = Some t \<longrightarrow> pages_of s \<inter> pages_of t = {})"
  then obtain a s where a: "span_length s = 7" "in_use (sdata (spans st')) = (in_use (sdata (spans brk_heap)))(a \<mapsto> s)" by auto
  then show "\<exists>a s. in_use (sdata (spans st')) a = Some s \<and> span_length s = 7" by (intro exI [of _ a] exI [of _ s]) simp
qed

text \<open>
  C15: \<open>Delete\<close> of a span in use always ends without a fault and removes exactly this span from the map of
  the spans in use; its bytes are free or unmapped afterwards, and no two adjacent free spans of the
  same kind remain.
\<close>

theorem PageHeap_Delete_refines:
  assumes "hinv os owned H F st" "sdata (spans st) a = Some s" "location s = IN_USE" "on_no_list H F a"
  shows "returns (\<lambda>st'. (\<exists>F'. hinv os owned H F' st' \<and> (\<forall>h. h \<notin> heads \<longrightarrow> F' h = F h)) \<and>
      in_use (sdata (spans st')) = (in_use (sdata (spans st)))(a := None) \<and>
      free_bytes st' + unmapped_bytes st' = free_bytes st + unmapped_bytes st + 2 ^ kPageShift * span_length s \<and>
      system_bytes st' = system_bytes st \<and> coalesced (sdata (spans st')))
    (Delete os (Obj a) st)"
proof -
  obtain st' F' where d: "Delete os (Obj a) st = Inr st'" "hinv os owned H F' st'" "\<forall>h. h \<notin> heads \<longrightarrow> F' h = F h" "hfix st' = hfix st"
      "in_use (sdata (spans st')) = (in_use (sdata (spans st)))(a := None)"
      "free_bytes st' + unmapped_bytes st' = free_bytes st + unmapped_bytes st + 2 ^ kPageShift * span_length s"
    using Delete_eff [OF assms] by blast
  have "coalesced (sdata (spans st'))" using hinvD(1) [OF d(2)] by (simp add: hgen0_def)
  then show ?thesis using d by (auto simp: hfix_def)
qed

theorem PageHeap_Delete_refines_witness:
  "returns (\<lambda>st'. in_use (sdata (spans st')) 500000 = None \<and> free_bytes st' + unmapped_bytes st' = 81920) (Delete brk_os (Obj 500000) one_heap)"
  by (rule returns_mono [OF PageHeap_Delete_refines [OF one_heap_inv one_heap_span]])
    (auto simp: one_span_def one_heap_def brk_heap_def meta_state.defs kPageShift_def on_no_list_def)

text \<open>
  C16: \<open>Split(n)\<close> of a span in use without a size class replaces it by two spans in use: the given one
  with its first \<open>n\<close> pages and a new one with the rest.
\<close>

theorem PageHeap_Split_refines:
  assumes "hinv os owned H F st" "sdata (spans st) a = Some s" "location s = IN_USE" "sizeclass s = 0" "0 < n" "n < span_length s"
  shows "safe (\<lambda>(sp, st'). hinv os owned H F st' \<and> (\<exists>c. sp = Obj c \<and> c \<noteq> 0 \<and> in_use (sdata (spans st)) c = None \<and>
      in_use (sdata (spans st')) = (in_use (sdata (spans st)))
        (a \<mapsto> s\<lparr>span_length := n\<rparr>, c \<mapsto> new_span (start s + n) (span_length s - n))))
    (Split os (Obj a) n st)"
  by (rule safe_mono [OF Split_eff [OF assms]])
    (auto simp: split_spec_def assms(3) in_use_def [of _ "_ :: addr"] split: prod.splits option.splits)

theorem PageHeap_Split_refines_witness:
  "safe (\<lambda>(sp, st'). \<exists>c. sp = Obj c \<and> in_use (sdata (spans st')) c = Some (new_span 4 7)) (Split brk_os (Obj 500000) 3 one_heap)"
  by (rule safe_mono [OF PageHeap_Split_refines [OF one_heap_inv one_heap_span]]) (auto simp: one_span_def)

text \<open>
  C17: \<open>ReleaseAtLeastNPages\<close> ends although its outer loop has no counter: it returns the number of pages
  it moved from the normal to the returned lists, keeps the spans in use, and when the
  system takes memory back it releases at least the pages asked for or everything that is free.
\<close>

theorem ReleaseAtLeastNPages_ends:
  assumes "hinv os owned H F st"
  shows "returns (\<lambda>(released, st'). (\<exists>F'. hinv os owned H F' st') \<and> in_use (sdata (spans st')) = in_use (sdata (spans st)) \<and>
      free_bytes st' + 2 ^ kPageShift * released = free_bytes st \<and> unmapped_bytes st' = unmapped_bytes st + 2 ^ kPageShift * released \<and>
      (release_works os st \<longrightarrow> num_pages \<le> released \<or> free_bytes st' = 0))
    (ReleaseAtLeastNPages os num_pages st)"
proof -
  obtain n st' F' where r: "ReleaseAtLeastNPages os num_pages st = Inr (n, st')" "released os owned H F F' st n st'"
      "release_works os st \<longrightarrow> num_pages \<le> n \<or> free_bytes st' = 0"
    using ReleaseAtLeastNPages_eff [OF assms, of num_pages] by blast
  then show ?thesis by (auto simp: released_def)
qed

theorem ReleaseAtLeastNPages_ends_witness:
  "returns (\<lambda>(released, st'). free_bytes st' + 8192 * released = 0) (ReleaseAtLeastNPages brk_os 3 one_heap)"
  by (rule returns_mono [OF ReleaseAtLeastNPages_ends [OF one_heap_inv]])
    (auto simp: kPageShift_def one_heap_def brk_heap_def meta_state.defs)

text \<open>
  Started at a page that is not inside a span, \<open>GetNextRange\<close> returns the range of the lowest span that
  begins at or after that page, with its address, its length in bytes and its state, and returns false
  only when there is no such span; so iterating from the end of each range enumerates all spans in
  address order.
\<close>

lemma GetNextRange_lowest:
  assumes "hinv os owned H F st" "at_boundary p st"
    "\<forall>a s. sdata (spans st) a = Some s \<longrightarrow> sizeclass s < length (class_to_size_arr sm)"
  shows "returns (\<lambda>r. case r of
        None \<Rightarrow> \<forall>a s. sdata (spans st) a = Some s \<longrightarrow> start s < p
      | Some rg \<Rightarrow> \<exists>a s. sdata (spans st) a = Some s \<and> p \<le> start s \<and>
          (\<forall>b t. sdata (spans st) b = Some t \<and> p \<le> start t \<longrightarrow> start s \<le> start t) \<and>
          address rg = 2 ^ kPageShift * start s \<and> range_length rg = 2 ^ kPageShift * span_length s \<and>
          (range_type rg = INUSE \<longleftrightarrow> location s = IN_USE) \<and> (range_type rg = UNMAPPED \<longleftrightarrow> location s = ON_RETURNED_FREELIST))
    (GetNextRange sm p st)"
proof -
  note d = hinvD [OF assms(1)]
  obtain a where a: "PageMap3_Next kPageMapBits (pagemap st) p = Inr a"
     "if a = 0 then \<forall>b t. sdata (spans st) b = Some t \<longrightarrow> start t < p
      else \<exists>s. sdata (spans st) a = Some s \<and> p \<le> start s \<and>
        (\<forall>b t. sdata (spans st) b = Some t \<and> p \<le> start t \<longrightarrow> start s \<le> start t)"
    using Next_span [OF assms(1,2)] by blast
  show ?thesis
  proof (cases "a = 0")
    case True
    then show ?thesis using a by (simp add: GetNextRange_def)
  next
    case False
    then obtain s where s: "sdata (spans st) a = Some s" "p \<le> start s"
        "\<forall>b t. sdata (spans st) b = Some t \<and> p \<le> start t \<longrightarrow> start s \<le> start t" using a(2) by auto
    obtain u where u: "get_span (Obj a) st = Inr u" "unlink u = s" using sdata_Some [OF s(1)] by (auto simp: get_span_def)
    have eq: "start u = start s" "span_length u = span_length s" "location u = location s" "sizeclass u = sizeclass s"
      using unlinkD [OF u(2)] by simp_all
    have pb: "page_bytes (start s) = 2 ^ kPageShift * start s" "page_bytes (span_length s) = 2 ^ kPageShift * span_length s"
      using spans_wfD(4) [OF d(7) s(1)] by (auto intro!: page_bytes_id simp: kPageMapBits_def)
    have cl: "class_to_size sm (int (sizeclass s)) = Inr (class_to_size_arr sm ! sizeclass s)" using assms(3) s(1) by (simp add: class_to_size_def)
    show ?thesis
      using False a(1) u(1) eq pb cl s by (cases "location s") (auto simp: GetNextRange_def Let_def intro!: exI [of _ a] exI [of _ s])
  qed
qed

lemma GetNextRange_lowest_example:
  "returns (\<lambda>r. r = None \<or> address (the r) = 8192) (GetNextRange SizeMap_zero 0 one_heap)"
proof -
  have "at_boundary 0 one_heap" by (simp add: at_boundary_def)
  moreover have "\<forall>a s. sdata (spans one_heap) a = Some s \<longrightarrow> sizeclass s < length (class_to_size_arr SizeMap_zero)"
    by (auto simp: one_heap_sdata one_span_def SizeMap_zero_def kNumClasses_def split: if_splits)
  ultimately show ?thesis
    by (intro returns_mono [OF GetNextRange_lowest [OF one_heap_inv]])
      (auto simp: one_heap_sdata one_span_def kPageShift_def split: option.splits if_splits)
qed



end
