(* ===== verification/Central_Freelist.thy ===== *)
theory Central_Freelist
  imports Page_Heap_Correct Size_Map
begin

text \<open>
  The central free lists (\<open>central_freelist.h\<close>, \<open>central_freelist.cc\<close>) and the static variables
  (\<open>static_vars.cc\<close>).  A central free list cuts spans into objects of its size class; free objects are
  chained through their own first word, and chains of \<open>num_objects_to_move\<close> objects are kept in the
  slots of the transfer cache.

  The record \<open>central\<close> extends the heap by the size map, the array of central free lists, the words
  through which free objects are linked (\<open>objs\<close>), the static counter of \<open>EvictRandomSizeClass\<close>, the
  counter of \<open>globals.h\<close> and the pointer \<open>Static::pageheap_\<close>.  The lists \<open>empty_\<close> and \<open>nonempty_\<close> of list number \<open>cl\<close> are the sentinels
  \<open>EmptyHd cl\<close> and \<open>NonemptyHd cl\<close> of the store of spans.  Each operation runs under the locks of the code; where
  the code drops a lock and takes it again the model goes on with the same state.
\<close>

section \<open>State\<close>

record CentralFreeList =
  size_class :: nat
  num_spans :: nat
  counter :: nat
  tc_slots :: "(addr \<times> addr) list"
  used_slots :: int
  cache_size :: int
  max_cache_size :: int

definition kMaxNumTransferEntries :: int where "kMaxNumTransferEntries = 64"

record 'o central = "'o heap" +
  sizemap :: SizeMap
  central_cache :: "CentralFreeList list"
  objs :: mem
  race_counter :: int
  comm_times :: nat
  pageheap :: addr

definition atmc_fetch_and_add :: "nat \<Rightarrow> int \<Rightarrow> int \<times> nat" where
  "atmc_fetch_and_add old val = (to_int32 val + int old, nat ((int old + val) mod 2 ^ 64))"

text \<open>\<open>Static::central_cache()[i]\<close>, and an update of its members.\<close>

definition get_cfl :: "nat \<Rightarrow> ('o, 'z) central_scheme \<Rightarrow> CentralFreeList res" where
  "get_cfl cl st = rd (central_cache st) (int cl)"

definition upd_cfl :: "nat \<Rightarrow> (CentralFreeList \<Rightarrow> CentralFreeList) \<Rightarrow> ('o, 'z) central_scheme \<Rightarrow> ('o, 'z) central_scheme res" where
  "upd_cfl cl f st =
     bind_res (get_cfl cl st) (\<lambda>c.
     bind_res (wr (central_cache st) (int cl) (f c)) (\<lambda>cs.
     Inr (st\<lparr>central_cache := cs\<rparr>)))"

definition on_objs :: "(mem \<Rightarrow> mem res) \<Rightarrow> ('o, 'z) central_scheme \<Rightarrow> ('o, 'z) central_scheme res" where
  "on_objs f st = bind_res (f (objs st)) (\<lambda>m. Inr (st\<lparr>objs := m\<rparr>))"

section \<open>\<open>Init\<close>\<close>

definition CFL_Init :: "nat \<Rightarrow> nat \<Rightarrow> ('o, 'z) central_scheme \<Rightarrow> ('o, 'z) central_scheme res" where
  "CFL_Init this cl st =
     bind_res (upd_cfl this (size_class_update (\<lambda>_. cl)) st) (\<lambda>st.
     bind_res (on_spans (DLL_Init (EmptyHd this)) st) (\<lambda>st.
     bind_res (on_spans (DLL_Init (NonemptyHd this)) st) (\<lambda>st.
     bind_res (upd_cfl this (\<lambda>c. c\<lparr>num_spans := 0, counter := 0, max_cache_size := kMaxNumTransferEntries, cache_size := 16\<rparr>) st) (\<lambda>st.
     bind_res
       (if cl > 0 then
          bind_res (ByteSizeForClass (sizemap st) (int cl)) (\<lambda>bytes.
          bind_res (num_objects_to_move (sizemap st) (int cl)) (\<lambda>objs_to_move.
          if bytes * objs_to_move = 0 then Inl Segv
          else upd_cfl this (\<lambda>c.
                 let m = min (max_cache_size c) (max 1 (c_div (1024 * 1024) (bytes * objs_to_move)))
                 in c\<lparr>max_cache_size := m, cache_size := min (cache_size c) m\<rparr>) st))
        else Inr st) (\<lambda>st.
     upd_cfl this (used_slots_update (\<lambda>_. 0)) st)))))"

section \<open>Objects return to their spans\<close>

definition MapObjectToSpan :: "addr \<Rightarrow> ('o, 'z) central_scheme \<Rightarrow> sptr res" where
  "MapObjectToSpan object st = GetDescriptor (object div 2 ^ kPageShift) st"

text \<open>\<open>(span->length << kPageShift) / ByteSizeForClass(span->sizeclass)\<close>; a division by zero traps.\<close>

definition objects_per_span :: "Span \<Rightarrow> ('o, 'z) central_scheme \<Rightarrow> nat res" where
  "objects_per_span s st =
     bind_res (ByteSizeForClass (sizemap st) (int (sizeclass s))) (\<lambda>sz.
     if sz = 0 then Inl Segv else Inr (page_bytes (span_length s) div nat sz))"

definition ReleaseToSpans :: "'o os \<Rightarrow> nat \<Rightarrow> addr \<Rightarrow> ('o, 'z) central_scheme \<Rightarrow> ('o, 'z) central_scheme res" where
  "ReleaseToSpans os this object st =
     bind_res (MapObjectToSpan object st) (\<lambda>sp.
     bind_res (get_span sp st) (\<lambda>s.
     bind_res
       (if objects s = 0 then
          bind_res (on_spans (DLL_Remove sp) st) (\<lambda>st.
          on_spans (DLL_Prepend (NonemptyHd this) sp) st)
        else Inr st) (\<lambda>st.
     bind_res (upd_cfl this (\<lambda>c. c\<lparr>counter := add64 (counter c) 1\<rparr>) st) (\<lambda>st.
     bind_res (on_spans (upd_span sp (\<lambda>s. s\<lparr>refcount := (refcount s + (2 ^ 16 - 1)) mod 2 ^ 16\<rparr>)) st) (\<lambda>st.
     bind_res (get_span sp st) (\<lambda>s.
     if refcount s = 0 then
       bind_res (objects_per_span s st) (\<lambda>n.
       bind_res (upd_cfl this (\<lambda>c. c\<lparr>counter := sub64 (counter c) n\<rparr>) st) (\<lambda>st.
       bind_res (on_spans (DLL_Remove sp) st) (\<lambda>st.
       bind_res (upd_cfl this (\<lambda>c. c\<lparr>num_spans := sub64 (num_spans c) 1\<rparr>) st) (\<lambda>st.
       Delete os sp st))))
     else
       bind_res (on_objs (\<lambda>m. SLL_SetNext m object (objects s)) st) (\<lambda>st.
       on_spans (upd_span sp (objects_update (\<lambda>_. object))) st)))))))"

text \<open>On a cyclic chain the loop does not end.\<close>

partial_function (option) ReleaseListToSpans_loop ::
  "'o os \<Rightarrow> nat \<Rightarrow> addr \<Rightarrow> ('o, 'z) central_scheme \<Rightarrow> ('o, 'z) central_scheme res option" where
  "ReleaseListToSpans_loop os this first st =
     (if first = 0 then Some (Inr st)
      else
        let nx = objs st first
        in case ReleaseToSpans os this first st of
             Inl f \<Rightarrow> Some (Inl f)
           | Inr st \<Rightarrow> ReleaseListToSpans_loop os this nx st)"

definition ReleaseListToSpans :: "'o os \<Rightarrow> nat \<Rightarrow> addr \<Rightarrow> ('o, 'z) central_scheme \<Rightarrow> ('o, 'z) central_scheme res" where
  "ReleaseListToSpans os this first st =
     (case ReleaseListToSpans_loop os this first st of None \<Rightarrow> Inl Diverge | Some r \<Rightarrow> r)"

section \<open>The transfer cache\<close>

definition ShrinkCache :: "'o os \<Rightarrow> nat \<Rightarrow> nat \<Rightarrow> bool \<Rightarrow> ('o, 'z) central_scheme \<Rightarrow> (bool \<times> ('o, 'z) central_scheme) res" where
  "ShrinkCache os this locked_size_class force st =
     bind_res (get_cfl this st) (\<lambda>c.
     if cache_size c = 0 then Inr (False, st)
     else if \<not> force \<and> used_slots c = cache_size c then Inr (False, st)
     else if used_slots c = cache_size c then
       bind_res (upd_cfl this (\<lambda>c. c\<lparr>cache_size := cache_size c - 1, used_slots := used_slots c - 1\<rparr>) st) (\<lambda>st.
       bind_res (get_cfl this st) (\<lambda>c.
       bind_res (rd (tc_slots c) (used_slots c)) (\<lambda>(head, tail).
       bind_res (ReleaseListToSpans os this head st) (\<lambda>st.
       Inr (True, st)))))
     else
       bind_res (upd_cfl this (\<lambda>c. c\<lparr>cache_size := cache_size c - 1\<rparr>) st) (\<lambda>st.
       Inr (True, st)))"

function reduce_class :: "int \<Rightarrow> int" where
  "reduce_class t = (if t \<ge> kNumClasses then reduce_class (t - kNumClasses) else t)"
  by auto
termination by (relation "measure (\<lambda>t. nat t)") (auto simp: kNumClasses_def)

declare reduce_class.simps [simp del]

definition EvictRandomSizeClass :: "'o os \<Rightarrow> nat \<Rightarrow> bool \<Rightarrow> ('o, 'z) central_scheme \<Rightarrow> (bool \<times> ('o, 'z) central_scheme) res" where
  "EvictRandomSizeClass os locked_size_class force st =
     (let t = race_counter st;
          st = st\<lparr>race_counter := to_int32 (race_counter st + 1)\<rparr>;
          (t, st) = (if t \<ge> kNumClasses then let t = reduce_class t in (t, st\<lparr>race_counter := t\<rparr>) else (t, st))
      in if t = int locked_size_class then Inr (False, st)
         else if t < 0 then Inl Segv
         else ShrinkCache os (nat t) locked_size_class force st)"

definition MakeCacheSpace :: "'o os \<Rightarrow> nat \<Rightarrow> ('o, 'z) central_scheme \<Rightarrow> (bool \<times> ('o, 'z) central_scheme) res" where
  "MakeCacheSpace os this st =
     bind_res (get_cfl this st) (\<lambda>c.
     if used_slots c < cache_size c then Inr (True, st)
     else if cache_size c = max_cache_size c then Inr (False, st)
     else
       bind_res (EvictRandomSizeClass os (size_class c) False st) (\<lambda>(ok, st).
       bind_res (if ok then Inr (True, st) else EvictRandomSizeClass os (size_class c) True st) (\<lambda>(ok, st).
       if ok then
         bind_res (get_cfl this st) (\<lambda>c.
         if cache_size c < max_cache_size c then
           bind_res (upd_cfl this (\<lambda>c. c\<lparr>cache_size := cache_size c + 1\<rparr>) st) (\<lambda>st. Inr (True, st))
         else Inr (False, st))
       else Inr (False, st))))"

definition InsertRange :: "'o os \<Rightarrow> nat \<Rightarrow> addr \<Rightarrow> addr \<Rightarrow> int \<Rightarrow> ('o, 'z) central_scheme \<Rightarrow> ('o, 'z) central_scheme res" where
  "InsertRange os this first fin N st =
     (let st = st\<lparr>comm_times := snd (atmc_fetch_and_add (comm_times st) 1)\<rparr>
      in bind_res (get_cfl this st) (\<lambda>c.
         bind_res (num_objects_to_move (sizemap st) (int (size_class c))) (\<lambda>k.
         bind_res (if N = k then MakeCacheSpace os this st else Inr (False, st)) (\<lambda>(room, st).
         if room then
           bind_res (get_cfl this st) (\<lambda>c.
           bind_res (wr (tc_slots c) (used_slots c) (first, fin)) (\<lambda>slots.
           upd_cfl this (\<lambda>c. c\<lparr>tc_slots := slots, used_slots := used_slots c + 1\<rparr>) st))
         else ReleaseListToSpans os this first st))))"

section \<open>Objects from spans\<close>

text \<open>The \<open>do ... while\<close> loop: the result is \<open>(prev, cur, result)\<close>.\<close>

function fetch_loop :: "mem \<Rightarrow> int \<Rightarrow> addr \<Rightarrow> int \<Rightarrow> (addr \<times> addr \<times> int) res" where
  "fetch_loop m N cur result =
     bind_res (SLL_Next m cur) (\<lambda>nx.
     if result + 1 < N \<and> nx \<noteq> 0 then fetch_loop m N nx (result + 1)
     else Inr (cur, nx, result + 1))"
  by auto
termination by (relation "measure (\<lambda>(m, N, cur, result). nat (N - result))") auto

declare fetch_loop.simps [simp del]

text \<open>The result is \<open>(result, *start, *end)\<close>; when the list is empty the last two are left as they were.\<close>

definition FetchFromOneSpans ::
  "nat \<Rightarrow> int \<Rightarrow> addr \<Rightarrow> addr \<Rightarrow> ('o, 'z) central_scheme \<Rightarrow> (int \<times> addr \<times> addr \<times> ('o, 'z) central_scheme) res" where
  "FetchFromOneSpans this N first0 fin0 st =
     bind_res (DLL_IsEmpty (NonemptyHd this) (spans st)) (\<lambda>empty.
     if empty then Inr (0, first0, fin0, st)
     else
       bind_res (get_span (NonemptyHd this) st) (\<lambda>h.
       let sp = nxt h in
       bind_res (get_span sp st) (\<lambda>s.
       bind_res (fetch_loop (objs st) N (objects s) 0) (\<lambda>(prev, cur, result).
       bind_res
         (if cur = 0 then
            bind_res (on_spans (DLL_Remove sp) st) (\<lambda>st.
            on_spans (DLL_Prepend (EmptyHd this) sp) st)
          else Inr st) (\<lambda>st.
       bind_res (on_spans (upd_span sp (objects_update (\<lambda>_. cur))) st) (\<lambda>st.
       bind_res (on_objs (\<lambda>m. SLL_SetNext m prev 0) st) (\<lambda>st.
       bind_res (on_spans (upd_span sp (\<lambda>s. s\<lparr>refcount := nat ((int (refcount s) + result) mod 2 ^ 16)\<rparr>)) st) (\<lambda>st.
       bind_res (upd_cfl this (\<lambda>c. c\<lparr>counter := nat ((int (counter c) - result) mod 2 ^ 64)\<rparr>) st) (\<lambda>st.
       Inr (result, objects s, prev, st))))))))))"

text \<open>
  The loop of \<open>Populate\<close> that chains the objects; \<open>tail = None\<close> stands for \<open>&span->objects\<close>.  With objects of
  size 0 it would not end.
\<close>

definition set_tail :: "sptr \<Rightarrow> addr option \<Rightarrow> addr \<Rightarrow> ('o, 'z) central_scheme \<Rightarrow> ('o, 'z) central_scheme res" where
  "set_tail sp tail v st =
     (case tail of None \<Rightarrow> on_spans (upd_span sp (objects_update (\<lambda>_. v))) st
      | Some t \<Rightarrow> on_objs (\<lambda>m. SLL_SetNext m t v) st)"

function chain_objects ::
  "sptr \<Rightarrow> addr option \<Rightarrow> addr \<Rightarrow> addr \<Rightarrow> nat \<Rightarrow> int \<Rightarrow> ('o, 'z) central_scheme \<Rightarrow> (addr option \<times> int \<times> ('o, 'z) central_scheme) res" where
  "chain_objects sp tail ptr limit sz num st =
     (if ptr + sz \<le> limit then
        if sz = 0 then Inl Diverge
        else bind_res (set_tail sp tail ptr st) (\<lambda>st. chain_objects sp (Some ptr) (ptr + sz) limit sz (num + 1) st)
      else Inr (tail, num, st))"
  by auto
termination by (relation "measure (\<lambda>(sp, tail, ptr, limit, sz, num, st). limit + 1 - ptr)") auto

declare chain_objects.simps [simp del]

primrec cache_pages :: "nat \<Rightarrow> nat \<Rightarrow> nat \<Rightarrow> ('o, 'z) central_scheme \<Rightarrow> ('o, 'z) central_scheme" where
  "cache_pages 0 p cl st = st"
| "cache_pages (Suc n) p cl st = cache_pages n (p + 1) cl (CacheSizeClass p cl st)"

definition Populate :: "'o os \<Rightarrow> nat \<Rightarrow> ('o, 'z) central_scheme \<Rightarrow> ('o, 'z) central_scheme res" where
  "Populate os this st =
     bind_res (get_cfl this st) (\<lambda>c.
     bind_res (class_to_pages (sizemap st) (int (size_class c))) (\<lambda>np.
     let npages = nat np in
     bind_res (New os npages st) (\<lambda>(res, st).
     case res of None \<Rightarrow> Inr st
     | Some sp \<Rightarrow>
         bind_res (RegisterSizeClass sp (size_class c) st) (\<lambda>st.
         bind_res (get_span sp st) (\<lambda>s.
         let st = cache_pages npages (start s) (size_class c) st;
             ptr = page_bytes (start s);
             limit = ptr + page_bytes npages
         in bind_res (ByteSizeForClass (sizemap st) (int (size_class c))) (\<lambda>sz.
            bind_res (chain_objects sp None ptr limit (nat sz) 0 st) (\<lambda>(tail, num, st).
            bind_res (set_tail sp tail 0 st) (\<lambda>st.
            bind_res (on_spans (upd_span sp (refcount_update (\<lambda>_. 0))) st) (\<lambda>st.
            bind_res (on_spans (DLL_Prepend (NonemptyHd this) sp) st) (\<lambda>st.
            upd_cfl this (\<lambda>c. c\<lparr>num_spans := add64 (num_spans c) 1, counter := add64 (counter c) (nat num)\<rparr>) st)))))))))) "

definition FetchFromOneSpansSafe ::
  "'o os \<Rightarrow> nat \<Rightarrow> int \<Rightarrow> addr \<Rightarrow> addr \<Rightarrow> ('o, 'z) central_scheme \<Rightarrow> (int \<times> addr \<times> addr \<times> ('o, 'z) central_scheme) res" where
  "FetchFromOneSpansSafe os this N first fin st =
     bind_res (FetchFromOneSpans this N first fin st) (\<lambda>(result, first, fin, st).
     if result = 0 then
       bind_res (Populate os this st) (\<lambda>st. FetchFromOneSpans this N first fin st)
     else Inr (result, first, fin, st))"

text \<open>A fetch returns nothing or at least one object, so the loop of \<open>RemoveRange\<close> ends.\<close>

lemma fetch_loop_progress: "fetch_loop m N cur r = Inr (p, c, k) \<Longrightarrow> r < k"
proof (induction m N cur r rule: fetch_loop.induct)
  case (1 m N cur r)
  from "1.prems" show ?case
    by (subst (asm) fetch_loop.simps) (auto simp: bind_res_Inr_iff split: if_splits dest: "1.IH")
qed

lemma FetchFromOneSpans_progress: "FetchFromOneSpans this N s f st = Inr (n, s', f', st') \<Longrightarrow> 0 \<le> n"
  by (auto simp: FetchFromOneSpans_def bind_res_Inr_iff Let_def split: if_splits dest: fetch_loop_progress)

lemma FetchFromOneSpansSafe_progress: "FetchFromOneSpansSafe os this N s f st = Inr (n, s', f', st') \<Longrightarrow> 0 \<le> n"
  by (auto simp: FetchFromOneSpansSafe_def bind_res_Inr_iff split: if_splits dest: FetchFromOneSpans_progress)

function remove_loop ::
  "'o os \<Rightarrow> nat \<Rightarrow> int \<Rightarrow> int \<Rightarrow> addr \<Rightarrow> ('o, 'z) central_scheme \<Rightarrow> (int \<times> addr \<times> ('o, 'z) central_scheme) res" where
  "remove_loop os this N result first st =
     (if result < N then
        bind_res (FetchFromOneSpansSafe os this (N - result) 0 0 st) (\<lambda>(n, head, tail, st).
        if n = 0 then Inr (result, first, st)
        else
          bind_res (SLL_PushRange (objs st) first head tail) (\<lambda>(first, m).
          remove_loop os this N (result + n) first (st\<lparr>objs := m\<rparr>)))
      else Inr (result, first, st))"
  by pat_completeness auto
termination
proof (relation "measure (\<lambda>(os, this, N, result, first, st). nat (N - result))")
qed (auto dest!: FetchFromOneSpansSafe_progress)

declare remove_loop.simps [simp del]

text \<open>The result is \<open>(result, *start, *end)\<close>.\<close>

definition RemoveRange :: "'o os \<Rightarrow> nat \<Rightarrow> int \<Rightarrow> ('o, 'z) central_scheme \<Rightarrow> (int \<times> addr \<times> addr \<times> ('o, 'z) central_scheme) res" where
  "RemoveRange os this N st =
     (let st = st\<lparr>comm_times := snd (atmc_fetch_and_add (comm_times st) 1)\<rparr>
      in bind_res (get_cfl this st) (\<lambda>c.
         bind_res (num_objects_to_move (sizemap st) (int (size_class c))) (\<lambda>k.
         if N = k \<and> used_slots c > 0 then
           bind_res (upd_cfl this (\<lambda>c. c\<lparr>used_slots := used_slots c - 1\<rparr>) st) (\<lambda>st.
           bind_res (rd (tc_slots c) (used_slots c - 1)) (\<lambda>(head, tail).
           Inr (N, head, tail, st)))
         else
           bind_res (FetchFromOneSpansSafe os this N 0 0 st) (\<lambda>(result, first, fin, st).
           if result \<noteq> 0 then
             bind_res (remove_loop os this N result first st) (\<lambda>(result, first, st).
             Inr (result, first, fin, st))
           else Inr (result, first, fin, st)))))"

section \<open>Statistics\<close>

definition CFL_length :: "nat \<Rightarrow> ('o, 'z) central_scheme \<Rightarrow> int res" where
  "CFL_length this st = bind_res (get_cfl this st) (\<lambda>c. Inr (to_int32 (int (counter c))))"

definition tc_length :: "nat \<Rightarrow> ('o, 'z) central_scheme \<Rightarrow> int res" where
  "tc_length this st =
     bind_res (get_cfl this st) (\<lambda>c.
     bind_res (num_objects_to_move (sizemap st) (int (size_class c))) (\<lambda>k.
     Inr (to_int32 (used_slots c * k))))"

definition OverheadBytes :: "nat \<Rightarrow> ('o, 'z) central_scheme \<Rightarrow> nat res" where
  "OverheadBytes this st =
     bind_res (get_cfl this st) (\<lambda>c.
     if size_class c = 0 then Inr 0
     else
       bind_res (class_to_pages (sizemap st) (int (size_class c))) (\<lambda>pages_per_span.
       bind_res (class_to_size (sizemap st) (int (size_class c))) (\<lambda>object_size.
       if object_size = 0 then Inl Segv
       else let overhead_per_span = (nat pages_per_span * 2 ^ kPageShift) mod nat object_size
            in Inr (wrap64 (num_spans c * overhead_per_span)))))"

section \<open>Static variables\<close>

definition sizeof_PageHeap :: nat where
  "sizeof_PageHeap = 16 + 8 * 2 ^ kHashbits + 2 * sizeof_Span * (kMaxPages + 1) + 32 + 16"

text \<open>The static variables before any initialisation: zeroed memory, with the sentinels in place.\<close>

definition CentralFreeList_zero :: CentralFreeList where
  "CentralFreeList_zero = \<lparr> size_class = 0, num_spans = 0, counter = 0, tc_slots = replicate (nat kMaxNumTransferEntries) (0, 0),
     used_slots = 0, cache_size = 0, max_cache_size = 0 \<rparr>"

fun init_central :: "nat list \<Rightarrow> ('o, 'z) central_scheme \<Rightarrow> ('o, 'z) central_scheme res" where
  "init_central [] st = Inr st"
| "init_central (i # is) st = bind_res (CFL_Init i i st) (\<lambda>st. init_central is st)"

text \<open>
  \<open>flags\<close> and \<open>envval\<close> are the flag and the environment variable that \<open>SizeMap::Init\<close> reads, \<open>aggressive\<close> is the
  value of \<open>TCMALLOC_AGGRESSIVE_DECOMMIT\<close>.  \<open>CHECK_CONDITION\<close> on the padded size holds by construction of
  \<open>CentralFreeListPadded\<close>.
\<close>

definition InitStaticVars :: "'o os \<Rightarrow> int option \<Rightarrow> int \<Rightarrow> bool \<Rightarrow> ('o, 'z) central_scheme \<Rightarrow> ('o, 'z) central_scheme res" where
  "InitStaticVars os envval flags aggressive st =
     bind_res (SizeMap_Init (InitTCMallocTransferNumObjects envval flags)) (\<lambda>sm.
     let st = st\<lparr>sizemap := sm\<rparr> in
     bind_res (PHA_Init os sizeof_Span (span_links st) st) (\<lambda>(pha, links, st).
     let st = st\<lparr>span_allocator := pha, span_links := links\<rparr> in
     bind_res (PHA_New os sizeof_Span (span_allocator st) (span_links st) st) (\<lambda>(_, pha, st).
     let st = st\<lparr>span_allocator := pha\<rparr> in
     bind_res (PHA_New os sizeof_Span (span_allocator st) (span_links st) st) (\<lambda>(_, pha, st).
     let st = st\<lparr>span_allocator := pha\<rparr> in
     bind_res (init_central [0..<nat kNumClasses] st) (\<lambda>st.
     bind_res (MetaDataAlloc os sizeof_PageHeap st) (\<lambda>(p, st).
     if p = 0 then Inl Segv
     else
       bind_res (PageHeap_new os st) (\<lambda>st.
       on_spans (DLL_Init SampledHd) (st\<lparr>pageheap := p, aggressive_decommit := aggressive\<rparr>))))))))"

end
