(* ===== verification/Thread_Cache.thy ===== *)
theory Thread_Cache
  imports Central_Freelist Reuse "HOL-Library.Char_ord"
begin

text \<open>
  The thread caches (\<open>thread_cache.h\<close>, \<open>thread_cache.cc\<close>): per-thread free lists that are filled from and
  drained to the central free lists, with the number of objects to fetch taken from the reuse model, and
  the list of all caches with the accounting of their size limits.

  A \<open>ThreadCache*\<close> is the address of an object from \<open>threadcache_allocator\<close>; the map \<open>caches\<close> has the
  existing objects.  Arrays indexed by the size class are lists; the reuse fields of one class are a
  \<open>reuse_state\<close>.  \<open>pthread_t\<close> is a number, and functions that call \<open>pthread_self\<close> take it as the argument \<open>me\<close>.
  Thread-local variables and \<open>pthread_getspecific\<close> are functions of the thread.  The environment
  variables the code reads are arguments.
\<close>

section \<open>\<open>FreeList\<close>\<close>

record FreeList =
  list :: addr
  fl_length :: nat
  lowater :: nat
  max_length :: nat
  length_overages :: nat

definition u32 :: "int \<Rightarrow> nat" where "u32 x = nat (x mod 2 ^ 32)"

definition FreeList_Init :: "FreeList \<Rightarrow> FreeList" where
  "FreeList_Init l = l\<lparr>list := 0, fl_length := 0, lowater := 0, max_length := 1, length_overages := 0\<rparr>"

definition set_max_length :: "nat \<Rightarrow> FreeList \<Rightarrow> FreeList" where
  "set_max_length new_max l = l\<lparr>max_length := u32 (int new_max)\<rparr>"

definition set_length_overages :: "nat \<Rightarrow> FreeList \<Rightarrow> FreeList" where
  "set_length_overages new_count l = l\<lparr>length_overages := u32 (int new_count)\<rparr>"

definition fl_empty :: "FreeList \<Rightarrow> bool" where "fl_empty l \<longleftrightarrow> list l = 0"

definition lowwatermark :: "FreeList \<Rightarrow> int" where "lowwatermark l = to_int32 (int (lowater l))"

definition clear_lowwatermark :: "FreeList \<Rightarrow> FreeList" where
  "clear_lowwatermark l = l\<lparr>lowater := fl_length l\<rparr>"

definition Push :: "addr \<Rightarrow> mem \<Rightarrow> FreeList \<Rightarrow> (FreeList \<times> mem) res" where
  "Push ptr m l =
     bind_res (SLL_Push m (list l) ptr) (\<lambda>(hd, m).
     Inr (l\<lparr>list := hd, fl_length := u32 (int (fl_length l) + 1)\<rparr>, m))"

text \<open>\<open>length_\<close> less \<open>n\<close>, and the low-water mark pulled down to it.\<close>

definition drop_length :: "int \<Rightarrow> FreeList \<Rightarrow> FreeList" where
  "drop_length n l =
     (let len = u32 (int (fl_length l) - n)
      in l\<lparr>fl_length := len, lowater := (if len < lowater l then len else lowater l)\<rparr>)"

definition Pop :: "mem \<Rightarrow> FreeList \<Rightarrow> (addr \<times> FreeList) res" where
  "Pop m l =
     (let l = drop_length 1 l
      in bind_res (SLL_Pop m (list l)) (\<lambda>(res, hd). Inr (res, l\<lparr>list := hd\<rparr>)))"

definition fl_Next :: "FreeList \<Rightarrow> addr" where "fl_Next l = list l"

definition PushRange :: "int \<Rightarrow> addr \<Rightarrow> addr \<Rightarrow> mem \<Rightarrow> FreeList \<Rightarrow> (FreeList \<times> mem) res" where
  "PushRange N first fin m l =
     bind_res (SLL_PushRange m (list l) first fin) (\<lambda>(hd, m).
     Inr (l\<lparr>list := hd, fl_length := u32 (int (fl_length l) + N)\<rparr>, m))"

text \<open>The result is \<open>(*start, *end)\<close>, the list and the memory.\<close>

definition PopRange :: "int \<Rightarrow> mem \<Rightarrow> FreeList \<Rightarrow> (addr \<times> addr \<times> FreeList \<times> mem) res" where
  "PopRange N m l =
     bind_res (SLL_PopRange m (list l) N) (\<lambda>(first, fin, hd, m).
     Inr (first, fin, drop_length N (l\<lparr>list := hd\<rparr>), m))"

section \<open>State\<close>

record ThreadCache =
  classes :: "reuse_state list"
  preset_apf :: int
  total_gap :: "nat list"
  memory_cost :: nat
  current_deaths :: "int list"
  total_synchronized :: "int list"
  return_syncs :: "int list"
  fetched_syncs :: "int list"
  last_reserved :: "int list"
  work_bufs :: "addr list"
  class_bufs :: "addr list list"
  bursty_period_len :: int
  apf_stat :: int
  tc_next :: addr
  tc_prev :: addr
  tc_size :: nat
  max_size :: nat
  lists :: "FreeList list"
  tid :: nat
  in_setspecific :: bool

definition sizeof_ThreadCache :: nat where "sizeof_ThreadCache = 10816"

record 'o tc_state = "'o central" +
  threadcache_allocator :: PageHeapAllocator
  cache_links :: mem
  caches :: "addr \<rightharpoonup> ThreadCache"
  thread_heaps :: addr
  thread_heap_count :: int
  next_memory_steal :: addr
  overall_thread_cache_size :: nat
  per_thread_cache_size :: nat
  unclaimed_cache_space :: int
  tsd_inited :: bool
  phinited :: bool
  kernel_supports_tls :: bool
  tls_heap :: "nat \<Rightarrow> addr"
  min_size_for_slow_path :: "nat \<Rightarrow> nat"
  heap_key :: "nat \<Rightarrow> addr"
  mem_gap :: nat
  total_syncs :: nat
  total_fetch_syncs :: nat
  total_return_syncs :: nat
  total_memory_cost :: nat

text \<open>The static variables when the program is loaded.\<close>

definition thread_statics :: "'o central \<Rightarrow> 'o tc_state" where
  "thread_statics c = central.extend c
     \<lparr> threadcache_allocator = \<lparr> free_area = 0, free_avail = 0, free_list = 0, inuse = 0 \<rparr>, cache_links = (\<lambda>_. 0), caches = Map.empty,
       thread_heaps = 0, thread_heap_count = 0, next_memory_steal = 0,
       overall_thread_cache_size = nat kDefaultOverallThreadCacheSize, per_thread_cache_size = nat kMaxThreadCacheSize,
       unclaimed_cache_space = kDefaultOverallThreadCacheSize, tsd_inited = False, phinited = False, kernel_supports_tls = False,
       tls_heap = (\<lambda>_. 0), min_size_for_slow_path = (\<lambda>_. 0), heap_key = (\<lambda>_. 0),
       mem_gap = 0, total_syncs = 0, total_fetch_syncs = 0, total_return_syncs = 0, total_memory_cost = 0 \<rparr>"

definition get_tc :: "addr \<Rightarrow> ('o, 'z) tc_state_scheme \<Rightarrow> ThreadCache res" where
  "get_tc h st = (case caches st h of None \<Rightarrow> Inl Segv | Some t \<Rightarrow> Inr t)"

definition upd_tc :: "addr \<Rightarrow> (ThreadCache \<Rightarrow> ThreadCache) \<Rightarrow> ('o, 'z) tc_state_scheme \<Rightarrow> ('o, 'z) tc_state_scheme res" where
  "upd_tc h f st = bind_res (get_tc h st) (\<lambda>t. Inr (st\<lparr>caches := (caches st)(h \<mapsto> f t)\<rparr>))"

text \<open>Reading and writing an element of one of the arrays.\<close>

definition tc_rd :: "(ThreadCache \<Rightarrow> 'a list) \<Rightarrow> addr \<Rightarrow> nat \<Rightarrow> ('o, 'z) tc_state_scheme \<Rightarrow> 'a res" where
  "tc_rd fld h cl st = bind_res (get_tc h st) (\<lambda>t. rd (fld t) (int cl))"

definition tc_wr ::
  "(ThreadCache \<Rightarrow> 'a list) \<Rightarrow> (('a list \<Rightarrow> 'a list) \<Rightarrow> ThreadCache \<Rightarrow> ThreadCache) \<Rightarrow> addr \<Rightarrow> nat \<Rightarrow> ('a \<Rightarrow> 'a) \<Rightarrow>
   ('o, 'z) tc_state_scheme \<Rightarrow> ('o, 'z) tc_state_scheme res" where
  "tc_wr fld upd h cl f st =
     bind_res (get_tc h st) (\<lambda>t.
     bind_res (rd (fld t) (int cl)) (\<lambda>x.
     bind_res (wr (fld t) (int cl) (f x)) (\<lambda>xs.
     upd_tc h (upd (\<lambda>_. xs)) st)))"

text \<open>\<open>++\<close> on an \<open>int\<close>.\<close>

definition inc32 :: "int \<Rightarrow> int" where "inc32 x = to_int32 (x + 1)"

section \<open>Memory for the trace\<close>

definition lmmmap :: "'o os \<Rightarrow> nat \<Rightarrow> ('o, 'z) tc_state_scheme \<Rightarrow> (addr \<times> ('o, 'z) tc_state_scheme) res" where
  "lmmmap os bytes st =
     (let (ret, st) = call_mmap os bytes st in if ret = minus1 then Inl Abort else Inr (ret, st))"

definition lmmumap :: "'o os \<Rightarrow> addr \<Rightarrow> nat \<Rightarrow> ('o, 'z) tc_state_scheme \<Rightarrow> ('o, 'z) tc_state_scheme res" where
  "lmmumap os loc bytes st =
     (if os_munmap_fails os loc bytes (os_st st) then Inl Abort else Inr (call_munmap os loc bytes st))"

fun map_bufs :: "'o os \<Rightarrow> nat list \<Rightarrow> ('o, 'z) tc_state_scheme \<Rightarrow> (addr list \<times> ('o, 'z) tc_state_scheme) res" where
  "map_bufs os [] st = Inr ([], st)"
| "map_bufs os (n # ns) st =
     bind_res (lmmmap os n st) (\<lambda>(p, st).
     bind_res (map_bufs os ns st) (\<lambda>(ps, st). Inr (p # ps, st)))"

fun unmap_bufs :: "'o os \<Rightarrow> nat list \<Rightarrow> addr list \<Rightarrow> ('o, 'z) tc_state_scheme \<Rightarrow> ('o, 'z) tc_state_scheme res" where
  "unmap_bufs os (n # ns) (p # ps) st = bind_res (lmmumap os p n st) (\<lambda>st. unmap_bufs os ns ps st)"
| "unmap_bufs os _ _ st = Inr st"

text \<open>\<open>X_1, ..., Z_2\<close>, and \<open>reuse\<close>, \<open>reserved\<close>, \<open>reuse_s\<close>, \<open>reuse_e\<close>, \<open>circle_buffer\<close> of a class, in bytes.\<close>

definition work_sizes :: "nat list" where
  "work_sizes = replicate 6 (8 * nat (TRACE_LENGTH + 1))"

definition class_buf_sizes :: "nat list" where
  "class_buf_sizes = [8 * nat (TRACE_LENGTH + 1), 8 * nat (TRACE_LENGTH + 1), 4 * nat (TRACE_LENGTH + 1), 4 * nat (TRACE_LENGTH + 1), 4 * nat TRACE_LENGTH]"

section \<open>Size limits\<close>

text \<open>The loop that steals from other caches, with its counter \<open>i < 10\<close> as the number of rounds left.\<close>

primrec steal_loop :: "nat \<Rightarrow> addr \<Rightarrow> ('o, 'z) tc_state_scheme \<Rightarrow> ('o, 'z) tc_state_scheme res" where
  "steal_loop 0 this st = Inr st"
| "steal_loop (Suc k) this st =
     (let st = (if next_memory_steal st = 0 then st\<lparr>next_memory_steal := thread_heaps st\<rparr> else st)
      in bind_res (if next_memory_steal st = this then Inr True
                   else bind_res (get_tc (next_memory_steal st) st) (\<lambda>n. Inr (int (max_size n) \<le> kMinThreadCacheSize))) (\<lambda>skip.
         if skip then
           bind_res (get_tc (next_memory_steal st) st) (\<lambda>n.
           steal_loop k this (st\<lparr>next_memory_steal := tc_next n\<rparr>))
         else
           bind_res (upd_tc (next_memory_steal st) (\<lambda>n. n\<lparr>max_size := sub64 (max_size n) (nat kStealAmount)\<rparr>) st) (\<lambda>st.
           bind_res (upd_tc this (\<lambda>t. t\<lparr>max_size := add64 (max_size t) (nat kStealAmount)\<rparr>) st) (\<lambda>st.
           bind_res (get_tc (next_memory_steal st) st) (\<lambda>n.
           Inr (st\<lparr>next_memory_steal := tc_next n\<rparr>))))))"

definition IncreaseCacheLimitLocked :: "addr \<Rightarrow> ('o, 'z) tc_state_scheme \<Rightarrow> ('o, 'z) tc_state_scheme res" where
  "IncreaseCacheLimitLocked this st =
     (if unclaimed_cache_space st > 0 then
        upd_tc this (\<lambda>t. t\<lparr>max_size := add64 (max_size t) (nat kStealAmount)\<rparr>)
          (st\<lparr>unclaimed_cache_space := unclaimed_cache_space st - kStealAmount\<rparr>)
      else steal_loop 10 this st)"

section \<open>\<open>Init\<close>\<close>

text \<open>The loop over the size classes; \<open>apf\<close> is the value of \<open>APF_PARAMETER\<close>, if it is set, after \<open>atoi\<close>.\<close>

fun init_classes :: "'o os \<Rightarrow> nat list \<Rightarrow> addr \<Rightarrow> ('o, 'z) tc_state_scheme \<Rightarrow> ('o, 'z) tc_state_scheme res" where
  "init_classes os [] this st = Inr st"
| "init_classes os (cl # cls) this st =
     bind_res (tc_wr lists lists_update this cl FreeList_Init st) (\<lambda>st.
     bind_res (tc_wr total_gap total_gap_update this cl (\<lambda>_. 0) st) (\<lambda>st.
     bind_res (tc_wr current_deaths current_deaths_update this cl (\<lambda>_. 0) st) (\<lambda>st.
     bind_res (tc_wr total_synchronized total_synchronized_update this cl (\<lambda>_. 0) st) (\<lambda>st.
     bind_res (tc_wr return_syncs return_syncs_update this cl (\<lambda>_. 0) st) (\<lambda>st.
     bind_res (tc_wr fetched_syncs fetched_syncs_update this cl (\<lambda>_. 0) st) (\<lambda>st.
     bind_res (tc_wr last_reserved last_reserved_update this cl (\<lambda>_. 0) st) (\<lambda>st.
     bind_res (map_bufs os class_buf_sizes st) (\<lambda>(ps, st).
     bind_res (tc_wr class_bufs class_bufs_update this cl (\<lambda>_. ps) st) (\<lambda>st.
     bind_res (tc_wr classes classes_update this cl (\<lambda>_. reuse_init) st) (\<lambda>st.
     init_classes os cls this st))))))))))"

definition TC_Init :: "'o os \<Rightarrow> int option \<Rightarrow> addr \<Rightarrow> nat \<Rightarrow> ('o, 'z) tc_state_scheme \<Rightarrow> ('o, 'z) tc_state_scheme res" where
  "TC_Init os apf this me st =
     bind_res (upd_tc this (\<lambda>t. t\<lparr>tc_size := 0, max_size := 0\<rparr>) st) (\<lambda>st.
     bind_res (IncreaseCacheLimitLocked this st) (\<lambda>st.
     bind_res (get_tc this st) (\<lambda>t.
     bind_res
       (if max_size t = 0 then
          bind_res (upd_tc this (\<lambda>t. t\<lparr>max_size := nat kMinThreadCacheSize\<rparr>) st) (\<lambda>st.
          Inr (st\<lparr>unclaimed_cache_space := unclaimed_cache_space st - kMinThreadCacheSize\<rparr>))
        else Inr st) (\<lambda>st.
     bind_res (upd_tc this (\<lambda>t. t\<lparr>tc_next := 0, tc_prev := 0, tid := me, in_setspecific := False,
         preset_apf := (case apf of Some v \<Rightarrow> v | None \<Rightarrow> DEFAULT_APF),
         apf_stat := 0, memory_cost := 0, bursty_period_len := TRACE_LENGTH\<rparr>) st) (\<lambda>st.
     bind_res (map_bufs os work_sizes st) (\<lambda>(ps, st).
     bind_res (upd_tc this (work_bufs_update (\<lambda>_. ps)) st) (\<lambda>st.
     init_classes os [0..<nat kNumClasses] this st)))))))"

section \<open>Traffic with the central free lists\<close>

definition FetchFromCentralCachePeriodicallyNoReturn ::
  "'o os \<Rightarrow> addr \<Rightarrow> nat \<Rightarrow> nat \<Rightarrow> int \<Rightarrow> ('o, 'z) tc_state_scheme \<Rightarrow> (int \<times> ('o, 'z) tc_state_scheme) res" where
  "FetchFromCentralCachePeriodicallyNoReturn os this cl byte_size n st =
     bind_res (RemoveRange os cl (to_int32 n) st) (\<lambda>(fetch_count, first, fin, st).
     if fetch_count \<ge> 0 then
       bind_res (upd_tc this (\<lambda>t. t\<lparr>tc_size := wrap64 (tc_size t + byte_size * nat fetch_count)\<rparr>) st) (\<lambda>st.
       bind_res (tc_rd lists this cl st) (\<lambda>l.
       bind_res (PushRange fetch_count first fin (objs st) l) (\<lambda>(l, m).
       bind_res (tc_wr lists lists_update this cl (\<lambda>_. l) (st\<lparr>objs := m\<rparr>)) (\<lambda>st.
       Inr (fetch_count, st)))))
     else Inr (fetch_count, st))"

definition pop_insert :: "'o os \<Rightarrow> addr \<Rightarrow> nat \<Rightarrow> int \<Rightarrow> ('o, 'z) tc_state_scheme \<Rightarrow> ('o, 'z) tc_state_scheme res" where
  "pop_insert os this cl k st =
     bind_res (tc_rd lists this cl st) (\<lambda>l.
     bind_res (PopRange k (objs st) l) (\<lambda>(head, tail, l, m).
     bind_res (tc_wr lists lists_update this cl (\<lambda>_. l) (st\<lparr>objs := m\<rparr>)) (\<lambda>st.
     InsertRange os cl head tail k st)))"

text \<open>The loop over full batches; with a batch size of 0 it would not end.\<close>

function release_batches ::
  "'o os \<Rightarrow> addr \<Rightarrow> nat \<Rightarrow> int \<Rightarrow> int \<Rightarrow> ('o, 'z) tc_state_scheme \<Rightarrow> (int \<times> ('o, 'z) tc_state_scheme) res" where
  "release_batches os this cl batch_size N st =
     (if N > batch_size then
        if batch_size \<le> 0 then Inl Diverge
        else bind_res (pop_insert os this cl batch_size st) (\<lambda>st.
             release_batches os this cl batch_size (N - batch_size) st)
      else Inr (N, st))"
  by pat_completeness auto
termination by (relation "measure (\<lambda>(os, this, cl, batch_size, N, st). nat N)") auto

declare release_batches.simps [simp del]

definition ReleaseToCentralCache :: "'o os \<Rightarrow> addr \<Rightarrow> nat \<Rightarrow> int \<Rightarrow> ('o, 'z) tc_state_scheme \<Rightarrow> ('o, 'z) tc_state_scheme res" where
  "ReleaseToCentralCache os this cl N st =
     bind_res (tc_rd lists this cl st) (\<lambda>src.
     let N = (if nat (N mod 2 ^ 64) > fl_length src then to_int32 (int (fl_length src)) else N) in
     bind_res (ByteSizeForClass (sizemap st) (int cl)) (\<lambda>sz.
     let delta_bytes = nat (N * sz mod 2 ^ 64) in
     bind_res (num_objects_to_move (sizemap st) (int cl)) (\<lambda>batch_size.
     bind_res (release_batches os this cl batch_size N st) (\<lambda>(N, st).
     bind_res (pop_insert os this cl N st) (\<lambda>st.
     upd_tc this (\<lambda>t. t\<lparr>tc_size := sub64 (tc_size t) delta_bytes\<rparr>) st)))))"

section \<open>\<open>Cleanup\<close>\<close>

definition sum_stats :: "(ThreadCache \<Rightarrow> int list) \<Rightarrow> ThreadCache \<Rightarrow> nat" where
  "sum_stats fld t = nat (sum_list (take (nat kNumClasses) (fld t)) mod 2 ^ 64)"

definition sum_gap :: "ThreadCache \<Rightarrow> nat" where
  "sum_gap t = wrap64 (sum_list (take (nat kNumClasses) (total_gap t)))"

definition add_stat :: "nat \<Rightarrow> nat \<Rightarrow> nat" where
  "add_stat old v = snd (atmc_fetch_and_add old (int v))"

fun cleanup_classes :: "'o os \<Rightarrow> nat list \<Rightarrow> addr \<Rightarrow> ('o, 'z) tc_state_scheme \<Rightarrow> ('o, 'z) tc_state_scheme res" where
  "cleanup_classes os [] this st = Inr st"
| "cleanup_classes os (cl # cls) this st =
     bind_res (tc_rd lists this cl st) (\<lambda>l.
     bind_res
       (if fl_length l > 0 then
          bind_res (ReleaseToCentralCache os this cl (to_int32 (int (fl_length l))) st) (\<lambda>st.
          bind_res (tc_wr total_synchronized total_synchronized_update this cl inc32 st) (\<lambda>st.
          tc_wr return_syncs return_syncs_update this cl inc32 st))
        else Inr st) (\<lambda>st.
     bind_res (tc_rd class_bufs this cl st) (\<lambda>ps.
     bind_res (unmap_bufs os class_buf_sizes ps st) (\<lambda>st.
     cleanup_classes os cls this st))))"

definition Cleanup :: "'o os \<Rightarrow> addr \<Rightarrow> ('o, 'z) tc_state_scheme \<Rightarrow> ('o, 'z) tc_state_scheme res" where
  "Cleanup os this st =
     bind_res (get_tc this st) (\<lambda>t.
     let st = st\<lparr>mem_gap := add_stat (mem_gap st) (sum_gap t),
                 total_syncs := add_stat (total_syncs st) (sum_stats total_synchronized t),
                 total_fetch_syncs := add_stat (total_fetch_syncs st) (sum_stats fetched_syncs t),
                 total_return_syncs := add_stat (total_return_syncs st) (sum_stats return_syncs t),
                 total_memory_cost := add_stat (total_memory_cost st) (memory_cost t)\<rparr>
     in bind_res (unmap_bufs os work_sizes (work_bufs t) st) (\<lambda>st.
        cleanup_classes os [0..<nat kNumClasses] this st))"

text \<open>
  The numbers \<open>ApfStats\<close> prints: allocations, gap, synchronisations with the central lists, fetches, returns
  and the accumulated cost.
\<close>

definition ApfStats :: "addr \<Rightarrow> ('o, 'z) tc_state_scheme \<Rightarrow> (nat \<times> nat \<times> nat \<times> nat \<times> nat \<times> nat) res" where
  "ApfStats this st =
     bind_res (get_tc this st) (\<lambda>t.
     Inr (wrap64 (sum_list (take (nat kNumClasses) (map time_cnt (classes t)))), sum_gap t, sum_stats total_synchronized t,
          sum_stats fetched_syncs t, sum_stats return_syncs t, memory_cost t))"

section \<open>\<open>Allocate\<close> and \<open>Deallocate\<close>\<close>

text \<open>The number of objects to fetch when the list is empty.\<close>

definition target_apf :: "int \<Rightarrow> int \<Rightarrow> nat \<Rightarrow> int" where
  "target_apf fetched apf time = (let t = to_int32 ((fetched + 1) * apf - int time) in if t \<le> 0 then apf else t)"

definition target_reserved :: "int \<Rightarrow> reuse_state \<Rightarrow> int res" where
  "target_reserved target r =
     (if effective_trace_len r \<noteq> 0 then
        if target \<le> effective_trace_len r then
          bind_res (rd (reserved r) target) (\<lambda>x. Inr (to_int32 (rat_trunc x)))
        else
          let ratio = flt (flt (of_int target) / 100)
          in bind_res (rd (reserved r) 100) (\<lambda>x. Inr (to_int32 (rat_trunc (dbl (x * ratio)))))
      else Inr (to_int32 (rat_trunc (dbl (dbl (dbl (618 / 1000) * flt (of_int target)) + 1)))))"

text \<open>The bookkeeping of the reuse trace at an allocation.\<close>

definition trace_alloc :: "reuse_state \<Rightarrow> reuse_state res" where
  "trace_alloc r =
     (if bursty_in_progress r then UpdateReuse r
      else if hibernate_period_len r \<noteq> - 1 then
        let r = r\<lparr>hibernate_counter := to_int32 (hibernate_counter r - 1)\<rparr>
        in Inr (if hibernate_counter r = 0
                then r\<lparr>bursty_in_progress := True, bursty_start := to_int32 (int (time_cnt r) + 1)\<rparr> else r)
      else Inr r)"

definition refill :: "'o os \<Rightarrow> addr \<Rightarrow> nat \<Rightarrow> nat \<Rightarrow> ('o, 'z) tc_state_scheme \<Rightarrow> ('o, 'z) tc_state_scheme res" where
  "refill os this sz cl st =
     bind_res (get_tc this st) (\<lambda>t.
     bind_res (tc_rd fetched_syncs this cl st) (\<lambda>f.
     bind_res (tc_rd classes this cl st) (\<lambda>r.
     bind_res (target_reserved (target_apf f (preset_apf t) (time_cnt r)) r) (\<lambda>k.
     bind_res (tc_wr last_reserved last_reserved_update this cl (\<lambda>_. k) st) (\<lambda>st.
     bind_res (FetchFromCentralCachePeriodicallyNoReturn os this cl sz k st) (\<lambda>(_, st).
     bind_res (tc_wr total_synchronized total_synchronized_update this cl inc32 st) (\<lambda>st.
     tc_wr fetched_syncs fetched_syncs_update this cl inc32 st)))))))"

definition Allocate :: "'o os \<Rightarrow> addr \<Rightarrow> nat \<Rightarrow> nat \<Rightarrow> ('o, 'z) tc_state_scheme \<Rightarrow> (addr \<times> ('o, 'z) tc_state_scheme) res" where
  "Allocate os this sz cl st =
     bind_res (tc_rd lists this cl st) (\<lambda>l.
     bind_res (tc_rd current_deaths this cl st) (\<lambda>deaths.
     let added = to_int32 (int (fl_length l) - deaths); added = (if added < 0 then 0 else added) in
     bind_res (tc_wr total_gap total_gap_update this cl (\<lambda>g. wrap64 (g + nat added)) st) (\<lambda>st.
     bind_res (tc_wr current_deaths current_deaths_update this cl (\<lambda>_. 0) st) (\<lambda>st.
     bind_res (tc_rd classes this cl st) (\<lambda>r.
     bind_res (trace_alloc r) (\<lambda>r.
     bind_res (tc_wr classes classes_update this cl (\<lambda>_. r) st) (\<lambda>st.
     bind_res (if fl_empty l then refill os this sz cl st else Inr st) (\<lambda>st.
     bind_res (tc_wr classes classes_update this cl (\<lambda>r. r\<lparr>time_cnt := wrap64 (time_cnt r + 1)\<rparr>) st) (\<lambda>st.
     bind_res (upd_tc this (\<lambda>t. t\<lparr>tc_size := sub64 (tc_size t) sz\<rparr>) st) (\<lambda>st.
     bind_res (tc_rd lists this cl st) (\<lambda>l.
     bind_res (Pop (objs st) l) (\<lambda>(res, l).
     bind_res (tc_wr lists lists_update this cl (\<lambda>_. l) st) (\<lambda>st.
     bind_res (upd_tc this (\<lambda>t. t\<lparr>memory_cost := wrap64 (memory_cost t + tc_size t)\<rparr>) st) (\<lambda>st.
     Inr (res, st)))))))))))))))"

text \<open>
  The comparison \<open>list->length() > expectation * 2 + 1\<close> is one of \<open>size_t\<close>, and so is the difference
  \<open>list->length() - expectation\<close>, which is then converted to \<open>int\<close>.
\<close>

definition Deallocate :: "'o os \<Rightarrow> addr \<Rightarrow> addr \<Rightarrow> nat \<Rightarrow> ('o, 'z) tc_state_scheme \<Rightarrow> ('o, 'z) tc_state_scheme res" where
  "Deallocate os this ptr cl st =
     bind_res (ByteSizeForClass (sizemap st) (int cl)) (\<lambda>sz.
     bind_res (upd_tc this (\<lambda>t. t\<lparr>tc_size := wrap64 (tc_size t + nat sz)\<rparr>) st) (\<lambda>st.
     bind_res (tc_rd lists this cl st) (\<lambda>l.
     bind_res (Push ptr (objs st) l) (\<lambda>(l, m).
     bind_res (tc_wr lists lists_update this cl (\<lambda>_. l) (st\<lparr>objs := m\<rparr>)) (\<lambda>st.
     bind_res (tc_wr current_deaths current_deaths_update this cl inc32 st) (\<lambda>st.
     bind_res (tc_rd classes this cl st) (\<lambda>r.
     bind_res
       (if bursty_in_progress r then
          bind_res (wr (circle_buffer r) (cb_next r) (to_int32 (int (time_cnt r)))) (\<lambda>cb.
          tc_wr classes classes_update this cl
            (\<lambda>r. r\<lparr>circle_buffer := cb, cb_next := c_rem (cb_next r + 1) TRACE_LENGTH\<rparr>) st)
        else Inr st) (\<lambda>st.
     bind_res (tc_rd last_reserved this cl st) (\<lambda>expectation.
     if fl_length l > nat ((expectation * 2 + 1) mod 2 ^ 64) then
       bind_res (ReleaseToCentralCache os this cl
         (if expectation > 0 then to_int32 (int (fl_length l) - expectation) else to_int32 (int (fl_length l div 2))) st) (\<lambda>st.
       bind_res (tc_wr return_syncs return_syncs_update this cl inc32 st) (\<lambda>st.
       tc_wr total_synchronized total_synchronized_update this cl inc32 st))
     else Inr st)))))))))"

section \<open>The list of thread caches\<close>

text \<open>The loops \<open>for (h = thread_heaps_; h != NULL; h = h->next_)\<close>, as the list of the caches they visit.\<close>

partial_function (option) heap_walk :: "(addr \<rightharpoonup> ThreadCache) \<Rightarrow> addr \<Rightarrow> addr list \<Rightarrow> addr list res option" where
  "heap_walk cs h acc =
     (if h = 0 then Some (Inr (rev acc))
      else case cs h of None \<Rightarrow> Some (Inl Segv) | Some t \<Rightarrow> heap_walk cs (tc_next t) (h # acc))"

definition all_heaps :: "('o, 'z) tc_state_scheme \<Rightarrow> addr list res" where
  "all_heaps st = (case heap_walk (caches st) (thread_heaps st) [] of None \<Rightarrow> Inl Diverge | Some r \<Rightarrow> r)"

text \<open>The search for the cache of a thread stops at the first hit; the result 0 is NULL.\<close>

partial_function (option) find_heap :: "(addr \<rightharpoonup> ThreadCache) \<Rightarrow> nat \<Rightarrow> addr \<Rightarrow> addr res option" where
  "find_heap cs me h =
     (if h = 0 then Some (Inr 0)
      else case cs h of None \<Rightarrow> Some (Inl Segv) | Some t \<Rightarrow> if tid t = me then Some (Inr h) else find_heap cs me (tc_next t))"

text \<open>The object as the allocator hands it out; \<open>Init\<close> sets every field that is read.\<close>

definition blank_cache :: ThreadCache where
  "blank_cache = (let n = nat kNumClasses in
     \<lparr> classes = replicate n reuse_init, preset_apf = 0, total_gap = replicate n 0, memory_cost = 0,
       current_deaths = replicate n 0, total_synchronized = replicate n 0, return_syncs = replicate n 0,
       fetched_syncs = replicate n 0, last_reserved = replicate n 0, work_bufs = [], class_bufs = replicate n [],
       bursty_period_len = 0, apf_stat = 0, tc_next = 0, tc_prev = 0, tc_size = 0, max_size = 0,
       lists = replicate n \<lparr> list = 0, fl_length = 0, lowater = 0, max_length = 0, length_overages = 0 \<rparr>,
       tid = 0, in_setspecific = False \<rparr>)"

definition NewHeap :: "'o os \<Rightarrow> int option \<Rightarrow> nat \<Rightarrow> ('o, 'z) tc_state_scheme \<Rightarrow> (addr \<times> ('o, 'z) tc_state_scheme) res" where
  "NewHeap os apf me st =
     bind_res (PHA_New os sizeof_ThreadCache (threadcache_allocator st) (cache_links st) st) (\<lambda>(heap, pha, st).
     let st = st\<lparr>threadcache_allocator := pha, caches := (caches st)(heap \<mapsto> blank_cache)\<rparr> in
     bind_res (TC_Init os apf heap me st) (\<lambda>st.
     bind_res (upd_tc heap (\<lambda>t. t\<lparr>tc_next := thread_heaps st, tc_prev := 0\<rparr>) st) (\<lambda>st.
     bind_res
       (if thread_heaps st \<noteq> 0 then upd_tc (thread_heaps st) (tc_prev_update (\<lambda>_. heap)) st
        else Inr (st\<lparr>next_memory_steal := heap\<rparr>)) (\<lambda>st.
     Inr (heap, st\<lparr>thread_heaps := heap, thread_heap_count := inc32 (thread_heap_count st)\<rparr>)))))"

definition DeleteCache :: "'o os \<Rightarrow> addr \<Rightarrow> ('o, 'z) tc_state_scheme \<Rightarrow> ('o, 'z) tc_state_scheme res" where
  "DeleteCache os heap st =
     bind_res (Cleanup os heap st) (\<lambda>st.
     bind_res (get_tc heap st) (\<lambda>t.
     bind_res (if tc_next t \<noteq> 0 then upd_tc (tc_next t) (tc_prev_update (\<lambda>_. tc_prev t)) st else Inr st) (\<lambda>st.
     bind_res (get_tc heap st) (\<lambda>t.
     bind_res (if tc_prev t \<noteq> 0 then upd_tc (tc_prev t) (tc_next_update (\<lambda>_. tc_next t)) st else Inr st) (\<lambda>st.
     bind_res (get_tc heap st) (\<lambda>t.
     let st = (if thread_heaps st = heap then st\<lparr>thread_heaps := tc_next t\<rparr> else st);
         st = st\<lparr>thread_heap_count := to_int32 (thread_heap_count st - 1)\<rparr>;
         st = (if next_memory_steal st = heap then st\<lparr>next_memory_steal := tc_next t\<rparr> else st);
         st = (if next_memory_steal st = 0 then st\<lparr>next_memory_steal := thread_heaps st\<rparr> else st);
         st = st\<lparr>unclaimed_cache_space := unclaimed_cache_space st + int (max_size t)\<rparr>
     in bind_res (PHA_Delete heap (threadcache_allocator st) (cache_links st)) (\<lambda>(pha, links).
        Inr (st\<lparr>threadcache_allocator := pha, cache_links := links, caches := (caches st)(heap := None)\<rparr>))))))))"

definition to_int64 :: "int \<Rightarrow> int" where
  "to_int64 x = (x + 2 ^ 63) mod 2 ^ 64 - 2 ^ 63"

fun scale_heaps :: "rat \<Rightarrow> addr list \<Rightarrow> nat \<Rightarrow> ('o, 'z) tc_state_scheme \<Rightarrow> (nat \<times> ('o, 'z) tc_state_scheme) res" where
  "scale_heaps ratio [] claimed st = Inr (claimed, st)"
| "scale_heaps ratio (h # hs) claimed st =
     bind_res
       (if ratio < 1 then upd_tc h (\<lambda>t. t\<lparr>max_size := nat (rat_trunc (dbl (dbl (of_nat (max_size t)) * ratio)))\<rparr>) st
        else Inr st) (\<lambda>st.
     bind_res (get_tc h st) (\<lambda>t.
     scale_heaps ratio hs (add64 claimed (max_size t)) st))"

definition RecomputePerThreadCacheSize :: "('o, 'z) tc_state_scheme \<Rightarrow> ('o, 'z) tc_state_scheme res" where
  "RecomputePerThreadCacheSize st =
     (let n = (if thread_heap_count st > 0 then thread_heap_count st else 1);
          space = overall_thread_cache_size st div nat n;
          space = (if int space < kMinThreadCacheSize then nat kMinThreadCacheSize else space);
          space = (if int space > kMaxThreadCacheSize then nat kMaxThreadCacheSize else space);
          ratio = dbl (dbl (of_nat space) / max 1 (dbl (of_nat (per_thread_cache_size st))))
      in bind_res (all_heaps st) (\<lambda>hs.
         bind_res (scale_heaps ratio hs 0 st) (\<lambda>(claimed, st).
         Inr (st\<lparr>unclaimed_cache_space := to_int64 (int (overall_thread_cache_size st) - int claimed),
                 per_thread_cache_size := space\<rparr>))))"

definition set_overall_thread_cache_size :: "nat \<Rightarrow> ('o, 'z) tc_state_scheme \<Rightarrow> ('o, 'z) tc_state_scheme res" where
  "set_overall_thread_cache_size new_size st =
     (let new_size = (if int new_size < kMinThreadCacheSize then nat kMinThreadCacheSize else new_size);
          new_size = (if new_size > 2 ^ 30 then 2 ^ 30 else new_size)
      in RecomputePerThreadCacheSize (st\<lparr>overall_thread_cache_size := new_size\<rparr>))"

fun heap_stats :: "addr list \<Rightarrow> nat \<times> nat list \<Rightarrow> ('o, 'z) tc_state_scheme \<Rightarrow> (nat \<times> nat list) res" where
  "heap_stats [] acc st = Inr acc"
| "heap_stats (h # hs) (bytes, count) st =
     bind_res (get_tc h st) (\<lambda>t.
     heap_stats hs (add64 bytes (tc_size t), map2 (\<lambda>c l. nat ((int c + to_int32 (int (fl_length l))) mod 2 ^ 64)) count (lists t)) st)"

text \<open>With \<open>class_count = None\<close> standing for NULL.\<close>

definition GetThreadStats :: "nat \<Rightarrow> nat list option \<Rightarrow> ('o, 'z) tc_state_scheme \<Rightarrow> (nat \<times> nat list option) res" where
  "GetThreadStats total_bytes class_count st =
     bind_res (all_heaps st) (\<lambda>hs.
     bind_res (heap_stats hs (total_bytes, case class_count of None \<Rightarrow> [] | Some c \<Rightarrow> c) st) (\<lambda>(b, c).
     Inr (b, map_option (\<lambda>_. c) class_count)))"

definition HeapsInUse :: "('o, 'z) tc_state_scheme \<Rightarrow> int" where
  "HeapsInUse st = inuse (threadcache_allocator st)"

section \<open>Caches of threads\<close>

definition lower_char :: "char \<Rightarrow> char" where
  "lower_char c = (if CHR ''A'' \<le> c \<and> c \<le> CHR ''Z'' then char_of (of_char c + 32 :: nat) else c)"

text \<open>A byte of a C string, as the signed number that \<open>char\<close> is.\<close>

definition schar :: "char \<Rightarrow> int" where
  "schar c = (of_char c + 128) mod 256 - 128"

definition char_at :: "string \<Rightarrow> nat \<Rightarrow> int" where
  "char_at s i = (if i < length s then schar (s ! i) else 0)"

text \<open>The result of \<open>uname\<close>: nothing when it fails, else the name of the system and its release.\<close>

definition CheckIfKernelSupportsTLS :: "(string \<times> string) option \<Rightarrow> ('o, 'z) tc_state_scheme \<Rightarrow> ('o, 'z) tc_state_scheme" where
  "CheckIfKernelSupportsTLS buf st =
     st\<lparr>kernel_supports_tls :=
       (case buf of None \<Rightarrow> False
        | Some (sysname, release) \<Rightarrow>
            if map lower_char sysname = ''linux'' then
              if char_at release 0 < schar CHR ''2'' \<and> char_at release 1 = schar CHR ''.'' then False
              else if char_at release 0 = schar CHR ''2'' \<and> char_at release 1 = schar CHR ''.'' \<and>
                      char_at release 2 \<ge> schar CHR ''0'' \<and> char_at release 2 < schar CHR ''6'' \<and> char_at release 3 = schar CHR ''.'' then False
              else True
            else if map lower_char sysname = ''cygwin_nt-6.1-wow64'' then False
            else True)\<rparr>"

definition GetThreadHeap :: "nat \<Rightarrow> ('o, 'z) tc_state_scheme \<Rightarrow> addr" where
  "GetThreadHeap me st = (if kernel_supports_tls st then tls_heap st me else heap_key st me)"

definition GetCacheWhichMustBePresent :: "nat \<Rightarrow> ('o, 'z) tc_state_scheme \<Rightarrow> addr" where
  "GetCacheWhichMustBePresent me st = tls_heap st me"

definition MinSizeForSlowPath :: "nat \<Rightarrow> ('o, 'z) tc_state_scheme \<Rightarrow> nat" where
  "MinSizeForSlowPath me st = min_size_for_slow_path st me"

definition SetMinSizeForSlowPath :: "nat \<Rightarrow> nat \<Rightarrow> ('o, 'z) tc_state_scheme \<Rightarrow> ('o, 'z) tc_state_scheme" where
  "SetMinSizeForSlowPath me n st = st\<lparr>min_size_for_slow_path := (min_size_for_slow_path st)(me := n)\<rparr>"

definition IsFastPathAllowed :: "nat \<Rightarrow> ('o, 'z) tc_state_scheme \<Rightarrow> bool" where
  "IsFastPathAllowed me st \<longleftrightarrow> MinSizeForSlowPath me st \<noteq> 0"

text \<open>
  The environment: the parsed values of \<open>TCMALLOC_MAX_TOTAL_THREAD_CACHE_BYTES\<close>, \<open>APF_PARAMETER\<close>,
  \<open>TCMALLOC_TRANSFER_NUM_OBJ\<close> and \<open>TCMALLOC_AGGRESSIVE_DECOMMIT\<close>.
\<close>

record environment =
  env_cache_bytes :: "int option"
  env_apf :: "int option"
  env_transfer :: "int option"
  env_transfer_flag :: int
  env_aggressive :: bool

definition InitModule :: "'o os \<Rightarrow> environment \<Rightarrow> ('o, 'z) tc_state_scheme \<Rightarrow> ('o, 'z) tc_state_scheme res" where
  "InitModule os env st =
     (if \<not> phinited st then
        bind_res (case env_cache_bytes env of None \<Rightarrow> Inr st | Some v \<Rightarrow> set_overall_thread_cache_size (nat (v mod 2 ^ 64)) st) (\<lambda>st.
        bind_res (InitStaticVars os (env_transfer env) (env_transfer_flag env) (env_aggressive env) st) (\<lambda>st.
        bind_res (PHA_Init os sizeof_ThreadCache (cache_links st) st) (\<lambda>(pha, links, st).
        Inr (st\<lparr>threadcache_allocator := pha, cache_links := links, phinited := True\<rparr>))))
      else Inr st)"

definition InitTSD :: "('o, 'z) tc_state_scheme \<Rightarrow> ('o, 'z) tc_state_scheme" where
  "InitTSD st = st\<lparr>heap_key := (\<lambda>_. 0), tsd_inited := True\<rparr>"

definition CreateCacheIfNecessary :: "'o os \<Rightarrow> environment \<Rightarrow> nat \<Rightarrow> ('o, 'z) tc_state_scheme \<Rightarrow> (addr \<times> ('o, 'z) tc_state_scheme) res" where
  "CreateCacheIfNecessary os env me st =
     bind_res (case find_heap (caches st) me (thread_heaps st) of None \<Rightarrow> Inl Diverge | Some r \<Rightarrow> r) (\<lambda>heap.
     bind_res (if heap = 0 then NewHeap os (env_apf env) me st else Inr (heap, st)) (\<lambda>(heap, st).
     bind_res (get_tc heap st) (\<lambda>t.
     if \<not> in_setspecific t \<and> tsd_inited st then
       bind_res (upd_tc heap (in_setspecific_update (\<lambda>_. True)) st) (\<lambda>st.
       let st = st\<lparr>heap_key := (heap_key st)(me := heap), tls_heap := (tls_heap st)(me := heap)\<rparr>;
           st = SetMinSizeForSlowPath me (nat kMaxSize + 1) st
       in bind_res (upd_tc heap (in_setspecific_update (\<lambda>_. False)) st) (\<lambda>st.
          Inr (heap, st)))
     else Inr (heap, st))))"

definition GetCache :: "'o os \<Rightarrow> environment \<Rightarrow> nat \<Rightarrow> ('o, 'z) tc_state_scheme \<Rightarrow> (addr \<times> ('o, 'z) tc_state_scheme) res" where
  "GetCache os env me st =
     bind_res (if \<not> tsd_inited st then bind_res (InitModule os env st) (\<lambda>st. Inr (0, st))
               else Inr (GetThreadHeap me st, st)) (\<lambda>(ptr, st).
     if ptr = 0 then CreateCacheIfNecessary os env me st else Inr (ptr, st))"

definition GetCacheIfPresent :: "nat \<Rightarrow> ('o, 'z) tc_state_scheme \<Rightarrow> addr" where
  "GetCacheIfPresent me st = (if \<not> tsd_inited st then 0 else GetThreadHeap me st)"

definition BecomeIdle :: "'o os \<Rightarrow> nat \<Rightarrow> ('o, 'z) tc_state_scheme \<Rightarrow> ('o, 'z) tc_state_scheme res" where
  "BecomeIdle os me st =
     (if \<not> tsd_inited st then Inr st
      else
        let heap = GetThreadHeap me st
        in if heap = 0 then Inr st
           else
             bind_res (get_tc heap st) (\<lambda>t.
             if in_setspecific t then Inr st
             else
               bind_res (upd_tc heap (in_setspecific_update (\<lambda>_. True)) st) (\<lambda>st.
               let st = st\<lparr>heap_key := (heap_key st)(me := 0), tls_heap := (tls_heap st)(me := 0)\<rparr>;
                   st = SetMinSizeForSlowPath me 0 st
               in bind_res (upd_tc heap (in_setspecific_update (\<lambda>_. False)) st) (\<lambda>st.
                  if GetThreadHeap me st = heap then Inr st else DeleteCache os heap st))))"

definition DestroyThreadCache :: "'o os \<Rightarrow> nat \<Rightarrow> addr \<Rightarrow> ('o, 'z) tc_state_scheme \<Rightarrow> ('o, 'z) tc_state_scheme res" where
  "DestroyThreadCache os me ptr st =
     (if ptr = 0 then Inr st
      else
        let st = st\<lparr>tls_heap := (tls_heap st)(me := 0)\<rparr>;
            st = SetMinSizeForSlowPath me 0 st
        in DeleteCache os ptr st)"

end
