(* ===== verification/Frames.thy ===== *)
theory Frames
  imports Thread_Cache
begin

text \<open>
  What the layers leave alone: the operations of the system allocator, the metadata allocator, the page
  heap and the central free lists change only the variables of their own layer and of the layers below.
  The facts hold without any invariant, for every way an operation returns.
\<close>

section \<open>Partial correctness\<close>

text \<open>\<open>always P r\<close>: if the code returns, then with a value that satisfies \<open>P\<close>.\<close>

definition always :: "('a \<Rightarrow> bool) \<Rightarrow> 'a res \<Rightarrow> bool" where
  "always P r = (case r of Inl f \<Rightarrow> True | Inr x \<Rightarrow> P x)"

named_theorems frame \<open>steps of a proof that the variables of the layers above are kept\<close>

lemma always_simps [simp]: "always P (Inr x) = P x" "always P (Inl f)"
  by (simp_all add: always_def)

lemma always_iff: "always P r \<longleftrightarrow> (\<forall>x. r = Inr x \<longrightarrow> P x)"
  by (cases r) auto

lemma always_bind: "always Q m \<Longrightarrow> (\<And>x. Q x \<Longrightarrow> always P (k x)) \<Longrightarrow> always P (bind_res m k)"
  by (cases m) auto

lemma always_bind2:
  "always (\<lambda>(a, b). Q a b) m \<Longrightarrow> (\<And>a b. Q a b \<Longrightarrow> always P (k (a, b))) \<Longrightarrow> always P (bind_res m k)"
  by (cases m) auto

lemma always_bind3:
  "always (\<lambda>(a, b, c). Q a b c) m \<Longrightarrow> (\<And>a b c. Q a b c \<Longrightarrow> always P (k (a, b, c))) \<Longrightarrow> always P (bind_res m k)"
  by (cases m) auto

lemma always_bind4:
  "always (\<lambda>(a, b, c, d). Q a b c d) m \<Longrightarrow> (\<And>a b c d. Q a b c d \<Longrightarrow> always P (k (a, b, c, d))) \<Longrightarrow> always P (bind_res m k)"
  by (cases m) auto

text \<open>Steps that go through the control structure; \<open>always_skip\<close> is for calls that do not return a state.\<close>

lemma always_if: "(b \<Longrightarrow> always P x) \<Longrightarrow> (\<not> b \<Longrightarrow> always P y) \<Longrightarrow> always P (if b then x else y)"
  by simp

lemma always_bind_if:
  "(b \<Longrightarrow> always P (bind_res x k)) \<Longrightarrow> (\<not> b \<Longrightarrow> always P (bind_res y k)) \<Longrightarrow> always P (bind_res (if b then x else y) k)"
  by simp

lemma always_bind_Inr: "always P (k x) \<Longrightarrow> always P (bind_res (Inr x) k)"
  by simp

lemma always_bind_assoc: "always P (bind_res m (\<lambda>x. bind_res (k x) l)) \<Longrightarrow> always P (bind_res (bind_res m k) l)"
  by (simp add: bind_res_assoc)

lemma always_skip: "(\<And>x. always P (k x)) \<Longrightarrow> always P (bind_res m k)"
  by (cases m) auto

lemma always_option:
  "(x = None \<Longrightarrow> always P a) \<Longrightarrow> (\<And>y. x = Some y \<Longrightarrow> always P (f y)) \<Longrightarrow> always P (case x of None \<Rightarrow> a | Some y \<Rightarrow> f y)"
  by (cases x) auto

lemma always_split: "(\<And>a b. x = (a, b) \<Longrightarrow> always P (f a b)) \<Longrightarrow> always P (case x of (a, b) \<Rightarrow> f a b)"
  by (cases x) auto

lemmas always_steps = always_if always_option always_split always_bind_assoc always_bind_if always_bind_Inr always_skip

section \<open>System and metadata allocator\<close>

lemma call_more [simp]:
  "sys_state.more (snd (call_sbrk os n st)) = sys_state.more st"
  "sys_state.more (snd (call_mmap os n st)) = sys_state.more st"
  "sys_state.more (call_munmap os p n st) = sys_state.more st"
  by (simp_all add: call_sbrk_def call_mmap_def call_munmap_def split: prod.splits)

lemma call_more_pair:
  "call_sbrk os n st = (p, st') \<Longrightarrow> sys_state.more st' = sys_state.more st"
  "call_mmap os n st = (p, st') \<Longrightarrow> sys_state.more st' = sys_state.more st"
  using call_more(1,2) [of os n st] by auto

lemma Sbrk_Alloc_more: "Sbrk_Alloc os sz a al st = (p, n, st') \<Longrightarrow> sys_state.more st' = sys_state.more st"
  by (auto simp: Sbrk_Alloc_def Let_def split: if_splits prod.splits dest!: call_more_pair)

lemma Mmap_Alloc_more: "Mmap_Alloc os sz a al st = (p, n, st') \<Longrightarrow> sys_state.more st' = sys_state.more st"
  by (auto simp: Mmap_Alloc_def get_pagesize_def Let_def split: if_splits prod.splits dest!: call_more_pair)

lemma SysAllocator_Alloc_more: "SysAllocator_Alloc os k sz a al st = (p, n, st') \<Longrightarrow> sys_state.more st' = sys_state.more st"
  by (auto simp: SysAllocator_Alloc_def Sbrk_Alloc_more Mmap_Alloc_more split: SysAllocator.splits)

lemma Default_Alloc_loop_more:
  "Default_Alloc_loop os is sz a al st = (p, n, st') \<Longrightarrow> sys_state.more st' = sys_state.more st"
proof (induction os "is" sz a al st rule: Default_Alloc_loop.induct)
  case (2 os i "is" sz a al st)
  then show ?case
    by (auto split: option.splits if_splits prod.splits dest!: SysAllocator_Alloc_more)
qed auto

lemma TCMalloc_SystemAlloc_more:
  "TCMalloc_SystemAlloc os sz al st = Inr (p, n, st') \<Longrightarrow> sys_state.more st' = sys_state.more st"
  by (auto simp: TCMalloc_SystemAlloc_def Default_Alloc_def InitSystemAllocators_def SetChildAllocator_def Let_def
      split: if_splits prod.splits dest!: Default_Alloc_loop_more)

lemma madvise_loop_more: "madvise_loop k os p n st = Inr (b, st') \<Longrightarrow> sys_state.more st' = sys_state.more st"
  by (induction k arbitrary: st) (auto simp: Let_def split: prod.splits madvise_result.splits)

lemma TCMalloc_SystemRelease_more:
  "TCMalloc_SystemRelease os p n st = Inr (b, st') \<Longrightarrow> sys_state.more st' = sys_state.more st"
  by (auto simp: TCMalloc_SystemRelease_def get_pagesize_def Let_def simp del: madvise_loop.simps
      split: if_splits dest!: madvise_loop_more)

lemma more_above:
  "sys_state.more st' = sys_state.more st \<Longrightarrow> meta_state.more st' = meta_state.more st"
  by (cases st, cases st') auto

lemma MetaDataAlloc_more: "MetaDataAlloc os n st = Inr (p, st') \<Longrightarrow> meta_state.more st' = meta_state.more st"
  by (auto simp: MetaDataAlloc_def bind_res_Inr_iff Let_def split: if_splits dest!: TCMalloc_SystemAlloc_more more_above)

lemma PHA_New_more: "PHA_New os sz a links st = Inr (p, a', st') \<Longrightarrow> meta_state.more st' = meta_state.more st"
  by (auto simp: PHA_New_def bind_res_Inr_iff Let_def split: if_splits dest!: MetaDataAlloc_more)

lemma PHA_Init_more: "PHA_Init os sz links st = Inr (a', l', st') \<Longrightarrow> meta_state.more st' = meta_state.more st"
  by (auto simp: PHA_Init_def bind_res_Inr_iff Let_def split: if_splits dest!: PHA_New_more)

section \<open>Page heap\<close>

lemma heap_above:
  "meta_state.more st' = meta_state.more st \<Longrightarrow> heap.more st' = heap.more st"
  "sys_state.more st' = sys_state.more st \<Longrightarrow> heap.more st' = heap.more st"
  by (cases st, cases st', auto)+

lemma on_spans_keep: "heap.more st = m \<Longrightarrow> always (\<lambda>st. heap.more st = m) (on_spans f st)"
  by (auto simp: always_iff on_spans_def bind_res_Inr_iff)

lemmas on_spans_frame [frame] = on_spans_keep always_bind [OF on_spans_keep]

lemma pagemap_set_keep: "heap.more st = m \<Longrightarrow> always (\<lambda>st. heap.more st = m) (pagemap_set k sp st)"
  by (auto simp: always_iff pagemap_set_def bind_res_Inr_iff split: sptr.splits)

lemmas pagemap_set_frame [frame] = pagemap_set_keep always_bind [OF pagemap_set_keep]

lemma NewSpan_keep: "heap.more st = m \<Longrightarrow> always (\<lambda>(sp, st). heap.more st = m) (NewSpan os p n st)"
  by (auto simp: always_iff NewSpan_def bind_res_Inr_iff dest!: PHA_New_more heap_above(1))

lemmas NewSpan_frame [frame] = NewSpan_keep always_bind2 [OF NewSpan_keep]

lemma DeleteSpan_keep: "heap.more st = m \<Longrightarrow> always (\<lambda>st. heap.more st = m) (DeleteSpan sp st)"
  by (auto simp: always_iff DeleteSpan_def bind_res_Inr_iff split: sptr.splits)

lemmas DeleteSpan_frame [frame] = DeleteSpan_keep always_bind [OF DeleteSpan_keep]

lemma RecordSpan_keep: "heap.more st = m \<Longrightarrow> always (\<lambda>st. heap.more st = m) (RecordSpan sp st)"
  unfolding RecordSpan_def by (simp only: prod.case | rule frame always_steps | assumption | simp)+

lemmas RecordSpan_frame [frame] = RecordSpan_keep always_bind [OF RecordSpan_keep]

lemma PrependToFreeList_keep: "heap.more st = m \<Longrightarrow> always (\<lambda>st. heap.more st = m) (PrependToFreeList sp st)"
  unfolding PrependToFreeList_def by (simp only: prod.case | rule frame always_steps | assumption | simp)+

lemmas PrependToFreeList_frame [frame] = PrependToFreeList_keep always_bind [OF PrependToFreeList_keep]

lemma RemoveFromFreeList_keep: "heap.more st = m \<Longrightarrow> always (\<lambda>st. heap.more st = m) (RemoveFromFreeList sp st)"
  unfolding RemoveFromFreeList_def by (simp only: prod.case | rule frame always_steps | assumption | simp)+

lemmas RemoveFromFreeList_frame [frame] = RemoveFromFreeList_keep always_bind [OF RemoveFromFreeList_keep]

lemma CommitSpan_keep: "heap.more st = m \<Longrightarrow> always (\<lambda>st. heap.more st = m) (CommitSpan sp st)"
  by (auto simp: always_iff CommitSpan_def bind_res_Inr_iff TCMalloc_SystemCommit_def Let_def)

lemmas CommitSpan_frame [frame] = CommitSpan_keep always_bind [OF CommitSpan_keep]

lemma SystemRelease_keep:
  fixes st :: "('o, 'z) heap_scheme"
  shows "heap.more st = m \<Longrightarrow> always (\<lambda>(b, st). heap.more st = m) (TCMalloc_SystemRelease os p n st)"
  by (auto simp: always_iff dest!: TCMalloc_SystemRelease_more heap_above(2))

lemmas SystemRelease_frame [frame] = SystemRelease_keep always_bind2 [OF SystemRelease_keep]

lemma DecommitSpan_keep: "heap.more st = m \<Longrightarrow> always (\<lambda>(b, st). heap.more st = m) (DecommitSpan os sp st)"
  unfolding DecommitSpan_def by (simp only: prod.case | rule frame always_steps | assumption | simp)+

lemmas DecommitSpan_frame [frame] = DecommitSpan_keep always_bind2 [OF DecommitSpan_keep]

lemma Carve_keep: "heap.more st = m \<Longrightarrow> always (\<lambda>(a, st). heap.more st = m) (Carve os sp n st)"
  unfolding Carve_def Let_def  by (simp only: prod.case | rule frame always_steps | assumption | simp)+

lemmas Carve_frame [frame] = Carve_keep always_bind2 [OF Carve_keep]

lemma Split_keep: "heap.more st = m \<Longrightarrow> always (\<lambda>(a, st). heap.more st = m) (Split os sp n st)"
  unfolding Split_def Let_def  by (simp only: prod.case | rule frame always_steps | assumption | simp)+

lemmas Split_frame [frame] = Split_keep always_bind2 [OF Split_keep]

lemma merge_prev_keep: "heap.more st = m \<Longrightarrow> always (\<lambda>(a, st). heap.more st = m) (merge_prev sp p st)"
  unfolding merge_prev_def Let_def  by (simp only: prod.case | rule frame always_steps | assumption | simp)+

lemmas merge_prev_frame [frame] = merge_prev_keep always_bind2 [OF merge_prev_keep]

lemma merge_next_keep: "heap.more st = m \<Longrightarrow> always (\<lambda>(a, st). heap.more st = m) (merge_next sp p k st)"
  unfolding merge_next_def Let_def  by (simp only: prod.case | rule frame always_steps | assumption | simp)+

lemmas merge_next_frame [frame] = merge_next_keep always_bind2 [OF merge_next_keep]

lemma MergeIntoFreeList_keep: "heap.more st = m \<Longrightarrow> always (\<lambda>st. heap.more st = m) (MergeIntoFreeList os sp st)"
  unfolding MergeIntoFreeList_def Let_def  by (simp only: prod.case | rule frame always_steps | assumption | simp)+

lemmas MergeIntoFreeList_frame [frame] = MergeIntoFreeList_keep always_bind [OF MergeIntoFreeList_keep]

lemma ReleaseLastNormalSpan_keep: "heap.more st = m \<Longrightarrow> always (\<lambda>(a, st). heap.more st = m) (ReleaseLastNormalSpan os i st)"
  unfolding ReleaseLastNormalSpan_def Let_def  by (simp only: prod.case | rule frame always_steps | assumption | simp)+

lemmas ReleaseLastNormalSpan_frame [frame] = ReleaseLastNormalSpan_keep always_bind2 [OF ReleaseLastNormalSpan_keep]

lemma release_round_keep:
  "heap.more st = m \<Longrightarrow> always (\<lambda>(a, b, st). heap.more st = m) (release_round k os n r st)"
proof (induction k arbitrary: r st)
  case (Suc k)
  note [frame] = Suc.IH
  show ?case unfolding release_round.simps Let_def
    by (insert Suc.prems, (simp only: prod.case | rule frame always_steps | assumption | simp)+)
qed simp

lemmas release_round_frame [frame] = release_round_keep always_bind3 [OF release_round_keep]

lemma release_rounds_keep:
  "heap.more st = m \<Longrightarrow> always (\<lambda>(a, st). heap.more st = m) (release_rounds k os n r st)"
proof (induction k arbitrary: r st)
  case (Suc k)
  note [frame] = Suc.IH
  show ?case unfolding release_rounds.simps
    by (insert Suc.prems, (simp only: prod.case | rule frame always_steps | assumption | simp)+)
qed simp

lemmas release_rounds_frame [frame] = release_rounds_keep always_bind2 [OF release_rounds_keep]

lemma ReleaseAtLeastNPages_keep: "heap.more st = m \<Longrightarrow> always (\<lambda>(a, st). heap.more st = m) (ReleaseAtLeastNPages os n st)"
  unfolding ReleaseAtLeastNPages_def Let_def  by (simp only: prod.case | rule frame always_steps | assumption | simp)+

lemmas ReleaseAtLeastNPages_frame [frame] = ReleaseAtLeastNPages_keep always_bind2 [OF ReleaseAtLeastNPages_keep]

lemma IncrementalScavenge_keep: "heap.more st = m \<Longrightarrow> always (\<lambda>st. heap.more st = m) (IncrementalScavenge os n st)"
  unfolding IncrementalScavenge_def Let_def  by (simp only: prod.case | rule frame always_steps | assumption | simp)+

lemmas IncrementalScavenge_frame [frame] = IncrementalScavenge_keep always_bind [OF IncrementalScavenge_keep]

lemma Delete_keep: "heap.more st = m \<Longrightarrow> always (\<lambda>st. heap.more st = m) (Delete os sp st)"
  unfolding Delete_def Let_def  by (simp only: prod.case | rule frame always_steps | assumption | simp)+

lemmas Delete_frame [frame] = Delete_keep always_bind [OF Delete_keep]

lemma EnsureLimit_keep: "heap.more st = m \<Longrightarrow> always (\<lambda>(a, st). heap.more st = m) (EnsureLimit os n b st)"
  unfolding EnsureLimit_def Let_def  by (simp only: prod.case | rule frame always_steps | assumption | simp)+

lemmas EnsureLimit_frame [frame] = EnsureLimit_keep always_bind2 [OF EnsureLimit_keep]

lemma AllocLarge_depth_keep: "heap.more st = m \<Longrightarrow> always (\<lambda>(a, st). heap.more st = m) (AllocLarge_depth k os n st)"
proof (induction k arbitrary: st)
  case (Suc k)
  note [frame] = Suc.IH
  show ?case unfolding AllocLarge_depth.simps Let_def
    by (insert Suc.prems, (simp only: prod.case | rule frame always_steps | assumption | simp)+)
qed simp

lemmas AllocLarge_depth_frame [frame] = AllocLarge_depth_keep always_bind2 [OF AllocLarge_depth_keep]

lemma AllocLarge_keep: "heap.more st = m \<Longrightarrow> always (\<lambda>(a, st). heap.more st = m) (AllocLarge os n st)"
  unfolding AllocLarge_def Let_def  by (simp only: prod.case | rule frame always_steps | assumption | simp)+

lemmas AllocLarge_frame [frame] = AllocLarge_keep always_bind2 [OF AllocLarge_keep]

lemma search_lists_keep: "heap.more st = m \<Longrightarrow> always (\<lambda>(a, st). heap.more st = m) (search_lists os n ss st)"
proof (induction ss arbitrary: st)
  case Nil
  then show ?case by (simp add: AllocLarge_keep)
next
  case (Cons s ss)
  note [frame] = Cons.IH
  show ?case unfolding search_lists.simps
    by (insert Cons.prems, (simp only: prod.case | rule frame always_steps | assumption | simp)+)
qed

lemmas search_lists_frame [frame] = search_lists_keep always_bind2 [OF search_lists_keep]

lemma SearchFreeAndLargeLists_keep: "heap.more st = m \<Longrightarrow> always (\<lambda>(a, st). heap.more st = m) (SearchFreeAndLargeLists os n st)"
  unfolding SearchFreeAndLargeLists_def Let_def  by (simp only: prod.case | rule frame always_steps | assumption | simp)+

lemmas SearchFreeAndLargeLists_frame [frame] = SearchFreeAndLargeLists_keep always_bind2 [OF SearchFreeAndLargeLists_keep]

lemma SystemAlloc_keep:
  fixes st :: "('o, 'z) heap_scheme"
  shows "heap.more st = m \<Longrightarrow> always (\<lambda>(a, b, st). heap.more st = m) (TCMalloc_SystemAlloc os p n st)"
  by (auto simp: always_iff dest!: TCMalloc_SystemAlloc_more heap_above(2))

lemmas SystemAlloc_frame [frame] = SystemAlloc_keep always_bind3 [OF SystemAlloc_keep]

lemma MetaDataAlloc_keep:
  fixes st :: "('o, 'z) heap_scheme"
  shows "heap.more st = m \<Longrightarrow> always (\<lambda>(a, st). heap.more st = m) (MetaDataAlloc os n st)"
  by (auto simp: always_iff dest!: MetaDataAlloc_more heap_above(1))

lemmas MetaDataAlloc_frame [frame] = MetaDataAlloc_keep always_bind2 [OF MetaDataAlloc_keep]

text \<open>The page map takes its nodes from an allocator; what that keeps, \<open>Ensure\<close> keeps.\<close>

lemma Ensure_step_keep:
  assumes al: "\<And>n s. I s \<Longrightarrow> always (\<lambda>(p, s). I s) (al n s)" and s: "I s"
  shows "always (\<lambda>(ok, pm, s). I s) (PageMap3_Ensure_step bits al key pm s)"
proof -
  have nn: "always (\<lambda>(ok, s). I s) (NewNode bits al s)"
    unfolding NewNode_def by (rule always_bind2 [OF al [OF s]]) (auto split: prod.splits)
  have leaf: "always (\<lambda>(ok, pm, s). I s) (bind_res (al n s') (\<lambda>(leaf, s). if leaf = 0 then Inr (False, pm, s) else Inr (True, f, s)))"
    if "I s'" for n s' pm f
    by (rule always_bind2 [OF al [OF that]]) simp
  have fin: "always (\<lambda>(ok, pm, s). I s) (if \<not> ok then Inr (False, pm, s')
      else bind_res (rd_root3 bits pm i1) (\<lambda>n1. case n1 of None \<Rightarrow> Inl Segv
        | Some ls \<Rightarrow> if ls i2 = None then bind_res (al n s') (\<lambda>(leaf, s). if leaf = 0 then Inr (False, pm, s)
            else Inr (True, put_leaves pm i1 (ls(i2 \<mapsto> (\<lambda>_. 0))), s)) else Inr (True, pm, s')))"
    if "I s'" for ok pm s' i1 i2 n
    by (intro always_if always_skip) (auto simp: that leaf split: option.splits)
  show ?thesis
    unfolding PageMap3_Ensure_step_def Let_def
    by (intro always_if always_skip always_bind3 [where Q = "\<lambda>ok pm s. I s"])
      (auto simp: s fin split: option.splits intro!: always_bind2 [OF nn])
qed

lemma Ensure_loop_keep:
  assumes al: "\<And>n s. I s \<Longrightarrow> always (\<lambda>(p, s). I s) (al n s)" and s: "I s"
  shows "always (\<lambda>(ok, pm, s). I s) (PageMap3_Ensure_loop bits al lst key pm s)"
  using assms
proof (induction bits al lst key pm s rule: PageMap3_Ensure_loop.induct)
  case (1 bits al lst key pm s)
  have IH: "I s' \<Longrightarrow> always (\<lambda>(ok, pm, s). I s) (PageMap3_Ensure_loop bits al lst (advance (LEAF_BITS3 bits) key) pm' s')"
    if "key \<le> lst" "PageMap3_Ensure_step bits al key pm s = Inr (True, pm', s')" for pm' s'
    using "1.IH" [OF that refl refl _ "1.prems"(1)] by simp
  show ?case
  proof (cases "PageMap3_Ensure_step bits al key pm s")
    case (Inr r)
    then have "I (snd (snd r))" using Ensure_step_keep [where I = I, OF "1.prems"(1) "1.prems"(2)] by (cases r) (auto simp: always_iff)
    then show ?thesis
      using Inr IH by (subst PageMap3_Ensure_loop.simps) (cases r, auto simp: "1.prems"(2))
  qed (subst PageMap3_Ensure_loop.simps, simp add: "1.prems"(2))
qed

lemma Ensure_keep:
  fixes st :: "('o, 'z) heap_scheme"
  shows "heap.more st = m \<Longrightarrow> always (\<lambda>(a, b, st). heap.more st = m) (PageMap3_Ensure bits (MetaDataAlloc os) k n pm st)"
  unfolding PageMap3_Ensure_def by (rule Ensure_loop_keep [where I = "\<lambda>st. heap.more st = m"]) (rule MetaDataAlloc_keep)

lemmas Ensure_frame [frame] = Ensure_keep always_bind3 [OF Ensure_keep]

lemma GrowHeap_alloc_keep: "heap.more st = m \<Longrightarrow> always (\<lambda>(a, b, st). heap.more st = m) (GrowHeap_alloc os n st)"
  unfolding GrowHeap_alloc_def Let_def  by (simp only: prod.case | rule frame always_steps | assumption | simp)+

lemmas GrowHeap_alloc_frame [frame] = GrowHeap_alloc_keep always_bind3 [OF GrowHeap_alloc_keep]

lemma GrowHeap_keep: "heap.more st = m \<Longrightarrow> always (\<lambda>(a, st). heap.more st = m) (GrowHeap os n st)"
  unfolding GrowHeap_def Let_def  by (simp only: prod.case | rule frame always_steps | assumption | simp)+

lemmas GrowHeap_frame [frame] = GrowHeap_keep always_bind2 [OF GrowHeap_keep]

lemma New_keep: "heap.more st = m \<Longrightarrow> always (\<lambda>(a, st). heap.more st = m) (New os n st)"
  unfolding New_def Let_def  by (simp only: prod.case | rule frame always_steps | assumption | simp)+

lemmas New_frame [frame] = New_keep always_bind2 [OF New_keep]

lemma set_pages_keep: "heap.more st = m \<Longrightarrow> always (\<lambda>st. heap.more st = m) (set_pages k p sp st)"
proof (induction k arbitrary: p st)
  case (Suc k)
  note [frame] = Suc.IH
  show ?case unfolding set_pages.simps
    by (insert Suc.prems, (simp only: prod.case | rule frame always_steps | assumption | simp)+)
qed simp

lemmas set_pages_frame [frame] = set_pages_keep always_bind [OF set_pages_keep]

lemma RegisterSizeClass_keep: "heap.more st = m \<Longrightarrow> always (\<lambda>st. heap.more st = m) (RegisterSizeClass sp sc st)"
  unfolding RegisterSizeClass_def Let_def  by (simp only: prod.case | rule frame always_steps | assumption | simp)+

lemmas RegisterSizeClass_frame [frame] = RegisterSizeClass_keep always_bind [OF RegisterSizeClass_keep]

lemma CacheSizeClass_more [simp]: "heap.more (CacheSizeClass p cl st) = heap.more st"
  by (simp add: CacheSizeClass_def)

section \<open>Central free lists\<close>

text \<open>An operation that keeps the variables above the heap keeps those above the central free lists.\<close>

lemma central_above: "heap.more st' = heap.more st \<Longrightarrow> central.more st' = central.more st"
  by (cases st, cases st') auto

lemma central_keep1:
  fixes st :: "('o, 'z) central_scheme"
  assumes "\<And>m. heap.more st = m \<Longrightarrow> always (\<lambda>st. heap.more st = m) r" "central.more st = m"
  shows "always (\<lambda>st. central.more st = m) r"
  using assms(1) [OF refl] assms(2) by (auto simp: always_iff dest!: central_above)

lemma central_keep2:
  fixes st :: "('o, 'z) central_scheme"
  assumes "\<And>m. heap.more st = m \<Longrightarrow> always (\<lambda>(a, st). heap.more st = m) r" "central.more st = m"
  shows "always (\<lambda>(a, st). central.more st = m) r"
  using assms(1) [OF refl] assms(2) by (auto simp: always_iff dest!: central_above)

lemmas heap_calls_keep = central_keep1 [OF on_spans_keep] central_keep1 [OF Delete_keep] central_keep1 [OF RegisterSizeClass_keep]

lemmas heap_calls_frame [frame] = heap_calls_keep [THEN always_bind] heap_calls_keep
  central_keep2 [OF New_keep] always_bind2 [OF central_keep2 [OF New_keep]]

lemma CacheSizeClass_central [simp]: "central.more (CacheSizeClass p cl st) = central.more st"
  by (rule central_above) simp

lemma upd_cfl_keep: "central.more st = m \<Longrightarrow> always (\<lambda>st. central.more st = m) (upd_cfl cl f st)"
  by (auto simp: always_iff upd_cfl_def bind_res_Inr_iff)

lemmas upd_cfl_frame [frame] = upd_cfl_keep always_bind [OF upd_cfl_keep]

lemma on_objs_keep: "central.more st = m \<Longrightarrow> always (\<lambda>st. central.more st = m) (on_objs f st)"
  by (auto simp: always_iff on_objs_def bind_res_Inr_iff)

lemmas on_objs_frame [frame] = on_objs_keep always_bind [OF on_objs_keep]

lemma ReleaseToSpans_keep: "central.more st = m \<Longrightarrow> always (\<lambda>st. central.more st = m) (ReleaseToSpans os this x st)"
  unfolding ReleaseToSpans_def Let_def  by (simp only: prod.case | rule frame always_steps | assumption | simp)+

lemmas ReleaseToSpans_frame [frame] = ReleaseToSpans_keep always_bind [OF ReleaseToSpans_keep]

lemma ReleaseListToSpans_loop_keep:
  fixes st :: "('o, 'z) central_scheme"
  assumes "ReleaseListToSpans_loop os this x st = Some r"
  shows "central.more st = m \<longrightarrow> always (\<lambda>st. central.more st = m) r"
proof (rule ReleaseListToSpans_loop.raw_induct [OF _ assms], intro impI)
  fix loop and os :: "'o os" and this x and st :: "('o, 'z) central_scheme" and r
  assume IH: "\<And>os this x st r. loop os this x st = Some r \<Longrightarrow> central.more st = m \<longrightarrow> always (\<lambda>st. central.more st = m) r"
    and r: "(if x = 0 then Some (Inr st) else let nx = objs st x in case ReleaseToSpans os this x st of
        Inl f \<Rightarrow> Some (Inl f) | Inr st \<Rightarrow> loop os this nx st) = Some r"
    and st: "central.more st = m"
  show "always (\<lambda>st. central.more st = m) r"
  proof (cases "x = 0 \<or> (\<exists>f. ReleaseToSpans os this x st = Inl f)")
    case True
    then show ?thesis using r st by (auto simp: Let_def split: if_splits)
  next
    case False
    then obtain st1 where st1: "ReleaseToSpans os this x st = Inr st1" by (cases "ReleaseToSpans os this x st") auto
    then have "central.more st1 = m" using ReleaseToSpans_keep [OF st, of os this x] by simp
    then show ?thesis using r st1 False IH by (simp add: Let_def)
  qed
qed

lemma ReleaseListToSpans_keep: "central.more st = m \<Longrightarrow> always (\<lambda>st. central.more st = m) (ReleaseListToSpans os this x st)"
  by (auto simp: ReleaseListToSpans_def dest: ReleaseListToSpans_loop_keep [THEN mp] split: option.splits)

lemmas ReleaseListToSpans_frame [frame] = ReleaseListToSpans_keep always_bind [OF ReleaseListToSpans_keep]

lemma ShrinkCache_keep: "central.more st = m \<Longrightarrow> always (\<lambda>(a, st). central.more st = m) (ShrinkCache os this l b st)"
  unfolding ShrinkCache_def Let_def  by (simp only: prod.case | rule frame always_steps | assumption | simp)+

lemmas ShrinkCache_frame [frame] = ShrinkCache_keep always_bind2 [OF ShrinkCache_keep]

lemma EvictRandomSizeClass_keep: "central.more st = m \<Longrightarrow> always (\<lambda>(a, st). central.more st = m) (EvictRandomSizeClass os l b st)"
  by (auto simp: EvictRandomSizeClass_def Let_def intro!: ShrinkCache_keep)

lemmas EvictRandomSizeClass_frame [frame] = EvictRandomSizeClass_keep always_bind2 [OF EvictRandomSizeClass_keep]

lemma MakeCacheSpace_keep: "central.more st = m \<Longrightarrow> always (\<lambda>(a, st). central.more st = m) (MakeCacheSpace os this st)"
  unfolding MakeCacheSpace_def Let_def  by (simp only: prod.case | rule frame always_steps | assumption | simp)+

lemmas MakeCacheSpace_frame [frame] = MakeCacheSpace_keep always_bind2 [OF MakeCacheSpace_keep]

lemma InsertRange_keep: "central.more st = m \<Longrightarrow> always (\<lambda>st. central.more st = m) (InsertRange os this x y n st)"
  unfolding InsertRange_def Let_def  by (simp only: prod.case | rule frame always_steps | assumption | simp)+

lemmas InsertRange_frame [frame] = InsertRange_keep always_bind [OF InsertRange_keep]

lemma FetchFromOneSpans_keep: "central.more st = m \<Longrightarrow> always (\<lambda>(a, b, c, st). central.more st = m) (FetchFromOneSpans this n x y st)"
  unfolding FetchFromOneSpans_def Let_def  by (simp only: prod.case | rule frame always_steps | assumption | simp)+

lemmas FetchFromOneSpans_frame [frame] = FetchFromOneSpans_keep always_bind4 [OF FetchFromOneSpans_keep]

lemma set_tail_keep: "central.more st = m \<Longrightarrow> always (\<lambda>st. central.more st = m) (set_tail sp t v st)"
  unfolding set_tail_def Let_def  by (simp only: prod.case | rule frame always_steps | assumption | simp)+

lemmas set_tail_frame [frame] = set_tail_keep always_bind [OF set_tail_keep]

lemma chain_objects_keep:
  "central.more st = m \<Longrightarrow> always (\<lambda>(a, b, st). central.more st = m) (chain_objects sp tail ptr limit sz num st)"
proof (induction sp tail ptr limit sz num st rule: chain_objects.induct)
  case (1 sp tail ptr limit sz num st)
  have IH: "always (\<lambda>(a, b, st). central.more st = m) (chain_objects sp (Some ptr) (ptr + sz) limit sz (num + 1) st')"
    if "ptr + sz \<le> limit" "sz \<noteq> 0" "set_tail sp tail ptr st = Inr st'" for st'
    using "1.IH" [OF that] set_tail_keep [OF "1.prems", of sp tail ptr] that(3) by (simp add: always_iff)
  show ?case using "1.prems"
    by (subst chain_objects.simps) (cases "set_tail sp tail ptr st", auto simp: IH)
qed

lemmas chain_objects_frame [frame] = chain_objects_keep always_bind3 [OF chain_objects_keep]

lemma cache_pages_central [simp]: "central.more (cache_pages n p cl st) = central.more st"
  by (induction n arbitrary: p st) simp_all

lemma Populate_keep: "central.more st = m \<Longrightarrow> always (\<lambda>st. central.more st = m) (Populate os this st)"
  unfolding Populate_def Let_def  by (simp only: prod.case | rule frame always_steps | assumption | simp)+

lemmas Populate_frame [frame] = Populate_keep always_bind [OF Populate_keep]

lemma FetchFromOneSpansSafe_keep: "central.more st = m \<Longrightarrow> always (\<lambda>(a, b, c, st). central.more st = m) (FetchFromOneSpansSafe os this n x y st)"
  unfolding FetchFromOneSpansSafe_def Let_def  by (simp only: prod.case | rule frame always_steps | assumption | simp)+

lemmas FetchFromOneSpansSafe_frame [frame] = FetchFromOneSpansSafe_keep always_bind4 [OF FetchFromOneSpansSafe_keep]

lemma remove_loop_keep:
  "central.more st = m \<Longrightarrow> always (\<lambda>(a, b, st). central.more st = m) (remove_loop os this N k x st)"
proof (induction os this N k x st rule: remove_loop.induct)
  case (1 os this N k x st)
  show ?case
  proof (cases "FetchFromOneSpansSafe os this (N - k) 0 0 st")
    case (Inr r)
    obtain n hd tl st1 where r: "r = (n, hd, tl, st1)" by (cases r)
    have st1: "central.more st1 = m"
      using FetchFromOneSpansSafe_keep [OF "1.prems", of os this "N - k" 0 0] Inr r by (simp add: always_iff)
    have IH: "always (\<lambda>(a, b, st). central.more st = m) (remove_loop os this N (k + n) y (st1\<lparr>objs := ob\<rparr>))"
      if "k < N" "n \<noteq> 0" "SLL_PushRange (objs st1) x hd tl = Inr (y, ob)" for y ob
      using "1.IH" [OF that(1) Inr [unfolded r] refl refl refl that(2,3) refl] st1 by simp
    show ?thesis
      using "1.prems" st1 Inr r IH by (subst remove_loop.simps) (cases "SLL_PushRange (objs st1) x hd tl", auto)
  qed (subst remove_loop.simps, simp add: "1.prems")
qed

lemmas remove_loop_frame [frame] = remove_loop_keep always_bind3 [OF remove_loop_keep]

lemma RemoveRange_keep: "central.more st = m \<Longrightarrow> always (\<lambda>(a, b, c, st). central.more st = m) (RemoveRange os this n st)"
  unfolding RemoveRange_def Let_def  by (simp only: prod.case | rule frame always_steps | assumption | simp)+

lemmas RemoveRange_frame [frame] = RemoveRange_keep always_bind4 [OF RemoveRange_keep]

end
