(* ===== verification/Central_Inv.thy ===== *)
theory Central_Inv
  imports Central_Freelist Frames
begin

text \<open>
  The invariant of the central free lists.  Every object of a span with a size class is in exactly one place: in the
  chain of free objects of its span, in a chain of the transfer cache, or out with a client.  Three ghost
  variables say where: \<open>C a\<close> is the chain of the span at \<open>a\<close>, \<open>T cl\<close> the chains in the slots of list \<open>cl\<close>, and
  \<open>X cl\<close> the objects of class \<open>cl\<close> that clients hold.
\<close>

section \<open>Lists of the clients\<close>

definition cheads :: "sptr set" where
  "cheads = heads \<union> EmptyHd ` {..<88} \<union> NonemptyHd ` {..<88}"

lemma cheads_simps [simp]:
  "cl < 88 \<Longrightarrow> EmptyHd cl \<in> cheads" "cl < 88 \<Longrightarrow> NonemptyHd cl \<in> cheads" "EmptyHd cl \<notin> heads" "NonemptyHd cl \<notin> heads" "heads \<subseteq> cheads"
  "Obj a \<notin> cheads"
  by (auto simp: cheads_def heads_def)

text \<open>A change of the links of spans that keeps their contents.\<close>

lemma hinv_relink:
  assumes inv: "hinv os owned H F st" and ss: "same_data (spans st) ss" "lists_ok ss H F'"
    and F': "\<And>h. h \<in> heads \<Longrightarrow> F' h = F h" "\<And>h x. h \<in> H - heads \<Longrightarrow> x \<in> set (F' h) \<Longrightarrow> \<exists>a s. x = Obj a \<and> sdata (spans st) a = Some s \<and> location s = IN_USE"
  shows "hinv os owned H F' (st\<lparr>spans := ss\<rparr>)" "sdata ss = sdata (spans st)"
proof -
  show D: "sdata ss = sdata (spans st)" using ss(1) by (auto simp: sdata_def same_data_def fun_eq_iff)
  have "lists_exact (sdata (spans st)) H F'"
    using hinvD(4) [OF inv] F' unfolding lists_exact_def by auto
  then show "hinv os owned H F' (st\<lparr>spans := ss\<rparr>)"
    using inv ss(2) D by (simp add: hinv_def hcore_def hgen_def hgen0_def mem_ok_def pha_inv_def meta_inv_def chunk_def sys_inv_def)
qed

lemma client_member:
  "hinv os owned H F st \<Longrightarrow> h \<in> H - heads \<Longrightarrow> x \<in> set (F h) \<Longrightarrow> \<exists>a s. x = Obj a \<and> sdata (spans st) a = Some s \<and> location s = IN_USE"
  using hinvD(4) [of os owned H F st] unfolding lists_exact_def by blast

lemma client_Remove:
  assumes inv: "hinv os owned H F st" and h: "h \<in> H - heads" "F h = xs @ x # ys"
  shows "\<exists>ss. on_spans (DLL_Remove x) st = Inr (st\<lparr>spans := ss\<rparr>) \<and> hinv os owned H (F(h := xs @ ys)) (st\<lparr>spans := ss\<rparr>) \<and> sdata ss = sdata (spans st)"
proof -
  obtain ss where ss: "DLL_Remove x (spans st) = Inr ss" "lists_ok ss H (F(h := xs @ ys))" "same_data (spans st) ss"
    using DLL_Remove_lists [OF hinvD(3) [OF inv] _ h(2)] h(1) by (auto simp: returns_def split: sum.splits)
  have "hinv os owned H (F(h := xs @ ys)) (st\<lparr>spans := ss\<rparr>)" "sdata ss = sdata (spans st)"
    by (rule hinv_relink [OF inv ss(3,2)]; use h client_member [OF inv] in \<open>auto split: if_splits\<close>)+
  then show ?thesis using ss(1) by (auto simp: on_spans_def)
qed

lemma client_Prepend:
  assumes inv: "hinv os owned H F st" and h: "h \<in> H - heads" and a: "sdata (spans st) a = Some s" "location s = IN_USE" "on_no_list H F a"
  shows "\<exists>ss. on_spans (DLL_Prepend h (Obj a)) st = Inr (st\<lparr>spans := ss\<rparr>) \<and> hinv os owned H (F(h := Obj a # F h)) (st\<lparr>spans := ss\<rparr>) \<and>
    sdata ss = sdata (spans st)"
proof -
  have "Obj a \<in> dom (spans st)" "Obj a \<notin> H"
    using sdata_Some [OF a(1)] hinvD(4) [OF inv] by (auto simp: lists_exact_def)
  then obtain ss where ss: "DLL_Prepend h (Obj a) (spans st) = Inr ss" "lists_ok ss H (F(h := Obj a # F h))" "same_data (spans st) ss"
    using DLL_Prepend_lists [OF hinvD(3) [OF inv], of h "Obj a"] h a(3) by (auto simp: returns_def on_no_list_def split: sum.splits)
  have "hinv os owned H (F(h := Obj a # F h)) (st\<lparr>spans := ss\<rparr>)" "sdata ss = sdata (spans st)"
    by (rule hinv_relink [OF inv ss(3,2)]; use h a client_member [OF inv] in \<open>auto split: if_splits\<close>)+
  then show ?thesis using ss(1) by (auto simp: on_spans_def)
qed

section \<open>Objects\<close>

definition csize :: "SizeMap \<Rightarrow> nat \<Rightarrow> nat" where "csize sm cl = nat (class_to_size_arr sm ! cl)"
definition cpages :: "SizeMap \<Rightarrow> nat \<Rightarrow> nat" where "cpages sm cl = nat (class_to_pages_arr sm ! cl)"
definition cmove :: "SizeMap \<Rightarrow> nat \<Rightarrow> int" where "cmove sm cl = num_objects_to_move_arr sm ! cl"

definition class_ok :: "SizeMap \<Rightarrow> nat \<Rightarrow> bool" where
  "class_ok sm cl \<longleftrightarrow> 0 < csize sm cl \<and> 0 < cpages sm cl \<and> cpages sm cl < 2 ^ 30 \<and> csize sm cl \<le> 2 ^ kPageShift * cpages sm cl \<and>
     2 ^ kPageShift * cpages sm cl div csize sm cl < 2 ^ 16 \<and> 1 \<le> cmove sm cl"

definition sizemap_ok :: "SizeMap \<Rightarrow> bool" where
  "sizemap_ok sm \<longleftrightarrow> length (class_to_size_arr sm) = 88 \<and> length (class_to_pages_arr sm) = 88 \<and> length (num_objects_to_move_arr sm) = 88 \<and>
     (\<forall>cl. 1 \<le> cl \<and> cl < 88 \<longrightarrow> class_ok sm cl)"

definition nobjs :: "SizeMap \<Rightarrow> Span \<Rightarrow> nat" where
  "nobjs sm s = 2 ^ kPageShift * span_length s div csize sm (sizeclass s)"

definition obj :: "SizeMap \<Rightarrow> Span \<Rightarrow> nat \<Rightarrow> addr" where
  "obj sm s i = 2 ^ kPageShift * start s + i * csize sm (sizeclass s)"

definition objs_of :: "SizeMap \<Rightarrow> Span \<Rightarrow> addr set" where
  "objs_of sm s = obj sm s ` {..<nobjs sm s}"

lemma obj_page:
  assumes "x \<in> objs_of sm s" "0 < csize sm (sizeclass s)"
  shows "x div 2 ^ kPageShift \<in> pages_of s" "2 ^ kPageShift * start s \<le> x" "x + csize sm (sizeclass s) \<le> 2 ^ kPageShift * (start s + span_length s)"
proof -
  obtain i where i: "i < nobjs sm s" "x = obj sm s i" using assms(1) by (auto simp: objs_of_def)
  let ?z = "csize sm (sizeclass s)" and ?p = "(2::nat) ^ kPageShift"
  have "Suc i * ?z \<le> ?p * span_length s"
    using i(1) assms(2) by (metis Suc_leI div_times_less_eq_dividend le_trans mult_le_mono1 nobjs_def)
  then have top: "x + ?z \<le> ?p * (start s + span_length s)" by (simp add: i(2) obj_def distrib_left)
  then show "?p * start s \<le> x" "x + ?z \<le> ?p * (start s + span_length s)" by (simp_all add: i(2) obj_def)
  have "start s \<le> x div ?p" by (simp add: i(2) obj_def less_eq_div_iff_mult_less_eq mult.commute)
  moreover have "x div ?p < start s + span_length s" using top assms(2) by (simp add: div_less_iff_less_mult mult.commute)
  ultimately show "x div ?p \<in> pages_of s" by (simp add: pages_of_def)
qed

lemma obj_inj: "0 < csize sm (sizeclass s) \<Longrightarrow> inj (obj sm s)"
  by (auto simp: inj_def obj_def)

lemma card_objs_of: "0 < csize sm (sizeclass s) \<Longrightarrow> card (objs_of sm s) = nobjs sm s"
  unfolding objs_of_def by (subst card_image) (auto intro: inj_on_subset [OF obj_inj])

lemma objs_of_upd [simp]:
  "objs_of sm (s\<lparr>refcount := n\<rparr>) = objs_of sm s" "objs_of sm (s\<lparr>objects := p\<rparr>) = objs_of sm s"
  "nobjs sm (s\<lparr>refcount := n\<rparr>) = nobjs sm s" "nobjs sm (s\<lparr>objects := p\<rparr>) = nobjs sm s"
  by (simp_all add: objs_of_def obj_def [abs_def] nobjs_def)

lemma finite_objs_of [simp]: "finite (objs_of sm s)"
  by (simp add: objs_of_def)

section \<open>The invariant\<close>

definition held :: "(nat \<Rightarrow> addr list list) \<Rightarrow> (nat \<Rightarrow> addr set) \<Rightarrow> nat \<Rightarrow> addr set" where
  "held T X cl = X cl \<union> set (concat (T cl))"

definition home :: "(addr \<Rightarrow> addr list) \<Rightarrow> nat \<Rightarrow> addr \<Rightarrow> sptr" where
  "home C cl a = (if C a = [] then EmptyHd cl else NonemptyHd cl)"

definition span_ok where
  "span_ok sm m C s a \<longleftrightarrow> sizeclass s < 88 \<and> span_length s = cpages sm (sizeclass s) \<and> sll m (objects s) (C a) \<and>
     set (C a) \<subseteq> objs_of sm s \<and> refcount s + length (C a) = nobjs sm s"

definition spans_ok where
  "spans_ok sm m F C D \<longleftrightarrow>
     (\<forall>a s. D a = Some s \<and> sizeclass s \<noteq> 0 \<longrightarrow> span_ok sm m C s a \<and> Obj a \<in> set (F (home C (sizeclass s) a))) \<and>
     (\<forall>a. C a \<noteq> [] \<longrightarrow> (\<exists>s. D a = Some s \<and> sizeclass s \<noteq> 0)) \<and>
     (\<forall>cl h a. cl < 88 \<and> h \<in> {EmptyHd cl, NonemptyHd cl} \<and> Obj a \<in> set (F h) \<longrightarrow>
        (\<exists>s. D a = Some s \<and> sizeclass s = cl \<and> cl \<noteq> 0 \<and> h = home C cl a))"

definition slot_ok where
  "slot_ok sm m cl sl xs \<longleftrightarrow> sll m (fst sl) xs \<and> xs \<noteq> [] \<and> snd sl = last xs \<and> int (length xs) = cmove sm cl"

definition list_ok where
  "list_ok sm m cl c Ts \<longleftrightarrow> size_class c = cl \<and> length (tc_slots c) = 64 \<and> used_slots c = int (length Ts) \<and>
     used_slots c \<le> cache_size c \<and> cache_size c \<le> max_cache_size c \<and> max_cache_size c \<le> 64 \<and>
     (\<forall>i<length Ts. slot_ok sm m cl (tc_slots c ! i) (Ts ! i))"

definition slots_ok where
  "slots_ok sm m T cc \<longleftrightarrow> length cc = 88 \<and> (\<forall>cl<88. list_ok sm m cl (cc ! cl) (T cl)) \<and> T 0 = []"

definition parts_ok where
  "parts_ok sm C T X D \<longleftrightarrow> X 0 = {} \<and> (\<forall>cl<88.
     (\<forall>a s. D a = Some s \<and> sizeclass s = cl \<and> cl \<noteq> 0 \<longrightarrow> objs_of sm s - set (C a) = objs_of sm s \<inter> held T X cl) \<and>
     (\<forall>x\<in>held T X cl. \<exists>a s. D a = Some s \<and> sizeclass s = cl \<and> x \<in> objs_of sm s) \<and>
     X cl \<inter> set (concat (T cl)) = {} \<and> distinct (concat (T cl)))"

definition cinv where
  "cinv os owned F C T X st \<longleftrightarrow> hinv os owned cheads F st \<and> sizemap_ok (sizemap st) \<and> 0 \<le> race_counter st \<and> race_counter st \<le> 88 \<and>
     spans_ok (sizemap st) (objs st) F C (in_use (sdata (spans st))) \<and> slots_ok (sizemap st) (objs st) T (central_cache st) \<and>
     parts_ok (sizemap st) C T X (in_use (sdata (spans st)))"

lemma cinvD:
  assumes "cinv os owned F C T X st"
  shows "hinv os owned cheads F st" "sizemap_ok (sizemap st)" "spans_ok (sizemap st) (objs st) F C (in_use (sdata (spans st)))"
    "slots_ok (sizemap st) (objs st) T (central_cache st)" "parts_ok (sizemap st) C T X (in_use (sdata (spans st)))"
    "0 \<le> race_counter st" "race_counter st \<le> 88"
  using assms by (simp_all add: cinv_def)

lemma hinv_above [simp]:
  "hinv os owned H F (st\<lparr>central_cache := v\<rparr>) = hinv os owned H F st" "hinv os owned H F (st\<lparr>objs := m\<rparr>) = hinv os owned H F st"
  "hinv os owned H F (st\<lparr>pagemap_cache := pc\<rparr>) = hinv os owned H F st" "hinv os owned H F (st\<lparr>race_counter := i\<rparr>) = hinv os owned H F st" "hinv os owned H F (st\<lparr>comm_times := n\<rparr>) = hinv os owned H F st"
  by (simp_all add: hinv_def hcore_def hgen_def hgen0_def mem_ok_def pha_inv_def meta_inv_def chunk_def sys_inv_def)

lemma sizemap_okD: "sizemap_ok sm \<Longrightarrow> 1 \<le> cl \<Longrightarrow> cl < 88 \<Longrightarrow> class_ok sm cl"
  by (simp add: sizemap_ok_def)

lemma span_size: "sizemap_ok sm \<Longrightarrow> sizeclass s \<noteq> 0 \<Longrightarrow> sizeclass s < 88 \<Longrightarrow> 0 < csize sm (sizeclass s)"
  using sizemap_okD [of sm "sizeclass s"] by (simp add: class_ok_def)

lemma spans_okD:
  assumes "spans_ok sm m F C D" "D a = Some s" "sizeclass s \<noteq> 0"
  shows "span_ok sm m C s a" "Obj a \<in> set (F (home C (sizeclass s) a))"
  using assms by (auto simp: spans_ok_def)

lemma spans_ok_chain: "spans_ok sm m F C D \<Longrightarrow> C a \<noteq> [] \<Longrightarrow> \<exists>s. D a = Some s \<and> sizeclass s \<noteq> 0"
  unfolding spans_ok_def by blast

lemma spans_ok_list:
  "spans_ok sm m F C D \<Longrightarrow> cl < 88 \<Longrightarrow> h \<in> {EmptyHd cl, NonemptyHd cl} \<Longrightarrow> Obj a \<in> set (F h) \<Longrightarrow>
    \<exists>s. D a = Some s \<and> sizeclass s = cl \<and> cl \<noteq> 0 \<and> h = home C cl a"
  unfolding spans_ok_def by blast

lemma span_okD:
  assumes "span_ok sm m C s a"
  shows "sizeclass s < 88" "span_length s = cpages sm (sizeclass s)" "sll m (objects s) (C a)" "set (C a) \<subseteq> objs_of sm s"
    "refcount s + length (C a) = nobjs sm s"
  using assms by (simp_all add: span_ok_def)

text \<open>Objects of different spans are different.\<close>

lemma objs_disjoint:
  assumes inv: "cinv os owned F C T X st" and a: "in_use (sdata (spans st)) a = Some s" "sizeclass s \<noteq> 0"
    and b: "in_use (sdata (spans st)) b = Some t" "sizeclass t \<noteq> 0" and x: "x \<in> objs_of (sizemap st) s" "x \<in> objs_of (sizemap st) t"
  shows "a = b"
proof (rule ccontr)
  assume "a \<noteq> b"
  note D = cinvD [OF inv]
  have "sdata (spans st) a = Some s" "sdata (spans st) b = Some t" using a b by (auto simp: in_use_def split: option.splits if_splits)
  then have "pages_of s \<inter> pages_of t = {}" using hinvD(7) [OF D(1)] \<open>a \<noteq> b\<close> unfolding spans_wf_def by blast
  moreover have "x div 2 ^ kPageShift \<in> pages_of s"
    by (rule obj_page(1) [OF x(1) span_size [OF D(2) a(2) span_okD(1) [OF spans_okD(1) [OF D(3) a]]]])
  moreover have "x div 2 ^ kPageShift \<in> pages_of t"
    by (rule obj_page(1) [OF x(2) span_size [OF D(2) b(2) span_okD(1) [OF spans_okD(1) [OF D(3) b]]]])
  ultimately show False by blast
qed

lemma parts_okD:
  assumes "parts_ok sm C T X D" "cl < 88"
  shows "D a = Some s \<Longrightarrow> sizeclass s = cl \<Longrightarrow> cl \<noteq> 0 \<Longrightarrow> objs_of sm s - set (C a) = objs_of sm s \<inter> held T X cl"
    "x \<in> held T X cl \<Longrightarrow> \<exists>a s. D a = Some s \<and> sizeclass s = cl \<and> x \<in> objs_of sm s"
    "X cl \<inter> set (concat (T cl)) = {}" "distinct (concat (T cl))"
  using assms by (auto simp: parts_ok_def)

text \<open>An object that a client holds, its span, and that no chain runs through it.\<close>

lemma out_object:
  assumes inv: "cinv os owned F C T X st" and x: "x \<in> X cl" "cl < 88"
  obtains a s where "in_use (sdata (spans st)) a = Some s" "sizeclass s = cl" "cl \<noteq> 0" "x \<in> objs_of (sizemap st) s" "x \<notin> set (C a)"
    "\<And>b. x \<notin> set (C b)" "\<And>k. k < 88 \<Longrightarrow> x \<notin> set (concat (T k))"
proof -
  note D = cinvD [OF inv]
  have "X 0 = {}" using D(5) by (simp add: parts_ok_def)
  then have c0: "cl \<noteq> 0" using x(1) by (cases "cl = 0") auto
  have xh: "x \<in> held T X cl" using x(1) by (simp add: held_def)
  obtain a s where a: "in_use (sdata (spans st)) a = Some s" "sizeclass s = cl" "x \<in> objs_of (sizemap st) s"
    using parts_okD(2) [OF D(5) x(2) xh] by blast
  have n: "x \<notin> set (C a)" using parts_okD(1) [OF D(5) x(2) a(1,2) c0] xh a(3) by blast
  have "x \<notin> set (C b)" for b
  proof
    assume b: "x \<in> set (C b)"
    then obtain t where t: "in_use (sdata (spans st)) b = Some t" "sizeclass t \<noteq> 0" using spans_ok_chain [OF D(3), of b] by fastforce
    then have "x \<in> objs_of (sizemap st) t" using span_okD(4) [OF spans_okD(1) [OF D(3) t]] b by blast
    then show False using objs_disjoint [OF inv a(1) _ t a(3)] a(2) c0 b n by auto
  qed
  moreover have "x \<notin> set (concat (T k))" if k: "k < 88" for k
  proof
    assume t: "x \<in> set (concat (T k))"
    then obtain b u where b: "in_use (sdata (spans st)) b = Some u" "sizeclass u = k" "x \<in> objs_of (sizemap st) u"
      using parts_okD(2) [OF D(5) k, of x] by (auto simp: held_def)
    have "T 0 = []" using D(4) by (simp add: slots_ok_def)
    then have "k \<noteq> 0" using t by (cases "k = 0") auto
    then have "a = b" using objs_disjoint [OF inv a(1) _ b(1) _ a(3) b(3)] a(2) b(2) c0 by simp
    then have "k = cl" using a b by simp
    then show False using parts_okD(3) [OF D(5) x(2)] x(1) t by blast
  qed
  ultimately show thesis using that a c0 n by blast
qed

lemma free_object:
  assumes inv: "cinv os owned F C T X st" and x: "x \<in> set (C a)"
  shows "b \<noteq> a \<Longrightarrow> x \<notin> set (C b)" "k < 88 \<Longrightarrow> x \<notin> held T X k"
proof -
  note D = cinvD [OF inv]
  obtain s where s: "in_use (sdata (spans st)) a = Some s" "sizeclass s \<noteq> 0" using spans_ok_chain [OF D(3), of a] x by fastforce
  have xs: "x \<in> objs_of (sizemap st) s" using span_okD(4) [OF spans_okD(1) [OF D(3) s]] x by blast
  show "x \<notin> set (C b)" if "b \<noteq> a"
  proof
    assume b: "x \<in> set (C b)"
    then obtain t where t: "in_use (sdata (spans st)) b = Some t" "sizeclass t \<noteq> 0" using spans_ok_chain [OF D(3), of b] by fastforce
    then have "x \<in> objs_of (sizemap st) t" using span_okD(4) [OF spans_okD(1) [OF D(3) t]] b by blast
    then show False using objs_disjoint [OF inv t s] xs that by blast
  qed
  show "x \<notin> held T X k" if k: "k < 88"
  proof
    assume h: "x \<in> held T X k"
    then obtain b u where b: "in_use (sdata (spans st)) b = Some u" "sizeclass u = k" "x \<in> objs_of (sizemap st) u"
      using parts_okD(2) [OF D(5) k, of x] by blast
    have "held T X 0 = {}" using D(4,5) by (simp add: slots_ok_def parts_ok_def held_def)
    then have k0: "k \<noteq> 0" using h by (cases "k = 0") auto
    then have "a = b" using objs_disjoint [OF inv s b(1) _ xs b(3)] b(2) by blast
    then show False using parts_okD(1) [OF D(5) k b(1,2) k0] b(3) h x by blast
  qed
qed

section \<open>Changes of one span\<close>

text \<open>The span at \<open>a\<close> moves to the list \<open>h\<close> (or to no list); all other spans stay where they are.\<close>

definition moved :: "(sptr \<Rightarrow> sptr list) \<Rightarrow> (sptr \<Rightarrow> sptr list) \<Rightarrow> addr \<Rightarrow> sptr option \<Rightarrow> bool" where
  "moved F F' a h \<longleftrightarrow> (\<forall>cl<88. \<forall>k\<in>{EmptyHd cl, NonemptyHd cl}. \<forall>b. Obj b \<in> set (F' k) \<longleftrightarrow> (if b = a then Some k = h else Obj b \<in> set (F k)))"

lemma movedD:
  "moved F F' a h \<Longrightarrow> cl < 88 \<Longrightarrow> k \<in> {EmptyHd cl, NonemptyHd cl} \<Longrightarrow> Obj b \<in> set (F' k) \<longleftrightarrow> (if b = a then Some k = h else Obj b \<in> set (F k))"
  unfolding moved_def by blast

lemma home_client: "home C cl b \<in> {EmptyHd cl, NonemptyHd cl}"
  by (simp add: home_def)

lemma moved_trans: "moved F F' a h \<Longrightarrow> moved F' F'' a k \<Longrightarrow> moved F F'' a k"
  by (simp add: moved_def)

lemma moved_heads: "moved F F' a h \<Longrightarrow> (\<And>k. k \<notin> heads \<Longrightarrow> F'' k = F' k) \<Longrightarrow> moved F F'' a h"
  by (simp add: moved_def)

lemma on_no_client:
  assumes inv: "hinv os owned cheads F st" and a: "sdata (spans st) a = Some s" "location s = IN_USE"
    and c: "\<And>cl k. cl < 88 \<Longrightarrow> k \<in> {EmptyHd cl, NonemptyHd cl} \<Longrightarrow> Obj a \<notin> set (F k)"
  shows "on_no_list cheads F a"
  unfolding on_no_list_def
proof
  fix h assume h: "h \<in> cheads"
  show "Obj a \<notin> set (F h)"
  proof (cases "h \<in> heads")
    case True
    then show ?thesis using free_list_span [OF hinvD(4) [OF inv] True, of "Obj a"] a by (auto simp: free_span_def)
  qed (use h c in \<open>auto simp: cheads_def\<close>)
qed

lemma list_distinct: "hinv os owned H F st \<Longrightarrow> h \<in> H \<Longrightarrow> distinct (F h)"
  using lists_ok_distinct [OF hinvD(3)] .

lemma client_take:
  assumes inv: "hinv os owned cheads F st" and h: "cl < 88" "h \<in> {EmptyHd cl, NonemptyHd cl}" "Obj a \<in> set (F h)"
    and only: "\<forall>cl<88. \<forall>k\<in>{EmptyHd cl, NonemptyHd cl}. Obj a \<in> set (F k) \<longrightarrow> k = h"
  shows "\<exists>ss F'. on_spans (DLL_Remove (Obj a)) st = Inr (st\<lparr>spans := ss\<rparr>) \<and> hinv os owned cheads F' (st\<lparr>spans := ss\<rparr>) \<and> sdata ss = sdata (spans st) \<and>
    moved F F' a None \<and> on_no_list cheads F' a"
proof -
  have hc: "h \<in> cheads - heads" using h(1,2) by auto
  obtain xs ys where xs: "F h = xs @ Obj a # ys" using split_list [OF h(3)] by blast
  then have n: "Obj a \<notin> set (xs @ ys)" using list_distinct [OF inv, of h] hc by auto
  obtain ss where ss: "on_spans (DLL_Remove (Obj a)) st = Inr (st\<lparr>spans := ss\<rparr>)" "hinv os owned cheads (F(h := xs @ ys)) (st\<lparr>spans := ss\<rparr>)" "sdata ss = sdata (spans st)"
    using client_Remove [OF inv hc xs] by blast
  have m: "moved F (F(h := xs @ ys)) a None"
    unfolding moved_def
  proof (intro allI impI ballI)
    fix k j b assume k: "k < (88::nat)" "j \<in> {EmptyHd k, NonemptyHd k}"
    show "Obj b \<in> set ((F(h := xs @ ys)) j) \<longleftrightarrow> (if b = a then Some j = None else Obj b \<in> set (F j))"
    proof (cases "j = h")
      case True
      then show ?thesis using n xs by auto
    next
      case False
      then have "Obj a \<notin> set (F j)" using only k by blast
      then show ?thesis using False by simp
    qed
  qed
  obtain s where s: "sdata (spans st) a = Some s" "location s = IN_USE" using client_member [OF inv hc h(3)] by auto
  have "on_no_list cheads (F(h := xs @ ys)) a"
  proof (rule on_no_client [OF ss(2), of a s])
    fix k j assume "k < (88::nat)" "j \<in> {EmptyHd k, NonemptyHd k}"
    then show "Obj a \<notin> set ((F(h := xs @ ys)) j)" using movedD [OF m] by auto
  qed (use s ss(3) in simp_all)
  then show ?thesis using ss m by blast
qed

lemma client_give:
  assumes inv: "hinv os owned cheads F st" and h: "cl < 88" "h \<in> {EmptyHd cl, NonemptyHd cl}" and a: "sdata (spans st) a = Some s" "location s = IN_USE" "on_no_list cheads F a"
  shows "\<exists>ss F'. on_spans (DLL_Prepend h (Obj a)) st = Inr (st\<lparr>spans := ss\<rparr>) \<and> hinv os owned cheads F' (st\<lparr>spans := ss\<rparr>) \<and> sdata ss = sdata (spans st) \<and>
    moved F F' a (Some h)"
proof -
  have hc: "h \<in> cheads - heads" using h by auto
  obtain ss where ss: "on_spans (DLL_Prepend h (Obj a)) st = Inr (st\<lparr>spans := ss\<rparr>)" "hinv os owned cheads (F(h := Obj a # F h)) (st\<lparr>spans := ss\<rparr>)" "sdata ss = sdata (spans st)"
    using client_Prepend [OF inv hc a] by blast
  have "moved F (F(h := Obj a # F h)) a (Some h)" using a(3) by (auto simp: moved_def on_no_list_def)
  then show ?thesis using ss by blast
qed

text \<open>The invariant of the spans after a change of the one at \<open>a\<close>.\<close>

lemma spans_ok_change:
  assumes ok: "spans_ok sm m F C D" and mv: "moved F F' a (Some (home C' (sizeclass s) a))"
    and a: "sizeclass s \<noteq> 0" "span_ok sm m' C' s a"
    and oth: "\<And>b. b \<noteq> a \<Longrightarrow> C' b = C b" "\<And>b x. b \<noteq> a \<Longrightarrow> x \<in> set (C b) \<Longrightarrow> m' x = m x"
  shows "spans_ok sm m' F' C' (D(a \<mapsto> s))"
proof -
  have c88: "sizeclass s < 88" using span_okD(1) [OF a(2)] .
  have home: "home C' cl b = home C cl b" if "b \<noteq> a" for b cl using oth(1) [OF that] by (simp add: home_def)
  have 1: "span_ok sm m' C' t b \<and> Obj b \<in> set (F' (home C' (sizeclass t) b))" if t: "(D(a \<mapsto> s)) b = Some t" "sizeclass t \<noteq> 0" for b t
  proof (cases "b = a")
    case True
    then show ?thesis using t a movedD [OF mv c88 home_client, of a C' a] by simp
  next
    case False
    then have D: "D b = Some t" using t by simp
    have sp: "span_ok sm m C t b" by (rule spans_okD(1) [OF ok D t(2)])
    have "chain m' (objects t) (C b) 0 = chain m (objects t) (C b) 0" by (rule chain_cong) (rule oth(2) [OF False])
    then have "span_ok sm m' C' t b" using sp oth(1) [OF False] by (simp add: span_ok_def)
    moreover have "Obj b \<in> set (F' (home C' (sizeclass t) b))"
      using spans_okD(2) [OF ok D t(2)] movedD [OF mv span_okD(1) [OF sp] home_client, of b C b] False unfolding home [OF False] by simp
    ultimately show ?thesis by blast
  qed
  have 2: "\<exists>t. (D(a \<mapsto> s)) b = Some t \<and> sizeclass t \<noteq> 0" if "C' b \<noteq> []" for b
    using that a(1) oth(1) [of b] spans_ok_chain [OF ok, of b] by (cases "b = a") auto
  have 3: "\<exists>t. (D(a \<mapsto> s)) b = Some t \<and> sizeclass t = cl \<and> cl \<noteq> 0 \<and> h = home C' cl b"
    if "cl < 88" "h \<in> {EmptyHd cl, NonemptyHd cl}" "Obj b \<in> set (F' h)" for cl h b
  proof (cases "b = a")
    case True
    then have "h = home C' (sizeclass s) a" using movedD [OF mv that(1,2), of a] that(3) by simp
    then show ?thesis using True that(2) a(1) by (auto simp: home_def split: if_splits)
  next
    case False
    then have "Obj b \<in> set (F h)" using movedD [OF mv that(1,2), of b] that(3) by simp
    then show ?thesis using spans_ok_list [OF ok that(1,2)] False home [OF False] by auto
  qed
  show ?thesis unfolding spans_ok_def using 1 2 3 by blast
qed

lemma spans_ok_remove:
  assumes ok: "spans_ok sm m F C D" and mv: "moved F F' a None" and a: "C' a = []"
    and oth: "\<And>b. b \<noteq> a \<Longrightarrow> C' b = C b" "\<And>b x. b \<noteq> a \<Longrightarrow> x \<in> set (C b) \<Longrightarrow> m' x = m x"
  shows "spans_ok sm m' F' C' (D(a := None))"
proof -
  have home: "home C' cl b = home C cl b" if "b \<noteq> a" for b cl using oth(1) [OF that] by (simp add: home_def)
  have 1: "span_ok sm m' C' t b \<and> Obj b \<in> set (F' (home C' (sizeclass t) b))" if t: "(D(a := None)) b = Some t" "sizeclass t \<noteq> 0" for b t
  proof -
    have D: "D b = Some t" and ne: "b \<noteq> a" using t by (auto split: if_splits)
    have sp: "span_ok sm m C t b" by (rule spans_okD(1) [OF ok D t(2)])
    have "chain m' (objects t) (C b) 0 = chain m (objects t) (C b) 0" by (rule chain_cong) (rule oth(2) [OF ne])
    then have "span_ok sm m' C' t b" using sp oth(1) [OF ne] by (simp add: span_ok_def)
    moreover have "Obj b \<in> set (F' (home C' (sizeclass t) b))"
      using spans_okD(2) [OF ok D t(2)] movedD [OF mv span_okD(1) [OF sp] home_client, of b C b] ne unfolding home [OF ne] by simp
    ultimately show ?thesis by blast
  qed
  have 2: "\<exists>t. (D(a := None)) b = Some t \<and> sizeclass t \<noteq> 0" if "C' b \<noteq> []" for b
    using that a oth(1) [of b] spans_ok_chain [OF ok, of b] by (cases "b = a") auto
  have 3: "\<exists>t. (D(a := None)) b = Some t \<and> sizeclass t = cl \<and> cl \<noteq> 0 \<and> h = home C' cl b"
    if "cl < 88" "h \<in> {EmptyHd cl, NonemptyHd cl}" "Obj b \<in> set (F' h)" for cl h b
  proof -
    have ne: "b \<noteq> a" and F: "Obj b \<in> set (F h)" using movedD [OF mv that(1,2), of b] that(3) by (auto split: if_splits)
    show ?thesis using spans_ok_list [OF ok that(1,2) F] ne home [OF ne] by auto
  qed
  show ?thesis unfolding spans_ok_def using 1 2 3 by blast
qed

end
