(* ===== verification/Central_Release.thy ===== *)
theory Central_Release
  imports Central_Inv
begin

text \<open>
  Objects return to the central free lists: \<open>ReleaseToSpans\<close>, \<open>ReleaseListToSpans\<close>, the transfer cache and
  \<open>InsertRange\<close> keep the invariant of the central free lists and take the objects from the clients.
\<close>

section \<open>Members of the lists\<close>

text \<open>What the invariant reads of a list: everything but the statistics.\<close>

definition core :: "CentralFreeList \<Rightarrow> CentralFreeList" where
  "core c = c\<lparr>num_spans := 0, counter := 0\<rparr>"

lemma core_simps [simp]:
  "size_class (core c) = size_class c" "tc_slots (core c) = tc_slots c" "used_slots (core c) = used_slots c"
  "cache_size (core c) = cache_size c" "max_cache_size (core c) = max_cache_size c"
  by (simp_all add: core_def)

lemma list_ok_core: "list_ok sm m cl (core c) Ts = list_ok sm m cl c Ts"
  by (simp add: list_ok_def)

lemma core_nth: "map core cc' = map core cc \<Longrightarrow> i < length cc \<Longrightarrow> core (cc' ! i) = core (cc ! i)"
  by (metis length_map nth_map)

lemma slots_ok_core:
  assumes ok: "slots_ok sm m T cc" and eq: "map core cc' = map core cc"
  shows "slots_ok sm m T cc'"
proof -
  have len: "length cc' = length cc" using eq by (metis length_map)
  have "list_ok sm m cl (cc' ! cl) (T cl)" if cl: "cl < 88" for cl
  proof -
    have "core (cc' ! cl) = core (cc ! cl)" using core_nth [OF eq] cl ok by (simp add: slots_ok_def)
    moreover have "list_ok sm m cl (cc ! cl) (T cl)" using ok cl by (simp add: slots_ok_def)
    ultimately show ?thesis using list_ok_core by metis
  qed
  then show ?thesis using ok len by (simp add: slots_ok_def)
qed

lemma list_ok_mem: "list_ok sm m cl c Ts \<Longrightarrow> (\<And>x. x \<in> set (concat Ts) \<Longrightarrow> m' x = m x) \<Longrightarrow> list_ok sm m' cl c Ts"
proof -
  assume ok: "list_ok sm m cl c Ts" and eq: "\<And>x. x \<in> set (concat Ts) \<Longrightarrow> m' x = m x"
  have "slot_ok sm m' cl (tc_slots c ! i) (Ts ! i)" if i: "i < length Ts" for i
  proof -
    have "chain m' (fst (tc_slots c ! i)) (Ts ! i) 0 = chain m (fst (tc_slots c ! i)) (Ts ! i) 0"
      by (rule chain_cong) (use eq nth_mem [OF i] in auto)
    moreover have "slot_ok sm m cl (tc_slots c ! i) (Ts ! i)" using ok i by (simp add: list_ok_def)
    ultimately show ?thesis by (simp add: slot_ok_def)
  qed
  then show ?thesis using ok by (simp add: list_ok_def)
qed

lemma slots_ok_mem:
  "slots_ok sm m T cc \<Longrightarrow> (\<And>k x. k < 88 \<Longrightarrow> x \<in> set (concat (T k)) \<Longrightarrow> m' x = m x) \<Longrightarrow> slots_ok sm m' T cc"
  unfolding slots_ok_def by (blast intro: list_ok_mem)

text \<open>Running an update of a member.\<close>

lemma get_cfl_run: "cl < length (central_cache st) \<Longrightarrow> get_cfl cl st = Inr (central_cache st ! cl)"
  by (simp add: get_cfl_def)

lemma upd_cfl_run:
  "cl < length (central_cache st) \<Longrightarrow> upd_cfl cl f st = Inr (st\<lparr>central_cache := (central_cache st)[cl := f (central_cache st ! cl)]\<rparr>)"
  by (simp add: upd_cfl_def get_cfl_run)

lemma core_update: "core (f (cc ! cl)) = core (cc ! cl) \<Longrightarrow> map core (cc[cl := f (cc ! cl)]) = map core cc"
  by (cases "cl < length cc") (simp_all add: map_update list_update_same_conv list_update_beyond)

lemma heap_more_central:
  fixes st :: "('o, 'z) central_scheme"
  assumes "heap.more st' = heap.more st"
  shows "sizemap st' = sizemap st" "central_cache st' = central_cache st" "objs st' = objs st" "race_counter st' = race_counter st"
  using assms by (cases st, cases st', auto)+

section \<open>Spans in use\<close>

lemma in_use_Some: "in_use D a = Some s \<longleftrightarrow> D a = Some s \<and> location s = IN_USE"
  by (auto simp: in_use_def split: option.splits)

lemma object_span:
  assumes inv: "cinv os owned F C T X st" and a: "in_use (sdata (spans st)) a = Some s" "sizeclass s \<noteq> 0" "x \<in> objs_of (sizemap st) s"
  shows "MapObjectToSpan x st = Inr (Obj a)"
proof -
  note D = cinvD [OF inv]
  have z: "0 < csize (sizemap st) (sizeclass s)" by (rule span_size [OF D(2) a(2) span_okD(1) [OF spans_okD(1) [OF D(3) a(1,2)]]])
  have "view3 kPageMapBits (pagemap st) (x div 2 ^ kPageShift) = a"
    using hinvD(2) [OF D(1)] a(1,2) obj_page(1) [OF a(3) z] unfolding map_ok_def in_use_Some by blast
  then show ?thesis using hinvD(2) [OF D(1)] by (simp add: MapObjectToSpan_def GetDescriptor_eff map_ok_def)
qed

lemma object_nonzero:
  assumes inv: "cinv os owned F C T X st" and a: "in_use (sdata (spans st)) a = Some s" "sizeclass s \<noteq> 0" "x \<in> objs_of (sizemap st) s"
  shows "0 < x"
proof -
  note D = cinvD [OF inv]
  have z: "0 < csize (sizemap st) (sizeclass s)" by (rule span_size [OF D(2) a(2) span_okD(1) [OF spans_okD(1) [OF D(3) a(1,2)]]])
  have "0 < start s" using hinvD(7) [OF D(1)] a(1) unfolding spans_wf_def in_use_Some by blast
  then have "0 < 2 ^ kPageShift * start s" by simp
  then show ?thesis using obj_page(2) [OF a(3) z] by linarith
qed

lemma unlink_upd:
  "unlink (u\<lparr>objects := p\<rparr>) = (unlink u)\<lparr>objects := p\<rparr>" "unlink (u\<lparr>refcount := n\<rparr>) = (unlink u)\<lparr>refcount := n\<rparr>"
  by (simp_all add: unlink_def)

lemma span_read:
  assumes "in_use (sdata (spans st)) a = Some s"
  obtains u where "get_span (Obj a) st = Inr u" "objects u = objects s" "refcount u = refcount s" "span_length u = span_length s"
    "sizeclass u = sizeclass s" "start u = start s"
proof -
  obtain u where u: "spans st (Obj a) = Some u" "unlink u = s" using assms unfolding in_use_Some sdata_def by auto
  then show thesis using that [of u] by (auto simp: get_span_def unlink_def)
qed

section \<open>Objects move\<close>

text \<open>Objects of one span, the set \<open>O\<close>, change places; the span may appear or disappear.\<close>

lemma parts_ok_change:
  assumes ok: "parts_ok sm C T X D" and cl: "cl < 88" "cl \<noteq> 0"
    and X': "\<And>k. k \<noteq> cl \<Longrightarrow> X' k = X k" "\<And>y. y \<notin> Os \<Longrightarrow> y \<in> X' cl \<longleftrightarrow> y \<in> X cl" "X' cl \<inter> set (concat (T cl)) = {}"
    and oth: "\<And>b. b \<noteq> a \<Longrightarrow> C' b = C b" "\<And>b. b \<noteq> a \<Longrightarrow> D' b = D b" "\<And>b t. b \<noteq> a \<Longrightarrow> D b = Some t \<Longrightarrow> sizeclass t \<noteq> 0 \<Longrightarrow> objs_of sm t \<inter> Os = {}"
    and a: "\<And>s. D a = Some s \<Longrightarrow> sizeclass s = cl \<and> objs_of sm s = Os"
    and a': "\<And>s. D' a = Some s \<Longrightarrow> sizeclass s = cl \<and> objs_of sm s = Os \<and> Os - set (C' a) = Os \<inter> held T X' cl" "D' a = None \<Longrightarrow> Os \<inter> held T X' cl = {}"
  shows "parts_ok sm C' T X' D'"
proof -
  have held: "held T X' k = held T X k" if "k \<noteq> cl" for k using X'(1) [OF that] by (simp add: held_def)
  have heldO: "y \<in> held T X' cl \<longleftrightarrow> y \<in> held T X cl" if "y \<notin> Os" for y using X'(2) [OF that] by (simp add: held_def)
  have 1: "objs_of sm t - set (C' b) = objs_of sm t \<inter> held T X' k" if k: "k < 88" and t: "D' b = Some t" "sizeclass t = k" "k \<noteq> 0" for k b t
  proof (cases "b = a")
    case True
    then show ?thesis using a'(1) [of t] t by auto
  next
    case False
    have D: "D b = Some t" using oth(2) [OF False] t by simp
    have "objs_of sm t \<inter> Os = {}" using oth(3) [OF False D] t by simp
    then have "objs_of sm t \<inter> held T X' k = objs_of sm t \<inter> held T X k" using held heldO by (cases "k = cl") blast+
    then show ?thesis using parts_okD(1) [OF ok k D t(2,3)] oth(1) [OF False] by simp
  qed
  have 2: "\<exists>b t. D' b = Some t \<and> sizeclass t = k \<and> y \<in> objs_of sm t" if k: "k < 88" and y: "y \<in> held T X' k" for k y
  proof (cases "k = cl \<and> y \<in> Os")
    case True
    then show ?thesis using a' y by (cases "D' a") auto
  next
    case False
    then have "y \<in> held T X k" using y held heldO by (cases "k = cl") auto
    then obtain b t where b: "D b = Some t" "sizeclass t = k" "y \<in> objs_of sm t" using parts_okD(2) [OF ok k] by blast
    then have "b \<noteq> a" using a False by auto
    then show ?thesis using b oth(2) by metis
  qed
  have 3: "X' k \<inter> set (concat (T k)) = {} \<and> distinct (concat (T k))" if "k < 88" for k
    using parts_okD(3,4) [OF ok that] X'(1,3) by (cases "k = cl") simp_all
  have "X' 0 = {}" using ok X'(1) [of 0] cl(2) by (simp add: parts_ok_def)
  then show ?thesis unfolding parts_ok_def using 1 2 3 by blast
qed

text \<open>The number of objects that are not in the chain of their span.\<close>

lemma span_counts:
  assumes ok: "span_ok sm m C s a" and sm: "sizemap_ok sm" "sizeclass s \<noteq> 0"
  shows "card (objs_of sm s - set (C a)) = refcount s" "refcount s < 2 ^ 16" "nobjs sm s < 2 ^ 16" "distinct (C a)"
proof -
  note S = span_okD [OF ok]
  show d: "distinct (C a)" by (rule sll_distinct [OF S(3)])
  have "card (set (C a)) = length (C a)" using d by (rule distinct_card)
  then show "card (objs_of sm s - set (C a)) = refcount s"
    using card_Diff_subset [OF _ S(4)] card_objs_of [OF span_size [OF sm S(1)]] S(5) by simp
  have "class_ok sm (sizeclass s)" using sizemap_okD [OF sm(1)] sm(2) S(1) by simp
  then show n: "nobjs sm s < 2 ^ 16" by (simp add: nobjs_def class_ok_def S(2))
  then show "refcount s < 2 ^ 16" using S(5) by linarith
qed

text \<open>A span stays on its list, or moves to another one.\<close>

lemma span_listed:
  assumes inv: "cinv os owned F C T X st" and a: "in_use (sdata (spans st)) a = Some s" "sizeclass s = cl" "cl \<noteq> 0"
  shows "cl < 88" "moved F F a (Some (home C cl a))" "objects s = 0 \<longleftrightarrow> C a = []"
proof -
  note D = cinvD [OF inv]
  have ok: "span_ok (sizemap st) (objs st) C s a" "Obj a \<in> set (F (home C cl a))" using spans_okD [OF D(3) a(1)] a by simp_all
  show "cl < 88" using span_okD(1) [OF ok(1)] a(2) by simp
  show "objects s = 0 \<longleftrightarrow> C a = []" using span_okD(3) [OF ok(1)] by (cases "C a") auto
  show "moved F F a (Some (home C cl a))"
    unfolding moved_def
  proof (intro allI impI ballI)
    fix j k b assume k: "j < (88::nat)" "k \<in> {EmptyHd j, NonemptyHd j}"
    have "k = home C cl a" if "Obj a \<in> set (F k)" using spans_ok_list [OF D(3) k that] a by auto
    then have "Obj a \<in> set (F k) \<longleftrightarrow> k = home C cl a" using ok(2) by metis
    then show "Obj b \<in> set (F k) \<longleftrightarrow> (if b = a then Some k = Some (home C cl a) else Obj b \<in> set (F k))" by simp
  qed
qed

lemma relink_span:
  fixes st :: "('o, 'z) central_scheme"
  assumes inv: "cinv os owned F C T X st" and a: "in_use (sdata (spans st)) a = Some s" "sizeclass s = cl" "cl \<noteq> 0" and h: "h \<in> {EmptyHd cl, NonemptyHd cl}"
  shows "\<exists>ss F'. bind_res (on_spans (DLL_Remove (Obj a)) st) (on_spans (DLL_Prepend h (Obj a))) = Inr (st\<lparr>spans := ss\<rparr>) \<and>
    hinv os owned cheads F' (st\<lparr>spans := ss\<rparr>) \<and> sdata ss = sdata (spans st) \<and> moved F F' a (Some h)"
proof -
  note D = cinvD [OF inv] and L = span_listed [OF inv a]
  have hm: "home C cl a \<in> {EmptyHd cl, NonemptyHd cl}" by (rule home_client)
  have on: "Obj a \<in> set (F (home C cl a))" "\<forall>j<88. \<forall>k\<in>{EmptyHd j, NonemptyHd j}. Obj a \<in> set (F k) \<longrightarrow> k = home C cl a"
    using movedD [OF L(2), of _ _ a] movedD [OF L(2,1) hm, of a] by auto
  have use: "sdata (spans st) a = Some s" "location s = IN_USE" using a(1) by (simp_all add: in_use_Some)
  obtain s1 F1 where 1: "on_spans (DLL_Remove (Obj a)) st = Inr (st\<lparr>spans := s1\<rparr>)" "hinv os owned cheads F1 (st\<lparr>spans := s1\<rparr>)" "sdata s1 = sdata (spans st)"
    "moved F F1 a None" "on_no_list cheads F1 a"
    using client_take [OF D(1) L(1) hm on] by blast
  obtain s2 F2 where 2: "on_spans (DLL_Prepend h (Obj a)) (st\<lparr>spans := s1\<rparr>) = Inr (st\<lparr>spans := s2\<rparr>)"
    "hinv os owned cheads F2 (st\<lparr>spans := s2\<rparr>)" "sdata s2 = sdata s1" "moved F1 F2 a (Some h)"
    using client_give [OF 1(2) L(1) h, of a s] use 1(3,5) by auto
  show ?thesis using 1 2 moved_trans [OF 1(4) 2(4)] by auto
qed

text \<open>The first step of \<open>ReleaseToSpans\<close>: the span is on the list \<open>nonempty_\<close>.\<close>

lemma to_nonempty:
  fixes st :: "('o, 'z) central_scheme"
  assumes inv: "cinv os owned F C T X st" and a: "in_use (sdata (spans st)) a = Some s" "sizeclass s = cl" "cl \<noteq> 0"
  shows "\<exists>ss F'. (if objects s = 0 then bind_res (on_spans (DLL_Remove (Obj a)) st) (on_spans (DLL_Prepend (NonemptyHd cl) (Obj a))) else Inr st) =
      Inr (st\<lparr>spans := ss\<rparr>) \<and> hinv os owned cheads F' (st\<lparr>spans := ss\<rparr>) \<and> sdata ss = sdata (spans st) \<and> moved F F' a (Some (NonemptyHd cl))"
proof (cases "objects s = 0")
  case True
  then show ?thesis using relink_span [OF inv a, of "NonemptyHd cl"] by simp
next
  case False
  then have "home C cl a = NonemptyHd cl" using span_listed(3) [OF inv a] by (simp add: home_def)
  then have "moved F F a (Some (NonemptyHd cl))" using span_listed(2) [OF inv a] by simp
  then show ?thesis using False cinvD(1) [OF inv] by (intro exI [of _ "spans st"] exI [of _ F]) simp
qed

section \<open>One object\<close>

definition rframe :: "('o \<Rightarrow> addr set) \<Rightarrow> ('o, 'z) central_scheme \<Rightarrow> ('o, 'z) central_scheme \<Rightarrow> bool" where
  "rframe owned st st' \<longleftrightarrow> sizemap st' = sizemap st \<and> map core (central_cache st') = map core (central_cache st) \<and>
     race_counter st' = race_counter st \<and> owned (os_st st) \<subseteq> owned (os_st st')"

lemma rframe_trans: "rframe owned st st1 \<Longrightarrow> rframe owned st1 st2 \<Longrightarrow> rframe owned st st2"
  by (auto simp: rframe_def)

lemma cinv_release_keep:
  fixes st st' :: "('o, 'z) central_scheme"
  assumes inv: "cinv os owned F C T X st" and x: "x \<in> X cl" "cl < 88" and a: "in_use (sdata (spans st)) a = Some s" "sizeclass s = cl" "x \<in> objs_of (sizemap st) s"
    and h': "hinv os owned cheads F' st'" "in_use (sdata (spans st')) = (in_use (sdata (spans st)))(a \<mapsto> s\<lparr>refcount := refcount s - 1, objects := x\<rparr>)"
      "moved F F' a (Some (NonemptyHd cl))" and m': "objs st' = (objs st)(x := objects s)" "rframe owned st st'"
  shows "cinv os owned F' (C(a := x # C a)) T (X(cl := X cl - {x})) st'"
proof -
  note D = cinvD [OF inv]
  let ?D = "in_use (sdata (spans st))" and ?s = "s\<lparr>refcount := refcount s - 1, objects := x\<rparr>" and ?sm = "sizemap st"
    and ?C = "C(a := x # C a)" and ?X = "X(cl := X cl - {x})"
  obtain c0: "cl \<noteq> 0" and nC: "\<And>b. x \<notin> set (C b)" and nT: "\<And>k. k < 88 \<Longrightarrow> x \<notin> set (concat (T k))" by (rule out_object [OF inv x]) blast
  have ok: "span_ok ?sm (objs st) C s a" using spans_okD(1) [OF D(3) a(1)] a(2) c0 by simp
  note S = span_okD [OF ok] and N = span_counts [OF ok D(2)]
  have "0 < card (objs_of ?sm s - set (C a))" using a(3) nC by (simp add: card_gt_0_iff) blast
  then have r: "0 < refcount s" using N(1) a(2) c0 by simp
  have "0 < x" by (rule object_nonzero [OF inv a(1) _ a(3)]) (simp add: a(2) c0)
  then have "sll (objs st') x (x # C a)" using S(3) nC by (simp add: m'(1))
  then have ok': "span_ok ?sm (objs st') ?C ?s a" using S r a(3) by (simp add: span_ok_def)
  have sp: "spans_ok ?sm (objs st') F' ?C (?D(a \<mapsto> ?s))"
    by (rule spans_ok_change [OF D(3) _ _ ok']) (use h'(3) a(2) c0 nC m'(1) in \<open>auto simp: home_def\<close>)
  have "slots_ok ?sm (objs st') T (central_cache st)" by (rule slots_ok_mem [OF D(4)]) (use nT m'(1) in auto)
  then have sl: "slots_ok ?sm (objs st') T (central_cache st')" by (rule slots_ok_core) (use m'(2) in \<open>simp add: rframe_def\<close>)
  have P: "objs_of ?sm s - set (C a) = objs_of ?sm s \<inter> held T X cl" by (rule parts_okD(1) [OF D(5) x(2) a(1,2) c0])
  have "parts_ok ?sm ?C T ?X (?D(a \<mapsto> ?s))"
  proof (rule parts_ok_change [OF D(5) x(2) c0, where a = a and Os = "objs_of ?sm s"])
    show "objs_of ?sm t \<inter> objs_of ?sm s = {}" if "b \<noteq> a" "?D b = Some t" "sizeclass t \<noteq> 0" for b t
      using objs_disjoint [OF inv that(2,3) a(1)] a(2) c0 that(1) by blast
    have "held T ?X cl = held T X cl - {x}" using nT [OF x(2)] by (auto simp: held_def)
    then have eq: "objs_of ?sm s - set (?C a) = objs_of ?sm s \<inter> held T ?X cl" using P by simp blast
    show "sizeclass t = cl \<and> objs_of ?sm t = objs_of ?sm s \<and> objs_of ?sm s - set (?C a) = objs_of ?sm s \<inter> held T ?X cl"
      if "(?D(a \<mapsto> ?s)) a = Some t" for t
    proof -
      have t: "t = ?s" using that by simp
      show ?thesis unfolding t by (intro conjI eq) (simp_all add: a(2))
    qed
    show "?X cl \<inter> set (concat (T cl)) = {}" using parts_okD(3) [OF D(5) x(2)] by auto
    show "y \<in> ?X cl \<longleftrightarrow> y \<in> X cl" if "y \<notin> objs_of ?sm s" for y using that a(3) by auto
  qed (use a(1,2) in simp_all)
  then show ?thesis using h'(1,2) m'(2) sp sl D by (simp add: cinv_def rframe_def)
qed

lemma cinv_release_delete:
  fixes st st' :: "('o, 'z) central_scheme"
  assumes inv: "cinv os owned F C T X st" and x: "x \<in> X cl" "cl < 88" and a: "in_use (sdata (spans st)) a = Some s" "sizeclass s = cl" "x \<in> objs_of (sizemap st) s"
    and h': "hinv os owned cheads F' st'" "in_use (sdata (spans st')) = (in_use (sdata (spans st)))(a := None)"
      "moved F F' a None" and m': "objs st' = objs st" "rframe owned st st'" and r: "refcount s = 1"
  shows "cinv os owned F' (C(a := [])) T (X(cl := X cl - {x})) st'"
proof -
  note D = cinvD [OF inv]
  let ?D = "in_use (sdata (spans st))" and ?sm = "sizemap st" and ?C = "C(a := [])" and ?X = "X(cl := X cl - {x})"
  obtain c0: "cl \<noteq> 0" and nC: "\<And>b. x \<notin> set (C b)" and nT: "\<And>k. k < 88 \<Longrightarrow> x \<notin> set (concat (T k))" by (rule out_object [OF inv x]) blast
  have ok: "span_ok ?sm (objs st) C s a" using spans_okD(1) [OF D(3) a(1)] a(2) c0 by simp
  have sp: "spans_ok ?sm (objs st') F' ?C (?D(a := None))" by (rule spans_ok_remove [OF D(3) h'(3)]) (use m'(1) in auto)
  have sl: "slots_ok ?sm (objs st') T (central_cache st')" using m' slots_ok_core [OF D(4)] by (simp add: rframe_def)
  have "card (objs_of ?sm s - set (C a)) = 1" using span_counts(1) [OF ok D(2)] a(2) c0 r by simp
  then have "objs_of ?sm s - set (C a) = {x}" using a(3) nC by (metis DiffI card_1_singletonE singletonD)
  then have P: "objs_of ?sm s \<inter> held T X cl = {x}" using parts_okD(1) [OF D(5) x(2) a(1,2) c0] by simp
  have "parts_ok ?sm ?C T ?X (?D(a := None))"
  proof (rule parts_ok_change [OF D(5) x(2) c0, where a = a and Os = "objs_of ?sm s"])
    show "objs_of ?sm t \<inter> objs_of ?sm s = {}" if "b \<noteq> a" "?D b = Some t" "sizeclass t \<noteq> 0" for b t
      using objs_disjoint [OF inv that(2,3) a(1)] a(2) c0 that(1) by blast
    have "held T ?X cl = held T X cl - {x}" using nT [OF x(2)] by (auto simp: held_def)
    then show "objs_of ?sm s \<inter> held T ?X cl = {}" using P by auto
    show "?X cl \<inter> set (concat (T cl)) = {}" using parts_okD(3) [OF D(5) x(2)] by auto
    show "y \<in> ?X cl \<longleftrightarrow> y \<in> X cl" if "y \<notin> objs_of ?sm s" for y using that a(3) by auto
  qed (use a(1,2) in simp_all)
  then show ?thesis using h'(1,2) m'(2) sp sl D by (simp add: cinv_def rframe_def)
qed

lemma upd_cfl_eff:
  assumes "cl < length (central_cache st)" "\<And>c. core (f c) = core c"
  shows "\<exists>cc. upd_cfl cl f st = Inr (st\<lparr>central_cache := cc\<rparr>) \<and> map core cc = map core (central_cache st)"
  using upd_cfl_run [OF assms(1), of f] core_update [of f "central_cache st" cl] assms(2) by blast

lemma dec16: "0 < r \<Longrightarrow> r < 2 ^ 16 \<Longrightarrow> (r + (2 ^ 16 - 1)) mod 2 ^ 16 = r - (1::nat)"
proof -
  assume "0 < r" "r < 2 ^ 16"
  then have "r + (2 ^ 16 - 1) = (r - 1) + 2 ^ 16" "r - 1 < 2 ^ 16" by simp_all
  then show ?thesis by (simp only: mod_add_self2 mod_less)
qed

text \<open>The steps up to the test of the reference count.\<close>

lemma release_count:
  fixes st :: "('o, 'z) central_scheme"
  assumes inv: "cinv os owned F C T X st" and a: "in_use (sdata (spans st)) a = Some s" "sizeclass s = cl" "cl \<noteq> 0" "cl < 88" and r: "0 < refcount s"
  obtains u st1 F' where "\<forall>k :: Span \<Rightarrow> ('o, 'z) central_scheme \<Rightarrow> ('o, 'z) central_scheme res. bind_res (if objects s = 0 then bind_res (on_spans (DLL_Remove (Obj a)) st) (on_spans (DLL_Prepend (NonemptyHd cl) (Obj a))) else Inr st) (\<lambda>st.
       bind_res (upd_cfl cl (\<lambda>c. c\<lparr>counter := add64 (counter c) 1\<rparr>) st) (\<lambda>st.
       bind_res (on_spans (upd_span (Obj a) (\<lambda>s. s\<lparr>refcount := (refcount s + (2 ^ 16 - 1)) mod 2 ^ 16\<rparr>)) st) (\<lambda>st.
       bind_res (get_span (Obj a) st) (\<lambda>s. k s st)))) = k u st1"
    "unlink u = s\<lparr>refcount := refcount s - 1\<rparr>" "hinv os owned cheads F' st1" "moved F F' a (Some (NonemptyHd cl))" "objs st1 = objs st" "rframe owned st st1"
    "sdata (spans st1) = (sdata (spans st))(a \<mapsto> s\<lparr>refcount := refcount s - 1\<rparr>)"
proof -
  note D = cinvD [OF inv]
  let ?s = "s\<lparr>refcount := refcount s - 1\<rparr>" and ?f = "\<lambda>s :: Span. s\<lparr>refcount := (refcount s + (2 ^ 16 - 1)) mod 2 ^ 16\<rparr>"
  obtain s1 F1 where 1: "(if objects s = 0 then bind_res (on_spans (DLL_Remove (Obj a)) st) (on_spans (DLL_Prepend (NonemptyHd cl) (Obj a))) else Inr st) = Inr (st\<lparr>spans := s1\<rparr>)"
    "hinv os owned cheads F1 (st\<lparr>spans := s1\<rparr>)" "sdata s1 = sdata (spans st)" "moved F F1 a (Some (NonemptyHd cl))"
    using to_nonempty [OF inv a(1-3)] by blast
  have len: "cl < length (central_cache (st\<lparr>spans := s1\<rparr>))" using D(4) a(4) by (simp add: slots_ok_def)
  obtain cc where 2: "upd_cfl cl (\<lambda>c. c\<lparr>counter := add64 (counter c) 1\<rparr>) (st\<lparr>spans := s1\<rparr>) = Inr (st\<lparr>spans := s1, central_cache := cc\<rparr>)"
      "map core cc = map core (central_cache st)"
    using upd_cfl_eff [OF len, of "\<lambda>c. c\<lparr>counter := add64 (counter c) 1\<rparr>"] by (auto simp: core_def)
  define st2 where "st2 = st\<lparr>spans := s1, central_cache := cc\<rparr>"
  have h2: "hinv os owned cheads F1 st2" "sdata (spans st2) a = Some s" "location s = IN_USE" using 1(2,3) a(1) by (simp_all add: st2_def in_use_Some)
  have "refcount s < 2 ^ 16" using span_counts(2) [OF spans_okD(1) [OF D(3) a(1)] D(2)] a(2,3) by simp
  then have f: "unlink (?f u) = ?s \<and> nxt (?f u) = nxt u \<and> prv (?f u) = prv u" if "unlink u = s" for u
    using that dec16 [OF r] by (auto simp: unlink_def)
  obtain s3 where 3: "on_spans (upd_span (Obj a) ?f) st2 = Inr (st2\<lparr>spans := s3\<rparr>)" "sdata s3 = (sdata (spans st2))(a \<mapsto> ?s)" "hinv os owned cheads F1 (st2\<lparr>spans := s3\<rparr>)"
    using upd_in_use [OF h2, of ?f ?s] f h2(3) by auto
  obtain u where u: "s3 (Obj a) = Some u" "unlink u = ?s" using sdata_Some [of s3 a ?s] 3(2) by auto
  show thesis
  proof (rule that [of u "st2\<lparr>spans := s3\<rparr>" F1])
    show "\<forall>k :: Span \<Rightarrow> ('o, 'z) central_scheme \<Rightarrow> ('o, 'z) central_scheme res. bind_res (if objects s = 0 then bind_res (on_spans (DLL_Remove (Obj a)) st) (on_spans (DLL_Prepend (NonemptyHd cl) (Obj a))) else Inr st) (\<lambda>st.
       bind_res (upd_cfl cl (\<lambda>c. c\<lparr>counter := add64 (counter c) 1\<rparr>) st) (\<lambda>st. bind_res (on_spans (upd_span (Obj a) ?f) st) (\<lambda>st.
       bind_res (get_span (Obj a) st) (\<lambda>s. k s st)))) = k u (st2\<lparr>spans := s3\<rparr>)"
      unfolding 1(1) bind_res.simps 2(1) st2_def [symmetric] 3(1) by (simp add: get_span_def u(1))
    show "sdata (spans (st2\<lparr>spans := s3\<rparr>)) = (sdata (spans st))(a \<mapsto> ?s)" using 3(2) 1(3) by (simp add: st2_def)
    show "rframe owned st (st2\<lparr>spans := s3\<rparr>)" using 2(2) by (simp add: rframe_def st2_def)
    show "objs (st2\<lparr>spans := s3\<rparr>) = objs st" by (simp add: st2_def)
  qed (use u 3 1 in simp_all)
qed

lemma class_size_run:
  assumes "sizemap_ok sm" "1 \<le> cl" "cl < 88"
  shows "ByteSizeForClass sm (int cl) = Inr (int (csize sm cl))" "0 < csize sm cl"
    "class_to_pages sm (int cl) = Inr (int (cpages sm cl))" "0 < cpages sm cl" "num_objects_to_move sm (int cl) = Inr (cmove sm cl)" "1 \<le> cmove sm cl"
proof -
  have l: "length (class_to_size_arr sm) = 88" "length (class_to_pages_arr sm) = 88" "length (num_objects_to_move_arr sm) = 88"
    using assms(1) by (simp_all add: sizemap_ok_def)
  note ok = sizemap_okD [OF assms, unfolded class_ok_def]
  then show z: "0 < csize sm cl" "0 < cpages sm cl" "1 \<le> cmove sm cl" by blast+
  show "ByteSizeForClass sm (int cl) = Inr (int (csize sm cl))" "class_to_pages sm (int cl) = Inr (int (cpages sm cl))"
    "num_objects_to_move sm (int cl) = Inr (cmove sm cl)"
    using l z assms(3) by (simp_all add: ByteSizeForClass_def class_to_pages_def num_objects_to_move_def csize_def cpages_def cmove_def)
qed

text \<open>The last object of a span comes back: the span goes to the page heap.\<close>

lemma release_last:
  fixes st :: "('o, 'z) central_scheme"
  assumes inv: "hinv os owned cheads F st" and a: "in_use (sdata (spans st)) a = Some s" "sizeclass s = cl" "1 \<le> cl" "cl < 88"
    and m: "moved F0 F a (Some (NonemptyHd cl))" and sm: "sizemap_ok (sizemap st)" "length (central_cache st) = 88" and u: "unlink u = s"
  obtains st' F' where "bind_res (objects_per_span u st) (\<lambda>n. bind_res (upd_cfl cl (\<lambda>c. c\<lparr>counter := sub64 (counter c) n\<rparr>) st) (\<lambda>st.
       bind_res (on_spans (DLL_Remove (Obj a)) st) (\<lambda>st. bind_res (upd_cfl cl (\<lambda>c. c\<lparr>num_spans := sub64 (num_spans c) 1\<rparr>) st) (Delete os (Obj a))))) = Inr st'"
    "hinv os owned cheads F' st'" "in_use (sdata (spans st')) = (in_use (sdata (spans st)))(a := None)" "moved F0 F' a None" "objs st' = objs st" "rframe owned st st'"
proof -
  have "sizeclass u = cl" using a(2) u by (auto simp: unlink_def)
  then have n: "\<exists>n. objects_per_span u st = Inr n" using class_size_run(1,2) [OF sm(1) a(3,4)] by (simp add: objects_per_span_def)
  then obtain n where n: "objects_per_span u st = Inr n" by blast
  obtain c1 where 1: "upd_cfl cl (\<lambda>c. c\<lparr>counter := sub64 (counter c) n\<rparr>) st = Inr (st\<lparr>central_cache := c1\<rparr>)" "map core c1 = map core (central_cache st)"
    using upd_cfl_eff [of cl st "\<lambda>c. c\<lparr>counter := sub64 (counter c) n\<rparr>"] sm(2) a(4) by (auto simp: core_def)
  let ?st1 = "st\<lparr>central_cache := c1\<rparr>"
  have h: "NonemptyHd cl \<in> {EmptyHd cl, NonemptyHd cl}" by simp
  have on: "Obj a \<in> set (F (NonemptyHd cl))" "\<forall>k<88. \<forall>j\<in>{EmptyHd k, NonemptyHd k}. Obj a \<in> set (F j) \<longrightarrow> j = NonemptyHd cl"
    using movedD [OF m, of _ _ a] a(4) by auto
  obtain s2 F2 where 2: "on_spans (DLL_Remove (Obj a)) ?st1 = Inr (?st1\<lparr>spans := s2\<rparr>)" "hinv os owned cheads F2 (?st1\<lparr>spans := s2\<rparr>)" "sdata s2 = sdata (spans st)"
    "moved F F2 a None" "on_no_list cheads F2 a"
    using client_take [of os owned F ?st1, OF _ a(4) h on] inv by auto
  define st2 where "st2 = ?st1\<lparr>spans := s2\<rparr>"
  have h2: "hinv os owned cheads F2 st2" "sdata (spans st2) = sdata (spans st)" using 2(2,3) by (simp_all add: st2_def)
  have "length c1 = 88" using 1(2) sm(2) by (metis length_map)
  then obtain c3 where 3: "upd_cfl cl (\<lambda>c. c\<lparr>num_spans := sub64 (num_spans c) 1\<rparr>) st2 = Inr (st2\<lparr>central_cache := c3\<rparr>)" "map core c3 = map core c1"
    using upd_cfl_eff [of cl st2 "\<lambda>c. c\<lparr>num_spans := sub64 (num_spans c) 1\<rparr>"] a(4) by (auto simp: core_def st2_def)
  let ?st3 = "st2\<lparr>central_cache := c3\<rparr>"
  have h3: "hinv os owned cheads F2 ?st3" "sdata (spans ?st3) a = Some s" "location s = IN_USE" using h2 a(1) by (simp_all add: in_use_Some)
  obtain st4 F4 where 4: "Delete os (Obj a) ?st3 = Inr st4" "hinv os owned cheads F4 st4" "\<forall>h. h \<notin> heads \<longrightarrow> F4 h = F2 h" "hfix st4 = hfix ?st3"
    "owned (os_st st4) = owned (os_st ?st3)" "in_use (sdata (spans st4)) = (in_use (sdata (spans ?st3)))(a := None)"
    using Delete_eff [OF h3 2(5)] by blast
  have more: "heap.more st4 = heap.more ?st3" using 4(4) by (simp add: hfix_def)
  have "moved F F4 a None" by (rule moved_heads [OF 2(4)]) (use 4(3) in simp)
  then have "moved F0 F4 a None" by (rule moved_trans [OF m])
  moreover have "rframe owned st st4" using heap_more_central [OF more] 1(2) 3(2) 4(5) by (simp add: rframe_def st2_def)
  moreover have "objs st4 = objs st" using heap_more_central [OF more] by (simp add: st2_def)
  ultimately show thesis using that [of st4 F4] 4 2(3) n 1(1) 2(1) 3(1) by (simp add: st2_def)
qed

lemma ReleaseToSpans_eff:
  fixes st :: "('o, 'z) central_scheme"
  assumes inv: "cinv os owned F C T X st" and x: "x \<in> X cl" "cl < 88"
  shows "\<exists>st' F' C'. ReleaseToSpans os cl x st = Inr st' \<and> cinv os owned F' C' T (X(cl := X cl - {x})) st' \<and> rframe owned st st' \<and>
    (\<forall>y. y \<noteq> x \<longrightarrow> objs st' y = objs st y)"
proof -
  note D = cinvD [OF inv]
  obtain a s where a: "in_use (sdata (spans st)) a = Some s" "sizeclass s = cl" "cl \<noteq> 0" "x \<in> objs_of (sizemap st) s" "x \<notin> set (C a)" by (rule out_object [OF inv x]) blast
  have ok: "span_ok (sizemap st) (objs st) C s a" using spans_okD(1) [OF D(3) a(1)] a by simp
  have "0 < card (objs_of (sizemap st) s - set (C a))" using a(4,5) by (simp add: card_gt_0_iff) blast
  then have r: "0 < refcount s" using span_counts(1) [OF ok D(2)] a(2,3) by simp
  obtain v where v: "get_span (Obj a) st = Inr v" "objects v = objects s" using span_read [OF a(1)] by metis
  have x0: "0 < x" using object_nonzero [OF inv a(1) _ a(4)] a(2,3) by simp
  obtain u st1 F1 where 1: "\<forall>k :: Span \<Rightarrow> ('o, 'z) central_scheme \<Rightarrow> ('o, 'z) central_scheme res. bind_res (if objects s = 0 then bind_res (on_spans (DLL_Remove (Obj a)) st) (on_spans (DLL_Prepend (NonemptyHd cl) (Obj a))) else Inr st) (\<lambda>st.
       bind_res (upd_cfl cl (\<lambda>c. c\<lparr>counter := add64 (counter c) 1\<rparr>) st) (\<lambda>st.
       bind_res (on_spans (upd_span (Obj a) (\<lambda>s. s\<lparr>refcount := (refcount s + (2 ^ 16 - 1)) mod 2 ^ 16\<rparr>)) st) (\<lambda>st.
       bind_res (get_span (Obj a) st) (\<lambda>s. k s st)))) = k u st1"
    and u: "unlink u = s\<lparr>refcount := refcount s - 1\<rparr>" and st1: "hinv os owned cheads F1 st1" "moved F F1 a (Some (NonemptyHd cl))" "objs st1 = objs st" "rframe owned st st1"
      "sdata (spans st1) = (sdata (spans st))(a \<mapsto> s\<lparr>refcount := refcount s - 1\<rparr>)"
    by (rule release_count [OF inv a(1-3) x(2) r])
  let ?s = "s\<lparr>refcount := refcount s - 1\<rparr>"
  have use: "in_use (sdata (spans st1)) a = Some ?s" "location s = IN_USE" using st1(5) a(1) by (simp_all add: in_use_Some)
  have ru: "refcount u = refcount s - 1" "objects u = objects s" using arg_cong [OF u, of refcount] arg_cong [OF u, of objects] by (simp_all add: unlink_def)
  have mo: "MapObjectToSpan x st = Inr (Obj a)" using object_span [OF inv a(1) _ a(4)] a(2,3) by simp
  have run: "ReleaseToSpans os cl x st =
      (if refcount u = 0 then bind_res (objects_per_span u st1) (\<lambda>n. bind_res (upd_cfl cl (\<lambda>c. c\<lparr>counter := sub64 (counter c) n\<rparr>) st1) (\<lambda>st.
         bind_res (on_spans (DLL_Remove (Obj a)) st) (\<lambda>st. bind_res (upd_cfl cl (\<lambda>c. c\<lparr>num_spans := sub64 (num_spans c) 1\<rparr>) st) (Delete os (Obj a)))))
       else bind_res (on_objs (\<lambda>m. SLL_SetNext m x (objects u)) st1) (on_spans (upd_span (Obj a) (objects_update (\<lambda>_. x)))))"
    unfolding ReleaseToSpans_def mo bind_res.simps(2) v 1 [rule_format] ..
  show ?thesis
  proof (cases "refcount s = 1")
    case True
    have l: "length (central_cache st1) = 88" using st1(4) D(4) by (metis length_map rframe_def slots_ok_def)
    have sm: "sizemap_ok (sizemap st1)" using st1(4) D(2) by (simp add: rframe_def)
    obtain st' F' where 2: "bind_res (objects_per_span u st1) (\<lambda>n. bind_res (upd_cfl cl (\<lambda>c. c\<lparr>counter := sub64 (counter c) n\<rparr>) st1) (\<lambda>st.
         bind_res (on_spans (DLL_Remove (Obj a)) st) (\<lambda>st. bind_res (upd_cfl cl (\<lambda>c. c\<lparr>num_spans := sub64 (num_spans c) 1\<rparr>) st) (Delete os (Obj a))))) = Inr st'"
      and st': "hinv os owned cheads F' st'" "in_use (sdata (spans st')) = (in_use (sdata (spans st1)))(a := None)" "moved F F' a None" "objs st' = objs st1" "rframe owned st1 st'"
      by (rule release_last [OF st1(1) use(1) _ _ x(2) st1(2) sm l u]) (use a(2,3) in simp_all)
    have iu: "in_use (sdata (spans st')) = (in_use (sdata (spans st)))(a := None)" using st'(2) st1(5) use(2) by simp
    have "cinv os owned F' (C(a := [])) T (X(cl := X cl - {x})) st'"
      by (rule cinv_release_delete [OF inv x a(1,2,4) st'(1) iu st'(3) _ rframe_trans [OF st1(4) st'(5)] True]) (simp add: st'(4) st1(3))
    moreover have "ReleaseToSpans os cl x st = Inr st'" using 2 True ru by (simp add: run)
    ultimately show ?thesis using st'(4) st1(3) rframe_trans [OF st1(4) st'(5)] by auto
  next
    case False
    let ?st2 = "st1\<lparr>objs := (objs st)(x := objects s)\<rparr>" and ?s2 = "?s\<lparr>objects := x\<rparr>"
    have h2: "hinv os owned cheads F1 ?st2" "sdata (spans ?st2) a = Some ?s" "location ?s = IN_USE" using st1(1) use by (simp_all add: in_use_Some)
    obtain s3 where 3: "on_spans (upd_span (Obj a) (objects_update (\<lambda>_. x))) ?st2 = Inr (?st2\<lparr>spans := s3\<rparr>)" "sdata s3 = (sdata (spans ?st2))(a \<mapsto> ?s2)"
        "hinv os owned cheads F1 (?st2\<lparr>spans := s3\<rparr>)"
      using upd_in_use [OF h2, of "objects_update (\<lambda>_. x)" ?s2] use(2) by (auto simp: unlink_upd)
    have iu: "in_use (sdata (spans (?st2\<lparr>spans := s3\<rparr>))) = (in_use (sdata (spans st)))(a \<mapsto> ?s2)" using 3(2) st1(5) use(2) by simp
    have fr: "rframe owned st (?st2\<lparr>spans := s3\<rparr>)" using st1(4) by (simp add: rframe_def)
    have "cinv os owned F1 (C(a := x # C a)) T (X(cl := X cl - {x})) (?st2\<lparr>spans := s3\<rparr>)"
      by (rule cinv_release_keep [OF inv x a(1,2,4) 3(3) iu st1(2) _ fr]) simp
    moreover have "ReleaseToSpans os cl x st = Inr (?st2\<lparr>spans := s3\<rparr>)"
      using 3(1) False r ru x0 st1(3) by (simp add: run on_objs_def SLL_SetNext_def)
    moreover have "\<forall>y. y \<noteq> x \<longrightarrow> objs (?st2\<lparr>spans := s3\<rparr>) y = objs st y" by simp
    ultimately show ?thesis using fr by blast
  qed
qed

section \<open>A chain of objects\<close>

lemma ReleaseListToSpans_loop_eff:
  fixes st :: "('o, 'z) central_scheme"
  assumes "cinv os owned F C T X st" "sll (objs st) p xs" "set xs \<subseteq> X cl" "cl < 88"
  shows "\<exists>st' F' C'. ReleaseListToSpans_loop os cl p st = Some (Inr st') \<and> cinv os owned F' C' T (X(cl := X cl - set xs)) st' \<and> rframe owned st st' \<and>
    (\<forall>y. y \<notin> set xs \<longrightarrow> objs st' y = objs st y)"
  using assms
proof (induction xs arbitrary: F C X p st)
  case Nil
  then show ?case by (auto simp: ReleaseListToSpans_loop.simps rframe_def)
next
  case (Cons x xs)
  have x: "x \<in> X cl" "p = x" "x \<noteq> 0" "sll (objs st) (objs st x) xs" using Cons.prems by auto
  have d: "x \<notin> set xs" using sll_distinct [OF Cons.prems(2)] by simp
  obtain st1 F1 C1 where 1: "ReleaseToSpans os cl x st = Inr st1" "cinv os owned F1 C1 T (X(cl := X cl - {x})) st1" "rframe owned st st1"
      "\<forall>y. y \<noteq> x \<longrightarrow> objs st1 y = objs st y"
    using ReleaseToSpans_eff [OF Cons.prems(1) x(1) Cons.prems(4)] by blast
  have "sll (objs st1) (objs st x) xs = sll (objs st) (objs st x) xs" by (rule chain_cong) (use 1(4) d in auto)
  then have s1: "sll (objs st1) (objs st x) xs" using x(4) by simp
  have "set xs \<subseteq> (X(cl := X cl - {x})) cl" using Cons.prems(3) d by auto
  from Cons.IH [OF 1(2) s1 this Cons.prems(4)] obtain st2 F2 C2
    where 2: "ReleaseListToSpans_loop os cl (objs st x) st1 = Some (Inr st2)" "cinv os owned F2 C2 T (X(cl := X cl - {x} - set xs)) st2" "rframe owned st1 st2"
      "\<forall>y. y \<notin> set xs \<longrightarrow> objs st2 y = objs st1 y"
    unfolding fun_upd_same fun_upd_upd by blast
  have "X cl - {x} - set xs = X cl - set (x # xs)" by auto
  then have "cinv os owned F2 C2 T (X(cl := X cl - set (x # xs))) st2" using 2(2) by metis
  moreover have "ReleaseListToSpans_loop os cl p st = Some (Inr st2)"
    using 1(1) 2(1) x(2,3) by (subst ReleaseListToSpans_loop.simps) (simp add: Let_def)
  moreover have "\<forall>y. y \<notin> set (x # xs) \<longrightarrow> objs st2 y = objs st y" using 2(4) 1(4) by simp
  ultimately show ?case using rframe_trans [OF 1(3) 2(3)] by blast
qed

lemma ReleaseListToSpans_eff:
  fixes st :: "('o, 'z) central_scheme"
  assumes "cinv os owned F C T X st" "sll (objs st) p xs" "set xs \<subseteq> X cl" "cl < 88"
  shows "\<exists>st' F' C'. ReleaseListToSpans os cl p st = Inr st' \<and> cinv os owned F' C' T (X(cl := X cl - set xs)) st' \<and> rframe owned st st' \<and>
    (\<forall>y. y \<notin> set xs \<longrightarrow> objs st' y = objs st y)"
proof -
  obtain st' F' C' where "ReleaseListToSpans_loop os cl p st = Some (Inr st')" "cinv os owned F' C' T (X(cl := X cl - set xs)) st'" "rframe owned st st'"
      "\<forall>y. y \<notin> set xs \<longrightarrow> objs st' y = objs st y"
    using ReleaseListToSpans_loop_eff [OF assms] by blast
  then show ?thesis by (intro exI [of _ st'] exI [of _ F'] exI [of _ C']) (simp add: ReleaseListToSpans_def)
qed

end
