(* ===== verification/Central_Transfer.thy ===== *)
theory Central_Transfer
  imports Central_Release
begin

text \<open>
  The transfer cache of the central free lists: \<open>ShrinkCache\<close>, \<open>EvictRandomSizeClass\<close>, \<open>MakeCacheSpace\<close> and
  \<open>InsertRange\<close>.
\<close>

section \<open>Slots and clients\<close>

lemma slots_okD: "slots_ok sm m T cc \<Longrightarrow> cl < 88 \<Longrightarrow> list_ok sm m cl (cc ! cl) (T cl)"
  by (simp add: slots_ok_def)

lemma slots_len: "slots_ok sm m T cc \<Longrightarrow> length cc = 88"
  by (simp add: slots_ok_def)

lemma slots_ok_upd:
  assumes "slots_ok sm m T cc" "cl < 88" "list_ok sm m cl c Ts" "cl = 0 \<Longrightarrow> Ts = []"
  shows "slots_ok sm m (T(cl := Ts)) (cc[cl := c])"
  using assms by (auto simp: slots_ok_def nth_list_update)

lemma parts_ok_held:
  assumes "parts_ok sm C T X D" "\<And>k. k < 88 \<Longrightarrow> held T' X' k = held T X k" "X' 0 = {}"
    "\<And>k. k < 88 \<Longrightarrow> X' k \<inter> set (concat (T' k)) = {} \<and> distinct (concat (T' k))"
  shows "parts_ok sm C T' X' D"
  using assms unfolding parts_ok_def by presburger

lemma list_ok_snoc:
  assumes "list_ok sm m cl c (Ts @ [xs])"
  shows "\<forall>i<length Ts. slot_ok sm m cl (tc_slots c ! i) (Ts ! i)" "slot_ok sm m cl (tc_slots c ! length Ts) xs"
proof -
  have s: "slot_ok sm m cl (tc_slots c ! i) ((Ts @ [xs]) ! i)" if "i < Suc (length Ts)" for i using assms that by (simp add: list_ok_def)
  show "\<forall>i<length Ts. slot_ok sm m cl (tc_slots c ! i) (Ts ! i)"
  proof (intro allI impI)
    fix i assume "i < length Ts"
    then show "slot_ok sm m cl (tc_slots c ! i) (Ts ! i)" using s [of i] by (simp add: nth_append)
  qed
  show "slot_ok sm m cl (tc_slots c ! length Ts) xs" using s [of "length Ts"] by simp
qed

lemma cinv_list:
  assumes inv: "cinv os owned F C T X st" and c: "cl < 88" "list_ok (sizemap st) (objs st) cl c (T cl)"
  shows "cinv os owned F C T X (st\<lparr>central_cache := (central_cache st)[cl := c]\<rparr>)"
proof -
  have "T 0 = []" using cinvD(4) [OF inv] by (simp add: slots_ok_def)
  then have "slots_ok (sizemap st) (objs st) (T(cl := T cl)) ((central_cache st)[cl := c])"
    by (intro slots_ok_upd [OF cinvD(4) [OF inv] c]) auto
  then show ?thesis using inv by (simp add: cinv_def)
qed

lemma cinv_pop:
  assumes inv: "cinv os owned F C T X st" and cl: "cl < 88" "T cl = Ts @ [xs]" and c: "list_ok (sizemap st) (objs st) cl c Ts"
  shows "cinv os owned F C (T(cl := Ts)) (X(cl := X cl \<union> set xs)) (st\<lparr>central_cache := (central_cache st)[cl := c]\<rparr>)"
proof -
  note D = cinvD [OF inv]
  have T0: "T 0 = []" using D(4) by (simp add: slots_ok_def)
  then have c0: "cl \<noteq> 0" using cl(2) by (cases "cl = 0") auto
  have "slots_ok (sizemap st) (objs st) (T(cl := Ts)) ((central_cache st)[cl := c])" by (rule slots_ok_upd [OF D(4) cl(1) c]) (simp add: c0)
  moreover have "parts_ok (sizemap st) C (T(cl := Ts)) (X(cl := X cl \<union> set xs)) (in_use (sdata (spans st)))"
  proof (rule parts_ok_held [OF D(5)])
    fix k assume k: "k < (88::nat)"
    show "held (T(cl := Ts)) (X(cl := X cl \<union> set xs)) k = held T X k" using cl(2) by (auto simp: held_def)
    show "(X(cl := X cl \<union> set xs)) k \<inter> set (concat ((T(cl := Ts)) k)) = {} \<and> distinct (concat ((T(cl := Ts)) k))"
      using parts_okD(3,4) [OF D(5) k] cl(2) by (cases "k = cl") auto
  qed (use D(5) c0 in \<open>simp add: parts_ok_def\<close>)
  ultimately show ?thesis using D by (simp add: cinv_def)
qed

lemma cinv_push:
  assumes inv: "cinv os owned F C T X st" and cl: "cl < 88" "cl \<noteq> 0" and xs: "set xs \<subseteq> X cl" "distinct xs"
    and c: "list_ok (sizemap st) (objs st) cl c (T cl @ [xs])"
  shows "cinv os owned F C (T(cl := T cl @ [xs])) (X(cl := X cl - set xs)) (st\<lparr>central_cache := (central_cache st)[cl := c]\<rparr>)"
proof -
  note D = cinvD [OF inv]
  have "slots_ok (sizemap st) (objs st) (T(cl := T cl @ [xs])) ((central_cache st)[cl := c])" by (rule slots_ok_upd [OF D(4) cl(1) c]) (simp add: cl(2))
  moreover have "parts_ok (sizemap st) C (T(cl := T cl @ [xs])) (X(cl := X cl - set xs)) (in_use (sdata (spans st)))"
  proof (rule parts_ok_held [OF D(5)])
    fix k assume k: "k < (88::nat)"
    show "held (T(cl := T cl @ [xs])) (X(cl := X cl - set xs)) k = held T X k" using xs(1) by (auto simp: held_def)
    show "(X(cl := X cl - set xs)) k \<inter> set (concat ((T(cl := T cl @ [xs])) k)) = {} \<and> distinct (concat ((T(cl := T cl @ [xs])) k))"
      using parts_okD(3,4) [OF D(5) k] xs by (cases "k = cl") auto
  qed (use D(5) cl in \<open>simp add: parts_ok_def\<close>)
  ultimately show ?thesis using D by (simp add: cinv_def)
qed

lemma cinv_comm [simp]: "cinv os owned F C T X (st\<lparr>comm_times := n\<rparr>) = cinv os owned F C T X st"
  by (simp add: cinv_def)

lemma cinv_race: "cinv os owned F C T X st \<Longrightarrow> 0 \<le> i \<Longrightarrow> i \<le> 88 \<Longrightarrow> cinv os owned F C T X (st\<lparr>race_counter := i\<rparr>)"
  by (simp add: cinv_def)

section \<open>Shrinking\<close>

text \<open>
  The effect on the rest of the state when the caches of other lists than \<open>lc\<close> shrink: only objects in their slots are written.
\<close>

definition eframe :: "('o \<Rightarrow> addr set) \<Rightarrow> nat \<Rightarrow> (nat \<Rightarrow> addr list list) \<Rightarrow> (nat \<Rightarrow> addr list list) \<Rightarrow>
  ('o, 'z) central_scheme \<Rightarrow> ('o, 'z) central_scheme \<Rightarrow> bool" where
  "eframe owned lc T T' st st' \<longleftrightarrow> T' lc = T lc \<and> (\<forall>k. set (concat (T' k)) \<subseteq> set (concat (T k))) \<and> sizemap st' = sizemap st \<and>
     core (central_cache st' ! lc) = core (central_cache st ! lc) \<and> owned (os_st st) \<subseteq> owned (os_st st') \<and>
     (\<forall>y. (\<forall>k<88. y \<notin> set (concat (T k))) \<longrightarrow> objs st' y = objs st y)"

lemma eframe_refl: "eframe owned lc T T st st"
  by (simp add: eframe_def)

lemma eframeD:
  assumes "eframe owned lc T T' st st'"
  shows "T' lc = T lc" "set (concat (T' k)) \<subseteq> set (concat (T k))" "sizemap st' = sizemap st" "core (central_cache st' ! lc) = core (central_cache st ! lc)"
    "owned (os_st st) \<subseteq> owned (os_st st')" "(\<And>k. k < 88 \<Longrightarrow> y \<notin> set (concat (T k))) \<Longrightarrow> objs st' y = objs st y"
  using assms unfolding eframe_def by blast+

lemma eframe_trans:
  assumes 1: "eframe owned lc T T1 st st1" and 2: "eframe owned lc T1 T2 st1 st2"
  shows "eframe owned lc T T2 st st2"
proof -
  have "objs st2 y = objs st y" if y: "\<forall>k<88. y \<notin> set (concat (T k))" for y
  proof -
    have "y \<notin> set (concat (T1 k))" if "k < 88" for k using y eframeD(2) [OF 1, of k] that by blast
    then have "objs st2 y = objs st1 y" by (rule eframeD(6) [OF 2])
    then show ?thesis using eframeD(6) [OF 1, of y] y by simp
  qed
  moreover have "set (concat (T2 k)) \<subseteq> set (concat (T k))" for k using eframeD(2) [OF 1, of k] eframeD(2) [OF 2, of k] by (rule subset_trans [rotated])
  ultimately show ?thesis
    using eframeD(1,3,4) [OF 1] eframeD(1,3,4) [OF 2] subset_trans [OF eframeD(5) [OF 1] eframeD(5) [OF 2]] unfolding eframe_def by simp
qed

lemma ShrinkCache_eff:
  fixes st :: "('o, 'z) central_scheme"
  assumes inv: "cinv os owned F C T X st" and k: "k < 88" "k \<noteq> lc" "lc < 88"
  shows "\<exists>ok st' F' C' T'. ShrinkCache os k lc force st = Inr (ok, st') \<and> cinv os owned F' C' T' X st' \<and> eframe owned lc T T' st st'"
proof -
  note D = cinvD [OF inv]
  let ?c = "central_cache st ! k"
  have ok: "list_ok (sizemap st) (objs st) k ?c (T k)" by (rule slots_okD [OF D(4) k(1)])
  have len: "k < length (central_cache st)" using slots_len [OF D(4)] k(1) by simp
  note run = ShrinkCache_def get_cfl_run [OF len] bind_res.simps(2)
  consider (no) "cache_size ?c = 0 \<or> \<not> force \<and> used_slots ?c = cache_size ?c" | (full) "cache_size ?c \<noteq> 0" "force" "used_slots ?c = cache_size ?c"
    | (room) "cache_size ?c \<noteq> 0" "used_slots ?c \<noteq> cache_size ?c" by blast
  then show ?thesis
  proof cases
    case no
    then have "ShrinkCache os k lc force st = Inr (False, st)" by (auto simp: run)
    then show ?thesis using inv eframe_refl by blast
  next
    case room
    let ?d = "?c\<lparr>cache_size := cache_size ?c - 1\<rparr>" and ?st = "st\<lparr>central_cache := (central_cache st)[k := ?c\<lparr>cache_size := cache_size ?c - 1\<rparr>]\<rparr>"
    have "list_ok (sizemap st) (objs st) k ?d (T k)" using ok room by (simp add: list_ok_def)
    from cinv_list [OF inv k(1) this] have "cinv os owned F C T X ?st" .
    moreover have "ShrinkCache os k lc force st = Inr (True, ?st)" using room by (simp add: run upd_cfl_run [OF len])
    moreover have "eframe owned lc T T st ?st" using k(2) by (simp add: eframe_def)
    ultimately show ?thesis by blast
  next
    case full
    have "used_slots ?c = int (length (T k))" "used_slots ?c \<le> cache_size ?c" using ok by (simp_all add: list_ok_def)
    then have "T k \<noteq> []" using full by auto
    then obtain Ts xs where T: "T k = Ts @ [xs]" by (cases "T k" rule: rev_cases) auto
    let ?d = "?c\<lparr>cache_size := cache_size ?c - 1, used_slots := used_slots ?c - 1\<rparr>"
    let ?st = "st\<lparr>central_cache := (central_cache st)[k := ?d]\<rparr>"
    have "list_ok (sizemap st) (objs st) k ?d Ts" using ok list_ok_snoc(1) [OF ok [unfolded T]] T full by (simp add: list_ok_def)
    from cinv_pop [OF inv k(1) T this] have pop: "cinv os owned F C (T(k := Ts)) (X(k := X k \<union> set xs)) ?st" .
    have sl: "slot_ok (sizemap st) (objs st) k (tc_slots ?c ! length Ts) xs" "length Ts < 64" "length (tc_slots ?c) = 64" "used_slots ?c = int (length Ts) + 1"
      using ok list_ok_snoc(2) [OF ok [unfolded T]] T by (simp_all add: list_ok_def)
    have len': "k < length (central_cache ?st)" using len by simp
    have rd: "rd (tc_slots ?d) (used_slots ?d) = Inr (tc_slots ?c ! length Ts)" using sl by simp
    have sll: "sll (objs ?st) (fst (tc_slots ?c ! length Ts)) xs" using sl(1) by (simp add: slot_ok_def)
    have sub: "set xs \<subseteq> (X(k := X k \<union> set xs)) k" by simp
    obtain st' F' C' where 1: "ReleaseListToSpans os k (fst (tc_slots ?c ! length Ts)) ?st = Inr st'"
        "cinv os owned F' C' (T(k := Ts)) ((X(k := X k \<union> set xs))(k := (X(k := X k \<union> set xs)) k - set xs)) st'" "rframe owned ?st st'"
        "\<forall>y. y \<notin> set xs \<longrightarrow> objs st' y = objs ?st y"
      using ReleaseListToSpans_eff [OF pop sll sub k(1)] by blast
    have "X k \<inter> set xs = {}" using parts_okD(3) [OF D(5) k(1)] T by auto
    then have "(X(k := X k \<union> set xs))(k := (X(k := X k \<union> set xs)) k - set xs) = X" by (auto simp: fun_eq_iff)
    then have c': "cinv os owned F' C' (T(k := Ts)) X st'" using 1(2) by simp
    have u: "upd_cfl k (\<lambda>c. c\<lparr>cache_size := cache_size c - 1, used_slots := used_slots c - 1\<rparr>) st = Inr ?st" by (simp add: upd_cfl_run [OF len])
    have r: "ShrinkCache os k lc force st = Inr (True, st')"
      using full 1(1) rd len' by (cases "tc_slots ?c ! length Ts") (simp add: run u get_cfl_run)
    have fr: "sizemap st' = sizemap st" "owned (os_st st) \<subseteq> owned (os_st st')" "map core (central_cache st') = map core (central_cache ?st)"
      using 1(3) by (simp_all add: rframe_def)
    have "core (central_cache st' ! lc) = core (central_cache ?st ! lc)" by (rule core_nth [OF fr(3)]) (use k(3) slots_len [OF D(4)] in simp)
    then have co: "core (central_cache st' ! lc) = core (central_cache st ! lc)" using k(2) by simp
    have "objs st' y = objs st y" if "\<forall>j<88. y \<notin> set (concat (T j))" for y
    proof -
      have "y \<notin> set xs" using that k(1) T by auto
      then show ?thesis using 1(4) by simp
    qed
    then have "eframe owned lc T (T(k := Ts)) st st'" using fr(1,2) co k(2) T by (simp add: eframe_def)
    then show ?thesis using r c' by blast
  qed
qed

lemma reduce_class_88: "reduce_class 88 = 0"
  by (simp add: reduce_class.simps kNumClasses_def)

lemma EvictRandomSizeClass_eff:
  fixes st :: "('o, 'z) central_scheme"
  assumes inv: "cinv os owned F C T X st" and lc: "lc < 88"
  shows "\<exists>ok st' F' C' T'. EvictRandomSizeClass os lc force st = Inr (ok, st') \<and> cinv os owned F' C' T' X st' \<and> eframe owned lc T T' st st'"
proof -
  note D = cinvD [OF inv]
  obtain i t where i: "0 \<le> i" "i \<le> 88" and t: "0 \<le> t" "t < 88"
    and run: "EvictRandomSizeClass os lc force st =
      (if t = int lc then Inr (False, st\<lparr>race_counter := i\<rparr>) else ShrinkCache os (nat t) lc force (st\<lparr>race_counter := i\<rparr>))"
  proof (cases "race_counter st = 88")
    case True
    then show thesis by (intro that [of 0 0]) (simp_all add: EvictRandomSizeClass_def kNumClasses_def reduce_class_88)
  next
    case False
    then show thesis using D(6,7) by (intro that [of "race_counter st + 1" "race_counter st"]) (simp_all add: EvictRandomSizeClass_def kNumClasses_def Let_def)
  qed
  let ?st = "st\<lparr>race_counter := i\<rparr>"
  have c: "cinv os owned F C T X ?st" by (rule cinv_race [OF inv i])
  have e: "eframe owned lc T T st ?st" by (simp add: eframe_def)
  show ?thesis
  proof (cases "t = int lc")
    case True
    then show ?thesis using run c e by auto
  next
    case False
    obtain ok st' F' C' T' where "ShrinkCache os (nat t) lc force ?st = Inr (ok, st')" "cinv os owned F' C' T' X st'" "eframe owned lc T T' ?st st'"
    proof -
      have "nat t < 88" "nat t \<noteq> lc" using t False by auto
      then show thesis using that ShrinkCache_eff [OF c _ _ lc, of "nat t" force] by blast
    qed
    then show ?thesis using False run eframe_trans [OF e] by (metis (no_types))
  qed
qed

text \<open>\<open>MakeCacheSpace\<close> changes of its own list only the size of the cache; after a success there is a free slot.\<close>

definition mframe :: "('o \<Rightarrow> addr set) \<Rightarrow> nat \<Rightarrow> (nat \<Rightarrow> addr list list) \<Rightarrow> (nat \<Rightarrow> addr list list) \<Rightarrow>
  ('o, 'z) central_scheme \<Rightarrow> ('o, 'z) central_scheme \<Rightarrow> bool" where
  "mframe owned cl T T' st st' \<longleftrightarrow> T' cl = T cl \<and> sizemap st' = sizemap st \<and> owned (os_st st) \<subseteq> owned (os_st st') \<and>
     (\<forall>y. (\<forall>k<88. y \<notin> set (concat (T k))) \<longrightarrow> objs st' y = objs st y)"

lemma eframe_mframe: "eframe owned cl T T' st st' \<Longrightarrow> mframe owned cl T T' st st'"
  by (simp add: eframe_def mframe_def)

lemma MakeCacheSpace_eff:
  fixes st :: "('o, 'z) central_scheme"
  assumes inv: "cinv os owned F C T X st" and cl: "cl < 88"
  shows "\<exists>ok st' F' C' T'. MakeCacheSpace os cl st = Inr (ok, st') \<and> cinv os owned F' C' T' X st' \<and> mframe owned cl T T' st st' \<and>
    (ok \<longrightarrow> used_slots (central_cache st' ! cl) < cache_size (central_cache st' ! cl))"
proof -
  note D = cinvD [OF inv]
  let ?c = "central_cache st ! cl"
  have ok: "list_ok (sizemap st) (objs st) cl ?c (T cl)" by (rule slots_okD [OF D(4) cl])
  have sc: "size_class ?c = cl" "used_slots ?c \<le> cache_size ?c" using ok by (simp_all add: list_ok_def)
  have len: "cl < length (central_cache st)" using slots_len [OF D(4)] cl by simp
  note run = MakeCacheSpace_def get_cfl_run [OF len] bind_res.simps(2)
  consider (free) "used_slots ?c < cache_size ?c" | (most) "\<not> used_slots ?c < cache_size ?c" "cache_size ?c = max_cache_size ?c"
    | (evict) "\<not> used_slots ?c < cache_size ?c" "cache_size ?c \<noteq> max_cache_size ?c" by blast
  then show ?thesis
  proof cases
    case free
    then show ?thesis using inv eframe_mframe [OF eframe_refl] by (simp add: run) blast
  next
    case most
    then show ?thesis using inv eframe_mframe [OF eframe_refl] by (simp add: run) blast
  next
    case evict
    obtain b st1 F1 C1 T1 where 1: "EvictRandomSizeClass os cl False st = Inr (b, st1)" "cinv os owned F1 C1 T1 X st1" "eframe owned cl T T1 st st1"
      using EvictRandomSizeClass_eff [OF inv cl] by blast
    obtain b' st2 F2 C2 T2 where 2: "(if b then Inr (True, st1) else EvictRandomSizeClass os cl True st1) = Inr (b', st2)" "cinv os owned F2 C2 T2 X st2" "eframe owned cl T T2 st st2"
    proof (cases b)
      case True
      then show thesis using that 1 by simp
    next
      case False
      obtain b2 st2 F2 C2 T2 where "EvictRandomSizeClass os cl True st1 = Inr (b2, st2)" "cinv os owned F2 C2 T2 X st2" "eframe owned cl T1 T2 st1 st2"
        using EvictRandomSizeClass_eff [OF 1(2) cl, of True] by blast
      then show thesis using that [of b2 st2 F2 C2 T2] False eframe_trans [OF 1(3)] by simp
    qed
    let ?d = "central_cache st2 ! cl"
    have d: "core ?d = core ?c" by (rule eframeD(4) [OF 2(3)])
    then have mem: "used_slots ?d = used_slots ?c" "cache_size ?d = cache_size ?c" "max_cache_size ?d = max_cache_size ?c" by (metis core_simps)+
    have ok2: "list_ok (sizemap st2) (objs st2) cl ?d (T2 cl)" by (rule slots_okD [OF cinvD(4) [OF 2(2)] cl])
    have len2: "cl < length (central_cache st2)" using slots_len [OF cinvD(4) [OF 2(2)]] cl by simp
    have r: "MakeCacheSpace os cl st = (if b' then if cache_size ?d < max_cache_size ?d
         then Inr (True, st2\<lparr>central_cache := (central_cache st2)[cl := ?d\<lparr>cache_size := cache_size ?d + 1\<rparr>]\<rparr>) else Inr (False, st2) else Inr (False, st2))"
      using evict 1(1) 2(1) by (cases b) (simp_all add: run sc get_cfl_run [OF len2] upd_cfl_run [OF len2])
    show ?thesis
    proof (cases "b' \<and> cache_size ?d < max_cache_size ?d")
      case True
      let ?st = "st2\<lparr>central_cache := (central_cache st2)[cl := ?d\<lparr>cache_size := cache_size ?d + 1\<rparr>]\<rparr>"
      have "list_ok (sizemap st2) (objs st2) cl (?d\<lparr>cache_size := cache_size ?d + 1\<rparr>) (T2 cl)" using ok2 True by (simp add: list_ok_def)
      from cinv_list [OF 2(2) cl this] have "cinv os owned F2 C2 T2 X ?st" .
      moreover have "mframe owned cl T T2 st ?st" using eframe_mframe [OF 2(3)] by (simp add: mframe_def)
      moreover have "used_slots (central_cache ?st ! cl) < cache_size (central_cache ?st ! cl)" using len2 mem sc(2) by simp
      moreover have "MakeCacheSpace os cl st = Inr (True, ?st)" using r True by simp
      ultimately show ?thesis by blast
    next
      case False
      then have "MakeCacheSpace os cl st = Inr (False, st2)" using r by auto
      then show ?thesis using 2(2) eframe_mframe [OF 2(3)] by blast
    qed
  qed
qed

section \<open>\<open>InsertRange\<close>\<close>

lemma out_disjoint:
  assumes "cinv os owned F C T X st" "x \<in> X j" "j < 88"
  shows "\<And>k. k < 88 \<Longrightarrow> x \<notin> set (concat (T k))"
  using out_object [OF assms] by metis

lemma InsertRange_eff:
  fixes st :: "('o, 'z) central_scheme"
  assumes inv: "cinv os owned F C T X st" and cl: "cl < 88" "cl \<noteq> 0" and xs: "sll (objs st) p xs" "xs \<noteq> [] \<longrightarrow> q = last xs" "set xs \<subseteq> X cl"
  shows "\<exists>st' F' C' T'. InsertRange os cl p q (int (length xs)) st = Inr st' \<and> cinv os owned F' C' T' (X(cl := X cl - set xs)) st' \<and>
    sizemap st' = sizemap st \<and> owned (os_st st) \<subseteq> owned (os_st st') \<and> (\<forall>k<88. \<forall>y\<in>X k. y \<notin> set xs \<longrightarrow> objs st' y = objs st y)"
proof -
  let ?n = "int (length xs)"
  define st1 where "st1 = st\<lparr>comm_times := snd (atmc_fetch_and_add (comm_times st) 1)\<rparr>"
  have inv1: "cinv os owned F C T X st1" and st1: "objs st1 = objs st" "sizemap st1 = sizemap st" "os_st st1 = os_st st" "central_cache st1 = central_cache st"
    using inv by (simp_all add: st1_def)
  note D = cinvD [OF inv1]
  have sc: "size_class (central_cache st1 ! cl) = cl" using slots_okD [OF D(4) cl(1)] by (simp add: list_ok_def)
  have len: "cl < length (central_cache st1)" using slots_len [OF D(4)] cl(1) by simp
  have mv: "num_objects_to_move (sizemap st1) (int cl) = Inr (cmove (sizemap st1) cl)" using class_size_run(5) [OF D(2)] cl by simp
  obtain room st2 F2 C2 T2 where 2: "(if ?n = cmove (sizemap st1) cl then MakeCacheSpace os cl st1 else Inr (False, st1)) = Inr (room, st2)"
      "cinv os owned F2 C2 T2 X st2" "mframe owned cl T T2 st1 st2"
      "room \<longrightarrow> ?n = cmove (sizemap st1) cl \<and> used_slots (central_cache st2 ! cl) < cache_size (central_cache st2 ! cl)"
  proof (cases "?n = cmove (sizemap st1) cl")
    case True
    obtain b st2 F2 C2 T2 where "MakeCacheSpace os cl st1 = Inr (b, st2)" "cinv os owned F2 C2 T2 X st2" "mframe owned cl T T2 st1 st2"
        "b \<longrightarrow> used_slots (central_cache st2 ! cl) < cache_size (central_cache st2 ! cl)"
      using MakeCacheSpace_eff [OF inv1 cl(1)] by blast
    then show thesis using that [of b st2 F2 C2 T2] True by simp
  next
    case False
    then show thesis using that [of False st1 F C T] inv1 eframe_mframe [OF eframe_refl, of owned cl T st1] by simp
  qed
  have fr: "sizemap st2 = sizemap st" "owned (os_st st) \<subseteq> owned (os_st st2)" using 2(3) st1 by (simp_all add: mframe_def)
  have keep: "objs st2 y = objs st y" if "y \<in> X k" "k < 88" for k y
    using 2(3) out_disjoint [OF inv1 that] unfolding mframe_def st1(1) by blast
  have "sll (objs st2) p xs = sll (objs st) p xs" by (rule chain_cong) (use keep xs(3) cl in blast)
  then have sll2: "sll (objs st2) p xs" using xs(1) by simp
  have run: "InsertRange os cl p q ?n st = (if room then bind_res (get_cfl cl st2) (\<lambda>c. bind_res (wr (tc_slots c) (used_slots c) (p, q)) (\<lambda>slots.
       upd_cfl cl (\<lambda>c. c\<lparr>tc_slots := slots, used_slots := used_slots c + 1\<rparr>) st2)) else ReleaseListToSpans os cl p st2)"
    using 2(1) by (simp add: InsertRange_def st1_def [symmetric] get_cfl_run [OF len] sc mv)
  show ?thesis
  proof (cases room)
    case True
    let ?c = "central_cache st2 ! cl" and ?u = "length (T2 cl)"
    have ok: "list_ok (sizemap st2) (objs st2) cl ?c (T2 cl)" by (rule slots_okD [OF cinvD(4) [OF 2(2)] cl(1)])
    have len2: "cl < length (central_cache st2)" using slots_len [OF cinvD(4) [OF 2(2)]] cl(1) by simp
    have u: "used_slots ?c = int ?u" "?u < 64" "length (tc_slots ?c) = 64" using ok 2(4) True by (auto simp: list_ok_def)
    let ?d = "?c\<lparr>tc_slots := (tc_slots ?c)[?u := (p, q)], used_slots := used_slots ?c + 1\<rparr>"
    let ?st = "st2\<lparr>central_cache := (central_cache st2)[cl := ?d]\<rparr>"
    have "1 \<le> ?n" using class_size_run(6) [OF D(2)] cl 2(4) True by simp
    then have "xs \<noteq> []" by auto
    then have "slot_ok (sizemap st2) (objs st2) cl (p, q) xs" using sll2 xs(2) 2(4) True fr(1) st1(2) by (simp add: slot_ok_def)
    then have "list_ok (sizemap st2) (objs st2) cl ?d (T2 cl @ [xs])"
      using ok u 2(4) True by (auto simp: list_ok_def nth_list_update nth_append less_Suc_eq)
    from cinv_push [OF 2(2) cl xs(3) sll_distinct [OF sll2] this]
    have "cinv os owned F2 C2 (T2(cl := T2 cl @ [xs])) (X(cl := X cl - set xs)) ?st" .
    moreover have "InsertRange os cl p q ?n st = Inr ?st"
      using True u by (simp add: run get_cfl_run [OF len2] upd_cfl_run [OF len2])
    moreover have "sizemap ?st = sizemap st" "os_st ?st = os_st st2" "objs ?st = objs st2" using fr by simp_all
    ultimately show ?thesis using fr(2) keep by metis
  next
    case False
    obtain st3 F3 C3 where 3: "ReleaseListToSpans os cl p st2 = Inr st3" "cinv os owned F3 C3 T2 (X(cl := X cl - set xs)) st3" "rframe owned st2 st3"
        "\<forall>y. y \<notin> set xs \<longrightarrow> objs st3 y = objs st2 y"
      using ReleaseListToSpans_eff [OF 2(2) sll2 xs(3) cl(1)] by blast
    have "sizemap st3 = sizemap st" "owned (os_st st) \<subseteq> owned (os_st st3)" using fr 3(3) by (auto simp: rframe_def)
    moreover have "InsertRange os cl p q ?n st = Inr st3" using False 3(1) by (simp add: run)
    moreover have "\<forall>k<88. \<forall>y\<in>X k. y \<notin> set xs \<longrightarrow> objs st3 y = objs st y" using 3(4) keep by simp
    ultimately show ?thesis using 3(2) by blast
  qed
qed

end
