(* ===== verification/Central_Fetch.thy ===== *)
theory Central_Fetch
  imports Central_Transfer
begin

text \<open>
  Objects leave the central free lists: \<open>FetchFromOneSpans\<close>, \<open>Populate\<close> and \<open>RemoveRange\<close> keep the invariant and
  hand out objects that no client holds.
\<close>

section \<open>Splitting a chain\<close>

lemma fetch_loop_chain:
  assumes "sll m p xs" "xs \<noteq> []"
  shows "\<exists>ys zs. xs = ys @ zs \<and> ys \<noteq> [] \<and> fetch_loop m N p r = Inr (last ys, m (last ys), r + int (length ys)) \<and> r + int (length ys) \<le> max (r + 1) N"
  using assms
proof (induction xs arbitrary: p r)
  case Nil
  then show ?case by simp
next
  case (Cons x xs)
  have x: "p = x" "x \<noteq> 0" "sll m (m x) xs" using Cons.prems(1) by auto
  show ?case
  proof (cases "r + 1 < N \<and> m x \<noteq> 0")
    case True
    then have "xs \<noteq> []" using x(3) by auto
    from Cons.IH [OF x(3) this, of "r + 1"] True obtain ys zs
      where "xs = ys @ zs" "ys \<noteq> []" "fetch_loop m N (m x) (r + 1) = Inr (last ys, m (last ys), r + 1 + int (length ys))" "r + 1 + int (length ys) \<le> max (r + 2) N"
      by auto
    then show ?thesis using True x(1,2) by (intro exI [of _ "x # ys"] exI [of _ zs]) (subst fetch_loop.simps, simp add: SLL_Next_def)
  next
    case False
    have "fetch_loop m N p r = Inr (x, m x, r + 1)" using False x(1,2) by (subst fetch_loop.simps) (auto simp: SLL_Next_def)
    then show ?thesis by (intro exI [of _ "[x]"] exI [of _ xs]) simp
  qed
qed

lemma cinv_fetch:
  fixes st st' :: "('o, 'z) central_scheme"
  assumes inv: "cinv os owned F C T X st" and cl: "cl < 88" "cl \<noteq> 0" and a: "in_use (sdata (spans st)) a = Some s" "sizeclass s = cl" "C a = ys @ zs" "ys \<noteq> []"
    and h': "hinv os owned cheads F' st'"
      "in_use (sdata (spans st')) = (in_use (sdata (spans st)))(a \<mapsto> s\<lparr>objects := objs st (last ys), refcount := refcount s + length ys\<rparr>)"
      "moved F F' a (Some (home (C(a := zs)) cl a))" and m': "objs st' = (objs st)(last ys := 0)" "rframe owned st st'"
  shows "cinv os owned F' (C(a := zs)) T (X(cl := X cl \<union> set ys)) st'" "sll (objs st') (objects s) ys" "set ys \<inter> held T X cl = {}" "set ys \<subseteq> objs_of (sizemap st) s"
proof -
  note D = cinvD [OF inv]
  let ?D = "in_use (sdata (spans st))" and ?s = "s\<lparr>objects := objs st (last ys), refcount := refcount s + length ys\<rparr>" and ?sm = "sizemap st"
    and ?C = "C(a := zs)" and ?X = "X(cl := X cl \<union> set ys)"
  have ok: "span_ok ?sm (objs st) C s a" using spans_okD(1) [OF D(3) a(1)] a(2) cl by simp
  note S = span_okD [OF ok] and N = span_counts [OF ok D(2)]
  have P: "objs_of ?sm s - set (C a) = objs_of ?sm s \<inter> held T X cl" by (rule parts_okD(1) [OF D(5) cl(1) a(1,2) cl(2)])
  show sub: "set ys \<subseteq> objs_of ?sm s" using S(4) a(3) by auto
  show dis: "set ys \<inter> held T X cl = {}" using P sub a(3) by auto
  have d: "distinct ys" "distinct zs" "set ys \<inter> set zs = {}" using sll_distinct [OF S(3)] a(3) by auto
  obtain r where r: "chain (objs st) (objects s) ys r" "sll (objs st) r zs" using S(3) a(3) by auto
  have rl: "r = objs st (last ys)" using chain_last [OF r(1) a(4)] by simp
  have lz: "last ys \<notin> set zs" using d(3) a(4) last_in_set by blast
  have "sll ((objs st)(last ys := 0)) (objects s) ys"
  proof -
    have "sll (objs st) (objects s) (ys @ zs)" using S(3) a(3) by simp
    from SLL_PopRange_sll(2) [OF this a(4) refl] show ?thesis .
  qed
  then show "sll (objs st') (objects s) ys" by (simp add: m'(1))
  have "sll (objs st') (objs st (last ys)) zs" using r(2) rl lz by (simp add: m'(1))
  then have ok': "span_ok ?sm (objs st') ?C ?s a" using S a(3) by (auto simp: span_ok_def)
  have la: "last ys \<in> set (C a)" using a(3,4) by simp
  have sp: "spans_ok ?sm (objs st') F' ?C (?D(a \<mapsto> ?s))"
    by (rule spans_ok_change [OF D(3) _ _ ok']) (use h'(3) a(2) cl free_object(1) [OF inv la] m'(1) in auto)
  have "slots_ok ?sm (objs st') T (central_cache st)" by (rule slots_ok_mem [OF D(4)]) (use free_object(2) [OF inv la] m'(1) in \<open>auto simp: held_def\<close>)
  then have sl: "slots_ok ?sm (objs st') T (central_cache st')" by (rule slots_ok_core) (use m'(2) in \<open>simp add: rframe_def\<close>)
  have "parts_ok ?sm ?C T ?X (?D(a \<mapsto> ?s))"
  proof (rule parts_ok_change [OF D(5) cl, where a = a and Os = "objs_of ?sm s"])
    show "objs_of ?sm t \<inter> objs_of ?sm s = {}" if "b \<noteq> a" "?D b = Some t" "sizeclass t \<noteq> 0" for b t
      using objs_disjoint [OF inv that(2,3) a(1)] a(2) cl that(1) by blast
    have hx: "held T ?X cl = held T X cl \<union> set ys" by (auto simp: held_def)
    have eq: "objs_of ?sm s - set (?C a) = objs_of ?sm s \<inter> held T ?X cl" unfolding hx using P a(3) sub d(3) by simp blast
    show "sizeclass t = cl \<and> objs_of ?sm t = objs_of ?sm s \<and> objs_of ?sm s - set (?C a) = objs_of ?sm s \<inter> held T ?X cl"
      if "(?D(a \<mapsto> ?s)) a = Some t" for t
    proof -
      have t: "t = ?s" using that by simp
      show ?thesis unfolding t by (intro conjI eq) (simp_all add: a(2))
    qed
    show "?X cl \<inter> set (concat (T cl)) = {}" using parts_okD(3) [OF D(5) cl(1)] dis by (auto simp: held_def)
    show "y \<in> ?X cl \<longleftrightarrow> y \<in> X cl" if "y \<notin> objs_of ?sm s" for y using that sub by auto
  qed (use a(1,2) in simp_all)
  then show "cinv os owned F' ?C T ?X st'" using h'(1,2) m'(2) sp sl D by (simp add: cinv_def rframe_def)
qed

lemma from_nonempty:
  fixes st :: "('o, 'z) central_scheme"
  assumes inv: "cinv os owned F C T X st" and a: "in_use (sdata (spans st)) a = Some s" "sizeclass s = cl" "cl \<noteq> 0" "C a \<noteq> []"
  shows "\<exists>ss F'. (if zs = [] then bind_res (on_spans (DLL_Remove (Obj a)) st) (on_spans (DLL_Prepend (EmptyHd cl) (Obj a))) else Inr st) =
      Inr (st\<lparr>spans := ss\<rparr>) \<and> hinv os owned cheads F' (st\<lparr>spans := ss\<rparr>) \<and> sdata ss = sdata (spans st) \<and> moved F F' a (Some (home (C(a := zs)) cl a))"
proof (cases "zs = []")
  case True
  then show ?thesis using relink_span [OF inv a(1-3), of "EmptyHd cl"] by (simp add: home_def)
next
  case False
  then have "home (C(a := zs)) cl a = home C cl a" using a(4) by (simp add: home_def)
  then have "moved F F a (Some (home (C(a := zs)) cl a))" using span_listed(2) [OF inv a(1-3)] by simp
  then show ?thesis using False cinvD(1) [OF inv] by (intro exI [of _ "spans st"] exI [of _ F]) simp
qed

text \<open>The first span with free objects.\<close>

lemma first_nonempty:
  assumes inv: "cinv os owned F C T X st" and cl: "cl < 88" and F: "F (NonemptyHd cl) \<noteq> []"
  obtains a s l u where "get_span (NonemptyHd cl) st = Inr l" "nxt l = Obj a" "in_use (sdata (spans st)) a = Some s" "sizeclass s = cl" "C a \<noteq> []"
    "get_span (Obj a) st = Inr u" "objects u = objects s"
proof -
  note D = cinvD [OF inv]
  have h: "NonemptyHd cl \<in> cheads - heads" using cl by simp
  obtain x xs where x: "F (NonemptyHd cl) = x # xs" using F by (cases "F (NonemptyHd cl)") auto
  obtain a t where a: "x = Obj a" using client_member [OF D(1) h, of x] x by auto
  have "NonemptyHd cl \<in> {EmptyHd cl, NonemptyHd cl}" "Obj a \<in> set (F (NonemptyHd cl))" using x a by simp_all
  then obtain s where s: "in_use (sdata (spans st)) a = Some s" "sizeclass s = cl" "NonemptyHd cl = home C cl a" using spans_ok_list [OF D(3) cl] by blast
  then have c: "C a \<noteq> []" by (auto simp: home_def split: if_splits)
  obtain l where l: "spans st (NonemptyHd cl) = Some l" "nxt l = Obj a" using first_span [OF hinvD(3) [OF D(1)] _ x] h a by auto
  obtain u where u: "get_span (Obj a) st = Inr u" "objects u = objects s" using span_read [OF s(1)] by metis
  show thesis using that [OF _ l(2) s(1,2) c u] l(1) by (simp add: get_span_def)
qed

text \<open>
  The result of a fetch: a chain of at most \<open>N\<close> objects (one when \<open>N\<close> is not positive) that was free before and is now with the client; the words of the objects that clients
  hold are as they were.
\<close>

definition fetched where
  "fetched os owned cl N T X p0 st r \<longleftrightarrow> (case r of (n, p, q, st') \<Rightarrow> \<exists>F' C' xs. cinv os owned F' C' T (X(cl := X cl \<union> set xs)) st' \<and> n = int (length xs) \<and> n \<le> max 1 N \<and>
     (if xs = [] then p = p0 else sll (objs st') p xs \<and> q = last xs) \<and> set xs \<inter> X cl = {} \<and> rframe owned st st' \<and> (\<forall>k<88. \<forall>y\<in>X k. objs st' y = objs st y))"

lemma FetchFromOneSpans_empty:
  assumes inv: "cinv os owned F C T X st" and cl: "cl < 88" and F: "F (NonemptyHd cl) = []"
  shows "FetchFromOneSpans cl N p0 q0 st = Inr (0, p0, q0, st)"
  using DLL_IsEmpty_lists [OF hinvD(3) [OF cinvD(1) [OF inv]], of "NonemptyHd cl"] cl F by (simp add: FetchFromOneSpans_def)

lemma FetchFromOneSpans_some:
  fixes st :: "('o, 'z) central_scheme"
  assumes inv: "cinv os owned F C T X st" and cl: "cl < 88" "cl \<noteq> 0" and F: "F (NonemptyHd cl) \<noteq> []"
  shows "returns (\<lambda>r. fetched os owned cl N T X p0 st r \<and> 0 < fst r) (FetchFromOneSpans cl N p0 q0 st)"
proof -
  note D = cinvD [OF inv]
  obtain a s l u where a: "get_span (NonemptyHd cl) st = Inr l" "nxt l = Obj a" "in_use (sdata (spans st)) a = Some s" "sizeclass s = cl" "C a \<noteq> []"
    "get_span (Obj a) st = Inr u" "objects u = objects s" by (rule first_nonempty [where cl = cl, OF inv cl(1) F])
  have ok: "span_ok (sizemap st) (objs st) C s a" using spans_okD(1) [OF D(3) a(3)] a(4) cl(2) by simp
  note S = span_okD [OF ok]
  let ?m = "objs st"
  obtain ys zs where ys: "C a = ys @ zs" "ys \<noteq> []" "fetch_loop ?m N (objects s) 0 = Inr (last ys, ?m (last ys), int (length ys))" "int (length ys) \<le> max 1 N"
    using fetch_loop_chain [OF S(3) a(5), of N 0] by auto
  obtain r where "chain ?m (objects s) ys r" "sll ?m r zs" using S(3) ys(1) by auto
  then have zs: "?m (last ys) = 0 \<longleftrightarrow> zs = []" "last ys \<noteq> 0" using chain_last [of ?m "objects s" ys r] ys(2) by (cases zs; auto)+
  obtain s1 F1 where 1: "(if zs = [] then bind_res (on_spans (DLL_Remove (Obj a)) st) (on_spans (DLL_Prepend (EmptyHd cl) (Obj a))) else Inr st) = Inr (st\<lparr>spans := s1\<rparr>)"
      "hinv os owned cheads F1 (st\<lparr>spans := s1\<rparr>)" "sdata s1 = sdata (spans st)" "moved F F1 a (Some (home (C(a := zs)) cl a))"
    using from_nonempty [OF inv a(3,4) cl(2) a(5)] by blast
  let ?s2 = "s\<lparr>objects := ?m (last ys)\<rparr>"
  have iu: "sdata (spans st) a = Some s" "location s = IN_USE" using a(3) by (simp_all add: in_use_Some)
  obtain s2 where 2: "on_spans (upd_span (Obj a) (objects_update (\<lambda>_. ?m (last ys)))) (st\<lparr>spans := s1\<rparr>) = Inr (st\<lparr>spans := s2\<rparr>)"
      "sdata s2 = (sdata (spans st))(a \<mapsto> ?s2)" "hinv os owned cheads F1 (st\<lparr>spans := s2\<rparr>)"
    using upd_in_use [OF 1(2), of a s "objects_update (\<lambda>_. ?m (last ys))" ?s2] 1(3) iu by (auto simp: unlink_upd)
  define st3 where "st3 = st\<lparr>spans := s2, objs := ?m(last ys := 0)\<rparr>"
  have 3: "on_objs (\<lambda>m. SLL_SetNext m (last ys) 0) (st\<lparr>spans := s2\<rparr>) = Inr st3" using zs(2) by (simp add: on_objs_def SLL_SetNext_def st3_def)
  have h3: "hinv os owned cheads F1 st3" "sdata (spans st3) = (sdata (spans st))(a \<mapsto> ?s2)" using 2(2,3) by (simp_all add: st3_def)
  let ?f = "\<lambda>s :: Span. s\<lparr>refcount := nat ((int (refcount s) + int (length ys)) mod 2 ^ 16)\<rparr>" and ?s4 = "?s2\<lparr>refcount := refcount s + length ys\<rparr>"
  have "refcount s + length ys < 2 ^ 16" using S(5) ys(1) span_counts(3) [OF ok D(2)] a(4) cl(2) by simp
  then have md: "nat ((int (refcount s) + int (length ys)) mod 2 ^ 16) = refcount s + length ys" by simp
  have f: "unlink (?f v) = ?s4 \<and> nxt (?f v) = nxt v \<and> prv (?f v) = prv v" if v: "unlink v = ?s2" for v
  proof -
    have "refcount v = refcount s" using arg_cong [OF v, of refcount] by (simp add: unlink_def)
    then show ?thesis using v md by (simp add: unlink_upd)
  qed
  obtain s4 where 4: "on_spans (upd_span (Obj a) ?f) st3 = Inr (st3\<lparr>spans := s4\<rparr>)" "sdata s4 = (sdata (spans st3))(a \<mapsto> ?s4)" "hinv os owned cheads F1 (st3\<lparr>spans := s4\<rparr>)"
    using upd_in_use [OF h3(1), of a ?s2 ?f ?s4] h3(2) iu(2) f by auto
  define st4 where "st4 = st3\<lparr>spans := s4\<rparr>"
  have len: "cl < length (central_cache st4)" using slots_len [OF D(4)] cl(1) by (simp add: st4_def st3_def)
  obtain cc where 5: "upd_cfl cl (\<lambda>c. c\<lparr>counter := nat ((int (counter c) - int (length ys)) mod 2 ^ 64)\<rparr>) st4 = Inr (st4\<lparr>central_cache := cc\<rparr>)"
      "map core cc = map core (central_cache st4)"
    using upd_cfl_eff [OF len, of "\<lambda>c. c\<lparr>counter := nat ((int (counter c) - int (length ys)) mod 2 ^ 64)\<rparr>"] by (auto simp: core_def)
  let ?st = "st4\<lparr>central_cache := cc\<rparr>"
  have h': "hinv os owned cheads F1 ?st" using 4(3) by (simp add: st4_def)
  have iu': "in_use (sdata (spans ?st)) = (in_use (sdata (spans st)))(a \<mapsto> ?s4)" using 4(2) h3(2) iu(2) by (simp add: st4_def)
  have m': "objs ?st = ?m(last ys := 0)" and fr: "rframe owned st ?st" using 5(2) by (simp_all add: st4_def st3_def rframe_def)
  note E = cinv_fetch [OF inv cl a(3,4) ys(1,2) h' iu' 1(4) m' fr]
  have keep: "objs ?st y = ?m y" if "k < 88" "y \<in> X k" for k y
  proof -
    have "last ys \<in> set (C a)" using ys(1,2) by simp
    then have "last ys \<notin> X k" using free_object(2) [OF inv _ that(1), of "last ys" a] by (auto simp: held_def)
    then show ?thesis using m' that(2) by auto
  qed
  have "set ys \<inter> X cl = {}" using E(3) by (auto simp: held_def)
  then have "fetched os owned cl N T X p0 st (int (length ys), objects s, last ys, ?st)"
    unfolding fetched_def prod.case using E(1,2) ys(2,4) fr keep by (intro exI [of _ F1] exI [of _ "C(a := zs)"] exI [of _ ys]) simp
  moreover have "FetchFromOneSpans cl N p0 q0 st = Inr (int (length ys), objects s, last ys, ?st)"
  proof -
    have "DLL_IsEmpty (NonemptyHd cl) (spans st) = Inr False" using DLL_IsEmpty_lists [OF hinvD(3) [OF D(1)], of "NonemptyHd cl"] F cl(1) by simp
    then show ?thesis
      by (simp only: FetchFromOneSpans_def bind_res.simps(2) if_False Let_def prod.case a(1,2,6,7) ys(3) zs(1) 1(1) 2(1) 3 4(1) st4_def [symmetric] 5(1))
  qed
  ultimately show ?thesis using ys(2) by simp
qed

end
