(* ===== verification/Central_Populate.thy ===== *)
theory Central_Populate
  imports Central_Fetch
begin

text \<open>
  \<open>Populate\<close> takes a span from the page heap and cuts it into objects; \<open>RemoveRange\<close> takes objects from the
  transfer cache or from spans.
\<close>

section \<open>Cutting a span\<close>

text \<open>The loop chains \<open>n\<close> objects behind the object \<open>t\<close>.\<close>

lemma chain_objects_run:
  fixes st :: "('o, 'z) central_scheme"
  assumes "0 < sz" "p + n * sz \<le> limit" "limit < p + Suc n * sz" "0 < t" "t < p" "xs = map (\<lambda>i. p + i * sz) [0..<n]"
  shows "\<exists>m. chain_objects sp (Some t) p limit sz num st = Inr (Some (last (t # xs)), num + int n, st\<lparr>objs := m\<rparr>) \<and>
    sll (m(last (t # xs) := 0)) t (t # xs) \<and> (\<forall>y. y \<notin> set (t # xs) \<longrightarrow> m y = objs st y)"
  using assms
proof (induction n arbitrary: p t num st xs)
  case 0
  then have "chain_objects sp (Some t) p limit sz num st = Inr (Some t, num, st)" by (subst chain_objects.simps) simp
  then show ?case using 0 by (intro exI [of _ "objs st"]) simp
next
  case (Suc n)
  define xs' where "xs' = map (\<lambda>i. p + sz + i * sz) [0..<n]"
  have xs: "xs = p # xs'"
    unfolding Suc.prems(6) xs'_def by (simp add: map_upt_Suc add.assoc del: upt_Suc)
  define st1 where "st1 = st\<lparr>objs := (objs st)(t := p)\<rparr>"
  have "p + sz + n * sz \<le> limit" "limit < p + sz + Suc n * sz" "0 < p" "p < p + sz" using Suc.prems by simp_all
  from Suc.IH [OF Suc.prems(1) this xs'_def, of "num + 1" st1] obtain m
    where m: "chain_objects sp (Some p) (p + sz) limit sz (num + 1) st1 = Inr (Some (last (p # xs')), num + 1 + int n, st1\<lparr>objs := m\<rparr>)"
      "sll (m(last (p # xs') := 0)) p (p # xs')" "\<forall>y. y \<notin> set (p # xs') \<longrightarrow> m y = objs st1 y"
    by blast
  have t: "t \<notin> set (p # xs')" using Suc.prems(5) by (auto simp: xs'_def)
  then have "m t = p" "t \<noteq> last (p # xs')" using m(3) last_in_set [of "p # xs'"] by (auto simp: st1_def)
  then have "sll (m(last (t # xs) := 0)) t (t # xs)" using m(2) Suc.prems(4) xs by simp
  moreover have "set_tail sp (Some t) p st = Inr st1" using Suc.prems(4) by (simp add: set_tail_def on_objs_def SLL_SetNext_def st1_def)
  then have "chain_objects sp (Some t) p limit sz num st = Inr (Some (last (t # xs)), num + int (Suc n), st\<lparr>objs := m\<rparr>)"
    using m(1) Suc.prems(1,2) xs by (subst chain_objects.simps) (simp add: st1_def)
  moreover have "\<forall>y. y \<notin> set (t # xs) \<longrightarrow> m y = objs st y" using m(3) xs by (simp add: st1_def)
  ultimately show ?case by blast
qed

text \<open>The span that \<open>Populate\<close> adds.\<close>

lemma cinv_populate:
  fixes st st' :: "('o, 'z) central_scheme"
  assumes inv: "cinv os owned F C T X st" and cl: "cl < 88" "cl \<noteq> 0" and a: "in_use (sdata (spans st)) a = None"
    and s: "sizeclass s = cl" "span_length s = cpages (sizemap st) cl" "refcount s = 0" "location s = IN_USE"
    and h': "hinv os owned cheads F' st'" "in_use (sdata (spans st')) = (in_use (sdata (spans st)))(a \<mapsto> s)" "moved F F' a (Some (NonemptyHd cl))"
    and xs: "xs = map (obj (sizemap st) s) [0..<nobjs (sizemap st) s]" "sll (objs st') (objects s) xs" "\<And>y. y \<notin> set xs \<Longrightarrow> objs st' y = objs st y"
    and fr: "rframe owned st st'"
  shows "cinv os owned F' (C(a := xs)) T X st'" "k < 88 \<Longrightarrow> y \<in> X k \<Longrightarrow> objs st' y = objs st y"
proof -
  note D = cinvD [OF inv]
  let ?D = "in_use (sdata (spans st))" and ?sm = "sizemap st"
  have cok: "class_ok ?sm cl" using sizemap_okD [OF D(2)] cl by simp
  have O: "set xs = objs_of ?sm s" by (auto simp: xs(1) objs_of_def)
  have z: "0 < csize ?sm (sizeclass s)" using cok s(1) by (simp add: class_ok_def)
  have n: "0 < nobjs ?sm s" using cok s by (simp add: nobjs_def class_ok_def div_greater_zero_iff)
  have dis: "objs_of ?sm t \<inter> objs_of ?sm s = {}" if b: "b \<noteq> a" "?D b = Some t" "sizeclass t \<noteq> 0" for b t
  proof -
    have "sdata (spans st') b = Some t" "sdata (spans st') a = Some s"
      using h'(2) b in_use_Some [of "sdata (spans st')"] by (metis fun_upd_other, metis fun_upd_same)
    then have "pages_of t \<inter> pages_of s = {}" using hinvD(7) [OF h'(1)] b(1) unfolding spans_wf_def by blast
    moreover have zt: "0 < csize ?sm (sizeclass t)" by (rule span_size [OF D(2) b(3) span_okD(1) [OF spans_okD(1) [OF D(3) b(2,3)]]])
    ultimately show ?thesis using obj_page(1) [OF _ zt] obj_page(1) [OF _ z] by blast
  qed
  have Cd: "set (C b) \<inter> set xs = {}" for b
  proof (cases "C b = []")
    case False
    then obtain t where t: "?D b = Some t" "sizeclass t \<noteq> 0" using spans_ok_chain [OF D(3)] by blast
    then have "b \<noteq> a" using a by auto
    then show ?thesis using dis [OF _ t] span_okD(4) [OF spans_okD(1) [OF D(3) t]] O by blast
  qed simp
  have Hd: "held T X k \<inter> set xs = {}" if k: "k < 88" for k
  proof -
    have "held T X 0 = {}" using D(4,5) by (simp add: slots_ok_def parts_ok_def held_def)
    moreover have "y \<notin> set xs" if y: "y \<in> held T X k" "k \<noteq> 0" for y
    proof -
      obtain b t where b: "?D b = Some t" "sizeclass t = k" "y \<in> objs_of ?sm t" using parts_okD(2) [OF D(5) k y(1)] by blast
      then have "b \<noteq> a" using a by auto
      then show ?thesis using dis [OF _ b(1)] b(2,3) y(2) O by blast
    qed
    ultimately show ?thesis by (cases "k = 0") blast+
  qed
  show "objs st' y = objs st y" if "k < 88" "y \<in> X k" using xs(3) Hd [OF that(1)] that(2) by (auto simp: held_def)
  have ok': "span_ok ?sm (objs st') (C(a := xs)) s a" using cl(1) s xs(2) O by (simp add: span_ok_def) (simp add: xs(1))
  have ne: "xs \<noteq> []" using n by (simp add: xs(1))
  have sp: "spans_ok ?sm (objs st') F' (C(a := xs)) (?D(a \<mapsto> s))"
  proof (rule spans_ok_change [OF D(3) _ _ ok'])
    show "moved F F' a (Some (home (C(a := xs)) (sizeclass s) a))" using h'(3) ne s(1) by (simp add: home_def)
    show "objs st' y = objs st y" if "b \<noteq> a" "y \<in> set (C b)" for b y by (rule xs(3)) (use Cd [of b] that(2) in blast)
  qed (use s(1) cl(2) in simp_all)
  have "slots_ok ?sm (objs st') T (central_cache st)" by (rule slots_ok_mem [OF D(4)], rule xs(3)) (use Hd in \<open>auto simp: held_def\<close>)
  then have sl: "slots_ok ?sm (objs st') T (central_cache st')" by (rule slots_ok_core) (use fr in \<open>simp add: rframe_def\<close>)
  have "parts_ok ?sm (C(a := xs)) T X (?D(a \<mapsto> s))"
  proof (rule parts_ok_change [OF D(5) cl, where a = a and Os = "objs_of ?sm s"])
    show "objs_of ?sm t \<inter> objs_of ?sm s = {}" if "b \<noteq> a" "?D b = Some t" "sizeclass t \<noteq> 0" for b t by (rule dis [OF that])
    have eq: "objs_of ?sm s - set ((C(a := xs)) a) = objs_of ?sm s \<inter> held T X cl" using Hd [OF cl(1)] O by auto
    show "sizeclass t = cl \<and> objs_of ?sm t = objs_of ?sm s \<and> objs_of ?sm s - set ((C(a := xs)) a) = objs_of ?sm s \<inter> held T X cl"
      if "(?D(a \<mapsto> s)) a = Some t" for t
    proof -
      have t: "t = s" using that by simp
      show ?thesis unfolding t by (intro conjI eq refl s(1))
    qed
    show "X cl \<inter> set (concat (T cl)) = {}" by (rule parts_okD(3) [OF D(5) cl(1)])
  qed (use a in simp_all)
  then show "cinv os owned F' (C(a := xs)) T X st'" using h'(1,2) fr sp sl D by (simp add: cinv_def rframe_def)
qed

lemma obj_0: "obj sm s 0 = 2 ^ kPageShift * start s"
  by (simp add: obj_def)

lemma objs_Cons:
  assumes "0 < nobjs sm s"
  shows "map (obj sm s) [0..<nobjs sm s] =
    obj sm s 0 # map (\<lambda>i. 2 ^ kPageShift * start s + csize sm (sizeclass s) + i * csize sm (sizeclass s)) [0..<nobjs sm s - 1]"
proof -
  have "map (obj sm s) [0..<Suc (nobjs sm s - 1)] = obj sm s 0 # map (\<lambda>i. obj sm s (Suc i)) [0..<nobjs sm s - 1]" by (rule map_upt_Suc)
  then show ?thesis using assms by (simp add: obj_def add.assoc)
qed

text \<open>From the loop to the reset of the reference count.\<close>

lemma fill_span:
  fixes st :: "('o, 'z) central_scheme"
  assumes inv: "hinv os owned H F st" and a: "sdata (spans st) a = Some s" "location s = IN_USE" and sz: "0 < csize sm (sizeclass s)" "0 < nobjs sm s"
    and xs: "xs = map (obj sm s) [0..<nobjs sm s]" and base: "base = 2 ^ kPageShift * start s" "0 < start s" and limit: "limit = base + 2 ^ kPageShift * span_length s"
  shows "\<exists>t ss1 m1 m ss. chain_objects (Obj a) None base limit (csize sm (sizeclass s)) 0 st = Inr (Some t, int (nobjs sm s), st\<lparr>spans := ss1, objs := m1\<rparr>) \<and>
    set_tail (Obj a) (Some t) 0 (st\<lparr>spans := ss1, objs := m1\<rparr>) = Inr (st\<lparr>spans := ss1, objs := m\<rparr>) \<and>
    on_spans (upd_span (Obj a) (refcount_update (\<lambda>_. 0))) (st\<lparr>spans := ss1, objs := m\<rparr>) = Inr (st\<lparr>spans := ss, objs := m\<rparr>) \<and>
    hinv os owned H F (st\<lparr>spans := ss, objs := m\<rparr>) \<and> sdata ss = (sdata (spans st))(a \<mapsto> s\<lparr>objects := base, refcount := 0\<rparr>) \<and>
    sll m base xs \<and> (\<forall>y. y \<notin> set xs \<longrightarrow> m y = objs st y)"
proof -
  let ?z = "csize sm (sizeclass s)" and ?n = "nobjs sm s" and ?s1 = "s\<lparr>objects := base\<rparr>"
  obtain ss1 where 1: "on_spans (upd_span (Obj a) (objects_update (\<lambda>_. base))) st = Inr (st\<lparr>spans := ss1\<rparr>)" "sdata ss1 = (sdata (spans st))(a \<mapsto> ?s1)"
      "hinv os owned H F (st\<lparr>spans := ss1\<rparr>)"
    using upd_in_use [OF inv a, of "objects_update (\<lambda>_. base)" ?s1] a(2) by (auto simp: unlink_upd)
  have b0: "0 < base" using base by simp
  have tot: "?n * ?z \<le> 2 ^ kPageShift * span_length s" "2 ^ kPageShift * span_length s < Suc ?n * ?z"
    unfolding nobjs_def using sz(1) by (simp_all only: div_times_less_eq_dividend mult_Suc dividend_less_div_times)
  define n where "n = ?n - 1"
  have n: "?n = Suc n" using sz(2) by (simp add: n_def)
  define ys where "ys = map (\<lambda>i. base + ?z + i * ?z) [0..<n]"
  have xs2: "xs = base # ys" using objs_Cons [OF sz(2)] by (simp add: xs ys_def n_def base(1) obj_0)
  have c: "base + ?z + n * ?z \<le> limit" "limit < base + ?z + Suc n * ?z" "0 < base" "base < base + ?z" using tot n limit sz(1) b0 by simp_all
  obtain m1 where 2: "chain_objects (Obj a) (Some base) (base + ?z) limit ?z (0 + 1) (st\<lparr>spans := ss1\<rparr>) = Inr (Some (last (base # ys)), 0 + 1 + int n, st\<lparr>spans := ss1, objs := m1\<rparr>)"
      "sll (m1(last (base # ys) := 0)) base (base # ys)" "\<forall>y. y \<notin> set (base # ys) \<longrightarrow> m1 y = objs (st\<lparr>spans := ss1\<rparr>) y"
    using chain_objects_run [OF sz(1) c ys_def, of "Obj a" "0 + 1" "st\<lparr>spans := ss1\<rparr>"] by blast
  have "base + ?z \<le> limit" using c(1) by simp
  then have ch: "chain_objects (Obj a) None base limit ?z 0 st = Inr (Some (last (base # ys)), int ?n, st\<lparr>spans := ss1, objs := m1\<rparr>)"
    using 1(1) 2(1) sz(1) n by (subst chain_objects.simps) (simp add: set_tail_def)
  let ?t = "last (base # ys)" and ?m = "m1(last (base # ys) := 0)" and ?s3 = "?s1\<lparr>refcount := 0\<rparr>"
  have "?t \<in> set (base # ys)" by (rule last_in_set) simp
  then have "?t \<noteq> 0" using sll_nonzero [OF 2(2)] by metis
  then have st: "set_tail (Obj a) (Some ?t) 0 (st\<lparr>spans := ss1, objs := m1\<rparr>) = Inr (st\<lparr>spans := ss1, objs := ?m\<rparr>)"
    by (simp only: set_tail_def on_objs_def SLL_SetNext_def option.case if_False bind_res.simps) simp
  have h3: "hinv os owned H F (st\<lparr>spans := ss1, objs := ?m\<rparr>)" using 1(3) by simp
  obtain ss where 4: "on_spans (upd_span (Obj a) (refcount_update (\<lambda>_. 0))) (st\<lparr>spans := ss1, objs := ?m\<rparr>) = Inr (st\<lparr>spans := ss1, objs := ?m, spans := ss\<rparr>)"
      "sdata ss = (sdata ss1)(a \<mapsto> ?s3)" "hinv os owned H F (st\<lparr>spans := ss1, objs := ?m, spans := ss\<rparr>)"
    using upd_in_use [OF h3, of a ?s1 "refcount_update (\<lambda>_. 0)" ?s3] 1(2) a(2) by (auto simp: unlink_upd)
  have eq: "st\<lparr>spans := ss1, objs := ?m, spans := ss\<rparr> = st\<lparr>spans := ss, objs := ?m\<rparr>" by simp
  have fin: "hinv os owned H F (st\<lparr>spans := ss, objs := ?m\<rparr>)" "sdata ss = (sdata (spans st))(a \<mapsto> ?s3)" using 4(2,3) 1(2) unfolding eq by simp_all
  have mem: "sll ?m base xs" "\<forall>y. y \<notin> set xs \<longrightarrow> ?m y = objs st y"
    using 2(2,3) \<open>?t \<in> set (base # ys)\<close> unfolding xs2 by auto
  show ?thesis using ch st 4(1) [unfolded eq] fin mem by blast
qed

lemma cache_pages_eff: "\<exists>pc. cache_pages n p cl st = st\<lparr>pagemap_cache := pc\<rparr>"
proof (induction n arbitrary: p st)
  case 0
  show ?case by (intro exI [of _ "pagemap_cache st"]) simp
next
  case (Suc n)
  obtain pc where "cache_pages n (p + 1) cl (CacheSizeClass p cl st) = (CacheSizeClass p cl st)\<lparr>pagemap_cache := pc\<rparr>" using Suc by blast
  then show ?case by (intro exI [of _ pc]) (simp add: CacheSizeClass_def)
qed

definition populated where
  "populated os owned T X st st' \<longleftrightarrow> (\<exists>F' C'. cinv os owned F' C' T X st') \<and> rframe owned st st' \<and> (\<forall>k<88. \<forall>y\<in>X k. objs st' y = objs st y)"

lemma alloc_specD:
  assumes "alloc_spec os owned H F n st (res, st')"
  obtains F' where "hinv os owned H F' st'" "hframe owned F F' st st'"
    "res = None \<Longrightarrow> in_use (sdata (spans st')) = in_use (sdata (spans st))"
    "\<And>sp. res = Some sp \<Longrightarrow> \<exists>a s. sp = Obj a \<and> in_use (sdata (spans st)) a = None \<and> span_length s = n \<and> location s = IN_USE \<and> sizeclass s = 0 \<and>
       on_no_list H F' a \<and> in_use (sdata (spans st')) = (in_use (sdata (spans st)))(a \<mapsto> s)"
proof -
  obtain F' where F: "hinv os owned H F' st'" "hframe owned F F' st st'"
    and r: "case res of None \<Rightarrow> in_use (sdata (spans st')) = in_use (sdata (spans st))
      | Some sp \<Rightarrow> \<exists>a s. sp = Obj a \<and> in_use (sdata (spans st)) a = None \<and> span_length s = n \<and> location s = IN_USE \<and> sizeclass s = 0 \<and>
          on_no_list H F' a \<and> in_use (sdata (spans st')) = (in_use (sdata (spans st)))(a \<mapsto> s)"
    using assms unfolding alloc_spec_def prod.case by blast
  show thesis by (rule that [OF F]) (use r in simp_all)
qed

lemma moved_new:
  assumes "moved F1 F' a h" "\<And>k. k \<notin> heads \<Longrightarrow> F1 k = F k"
  shows "moved F F' a h"
  unfolding moved_def
proof (intro allI impI ballI)
  fix j k b assume k: "j < (88::nat)" "k \<in> {EmptyHd j, NonemptyHd j}"
  then have "F1 k = F k" using assms(2) by auto
  then show "Obj b \<in> set (F' k) \<longleftrightarrow> (if b = a then Some k = h else Obj b \<in> set (F k))" using movedD [OF assms(1) k, of b] by simp
qed

lemma spans_ok_lists:
  assumes ok: "spans_ok sm m F C D" and F': "\<And>k. k \<notin> heads \<Longrightarrow> F' k = F k"
  shows "spans_ok sm m F' C D"
proof -
  have e: "F' k = F k" if "k \<in> {EmptyHd cl, NonemptyHd cl}" for k cl using F' that by auto
  have 1: "span_ok sm m C s a \<and> Obj a \<in> set (F' (home C (sizeclass s) a))" if "D a = Some s" "sizeclass s \<noteq> 0" for a s
    using spans_okD [OF ok that] e [OF home_client] by simp
  have 2: "\<exists>s. D a = Some s \<and> sizeclass s = cl \<and> cl \<noteq> 0 \<and> h = home C cl a" if "cl < 88" "h \<in> {EmptyHd cl, NonemptyHd cl}" "Obj a \<in> set (F' h)" for cl h a
    using spans_ok_list [OF ok that(1,2)] that(3) e [OF that(2)] by simp
  show ?thesis unfolding spans_ok_def using 1 2 spans_ok_chain [OF ok] by blast
qed

lemma page_heap_fails:
  fixes st :: "('o, 'z) central_scheme"
  assumes inv: "cinv os owned F C T X st" and h: "hinv os owned cheads F' st'" "hframe owned F F' st st'" "in_use (sdata (spans st')) = in_use (sdata (spans st))"
  shows "populated os owned T X st st'"
proof -
  have f: "\<And>k. k \<notin> heads \<Longrightarrow> F' k = F k" "heap.more st' = heap.more st" "owned (os_st st) \<subseteq> owned (os_st st')" using h(2) by (simp_all add: hframe_def)
  note m = heap_more_central [OF f(2)] and D = cinvD [OF inv]
  have "spans_ok (sizemap st) (objs st) F' C (in_use (sdata (spans st)))" by (rule spans_ok_lists [OF D(3) f(1)])
  then have "cinv os owned F' C T X st'" using D h(1,3) m by (simp add: cinv_def)
  then show ?thesis using m f(3) by (auto simp: populated_def rframe_def)
qed

text \<open>The part of \<open>Populate\<close> after \<open>Span* span = Static::pageheap()->New(npages)\<close>.\<close>

lemma populate_span:
  fixes st st1 :: "('o, 'z) central_scheme"
  assumes inv: "cinv os owned F C T X st" and cl: "cl < 88" "cl \<noteq> 0" and h1: "hinv os owned cheads F1 st1" "hframe owned F F1 st st1"
    and a: "in_use (sdata (spans st)) a = None" "span_length s = cpages (sizemap st) cl" "location s = IN_USE" "on_no_list cheads F1 a"
      "in_use (sdata (spans st1)) = (in_use (sdata (spans st)))(a \<mapsto> s)"
  shows "returns (populated os owned T X st)
    (bind_res (RegisterSizeClass (Obj a) cl st1) (\<lambda>st.
     bind_res (get_span (Obj a) st) (\<lambda>s.
     let st = cache_pages (cpages (sizemap st1) cl) (start s) cl st;
         ptr = page_bytes (start s);
         limit = ptr + page_bytes (cpages (sizemap st1) cl)
     in bind_res (ByteSizeForClass (sizemap st) (int cl)) (\<lambda>sz.
        bind_res (chain_objects (Obj a) None ptr limit (nat sz) 0 st) (\<lambda>(tail, num, st).
        bind_res (set_tail (Obj a) tail 0 st) (\<lambda>st.
        bind_res (on_spans (upd_span (Obj a) (refcount_update (\<lambda>_. 0))) st) (\<lambda>st.
        bind_res (on_spans (DLL_Prepend (NonemptyHd cl) (Obj a)) st) (\<lambda>st.
        upd_cfl cl (\<lambda>c. c\<lparr>num_spans := add64 (num_spans c) 1, counter := add64 (counter c) (nat num)\<rparr>) st))))))))"
proof -
  note D = cinvD [OF inv]
  have f1: "\<And>k. k \<notin> heads \<Longrightarrow> F1 k = F k" "heap.more st1 = heap.more st" "owned (os_st st) \<subseteq> owned (os_st st1)" using h1(2) by (simp_all add: hframe_def)
  note m1 = heap_more_central [OF f1(2)]
  let ?sm = "sizemap st" and ?s2 = "s\<lparr>sizeclass := cl\<rparr>"
  have cok: "class_ok ?sm cl" using sizemap_okD [OF D(2)] cl by simp
  have s1: "sdata (spans st1) a = Some s" using in_use_Some [of "sdata (spans st1)" a s] a(5) by simp
  obtain st2 where 2: "RegisterSizeClass (Obj a) cl st1 = Inr st2" "hinv os owned cheads F1 st2" "hframe owned F1 F1 st1 st2"
      "sdata (spans st2) = (sdata (spans st1))(a \<mapsto> ?s2)"
    using RegisterSizeClass_eff [OF h1(1) s1 a(3), of cl] cl(1) by auto
  have f2: "heap.more st2 = heap.more st1" "owned (os_st st1) \<subseteq> owned (os_st st2)" using 2(3) by (simp_all add: hframe_def)
  note m2 = heap_more_central [OF f2(1)]
  have iu2: "in_use (sdata (spans st2)) a = Some ?s2" using 2(4) a(3) by simp
  obtain u where u: "get_span (Obj a) st2 = Inr u" "start u = start s" by (rule span_read [OF iu2]) simp
  obtain pc where pc: "cache_pages (span_length s) (start s) cl st2 = st2\<lparr>pagemap_cache := pc\<rparr>" using cache_pages_eff by blast
  define st3 where "st3 = st2\<lparr>pagemap_cache := pc\<rparr>"
  have h3: "hinv os owned cheads F1 st3" "sdata (spans st3) a = Some ?s2" "sdata (spans st3) = (sdata (spans st1))(a \<mapsto> ?s2)" "sizemap st3 = ?sm"
    using 2(2,4) m1 m2 by (simp_all add: st3_def)
  have wf: "0 < start s" "start s + span_length s \<le> 2 ^ kPageMapBits" using hinvD(7) [OF h1(1)] s1 unfolding spans_wf_def by blast+
  have pb: "page_bytes (start s) = 2 ^ kPageShift * start s" "page_bytes (span_length s) = 2 ^ kPageShift * span_length s"
    using wf by (intro page_bytes_id; simp add: kPageMapBits_def)+
  have z: "0 < csize ?sm (sizeclass ?s2)" "0 < nobjs ?sm ?s2" using cok a(2) by (simp_all add: nobjs_def class_ok_def div_greater_zero_iff)
  let ?p = "2 ^ kPageShift * start s" and ?xs = "map (obj ?sm ?s2) [0..<nobjs ?sm ?s2]" and ?s4 = "?s2\<lparr>objects := 2 ^ kPageShift * start s, refcount := 0\<rparr>"
  obtain t s0 m0 m ss where 4: "chain_objects (Obj a) None ?p (?p + 2 ^ kPageShift * span_length s) (csize ?sm cl) 0 st3 =
        Inr (Some t, int (nobjs ?sm ?s2), st3\<lparr>spans := s0, objs := m0\<rparr>)"
      "set_tail (Obj a) (Some t) 0 (st3\<lparr>spans := s0, objs := m0\<rparr>) = Inr (st3\<lparr>spans := s0, objs := m\<rparr>)"
      "on_spans (upd_span (Obj a) (refcount_update (\<lambda>_. 0))) (st3\<lparr>spans := s0, objs := m\<rparr>) = Inr (st3\<lparr>spans := ss, objs := m\<rparr>)"
      "hinv os owned cheads F1 (st3\<lparr>spans := ss, objs := m\<rparr>)" "sdata ss = (sdata (spans st3))(a \<mapsto> ?s4)"
      "sll m ?p ?xs" "\<forall>y. y \<notin> set ?xs \<longrightarrow> m y = objs st3 y"
    using fill_span [OF h3(1,2) _ z refl refl] wf(1) a(3) by auto
  define st4 where "st4 = st3\<lparr>spans := ss, objs := m\<rparr>"
  have h4: "hinv os owned cheads F1 st4" "sdata (spans st4) a = Some ?s4" "location ?s4 = IN_USE" using 4(4,5) a(3) by (simp_all add: st4_def)
  obtain s5 F5 where 5: "on_spans (DLL_Prepend (NonemptyHd cl) (Obj a)) st4 = Inr (st4\<lparr>spans := s5\<rparr>)" "hinv os owned cheads F5 (st4\<lparr>spans := s5\<rparr>)"
      "sdata s5 = sdata (spans st4)" "moved F1 F5 a (Some (NonemptyHd cl))"
    using client_give [OF h4(1) cl(1) _ h4(2,3) a(4), of "NonemptyHd cl"] by auto
  define st5 where "st5 = st4\<lparr>spans := s5\<rparr>"
  let ?f = "\<lambda>c :: CentralFreeList. c\<lparr>num_spans := add64 (num_spans c) 1, counter := add64 (counter c) (nat (int (nobjs ?sm ?s2)))\<rparr>"
  have cc5: "central_cache st5 = central_cache st" using m1 m2 by (simp add: st5_def st4_def st3_def)
  obtain cc where 6: "upd_cfl cl ?f st5 = Inr (st5\<lparr>central_cache := cc\<rparr>)" "map core cc = map core (central_cache st)"
    using upd_cfl_eff [of cl st5 ?f] cl(1) slots_len [OF D(4)] cc5 by (auto simp: core_def)
  let ?st = "st5\<lparr>central_cache := cc\<rparr>"
  have fr: "rframe owned st ?st" using 6(2) m1 m2 f1(3) f2(2) by (auto simp: rframe_def st5_def st4_def st3_def)
  have h': "hinv os owned cheads F5 ?st" using 5(2) by (simp add: st5_def)
  have iu': "in_use (sdata (spans ?st)) = (in_use (sdata (spans st)))(a \<mapsto> ?s4)" using 5(3) 4(5) h3(3) a(3,5) by (simp add: st5_def st4_def)
  have xs: "?xs = map (obj ?sm ?s4) [0..<nobjs ?sm ?s4]" by (simp add: obj_def [abs_def])
  have mem: "sll (objs ?st) (objects ?s4) ?xs" "\<And>y. y \<notin> set ?xs \<Longrightarrow> objs ?st y = objs st y" using 4(6,7) m1 m2 by (simp_all add: st5_def st4_def st3_def)
  note E = cinv_populate [OF inv cl a(1) _ _ _ _ h' iu' moved_new [OF 5(4) f1(1)] xs mem fr]
  have "populated os owned T X st ?st" unfolding populated_def using E fr a(2,3) by simp blast
  moreover have bs: "ByteSizeForClass (sizemap st3) (int cl) = Inr (int (csize ?sm cl))" using class_size_run(1) [OF D(2)] cl h3(4) by simp
  ultimately show ?thesis
    unfolding 2(1) bind_res.simps(2) u pc st3_def [symmetric] Let_def m1(1) a(2) [symmetric] pb bs nat_int 4(1) prod.case 4(2,3) st4_def [symmetric] 5(1) st5_def [symmetric]
    using 6(1) by (simp only: nat_int returns_simps)
qed

lemma Populate_eff:
  fixes st :: "('o, 'z) central_scheme"
  assumes inv: "cinv os owned F C T X st" and cl: "cl < 88" "cl \<noteq> 0"
  shows "safe (populated os owned T X st) (Populate os cl st)"
proof -
  note D = cinvD [OF inv]
  have sc: "size_class (central_cache st ! cl) = cl" using slots_okD [OF D(4) cl(1)] by (simp add: list_ok_def)
  have len: "cl < length (central_cache st)" using slots_len [OF D(4)] cl(1) by simp
  have np: "class_to_pages (sizemap st) (int cl) = Inr (int (cpages (sizemap st) cl))" "0 < cpages (sizemap st) cl" using class_size_run(3,4) [OF D(2)] cl by simp_all
  show ?thesis
    unfolding Populate_def get_cfl_run [OF len] bind_res.simps(2) sc np(1) Let_def nat_int
  proof (rule safe_bind [OF New_eff [OF D(1) np(2)]], clarify)
    fix res st1
    assume sp: "alloc_spec os owned cheads F (cpages (sizemap st) cl) st (res, st1)"
    obtain F1 where F1: "hinv os owned cheads F1 st1" "hframe owned F F1 st st1" "res = None \<Longrightarrow> in_use (sdata (spans st1)) = in_use (sdata (spans st))"
      and some: "\<And>sp. res = Some sp \<Longrightarrow> \<exists>a s. sp = Obj a \<and> in_use (sdata (spans st)) a = None \<and> span_length s = cpages (sizemap st) cl \<and> location s = IN_USE \<and>
        sizeclass s = 0 \<and> on_no_list cheads F1 a \<and> in_use (sdata (spans st1)) = (in_use (sdata (spans st)))(a \<mapsto> s)"
      by (rule alloc_specD [OF sp]) blast
    have sm: "sizemap st1 = sizemap st" using F1(2) heap_more_central(1) [of st1 st] by (simp add: hframe_def)
    show "safe (populated os owned T X st) (case res of None \<Rightarrow> Inr st1 | Some sp \<Rightarrow> bind_res (RegisterSizeClass sp cl st1) (\<lambda>st'.
     bind_res (get_span sp st') (\<lambda>s. bind_res (ByteSizeForClass (sizemap (cache_pages (cpages (sizemap st) cl) (start s) cl st')) (int cl)) (\<lambda>sz.
        bind_res (chain_objects sp None (page_bytes (start s)) (page_bytes (start s) + page_bytes (cpages (sizemap st) cl)) (nat sz) 0 (cache_pages (cpages (sizemap st) cl) (start s) cl st')) (\<lambda>(tail, num, st).
        bind_res (set_tail sp tail 0 st) (\<lambda>st.
        bind_res (on_spans (upd_span sp (refcount_update (\<lambda>_. 0))) st) (\<lambda>st.
        bind_res (on_spans (DLL_Prepend (NonemptyHd cl) sp) st) (\<lambda>st.
        upd_cfl cl (\<lambda>c. c\<lparr>num_spans := add64 (num_spans c) 1, counter := add64 (counter c) (nat num)\<rparr>) st))))))))"
    proof (cases res)
      case None
      then show ?thesis using page_heap_fails [OF inv F1(1,2) F1(3)] by simp
    next
      case (Some sp)
      obtain a s where a: "sp = Obj a" "in_use (sdata (spans st)) a = None" "span_length s = cpages (sizemap st) cl" "location s = IN_USE" "on_no_list cheads F1 a"
          "in_use (sdata (spans st1)) = (in_use (sdata (spans st)))(a \<mapsto> s)" using some [OF Some] by blast
      show ?thesis unfolding Some option.case a(1)
        using returns_safe [OF populate_span [OF inv cl F1(1,2) a(2-6)]] unfolding Let_def sm .
    qed
  qed
qed

end
