(* ===== verification/Central_Correct.thy ===== *)
theory Central_Correct
  imports Central_Populate
begin

text \<open>
  The central free lists as their clients, the thread caches, see them: \<open>RemoveRange\<close> hands out objects that no
  client holds, \<open>InsertRange\<close> takes them back, and the objects out with clients lie in memory from the system
  and do not overlap.
\<close>

section \<open>Objects from spans\<close>

lemma fetched_none:
  assumes "cinv os owned F C T X st"
  shows "fetched os owned cl N T X p0 st (0, p0, q0, st)"
  unfolding fetched_def prod.case using assms
  by (intro exI [of _ F] exI [of _ C] exI [of _ "[]"]) (simp add: rframe_def)

lemma FetchFromOneSpans_eff:
  fixes st :: "('o, 'z) central_scheme"
  assumes inv: "cinv os owned F C T X st" and cl: "cl < 88" "cl \<noteq> 0"
  shows "returns (fetched os owned cl N T X p0 st) (FetchFromOneSpans cl N p0 q0 st)"
proof (cases "F (NonemptyHd cl) = []")
  case True
  then show ?thesis using FetchFromOneSpans_empty [where cl = cl, OF inv cl(1)] fetched_none [OF inv] by simp
next
  case False
  show ?thesis by (rule returns_mono [OF FetchFromOneSpans_some [OF inv cl False]]) blast
qed

lemma fetched_after:
  fixes st st1 :: "('o, 'z) central_scheme"
  assumes f: "fetched os owned cl N T X p0 st1 r" and p: "rframe owned st st1" "\<forall>k<88. \<forall>y\<in>X k. objs st1 y = objs st y"
  shows "fetched os owned cl N T X p0 st r"
proof -
  obtain n p q st' where r: "r = (n, p, q, st')" by (cases r) auto
  from f obtain F' C' xs where x: "cinv os owned F' C' T (X(cl := X cl \<union> set xs)) st'" "n = int (length xs)" "n \<le> max 1 N"
      "if xs = [] then p = p0 else sll (objs st') p xs \<and> q = last xs" "set xs \<inter> X cl = {}" "rframe owned st1 st'" "\<forall>k<88. \<forall>y\<in>X k. objs st' y = objs st1 y"
    unfolding fetched_def r prod.case by blast
  have "\<forall>k<88. \<forall>y\<in>X k. objs st' y = objs st y" using x(7) p(2) by simp
  then show ?thesis unfolding fetched_def r prod.case using x(1-5) rframe_trans [OF p(1) x(6)] by blast
qed

lemma FetchFromOneSpansSafe_eff:
  fixes st :: "('o, 'z) central_scheme"
  assumes inv: "cinv os owned F C T X st" and cl: "cl < 88" "cl \<noteq> 0"
  shows "safe (fetched os owned cl N T X 0 st) (FetchFromOneSpansSafe os cl N 0 0 st)"
proof (cases "F (NonemptyHd cl) = []")
  case True
  have e: "FetchFromOneSpans cl N 0 0 st = Inr (0, 0, 0, st)" by (rule FetchFromOneSpans_empty [where cl = cl, OF inv cl(1) True])
  have "safe (fetched os owned cl N T X 0 st) (bind_res (Populate os cl st) (FetchFromOneSpans cl N 0 0))"
  proof (rule safe_bind [OF Populate_eff [OF inv cl]])
    fix st1 assume p: "populated os owned T X st st1"
    then obtain F1 C1 where 1: "cinv os owned F1 C1 T X st1" "rframe owned st st1" "\<forall>k<88. \<forall>y\<in>X k. objs st1 y = objs st y" unfolding populated_def by blast
    have "returns (fetched os owned cl N T X 0 st) (FetchFromOneSpans cl N 0 0 st1)"
      by (rule returns_mono [OF FetchFromOneSpans_eff [OF 1(1) cl] fetched_after [OF _ 1(2,3)]])
    then show "safe (fetched os owned cl N T X 0 st) (FetchFromOneSpans cl N 0 0 st1)" by (rule returns_safe)
  qed
  then show ?thesis by (simp add: FetchFromOneSpansSafe_def e)
next
  case False
  then show ?thesis using FetchFromOneSpans_some [OF inv cl False, of N 0 0] by (auto simp: FetchFromOneSpansSafe_def returns_def split: sum.splits)
qed

text \<open>A client may write to the objects it holds.\<close>

lemma cinv_write:
  assumes inv: "cinv os owned F C T X st" and y: "y \<in> X k" "k < 88"
  shows "cinv os owned F C T X (st\<lparr>objs := (objs st)(y := v)\<rparr>)"
proof -
  note D = cinvD [OF inv]
  obtain nC: "\<And>b. y \<notin> set (C b)" and nT: "\<And>k. k < 88 \<Longrightarrow> y \<notin> set (concat (T k))" by (rule out_object [OF inv y]) blast
  have "span_ok (sizemap st) ((objs st)(y := v)) C s a" if "span_ok (sizemap st) (objs st) C s a" for s a
    using that nC by (simp add: span_ok_def)
  then have "spans_ok (sizemap st) ((objs st)(y := v)) F C (in_use (sdata (spans st)))" using D(3) unfolding spans_ok_def by blast
  moreover have "slots_ok (sizemap st) ((objs st)(y := v)) T (central_cache st)" by (rule slots_ok_mem [OF D(4)]) (use nT in auto)
  ultimately show ?thesis using D by (simp add: cinv_def)
qed

text \<open>No object is out with two classes.\<close>

lemma out_classes:
  assumes inv: "cinv os owned F C T X st" and x: "x \<in> X j" "j < 88" and y: "x \<in> X k" "k < 88"
  shows "j = k"
proof -
  obtain a s where a: "in_use (sdata (spans st)) a = Some s" "sizeclass s = j" "j \<noteq> 0" "x \<in> objs_of (sizemap st) s" by (rule out_object [OF inv x]) blast
  obtain b t where b: "in_use (sdata (spans st)) b = Some t" "sizeclass t = k" "k \<noteq> 0" "x \<in> objs_of (sizemap st) t" by (rule out_object [OF inv y]) blast
  have "a = b" using objs_disjoint [OF inv a(1) _ b(1) _ a(4) b(4)] a b by blast
  then show ?thesis using a b by simp
qed

section \<open>The loop of \<open>RemoveRange\<close>\<close>

definition collected where
  "collected os owned cl N T X xs st r \<longleftrightarrow> (case r of (n, p, st') \<Rightarrow> \<exists>F' C' zs. cinv os owned F' C' T (X(cl := X cl \<union> set zs)) st' \<and>
     n = int (length (zs @ xs)) \<and> n \<le> max 1 N \<and> sll (objs st') p (zs @ xs) \<and> set zs \<inter> X cl = {} \<and> rframe owned st st' \<and> (\<forall>k<88. \<forall>y\<in>X k. objs st' y = objs st y))"

lemma remove_loop_eff:
  fixes st :: "('o, 'z) central_scheme"
  assumes "cinv os owned F C T X st" "cl < 88" "cl \<noteq> 0" "sll (objs st) p xs" "set xs \<subseteq> X cl" "int (length xs) \<le> max 1 N"
  shows "safe (collected os owned cl N T X xs st) (remove_loop os cl N (int (length xs)) p st)"
  using assms
proof (induction "nat (N - int (length xs))" arbitrary: F C X p xs st rule: less_induct)
  case less
  note inv = less.prems(1) and cl = less.prems(2,3)
  have stop: "collected os owned cl N T X xs st (int (length xs), p, st)"
    unfolding collected_def prod.case using less.prems by (intro exI [of _ F] exI [of _ C] exI [of _ "[]"]) (simp add: rframe_def)
  show ?case
  proof (cases "int (length xs) < N")
    case False
    then show ?thesis using stop by (subst remove_loop.simps) simp
  next
    case True
    have "safe (collected os owned cl N T X xs st)
       (bind_res (FetchFromOneSpansSafe os cl (N - int (length xs)) 0 0 st) (\<lambda>(n, head, tail, st).
        if n = 0 then Inr (int (length xs), p, st)
        else bind_res (SLL_PushRange (objs st) p head tail) (\<lambda>(first, m). remove_loop os cl N (int (length xs) + n) first (st\<lparr>objs := m\<rparr>))))"
    proof (rule safe_bind [OF FetchFromOneSpansSafe_eff [OF inv cl]], clarify)
      fix n head tail st1
      assume "fetched os owned cl (N - int (length xs)) T X 0 st (n, head, tail, st1)"
      then obtain F1 C1 ys where 1: "cinv os owned F1 C1 T (X(cl := X cl \<union> set ys)) st1" "n = int (length ys)" "n \<le> max 1 (N - int (length xs))"
          "if ys = [] then head = 0 else sll (objs st1) head ys \<and> tail = last ys" "set ys \<inter> X cl = {}" "rframe owned st st1" "\<forall>k<88. \<forall>y\<in>X k. objs st1 y = objs st y"
        unfolding fetched_def prod.case by blast
      have "sll (objs st1) p xs = sll (objs st) p xs" by (rule chain_cong) (use 1(7) cl(1) less.prems(5) in blast)
      then have p1: "sll (objs st1) p xs" using less.prems(4) by simp
      show "safe (collected os owned cl N T X xs st) (if n = 0 then Inr (int (length xs), p, st1)
        else bind_res (SLL_PushRange (objs st1) p head tail) (\<lambda>(first, m). remove_loop os cl N (int (length xs) + n) first (st1\<lparr>objs := m\<rparr>)))"
      proof (cases "ys = []")
        case True
        then have "collected os owned cl N T X xs st (int (length xs), p, st1)"
          unfolding collected_def prod.case using 1 p1 less.prems(6) by (intro exI [of _ F1] exI [of _ C1] exI [of _ "[]"]) simp
        then show ?thesis using True 1(2) by simp
      next
        case False
        let ?X = "X(cl := X cl \<union> set ys)" and ?m = "(objs st1)(last ys := p)"
        define st2 where "st2 = st1\<lparr>objs := ?m\<rparr>"
        have ys: "sll (objs st1) head ys" "tail = last ys" "set ys \<inter> set xs = {}" using 1(4,5) False less.prems(5) by auto
        note P = SLL_PushRange_sll [OF p1 ys(1) False ys(3)]
        have inv2: "cinv os owned F1 C1 T ?X st2" unfolding st2_def by (rule cinv_write [OF 1(1) _ cl(1)]) (use False in simp)
        have "safe (collected os owned cl N T ?X (ys @ xs) st2) (remove_loop os cl N (int (length (ys @ xs))) head st2)"
          by (rule less.hyps [OF _ inv2 cl]) (use 1(2,3) False True P(2) less.prems(5) in \<open>auto simp: st2_def\<close>)
        then have "safe (collected os owned cl N T X xs st) (remove_loop os cl N (int (length (ys @ xs))) head st2)"
        proof (rule safe_mono, clarify)
          fix n' p' st'
          assume "collected os owned cl N T ?X (ys @ xs) st2 (n', p', st')"
          then obtain F' C' zs where 3: "cinv os owned F' C' T (?X(cl := ?X cl \<union> set zs)) st'" "n' = int (length (zs @ ys @ xs))" "n' \<le> max 1 N"
              "sll (objs st') p' (zs @ ys @ xs)" "set zs \<inter> ?X cl = {}" "rframe owned st2 st'" "\<forall>k<88. \<forall>y\<in>?X k. objs st' y = objs st2 y"
            unfolding collected_def prod.case by blast
          have "?X(cl := ?X cl \<union> set zs) = X(cl := X cl \<union> set (zs @ ys))" by (simp add: Un_ac)
          then have c: "cinv os owned F' C' T (X(cl := X cl \<union> set (zs @ ys))) st'" using 3(1) by metis
          have keep: "objs st' y = objs st y" if y: "k < 88" "y \<in> X k" for k y
          proof -
            have "y \<in> ?X k" using y by auto
            then have "objs st' y = objs st2 y" using 3(7) y(1) by blast
            moreover have "y \<noteq> last ys"
            proof
              assume eq: "y = last ys"
              then have "y \<in> ?X cl" using False by simp
              then have "k = cl" using out_classes [OF 1(1) \<open>y \<in> ?X k\<close> y(1) _ cl(1)] by blast
              then show False using y(2) 1(5) eq False last_in_set by blast
            qed
            ultimately show ?thesis using 1(7) y by (simp add: st2_def)
          qed
          have "rframe owned st st2" using 1(6) by (simp add: rframe_def st2_def)
          then have fr: "rframe owned st st'" using 3(6) by (rule rframe_trans)
          have "set (zs @ ys) \<inter> X cl = {}" using 3(5) 1(5) by auto
          then show "collected os owned cl N T X xs st (n', p', st')"
            unfolding collected_def prod.case using c 3(2-4) fr keep by (intro exI [of _ F'] exI [of _ C'] exI [of _ "zs @ ys"]) simp
        qed
        then show ?thesis using False 1(2) ys(2) P(1) by (simp add: st2_def add.commute)
      qed
    qed
    then show ?thesis using True by (subst remove_loop.simps) simp
  qed
qed

section \<open>\<open>RemoveRange\<close>\<close>

definition removed where
  "removed os owned cl N X st r \<longleftrightarrow> (case r of (n, p, q, st') \<Rightarrow> \<exists>F' C' T' xs. cinv os owned F' C' T' (X(cl := X cl \<union> set xs)) st' \<and>
     n = int (length xs) \<and> n \<le> max 1 N \<and> sll (objs st') p xs \<and> (xs \<noteq> [] \<longrightarrow> q = last xs) \<and> set xs \<inter> X cl = {} \<and>
     sizemap st' = sizemap st \<and> owned (os_st st) \<subseteq> owned (os_st st') \<and> (\<forall>k<88. \<forall>y\<in>X k. objs st' y = objs st y))"

lemma RemoveRange_slot:
  fixes st :: "('o, 'z) central_scheme"
  assumes inv: "cinv os owned F C T X st" and cl: "cl < 88" "cl \<noteq> 0" and N: "N = cmove (sizemap st) cl" and u: "0 < used_slots (central_cache st ! cl)"
  shows "returns (removed os owned cl N X st)
    (bind_res (upd_cfl cl (\<lambda>c. c\<lparr>used_slots := used_slots c - 1\<rparr>) st) (\<lambda>st'.
     bind_res (rd (tc_slots (central_cache st ! cl)) (used_slots (central_cache st ! cl) - 1)) (\<lambda>(head, tail). Inr (N, head, tail, st'))))"
proof -
  note D = cinvD [OF inv]
  let ?c = "central_cache st ! cl"
  have ok: "list_ok (sizemap st) (objs st) cl ?c (T cl)" by (rule slots_okD [OF D(4) cl(1)])
  have len: "cl < length (central_cache st)" using slots_len [OF D(4)] cl(1) by simp
  have "used_slots ?c = int (length (T cl))" using ok by (simp add: list_ok_def)
  then have "T cl \<noteq> []" using u by auto
  then obtain Ts xs where T: "T cl = Ts @ [xs]" by (cases "T cl" rule: rev_cases) auto
  note sn = list_ok_snoc [OF ok [unfolded T]]
  let ?d = "?c\<lparr>used_slots := used_slots ?c - 1\<rparr>"
  let ?st = "st\<lparr>central_cache := (central_cache st)[cl := ?d]\<rparr>"
  have "list_ok (sizemap st) (objs st) cl ?d Ts" using ok sn(1) T by (simp add: list_ok_def)
  from cinv_pop [OF inv cl(1) T this] have c': "cinv os owned F C (T(cl := Ts)) (X(cl := X cl \<union> set xs)) ?st" .
  have sl: "length Ts < 64" "length (tc_slots ?c) = 64" "used_slots ?c = int (length Ts) + 1" using ok T by (simp_all add: list_ok_def)
  obtain head tail where ht: "tc_slots ?c ! length Ts = (head, tail)" by (cases "tc_slots ?c ! length Ts") auto
  have s: "sll (objs st) head xs" "xs \<noteq> []" "tail = last xs" "int (length xs) = N" using sn(2) ht N by (simp_all add: slot_ok_def)
  have "set xs \<inter> X cl = {}" using parts_okD(3) [OF D(5) cl(1)] T by auto
  then have "removed os owned cl N X st (N, head, tail, ?st)"
    unfolding removed_def prod.case using c' s by (intro exI [of _ F] exI [of _ C] exI [of _ "T(cl := Ts)"] exI [of _ xs]) simp
  then show ?thesis using sl ht by (simp add: upd_cfl_run [OF len])
qed

lemma RemoveRange_eff:
  fixes st :: "('o, 'z) central_scheme"
  assumes inv0: "cinv os owned F C T X st0" and cl: "cl < 88" "cl \<noteq> 0" and st0: "st = st0\<lparr>comm_times := snd (atmc_fetch_and_add (comm_times st0) 1)\<rparr>"
  shows "safe (removed os owned cl N X st) (RemoveRange os cl N st0)"
proof -
  have inv: "cinv os owned F C T X st" using inv0 by (simp add: st0)
  note D = cinvD [OF inv]
  have sc: "size_class (central_cache st ! cl) = cl" using slots_okD [OF D(4) cl(1)] by (simp add: list_ok_def)
  have len: "cl < length (central_cache st)" using slots_len [OF D(4)] cl(1) by simp
  have mv: "num_objects_to_move (sizemap st) (int cl) = Inr (cmove (sizemap st) cl)" using class_size_run(5) [OF D(2)] cl by simp
  have run: "RemoveRange os cl N st0 = (if N = cmove (sizemap st) cl \<and> 0 < used_slots (central_cache st ! cl) then
      bind_res (upd_cfl cl (\<lambda>c. c\<lparr>used_slots := used_slots c - 1\<rparr>) st) (\<lambda>st'.
        bind_res (rd (tc_slots (central_cache st ! cl)) (used_slots (central_cache st ! cl) - 1)) (\<lambda>(head, tail). Inr (N, head, tail, st')))
      else bind_res (FetchFromOneSpansSafe os cl N 0 0 st) (\<lambda>(result, first, fin, st).
        if result \<noteq> 0 then bind_res (remove_loop os cl N result first st) (\<lambda>(result, first, st). Inr (result, first, fin, st)) else Inr (result, first, fin, st)))"
    unfolding RemoveRange_def st0 [symmetric] Let_def get_cfl_run [OF len] bind_res.simps(2) sc mv ..
  have "safe (removed os owned cl N X st) (bind_res (FetchFromOneSpansSafe os cl N 0 0 st) (\<lambda>(result, first, fin, st).
        if result \<noteq> 0 then bind_res (remove_loop os cl N result first st) (\<lambda>(result, first, st). Inr (result, first, fin, st)) else Inr (result, first, fin, st)))"
  proof (rule safe_bind [OF FetchFromOneSpansSafe_eff [OF inv cl]], clarify)
    fix n p q st1
    assume "fetched os owned cl N T X 0 st (n, p, q, st1)"
    then obtain F1 C1 xs where 1: "cinv os owned F1 C1 T (X(cl := X cl \<union> set xs)) st1" "n = int (length xs)" "n \<le> max 1 N"
        "if xs = [] then p = 0 else sll (objs st1) p xs \<and> q = last xs" "set xs \<inter> X cl = {}" "rframe owned st st1" "\<forall>k<88. \<forall>y\<in>X k. objs st1 y = objs st y"
      unfolding fetched_def prod.case by blast
    let ?X = "X(cl := X cl \<union> set xs)"
    have s1: "sll (objs st1) p xs" "xs \<noteq> [] \<longrightarrow> q = last xs" using 1(4) by (auto split: if_splits)
    have fr1: "sizemap st1 = sizemap st" "owned (os_st st) \<subseteq> owned (os_st st1)" using 1(6) by (simp_all add: rframe_def)
    show "safe (removed os owned cl N X st) (if n \<noteq> 0 then bind_res (remove_loop os cl N n p st1) (\<lambda>(result, first, st). Inr (result, first, q, st)) else Inr (n, p, q, st1))"
    proof (cases "n = 0")
      case True
      have "removed os owned cl N X st (n, p, q, st1)"
        unfolding removed_def prod.case using 1 s1 fr1 by (intro exI [of _ F1] exI [of _ C1] exI [of _ T] exI [of _ xs]) simp
      then show ?thesis using True by simp
    next
      case False
      have sub: "set xs \<subseteq> ?X cl" "int (length xs) \<le> max 1 N" using 1(2,3) by simp_all
      have "safe (removed os owned cl N X st) (bind_res (remove_loop os cl N (int (length xs)) p st1) (\<lambda>(result, first, st). Inr (result, first, q, st)))"
      proof (rule safe_bind [OF remove_loop_eff [OF 1(1) cl s1(1) sub]], clarify)
        fix n' p' st'
        assume "collected os owned cl N T ?X xs st1 (n', p', st')"
        then obtain F' C' zs where 3: "cinv os owned F' C' T (?X(cl := ?X cl \<union> set zs)) st'" "n' = int (length (zs @ xs))" "n' \<le> max 1 N"
            "sll (objs st') p' (zs @ xs)" "set zs \<inter> ?X cl = {}" "rframe owned st1 st'" "\<forall>k<88. \<forall>y\<in>?X k. objs st' y = objs st1 y"
          unfolding collected_def prod.case by blast
        have "?X(cl := ?X cl \<union> set zs) = X(cl := X cl \<union> set (zs @ xs))" by (simp add: Un_ac)
        then have c: "cinv os owned F' C' T (X(cl := X cl \<union> set (zs @ xs))) st'" using 3(1) by metis
        have keep: "\<forall>k<88. \<forall>y\<in>X k. objs st' y = objs st y"
        proof (intro allI impI ballI)
          fix k y assume y: "k < (88::nat)" "y \<in> X k"
          then have "y \<in> ?X k" by auto
          then show "objs st' y = objs st y" using 3(7) 1(7) y by metis
        qed
        have fr: "sizemap st' = sizemap st" "owned (os_st st) \<subseteq> owned (os_st st')" using fr1 3(6) by (auto simp: rframe_def)
        have "set (zs @ xs) \<inter> X cl = {}" using 3(5) 1(5) by auto
        moreover have "q = last (zs @ xs)" using s1(2) False 1(2) by auto
        ultimately have "removed os owned cl N X st (n', p', q, st')"
          unfolding removed_def prod.case using c 3(2-4) fr keep by (intro exI [of _ F'] exI [of _ C'] exI [of _ T] exI [of _ "zs @ xs"]) simp
        then show "safe (removed os owned cl N X st) (Inr (n', p', q, st'))" by simp
      qed
      then show ?thesis using False 1(2) by simp
    qed
  qed
  then show ?thesis unfolding run using returns_safe [OF RemoveRange_slot [OF inv cl]] by simp
qed

end
