(* ===== verification/Central_Safe.thy ===== *)
theory Central_Safe
  imports Central_Correct Size_Map_Correct
begin

text \<open>
  The contract between the central free lists and their clients as a locale, its interpretation on the model of
  \<open>central_freelist.cc\<close>, and the properties that follow for every sequence of calls.
\<close>

section \<open>Pools of objects\<close>

text \<open>
  A pool hands out chains of objects of a class and takes them back; \<open>X cl\<close> are the objects of class \<open>cl\<close> that clients
  hold.  A client may write to the first word of an object while it holds it.
\<close>

inductive pool_calls ::
  "(nat \<Rightarrow> int \<Rightarrow> 's \<Rightarrow> (int \<times> addr \<times> addr \<times> 's) res) \<Rightarrow> (nat \<Rightarrow> addr \<Rightarrow> addr \<Rightarrow> int \<Rightarrow> 's \<Rightarrow> 's res) \<Rightarrow> ('s \<Rightarrow> mem) \<Rightarrow> ((mem \<Rightarrow> mem) \<Rightarrow> 's \<Rightarrow> 's) \<Rightarrow>
   (nat \<Rightarrow> addr set) \<Rightarrow> 's \<Rightarrow> (nat \<Rightarrow> addr set) \<Rightarrow> 's \<Rightarrow> bool"
  for rmv ins words upd_words X0 s0 where
  calls_start: "pool_calls rmv ins words upd_words X0 s0 X0 s0"
| calls_remove: "pool_calls rmv ins words upd_words X0 s0 X s \<Longrightarrow> 0 < cl \<Longrightarrow> cl < 88 \<Longrightarrow> rmv cl N s = Inr (n, p, q, s') \<Longrightarrow> sll (words s') p xs \<Longrightarrow>
    pool_calls rmv ins words upd_words X0 s0 (X(cl := X cl \<union> set xs)) s'"
| calls_insert: "pool_calls rmv ins words upd_words X0 s0 X s \<Longrightarrow> 0 < cl \<Longrightarrow> cl < 88 \<Longrightarrow> sll (words s) p xs \<Longrightarrow> xs \<noteq> [] \<longrightarrow> q = last xs \<Longrightarrow> set xs \<subseteq> X cl \<Longrightarrow>
    ins cl p q (int (length xs)) s = Inr s' \<Longrightarrow> pool_calls rmv ins words upd_words X0 s0 (X(cl := X cl - set xs)) s'"
| calls_write: "pool_calls rmv ins words upd_words X0 s0 X s \<Longrightarrow> cl < 88 \<Longrightarrow> x \<in> X cl \<Longrightarrow>
    pool_calls rmv ins words upd_words X0 s0 X (upd_words (\<lambda>m. m(x := v)) s)"

text \<open>What a pool promises for one call.\<close>

definition taken where
  "taken I words cl N X s r \<longleftrightarrow> (case r of (n, p, q, s') \<Rightarrow> \<exists>xs. I (X(cl := X cl \<union> set xs)) s' \<and> sll (words s') p xs \<and> n = int (length xs) \<and> n \<le> max 1 N \<and>
     (xs \<noteq> [] \<longrightarrow> q = last xs) \<and> (\<forall>k<88. set xs \<inter> X k = {} \<and> (\<forall>y\<in>X k. words s' y = words s y)))"

definition given where
  "given I words cl xs X s s' \<longleftrightarrow> I (X(cl := X cl - set xs)) s' \<and> (\<forall>k<88. \<forall>y\<in>X k. y \<notin> set xs \<longrightarrow> words s' y = words s y)"

locale object_pool =
  fixes I :: "(nat \<Rightarrow> addr set) \<Rightarrow> 's \<Rightarrow> bool"
    and words :: "'s \<Rightarrow> mem" and upd_words :: "(mem \<Rightarrow> mem) \<Rightarrow> 's \<Rightarrow> 's"
    and rmv :: "nat \<Rightarrow> int \<Rightarrow> 's \<Rightarrow> (int \<times> addr \<times> addr \<times> 's) res"
    and ins :: "nat \<Rightarrow> addr \<Rightarrow> addr \<Rightarrow> int \<Rightarrow> 's \<Rightarrow> 's res"
  assumes remove_law: "I X s \<Longrightarrow> 0 < cl \<Longrightarrow> cl < 88 \<Longrightarrow> safe (taken I words cl N X s) (rmv cl N s)"
    and insert_law: "I X s \<Longrightarrow> 0 < cl \<Longrightarrow> cl < 88 \<Longrightarrow> sll (words s) p xs \<Longrightarrow> xs \<noteq> [] \<longrightarrow> q = last xs \<Longrightarrow> set xs \<subseteq> X cl \<Longrightarrow>
      returns (given I words cl xs X s) (ins cl p q (int (length xs)) s)"
    and write_law: "I X s \<Longrightarrow> cl < 88 \<Longrightarrow> x \<in> X cl \<Longrightarrow> I X (upd_words (\<lambda>m. m(x := v)) s)"
begin

text \<open>Every sequence of calls keeps the invariant of the pool.\<close>

lemma calls_inv: "pool_calls rmv ins words upd_words X0 s0 X s \<Longrightarrow> I X0 s0 \<Longrightarrow> I X s"
proof (induction rule: pool_calls.induct)
  case (calls_remove X s cl N n p q s' xs)
  have "taken I words cl N X s (n, p, q, s')"
    using safe_Inr_D [OF remove_law [OF calls_remove.IH [OF calls_remove.prems] calls_remove.hyps(2,3)] calls_remove.hyps(4)] .
  then obtain ys where ys: "I (X(cl := X cl \<union> set ys)) s'" "sll (words s') p ys" unfolding taken_def prod.case by blast
  have "ys = xs" by (rule sll_unique [OF ys(2) calls_remove.hyps(5)])
  then show ?case using ys(1) by blast
next
  case (calls_insert X s cl p xs q s')
  have "given I words cl xs X s s'"
    using insert_law [OF calls_insert.IH [OF calls_insert.prems] calls_insert.hyps(2-6)] calls_insert.hyps(7) by simp
  then show ?case unfolding given_def by blast
qed (simp_all add: write_law)

text \<open>Objects that a call hands out were with no client.\<close>

lemma calls_fresh:
  assumes "pool_calls rmv ins words upd_words X0 s0 X s" "I X0 s0" "0 < cl" "cl < 88"
  shows "safe (taken I words cl N X s) (rmv cl N s)"
  by (rule remove_law [OF calls_inv [OF assms(1,2)] assms(3,4)])

lemma calls_return:
  assumes "pool_calls rmv ins words upd_words X0 s0 X s" "I X0 s0" "0 < cl" "cl < 88" "sll (words s) p xs" "xs \<noteq> [] \<longrightarrow> q = last xs" "set xs \<subseteq> X cl"
  shows "returns (given I words cl xs X s) (ins cl p q (int (length xs)) s)"
  by (rule insert_law [OF calls_inv [OF assms(1,2)] assms(3-7)])

end

section \<open>The central free lists\<close>

definition central_state :: "'o os \<Rightarrow> ('o \<Rightarrow> addr set) \<Rightarrow> (nat \<Rightarrow> addr set) \<Rightarrow> ('o, 'z) central_scheme \<Rightarrow> bool" where
  "central_state os owned X st \<longleftrightarrow> (\<exists>F C T. cinv os owned F C T X st)"

lemma removed_taken:
  fixes st :: "('o, 'z) central_scheme"
  assumes "removed os owned cl N X st r" "cl < 88"
  shows "taken (central_state os owned) objs cl N X st r"
proof -
  obtain n p q st' where r: "r = (n, p, q, st')" by (cases r) auto
  from assms(1) obtain F' C' T' xs where x: "cinv os owned F' C' T' (X(cl := X cl \<union> set xs)) st'" "n = int (length xs)" "n \<le> max 1 N" "sll (objs st') p xs"
      "xs \<noteq> [] \<longrightarrow> q = last xs" "set xs \<inter> X cl = {}" "\<forall>k<88. \<forall>y\<in>X k. objs st' y = objs st y"
    unfolding removed_def r prod.case by blast
  have "set xs \<inter> X k = {}" if k: "k < 88" for k
  proof (cases "k = cl")
    case False
    have "y \<notin> X k" if y: "y \<in> set xs" for y
    proof
      assume "y \<in> X k"
      then have "y \<in> (X(cl := X cl \<union> set xs)) k" "y \<in> (X(cl := X cl \<union> set xs)) cl" using False y by simp_all
      then show False using out_classes [OF x(1) _ k _ assms(2)] False by blast
    qed
    then show ?thesis by blast
  qed (use x(6) in simp)
  then show ?thesis unfolding taken_def r prod.case central_state_def using x by blast
qed

interpretation central: object_pool "central_state os owned" objs objs_update "RemoveRange os" "InsertRange os" for os owned
proof
  fix X and N :: int and cl :: nat and st :: "('a, 'b) central_scheme"
  assume "central_state os owned X st" "0 < cl" "cl < 88"
  then obtain F C T where inv: "cinv os owned F C T X st" "cl < 88" "cl \<noteq> 0" by (auto simp: central_state_def)
  let ?st = "st\<lparr>comm_times := snd (atmc_fetch_and_add (comm_times st) 1)\<rparr>"
  have eq: "taken (central_state os owned) objs cl N X ?st = taken (central_state os owned) objs cl N X st" by (simp add: taken_def fun_eq_iff)
  show "safe (taken (central_state os owned) objs cl N X st) (RemoveRange os cl N st)"
    unfolding eq [symmetric] by (rule safe_mono [OF RemoveRange_eff [OF inv refl]]) (rule removed_taken [OF _ inv(2)])
next
  fix X p xs q and cl :: nat and st :: "('a, 'b) central_scheme"
  assume a: "central_state os owned X st" "0 < cl" "cl < 88" "sll (objs st) p xs" "xs \<noteq> [] \<longrightarrow> q = last xs" "set xs \<subseteq> X cl"
  then obtain F C T where inv: "cinv os owned F C T X st" by (auto simp: central_state_def)
  obtain st' F' C' T' where 1: "InsertRange os cl p q (int (length xs)) st = Inr st'" "cinv os owned F' C' T' (X(cl := X cl - set xs)) st'"
      "\<forall>k<88. \<forall>y\<in>X k. y \<notin> set xs \<longrightarrow> objs st' y = objs st y"
    using InsertRange_eff [OF inv a(3) _ a(4-6)] a(2) by auto
  then show "returns (given (central_state os owned) objs cl xs X st) (InsertRange os cl p q (int (length xs)) st)"
    by (simp add: given_def central_state_def) blast
next
  fix X x v and cl :: nat and st :: "('a, 'b) central_scheme"
  assume a: "central_state os owned X st" "cl < 88" "x \<in> X cl"
  then obtain F C T where inv: "cinv os owned F C T X st" by (auto simp: central_state_def)
  have "objs_update (\<lambda>m. m(x := v)) st = st\<lparr>objs := (objs st)(x := v)\<rparr>" by simp
  then show "central_state os owned X (objs_update (\<lambda>m. m(x := v)) st)" using cinv_write [OF inv a(3,2)] unfolding central_state_def by metis
qed

section \<open>Bytes of objects\<close>

definition object_bytes :: "SizeMap \<Rightarrow> nat \<Rightarrow> addr \<Rightarrow> addr set" where
  "object_bytes sm cl x = {x..<x + csize sm cl}"

lemma out_bytes:
  fixes st :: "('o, 'z) central_scheme"
  assumes inv: "cinv os owned F C T X st" and x: "x \<in> X cl" "cl < 88"
  shows "object_bytes (sizemap st) cl x \<subseteq> owned (os_st st)"
    "\<exists>a s. MapObjectToSpan x st = Inr (Obj a) \<and> get_span (Obj a) st = Inr s \<and> sizeclass s = cl"
proof -
  note D = cinvD [OF inv]
  obtain a s where a: "in_use (sdata (spans st)) a = Some s" "sizeclass s = cl" "cl \<noteq> 0" "x \<in> objs_of (sizemap st) s" by (rule out_object [OF inv x]) blast
  have z: "0 < csize (sizemap st) (sizeclass s)" using span_size [OF D(2), of s] a x(2) by simp
  have "sdata (spans st) a = Some s" using a(1) by (simp add: in_use_Some)
  then have "span_bytes_of s \<subseteq> owned (os_st st)" using hinvD(1) [OF D(1)] by (simp add: hgen0_def mem_ok_def)
  moreover have "object_bytes (sizemap st) cl x \<subseteq> span_bytes_of s"
    using obj_page(2,3) [OF a(4) z] a(2) by (auto simp: object_bytes_def span_bytes_of_def mult.commute)
  ultimately show "object_bytes (sizemap st) cl x \<subseteq> owned (os_st st)" by blast
  obtain u where "get_span (Obj a) st = Inr u" "sizeclass u = sizeclass s" using span_read [OF a(1)] by metis
  then show "\<exists>a s. MapObjectToSpan x st = Inr (Obj a) \<and> get_span (Obj a) st = Inr s \<and> sizeclass s = cl"
    using object_span [OF inv a(1) _ a(4)] a(2,3) by auto
qed

lemma obj_apart:
  assumes "x \<in> objs_of sm s" "y \<in> objs_of sm s" "x < y"
  shows "x + csize sm (sizeclass s) \<le> y"
proof -
  obtain i j where ij: "x = obj sm s i" "y = obj sm s j" using assms(1,2) by (auto simp: objs_of_def)
  then have "i * csize sm (sizeclass s) < j * csize sm (sizeclass s)" using assms(3) by (simp add: obj_def)
  then have "Suc i \<le> j" by simp
  then have "Suc i * csize sm (sizeclass s) \<le> j * csize sm (sizeclass s)" by (rule mult_le_mono1)
  then show ?thesis by (simp add: ij obj_def)
qed

lemma out_bytes_disjoint:
  fixes st :: "('o, 'z) central_scheme"
  assumes inv: "cinv os owned F C T X st" and x: "x \<in> X cl" "cl < 88" and y: "y \<in> X k" "k < 88" and ne: "x \<noteq> y"
  shows "object_bytes (sizemap st) cl x \<inter> object_bytes (sizemap st) k y = {}"
proof -
  note D = cinvD [OF inv]
  obtain a s where a: "in_use (sdata (spans st)) a = Some s" "sizeclass s = cl" "cl \<noteq> 0" "x \<in> objs_of (sizemap st) s" by (rule out_object [OF inv x]) blast
  obtain b t where b: "in_use (sdata (spans st)) b = Some t" "sizeclass t = k" "k \<noteq> 0" "y \<in> objs_of (sizemap st) t" by (rule out_object [OF inv y]) blast
  show ?thesis
  proof (cases "a = b")
    case True
    then have "s = t" "cl = k" using a b by auto
    then show ?thesis using obj_apart [of x "sizemap st" s y] obj_apart [of y "sizemap st" s x] a b ne by (cases "x < y") (auto simp: object_bytes_def)
  next
    case False
    have z: "0 < csize (sizemap st) (sizeclass s)" "0 < csize (sizemap st) (sizeclass t)" using span_size [OF D(2), of s] span_size [OF D(2), of t] a b x(2) y(2) by simp_all
    have "sdata (spans st) a = Some s" "sdata (spans st) b = Some t" using a(1) b(1) by (simp_all add: in_use_Some)
    then have "pages_of s \<inter> pages_of t = {}" using hinvD(7) [OF D(1)] False unfolding spans_wf_def by blast
    then have apart: "start s + span_length s \<le> start t \<or> start t + span_length t \<le> start s"
      using obj_page(1) [OF a(4) z(1)] obj_page(1) [OF b(4) z(2)] by (cases "start s \<le> start t") (auto simp: pages_of_def disjoint_iff)
    show ?thesis
    proof (rule ccontr)
      assume "\<not> ?thesis"
      then obtain w where "w \<in> object_bytes (sizemap st) cl x" "w \<in> object_bytes (sizemap st) k y" by blast
      then have w: "x \<le> w" "w < x + csize (sizemap st) cl" "y \<le> w" "w < y + csize (sizemap st) k" by (simp_all add: object_bytes_def)
      note o = obj_page(2,3) [OF a(4) z(1), unfolded a(2)] obj_page(2,3) [OF b(4) z(2), unfolded b(2)]
      have s: "2 ^ kPageShift * start s \<le> w" using o(1) w(1) by (rule le_trans)
      have s': "w < 2 ^ kPageShift * (start s + span_length s)" using w(2) o(2) by (rule less_le_trans)
      have t: "2 ^ kPageShift * start t \<le> w" using o(3) w(3) by (rule le_trans)
      have t': "w < 2 ^ kPageShift * (start t + span_length t)" using w(4) o(4) by (rule less_le_trans)
      have "start s < start t + span_length t" "start t < start s + span_length s" using le_less_trans [OF s t'] le_less_trans [OF t s'] by simp_all
      then show False using apart by linarith
    qed
  qed
qed

section \<open>A state\<close>

text \<open>
  The size map of the program, the central lists as \<open>Init\<close> leaves them, and one span of class 65 (objects of 81920 bytes, ten pages): its only object,
  at address 8192, is out with a client.
\<close>

definition real_sizes :: SizeMap where
  "real_sizes = \<lparr> num_objects_to_move_arr = 0 # map (\<lambda>e. min (max 2 (65536 div fst e)) 32768) size_classes, class_array = [],
     class_to_size_arr = 0 # map fst size_classes, class_to_pages_arr = 0 # map snd size_classes \<rparr>"

definition class_fits :: "int \<times> int \<Rightarrow> bool" where
  "class_fits e \<longleftrightarrow> snd e < 2 ^ 30 \<and> fst e \<le> 8192 * snd e \<and> 8192 * snd e div fst e < 2 ^ 16"

lemma size_classes_fit: "list_all class_fits size_classes"
  by (simp add: size_classes_def class_fits_def)

lemma class_fits_ok:
  assumes "class_fits (sz, pg)" "span_geometry sz pg mv"
  shows "0 < nat sz" "0 < nat pg" "nat pg < 2 ^ 30" "nat sz \<le> 2 ^ kPageShift * nat pg" "2 ^ kPageShift * nat pg div nat sz < 2 ^ 16"
proof -
  have g: "0 < sz" "1 \<le> pg" "sz \<le> 8192 * pg" "8192 * pg div sz < 65536" "pg < 2 ^ 30"
    using assms by (simp_all add: class_fits_def span_geometry_def)
  then show "0 < nat sz" "0 < nat pg" "nat pg < 2 ^ 30" by simp_all
  have e: "2 ^ kPageShift * nat pg = nat (8192 * pg)" using g(2) by (simp add: kPageShift_def nat_mult_distrib)
  show "nat sz \<le> 2 ^ kPageShift * nat pg" unfolding e using g(3) by (rule nat_mono)
  have "nat (8192 * pg) div nat sz = nat (8192 * pg div sz)" using g(1,2) by (simp add: nat_div_distrib)
  then show "2 ^ kPageShift * nat pg div nat sz < 2 ^ 16" unfolding e using g(4) by simp
qed

lemma sizemap_ok_classes:
  assumes "class_to_size_arr m = 0 # map fst size_classes" "class_to_pages_arr m = 0 # map snd size_classes"
    "num_objects_to_move_arr m = 0 # map (\<lambda>e. min (max 2 (65536 div fst e)) 32768) size_classes"
  shows "sizemap_ok m"
proof -
  have "class_ok m cl" if cl: "1 \<le> cl" "cl < 88" for cl
  proof -
    obtain k where k: "cl = Suc k" "k < 87" using cl by (cases cl) auto
    obtain sz pg where e: "size_classes ! k = (sz, pg)" by (cases "size_classes ! k") auto
    have f: "class_fits (sz, pg)" "span_geometry sz pg (min (max 2 (65536 div sz)) 32768)"
      using size_classes_fit size_classes_geometry k(2) e size_classes_facts(1) by (auto simp: list_all_length)
    have "csize m cl = nat sz" "cpages m cl = nat pg" "cmove m cl = min (max 2 (65536 div sz)) 32768"
      using assms k e size_classes_facts(1) by (simp_all add: csize_def cpages_def cmove_def)
    then show ?thesis using class_fits_ok [OF f] by (simp add: class_ok_def le_max_iff_disj)
  qed
  then show ?thesis using assms size_classes_facts(1) by (simp add: sizemap_ok_def)
qed

lemma real_sizes_ok: "sizemap_ok real_sizes"
  by (rule sizemap_ok_classes) (simp_all add: real_sizes_def)

lemma real_class_65: "csize real_sizes 65 = 81920" "cpages real_sizes 65 = 10"
proof -
  have "size_classes ! 64 = (81920, 10)" by (simp add: size_classes_def)
  then show "csize real_sizes 65 = 81920" "cpages real_sizes 65 = 10"
    using size_classes_facts(1) by (simp_all add: csize_def cpages_def real_sizes_def)
qed

definition held_span :: Span where
  "held_span = (new_span 1 10)\<lparr>sizeclass := 65, refcount := 1, nxt := EmptyHd 65, prv := EmptyHd 65\<rparr>"

definition held_lists :: store where
  "held_lists p = (case p of NormalHd i \<Rightarrow> empty_lists p | ReturnedHd i \<Rightarrow> empty_lists p
     | EmptyHd i \<Rightarrow> Some ((new_span 0 0)\<lparr>nxt := (if i = 65 then Obj 500000 else p), prv := (if i = 65 then Obj 500000 else p)\<rparr>)
     | NonemptyHd i \<Rightarrow> Some ((new_span 0 0)\<lparr>nxt := p, prv := p\<rparr>)
     | Obj a \<Rightarrow> if a = 500000 then Some held_span else None | _ \<Rightarrow> None)"

definition held_map :: PageMap3 where
  "held_map = \<lparr> root3 = Some (\<lambda>i. if i = 0 then Some (\<lambda>j. if j = 0 then Some (\<lambda>k. if 1 \<le> k \<and> k \<le> 10 then 500000 else 0) else None) else None) \<rparr>"

definition held_central :: "nat central" where
  "held_central = heap.extend (one_heap\<lparr>spans := held_lists, pagemap := held_map\<rparr>)
     \<lparr> sizemap = real_sizes,
       central_cache = map (\<lambda>cl. CentralFreeList_zero\<lparr>size_class := cl, cache_size := 1, max_cache_size := 1\<rparr>) [0..<88],
       objs = (\<lambda>_. 0), race_counter = 0, comm_times = 0, pageheap = 0 \<rparr>"

lemma held_central_sel [simp]:
  "spans held_central = held_lists" "pagemap held_central = held_map" "sizemap held_central = real_sizes" "objs held_central = (\<lambda>_. 0)" "race_counter held_central = 0"
  "central_cache held_central = map (\<lambda>cl. CentralFreeList_zero\<lparr>size_class := cl, cache_size := 1, max_cache_size := 1\<rparr>) [0..<88]"
  by (simp_all add: held_central_def heap.defs)

definition held_F :: "sptr \<Rightarrow> sptr list" where "held_F h = (if h = EmptyHd 65 then [Obj 500000] else [])"

lemma held_sdata: "sdata held_lists = [500000 \<mapsto> unlink held_span]"
  by (auto simp: sdata_def held_lists_def fun_eq_iff)

lemma held_span_sel [simp]:
  "location held_span = IN_USE" "sizeclass held_span = 65" "refcount held_span = 1" "start held_span = 1" "span_length held_span = 10" "objects held_span = 0"
  by (simp_all add: held_span_def new_span_def)

lemma unlink_sel [simp]:
  "location (unlink s) = location s" "sizeclass (unlink s) = sizeclass s" "refcount (unlink s) = refcount s" "start (unlink s) = start s"
  "span_length (unlink s) = span_length s" "objects (unlink s) = objects s"
  by (simp_all add: unlink_def)

lemma held_mem: "mem_ok brk_os brk_owned [500000 \<mapsto> unlink held_span] held_central"
proof -
  have b: "span_bytes_of (unlink held_span) = span_bytes_of one_span" by (simp add: span_bytes_of_def one_span_def)
  have "mem_ok brk_os brk_owned [500000 \<mapsto> unlink held_span] one_heap" using one_heap_mem b by (simp add: mem_ok_def)
  then show ?thesis
    by (simp add: held_central_def heap.defs mem_ok_def pha_inv_def meta_inv_def chunk_def sys_inv_def)
qed

lemma held_map_view: "view3 kPageMapBits held_map k = (if 1 \<le> k \<and> k \<le> 10 then 500000 else 0)"
  by (subst leaf_view [of _ "\<lambda>k. if 1 \<le> k \<and> k \<le> 10 then 500000 else 0"])
    (auto simp: held_map_def LEAF_BITS3_def INTERIOR_BITS_def kPageMapBits_def)

lemma held_lists_ok: "lists_ok held_lists cheads held_F"
  unfolding lists_ok_def
proof (intro conjI ballI impI)
  fix h assume h: "h \<in> cheads"
  show "dlist (lnext held_lists) (lprev held_lists) h (held_F h)"
    using h by (auto simp: cheads_def heads_def held_F_def held_lists_def empty_lists_def dlist_def lnext_def lprev_def held_span_def)
  show "insert h (set (held_F h)) \<subseteq> dom held_lists"
    using h by (auto simp: cheads_def heads_def held_F_def held_lists_def empty_lists_def)
  show "set (held_F h) \<inter> cheads = {}" by (auto simp: held_F_def)
  fix h' assume "h' \<in> cheads" "h \<noteq> h'"
  then show "set (held_F h) \<inter> set (held_F h') = {}" by (auto simp: held_F_def)
qed

lemma held_hinv: "hinv brk_os brk_owned cheads held_F held_central"
proof -
  let ?s = "unlink held_span" let ?D = "[500000 \<mapsto> unlink held_span]"
  have wf: "spans_wf ?D" by (auto simp: spans_wf_def kPageMapBits_def)
  have ens: "ensured3 kPageMapBits held_map k" if "k \<in> pages_of ?s" for k
    using that by (auto simp: ensured3_def pages_of_def held_map_def key1_def key2_def kPageMapBits_def LEAF_BITS3_def INTERIOR_BITS_def)
  have map: "map_ok ?D held_map"
    using ens by (auto simp: map_ok_def held_map_view wf3_def held_map_def [THEN arg_cong [of _ _ root3]] pages_of_def split: if_splits)
  have n: "npages P ?D = (if P ?s then 10 else 0)" for P
    using npages_insert [of "Map.empty" 500000 P ?s] by (simp add: npages_def)
  have le: "lists_exact ?D cheads held_F" by (auto simp: lists_exact_def held_F_def free_span_def cheads_def heads_def)
  have "hgen0 brk_os brk_owned cheads held_F ?D held_central"
    using held_mem wf held_lists_ok le unfolding hgen0_def n
    by (simp add: coalesced_def) (simp add: held_central_def heap.defs one_heap_def brk_heap_def meta_state.defs)
  then show ?thesis
    using map by (simp add: hinv_def hcore_def hgen_def held_sdata) (simp add: held_central_def heap.defs one_heap_def brk_heap_def meta_state.defs)
qed

definition held_X :: "nat \<Rightarrow> addr set" where "held_X = (\<lambda>_. {})(65 := {8192})"

lemma held_objs: "objs_of real_sizes (unlink held_span) = {8192}" "nobjs real_sizes (unlink held_span) = 1"
proof -
  show n: "nobjs real_sizes (unlink held_span) = 1" by (simp add: nobjs_def real_class_65 kPageShift_def)
  show "objs_of real_sizes (unlink held_span) = {8192}" unfolding objs_of_def n by (simp add: obj_def kPageShift_def lessThan_Suc)
qed

lemma held_cinv: "cinv brk_os brk_owned held_F (\<lambda>_. []) (\<lambda>_. []) held_X held_central"
proof -
  let ?s = "unlink held_span"
  have D: "in_use (sdata held_lists) = [500000 \<mapsto> ?s]" by (auto simp: held_sdata in_use_def)
  have "spans_ok real_sizes (\<lambda>_. 0) held_F (\<lambda>_. []) [500000 \<mapsto> ?s]"
    by (auto simp: spans_ok_def span_ok_def held_objs real_class_65 home_def held_F_def)
  moreover have "slots_ok real_sizes (\<lambda>_. 0) (\<lambda>_. []) (central_cache held_central)"
    by (simp add: slots_ok_def list_ok_def CentralFreeList_zero_def kMaxNumTransferEntries_def)
  moreover have "parts_ok real_sizes (\<lambda>_. []) (\<lambda>_. []) held_X [500000 \<mapsto> ?s]"
    by (auto simp: parts_ok_def held_def held_X_def held_objs)
  ultimately show ?thesis using held_hinv real_sizes_ok D by (simp add: cinv_def)
qed

lemma held_state: "central_state brk_os brk_owned held_X held_central"
  using held_cinv by (auto simp: central_state_def)

section \<open>Properties\<close>

text \<open>
  C19: whatever sequence of \<open>RemoveRange\<close>, \<open>InsertRange\<close> and writes to their own objects the clients of the central free lists make,
  every object a client holds lies with all its bytes in memory obtained from the system, its page leads to a span of its size class, and the bytes of
  different objects do not overlap.
\<close>

theorem central_objects_safe:
  fixes st :: "('o, 'z) central_scheme"
  assumes "pool_calls (RemoveRange os) (InsertRange os) objs objs_update X0 st0 X st" "central_state os owned X0 st0"
  shows "(\<forall>cl<88. \<forall>x\<in>X cl. object_bytes (sizemap st) cl x \<subseteq> owned (os_st st) \<and>
            (\<exists>a s. MapObjectToSpan x st = Inr (Obj a) \<and> get_span (Obj a) st = Inr s \<and> sizeclass s = cl)) \<and>
    (\<forall>cl<88. \<forall>k<88. \<forall>x\<in>X cl. \<forall>y\<in>X k. x \<noteq> y \<or> cl \<noteq> k \<longrightarrow> object_bytes (sizemap st) cl x \<inter> object_bytes (sizemap st) k y = {})"
proof -
  obtain F C T where inv: "cinv os owned F C T X st" using central.calls_inv [OF assms] by (auto simp: central_state_def)
  have "object_bytes (sizemap st) cl x \<inter> object_bytes (sizemap st) k y = {}" if "cl < 88" "k < 88" "x \<in> X cl" "y \<in> X k" "x \<noteq> y \<or> cl \<noteq> k" for cl k x y
  proof -
    have "x \<noteq> y" using out_classes [OF inv that(3,1) _ that(2)] that(4,5) by blast
    then show ?thesis by (rule out_bytes_disjoint [OF inv that(3,1,4,2)])
  qed
  then show ?thesis using out_bytes [OF inv] by blast
qed

theorem central_objects_safe_witness:
  "object_bytes real_sizes 65 8192 \<subseteq> brk_owned (os_st held_central) \<and> (\<exists>a s. MapObjectToSpan 8192 held_central = Inr (Obj a) \<and> get_span (Obj a) held_central = Inr s \<and> sizeclass s = 65)"
  using central_objects_safe [OF pool_calls.calls_start held_state, THEN conjunct1, rule_format, of 65 8192] by (simp add: held_X_def)

text \<open>
  C20: after any such sequence of calls \<open>RemoveRange\<close> neither faults nor loops (it may abort when the system has no memory for metadata).  It returns the
  number of objects, at most the number asked for (or one, when that is not positive), and a chain of just that many objects of the class through their first words from \<open>*start\<close> to \<open>*end\<close>; no
  client held any of them, they are now with the caller, and no object that a client holds was written.
\<close>

theorem RemoveRange_refines:
  fixes st :: "('o, 'z) central_scheme"
  assumes "pool_calls (RemoveRange os) (InsertRange os) objs objs_update X0 st0 X st" "central_state os owned X0 st0" "0 < cl" "cl < 88"
  shows "safe (\<lambda>(n, p, q, st'). \<exists>xs. central_state os owned (X(cl := X cl \<union> set xs)) st' \<and> sll (objs st') p xs \<and> n = int (length xs) \<and> n \<le> max 1 N \<and>
      (xs \<noteq> [] \<longrightarrow> q = last xs) \<and> (\<forall>k<88. set xs \<inter> X k = {} \<and> (\<forall>y\<in>X k. objs st' y = objs st y))) (RemoveRange os cl N st)"
  by (rule safe_mono [OF central.calls_fresh [OF assms]]) (simp add: taken_def split: prod.splits)

theorem RemoveRange_refines_witness:
  "safe (\<lambda>(n, p, q, st'). \<exists>xs. central_state brk_os brk_owned (held_X(65 := {8192} \<union> set xs)) st' \<and> sll (objs st') p xs \<and> n = int (length xs) \<and> n \<le> 2 \<and>
      8192 \<notin> set xs \<and> objs st' 8192 = 0) (RemoveRange brk_os 65 2 held_central)"
proof (rule safe_mono [OF RemoveRange_refines [OF pool_calls.calls_start held_state, of 65 2]], simp, simp, clarify)
  fix p q and st' :: "nat central" and xs
  assume xs: "central_state brk_os brk_owned (held_X(65 := held_X 65 \<union> set xs)) st'" "sll (objs st') p xs" "int (length xs) \<le> max 1 2"
    and k: "\<forall>k<88. set xs \<inter> held_X k = {} \<and> (\<forall>y\<in>held_X k. objs st' y = objs held_central y)"
  have "held_X 65 = {8192}" by (simp add: held_X_def)
  then have "8192 \<notin> set xs" "objs st' 8192 = 0" using k [rule_format, of 65] by auto
  then show "\<exists>ys. central_state brk_os brk_owned (held_X(65 := {8192} \<union> set ys)) st' \<and> sll (objs st') p ys \<and> int (length xs) = int (length ys) \<and> int (length xs) \<le> 2 \<and>
      8192 \<notin> set ys \<and> objs st' 8192 = 0"
    using xs \<open>held_X 65 = {8192}\<close> by (intro exI [of _ xs]) simp
qed

text \<open>
  C21: after any such sequence of calls \<open>InsertRange\<close> on a chain of objects of the class that its clients hold returns: it neither faults, loops nor aborts, the objects are
  no longer with the clients, and no object that a client still holds was written.
\<close>

theorem InsertRange_refines:
  fixes st :: "('o, 'z) central_scheme"
  assumes "pool_calls (RemoveRange os) (InsertRange os) objs objs_update X0 st0 X st" "central_state os owned X0 st0" "0 < cl" "cl < 88"
    "sll (objs st) p xs" "xs \<noteq> [] \<longrightarrow> q = last xs" "set xs \<subseteq> X cl"
  shows "returns (\<lambda>st'. central_state os owned (X(cl := X cl - set xs)) st' \<and> (\<forall>k<88. \<forall>y\<in>X k. y \<notin> set xs \<longrightarrow> objs st' y = objs st y))
    (InsertRange os cl p q (int (length xs)) st)"
  by (rule returns_mono [OF central.calls_return [OF assms]]) (simp add: given_def)

theorem InsertRange_refines_witness:
  "returns (central_state brk_os brk_owned (\<lambda>_. {})) (InsertRange brk_os 65 8192 8192 1 held_central)"
proof -
  have "held_X(65 := held_X 65 - set [8192]) = (\<lambda>_. {})" by (auto simp: held_X_def)
  then show ?thesis
    using InsertRange_refines [OF pool_calls.calls_start held_state, of 65 8192 "[8192]" 8192] by (simp add: held_X_def returns_def split: sum.splits)
qed

end
