(* ===== verification/Thread_Cache_Limits.thy ===== *)
theory Thread_Cache_Limits
  imports Frames Page_Heap_Correct
begin

text \<open>
  The list of the thread caches and their size limits.  The comment at \<open>unclaimed_cache_space_\<close> in
  \<open>thread_cache.h\<close> says that it is the overall cache size less the sum of the limits of all caches; this is
  an invariant of every sequence of operations on the caches.
\<close>

section \<open>What the traffic of objects leaves alone\<close>

definition limits :: "ThreadCache \<Rightarrow> addr \<times> addr \<times> nat \<times> nat \<times> bool" where
  "limits t = (tc_next t, tc_prev t, max_size t, tid t, in_setspecific t)"

definition acct where
  "acct st = ((\<lambda>h. map_option limits (caches st h)), thread_heaps st, thread_heap_count st, next_memory_steal st,
     overall_thread_cache_size st, per_thread_cache_size st, unclaimed_cache_space st, tc_state.more st)"

lemma acct_above: "central.more st' = central.more st \<Longrightarrow> acct st' = acct st"
  by (cases st, cases st') (auto simp: acct_def)

lemma acct_sys: "sys_state.more st' = sys_state.more st \<Longrightarrow> acct st' = acct st"
  by (rule acct_above) (cases st, cases st', auto)

lemma acct_objs [simp]: "acct (st\<lparr>objs := m\<rparr>) = acct st"
  by (simp add: acct_def)

lemma InsertRange_acct: "acct st = m \<Longrightarrow> always (\<lambda>st. acct st = m) (InsertRange os cl x y n st)"
  using InsertRange_keep [OF refl, of st os cl x y n] by (auto simp: always_iff dest!: acct_above)

lemma RemoveRange_acct: "acct st = m \<Longrightarrow> always (\<lambda>(a, b, c, st). acct st = m) (RemoveRange os cl n st)"
  using RemoveRange_keep [OF refl, of st os cl n] by (auto simp: always_iff dest!: acct_above)

lemma upd_tc_acct:
  "(\<And>t. limits (f t) = limits t) \<Longrightarrow> acct st = m \<Longrightarrow> always (\<lambda>st. acct st = m) (upd_tc h f st)"
  by (auto simp: always_iff upd_tc_def get_tc_def acct_def fun_eq_iff split: option.splits)

lemma tc_wr_acct:
  "(\<And>f t. limits (upd f t) = limits t) \<Longrightarrow> acct st = m \<Longrightarrow> always (\<lambda>st. acct st = m) (tc_wr fld upd h cl f st)"
  unfolding tc_wr_def by (intro always_skip upd_tc_acct)

lemma lmmmap_acct: "acct st = m \<Longrightarrow> always (\<lambda>(a, st). acct st = m) (lmmmap os n st)"
  by (auto simp: always_iff lmmmap_def split: prod.splits if_splits dest!: call_more_pair(2) acct_sys)

lemma lmmumap_acct: "acct st = m \<Longrightarrow> always (\<lambda>st. acct st = m) (lmmumap os p n st)"
  using acct_sys [of "call_munmap os p n st" st] by (auto simp: always_iff lmmumap_def split: if_splits)

lemmas traffic = InsertRange_acct always_bind [OF InsertRange_acct] RemoveRange_acct always_bind4 [OF RemoveRange_acct]
  upd_tc_acct always_bind [OF upd_tc_acct] tc_wr_acct always_bind [OF tc_wr_acct]
  lmmmap_acct always_bind2 [OF lmmmap_acct] lmmumap_acct always_bind [OF lmmumap_acct]

lemma pop_insert_acct: "acct st = m \<Longrightarrow> always (\<lambda>st. acct st = m) (pop_insert os h cl k st)"
  unfolding pop_insert_def by (simp only: prod.case | rule traffic always_steps | assumption | simp add: limits_def)+

lemma release_batches_acct: "acct st = m \<Longrightarrow> always (\<lambda>(a, st). acct st = m) (release_batches os h cl b n st)"
proof (induction os h cl b n st rule: release_batches.induct)
  case (1 os h cl b n st)
  have IH: "always (\<lambda>(a, st). acct st = m) (release_batches os h cl b (n - b) st')"
    if "b < n" "\<not> b \<le> 0" "pop_insert os h cl b st = Inr st'" for st'
    using "1.IH" [OF that] pop_insert_acct [OF "1.prems", of os h cl b] that(3) by (simp add: always_iff)
  show ?case using "1.prems"
    by (subst release_batches.simps) (cases "pop_insert os h cl b st", auto simp: IH)
qed

lemmas traffic2 = traffic pop_insert_acct always_bind [OF pop_insert_acct] release_batches_acct always_bind2 [OF release_batches_acct]

lemma ReleaseToCentralCache_acct: "acct st = m \<Longrightarrow> always (\<lambda>st. acct st = m) (ReleaseToCentralCache os h cl n st)"
  unfolding ReleaseToCentralCache_def Let_def
  by (simp only: prod.case | rule traffic2 always_steps | assumption | simp add: limits_def)+

lemma unmap_bufs_acct: "acct st = m \<Longrightarrow> always (\<lambda>st. acct st = m) (unmap_bufs os ns ps st)"
proof (induction os ns ps st rule: unmap_bufs.induct)
  case (1 os n ns p ps st)
  then show ?case using lmmumap_acct [OF "1.prems", of os p n] by (cases "lmmumap os p n st") (auto simp: always_iff)
qed auto

lemmas traffic3 = traffic2 ReleaseToCentralCache_acct always_bind [OF ReleaseToCentralCache_acct] unmap_bufs_acct always_bind [OF unmap_bufs_acct]

lemma cleanup_classes_acct: "acct st = m \<Longrightarrow> always (\<lambda>st. acct st = m) (cleanup_classes os cls h st)"
proof (induction cls arbitrary: st)
  case (Cons cl cls)
  show ?case unfolding cleanup_classes.simps
    by (insert Cons.prems, (simp only: prod.case | rule traffic3 Cons.IH always_steps | assumption | simp add: limits_def)+)
qed simp

lemma Cleanup_acct: "acct st = m \<Longrightarrow> always (\<lambda>st. acct st = m) (Cleanup os h st)"
  unfolding Cleanup_def Let_def
  by (rule always_skip, rule always_bind [OF unmap_bufs_acct], simp add: acct_def, rule cleanup_classes_acct)

lemma FetchFromCentralCache_acct:
  "acct st = m \<Longrightarrow> always (\<lambda>(a, st). acct st = m) (FetchFromCentralCachePeriodicallyNoReturn os h cl sz n st)"
  unfolding FetchFromCentralCachePeriodicallyNoReturn_def
  by (simp only: prod.case | rule traffic always_steps | assumption | simp add: limits_def)+

lemmas traffic4 = traffic3 FetchFromCentralCache_acct always_bind2 [OF FetchFromCentralCache_acct]

lemma refill_acct: "acct st = m \<Longrightarrow> always (\<lambda>st. acct st = m) (refill os h sz cl st)"
  unfolding refill_def by (simp only: prod.case | rule traffic4 always_steps | assumption | simp add: limits_def)+

lemma Allocate_acct: "acct st = m \<Longrightarrow> always (\<lambda>(a, st). acct st = m) (Allocate os h sz cl st)"
  unfolding Allocate_def Let_def
  by (simp only: prod.case | rule traffic always_bind [OF refill_acct] always_steps | assumption | simp add: limits_def)+

lemma Deallocate_acct: "acct st = m \<Longrightarrow> always (\<lambda>st. acct st = m) (Deallocate os h p cl st)"
  unfolding Deallocate_def
  by (simp only: prod.case | rule traffic3 always_steps | assumption | simp add: limits_def)+

section \<open>The list of caches\<close>

text \<open>A segment of a doubly linked list, as a map from nodes to their successor and predecessor.\<close>

definition hd_or :: "addr \<Rightarrow> addr list \<Rightarrow> addr" where "hd_or n xs = (case xs of [] \<Rightarrow> n | x # _ \<Rightarrow> x)"
definition last_or :: "addr \<Rightarrow> addr list \<Rightarrow> addr" where "last_or p xs = (if xs = [] then p else last xs)"

fun hseg :: "(addr \<rightharpoonup> addr \<times> addr) \<Rightarrow> addr \<Rightarrow> addr list \<Rightarrow> addr \<Rightarrow> bool" where
  "hseg L p [] n = True"
| "hseg L p (x # xs) n = (x \<noteq> 0 \<and> L x = Some (hd_or n xs, p) \<and> hseg L x xs n)"

lemma hd_or_simps [simp]: "hd_or n [] = n" "hd_or n (x # xs) = x" "hd_or n (xs @ ys) = hd_or (hd_or n ys) xs"
  by (simp_all add: hd_or_def split: list.splits)

lemma last_or_simps [simp]: "last_or p [] = p" "last_or p (x # xs) = last_or x xs"
  by (simp_all add: last_or_def)

lemma hseg_append [simp]: "hseg L p (xs @ ys) n \<longleftrightarrow> hseg L p xs (hd_or n ys) \<and> hseg L (last_or p xs) ys n"
  by (induction xs arbitrary: p) auto

lemma hseg_cong: "(\<And>x. x \<in> set xs \<Longrightarrow> L' x = L x) \<Longrightarrow> hseg L' p xs n = hseg L p xs n"
  by (induction xs arbitrary: p) auto

lemma hseg_upd [simp]: "x \<notin> set xs \<Longrightarrow> hseg (L(x := v)) p xs n = hseg L p xs n"
  by (rule hseg_cong) auto

lemma hseg_dom: "hseg L p xs n \<Longrightarrow> set xs \<subseteq> dom L \<and> 0 \<notin> set xs"
  by (induction xs arbitrary: p) auto

definition set_prev :: "addr \<Rightarrow> addr \<Rightarrow> (addr \<rightharpoonup> addr \<times> addr) \<Rightarrow> (addr \<rightharpoonup> addr \<times> addr)" where
  "set_prev x p L = L(x := map_option (\<lambda>(n, _). (n, p)) (L x))"

definition set_next :: "addr \<Rightarrow> addr \<Rightarrow> (addr \<rightharpoonup> addr \<times> addr) \<Rightarrow> (addr \<rightharpoonup> addr \<times> addr)" where
  "set_next x n L = L(x := map_option (\<lambda>(_, p). (n, p)) (L x))"

lemma hseg_set_prev: "hseg L p xs n \<Longrightarrow> distinct xs \<Longrightarrow> xs \<noteq> [] \<Longrightarrow> hseg (set_prev (hd xs) q L) q xs n"
  by (cases xs) (auto simp: set_prev_def)

lemma hseg_set_next: "hseg L p xs n \<Longrightarrow> distinct xs \<Longrightarrow> xs \<noteq> [] \<Longrightarrow> hseg (set_next (last xs) k L) p xs k"
  by (induction xs rule: rev_induct) (auto simp: set_next_def)

text \<open>Unlinking a node, the way \<open>DeleteCache\<close> does it.\<close>

lemma hseg_unlink:
  assumes L: "hseg L 0 (xs @ h # ys) 0" and d: "distinct (xs @ h # ys)"
    and L1: "L1 = (if ys = [] then L else set_prev (hd ys) (last_or 0 xs) L)"
    and L2: "L2 = (if xs = [] then L1 else set_next (last xs) (hd_or 0 ys) L1)"
  shows "hseg L2 0 (xs @ ys) 0"
proof -
  have seg: "hseg L 0 xs h" "hseg L h ys 0" using L by simp_all
  have 1: "hseg L1 0 xs h" using seg(1) d L1 by (cases ys) (auto simp: set_prev_def)
  have 2: "hseg L1 (last_or 0 xs) ys 0"
  proof (cases "ys = []")
    case False
    then show ?thesis using hseg_set_prev [OF seg(2)] d L1 by simp
  qed simp
  show ?thesis
  proof (cases "xs = []")
    case False
    then have "hseg L2 0 xs (hd_or 0 ys)" using hseg_set_next [OF 1, of "hd_or 0 ys"] d L2 by simp
    moreover have "set xs \<inter> set ys = {}" using d by auto
    then have "last xs \<notin> set ys" using last_in_set [OF False] by blast
    then have "hseg L2 (last_or 0 xs) ys 0" using 2 L2 False by (simp add: set_next_def)
    ultimately show ?thesis by simp
  qed (use 2 L2 in simp)
qed

section \<open>The invariant\<close>

definition lk :: "('o, 'z) tc_state_scheme \<Rightarrow> addr \<rightharpoonup> addr \<times> addr" where
  "lk st h = map_option (\<lambda>t. (tc_next t, tc_prev t)) (caches st h)"

definition mx :: "('o, 'z) tc_state_scheme \<Rightarrow> addr \<Rightarrow> nat" where
  "mx st h = (case caches st h of None \<Rightarrow> 0 | Some t \<Rightarrow> max_size t)"

definition claimed :: "('o, 'z) tc_state_scheme \<Rightarrow> addr list \<Rightarrow> nat" where
  "claimed st hs = (\<Sum>h\<leftarrow>hs. mx st h)"

text \<open>The parts of the invariant that \<open>IncreaseCacheLimitLocked\<close> relies on.\<close>

definition listed :: "('o, 'z) tc_state_scheme \<Rightarrow> addr list \<Rightarrow> bool" where
  "listed st hs \<longleftrightarrow> hseg (lk st) 0 hs 0 \<and> thread_heaps st = hd_or 0 hs \<and> distinct hs \<and>
     (next_memory_steal st = 0 \<or> next_memory_steal st \<in> set hs)"

definition limits_ok :: "nat \<Rightarrow> ('o, 'z) tc_state_scheme \<Rightarrow> addr list \<Rightarrow> bool" where
  "limits_ok n st hs \<longleftrightarrow> listed st hs \<and> dom (caches st) = set hs \<and> thread_heap_count st = int (length hs) \<and>
     unclaimed_cache_space st + int (claimed st hs) = int (overall_thread_cache_size st) \<and>
     2 ^ 19 \<le> overall_thread_cache_size st \<and> overall_thread_cache_size st \<le> 2 ^ 30 \<and>
     claimed st hs \<le> 2 ^ 31 + n * 2 ^ 19 \<and> length hs \<le> n"

lemma acct_views:
  assumes "acct st' = acct st"
  shows "lk st' = lk st" "mx st' = mx st" "dom (caches st') = dom (caches st)" "thread_heaps st' = thread_heaps st"
    "thread_heap_count st' = thread_heap_count st" "next_memory_steal st' = next_memory_steal st"
    "overall_thread_cache_size st' = overall_thread_cache_size st" "unclaimed_cache_space st' = unclaimed_cache_space st"
proof -
  have c: "map_option limits (caches st' h) = map_option limits (caches st h)" for h
    using assms by (auto simp: acct_def dest: fun_cong)
  have v: "lk st' h = lk st h \<and> mx st' h = mx st h \<and> (h \<in> dom (caches st') \<longleftrightarrow> h \<in> dom (caches st))" for h
    using c [of h] by (cases "caches st h"; cases "caches st' h") (auto simp: lk_def mx_def limits_def)
  show "lk st' = lk st" "mx st' = mx st" "dom (caches st') = dom (caches st)" using v by (auto simp: fun_eq_iff)
qed (use assms in \<open>simp_all add: acct_def\<close>)

lemma limits_ok_acct: "acct st' = acct st \<Longrightarrow> limits_ok n st hs \<Longrightarrow> limits_ok n st' hs"
  using acct_views [of st' st] by (simp add: limits_ok_def listed_def claimed_def)

lemma limits_ok_later: "limits_ok n st hs \<Longrightarrow> n \<le> k \<Longrightarrow> limits_ok k st hs"
proof -
  assume a: "limits_ok n st hs" "n \<le> k"
  have "n * 2 ^ 19 \<le> k * 2 ^ 19" using a(2) by simp
  then show ?thesis using a unfolding limits_ok_def by linarith
qed

lemma sum_list_upd:
  fixes f :: "addr \<Rightarrow> nat"
  shows "distinct hs \<Longrightarrow> v \<in> set hs \<Longrightarrow> (\<Sum>h\<leftarrow>hs. (f(v := x)) h) + f v = (\<Sum>h\<leftarrow>hs. f h) + x"
proof (induction hs)
  case (Cons a hs)
  have "(\<Sum>h\<leftarrow>hs. (f(a := x)) h) = (\<Sum>h\<leftarrow>hs. f h)" if "a \<notin> set hs" for a
    using that by (intro arg_cong [where f = sum_list] map_cong) auto
  then show ?case using Cons by auto
qed simp

section \<open>Taking memory\<close>

text \<open>
  A step between two caches: the links and everything else but \<open>next_memory_steal\<close> stay, and what the other
  caches lose together with the unclaimed space goes to \<open>this\<close>.
\<close>

definition gives where
  "gives hs this st st' \<longleftrightarrow> lk st' = lk st \<and> dom (caches st') = dom (caches st) \<and> listed st' hs \<and>
     unclaimed_cache_space st' + int (claimed st' hs) + int (mx st' this) =
       unclaimed_cache_space st + int (claimed st hs) + int (mx st this) \<and>
     claimed st' hs \<le> claimed st hs \<and> mx st' this \<le> mx st this + 2 ^ 16 \<and> claimed st' hs + mx st' this \<le> claimed st hs + mx st this + 2 ^ 16 \<and>
     thread_heap_count st' = thread_heap_count st \<and> overall_thread_cache_size st' = overall_thread_cache_size st"

lemma hseg_next_in: "hseg L p hs 0 \<Longrightarrow> h \<in> set hs \<Longrightarrow> \<exists>n q. L h = Some (n, q) \<and> (n = 0 \<or> n \<in> set hs)"
proof (induction hs arbitrary: p)
  case (Cons x xs)
  have "hd_or 0 xs = 0 \<or> hd_or 0 xs \<in> set xs" by (cases xs) auto
  then show ?case using Cons by (cases "h = x") (simp, blast, simp, blast)
qed simp

lemma mx_le_claimed: "h \<in> set hs \<Longrightarrow> mx st h \<le> claimed st hs"
  unfolding claimed_def by (rule member_le_sum_list) auto

lemma gives_advance:
  assumes "listed st hs" "n = 0 \<or> n \<in> set hs"
  shows "gives hs this st (st\<lparr>next_memory_steal := n\<rparr>)"
  using assms by (simp add: gives_def listed_def lk_def [abs_def] claimed_def mx_def [abs_def])

lemma gives_trans: "gives hs this a b \<Longrightarrow> mx b this = mx a this \<Longrightarrow> claimed b hs = claimed a hs \<Longrightarrow> gives hs this b c \<Longrightarrow> gives hs this a c"
  by (simp add: gives_def)

definition steal where
  "steal v this n st = st\<lparr>caches := (caches st)(v \<mapsto> (the (caches st v))\<lparr>max_size := mx st v - 2 ^ 16\<rparr>,
     this \<mapsto> (the (caches st this))\<lparr>max_size := mx st this + 2 ^ 16\<rparr>), next_memory_steal := n\<rparr>"

lemma gives_steal:
  assumes st: "listed st hs" "v \<in> set hs" "this \<notin> set hs" "caches st this \<noteq> None" and m: "2 ^ 16 \<le> mx st v"
    and n: "n = 0 \<or> n \<in> set hs"
  shows "gives hs this st (steal v this n st)"
proof -
  let ?st = "steal v this n st"
  have v: "caches st v \<noteq> None" using st(1,2) hseg_dom [of "lk st" 0 hs 0] by (force simp: listed_def lk_def)
  have vt: "v \<noteq> this" using st(2,3) by auto
  have lk: "lk ?st = lk st" using v st(4) by (auto simp: steal_def lk_def fun_eq_iff)
  have mx: "mx ?st = (mx st)(v := mx st v - 2 ^ 16, this := mx st this + 2 ^ 16)"
    using vt by (auto simp: steal_def mx_def fun_eq_iff)
  have "claimed ?st hs = (\<Sum>h\<leftarrow>hs. ((mx st)(v := mx st v - 2 ^ 16)) h)"
    unfolding claimed_def mx using st(3) by (intro arg_cong [where f = sum_list] map_cong) auto
  then have c: "claimed ?st hs + 2 ^ 16 = claimed st hs"
    using sum_list_upd [of hs v "mx st" "mx st v - 2 ^ 16"] st(1,2) m by (simp add: listed_def claimed_def)
  have "dom (caches ?st) = dom (caches st)" using v st(4) by (auto simp: steal_def)
  moreover have "listed ?st hs" using st(1) n lk by (simp add: listed_def steal_def)
  moreover have "mx ?st this = mx st this + 2 ^ 16" using mx vt by simp
  moreover have "unclaimed_cache_space ?st = unclaimed_cache_space st" "thread_heap_count ?st = thread_heap_count st"
      "overall_thread_cache_size ?st = overall_thread_cache_size st" by (simp_all add: steal_def)
  ultimately show ?thesis using c lk unfolding gives_def by linarith
qed

lemma steal_loop_gives:
  assumes "listed st hs" "hs \<noteq> []" "this \<notin> set hs" "caches st this \<noteq> None"
    "claimed st hs < 2 ^ 63" "mx st this < 2 ^ 63"
  shows "\<exists>st'. steal_loop k this st = Inr st' \<and> gives hs this st st'"
  using assms
proof (induction k arbitrary: st)
  case 0
  then show ?case using gives_advance [of st hs "next_memory_steal st"] by (simp add: listed_def)
next
  case (Suc k)
  note l = Suc.prems(1)
  define v where "v = (if next_memory_steal st = 0 then thread_heaps st else next_memory_steal st)"
  define w where "w = (if next_memory_steal st = 0 then st\<lparr>next_memory_steal := thread_heaps st\<rparr> else st)"
  have v: "v \<in> set hs" "next_memory_steal w = v" "caches w = caches st" "w\<lparr>next_memory_steal := k\<rparr> = st\<lparr>next_memory_steal := k\<rparr>"
    "w\<lparr>caches := cs, next_memory_steal := k\<rparr> = st\<lparr>caches := cs, next_memory_steal := k\<rparr>" for k cs
  proof -
    show "v \<in> set hs" using l Suc.prems(2) by (cases "next_memory_steal st = 0"; cases hs) (simp_all add: listed_def v_def)
  qed (simp_all add: w_def v_def)
  have seg: "hseg (lk st) 0 hs 0" using l by (simp add: listed_def)
  obtain n q where nq: "lk st v = Some (n, q)" "n = 0 \<or> n \<in> set hs" using hseg_next_in [OF seg v(1)] by blast
  then obtain t where t: "caches st v = Some t" "tc_next t = n" by (auto simp: lk_def)
  have neq: "v \<noteq> this" using v(1) Suc.prems(3) by auto
  obtain u where u: "caches st this = Some u" using Suc.prems(4) by blast
  show ?case
  proof (cases "int (max_size t) \<le> kMinThreadCacheSize")
    case True
    have run: "steal_loop (Suc k) this st = steal_loop k this (st\<lparr>next_memory_steal := n\<rparr>)"
      unfolding steal_loop.simps Let_def w_def [symmetric] using v(2-4) t neq True by (simp add: get_tc_def)
    let ?st1 = "st\<lparr>next_memory_steal := n\<rparr>"
    have same: "lk ?st1 = lk st" "mx ?st1 = mx st" by (simp_all add: lk_def [abs_def] mx_def [abs_def])
    have "listed ?st1 hs" using l nq(2) same by (simp add: listed_def)
    from Suc.IH [OF this Suc.prems(2,3)] obtain st' where st': "steal_loop k this ?st1 = Inr st'" "gives hs this ?st1 st'"
      using Suc.prems same by (auto simp: claimed_def)
    then show ?thesis using run gives_trans [OF gives_advance [OF l nq(2), of this]] same by (auto simp: claimed_def)
  next
    case False
    then have big: "2 ^ 19 < max_size t" by (simp add: kMinThreadCacheSize_def kMaxSize_def)
    have mxv: "mx st v = max_size t" "mx st this = max_size u" using t(1) u by (simp_all add: mx_def)
    have small: "max_size t < 2 ^ 63" using mx_le_claimed [OF v(1), of st] mxv Suc.prems(5) by linarith
    have sub: "sub64 (max_size t) (nat kStealAmount) = max_size t - 2 ^ 16"
      using big small by (subst sub64_id) (simp_all add: kStealAmount_def)
    have add: "add64 (max_size u) (nat kStealAmount) = max_size u + 2 ^ 16"
      using Suc.prems(6) mxv(2) by (subst add64_id) (simp_all add: kStealAmount_def)
    have run: "steal_loop (Suc k) this st = Inr (steal v this n st)"
      unfolding steal_loop.simps Let_def w_def [symmetric] using v(2,3,5) t u neq False sub add
      by (simp add: get_tc_def upd_tc_def steal_def mxv)
    show ?thesis using run gives_steal [OF l v(1) Suc.prems(3,4) _ nq(2)] big mxv(1) by auto
  qed
qed

lemma IncreaseCacheLimitLocked_gives:
  assumes l: "listed st hs" and ths: "this \<notin> set hs" "caches st this \<noteq> None"
    and bal: "unclaimed_cache_space st + int (claimed st hs) = int (overall_thread_cache_size st)" "0 < overall_thread_cache_size st"
    and small: "claimed st hs < 2 ^ 63" "mx st this < 2 ^ 63"
  shows "\<exists>st'. IncreaseCacheLimitLocked this st = Inr st' \<and> gives hs this st st'"
proof (cases "unclaimed_cache_space st > 0")
  case True
  obtain t where t: "caches st this = Some t" using ths(2) by blast
  let ?st = "st\<lparr>unclaimed_cache_space := unclaimed_cache_space st - 2 ^ 16, caches := (caches st)(this \<mapsto> t\<lparr>max_size := max_size t + 2 ^ 16\<rparr>)\<rparr>"
  have mt: "mx st this = max_size t" using t by (simp add: mx_def)
  have "add64 (max_size t) (nat kStealAmount) = max_size t + 2 ^ 16"
    using small(2) mt by (subst add64_id) (simp_all add: kStealAmount_def)
  then have run: "IncreaseCacheLimitLocked this st = Inr ?st"
    using True t by (simp add: IncreaseCacheLimitLocked_def upd_tc_def get_tc_def kStealAmount_def)
  have lk: "lk ?st = lk st" using t by (auto simp: lk_def fun_eq_iff)
  have mx: "mx ?st = (mx st)(this := max_size t + 2 ^ 16)" by (auto simp: mx_def fun_eq_iff)
  have c: "claimed ?st hs = claimed st hs"
    unfolding claimed_def mx using ths(1) by (intro arg_cong [where f = sum_list] map_cong) auto
  have "listed ?st hs" "dom (caches ?st) = dom (caches st)" using l lk t by (auto simp: listed_def)
  then show ?thesis using run lk c mx mt by (auto simp: gives_def)
next
  case False
  then have "hs \<noteq> []" using bal by (auto simp: claimed_def)
  then show ?thesis using steal_loop_gives [OF l _ ths small, of 10] False by (simp add: IncreaseCacheLimitLocked_def)
qed

section \<open>New caches\<close>

definition joins where
  "joins hs this st st' \<longleftrightarrow> (\<forall>h. h \<noteq> this \<longrightarrow> lk st' h = lk st h) \<and> this \<in> dom (caches st') \<and> dom (caches st') = dom (caches st) \<and>
     listed st' hs \<and>
     unclaimed_cache_space st' + int (claimed st' hs) + int (mx st' this) = int (overall_thread_cache_size st) \<and>
     claimed st' hs + mx st' this \<le> claimed st hs + 2 ^ 19 \<and>
     thread_heap_count st' = thread_heap_count st \<and> overall_thread_cache_size st' = overall_thread_cache_size st"

lemma joins_acct: "acct st2 = acct st1 \<Longrightarrow> joins hs this st st1 \<Longrightarrow> joins hs this st st2"
  using acct_views [of st2 st1] by (auto simp: joins_def listed_def claimed_def)

lemma map_bufs_acct: "acct st = m \<Longrightarrow> always (\<lambda>(a, st). acct st = m) (map_bufs os ns st)"
proof (induction ns arbitrary: st)
  case (Cons n ns)
  show ?case unfolding map_bufs.simps
    by (rule always_bind2 [OF lmmmap_acct [OF Cons.prems]], simp only: prod.case)
      (rule always_bind2 [OF Cons.IH], simp_all)
qed simp

lemma init_classes_acct: "acct st = m \<Longrightarrow> always (\<lambda>st. acct st = m) (init_classes os cls h st)"
proof (induction cls arbitrary: st)
  case (Cons cl cls)
  show ?case unfolding init_classes.simps
    by (insert Cons.prems, (simp only: prod.case | rule traffic always_bind2 [OF map_bufs_acct] Cons.IH always_steps | assumption | simp add: limits_def)+)
qed simp

lemma upd_tc_run: "caches st h = Some t \<Longrightarrow> upd_tc h f st = Inr (st\<lparr>caches := (caches st)(h \<mapsto> f t)\<rparr>)"
  by (simp add: upd_tc_def get_tc_def)

lemma claimed_other: "h \<notin> set hs \<Longrightarrow> claimed (st\<lparr>caches := (caches st)(h := v)\<rparr>) hs = claimed st hs"
  unfolding claimed_def by (intro arg_cong [where f = sum_list] map_cong) (auto simp: mx_def)

lemma listed_other:
  "h \<notin> set hs \<Longrightarrow> listed st hs \<Longrightarrow> listed (st\<lparr>caches := (caches st)(h := v)\<rparr>) hs"
proof -
  assume "h \<notin> set hs" "listed st hs"
  moreover from this(1) have "hseg (lk (st\<lparr>caches := (caches st)(h := v)\<rparr>)) 0 hs 0 = hseg (lk st) 0 hs 0"
    by (intro hseg_cong) (auto simp: lk_def)
  ultimately show ?thesis by (simp add: listed_def)
qed

lemma TC_Init_joins:
  assumes l: "listed st hs" and ths: "this \<notin> set hs" "caches st this \<noteq> None"
    and bal: "unclaimed_cache_space st + int (claimed st hs) = int (overall_thread_cache_size st)" "0 < overall_thread_cache_size st"
    and small: "claimed st hs < 2 ^ 63"
  shows "always (joins hs this st) (TC_Init os apf this me st)"
proof -
  obtain t0 where t0: "caches st this = Some t0" using ths(2) by blast
  define st0 where "st0 = st\<lparr>caches := (caches st)(this \<mapsto> t0\<lparr>tc_size := 0, max_size := 0\<rparr>)\<rparr>"
  have l0: "listed st0 hs" unfolding st0_def by (rule listed_other [OF ths(1) l])
  have c0: "claimed st0 hs = claimed st hs" unfolding st0_def by (rule claimed_other [OF ths(1)])
  have f0: "caches st0 this \<noteq> None" "mx st0 this = 0" "lk st0 = lk st" "dom (caches st0) = dom (caches st)"
    using t0 by (auto simp: st0_def mx_def lk_def fun_eq_iff)
  obtain st1 where st1: "IncreaseCacheLimitLocked this st0 = Inr st1" "gives hs this st0 st1"
    using IncreaseCacheLimitLocked_gives [OF l0 ths(1) f0(1)] bal small c0 f0(2) by (auto simp: st0_def)
  note g = st1(2) [unfolded gives_def]
  have "this \<in> dom (caches st1)" using g f0(1) by blast
  then obtain t1 where t1: "caches st1 this = Some t1" by blast
  have m1: "mx st1 this = max_size t1" using t1 by (simp add: mx_def)
  define st2 where "st2 = (if max_size t1 = 0 then st1\<lparr>caches := (caches st1)(this \<mapsto> t1\<lparr>max_size := nat kMinThreadCacheSize\<rparr>),
      unclaimed_cache_space := unclaimed_cache_space st1 - kMinThreadCacheSize\<rparr> else st1)"
  define t2 where "t2 = the (caches st2 this)"
  have t2: "caches st2 this = Some t2" "\<And>h. h \<noteq> this \<Longrightarrow> caches st2 h = caches st1 h"
    using t1 by (auto simp: st2_def t2_def)
  define t3 where "t3 = t2\<lparr>tc_next := 0, tc_prev := 0, tid := me, in_setspecific := False,
      preset_apf := (case apf of Some v \<Rightarrow> v | None \<Rightarrow> DEFAULT_APF), apf_stat := 0, memory_cost := 0, bursty_period_len := TRACE_LENGTH\<rparr>"
  define st3 where "st3 = st2\<lparr>caches := (caches st2)(this \<mapsto> t3)\<rparr>"
  have get1: "get_tc this st1 = Inr t1" using t1 by (simp add: get_tc_def)
  have run1: "(if max_size t1 = 0 then bind_res (upd_tc this (\<lambda>t. t\<lparr>max_size := nat kMinThreadCacheSize\<rparr>) st1) (\<lambda>st.
      Inr (st\<lparr>unclaimed_cache_space := unclaimed_cache_space st - kMinThreadCacheSize\<rparr>)) else Inr st1) = Inr st2"
    by (simp add: st2_def upd_tc_run [OF t1])
  have run: "TC_Init os apf this me st = bind_res (map_bufs os work_sizes st3) (\<lambda>(ps, st).
      bind_res (upd_tc this (work_bufs_update (\<lambda>_. ps)) st) (\<lambda>st. init_classes os [0..<nat kNumClasses] this st))"
    unfolding TC_Init_def upd_tc_run [OF t0] bind_res.simps st0_def [symmetric] st1(1) get1 run1 upd_tc_run [OF t2(1)]
    unfolding st3_def t3_def by (rule refl)
  have c3: "claimed st3 hs = claimed st1 hs"
    unfolding claimed_def using ths(1) t2(2) by (intro arg_cong [where f = sum_list] map_cong) (auto simp: st3_def mx_def)
  have m3: "mx st3 this = max_size t2" by (simp add: st3_def mx_def t3_def)
  have lk1: "lk st1 = lk st" using g f0(3) by simp
  have k: "lk st3 h = lk st h" if "h \<noteq> this" for h
    using that t2(2) fun_cong [OF lk1, of h] by (simp add: st3_def lk_def)
  have "hseg (lk st3) 0 hs 0 = hseg (lk st) 0 hs 0" by (intro hseg_cong k) (use ths(1) in auto)
  then have l3: "listed st3 hs" using g l by (simp add: listed_def st3_def st2_def)
  have d3: "dom (caches st3) = dom (caches st)" using g f0(4) t1 by (auto simp: st3_def st2_def)
  have bal1: "unclaimed_cache_space st1 + int (claimed st1 hs) + int (max_size t1) = int (overall_thread_cache_size st)"
      "claimed st1 hs \<le> claimed st hs" "claimed st1 hs + max_size t1 \<le> claimed st hs + 2 ^ 16"
    using g bal(1) f0(2) c0 m1 by (simp_all add: st0_def)
  have bal3: "unclaimed_cache_space st3 + int (claimed st3 hs) + int (mx st3 this) = int (overall_thread_cache_size st) \<and>
      claimed st3 hs + mx st3 this \<le> claimed st hs + 2 ^ 19"
    using bal1 c3 m3 t1 by (simp add: st3_def st2_def t2_def kMinThreadCacheSize_def kMaxSize_def)
  have "thread_heap_count st3 = thread_heap_count st" "overall_thread_cache_size st3 = overall_thread_cache_size st"
    using g by (simp_all add: st3_def st2_def st0_def)
  then have "joins hs this st st3" using k l3 d3 bal3 t0 by (auto simp: joins_def)
  then have j: "always (joins hs this st) r" if "always (\<lambda>st. acct st = acct st3) r" for r
    using that joins_acct by (auto simp: always_iff)
  show ?thesis unfolding run
    by (rule j, rule always_bind2 [OF map_bufs_acct [OF refl]], simp only: prod.case)
      (rule always_bind [OF upd_tc_acct], simp add: limits_def, assumption, rule init_classes_acct)
qed

lemma safe_always: "safe P r \<Longrightarrow> always P r"
  by (cases r) auto

lemma NewHeap_limits:
  assumes inv: "limits_ok n st hs" "n < 2 ^ 30"
    and pha: "pha_inv os owned sizeof_ThreadCache (dom (caches st)) (threadcache_allocator st, cache_links st, st)"
  shows "always (\<lambda>(h, st'). h \<notin> set hs \<and> limits_ok (n + 1) st' (h # hs)) (NewHeap os apf me st)"
  unfolding NewHeap_def Let_def
proof (rule always_bind3 [where Q = "\<lambda>p a st1. pha_new_post os owned sizeof_ThreadCache (dom (caches st)) (cache_links st) st (p, a, st1)"],
    goal_cases)
  case 1
  then show ?case using safe_always [OF PHA_New_post [OF pha]] by simp
next
  case (2 heap a st1)
  have new: "heap \<notin> dom (caches st)" "heap \<noteq> 0" and fr: "acct st1 = acct st"
    using 2 by (auto simp: pha_new_post_def pha_inv_def pha_objects_def meta_frame_def intro!: acct_above central_above heap_above(1))
  have ok1: "limits_ok n st1 hs" by (rule limits_ok_acct [OF fr inv(1)])
  note i = ok1 [unfolded limits_ok_def]
  have hnew: "heap \<notin> set hs" using new(1) inv(1) by (simp add: limits_ok_def)
  define st2 where "st2 = st1\<lparr>threadcache_allocator := a, caches := (caches st1)(heap \<mapsto> blank_cache)\<rparr>"
  have "listed (st1\<lparr>caches := (caches st1)(heap \<mapsto> blank_cache)\<rparr>) hs" by (rule listed_other [OF hnew]) (use i in blast)
  then have l2: "listed st2 hs" by (simp add: listed_def st2_def lk_def [abs_def])
  have c2: "claimed st2 hs = claimed st1 hs"
    using claimed_other [OF hnew, of st1] by (simp add: st2_def claimed_def mx_def [abs_def])
  have k: "n * 2 ^ 19 \<le> 2 ^ 49" using inv(2) by simp
  have "always (joins hs heap st2) (TC_Init os apf heap me st2)"
    by (rule TC_Init_joins [OF l2 hnew]) (use i c2 k in \<open>auto simp: st2_def\<close>)
  then show ?case
    unfolding prod.case st2_def [symmetric]
  proof (rule always_bind, goal_cases)
    case (1 st3)
    note j = 1 [unfolded joins_def]
    then obtain t3 where t3: "caches st3 heap = Some t3" by auto
    define st4 where "st4 = st3\<lparr>caches := (caches st3)(heap \<mapsto> t3\<lparr>tc_next := thread_heaps st3, tc_prev := 0\<rparr>)\<rparr>"
    have l3: "listed st3 hs" using j by blast
    have th: "thread_heaps st3 = hd_or 0 hs" using l3 by (simp add: listed_def)
    have l4: "listed st4 hs" unfolding st4_def by (rule listed_other [OF hnew l3])
    have m4: "mx st4 = mx st3" using t3 by (auto simp: st4_def mx_def fun_eq_iff)
    have lk4: "lk st4 heap = Some (hd_or 0 hs, 0)" by (simp add: st4_def lk_def th)
    define f where "f = (if hs = [] then st4\<lparr>next_memory_steal := heap\<rparr>
        else st4\<lparr>caches := (caches st4)(hd hs \<mapsto> (the (caches st4 (hd hs)))\<lparr>tc_prev := heap\<rparr>)\<rparr>)"
    have seg4: "hseg (lk st4) 0 hs 0" "distinct hs" using l4 by (simp_all add: listed_def)
    have hd: "caches st4 (hd hs) \<noteq> None" "hd_or 0 hs = hd hs" "hd hs \<noteq> 0" "hd hs \<noteq> heap" if "hs \<noteq> []"
      using that seg4 hnew by (cases hs; auto simp: lk_def)+
    have run: "(if thread_heaps st4 \<noteq> 0 then upd_tc (thread_heaps st4) (tc_prev_update (\<lambda>_. heap)) st4
        else Inr (st4\<lparr>next_memory_steal := heap\<rparr>)) = Inr f"
      using th hd by (cases "hs = []") (auto simp: f_def st4_def upd_tc_def get_tc_def)
    have "mx f = mx st4" using hd(1) by (auto simp: f_def mx_def fun_eq_iff)
    then have mf: "mx f = mx st3" using m4 by simp
    have "lk f = (if hs = [] then lk st4 else set_prev (hd hs) heap (lk st4))"
      using hd(1) by (auto simp: f_def lk_def set_prev_def fun_eq_iff)
    then have segf: "hseg (lk f) 0 (heap # hs) 0"
      using lk4 new(2) hseg_set_prev [OF seg4, of heap] hd(4) by (auto simp: set_prev_def)
    let ?f = "f\<lparr>thread_heaps := heap, thread_heap_count := inc32 (thread_heap_count f)\<rparr>"
    have "thread_heap_count f = int (length hs)" using j i by (auto simp: f_def st4_def st2_def)
    then have cnt: "inc32 (thread_heap_count f) = int (length (heap # hs))"
      using i inv(2) by (simp add: inc32_def to_int32_def)
    have "next_memory_steal f = 0 \<or> next_memory_steal f \<in> set (heap # hs)" using l4 by (auto simp: f_def listed_def)
    then have lf: "listed ?f (heap # hs)" using segf hnew seg4(2) by (simp add: listed_def lk_def [abs_def])
    have "dom (caches f) = insert heap (dom (caches st1))" using j t3 hd(1) by (auto simp: f_def st4_def st2_def)
    then have df: "dom (caches ?f) = set (heap # hs)" using i by simp
    have cf: "claimed ?f (heap # hs) = mx st3 heap + claimed st3 hs" using mf by (simp add: claimed_def mx_def [abs_def])
    have ov: "overall_thread_cache_size ?f = overall_thread_cache_size st1" "unclaimed_cache_space ?f = unclaimed_cache_space st3"
      using j by (simp_all add: f_def st4_def st2_def)
    have "limits_ok (n + 1) ?f (heap # hs)"
      using j i lf df cnt cf ov c2 unfolding limits_ok_def by (simp add: st2_def)
    then show ?case using hnew t3 run
      by (simp add: upd_tc_run [OF t3] st4_def [symmetric])
  qed
qed

section \<open>Deleted caches\<close>

lemma claimed_remove: "claimed st (xs @ h # ys) = claimed st (xs @ ys) + mx st h"
  by (simp add: claimed_def)

text \<open>The two updates of links, and what they leave alone.\<close>

definition relink :: "addr \<Rightarrow> (ThreadCache \<Rightarrow> ThreadCache) \<Rightarrow> ('o, 'z) tc_state_scheme \<Rightarrow> ('o, 'z) tc_state_scheme" where
  "relink x f st = st\<lparr>caches := (caches st)(x \<mapsto> f (the (caches st x)))\<rparr>"

lemma relink_run: "x \<in> dom (caches st) \<Longrightarrow> upd_tc x f st = Inr (relink x f st)"
  by (auto simp: relink_def upd_tc_run)

lemma relink_simps [simp]:
  "thread_heaps (relink x f st) = thread_heaps st" "thread_heap_count (relink x f st) = thread_heap_count st"
  "next_memory_steal (relink x f st) = next_memory_steal st" "unclaimed_cache_space (relink x f st) = unclaimed_cache_space st"
  "overall_thread_cache_size (relink x f st) = overall_thread_cache_size st" "h \<noteq> x \<Longrightarrow> caches (relink x f st) h = caches st h"
  by (simp_all add: relink_def)

lemma relink_views:
  assumes x: "x \<in> dom (caches st)"
  shows "dom (caches (relink x f st)) = dom (caches st)"
    "(\<And>t. max_size (f t) = max_size t) \<Longrightarrow> mx (relink x f st) = mx st"
    "lk (relink x (tc_prev_update (\<lambda>_. p)) st) = set_prev x p (lk st)"
    "lk (relink x (tc_next_update (\<lambda>_. p)) st) = set_next x p (lk st)"
proof -
  obtain t where t: "caches st x = Some t" using x by blast
  show "dom (caches (relink x f st)) = dom (caches st)" using x by (auto simp: relink_def)
  show "mx (relink x f st) = mx st" if "\<And>t. max_size (f t) = max_size t" using t that by (auto simp: relink_def mx_def fun_eq_iff)
  show "lk (relink x (tc_prev_update (\<lambda>_. p)) st) = set_prev x p (lk st)" using t by (auto simp: relink_def lk_def set_prev_def fun_eq_iff)
  show "lk (relink x (tc_next_update (\<lambda>_. p)) st) = set_next x p (lk st)" using t by (auto simp: relink_def lk_def set_next_def fun_eq_iff)
qed

text \<open>Both updates together, for a cache \<open>h\<close> between the lists \<open>xs\<close> and \<open>ys\<close>.\<close>

lemma unlink_cache:
  fixes st :: "('o, 'z) tc_state_scheme"
  assumes seg: "hseg (lk st) 0 (xs @ h # ys) 0" and d: "distinct (xs @ h # ys)"
  obtains t st2 st3 where "caches st h = Some t" "caches st2 h = Some t" "caches st3 h = Some t" "tc_next t = hd_or 0 ys"
    "(if tc_next t \<noteq> 0 then upd_tc (tc_next t) (tc_prev_update (\<lambda>_. tc_prev t)) st else Inr st) = Inr st2"
    "(if tc_prev t \<noteq> 0 then upd_tc (tc_prev t) (tc_next_update (\<lambda>_. tc_next t)) st2 else Inr st2) = Inr st3"
    "hseg (lk st3) 0 (xs @ ys) 0" "mx st3 = mx st" "dom (caches st3) = dom (caches st)"
    "thread_heaps st3 = thread_heaps st" "thread_heap_count st3 = thread_heap_count st" "next_memory_steal st3 = next_memory_steal st"
    "unclaimed_cache_space st3 = unclaimed_cache_space st" "overall_thread_cache_size st3 = overall_thread_cache_size st"
proof -
  obtain t where t: "caches st h = Some t" "tc_next t = hd_or 0 ys" "tc_prev t = last_or 0 xs"
    using seg by (auto simp: lk_def)
  have nz: "0 \<notin> set xs" "0 \<notin> set ys" "set xs \<union> set ys \<subseteq> dom (caches st)"
    using hseg_dom [OF seg] by (auto simp: lk_def dom_def)
  define st2 where "st2 = (if ys = [] then st else relink (hd ys) (tc_prev_update (\<lambda>_. tc_prev t)) st)"
  define st3 where "st3 = (if xs = [] then st2 else relink (last xs) (tc_next_update (\<lambda>_. tc_next t)) st2)"
  have y: "hd_or 0 ys = hd ys" "hd ys \<noteq> 0" "hd ys \<in> dom (caches st)" "hd ys \<noteq> h" if "ys \<noteq> []"
    using that nz(2,3) d by (cases ys; auto)+
  have d2: "dom (caches st2) = dom (caches st)" using relink_views(1) [OF y(3)] by (cases "ys = []") (simp_all add: st2_def)
  have x: "last_or 0 xs = last xs" "last xs \<noteq> 0" "last xs \<in> dom (caches st2)" "last xs \<noteq> h" if "xs \<noteq> []"
  proof -
    have l: "last xs \<in> set xs" using that by simp
    show "last_or 0 xs = last xs" using that by (simp add: last_or_def)
    show "last xs \<noteq> 0" "last xs \<noteq> h" using l nz(1) d by (metis, auto)
    show "last xs \<in> dom (caches st2)" using l nz(3) d2 by blast
  qed
  have run2: "(if tc_next t \<noteq> 0 then upd_tc (tc_next t) (tc_prev_update (\<lambda>_. tc_prev t)) st else Inr st) = Inr st2"
    using t(2) y by (cases "ys = []") (simp_all add: st2_def relink_run)
  have run3: "(if tc_prev t \<noteq> 0 then upd_tc (tc_prev t) (tc_next_update (\<lambda>_. tc_next t)) st2 else Inr st2) = Inr st3"
    using t(3) x by (cases "xs = []") (simp_all add: st3_def relink_run)
  have c2: "caches st2 h = Some t" using t(1) y(4) by (cases "ys = []") (simp_all add: st2_def)
  have c3: "caches st3 h = Some t" using c2 x(4) by (cases "xs = []") (simp_all add: st3_def)
  have lk2: "lk st2 = (if ys = [] then lk st else set_prev (hd ys) (last_or 0 xs) (lk st))"
    using relink_views(3) [OF y(3)] t(3) by (simp add: st2_def)
  have lk3: "lk st3 = (if xs = [] then lk st2 else set_next (last xs) (hd_or 0 ys) (lk st2))"
    using relink_views(4) [OF x(3)] t(2) by (simp add: st3_def)
  have 2: "mx st2 = mx st" "dom (caches st2) = dom (caches st)" using relink_views(1,2) [OF y(3)] by (simp_all add: st2_def)
  have 3: "mx st3 = mx st2" "dom (caches st3) = dom (caches st2)" using relink_views(1,2) [OF x(3)] by (simp_all add: st3_def)
  show thesis
    by (rule that [of t st2 st3, OF t(1) c2 c3 t(2) run2 run3 hseg_unlink [OF seg d lk2 lk3]]) (simp_all add: 2 3, simp_all add: st3_def st2_def)
qed

lemma DeleteCache_limits:
  fixes st :: "('o, 'z) tc_state_scheme"
  assumes inv: "limits_ok n st hs" and h: "h \<in> set hs" and n: "n < 2 ^ 30"
  shows "always (\<lambda>st'. limits_ok n st' (remove1 h hs)) (DeleteCache os h st)"
  unfolding DeleteCache_def
proof (rule always_bind [OF Cleanup_acct [OF refl]], goal_cases)
  case (1 st1)
  have ok1: "limits_ok n st1 hs" by (rule limits_ok_acct [OF 1 inv])
  note i = ok1 [unfolded limits_ok_def listed_def]
  obtain xs ys where hs: "hs = xs @ h # ys" "h \<notin> set xs" using split_list_first [OF h] by blast
  have d: "distinct (xs @ h # ys)" and hy: "h \<notin> set ys" using i hs by auto
  have rm: "remove1 h hs = xs @ ys" using hs by (simp add: remove1_append)
  obtain t st2 st3 where t: "caches st1 h = Some t" "caches st2 h = Some t" "caches st3 h = Some t" "tc_next t = hd_or 0 ys"
    and run: "(if tc_next t \<noteq> 0 then upd_tc (tc_next t) (tc_prev_update (\<lambda>_. tc_prev t)) st1 else Inr st1) = Inr st2"
      "(if tc_prev t \<noteq> 0 then upd_tc (tc_prev t) (tc_next_update (\<lambda>_. tc_next t)) st2 else Inr st2) = Inr st3"
    and st3: "hseg (lk st3) 0 (xs @ ys) 0" "mx st3 = mx st1" "dom (caches st3) = dom (caches st1)" "thread_heaps st3 = thread_heaps st1"
      "thread_heap_count st3 = thread_heap_count st1" "next_memory_steal st3 = next_memory_steal st1"
      "unclaimed_cache_space st3 = unclaimed_cache_space st1" "overall_thread_cache_size st3 = overall_thread_cache_size st1"
    by (rule unlink_cache [of st1 xs h ys]) (use i hs(1) d in auto)
  define w where "w = hd_or 0 (xs @ ys)"
  have th: "(if thread_heaps st1 = h then hd_or 0 ys else thread_heaps st1) = w"
    using i hs by (cases xs) (auto simp: w_def)
  define ns where "ns = (let k = if next_memory_steal st1 = h then hd_or 0 ys else next_memory_steal st1
    in if k = 0 then w else k)"
  have hdin: "hd_or 0 zs = 0 \<or> hd_or 0 zs \<in> set zs" for zs by (cases zs) auto
  have ns: "ns = 0 \<or> ns \<in> set (xs @ ys)" using i hs(1) hdin [of "xs @ ys"] hdin [of ys] by (auto simp: ns_def w_def Let_def)
  have fin: "limits_ok n st' (xs @ ys)"
    if c: "caches st' = (caches st3)(h := None)" and o: "thread_heaps st' = w" "thread_heap_count st' = to_int32 (int (length hs) - 1)"
      "next_memory_steal st' = ns" "unclaimed_cache_space st' = unclaimed_cache_space st1 + int (max_size t)"
      "overall_thread_cache_size st' = overall_thread_cache_size st1" for st' :: "('o, 'z) tc_state_scheme"
  proof -
    have "lk st' = (lk st3)(h := None)" using c by (auto simp: lk_def fun_eq_iff)
    then have "listed st' (xs @ ys)" using st3(1) hs(2) hy d o(1,3) ns by (simp add: listed_def w_def)
    moreover have "dom (caches st') = set (xs @ ys)" using c st3(3) i hs(1) d by auto
    moreover have mxk: "mx st' k = mx st1 k" if "k \<noteq> h" for k using that c fun_cong [OF st3(2), of k] by (simp add: mx_def)
    have "claimed st' (xs @ ys) = claimed st1 (xs @ ys)"
      unfolding claimed_def by (intro arg_cong [where f = sum_list] map_cong refl mxk) (use hs(2) hy in auto)
    moreover have "claimed st1 hs = claimed st1 (xs @ ys) + max_size t" using t(1) by (simp add: hs(1) claimed_remove mx_def)
    moreover have "to_int32 (int (length hs) - 1) = int (length (xs @ ys))"
      using i n by (subst to_int32_id) (auto simp: hs(1))
    ultimately show ?thesis using i o(2,4,5) hs(1) unfolding limits_ok_def by simp
  qed
  have g: "get_tc h st1 = Inr t" "get_tc h st2 = Inr t" "get_tc h st3 = Inr t" using t by (simp_all add: get_tc_def)
  have cnt: "thread_heap_count st1 = int (length hs)" using i by blast
  show ?case
    unfolding rm Let_def g run bind_res.simps
    by (rule always_skip) (auto simp: st3 t(4) th [symmetric] cnt ns_def Let_def intro!: fin split: prod.splits)
qed

section \<open>Walking the list\<close>

lemma heap_walk_hseg:
  "hseg (lk st) p hs 0 \<Longrightarrow> heap_walk (caches st) (hd_or 0 hs) acc = Some (Inr (rev acc @ hs))"
proof (induction hs arbitrary: p acc)
  case Nil
  then show ?case by (subst heap_walk.simps) simp
next
  case (Cons h hs)
  obtain t where "caches st h = Some t" "tc_next t = hd_or 0 hs" using Cons.prems by (auto simp: lk_def)
  then show ?case using Cons.prems Cons.IH [of h "h # acc"] by (subst heap_walk.simps) simp
qed

lemma all_heaps_listed: "listed st hs \<Longrightarrow> all_heaps st = Inr hs"
  using heap_walk_hseg [of st 0 hs "[]"] by (simp add: listed_def all_heaps_def)

lemma find_heap_hseg:
  "hseg (lk st) p hs 0 \<Longrightarrow> \<exists>h. find_heap (caches st) me (hd_or 0 hs) = Some (Inr h) \<and> (h = 0 \<or> h \<in> set hs)"
proof (induction hs arbitrary: p)
  case Nil
  then show ?case by (subst find_heap.simps) simp
next
  case (Cons h hs)
  obtain t where "caches st h = Some t" "tc_next t = hd_or 0 hs" using Cons.prems by (auto simp: lk_def)
  then show ?case using Cons by (subst find_heap.simps) auto
qed

section \<open>A new overall size\<close>

lemma claimed_mx: "mx st = mx st' \<Longrightarrow> claimed st hs = claimed st' hs"
  by (simp add: claimed_def)

lemma ieee_round_nonneg: "0 \<le> x \<Longrightarrow> 0 \<le> ieee_round p x"
proof (cases "x = 0")
  case False
  assume "0 \<le> x"
  then have "0 \<le> rat_rne (x / rat_pow2 e)" for e by (intro rat_rne_lower) (simp add: less_imp_le)
  then show ?thesis using False by (simp add: ieee_round_def Let_def less_imp_le)
qed simp

lemma scaled_le:
  assumes m: "m < 2 ^ 52" and r: "0 \<le> r" "r < 1"
  shows "nat (rat_trunc (dbl (dbl (of_nat m) * r))) \<le> m"
proof -
  have d: "dbl (of_nat m) = of_nat m" using ieee_round_int [of "int m" 53] m by simp
  define x where "x = of_nat m * r"
  have x: "0 \<le> x" "x \<le> of_nat m" using r by (simp_all add: x_def mult_left_le)
  have "dbl x - x \<le> x / 2 ^ 53"
    by (cases "x = 0", simp) (rule order_trans [OF abs_ge_self ieee_round_error], use x(1) in simp)
  moreover have "x / 2 ^ 53 < 1"
  proof -
    have "(of_nat m :: rat) < of_nat (2 ^ 52)" using m by (simp only: of_nat_less_iff)
    then show ?thesis using x(2) by simp
  qed
  ultimately have "dbl x < of_nat m + 1" using x(2) by linarith
  then have "\<lfloor>dbl x\<rfloor> \<le> int m" by (simp add: floor_le_iff)
  then show ?thesis using ieee_round_nonneg [OF x(1)] by (simp add: d x_def [symmetric] rat_trunc_def)
qed

definition shrinks where
  "shrinks st st' \<longleftrightarrow> (\<exists>f. st' = st\<lparr>caches := f\<rparr>) \<and> lk st' = lk st \<and> dom (caches st') = dom (caches st) \<and>
     (\<forall>h. mx st' h \<le> mx st h)"

lemma shrinks_refl: "shrinks st st"
  by (auto simp: shrinks_def intro!: exI [of _ "caches st"])

lemma shrinks_trans:
  assumes a: "shrinks a b" and b: "shrinks b c"
  shows "shrinks a c"
proof -
  obtain f where f: "b = a\<lparr>caches := f\<rparr>" using a unfolding shrinks_def by blast
  obtain g where g: "c = b\<lparr>caches := g\<rparr>" using b unfolding shrinks_def by blast
  have "c = a\<lparr>caches := g\<rparr>" unfolding g f by simp
  moreover have "lk c = lk a" "dom (caches c) = dom (caches a)" using a b unfolding shrinks_def by metis+
  moreover have "mx c h \<le> mx a h" for h using a b unfolding shrinks_def by (blast intro: order_trans)
  ultimately show ?thesis unfolding shrinks_def by blast
qed

lemma scale_heaps_shrinks:
  assumes r: "0 \<le> r" and hs: "distinct hs" "set hs \<subseteq> dom (caches st)" and m: "\<And>h. mx st h < 2 ^ 52" and c: "c + claimed st hs < 2 ^ 63"
  shows "\<exists>st'. scale_heaps r hs c st = Inr (c + claimed st' hs, st') \<and> shrinks st st' \<and> (\<forall>h. h \<notin> set hs \<longrightarrow> caches st' h = caches st h)"
  using hs m c
proof (induction hs arbitrary: st c)
  case Nil
  then show ?case by (simp add: claimed_def shrinks_refl)
next
  case (Cons h hs)
  obtain t where t: "caches st h = Some t" using Cons.prems(2) by auto
  define k where "k = (if r < 1 then nat (rat_trunc (dbl (dbl (of_nat (max_size t)) * r))) else max_size t)"
  define st1 where "st1 = st\<lparr>caches := (caches st)(h \<mapsto> t\<lparr>max_size := k\<rparr>)\<rparr>"
  have mh: "mx st h = max_size t" using t by (simp add: mx_def)
  have k: "k \<le> max_size t" using scaled_le [of "max_size t" r] Cons.prems(3) [of h] r mh by (simp add: k_def)
  have g: "(if r < 1 then upd_tc h (\<lambda>t. t\<lparr>max_size := nat (rat_trunc (dbl (dbl (of_nat (max_size t)) * r)))\<rparr>) st else Inr st) = Inr st1"
    using t by (simp add: st1_def k_def upd_tc_run map_upd_triv)
  have mx1: "mx st1 = (mx st)(h := k)" by (auto simp: st1_def mx_def fun_eq_iff)
  have lk1: "lk st1 = lk st" using t by (auto simp: st1_def lk_def fun_eq_iff)
  have s1: "shrinks st st1" using t k mh lk1 mx1 by (auto simp: shrinks_def st1_def)
  have c1: "claimed st1 hs = claimed st hs"
    unfolding claimed_def mx1 using Cons.prems(1) by (intro arg_cong [where f = sum_list] map_cong) auto
  have cl: "claimed st (h # hs) = max_size t + claimed st hs" by (simp add: claimed_def mh)
  have a: "add64 c k = c + k" using Cons.prems(4) cl k by (subst add64_id) auto
  have m1: "mx st1 i < 2 ^ 52" for i using Cons.prems(3) [of i] s1 by (auto simp: shrinks_def intro: le_less_trans)
  have "distinct hs" "set hs \<subseteq> dom (caches st1)" "c + k + claimed st1 hs < 2 ^ 63"
    using Cons.prems k cl c1 by (auto simp: st1_def)
  from Cons.IH [OF this(1,2) m1 this(3)] obtain st' where st': "scale_heaps r hs (c + k) st1 = Inr (c + k + claimed st' hs, st')"
    "shrinks st1 st'" "\<forall>i. i \<notin> set hs \<longrightarrow> caches st' i = caches st1 i" by blast
  have "mx st' h = k" using st'(3) Cons.prems(1) by (simp add: mx_def st1_def)
  then have "scale_heaps r (h # hs) c st = Inr (c + claimed st' (h # hs), st')"
    unfolding scale_heaps.simps g bind_res.simps using st'(1) a by (simp add: get_tc_def st1_def claimed_def)
  then show ?case using shrinks_trans [OF s1 st'(2)] st'(3) by (auto simp: st1_def)
qed

lemma shrinks_views:
  assumes "shrinks st st'"
  shows "thread_heaps st' = thread_heaps st" "thread_heap_count st' = thread_heap_count st" "next_memory_steal st' = next_memory_steal st"
    "overall_thread_cache_size st' = overall_thread_cache_size st" "lk st' = lk st" "dom (caches st') = dom (caches st)" "\<And>h. mx st' h \<le> mx st h"
proof -
  obtain f where f: "st' = st\<lparr>caches := f\<rparr>" using assms by (auto simp: shrinks_def)
  show "thread_heaps st' = thread_heaps st" "thread_heap_count st' = thread_heap_count st" "next_memory_steal st' = next_memory_steal st"
    "overall_thread_cache_size st' = overall_thread_cache_size st" by (simp_all add: f)
qed (use assms in \<open>auto simp: shrinks_def\<close>)

lemma set_overall_limits:
  assumes inv: "limits_ok n st hs" and n: "n < 2 ^ 30"
  shows "\<exists>st'. set_overall_thread_cache_size sz st = Inr st' \<and> limits_ok n st' hs"
proof -
  define k where "k = (let new_size = (if int sz < kMinThreadCacheSize then nat kMinThreadCacheSize else sz) in if new_size > 2 ^ 30 then 2 ^ 30 else new_size)"
  have k: "2 ^ 19 \<le> k" "k \<le> 2 ^ 30" by (simp_all add: k_def Let_def kMinThreadCacheSize_def kMaxSize_def)
  define st0 where "st0 = st\<lparr>overall_thread_cache_size := k\<rparr>"
  note i = inv [unfolded limits_ok_def]
  have views: "lk st0 = lk st" "mx st0 = mx st" by (simp_all add: st0_def lk_def [abs_def] mx_def [abs_def])
  have l0: "listed st0 hs" using i views by (simp add: listed_def st0_def)
  have c0: "claimed st0 hs = claimed st hs" by (simp add: claimed_def views)
  have b: "claimed st hs < 2 ^ 51" using i n by simp
  have m: "mx st0 h < 2 ^ 52" for h
    using mx_le_claimed [of h hs st] b i unfolding views by (cases "h \<in> set hs") (auto simp: mx_def split: option.splits)
  have d: "distinct hs" "set hs \<subseteq> dom (caches st0)" using i l0 by (auto simp: listed_def st0_def)
  define space where "space = (let n = (if thread_heap_count st0 > 0 then thread_heap_count st0 else 1);
          space = overall_thread_cache_size st0 div nat n;
          space = (if int space < kMinThreadCacheSize then nat kMinThreadCacheSize else space)
      in (if int space > kMaxThreadCacheSize then nat kMaxThreadCacheSize else space))"
  define r where "r = dbl (dbl (of_nat space) / max 1 (dbl (of_nat (per_thread_cache_size st0))))"
  have r: "0 \<le> r" by (simp add: r_def ieee_round_nonneg)
  obtain st1 where st1: "scale_heaps r hs 0 st0 = Inr (claimed st1 hs, st1)" "shrinks st0 st1"
    using scale_heaps_shrinks [OF r d m, of 0] b c0 by auto
  note v = shrinks_views [OF st1(2)]
  have c1: "claimed st1 hs \<le> claimed st hs"
    unfolding claimed_def using v(7) views by (intro sum_list_mono) simp
  let ?st = "st1\<lparr>unclaimed_cache_space := to_int64 (int (overall_thread_cache_size st1) - int (claimed st1 hs)), per_thread_cache_size := space\<rparr>"
  have u: "to_int64 (int (overall_thread_cache_size st1) - int (claimed st1 hs)) = int k - int (claimed st1 hs)"
    using k c1 b v(4) by (simp add: st0_def to_int64_def)
  have same: "lk ?st = lk st" "mx ?st = mx st1" using v(5) views by (simp_all add: lk_def [abs_def] mx_def [abs_def])
  have run: "set_overall_thread_cache_size sz st = Inr ?st"
    unfolding set_overall_thread_cache_size_def RecomputePerThreadCacheSize_def Let_def
    unfolding k_def [unfolded Let_def, symmetric] st0_def [symmetric] space_def [unfolded Let_def, symmetric] r_def [symmetric]
    by (simp add: all_heaps_listed [OF l0] st1(1))
  have "listed ?st hs" using l0 v(1,3) unfolding listed_def same views by simp
  moreover have "claimed ?st hs = claimed st1 hs" by (rule claimed_mx [OF same(2)])
  moreover have "claimed st1 hs \<le> 2 ^ 31 + n * 2 ^ 19" using c1 i by linarith
  ultimately have "limits_ok n ?st hs"
    using i v(2,4,6) k u unfolding limits_ok_def by (simp add: st0_def)
  then show ?thesis using run by blast
qed

section \<open>The operations of the front end\<close>

lemma PHA_New_keep: "central.more st = m \<Longrightarrow> always (\<lambda>(p, a, st). central.more st = m) (PHA_New os sz a links st)"
  by (auto simp: always_iff dest!: PHA_New_more heap_above(1) central_above)

lemma PHA_Init_keep: "central.more st = m \<Longrightarrow> always (\<lambda>(a, l, st). central.more st = m) (PHA_Init os sz links st)"
  by (auto simp: always_iff dest!: PHA_Init_more heap_above(1) central_above)

lemma always_bind_Inl: "always P (bind_res (Inl f) k)"
  by simp

lemma CFL_Init_keep: "central.more st = m \<Longrightarrow> always (\<lambda>st. central.more st = m) (CFL_Init this cl st)"
  unfolding CFL_Init_def Let_def by (simp only: prod.case | rule heap_calls_frame upd_cfl_frame always_bind_Inl always_steps | assumption | simp)+

lemma init_central_keep: "central.more st = m \<Longrightarrow> always (\<lambda>st. central.more st = m) (init_central is st)"
proof (induction "is" arbitrary: st)
  case (Cons i "is")
  show ?case unfolding init_central.simps by (rule always_bind [OF CFL_Init_keep [OF Cons.prems] Cons.IH])
qed simp

lemma PageHeap_new_keep: "heap.more st = m \<Longrightarrow> always (\<lambda>st. heap.more st = m) (PageHeap_new os st)"
  unfolding PageHeap_new_def PageMap3_new_def NewNode_def Let_def
  by (simp only: prod.case | rule frame always_steps | assumption | simp)+

lemmas init_frame = always_bind3 [OF PHA_Init_keep] always_bind3 [OF PHA_New_keep] always_bind [OF init_central_keep]
  always_bind [OF central_keep1 [OF PageHeap_new_keep]] always_bind2 [OF central_keep2 [OF MetaDataAlloc_keep]]

lemma InitStaticVars_keep: "central.more st = m \<Longrightarrow> always (\<lambda>st. central.more st = m) (InitStaticVars os e f g st)"
  unfolding InitStaticVars_def Let_def
  by (rule always_skip, (simp only: prod.case | rule init_frame heap_calls_keep always_if | assumption | simp)+)

lemma InitModule_limits:
  assumes inv: "limits_ok n st hs" and n: "n < 2 ^ 30"
  shows "always (\<lambda>st'. limits_ok n st' hs) (InitModule os env st)"
proof -
  define r where "r = (case env_cache_bytes env of None \<Rightarrow> Inr st | Some v \<Rightarrow> set_overall_thread_cache_size (nat (v mod 2 ^ 64)) st)"
  have r: "always (\<lambda>st'. limits_ok n st' hs) r"
  proof (cases "env_cache_bytes env")
    case (Some v)
    then show ?thesis using set_overall_limits [OF inv n, of "nat (v mod 2 ^ 64)"] by (auto simp: r_def)
  qed (simp add: r_def inv)
  have rest: "always (\<lambda>st'. limits_ok n st' hs) (bind_res (InitStaticVars os e f g st) (\<lambda>st.
      bind_res (PHA_Init os sizeof_ThreadCache (cache_links st) st) (\<lambda>(pha, links, st).
      Inr (st\<lparr>threadcache_allocator := pha, cache_links := links, phinited := True\<rparr>))))"
    if ok: "limits_ok n st hs" for st e f g
  proof (rule always_bind [OF InitStaticVars_keep [OF refl]], rule always_bind3 [OF PHA_Init_keep [OF refl]], goal_cases)
    case (1 st1 a l st2)
    then have "acct (st2\<lparr>threadcache_allocator := a, cache_links := l, phinited := True\<rparr>) = acct st"
      using acct_above [of st2 st] by (simp add: acct_def)
    then show ?case using limits_ok_acct [OF _ ok] by simp
  qed
  show ?thesis unfolding InitModule_def r_def [symmetric]
    using inv by (auto intro: always_bind [OF r rest])
qed

lemma in_setspecific_acct:
  "caches st h = Some t \<Longrightarrow> lk (st\<lparr>caches := (caches st)(h \<mapsto> t\<lparr>in_setspecific := b\<rparr>)\<rparr>) = lk st"
  "caches st h = Some t \<Longrightarrow> mx (st\<lparr>caches := (caches st)(h \<mapsto> t\<lparr>in_setspecific := b\<rparr>)\<rparr>) = mx st"
  by (auto simp: lk_def mx_def fun_eq_iff)

lemma set_flag_limits:
  assumes "limits_ok n st hs"
  shows "always (\<lambda>st'. limits_ok n st' hs) (upd_tc h (in_setspecific_update (\<lambda>_. b)) st)"
proof (cases "caches st h")
  case (Some t)
  let ?st = "st\<lparr>caches := (caches st)(h \<mapsto> t\<lparr>in_setspecific := b\<rparr>)\<rparr>"
  have "claimed ?st hs = claimed st hs" by (rule claimed_mx [OF in_setspecific_acct(2) [OF Some]])
  moreover have "listed ?st hs = listed st hs" by (simp add: listed_def in_setspecific_acct(1) [OF Some])
  moreover have "dom (caches ?st) = dom (caches st)" using Some by auto
  ultimately have "limits_ok n ?st hs" using assms unfolding limits_ok_def by simp
  then show ?thesis by (simp add: upd_tc_run [OF Some])
qed (simp add: upd_tc_def get_tc_def)

lemma acct_tls [simp]:
  "acct (st\<lparr>heap_key := k, tls_heap := l\<rparr>) = acct st" "acct (st\<lparr>tls_heap := l\<rparr>) = acct st" "acct (st\<lparr>heap_key := k\<rparr>) = acct st"
  "acct (SetMinSizeForSlowPath me z st) = acct st"
  by (simp_all add: acct_def SetMinSizeForSlowPath_def)

lemma CreateCacheIfNecessary_limits:
  assumes inv: "limits_ok n st hs" and n: "n < 2 ^ 30"
    and pha: "pha_inv os owned sizeof_ThreadCache (dom (caches st)) (threadcache_allocator st, cache_links st, st)"
  shows "always (\<lambda>(h, st'). \<exists>hs'. limits_ok (n + 1) st' hs') (CreateCacheIfNecessary os env me st)"
proof -
  have l: "listed st hs" using inv by (simp add: limits_ok_def)
  obtain h where h: "find_heap (caches st) me (thread_heaps st) = Some (Inr h)"
    using find_heap_hseg [of st 0 hs me] l by (auto simp: listed_def)
  define r where "r = (if h = 0 then NewHeap os (env_apf env) me st else Inr (h, st))"
  have r: "always (\<lambda>(h, st'). \<exists>hs'. limits_ok (n + 1) st' hs') r"
    using NewHeap_limits [OF inv n pha, of "env_apf env" me] limits_ok_later [OF inv, of "n + 1"]
    by (auto simp: r_def always_iff)
  have flags: "always (\<lambda>(h, st'). \<exists>hs'. limits_ok (n + 1) st' hs')
      (bind_res (upd_tc h (in_setspecific_update (\<lambda>_. True)) st) (\<lambda>st.
         bind_res (upd_tc h (in_setspecific_update (\<lambda>_. False)) (SetMinSizeForSlowPath me z (st\<lparr>heap_key := f st, tls_heap := g st\<rparr>))) (\<lambda>st.
         Inr (h, st))))"
    if ok: "limits_ok (n + 1) st hs'" for st :: "('a, 'b) tc_state_scheme" and h hs' z f g
  proof (rule always_bind [OF set_flag_limits [OF ok]], goal_cases)
    case (1 st1)
    then have "limits_ok (n + 1) (SetMinSizeForSlowPath me z (st1\<lparr>heap_key := f st1, tls_heap := g st1\<rparr>)) hs'"
      by (rule limits_ok_acct [rotated]) simp
    then show ?case by (rule always_bind [OF set_flag_limits]) auto
  qed
  show ?thesis unfolding CreateCacheIfNecessary_def h option.case bind_res.simps r_def [symmetric] Let_def
  proof (rule always_bind2 [OF r], goal_cases)
    case (1 h1 st1)
    then obtain hs' where ok: "limits_ok (n + 1) st1 hs'" by blast
    show ?case unfolding prod.case
      by (rule always_skip, rule always_if, rule flags [OF ok]) (use ok in auto)
  qed
qed

lemma DeleteCache_limits':
  assumes "limits_ok n st hs" "n < 2 ^ 30"
  shows "always (\<lambda>st'. \<exists>hs'. limits_ok n st' hs') (DeleteCache os h st)"
proof (cases "h \<in> set hs")
  case True
  then show ?thesis using DeleteCache_limits [OF assms(1) True assms(2), of os] by (auto simp: always_iff)
next
  case False
  then have "caches st h = None" using assms(1) by (auto simp: limits_ok_def)
  then show ?thesis by (simp add: DeleteCache_def Cleanup_def get_tc_def)
qed

lemma DestroyThreadCache_limits:
  assumes "limits_ok n st hs" "n < 2 ^ 30"
  shows "always (\<lambda>st'. \<exists>hs'. limits_ok n st' hs') (DestroyThreadCache os me ptr st)"
proof -
  have "limits_ok n (SetMinSizeForSlowPath me 0 (st\<lparr>tls_heap := l\<rparr>)) hs" for l
    by (rule limits_ok_acct [OF _ assms(1)]) simp
  note del = DeleteCache_limits' [OF this assms(2)]
  show ?thesis unfolding DestroyThreadCache_def Let_def by (rule always_if) (use assms(1) del in auto)
qed

lemma BecomeIdle_limits:
  assumes ok: "limits_ok n st hs" and n: "n < 2 ^ 30"
  shows "always (\<lambda>st'. \<exists>hs'. limits_ok n st' hs') (BecomeIdle os me st)"
proof -
  have flags: "always (\<lambda>st'. \<exists>hs'. limits_ok n st' hs')
      (bind_res (upd_tc h (in_setspecific_update (\<lambda>_. True)) st) (\<lambda>st.
         bind_res (upd_tc h (in_setspecific_update (\<lambda>_. False)) (SetMinSizeForSlowPath me 0 (st\<lparr>heap_key := f st, tls_heap := g st\<rparr>)))
           (\<lambda>st. if GetThreadHeap me st = h then Inr st else DeleteCache os h st)))" for h f g
  proof (rule always_bind [OF set_flag_limits [OF ok]], goal_cases)
    case (1 st1)
    then have "limits_ok n (SetMinSizeForSlowPath me 0 (st1\<lparr>heap_key := f st1, tls_heap := g st1\<rparr>)) hs"
      by (rule limits_ok_acct [rotated]) simp
    then show ?case by (rule always_bind [OF set_flag_limits]) (use n in \<open>auto intro: DeleteCache_limits'\<close>)
  qed
  show ?thesis unfolding BecomeIdle_def Let_def
    by (rule always_if, (use ok in auto)[1], rule always_if, (use ok in auto)[1], rule always_skip, rule always_if, (use ok in auto)[1], rule flags)
qed

text \<open>
  The states that sequences of calls of the operations on thread caches lead to, with the number of requests
  for a cache so far.  A new cache comes from the metadata allocator, whose invariant (\<open>Object_Alloc\<close>) keeps
  it apart from the caches in use.
\<close>

inductive cache_calls :: "'o os \<Rightarrow> nat \<Rightarrow> ('o, 'z) tc_state_scheme \<Rightarrow> bool" for os where
  start: "tc_state.truncate st = thread_statics c \<Longrightarrow> cache_calls os 0 st"
| module: "cache_calls os n st \<Longrightarrow> InitModule os env st = Inr st' \<Longrightarrow> cache_calls os n st'"
| create: "cache_calls os n st \<Longrightarrow>
    pha_inv os owned sizeof_ThreadCache (dom (caches st)) (threadcache_allocator st, cache_links st, st) \<Longrightarrow>
    CreateCacheIfNecessary os env me st = Inr (h, st') \<Longrightarrow> cache_calls os (n + 1) st'"
| idle: "cache_calls os n st \<Longrightarrow> BecomeIdle os me st = Inr st' \<Longrightarrow> cache_calls os n st'"
| destroy: "cache_calls os n st \<Longrightarrow> DestroyThreadCache os me ptr st = Inr st' \<Longrightarrow> cache_calls os n st'"
| resize: "cache_calls os n st \<Longrightarrow> set_overall_thread_cache_size sz st = Inr st' \<Longrightarrow> cache_calls os n st'"
| allocate: "cache_calls os n st \<Longrightarrow> Allocate os h sz cl st = Inr (p, st') \<Longrightarrow> cache_calls os n st'"
| deallocate: "cache_calls os n st \<Longrightarrow> Deallocate os h p cl st = Inr st' \<Longrightarrow> cache_calls os n st'"

lemma cache_calls_limits: "cache_calls os n st \<Longrightarrow> n < 2 ^ 30 \<Longrightarrow> \<exists>hs. limits_ok n st hs"
proof (induction rule: cache_calls.induct)
  case (start st c)
  then have "limits_ok 0 st []" by (cases st) (simp add: limits_ok_def thread_statics_def tc_state.defs central.defs listed_def claimed_def kDefaultOverallThreadCacheSize_def kMaxThreadCacheSize_def)
  then show ?case by blast
next
  case (module n st env st')
  then show ?case using InitModule_limits [of n st _ os env] by (auto simp: always_iff)
next
  case (create n st owned env me h st')
  then show ?case using CreateCacheIfNecessary_limits [of n st _ os owned env me] by (auto simp: always_iff)
next
  case (idle n st me st')
  then show ?case using BecomeIdle_limits [of n st _ os me] by (auto simp: always_iff)
next
  case (destroy n st me ptr st')
  then show ?case using DestroyThreadCache_limits [of n st _ os me ptr] by (auto simp: always_iff)
next
  case (resize n st sz st')
  then show ?case using set_overall_limits [of n st _ sz] by force
next
  case (allocate n st h sz cl p st')
  then have "acct st' = acct st" using Allocate_acct [OF refl, of st os h sz cl] by (simp add: always_iff)
  then show ?case using allocate limits_ok_acct by blast
next
  case (deallocate n st h p cl st')
  then have "acct st' = acct st" using Deallocate_acct [OF refl, of st os h p cl] by (simp add: always_iff)
  then show ?case using deallocate limits_ok_acct by blast
qed

definition brk_thread_statics :: "nat tc_state" where
  "brk_thread_statics = thread_statics (heap.extend brk_heap
     \<lparr> sizemap = SizeMap_zero, central_cache = [], objs = (\<lambda>_. 0), race_counter = 0, comm_times = 0, pageheap = 0 \<rparr>)"



end
