(* ===== verification/Thread_Cache_Objects.thy ===== *)
theory Thread_Cache_Objects
  imports Central_Safe Thread_Cache_Limits
begin

text \<open>
  The objects in the free lists of the thread caches.  The thread caches are clients of the central free
  lists: what the pool counts as out is either in a free list of some cache or with the program.  The ghost
  variables are \<open>L h cl\<close>, the chain of the list of class \<open>cl\<close> in the cache \<open>h\<close>, and \<open>U cl\<close>, the objects the program holds.
\<close>

section \<open>Free lists\<close>

definition fl_holds :: "mem \<Rightarrow> FreeList \<Rightarrow> addr list \<Rightarrow> bool" where
  "fl_holds m l xs \<longleftrightarrow> sll m (list l) xs \<and> fl_length l = length xs \<and> length xs < 2 ^ 31"

lemma fl_holds_mem: "fl_holds m l xs \<Longrightarrow> (\<And>x. x \<in> set xs \<Longrightarrow> m' x = m x) \<Longrightarrow> fl_holds m' l xs"
  using chain_cong [of xs m' m "list l" 0] by (simp add: fl_holds_def)

lemma u32_id: "n < 2 ^ 32 \<Longrightarrow> u32 (int n) = n"
  by (simp add: u32_def)

lemma fl_empty_holds: "fl_holds m l xs \<Longrightarrow> fl_empty l \<longleftrightarrow> xs = []"
  by (cases xs) (auto simp: fl_holds_def fl_empty_def)

lemma Push_holds:
  assumes "fl_holds m l xs" "x \<noteq> 0" "x \<notin> set xs" "length xs < 2 ^ 31 - 1"
  shows "\<exists>l'. Push x m l = Inr (l', m(x := list l)) \<and> fl_holds (m(x := list l)) l' (x # xs)"
proof -
  have "u32 (int (fl_length l) + 1) = length xs + 1" using assms(1,4) u32_id [of "length xs + 1"] by (simp add: fl_holds_def add.commute)
  then show ?thesis using SLL_Push_sll [of m "list l" xs x] assms by (simp add: Push_def fl_holds_def)
qed

lemma drop_length_holds:
  "fl_length l = length xs \<Longrightarrow> length xs < 2 ^ 31 \<Longrightarrow> k \<le> length xs \<Longrightarrow> fl_length (drop_length (int k) l) = length xs - k"
proof -
  assume a: "fl_length l = length xs" "length xs < 2 ^ 31" "k \<le> length xs"
  then have "int (fl_length l) - int k = int (length xs - k)" by simp
  moreover have "u32 (int (length xs - k)) = length xs - k" by (rule u32_id) (use a(2) in simp)
  ultimately show ?thesis by (simp only: drop_length_def Let_def) simp
qed

lemma drop_length_list [simp]: "list (drop_length n l) = list l"
  by (simp add: drop_length_def Let_def)

lemma Pop_holds: "fl_holds m l (x # xs) \<Longrightarrow> \<exists>l'. Pop m l = Inr (x, l') \<and> fl_holds m l' xs"
  using SLL_Pop_sll [of m "list l" x xs] drop_length_holds [of l "x # xs" 1] by (simp add: Pop_def fl_holds_def)

lemma Pop_empty: "fl_holds m l [] \<Longrightarrow> Pop m l = Inl Segv"
  by (simp add: Pop_def fl_holds_def SLL_Pop_def SLL_Next_def)

lemma PushRange_holds:
  assumes l: "fl_holds m l ys" and xs: "sll m p xs" "xs \<noteq> [] \<longrightarrow> q = last xs" "set xs \<inter> set ys = {}" "length xs + length ys < 2 ^ 31"
  shows "\<exists>l' m'. PushRange (int (length xs)) p q m l = Inr (l', m') \<and> fl_holds m' l' (xs @ ys) \<and> (\<forall>y. y \<notin> set xs \<longrightarrow> m' y = m y) \<and> (m' = m \<or> (\<exists>x\<in>set xs. \<exists>v. m' = m(x := v)))"
proof -
  have u: "u32 (int (fl_length l) + int (length xs)) = length xs + length ys" using l xs(4) u32_id [of "length xs + length ys"] by (simp add: fl_holds_def add.commute)
  show ?thesis
  proof (cases "xs = []")
    case True
    then show ?thesis using xs(1) l u by (simp add: PushRange_def SLL_PushRange_def fl_holds_def)
  next
    case False
    have "sll m (list l) ys" using l by (simp add: fl_holds_def)
    note P = SLL_PushRange_sll [OF this xs(1) False xs(3)]
    show ?thesis using P u xs(2,4) False last_in_set [OF False] by (auto simp: PushRange_def fl_holds_def)
  qed
qed

lemma PopRange_holds:
  assumes l: "fl_holds m l (xs @ ys)"
  shows "\<exists>p q l' m'. PopRange (int (length xs)) m l = Inr (p, q, l', m') \<and> fl_holds m' l' ys \<and> sll m' p xs \<and> (xs \<noteq> [] \<longrightarrow> q = last xs) \<and>
    (m' = m \<or> (\<exists>x\<in>set xs. \<exists>v. m' = m(x := v)))"
proof (cases "xs = []")
  case True
  have "fl_length (drop_length 0 l) = length ys" using drop_length_holds [of l ys 0] l True by (simp add: fl_holds_def)
  then show ?thesis using l True by (simp add: PopRange_def SLL_PopRange_def fl_holds_def)
next
  case False
  have s: "sll m (list l) (xs @ ys)" using l by (simp add: fl_holds_def)
  note P = SLL_PopRange_sll [OF s False refl]
  have "fl_length (drop_length (int (length xs)) (l\<lparr>list := m (last xs)\<rparr>)) = length ys"
    using drop_length_holds [of "l\<lparr>list := m (last xs)\<rparr>" "xs @ ys" "length xs"] l by (simp add: fl_holds_def)
  then show ?thesis using P l False last_in_set [OF False] by (auto simp: PopRange_def fl_holds_def)
qed

section \<open>The invariant\<close>

type_synonym cached = "addr \<Rightarrow> nat \<Rightarrow> addr list"

definition out :: "cached \<Rightarrow> (nat \<Rightarrow> addr set) \<Rightarrow> nat \<Rightarrow> addr set" where
  "out L U k = U k \<union> (\<Union>h. set (L h k))"

definition apart :: "cached \<Rightarrow> (nat \<Rightarrow> addr set) \<Rightarrow> bool" where
  "apart L U \<longleftrightarrow> (\<forall>h k. U k \<inter> set (L h k) = {}) \<and> (\<forall>h g k. h \<noteq> g \<longrightarrow> set (L h k) \<inter> set (L g k) = {})"

definition lists_hold :: "mem \<Rightarrow> (addr \<rightharpoonup> ThreadCache) \<Rightarrow> cached \<Rightarrow> bool" where
  "lists_hold m cs L \<longleftrightarrow> (\<forall>h. case cs h of None \<Rightarrow> \<forall>k. L h k = []
     | Some t \<Rightarrow> length (lists t) = 88 \<and> (\<forall>k<88. fl_holds m (lists t ! k) (L h k)) \<and> (\<forall>k\<ge>88. L h k = []))"

definition tinv :: "'o os \<Rightarrow> ('o \<Rightarrow> addr set) \<Rightarrow> cached \<Rightarrow> (nat \<Rightarrow> addr set) \<Rightarrow> ('o, 'z) tc_state_scheme \<Rightarrow> bool" where
  "tinv os owned L U st \<longleftrightarrow> central_state os owned (out L U) st \<and> apart L U \<and> lists_hold (objs st) (caches st) L"

lemma tinvD:
  assumes "tinv os owned L U st"
  shows "central_state os owned (out L U) st" "apart L U" "lists_hold (objs st) (caches st) L"
  using assms by (simp_all add: tinv_def)

lemma lists_holdD:
  assumes "lists_hold m cs L" "cs h = Some t"
  shows "length (lists t) = 88" "k < 88 \<Longrightarrow> fl_holds m (lists t ! k) (L h k)" "88 \<le> k \<Longrightarrow> L h k = []"
  using assms(1) [unfolded lists_hold_def, THEN spec, of h] assms(2) by auto

lemma lists_hold_None: "lists_hold m cs L \<Longrightarrow> cs h = None \<Longrightarrow> L h k = []"
  unfolding lists_hold_def by (drule spec [of _ h]) simp

lemma lists_hold_range:
  assumes "lists_hold m cs L" "L h k \<noteq> []"
  shows "k < 88"
proof (cases "cs h")
  case None
  then show ?thesis using lists_hold_None [OF assms(1)] assms(2) by simp
next
  case (Some t)
  then show ?thesis using lists_holdD(3) [OF assms(1) Some, of k] assms(2) by (cases "k < 88") auto
qed

lemma hinv_caches [simp]: "hinv os owned H F (st\<lparr>caches := c\<rparr>) = hinv os owned H F st"
  by (simp add: hinv_def hcore_def hgen_def hgen0_def mem_ok_def pha_inv_def meta_inv_def chunk_def sys_inv_def)

lemma central_state_caches [simp]: "central_state os owned X (st\<lparr>caches := c\<rparr>) = central_state os owned X st"
  by (simp add: central_state_def cinv_def)

text \<open>One list gets new contents, and the memory changes only outside the other lists.\<close>

lemma lists_hold_set:
  assumes ok: "lists_hold m cs L" and h: "cs h = Some t" "cl < 88" and l: "fl_holds m' l xs"
    and m: "\<And>g k y. (g, k) \<noteq> (h, cl) \<Longrightarrow> y \<in> set (L g k) \<Longrightarrow> m' y = m y" and t': "lists t' = (lists t)[cl := l]"
  shows "lists_hold m' (cs(h \<mapsto> t')) (L(h := (L h)(cl := xs)))"
  unfolding lists_hold_def
proof
  fix g
  show "case (cs(h \<mapsto> t')) g of None \<Rightarrow> \<forall>k. (L(h := (L h)(cl := xs))) g k = []
     | Some t \<Rightarrow> length (lists t) = 88 \<and> (\<forall>k<88. fl_holds m' (lists t ! k) ((L(h := (L h)(cl := xs))) g k)) \<and> (\<forall>k\<ge>88. (L(h := (L h)(cl := xs))) g k = [])"
  proof (cases "g = h")
    case True
    note T = lists_holdD [OF ok h(1)]
    have "fl_holds m' (lists t' ! k) (((L h)(cl := xs)) k)" if "k < 88" for k
    proof (cases "k = cl")
      case False
      then show ?thesis using fl_holds_mem [OF T(2) [OF that] m [of h k]] t' by simp
    qed (use l t' T(1) h(2) in simp)
    then show ?thesis using True T(1,3) t' h(2) by simp
  next
    case False
    show ?thesis
    proof (cases "cs g")
      case None
      then show ?thesis using lists_hold_None [OF ok None] False by simp
    next
      case (Some u)
      note T = lists_holdD [OF ok Some]
      have "fl_holds m' (lists u ! k) (L g k)" if "k < 88" for k using fl_holds_mem [OF T(2) [OF that] m [of g k]] False by simp
      then show ?thesis using Some False T(1,3) by simp
    qed
  qed
qed

lemma tinv_keep:
  assumes "tinv os owned L U st" "caches st h = Some t" "lists t' = lists t"
  shows "tinv os owned L U (st\<lparr>caches := (caches st)(h \<mapsto> t')\<rparr>)"
proof -
  have "lists_hold (objs st) ((caches st)(h \<mapsto> t')) L"
    unfolding lists_hold_def
  proof
    fix g
    show "case ((caches st)(h \<mapsto> t')) g of None \<Rightarrow> \<forall>k. L g k = []
      | Some t \<Rightarrow> length (lists t) = 88 \<and> (\<forall>k<88. fl_holds (objs st) (lists t ! k) (L g k)) \<and> (\<forall>k\<ge>88. L g k = [])"
      using tinvD(3) [OF assms(1), unfolded lists_hold_def, THEN spec, of g] assms(2,3) by (cases "g = h") simp_all
  qed
  then show ?thesis using assms(1) by (simp add: tinv_def)
qed

text \<open>The state between the steps of an operation; \<open>m\<close> is what the words of the objects in \<open>V\<close> were.\<close>

definition tkeep where
  "tkeep os owned L U V m st \<longleftrightarrow> tinv os owned L U st \<and> (\<forall>y\<in>V. objs st y = m y)"

lemma upd_tc_tkeep:
  assumes "\<And>t. lists (f t) = lists t" "tkeep os owned L U V m st"
  shows "always (tkeep os owned L U V m) (upd_tc h f st)"
  using assms tinv_keep [of os owned L U st h] by (auto simp: upd_tc_def get_tc_def tkeep_def split: option.splits)

lemma tc_wr_tkeep:
  assumes "\<And>f t. lists (upd f t) = lists t" "tkeep os owned L U V m st"
  shows "always (tkeep os owned L U V m) (tc_wr fld upd h cl f st)"
  unfolding tc_wr_def by (intro always_skip upd_tc_tkeep assms)

lemmas tkeep_frame = upd_tc_tkeep always_bind [OF upd_tc_tkeep] tc_wr_tkeep always_bind [OF tc_wr_tkeep]

section \<open>Objects move\<close>

definition with_list :: "addr \<Rightarrow> nat \<Rightarrow> addr list \<Rightarrow> cached \<Rightarrow> cached" where
  "with_list h cl xs L = L(h := (L h)(cl := xs))"

lemma with_list_simps [simp]:
  "with_list h cl xs L h cl = xs" "(g, k) \<noteq> (h, cl) \<Longrightarrow> with_list h cl xs L g k = L g k"
  "with_list h cl ys (with_list h cl xs L) = with_list h cl ys L" "with_list h cl (L h cl) L = L"
  by (auto simp: with_list_def)

lemma with_list_apply: "with_list h cl xs L g k = (if g = h \<and> k = cl then xs else L g k)"
  by (simp add: with_list_def)

lemma apartD: "apart L U \<Longrightarrow> y \<in> set (L h k) \<Longrightarrow> y \<notin> U k" "apart L U \<Longrightarrow> y \<in> set (L h k) \<Longrightarrow> y \<in> set (L g k) \<Longrightarrow> h = g"
  unfolding apart_def by blast+

lemma apartI: "(\<And>y h k. y \<in> set (L h k) \<Longrightarrow> y \<notin> U k) \<Longrightarrow> (\<And>y h g k. y \<in> set (L h k) \<Longrightarrow> y \<in> set (L g k) \<Longrightarrow> h = g) \<Longrightarrow> apart L U"
  unfolding apart_def by blast

lemma out_with_list:
  assumes "apart L U"
  shows "out (with_list h cl xs L) U = (out L U)(cl := (out L U cl - set (L h cl)) \<union> set xs)"
proof
  fix k
  show "out (with_list h cl xs L) U k = ((out L U)(cl := (out L U cl - set (L h cl)) \<union> set xs)) k"
  proof (cases "k = cl")
    case True
    have a: "U cl \<inter> set (L h cl) = {}" "\<And>g. g \<noteq> h \<Longrightarrow> set (L g cl) \<inter> set (L h cl) = {}" using assms by (auto simp: apart_def)
    show ?thesis
    proof (intro set_eqI iffI)
      fix y assume "y \<in> out (with_list h cl xs L) U k"
      then consider "y \<in> U cl" | "y \<in> set xs" | g where "g \<noteq> h" "y \<in> set (L g cl)"
        using True by (auto simp: out_def with_list_apply split: if_splits)
      then show "y \<in> ((out L U)(cl := (out L U cl - set (L h cl)) \<union> set xs)) k" using a True by cases (auto simp: out_def)
    next
      fix y assume "y \<in> ((out L U)(cl := (out L U cl - set (L h cl)) \<union> set xs)) k"
      then consider "y \<in> U cl" | "y \<in> set xs" | g where "g \<noteq> h" "y \<in> set (L g cl)" using True unfolding out_def fun_upd_apply by auto metis
      then show "y \<in> out (with_list h cl xs L) U k" using True by cases (auto simp: out_def with_list_apply)
    qed
  qed (simp add: out_def with_list_apply)
qed

lemma apart_with_list:
  assumes ap: "apart L U" and xs: "set xs \<inter> (out L U cl - set (L h cl)) = {}"
  shows "apart (with_list h cl xs L) U"
proof (rule apartI)
  have x: "y \<notin> U cl \<and> (\<forall>g. y \<in> set (L g cl) \<longrightarrow> g = h)" if "y \<in> set xs" for y
  proof -
    have "y \<in> set (L h cl) \<or> y \<notin> out L U cl" using xs that by blast
    then show ?thesis using apartD [OF ap] by (auto simp: out_def)
  qed
  show "y \<notin> U k" if "y \<in> set (with_list h cl xs L g k)" for y g k
    using that x apartD(1) [OF ap] by (auto simp: with_list_apply split: if_splits)
  show "f = g" if "y \<in> set (with_list h cl xs L f k)" "y \<in> set (with_list h cl xs L g k)" for y f g k
    using that x apartD(2) [OF ap] by (auto simp: with_list_apply split: if_splits)
qed

text \<open>The words outside a list of a cache that a change of the list must keep.\<close>

lemma in_other_list:
  assumes "tinv os owned L U st" "cl < 88" "(g, k) \<noteq> (h, cl)" "y \<in> set (L g k)"
  shows "y \<in> out L U k" "k < 88" "y \<notin> set (L h cl)"
proof -
  note T = tinvD [OF assms(1)]
  show k: "k < 88" using lists_hold_range [OF T(3), of g k] assms(4) by force
  show o: "y \<in> out L U k" using assms(4) by (auto simp: out_def)
  obtain F C S where inv: "cinv os owned F C S (out L U) st" using T(1) by (auto simp: central_state_def)
  show "y \<notin> set (L h cl)"
  proof
    assume y: "y \<in> set (L h cl)"
    then have "y \<in> out L U cl" by (auto simp: out_def)
    then have "k = cl" using out_classes [OF inv o k _ assms(2)] by blast
    then show False using apartD(2) [OF T(2)] assms(3,4) y by blast
  qed
qed

lemma tinv_set_list:
  fixes st st' :: "('o, 'z) tc_state_scheme"
  assumes inv: "tinv os owned L U st" and h: "caches st h = Some t" "cl < 88"
    and st': "caches st' = (caches st)(h \<mapsto> t')" "lists t' = (lists t)[cl := l]" "fl_holds (objs st') l xs"
    and m: "\<And>g k y. (g, k) \<noteq> (h, cl) \<Longrightarrow> y \<in> set (L g k) \<Longrightarrow> objs st' y = objs st y"
    and X: "central_state os owned (out (with_list h cl xs L) U') st'" "apart (with_list h cl xs L) U'"
  shows "tinv os owned (with_list h cl xs L) U' st'"
  unfolding tinv_def st'(1) with_list_def [symmetric]
  using X lists_hold_set [OF tinvD(3) [OF inv] h st'(3) m st'(2)] by (simp add: with_list_def)

lemma central_state_write:
  assumes "central_state os owned X st" "cl < 88" "m = objs st \<or> (\<exists>x\<in>X cl. \<exists>v. m = (objs st)(x := v))"
  shows "central_state os owned X (st\<lparr>objs := m\<rparr>)"
  using assms(3)
proof
  assume "m = objs st"
  then show ?thesis using assms(1) by simp
next
  assume "\<exists>x\<in>X cl. \<exists>v. m = (objs st)(x := v)"
  then obtain x v where x: "x \<in> X cl" "m = (objs st)(x := v)" by blast
  obtain F C S where inv: "cinv os owned F C S X st" using assms(1) by (auto simp: central_state_def)
  show ?thesis unfolding x(2) central_state_def using cinv_write [OF inv x(1) assms(2)] by blast
qed

lemma always_conj: "always P r \<Longrightarrow> always Q r \<Longrightarrow> always (\<lambda>x. P x \<and> Q x) r"
  by (simp add: always_iff)

lemma always_mono: "always Q r \<Longrightarrow> (\<And>x. Q x \<Longrightarrow> P x) \<Longrightarrow> always P r"
  by (simp add: always_iff)

text \<open>What a client sees of \<open>RemoveRange\<close>.\<close>

lemma RemoveRange_client:
  fixes st :: "('o, 'z) tc_state_scheme"
  assumes "central_state os owned X st" "0 < cl" "cl < 88"
  shows "always (\<lambda>(n, p, q, st'). caches st' = caches st \<and> (\<exists>xs. central_state os owned (X(cl := X cl \<union> set xs)) st' \<and> sll (objs st') p xs \<and> n = int (length xs) \<and> n \<le> max 1 N \<and>
     (xs \<noteq> [] \<longrightarrow> q = last xs) \<and> (\<forall>k<88. set xs \<inter> X k = {} \<and> (\<forall>y\<in>X k. objs st' y = objs st y)))) (RemoveRange os cl N st)"
proof -
  have 1: "always (taken (central_state os owned) objs cl N X st) (RemoveRange os cl N st)" by (rule safe_always [OF central.remove_law [OF assms]])
  have 2: "always (\<lambda>(a, b, c, st'). central.more st' = central.more st) (RemoveRange os cl N st)" by (rule RemoveRange_keep [OF refl])
  have c: "caches st' = caches st" if "central.more st' = central.more st" for st' :: "('o, 'z) tc_state_scheme" using that by (cases st, cases st') auto
  show ?thesis
  proof (rule always_mono [OF always_conj [OF 1 2]])
    fix r assume r: "taken (central_state os owned) objs cl N X st r \<and> (case r of (a, b, c, st') \<Rightarrow> central.more st' = central.more st)"
    obtain n p q st' where e: "r = (n, p, q, st')" by (cases r) auto
    show "case r of (n, p, q, st') \<Rightarrow> caches st' = caches st \<and> (\<exists>xs. central_state os owned (X(cl := X cl \<union> set xs)) st' \<and> sll (objs st') p xs \<and> n = int (length xs) \<and> n \<le> max 1 N \<and>
      (xs \<noteq> [] \<longrightarrow> q = last xs) \<and> (\<forall>k<88. set xs \<inter> X k = {} \<and> (\<forall>y\<in>X k. objs st' y = objs st y)))"
      using r c unfolding e prod.case taken_def by blast
  qed
qed

lemma InsertRange_client:
  fixes st :: "('o, 'z) tc_state_scheme"
  assumes "central_state os owned X st" "0 < cl" "cl < 88" "sll (objs st) p xs" "xs \<noteq> [] \<longrightarrow> q = last xs" "set xs \<subseteq> X cl"
  shows "always (\<lambda>st'. caches st' = caches st \<and> central_state os owned (X(cl := X cl - set xs)) st' \<and> (\<forall>k<88. \<forall>y\<in>X k. y \<notin> set xs \<longrightarrow> objs st' y = objs st y))
    (InsertRange os cl p q (int (length xs)) st)"
proof -
  have 1: "always (given (central_state os owned) objs cl xs X st) (InsertRange os cl p q (int (length xs)) st)"
    by (rule safe_always [OF returns_safe [OF central.insert_law [OF assms]]])
  have 2: "always (\<lambda>st'. central.more st' = central.more st) (InsertRange os cl p q (int (length xs)) st)" by (rule InsertRange_keep [OF refl])
  have c: "caches st' = caches st" if "central.more st' = central.more st" for st' :: "('o, 'z) tc_state_scheme" using that by (cases st, cases st') auto
  show ?thesis using always_conj [OF 1 2] unfolding always_iff given_def using c by blast
qed

section \<open>Traffic with the central free lists\<close>

lemma tc_rd_lists:
  assumes "lists_hold m (caches st) L" "cl < 88" "caches st h = Some t"
  shows "tc_rd lists h cl st = Inr (lists t ! cl)"
  using lists_holdD(1) [OF assms(1,3)] assms(2,3) by (simp add: tc_rd_def get_tc_def)

lemma tc_wr_lists:
  assumes "length (lists t) = 88" "cl < 88" "caches st h = Some t"
  shows "tc_wr lists lists_update h cl (\<lambda>_. l) st = Inr (st\<lparr>caches := (caches st)(h \<mapsto> t\<lparr>lists := (lists t)[cl := l]\<rparr>)\<rparr>)"
  using assms by (simp add: tc_wr_def get_tc_def upd_tc_def)

text \<open>The words of objects that the program holds.\<close>

definition user_words :: "(nat \<Rightarrow> addr set) \<Rightarrow> addr set" where "user_words U = (\<Union>k\<in>{..<88}. U k)"

lemma user_words_out: "y \<in> user_words U \<Longrightarrow> \<exists>k<88. y \<in> out L U k"
  by (auto simp: user_words_def out_def)

lemma user_not_listed:
  assumes inv: "tinv os owned L U st" and y: "y \<in> user_words U" "y \<in> set (L h cl)"
  shows False
proof -
  note T = tinvD [OF inv]
  obtain k where k: "k < 88" "y \<in> U k" using y(1) by (auto simp: user_words_def)
  have c: "cl < 88" using lists_hold_range [OF T(3), of h cl] y(2) by force
  obtain F C S where ci: "cinv os owned F C S (out L U) st" using T(1) by (auto simp: central_state_def)
  have "y \<in> out L U k" "y \<in> out L U cl" using k y(2) by (auto simp: out_def)
  then have "k = cl" using out_classes [OF ci _ k(1) _ c] by blast
  then show False using apartD(1) [OF T(2) y(2)] k(2) by blast
qed

lemma Fetch_objects:
  fixes st :: "('o, 'z) tc_state_scheme"
  assumes kp: "tkeep os owned L U (user_words U) m st" and cl: "0 < cl" "cl < 88" and emp: "L h cl = []"
  shows "always (\<lambda>(_, st'). \<exists>xs. tkeep os owned (with_list h cl xs L) U (user_words U) m st') (FetchFromCentralCachePeriodicallyNoReturn os h cl bs n st)"
proof -
  have inv: "tinv os owned L U st" and m: "\<forall>y\<in>user_words U. objs st y = m y" using kp by (simp_all add: tkeep_def)
  note T = tinvD [OF inv]
  let ?X = "out L U"
  show ?thesis
    unfolding FetchFromCentralCachePeriodicallyNoReturn_def
  proof (rule always_bind [OF RemoveRange_client [OF T(1) cl]], clarify)
    fix p q and st1 :: "('o, 'z) tc_state_scheme" and xs
    assume cs: "caches st1 = caches st" and c1: "central_state os owned (?X(cl := ?X cl \<union> set xs)) st1" and xs: "sll (objs st1) p xs" "int (length xs) \<le> max 1 (to_int32 n)"
        "xs \<noteq> [] \<longrightarrow> q = last xs" and fr: "\<forall>k<88. set xs \<inter> ?X k = {} \<and> (\<forall>y\<in>?X k. objs st1 y = objs st y)"
    show "always (\<lambda>(_, st'). \<exists>xs. tkeep os owned (with_list h cl xs L) U (user_words U) m st')
      (if 0 \<le> int (length xs) then bind_res (upd_tc h (\<lambda>t. t\<lparr>tc_size := wrap64 (tc_size t + bs * nat (int (length xs)))\<rparr>) st1) (\<lambda>st.
         bind_res (tc_rd lists h cl st) (\<lambda>l. bind_res (PushRange (int (length xs)) p q (objs st) l) (\<lambda>(l, m).
         bind_res (tc_wr lists lists_update h cl (\<lambda>_. l) (st\<lparr>objs := m\<rparr>)) (\<lambda>st. Inr (int (length xs), st)))))
       else Inr (int (length xs), st1))"
    proof (cases "caches st h")
      case None
      then show ?thesis using cs by (simp add: upd_tc_def get_tc_def)
    next
      case (Some t)
      note LH = lists_holdD [OF T(3) Some]
      let ?t = "t\<lparr>tc_size := wrap64 (tc_size t + bs * nat (int (length xs)))\<rparr>"
      let ?st2 = "st1\<lparr>caches := (caches st)(h \<mapsto> ?t)\<rparr>"
      have l0: "fl_holds (objs st1) (lists t ! cl) []" using LH(2) [OF cl(2)] emp by (simp add: fl_holds_def)
      have "int (length xs) < int (2 ^ 31)" using xs(2) to_int32_range [of n, THEN conjunct2] by simp
      then have "length xs < 2 ^ 31" unfolding of_nat_less_iff .
      then obtain l' m' where P: "PushRange (int (length xs)) p q (objs st1) (lists t ! cl) = Inr (l', m')" "fl_holds m' l' xs" "\<forall>y. y \<notin> set xs \<longrightarrow> m' y = objs st1 y"
          "m' = objs st1 \<or> (\<exists>x\<in>set xs. \<exists>v. m' = (objs st1)(x := v))"
        using PushRange_holds [OF l0 xs(1,3)] by auto
      let ?t3 = "?t\<lparr>lists := (lists t)[cl := l']\<rparr>"
      let ?st3 = "st1\<lparr>objs := m', caches := (caches st)(h \<mapsto> ?t3)\<rparr>"
      have X: "out (with_list h cl xs L) U = ?X(cl := ?X cl \<union> set xs)" using out_with_list [OF T(2), of h cl xs] emp by simp
      have "central_state os owned (?X(cl := ?X cl \<union> set xs)) (st1\<lparr>objs := m'\<rparr>)" by (rule central_state_write [OF c1 cl(2)]) (use P(4) in auto)
      then have c3: "central_state os owned (out (with_list h cl xs L) U) ?st3" using X by simp
      have keep: "objs ?st3 y = objs st y" if "k < 88" "y \<in> ?X k" for k y
      proof -
        have "y \<notin> set xs" using fr that by blast
        then show ?thesis using P(3) fr that by simp
      qed
      have "tinv os owned (with_list h cl xs L) U ?st3"
      proof (rule tinv_set_list [OF inv Some cl(2), where t' = ?t3 and l = l'])
        show "objs ?st3 y = objs st y" if "(g, k) \<noteq> (h, cl)" "y \<in> set (L g k)" for g k y
          using keep in_other_list [OF inv cl(2) that] by blast
        show "apart (with_list h cl xs L) U" by (rule apart_with_list [OF T(2)]) (use fr cl(2) in blast)
      qed (use P(2) c3 in simp_all)
      moreover have "\<forall>y\<in>user_words U. objs ?st3 y = m y" using keep user_words_out [of _ U L] m by metis
      ultimately have "tkeep os owned (with_list h cl xs L) U (user_words U) m ?st3" by (simp add: tkeep_def)
      moreover have "upd_tc h (\<lambda>t. t\<lparr>tc_size := wrap64 (tc_size t + bs * nat (int (length xs)))\<rparr>) st1 = Inr ?st2" using Some cs by (simp add: upd_tc_def get_tc_def)
      moreover have "tc_rd lists h cl ?st2 = Inr (lists t ! cl)" using LH(1) cl(2) by (simp add: tc_rd_def get_tc_def)
      moreover have "tc_wr lists lists_update h cl (\<lambda>_. l') (?st2\<lparr>objs := m'\<rparr>) = Inr ?st3"
        using tc_wr_lists [of ?t cl "?st2\<lparr>objs := m'\<rparr>" h l'] LH(1) cl(2) by simp
      ultimately show ?thesis using P(1) by auto
    qed
  qed
qed

lemma pop_insert_objects:
  fixes st :: "('o, 'z) tc_state_scheme"
  assumes kp: "tkeep os owned L U (user_words U) m st" and cl: "0 < cl" "cl < 88" and k: "0 \<le> k" "nat k \<le> length (L h cl)"
  shows "always (tkeep os owned (with_list h cl (drop (nat k) (L h cl)) L) U (user_words U) m) (pop_insert os h cl k st)"
proof (cases "caches st h")
  case None
  then show ?thesis by (simp add: pop_insert_def tc_rd_def get_tc_def)
next
  case (Some t)
  have inv: "tinv os owned L U st" and m: "\<forall>y\<in>user_words U. objs st y = m y" using kp by (simp_all add: tkeep_def)
  note T = tinvD [OF inv]
  note LH = lists_holdD [OF T(3) Some]
  let ?X = "out L U" let ?ys = "drop (nat k) (L h cl)"
  define xs where "xs = take (nat k) (L h cl)"
  have split: "L h cl = xs @ ?ys" and lx: "int (length xs) = k" using k by (simp_all add: xs_def)
  have "fl_holds (objs st) (lists t ! cl) (xs @ ?ys)" using LH(2) [OF cl(2)] split by simp
  then obtain p q l' m' where P: "PopRange k (objs st) (lists t ! cl) = Inr (p, q, l', m')" "fl_holds m' l' ?ys" "sll m' p xs" "xs \<noteq> [] \<longrightarrow> q = last xs"
      "m' = objs st \<or> (\<exists>x\<in>set xs. \<exists>v. m' = (objs st)(x := v))"
    using PopRange_holds [of "objs st" "lists t ! cl" xs ?ys] lx by blast
  define st1 where "st1 = st\<lparr>objs := m', caches := (caches st)(h \<mapsto> t\<lparr>lists := (lists t)[cl := l']\<rparr>)\<rparr>"
  have st1: "caches st1 = (caches st)(h \<mapsto> t\<lparr>lists := (lists t)[cl := l']\<rparr>)" "objs st1 = m'" by (simp_all add: st1_def)
  have in_X: "set (L h cl) \<subseteq> ?X cl" by (auto simp: out_def)
  have parts: "set (L h cl) = set xs \<union> set ?ys" using split by (metis set_append)
  have sub: "set xs \<subseteq> ?X cl" using in_X parts by blast
  have "central_state os owned ?X (st\<lparr>objs := m'\<rparr>)" by (rule central_state_write [OF T(1) cl(2)]) (use P(5) sub in blast)
  then have c1: "central_state os owned ?X st1" by (simp add: st1_def)
  have d: "distinct (xs @ ?ys)" using LH(2) [OF cl(2)] split sll_distinct by (metis fl_holds_def)
  have dj: "set xs \<inter> set ?ys = {}" using d by simp
  have "(?X cl - set (L h cl)) \<union> set ?ys = ?X cl - set xs" using in_X dj unfolding parts by blast
  then have X: "out (with_list h cl ?ys L) U = ?X(cl := ?X cl - set xs)" using out_with_list [OF T(2), of h cl ?ys] by simp
  have run: "pop_insert os h cl k st = InsertRange os cl p q (int (length xs)) st1"
    using P(1) tc_rd_lists [OF T(3) cl(2) Some] tc_wr_lists [of t cl "st\<lparr>objs := m'\<rparr>" h l'] LH(1) cl(2) Some lx by (simp add: pop_insert_def st1_def)
  show ?thesis unfolding run
  proof (rule always_mono [OF InsertRange_client [OF c1 cl P(3) [folded st1(2)] P(4) sub]])
    fix st' :: "('o, 'z) tc_state_scheme"
    assume st': "caches st' = caches st1 \<and> central_state os owned (?X(cl := ?X cl - set xs)) st' \<and> (\<forall>k<88. \<forall>y\<in>?X k. y \<notin> set xs \<longrightarrow> objs st' y = objs st1 y)"
    have keep: "objs st' y = objs st y" if "j < 88" "y \<in> ?X j" "y \<notin> set xs" for j y
      using st' that P(5) st1(2) by auto
    have "tinv os owned (with_list h cl ?ys L) U st'"
    proof (rule tinv_set_list [OF inv Some cl(2), where t' = "t\<lparr>lists := (lists t)[cl := l']\<rparr>" and l = l'])
      show "fl_holds (objs st') l' ?ys"
      proof (rule fl_holds_mem [OF P(2)])
        fix y assume "y \<in> set ?ys"
        then have "y \<in> ?X cl" "y \<notin> set xs" using dj in_X parts by blast+
        then show "objs st' y = m' y" using st' cl(2) st1(2) by blast
      qed
      show "objs st' y = objs st y" if "(g, j) \<noteq> (h, cl)" "y \<in> set (L g j)" for g j y
        using in_other_list [OF inv cl(2) that] keep parts by blast
      show "apart (with_list h cl ?ys L) U" by (rule apart_with_list [OF T(2)]) (auto dest: in_set_dropD)
    qed (use st' st1 X in simp_all)
    moreover have "\<forall>y\<in>user_words U. objs st' y = m y"
    proof
      fix y assume y: "y \<in> user_words U"
      then obtain j where j: "j < 88" "y \<in> ?X j" using user_words_out by blast
      have "y \<notin> set xs" using user_not_listed [OF inv y, of h cl] parts by blast
      then show "objs st' y = m y" using keep [OF j] m y by simp
    qed
    ultimately show "tkeep os owned (with_list h cl ?ys L) U (user_words U) m st'" by (simp add: tkeep_def)
  qed
qed

lemma release_batches_objects:
  fixes st :: "('o, 'z) tc_state_scheme"
  assumes "tkeep os owned L U (user_words U) m st" "0 < cl" "cl < 88" "0 \<le> N" "nat N \<le> length (L h cl)"
  shows "always (\<lambda>(N', st'). \<exists>xs. tkeep os owned (with_list h cl xs L) U (user_words U) m st' \<and> 0 \<le> N' \<and> nat N' \<le> length xs) (release_batches os h cl b N st)"
  using assms
proof (induction "nat N" arbitrary: N st L rule: less_induct)
  case less
  have stop: "\<exists>xs. tkeep os owned (with_list h cl xs L) U (user_words U) m st \<and> 0 \<le> N \<and> nat N \<le> length xs"
    using less.prems by (intro exI [of _ "L h cl"]) simp
  show ?case
  proof (cases "N > b \<and> 0 < b")
    case False
    then show ?thesis using stop by (subst release_batches.simps) auto
  next
    case True
    let ?L = "with_list h cl (drop (nat b) (L h cl)) L"
    have le: "nat b \<le> length (L h cl)" using True less.prems(5) by linarith
    have "always (\<lambda>(N', st'). \<exists>xs. tkeep os owned (with_list h cl xs L) U (user_words U) m st' \<and> 0 \<le> N' \<and> nat N' \<le> length xs) (release_batches os h cl b (N - b) st1)"
      if st1: "tkeep os owned ?L U (user_words U) m st1" for st1 :: "('o, 'z) tc_state_scheme"
      using less.hyps [OF _ st1 less.prems(2,3)] True less.prems(5) by (simp add: nat_diff_distrib)
    then have "always (\<lambda>(N', st'). \<exists>xs. tkeep os owned (with_list h cl xs L) U (user_words U) m st' \<and> 0 \<le> N' \<and> nat N' \<le> length xs)
        (bind_res (pop_insert os h cl b st) (\<lambda>st. release_batches os h cl b (N - b) st))"
      by (intro always_bind [OF pop_insert_objects [OF less.prems(1-3) _ le]]) (use True in simp_all)
    then show ?thesis using True by (subst release_batches.simps) simp
  qed
qed

lemma Release_objects:
  fixes st :: "('o, 'z) tc_state_scheme"
  assumes kp: "tkeep os owned L U (user_words U) m st" and cl: "0 < cl" "cl < 88" and N: "- (2 ^ 31) \<le> N" "N < 2 ^ 31"
  shows "always (\<lambda>st'. \<exists>xs. tkeep os owned (with_list h cl xs L) U (user_words U) m st') (ReleaseToCentralCache os h cl N st)"
proof (cases "caches st h")
  case None
  then show ?thesis by (simp add: ReleaseToCentralCache_def tc_rd_def get_tc_def)
next
  case (Some t)
  have inv: "tinv os owned L U st" using kp by (simp add: tkeep_def)
  note T = tinvD [OF inv]
  have l: "fl_length (lists t ! cl) = length (L h cl)" "length (L h cl) < 2 ^ 31" using lists_holdD(2) [OF T(3) Some cl(2)] by (simp_all add: fl_holds_def)
  define M where "M = (if nat (N mod 2 ^ 64) > length (L h cl) then to_int32 (int (length (L h cl))) else N)"
  have M: "0 \<le> M" "nat M \<le> length (L h cl)"
  proof -
    have "to_int32 (int (length (L h cl))) = int (length (L h cl))" using l(2) by (simp add: to_int32_def)
    moreover have "N mod 2 ^ 64 = (if 0 \<le> N then N else N + 2 ^ 64)" using N mod_pos_pos_trivial [of "N + 2 ^ 64" "2 ^ 64"] by simp
    ultimately show "0 \<le> M" "nat M \<le> length (L h cl)" using l(2) N by (auto simp: M_def split: if_splits)
  qed
  have rd: "tc_rd lists h cl st = Inr (lists t ! cl)" by (rule tc_rd_lists [OF T(3) cl(2) Some])
  show ?thesis
    unfolding ReleaseToCentralCache_def rd bind_res.simps Let_def l(1) M_def [symmetric]
  proof (rule always_skip, rule always_skip, rule always_bind [OF release_batches_objects [OF kp cl M]], clarify)
    fix N' xs and st1 :: "('o, 'z) tc_state_scheme" and sz b
    assume x: "tkeep os owned (with_list h cl xs L) U (user_words U) m st1" "0 \<le> N'" "nat N' \<le> length xs"
    show "always (\<lambda>st'. \<exists>xs. tkeep os owned (with_list h cl xs L) U (user_words U) m st')
      (bind_res (pop_insert os h cl N' st1) (upd_tc h (\<lambda>t. t\<lparr>tc_size := sub64 (tc_size t) (nat (M * sz mod 2 ^ 64))\<rparr>)))"
      using x by (intro always_bind [OF pop_insert_objects [OF x(1) cl x(2)]] always_mono [OF upd_tc_tkeep] exI) auto
  qed
qed

section \<open>\<open>Allocate\<close> and \<open>Deallocate\<close>\<close>

lemma user_not_other:
  assumes inv: "tinv os owned L U st" and x: "x \<in> out L U cl" "cl < 88" and y: "x \<in> U k" "k < 88"
  shows "k = cl"
proof -
  obtain F C S where ci: "cinv os owned F C S (out L U) st" using tinvD(1) [OF inv] by (auto simp: central_state_def)
  have "x \<in> out L U k" using y(1) by (auto simp: out_def)
  then show ?thesis using out_classes [OF ci _ y(2) _ x(2)] x(1) by blast
qed

lemma out_pop: "L h cl = x # xs \<Longrightarrow> apart L U \<Longrightarrow> distinct (L h cl) \<Longrightarrow> out (with_list h cl xs L) (U(cl := insert x (U cl))) = out L U"
proof
  fix k assume a: "L h cl = x # xs" "apart L U" "distinct (L h cl)"
  have "x \<in> out L U cl" "set (L h cl) = insert x (set xs)" "x \<notin> set xs" using a by (auto simp: out_def) (metis list.set_intros(1))
  moreover have "set (L h cl) \<subseteq> out L U cl" by (auto simp: out_def)
  moreover have "out (with_list h cl xs L) (U(cl := insert x (U cl))) k = (if k = cl then insert x (out (with_list h cl xs L) U cl) else out (with_list h cl xs L) U k)"
    by (simp add: out_def)
  ultimately show "out (with_list h cl xs L) (U(cl := insert x (U cl))) k = out L U k" using out_with_list [OF a(2), of h cl xs] by auto
qed

lemma apart_pop:
  assumes "L h cl = x # xs" "apart L U" "distinct (L h cl)"
  shows "apart (with_list h cl xs L) (U(cl := insert x (U cl)))"
proof (rule apartI)
  have x: "x \<in> set (L h cl)" "x \<notin> set xs" "set xs \<subseteq> set (L h cl)" using assms by auto
  show "y \<notin> (U(cl := insert x (U cl))) k" if "y \<in> set (with_list h cl xs L g k)" for y g k
    using that apartD [OF assms(2)] x by (auto simp: with_list_apply split: if_splits)
  show "f = g" if "y \<in> set (with_list h cl xs L f k)" "y \<in> set (with_list h cl xs L g k)" for y f g k
    using that apartD(2) [OF assms(2)] x by (auto simp: with_list_apply split: if_splits)
qed

lemma pop_objects:
  fixes st :: "('o, 'z) tc_state_scheme"
  assumes kp: "tkeep os owned L U (user_words U) m st" and cl: "0 < cl" "cl < 88"
    and k: "\<And>x xs st'. x \<notin> user_words U \<Longrightarrow> tkeep os owned (with_list h cl xs L) (U(cl := insert x (U cl))) (user_words U) m st' \<Longrightarrow> always P (k x st')"
  shows "always P (bind_res (tc_rd lists h cl st) (\<lambda>l. bind_res (Pop (objs st) l) (\<lambda>(x, l). bind_res (tc_wr lists lists_update h cl (\<lambda>_. l) st) (k x))))"
proof (cases "caches st h")
  case None
  then show ?thesis by (simp add: tc_rd_def get_tc_def)
next
  case (Some t)
  have inv: "tinv os owned L U st" and m: "\<forall>y\<in>user_words U. objs st y = m y" using kp by (simp_all add: tkeep_def)
  note T = tinvD [OF inv]
  note LH = lists_holdD [OF T(3) Some]
  note l = LH(2) [OF cl(2)]
  have rd: "tc_rd lists h cl st = Inr (lists t ! cl)" by (rule tc_rd_lists [OF T(3) cl(2) Some])
  show ?thesis
  proof (cases "L h cl")
    case Nil
    then show ?thesis using Pop_empty [of "objs st" "lists t ! cl"] l by (simp add: rd)
  next
    case (Cons x xs)
    obtain l' where P: "Pop (objs st) (lists t ! cl) = Inr (x, l')" "fl_holds (objs st) l' xs" using Pop_holds [of "objs st" "lists t ! cl" x xs] l Cons by auto
    let ?t = "t\<lparr>lists := (lists t)[cl := l']\<rparr>"
    have d: "distinct (L h cl)" using l sll_distinct by (metis fl_holds_def)
    have "tinv os owned (with_list h cl xs L) (U(cl := insert x (U cl))) (st\<lparr>caches := (caches st)(h \<mapsto> ?t)\<rparr>)"
      by (rule tinv_set_list [OF inv Some cl(2), where t' = ?t and l = l'])
        (use P(2) T(1) out_pop [OF Cons T(2) d] apart_pop [OF Cons T(2) d] in simp_all)
    then have "tkeep os owned (with_list h cl xs L) (U(cl := insert x (U cl))) (user_words U) m (st\<lparr>caches := (caches st)(h \<mapsto> ?t)\<rparr>)" using m by (simp add: tkeep_def)
    moreover have "x \<notin> user_words U" using user_not_listed [OF inv, of x h cl] Cons by auto
    ultimately show ?thesis using k P(1) tc_wr_lists [of t cl st h l'] LH(1) cl(2) Some by (simp add: rd)
  qed
qed

lemma refill_objects:
  fixes st :: "('o, 'z) tc_state_scheme"
  assumes kp: "tkeep os owned L U (user_words U) m st" and cl: "0 < cl" "cl < 88" and emp: "L h cl = []"
  shows "always (\<lambda>st'. \<exists>xs. tkeep os owned (with_list h cl xs L) U (user_words U) m st') (refill os h sz cl st)"
  unfolding refill_def
proof (rule always_skip, rule always_skip, rule always_skip, rule always_skip, rule always_bind [OF tc_wr_tkeep [OF _ kp]], simp,
    rule always_bind [OF Fetch_objects [where L = L and h = h, OF _ cl emp]], assumption, clarify)
  fix xs and st1 :: "('o, 'z) tc_state_scheme"
  assume x: "tkeep os owned (with_list h cl xs L) U (user_words U) m st1"
  show "always (\<lambda>st'. \<exists>xs. tkeep os owned (with_list h cl xs L) U (user_words U) m st')
    (bind_res (tc_wr total_synchronized total_synchronized_update h cl inc32 st1) (tc_wr fetched_syncs fetched_syncs_update h cl inc32))"
    by (rule always_bind [OF tc_wr_tkeep [OF _ x]], simp, rule always_mono [OF tc_wr_tkeep], simp, assumption, blast)
qed

lemma Allocate_objects:
  fixes st :: "('o, 'z) tc_state_scheme"
  assumes kp: "tkeep os owned L U (user_words U) m st" and cl: "0 < cl" "cl < 88"
  shows "always (\<lambda>(p, st'). p \<notin> user_words U \<and> (\<exists>xs. tkeep os owned (with_list h cl xs L) (U(cl := insert p (U cl))) (user_words U) m st')) (Allocate os h sz cl st)"
    (is "always ?P _")
proof (cases "caches st h")
  case None
  then show ?thesis by (simp add: Allocate_def tc_rd_def get_tc_def)
next
  case (Some t)
  have T: "lists_hold (objs st) (caches st) L" using kp by (simp add: tkeep_def tinv_def)
  have rd: "tc_rd lists h cl st = Inr (lists t ! cl)" by (rule tc_rd_lists [OF T cl(2) Some])
  have emp: "fl_empty (lists t ! cl) \<longleftrightarrow> L h cl = []" by (rule fl_empty_holds [OF lists_holdD(2) [OF T Some cl(2)]])
  have fin: "always ?P (bind_res (tc_wr classes classes_update h cl (\<lambda>r. r\<lparr>time_cnt := wrap64 (time_cnt r + 1)\<rparr>) st1) (\<lambda>st.
      bind_res (upd_tc h (\<lambda>t. t\<lparr>tc_size := sub64 (tc_size t) sz\<rparr>) st) (\<lambda>st.
      bind_res (tc_rd lists h cl st) (\<lambda>l. bind_res (Pop (objs st) l) (\<lambda>(res, l).
      bind_res (tc_wr lists lists_update h cl (\<lambda>_. l) st) (\<lambda>st.
      bind_res (upd_tc h (\<lambda>t. t\<lparr>memory_cost := wrap64 (memory_cost t + tc_size t)\<rparr>) st) (\<lambda>st. Inr (res, st))))))))"
    if st1: "tkeep os owned (with_list h cl ys L) U (user_words U) m st1" for ys and st1 :: "('o, 'z) tc_state_scheme"
  proof (rule always_bind [OF tc_wr_tkeep [OF _ st1]], simp, rule always_bind [OF upd_tc_tkeep], simp, assumption, rule pop_objects [OF _ cl], assumption)
    fix x xs and st2 :: "('o, 'z) tc_state_scheme"
    assume x: "x \<notin> user_words U" and st2: "tkeep os owned (with_list h cl xs (with_list h cl ys L)) (U(cl := insert x (U cl))) (user_words U) m st2"
    have st2': "tkeep os owned (with_list h cl xs L) (U(cl := insert x (U cl))) (user_words U) m st2" using st2 by simp
    show "always ?P (bind_res (upd_tc h (\<lambda>t. t\<lparr>memory_cost := wrap64 (memory_cost t + tc_size t)\<rparr>) st2) (\<lambda>st. Inr (x, st)))"
      by (rule always_bind [OF upd_tc_tkeep [OF _ st2']]) (use x in auto)
  qed
  have fill: "always (\<lambda>st'. \<exists>ys. tkeep os owned (with_list h cl ys L) U (user_words U) m st') (if fl_empty (lists t ! cl) then refill os h sz cl st1 else Inr st1)"
    if st1: "tkeep os owned L U (user_words U) m st1" for st1 :: "('o, 'z) tc_state_scheme"
  proof (cases "L h cl = []")
    case True
    then show ?thesis using refill_objects [OF st1 cl True] emp by simp
  next
    case False
    have "\<exists>ys. tkeep os owned (with_list h cl ys L) U (user_words U) m st1" using st1 by (intro exI [of _ "L h cl"]) simp
    then show ?thesis using False emp by simp
  qed
  show ?thesis
    unfolding Allocate_def rd bind_res.simps Let_def
    by (rule always_skip, rule always_bind [OF tc_wr_tkeep [OF _ kp]], simp, rule always_bind [OF tc_wr_tkeep], simp, assumption,
      rule always_skip, rule always_skip, rule always_bind [OF tc_wr_tkeep], simp, assumption, rule always_bind [OF fill], assumption, elim exE, rule fin)
qed

lemma out_nonzero:
  assumes "central_state os owned X st" "x \<in> X cl" "cl < 88"
  shows "x \<noteq> 0"
proof -
  obtain F C S where ci: "cinv os owned F C S X st" using assms(1) by (auto simp: central_state_def)
  obtain a s where a: "in_use (sdata (spans st)) a = Some s" "sizeclass s = cl" "cl \<noteq> 0" "x \<in> objs_of (sizemap st) s" by (rule out_object [OF ci assms(2,3)]) blast
  then show ?thesis using object_nonzero [OF ci a(1) _ a(4)] by simp
qed

lemma push_objects:
  fixes st :: "('o, 'z) tc_state_scheme"
  assumes kp: "tkeep os owned L U (user_words U) m st" and cl: "0 < cl" "cl < 88" and x: "x \<in> U cl" and room: "length (L h cl) < 2 ^ 31 - 1"
    and k: "\<And>l st'. fl_length l = Suc (length (L h cl)) \<Longrightarrow> tkeep os owned (with_list h cl (x # L h cl) L) (U(cl := U cl - {x})) (user_words (U(cl := U cl - {x}))) m st' \<Longrightarrow> always P (k l st')"
  shows "always P (bind_res (tc_rd lists h cl st) (\<lambda>l. bind_res (Push x (objs st) l) (\<lambda>(l, m). bind_res (tc_wr lists lists_update h cl (\<lambda>_. l) (st\<lparr>objs := m\<rparr>)) (k l))))"
proof (cases "caches st h")
  case None
  then show ?thesis by (simp add: tc_rd_def get_tc_def)
next
  case (Some t)
  have inv: "tinv os owned L U st" and m: "\<forall>y\<in>user_words U. objs st y = m y" using kp by (simp_all add: tkeep_def)
  note T = tinvD [OF inv]
  note LH = lists_holdD [OF T(3) Some]
  note l = LH(2) [OF cl(2)]
  let ?U = "U(cl := U cl - {x})" let ?L = "with_list h cl (x # L h cl) L"
  have xX: "x \<in> out L U cl" using x by (simp add: out_def)
  have xu: "x \<in> user_words U" using x cl(2) by (auto simp: user_words_def)
  have nl: "x \<notin> set (L g j)" for g j using user_not_listed [OF inv xu] by blast
  have nz: "x \<noteq> 0" by (rule out_nonzero [OF T(1) xX cl(2)])
  obtain l' where P: "Push x (objs st) (lists t ! cl) = Inr (l', (objs st)(x := list (lists t ! cl)))" "fl_holds ((objs st)(x := list (lists t ! cl))) l' (x # L h cl)"
    using Push_holds [OF l nz nl room] by blast
  define m' where "m' = (objs st)(x := list (lists t ! cl))"
  let ?t = "t\<lparr>lists := (lists t)[cl := l']\<rparr>"
  let ?st = "st\<lparr>objs := m', caches := (caches st)(h \<mapsto> ?t)\<rparr>"
  have X: "out ?L ?U = out L U"
  proof
    fix j
    show "out ?L ?U j = out L U j" using x by (auto simp: out_def with_list_apply split: if_splits)
  qed
  have c: "central_state os owned (out L U) (st\<lparr>objs := m'\<rparr>)" by (rule central_state_write [OF T(1) cl(2)]) (use xX m'_def in blast)
  have ap: "apart ?L ?U"
  proof (rule apartI)
    show "y \<notin> ?U j" if "y \<in> set (?L g j)" for y g j
      using that apartD(1) [OF T(2)] nl by (auto simp: with_list_apply split: if_splits)
    show "f = g" if "y \<in> set (?L f j)" "y \<in> set (?L g j)" for y f g j
      using that apartD(2) [OF T(2)] nl by (auto simp: with_list_apply split: if_splits)
  qed
  have "tinv os owned ?L ?U ?st"
    by (rule tinv_set_list [OF inv Some cl(2), where t' = ?t and l = l']) (use P(2) nl X ap c m'_def in auto)
  moreover have "x \<notin> user_words ?U"
    using user_not_other [OF inv xX cl(2)] by (auto simp: user_words_def split: if_splits)
  moreover have "user_words ?U \<subseteq> user_words U" by (auto simp: user_words_def split: if_splits)
  ultimately have "tkeep os owned ?L ?U (user_words ?U) m ?st" using m by (auto simp: tkeep_def m'_def)
  moreover have "fl_length l' = Suc (length (L h cl))" using P(2) by (simp add: fl_holds_def)
  ultimately show ?thesis
    using k P(1) tc_wr_lists [of t cl "st\<lparr>objs := m'\<rparr>" h l'] LH(1) cl(2) Some by (simp add: tc_rd_lists [OF T(3) cl(2) Some] m'_def)
qed

lemma Deallocate_objects:
  fixes st :: "('o, 'z) tc_state_scheme"
  assumes kp: "tkeep os owned L U (user_words U) m st" and cl: "0 < cl" "cl < 88" and x: "x \<in> U cl" and room: "length (L h cl) < 2 ^ 31 - 1"
  shows "always (\<lambda>st'. \<exists>xs. tkeep os owned (with_list h cl xs L) (U(cl := U cl - {x})) (user_words (U(cl := U cl - {x}))) m st') (Deallocate os h x cl st)"
    (is "always ?P _")
proof -
  let ?U = "U(cl := U cl - {x})"
  have rel: "always ?P (bind_res (tc_rd last_reserved h cl st1) (\<lambda>e. if fl_length l > nat ((e * 2 + 1) mod 2 ^ 64) then
      bind_res (ReleaseToCentralCache os h cl (if e > 0 then to_int32 (int (fl_length l) - e) else to_int32 (int (fl_length l div 2))) st1) (\<lambda>st.
      bind_res (tc_wr return_syncs return_syncs_update h cl inc32 st) (\<lambda>st. tc_wr total_synchronized total_synchronized_update h cl inc32 st)) else Inr st1))"
    if st1: "tkeep os owned (with_list h cl (x # L h cl) L) ?U (user_words ?U) m st1" for l and st1 :: "('o, 'z) tc_state_scheme"
  proof (rule always_skip, rule always_if)
    fix e
    have N: "- (2 ^ 31) \<le> (if e > 0 then to_int32 (int (fl_length l) - e) else to_int32 (int (fl_length l div 2)))"
        "(if e > 0 then to_int32 (int (fl_length l) - e) else to_int32 (int (fl_length l div 2))) < 2 ^ 31"
      using to_int32_range by (auto split: if_splits)
    show "always ?P (bind_res (ReleaseToCentralCache os h cl (if e > 0 then to_int32 (int (fl_length l) - e) else to_int32 (int (fl_length l div 2))) st1) (\<lambda>st.
      bind_res (tc_wr return_syncs return_syncs_update h cl inc32 st) (\<lambda>st. tc_wr total_synchronized total_synchronized_update h cl inc32 st)))"
    proof (rule always_bind [OF Release_objects [OF st1 cl N]], elim exE)
      fix ys and st2 :: "('o, 'z) tc_state_scheme"
      assume "tkeep os owned (with_list h cl ys (with_list h cl (x # L h cl) L)) ?U (user_words ?U) m st2"
      then have st2: "tkeep os owned (with_list h cl ys L) ?U (user_words ?U) m st2" by simp
      show "always ?P (bind_res (tc_wr return_syncs return_syncs_update h cl inc32 st2) (\<lambda>st. tc_wr total_synchronized total_synchronized_update h cl inc32 st))"
        by (rule always_bind [OF tc_wr_tkeep [OF _ st2]], simp, rule always_mono [OF tc_wr_tkeep], simp, assumption, blast)
    qed
  qed (use st1 in auto)
  have stat: "always ?P (bind_res (tc_wr current_deaths current_deaths_update h cl inc32 st1) (\<lambda>st. bind_res (tc_rd classes h cl st) (\<lambda>r.
      bind_res (if bursty_in_progress r then bind_res (wr (circle_buffer r) (cb_next r) (to_int32 (int (time_cnt r)))) (\<lambda>cb.
          tc_wr classes classes_update h cl (\<lambda>r. r\<lparr>circle_buffer := cb, cb_next := c_rem (cb_next r + 1) TRACE_LENGTH\<rparr>) st) else Inr st) (\<lambda>st.
      bind_res (tc_rd last_reserved h cl st) (\<lambda>e. if fl_length l > nat ((e * 2 + 1) mod 2 ^ 64) then
      bind_res (ReleaseToCentralCache os h cl (if e > 0 then to_int32 (int (fl_length l) - e) else to_int32 (int (fl_length l div 2))) st) (\<lambda>st.
      bind_res (tc_wr return_syncs return_syncs_update h cl inc32 st) (\<lambda>st. tc_wr total_synchronized total_synchronized_update h cl inc32 st)) else Inr st)))))"
    if st1: "tkeep os owned (with_list h cl (x # L h cl) L) ?U (user_words ?U) m st1" for l and st1 :: "('o, 'z) tc_state_scheme"
    by (rule always_bind [OF tc_wr_tkeep [OF _ st1]], simp, rule always_skip, rule always_bind_if, rule always_bind_assoc, rule always_skip,
      rule always_bind [OF tc_wr_tkeep], simp, assumption, erule rel, rule always_bind_Inr, erule rel)
  show ?thesis
    unfolding Deallocate_def
    by (rule always_skip, rule always_bind [OF upd_tc_tkeep [OF _ kp]], simp, rule push_objects [where L = L and U = U and h = h, OF _ cl x room], assumption, erule stat)
qed

lemma write_objects:
  assumes inv: "tinv os owned L U st" and x: "x \<in> U cl" "cl < 88"
  shows "tinv os owned L U (st\<lparr>objs := (objs st)(x := v)\<rparr>)"
proof -
  note T = tinvD [OF inv]
  have xu: "x \<in> user_words U" using x by (auto simp: user_words_def)
  have "lists_hold ((objs st)(x := v)) (caches st) L"
    unfolding lists_hold_def
  proof
    fix h
    show "case caches st h of None \<Rightarrow> \<forall>k. L h k = []
      | Some t \<Rightarrow> length (lists t) = 88 \<and> (\<forall>k<88. fl_holds ((objs st)(x := v)) (lists t ! k) (L h k)) \<and> (\<forall>k\<ge>88. L h k = [])"
    proof (cases "caches st h")
      case None
      then show ?thesis using lists_hold_None [OF T(3) None] by simp
    next
      case (Some t)
      note LH = lists_holdD [OF T(3) Some]
      have "fl_holds ((objs st)(x := v)) (lists t ! k) (L h k)" if "k < 88" for k
        by (rule fl_holds_mem [OF LH(2) [OF that]]) (use user_not_listed [OF inv xu, of h k] in auto)
      then show ?thesis using Some LH(1,3) by simp
    qed
  qed
  moreover have "x \<in> out L U cl" using x(1) by (simp add: out_def)
  ultimately show ?thesis using T central_state_write [OF T(1) x(2), of "(objs st)(x := v)"] by (auto simp: tinv_def)
qed

text \<open>
  A call that finds the list not empty, while no trace is being collected, returns the first object of the list.
\<close>

definition full_arrays :: "ThreadCache \<Rightarrow> bool" where
  "full_arrays t \<longleftrightarrow> length (classes t) = 88 \<and> length (total_gap t) = 88 \<and> length (current_deaths t) = 88 \<and> length (lists t) = 88"

lemma Allocate_hit:
  fixes st :: "('o, 'z) tc_state_scheme"
  assumes t: "caches st h = Some t" "full_arrays t" "cl < 88" and l: "fl_holds (objs st) (lists t ! cl) (x # xs)" and r: "\<not> bursty_in_progress (classes t ! cl)"
  shows "returns (\<lambda>(p, st'). p = x \<and> objs st' = objs st) (Allocate os h sz cl st)"
proof -
  obtain l' where P: "Pop (objs st) (lists t ! cl) = Inr (x, l')" using Pop_holds [OF l] by blast
  have e: "\<not> fl_empty (lists t ! cl)" using fl_empty_holds [OF l] by simp
  have "\<exists>r'. trace_alloc (classes t ! cl) = Inr r'" using r by (simp add: trace_alloc_def Let_def)
  then obtain r' where r': "trace_alloc (classes t ! cl) = Inr r'" by blast
  show ?thesis
    using t e r' P by (simp add: Allocate_def tc_rd_def tc_wr_def get_tc_def upd_tc_def Let_def full_arrays_def)
qed

section \<open>Caches of objects\<close>

text \<open>
  The contract of the thread caches with the program.  \<open>U cl\<close> are the objects of class \<open>cl\<close> that the program has; it may write to the
  first word of an object while it has it, and give back an object to any cache whose list does not overflow.
\<close>

inductive cache_ops ::
  "(addr \<Rightarrow> nat \<Rightarrow> nat \<Rightarrow> 's \<Rightarrow> (addr \<times> 's) res) \<Rightarrow> (addr \<Rightarrow> addr \<Rightarrow> nat \<Rightarrow> 's \<Rightarrow> 's res) \<Rightarrow> (addr \<Rightarrow> nat \<Rightarrow> 's \<Rightarrow> bool) \<Rightarrow> ((mem \<Rightarrow> mem) \<Rightarrow> 's \<Rightarrow> 's) \<Rightarrow>
   (nat \<Rightarrow> addr set) \<Rightarrow> 's \<Rightarrow> (nat \<Rightarrow> addr set) \<Rightarrow> 's \<Rightarrow> bool"
  for alloc dealloc fits upd_words U0 s0 where
  ops_start: "cache_ops alloc dealloc fits upd_words U0 s0 U0 s0"
| ops_alloc: "cache_ops alloc dealloc fits upd_words U0 s0 U s \<Longrightarrow> 0 < cl \<Longrightarrow> cl < 88 \<Longrightarrow> alloc h sz cl s = Inr (p, s') \<Longrightarrow>
    cache_ops alloc dealloc fits upd_words U0 s0 (U(cl := insert p (U cl))) s'"
| ops_dealloc: "cache_ops alloc dealloc fits upd_words U0 s0 U s \<Longrightarrow> 0 < cl \<Longrightarrow> cl < 88 \<Longrightarrow> x \<in> U cl \<Longrightarrow> fits h cl s \<Longrightarrow> dealloc h x cl s = Inr s' \<Longrightarrow>
    cache_ops alloc dealloc fits upd_words U0 s0 (U(cl := U cl - {x})) s'"
| ops_write: "cache_ops alloc dealloc fits upd_words U0 s0 U s \<Longrightarrow> cl < 88 \<Longrightarrow> x \<in> U cl \<Longrightarrow>
    cache_ops alloc dealloc fits upd_words U0 s0 U (upd_words (\<lambda>m. m(x := v)) s)"

locale object_cache =
  fixes I :: "(nat \<Rightarrow> addr set) \<Rightarrow> 's \<Rightarrow> bool"
    and words :: "'s \<Rightarrow> mem" and upd_words :: "(mem \<Rightarrow> mem) \<Rightarrow> 's \<Rightarrow> 's"
    and alloc :: "addr \<Rightarrow> nat \<Rightarrow> nat \<Rightarrow> 's \<Rightarrow> (addr \<times> 's) res"
    and dealloc :: "addr \<Rightarrow> addr \<Rightarrow> nat \<Rightarrow> 's \<Rightarrow> 's res" and fits :: "addr \<Rightarrow> nat \<Rightarrow> 's \<Rightarrow> bool"
  assumes alloc_law: "I U s \<Longrightarrow> 0 < cl \<Longrightarrow> cl < 88 \<Longrightarrow>
      always (\<lambda>(p, s'). p \<notin> user_words U \<and> I (U(cl := insert p (U cl))) s' \<and> (\<forall>y\<in>user_words U. words s' y = words s y)) (alloc h sz cl s)"
    and dealloc_law: "I U s \<Longrightarrow> 0 < cl \<Longrightarrow> cl < 88 \<Longrightarrow> x \<in> U cl \<Longrightarrow> fits h cl s \<Longrightarrow>
      always (\<lambda>s'. I (U(cl := U cl - {x})) s' \<and> (\<forall>y\<in>user_words (U(cl := U cl - {x})). words s' y = words s y)) (dealloc h x cl s)"
    and write_law: "I U s \<Longrightarrow> cl < 88 \<Longrightarrow> x \<in> U cl \<Longrightarrow> I U (upd_words (\<lambda>m. m(x := v)) s)"
begin

lemma ops_inv: "cache_ops alloc dealloc fits upd_words U0 s0 U s \<Longrightarrow> I U0 s0 \<Longrightarrow> I U s"
proof (induction rule: cache_ops.induct)
  case (ops_alloc U s cl h sz p s')
  have "I (U(cl := insert p (U cl))) s'"
    using alloc_law [OF ops_alloc.IH [OF ops_alloc.prems] ops_alloc.hyps(2,3), of h sz] ops_alloc.hyps(4) by simp
  then show ?case .
next
  case (ops_dealloc U s cl x h s')
  have "I (U(cl := U cl - {x})) s'"
    using dealloc_law [OF ops_dealloc.IH [OF ops_dealloc.prems] ops_dealloc.hyps(2-5)] ops_dealloc.hyps(6) by simp
  then show ?case .
qed (simp_all add: write_law)

lemma ops_alloc_fresh:
  assumes "cache_ops alloc dealloc fits upd_words U0 s0 U s" "I U0 s0" "0 < cl" "cl < 88"
  shows "always (\<lambda>(p, s'). p \<notin> user_words U \<and> I (U(cl := insert p (U cl))) s' \<and> (\<forall>y\<in>user_words U. words s' y = words s y)) (alloc h sz cl s)"
  by (rule alloc_law [OF ops_inv [OF assms(1,2)] assms(3,4)])

end

definition cache_state :: "'o os \<Rightarrow> ('o \<Rightarrow> addr set) \<Rightarrow> (nat \<Rightarrow> addr set) \<Rightarrow> ('o, 'z) tc_state_scheme \<Rightarrow> bool" where
  "cache_state os owned U st \<longleftrightarrow> (\<exists>L. tinv os owned L U st)"

definition list_fits :: "addr \<Rightarrow> nat \<Rightarrow> ('o, 'z) tc_state_scheme \<Rightarrow> bool" where
  "list_fits h cl st = (case tc_rd lists h cl st of Inl _ \<Rightarrow> True | Inr l \<Rightarrow> fl_length l < 2 ^ 31 - 1)"

lemma list_fits_length:
  assumes "tinv os owned L U st" "list_fits h cl st" "cl < 88"
  shows "length (L h cl) < 2 ^ 31 - 1"
proof (cases "caches st h")
  case None
  then show ?thesis using lists_hold_None [OF tinvD(3) [OF assms(1)] None, of cl] by simp
next
  case (Some t)
  have "fl_length (lists t ! cl) = length (L h cl)" using lists_holdD(2) [OF tinvD(3) [OF assms(1)] Some assms(3)] by (simp add: fl_holds_def)
  then show ?thesis using assms(2) tc_rd_lists [OF tinvD(3) [OF assms(1)] assms(3) Some] by (simp add: list_fits_def)
qed

interpretation thread: object_cache "cache_state os owned" objs objs_update "Allocate os" "Deallocate os" list_fits for os owned
proof
  fix U sz h and cl :: nat and st :: "('a, 'b) tc_state_scheme"
  assume a: "cache_state os owned U st" "0 < cl" "cl < 88"
  then obtain L where "tinv os owned L U st" by (auto simp: cache_state_def)
  then have "tkeep os owned L U (user_words U) (objs st) st" by (simp add: tkeep_def)
  from Allocate_objects [OF this a(2,3), of h sz]
  show "always (\<lambda>(p, s'). p \<notin> user_words U \<and> cache_state os owned (U(cl := insert p (U cl))) s' \<and> (\<forall>y\<in>user_words U. objs s' y = objs st y)) (Allocate os h sz cl st)"
    by (rule always_mono) (auto simp: tkeep_def cache_state_def)
next
  fix U x h and cl :: nat and st :: "('a, 'b) tc_state_scheme"
  assume a: "cache_state os owned U st" "0 < cl" "cl < 88" "x \<in> U cl" "list_fits h cl st"
  then obtain L where L: "tinv os owned L U st" by (auto simp: cache_state_def)
  then have "tkeep os owned L U (user_words U) (objs st) st" by (simp add: tkeep_def)
  from Deallocate_objects [where U = U and L = L and h = h, OF this a(2-4) list_fits_length [OF L a(5,3)]]
  show "always (\<lambda>s'. cache_state os owned (U(cl := U cl - {x})) s' \<and> (\<forall>y\<in>user_words (U(cl := U cl - {x})). objs s' y = objs st y)) (Deallocate os h x cl st)"
    by (rule always_mono) (auto simp: tkeep_def cache_state_def)
next
  fix U x v and cl :: nat and st :: "('a, 'b) tc_state_scheme"
  assume a: "cache_state os owned U st" "cl < 88" "x \<in> U cl"
  then obtain L where L: "tinv os owned L U st" by (auto simp: cache_state_def)
  have "objs_update (\<lambda>m. m(x := v)) st = st\<lparr>objs := (objs st)(x := v)\<rparr>" by simp
  then show "cache_state os owned U (objs_update (\<lambda>m. m(x := v)) st)" using write_objects [OF L a(3,2)] unfolding cache_state_def by metis
qed

section \<open>A state\<close>

text \<open>One thread cache with empty lists, at address 400000; the program has the only object of the central lists.\<close>

definition held_thread :: "nat tc_state" where
  "held_thread = (thread_statics held_central)\<lparr>caches := [400000 \<mapsto> blank_cache]\<rparr>"

lemma held_thread_sel [simp]:
  "sizemap held_thread = real_sizes" "objs held_thread = (\<lambda>_. 0)" "caches held_thread = [400000 \<mapsto> blank_cache]" "os_st held_thread = os_st held_central"
  by (simp_all add: held_thread_def thread_statics_def central.defs held_central_def heap.defs)

lemma held_thread_central: "central_state brk_os brk_owned held_X held_thread"
proof -
  have "cinv brk_os brk_owned held_F (\<lambda>_. []) (\<lambda>_. []) held_X held_thread"
    using held_cinv unfolding held_thread_def thread_statics_def central.defs
    by (simp add: cinv_def hinv_def hcore_def hgen_def hgen0_def mem_ok_def pha_inv_def meta_inv_def chunk_def sys_inv_def)
  then show ?thesis by (auto simp: central_state_def)
qed

lemma held_thread_state: "cache_state brk_os brk_owned held_X held_thread"
proof -
  have "out (\<lambda>_ _. []) held_X = held_X" by (simp add: out_def fun_eq_iff)
  moreover have "apart (\<lambda>_ _. []) held_X" by (simp add: apart_def)
  moreover have "lists_hold (\<lambda>_. 0) [400000 \<mapsto> blank_cache] (\<lambda>_ _. [])"
    by (simp add: lists_hold_def blank_cache_def Let_def fl_holds_def kNumClasses_def)
  ultimately have "tinv brk_os brk_owned (\<lambda>_ _. []) held_X held_thread" using held_thread_central by (simp add: tinv_def)
  then show ?thesis by (auto simp: cache_state_def)
qed

text \<open>The same when the program has given the object back to the cache.\<close>

definition cached_cache :: ThreadCache where
  "cached_cache = blank_cache\<lparr>classes := replicate 88 (reuse_init\<lparr>bursty_in_progress := False\<rparr>),
     lists := (lists blank_cache)[65 := \<lparr> list = 8192, fl_length = 1, lowater = 0, max_length = 0, length_overages = 0 \<rparr>]\<rparr>"

definition cached_thread :: "nat tc_state" where
  "cached_thread = (thread_statics held_central)\<lparr>caches := [400000 \<mapsto> cached_cache]\<rparr>"

lemma cached_cache_facts:
  "full_arrays cached_cache" "list (lists cached_cache ! 65) = 8192" "\<not> fl_empty (lists cached_cache ! 65)" "\<not> bursty_in_progress (classes cached_cache ! 65)"
  "caches cached_thread = [400000 \<mapsto> cached_cache]" "objs cached_thread = (\<lambda>_. 0)"
  by (simp_all add: cached_cache_def blank_cache_def Let_def full_arrays_def kNumClasses_def fl_empty_def cached_thread_def thread_statics_def central.defs)

lemma cached_thread_state: "cache_state brk_os brk_owned (\<lambda>_. {}) cached_thread"
proof -
  define L :: cached where "L = with_list 400000 65 [8192] (\<lambda>_ _. [])"
  have e: "cached_thread = held_thread\<lparr>caches := [400000 \<mapsto> cached_cache]\<rparr>" by (simp add: cached_thread_def held_thread_def)
  have "out L (\<lambda>_. {}) = held_X" by (auto simp: out_def L_def with_list_apply held_X_def fun_eq_iff)
  moreover have "apart L (\<lambda>_. {})" by (auto simp: apart_def L_def with_list_apply)
  moreover have "lists_hold (\<lambda>_. 0) [400000 \<mapsto> cached_cache] L"
    by (auto simp: lists_hold_def cached_cache_def blank_cache_def Let_def fl_holds_def kNumClasses_def L_def with_list_apply nth_list_update)
  ultimately have "tinv brk_os brk_owned L (\<lambda>_. {}) cached_thread" using held_thread_central cached_cache_facts(5,6) by (simp add: tinv_def e)
  then show ?thesis by (auto simp: cache_state_def)
qed

section \<open>Properties\<close>

text \<open>
  C23: whatever sequence of \<open>Allocate\<close> and \<open>Deallocate\<close> on the thread caches, with the fetches from and releases to the central lists they lead to,
  and of writes to its own objects the program makes, every object it has lies with all its bytes in memory obtained from the system, its page leads to a span of its
  size class, and the bytes of different objects do not overlap.
\<close>

theorem thread_objects_safe:
  fixes st :: "('o, 'z) tc_state_scheme"
  assumes "cache_ops (Allocate os) (Deallocate os) list_fits objs_update U0 st0 U st" "cache_state os owned U0 st0"
  shows "(\<forall>cl<88. \<forall>x\<in>U cl. object_bytes (sizemap st) cl x \<subseteq> owned (os_st st) \<and>
            (\<exists>a s. MapObjectToSpan x st = Inr (Obj a) \<and> get_span (Obj a) st = Inr s \<and> sizeclass s = cl)) \<and>
    (\<forall>cl<88. \<forall>k<88. \<forall>x\<in>U cl. \<forall>y\<in>U k. x \<noteq> y \<or> cl \<noteq> k \<longrightarrow> object_bytes (sizemap st) cl x \<inter> object_bytes (sizemap st) k y = {})"
proof -
  obtain L where L: "tinv os owned L U st" using thread.ops_inv [OF assms] by (auto simp: cache_state_def)
  obtain F C T where inv: "cinv os owned F C T (out L U) st" using tinvD(1) [OF L] by (auto simp: central_state_def)
  have o: "x \<in> out L U cl" if "x \<in> U cl" for x cl using that by (simp add: out_def)
  have "object_bytes (sizemap st) cl x \<inter> object_bytes (sizemap st) k y = {}" if "cl < 88" "k < 88" "x \<in> U cl" "y \<in> U k" "x \<noteq> y \<or> cl \<noteq> k" for cl k x y
  proof -
    have "x \<noteq> y" using user_not_other [OF L o [OF that(3)] that(1) _ that(2)] that(4,5) by blast
    then show ?thesis by (rule out_bytes_disjoint [OF inv o [OF that(3)] that(1) o [OF that(4)] that(2)])
  qed
  then show ?thesis using out_bytes [OF inv o] by blast
qed

theorem thread_objects_safe_witness:
  "object_bytes real_sizes 65 8192 \<subseteq> brk_owned (os_st held_thread) \<and>
   (\<exists>a s. MapObjectToSpan 8192 (objs_update (\<lambda>m. m(8192 := 7)) held_thread) = Inr (Obj a) \<and> get_span (Obj a) (objs_update (\<lambda>m. m(8192 := 7)) held_thread) = Inr s \<and> sizeclass s = 65)"
proof -
  have "cache_ops (Allocate brk_os) (Deallocate brk_os) list_fits objs_update held_X held_thread held_X (objs_update (\<lambda>m. m(8192 := 7)) held_thread)"
    by (rule ops_write [OF ops_start, of 65]) (simp_all add: held_X_def)
  from thread_objects_safe [OF this held_thread_state, THEN conjunct1, rule_format, of 65 8192] show ?thesis by (simp add: held_X_def)
qed

text \<open>
  C24: after any such sequence of operations, an object that \<open>Allocate\<close> returns is one the program did not have (no object is handed out twice), it is not
  \<open>NULL\<close>, and no object that the program has was written in the call; when the list of the class is not empty and no trace is being collected the call does return,
  with the first object of the list.  \<open>Deallocate\<close> writes to no object that the program keeps.
\<close>

theorem thread_objects_fresh:
  fixes st :: "('o, 'z) tc_state_scheme"
  assumes "cache_ops (Allocate os) (Deallocate os) list_fits objs_update U0 st0 U st" "cache_state os owned U0 st0" "0 < cl" "cl < 88"
  shows "always (\<lambda>(p, st'). p \<noteq> 0 \<and> (\<forall>k<88. p \<notin> U k \<and> (\<forall>y\<in>U k. objs st' y = objs st y))) (Allocate os h sz cl st) \<and>
    (\<forall>t. caches st h = Some t \<and> full_arrays t \<and> \<not> fl_empty (lists t ! cl) \<and> \<not> bursty_in_progress (classes t ! cl) \<longrightarrow>
       returns (\<lambda>(p, st'). p = list (lists t ! cl)) (Allocate os h sz cl st)) \<and>
    (x \<in> U cl \<and> list_fits g cl st \<longrightarrow> always (\<lambda>st'. \<forall>k<88. \<forall>y\<in>U k. y \<noteq> x \<longrightarrow> objs st' y = objs st y) (Deallocate os g x cl st))"
proof (intro conjI allI impI)
  have *: "p \<noteq> 0" if c: "cache_state os owned (U(cl := insert p (U cl))) st'" for p and st' :: "('o, 'z) tc_state_scheme"
  proof -
    obtain L where L: "tinv os owned L (U(cl := insert p (U cl))) st'" using c by (auto simp: cache_state_def)
    show ?thesis by (rule out_nonzero [OF tinvD(1) [OF L] _ assms(4)]) (simp add: out_def)
  qed
  show "always (\<lambda>(p, st'). p \<noteq> 0 \<and> (\<forall>k<88. p \<notin> U k \<and> (\<forall>y\<in>U k. objs st' y = objs st y))) (Allocate os h sz cl st)"
    by (rule always_mono [OF thread.ops_alloc_fresh [OF assms]]) (use * in \<open>auto simp: user_words_def\<close>)
next
  fix t assume t: "caches st h = Some t \<and> full_arrays t \<and> \<not> fl_empty (lists t ! cl) \<and> \<not> bursty_in_progress (classes t ! cl)"
  obtain L where L: "tinv os owned L U st" using thread.ops_inv [OF assms(1,2)] by (auto simp: cache_state_def)
  have l: "fl_holds (objs st) (lists t ! cl) (L h cl)" using lists_holdD(2) [OF tinvD(3) [OF L] _ assms(4)] t by blast
  then obtain y ys where y: "L h cl = y # ys" using fl_empty_holds [OF l] t by (cases "L h cl") auto
  have "list (lists t ! cl) = y" using l y by (simp add: fl_holds_def)
  then show "returns (\<lambda>(p, st'). p = list (lists t ! cl)) (Allocate os h sz cl st)"
    using Allocate_hit [of st h t cl y ys os sz] t assms(4) l y by (auto elim!: returns_mono)
next
  assume x: "x \<in> U cl \<and> list_fits g cl st"
  show "always (\<lambda>st'. \<forall>k<88. \<forall>y\<in>U k. y \<noteq> x \<longrightarrow> objs st' y = objs st y) (Deallocate os g x cl st)"
    by (rule always_mono [OF thread.dealloc_law [OF thread.ops_inv [OF assms(1,2)] assms(3,4), of x g]]) (use x in \<open>auto simp: user_words_def\<close>)
qed

theorem thread_objects_fresh_witness:
  "(\<exists>st'. Allocate brk_os 400000 81920 65 cached_thread = Inr (8192, st')) \<and>
   always (\<lambda>(p, st'). p \<noteq> 0 \<and> p \<noteq> 8192 \<and> objs st' 8192 = 0) (Allocate brk_os 400000 81920 65 held_thread)"
proof
  have "returns (\<lambda>(p, st'). p = list (lists cached_cache ! 65)) (Allocate brk_os 400000 81920 65 cached_thread)"
    using thread_objects_fresh [OF ops_start cached_thread_state, of 65 400000 81920 0 0, THEN conjunct2, THEN conjunct1] cached_cache_facts by simp
  then show "\<exists>st'. Allocate brk_os 400000 81920 65 cached_thread = Inr (8192, st')" using cached_cache_facts by (auto simp: returns_def split: sum.splits)
  show "always (\<lambda>(p, st'). p \<noteq> 0 \<and> p \<noteq> 8192 \<and> objs st' 8192 = 0) (Allocate brk_os 400000 81920 65 held_thread)"
    using thread_objects_fresh [OF ops_start held_thread_state, of 65 400000 81920 0 0, THEN conjunct1]
    by (rule always_mono) (auto simp: held_X_def dest!: spec [of _ 65])
qed

end
