(* ===== verification/Tcmalloc.thy ===== *)
theory Tcmalloc
  imports Thread_Cache
begin

text \<open>
  The allocation functions (\<open>tcmalloc.cc\<close>): \<open>malloc\<close>, \<open>free\<close>, \<open>calloc\<close>, \<open>realloc\<close>, \<open>memalign\<close> and their
  relatives, the operators \<open>new\<close> and \<open>delete\<close>, and the extension interface with its statistics.

  The record \<open>malloc_state\<close> extends the state of the thread caches by the static variables of the file, by
  \<open>errno\<close> of every thread, by the installed \<open>std::new_handler\<close> (the address of a function, 0 for none) and by
  the bytes of the blocks that the application holds.  The bytes are kept apart from \<open>objs\<close>, the links that
  run through free objects.  A new handler is code of the application: the argument \<open>hs\<close> maps the address of
  such a function to what a call does to the state and to the exception it may throw.  As before \<open>os\<close> is the
  operating system, \<open>env\<close> the environment and \<open>me\<close> the calling thread.

  Functions that may throw return \<open>Inl\<close> of the exception; an exception that leaves a function declared
  \<open>__THROW\<close> ends the process.  The hooks of the library are not compiled in, and \<open>mem_efficiency_stats\<close>
  returns at once.
\<close>

section \<open>State\<close>

datatype exn = bad_alloc | other_exception nat

record 'o malloc_state = "'o tc_state" +
  tc_new_mode :: int
  errno :: "nat \<Rightarrow> int"
  large_alloc_threshold :: int
  extra_bytes_released :: nat
  valloc_pagesize :: nat
  new_handler :: addr
  tcmallocguard_refcount :: int
  extension :: addr
  data :: "addr \<Rightarrow> nat"

type_synonym ('o, 'z) handlers = "addr \<Rightarrow> ('o, 'z) malloc_state_scheme \<Rightarrow> (exn option \<times> ('o, 'z) malloc_state_scheme) res"

definition ENOMEM :: int where "ENOMEM = 12"
definition EINVAL :: int where "EINVAL = 22"

definition set_errno :: "nat \<Rightarrow> int \<Rightarrow> ('o, 'z) malloc_state_scheme \<Rightarrow> ('o, 'z) malloc_state_scheme" where
  "set_errno me e st = st\<lparr>errno := (errno st)(me := e)\<rparr>"

definition memset0 :: "addr \<Rightarrow> nat \<Rightarrow> ('o, 'z) malloc_state_scheme \<Rightarrow> ('o, 'z) malloc_state_scheme" where
  "memset0 p n st = st\<lparr>data := (\<lambda>a. if p \<le> a \<and> a < p + n then 0 else data st a)\<rparr>"

definition memcpy :: "addr \<Rightarrow> addr \<Rightarrow> nat \<Rightarrow> ('o, 'z) malloc_state_scheme \<Rightarrow> ('o, 'z) malloc_state_scheme" where
  "memcpy dest src n st = st\<lparr>data := (\<lambda>a. if dest \<le> a \<and> a < dest + n then data st (src + (a - dest)) else data st a)\<rparr>"

text \<open>The initial value of \<open>large_alloc_threshold\<close>; the comparison is one of \<open>size_t\<close>.\<close>

definition initial_threshold :: "int \<Rightarrow> int" where
  "initial_threshold flag = (if kPageSize > flag mod 2 ^ 64 then kPageSize else flag)"

text \<open>The static variables of the file when the program is loaded; the flag is the threshold for reports.\<close>

definition malloc_statics :: "int \<Rightarrow> 'o tc_state \<Rightarrow> 'o malloc_state" where
  "malloc_statics flag c = tc_state.extend c
     \<lparr> tc_new_mode = 0, errno = (\<lambda>_. 0), large_alloc_threshold = initial_threshold flag, extra_bytes_released = 0, valloc_pagesize = 0,
       new_handler = 0, tcmallocguard_refcount = 0, extension = 0, data = (\<lambda>_. 0) \<rparr>"

text \<open>\<open>Log(kCrash, ...)\<close> aborts.\<close>

definition InvalidFree :: "addr \<Rightarrow> ('o, 'z) malloc_state_scheme \<Rightarrow> ('o, 'z) malloc_state_scheme res" where
  "InvalidFree ptr st = Inl Abort"

definition InvalidGetSizeForRealloc :: "addr \<Rightarrow> nat res" where
  "InvalidGetSizeForRealloc old_ptr = Inl Abort"

definition InvalidGetAllocatedSize :: "addr \<Rightarrow> nat res" where
  "InvalidGetAllocatedSize ptr = Inl Abort"

section \<open>Statistics\<close>

record TCMallocStats =
  thread_bytes :: nat
  central_bytes :: nat
  transfer_bytes :: nat
  metadata_bytes :: nat
  stats_system :: nat
  stats_free :: nat
  stats_unmapped :: nat
  stats_committed :: nat

definition size64 :: "int \<Rightarrow> nat" where "size64 x = nat (x mod 2 ^ 64)"

text \<open>The loop over the size classes: bytes in the central lists, in the transfer caches, and the counts.\<close>

fun extract_classes :: "nat list \<Rightarrow> nat \<times> nat \<times> nat list \<Rightarrow> ('o, 'z) malloc_state_scheme \<Rightarrow> (nat \<times> nat \<times> nat list) res" where
  "extract_classes [] acc st = Inr acc"
| "extract_classes (cl # cls) (c, t, count) st =
     bind_res (CFL_length cl st) (\<lambda>len.
     bind_res (tc_length cl st) (\<lambda>tc_len.
     bind_res (OverheadBytes cl st) (\<lambda>cache_overhead.
     bind_res (ByteSizeForClass (sizemap st) (int cl)) (\<lambda>sz.
     extract_classes cls
       (size64 (int c + sz * len + int cache_overhead), size64 (int t + sz * tc_len), count @ [size64 (len + tc_len)]) st))))"

text \<open>
  The callers pass either all of \<open>class_count\<close>, \<open>small_spans\<close> and \<open>large_spans\<close> or none of them (\<open>details\<close>).
\<close>

definition ExtractStats ::
  "bool \<Rightarrow> ('o, 'z) malloc_state_scheme \<Rightarrow> (TCMallocStats \<times> (nat list \<times> (int \<times> int) list \<times> nat \<times> nat \<times> nat) option) res" where
  "ExtractStats details st =
     bind_res (extract_classes [0..<nat kNumClasses] (0, 0, []) st) (\<lambda>(c, t, count).
     bind_res (GetThreadStats 0 (if details then Some count else None) st) (\<lambda>(b, count).
     let r = \<lparr> thread_bytes = b, central_bytes = c, transfer_bytes = t, metadata_bytes = metadata_system_bytes st,
               stats_system = system_bytes st, stats_free = free_bytes st, stats_unmapped = unmapped_bytes st,
               stats_committed = committed_bytes st \<rparr>
     in if details then
          bind_res (GetSmallSpanStats st) (\<lambda>small.
          bind_res (GetLargeSpanStats st) (\<lambda>large.
          Inr (r, Some (the count, small, large))))
        else Inr (r, None)))"

text \<open>The quantities that \<open>DumpStats\<close> derives, and the rows of the tables it prints at level 2.\<close>

definition virtual_memory_used :: "TCMallocStats \<Rightarrow> nat" where
  "virtual_memory_used s = add64 (stats_system s) (metadata_bytes s)"

definition physical_memory_used :: "TCMallocStats \<Rightarrow> nat" where
  "physical_memory_used s = sub64 (virtual_memory_used s) (stats_unmapped s)"

definition bytes_in_use_by_app :: "TCMallocStats \<Rightarrow> nat" where
  "bytes_in_use_by_app s =
     sub64 (sub64 (sub64 (sub64 (sub64 (physical_memory_used s) (metadata_bytes s)) (stats_free s)) (central_bytes s))
       (transfer_bytes s)) (thread_bytes s)"

definition PagesToMiB :: "nat \<Rightarrow> rat" where
  "PagesToMiB n = dbl (dbl (of_nat (page_bytes n)) / 1048576)"

fun class_rows :: "nat \<Rightarrow> nat list \<Rightarrow> nat \<Rightarrow> ('o, 'z) malloc_state_scheme \<Rightarrow> (nat \<times> int \<times> nat \<times> nat \<times> nat) list res" where
  "class_rows cl [] cumulative st = Inr []"
| "class_rows cl (n # ns) cumulative st =
     (if n > 0 then
        bind_res (ByteSizeForClass (sizemap st) (int cl)) (\<lambda>sz.
        let class_bytes = size64 (int n * sz); cumulative = add64 cumulative class_bytes in
        bind_res (class_rows (cl + 1) ns cumulative st) (\<lambda>rows.
        Inr ((cl, sz, n, class_bytes, cumulative) # rows)))
      else class_rows (cl + 1) ns cumulative st)"

fun span_rows :: "nat \<Rightarrow> (int \<times> int) list \<Rightarrow> nat \<Rightarrow> nat \<Rightarrow> (nat \<times> int \<times> rat \<times> rat \<times> rat \<times> rat) list \<times> nat \<times> nat" where
  "span_rows s [] total_normal total_returned = ([], total_normal, total_returned)"
| "span_rows s ((n, r) # ls) total_normal total_returned =
     (let n_length = to_int32 n; r_length = to_int32 r in
      if n_length + r_length > 0 then
        let n_pages = size64 (int s * n_length); r_pages = size64 (int s * r_length);
            total_normal = add64 total_normal n_pages; total_returned = add64 total_returned r_pages;
            (rows, tn, tr) = span_rows (s + 1) ls total_normal total_returned
        in ((s, n_length + r_length, PagesToMiB (add64 n_pages r_pages), PagesToMiB (add64 total_normal total_returned),
             PagesToMiB r_pages, PagesToMiB total_returned) # rows, tn, tr)
      else span_rows (s + 1) ls total_normal total_returned)"

record stats_report =
  report_stats :: TCMallocStats
  spans_in_use :: int
  heaps_in_use :: int
  class_table :: "(nat \<times> int \<times> nat \<times> nat \<times> nat) list"
  nonempty_sizes :: nat
  span_table :: "(nat \<times> int \<times> rat \<times> rat \<times> rat \<times> rat) list"
  large_row :: "(nat \<times> rat \<times> rat \<times> rat \<times> rat) option"

definition DumpStats :: "int \<Rightarrow> ('o, 'z) malloc_state_scheme \<Rightarrow> stats_report res" where
  "DumpStats level st =
     bind_res (ExtractStats (level \<ge> 2) st) (\<lambda>(stats, details).
     let rep = \<lparr> report_stats = stats, spans_in_use = inuse (span_allocator st), heaps_in_use = HeapsInUse st,
                 class_table = [], nonempty_sizes = 0, span_table = [], large_row = None \<rparr>
     in case details of None \<Rightarrow> Inr rep
        | Some (count, small, ls, lnorm, lret) \<Rightarrow>
            bind_res (class_rows 0 count 0 st) (\<lambda>rows.
            let (srows, tn, tr) = span_rows 0 small 0 0; tn = add64 tn lnorm; tr = add64 tr lret
            in Inr (rep\<lparr>class_table := rows, nonempty_sizes := length (filter (\<lambda>(n, r). n + r > 0) small), span_table := srows,
                     large_row := Some (ls mod 2 ^ 32, PagesToMiB (add64 lnorm lret), PagesToMiB (add64 tn tr), PagesToMiB lret, PagesToMiB tr)\<rparr>)))"

section \<open>Ranges\<close>

definition kNumRanges :: nat where "kNumRanges = 16"

text \<open>
  The inner loop, with \<open>k\<close> places left in the buffer: \<open>(done, page, ranges)\<close>.  The callback only looks at the
  ranges it gets, so the model collects them in order.
\<close>

primrec range_batch :: "nat \<Rightarrow> nat \<Rightarrow> ('o, 'z) malloc_state_scheme \<Rightarrow> (bool \<times> nat \<times> MallocRange list) res" where
  "range_batch 0 p st = Inr (False, p, [])"
| "range_batch (Suc k) p st =
     bind_res (GetNextRange (sizemap st) p st) (\<lambda>r.
     case r of None \<Rightarrow> Inr (True, p, [])
     | Some r \<Rightarrow>
         let lm = add64 (address r) (range_length r);
             p = add64 lm (2 ^ kPageShift - 1) div 2 ^ kPageShift
         in bind_res (range_batch k p st) (\<lambda>(fin, p, rs). Inr (fin, p, r # rs)))"

partial_function (option) range_batches ::
  "nat \<Rightarrow> MallocRange list \<Rightarrow> ('o, 'z) malloc_state_scheme \<Rightarrow> MallocRange list res option" where
  "range_batches p acc st =
     (case range_batch kNumRanges p st of Inl f \<Rightarrow> Some (Inl f)
      | Inr (fin, p, rs) \<Rightarrow> if fin then Some (Inr (acc @ rs)) else range_batches p (acc @ rs) st)"

definition IterateOverRanges :: "('o, 'z) malloc_state_scheme \<Rightarrow> MallocRange list res" where
  "IterateOverRanges st = (case range_batches 1 [] st of None \<Rightarrow> Inl Diverge | Some r \<Rightarrow> r)"

section \<open>The extension interface\<close>

definition allocated_bytes :: "TCMallocStats \<Rightarrow> nat" where
  "allocated_bytes s =
     sub64 (sub64 (sub64 (sub64 (sub64 (stats_system s) (thread_bytes s)) (central_bytes s)) (transfer_bytes s))
       (stats_free s)) (stats_unmapped s)"

definition with_stats :: "(TCMallocStats \<Rightarrow> nat) \<Rightarrow> ('o, 'z) malloc_state_scheme \<Rightarrow> nat option res" where
  "with_stats f st = bind_res (ExtractStats False st) (\<lambda>(stats, _). Inr (Some (f stats)))"

definition GetNumericProperty :: "string \<Rightarrow> ('o, 'z) malloc_state_scheme \<Rightarrow> nat option res" where
  "GetNumericProperty name st =
     (if name = ''generic.current_allocated_bytes'' then with_stats allocated_bytes st
      else if name = ''generic.heap_size'' then with_stats stats_system st
      else if name = ''tcmalloc.slack_bytes'' then Inr (Some (add64 (free_bytes st) (unmapped_bytes st)))
      else if name = ''tcmalloc.central_cache_free_bytes'' then with_stats central_bytes st
      else if name = ''tcmalloc.transfer_cache_free_bytes'' then with_stats transfer_bytes st
      else if name = ''tcmalloc.thread_cache_free_bytes'' then with_stats thread_bytes st
      else if name = ''tcmalloc.pageheap_free_bytes'' then Inr (Some (free_bytes st))
      else if name = ''tcmalloc.pageheap_unmapped_bytes'' then Inr (Some (unmapped_bytes st))
      else if name = ''tcmalloc.max_total_thread_cache_bytes'' then Inr (Some (overall_thread_cache_size st))
      else if name = ''tcmalloc.current_total_thread_cache_bytes'' then with_stats thread_bytes st
      else if name = ''tcmalloc.aggressive_memory_decommit'' then Inr (Some (if aggressive_decommit st then 1 else 0))
      else Inr None)"

definition SetNumericProperty :: "string \<Rightarrow> nat \<Rightarrow> ('o, 'z) malloc_state_scheme \<Rightarrow> (bool \<times> ('o, 'z) malloc_state_scheme) res" where
  "SetNumericProperty name val st =
     (if name = ''tcmalloc.max_total_thread_cache_bytes'' then
        bind_res (set_overall_thread_cache_size val st) (\<lambda>st. Inr (True, st))
      else if name = ''tcmalloc.aggressive_memory_decommit'' then
        Inr (True, st\<lparr>aggressive_decommit := (val \<noteq> 0)\<rparr>)
      else Inr (False, st))"

definition ReleaseToSystem :: "'o os \<Rightarrow> nat \<Rightarrow> ('o, 'z) malloc_state_scheme \<Rightarrow> ('o, 'z) malloc_state_scheme res" where
  "ReleaseToSystem os num_bytes st =
     (if num_bytes \<le> extra_bytes_released st then
        Inr (st\<lparr>extra_bytes_released := extra_bytes_released st - num_bytes\<rparr>)
      else
        let num_bytes = num_bytes - extra_bytes_released st;
            num_pages = max (num_bytes div 2 ^ kPageShift) 1
        in bind_res (ReleaseAtLeastNPages os num_pages st) (\<lambda>(released, st).
           let bytes_released = page_bytes released
           in Inr (st\<lparr>extra_bytes_released := (if bytes_released > num_bytes then bytes_released - num_bytes else 0)\<rparr>)))"

definition SetMemoryReleaseRate :: "rat \<Rightarrow> ('o, 'z) malloc_state_scheme \<Rightarrow> ('o, 'z) malloc_state_scheme" where
  "SetMemoryReleaseRate rate st = st\<lparr>FLAGS_tcmalloc_release_rate := rate\<rparr>"

definition num_pages_of :: "nat \<Rightarrow> nat" where
  "num_pages_of bytes = unat (pages (of_nat bytes))"

definition GetEstimatedAllocatedSize :: "nat \<Rightarrow> ('o, 'z) malloc_state_scheme \<Rightarrow> nat res" where
  "GetEstimatedAllocatedSize sz st =
     (if int sz \<le> kMaxSize then
        bind_res (SizeClass (sizemap st) (int sz)) (\<lambda>cl.
        bind_res (ByteSizeForClass (sizemap st) cl) (\<lambda>alloc_size. Inr (nat alloc_size)))
      else Inr (page_bytes (num_pages_of sz)))"

datatype Ownership = kUnknownOwnership | kOwned | kNotOwned

definition GetOwnership :: "addr \<Rightarrow> ('o, 'z) malloc_state_scheme \<Rightarrow> Ownership res" where
  "GetOwnership ptr st =
     (let p = ptr div 2 ^ kPageShift
      in if p div 2 ^ (kAddressBits - kPageShift) > 0 then Inr kNotOwned
         else if GetSizeClassIfCached p st \<noteq> 0 then Inr kOwned
         else bind_res (GetDescriptor p st) (\<lambda>sp. Inr (if sp \<noteq> NULLspan then kOwned else kNotOwned)))"

record FreeListInfo =
  min_object_size :: nat
  max_object_size :: nat
  total_bytes_free :: nat
  list_type :: string

fun central_infos :: "nat list \<Rightarrow> nat \<Rightarrow> ('o, 'z) malloc_state_scheme \<Rightarrow> FreeListInfo list res" where
  "central_infos [] prev_class_size st = Inr []"
| "central_infos (cl # cls) prev_class_size st =
     bind_res (ByteSizeForClass (sizemap st) (int cl)) (\<lambda>class_size.
     bind_res (CFL_length cl st) (\<lambda>len.
     bind_res (tc_length cl st) (\<lambda>tc_len.
     let i = \<lparr> min_object_size = prev_class_size + 1, max_object_size = nat class_size,
               total_bytes_free = size64 (len * class_size), list_type = ''tcmalloc.central'' \<rparr>;
         j = i\<lparr>total_bytes_free := size64 (tc_len * class_size), list_type := ''tcmalloc.transfer''\<rparr>
     in bind_res (central_infos cls (nat class_size) st) (\<lambda>is. Inr (i # j # is)))))"

text \<open>In the second loop \<open>prev_class_size\<close> stays 0.\<close>

fun thread_infos :: "nat list \<Rightarrow> nat list \<Rightarrow> ('o, 'z) malloc_state_scheme \<Rightarrow> FreeListInfo list res" where
  "thread_infos [] count st = Inr []"
| "thread_infos (cl # cls) count st =
     bind_res (ByteSizeForClass (sizemap st) (int cl)) (\<lambda>sz.
     bind_res (rd count (int cl)) (\<lambda>n.
     bind_res (thread_infos cls count st) (\<lambda>is.
     Inr (\<lparr> min_object_size = 1, max_object_size = nat sz, total_bytes_free = size64 (int n * sz),
            list_type = ''tcmalloc.thread'' \<rparr> # is))))"

fun span_infos :: "nat list \<Rightarrow> (int \<times> int) list \<Rightarrow> FreeListInfo list res" where
  "span_infos [] small = Inr []"
| "span_infos (s # ss) small =
     bind_res (rd small (int s)) (\<lambda>(n, r).
     let i = \<lparr> min_object_size = page_bytes (s - 1), max_object_size = page_bytes s,
               total_bytes_free = size64 (int (page_bytes s) * n), list_type = ''tcmalloc.page'' \<rparr>;
         j = i\<lparr>list_type := ''tcmalloc.page_unmapped'', total_bytes_free := size64 (int (page_bytes s) * r)\<rparr>
     in bind_res (span_infos ss small) (\<lambda>is. Inr (i # j # is)))"

definition GetFreeListSizes :: "('o, 'z) malloc_state_scheme \<Rightarrow> FreeListInfo list res" where
  "GetFreeListSizes st =
     bind_res (central_infos [1..<nat kNumClasses] 0 st) (\<lambda>v1.
     bind_res (GetThreadStats 0 (Some (replicate (nat kNumClasses) 0)) st) (\<lambda>(_, count).
     bind_res (thread_infos [1..<nat kNumClasses] (the count) st) (\<lambda>v2.
     bind_res (GetSmallSpanStats st) (\<lambda>small.
     bind_res (GetLargeSpanStats st) (\<lambda>(_, lnorm, lret).
     let i = \<lparr> min_object_size = page_bytes kMaxPages, max_object_size = 2 ^ 64 - 1,
               total_bytes_free = page_bytes lnorm, list_type = ''tcmalloc.large'' \<rparr>;
         j = i\<lparr>list_type := ''tcmalloc.large_unmapped'', total_bytes_free := page_bytes lret\<rparr>
     in bind_res (span_infos [1..<kMaxPages] small) (\<lambda>v3.
        Inr (v1 @ v2 @ i # j # v3)))))))"

section \<open>\<open>malloc\<close>\<close>

text \<open>The check of the cached size class; it is only evaluated in debugging builds.\<close>

definition CheckCachedSizeClass :: "addr \<Rightarrow> ('o, 'z) malloc_state_scheme \<Rightarrow> bool res" where
  "CheckCachedSizeClass ptr st =
     (let p = ptr div 2 ^ kPageShift; cached_value = GetSizeClassIfCached p st
      in if cached_value = 0 then Inr True
         else bind_res (GetDescriptor p st) (\<lambda>sp. bind_res (get_span sp st) (\<lambda>s. Inr (cached_value = sizeclass s))))"

definition SpanToMallocResult :: "sptr \<Rightarrow> ('o, 'z) malloc_state_scheme \<Rightarrow> (addr \<times> ('o, 'z) malloc_state_scheme) res" where
  "SpanToMallocResult sp st =
     bind_res (get_span sp st) (\<lambda>s. Inr (page_bytes (start s), CacheSizeClass (start s) 0 st))"

definition should_report_large :: "nat \<Rightarrow> ('o, 'z) malloc_state_scheme \<Rightarrow> bool \<times> ('o, 'z) malloc_state_scheme" where
  "should_report_large num_pages st =
     (let threshold = large_alloc_threshold st
      in if threshold > 0 \<and> int num_pages \<ge> threshold div 2 ^ kPageShift then
           (True, st\<lparr>large_alloc_threshold :=
              (if threshold + threshold div 8 < 8 * 2 ^ 30 then threshold + threshold div 8 else 8 * 2 ^ 30)\<rparr>)
         else (False, st))"

text \<open>The result of \<open>New\<close> as a pointer for the application.\<close>

definition span_result :: "sptr option \<times> ('o, 'z) malloc_state_scheme \<Rightarrow> (addr \<times> ('o, 'z) malloc_state_scheme) res" where
  "span_result r = (case r of (None, st) \<Rightarrow> Inr (0, st) | (Some sp, st) \<Rightarrow> SpanToMallocResult sp st)"

text \<open>A large allocation may print a message, which has no effect on the state.\<close>

definition do_malloc_pages :: "'o os \<Rightarrow> addr \<Rightarrow> nat \<Rightarrow> ('o, 'z) malloc_state_scheme \<Rightarrow> (addr \<times> ('o, 'z) malloc_state_scheme) res" where
  "do_malloc_pages os heap sz st =
     (let num_pages = num_pages_of sz
      in bind_res (New os num_pages st) (\<lambda>r.
         bind_res (span_result r) (\<lambda>(result, st).
         Inr (result, snd (should_report_large num_pages st)))))"

definition do_malloc_small :: "'o os \<Rightarrow> addr \<Rightarrow> nat \<Rightarrow> ('o, 'z) malloc_state_scheme \<Rightarrow> (addr \<times> ('o, 'z) malloc_state_scheme) res" where
  "do_malloc_small os heap sz st =
     bind_res (SizeClass (sizemap st) (int sz)) (\<lambda>cl.
     bind_res (class_to_size (sizemap st) cl) (\<lambda>sz.
     Allocate os heap (nat sz) (nat cl) st))"

definition do_malloc_no_errno ::
  "'o os \<Rightarrow> environment \<Rightarrow> nat \<Rightarrow> nat \<Rightarrow> ('o, 'z) malloc_state_scheme \<Rightarrow> (addr \<times> ('o, 'z) malloc_state_scheme) res" where
  "do_malloc_no_errno os env me sz st =
     (if sz < MinSizeForSlowPath me st then do_malloc_small os (GetCacheWhichMustBePresent me st) sz st
      else if int sz \<le> kMaxSize then bind_res (GetCache os env me st) (\<lambda>(heap, st). do_malloc_small os heap sz st)
      else bind_res (GetCache os env me st) (\<lambda>(heap, st). do_malloc_pages os heap sz st))"

definition do_malloc ::
  "'o os \<Rightarrow> environment \<Rightarrow> nat \<Rightarrow> nat \<Rightarrow> ('o, 'z) malloc_state_scheme \<Rightarrow> (addr \<times> ('o, 'z) malloc_state_scheme) res" where
  "do_malloc os env me sz st =
     bind_res (do_malloc_no_errno os env me sz st) (\<lambda>(ret, st).
     Inr (ret, if ret = 0 then set_errno me ENOMEM st else st))"

section \<open>\<open>new\<close>\<close>

text \<open>The loop of \<open>cpp_alloc\<close> goes on as long as allocation fails and the new handler returns.\<close>

partial_function (option) cpp_alloc_loop ::
  "'o os \<Rightarrow> environment \<Rightarrow> ('o, 'z) handlers \<Rightarrow> nat \<Rightarrow> nat \<Rightarrow> bool \<Rightarrow> ('o, 'z) malloc_state_scheme \<Rightarrow>
   ((exn + addr) \<times> ('o, 'z) malloc_state_scheme) res option" where
  "cpp_alloc_loop os env hs me sz nothrow st =
     (case do_malloc_no_errno os env me sz st of Inl f \<Rightarrow> Some (Inl f)
      | Inr (p, st) \<Rightarrow>
          if p \<noteq> 0 then Some (Inr (Inr p, st))
          else if new_handler st = 0 then
            Some (Inr (if nothrow then (Inr 0, set_errno me ENOMEM st) else (Inl bad_alloc, st)))
          else
            (case hs (new_handler st) st of Inl f \<Rightarrow> Some (Inl f)
             | Inr (e, st) \<Rightarrow>
                 if e = Some bad_alloc \<and> nothrow then Some (Inr (Inr 0, set_errno me ENOMEM st))
                 else if e \<noteq> None then Some (Inr (Inl (the e), st))
                 else cpp_alloc_loop os env hs me sz nothrow st))"

definition cpp_alloc ::
  "'o os \<Rightarrow> environment \<Rightarrow> ('o, 'z) handlers \<Rightarrow> nat \<Rightarrow> nat \<Rightarrow> bool \<Rightarrow> ('o, 'z) malloc_state_scheme \<Rightarrow>
   ((exn + addr) \<times> ('o, 'z) malloc_state_scheme) res" where
  "cpp_alloc os env hs me sz nothrow st =
     (case cpp_alloc_loop os env hs me sz nothrow st of None \<Rightarrow> Inl Diverge | Some r \<Rightarrow> r)"

definition returning :: "(addr \<times> ('o, 'z) malloc_state_scheme) res \<Rightarrow> ((exn + addr) \<times> ('o, 'z) malloc_state_scheme) res" where
  "returning r = bind_res r (\<lambda>(p, st). Inr (Inr p, st))"

definition do_malloc_or_cpp_alloc ::
  "'o os \<Rightarrow> environment \<Rightarrow> ('o, 'z) handlers \<Rightarrow> nat \<Rightarrow> nat \<Rightarrow> ('o, 'z) malloc_state_scheme \<Rightarrow>
   ((exn + addr) \<times> ('o, 'z) malloc_state_scheme) res" where
  "do_malloc_or_cpp_alloc os env hs me sz st =
     (if tc_new_mode st \<noteq> 0 then cpp_alloc os env hs me sz True st else returning (do_malloc os env me sz st))"

definition do_malloc_no_errno_or_cpp_alloc ::
  "'o os \<Rightarrow> environment \<Rightarrow> ('o, 'z) handlers \<Rightarrow> nat \<Rightarrow> nat \<Rightarrow> ('o, 'z) malloc_state_scheme \<Rightarrow>
   ((exn + addr) \<times> ('o, 'z) malloc_state_scheme) res" where
  "do_malloc_no_errno_or_cpp_alloc os env hs me sz st =
     (if tc_new_mode st \<noteq> 0 then cpp_alloc os env hs me sz True st else returning (do_malloc_no_errno os env me sz st))"

text \<open>What follows a call that may throw: \<open>f\<close> runs on the pointer, an exception is passed on.\<close>

definition bind_exn ::
  "((exn + addr) \<times> ('o, 'z) malloc_state_scheme) res \<Rightarrow>
   (addr \<Rightarrow> ('o, 'z) malloc_state_scheme \<Rightarrow> ((exn + addr) \<times> ('o, 'z) malloc_state_scheme) res) \<Rightarrow>
   ((exn + addr) \<times> ('o, 'z) malloc_state_scheme) res" where
  "bind_exn r f = bind_res r (\<lambda>(v, st). case v of Inl e \<Rightarrow> Inr (Inl e, st) | Inr p \<Rightarrow> f p st)"

definition do_calloc ::
  "'o os \<Rightarrow> environment \<Rightarrow> ('o, 'z) handlers \<Rightarrow> nat \<Rightarrow> nat \<Rightarrow> nat \<Rightarrow> ('o, 'z) malloc_state_scheme \<Rightarrow>
   ((exn + addr) \<times> ('o, 'z) malloc_state_scheme) res" where
  "do_calloc os env hs me n elem_size st =
     (let sz = wrap64 (n * elem_size)
      in if elem_size \<noteq> 0 \<and> sz div elem_size \<noteq> n then Inr (Inr 0, st)
         else bind_exn (do_malloc_no_errno_or_cpp_alloc os env hs me sz st) (\<lambda>result st.
              Inr (Inr result, if result = 0 then set_errno me ENOMEM st else memset0 result sz st)))"

section \<open>\<open>free\<close>\<close>

definition free_null_or_invalid ::
  "addr \<Rightarrow> (addr \<Rightarrow> ('o, 'z) malloc_state_scheme \<Rightarrow> ('o, 'z) malloc_state_scheme res) \<Rightarrow>
   ('o, 'z) malloc_state_scheme \<Rightarrow> ('o, 'z) malloc_state_scheme res" where
  "free_null_or_invalid ptr invalid_free_fn st = (if ptr \<noteq> 0 then invalid_free_fn ptr st else Inr st)"

text \<open>\<open>IsInited()\<close> is \<open>pageheap() != NULL\<close>.\<close>

definition IsInited :: "('o, 'z) malloc_state_scheme \<Rightarrow> bool" where
  "IsInited st \<longleftrightarrow> pageheap st \<noteq> 0"

text \<open>The two ways of freeing, for a page with size class \<open>cl\<close> and for a span of its own.\<close>

definition free_object ::
  "'o os \<Rightarrow> addr \<Rightarrow> nat \<Rightarrow> addr \<Rightarrow> bool \<Rightarrow> ('o, 'z) malloc_state_scheme \<Rightarrow> ('o, 'z) malloc_state_scheme res" where
  "free_object os ptr cl heap heap_must_be_valid st =
     (if heap_must_be_valid \<or> heap \<noteq> 0 then Deallocate os heap ptr cl st
      else
        bind_res (on_objs (\<lambda>m. SLL_SetNext m ptr 0) st) (\<lambda>st.
        InsertRange os cl ptr ptr 1 st))"

definition free_large :: "'o os \<Rightarrow> sptr \<Rightarrow> ('o, 'z) malloc_state_scheme \<Rightarrow> ('o, 'z) malloc_state_scheme res" where
  "free_large os sp st =
     bind_res (get_span sp st) (\<lambda>s.
     bind_res
       (if sample s then
          bind_res (on_spans (DLL_Remove sp) st) (\<lambda>st.
          on_spans (upd_span sp (objects_update (\<lambda>_. 0))) st)
        else Inr st) (\<lambda>st.
     Delete os sp st))"

definition do_free_helper ::
  "'o os \<Rightarrow> addr \<Rightarrow> (addr \<Rightarrow> ('o, 'z) malloc_state_scheme \<Rightarrow> ('o, 'z) malloc_state_scheme res) \<Rightarrow> addr \<Rightarrow> bool \<Rightarrow>
   ('o, 'z) malloc_state_scheme \<Rightarrow> ('o, 'z) malloc_state_scheme res" where
  "do_free_helper os ptr invalid_free_fn heap heap_must_be_valid st =
     (if \<not> heap_must_be_valid \<and> \<not> IsInited st then free_null_or_invalid ptr invalid_free_fn st
      else
        let p = ptr div 2 ^ kPageShift; cl = GetSizeClassIfCached p st
        in if cl = 0 then
             bind_res (GetDescriptor p st) (\<lambda>sp.
             if sp = NULLspan then free_null_or_invalid ptr invalid_free_fn st
             else
               bind_res (get_span sp st) (\<lambda>s.
               let cl = sizeclass s; st = CacheSizeClass p cl st
               in if cl \<noteq> 0 then free_object os ptr cl heap heap_must_be_valid st
                  else free_large os sp st))
           else free_object os ptr cl heap heap_must_be_valid st)"

definition do_free_with_callback ::
  "'o os \<Rightarrow> nat \<Rightarrow> addr \<Rightarrow> (addr \<Rightarrow> ('o, 'z) malloc_state_scheme \<Rightarrow> ('o, 'z) malloc_state_scheme res) \<Rightarrow>
   ('o, 'z) malloc_state_scheme \<Rightarrow> ('o, 'z) malloc_state_scheme res" where
  "do_free_with_callback os me ptr invalid_free_fn st =
     (if IsFastPathAllowed me st then do_free_helper os ptr invalid_free_fn (GetCacheWhichMustBePresent me st) True st
      else do_free_helper os ptr invalid_free_fn (GetCacheIfPresent me st) False st)"

definition do_free :: "'o os \<Rightarrow> nat \<Rightarrow> addr \<Rightarrow> ('o, 'z) malloc_state_scheme \<Rightarrow> ('o, 'z) malloc_state_scheme res" where
  "do_free os me ptr st = do_free_with_callback os me ptr InvalidFree st"

section \<open>\<open>realloc\<close>\<close>

definition GetSizeWithCallback ::
  "addr \<Rightarrow> (addr \<Rightarrow> nat res) \<Rightarrow> ('o, 'z) malloc_state_scheme \<Rightarrow> (nat \<times> ('o, 'z) malloc_state_scheme) res" where
  "GetSizeWithCallback ptr invalid_getsize_fn st =
     (if ptr = 0 then Inr (0, st)
      else
        let p = ptr div 2 ^ kPageShift; cl = GetSizeClassIfCached p st
        in if cl \<noteq> 0 then bind_res (ByteSizeForClass (sizemap st) (int cl)) (\<lambda>sz. Inr (nat sz, st))
           else
             bind_res (GetDescriptor p st) (\<lambda>sp.
             if sp = NULLspan then bind_res (invalid_getsize_fn ptr) (\<lambda>n. Inr (n, st))
             else
               bind_res (get_span sp st) (\<lambda>s.
               if sizeclass s \<noteq> 0 then
                 let st = CacheSizeClass p (sizeclass s) st
                 in bind_res (ByteSizeForClass (sizemap st) (int (sizeclass s))) (\<lambda>sz. Inr (nat sz, st))
               else Inr (page_bytes (span_length s), st))))"

definition realloc_needed :: "nat \<Rightarrow> nat \<Rightarrow> bool" where
  "realloc_needed old_size new_size \<longleftrightarrow> new_size > old_size \<or> new_size < old_size div 2"

definition lower_bound_to_grow :: "nat \<Rightarrow> nat" where
  "lower_bound_to_grow old_size = add64 old_size (old_size div 4)"

definition do_realloc_with_callback ::
  "'o os \<Rightarrow> environment \<Rightarrow> ('o, 'z) handlers \<Rightarrow> nat \<Rightarrow> addr \<Rightarrow> nat \<Rightarrow>
   (addr \<Rightarrow> ('o, 'z) malloc_state_scheme \<Rightarrow> ('o, 'z) malloc_state_scheme res) \<Rightarrow> (addr \<Rightarrow> nat res) \<Rightarrow>
   ('o, 'z) malloc_state_scheme \<Rightarrow> ((exn + addr) \<times> ('o, 'z) malloc_state_scheme) res" where
  "do_realloc_with_callback os env hs me old_ptr new_size invalid_free_fn invalid_get_size_fn st =
     bind_res (GetSizeWithCallback old_ptr invalid_get_size_fn st) (\<lambda>(old_size, st).
     if realloc_needed old_size new_size then
       bind_exn
         (if new_size > old_size \<and> new_size < lower_bound_to_grow old_size
          then do_malloc_no_errno_or_cpp_alloc os env hs me (lower_bound_to_grow old_size) st
          else Inr (Inr 0, st)) (\<lambda>new_ptr st.
       bind_exn (if new_ptr = 0 then do_malloc_or_cpp_alloc os env hs me new_size st else Inr (Inr new_ptr, st)) (\<lambda>new_ptr st.
       if new_ptr = 0 then Inr (Inr 0, st)
       else
         let st = memcpy new_ptr old_ptr (if old_size < new_size then old_size else new_size) st
         in bind_res (do_free_with_callback os me old_ptr invalid_free_fn st) (\<lambda>st.
            Inr (Inr new_ptr, st))))
     else Inr (Inr old_ptr, st))"

definition do_realloc ::
  "'o os \<Rightarrow> environment \<Rightarrow> ('o, 'z) handlers \<Rightarrow> nat \<Rightarrow> addr \<Rightarrow> nat \<Rightarrow> ('o, 'z) malloc_state_scheme \<Rightarrow>
   ((exn + addr) \<times> ('o, 'z) malloc_state_scheme) res" where
  "do_realloc os env hs me old_ptr new_size st =
     do_realloc_with_callback os env hs me old_ptr new_size InvalidFree InvalidGetSizeForRealloc st"

section \<open>\<open>memalign\<close>\<close>

text \<open>The search for a class whose size is a multiple of the alignment, over the classes that are left.\<close>

fun aligned_class :: "nat \<Rightarrow> int list \<Rightarrow> SizeMap \<Rightarrow> int option res" where
  "aligned_class align [] sm = Inr None"
| "aligned_class align (cl # cls) sm =
     bind_res (class_to_size sm cl) (\<lambda>sz.
     if nat sz AND sub64 align 1 \<noteq> 0 then aligned_class align cls sm else Inr (Some cl))"

text \<open>The number of pages to skip; for an alignment that is no power of two there may be none.\<close>

partial_function (option) skip_pages :: "nat \<Rightarrow> nat \<Rightarrow> nat \<Rightarrow> nat option" where
  "skip_pages align p skip =
     (if page_bytes (p + skip) AND sub64 align 1 \<noteq> 0 then skip_pages align p (skip + 1) else Some skip)"

definition carve_aligned ::
  "'o os \<Rightarrow> nat \<Rightarrow> nat \<Rightarrow> sptr \<Rightarrow> ('o, 'z) malloc_state_scheme \<Rightarrow> (addr \<times> ('o, 'z) malloc_state_scheme) res" where
  "carve_aligned os align sz sp st =
     bind_res (get_span sp st) (\<lambda>s.
     bind_res (case skip_pages align (start s) 0 of None \<Rightarrow> Inl Diverge | Some k \<Rightarrow> Inr k) (\<lambda>skip.
     bind_res
       (if skip > 0 then
          bind_res (Split os sp skip st) (\<lambda>(rest, st).
          bind_res (Delete os sp st) (\<lambda>st. Inr (rest, st)))
        else Inr (sp, st)) (\<lambda>(sp, st).
     let needed = num_pages_of sz in
     bind_res (get_span sp st) (\<lambda>s.
     bind_res
       (if span_length s > needed then
          bind_res (Split os sp needed st) (\<lambda>(trailer, st). Delete os trailer st)
        else Inr st) (\<lambda>st.
     SpanToMallocResult sp st)))))"

definition memalign_pages ::
  "'o os \<Rightarrow> nat \<Rightarrow> nat \<Rightarrow> ('o, 'z) malloc_state_scheme \<Rightarrow> (addr \<times> ('o, 'z) malloc_state_scheme) res" where
  "memalign_pages os align sz st =
     (if int align \<le> kPageSize then bind_res (New os (num_pages_of sz) st) (\<lambda>r. span_result r)
      else
        bind_res (New os (num_pages_of (add64 sz align)) st) (\<lambda>(r, st).
        case r of None \<Rightarrow> Inr (0, st) | Some sp \<Rightarrow> carve_aligned os align sz sp st))"

definition do_memalign ::
  "'o os \<Rightarrow> environment \<Rightarrow> nat \<Rightarrow> nat \<Rightarrow> nat \<Rightarrow> ('o, 'z) malloc_state_scheme \<Rightarrow> (addr \<times> ('o, 'z) malloc_state_scheme) res" where
  "do_memalign os env me align sz st =
     (if add64 sz align < sz then Inr (0, st)
      else
        bind_res (AlignmentForSize (int sz)) (\<lambda>a.
        if int align \<le> a then do_malloc os env me sz st
        else
          bind_res (if pageheap st = 0 then InitModule os env st else Inr st) (\<lambda>st.
          let sz = (if sz = 0 then 1 else sz) in
          bind_res
            (if int sz \<le> kMaxSize \<and> int align < kPageSize then
               bind_res (SizeClass (sizemap st) (int sz)) (\<lambda>cl. aligned_class align [cl..kNumClasses - 1] (sizemap st))
             else Inr None) (\<lambda>found.
          case found of
            Some cl \<Rightarrow>
              bind_res (GetCache os env me st) (\<lambda>(heap, st).
              bind_res (class_to_size (sizemap st) cl) (\<lambda>sz.
              Allocate os heap (nat sz) (nat cl) st))
          | None \<Rightarrow> memalign_pages os align sz st))))"

partial_function (option) cpp_memalign_loop ::
  "'o os \<Rightarrow> environment \<Rightarrow> ('o, 'z) handlers \<Rightarrow> nat \<Rightarrow> nat \<Rightarrow> nat \<Rightarrow> ('o, 'z) malloc_state_scheme \<Rightarrow>
   ((exn + addr) \<times> ('o, 'z) malloc_state_scheme) res option" where
  "cpp_memalign_loop os env hs me align sz st =
     (case do_memalign os env me align sz st of Inl f \<Rightarrow> Some (Inl f)
      | Inr (p, st) \<Rightarrow>
          if p \<noteq> 0 then Some (Inr (Inr p, st))
          else if new_handler st = 0 then Some (Inr (Inr 0, st))
          else
            (case hs (new_handler st) st of Inl f \<Rightarrow> Some (Inl f)
             | Inr (e, st) \<Rightarrow>
                 if e = Some bad_alloc then Some (Inr (Inr 0, st))
                 else if e \<noteq> None then Some (Inr (Inl (the e), st))
                 else cpp_memalign_loop os env hs me align sz st))"

definition cpp_memalign ::
  "'o os \<Rightarrow> environment \<Rightarrow> ('o, 'z) handlers \<Rightarrow> nat \<Rightarrow> nat \<Rightarrow> nat \<Rightarrow> ('o, 'z) malloc_state_scheme \<Rightarrow>
   ((exn + addr) \<times> ('o, 'z) malloc_state_scheme) res" where
  "cpp_memalign os env hs me align sz st =
     (case cpp_memalign_loop os env hs me align sz st of None \<Rightarrow> Inl Diverge | Some r \<Rightarrow> r)"

definition do_memalign_or_cpp_memalign ::
  "'o os \<Rightarrow> environment \<Rightarrow> ('o, 'z) handlers \<Rightarrow> nat \<Rightarrow> nat \<Rightarrow> nat \<Rightarrow> ('o, 'z) malloc_state_scheme \<Rightarrow>
   ((exn + addr) \<times> ('o, 'z) malloc_state_scheme) res" where
  "do_memalign_or_cpp_memalign os env hs me align sz st =
     (if tc_new_mode st \<noteq> 0 then cpp_memalign os env hs me align sz st else returning (do_memalign os env me align sz st))"

section \<open>Statistics of the C library\<close>

record mallinfo =
  arena :: int
  fsmblks :: int
  fordblks :: int
  uordblks :: int

definition do_mallinfo :: "('o, 'z) malloc_state_scheme \<Rightarrow> mallinfo res" where
  "do_mallinfo st =
     bind_res (ExtractStats False st) (\<lambda>(s, _).
     Inr \<lparr> arena = to_int32 (int (stats_system s)),
           fsmblks = to_int32 (int (thread_bytes s) + int (central_bytes s) + int (transfer_bytes s)),
           fordblks = to_int32 (int (stats_free s) + int (stats_unmapped s)),
           uordblks = to_int32 (int (allocated_bytes s)) \<rparr>)"

definition do_mallopt :: "int \<Rightarrow> int \<Rightarrow> int" where
  "do_mallopt cmd val = 1"

text \<open>\<open>PrintStats\<close> allocates its buffer with \<open>new\<close> and frees it.\<close>

definition PrintStats ::
  "'o os \<Rightarrow> environment \<Rightarrow> ('o, 'z) handlers \<Rightarrow> nat \<Rightarrow> int \<Rightarrow> ('o, 'z) malloc_state_scheme \<Rightarrow>
   ((exn + stats_report) \<times> ('o, 'z) malloc_state_scheme) res" where
  "PrintStats os env hs me level st =
     bind_res (cpp_alloc os env hs me (16 * 2 ^ 10) False st) (\<lambda>(v, st).
     case v of Inl e \<Rightarrow> Inr (Inl e, st)
     | Inr buffer \<Rightarrow>
         bind_res (DumpStats level st) (\<lambda>rep.
         bind_res (do_free os me buffer st) (\<lambda>st.
         Inr (Inr rep, st))))"

definition GetStats :: "int \<Rightarrow> ('o, 'z) malloc_state_scheme \<Rightarrow> stats_report res" where
  "GetStats buffer_length st = (if buffer_length < 10000 then DumpStats 1 st else DumpStats 2 st)"

definition GetAllocatedSize :: "addr \<Rightarrow> ('o, 'z) malloc_state_scheme \<Rightarrow> (nat \<times> ('o, 'z) malloc_state_scheme) res" where
  "GetAllocatedSize ptr st = (if ptr = 0 then Inr (0, st) else GetSizeWithCallback ptr InvalidGetAllocatedSize st)"

definition MarkThreadBusy :: "'o os \<Rightarrow> environment \<Rightarrow> nat \<Rightarrow> ('o, 'z) malloc_state_scheme \<Rightarrow> ('o, 'z) malloc_state_scheme res" where
  "MarkThreadBusy os env me st = bind_res (do_malloc os env me 0 st) (\<lambda>(p, st). do_free os me p st)"

definition MarkThreadIdle :: "'o os \<Rightarrow> nat \<Rightarrow> ('o, 'z) malloc_state_scheme \<Rightarrow> ('o, 'z) malloc_state_scheme res" where
  "MarkThreadIdle os me st = BecomeIdle os me st"

section \<open>Exported routines\<close>

definition tc_set_new_mode :: "int \<Rightarrow> ('o, 'z) malloc_state_scheme \<Rightarrow> int \<times> ('o, 'z) malloc_state_scheme" where
  "tc_set_new_mode flag st = (tc_new_mode st, st\<lparr>tc_new_mode := flag\<rparr>)"

text \<open>An exception that leaves a function declared \<open>__THROW\<close> ends the process.\<close>

definition no_throw :: "((exn + 'a) \<times> ('o, 'z) malloc_state_scheme) res \<Rightarrow> ('a \<times> ('o, 'z) malloc_state_scheme) res" where
  "no_throw r = bind_res r (\<lambda>(v, st). case v of Inl e \<Rightarrow> Inl Abort | Inr p \<Rightarrow> Inr (p, st))"

definition mem_efficiency_stats :: "('o, 'z) malloc_state_scheme \<Rightarrow> ('o, 'z) malloc_state_scheme" where
  "mem_efficiency_stats st = st"

definition after_stats :: "('a \<times> ('o, 'z) malloc_state_scheme) res \<Rightarrow> ('a \<times> ('o, 'z) malloc_state_scheme) res" where
  "after_stats r = bind_res r (\<lambda>(v, st). Inr (v, mem_efficiency_stats st))"

definition tc_malloc ::
  "'o os \<Rightarrow> environment \<Rightarrow> ('o, 'z) handlers \<Rightarrow> nat \<Rightarrow> nat \<Rightarrow> ('o, 'z) malloc_state_scheme \<Rightarrow> (addr \<times> ('o, 'z) malloc_state_scheme) res" where
  "tc_malloc os env hs me sz st = after_stats (no_throw (do_malloc_or_cpp_alloc os env hs me sz st))"

definition tc_free :: "'o os \<Rightarrow> nat \<Rightarrow> addr \<Rightarrow> ('o, 'z) malloc_state_scheme \<Rightarrow> ('o, 'z) malloc_state_scheme res" where
  "tc_free os me ptr st = do_free os me ptr st"

definition tc_calloc ::
  "'o os \<Rightarrow> environment \<Rightarrow> ('o, 'z) handlers \<Rightarrow> nat \<Rightarrow> nat \<Rightarrow> nat \<Rightarrow> ('o, 'z) malloc_state_scheme \<Rightarrow> (addr \<times> ('o, 'z) malloc_state_scheme) res" where
  "tc_calloc os env hs me n elem_size st = after_stats (no_throw (do_calloc os env hs me n elem_size st))"

definition tc_realloc ::
  "'o os \<Rightarrow> environment \<Rightarrow> ('o, 'z) handlers \<Rightarrow> nat \<Rightarrow> addr \<Rightarrow> nat \<Rightarrow> ('o, 'z) malloc_state_scheme \<Rightarrow> (addr \<times> ('o, 'z) malloc_state_scheme) res" where
  "tc_realloc os env hs me old_ptr new_size st =
     (if old_ptr = 0 then after_stats (no_throw (do_malloc_or_cpp_alloc os env hs me new_size st))
      else if new_size = 0 then bind_res (do_free os me old_ptr st) (\<lambda>st. Inr (0, st))
      else no_throw (do_realloc os env hs me old_ptr new_size (mem_efficiency_stats st)))"

definition tc_new ::
  "'o os \<Rightarrow> environment \<Rightarrow> ('o, 'z) handlers \<Rightarrow> nat \<Rightarrow> nat \<Rightarrow> ('o, 'z) malloc_state_scheme \<Rightarrow>
   ((exn + addr) \<times> ('o, 'z) malloc_state_scheme) res" where
  "tc_new os env hs me sz st = after_stats (cpp_alloc os env hs me sz False st)"

definition tc_new_nothrow ::
  "'o os \<Rightarrow> environment \<Rightarrow> ('o, 'z) handlers \<Rightarrow> nat \<Rightarrow> nat \<Rightarrow> ('o, 'z) malloc_state_scheme \<Rightarrow> (addr \<times> ('o, 'z) malloc_state_scheme) res" where
  "tc_new_nothrow os env hs me sz st = after_stats (no_throw (cpp_alloc os env hs me sz True st))"

definition tc_delete :: "'o os \<Rightarrow> nat \<Rightarrow> addr \<Rightarrow> ('o, 'z) malloc_state_scheme \<Rightarrow> ('o, 'z) malloc_state_scheme res" where
  "tc_delete os me p st = do_free os me p st"

definition tc_memalign ::
  "'o os \<Rightarrow> environment \<Rightarrow> ('o, 'z) handlers \<Rightarrow> nat \<Rightarrow> nat \<Rightarrow> nat \<Rightarrow> ('o, 'z) malloc_state_scheme \<Rightarrow> (addr \<times> ('o, 'z) malloc_state_scheme) res" where
  "tc_memalign os env hs me align sz st = after_stats (no_throw (do_memalign_or_cpp_memalign os env hs me align sz st))"

text \<open>The result is the return value and, if it is written, \<open>*result_ptr\<close>.\<close>

definition tc_posix_memalign ::
  "'o os \<Rightarrow> environment \<Rightarrow> ('o, 'z) handlers \<Rightarrow> nat \<Rightarrow> nat \<Rightarrow> nat \<Rightarrow> ('o, 'z) malloc_state_scheme \<Rightarrow>
   (int \<times> addr option \<times> ('o, 'z) malloc_state_scheme) res" where
  "tc_posix_memalign os env hs me align sz st =
     (if align mod 8 \<noteq> 0 \<or> align AND sub64 align 1 \<noteq> 0 \<or> align = 0 then Inr (EINVAL, None, st)
      else
        bind_res (after_stats (no_throw (do_memalign_or_cpp_memalign os env hs me align sz st))) (\<lambda>(result, st).
        if result = 0 then Inr (ENOMEM, None, st) else Inr (0, Some result, st)))"

definition set_pagesize :: "'o os \<Rightarrow> ('o, 'z) malloc_state_scheme \<Rightarrow> ('o, 'z) malloc_state_scheme" where
  "set_pagesize os st = (if valloc_pagesize st = 0 then st\<lparr>valloc_pagesize := os_getpagesize os\<rparr> else st)"

definition tc_valloc ::
  "'o os \<Rightarrow> environment \<Rightarrow> ('o, 'z) handlers \<Rightarrow> nat \<Rightarrow> nat \<Rightarrow> ('o, 'z) malloc_state_scheme \<Rightarrow> (addr \<times> ('o, 'z) malloc_state_scheme) res" where
  "tc_valloc os env hs me sz st =
     (let st = set_pagesize os st
      in after_stats (no_throw (do_memalign_or_cpp_memalign os env hs me (valloc_pagesize st) sz st)))"

definition pvalloc_size :: "nat \<Rightarrow> nat \<Rightarrow> nat" where
  "pvalloc_size pgsize sz =
     (let sz = (if sz = 0 then pgsize else sz)
      in sub64 (add64 sz pgsize) 1 AND (2 ^ 64 - 1 - sub64 pgsize 1))"

definition tc_pvalloc ::
  "'o os \<Rightarrow> environment \<Rightarrow> ('o, 'z) handlers \<Rightarrow> nat \<Rightarrow> nat \<Rightarrow> ('o, 'z) malloc_state_scheme \<Rightarrow> (addr \<times> ('o, 'z) malloc_state_scheme) res" where
  "tc_pvalloc os env hs me sz st =
     (let st = set_pagesize os st
      in after_stats (no_throw (do_memalign_or_cpp_memalign os env hs me (valloc_pagesize st) (pvalloc_size (valloc_pagesize st) sz) st)))"

definition tc_malloc_stats ::
  "'o os \<Rightarrow> environment \<Rightarrow> ('o, 'z) handlers \<Rightarrow> nat \<Rightarrow> ('o, 'z) malloc_state_scheme \<Rightarrow> (stats_report \<times> ('o, 'z) malloc_state_scheme) res" where
  "tc_malloc_stats os env hs me st = no_throw (PrintStats os env hs me 1 st)"

text \<open>The registered extension is the one of this file; another one would answer for itself (\<open>other\<close>).\<close>

definition tc_malloc_size ::
  "(addr \<Rightarrow> nat) \<Rightarrow> addr \<Rightarrow> ('o, 'z) malloc_state_scheme \<Rightarrow> (nat \<times> ('o, 'z) malloc_state_scheme) res" where
  "tc_malloc_size other ptr st = (if extension st \<noteq> 0 then GetAllocatedSize ptr st else Inr (other ptr, st))"

definition tc_malloc_skip_new_handler ::
  "'o os \<Rightarrow> environment \<Rightarrow> nat \<Rightarrow> nat \<Rightarrow> ('o, 'z) malloc_state_scheme \<Rightarrow> (addr \<times> ('o, 'z) malloc_state_scheme) res" where
  "tc_malloc_skip_new_handler os env me sz st = after_stats (do_malloc os env me sz st)"

section \<open>Start and end of the process\<close>

definition malloc_free :: "'o os \<Rightarrow> environment \<Rightarrow> ('o, 'z) handlers \<Rightarrow> nat \<Rightarrow> nat \<Rightarrow> ('o, 'z) malloc_state_scheme \<Rightarrow> ('o, 'z) malloc_state_scheme res" where
  "malloc_free os env hs me sz st = bind_res (tc_malloc os env hs me sz st) (\<lambda>(p, st). tc_free os me p st)"

text \<open>\<open>uname\<close> is the answer of that call, \<open>valgrind\<close> whether the process runs under valgrind.\<close>

definition TCMallocGuard_new ::
  "'o os \<Rightarrow> environment \<Rightarrow> ('o, 'z) handlers \<Rightarrow> (string \<times> string) option \<Rightarrow> bool \<Rightarrow> nat \<Rightarrow> ('o, 'z) malloc_state_scheme \<Rightarrow>
   ('o, 'z) malloc_state_scheme res" where
  "TCMallocGuard_new os env hs uname valgrind me st =
     (let n = tcmallocguard_refcount st; st = st\<lparr>tcmallocguard_refcount := to_int32 (n + 1)\<rparr>
      in if n = 0 then
           bind_res (malloc_free os env hs me 1 (CheckIfKernelSupportsTLS uname st)) (\<lambda>st.
           bind_res (malloc_free os env hs me 1 (InitTSD st)) (\<lambda>st.
           if valgrind then Inr st
           else
             bind_res (no_throw (tc_new os env hs me 16 st)) (\<lambda>(p, st).
             Inr (st\<lparr>extra_bytes_released := 0, extension := p\<rparr>))))
         else Inr st)"

definition TCMallocGuard_delete ::
  "'o os \<Rightarrow> environment \<Rightarrow> ('o, 'z) handlers \<Rightarrow> nat \<Rightarrow> ('o, 'z) malloc_state_scheme \<Rightarrow> ('o, 'z) malloc_state_scheme res" where
  "TCMallocGuard_delete os env hs me st =
     (let n = to_int32 (tcmallocguard_refcount st - 1); st = st\<lparr>tcmallocguard_refcount := n\<rparr>
      in if n = 0 then bind_res (no_throw (PrintStats os env hs me 1 st)) (\<lambda>(_, st). Inr st) else Inr st)"

end
