(* ===== verification/Tcmalloc_Correct.thy ===== *)
theory Tcmalloc_Correct
  imports Tcmalloc Thread_Cache_Limits
begin

text \<open>
  The allocation functions keep their contracts: error returns of \<open>calloc\<close>, \<open>posix_memalign\<close> and the operators
  \<open>new\<close>, what \<open>realloc\<close> keeps of the contents, and the numeric properties of the extension interface.
\<close>

section \<open>Overflow in \<open>calloc\<close>\<close>

text \<open>The test by division finds exactly the products that do not fit.\<close>

lemma mult_check:
  assumes n: "n < 2 ^ 64" and e: "0 < e"
  shows "wrap64 (n * e) div e \<noteq> n \<longleftrightarrow> 2 ^ 64 \<le> n * e"
proof (cases "2 ^ 64 \<le> n * e")
  case True
  have "wrap64 (n * e) < n * e" using True by (simp add: wrap64_def)
  then show ?thesis using True e by (metis div_mult_self_is_m div_le_mono less_mult_imp_div_less nat_less_le)
next
  case False
  then show ?thesis using e by (simp add: wrap64_def)
qed

section \<open>Exceptions of \<open>new\<close>\<close>

definition new_ok :: "nat \<Rightarrow> bool \<Rightarrow> (exn + addr) \<times> ('o, 'z) malloc_state_scheme \<Rightarrow> bool" where
  "new_ok me nothrow r = (case r of (Inl e, st) \<Rightarrow> \<not> (nothrow \<and> e = bad_alloc)
     | (Inr p, st) \<Rightarrow> p \<noteq> 0 \<or> nothrow \<and> errno st me = ENOMEM)"

lemma errno_set [simp]: "errno (set_errno me e st) me = e"
  by (simp add: set_errno_def)

lemma cpp_alloc_loop_ok:
  fixes st :: "('o, 'z) malloc_state_scheme"
  assumes "cpp_alloc_loop os env hs me sz nothrow st = Some r"
  shows "always (new_ok me nothrow) r"
proof (rule cpp_alloc_loop.raw_induct [OF _ assms])
  fix loop and os :: "'o os" and env and hs :: "('o, 'z) handlers" and me sz nothrow and st :: "('o, 'z) malloc_state_scheme" and r
  assume IH: "\<And>os env hs me sz nothrow st r. loop os env hs me sz nothrow st = Some r \<Longrightarrow> always (new_ok me nothrow) r"
    and r: "(case do_malloc_no_errno os env me sz st of Inl f \<Rightarrow> Some (Inl f)
      | Inr (p, st) \<Rightarrow> if p \<noteq> 0 then Some (Inr (Inr p, st))
          else if new_handler st = 0 then Some (Inr (if nothrow then (Inr 0, set_errno me ENOMEM st) else (Inl bad_alloc, st)))
          else (case hs (new_handler st) st of Inl f \<Rightarrow> Some (Inl f)
             | Inr (e, st) \<Rightarrow> if e = Some bad_alloc \<and> nothrow then Some (Inr (Inr 0, set_errno me ENOMEM st))
                 else if e \<noteq> None then Some (Inr (Inl (the e), st))
                 else loop os env hs me sz nothrow st)) = Some r"
  show "always (new_ok me nothrow) r"
    using r by (auto simp: new_ok_def dest: IH split: sum.splits prod.splits if_splits)
qed

lemma cpp_alloc_ok: "always (new_ok me nothrow) (cpp_alloc os env hs me sz nothrow st)"
  by (auto simp: cpp_alloc_def dest: cpp_alloc_loop_ok split: option.splits)

section \<open>The contents of blocks\<close>

text \<open>What the application can see besides its blocks: their contents, \<open>errno\<close>, the new mode and handler.\<close>

definition app where
  "app st = (data st, errno st, tc_new_mode st, new_handler st)"

lemma app_above: "tc_state.more st' = tc_state.more st \<Longrightarrow> app st' = app st"
  by (cases st, cases st') (simp add: app_def)

lemma app_acct: "acct st' = acct st \<Longrightarrow> app st' = app st"
  by (rule app_above) (simp add: acct_def)

lemma upd_tc_more: "tc_state.more st = m \<Longrightarrow> always (\<lambda>st. tc_state.more st = m) (upd_tc h f st)"
  by (auto simp: always_iff upd_tc_def bind_res_Inr_iff)

lemma tc_more_acct:
  "(\<And>m. acct st = m \<Longrightarrow> always (\<lambda>(a, st). acct st = m) r) \<Longrightarrow> tc_state.more st = m \<Longrightarrow> always (\<lambda>(a, st). tc_state.more st = m) r"
  by (force simp: always_iff acct_def)

lemma tc_more_acct1:
  "(\<And>m. acct st = m \<Longrightarrow> always (\<lambda>st. acct st = m) r) \<Longrightarrow> tc_state.more st = m \<Longrightarrow> always (\<lambda>st. tc_state.more st = m) r"
  by (force simp: always_iff acct_def)

lemma tc_more_central: "central.more st' = central.more st \<Longrightarrow> tc_state.more st' = tc_state.more st"
  using acct_above [of st' st] by (simp add: acct_def)

lemmas upd_tc_more_frame = upd_tc_more always_bind [OF upd_tc_more]

lemma steal_loop_more: "tc_state.more st = m \<Longrightarrow> always (\<lambda>st. tc_state.more st = m) (steal_loop k h st)"
proof (induction k arbitrary: st)
  case (Suc k)
  show ?case unfolding steal_loop.simps Let_def
    by (insert Suc.prems, (simp only: prod.case | rule upd_tc_more_frame Suc.IH always_steps | assumption | simp)+)
qed simp

lemma IncreaseCacheLimitLocked_more: "tc_state.more st = m \<Longrightarrow> always (\<lambda>st. tc_state.more st = m) (IncreaseCacheLimitLocked h st)"
  unfolding IncreaseCacheLimitLocked_def
  by (simp only: prod.case | rule upd_tc_more_frame steal_loop_more always_steps | assumption | simp)+

lemmas more_frame = upd_tc_more_frame always_bind [OF IncreaseCacheLimitLocked_more]
  always_bind2 [OF tc_more_acct [OF map_bufs_acct]] tc_more_acct1 [OF init_classes_acct]

lemma TC_Init_more: "tc_state.more st = m \<Longrightarrow> always (\<lambda>st. tc_state.more st = m) (TC_Init os apf h me st)"
  unfolding TC_Init_def Let_def
  by (simp only: prod.case | rule more_frame always_steps | assumption | simp)+

lemma PHA_New_tc_more: "tc_state.more st = m \<Longrightarrow> always (\<lambda>(p, a, st). tc_state.more st = m) (PHA_New os sz a links st)"
  using PHA_New_keep [OF refl, of st os sz a links] tc_more_central by (fastforce simp: always_iff)

lemma NewHeap_more: "tc_state.more st = m \<Longrightarrow> always (\<lambda>(h, st). tc_state.more st = m) (NewHeap os apf me st)"
  unfolding NewHeap_def Let_def
  by (simp only: prod.case | rule always_bind3 [OF PHA_New_tc_more] always_bind [OF TC_Init_more] more_frame always_steps | assumption | simp)+

lemma CreateCacheIfNecessary_more: "tc_state.more st = m \<Longrightarrow> always (\<lambda>(h, st). tc_state.more st = m) (CreateCacheIfNecessary os env me st)"
  unfolding CreateCacheIfNecessary_def Let_def SetMinSizeForSlowPath_def
  by (simp only: prod.case | rule always_bind2 [OF NewHeap_more] more_frame always_steps | assumption | simp)+

lemma scale_heaps_more: "tc_state.more st = m \<Longrightarrow> always (\<lambda>(c, st). tc_state.more st = m) (scale_heaps r hs c st)"
proof (induction hs arbitrary: c st)
  case (Cons h hs)
  show ?case unfolding scale_heaps.simps
    by (insert Cons.prems, (simp only: prod.case | rule upd_tc_more_frame Cons.IH always_steps | assumption | simp)+)
qed simp

lemma set_overall_more: "tc_state.more st = m \<Longrightarrow> always (\<lambda>st. tc_state.more st = m) (set_overall_thread_cache_size n st)"
  unfolding set_overall_thread_cache_size_def RecomputePerThreadCacheSize_def Let_def
  by (rule always_skip, rule always_bind2 [OF scale_heaps_more], simp_all)

lemma InitModule_more:
  fixes st :: "('o, 'z) tc_state_scheme"
  assumes m: "tc_state.more st = m"
  shows "always (\<lambda>st. tc_state.more st = m) (InitModule os env st)"
  unfolding InitModule_def
proof (rule always_if)
  have 1: "always (\<lambda>st. tc_state.more st = m) (case env_cache_bytes env of None \<Rightarrow> Inr st | Some v \<Rightarrow> set_overall_thread_cache_size (nat (v mod 2 ^ 64)) st)"
    using set_overall_more [OF m] m by (cases "env_cache_bytes env") simp_all
  have 2: "always (\<lambda>st. tc_state.more st = m) (InitStaticVars os e f g st)" if "tc_state.more st = m"
    for st :: "('o, 'z) tc_state_scheme" and e f g
    using InitStaticVars_keep [OF refl, of st os e f g] tc_more_central that by (fastforce simp: always_iff)
  have 3: "always (\<lambda>(a, l, st). tc_state.more st = m) (PHA_Init os sz links st)" if "tc_state.more st = m"
    for st :: "('o, 'z) tc_state_scheme" and sz links
    using PHA_Init_keep [OF refl, of st os sz links] tc_more_central that by (fastforce simp: always_iff)
  show "always (\<lambda>st. tc_state.more st = m) (bind_res (case env_cache_bytes env of None \<Rightarrow> Inr st | Some v \<Rightarrow> set_overall_thread_cache_size (nat (v mod 2 ^ 64)) st) (\<lambda>st.
        bind_res (InitStaticVars os (env_transfer env) (env_transfer_flag env) (env_aggressive env) st) (\<lambda>st.
        bind_res (PHA_Init os sizeof_ThreadCache (cache_links st) st) (\<lambda>(pha, links, st).
        Inr (st\<lparr>threadcache_allocator := pha, cache_links := links, phinited := True\<rparr>)))))"
    by (rule always_bind [OF 1], rule always_bind [OF 2], assumption, rule always_bind3 [OF 3]) simp_all
qed (simp add: m)

lemma GetCache_more: "tc_state.more st = m \<Longrightarrow> always (\<lambda>(h, st). tc_state.more st = m) (GetCache os env me st)"
  unfolding GetCache_def
  by (simp only: prod.case | rule always_bind [OF InitModule_more] CreateCacheIfNecessary_more always_if always_bind_if always_bind_assoc always_bind_Inr | assumption | simp)+

section \<open>Allocating and freeing leave the application's view alone\<close>

lemma app_heap: "heap.more st' = heap.more st \<Longrightarrow> app st' = app st"
  by (rule app_above, rule tc_more_central, rule central_above)

lemma app_call1:
  fixes st :: "('o, 'z) malloc_state_scheme"
  assumes "\<And>m. heap.more st = m \<Longrightarrow> always (\<lambda>st. heap.more st = m) r" "app st = m"
  shows "always (\<lambda>st. app st = m) r"
  using assms(1) [OF refl] assms(2) by (auto simp: always_iff dest!: app_heap)

lemma app_call2:
  fixes st :: "('o, 'z) malloc_state_scheme"
  assumes "\<And>m. heap.more st = m \<Longrightarrow> always (\<lambda>(a, st). heap.more st = m) r" "app st = m"
  shows "always (\<lambda>(a, st). app st = m) r"
  using assms(1) [OF refl] assms(2) by (auto simp: always_iff dest!: app_heap)

lemma app_Allocate: "app st = m \<Longrightarrow> always (\<lambda>(a, st). app st = m) (Allocate os h sz cl st)"
  using Allocate_acct [OF refl, of st os h sz cl] app_acct by (fastforce simp: always_iff)

lemma app_Deallocate: "app st = m \<Longrightarrow> always (\<lambda>st. app st = m) (Deallocate os h p cl st)"
  using Deallocate_acct [OF refl, of st os h p cl] app_acct by (fastforce simp: always_iff)

lemma app_InsertRange: "app st = m \<Longrightarrow> always (\<lambda>st. app st = m) (InsertRange os cl x y n st)"
  using InsertRange_acct [OF refl, of st os cl x y n] app_acct by (fastforce simp: always_iff)

lemma app_GetCache: "app st = m \<Longrightarrow> always (\<lambda>(a, st). app st = m) (GetCache os env me st)"
  using GetCache_more [OF refl, of st os env me] app_above by (fastforce simp: always_iff)

lemma app_CacheSizeClass [simp]: "app (CacheSizeClass p cl st) = app st"
  by (rule app_heap) simp

lemma app_on_objs: "app st = m \<Longrightarrow> always (\<lambda>st. app st = m) (on_objs f st)"
  by (auto simp: always_iff on_objs_def bind_res_Inr_iff app_def)

lemmas app_frame = app_Allocate always_bind2 [OF app_Allocate] app_Deallocate app_InsertRange always_bind2 [OF app_GetCache]
  app_call1 [OF Delete_keep] always_bind [OF app_call1 [OF on_spans_keep]] app_call1 [OF on_spans_keep]
  always_bind2 [OF app_call2 [OF New_keep]] always_bind [OF app_on_objs]

lemma app_SpanToMallocResult: "app st = m \<Longrightarrow> always (\<lambda>(a, st). app st = m) (SpanToMallocResult sp st)"
  unfolding SpanToMallocResult_def by (rule always_skip) simp

lemma app_should_report [simp]: "app (snd (should_report_large n st)) = app st"
  by (simp add: should_report_large_def app_def Let_def)

lemma app_malloc_no_errno: "app st = m \<Longrightarrow> always (\<lambda>(a, st). app st = m) (do_malloc_no_errno os env me sz st)"
proof -
  have small: "always (\<lambda>(a, st). app st = m) (do_malloc_small os h sz st)" if "app st = m" for h st
    unfolding do_malloc_small_def by (intro always_skip app_Allocate that)
  have large: "always (\<lambda>(a, st). app st = m) (do_malloc_pages os h sz st)" if "app st = m" for h and st :: "('a, 'b) malloc_state_scheme"
    unfolding do_malloc_pages_def Let_def
  proof (rule always_bind2 [OF app_call2 [OF New_keep that]], assumption, goal_cases)
    case (1 sp st1)
    have "always (\<lambda>(a, st). app st = m) (span_result (sp, st1))"
      using 1 by (cases sp) (simp_all add: span_result_def app_SpanToMallocResult)
    then show ?case by (rule always_bind2) simp
  qed
  assume st: "app st = m"
  show ?thesis unfolding do_malloc_no_errno_def
    by (insert st, (simp only: prod.case | rule small large app_frame always_if | assumption)+)
qed

lemma app_free: "app st = m \<Longrightarrow> always (\<lambda>st. app st = m) (do_free_with_callback os me ptr InvalidFree st)"
proof -
  have null: "always (\<lambda>st. app st = m) (free_null_or_invalid ptr InvalidFree st)" if "app st = m" for st :: "('a, 'b) malloc_state_scheme"
    using that by (simp add: free_null_or_invalid_def InvalidFree_def)
  have obj: "always (\<lambda>st. app st = m) (free_object os ptr cl h b st)" if "app st = m" for cl h b and st :: "('a, 'b) malloc_state_scheme"
    unfolding free_object_def by (insert that, (rule app_frame always_if | assumption)+)
  have large: "always (\<lambda>st. app st = m) (free_large os sp st)" if "app st = m" for sp and st :: "('a, 'b) malloc_state_scheme"
    unfolding free_large_def
    by (insert that, rule always_skip, (rule always_bind_if always_bind_assoc app_frame always_bind_Inr | assumption)+)
  have helper: "always (\<lambda>st. app st = m) (do_free_helper os ptr InvalidFree h b st)" if "app st = m" for h b and st :: "('a, 'b) malloc_state_scheme"
    unfolding do_free_helper_def Let_def
    by (insert that, (rule null obj large always_if always_skip | assumption | simp)+)
  assume "app st = m"
  then show ?thesis unfolding do_free_with_callback_def by (intro always_if helper)
qed

section \<open>\<open>realloc\<close>\<close>

lemma app_GetSize: "app st = m \<Longrightarrow> always (\<lambda>(a, st). app st = m) (GetSizeWithCallback ptr f st)"
  unfolding GetSizeWithCallback_def Let_def by (rule always_if always_skip | assumption | simp)+

lemma app_set_errno: "data (set_errno me e st) = data st" "tc_new_mode (set_errno me e st) = tc_new_mode st"
  by (simp_all add: set_errno_def)

lemma appD: "app st = app st1 \<Longrightarrow> data st = data st1 \<and> tc_new_mode st = tc_new_mode st1 \<and> errno st = errno st1"
  by (simp add: app_def)

lemma C_malloc:
  assumes "tc_new_mode st = 0"
  shows "always (\<lambda>(v, st'). \<exists>p. v = Inr p \<and> data st' = data st \<and> tc_new_mode st' = 0) (do_malloc_no_errno_or_cpp_alloc os env hs me sz st)"
    "always (\<lambda>(v, st'). \<exists>p. v = Inr p \<and> data st' = data st \<and> tc_new_mode st' = 0 \<and> (p = 0 \<longrightarrow> errno st' me = ENOMEM))
       (do_malloc_or_cpp_alloc os env hs me sz st)"
proof -
  note m = app_malloc_no_errno [OF refl, of st os env me sz]
  show "always (\<lambda>(v, st'). \<exists>p. v = Inr p \<and> data st' = data st \<and> tc_new_mode st' = 0) (do_malloc_no_errno_or_cpp_alloc os env hs me sz st)"
    using m assms by (cases "do_malloc_no_errno os env me sz st")
      (auto simp: do_malloc_no_errno_or_cpp_alloc_def returning_def dest!: appD)
  show "always (\<lambda>(v, st'). \<exists>p. v = Inr p \<and> data st' = data st \<and> tc_new_mode st' = 0 \<and> (p = 0 \<longrightarrow> errno st' me = ENOMEM))
       (do_malloc_or_cpp_alloc os env hs me sz st)"
    using m assms by (cases "do_malloc_no_errno os env me sz st")
      (auto simp: do_malloc_or_cpp_alloc_def do_malloc_def returning_def app_set_errno dest!: appD)
qed

definition realloc_keeps where
  "realloc_keeps old_ptr old_size new_size st p st' \<longleftrightarrow>
     (if p = 0 then data st' = data st
      else if new_size \<le> old_size \<and> old_size div 2 \<le> new_size then p = old_ptr \<and> data st' = data st
      else data st' = (\<lambda>a. if p \<le> a \<and> a < p + min old_size new_size then data st (old_ptr + (a - p)) else data st a))"

lemma always_bind_exn:
  "always (\<lambda>(v, st). \<exists>p. v = Inr p \<and> Q p st) r \<Longrightarrow> (\<And>p st. Q p st \<Longrightarrow> always P (f p st)) \<Longrightarrow> always P (bind_exn r f)"
  unfolding bind_exn_def by (rule always_bind2, assumption) auto

lemma do_realloc_keeps:
  assumes new_mode: "tc_new_mode st = 0" and size: "GetSizeWithCallback old_ptr InvalidGetSizeForRealloc st = Inr (old_size, st1)"
  shows "always (\<lambda>(v, st'). \<exists>p. v = Inr p \<and> realloc_keeps old_ptr old_size new_size st p st') (do_realloc os env hs me old_ptr new_size st)"
proof -
  have 1: "data st1 = data st" "tc_new_mode st1 = 0"
    using app_GetSize [OF refl, of st old_ptr InvalidGetSizeForRealloc] size new_mode by (auto dest: appD)
  let ?n = "if old_size < new_size then old_size else new_size"
  have free: "always (\<lambda>(v, st'). \<exists>p. v = Inr p \<and> realloc_keeps old_ptr old_size new_size st p st')
      (bind_res (do_free_with_callback os me old_ptr InvalidFree (memcpy p old_ptr ?n st2)) (\<lambda>st. Inr (Inr p, st)))"
    if "realloc_needed old_size new_size" "p \<noteq> 0" "data st2 = data st" for p and st2 :: "('a, 'b) malloc_state_scheme"
    by (rule always_bind [OF app_free [OF refl]])
      (use that in \<open>auto simp: realloc_keeps_def realloc_needed_def memcpy_def min_def app_def\<close>)
  show ?thesis
    unfolding do_realloc_def do_realloc_with_callback_def size bind_res.simps prod.case Let_def
  proof (rule always_if, rule always_bind_exn [where Q = "\<lambda>p st2. data st2 = data st \<and> tc_new_mode st2 = 0"], goal_cases)
    case 1
    show ?case using C_malloc(1) [where st = st1] \<open>data st1 = data st\<close> \<open>tc_new_mode st1 = 0\<close> by (simp add: always_iff) 
  next
    case (2 p st2)
    then show ?case
    proof (intro always_bind_exn [where Q = "\<lambda>p st2. data st2 = data st"] always_if, goal_cases)
      case 1
      then show ?case using C_malloc(2) [where st = st2 and os = os and env = env and hs = hs and me = me and sz = new_size] by (auto simp: always_iff)
    next
      case (4 p1 st3)
      then show ?case using free [of p1 st3] by simp
    qed (auto simp: realloc_keeps_def)
  next
    case 3
    then show ?case using 1 by (auto simp: realloc_needed_def realloc_keeps_def)
  qed
qed

section \<open>Powers of two\<close>

lemma and_pred_pow2:
  fixes n :: nat
  assumes "0 < n"
  shows "n AND (n - 1) = 0 \<longleftrightarrow> (\<exists>k. n = 2 ^ k)"
proof
  assume "\<exists>k. n = 2 ^ k"
  then obtain k where k: "n = 2 ^ k" by blast
  have "n AND (n - 1) = take_bit k n" unfolding k by (simp only: take_bit_eq_mask mask_eq_exp_minus_1)
  then show "n AND (n - 1) = 0" by (simp add: k take_bit_eq_mod)
next
  assume z: "n AND (n - 1) = 0"
  define k where "k = floorlog 2 n - 1"
  have k: "2 ^ k \<le> n" "n < 2 ^ Suc k"
    using floorlog2_bounds [OF assms] floorlog2_pos [OF assms] by (auto simp: k_def)
  have top: "bit m k" if "2 ^ k \<le> m" "m < 2 ^ Suc k" for m :: nat
  proof -
    have "m div 2 ^ k = 1" by (rule div_nat_eqI) (use that in simp_all)
    then show ?thesis by (simp add: bit_iff_odd)
  qed
  have "\<not> 2 ^ k \<le> n - 1"
  proof
    assume "2 ^ k \<le> n - 1"
    then have "bit (n AND (n - 1)) k" using top [of n] top [of "n - 1"] k by (simp add: bit_and_iff)
    then show False using z by simp
  qed
  then show "\<exists>k. n = 2 ^ k" using k(1) by (intro exI [of _ k]) simp
qed

lemma posix_alignment:
  assumes "a < 2 ^ 64"
  shows "(a mod 8 \<noteq> 0 \<or> a AND sub64 a 1 \<noteq> 0 \<or> a = 0) \<longleftrightarrow> (\<nexists>k. 3 \<le> k \<and> a = 2 ^ k)"
proof (cases "a = 0")
  case False
  have s: "sub64 a 1 = a - 1" using False assms by (intro sub64_id) auto
  have e: "(2::nat) ^ k mod 8 = 0 \<longleftrightarrow> 3 \<le> k" for k
  proof
    assume "(2::nat) ^ k mod 8 = 0"
    then have "(2::nat) ^ 3 dvd 2 ^ k" by (simp add: mod_0_imp_dvd)
    then show "3 \<le> k" by (rule power_dvd_imp_le) simp
  next
    assume "3 \<le> k"
    then have "(2::nat) ^ 3 dvd 2 ^ k" by (rule le_imp_power_dvd)
    then show "(2::nat) ^ k mod 8 = 0" by simp
  qed
  show ?thesis unfolding s using and_pred_pow2 [of a] False e by (metis neq0_conv)
qed auto

lemma and_high_bits:
  fixes x :: nat
  assumes x: "x < 2 ^ 64" and k: "k < 64"
  shows "x AND (2 ^ 64 - 2 ^ k) = x div 2 ^ k * 2 ^ k"
proof -
  have "(2::nat) ^ k * 2 ^ (64 - k) = 2 ^ 64" using k by (simp flip: power_add)
  then have m: "2 ^ 64 - 2 ^ k = push_bit k (mask (64 - k) :: nat)"
    by (simp add: push_bit_eq_mult mask_eq_exp_minus_1 diff_mult_distrib diff_mult_distrib2 mult.commute [of _ "2 ^ k"])
  have b: "bit x i \<Longrightarrow> i < 64" for i
    using x by (metis bit_take_bit_iff take_bit_nat_eq_self)
  have "x AND (2 ^ 64 - 2 ^ k) = push_bit k (drop_bit k x)" unfolding m
    by (rule bit_eqI) (use k b in \<open>auto simp: bit_and_iff bit_push_bit_iff bit_mask_iff bit_drop_bit_eq intro!: diff_less_mono\<close>)
  then show ?thesis by (simp add: push_bit_eq_mult drop_bit_eq_div)
qed

lemma pvalloc_size_value:
  assumes k: "k < 64" and sz: "sz < 2 ^ 64"
  shows "pvalloc_size (2 ^ k) sz =
    (if sz = 0 then 2 ^ k else if sz + 2 ^ k \<le> 2 ^ 64 then (sz + 2 ^ k - 1) div 2 ^ k * 2 ^ k else 0)"
proof -
  define r where "r = (if sz = 0 then 2 ^ k else sz)"
  have p: "(2::nat) ^ k < 2 ^ 64" using k by (intro power_strict_increasing) simp_all
  have r: "0 < r" "r < 2 ^ 64" using sz p by (auto simp: r_def)
  have m: "2 ^ 64 - 1 - sub64 (2 ^ k) 1 = 2 ^ 64 - (2::nat) ^ k" using p by (subst sub64_id) auto
  define x where "x = sub64 (add64 r (2 ^ k)) 1"
  have x: "x = (if r + 2 ^ k \<le> 2 ^ 64 then r + 2 ^ k - 1 else r + 2 ^ k - 1 - 2 ^ 64)"
  proof (cases "r + 2 ^ k < 2 ^ 64")
    case True
    then show ?thesis unfolding x_def using r(1) by (simp add: add64_id sub64_id)
  next
    case False
    then have "add64 r (2 ^ k) = r + 2 ^ k - 2 ^ 64" using r(2) p by (simp add: add64_def wrap64_def mod_if)
    then show ?thesis unfolding x_def using False r(2) p
      by (cases "r + 2 ^ k = 2 ^ 64") (simp add: sub64_def wrap64_def, subst sub64_id, auto)
  qed
  have "pvalloc_size (2 ^ k) sz = x div 2 ^ k * 2 ^ k"
    unfolding pvalloc_size_def Let_def m r_def [symmetric] x_def [symmetric] using x r p k by (intro and_high_bits) auto
  also have "\<dots> = (if sz = 0 then 2 ^ k else if sz + 2 ^ k \<le> 2 ^ 64 then (sz + 2 ^ k - 1) div 2 ^ k * 2 ^ k else 0)"
  proof (cases "r + 2 ^ k \<le> 2 ^ 64")
    case True
    have "(2 ^ k + 2 ^ k - 1) div 2 ^ k = (1::nat)" by (rule div_nat_eqI) simp_all
    then show ?thesis using True x by (cases "sz = 0") (simp_all add: r_def)
  next
    case False
    then have "x < 2 ^ k" using x r by simp
    moreover have "sz \<noteq> 0"
    proof
      assume "sz = 0"
      moreover have "(2::nat) ^ k \<le> 2 ^ 63" using k by (intro power_increasing) simp_all
      ultimately show False using False by (simp add: r_def)
    qed
    ultimately show ?thesis using False by (simp add: r_def)
  qed
  finally show ?thesis .
qed

section \<open>The bound on the thread caches\<close>

lemma scale_heaps_overall: "scale_heaps r hs c st = Inr (c', st') \<Longrightarrow> overall_thread_cache_size st' = overall_thread_cache_size st"
proof (induction hs arbitrary: c st)
  case (Cons h hs)
  then show ?case by (auto simp: bind_res_Inr_iff upd_tc_def split: if_splits)
qed simp

lemma set_overall_value:
  assumes "set_overall_thread_cache_size v st = Inr st'"
  shows "overall_thread_cache_size st' = min (2 ^ 30) (max (2 ^ 19) v)"
proof -
  have m: "kMinThreadCacheSize = 2 ^ 19" by (simp add: kMinThreadCacheSize_def kMaxSize_def)
  have "overall_thread_cache_size st' = (if (if int v < 2 ^ 19 then 2 ^ 19 else v) > 2 ^ 30 then 2 ^ 30 else if int v < 2 ^ 19 then 2 ^ 19 else v)"
    using assms unfolding set_overall_thread_cache_size_def RecomputePerThreadCacheSize_def Let_def m
    by (auto simp: bind_res_Inr_iff dest!: scale_heaps_overall)
  then show ?thesis by (auto simp: min_def max_def)
qed

section \<open>A heap with one block\<close>

text \<open>The state after start with one large block of ten pages in use, for concrete examples.\<close>

definition one_malloc :: "nat malloc_state" where
  "one_malloc = malloc_statics 0 (thread_statics (heap.extend one_heap
     \<lparr> sizemap = SizeMap_zero, central_cache = [], objs = (\<lambda>_. 0), race_counter = 0, comm_times = 0, pageheap = 4096 \<rparr>))"

definition no_env :: environment where
  "no_env = \<lparr> env_cache_bytes = None, env_apf = None, env_transfer = None, env_transfer_flag = 32, env_aggressive = False \<rparr>"

definition no_handlers :: "(nat, unit) handlers" where "no_handlers h st = Inr (None, st)"

lemmas one_malloc_defs = one_malloc_def malloc_statics_def thread_statics_def malloc_state.defs tc_state.defs central.defs heap.defs

lemma one_malloc_simps [simp]:
  "spans one_malloc = spans one_heap" "pagemap one_malloc = pagemap one_heap" "pagemap_cache one_malloc = \<lparr> entries = (\<lambda>_. 0) \<rparr>"
  "pageheap one_malloc = 4096" "tc_new_mode one_malloc = 0" "data one_malloc = (\<lambda>_. 0)" "errno one_malloc = (\<lambda>_. 0)" "sizemap one_malloc = SizeMap_zero"
  "free_bytes one_malloc = free_bytes one_heap" "unmapped_bytes one_malloc = unmapped_bytes one_heap" "os_st one_malloc = os_st one_heap"
  by (simp_all add: one_malloc_defs one_heap_def brk_heap_def meta_state.defs)

lemma hinv_truncate: "hinv os owned H F st = hinv os owned H F (heap.truncate st)"
  by (simp add: hinv_def hcore_def hgen_def hgen0_def mem_ok_def pha_inv_def meta_inv_def chunk_def sys_inv_def heap.defs)

lemma one_malloc_inv: "hinv brk_os brk_owned heads (\<lambda>_. []) one_malloc"
proof -
  have "heap.truncate one_malloc = one_heap" by (simp add: one_malloc_defs)
  then show ?thesis using hinv_truncate [of _ _ _ _ one_malloc] one_heap_inv by simp
qed

lemma one_malloc_uncached: "GetSizeClassIfCached p one_malloc = 0"
  by (simp add: GetSizeClassIfCached_def GetOrDefault_def EntryToValue_def Let_def)

section \<open>Properties\<close>

text \<open>
  C25: \<open>calloc\<close> returns NULL and changes nothing when the product of its arguments does not fit in \<open>size_t\<close>.
  Otherwise a block it returns reads as zero over the whole product, every other byte keeps its
  contents, and a NULL result sets \<open>errno\<close> to \<open>ENOMEM\<close>.
\<close>

theorem tc_calloc_overflow:
  assumes "n < 2 ^ 64" "elem_size < 2 ^ 64" "tc_new_mode st = 0"
  shows "(2 ^ 64 \<le> n * elem_size \<longrightarrow> tc_calloc os env hs me n elem_size st = Inr (0, st)) \<and>
    (n * elem_size < 2 ^ 64 \<longrightarrow> always (\<lambda>(p, st').
       if p = 0 then errno st' me = ENOMEM \<and> data st' = data st
       else \<forall>a. data st' a = (if p \<le> a \<and> a < p + n * elem_size then 0 else data st a))
     (tc_calloc os env hs me n elem_size st))"
proof (intro conjI impI)
  assume big: "2 ^ 64 \<le> n * elem_size"
  then have "0 < elem_size" by (cases elem_size) auto
  then show "tc_calloc os env hs me n elem_size st = Inr (0, st)"
    using mult_check [OF assms(1), of elem_size] big
    by (simp add: tc_calloc_def do_calloc_def Let_def no_throw_def after_stats_def mem_efficiency_stats_def)
next
  assume small: "n * elem_size < 2 ^ 64"
  then have w: "wrap64 (n * elem_size) = n * elem_size" "\<not> (elem_size \<noteq> 0 \<and> n * elem_size div elem_size \<noteq> n)" by (auto simp: wrap64_def)
  have "always (\<lambda>(v, st'). \<exists>p. v = Inr p \<and> (if p = 0 then errno st' me = ENOMEM \<and> data st' = data st
       else \<forall>a. data st' a = (if p \<le> a \<and> a < p + n * elem_size then 0 else data st a))) (do_calloc os env hs me n elem_size st)"
    unfolding do_calloc_def Let_def w(1) if_not_P [OF w(2)]
    by (rule always_bind_exn [OF C_malloc(1) [OF assms(3)]]) (auto simp: app_set_errno memset0_def)
  then show "always (\<lambda>(p, st'). if p = 0 then errno st' me = ENOMEM \<and> data st' = data st
       else \<forall>a. data st' a = (if p \<le> a \<and> a < p + n * elem_size then 0 else data st a)) (tc_calloc os env hs me n elem_size st)"
    unfolding tc_calloc_def after_stats_def no_throw_def mem_efficiency_stats_def
    by (cases "do_calloc os env hs me n elem_size st") auto
qed

theorem tc_calloc_overflow_witness:
  "tc_calloc brk_os no_env no_handlers 1 (2 ^ 33) (2 ^ 31) one_malloc = Inr (0, one_malloc)"
  using tc_calloc_overflow [of "2 ^ 33" "2 ^ 31" one_malloc brk_os no_env no_handlers 1] by simp

text \<open>
  C26: \<open>operator new\<close> without \<open>nothrow\<close> never returns NULL, and with \<open>nothrow\<close> it never throws \<open>bad_alloc\<close>: whatever the
  new handler does, failure is reported by a NULL result with \<open>errno\<close> set to \<open>ENOMEM\<close>.
\<close>

theorem cpp_alloc_contract:
  "always (\<lambda>(v, st'). case v of Inl e \<Rightarrow> \<not> (nothrow \<and> e = bad_alloc)
     | Inr p \<Rightarrow> if p = 0 then nothrow \<and> errno st' me = ENOMEM else True) (cpp_alloc os env hs me sz nothrow st)"
  using cpp_alloc_ok [of me nothrow os env hs sz st] by (fastforce simp: always_iff new_ok_def split: sum.splits)


lemma one_malloc_size: "GetSizeWithCallback 8192 f one_malloc = Inr (81920, one_malloc)"
proof -
  have "wf3 (pagemap one_malloc)" using hinvD(2) [OF one_malloc_inv] by (simp add: map_ok_def)
  then have "GetDescriptor 1 one_malloc = Inr (Obj 500000)"
    using GetDescriptor_eff [of one_malloc 1] by (simp add: one_heap_def one_map_view)
  moreover have "get_span (Obj 500000) one_malloc = Inr one_span" by (simp add: get_span_def one_heap_def)
  ultimately show ?thesis
    by (simp add: GetSizeWithCallback_def Let_def kPageShift_def one_malloc_uncached NULLspan_def one_span_def new_span_def page_bytes_id [unfolded kPageShift_def])
qed


text \<open>
  \<open>posix_memalign\<close> returns \<open>EINVAL\<close>, without allocating or writing the result, exactly for the alignments
  that are not a power of two that is a multiple of the size of a pointer.
\<close>

lemma posix_memalign_EINVAL:
  assumes "align < 2 ^ 64"
  shows "(if \<exists>k\<ge>3. align = 2 ^ k
      then always (\<lambda>(rc, ptr, st'). rc = 0 \<and> ptr \<noteq> None \<and> ptr \<noteq> Some 0 \<or> rc = ENOMEM \<and> ptr = None) (tc_posix_memalign os env hs me align sz st)
      else tc_posix_memalign os env hs me align sz st = Inr (EINVAL, None, st))"
proof (cases "\<exists>k\<ge>3. align = 2 ^ k")
  case True
  then have "\<not> (align mod 8 \<noteq> 0 \<or> align AND sub64 align 1 \<noteq> 0 \<or> align = 0)" using posix_alignment [OF assms] by blast
  then show ?thesis using True
    by (auto simp: tc_posix_memalign_def always_iff bind_res_Inr_iff split: if_splits)
next
  case False
  then have "align mod 8 \<noteq> 0 \<or> align AND sub64 align 1 \<noteq> 0 \<or> align = 0" using posix_alignment [OF assms] by blast
  then show ?thesis unfolding if_not_P [OF False] by (simp add: tc_posix_memalign_def)
qed

lemma posix_memalign_EINVAL_example:
  "tc_posix_memalign brk_os no_env no_handlers 1 4 100 one_malloc = Inr (EINVAL, None, one_malloc)"
proof -
  have "\<not> (\<exists>k\<ge>3. (4::nat) = 2 ^ k)"
  proof
    assume "\<exists>k\<ge>3. (4::nat) = 2 ^ k"
    then obtain k where "3 \<le> k" "(2::nat) ^ 2 = 2 ^ k" by auto
    then show False using power_inject_exp [of "2 :: nat" 2 k] by simp
  qed
  from posix_memalign_EINVAL [of 4 brk_os no_env no_handlers 1 100 one_malloc, unfolded if_not_P [OF this]] show ?thesis by simp
qed

text \<open>
  The bound on the thread caches that is set through \<open>SetNumericProperty\<close> is the one that
  \<open>GetNumericProperty\<close> reports, clamped to the range from 512 KB to 1 GB, in every state of the caches.
\<close>

lemma cache_bytes_property:
  assumes "cache_calls os n st" "n < 2 ^ 30"
  shows "returns (\<lambda>(ok, st'). ok \<and> GetNumericProperty ''tcmalloc.max_total_thread_cache_bytes'' st' = Inr (Some (min (2 ^ 30) (max (2 ^ 19) v))))
    (SetNumericProperty ''tcmalloc.max_total_thread_cache_bytes'' v st)"
proof -
  obtain hs where ok: "limits_ok n st hs" using cache_calls_limits [OF assms] by blast
  obtain st' where st': "set_overall_thread_cache_size v st = Inr st'" using set_overall_limits [OF ok assms(2)] by blast
  have "overall_thread_cache_size st' = min (2 ^ 30) (max (2 ^ 19) v)" by (rule set_overall_value [OF st'])
  then show ?thesis by (simp add: SetNumericProperty_def GetNumericProperty_def st')
qed

lemma cache_bytes_property_example:
  "returns (\<lambda>(ok, st'). GetNumericProperty ''tcmalloc.max_total_thread_cache_bytes'' st' = Inr (Some (2 ^ 19)))
    (SetNumericProperty ''tcmalloc.max_total_thread_cache_bytes'' 1000 one_malloc)"
proof -
  have "cache_calls brk_os 0 one_malloc"
    by (rule cache_calls.start [where c = "heap.extend one_heap \<lparr> sizemap = SizeMap_zero, central_cache = [], objs = (\<lambda>_. 0), race_counter = 0, comm_times = 0, pageheap = 4096 \<rparr>"])
      (simp add: one_malloc_defs)
  then show ?thesis by (rule returns_mono [OF cache_bytes_property]) auto
qed

text \<open>
  C32: \<open>pvalloc\<close> asks for the least positive multiple of the page size that is not below the size, but for sizes
  within a page of the largest \<open>size_t\<close> the sum wraps around and it asks for a block of size 0.
\<close>

theorem pvalloc_rounding:
  assumes "k < 64" "sz < 2 ^ 64"
  shows "if sz + 2 ^ k \<le> 2 ^ 64
    then 2 ^ k dvd pvalloc_size (2 ^ k) sz \<and> max 1 sz \<le> pvalloc_size (2 ^ k) sz \<and> pvalloc_size (2 ^ k) sz < max 1 sz + 2 ^ k
    else pvalloc_size (2 ^ k) sz = 0"
proof (cases "sz + 2 ^ k \<le> 2 ^ 64")
  case True
  let ?p = "(2::nat) ^ k"
  have v: "pvalloc_size ?p sz = (if sz = 0 then ?p else (sz + ?p - 1) div ?p * ?p)" using pvalloc_size_value [OF assms] True by simp
  have "(sz + ?p - 1) mod ?p < ?p" by simp
  then have "sz \<le> (sz + ?p - 1) div ?p * ?p \<and> (sz + ?p - 1) div ?p * ?p < sz + ?p"
    using div_mult_mod_eq [of "sz + ?p - 1" ?p] by linarith
  then show ?thesis using v True by (auto simp: max_def)
next
  case False
  then show ?thesis using pvalloc_size_value [OF assms] power_strict_increasing [of k 64 "2 :: nat"] assms(1) by (cases "sz = 0") simp_all
qed

theorem pvalloc_rounding_witness: "pvalloc_size 4096 5000 = 8192 \<and> pvalloc_size 4096 (2 ^ 64 - 10) = 0"
proof
  have "4096 dvd pvalloc_size 4096 5000 \<and> 5000 \<le> pvalloc_size 4096 5000 \<and> pvalloc_size 4096 5000 < 9096"
    using pvalloc_rounding [of 12 5000] by simp
  then show "pvalloc_size 4096 5000 = 8192" by (auto elim!: dvdE)
  show "pvalloc_size 4096 (2 ^ 64 - 10) = 0" using pvalloc_rounding [of 12 "2 ^ 64 - 10"] by simp
qed

end
