(* ===== verification/Tcmalloc_Pages.thy ===== *)
theory Tcmalloc_Pages
  imports Tcmalloc_Correct
begin

text \<open>
  Blocks of whole pages: \<open>memalign\<close> with large alignments, large blocks that are allocated and freed, and the
  enumeration of all ranges of memory.
\<close>

section \<open>Numbers of pages\<close>

lemma num_pages_of_eq:
  assumes "n < 2 ^ 64"
  shows "num_pages_of n = n div 2 ^ kPageShift + (if n mod 2 ^ kPageShift = 0 then 0 else 1)"
proof -
  let ?w = "of_nat n :: u64"
  have u: "unat ?w = n" using assms by (simp add: unat_of_nat take_bit_eq_mod)
  have m: "and ?w (push_bit kPageShift 1 - 1) = take_bit kPageShift ?w"
    by (simp add: take_bit_eq_mask mask_eq_exp_minus_1 push_bit_eq_mult)
  have t: "unat (take_bit kPageShift ?w) = n mod 2 ^ kPageShift" by (simp only: unsigned_take_bit_eq u) (simp add: take_bit_eq_mod)
  have d: "unat (drop_bit kPageShift ?w) = n div 2 ^ kPageShift" by (simp only: unat_drop_bit_eq u) (simp add: drop_bit_eq_div)
  have z: "0 < take_bit kPageShift ?w \<longleftrightarrow> n mod 2 ^ kPageShift \<noteq> 0" using t by (metis unat_0 unat_eq_zero word_neq_0_conv)
  have "n div 2 ^ kPageShift + 1 < 2 ^ 64" using assms by (simp add: kPageShift_def)
  then have "unat (drop_bit kPageShift ?w + 1) = n div 2 ^ kPageShift + 1" by (simp add: unat_word_ariths d)
  then show ?thesis unfolding num_pages_of_def pages_def m z using d by simp
qed

lemma num_pages_of_pos: "0 < n \<Longrightarrow> n < 2 ^ 64 \<Longrightarrow> 0 < num_pages_of n"
  by (auto simp: num_pages_of_eq)

lemma num_pages_of_add:
  assumes "n + 2 ^ k < 2 ^ 64" "kPageShift \<le> k"
  shows "num_pages_of (n + 2 ^ k) = num_pages_of n + 2 ^ (k - kPageShift)"
proof -
  have "(2::nat) ^ k = 2 ^ (k - kPageShift) * 2 ^ kPageShift" using assms(2) by (simp flip: power_add)
  then show ?thesis using assms(1) by (simp add: num_pages_of_eq)
qed

lemma num_pages_of_covers:
  assumes "n < 2 ^ 64"
  shows "n \<le> 2 ^ kPageShift * num_pages_of n \<and> 2 ^ kPageShift * num_pages_of n < n + 2 ^ kPageShift"
proof -
  let ?p = "(2::nat) ^ kPageShift"
  have "n = ?p * (n div ?p) + n mod ?p" "n mod ?p < ?p" by simp_all
  moreover have "?p * num_pages_of n = ?p * (n div ?p) + (if n mod ?p = 0 then 0 else ?p)"
    by (simp add: num_pages_of_eq [OF assms] distrib_left)
  ultimately show ?thesis by (cases "n mod ?p = 0") (simp_all only: if_True if_False simp_thms, linarith+)
qed

section \<open>Skipping to an aligned page\<close>

lemma page_aligned:
  assumes "q < 2 ^ 51" "kPageShift \<le> k" "k < 64"
  shows "page_bytes q AND sub64 (2 ^ k) 1 = 0 \<longleftrightarrow> 2 ^ (k - kPageShift) dvd q"
proof -
  have "(2::nat) ^ k < 2 ^ 64" using assms(3) by (intro power_strict_increasing) simp_all
  then have s: "sub64 (2 ^ k) 1 = 2 ^ k - 1" by (intro sub64_id) simp_all
  have "page_bytes q AND (2 ^ k - 1) = page_bytes q mod 2 ^ k"
    by (simp only: take_bit_eq_mod [symmetric] take_bit_eq_mask mask_eq_exp_minus_1)
  moreover have "(2::nat) ^ k = 2 ^ kPageShift * 2 ^ (k - kPageShift)" using assms(2) by (simp flip: power_add)
  ultimately show ?thesis unfolding s by (simp add: page_bytes_id [OF assms(1)] mod_eq_0_iff_dvd)
qed

lemma skip_pages_least:
  assumes k: "kPageShift \<le> k" "k < 64" and p: "p + j < 2 ^ 51" "i \<le> j" "2 ^ (k - kPageShift) dvd p + j"
    and least: "\<And>m. i \<le> m \<Longrightarrow> m < j \<Longrightarrow> \<not> 2 ^ (k - kPageShift) dvd p + m"
  shows "skip_pages (2 ^ k) p i = Some j"
  using p(2) least
proof (induction "j - i" arbitrary: i)
  case 0
  then show ?case using page_aligned [OF p(1) k] p(3) by (subst skip_pages.simps) simp
next
  case (Suc n)
  then have "i < j" by simp
  then have "page_bytes (p + i) AND sub64 (2 ^ k) 1 \<noteq> 0" using page_aligned [of "p + i", OF _ k] p(1) Suc.prems(2) [of i] by simp
  then show ?case using Suc.hyps(1) [of "i + 1"] Suc.hyps(2) Suc.prems \<open>i < j\<close> by (subst skip_pages.simps) simp
qed

lemma skip_pages_ends:
  assumes k: "kPageShift \<le> k" "k < 64" and p: "p + 2 ^ (k - kPageShift) < 2 ^ 51"
  obtains j where "skip_pages (2 ^ k) p 0 = Some j" "j < 2 ^ (k - kPageShift)" "2 ^ (k - kPageShift) dvd p + j"
proof -
  let ?a = "(2::nat) ^ (k - kPageShift)"
  define j where "j = (LEAST j. ?a dvd p + j)"
  have "p mod ?a < ?a" "p = ?a * (p div ?a) + p mod ?a" by simp_all
  then have "p + (?a - p mod ?a) = ?a * (p div ?a + 1)" unfolding distrib_left mult_1_right by linarith
  then have "?a dvd p + (?a - p mod ?a)" by simp
  then have j: "?a dvd p + j" unfolding j_def by (rule LeastI)
  have "j < ?a"
  proof (rule ccontr)
    assume n: "\<not> j < ?a"
    then have "?a dvd p + (j - ?a)" using j by (metis Nat.add_diff_assoc dvd_diff_nat dvd_refl not_less)
    moreover have "j - ?a < j" by (intro diff_less) (use n in \<open>auto simp: not_less intro: less_le_trans [of 0 ?a]\<close>)
    ultimately show False using not_less_Least [of "j - ?a" "\<lambda>j. ?a dvd p + j"] by (simp add: j_def)
  qed
  moreover have "skip_pages (2 ^ k) p 0 = Some j"
    by (rule skip_pages_least [OF k]) (use j p \<open>j < ?a\<close> not_less_Least [of _ "\<lambda>j. ?a dvd p + j"] in \<open>auto simp: j_def\<close>)
  ultimately show thesis using that j by blast
qed

section \<open>\<open>memalign\<close> on pages\<close>

text \<open>A span in use that is on no list of a client is on none at all, after any step of the page heap.\<close>

lemma on_no_list_in_use:
  assumes "hinv os owned H F' st'" "in_use (sdata (spans st')) c = Some t" "on_no_list H F c" "\<And>h. h \<notin> heads \<Longrightarrow> F' h = F h"
  shows "on_no_list H F' c"
  unfolding on_no_list_def
proof
  fix h assume h: "h \<in> H"
  show "Obj c \<notin> set (F' h)"
  proof (cases "h \<in> heads")
    case True
    then show ?thesis using free_list_span [OF hinvD(4) [OF assms(1)] True, of "Obj c"] assms(2)
      by (auto simp: in_use_def free_span_def)
  qed (use assms(3,4) h in \<open>auto simp: on_no_list_def\<close>)
qed

lemma in_use_SomeD: "in_use D c = Some t \<Longrightarrow> D c = Some t \<and> location t = IN_USE"
  by (auto simp: in_use_def split: option.splits if_splits)

text \<open>What stays when one span of a client is cut: the invariant and the lists of the clients.\<close>

definition page_step where
  "page_step os owned H F st F' st' \<longleftrightarrow> hinv os owned H F' st' \<and> (\<forall>h. h \<notin> heads \<longrightarrow> F' h = F h) \<and>
     owned (os_st st) \<subseteq> owned (os_st st') \<and> pagemap_cache st' = pagemap_cache st \<and> heap.more st' = heap.more st"

lemma page_step_frame: "hinv os owned H F' st' \<Longrightarrow> hframe owned F F' st st' \<Longrightarrow> page_step os owned H F st F' st'"
  by (simp add: page_step_def hframe_def)

lemma page_step_trans: "page_step os owned H F st F1 st1 \<Longrightarrow> page_step os owned H F1 st1 F2 st2 \<Longrightarrow> page_step os owned H F st F2 st2"
  by (auto simp: page_step_def)

lemma Split_Delete_front:
  fixes st :: "('o, 'z) heap_scheme"
  assumes inv: "hinv os owned H F st" and a: "sdata (spans st) a = Some s" "location s = IN_USE" "sizeclass s = 0" "on_no_list H F a"
    and j: "0 < j" "j < span_length s"
  shows "safe (\<lambda>(sp, st'). \<exists>c F'. sp = Obj c \<and> in_use (sdata (spans st)) c = None \<and> page_step os owned H F st F' st' \<and> on_no_list H F' c \<and>
      in_use (sdata (spans st')) = (in_use (sdata (spans st)))(a := None, c \<mapsto> new_span (start s + j) (span_length s - j)))
    (bind_res (Split os (Obj a) j st) (\<lambda>(rest, st). bind_res (Delete os (Obj a) st) (\<lambda>st. Inr (rest, st))))"
proof (rule safe_bind [OF Split_eff [OF inv a(1-3) j]])
  fix x assume "split_spec os owned H F a s j st x"
  then obtain c st1 where x: "x = (Obj c, st1)" and c: "sdata (spans st) c = None" "hinv os owned H F st1" "hframe owned F F st st1" "on_no_list H F c"
    and D: "sdata (spans st1) = (sdata (spans st))(a \<mapsto> s\<lparr>span_length := j\<rparr>, c \<mapsto> new_span (start s + j) (span_length s - j))"
    by (cases x) (auto simp: split_spec_def)
  have ac: "a \<noteq> c" using c(1) a(1) by auto
  have loc: "location (new_span (start s + j) (span_length s - j)) = IN_USE" by (simp add: new_span_def)
  obtain st2 F2 where d: "Delete os (Obj a) st1 = Inr st2" "hinv os owned H F2 st2" "\<forall>h. h \<notin> heads \<longrightarrow> F2 h = F h" "hfix st2 = hfix st1"
      "owned (os_st st2) = owned (os_st st1)" "in_use (sdata (spans st2)) = (in_use (sdata (spans st1)))(a := None)"
    using Delete_eff [OF c(2), of a "s\<lparr>span_length := j\<rparr>"] D ac a(2,4) by auto
  have u: "in_use (sdata (spans st2)) = (in_use (sdata (spans st)))(a := None, c \<mapsto> new_span (start s + j) (span_length s - j))"
    unfolding d(6) D using ac a(2) loc by (auto simp: fun_eq_iff)
  then have "on_no_list H F2 c" using on_no_list_in_use [OF d(2) _ c(4)] d(3) by auto
  moreover have "in_use (sdata (spans st)) c = None" using c(1) by (simp add: in_use_def)
  moreover have "page_step os owned H F st F2 st2"
    using d c(3) by (auto simp: page_step_def hframe_def hfix_def)
  ultimately show "safe (\<lambda>(sp, st'). \<exists>c F'. sp = Obj c \<and> in_use (sdata (spans st)) c = None \<and> page_step os owned H F st F' st' \<and> on_no_list H F' c \<and>
      in_use (sdata (spans st')) = (in_use (sdata (spans st)))(a := None, c \<mapsto> new_span (start s + j) (span_length s - j)))
    (case x of (rest, st) \<Rightarrow> bind_res (Delete os (Obj a) st) (\<lambda>st. Inr (rest, st)))"
    using d(1) u x by auto
qed

lemma Split_Delete_back:
  fixes st :: "('o, 'z) heap_scheme"
  assumes inv: "hinv os owned H F st" and a: "sdata (spans st) a = Some s" "location s = IN_USE" "sizeclass s = 0" "on_no_list H F a"
    and j: "0 < j" "j < span_length s"
  shows "safe (\<lambda>st'. \<exists>F'. page_step os owned H F st F' st' \<and> on_no_list H F' a \<and>
      in_use (sdata (spans st')) = (in_use (sdata (spans st)))(a \<mapsto> s\<lparr>span_length := j\<rparr>))
    (bind_res (Split os (Obj a) j st) (\<lambda>(trailer, st). Delete os trailer st))"
proof (rule safe_bind [OF Split_eff [OF inv a(1-3) j]])
  fix x assume "split_spec os owned H F a s j st x"
  then obtain c st1 where x: "x = (Obj c, st1)" and c: "sdata (spans st) c = None" "hinv os owned H F st1" "hframe owned F F st st1" "on_no_list H F c"
    and D: "sdata (spans st1) = (sdata (spans st))(a \<mapsto> s\<lparr>span_length := j\<rparr>, c \<mapsto> new_span (start s + j) (span_length s - j))"
    by (cases x) (auto simp: split_spec_def)
  have ac: "a \<noteq> c" using c(1) a(1) by auto
  have loc: "location (new_span (start s + j) (span_length s - j)) = IN_USE" by (simp add: new_span_def)
  have cu: "in_use (sdata (spans st)) c = None" using c(1) by (simp add: in_use_def)
  obtain st2 F2 where d: "Delete os (Obj c) st1 = Inr st2" "hinv os owned H F2 st2" "\<forall>h. h \<notin> heads \<longrightarrow> F2 h = F h" "hfix st2 = hfix st1"
      "owned (os_st st2) = owned (os_st st1)" "in_use (sdata (spans st2)) = (in_use (sdata (spans st1)))(c := None)"
    using Delete_eff [OF c(2), of c "new_span (start s + j) (span_length s - j)"] D c(4) loc by auto
  have u: "in_use (sdata (spans st2)) = (in_use (sdata (spans st)))(a \<mapsto> s\<lparr>span_length := j\<rparr>)"
    unfolding d(6) D using ac a(2) cu loc by (auto simp: fun_eq_iff)
  then have "on_no_list H F2 a" using on_no_list_in_use [OF d(2) _ a(4)] d(3) by auto
  moreover have "page_step os owned H F st F2 st2"
    using d c(3) by (auto simp: page_step_def hframe_def hfix_def)
  ultimately show "safe (\<lambda>st'. \<exists>F'. page_step os owned H F st F' st' \<and> on_no_list H F' a \<and>
      in_use (sdata (spans st')) = (in_use (sdata (spans st)))(a \<mapsto> s\<lparr>span_length := j\<rparr>))
    (case x of (trailer, st) \<Rightarrow> Delete os trailer st)"
    using d(1) u x by auto
qed

text \<open>The result: one new span in use, of the pages asked for, at an aligned address.\<close>

definition block_post where
  "block_post os owned H F align n st r \<longleftrightarrow> (case r of (p, st') \<Rightarrow> \<exists>F'. hinv os owned H F' st' \<and> (\<forall>h. h \<notin> heads \<longrightarrow> F' h = F h) \<and>
     owned (os_st st) \<subseteq> owned (os_st st') \<and>
     (if p = 0 then in_use (sdata (spans st')) = in_use (sdata (spans st))
      else \<exists>c t. in_use (sdata (spans st)) c = None \<and> in_use (sdata (spans st')) = (in_use (sdata (spans st)))(c \<mapsto> t) \<and>
        sizeclass t = 0 \<and> on_no_list H F' c \<and>
        p = 2 ^ kPageShift * start t \<and> span_length t = n \<and> align dvd p))"

lemma SpanToMallocResult_eff:
  fixes st :: "('o, 'z) malloc_state_scheme"
  assumes inv: "hinv os owned H F st" and a: "in_use (sdata (spans st)) a = Some s"
  shows "SpanToMallocResult (Obj a) st = Inr (2 ^ kPageShift * start s, CacheSizeClass (start s) 0 st)" "0 < start s"
proof -
  have D: "sdata (spans st) a = Some s" using in_use_SomeD [OF a] by simp
  obtain u where u: "spans st (Obj a) = Some u" "unlink u = s" using sdata_Some [OF D] by blast
  have "start u = start s" using unlinkD [OF u(2)] by simp
  moreover have "start s < 2 ^ 51" using spans_wfD(2,4) [OF hinvD(7) [OF inv] D] by (simp add: kPageMapBits_def)
  ultimately show "SpanToMallocResult (Obj a) st = Inr (2 ^ kPageShift * start s, CacheSizeClass (start s) 0 st)"
    using u(1) by (simp add: SpanToMallocResult_def get_span_def page_bytes_id)
  show "0 < start s" using spans_wfD(3) [OF hinvD(7) [OF inv] D] .
qed

lemma hinv_CacheSizeClass [simp]: "hinv os owned H F (CacheSizeClass p cl st) = hinv os owned H F st"
  by (simp add: CacheSizeClass_def hinv_def hcore_def hgen_def hgen0_def mem_ok_def pha_inv_def meta_inv_def chunk_def sys_inv_def)

lemma CacheSizeClass_simps [simp]: "spans (CacheSizeClass p cl st) = spans st" "os_st (CacheSizeClass p cl st) = os_st st"
  by (simp_all add: CacheSizeClass_def)

lemma block_post_result:
  fixes st' :: "('o, 'z) malloc_state_scheme"
  assumes st: "page_step os owned H F st F' st'" "in_use (sdata (spans st)) c = None" "on_no_list H F' c"
      "in_use (sdata (spans st')) = (in_use (sdata (spans st)))(c \<mapsto> t)"
    and t: "sizeclass t = 0" "span_length t = n" "align dvd 2 ^ kPageShift * start t"
  shows "returns (block_post os owned H F align n st) (SpanToMallocResult (Obj c) st')"
proof -
  have inv: "hinv os owned H F' st'" using st(1) by (simp add: page_step_def)
  note r = SpanToMallocResult_eff [OF inv, of c t]
  show ?thesis using r st t by (auto simp: block_post_def page_step_def)
qed

lemma carve_aligned_eff:
  fixes st :: "('o, 'z) malloc_state_scheme"
  assumes inv: "page_step os owned H F st0 F1 st" "hinv os owned H F1 st" and a: "in_use (sdata (spans st0)) a = None"
      "in_use (sdata (spans st)) = (in_use (sdata (spans st0)))(a \<mapsto> s)" "sizeclass s = 0" "on_no_list H F1 a"
    and k: "kPageShift \<le> k" "k < 64" and sz: "0 < sz" "sz < 2 ^ 64" "span_length s = num_pages_of sz + 2 ^ (k - kPageShift)"
  shows "safe (block_post os owned H F (2 ^ k) (num_pages_of sz) st0) (carve_aligned os (2 ^ k) sz (Obj a) st)"
proof -
  have su: "in_use (sdata (spans st)) a = Some s" using a(2) by simp
  then have D: "sdata (spans st) a = Some s" "location s = IN_USE" using in_use_SomeD by auto
  note wf = spans_wfD [OF hinvD(7) [OF inv(2)] D(1)]
  obtain u where u: "spans st (Obj a) = Some u" "unlink u = s" using sdata_Some [OF D(1)] by blast
  have gs: "get_span (Obj a) st = Inr u" "start u = start s" "span_length u = span_length s"
    using u unlinkD [OF u(2)] by (simp_all add: get_span_def)
  have n: "0 < num_pages_of sz" by (rule num_pages_of_pos [OF sz(1,2)])
  have "start s + 2 ^ (k - kPageShift) < 2 ^ 51" using wf(4) sz(3) by (simp add: kPageMapBits_def)
  then obtain j where j: "skip_pages (2 ^ k) (start s) 0 = Some j" "j < 2 ^ (k - kPageShift)" "2 ^ (k - kPageShift) dvd start s + j"
    using skip_pages_ends [OF k] by blast
  have pk: "(2::nat) ^ kPageShift * 2 ^ (k - kPageShift) = 2 ^ k" using k(1) by (simp flip: power_add)
  have al: "2 ^ k dvd 2 ^ kPageShift * (start s + j)" unfolding pk [symmetric] using j(3) by simp
  define rest where "rest = (\<lambda>(sp, st). bind_res (get_span sp st) (\<lambda>s. bind_res
       (if span_length s > num_pages_of sz then bind_res (Split os sp (num_pages_of sz) st) (\<lambda>(trailer, st). Delete os trailer st) else Inr st)
       (\<lambda>st. SpanToMallocResult sp (st :: ('o, 'z) malloc_state_scheme))))"
  have fin: "safe (block_post os owned H F (2 ^ k) (num_pages_of sz) st0) (rest (Obj c, st2))"
    if st2: "page_step os owned H F st0 F2 st2" "in_use (sdata (spans st0)) c = None" "on_no_list H F2 c"
        "in_use (sdata (spans st2)) = (in_use (sdata (spans st0)))(c \<mapsto> t)"
      and t: "start t = start s + j" "span_length t = span_length s - j" "sizeclass t = 0" for c t F2 st2
  proof -
    have inv2: "hinv os owned H F2 st2" using st2(1) by (simp add: page_step_def)
    have D2: "sdata (spans st2) c = Some t" "location t = IN_USE" using in_use_SomeD [of "sdata (spans st2)" c t] st2(4) by auto
    obtain v where v: "get_span (Obj c) st2 = Inr v" "span_length v = span_length t"
      using sdata_Some [OF D2(1)] by (auto simp: get_span_def dest: unlinkD)
    have len: "num_pages_of sz < span_length t" using t(2) sz(3) j(2) by simp
    show ?thesis unfolding rest_def prod.case v(1) bind_res.simps
      using len v(2) by (simp, intro safe_bind [OF Split_Delete_back [OF inv2 D2(1,2) t(3) st2(3) n len]])
        (auto intro!: returns_safe block_post_result [where t = "t\<lparr>span_length := num_pages_of sz\<rparr>"] page_step_trans [OF st2(1)] simp: st2 t al)
  qed
  have run: "carve_aligned os (2 ^ k) sz (Obj a) st =
      bind_res (if j > 0 then bind_res (Split os (Obj a) j st) (\<lambda>(rest, st). bind_res (Delete os (Obj a) st) (\<lambda>st. Inr (rest, st))) else Inr (Obj a, st)) rest"
    by (simp add: carve_aligned_def gs j(1) Let_def rest_def)
  show ?thesis
  proof (cases "j > 0")
    case True
    have "j < span_length s" using j(2) sz(3) by simp
    then show ?thesis unfolding run using True
      by (simp, intro safe_bind [OF Split_Delete_front [OF inv(2) D a(3,4)]])
        (auto intro!: fin page_step_trans [OF inv(1)] simp: a(1,2) new_span_def split: if_splits)
  next
    case False
    then show ?thesis unfolding run by (auto intro!: fin [OF inv(1) a(1,4,2)] simp: a(3))
  qed
qed

lemma memalign_pages_eff:
  fixes st :: "('o, 'z) malloc_state_scheme"
  assumes inv: "hinv os owned H F st" and k: "k < 64" and sz: "0 < sz" "sz + 2 ^ k < 2 ^ 64"
  shows "safe (block_post os owned H F (2 ^ k) (num_pages_of sz) st) (memalign_pages os (2 ^ k) sz st)"
proof -
  have n: "0 < num_pages_of m" if "sz \<le> m" "m < 2 ^ 64" for m using that sz by (intro num_pages_of_pos) auto
  have none: "block_post os owned H F (2 ^ k) m st (0, st')" if "alloc_spec os owned H F l st (None, st')" for m l and st' :: "('o, 'z) malloc_state_scheme"
    using that by (auto simp: alloc_spec_def block_post_def hframe_def)
  show ?thesis
  proof (cases "int (2 ^ k) \<le> kPageSize")
    case True
    then have "(2::nat) ^ k \<le> 2 ^ kPageShift" by (simp add: kPageSize_def)
    then have "k \<le> kPageShift" by (simp add: power_increasing_iff)
    then have al: "(2::nat) ^ k dvd 2 ^ kPageShift * p" for p by (simp add: dvd_mult2 le_imp_power_dvd)
    show ?thesis unfolding memalign_pages_def using True
    proof (simp, intro safe_bind [OF New_eff [OF inv n [OF order_refl]]], goal_cases)
      case (2 x)
      then show ?case
      proof (cases x)
        case (Pair res st1)
        show ?thesis
        proof (cases res)
          case None
          then show ?thesis using 2 none Pair by (simp add: span_result_def)
        next
          case (Some sp)
          obtain F1 a s where r: "hinv os owned H F1 st1" "hframe owned F F1 st st1" "sp = Obj a" "in_use (sdata (spans st)) a = None"
              "span_length s = num_pages_of sz" "sizeclass s = 0" "on_no_list H F1 a" "in_use (sdata (spans st1)) = (in_use (sdata (spans st)))(a \<mapsto> s)"
            using 2 Pair Some by (auto simp: alloc_spec_def)
          show ?thesis using Pair Some r(3)
            by (simp add: span_result_def) (rule returns_safe, rule block_post_result [OF page_step_frame [OF r(1,2)] r(4,7,8,6,5) al])
        qed
      qed
    qed (use sz in simp)
  next
    case False
    then have "(2::nat) ^ kPageShift < 2 ^ k" by (simp add: kPageSize_def)
    then have pk: "kPageShift \<le> k" by (metis le_cases not_less power_increasing one_le_numeral)
    have add: "add64 sz (2 ^ k) = sz + 2 ^ k" by (rule add64_id [OF sz(2)])
    show ?thesis unfolding memalign_pages_def add using False
    proof (simp, intro safe_bind [OF New_eff [OF inv n]], goal_cases)
      case (3 x)
      then show ?case
      proof (cases x)
        case (Pair res st1)
        show ?thesis
        proof (cases res)
          case None
          then show ?thesis using 3 none Pair by simp
        next
          case (Some sp)
          obtain F1 a s where r: "hinv os owned H F1 st1" "hframe owned F F1 st st1" "sp = Obj a" "in_use (sdata (spans st)) a = None"
              "span_length s = num_pages_of (sz + 2 ^ k)" "sizeclass s = 0" "on_no_list H F1 a" "in_use (sdata (spans st1)) = (in_use (sdata (spans st)))(a \<mapsto> s)"
            using 3 Pair Some by (auto simp: alloc_spec_def)
          have "sz < 2 ^ 64" using sz(2) by linarith
          then show ?thesis using Pair Some r(3)
            by (simp, intro carve_aligned_eff [OF page_step_frame [OF r(1,2)] r(1,4,8,6,7) pk k sz(1)])
              (use r(5) num_pages_of_add [OF sz(2) pk] in auto)
        qed
      qed
    qed (use sz in simp_all)
  qed
qed

lemma do_memalign_pages:
  fixes st :: "('o, 'z) malloc_state_scheme"
  assumes inv: "hinv os owned H F st" "pageheap st \<noteq> 0" and k: "kPageShift < k" "k < 64" and sz: "sz < 2 ^ 64"
  shows "safe (\<lambda>r. block_post os owned H F (2 ^ k) (num_pages_of (max 1 sz)) st r \<and> (2 ^ 64 \<le> sz + 2 ^ k \<longrightarrow> r = (0, st)))
    (do_memalign os env me (2 ^ k) sz st)"
proof (cases "sz + 2 ^ k < 2 ^ 64")
  case False
  have "(2::nat) ^ k < 2 ^ 64" using k(2) by (intro power_strict_increasing) simp_all
  then have "add64 sz (2 ^ k) = sz + 2 ^ k - 2 ^ 64" using False sz by (simp add: add64_def wrap64_def mod_if)
  then have "add64 sz (2 ^ k) < sz" using \<open>2 ^ k < 2 ^ 64\<close> False by linarith
  then show ?thesis using inv(1) by (auto simp: do_memalign_def block_post_def)
next
  case True
  have big: "(2::nat) ^ kPageShift < 2 ^ k" using k(1) by (intro power_strict_increasing) simp_all
  have "sz = 0 \<Longrightarrow> (1::nat) + 2 ^ k < 2 ^ 64" using power_increasing [of k 63 "2 :: nat"] k(2) by simp
  then have m: "max 1 sz + 2 ^ k < 2 ^ 64" using True by (cases "sz = 0") (simp_all add: max_def)
  note main = memalign_pages_eff [OF inv(1) k(2) _ m]
  have page: "(int (2 ^ k) < kPageSize) = False" using big by (simp add: kPageSize_def)
  have run: "do_memalign os env me (2 ^ k) sz st = bind_res (AlignmentForSize (int sz)) (\<lambda>a.
      if int (2 ^ k) \<le> a then do_malloc os env me sz st else memalign_pages os (2 ^ k) (max 1 sz) st)"
  proof -
    have "(if sz = 0 then 1 else sz) = max 1 sz" by simp
    moreover have "\<not> add64 sz (2 ^ k) < sz" by (simp add: add64_id [OF True])
    ultimately show ?thesis unfolding do_memalign_def Let_def page using inv(2) by (simp cong: if_cong)
  qed
  have "always (\<lambda>a. a \<le> kPageSize) (AlignmentForSize (int sz)) \<and> (\<forall>f. AlignmentForSize (int sz) = Inl f \<longrightarrow> f = Abort)"
    by (simp add: AlignmentForSize_def Let_def always_def)
  then have "safe (\<lambda>a. a \<le> kPageSize) (AlignmentForSize (int sz))" by (cases "AlignmentForSize (int sz)") auto
  then show ?thesis unfolding run
  proof (rule safe_bind, goal_cases)
    case (1 a)
    have "(2::int) ^ kPageShift < 2 ^ k" using k(1) by (intro power_strict_increasing) simp_all
    then have "a < 2 ^ k" using 1 unfolding kPageSize_def by linarith
    then have "\<not> int (2 ^ k) \<le> a" by simp
    then show ?case using True safe_mono [OF main] by simp
  qed
qed

section \<open>Freeing a large block\<close>

lemma free_page_span:
  fixes st :: "('o, 'z) malloc_state_scheme"
  assumes inv: "hinv os owned H F st" and c: "in_use (sdata (spans st)) c = Some t" "sizeclass t = 0" "\<not> sample t" "on_no_list H F c"
  shows "returns (\<lambda>st'. (\<exists>F'. hinv os owned H F' st' \<and> (\<forall>h. h \<notin> heads \<longrightarrow> F' h = F h)) \<and>
      in_use (sdata (spans st')) = (in_use (sdata (spans st)))(c := None) \<and>
      free_bytes st' + unmapped_bytes st' = free_bytes st + unmapped_bytes st + 2 ^ kPageShift * span_length t)
    (free_large os (Obj c) st)"
proof -
  have D: "sdata (spans st) c = Some t" "location t = IN_USE" using in_use_SomeD [OF c(1)] by auto
  obtain u where u: "get_span (Obj c) st = Inr u" "sample u = sample t"
    using sdata_Some [OF D(1)] by (auto simp: get_span_def)
  show ?thesis using Delete_eff [OF inv D c(4)] c(3) u by (auto simp: free_large_def)
qed

lemma view3_page:
  assumes inv: "hinv os owned H F st"
  shows "GetDescriptor p st = Inr (Obj (view3 kPageMapBits (pagemap st) p))"
  by (rule GetDescriptor_eff) (use hinvD(2) [OF inv] in \<open>simp add: map_ok_def\<close>)

lemma do_free_by_page:
  assumes "pageheap st \<noteq> 0" "GetSizeClassIfCached (ptr div 2 ^ kPageShift) st = 0"
  shows "\<exists>heap valid. do_free os me ptr st = bind_res (GetDescriptor (ptr div 2 ^ kPageShift) st) (\<lambda>sp.
      if sp = NULLspan then free_null_or_invalid ptr InvalidFree st
      else bind_res (get_span sp st) (\<lambda>s.
        if sizeclass s \<noteq> 0 then free_object os ptr (sizeclass s) heap valid (CacheSizeClass (ptr div 2 ^ kPageShift) (sizeclass s) st)
        else free_large os sp (CacheSizeClass (ptr div 2 ^ kPageShift) 0 st)))"
proof -
  have "do_free_helper os ptr InvalidFree heap valid st = bind_res (GetDescriptor (ptr div 2 ^ kPageShift) st) (\<lambda>sp.
      if sp = NULLspan then free_null_or_invalid ptr InvalidFree st
      else bind_res (get_span sp st) (\<lambda>s.
        if sizeclass s \<noteq> 0 then free_object os ptr (sizeclass s) heap valid (CacheSizeClass (ptr div 2 ^ kPageShift) (sizeclass s) st)
        else free_large os sp (CacheSizeClass (ptr div 2 ^ kPageShift) 0 st)))" for heap valid
    unfolding do_free_helper_def Let_def using assms by (auto simp: IsInited_def intro!: arg_cong2 [where f = bind_res] ext)
  then show ?thesis unfolding do_free_def do_free_with_callback_def by (cases "IsFastPathAllowed me st") auto
qed

lemma do_free_span:
  fixes st :: "('o, 'z) malloc_state_scheme"
  assumes inv: "hinv os owned H F st" and c: "in_use (sdata (spans st)) c = Some t" "sizeclass t = 0" "\<not> sample t" "on_no_list H F c"
    and ptr: "pageheap st \<noteq> 0" "GetSizeClassIfCached (ptr div 2 ^ kPageShift) st = 0" "ptr div 2 ^ kPageShift = start t"
  shows "returns (\<lambda>st'. (\<exists>F'. hinv os owned H F' st' \<and> (\<forall>h. h \<notin> heads \<longrightarrow> F' h = F h)) \<and>
      in_use (sdata (spans st')) = (in_use (sdata (spans st)))(c := None) \<and>
      free_bytes st' + unmapped_bytes st' = free_bytes st + unmapped_bytes st + 2 ^ kPageShift * span_length t)
    (do_free os me ptr st)"
proof -
  have D: "sdata (spans st) c = Some t" "location t = IN_USE" using in_use_SomeD [OF c(1)] by auto
  obtain u where u: "get_span (Obj c) st = Inr u" "sizeclass u = 0"
    using sdata_Some [OF D(1)] c(2) by (auto simp: get_span_def)
  have "view3 kPageMapBits (pagemap st) (start t) = c" using hinvD(2) [OF inv] D(1) by (auto simp: map_ok_def)
  then have g: "GetDescriptor (ptr div 2 ^ kPageShift) st = Inr (Obj c)" by (simp add: view3_page [OF inv] ptr(3))
  have "c \<noteq> 0" using spans_wfD(1) [OF hinvD(7) [OF inv] D(1)] .
  then have run: "do_free os me ptr st = free_large os (Obj c) (CacheSizeClass (start t) 0 st)"
    using do_free_by_page [OF ptr(1,2), of os me] g u ptr(3) by (auto simp: NULLspan_def)
  have bytes: "free_bytes (CacheSizeClass (start t) 0 st) = free_bytes st" "unmapped_bytes (CacheSizeClass (start t) 0 st) = unmapped_bytes st"
    by (simp_all add: CacheSizeClass_def)
  show ?thesis unfolding run
    using free_page_span [of os owned H F "CacheSizeClass (start t) 0 st" c t] inv c by (simp add: bytes)
qed

lemma do_free_unknown:
  fixes st :: "('o, 'z) malloc_state_scheme"
  assumes inv: "hinv os owned H F st" and no: "\<forall>a s. sdata (spans st) a = Some s \<longrightarrow> ptr div 2 ^ kPageShift \<notin> pages_of s"
    and ptr: "pageheap st \<noteq> 0" "GetSizeClassIfCached (ptr div 2 ^ kPageShift) st = 0"
  shows "do_free os me ptr st = (if ptr = 0 then Inr st else Inl Abort)"
proof -
  have "view3 kPageMapBits (pagemap st) (ptr div 2 ^ kPageShift) = 0" using hinvD(2) [OF inv] no unfolding map_ok_def by blast
  then have "GetDescriptor (ptr div 2 ^ kPageShift) st = Inr NULLspan" by (simp add: view3_page [OF inv] NULLspan_def)
  then show ?thesis using do_free_by_page [OF ptr, of os me] by (auto simp: free_null_or_invalid_def InvalidFree_def)
qed

section \<open>All ranges\<close>

definition span_view :: "Span \<Rightarrow> nat \<times> nat \<times> range_type" where
  "span_view s = (2 ^ kPageShift * start s, 2 ^ kPageShift * span_length s,
     case location s of IN_USE \<Rightarrow> INUSE | ON_NORMAL_FREELIST \<Rightarrow> FREE | ON_RETURNED_FREELIST \<Rightarrow> UNMAPPED)"

definition range_view :: "MallocRange \<Rightarrow> nat \<times> nat \<times> range_type" where
  "range_view r = (address r, range_length r, range_type r)"

definition classes_ok where
  "classes_ok sm st \<longleftrightarrow> (\<forall>a s. sdata (spans st) a = Some s \<longrightarrow> sizeclass s < length (class_to_size_arr sm))"

lemma GetNextRange_step:
  assumes inv: "hinv os owned H F st" and p: "at_boundary p st" and cl: "classes_ok sm st"
  obtains (none) "GetNextRange sm p st = Inr None" "\<forall>a s. sdata (spans st) a = Some s \<longrightarrow> start s < p"
  | (some) r a s where "GetNextRange sm p st = Inr (Some r)" "range_view r = span_view s" "sdata (spans st) a = Some s" "p \<le> start s"
      "\<forall>b t. sdata (spans st) b = Some t \<and> p \<le> start t \<longrightarrow> start s \<le> start t"
proof -
  obtain a where a: "PageMap3_Next kPageMapBits (pagemap st) p = Inr a"
     "if a = 0 then \<forall>b t. sdata (spans st) b = Some t \<longrightarrow> start t < p
      else \<exists>s. sdata (spans st) a = Some s \<and> p \<le> start s \<and> (\<forall>b t. sdata (spans st) b = Some t \<and> p \<le> start t \<longrightarrow> start s \<le> start t)"
    using Next_span [OF inv p] by blast
  show thesis
  proof (cases "a = 0")
    case True
    then show ?thesis using a by (intro none) (simp_all add: GetNextRange_def)
  next
    case False
    then obtain s where s: "sdata (spans st) a = Some s" "p \<le> start s"
        "\<forall>b t. sdata (spans st) b = Some t \<and> p \<le> start t \<longrightarrow> start s \<le> start t" using a(2) by auto
    obtain u where u: "get_span (Obj a) st = Inr u" "unlink u = s" using sdata_Some [OF s(1)] by (auto simp: get_span_def)
    have eq: "start u = start s" "span_length u = span_length s" "location u = location s" "sizeclass u = sizeclass s"
      using unlinkD [OF u(2)] by simp_all
    have pb: "page_bytes (start s) = 2 ^ kPageShift * start s" "page_bytes (span_length s) = 2 ^ kPageShift * span_length s"
      using spans_wfD(4) [OF hinvD(7) [OF inv] s(1)] by (auto intro!: page_bytes_id simp: kPageMapBits_def)
    have "class_to_size sm (int (sizeclass s)) = Inr (class_to_size_arr sm ! sizeclass s)" using cl s(1) by (simp add: classes_ok_def class_to_size_def)
    then have "\<exists>r. GetNextRange sm p st = Inr (Some r) \<and> range_view r = span_view s"
      using False a(1) u(1) eq pb by (cases "location s") (auto simp: GetNextRange_def Let_def range_view_def span_view_def)
    then show ?thesis using some s by blast
  qed
qed

text \<open>The ranges \<open>rs\<close> are those of the spans that begin in \<open>[p, q)\<close>, in order.\<close>

definition enumerates where
  "enumerates st p q rs \<longleftrightarrow> sorted_wrt (<) (map address rs) \<and>
     range_view ` set rs = {span_view s | a s. sdata (spans st) a = Some s \<and> p \<le> start s \<and> start s < q}"

lemma enumerates_Nil: "enumerates st p p []"
  by (auto simp: enumerates_def)

lemma enumerates_append:
  assumes "enumerates st p q xs" "enumerates st q u ys" "p \<le> q" "q \<le> u"
  shows "enumerates st p u (xs @ ys)"
proof -
  have ad: "address r = fst (range_view r)" for r by (simp add: range_view_def)
  have x: "address r < 2 ^ kPageShift * q" if "r \<in> set xs" for r
  proof -
    have "range_view r \<in> range_view ` set xs" using that by simp
    then obtain s where "range_view r = span_view s" "start s < q" using assms(1) unfolding enumerates_def by auto
    then show ?thesis by (simp add: ad span_view_def)
  qed
  have y: "2 ^ kPageShift * q \<le> address r" if "r \<in> set ys" for r
  proof -
    have "range_view r \<in> range_view ` set ys" using that by simp
    then obtain s where "range_view r = span_view s" "q \<le> start s" using assms(2) unfolding enumerates_def by auto
    then show ?thesis by (simp add: ad span_view_def)
  qed
  have "sorted_wrt (<) (map address (xs @ ys))"
    using assms(1,2) x y by (auto simp: enumerates_def sorted_wrt_append intro: less_le_trans)
  moreover have "range_view ` set (xs @ ys) = {span_view s | a s. sdata (spans st) a = Some s \<and> p \<le> start s \<and> start s < u}"
  proof -
    have "range_view ` set (xs @ ys) = {span_view s | a s. sdata (spans st) a = Some s \<and> p \<le> start s \<and> start s < q} \<union>
        {span_view s | a s. sdata (spans st) a = Some s \<and> q \<le> start s \<and> start s < u}"
      using assms(1,2) unfolding enumerates_def by (simp only: set_append image_Un)
    also have "\<dots> = {span_view s | a s. sdata (spans st) a = Some s \<and> p \<le> start s \<and> start s < u}"
      using assms(3,4) by (auto; metis leI less_le_trans order_trans)
    finally show ?thesis .
  qed
  ultimately show ?thesis unfolding enumerates_def ..
qed

lemma enumerates_one:
  assumes inv: "hinv os owned H F st" and s: "sdata (spans st) a = Some s" "p \<le> start s"
      "\<forall>b t. sdata (spans st) b = Some t \<and> p \<le> start t \<longrightarrow> start s \<le> start t" "range_view r = span_view s"
  shows "enumerates st p (start s + span_length s) [r]" "at_boundary (start s + span_length s) st"
proof -
  have same: "b = a \<or> start s + span_length s \<le> start t \<or> start t + span_length t \<le> start s" if "sdata (spans st) b = Some t" for b t
  proof (cases "b = a")
    case False
    then have "pages_of s \<inter> pages_of t = {}" using hinvD(7) [OF inv] s(1) that unfolding spans_wf_def by blast
    moreover have "0 < span_length s" "0 < span_length t" using spans_wfD(2) [OF hinvD(7) [OF inv]] s(1) that by auto
    ultimately show ?thesis by (auto simp: pages_of_def Int_atLeastLessThan)
  qed simp
  have len: "0 < span_length t" if "sdata (spans st) b = Some t" for b t using spans_wfD(2) [OF hinvD(7) [OF inv] that] .
  have "{span_view u | b u. sdata (spans st) b = Some u \<and> p \<le> start u \<and> start u < start s + span_length s} = {span_view s}"
  proof (intro equalityI subsetI)
    fix v assume "v \<in> {span_view u | b u. sdata (spans st) b = Some u \<and> p \<le> start u \<and> start u < start s + span_length s}"
    then obtain b u where u: "v = span_view u" "sdata (spans st) b = Some u" "p \<le> start u" "start u < start s + span_length s" by blast
    then have "b = a" using same [OF u(2)] s(3) len [OF u(2)] by force
    then show "v \<in> {span_view s}" using u s(1) by simp
  qed (use s(1,2) len [OF s(1)] in \<open>auto intro!: exI [of _ a] exI [of _ s]\<close>)
  then show "enumerates st p (start s + span_length s) [r]" using s(4) by (simp add: enumerates_def)
  show "at_boundary (start s + span_length s) st"
    unfolding at_boundary_def
  proof (intro allI impI)
    fix b t assume b: "sdata (spans st) b = Some t"
    show "start s + span_length s \<le> start t \<or> start t + span_length t \<le> start s + span_length s"
      using same [OF b] b s(1) by (cases "b = a") auto
  qed
qed

lemma range_batch_ok:
  fixes st :: "('o, 'z) malloc_state_scheme"
  assumes inv: "hinv os owned H F st" and cl: "classes_ok (sizemap st) st"
  shows "at_boundary p st \<Longrightarrow> p \<le> 2 ^ kPageMapBits \<Longrightarrow> \<exists>fin q rs. range_batch k p st = Inr (fin, q, rs) \<and> p \<le> q \<and> q \<le> 2 ^ kPageMapBits \<and> at_boundary q st \<and>
    enumerates st p q rs \<and> (if fin then \<forall>a s. sdata (spans st) a = Some s \<longrightarrow> start s < q else length rs = k)"
proof (induction k arbitrary: p)
  case 0
  then show ?case by (intro exI [of _ False]) (simp add: enumerates_Nil)
next
  case (Suc k)
  show ?case
  proof (cases rule: GetNextRange_step [OF inv Suc.prems(1) cl, case_names none some])
    case none
    then show ?thesis using Suc.prems by (intro exI [of _ True] exI [of _ p] exI [of _ "[]"]) (simp add: enumerates_Nil)
  next
    case (some r a s)
    let ?e = "start s + span_length s"
    note wf = spans_wfD [OF hinvD(7) [OF inv] some(3)]
    have r: "address r = 2 ^ kPageShift * start s" "range_length r = 2 ^ kPageShift * span_length s"
      using some(2) by (simp_all add: range_view_def span_view_def)
    have b: "?e \<le> 2 ^ 35" using wf(4) by (simp add: kPageMapBits_def)
    have "add64 (address r) (range_length r) = 2 ^ kPageShift * ?e" unfolding r using b by (subst add64_id) (simp_all add: kPageShift_def)
    moreover have "add64 (2 ^ kPageShift * ?e) (2 ^ kPageShift - 1) = 2 ^ kPageShift * ?e + (2 ^ kPageShift - 1)"
      using b by (subst add64_id) (simp_all add: kPageShift_def)
    moreover have "(2 ^ kPageShift * ?e + (2 ^ kPageShift - 1)) div 2 ^ kPageShift = ?e" by (simp add: kPageShift_def)
    ultimately have nx: "add64 (add64 (address r) (range_length r)) (2 ^ kPageShift - 1) div 2 ^ kPageShift = ?e" by simp
    note one = enumerates_one [OF inv some(3,4,5,2)]
    obtain fin q rs where IH: "range_batch k ?e st = Inr (fin, q, rs)" "?e \<le> q" "q \<le> 2 ^ kPageMapBits" "at_boundary q st" "enumerates st ?e q rs"
        "if fin then \<forall>a s. sdata (spans st) a = Some s \<longrightarrow> start s < q else length rs = k"
      using Suc.IH [OF one(2) wf(4)] by blast
    have "range_batch (Suc k) p st = Inr (fin, q, r # rs)" using some(1) nx IH(1) by (simp add: Let_def)
    moreover have "enumerates st p q (r # rs)" using enumerates_append [OF one(1) IH(5)] some(4) IH(2) by simp
    moreover have "p \<le> q" using some(4) IH(2) by simp
    ultimately show ?thesis using IH(3,4,6) by (intro exI [of _ fin] exI [of _ q] exI [of _ "r # rs"]) auto
  qed
qed

lemma range_batches_ok:
  fixes st :: "('o, 'z) malloc_state_scheme"
  assumes inv: "hinv os owned H F st" and cl: "classes_ok (sizemap st) st"
  shows "at_boundary p st \<Longrightarrow> p \<le> 2 ^ kPageMapBits \<Longrightarrow> p0 \<le> p \<Longrightarrow> enumerates st p0 p acc \<Longrightarrow>
    \<exists>rs q. range_batches p acc st = Some (Inr rs) \<and> enumerates st p0 q rs \<and> (\<forall>a s. sdata (spans st) a = Some s \<longrightarrow> start s < q)"
proof (induction "2 ^ kPageMapBits - p" arbitrary: p acc rule: less_induct)
  case less
  obtain fin q rs where b: "range_batch kNumRanges p st = Inr (fin, q, rs)" "p \<le> q" "q \<le> 2 ^ kPageMapBits" "at_boundary q st" "enumerates st p q rs"
      "if fin then \<forall>a s. sdata (spans st) a = Some s \<longrightarrow> start s < q else length rs = kNumRanges"
    using range_batch_ok [OF inv cl less.prems(1,2), of kNumRanges] by blast
  have e: "enumerates st p0 q (acc @ rs)" by (rule enumerates_append [OF less.prems(4) b(5) less.prems(3) b(2)])
  show ?case
  proof (cases fin)
    case True
    then show ?thesis using b(1,6) e by (subst range_batches.simps) auto
  next
    case False
    then have "rs \<noteq> []" using b(6) by (auto simp: kNumRanges_def)
    then have "p < q" using b(5) by (cases rs) (auto simp: enumerates_def)
    then have "\<exists>rs' q'. range_batches q (acc @ rs) st = Some (Inr rs') \<and> enumerates st p0 q' rs' \<and> (\<forall>a s. sdata (spans st) a = Some s \<longrightarrow> start s < q')"
      using less.hyps [OF _ b(4,3) _ e] b(3) less.prems(3) by auto
    then show ?thesis using b(1) False by (subst range_batches.simps) simp
  qed
qed

section \<open>Properties\<close>

text \<open>
  C28: \<open>memalign\<close> with an alignment above the page size neither faults nor loops.  It returns NULL and
  leaves the spans in use as they are (at once when size plus alignment overflow), or it adds exactly one span in
  use, of as many pages as the size needs and aligned as asked; the pages that were allocated in excess
  before and behind it are given back.
\<close>

theorem do_memalign_refines:
  assumes "hinv os owned H F st" "pageheap st \<noteq> 0" "kPageShift < k" "k < 64" "sz < 2 ^ 64"
  shows "safe (\<lambda>(p, st'). (\<exists>F'. hinv os owned H F' st' \<and> (\<forall>h. h \<notin> heads \<longrightarrow> F' h = F h)) \<and>
      (if p = 0 then in_use (sdata (spans st')) = in_use (sdata (spans st))
       else \<exists>c t. in_use (sdata (spans st)) c = None \<and> in_use (sdata (spans st')) = (in_use (sdata (spans st)))(c \<mapsto> t) \<and>
         p = 2 ^ kPageShift * start t \<and> 2 ^ k dvd p \<and> span_length t = num_pages_of (max 1 sz)) \<and>
      (2 ^ 64 \<le> sz + 2 ^ k \<longrightarrow> p = 0 \<and> st' = st))
    (do_memalign os env me (2 ^ k) sz st)"
proof (rule safe_mono [OF do_memalign_pages [OF assms]], elim conjE)
  fix r assume r: "block_post os owned H F (2 ^ k) (num_pages_of (max 1 sz)) st r" "2 ^ 64 \<le> sz + 2 ^ k \<longrightarrow> r = (0, st)"
  obtain p st' where p: "r = (p, st')" by (cases r)
  show "case r of (p, st') \<Rightarrow> (\<exists>F'. hinv os owned H F' st' \<and> (\<forall>h. h \<notin> heads \<longrightarrow> F' h = F h)) \<and>
      (if p = 0 then in_use (sdata (spans st')) = in_use (sdata (spans st))
       else \<exists>c t. in_use (sdata (spans st)) c = None \<and> in_use (sdata (spans st')) = (in_use (sdata (spans st)))(c \<mapsto> t) \<and>
         p = 2 ^ kPageShift * start t \<and> 2 ^ k dvd p \<and> span_length t = num_pages_of (max 1 sz)) \<and>
      (2 ^ 64 \<le> sz + 2 ^ k \<longrightarrow> p = 0 \<and> st' = st)"
    using r unfolding p block_post_def prod.case by (cases "p = 0") (simp_all only: if_True if_False simp_thms prod.inject, blast+)
qed

theorem do_memalign_refines_witness:
  "safe (\<lambda>(p, st'). 2 ^ 20 dvd p \<and> in_use (sdata (spans st')) 500000 = Some one_span) (do_memalign brk_os no_env 1 (2 ^ 20) 100 one_malloc)"
proof (rule safe_mono [OF do_memalign_refines [OF one_malloc_inv, of 20 100]])
  have one: "in_use (sdata (spans one_heap)) 500000 = Some one_span" by (simp add: one_heap_sdata in_use_def one_heap_span)
  fix r assume "case r of (p, st') \<Rightarrow> (\<exists>F'. hinv brk_os brk_owned heads F' st' \<and> (\<forall>h. h \<notin> heads \<longrightarrow> F' h = [])) \<and>
      (if p = 0 then in_use (sdata (spans st')) = in_use (sdata (spans one_malloc))
       else \<exists>c t. in_use (sdata (spans one_malloc)) c = None \<and> in_use (sdata (spans st')) = (in_use (sdata (spans one_malloc)))(c \<mapsto> t) \<and>
         p = 2 ^ kPageShift * start t \<and> 2 ^ 20 dvd p \<and> span_length t = num_pages_of (max 1 100)) \<and>
      (2 ^ 64 \<le> 100 + 2 ^ 20 \<longrightarrow> p = 0 \<and> st' = one_malloc)"
  then show "case r of (p, st') \<Rightarrow> 2 ^ 20 dvd p \<and> in_use (sdata (spans st')) 500000 = Some one_span"
    using one by (cases r) (auto split: if_splits)
qed (simp_all add: kPageShift_def)



text \<open>
  \<open>free\<close> of NULL does nothing, and \<open>free\<close> of any other pointer into memory that belongs to no span aborts,
  with nothing changed before.
\<close>

lemma do_free_invalid:
  assumes "hinv os owned H F st" "\<forall>a s. sdata (spans st) a = Some s \<longrightarrow> ptr div 2 ^ kPageShift \<notin> pages_of s"
    "pageheap st \<noteq> 0" "GetSizeClassIfCached (ptr div 2 ^ kPageShift) st = 0"
  shows "do_free os me ptr st = (if ptr = 0 then Inr st else Inl Abort)"
  by (rule do_free_unknown [OF assms])

lemma do_free_invalid_example: "do_free brk_os 1 1000000 one_malloc = Inl Abort"
  using do_free_invalid [OF one_malloc_inv, of 1000000 1]
  by (simp add: one_heap_sdata one_malloc_uncached one_span_def new_span_def pages_of_def kPageShift_def)

text \<open>
  C30: \<open>Ranges\<close> terminates and reports every span of the heap exactly once, in address order, with its address,
  its length and whether it is in use, free or unmapped.
\<close>

theorem IterateOverRanges_all:
  assumes "hinv os owned H F st" "\<forall>a s. sdata (spans st) a = Some s \<longrightarrow> sizeclass s < length (class_to_size_arr (sizemap st))"
  shows "returns (\<lambda>rs. sorted_wrt (<) (map address rs) \<and>
      (\<lambda>r. (address r, range_length r, range_type r)) ` set rs =
      {(2 ^ kPageShift * start s, 2 ^ kPageShift * span_length s,
        case location s of IN_USE \<Rightarrow> INUSE | ON_NORMAL_FREELIST \<Rightarrow> FREE | ON_RETURNED_FREELIST \<Rightarrow> UNMAPPED) | a s. sdata (spans st) a = Some s})
    (IterateOverRanges st)"
proof -
  have pos: "1 \<le> start s" if "sdata (spans st) a = Some s" for a s using spans_wfD(3) [OF hinvD(7) [OF assms(1)] that] by simp
  then have "at_boundary 1 st" unfolding at_boundary_def by blast
  moreover have "classes_ok (sizemap st) st" using assms(2) by (simp add: classes_ok_def)
  ultimately obtain rs q where rs: "range_batches 1 [] st = Some (Inr rs)" "enumerates st 1 q rs" "\<forall>a s. sdata (spans st) a = Some s \<longrightarrow> start s < q"
    using range_batches_ok [OF assms(1), of 1 1 "[]"] enumerates_Nil [of st 1] by (auto simp: kPageMapBits_def)
  have "{span_view s | a s. sdata (spans st) a = Some s \<and> 1 \<le> start s \<and> start s < q} = {span_view s | a s. sdata (spans st) a = Some s}"
    using rs(3) pos by blast
  then show ?thesis using rs(1,2) by (simp add: IterateOverRanges_def enumerates_def range_view_def [abs_def] span_view_def [abs_def])
qed

theorem IterateOverRanges_all_witness:
  "returns (\<lambda>rs. (\<lambda>r. (address r, range_length r, range_type r)) ` set rs = {(8192, 81920, INUSE)}) (IterateOverRanges one_malloc)"
proof -
  have "\<forall>a s. sdata (spans one_malloc) a = Some s \<longrightarrow> sizeclass s < length (class_to_size_arr (sizemap one_malloc))"
    by (auto simp: one_heap_sdata one_span_def new_span_def SizeMap_zero_def kNumClasses_def split: if_splits)
  moreover have "{(2 ^ kPageShift * start s, 2 ^ kPageShift * span_length s,
        case location s of IN_USE \<Rightarrow> INUSE | ON_NORMAL_FREELIST \<Rightarrow> FREE | ON_RETURNED_FREELIST \<Rightarrow> UNMAPPED) | a s. sdata (spans one_malloc) a = Some s} = {(8192, 81920, INUSE)}"
    by (auto simp: one_heap_sdata one_span_def new_span_def kPageShift_def split: if_splits)
  ultimately show ?thesis using IterateOverRanges_all [OF one_malloc_inv] by (auto intro: returns_mono)
qed

end
