(* ===== verification/Tcmalloc_New.thy ===== *)
theory Tcmalloc_New
  imports Tcmalloc_Pages
begin

text \<open>
  The loop of \<open>operator new\<close>: it goes on as long as allocation fails and the new handler returns, and it ends
  with the first attempt that succeeds.
\<close>

section \<open>Rounds\<close>

text \<open>\<open>k\<close> attempts that fail and after which the handler returns normally.\<close>

inductive handler_rounds ::
  "'o os \<Rightarrow> environment \<Rightarrow> ('o, 'z) handlers \<Rightarrow> nat \<Rightarrow> nat \<Rightarrow> nat \<Rightarrow> ('o, 'z) malloc_state_scheme \<Rightarrow> ('o, 'z) malloc_state_scheme \<Rightarrow> bool"
  for os env hs me sz where
  none: "handler_rounds os env hs me sz 0 st st"
| more: "do_malloc_no_errno os env me sz st = Inr (0, st1) \<Longrightarrow> new_handler st1 \<noteq> 0 \<Longrightarrow> hs (new_handler st1) st1 = Inr (None, st2) \<Longrightarrow>
    handler_rounds os env hs me sz k st2 st3 \<Longrightarrow> handler_rounds os env hs me sz (Suc k) st st3"

lemma cpp_alloc_loop_rounds:
  "handler_rounds os env hs me sz k st st1 \<Longrightarrow> cpp_alloc_loop os env hs me sz nothrow st = cpp_alloc_loop os env hs me sz nothrow st1"
proof (induction rule: handler_rounds.induct)
  case (more st st1 st2 k st3)
  then show ?case by (subst cpp_alloc_loop.simps) simp
qed simp

lemma cpp_alloc_rounds:
  assumes "handler_rounds os env hs me sz k st st1" "do_malloc_no_errno os env me sz st1 = Inr (p, st2)" "p \<noteq> 0"
  shows "cpp_alloc os env hs me sz nothrow st = Inr (Inr p, st2)"
  unfolding cpp_alloc_def cpp_alloc_loop_rounds [OF assms(1)] using assms(2,3) by (subst cpp_alloc_loop.simps) simp

section \<open>An allocation that fails at first\<close>

lemma search_lists_empty:
  assumes "\<And>i. i \<in> set is \<Longrightarrow> DLL_IsEmpty (NormalHd i) (spans st) = Inr True \<and> DLL_IsEmpty (ReturnedHd i) (spans st) = Inr True"
  shows "search_lists os n is st = AllocLarge os n st"
  using assms by (induction "is") simp_all

lemma empty_lists_empty:
  "i \<le> kMaxPages \<Longrightarrow> DLL_IsEmpty (NormalHd i) empty_lists = Inr True \<and> DLL_IsEmpty (ReturnedHd i) empty_lists = Inr True"
  by (simp add: DLL_IsEmpty_def empty_lists_def)

definition full_malloc :: "nat malloc_state" where
  "full_malloc = one_malloc\<lparr>spans := empty_lists, FLAGS_malloc_skip_sbrk := True, FLAGS_malloc_skip_mmap := True, system_alloc_inited := True,
     allocs := [Some SbrkSysAllocator, Some MmapSysAllocator], failed := [False, False], tsd_inited := True, kernel_supports_tls := True, tls_heap := (\<lambda>_. 4096), new_handler := 7\<rparr>"

lemma dll_spans_empty: "i \<le> kMaxPages \<Longrightarrow> dll_spans (NormalHd i) empty_lists = Inr [] \<and> dll_spans (ReturnedHd i) empty_lists = Inr []"
proof -
  assume i: "i \<le> kMaxPages"
  have "lists_ok empty_lists heads (\<lambda>_. [])" using hinvD(3) [OF brk_heap_inv] by (simp add: brk_heap_def meta_state.defs)
  then show ?thesis using dll_spans_lists [of empty_lists heads "\<lambda>_. []"] i by (auto simp: heads_def)
qed

lemma full_spans [simp]: "spans full_malloc = empty_lists" by (simp add: full_malloc_def)

lemma full_search: "SearchFreeAndLargeLists brk_os 33 full_malloc = Inr (None, full_malloc)"
proof -
  have "search_lists brk_os 33 [33..<kMaxPages] full_malloc = AllocLarge brk_os 33 full_malloc"
    by (rule search_lists_empty) (simp add: empty_lists_empty)
  moreover have "AllocLarge brk_os 33 full_malloc = Inr (None, full_malloc)"
    by (simp add: AllocLarge_def numeral_2_eq_2 dll_spans_empty)
  ultimately show ?thesis by (simp add: SearchFreeAndLargeLists_def)
qed

lemma full_fields:
  "free_bytes full_malloc = 0" "FLAGS_tcmalloc_heap_limit_mb full_malloc = 0" "system_alloc_inited full_malloc" "failed full_malloc = [False, False]"
  "allocs full_malloc = [Some SbrkSysAllocator, Some MmapSysAllocator]" "FLAGS_malloc_skip_sbrk full_malloc" "FLAGS_malloc_skip_mmap full_malloc"
  by (simp_all add: full_malloc_def one_malloc_defs one_heap_def brk_heap_def meta_state.defs)

lemma full_system: "n < 2 ^ 50 \<Longrightarrow> GrowHeap_alloc brk_os n full_malloc = Inr (0, 0, full_malloc)"
proof -
  assume n: "n < 2 ^ 50"
  have r: "full_malloc\<lparr>failed := [False, False]\<rparr> = full_malloc" using full_fields(4) by (metis sys_state.surjective sys_state.update_convs(8) malloc_state.surjective)
  have "Default_Alloc brk_os sz 0 al full_malloc = (0, 0, full_malloc)" for sz al
    by (simp add: Default_Alloc_def kMaxAllocators_def upt_rec full_fields SysAllocator_Alloc_def Sbrk_Alloc_def Mmap_Alloc_def numeral_2_eq_2 r)
  then show ?thesis using n
    by (simp add: GrowHeap_alloc_def EnsureLimit_def heap_limit_def full_fields TCMalloc_SystemAlloc_def page_bytes_id kPageShift_def wrap64_def Let_def)
qed

lemma full_new: "New brk_os 33 full_malloc = Inr (None, full_malloc)"
  by (simp add: New_def full_search GrowHeap_def full_fields full_system kMaxValidPages_def kMinSystemAlloc_def kMaxPages_def kPageShift_def Let_def)

lemma num_pages_33: "num_pages_of 262145 = 33"
  by (simp add: num_pages_of_eq kPageShift_def)

definition after_failure :: "nat malloc_state" where
  "after_failure = full_malloc\<lparr>large_alloc_threshold := 9216\<rparr>"

lemma threshold: "large_alloc_threshold full_malloc = 8192"
  by (simp add: full_malloc_def one_malloc_defs initial_threshold_def kPageSize_def kPageShift_def)

lemma full_fails: "do_malloc_no_errno brk_os no_env 1 262145 full_malloc = Inr (0, after_failure)"
proof -
  have "min_size_for_slow_path full_malloc = (\<lambda>_. 0)" "tsd_inited full_malloc" "kernel_supports_tls full_malloc" "tls_heap full_malloc = (\<lambda>_. 4096)"
    by (simp_all add: full_malloc_def one_malloc_defs)
  then show ?thesis
    by (simp add: do_malloc_no_errno_def MinSizeForSlowPath_def GetCache_def GetThreadHeap_def do_malloc_pages_def num_pages_33 full_new span_result_def
      should_report_large_def threshold kPageShift_def kMaxSize_def after_failure_def)
qed

text \<open>A handler that gives back a span of 33 pages.\<close>

definition spare :: Span where "spare = (new_span 7 33)\<lparr>location := ON_NORMAL_FREELIST, nxt := NormalHd 33, prv := NormalHd 33\<rparr>"

definition spare_lists :: store where
  "spare_lists = empty_lists(NormalHd 33 \<mapsto> (new_span 0 0)\<lparr>nxt := Obj 600000, prv := Obj 600000\<rparr>, Obj 600000 \<mapsto> spare)"

definition give_back :: "(nat, unit) handlers" where
  "give_back h st = Inr (None, st\<lparr>spans := spare_lists, free_bytes := 33 * 8192\<rparr>)"

definition after_handler :: "nat malloc_state" where
  "after_handler = after_failure\<lparr>spans := spare_lists, free_bytes := 33 * 8192\<rparr>"

lemma handler_New: "\<exists>st. New brk_os 33 after_handler = Inr (Some (Obj 600000), st) \<and> get_span (Obj 600000) st = Inr (spare\<lparr>location := IN_USE, nxt := NULLspan, prv := NULLspan\<rparr>)"
proof -
  have s: "spans after_handler = spare_lists" by (simp add: after_handler_def)
  have up: "[33..<kMaxPages] = 33 # [34..<kMaxPages]" by (simp add: upt_rec [of 33] kMaxPages_def kPageShift_def)
  have e: "DLL_IsEmpty (NormalHd 33) spare_lists = Inr False" by (simp add: DLL_IsEmpty_def spare_lists_def)
  have g: "get_span (NormalHd 33) after_handler = Inr ((new_span 0 0)\<lparr>nxt := Obj 600000, prv := Obj 600000\<rparr>)" by (simp add: get_span_def s spare_lists_def)
  have "\<exists>st. Carve brk_os (Obj 600000) 33 after_handler = Inr (Obj 600000, st) \<and> get_span (Obj 600000) st = Inr (spare\<lparr>location := IN_USE, nxt := NULLspan, prv := NULLspan\<rparr>)"
    by (simp add: Carve_def get_span_def s spare_lists_def spare_def new_span_def RemoveFromFreeList_def DLL_Remove_def upd_span_def on_spans_def Let_def extra_pages_def)
  then show ?thesis by (auto simp: New_def SearchFreeAndLargeLists_def up s e g)
qed

lemma handler_helps: "\<exists>st. do_malloc_no_errno brk_os no_env 1 262145 after_handler = Inr (7 * 8192, st)"
proof -
  obtain st where st: "New brk_os 33 after_handler = Inr (Some (Obj 600000), st)" "get_span (Obj 600000) st = Inr (spare\<lparr>location := IN_USE, nxt := NULLspan, prv := NULLspan\<rparr>)"
    using handler_New by blast
  have "min_size_for_slow_path after_handler = (\<lambda>_. 0)" "tsd_inited after_handler" "kernel_supports_tls after_handler" "tls_heap after_handler = (\<lambda>_. 4096)"
    by (simp_all add: after_handler_def after_failure_def full_malloc_def one_malloc_defs)
  then show ?thesis
    by (simp add: do_malloc_no_errno_def MinSizeForSlowPath_def GetCache_def GetThreadHeap_def do_malloc_pages_def num_pages_33 st span_result_def
      SpanToMallocResult_def spare_def new_span_def page_bytes_def wrap64_def kPageShift_def kMaxSize_def)
qed

section \<open>Property\<close>

text \<open>
  C31: if the new handler makes memory available in one of its calls, \<open>operator new\<close> returns: after any number of
  failed attempts, each followed by a handler that returns, the first attempt that succeeds ends the loop, and its
  block is the result, for \<open>new\<close>, for \<open>new(nothrow)\<close>, and for \<open>malloc\<close> in the new mode.
\<close>

theorem new_handler_loop_ends:
  assumes "handler_rounds os env hs me sz k st st1" "do_malloc_no_errno os env me sz st1 = Inr (p, st2)" "p \<noteq> 0"
  shows "tc_new os env hs me sz st = Inr (Inr p, st2) \<and> tc_new_nothrow os env hs me sz st = Inr (p, st2) \<and>
    (tc_new_mode st \<noteq> 0 \<longrightarrow> tc_malloc os env hs me sz st = Inr (p, st2))"
  using cpp_alloc_rounds [OF assms]
  by (simp add: tc_new_def tc_new_nothrow_def tc_malloc_def do_malloc_or_cpp_alloc_def after_stats_def no_throw_def mem_efficiency_stats_def)

theorem new_handler_loop_ends_witness:
  "\<exists>st2. tc_new brk_os no_env give_back 1 262145 full_malloc = Inr (Inr (7 * 8192), st2)"
proof -
  obtain st2 where st2: "do_malloc_no_errno brk_os no_env 1 262145 after_handler = Inr (7 * 8192, st2)" using handler_helps by blast
  have "new_handler after_failure \<noteq> 0" by (simp add: after_failure_def full_malloc_def)
  moreover have "give_back (new_handler after_failure) after_failure = Inr (None, after_handler)" by (simp add: give_back_def after_handler_def)
  ultimately have "handler_rounds brk_os no_env give_back 1 262145 (Suc 0) full_malloc after_handler"
    using handler_rounds.more [OF full_fails _ _ handler_rounds.none] by blast
  from new_handler_loop_ends [OF this st2] show ?thesis by simp
qed

end
