(* ===== verification/Address_Map.thy ===== *)
theory Address_Map
  imports Linked_List
begin

unbundle bit_operations_syntax

text \<open>
  The address map (\<open>addressmap-inl.h\<close>): a hash table of clusters, each an array of blocks, each a linked list of entries
  with a key (an address) and a value.  The three kinds of objects the map makes are in maps from their addresses: the headers that link all
  allocated pieces, the clusters and the entries.  Arrays of pointers are functions of the index; the indexes
  that the code computes are within the bounds.  The allocator and the deallocator given to the constructor, with their own state, are parameters, and so are
  the size of a value and the value whose bytes are all zero.
\<close>

section \<open>Types\<close>

definition kBlockBits :: nat where "kBlockBits = 7"
definition kBlockSize :: nat where "kBlockSize = 2 ^ kBlockBits"
definition kClusterBits :: nat where "kClusterBits = 13"
definition kClusterSize :: nat where "kClusterSize = 2 ^ (kBlockBits + kClusterBits)"
definition kClusterBlocks :: nat where "kClusterBlocks = 2 ^ kClusterBits"
definition kHashBits :: nat where "kHashBits = 12"
definition kHashSize :: nat where "kHashSize = 2 ^ 12"
definition ALLOC_COUNT :: nat where "ALLOC_COUNT = 64"
definition kHashMultiplier :: nat where "kHashMultiplier = 2654435769"

record 'v Entry =
  e_next :: addr
  e_key :: addr
  e_value :: 'v

record Cluster =
  c_next :: addr
  c_id :: nat
  blocks :: "nat \<Rightarrow> addr"

record ('v, 'e) allocator =
  alloc_fn :: "nat \<Rightarrow> 'e \<Rightarrow> addr \<times> 'e"
  dealloc_fn :: "addr \<Rightarrow> 'e \<Rightarrow> 'e"
  sizeof_Value :: nat
  zero_Value :: 'v

record ('v, 'e) AddressMap =
  hashtable :: "nat \<Rightarrow> addr"
  free_entries :: addr
  allocated :: addr
  am_objects :: "addr \<rightharpoonup> addr"
  clusters :: "addr \<rightharpoonup> Cluster"
  entries :: "addr \<rightharpoonup> 'v Entry"
  am_env :: 'e

definition sizeof_Entry :: "('v, 'e) allocator \<Rightarrow> nat" where
  "sizeof_Entry al = 16 + 8 * ((sizeof_Value al + 7) div 8)"

definition sizeof_Cluster :: nat where "sizeof_Cluster = 16 + 8 * kClusterBlocks"

text \<open>The loops \<open>for (p = head; p != NULL; p = p->next) if (P) return p\<close>; the result 0 is for the end of the list.\<close>

partial_function (option) find_loop :: "(addr \<rightharpoonup> 'n) \<Rightarrow> ('n \<Rightarrow> addr) \<Rightarrow> ('n \<Rightarrow> bool) \<Rightarrow> addr \<Rightarrow> addr res option" where
  "find_loop h nx P p =
     (if p = 0 then Some (Inr 0)
      else case h p of None \<Rightarrow> Some (Inl Segv) | Some n \<Rightarrow> if P n then Some (Inr p) else find_loop h nx P (nx n))"

section \<open>Clusters\<close>

definition HashInt :: "nat \<Rightarrow> nat" where
  "HashInt x = ((x mod 2 ^ 32) * kHashMultiplier mod 2 ^ 32) div 2 ^ (32 - kHashBits)"

definition BlockID :: "nat \<Rightarrow> nat" where
  "BlockID address = (address div 2 ^ kBlockBits) AND (kClusterBlocks - 1)"

text \<open>\<open>New\<close>: memory for an array behind an \<open>Object\<close> header that is linked with the others; \<open>memset\<close> of a NULL pointer faults.\<close>

definition am_New :: "('v, 'e) allocator \<Rightarrow> nat \<Rightarrow> ('v, 'e) AddressMap \<Rightarrow> (addr \<times> ('v, 'e) AddressMap) res" where
  "am_New al bytes st =
     (let (ptr, env) = alloc_fn al (8 + bytes) (am_env st); st = st\<lparr>am_env := env\<rparr>
      in if ptr = 0 then Inl Segv
         else Inr (ptr + 8, st\<lparr>am_objects := (am_objects st)(ptr \<mapsto> allocated st), allocated := ptr\<rparr>))"

definition cluster_loop :: "nat \<Rightarrow> addr \<Rightarrow> ('v, 'e) AddressMap \<Rightarrow> addr res" where
  "cluster_loop cluster_id c st = ends (find_loop (clusters st) c_next (\<lambda>c. c_id c = cluster_id) c)"

definition FindCluster ::
  "('v, 'e) allocator \<Rightarrow> nat \<Rightarrow> bool \<Rightarrow> ('v, 'e) AddressMap \<Rightarrow> (addr \<times> ('v, 'e) AddressMap) res" where
  "FindCluster al address create st =
     (let cluster_id = address div 2 ^ (kBlockBits + kClusterBits); h = HashInt cluster_id
      in bind_res (cluster_loop cluster_id (hashtable st h) st) (\<lambda>c.
         if c \<noteq> 0 then Inr (c, st)
         else if create then
           bind_res (am_New al sizeof_Cluster st) (\<lambda>(c, st).
           Inr (c, st\<lparr>clusters := (clusters st)(c \<mapsto> \<lparr> c_next = hashtable st h, c_id = cluster_id, blocks = (\<lambda>_. 0) \<rparr>),
                      hashtable := (hashtable st)(h := c)\<rparr>))
         else Inr (0, st)))"

definition AddressMap_new :: "('v, 'e) allocator \<Rightarrow> 'e \<Rightarrow> ('v, 'e) AddressMap res" where
  "AddressMap_new al env =
     bind_res (am_New al (8 * kHashSize) \<lparr> hashtable = (\<lambda>_. 0), free_entries = 0, allocated = 0, am_objects = Map.empty,
       clusters = Map.empty, entries = Map.empty, am_env = env \<rparr>) (\<lambda>(_, st). Inr (st\<lparr>hashtable := (\<lambda>_. 0)\<rparr>))"

text \<open>The destructor; an object is gone after \<open>dealloc_\<close>, so its link is read before.\<close>

partial_function (option) destroy_loop ::
  "('v, 'e) allocator \<Rightarrow> (addr \<rightharpoonup> addr) \<Rightarrow> addr \<Rightarrow> addr list \<Rightarrow> 'e \<Rightarrow> (addr list \<times> 'e) res option" where
  "destroy_loop al objs obj freed env =
     (if obj = 0 then Some (Inr (rev freed, env))
      else case objs obj of None \<Rightarrow> Some (Inl Segv)
        | Some nx \<Rightarrow> destroy_loop al (objs(obj := None)) nx (obj # freed) (dealloc_fn al obj env))"

text \<open>The result lists the objects given to \<open>dealloc_\<close>, in this order.\<close>

definition AddressMap_destroy :: "('v, 'e) allocator \<Rightarrow> ('v, 'e) AddressMap \<Rightarrow> (addr list \<times> 'e) res" where
  "AddressMap_destroy al st = ends (destroy_loop al (am_objects st) (allocated st) [] (am_env st))"

section \<open>Look-up\<close>

text \<open>The pointer \<open>&e->value\<close> is the address of the entry \<open>e\<close>.\<close>

definition entry_loop :: "addr \<Rightarrow> addr \<Rightarrow> ('v, 'e) AddressMap \<Rightarrow> addr res" where
  "entry_loop key e st = ends (find_loop (entries st) e_next (\<lambda>e. e_key e = key) e)"

definition FindMutable :: "('v, 'e) allocator \<Rightarrow> addr \<Rightarrow> ('v, 'e) AddressMap \<Rightarrow> addr res" where
  "FindMutable al key st =
     bind_res (FindCluster al key False st) (\<lambda>(c, st).
     if c \<noteq> 0 then bind_res (at_ptr (clusters st) c) (\<lambda>c. entry_loop key (blocks c (BlockID key)) st)
     else Inr 0)"

definition AddressMap_Find :: "('v, 'e) allocator \<Rightarrow> addr \<Rightarrow> ('v, 'e) AddressMap \<Rightarrow> addr res" where
  "AddressMap_Find al key st = FindMutable al key st"

section \<open>\<open>Insert\<close>\<close>

definition on_entry :: "addr \<Rightarrow> ('v Entry \<Rightarrow> 'v Entry) \<Rightarrow> ('v, 'e) AddressMap \<Rightarrow> ('v, 'e) AddressMap res" where
  "on_entry p f st = bind_res (at_ptr (entries st) p) (\<lambda>e. Inr (st\<lparr>entries := (entries st)(p \<mapsto> f e)\<rparr>))"

definition on_cluster :: "addr \<Rightarrow> (Cluster \<Rightarrow> Cluster) \<Rightarrow> ('v, 'e) AddressMap \<Rightarrow> ('v, 'e) AddressMap res" where
  "on_cluster p f st = bind_res (at_ptr (clusters st) p) (\<lambda>c. Inr (st\<lparr>clusters := (clusters st)(p \<mapsto> f c)\<rparr>))"

text \<open>\<open>array[i].next = &array[i+1]\<close> for all entries but the last, which gets the old free list.\<close>

fun link_entries :: "addr list \<Rightarrow> addr \<Rightarrow> (addr \<rightharpoonup> 'v Entry) \<Rightarrow> (addr \<rightharpoonup> 'v Entry)" where
  "link_entries [] rest es = es"
| "link_entries [p] rest es = es(p := map_option (e_next_update (\<lambda>_. rest)) (es p))"
| "link_entries (p # q # ps) rest es = link_entries (q # ps) rest (es(p := map_option (e_next_update (\<lambda>_. q)) (es p)))"

definition new_entries :: "('v, 'e) allocator \<Rightarrow> ('v, 'e) AddressMap \<Rightarrow> ('v, 'e) AddressMap res" where
  "new_entries al st =
     bind_res (am_New al (ALLOC_COUNT * sizeof_Entry al) st) (\<lambda>(array, st).
     let ps = map (\<lambda>i. array + i * sizeof_Entry al) [0..<ALLOC_COUNT];
         es = foldr (\<lambda>p es. es(p \<mapsto> \<lparr> e_next = 0, e_key = 0, e_value = zero_Value al \<rparr>)) ps (entries st)
     in Inr (st\<lparr>entries := link_entries ps (free_entries st) es, free_entries := array\<rparr>))"

definition AddressMap_Insert ::
  "('v, 'e) allocator \<Rightarrow> addr \<Rightarrow> 'v \<Rightarrow> ('v, 'e) AddressMap \<Rightarrow> ('v, 'e) AddressMap res" where
  "AddressMap_Insert al key value st =
     bind_res (FindCluster al key True st) (\<lambda>(c, st).
     let block = BlockID key in
     bind_res (at_ptr (clusters st) c) (\<lambda>cluster.
     bind_res (entry_loop key (blocks cluster block) st) (\<lambda>e.
     if e \<noteq> 0 then on_entry e (e_value_update (\<lambda>_. value)) st
     else
       bind_res (if free_entries st = 0 then new_entries al st else Inr st) (\<lambda>st.
       let e = free_entries st in
       bind_res (at_ptr (entries st) e) (\<lambda>entry.
       let st = st\<lparr>free_entries := e_next entry\<rparr> in
       bind_res (on_entry e (\<lambda>_. \<lparr> e_next = blocks cluster block, e_key = key, e_value = value \<rparr>) st) (\<lambda>st.
       on_cluster c (\<lambda>cl. cl\<lparr>blocks := (blocks cl)(block := e)\<rparr>) st))))))"

section \<open>\<open>FindAndRemove\<close>\<close>

text \<open>The pointer \<open>Entry** p\<close> is at a slot of a cluster or at the link of an entry.\<close>

datatype place = Slot addr nat | NextOf addr

definition load :: "place \<Rightarrow> ('v, 'e) AddressMap \<Rightarrow> addr res" where
  "load p st = (case p of Slot c b \<Rightarrow> bind_res (at_ptr (clusters st) c) (\<lambda>c. Inr (blocks c b))
     | NextOf e \<Rightarrow> bind_res (at_ptr (entries st) e) (\<lambda>e. Inr (e_next e)))"

definition store :: "place \<Rightarrow> addr \<Rightarrow> ('v, 'e) AddressMap \<Rightarrow> ('v, 'e) AddressMap res" where
  "store p x st = (case p of Slot c b \<Rightarrow> on_cluster c (\<lambda>c. c\<lparr>blocks := (blocks c)(b := x)\<rparr>) st
     | NextOf e \<Rightarrow> on_entry e (e_next_update (\<lambda>_. x)) st)"

text \<open>The loop up to the place whose entry has the key; \<open>None\<close> when the list ends.\<close>

partial_function (option) place_loop :: "addr \<Rightarrow> place \<Rightarrow> ('v, 'e) AddressMap \<Rightarrow> place option res option" where
  "place_loop key p st =
     (case load p st of Inl f \<Rightarrow> Some (Inl f)
      | Inr e \<Rightarrow> if e = 0 then Some (Inr None)
        else case entries st e of None \<Rightarrow> Some (Inl Segv)
             | Some n \<Rightarrow> if e_key n = key then Some (Inr (Some p)) else place_loop key (NextOf e) st)"

text \<open>The result is \<open>None\<close> for \<open>false\<close>, and the value stored in \<open>*removed_value\<close> for \<open>true\<close>.\<close>

definition FindAndRemove ::
  "('v, 'e) allocator \<Rightarrow> addr \<Rightarrow> ('v, 'e) AddressMap \<Rightarrow> ('v option \<times> ('v, 'e) AddressMap) res" where
  "FindAndRemove al key st =
     bind_res (FindCluster al key False st) (\<lambda>(c, st).
     if c \<noteq> 0 then
       bind_res (ends (place_loop key (Slot c (BlockID key)) st)) (\<lambda>r.
       case r of None \<Rightarrow> Inr (None, st)
       | Some p \<Rightarrow>
           bind_res (load p st) (\<lambda>e.
           bind_res (at_ptr (entries st) e) (\<lambda>n.
           bind_res (store p (e_next n) st) (\<lambda>st.
           bind_res (on_entry e (e_next_update (\<lambda>_. free_entries st)) st) (\<lambda>st.
           Inr (Some (e_value n), st\<lparr>free_entries := e\<rparr>))))))
     else Inr (None, st))"

section \<open>\<open>FindInside\<close>\<close>

text \<open>The loop over the entries of a block: the entry whose range has the key, or 0 and whether an entry had a smaller key.\<close>

partial_function (option) scan_block ::
  "(addr \<rightharpoonup> 'v Entry) \<Rightarrow> ('v \<Rightarrow> nat) \<Rightarrow> nat \<Rightarrow> bool \<Rightarrow> addr \<Rightarrow> (addr \<times> bool) res option" where
  "scan_block es size_func key_num had_smaller_key e =
     (if e = 0 then Some (Inr (0, had_smaller_key))
      else case es e of None \<Rightarrow> Some (Inl Segv)
        | Some n \<Rightarrow>
            if e_key n \<le> key_num then
              if e_key n = key_num \<or> key_num < (e_key n + size_func (e_value n)) mod 2 ^ 64 then Some (Inr (e, True))
              else scan_block es size_func key_num True (e_next n)
            else scan_block es size_func key_num had_smaller_key (e_next n))"

text \<open>The inner loop returns from the function, or breaks with the current \<open>num\<close>.\<close>

datatype exit = Return addr | Break nat

text \<open>\<open>num |= size - 1; num -= size\<close>: the last address of the block or cluster before.\<close>

definition previous :: "nat \<Rightarrow> nat \<Rightarrow> nat" where
  "previous sz num = ((num OR (sz - 1)) + 2 ^ 64 - sz) mod 2 ^ 64"

definition too_far :: "nat \<Rightarrow> nat \<Rightarrow> nat \<Rightarrow> bool" where
  "too_far max_sz key_num num \<longleftrightarrow> (key_num + 2 ^ 64 - num) mod 2 ^ 64 > max_sz"

lemma or_mask: "(x OR (2 ^ n - 1)) = x div 2 ^ n * 2 ^ n + (2 ^ n - 1)" for x :: nat
proof -
  have "x OR mask n = push_bit n (drop_bit n x) OR mask n"
    by (rule bit_eqI) (auto simp: bit_or_iff bit_mask_iff bit_push_bit_iff bit_drop_bit_eq)
  also have "\<dots> = push_bit n (drop_bit n x) + mask n"
    by (rule disjunctive_add [symmetric]) (auto simp: bit_mask_iff bit_push_bit_iff)
  finally show ?thesis by (simp add: mask_eq_exp_minus_1 push_bit_eq_mult drop_bit_eq_div)
qed

lemma previous_div:
  assumes "2 ^ n \<le> num" "n < 64"
  shows "previous (2 ^ n) num = (num div 2 ^ n * 2 ^ n - 1) mod 2 ^ 64"
proof -
  define q z where "q = num div 2 ^ n * 2 ^ n" and "z = (2 :: nat) ^ n"
  have "1 * 2 ^ n \<le> q" unfolding q_def by (rule mult_le_mono1) (use assms(1) in \<open>simp add: Suc_le_eq div_greater_zero_iff\<close>)
  then have "1 \<le> z" "z \<le> q" by (simp_all add: z_def)
  then have "q + (z - 1) + 2 ^ 64 - z = (q - 1) + 2 ^ 64" by linarith
  then have "num div 2 ^ n * 2 ^ n + (2 ^ n - 1) + 2 ^ 64 - 2 ^ n = (num div 2 ^ n * 2 ^ n - 1) + 2 ^ 64" unfolding q_def z_def .
  then show ?thesis by (simp only: previous_def or_mask mod_add_self2)
qed

lemma previous_less: "2 ^ n \<le> num \<Longrightarrow> n < 64 \<Longrightarrow> previous (2 ^ n) num < num"
proof -
  assume a: "2 ^ n \<le> num" "n < 64"
  have "0 < num" using a(1) by (metis gr0I not_less zero_less_numeral zero_less_power)
  have "(num div 2 ^ n * 2 ^ n - 1) mod 2 ^ 64 \<le> num div 2 ^ n * 2 ^ n - 1" by (rule mod_less_eq_dividend)
  moreover have "num div 2 ^ n * 2 ^ n \<le> num" by (rule div_times_less_eq_dividend)
  ultimately show ?thesis using previous_div [OF a] \<open>0 < num\<close> by linarith
qed

lemma BlockID_mod: "BlockID x = x div 2 ^ 7 mod 2 ^ 13"
proof -
  have "y AND (2 ^ 13 - 1) = y mod 2 ^ 13" for y :: nat
    by (metis mask_eq_exp_minus_1 take_bit_eq_mask take_bit_eq_mod)
  then show ?thesis by (simp only: BlockID_def kBlockBits_def kClusterBlocks_def kClusterBits_def)
qed

lemma BlockID_pos: "BlockID num \<noteq> 0 \<Longrightarrow> 2 ^ 7 \<le> num"
  by (rule ccontr) (simp add: BlockID_mod)

function inside_blocks ::
  "('v \<Rightarrow> nat) \<Rightarrow> nat \<Rightarrow> nat \<Rightarrow> Cluster \<Rightarrow> ('v, 'e) AddressMap \<Rightarrow> nat \<Rightarrow> exit res" where
  "inside_blocks size_func max_sz key_num c st num =
     (let block = BlockID num in
      bind_res (ends (scan_block (entries st) size_func key_num False (blocks c block))) (\<lambda>(e, had_smaller_key).
      if e \<noteq> 0 then Inr (Return e)
      else if had_smaller_key then Inr (Return 0)
      else if block = 0 then Inr (Break num)
      else let num = previous kBlockSize num in
        if too_far max_sz key_num num then Inr (Return 0)
        else inside_blocks size_func max_sz key_num c st num))"
  by pat_completeness auto
termination
proof (relation "measure (\<lambda>(_, _, _, _, _, num). num)", simp, goal_cases)
  case (1 sf mx k c st num b x y z n')
  then have "2 ^ 7 \<le> num" by (intro BlockID_pos) auto
  then show ?case using 1 previous_less [of 7 num] by (simp add: kBlockSize_def kBlockBits_def)
qed

declare inside_blocks.simps [simp del]

lemma inside_blocks_Break: "inside_blocks sf mx k c st num = Inr (Break n) \<Longrightarrow> n \<le> num"
proof (induction sf mx k c st num rule: inside_blocks.induct)
  case (1 sf mx k c st num)
  obtain r where r: "ends (scan_block (entries st) sf k False (blocks c (BlockID num))) = Inr r"
    using "1.prems" by (subst (asm) inside_blocks.simps) (auto simp: Let_def bind_res_Inr_iff)
  obtain e hs where e: "r = (e, hs)" by (cases r)
  note eq = "1.prems" [unfolded inside_blocks.simps [of sf mx k c st num] Let_def r bind_res.simps e prod.case]
  show ?case
  proof (cases "e \<noteq> 0 \<or> hs \<or> BlockID num = 0 \<or> too_far mx k (previous kBlockSize num)")
    case True
    then show ?thesis using eq by (auto split: if_splits)
  next
    case False
    then have "inside_blocks sf mx k c st (previous kBlockSize num) = Inr (Break n)" using eq by simp
    then have "n \<le> previous kBlockSize num" using "1.IH" [OF refl r e [symmetric] _ _ _ refl] False by auto
    moreover have "previous kBlockSize num < num" using previous_less [of 7 num] BlockID_pos [of num] False by (simp add: kBlockSize_def kBlockBits_def)
    ultimately show ?thesis by simp
  qed
qed

function inside_clusters ::
  "('v, 'e) allocator \<Rightarrow> ('v \<Rightarrow> nat) \<Rightarrow> nat \<Rightarrow> nat \<Rightarrow> ('v, 'e) AddressMap \<Rightarrow> nat \<Rightarrow> addr res" where
  "inside_clusters al size_func max_sz key_num st num =
     bind_res (FindCluster al num False st) (\<lambda>(c, _).
     bind_res (if c \<noteq> 0 then bind_res (at_ptr (clusters st) c) (\<lambda>c. inside_blocks size_func max_sz key_num c st num)
               else Inr (Break num)) (\<lambda>r.
     case r of Return e \<Rightarrow> Inr e
     | Break num \<Rightarrow>
         if num < kClusterSize then Inr 0
         else let num = previous kClusterSize num in
           if too_far max_sz key_num num then Inr 0
           else inside_clusters al size_func max_sz key_num st num))"
  by pat_completeness auto
termination
proof (relation "measure (\<lambda>(_, _, _, _, _, num). num)", simp, goal_cases)
  case (1 al sf mx k st num cs c s r n n')
  have le: "n \<le> num"
  proof (cases "c = 0")
    case False
    then obtain cl where "inside_blocks sf mx k cl st num = Inr (Break n)" using 1(3,4) by (auto simp: bind_res_Inr_iff)
    then show ?thesis by (rule inside_blocks_Break)
  qed (use 1(3,4) in simp)
  have "previous kClusterSize n < n" using previous_less [of 20 n] 1(5) by (simp add: kClusterSize_def kBlockBits_def kClusterBits_def)
  then show ?case using 1(6) le by simp
qed

declare inside_clusters.simps [simp del]

text \<open>The result is the entry and \<open>*res_key\<close>.\<close>

definition FindInside ::
  "('v, 'e) allocator \<Rightarrow> ('v \<Rightarrow> nat) \<Rightarrow> nat \<Rightarrow> addr \<Rightarrow> addr \<Rightarrow> ('v, 'e) AddressMap \<Rightarrow> (addr \<times> addr) res" where
  "FindInside al size_func max_sz key res_key st =
     bind_res (inside_clusters al size_func max_sz key st key) (\<lambda>e.
     if e = 0 then Inr (0, res_key)
     else bind_res (at_ptr (entries st) e) (\<lambda>n. Inr (e, e_key n)))"

section \<open>\<open>Iterate\<close>\<close>

text \<open>The callback may change the value of the entry and the data behind its argument.\<close>

type_synonym ('v, 'a) callback = "addr \<Rightarrow> 'v \<Rightarrow> 'a \<Rightarrow> 'v \<times> 'a"

partial_function (option) iterate_entries ::
  "('v, 'a) callback \<Rightarrow> addr \<Rightarrow> (addr \<rightharpoonup> 'v Entry) \<Rightarrow> 'a \<Rightarrow> ((addr \<rightharpoonup> 'v Entry) \<times> 'a) res option" where
  "iterate_entries callback e es arg =
     (if e = 0 then Some (Inr (es, arg))
      else case es e of None \<Rightarrow> Some (Inl Segv)
        | Some n \<Rightarrow> let (v, arg) = callback (e_key n) (e_value n) arg
            in iterate_entries callback (e_next n) (es(e \<mapsto> n\<lparr>e_value := v\<rparr>)) arg)"

fun iterate_blocks ::
  "('v, 'a) callback \<Rightarrow> (nat \<Rightarrow> addr) \<Rightarrow> nat list \<Rightarrow> (addr \<rightharpoonup> 'v Entry) \<Rightarrow> 'a \<Rightarrow> ((addr \<rightharpoonup> 'v Entry) \<times> 'a) res" where
  "iterate_blocks callback blks [] es arg = Inr (es, arg)"
| "iterate_blocks callback blks (b # bs) es arg =
     bind_res (ends (iterate_entries callback (blks b) es arg)) (\<lambda>(es, arg). iterate_blocks callback blks bs es arg)"

partial_function (option) iterate_clusters ::
  "('v, 'a) callback \<Rightarrow> (addr \<rightharpoonup> Cluster) \<Rightarrow> addr \<Rightarrow> (addr \<rightharpoonup> 'v Entry) \<Rightarrow> 'a \<Rightarrow> ((addr \<rightharpoonup> 'v Entry) \<times> 'a) res option" where
  "iterate_clusters callback cs c es arg =
     (if c = 0 then Some (Inr (es, arg))
      else case cs c of None \<Rightarrow> Some (Inl Segv)
        | Some cl \<Rightarrow> (case iterate_blocks callback (blocks cl) [0..<kClusterBlocks] es arg of Inl f \<Rightarrow> Some (Inl f)
            | Inr x \<Rightarrow> iterate_clusters callback cs (c_next cl) (fst x) (snd x)))"

fun iterate_table ::
  "('v, 'a) callback \<Rightarrow> (addr \<rightharpoonup> Cluster) \<Rightarrow> (nat \<Rightarrow> addr) \<Rightarrow> nat list \<Rightarrow> (addr \<rightharpoonup> 'v Entry) \<Rightarrow> 'a \<Rightarrow> ((addr \<rightharpoonup> 'v Entry) \<times> 'a) res" where
  "iterate_table callback cs tbl [] es arg = Inr (es, arg)"
| "iterate_table callback cs tbl (h # hs) es arg =
     bind_res (ends (iterate_clusters callback cs (tbl h) es arg)) (\<lambda>(es, arg). iterate_table callback cs tbl hs es arg)"

definition AddressMap_Iterate :: "('v, 'a) callback \<Rightarrow> 'a \<Rightarrow> ('v, 'e) AddressMap \<Rightarrow> ('a \<times> ('v, 'e) AddressMap) res" where
  "AddressMap_Iterate callback arg st =
     bind_res (iterate_table callback (clusters st) (hashtable st) [0..<kHashSize] (entries st) arg) (\<lambda>(es, arg).
     Inr (arg, st\<lparr>entries := es\<rparr>))"

end
