(* ===== verification/Address_Map_Correct.thy ===== *)
theory Address_Map_Correct
  imports Address_Map
begin

text \<open>
  The address map refines a partial function from keys to values.  The ghost variables of the invariant are the chain \<open>K h\<close> of clusters
  of a hash value, the chain \<open>B c b\<close> of entries of a block, the free entries \<open>Fr\<close> and the allocated objects \<open>Os\<close>.
\<close>

section \<open>Lists in a heap\<close>

definition lnk :: "(addr \<rightharpoonup> 'n) \<Rightarrow> ('n \<Rightarrow> addr) \<Rightarrow> mem" where
  "lnk h nx a = (case h a of None \<Rightarrow> 0 | Some n \<Rightarrow> nx n)"

definition listing :: "(addr \<rightharpoonup> 'n) \<Rightarrow> ('n \<Rightarrow> addr) \<Rightarrow> addr \<Rightarrow> addr list \<Rightarrow> bool" where
  "listing h nx p xs \<longleftrightarrow> sll (lnk h nx) p xs \<and> set xs \<subseteq> dom h"

lemma listing_Nil [simp]: "listing h nx p [] \<longleftrightarrow> p = 0"
  by (simp add: listing_def)

lemma listing_Cons [simp]: "listing h nx p (x # xs) \<longleftrightarrow> p = x \<and> x \<noteq> 0 \<and> (\<exists>n. h x = Some n \<and> listing h nx (nx n) xs)"
  by (auto simp: listing_def lnk_def)

lemma listing_0 [simp]: "listing h nx 0 xs \<longleftrightarrow> xs = []"
  by (auto simp: listing_def)

lemma listing_dom: "listing h nx p xs \<Longrightarrow> x \<in> set xs \<Longrightarrow> \<exists>n. h x = Some n"
  by (auto simp: listing_def)

lemma listing_distinct: "listing h nx p xs \<Longrightarrow> distinct xs"
  by (auto simp: listing_def dest: sll_distinct)

lemma listing_nonzero: "listing h nx p xs \<Longrightarrow> 0 \<notin> set xs"
  by (auto simp: listing_def dest: sll_nonzero)

lemma listing_cong:
  assumes "listing h nx p xs" "\<And>x n. x \<in> set xs \<Longrightarrow> h x = Some n \<Longrightarrow> \<exists>n'. h' x = Some n' \<and> nx n' = nx n"
  shows "listing h' nx p xs"
  using assms
proof (induction xs arbitrary: p)
  case (Cons x xs)
  obtain n where n: "p = x" "x \<noteq> 0" "h x = Some n" "listing h nx (nx n) xs" using Cons.prems(1) by auto
  obtain n' where n': "h' x = Some n'" "nx n' = nx n" using Cons.prems(2) [of x n] n(3) by auto
  have "listing h' nx (nx n) xs" by (rule Cons.IH [OF n(4)]) (use Cons.prems(2) in auto)
  then show ?case using n(1,2) n' by auto
qed simp

lemma listing_other: "listing h nx p xs \<Longrightarrow> q \<notin> set xs \<Longrightarrow> listing (h(q := v)) nx p xs"
  by (rule listing_cong) auto

text \<open>What the search loop returns.\<close>

definition found :: "addr option \<Rightarrow> addr" where "found r = (case r of None \<Rightarrow> 0 | Some x \<Rightarrow> x)"

lemma found_simps [simp]: "found None = 0" "found (Some x) = x"
  by (simp_all add: found_def)

lemma find_loop_listing: "listing h nx p xs \<Longrightarrow> find_loop h nx P p = Some (Inr (found (List.find (\<lambda>x. P (the (h x))) xs)))"
proof (induction xs arbitrary: p)
  case Nil
  then show ?case by (simp add: find_loop.simps)
next
  case (Cons x xs)
  then obtain n where n: "p = x" "x \<noteq> 0" "h x = Some n" "listing h nx (nx n) xs" by auto
  show ?case using Cons.IH [OF n(4)] n by (subst find_loop.simps) simp
qed

lemma find_Some_mem: "List.find P xs = Some x \<Longrightarrow> x \<in> set xs \<and> P x"
  by (induction xs) (auto split: if_splits)

lemma find_None_all: "List.find P xs = None \<longleftrightarrow> (\<forall>x\<in>set xs. \<not> P x)"
  by (induction xs) auto

lemma find_cong_list: "(\<And>x. x \<in> set xs \<Longrightarrow> P x = Q x) \<Longrightarrow> List.find P xs = List.find Q xs"
  by (induction xs) auto

lemma found_mem: "0 \<notin> set xs \<Longrightarrow> found (List.find P xs) = 0 \<longleftrightarrow> List.find P xs = None"
proof (cases "List.find P xs")
  case (Some x)
  moreover assume "0 \<notin> set xs"
  ultimately show ?thesis using find_Some_mem [OF Some] by (cases "x = 0") auto
qed simp

section \<open>The invariant\<close>

definition cid :: "nat \<Rightarrow> nat" where "cid k = k div 2 ^ 20"

lemma HashInt_less: "HashInt x < 4096"
proof -
  have "(x mod 2 ^ 32) * kHashMultiplier mod 2 ^ 32 < 2 ^ 32" by simp
  then have "((x mod 2 ^ 32) * kHashMultiplier mod 2 ^ 32) div 2 ^ 20 < 2 ^ 12" by (intro less_mult_imp_div_less) simp
  then show ?thesis by (simp add: HashInt_def kHashBits_def)
qed

lemma BlockID_less: "BlockID x < 8192"
  by (simp add: BlockID_mod)

definition block_ok :: "(addr \<rightharpoonup> 'v Entry) \<Rightarrow> nat \<Rightarrow> nat \<Rightarrow> addr \<Rightarrow> addr list \<Rightarrow> addr list \<Rightarrow> bool" where
  "block_ok es i b p xs Fr \<longleftrightarrow> listing es e_next p xs \<and> (\<forall>e\<in>set xs. cid (e_key (the (es e))) = i \<and> BlockID (e_key (the (es e))) = b) \<and>
     distinct (map (\<lambda>e. e_key (the (es e))) xs) \<and> set xs \<inter> set Fr = {}"

definition table_ok :: "(nat \<Rightarrow> addr) \<Rightarrow> (addr \<rightharpoonup> Cluster) \<Rightarrow> (nat \<Rightarrow> addr list) \<Rightarrow> bool" where
  "table_ok ht cs K \<longleftrightarrow> (\<forall>h<4096. listing cs c_next (ht h) (K h) \<and> (\<forall>c\<in>set (K h). HashInt (c_id (the (cs c))) = h) \<and>
     distinct (map (\<lambda>c. c_id (the (cs c))) (K h)))"

definition am_inv ::
  "('e \<Rightarrow> addr set) \<Rightarrow> (nat \<Rightarrow> addr list) \<Rightarrow> (addr \<Rightarrow> nat \<Rightarrow> addr list) \<Rightarrow> addr list \<Rightarrow> addr list \<Rightarrow> ('v, 'e) AddressMap \<Rightarrow> bool" where
  "am_inv live K B Fr Os st \<longleftrightarrow> table_ok (hashtable st) (clusters st) K \<and>
     (\<forall>h<4096. \<forall>c\<in>set (K h). \<forall>b<8192. block_ok (entries st) (c_id (the (clusters st c))) b (blocks (the (clusters st c)) b) (B c b) Fr) \<and>
     listing (entries st) e_next (free_entries st) Fr \<and> listing (am_objects st) id (allocated st) Os \<and> dom (am_objects st) = set Os \<and>
     dom (clusters st) \<subseteq> live (am_env st) \<and> dom (entries st) \<subseteq> live (am_env st) \<and> dom (am_objects st) \<subseteq> live (am_env st)"

lemma am_invD:
  assumes "am_inv live K B Fr Os st"
  shows "table_ok (hashtable st) (clusters st) K"
    "h < 4096 \<Longrightarrow> c \<in> set (K h) \<Longrightarrow> b < 8192 \<Longrightarrow> block_ok (entries st) (c_id (the (clusters st c))) b (blocks (the (clusters st c)) b) (B c b) Fr"
    "listing (entries st) e_next (free_entries st) Fr" "listing (am_objects st) id (allocated st) Os" "dom (am_objects st) = set Os"
    "dom (clusters st) \<subseteq> live (am_env st)" "dom (entries st) \<subseteq> live (am_env st)" "dom (am_objects st) \<subseteq> live (am_env st)"
  using assms unfolding am_inv_def by blast+

lemma table_okD:
  assumes "table_ok ht cs K" "h < 4096"
  shows "listing cs c_next (ht h) (K h)" "c \<in> set (K h) \<Longrightarrow> HashInt (c_id (the (cs c))) = h" "distinct (map (\<lambda>c. c_id (the (cs c))) (K h))"
  using assms by (simp_all add: table_ok_def)

lemma block_okD:
  assumes "block_ok es i b p xs Fr"
  shows "listing es e_next p xs" "e \<in> set xs \<Longrightarrow> cid (e_key (the (es e))) = i" "e \<in> set xs \<Longrightarrow> BlockID (e_key (the (es e))) = b"
    "distinct (map (\<lambda>e. e_key (the (es e))) xs)" "e \<in> set xs \<Longrightarrow> e \<notin> set Fr"
  using assms by (auto simp: block_ok_def)

text \<open>The abstraction.\<close>

definition find_cluster :: "(nat \<Rightarrow> addr list) \<Rightarrow> (addr \<rightharpoonup> Cluster) \<Rightarrow> nat \<Rightarrow> addr option" where
  "find_cluster K cs k = List.find (\<lambda>c. c_id (the (cs c)) = cid k) (K (HashInt (cid k)))"

definition find_entry :: "(addr \<rightharpoonup> 'v Entry) \<Rightarrow> addr list \<Rightarrow> nat \<Rightarrow> addr option" where
  "find_entry es xs k = List.find (\<lambda>e. e_key (the (es e)) = k) xs"

definition am_entry :: "(nat \<Rightarrow> addr list) \<Rightarrow> (addr \<Rightarrow> nat \<Rightarrow> addr list) \<Rightarrow> ('v, 'e) AddressMap \<Rightarrow> addr \<rightharpoonup> addr" where
  "am_entry K B st k = (case find_cluster K (clusters st) k of None \<Rightarrow> None | Some c \<Rightarrow> find_entry (entries st) (B c (BlockID k)) k)"

definition am_abs :: "(nat \<Rightarrow> addr list) \<Rightarrow> (addr \<Rightarrow> nat \<Rightarrow> addr list) \<Rightarrow> ('v, 'e) AddressMap \<Rightarrow> addr \<rightharpoonup> 'v" where
  "am_abs K B st k = map_option (\<lambda>e. e_value (the (entries st e))) (am_entry K B st k)"

text \<open>Clusters are found by their ids, and blocks do not share entries.\<close>

lemma find_cluster_mem:
  assumes "table_ok ht cs K" "find_cluster K cs k = Some c"
  shows "c \<in> set (K (HashInt (cid k)))" "c_id (the (cs c)) = cid k" "c \<noteq> 0" "\<exists>cl. cs c = Some cl"
proof -
  show 1: "c \<in> set (K (HashInt (cid k)))" "c_id (the (cs c)) = cid k" using find_Some_mem [OF assms(2) [unfolded find_cluster_def]] by simp_all
  note l = table_okD(1) [OF assms(1) HashInt_less [of "cid k"]]
  show "c \<noteq> 0" using listing_nonzero [OF l] 1(1) by metis
  show "\<exists>cl. cs c = Some cl" by (rule listing_dom [OF l 1(1)])
qed

lemma same_cluster:
  assumes "table_ok ht cs K" "h < 4096" "c \<in> set (K h)" "g < 4096" "d \<in> set (K g)" "c_id (the (cs c)) = c_id (the (cs d))"
  shows "c = d"
proof -
  have "h = g" using table_okD(2) [OF assms(1,2,3)] table_okD(2) [OF assms(1,4,5)] assms(6) by simp
  then show ?thesis using table_okD(3) [OF assms(1,2)] assms(3,5,6) by (auto simp: distinct_map dest: inj_onD)
qed

lemma find_cluster_id:
  assumes "table_ok ht cs K" "h < 4096" "c \<in> set (K h)" "c_id (the (cs c)) = cid k"
  shows "find_cluster K cs k = Some c"
proof -
  have h: "h = HashInt (cid k)" using table_okD(2) [OF assms(1,2,3)] assms(4) by simp
  have "find_cluster K cs k \<noteq> None" using assms(3,4) h by (auto simp: find_cluster_def find_None_all)
  then obtain d where d: "find_cluster K cs k = Some d" by blast
  have "d = c" using same_cluster [OF assms(1) HashInt_less find_cluster_mem(1) [OF assms(1) d] assms(2,3)] find_cluster_mem(2) [OF assms(1) d] assms(4) by simp
  then show ?thesis using d by simp
qed

lemma blocks_apart:
  assumes inv: "am_inv live K B Fr Os st" and c: "h < 4096" "c \<in> set (K h)" "b < 8192" and d: "g < 4096" "d \<in> set (K g)" "a < 8192"
    and e: "e \<in> set (B c b)" "e \<in> set (B d a)"
  shows "c = d \<and> b = a"
proof -
  note 1 = block_okD(2,3) [OF am_invD(2) [OF inv c] e(1)] note 2 = block_okD(2,3) [OF am_invD(2) [OF inv d] e(2)]
  show ?thesis using same_cluster [OF am_invD(1) [OF inv] c(1,2) d(1,2)] 1 2 by simp
qed

section \<open>Look-up\<close>

lemma cluster_loop_run:
  assumes "am_inv live K B Fr Os st"
  shows "cluster_loop (cid k) (hashtable st (HashInt (cid k))) st = Inr (found (find_cluster K (clusters st) k))"
  using find_loop_listing [OF table_okD(1) [OF am_invD(1) [OF assms] HashInt_less [of "cid k"]]] by (simp add: cluster_loop_def ends_def find_cluster_def)

lemma FindCluster_run:
  assumes "am_inv live K B Fr Os st" "create \<longrightarrow> find_cluster K (clusters st) k \<noteq> None"
  shows "FindCluster al k create st = Inr (found (find_cluster K (clusters st) k), st)"
  using cluster_loop_run [OF assms(1), of k] assms(2) find_cluster_mem(3) [OF am_invD(1) [OF assms(1)], of k]
  by (cases "find_cluster K (clusters st) k") (auto simp: FindCluster_def Let_def kBlockBits_def kClusterBits_def cid_def)

lemma entry_loop_run: "listing (entries st) e_next p xs \<Longrightarrow> entry_loop k p st = Inr (found (find_entry (entries st) xs k))"
  using find_loop_listing [of "entries st" e_next p xs "\<lambda>e. e_key e = k"] by (simp add: entry_loop_def ends_def find_entry_def)

lemma cluster_block:
  assumes "am_inv live K B Fr Os st" "find_cluster K (clusters st) k = Some c"
  shows "block_ok (entries st) (cid k) (BlockID k) (blocks (the (clusters st c)) (BlockID k)) (B c (BlockID k)) Fr"
  using am_invD(2) [OF assms(1) HashInt_less find_cluster_mem(1) [OF am_invD(1) [OF assms(1)] assms(2)] BlockID_less [of k]]
    find_cluster_mem(2) [OF am_invD(1) [OF assms(1)] assms(2)] by simp

lemma FindMutable_run:
  assumes inv: "am_inv live K B Fr Os st"
  shows "FindMutable al k st = Inr (found (am_entry K B st k))"
proof (cases "find_cluster K (clusters st) k")
  case None
  then show ?thesis using FindCluster_run [OF inv, of False k al] by (simp add: FindMutable_def am_entry_def)
next
  case (Some c)
  note m = find_cluster_mem(3,4) [OF am_invD(1) [OF inv] Some]
  show ?thesis
    using FindCluster_run [OF inv, of False k al] Some m entry_loop_run [OF block_okD(1) [OF cluster_block [OF inv Some]], of k]
    by (auto simp: FindMutable_def am_entry_def at_ptr_def)
qed

lemma am_entry_mem:
  assumes inv: "am_inv live K B Fr Os st" and e: "am_entry K B st k = Some e"
  obtains c n where "find_cluster K (clusters st) k = Some c" "e \<in> set (B c (BlockID k))" "entries st e = Some n" "e_key n = k" "e \<noteq> 0" "am_abs K B st k = Some (e_value n)"
proof -
  obtain c where c: "find_cluster K (clusters st) k = Some c" "find_entry (entries st) (B c (BlockID k)) k = Some e" using e by (auto simp: am_entry_def split: option.splits)
  note l = block_okD(1) [OF cluster_block [OF inv c(1)]]
  have m: "e \<in> set (B c (BlockID k))" "e_key (the (entries st e)) = k" using find_Some_mem [OF c(2) [unfolded find_entry_def]] by simp_all
  obtain n where n: "entries st e = Some n" using listing_dom [OF l m(1)] by blast
  have "e \<noteq> 0" using listing_nonzero [OF l] m(1) by metis
  then show ?thesis using that [OF c(1) m(1) n] m(2) n e by (simp add: am_abs_def)
qed

section \<open>A block changes\<close>

definition same_rest :: "('v, 'e) AddressMap \<Rightarrow> ('v, 'e) AddressMap \<Rightarrow> bool" where
  "same_rest st st' \<longleftrightarrow> hashtable st' = hashtable st \<and> am_objects st' = am_objects st \<and> allocated st' = allocated st \<and> am_env st' = am_env st \<and>
     dom (entries st') = dom (entries st)"

lemma table_ok_blocks:
  assumes ok: "table_ok ht cs K" and c: "cs c = Some cl" "c_id cl' = c_id cl" "c_next cl' = c_next cl"
  shows "table_ok ht (cs(c \<mapsto> cl')) K" "find_cluster K (cs(c \<mapsto> cl')) = find_cluster K cs"
proof -
  have id: "c_id (the ((cs(c \<mapsto> cl')) d)) = c_id (the (cs d))" for d using c by simp
  have "listing (cs(c \<mapsto> cl')) c_next (ht h) (K h)" if "h < 4096" for h
    by (rule listing_cong [OF table_okD(1) [OF ok that]]) (use c in auto)
  then show "table_ok ht (cs(c \<mapsto> cl')) K" using ok unfolding table_ok_def id by blast
  show "find_cluster K (cs(c \<mapsto> cl')) = find_cluster K cs" unfolding find_cluster_def id ..
qed

lemma am_inv_block:
  fixes st st' :: "('v, 'e) AddressMap"
  assumes inv: "am_inv live K B Fr Os st" and c: "h < 4096" "c \<in> set (K h)" "b < 8192"
    and cs: "clusters st' = (clusters st)(c \<mapsto> (the (clusters st c))\<lparr>blocks := (blocks (the (clusters st c)))(b := p)\<rparr>)" and rest: "same_rest st st'"
    and es: "\<forall>e. e \<notin> set (B c b) \<and> e \<notin> set Fr \<longrightarrow> entries st' e = entries st e"
    and blk: "block_ok (entries st') (c_id (the (clusters st c))) b p xs Fr'" and fr: "listing (entries st') e_next (free_entries st') Fr'"
    and sub: "set xs \<union> set Fr' \<subseteq> set (B c b) \<union> set Fr"
  shows "am_inv live K (B(c := (B c)(b := xs))) Fr' Os st'"
    "am_abs K (B(c := (B c)(b := xs))) st' k = (if find_cluster K (clusters st) k = Some c \<and> BlockID k = b
       then map_option (\<lambda>e. e_value (the (entries st' e))) (find_entry (entries st') xs k) else am_abs K B st k)"
proof -
  note T = am_invD(1) [OF inv]
  obtain cl where cl: "clusters st c = Some cl" using listing_dom [OF table_okD(1) [OF T c(1)] c(2)] by blast
  have cs': "clusters st' = (clusters st)(c \<mapsto> cl\<lparr>blocks := (blocks cl)(b := p)\<rparr>)" using cs cl by simp
  note tab = table_ok_blocks [OF T cl, of "cl\<lparr>blocks := (blocks cl)(b := p)\<rparr>", simplified, folded cs']
  have id: "c_id (the (clusters st' d)) = c_id (the (clusters st d))" for d using cl by (simp add: cs')
  have apart: "e \<notin> set (B c b)" "e \<notin> set Fr" "entries st' e = entries st e" if d: "g < 4096" "d \<in> set (K g)" "a < 8192" "(d, a) \<noteq> (c, b)" "e \<in> set (B d a)" for g d a e
  proof -
    show 1: "e \<notin> set (B c b)" using blocks_apart [OF inv c d(1-3) _ d(5)] d(4) by blast
    show 2: "e \<notin> set Fr" by (rule block_okD(5) [OF am_invD(2) [OF inv d(1-3)] d(5)])
    show "entries st' e = entries st e" using es 1 2 by blast
  qed
  have blks: "block_ok (entries st') (c_id (the (clusters st' d))) a (blocks (the (clusters st' d)) a) ((B(c := (B c)(b := xs))) d a) Fr'"
    if d: "g < 4096" "d \<in> set (K g)" "a < 8192" for g d a
  proof (cases "(d, a) = (c, b)")
    case True
    then show ?thesis using blk cl by (simp add: cs')
  next
    case False
    note ok = am_invD(2) [OF inv d] and ap = apart [OF d False]
    have B: "(B(c := (B c)(b := xs))) d a = B d a" "blocks (the (clusters st' d)) a = blocks (the (clusters st d)) a" using False cl by (auto simp: cs')
    have "listing (entries st') e_next (blocks (the (clusters st d)) a) (B d a)" by (rule listing_cong [OF block_okD(1) [OF ok]]) (use ap(3) in simp)
    moreover have m: "map (\<lambda>e. e_key (the (entries st' e))) (B d a) = map (\<lambda>e. e_key (the (entries st e))) (B d a)" using ap(3) by simp
    have "distinct (map (\<lambda>e. e_key (the (entries st' e))) (B d a))" unfolding m by (rule block_okD(4) [OF ok])
    moreover have "set (B d a) \<inter> set Fr' = {}" using ap(1,2) sub by blast
    ultimately show ?thesis using block_okD(2-4) [OF ok] ap(3) unfolding B id block_ok_def by simp
  qed
  show "am_inv live K (B(c := (B c)(b := xs))) Fr' Os st'"
    using tab(1) blks fr am_invD(4-8) [OF inv] rest cl unfolding am_inv_def same_rest_def by (auto simp: cs')
  show "am_abs K (B(c := (B c)(b := xs))) st' k = (if find_cluster K (clusters st) k = Some c \<and> BlockID k = b
       then map_option (\<lambda>e. e_value (the (entries st' e))) (find_entry (entries st') xs k) else am_abs K B st k)"
  proof (cases "find_cluster K (clusters st) k")
    case None
    then show ?thesis by (simp add: am_abs_def am_entry_def tab(2))
  next
    case (Some d)
    show ?thesis
    proof (cases "d = c \<and> BlockID k = b")
      case True
      then show ?thesis using Some by (simp add: am_abs_def am_entry_def tab(2))
    next
      case False
      note ap = apart [OF HashInt_less find_cluster_mem(1) [OF T Some] BlockID_less]
      have ne: "(d, BlockID k) \<noteq> (c, b)" using False by simp
      have "(B(c := (B c)(b := xs))) d (BlockID k) = B d (BlockID k)" using False by auto
      moreover have "find_entry (entries st') (B d (BlockID k)) k = find_entry (entries st) (B d (BlockID k)) k"
        unfolding find_entry_def by (rule find_cong_list) (simp add: ap(3) [OF ne])
      moreover have "map_option (\<lambda>e. e_value (the (entries st' e))) (find_entry (entries st) (B d (BlockID k)) k) = map_option (\<lambda>e. e_value (the (entries st e))) (find_entry (entries st) (B d (BlockID k)) k)"
        by (rule option.map_cong0) (use find_Some_mem ap(3) [OF ne] in \<open>force simp: find_entry_def\<close>)
      ultimately have "am_abs K (B(c := (B c)(b := xs))) st' k = am_abs K B st k" using Some by (simp add: am_abs_def am_entry_def tab(2))
      then show ?thesis using Some False by auto
    qed
  qed
qed

text \<open>A new value for a key that is there.\<close>

lemma overwrite:
  fixes st :: "('v, 'e) AddressMap"
  assumes inv: "am_inv live K B Fr Os st" and c: "find_cluster K (clusters st) k = Some c" and e: "find_entry (entries st) (B c (BlockID k)) k = Some e"
  shows "\<exists>st'. on_entry e (e_value_update (\<lambda>_. v)) st = Inr st' \<and> am_inv live K B Fr Os st' \<and> am_abs K B st' = (am_abs K B st)(k \<mapsto> v)"
proof -
  note T = am_invD(1) [OF inv] note C = find_cluster_mem [OF T c] note blk = cluster_block [OF inv c]
  let ?xs = "B c (BlockID k)"
  have em: "e \<in> set ?xs" "e_key (the (entries st e)) = k" using find_Some_mem [OF e [unfolded find_entry_def]] by simp_all
  obtain n where n: "entries st e = Some n" using listing_dom [OF block_okD(1) [OF blk] em(1)] by blast
  define st' where "st' = st\<lparr>entries := (entries st)(e \<mapsto> n\<lparr>e_value := v\<rparr>)\<rparr>"
  have run: "on_entry e (e_value_update (\<lambda>_. v)) st = Inr st'" using n by (simp add: on_entry_def at_ptr_def st'_def)
  have key: "e_key (the (entries st' x)) = e_key (the (entries st x))" for x using n by (simp add: st'_def)
  obtain cl where cl: "clusters st c = Some cl" using C(4) by blast
  have cs: "clusters st' = (clusters st)(c \<mapsto> (the (clusters st c))\<lparr>blocks := (blocks (the (clusters st c)))(BlockID k := blocks (the (clusters st c)) (BlockID k))\<rparr>)"
    using cl by (simp add: st'_def map_upd_triv)
  have rest: "same_rest st st'" using n by (auto simp: same_rest_def st'_def)
  have es: "\<forall>x. x \<notin> set ?xs \<and> x \<notin> set Fr \<longrightarrow> entries st' x = entries st x" using em(1) by (auto simp: st'_def)
  have "listing (entries st') e_next (blocks (the (clusters st c)) (BlockID k)) ?xs" by (rule listing_cong [OF block_okD(1) [OF blk]]) (use n in \<open>auto simp: st'_def\<close>)
  then have b: "block_ok (entries st') (c_id (the (clusters st c))) (BlockID k) (blocks (the (clusters st c)) (BlockID k)) ?xs Fr"
    using blk C(2) unfolding block_ok_def key by simp
  have fr: "listing (entries st') e_next (free_entries st') Fr"
    using listing_other [OF am_invD(3) [OF inv] block_okD(5) [OF blk em(1)]] by (simp add: st'_def)
  note R = am_inv_block [where st = st and st' = st', OF inv HashInt_less C(1) BlockID_less cs rest es b fr subset_refl, simplified]
  have "am_abs K B st' j = ((am_abs K B st)(k \<mapsto> v)) j" for j
  proof (cases "find_cluster K (clusters st) j = Some c \<and> BlockID j = BlockID k")
    case True
    have fe: "find_entry (entries st') ?xs j = find_entry (entries st) ?xs j" by (simp only: find_entry_def key)
    show ?thesis
    proof (cases "j = k")
      case True
      then show ?thesis using R(2) [of j] c e fe by (simp add: st'_def)
    next
      case False
      have "x \<noteq> e" if "find_entry (entries st) ?xs j = Some x" for x using find_Some_mem [OF that [unfolded find_entry_def]] em(2) False by auto
      then show ?thesis using R(2) [of j] True fe False by (cases "find_entry (entries st) ?xs j") (simp_all add: am_abs_def am_entry_def st'_def)
    qed
  next
    case False
    then have "j \<noteq> k" using c by auto
    then show ?thesis using R(2) [of j] False by auto
  qed
  then show ?thesis using run R(1) by auto
qed

text \<open>A new entry from the free list.\<close>

lemma add_entry:
  fixes st :: "('v, 'e) AddressMap"
  assumes inv: "am_inv live K B (e # Fr) Os st" and c: "find_cluster K (clusters st) k = Some c" and none: "find_entry (entries st) (B c (BlockID k)) k = None"
  shows "\<exists>entry st'. free_entries st = e \<and> entries st e = Some entry \<and>
    bind_res (on_entry e (\<lambda>_. \<lparr> e_next = blocks (the (clusters st c)) (BlockID k), e_key = k, e_value = v \<rparr>) (st\<lparr>free_entries := e_next entry\<rparr>)) (\<lambda>st.
      on_cluster c (\<lambda>cl. cl\<lparr>blocks := (blocks cl)(BlockID k := e)\<rparr>) st) = Inr st' \<and>
    am_inv live K (B(c := (B c)(BlockID k := e # B c (BlockID k)))) Fr Os st' \<and> am_abs K (B(c := (B c)(BlockID k := e # B c (BlockID k)))) st' = (am_abs K B st)(k \<mapsto> v)"
proof -
  note T = am_invD(1) [OF inv] note C = find_cluster_mem [OF T c] note blk = cluster_block [OF inv c]
  let ?b = "BlockID k" let ?xs = "B c ?b"
  obtain cl where cl: "clusters st c = Some cl" using C(4) by blast
  obtain n where n: "free_entries st = e" "e \<noteq> 0" "entries st e = Some n" "listing (entries st) e_next (e_next n) Fr" using am_invD(3) [OF inv] by auto
  define st' where "st' = st\<lparr>free_entries := e_next n, entries := (entries st)(e \<mapsto> \<lparr> e_next = blocks cl ?b, e_key = k, e_value = v \<rparr>),
     clusters := (clusters st)(c \<mapsto> cl\<lparr>blocks := (blocks cl)(?b := e)\<rparr>)\<rparr>"
  have run: "bind_res (on_entry e (\<lambda>_. \<lparr> e_next = blocks (the (clusters st c)) ?b, e_key = k, e_value = v \<rparr>) (st\<lparr>free_entries := e_next n\<rparr>)) (\<lambda>st.
      on_cluster c (\<lambda>cl. cl\<lparr>blocks := (blocks cl)(?b := e)\<rparr>) st) = Inr st'"
    using n cl by (simp add: on_entry_def on_cluster_def at_ptr_def st'_def)
  have ex: "e \<notin> set ?xs" using block_okD(5) [OF blk, of e] by auto
  have ef: "e \<notin> set Fr" using listing_distinct [OF am_invD(3) [OF inv]] by simp
  have cs: "clusters st' = (clusters st)(c \<mapsto> (the (clusters st c))\<lparr>blocks := (blocks (the (clusters st c)))(?b := e)\<rparr>)" using cl by (simp add: st'_def)
  have rest: "same_rest st st'" using n(3) by (auto simp: same_rest_def st'_def)
  have es: "\<forall>x. x \<notin> set ?xs \<and> x \<notin> set (e # Fr) \<longrightarrow> entries st' x = entries st x" by (simp add: st'_def)
  have l: "listing (entries st') e_next (blocks cl ?b) ?xs" using listing_other [OF block_okD(1) [OF blk] ex] cl by (simp add: st'_def)
  have keys: "map (\<lambda>x. e_key (the (entries st' x))) ?xs = map (\<lambda>x. e_key (the (entries st x))) ?xs" using ex by (auto simp: st'_def)
  have nk: "k \<notin> set (map (\<lambda>x. e_key (the (entries st x))) ?xs)" using none by (auto simp: find_entry_def find_None_all)
  have old: "e_key (the (entries st' x)) = e_key (the (entries st x))" if "x \<in> set ?xs" for x using ex that by (auto simp: st'_def)
  have b: "block_ok (entries st') (c_id (the (clusters st c))) ?b e (e # ?xs) Fr"
    unfolding block_ok_def
  proof (intro conjI)
    show "listing (entries st') e_next e (e # ?xs)" using l n(2) by (simp add: st'_def)
    show "\<forall>x\<in>set (e # ?xs). cid (e_key (the (entries st' x))) = c_id (the (clusters st c)) \<and> BlockID (e_key (the (entries st' x))) = ?b"
      using block_okD(2,3) [OF blk] old C(2) by (simp add: st'_def)
    have "e_key (the (entries st' e)) = k" by (simp add: st'_def)
    then show "distinct (map (\<lambda>e. e_key (the (entries st' e))) (e # ?xs))" using nk block_okD(4) [OF blk] unfolding list.map keys distinct.simps by blast
    show "set (e # ?xs) \<inter> set Fr = {}" using block_okD(5) [OF blk] ef by auto
  qed
  have fr: "listing (entries st') e_next (free_entries st') Fr" using listing_other [OF n(4) ef] by (simp add: st'_def)
  note R = am_inv_block [where st = st and st' = st', OF inv HashInt_less C(1) BlockID_less cs rest es b fr]
  have sub: "set (e # ?xs) \<union> set Fr \<subseteq> set ?xs \<union> set (e # Fr)" by auto
  have "am_abs K (B(c := (B c)(?b := e # ?xs))) st' j = ((am_abs K B st)(k \<mapsto> v)) j" for j
  proof (cases "find_cluster K (clusters st) j = Some c \<and> BlockID j = ?b")
    case True
    have fe: "find_entry (entries st') ?xs j = find_entry (entries st) ?xs j" unfolding find_entry_def by (rule find_cong_list) (simp add: old)
    have ee: "entries st' e = Some \<lparr> e_next = blocks cl ?b, e_key = k, e_value = v \<rparr>" by (simp add: st'_def)
    show ?thesis
    proof (cases "j = k")
      case True
      then show ?thesis using R(2) [OF sub, of j] c ee by (simp add: find_entry_def)
    next
      case False
      have "entries st' x = entries st x" if "find_entry (entries st) ?xs j = Some x" for x using find_Some_mem [OF that [unfolded find_entry_def]] ex by (auto simp: st'_def)
      moreover have "find_entry (entries st') (e # ?xs) j = find_entry (entries st) ?xs j" using fe ee False by (simp add: find_entry_def)
      ultimately show ?thesis using R(2) [OF sub, of j] True False by (cases "find_entry (entries st) ?xs j") (simp_all add: am_abs_def am_entry_def)
    qed
  next
    case False
    then have "j \<noteq> k" using c by auto
    then show ?thesis using R(2) [OF sub, of j] False by auto
  qed
  then show ?thesis using n run R(1) [OF sub] by blast
qed

section \<open>Memory\<close>

text \<open>
  The allocator gives a block that does not overlap the blocks in use, as \<open>malloc\<close> does, or NULL; \<open>live\<close> are the bytes of the blocks in use.
\<close>

definition alloc_ok :: "('v, 'e) allocator \<Rightarrow> ('e \<Rightarrow> addr set) \<Rightarrow> bool" where
  "alloc_ok al live \<longleftrightarrow> (\<forall>n s p s'. alloc_fn al n s = (p, s') \<and> p \<noteq> 0 \<longrightarrow> {p..<p + n} \<inter> live s = {} \<and> live s' = live s \<union> {p..<p + n})"

lemma am_New_cases:
  assumes "alloc_ok al live"
  obtains (null) n s where "fst (alloc_fn al n s) = 0" "am_New al bytes st = Inl Segv"
  | (block) p env where "am_New al bytes st = Inr (p + 8, st\<lparr>am_env := env, am_objects := (am_objects st)(p \<mapsto> allocated st), allocated := p\<rparr>)" "p \<noteq> 0"
      "{p..<p + (8 + bytes)} \<inter> live (am_env st) = {}" "live env = live (am_env st) \<union> {p..<p + (8 + bytes)}"
proof -
  obtain p env where a: "alloc_fn al (8 + bytes) (am_env st) = (p, env)" by fastforce
  show ?thesis
  proof (cases "p = 0")
    case True
    then show ?thesis using null [of "8 + bytes" "am_env st"] a by (simp add: am_New_def)
  next
    case False
    have "{p..<p + (8 + bytes)} \<inter> live (am_env st) = {} \<and> live env = live (am_env st) \<union> {p..<p + (8 + bytes)}"
      using assms a False unfolding alloc_ok_def by blast
    then show ?thesis using block [of p env] a False by (simp add: am_New_def)
  qed
qed

lemma listing_objects:
  assumes "listing h id p Os" "dom h = set Os" "q \<notin> dom h" "q \<noteq> 0"
  shows "listing (h(q \<mapsto> p)) id q (q # Os)" "dom (h(q \<mapsto> p)) = set (q # Os)"
  using listing_other [OF assms(1), of q "Some p"] assms by auto

text \<open>A new cluster.\<close>

lemma new_cluster:
  fixes st :: "('v, 'e) AddressMap"
  assumes inv: "am_inv live K B Fr Os st" and none: "find_cluster K (clusters st) k = None"
    and p: "p \<noteq> 0" "{p..<p + (8 + sizeof_Cluster)} \<inter> live (am_env st) = {}" "live env = live (am_env st) \<union> {p..<p + (8 + sizeof_Cluster)}"
    and st': "st' = st\<lparr>am_env := env, am_objects := (am_objects st)(p \<mapsto> allocated st), allocated := p,
      clusters := (clusters st)(p + 8 \<mapsto> \<lparr> c_next = hashtable st (HashInt (cid k)), c_id = cid k, blocks = (\<lambda>_. 0) \<rparr>), hashtable := (hashtable st)(HashInt (cid k) := p + 8)\<rparr>"
  defines "K' \<equiv> K(HashInt (cid k) := (p + 8) # K (HashInt (cid k)))" and "B' \<equiv> B(p + 8 := (\<lambda>_. []))"
  shows "am_inv live K' B' Fr (p # Os) st'" "am_abs K' B' st' = am_abs K B st" "find_cluster K' (clusters st') k = Some (p + 8)" "free_entries st' = free_entries st"
proof -
  note T = am_invD(1) [OF inv]
  let ?h = "HashInt (cid k)"
  have sz: "p \<in> {p..<p + (8 + sizeof_Cluster)}" "p + 8 \<in> {p..<p + (8 + sizeof_Cluster)}" by (simp_all add: sizeof_Cluster_def)
  then have new: "p \<notin> dom (am_objects st)" "p + 8 \<notin> dom (clusters st)" using p(2) am_invD(6,8) [OF inv] by blast+
  have notin: "p + 8 \<notin> set (K h)" if "h < 4096" for h using listing_dom [OF table_okD(1) [OF T that]] new(2) by blast
  have cs: "clusters st' c = clusters st c" if "h < 4096" "c \<in> set (K h)" for c h using notin [OF that(1)] that(2) by (auto simp: st')
  have ids: "map (\<lambda>c. c_id (the (clusters st' c))) (K h) = map (\<lambda>c. c_id (the (clusters st c))) (K h)" if "h < 4096" for h using cs [OF that] by simp
  have ks: "cid k \<notin> set (map (\<lambda>c. c_id (the (clusters st c))) (K ?h))" using none by (auto simp: find_cluster_def find_None_all)
  have lst: "listing (clusters st') c_next (hashtable st h) (K h)" if "h < 4096" for h
    using listing_other [OF table_okD(1) [OF T that] notin [OF that]] by (simp add: st')
  have me: "clusters st' (p + 8) = Some \<lparr> c_next = hashtable st ?h, c_id = cid k, blocks = (\<lambda>_. 0) \<rparr>" by (simp add: st')
  have tab: "table_ok (hashtable st') (clusters st') K'"
    unfolding table_ok_def
  proof (intro allI impI conjI)
    fix h :: nat assume h: "h < 4096"
    show "listing (clusters st') c_next (hashtable st' h) (K' h)" using lst [OF h] me by (cases "h = ?h") (simp_all add: K'_def st')
    show "\<forall>c\<in>set (K' h). HashInt (c_id (the (clusters st' c))) = h"
      using me cs [OF h] table_okD(2) [OF T h] by (cases "h = ?h") (simp_all add: K'_def)
    show "distinct (map (\<lambda>c. c_id (the (clusters st' c))) (K' h))"
    proof (cases "h = ?h")
      case True
      then have "map (\<lambda>c. c_id (the (clusters st' c))) (K' h) = cid k # map (\<lambda>c. c_id (the (clusters st c))) (K h)" using me ids [OF h] by (simp add: K'_def)
      then show ?thesis using ks table_okD(3) [OF T h] True unfolding distinct.simps by auto
    next
      case False
      then have K: "K' h = K h" by (simp add: K'_def)
      show ?thesis unfolding K ids [OF h] by (rule table_okD(3) [OF T h])
    qed
  qed
  have blk: "block_ok (entries st') (c_id (the (clusters st' c))) b (blocks (the (clusters st' c)) b) (B' c b) Fr" if c: "h < 4096" "c \<in> set (K' h)" "b < 8192" for h c b
  proof (cases "c = p + 8")
    case True
    then show ?thesis using me by (simp add: B'_def block_ok_def)
  next
    case False
    then have "c \<in> set (K h)" using c(2) by (auto simp: K'_def split: if_splits)
    then show ?thesis using am_invD(2) [OF inv c(1) _ c(3)] cs [OF c(1)] False by (simp add: B'_def st')
  qed
  note O = listing_objects [OF am_invD(4,5) [OF inv] new(1) p(1)]
  have f: "am_objects st' = (am_objects st)(p \<mapsto> allocated st)" "allocated st' = p" "am_env st' = env" "entries st' = entries st" "free_entries st' = free_entries st" by (simp_all add: st')
  have "dom (clusters st') \<subseteq> live env" "dom (entries st') \<subseteq> live env" "dom (am_objects st') \<subseteq> live env"
    using am_invD(6-8) [OF inv] sz p(3) by (auto simp: st')
  then show "am_inv live K' B' Fr (p # Os) st'" using tab blk O am_invD(3) [OF inv] unfolding am_inv_def f by blast
  show "find_cluster K' (clusters st') k = Some (p + 8)" using me by (simp add: find_cluster_def K'_def)
  show "free_entries st' = free_entries st" by (simp add: st')
  show "am_abs K' B' st' = am_abs K B st"
  proof
    fix j
    have fc: "find_cluster K' (clusters st') j = (if cid j = cid k then Some (p + 8) else find_cluster K (clusters st) j)"
    proof -
      have "List.find (\<lambda>c. c_id (the (clusters st' c)) = cid j) (K (HashInt (cid j))) = List.find (\<lambda>c. c_id (the (clusters st c)) = cid j) (K (HashInt (cid j)))"
        by (rule find_cong_list) (simp add: cs [OF HashInt_less])
      then show ?thesis using me by (auto simp: find_cluster_def K'_def)
    qed
    show "am_abs K' B' st' j = am_abs K B st j"
    proof (cases "cid j = cid k")
      case True
      then have "find_cluster K (clusters st) j = None" using none by (simp add: find_cluster_def)
      then show ?thesis using fc True by (simp add: am_abs_def am_entry_def B'_def find_entry_def)
    next
      case False
      have "c \<noteq> p + 8" if "find_cluster K (clusters st) j = Some c" for c using find_cluster_mem(1) [OF T that] notin [OF HashInt_less] by metis
      then show ?thesis using fc False by (auto simp: am_abs_def am_entry_def B'_def st' split: option.splits)
    qed
  qed
qed

text \<open>New entries for the free list.\<close>

lemma link_outside [simp]: "x \<notin> set ps \<Longrightarrow> link_entries ps r es x = es x"
  by (induction ps r es rule: link_entries.induct) auto

lemma link_dom [simp]: "dom (link_entries ps r es) = dom es"
proof (induction ps r es rule: link_entries.induct)
  case (3 p q ps rest es)
  have "dom (es(p := map_option (e_next_update (\<lambda>_. q)) (es p))) = dom es" by (auto simp: dom_def)
  then show ?case unfolding link_entries.simps "3.IH" .
qed (auto simp: dom_def)

lemma link_listing: "distinct ps \<Longrightarrow> 0 \<notin> set ps \<Longrightarrow> set ps \<subseteq> dom es \<Longrightarrow> ps \<noteq> [] \<Longrightarrow> listing (link_entries ps 0 es) e_next (hd ps) ps"
proof (induction ps "0 :: addr" es rule: link_entries.induct)
  case (3 p q ps es)
  then obtain n where n: "es p = Some n" by auto
  let ?es = "es(p := map_option (e_next_update (\<lambda>_. q)) (es p))"
  have "listing (link_entries (q # ps) 0 ?es) e_next (hd (q # ps)) (q # ps)" by (rule "3.hyps") (use "3.prems" in auto)
  moreover have "link_entries (q # ps) 0 ?es p = Some (n\<lparr>e_next := q\<rparr>)" using "3.prems"(1) n by simp
  ultimately show ?case using "3.prems"(2) by simp
qed auto

definition zeroed :: "addr list \<Rightarrow> 'v Entry \<Rightarrow> (addr \<rightharpoonup> 'v Entry) \<Rightarrow> (addr \<rightharpoonup> 'v Entry)" where
  "zeroed ps z es = foldr (\<lambda>p es. es(p \<mapsto> z)) ps es"

lemma zeroed_apply: "zeroed ps z es x = (if x \<in> set ps then Some z else es x)"
  by (induction ps) (auto simp: zeroed_def)

lemma zeroed_dom: "dom (zeroed ps z es) = set ps \<union> dom es"
  by (auto simp: dom_def zeroed_apply)

lemma array_cells:
  fixes sz a n :: nat
  assumes "0 < sz"
  defines "ps \<equiv> map (\<lambda>i. a + i * sz) [0..<n]"
  shows "distinct ps" "set ps \<subseteq> {a..<a + n * sz}"
proof -
  show "distinct ps" using assms(1) by (auto simp: ps_def distinct_map inj_on_def)
  show "set ps \<subseteq> {a..<a + n * sz}"
  proof
    fix x assume "x \<in> set ps"
    then obtain i where i: "i < n" "x = a + i * sz" by (auto simp: ps_def)
    have "Suc i * sz \<le> n * sz" using i(1) by (intro mult_le_mono1) simp
    then have "i * sz < n * sz" using assms(1) by (simp only: mult_Suc)
    then show "x \<in> {a..<a + n * sz}" using i(2) by (simp only: atLeastLessThan_iff) simp
  qed
qed

lemma more_entries:
  fixes st :: "('v, 'e) AddressMap"
  assumes inv: "am_inv live K B [] Os st" and p: "p \<noteq> 0" "{p..<p + (8 + n)} \<inter> live (am_env st) = {}" "live env = live (am_env st) \<union> {p..<p + (8 + n)}" "0 < n"
    and ps: "distinct ps" "set ps \<subseteq> {p + 8..<p + (8 + n)}" "ps \<noteq> []" "hd ps = p + 8"
    and st': "st' = st\<lparr>am_env := env, am_objects := (am_objects st)(p \<mapsto> allocated st), allocated := p,
      entries := link_entries ps (free_entries st) (zeroed ps z (entries st)), free_entries := p + 8\<rparr>"
  shows "am_inv live K B ps (p # Os) st'" "am_abs K B st' = am_abs K B st" "clusters st' = clusters st" "\<And>x. x \<in> dom (entries st) \<Longrightarrow> entries st' x = entries st x"
proof -
  note T = am_invD(1) [OF inv]
  have free: "free_entries st = 0" using am_invD(3) [OF inv] by simp
  have "p \<in> {p..<p + (8 + n)}" "{p + 8..<p + (8 + n)} \<subseteq> {p..<p + (8 + n)}" by simp_all
  then have in_new: "p \<in> {p..<p + (8 + n)}" "set ps \<subseteq> {p..<p + (8 + n)}" using ps(2) by blast+
  then have new: "p \<notin> dom (am_objects st)" "set ps \<inter> dom (entries st) = {}" using p(2) am_invD(7,8) [OF inv] by blast+
  have f: "am_objects st' = (am_objects st)(p \<mapsto> allocated st)" "allocated st' = p" "am_env st' = env" "clusters st' = clusters st" "hashtable st' = hashtable st" "free_entries st' = p + 8"
    and es: "entries st' = link_entries ps 0 (zeroed ps z (entries st))" by (simp_all add: st' free)
  then show "clusters st' = clusters st" by simp
  show old: "entries st' x = entries st x" if "x \<in> dom (entries st)" for x
  proof -
    have "x \<notin> set ps" using that new(2) by blast
    then show ?thesis by (simp add: es zeroed_apply)
  qed
  have fr: "listing (entries st') e_next (p + 8) ps"
  proof -
    have "0 \<notin> set ps" using ps(2) by auto
    then show ?thesis using link_listing [OF ps(1) _ _ ps(3), of "zeroed ps z (entries st)"] unfolding es ps(4) zeroed_dom by blast
  qed
  have in_es: "x \<in> dom (entries st)" if "h < 4096" "c \<in> set (K h)" "b < 8192" "x \<in> set (B c b)" for h c b x
    using listing_dom [OF block_okD(1) [OF am_invD(2) [OF inv that(1-3)]] that(4)] by blast
  have blk: "block_ok (entries st') (c_id (the (clusters st c))) b (blocks (the (clusters st c)) b) (B c b) ps" if c: "h < 4096" "c \<in> set (K h)" "b < 8192" for h c b
  proof -
    note ok = am_invD(2) [OF inv c] and ie = in_es [OF c]
    have m: "map (\<lambda>e. e_key (the (entries st' e))) (B c b) = map (\<lambda>e. e_key (the (entries st e))) (B c b)" using old ie by simp
    have "listing (entries st') e_next (blocks (the (clusters st c)) b) (B c b)" by (rule listing_cong [OF block_okD(1) [OF ok]]) (use old ie in auto)
    moreover have "set (B c b) \<inter> set ps = {}" using ie new(2) by blast
    ultimately show ?thesis using block_okD(2-4) [OF ok] old [OF ie] unfolding block_ok_def m by simp
  qed
  note O = listing_objects [OF am_invD(4,5) [OF inv] new(1) p(1)]
  have "dom (clusters st) \<subseteq> live env" "dom (entries st') \<subseteq> live env" "dom ((am_objects st)(p \<mapsto> allocated st)) \<subseteq> live env"
    using am_invD(6-8) [OF inv] in_new unfolding es link_dom zeroed_dom p(3) dom_fun_upd by auto
  then show "am_inv live K B ps (p # Os) st'" using T blk O fr unfolding am_inv_def f by blast
  show "am_abs K B st' = am_abs K B st"
  proof
    fix k
    show "am_abs K B st' k = am_abs K B st k"
    proof (cases "find_cluster K (clusters st) k")
      case (Some c)
      note o = old [OF in_es [OF HashInt_less find_cluster_mem(1) [OF T Some] BlockID_less]]
      have "find_entry (entries st') (B c (BlockID k)) k = find_entry (entries st) (B c (BlockID k)) k" unfolding find_entry_def by (rule find_cong_list) (simp add: o)
      moreover have "entries st' e = entries st e" if "find_entry (entries st) (B c (BlockID k)) k = Some e" for e
        using find_Some_mem [OF that [unfolded find_entry_def]] o [of e k] by simp
      ultimately show ?thesis using Some by (cases "find_entry (entries st) (B c (BlockID k)) k") (simp_all add: am_abs_def am_entry_def f(4))
    qed (simp add: am_abs_def am_entry_def f(4))
  qed
qed

section \<open>\<open>Insert\<close>\<close>

lemma new_entries_run:
  fixes st :: "('v, 'e) AddressMap"
  assumes ok: "alloc_ok al live" and inv: "am_inv live K B [] Os st"
  obtains (null) n s where "fst (alloc_fn al n s) = 0" "new_entries al st = Inl Segv"
  | (more) e Fr Os' st' where "new_entries al st = Inr st'" "am_inv live K B (e # Fr) Os' st'" "am_abs K B st' = am_abs K B st" "clusters st' = clusters st"
      "\<And>x. x \<in> dom (entries st) \<Longrightarrow> entries st' x = entries st x"
proof -
  let ?n = "ALLOC_COUNT * sizeof_Entry al"
  have n: "0 < ?n" "0 < sizeof_Entry al" by (simp_all add: ALLOC_COUNT_def sizeof_Entry_def)
  show ?thesis
  proof (cases rule: am_New_cases [OF ok, of ?n st, case_names no_mem mem])
    case (no_mem n s)
    then show ?thesis using null by (simp add: new_entries_def)
  next
    case (mem p env)
    define ps where "ps = map (\<lambda>i. p + 8 + i * sizeof_Entry al) [0..<ALLOC_COUNT]"
    note cells = array_cells [OF n(2), of "p + 8" ALLOC_COUNT, folded ps_def]
    have sub: "set ps \<subseteq> {p + 8..<p + (8 + ?n)}" using cells(2) by (simp add: add.assoc)
    have hd: "ps \<noteq> []" "hd ps = p + 8" by (simp_all add: ps_def ALLOC_COUNT_def upt_rec)
    define st' where "st' = st\<lparr>am_env := env, am_objects := (am_objects st)(p \<mapsto> allocated st), allocated := p,
      entries := link_entries ps (free_entries st) (zeroed ps \<lparr> e_next = 0, e_key = 0, e_value = zero_Value al \<rparr> (entries st)), free_entries := p + 8\<rparr>"
    note M = more_entries [OF inv mem(2-4) n(1) cells(1) sub hd st'_def]
    have "new_entries al st = Inr st'" using mem(1) by (simp add: new_entries_def ps_def st'_def zeroed_def Let_def)
    moreover obtain e Fr where "ps = e # Fr" using hd(1) by (cases ps) auto
    ultimately show ?thesis using more [of st' e Fr "p # Os"] M by simp
  qed
qed

text \<open>What \<open>Insert\<close> does once it has the cluster.\<close>

lemma insert_in_cluster:
  fixes st :: "('v, 'e) AddressMap" and v :: 'v
  assumes ok: "alloc_ok al live" and inv: "am_inv live K B Fr Os st" and c: "find_cluster K (clusters st) k = Some c"
  defines "code \<equiv> bind_res (at_ptr (clusters st) c) (\<lambda>cluster. bind_res (entry_loop k (blocks cluster (BlockID k)) st) (\<lambda>e.
     if e \<noteq> 0 then on_entry e (e_value_update (\<lambda>_. v)) st
     else bind_res (if free_entries st = 0 then new_entries al st else Inr st) (\<lambda>st. let e = free_entries st in
       bind_res (at_ptr (entries st) e) (\<lambda>entry. let st = st\<lparr>free_entries := e_next entry\<rparr> in
       bind_res (on_entry e (\<lambda>_. \<lparr> e_next = blocks cluster (BlockID k), e_key = k, e_value = v \<rparr>) st) (\<lambda>st.
       on_cluster c (\<lambda>cl. cl\<lparr>blocks := (blocks cl)(BlockID k := e)\<rparr>) st)))))"
  shows "(\<exists>K' B' Fr' Os' st'. code = Inr st' \<and> am_inv live K' B' Fr' Os' st' \<and> am_abs K' B' st' = (am_abs K B st)(k \<mapsto> v)) \<or>
    (code = Inl Segv \<and> (\<exists>n s. fst (alloc_fn al n s) = 0))"
proof -
  note T = am_invD(1) [OF inv] note C = find_cluster_mem [OF T c] note blk = cluster_block [OF inv c]
  obtain cl where cl: "clusters st c = Some cl" using C(4) by blast
  let ?xs = "B c (BlockID k)"
  have l: "listing (entries st) e_next (blocks cl (BlockID k)) ?xs" using block_okD(1) [OF blk] cl by simp
  note run = entry_loop_run [OF l, of k]
  show ?thesis
  proof (cases "find_entry (entries st) ?xs k")
    case (Some e)
    have "e \<noteq> 0" using find_Some_mem [OF Some [unfolded find_entry_def]] listing_nonzero [OF l] by metis
    then have "code = on_entry e (e_value_update (\<lambda>_. v)) st" using cl run Some by (simp add: code_def at_ptr_def)
    then show ?thesis using overwrite [OF inv c Some, of v] by metis
  next
    case None
    have push: "\<exists>B' st3. (let e = free_entries st2 in
       bind_res (at_ptr (entries st2) e) (\<lambda>entry. let st = st2\<lparr>free_entries := e_next entry\<rparr> in
       bind_res (on_entry e (\<lambda>_. \<lparr> e_next = blocks cl (BlockID k), e_key = k, e_value = v \<rparr>) st) (\<lambda>st.
       on_cluster c (\<lambda>cl. cl\<lparr>blocks := (blocks cl)(BlockID k := e)\<rparr>) st))) = Inr st3 \<and> am_inv live K B' Fr2 Os2 st3 \<and> am_abs K B' st3 = (am_abs K B st)(k \<mapsto> v)"
      if i2: "am_inv live K B (e # Fr2) Os2 st2" and a2: "am_abs K B st2 = am_abs K B st" and c2: "clusters st2 = clusters st"
        and e2: "\<forall>x\<in>dom (entries st). entries st2 x = entries st x" for e Fr2 Os2 and st2 :: "('v, 'e) AddressMap"
    proof -
      have "entries st2 x = entries st x" if "x \<in> set ?xs" for x using e2 listing_dom [OF l that] by blast
      then have none2: "find_entry (entries st2) ?xs k = None" using None by (simp add: find_entry_def find_None_all)
      have c2': "find_cluster K (clusters st2) k = Some c" using c c2 by simp
      obtain n st3 where "free_entries st2 = e" "entries st2 e = Some n"
          "bind_res (on_entry e (\<lambda>_. \<lparr> e_next = blocks (the (clusters st2 c)) (BlockID k), e_key = k, e_value = v \<rparr>) (st2\<lparr>free_entries := e_next n\<rparr>)) (\<lambda>st.
             on_cluster c (\<lambda>cl. cl\<lparr>blocks := (blocks cl)(BlockID k := e)\<rparr>) st) = Inr st3"
          "am_inv live K (B(c := (B c)(BlockID k := e # ?xs))) Fr2 Os2 st3" "am_abs K (B(c := (B c)(BlockID k := e # ?xs))) st3 = (am_abs K B st2)(k \<mapsto> v)"
        using add_entry [OF i2 c2' none2, of v] by blast
      then show ?thesis using c2 cl a2 by (auto simp: at_ptr_def Let_def)
    qed
    have code: "code = bind_res (if free_entries st = 0 then new_entries al st else Inr st) (\<lambda>st. let e = free_entries st in
       bind_res (at_ptr (entries st) e) (\<lambda>entry. let st = st\<lparr>free_entries := e_next entry\<rparr> in
       bind_res (on_entry e (\<lambda>_. \<lparr> e_next = blocks cl (BlockID k), e_key = k, e_value = v \<rparr>) st) (\<lambda>st.
       on_cluster c (\<lambda>cl. cl\<lparr>blocks := (blocks cl)(BlockID k := e)\<rparr>) st)))"
      using cl run None by (simp add: code_def at_ptr_def)
    show ?thesis
    proof (cases Fr)
      case Nil
      then have free: "free_entries st = 0" and inv': "am_inv live K B [] Os st" using am_invD(3) [OF inv] inv by simp_all
      show ?thesis
      proof (cases rule: new_entries_run [OF ok inv', case_names no_mem mem])
        case (no_mem n s)
        then show ?thesis using free unfolding code by auto
      next
        case (mem e Fr2 Os2 st2)
        then show ?thesis using push [OF mem(2-4)] free unfolding code by fastforce
      qed
    next
      case (Cons e Fr2)
      have inv2: "am_inv live K B (e # Fr2) Os st" using inv Cons by simp
      then have "free_entries st \<noteq> 0" using am_invD(3) [OF inv2] by simp
      then show ?thesis using push [OF inv2 refl refl] unfolding code by fastforce
    qed
  qed
qed

text \<open>What a state stands for.\<close>

definition represents :: "('e \<Rightarrow> addr set) \<Rightarrow> ('v, 'e) AddressMap \<Rightarrow> (addr \<rightharpoonup> 'v) \<Rightarrow> bool" where
  "represents live st M \<longleftrightarrow> (\<exists>K B Fr Os. am_inv live K B Fr Os st \<and> am_abs K B st = M)"

lemma Insert_run:
  fixes st :: "('v, 'e) AddressMap"
  assumes ok: "alloc_ok al live" and r: "represents live st M"
  shows "(\<exists>st'. AddressMap_Insert al k v st = Inr st' \<and> represents live st' (M(k \<mapsto> v))) \<or> (AddressMap_Insert al k v st = Inl Segv \<and> (\<exists>n s. fst (alloc_fn al n s) = 0))"
proof -
  obtain K B Fr Os where inv: "am_inv live K B Fr Os st" and M: "am_abs K B st = M" using r by (auto simp: represents_def)
  show ?thesis
  proof (cases "find_cluster K (clusters st) k")
    case (Some c)
    have "FindCluster al k True st = Inr (c, st)" using FindCluster_run [OF inv, of True k al] Some by simp
    then show ?thesis using insert_in_cluster [OF ok inv Some, of v] unfolding AddressMap_Insert_def represents_def M by (simp only: bind_res.simps prod.case Let_def) blast
  next
    case None
    let ?h = "HashInt (cid k)"
    have loop: "cluster_loop (cid k) (hashtable st ?h) st = Inr 0" using cluster_loop_run [OF inv, of k] None by simp
    have fc: "FindCluster al k True st = bind_res (am_New al sizeof_Cluster st) (\<lambda>(c, st).
        Inr (c, st\<lparr>clusters := (clusters st)(c \<mapsto> \<lparr> c_next = hashtable st ?h, c_id = cid k, blocks = (\<lambda>_. 0) \<rparr>), hashtable := (hashtable st)(?h := c)\<rparr>))"
      using loop by (simp add: FindCluster_def Let_def cid_def kBlockBits_def kClusterBits_def)
    show ?thesis
    proof (cases rule: am_New_cases [OF ok, of sizeof_Cluster st, case_names no_mem mem])
      case (no_mem n s)
      then show ?thesis using fc by (auto simp: AddressMap_Insert_def)
    next
      case (mem p env)
      define st1 where "st1 = st\<lparr>am_env := env, am_objects := (am_objects st)(p \<mapsto> allocated st), allocated := p,
        clusters := (clusters st)(p + 8 \<mapsto> \<lparr> c_next = hashtable st ?h, c_id = cid k, blocks = (\<lambda>_. 0) \<rparr>), hashtable := (hashtable st)(?h := p + 8)\<rparr>"
      note N = new_cluster [OF inv None mem(2-4) st1_def]
      have "FindCluster al k True st = Inr (p + 8, st1)" using fc mem(1) by (simp add: st1_def)
      then show ?thesis using insert_in_cluster [OF ok N(1,3), of v] unfolding AddressMap_Insert_def represents_def N(2) M by (simp only: bind_res.simps prod.case Let_def) blast
    qed
  qed
qed

lemma Find_run:
  fixes st :: "('v, 'e) AddressMap"
  assumes "represents live st M"
  shows "\<exists>p. AddressMap_Find al k st = Inr p \<and> (case M k of None \<Rightarrow> p = 0 | Some v \<Rightarrow> p \<noteq> 0 \<and> (\<exists>n. entries st p = Some n \<and> e_key n = k \<and> e_value n = v))"
proof -
  obtain K B Fr Os where inv: "am_inv live K B Fr Os st" and M: "am_abs K B st = M" using assms by (auto simp: represents_def)
  have run: "AddressMap_Find al k st = Inr (found (am_entry K B st k))" using FindMutable_run [OF inv] by (simp add: AddressMap_Find_def)
  show ?thesis
  proof (cases "am_entry K B st k")
    case None
    then have "M k = None" using M by (auto simp: am_abs_def)
    then show ?thesis using run None by simp
  next
    case (Some e)
    then show ?thesis using run M by (auto elim!: am_entry_mem [OF inv])
  qed
qed

section \<open>\<open>FindAndRemove\<close>\<close>

text \<open>The place before an entry of the list that starts at \<open>q\<close>.\<close>

fun place_of :: "place \<Rightarrow> addr list \<Rightarrow> place" where
  "place_of q [] = q"
| "place_of q (x # xs) = place_of (NextOf x) xs"

lemma place_loop_run:
  assumes "listing (entries st) e_next p xs" "load q st = Inr p"
  shows "place_loop k q st = Some (Inr (case find_entry (entries st) xs k of None \<Rightarrow> None
    | Some e \<Rightarrow> Some (place_of q (takeWhile (\<lambda>x. x \<noteq> e) xs))))"
  using assms
proof (induction xs arbitrary: p q)
  case Nil
  then show ?case by (simp add: place_loop.simps find_entry_def)
next
  case (Cons x xs)
  then obtain n where n: "p = x" "x \<noteq> 0" "entries st x = Some n" "listing (entries st) e_next (e_next n) xs" by auto
  have next': "load (NextOf x) st = Inr (e_next n)" using n(3) by (simp add: load_def at_ptr_def)
  show ?case
  proof (cases "e_key n = k")
    case True
    then show ?thesis using n Cons.prems(2) by (subst place_loop.simps) (simp add: find_entry_def)
  next
    case False
    have "x \<noteq> e" if "find_entry (entries st) xs k = Some e" for e
      using find_Some_mem [OF that [unfolded find_entry_def]] n(3) False by auto
    then show ?thesis using n Cons.prems(2) False Cons.IH [OF n(4) next'] by (subst place_loop.simps) (auto simp: find_entry_def split: option.splits)
  qed
qed

lemma place_of_snoc [simp]: "place_of q (us @ [y]) = NextOf y"
  by (induction us arbitrary: q) auto

lemma lnk_upd [simp]: "lnk (h(y \<mapsto> n)) nx = (lnk h nx)(y := nx n)"
  by (auto simp: lnk_def fun_eq_iff)

lemma listing_unlink:
  assumes "listing h nx p (us @ y # e # zs)" "h e = Some n" "nx m = nx n"
  shows "listing (h(y \<mapsto> m)) nx p (us @ y # zs)"
proof -
  have d: "distinct (us @ y # e # zs)" by (rule listing_distinct [OF assms(1)])
  have l: "lnk h nx e = nx n" using assms(2) by (simp add: lnk_def)
  then show ?thesis using assms(1,3) d by (auto simp: listing_def)
qed

lemma find_skip: "\<not> P e \<Longrightarrow> List.find P (ys @ e # zs) = List.find P (ys @ zs)"
  by (induction ys) auto

text \<open>An entry goes from its block to the free list.\<close>

lemma remove_entry:
  fixes st :: "('v, 'e) AddressMap"
  assumes inv: "am_inv live K B Fr Os st" and c: "find_cluster K (clusters st) k = Some c" and e: "find_entry (entries st) (B c (BlockID k)) k = Some e"
    and ys: "B c (BlockID k) = ys @ e # zs"
  defines "p \<equiv> place_of (Slot c (BlockID k)) ys"
  shows "\<exists>n st'. load p st = Inr e \<and> entries st e = Some n \<and> bind_res (store p (e_next n) st) (\<lambda>st. bind_res (on_entry e (e_next_update (\<lambda>_. free_entries st)) st) (\<lambda>st. Inr (Some (e_value n), st\<lparr>free_entries := e\<rparr>)))
      = Inr (am_abs K B st k, st') \<and> represents live st' ((am_abs K B st)(k := None))"
proof -
  note T = am_invD(1) [OF inv] note C = find_cluster_mem [OF T c] note blk = cluster_block [OF inv c]
  let ?b = "BlockID k" let ?xs = "B c ?b"
  obtain cl where cl: "clusters st c = Some cl" using C(4) by blast
  have l: "listing (entries st) e_next (blocks cl ?b) (ys @ e # zs)" using block_okD(1) [OF blk] cl ys by simp
  have em: "e \<in> set ?xs" "e_key (the (entries st e)) = k" using find_Some_mem [OF e [unfolded find_entry_def]] by simp_all
  obtain n where n: "entries st e = Some n" using listing_dom [OF block_okD(1) [OF blk] em(1)] by blast
  have d: "distinct (ys @ e # zs)" by (rule listing_distinct [OF l])
  have val: "am_abs K B st k = Some (e_value n)" using c e n by (simp add: am_abs_def am_entry_def)
  have ez: "e \<noteq> 0" using listing_nonzero [OF l] by auto
  have nf: "x \<notin> set Fr" if "x \<in> set ?xs" for x by (rule block_okD(5) [OF blk that])
  have "\<exists>q es1. load p st = Inr e \<and> store p (e_next n) st = Inr (st\<lparr>clusters := (clusters st)(c \<mapsto> cl\<lparr>blocks := (blocks cl)(?b := q)\<rparr>), entries := es1\<rparr>) \<and>
      listing es1 e_next q (ys @ zs) \<and> es1 e = Some n \<and> dom es1 = dom (entries st) \<and> (\<forall>x. x \<notin> set ?xs \<longrightarrow> es1 x = entries st x) \<and>
      (\<forall>x. e_key (the (es1 x)) = e_key (the (entries st x)) \<and> e_value (the (es1 x)) = e_value (the (entries st x)))"
  proof (cases ys rule: rev_cases)
    case Nil
    have "load p st = Inr e" "listing (entries st) e_next (e_next n) zs" using l cl Nil n by (simp_all add: p_def load_def at_ptr_def)
    moreover have "store p (e_next n) st = Inr (st\<lparr>clusters := (clusters st)(c \<mapsto> cl\<lparr>blocks := (blocks cl)(?b := e_next n)\<rparr>), entries := entries st\<rparr>)"
      using cl Nil by (simp add: p_def store_def on_cluster_def at_ptr_def)
    ultimately show ?thesis using n Nil by fastforce
  next
    case (snoc us y)
    have ly: "listing (entries st) e_next (blocks cl ?b) (us @ y # e # zs)" using l snoc by simp
    obtain m where m: "entries st y = Some m" using listing_dom [OF ly, of y] by auto
    have my: "e_next m = e" using ly m by (auto simp: listing_def lnk_def)
    let ?es = "(entries st)(y \<mapsto> m\<lparr>e_next := e_next n\<rparr>)"
    have "y \<noteq> e" using d snoc by auto
    moreover have "load p st = Inr e" using m my snoc by (simp add: p_def load_def at_ptr_def)
    moreover have "store p (e_next n) st = Inr (st\<lparr>clusters := (clusters st)(c \<mapsto> cl\<lparr>blocks := (blocks cl)(?b := blocks cl ?b)\<rparr>), entries := ?es\<rparr>)"
      using m cl snoc by (simp add: p_def store_def on_entry_def at_ptr_def map_upd_triv)
    moreover have "listing ?es e_next (blocks cl ?b) (ys @ zs)" using listing_unlink [OF ly n, of "m\<lparr>e_next := e_next n\<rparr>"] snoc by simp
    moreover have "dom ?es = dom (entries st)" using m by auto
    moreover have "\<forall>x. x \<notin> set ?xs \<longrightarrow> ?es x = entries st x" using ys snoc by auto
    moreover have "\<forall>x. e_key (the (?es x)) = e_key (the (entries st x)) \<and> e_value (the (?es x)) = e_value (the (entries st x))" using m by simp
    ultimately show ?thesis using n by (intro exI [of _ "blocks cl ?b"] exI [of _ ?es]) simp
  qed
  then obtain q es1 where S: "load p st = Inr e" "store p (e_next n) st = Inr (st\<lparr>clusters := (clusters st)(c \<mapsto> cl\<lparr>blocks := (blocks cl)(?b := q)\<rparr>), entries := es1\<rparr>)"
      "listing es1 e_next q (ys @ zs)" "es1 e = Some n" "dom es1 = dom (entries st)" "\<forall>x. x \<notin> set ?xs \<longrightarrow> es1 x = entries st x"
      "\<forall>x. e_key (the (es1 x)) = e_key (the (entries st x)) \<and> e_value (the (es1 x)) = e_value (the (entries st x))"
    by blast
  define st' where "st' = st\<lparr>clusters := (clusters st)(c \<mapsto> cl\<lparr>blocks := (blocks cl)(?b := q)\<rparr>), entries := es1(e \<mapsto> n\<lparr>e_next := free_entries st\<rparr>), free_entries := e\<rparr>"
  have run: "bind_res (store p (e_next n) st) (\<lambda>st. bind_res (on_entry e (e_next_update (\<lambda>_. free_entries st)) st) (\<lambda>st. Inr (Some (e_value n), st\<lparr>free_entries := e\<rparr>))) = Inr (am_abs K B st k, st')"
    using S(2,4) val by (simp add: on_entry_def at_ptr_def st'_def)
  have kv: "e_key (the (entries st' x)) = e_key (the (entries st x))" "e_value (the (entries st' x)) = e_value (the (entries st x))" for x using S(7) n by (simp_all add: st'_def)
  have cs: "clusters st' = (clusters st)(c \<mapsto> (the (clusters st c))\<lparr>blocks := (blocks (the (clusters st c)))(?b := q)\<rparr>)" using cl by (simp add: st'_def)
  have rest: "same_rest st st'" using S(5) n by (auto simp: same_rest_def st'_def)
  have es: "\<forall>x. x \<notin> set ?xs \<and> x \<notin> set Fr \<longrightarrow> entries st' x = entries st x" using S(6) em(1) by (auto simp: st'_def)
  have "listing (entries st') e_next q (ys @ zs)" using listing_other [OF S(3), of e] d by (simp add: st'_def)
  moreover have "distinct (map (\<lambda>x. e_key (the (entries st x))) (ys @ zs))" using block_okD(4) [OF blk] ys by auto
  moreover have "set (ys @ zs) \<inter> set (e # Fr) = {}" using nf ys d by auto
  ultimately have b: "block_ok (entries st') (c_id (the (clusters st c))) ?b q (ys @ zs) (e # Fr)"
    using block_okD(2,3) [OF blk] ys C(2) unfolding block_ok_def kv by simp
  have "listing es1 e_next (free_entries st) Fr" by (rule listing_cong [OF am_invD(3) [OF inv]]) (metis S(6) nf)
  then have fr: "listing (entries st') e_next (free_entries st') (e # Fr)" using listing_other [of es1 e_next "free_entries st" Fr e] nf [OF em(1)] ez by (simp add: st'_def)
  have sub: "set (ys @ zs) \<union> set (e # Fr) \<subseteq> set ?xs \<union> set Fr" using ys by auto
  note R = am_inv_block [where st = st and st' = st', OF inv HashInt_less C(1) BlockID_less cs rest es b fr sub]
  have "am_abs K (B(c := (B c)(?b := ys @ zs))) st' j = ((am_abs K B st)(k := None)) j" for j
  proof (cases "find_cluster K (clusters st) j = Some c \<and> BlockID j = ?b")
    case True
    show ?thesis
    proof (cases "j = k")
      case True
      have "k \<notin> set (map (\<lambda>x. e_key (the (entries st x))) (ys @ zs))" using block_okD(4) [OF blk] ys em(2) by auto
      then have "find_entry (entries st') (ys @ zs) k = None" by (auto simp: find_entry_def find_None_all kv)
      then show ?thesis using R(2) [of j] c True by simp
    next
      case False
      then have "find_entry (entries st') (ys @ zs) j = find_entry (entries st) ?xs j" unfolding find_entry_def kv ys using em(2) by (simp add: find_skip)
      then show ?thesis using R(2) [of j] True False by (simp add: am_abs_def am_entry_def kv)
    qed
  next
    case False
    then have "j \<noteq> k" using c by auto
    then show ?thesis using R(2) [of j] False by auto
  qed
  then have "represents live st' ((am_abs K B st)(k := None))" using R(1) unfolding represents_def by blast
  then show ?thesis using S(1) n run by blast
qed

lemma FindAndRemove_run:
  fixes st :: "('v, 'e) AddressMap"
  assumes r: "represents live st M"
  shows "\<exists>st'. FindAndRemove al k st = Inr (M k, st') \<and> represents live st' (M(k := None))"
proof -
  obtain K B Fr Os where inv: "am_inv live K B Fr Os st" and M: "am_abs K B st = M" using r by (auto simp: represents_def)
  note fc = FindCluster_run [OF inv, of False k al, simplified]
  have gone: "M(k := None) = M" if "M k = None" using that by auto
  show ?thesis
  proof (cases "find_cluster K (clusters st) k")
    case None
    then have "M k = None" using M by (auto simp: am_abs_def am_entry_def)
    then show ?thesis using fc None r gone by (simp add: FindAndRemove_def)
  next
    case (Some c)
    note C = find_cluster_mem [OF am_invD(1) [OF inv] Some] note blk = cluster_block [OF inv Some]
    let ?xs = "B c (BlockID k)"
    have q: "load (Slot c (BlockID k)) st = Inr (blocks (the (clusters st c)) (BlockID k))" using C(4) by (auto simp: load_def at_ptr_def)
    note loop = place_loop_run [OF block_okD(1) [OF blk] q, of k]
    show ?thesis
    proof (cases "find_entry (entries st) ?xs k")
      case None
      then have "M k = None" using M Some by (auto simp: am_abs_def am_entry_def)
      then show ?thesis using fc Some C(3) loop None r gone by (simp add: FindAndRemove_def ends_def)
    next
      case (Some e)
      note fe = Some
      have "e \<in> set ?xs" using find_Some_mem [OF Some [unfolded find_entry_def]] by simp
      then have "dropWhile (\<lambda>x. x \<noteq> e) ?xs \<noteq> []" by (auto simp: dropWhile_eq_Nil_conv)
      moreover from this have "hd (dropWhile (\<lambda>x. x \<noteq> e) ?xs) = e" using hd_dropWhile by fast
      ultimately obtain zs where "dropWhile (\<lambda>x. x \<noteq> e) ?xs = e # zs" by (metis list.collapse)
      then have ys: "?xs = takeWhile (\<lambda>x. x \<noteq> e) ?xs @ e # zs" by (metis takeWhile_dropWhile_id)
      let ?p = "place_of (Slot c (BlockID k)) (takeWhile (\<lambda>x. x \<noteq> e) ?xs)"
      obtain n st' where R: "load ?p st = Inr e" "entries st e = Some n"
          "bind_res (store ?p (e_next n) st) (\<lambda>st. bind_res (on_entry e (e_next_update (\<lambda>_. free_entries st)) st) (\<lambda>st. Inr (Some (e_value n), st\<lparr>free_entries := e\<rparr>))) = Inr (am_abs K B st k, st')"
          "represents live st' ((am_abs K B st)(k := None))"
        using remove_entry [OF inv \<open>find_cluster K (clusters st) k = Some c\<close> fe ys] by blast
      have "FindAndRemove al k st = Inr (M k, st')"
        using fc \<open>find_cluster K (clusters st) k = Some c\<close> C(3) loop fe R(1-3) M by (simp add: FindAndRemove_def ends_def at_ptr_def)
      then show ?thesis using R(4) M by auto
    qed
  qed
qed

section \<open>Constructor and destructor\<close>

lemma AddressMap_new_run:
  fixes al :: "('v, 'e) allocator"
  assumes ok: "alloc_ok al live"
  shows "(\<exists>st. AddressMap_new al env = Inr st \<and> represents live st Map.empty) \<or> (AddressMap_new al env = Inl Segv \<and> (\<exists>n s. fst (alloc_fn al n s) = 0))"
proof -
  let ?st = "\<lparr> hashtable = (\<lambda>_. 0), free_entries = 0, allocated = 0, am_objects = Map.empty, clusters = Map.empty, entries = Map.empty, am_env = env \<rparr> :: ('v, 'e) AddressMap"
  show ?thesis
  proof (cases rule: am_New_cases [OF ok, of "8 * kHashSize" ?st, case_names no_mem mem])
    case (no_mem n s)
    then show ?thesis by (auto simp: AddressMap_new_def)
  next
    case (mem p env')
    define st where "st = ?st\<lparr>am_env := env', am_objects := [p \<mapsto> 0], allocated := p\<rparr>"
    have "AddressMap_new al env = Inr st" using mem(1) by (simp add: AddressMap_new_def st_def)
    moreover have "am_inv live (\<lambda>_. []) (\<lambda>_ _. []) [] [p] st"
      using mem(2,4) by (simp add: am_inv_def table_ok_def st_def)
    moreover have "am_abs (\<lambda>_. []) (\<lambda>_ _. []) st = Map.empty" by (simp add: am_abs_def am_entry_def find_cluster_def fun_eq_iff)
    ultimately show ?thesis unfolding represents_def by blast
  qed
qed

lemma destroy_loop_run:
  "listing objs id p Os \<Longrightarrow> destroy_loop al objs p freed env = Some (Inr (rev freed @ Os, fold (dealloc_fn al) Os env))"
proof (induction Os arbitrary: p objs freed env)
  case Nil
  then show ?case by (simp add: destroy_loop.simps)
next
  case (Cons x xs)
  then obtain n where n: "p = x" "x \<noteq> 0" "objs x = Some n" "listing objs id n xs" unfolding listing_Cons id_apply by blast
  have "x \<notin> set xs" using listing_distinct [OF Cons.prems] by simp
  then show ?case using n Cons.IH [OF listing_other [OF n(4), of x None], of "x # freed" "dealloc_fn al x env"] by (subst destroy_loop.simps) (simp del: fun_upd_apply)
qed

lemma AddressMap_destroy_run:
  fixes st :: "('v, 'e) AddressMap"
  assumes "represents live st M"
  shows "\<exists>Os. AddressMap_destroy al st = Inr (Os, fold (dealloc_fn al) Os (am_env st)) \<and> distinct Os \<and> set Os = dom (am_objects st)"
proof -
  obtain K B Fr Os where inv: "am_inv live K B Fr Os st" using assms by (auto simp: represents_def)
  note l = am_invD(4,5) [OF inv]
  show ?thesis using destroy_loop_run [OF l(1), of al "[]" "am_env st"] listing_distinct [OF l(1)] l(2) by (intro exI [of _ Os]) (simp add: AddressMap_destroy_def ends_def)
qed

end
