(* ===== verification/Address_Map_Search.thy ===== *)
theory Address_Map_Search
  imports Address_Map_Correct
begin

text \<open>
  \<open>FindInside\<close> of the address map, for keys that are the starts of ranges which do not overlap, and \<open>Iterate\<close>.
\<close>

section \<open>Ranges\<close>

definition inside :: "('v \<Rightarrow> nat) \<Rightarrow> nat \<Rightarrow> nat \<Rightarrow> 'v \<Rightarrow> bool" where
  "inside sf key k v \<longleftrightarrow> k = key \<or> (k \<le> key \<and> key < k + sf v)"

definition ranges_ok :: "('v \<Rightarrow> nat) \<Rightarrow> nat \<Rightarrow> (addr \<rightharpoonup> 'v) \<Rightarrow> bool" where
  "ranges_ok sf mx M \<longleftrightarrow> (\<forall>k v. M k = Some v \<longrightarrow> sf v \<le> mx \<and> k + sf v < 2 ^ 64) \<and>
     (\<forall>k v k' v'. M k = Some v \<and> M k' = Some v' \<and> k < k' \<longrightarrow> k + sf v \<le> k')"

lemma inside_le: "inside sf key k v \<Longrightarrow> k \<le> key"
  by (auto simp: inside_def)

text \<open>The ranges that are still candidates when the search is at \<open>num\<close>.\<close>

definition below :: "('v \<Rightarrow> nat) \<Rightarrow> (addr \<rightharpoonup> 'v) \<Rightarrow> nat \<Rightarrow> nat \<Rightarrow> bool" where
  "below sf M key num \<longleftrightarrow> num \<le> key \<and> (\<forall>k v. M k = Some v \<and> inside sf key k v \<longrightarrow> k \<le> num)"

definition none_inside :: "('v \<Rightarrow> nat) \<Rightarrow> (addr \<rightharpoonup> 'v) \<Rightarrow> nat \<Rightarrow> bool" where
  "none_inside sf M key \<longleftrightarrow> (\<forall>k v. M k = Some v \<longrightarrow> \<not> inside sf key k v)"

definition answer :: "('v \<Rightarrow> nat) \<Rightarrow> (addr \<rightharpoonup> 'v) \<Rightarrow> nat \<Rightarrow> ('v, 'e) AddressMap \<Rightarrow> addr \<Rightarrow> bool" where
  "answer sf M key st p \<longleftrightarrow> (if p = 0 then none_inside sf M key
     else \<exists>n. entries st p = Some n \<and> M (e_key n) = Some (e_value n) \<and> inside sf key (e_key n) (e_value n))"

lemma same_block_iff: "cid k = cid num \<and> BlockID k = BlockID num \<longleftrightarrow> k div 128 = num div 128"
proof -
  have c: "cid x = x div 128 div 8192" for x by (simp add: cid_def div_mult2_eq [symmetric])
  have b: "BlockID x = x div 128 mod 8192" for x by (simp add: BlockID_mod)
  show ?thesis unfolding c b by (metis div_mult_mod_eq)
qed

lemma previous_block:
  assumes "BlockID num \<noteq> 0" "num < 2 ^ 64"
  shows "previous kBlockSize num = num div 128 * 128 - 1" "cid (previous kBlockSize num) = cid num" "previous kBlockSize num < num"
proof -
  have ge: "2 ^ 7 \<le> num" by (rule BlockID_pos [OF assms(1)])
  have "num div 128 * 128 - 1 < 2 ^ 64" using assms(2) by (metis div_times_less_eq_dividend diff_le_self le_less_trans)
  then show p: "previous kBlockSize num = num div 128 * 128 - 1" using previous_div [OF ge] by (simp add: kBlockSize_def kBlockBits_def)
  show "previous kBlockSize num < num" using previous_less [OF ge] by (simp add: kBlockSize_def kBlockBits_def)
  define q where "q = num div 128"
  have q: "q mod 8192 \<noteq> 0" using assms(1) by (simp add: BlockID_mod q_def)
  then have q1: "1 \<le> q" by (cases q) auto
  have "(q * 128 - 1) div 128 = q - 1" using q1 by (cases q) auto
  then have "cid (q * 128 - 1) = (q - 1) div 8192" by (simp add: cid_def div_mult2_eq [symmetric, of _ 128 8192, simplified])
  moreover have "(q - 1) div 8192 = q div 8192" using q by (cases q) (auto simp: div_Suc split: if_splits)
  moreover have "cid num = q div 8192" by (simp add: cid_def q_def div_mult2_eq [symmetric])
  ultimately show "cid (previous kBlockSize num) = cid num" unfolding p q_def by simp
qed

lemma previous_cluster:
  assumes "kClusterSize \<le> num" "num < 2 ^ 64"
  shows "previous kClusterSize num = cid num * 2 ^ 20 - 1" "previous kClusterSize num < num"
proof -
  have k: "kClusterSize = 2 ^ 20" by (simp add: kClusterSize_def kBlockBits_def kClusterBits_def)
  have ge: "2 ^ 20 \<le> num" using assms(1) k by simp
  have "num div 2 ^ 20 * 2 ^ 20 - 1 < 2 ^ 64" using assms(2) by (metis div_times_less_eq_dividend diff_le_self le_less_trans)
  then show "previous kClusterSize num = cid num * 2 ^ 20 - 1" using previous_div [OF ge] by (simp add: k cid_def)
  show "previous kClusterSize num < num" using previous_less [OF ge] by (simp add: k)
qed

lemma too_far_iff: "num \<le> key \<Longrightarrow> key < 2 ^ 64 \<Longrightarrow> too_far mx key num \<longleftrightarrow> mx < key - num"
proof -
  assume a: "num \<le> key" "key < 2 ^ 64"
  have "key + 2 ^ 64 - num = (key - num) + 2 ^ 64" using a(1) by simp
  moreover have "(key - num) mod 2 ^ 64 = key - num" using a(2) by (intro mod_less) simp
  ultimately show ?thesis unfolding too_far_def by (simp only: mod_add_self2)
qed

lemma too_far_none:
  assumes "below sf M key num" "num < key" "ranges_ok sf mx M" "mx < key - num"
  shows "none_inside sf M key"
  unfolding none_inside_def
proof (intro allI impI notI)
  fix k v assume k: "M k = Some v" "inside sf key k v"
  have "k \<le> num" using assms(1) k unfolding below_def by blast
  moreover have "sf v \<le> mx" using assms(3) k(1) unfolding ranges_ok_def by blast
  ultimately show False using k(2) assms(2,4) by (auto simp: inside_def)
qed

section \<open>The loop over a block\<close>

lemma scan_block_run:
  assumes "listing es e_next p xs" "\<And>e. e \<in> set xs \<Longrightarrow> e_key (the (es e)) + sf (e_value (the (es e))) < 2 ^ 64"
  shows "\<exists>e had'. scan_block es sf key had p = Some (Inr (e, had')) \<and>
    (if e = 0 then (\<forall>x\<in>set xs. \<not> inside sf key (e_key (the (es x))) (e_value (the (es x)))) \<and> (had' \<longleftrightarrow> had \<or> (\<exists>x\<in>set xs. e_key (the (es x)) \<le> key))
     else e \<in> set xs \<and> inside sf key (e_key (the (es e))) (e_value (the (es e))))"
  using assms
proof (induction xs arbitrary: p had)
  case Nil
  then show ?case by (simp add: scan_block.simps)
next
  case (Cons x xs)
  then obtain n where n: "p = x" "x \<noteq> 0" "es x = Some n" "listing es e_next (e_next n) xs" by auto
  have m: "(e_key n + sf (e_value n)) mod 2 ^ 64 = e_key n + sf (e_value n)" using Cons.prems(2) [of x] n(3) by simp
  note IH = Cons.IH [OF n(4)]
  show ?case
  proof (cases "inside sf key (e_key n) (e_value n)")
    case True
    have "scan_block es sf key had p = Some (Inr (x, True))"
      using True n m by (subst scan_block.simps) (auto simp: inside_def)
    then show ?thesis using n True by auto
  next
    case False
    have step: "scan_block es sf key had p = scan_block es sf key (had \<or> e_key n \<le> key) (e_next n)"
      using False n m by (subst scan_block.simps) (auto simp: inside_def)
    obtain e had' where "scan_block es sf key (had \<or> e_key n \<le> key) (e_next n) = Some (Inr (e, had'))"
        "if e = 0 then (\<forall>x\<in>set xs. \<not> inside sf key (e_key (the (es x))) (e_value (the (es x)))) \<and> (had' \<longleftrightarrow> (had \<or> e_key n \<le> key) \<or> (\<exists>x\<in>set xs. e_key (the (es x)) \<le> key))
         else e \<in> set xs \<and> inside sf key (e_key (the (es e))) (e_value (the (es e)))"
      using IH [of "had \<or> e_key n \<le> key"] Cons.prems(2) by auto
    then show ?thesis unfolding step using n(3) False by (auto split: if_splits)
  qed
qed

text \<open>The entries of the block of \<open>num\<close> are the part of the map with keys in this block.\<close>

lemma block_entries:
  fixes st :: "('v, 'e) AddressMap"
  assumes inv: "am_inv live K B Fr Os st" and c: "find_cluster K (clusters st) num = Some c" and M: "am_abs K B st = M"
  shows "e \<in> set (B c (BlockID num)) \<Longrightarrow> \<exists>n. entries st e = Some n \<and> M (e_key n) = Some (e_value n) \<and> e_key n div 128 = num div 128"
    "M k = Some v \<Longrightarrow> k div 128 = num div 128 \<Longrightarrow> \<exists>e\<in>set (B c (BlockID num)). \<exists>n. entries st e = Some n \<and> e_key n = k \<and> e_value n = v"
proof -
  note blk = cluster_block [OF inv c]
  have fc: "find_cluster K (clusters st) k = Some c" if "cid k = cid num" for k using c that by (simp add: find_cluster_def)
  show "\<exists>n. entries st e = Some n \<and> M (e_key n) = Some (e_value n) \<and> e_key n div 128 = num div 128" if e: "e \<in> set (B c (BlockID num))"
  proof -
    obtain n where n: "entries st e = Some n" using listing_dom [OF block_okD(1) [OF blk] e] by blast
    have k: "cid (e_key n) = cid num" "BlockID (e_key n) = BlockID num" using block_okD(2,3) [OF blk e] n by simp_all
    have "find_entry (entries st) (B c (BlockID num)) (e_key n) \<noteq> None" using e n by (auto simp: find_entry_def find_None_all intro!: bexI [of _ e])
    then obtain e' where e': "find_entry (entries st) (B c (BlockID num)) (e_key n) = Some e'" by blast
    have "e' \<in> set (B c (BlockID num))" "e_key (the (entries st e')) = e_key (the (entries st e))" using find_Some_mem [OF e' [unfolded find_entry_def]] n by simp_all
    then have "e' = e" using block_okD(4) [OF blk] e unfolding distinct_map by (blast dest: inj_onD)
    then have "M (e_key n) = Some (e_value n)" using e' fc [OF k(1)] k(2) n M [symmetric] by (simp add: am_abs_def am_entry_def)
    then show ?thesis using n k same_block_iff by blast
  qed
  show "\<exists>e\<in>set (B c (BlockID num)). \<exists>n. entries st e = Some n \<and> e_key n = k \<and> e_value n = v" if k: "M k = Some v" "k div 128 = num div 128"
  proof -
    have b: "cid k = cid num" "BlockID k = BlockID num" using k(2) same_block_iff by blast+
    obtain e where e: "am_entry K B st k = Some e" using k(1) M by (auto simp: am_abs_def)
    show ?thesis by (rule am_entry_mem [OF inv e]) (use fc [OF b(1)] b(2) k(1) M in auto)
  qed
qed

lemma no_cluster:
  assumes "am_abs K B st = M" "find_cluster K (clusters st) num = None" "M k = Some v"
  shows "cid k \<noteq> cid num"
proof
  assume "cid k = cid num"
  then have "find_cluster K (clusters st) k = None" using assms(2) by (simp add: find_cluster_def)
  then have "am_abs K B st k = None" by (simp add: am_abs_def am_entry_def)
  then show False using assms(1,3) by simp
qed

text \<open>A smaller key in the block that does not reach the address: then no range does.\<close>

lemma smaller_key_none:
  assumes below: "below sf M key num" and ok: "ranges_ok sf mx M" and k: "M k = Some v" "k \<le> key" "\<not> inside sf key k v" "k div 128 = num div 128"
    and none: "\<forall>k v. M k = Some v \<and> k div 128 = num div 128 \<longrightarrow> \<not> inside sf key k v"
  shows "none_inside sf M key"
  unfolding none_inside_def
proof (intro allI impI notI)
  fix j w assume j: "M j = Some w" "inside sf key j w"
  have jn: "j \<le> num" using below j unfolding below_def by blast
  show False
  proof (cases "k < j")
    case True
    then have "k div 128 \<le> j div 128" "j div 128 \<le> num div 128" using jn by (simp_all add: div_le_mono)
    then have "j div 128 = num div 128" using k(4) by simp
    then show False using none j by blast
  next
    case False
    have "j \<noteq> k" using j k by auto
    then have "j < k" using False by simp
    then have "j + sf w \<le> k" using ok j(1) k(1) unfolding ranges_ok_def by blast
    then show False using j(2) k(2) \<open>j < k\<close> by (auto simp: inside_def)
  qed
qed

section \<open>The search\<close>

lemma inside_blocks_run:
  fixes st :: "('v, 'e) AddressMap"
  assumes inv: "am_inv live K B Fr Os st" and M: "am_abs K B st = M" and ok: "ranges_ok sf mx M" and key: "key < 2 ^ 64"
    and "find_cluster K (clusters st) num = Some c" "clusters st c = Some cl" "below sf M key num"
  shows "\<exists>r. inside_blocks sf mx key cl st num = Inr r \<and> (case r of Return p \<Rightarrow> answer sf M key st p
    | Break n \<Rightarrow> cid n = cid num \<and> n \<le> key \<and> (\<forall>k v. M k = Some v \<and> inside sf key k v \<longrightarrow> cid k < cid num))"
  using assms(5-7)
proof (induction num rule: less_induct)
  case (less num)
  note c = less.prems(1) and cl = less.prems(2) and bel = less.prems(3)
  have num: "num \<le> key" "num < 2 ^ 64" using bel key by (simp_all add: below_def)
  note be = block_entries [OF inv c M]
  have l: "listing (entries st) e_next (blocks cl (BlockID num)) (B c (BlockID num))" using block_okD(1) [OF cluster_block [OF inv c]] cl by simp
  have "e_key (the (entries st e)) + sf (e_value (the (entries st e))) < 2 ^ 64" if "e \<in> set (B c (BlockID num))" for e
    using be(1) [OF that] ok unfolding ranges_ok_def by force
  then obtain e had where scan: "scan_block (entries st) sf key False (blocks cl (BlockID num)) = Some (Inr (e, had))"
    and e: "if e = 0 then (\<forall>x\<in>set (B c (BlockID num)). \<not> inside sf key (e_key (the (entries st x))) (e_value (the (entries st x)))) \<and>
        (had \<longleftrightarrow> False \<or> (\<exists>x\<in>set (B c (BlockID num)). e_key (the (entries st x)) \<le> key))
      else e \<in> set (B c (BlockID num)) \<and> inside sf key (e_key (the (entries st e))) (e_value (the (entries st e)))"
    using scan_block_run [OF l, of sf key False] by blast
  have step: "inside_blocks sf mx key cl st num = (if e \<noteq> 0 then Inr (Return e) else if had then Inr (Return 0) else if BlockID num = 0 then Inr (Break num)
      else if too_far mx key (previous kBlockSize num) then Inr (Return 0) else inside_blocks sf mx key cl st (previous kBlockSize num))"
    by (subst inside_blocks.simps) (simp add: scan ends_def Let_def)
  show ?case
  proof (cases "e = 0")
    case False
    then have "e \<in> set (B c (BlockID num))" "inside sf key (e_key (the (entries st e))) (e_value (the (entries st e)))" using e by simp_all
    then have "answer sf M key st e" using be(1) False by (fastforce simp: answer_def)
    then show ?thesis using step False by simp
  next
    case True
    have no: "\<forall>k v. M k = Some v \<and> k div 128 = num div 128 \<longrightarrow> \<not> inside sf key k v" using e True be(2) by fastforce
    show ?thesis
    proof (cases had)
      case had: True
      then obtain x where x: "x \<in> set (B c (BlockID num))" "e_key (the (entries st x)) \<le> key" using e True by auto
      obtain n where n: "entries st x = Some n" "M (e_key n) = Some (e_value n)" "e_key n div 128 = num div 128" using be(1) [OF x(1)] by blast
      have "none_inside sf M key" by (rule smaller_key_none [OF bel ok n(2) _ _ n(3) no]) (use x(2) n no in auto)
      then show ?thesis using step True had by (simp add: answer_def)
    next
      case False
      have lt: "k div 128 < num div 128" if "M k = Some v" "inside sf key k v" for k v
      proof -
        have "k \<le> num" using bel that unfolding below_def by blast
        then have "k div 128 \<le> num div 128" by (rule div_le_mono)
        moreover have "k div 128 \<noteq> num div 128" using no that by blast
        ultimately show ?thesis by simp
      qed
      show ?thesis
      proof (cases "BlockID num = 0")
        case b0: True
        have "cid k < cid num" if "M k = Some v" "inside sf key k v" for k v
        proof -
          have "num div 128 mod 8192 = 0" using b0 by (simp add: BlockID_mod)
          then have "k div 128 < num div 128 div 8192 * 8192" using lt [OF that] by (metis add.right_neutral div_mult_mod_eq)
          then have "k div 128 div 8192 < num div 128 div 8192" by (rule less_mult_imp_div_less)
          then show ?thesis by (simp add: cid_def div_mult2_eq [symmetric])
        qed
        then show ?thesis using step True False b0 num(1) by simp
      next
        case b1: False
        note pb = previous_block [OF b1 num(2)]
        let ?n = "previous kBlockSize num"
        have "k \<le> ?n" if "M k = Some v" "inside sf key k v" for k v
        proof -
          have "k < num div 128 * 128" using lt [OF that] by (metis div_less_iff_less_mult zero_less_numeral)
          then show ?thesis unfolding pb(1) by simp
        qed
        then have bel': "below sf M key ?n" using pb(3) num(1) unfolding below_def by auto
        have c': "find_cluster K (clusters st) ?n = Some c" using c pb(2) by (simp add: find_cluster_def)
        have nk: "?n < key" using pb(3) num(1) by simp
        show ?thesis
        proof (cases "too_far mx key ?n")
          case far: True
          then have "none_inside sf M key" using too_far_none [OF bel' nk ok] too_far_iff [of ?n key mx] nk key by simp
          then show ?thesis using step True False b1 far by (simp add: answer_def)
        next
          case near: False
          have "inside_blocks sf mx key cl st num = inside_blocks sf mx key cl st ?n" using step True False b1 near by simp
          then show ?thesis using less.IH [OF pb(3) c' cl bel'] unfolding pb(2) by simp
        qed
      qed
    qed
  qed
qed

lemma inside_clusters_run:
  fixes st :: "('v, 'e) AddressMap"
  assumes inv: "am_inv live K B Fr Os st" and M: "am_abs K B st = M" and ok: "ranges_ok sf mx M" and key: "key < 2 ^ 64" and "below sf M key num"
  shows "\<exists>p. inside_clusters al sf mx key st num = Inr p \<and> answer sf M key st p"
  using assms(5)
proof (induction num rule: less_induct)
  case (less num)
  note bel = less.prems
  have num: "num \<le> key" "num < 2 ^ 64" using bel key by (simp_all add: below_def)
  define r where "r = (if found (find_cluster K (clusters st) num) \<noteq> 0
    then bind_res (at_ptr (clusters st) (found (find_cluster K (clusters st) num))) (\<lambda>c. inside_blocks sf mx key c st num) else Inr (Break num))"
  have step: "inside_clusters al sf mx key st num = bind_res r (\<lambda>r. case r of Return e \<Rightarrow> Inr e
     | Break num \<Rightarrow> if num < kClusterSize then Inr 0 else let num = previous kClusterSize num in
           if too_far mx key num then Inr 0 else inside_clusters al sf mx key st num)"
    using FindCluster_run [OF inv, of False num al] by (subst inside_clusters.simps) (simp add: r_def)
  have "\<exists>x. r = Inr x \<and> (case x of Return p \<Rightarrow> answer sf M key st p
      | Break n \<Rightarrow> cid n = cid num \<and> n \<le> num \<and> (\<forall>k v. M k = Some v \<and> inside sf key k v \<longrightarrow> cid k < cid num))"
  proof (cases "find_cluster K (clusters st) num")
    case None
    have "cid k < cid num" if "M k = Some v" "inside sf key k v" for k v
    proof -
      have "k \<le> num" using bel that unfolding below_def by blast
      then have "cid k \<le> cid num" unfolding cid_def by (rule div_le_mono)
      then show ?thesis using no_cluster [OF M None that(1)] by simp
    qed
    then show ?thesis using None by (simp add: r_def)
  next
    case (Some c)
    note C = find_cluster_mem(3,4) [OF am_invD(1) [OF inv] Some]
    then obtain cl where cl: "clusters st c = Some cl" by blast
    have r: "r = inside_blocks sf mx key cl st num" using Some C(1) cl by (simp add: r_def at_ptr_def)
    show ?thesis using inside_blocks_run [OF inv M ok key Some cl bel] inside_blocks_Break [of sf mx key cl st num] unfolding r by (fastforce split: exit.splits)
  qed
  then obtain x where x: "r = Inr x" "case x of Return p \<Rightarrow> answer sf M key st p
      | Break n \<Rightarrow> cid n = cid num \<and> n \<le> num \<and> (\<forall>k v. M k = Some v \<and> inside sf key k v \<longrightarrow> cid k < cid num)" by blast
  show ?case
  proof (cases x)
    case (Return p)
    then show ?thesis using step x by simp
  next
    case (Break n)
    then have n: "cid n = cid num" "n \<le> num" and lt: "\<forall>k v. M k = Some v \<and> inside sf key k v \<longrightarrow> cid k < cid n" using x(2) by simp_all
    have ks: "kClusterSize = 2 ^ 20" by (simp add: kClusterSize_def kBlockBits_def kClusterBits_def)
    show ?thesis
    proof (cases "n < kClusterSize")
      case True
      then have "cid n = 0" by (simp add: cid_def ks)
      then have "none_inside sf M key" using lt by (auto simp: none_inside_def)
      then show ?thesis using step x(1) Break True by (simp add: answer_def)
    next
      case False
      let ?n = "previous kClusterSize n"
      have "n < 2 ^ 64" using n(2) num(2) by simp
      note pc = previous_cluster [OF _ this]
      have ge: "kClusterSize \<le> n" using False by simp
      have lt': "?n < num" using pc(2) [OF ge] n(2) by simp
      have "k \<le> ?n" if "M k = Some v" "inside sf key k v" for k v
      proof -
        have "k div 2 ^ 20 < cid n" using lt that by (simp add: cid_def)
        then have "k < cid n * 2 ^ 20" by (metis div_less_iff_less_mult zero_less_numeral zero_less_power)
        then show ?thesis unfolding pc(1) [OF ge] by simp
      qed
      then have bel': "below sf M key ?n" using lt' num(1) unfolding below_def by auto
      have nk: "?n < key" using lt' num(1) by simp
      show ?thesis
      proof (cases "too_far mx key ?n")
        case far: True
        then have "none_inside sf M key" using too_far_none [OF bel' nk ok] too_far_iff [of ?n key mx] nk key by simp
        then show ?thesis using step x(1) Break False far by (simp add: answer_def)
      next
        case near: False
        then show ?thesis using step x(1) Break False less.IH [OF lt' bel'] by simp
      qed
    qed
  qed
qed

lemma FindInside_run:
  fixes st :: "('v, 'e) AddressMap"
  assumes r: "represents live st M" and ok: "ranges_ok sf mx M" and key: "key < 2 ^ 64"
  shows "\<exists>p rk. FindInside al sf mx key res_key st = Inr (p, rk) \<and>
    (if p = 0 then rk = res_key \<and> (\<forall>k v. M k = Some v \<longrightarrow> \<not> inside sf key k v)
     else \<exists>n. entries st p = Some n \<and> rk = e_key n \<and> M rk = Some (e_value n) \<and> inside sf key rk (e_value n))"
proof -
  obtain K B Fr Os where inv: "am_inv live K B Fr Os st" and M: "am_abs K B st = M" using r by (auto simp: represents_def)
  have "below sf M key key" by (auto simp: below_def inside_def)
  then obtain p where p: "inside_clusters al sf mx key st key = Inr p" "answer sf M key st p" using inside_clusters_run [OF inv M ok key] by blast
  show ?thesis
  proof (cases "p = 0")
    case True
    then show ?thesis using p by (auto simp: FindInside_def answer_def none_inside_def)
  next
    case False
    then obtain n where "entries st p = Some n" "M (e_key n) = Some (e_value n)" "inside sf key (e_key n) (e_value n)" using p(2) by (auto simp: answer_def)
    then show ?thesis using p(1) False by (intro exI [of _ p] exI [of _ "e_key n"]) (simp add: FindInside_def at_ptr_def)
  qed
qed

section \<open>\<open>Iterate\<close>\<close>

text \<open>The calls for the pairs of a list, on a map and the argument.\<close>

fun calls :: "('v, 'a) callback \<Rightarrow> (addr \<times> 'v) list \<Rightarrow> (addr \<rightharpoonup> 'v) \<Rightarrow> 'a \<Rightarrow> (addr \<rightharpoonup> 'v) \<times> 'a" where
  "calls cb [] M a = (M, a)"
| "calls cb ((k, v) # ps) M a = (case cb k v a of (w, a) \<Rightarrow> calls cb ps (M(k \<mapsto> w)) a)"

text \<open>The same on the entries.\<close>

fun visits :: "('v, 'a) callback \<Rightarrow> addr list \<Rightarrow> (addr \<rightharpoonup> 'v Entry) \<Rightarrow> 'a \<Rightarrow> (addr \<rightharpoonup> 'v Entry) \<times> 'a" where
  "visits cb [] es a = (es, a)"
| "visits cb (x # xs) es a = (case cb (e_key (the (es x))) (e_value (the (es x))) a of (w, a) \<Rightarrow> visits cb xs (es(x \<mapsto> (the (es x))\<lparr>e_value := w\<rparr>)) a)"

definition shape :: "(addr \<rightharpoonup> 'v Entry) \<Rightarrow> addr \<Rightarrow> (addr \<times> addr) option" where
  "shape es x = map_option (\<lambda>n. (e_next n, e_key n)) (es x)"

lemma shape_upd: "x \<in> dom es \<Longrightarrow> shape (es(x \<mapsto> (the (es x))\<lparr>e_value := w\<rparr>)) = shape es"
  by (auto simp: shape_def fun_eq_iff)

lemma shape_None: "shape es x = None \<longleftrightarrow> es x = None"
  by (simp add: shape_def)

lemma shape_Some: "shape es' = shape es \<Longrightarrow> es x = Some n \<Longrightarrow> \<exists>n'. es' x = Some n' \<and> e_next n' = e_next n \<and> e_key n' = e_key n"
proof -
  assume "shape es' = shape es" "es x = Some n"
  then have "shape es' x = Some (e_next n, e_key n)" by (simp add: shape_def)
  then show ?thesis by (auto simp: shape_def)
qed

lemma shape_dom: "shape es' = shape es \<Longrightarrow> dom es' = dom es"
  by (rule set_eqI) (metis domIff shape_None)

lemma shape_key: "shape es' = shape es \<Longrightarrow> x \<in> dom es \<Longrightarrow> e_key (the (es' x)) = e_key (the (es x))"
  using shape_Some [of es' es x] by auto

lemma shape_listing:
  fixes es es' :: "addr \<rightharpoonup> 'v Entry"
  shows "shape es' = shape es \<Longrightarrow> listing es e_next p xs \<Longrightarrow> listing es' e_next p xs"
  by (rule listing_cong, assumption) (blast dest: shape_Some)

lemma visits_shape: "set xs \<subseteq> dom es \<Longrightarrow> shape (fst (visits cb xs es a)) = shape es"
proof (induction xs arbitrary: es a)
  case (Cons x xs)
  obtain w a' where w: "cb (e_key (the (es x))) (e_value (the (es x))) a = (w, a')" by fastforce
  have "shape (fst (visits cb xs (es(x \<mapsto> (the (es x))\<lparr>e_value := w\<rparr>)) a')) = shape (es(x \<mapsto> (the (es x))\<lparr>e_value := w\<rparr>))"
    by (rule Cons.IH) (use Cons.prems in auto)
  then show ?case using Cons.prems w shape_upd [of x es w] by simp
qed simp

lemma visits_append: "visits cb (xs @ ys) es a = (case visits cb xs es a of (es, a) \<Rightarrow> visits cb ys es a)"
  by (induction xs arbitrary: es a) (simp_all split: prod.split)

lemma visits_outside: "x \<notin> set xs \<Longrightarrow> fst (visits cb xs es a) x = es x"
  by (induction xs arbitrary: es a) (simp_all split: prod.split)

text \<open>The loops visit the entries of the lists.\<close>

lemma iterate_entries_run: "listing es e_next p xs \<Longrightarrow> iterate_entries cb p es a = Some (Inr (visits cb xs es a))"
proof (induction xs arbitrary: p es a)
  case Nil
  then show ?case by (simp add: iterate_entries.simps)
next
  case (Cons x xs)
  then obtain n where n: "p = x" "x \<noteq> 0" "es x = Some n" "listing es e_next (e_next n) xs" by auto
  obtain w a' where w: "cb (e_key n) (e_value n) a = (w, a')" by fastforce
  have "listing (es(x \<mapsto> n\<lparr>e_value := w\<rparr>)) e_next (e_next n) xs" by (rule shape_listing [OF _ n(4)]) (use shape_upd [of x es w] n(3) in auto)
  from Cons.IH [OF this, of a'] show ?case using n w by (subst iterate_entries.simps) (simp del: fun_upd_apply)
qed

lemma iterate_blocks_run:
  assumes "\<And>b. b \<in> set bs \<Longrightarrow> listing es e_next (blks b) (B b)"
  shows "iterate_blocks cb blks bs es a = Inr (visits cb (concat (map B bs)) es a)"
  using assms
proof (induction bs arbitrary: es a)
  case (Cons b bs)
  have l: "listing es e_next (blks b) (B b)" using Cons.prems by simp
  obtain es' a' where v: "visits cb (B b) es a = (es', a')" by fastforce
  have "shape es' = shape es" using visits_shape [of "B b" es cb a] l v by (auto simp: listing_def)
  then have "iterate_blocks cb blks bs es' a' = Inr (visits cb (concat (map B bs)) es' a')" using Cons.prems by (intro Cons.IH shape_listing [of es' es]) auto
  then show ?case using iterate_entries_run [OF l, of cb a] v by (simp add: ends_def visits_append)
qed simp

lemma iterate_clusters_run:
  assumes "listing cs c_next c ks" "\<And>d b. d \<in> set ks \<Longrightarrow> b < 8192 \<Longrightarrow> listing es e_next (blocks (the (cs d)) b) (B d b)"
  shows "iterate_clusters cb cs c es a = Some (Inr (visits cb (concat (map (\<lambda>d. concat (map (B d) [0..<8192])) ks)) es a))"
  using assms
proof (induction ks arbitrary: c es a)
  case Nil
  then show ?case by (simp add: iterate_clusters.simps)
next
  case (Cons d ks)
  then obtain n where n: "c = d" "d \<noteq> 0" "cs d = Some n" "listing cs c_next (c_next n) ks" by auto
  let ?bs = "concat (map (B d) [0..<8192])"
  have l: "listing es e_next (blocks n b) (B d b)" if "b < 8192" for b using Cons.prems(2) [of d b] that n(3) by simp
  obtain es' a' where v: "visits cb ?bs es a = (es', a')" by fastforce
  have "set ?bs \<subseteq> dom es" using l unfolding listing_def by fastforce
  then have sh: "shape es' = shape es" using visits_shape [of ?bs es cb a] v by simp
  have "iterate_clusters cb cs (c_next n) es' a' = Some (Inr (visits cb (concat (map (\<lambda>d. concat (map (B d) [0..<8192])) ks)) es' a'))"
    by (rule Cons.IH [OF n(4)]) (use Cons.prems(2) shape_listing [OF sh] in auto)
  moreover have "iterate_blocks cb (blocks n) [0..<8192] es a = Inr (es', a')" using iterate_blocks_run [of "[0..<8192]" es "blocks n" "B d" cb a] l v by simp
  ultimately show ?case using n by (subst iterate_clusters.simps) (simp add: kClusterBlocks_def kClusterBits_def visits_append v)
qed

lemma iterate_table_run:
  assumes "\<And>h. h \<in> set hs \<Longrightarrow> listing cs c_next (tbl h) (K h)" "\<And>h d b. h \<in> set hs \<Longrightarrow> d \<in> set (K h) \<Longrightarrow> b < 8192 \<Longrightarrow> listing es e_next (blocks (the (cs d)) b) (B d b)"
  shows "iterate_table cb cs tbl hs es a = Inr (visits cb (concat (map (\<lambda>h. concat (map (\<lambda>d. concat (map (B d) [0..<8192])) (K h))) hs)) es a)"
  using assms
proof (induction hs arbitrary: es a)
  case (Cons h hs)
  let ?xs = "concat (map (\<lambda>d. concat (map (B d) [0..<8192])) (K h))"
  have l: "listing es e_next (blocks (the (cs d)) b) (B d b)" if "d \<in> set (K h)" "b < 8192" for d b by (rule Cons.prems(2) [of h]) (use that in simp_all)
  obtain es' a' where v: "visits cb ?xs es a = (es', a')" by fastforce
  have "set ?xs \<subseteq> dom es" using l unfolding listing_def by fastforce
  then have sh: "shape es' = shape es" using visits_shape [of ?xs es cb a] v by simp
  have "iterate_table cb cs tbl hs es' a' = Inr (visits cb (concat (map (\<lambda>h. concat (map (\<lambda>d. concat (map (B d) [0..<8192])) (K h))) hs)) es' a')"
  proof (rule Cons.IH)
    fix g d b assume "g \<in> set hs" "d \<in> set (K g)" "b < (8192 :: nat)"
    then show "listing es' e_next (blocks (the (cs d)) b) (B d b)" by (intro shape_listing [OF sh] Cons.prems(2) [of g]) simp_all
  qed (use Cons.prems(1) in simp)
  moreover have "iterate_clusters cb cs (tbl h) es a = Some (Inr (es', a'))" using iterate_clusters_run [of cs "tbl h" "K h" es B cb a] Cons.prems(1) l v by simp
  ultimately show ?case by (simp add: ends_def visits_append v)
qed simp

text \<open>Visits to entries with different keys are calls for the pairs.\<close>

definition pair :: "(addr \<rightharpoonup> 'v Entry) \<Rightarrow> addr \<Rightarrow> addr \<times> 'v" where
  "pair es e = (e_key (the (es e)), e_value (the (es e)))"

lemma visits_calls:
  assumes "distinct (map (fst \<circ> pair es) xs)" "set xs \<subseteq> dom es"
  shows "snd (visits cb xs es a) = snd (calls cb (map (pair es) xs) M a) \<and>
    (\<forall>x\<in>set xs. fst (calls cb (map (pair es) xs) M a) (e_key (the (es x))) = Some (e_value (the (fst (visits cb xs es a) x)))) \<and>
    (\<forall>k. k \<notin> (fst \<circ> pair es) ` set xs \<longrightarrow> fst (calls cb (map (pair es) xs) M a) k = M k)"
  using assms
proof (induction xs arbitrary: es a M)
  case (Cons x xs)
  obtain w a' where w: "cb (e_key (the (es x))) (e_value (the (es x))) a = (w, a')" by fastforce
  define es1 where "es1 = es(x \<mapsto> (the (es x))\<lparr>e_value := w\<rparr>)"
  have x: "x \<notin> set xs" using Cons.prems(1) by auto
  have pe: "pair es1 y = pair es y" "es1 y = es y" if "y \<in> set xs" for y using that x by (auto simp: pair_def es1_def)
  have m: "map (pair es1) xs = map (pair es) xs" "(fst \<circ> pair es1) ` set xs = (fst \<circ> pair es) ` set xs" using pe(1) by (auto simp: image_iff)
  have mf: "map (fst \<circ> pair es1) xs = map (fst \<circ> pair es) xs" using pe(1) by simp
  have d: "distinct (map (fst \<circ> pair es1) xs)" unfolding mf using Cons.prems(1) by (simp only: list.map distinct.simps)
  have sub: "set xs \<subseteq> dom es1" using Cons.prems(2) by (auto simp: es1_def)
  have IH: "snd (visits cb xs es1 a') = snd (calls cb (map (pair es) xs) (M(e_key (the (es x)) \<mapsto> w)) a')"
    "\<forall>y\<in>set xs. fst (calls cb (map (pair es) xs) (M(e_key (the (es x)) \<mapsto> w)) a') (e_key (the (es1 y))) = Some (e_value (the (fst (visits cb xs es1 a') y)))"
    "\<forall>k. k \<notin> (fst \<circ> pair es) ` set xs \<longrightarrow> fst (calls cb (map (pair es) xs) (M(e_key (the (es x)) \<mapsto> w)) a') k = (M(e_key (the (es x)) \<mapsto> w)) k"
    using Cons.IH [OF d sub, of a' "M(e_key (the (es x)) \<mapsto> w)"] unfolding m by blast+
  have kx: "e_key (the (es x)) \<notin> (fst \<circ> pair es) ` set xs" using Cons.prems(1) by (auto simp: pair_def)
  have v: "visits cb (x # xs) es a = visits cb xs es1 a'" using w by (simp add: es1_def)
  have c: "calls cb (map (pair es) (x # xs)) M a = calls cb (map (pair es) xs) (M(e_key (the (es x)) \<mapsto> w)) a'" using w by (simp add: pair_def)
  have ex: "e_value (the (fst (visits cb xs es1 a') x)) = w" using visits_outside [OF x, of cb es1 a'] by (simp add: es1_def)
  show ?case unfolding v c
  proof (intro conjI ballI allI impI)
    fix y assume y: "y \<in> set (x # xs)"
    show "fst (calls cb (map (pair es) xs) (M(e_key (the (es x)) \<mapsto> w)) a') (e_key (the (es y))) = Some (e_value (the (fst (visits cb xs es1 a') y)))"
    proof (cases "y = x")
      case True
      then show ?thesis using IH(3) kx ex by simp
    next
      case False
      then show ?thesis using IH(2) pe(2) [of y] y by auto
    qed
  next
    fix k assume k: "k \<notin> (fst \<circ> pair es) ` set (x # xs)"
    then have "k \<noteq> e_key (the (es x))" by (auto simp: pair_def)
    then show "fst (calls cb (map (pair es) xs) (M(e_key (the (es x)) \<mapsto> w)) a') k = M k" using IH(3) k by auto
  qed (rule IH(1))
qed simp

lemma distinct_concat_map:
  "distinct xs \<Longrightarrow> (\<And>x. x \<in> set xs \<Longrightarrow> distinct (f x)) \<Longrightarrow> (\<And>x y. x \<in> set xs \<Longrightarrow> y \<in> set xs \<Longrightarrow> x \<noteq> y \<Longrightarrow> set (f x) \<inter> set (f y) = {}) \<Longrightarrow> distinct (concat (map f xs))"
  by (induction xs) fastforce+

text \<open>All entries of the table.\<close>

definition all_entries :: "(nat \<Rightarrow> addr list) \<Rightarrow> (addr \<Rightarrow> nat \<Rightarrow> addr list) \<Rightarrow> addr list" where
  "all_entries K B = concat (map (\<lambda>h. concat (map (\<lambda>d. concat (map (B d) [0..<8192])) (K h))) [0..<4096])"

lemma all_entries_set: "set (all_entries K B) = {e. \<exists>h<4096. \<exists>d\<in>set (K h). \<exists>b<8192. e \<in> set (B d b)}"
proof -
  have "(e \<in> set (all_entries K B)) = (\<exists>h\<in>{..<4096}. \<exists>d\<in>set (K h). \<exists>b\<in>{..<8192}. e \<in> set (B d b))" for e
    by (simp only: all_entries_def set_concat set_map set_upt atLeast0LessThan Union_iff bex_simps UN_iff)
  then show ?thesis by (simp add: set_eq_iff Bex_def)
qed

lemma all_entries_keys:
  fixes st :: "('v, 'e) AddressMap"
  assumes inv: "am_inv live K B Fr Os st"
  shows "distinct (map (fst \<circ> pair (entries st)) (all_entries K B))"
proof -
  let ?k = "fst \<circ> pair (entries st)"
  note T = am_invD(1) [OF inv]
  have key: "cid (?k e) = c_id (the (clusters st d))" "BlockID (?k e) = b" if "h < 4096" "d \<in> set (K h)" "b < 8192" "e \<in> set (B d b)" for h d b e
    using block_okD(2,3) [OF am_invD(2) [OF inv that(1-3)] that(4)] by (simp_all add: pair_def)
  have blk: "distinct (concat (map (\<lambda>b. map ?k (B d b)) [0..<8192]))" if d: "h < 4096" "d \<in> set (K h)" for h d
  proof (rule distinct_concat_map)
    show "distinct (map ?k (B d b))" if "b \<in> set [0..<8192]" for b
      using block_okD(4) [OF am_invD(2) [OF inv d, of b]] that by (simp add: pair_def comp_def)
    show "set (map ?k (B d a)) \<inter> set (map ?k (B d b)) = {}" if "a \<in> set [0..<8192]" "b \<in> set [0..<8192]" "a \<noteq> b" for a b
      using key(2) [OF d, of a] key(2) [OF d, of b] that by fastforce
  qed simp
  have clu: "distinct (concat (map (\<lambda>d. concat (map (\<lambda>b. map ?k (B d b)) [0..<8192])) (K h)))" if h: "h < 4096" for h
  proof (rule distinct_concat_map)
    show "distinct (K h)" by (rule listing_distinct [OF table_okD(1) [OF T h]])
    show "distinct (concat (map (\<lambda>b. map ?k (B d b)) [0..<8192]))" if "d \<in> set (K h)" for d by (rule blk [OF h that])
    show "set (concat (map (\<lambda>b. map ?k (B c b)) [0..<8192])) \<inter> set (concat (map (\<lambda>b. map ?k (B d b)) [0..<8192])) = {}"
      if c: "c \<in> set (K h)" "d \<in> set (K h)" "c \<noteq> d" for c d
    proof -
      have "c_id (the (clusters st c)) \<noteq> c_id (the (clusters st d))" using same_cluster [OF T h c(1) h c(2)] c(3) by blast
      then show ?thesis using key(1) [OF h c(1)] key(1) [OF h c(2)] by fastforce
    qed
  qed
  have "distinct (concat (map (\<lambda>h. concat (map (\<lambda>d. concat (map (\<lambda>b. map ?k (B d b)) [0..<8192])) (K h))) [0..<4096]))"
  proof (rule distinct_concat_map)
    show "distinct (concat (map (\<lambda>d. concat (map (\<lambda>b. map ?k (B d b)) [0..<8192])) (K h)))" if "h \<in> set [0..<4096]" for h by (rule clu) (use that in simp)
    show "set (concat (map (\<lambda>d. concat (map (\<lambda>b. map ?k (B d b)) [0..<8192])) (K h))) \<inter> set (concat (map (\<lambda>d. concat (map (\<lambda>b. map ?k (B d b)) [0..<8192])) (K g))) = {}"
      if h: "h \<in> set [0..<4096]" "g \<in> set [0..<4096]" "h \<noteq> g" for h g
    proof -
      have H: "HashInt (cid (?k e)) = j" if "j < 4096" "d \<in> set (K j)" "b < 8192" "e \<in> set (B d b)" for j d b e
        using key(1) [OF that] table_okD(2) [OF T that(1,2)] by simp
      show ?thesis
      proof (rule ccontr)
        assume "\<not> ?thesis"
        then obtain c a e d b f where "c \<in> set (K h)" "a < 8192" "e \<in> set (B c a)" "d \<in> set (K g)" "b < 8192" "f \<in> set (B d b)" "?k e = ?k f" by auto
        then show False using H [of h c a e] H [of g d b f] h by simp
      qed
    qed
  qed simp
  then show ?thesis by (simp add: all_entries_def map_concat comp_def)
qed

lemma all_entries_pairs:
  fixes st :: "('v, 'e) AddressMap"
  assumes inv: "am_inv live K B Fr Os st" and M: "am_abs K B st = M"
  shows "set (map (pair (entries st)) (all_entries K B)) = {(k, v). M k = Some v}"
proof (intro set_eqI iffI)
  fix x assume "x \<in> set (map (pair (entries st)) (all_entries K B))"
  then obtain h d b e where e: "h < 4096" "d \<in> set (K h)" "b < 8192" "e \<in> set (B d b)" "x = pair (entries st) e" by (auto simp: all_entries_set)
  note blk = am_invD(2) [OF inv e(1-3)]
  obtain n where n: "entries st e = Some n" using listing_dom [OF block_okD(1) [OF blk] e(4)] by blast
  have k: "cid (e_key n) = c_id (the (clusters st d))" "BlockID (e_key n) = b" using block_okD(2,3) [OF blk e(4)] n by simp_all
  have "find_cluster K (clusters st) (e_key n) = Some d" by (rule find_cluster_id [OF am_invD(1) [OF inv] e(1,2) k(1) [symmetric]])
  from block_entries(1) [OF inv this M, of e] show "x \<in> {(k, v). M k = Some v}" using e(4,5) k(2) n by (simp add: pair_def)
next
  fix x assume "x \<in> {(k, v). M k = Some v}"
  then obtain k v where x: "x = (k, v)" "M k = Some v" by auto
  then obtain e where "am_entry K B st k = Some e" using M by (auto simp: am_abs_def)
  then obtain c n where c: "find_cluster K (clusters st) k = Some c" "e \<in> set (B c (BlockID k))" "entries st e = Some n" "e_key n = k" "am_abs K B st k = Some (e_value n)"
    by (rule am_entry_mem [OF inv])
  have "e \<in> set (all_entries K B)" unfolding all_entries_set using find_cluster_mem(1) [OF am_invD(1) [OF inv] c(1)] c(2) HashInt_less BlockID_less by blast
  moreover have "pair (entries st) e = x" using c(3-5) x M by (simp add: pair_def)
  ultimately show "x \<in> set (map (pair (entries st)) (all_entries K B))" by force
qed

lemma Iterate_run:
  fixes st :: "('v, 'e) AddressMap" and cb :: "('v, 'a) callback"
  assumes r: "represents live st M"
  shows "\<exists>ps st'. distinct (map fst ps) \<and> set ps = {(k, v). M k = Some v} \<and>
    AddressMap_Iterate cb a st = Inr (snd (calls cb ps M a), st') \<and> represents live st' (fst (calls cb ps M a))"
proof -
  obtain K B Fr Os where inv: "am_inv live K B Fr Os st" and M: "am_abs K B st = M" using r by (auto simp: represents_def)
  note T = am_invD(1) [OF inv]
  let ?xs = "all_entries K B" let ?es = "entries st"
  define es' where "es' = fst (visits cb ?xs ?es a)"
  define M' where "M' = fst (calls cb (map (pair ?es) ?xs) M a)"
  have lst: "listing ?es e_next (blocks (the (clusters st d)) b) (B d b)" if "h < 4096" "d \<in> set (K h)" "b < 8192" for h d b
    by (rule block_okD(1) [OF am_invD(2) [OF inv that]])
  have dom: "set ?xs \<subseteq> dom ?es" using listing_dom [OF lst] unfolding all_entries_set by blast
  note V = visits_calls [OF all_entries_keys [OF inv] dom, of cb a M, folded M'_def es'_def]
  have sh: "shape es' = shape ?es" unfolding es'_def by (rule visits_shape [OF dom])
  have run: "AddressMap_Iterate cb a st = Inr (snd (visits cb ?xs ?es a), st\<lparr>entries := es'\<rparr>)"
    using iterate_table_run [of "[0..<4096]" "clusters st" "hashtable st" K ?es B cb a] table_okD(1) [OF T] lst
    by (simp add: AddressMap_Iterate_def kHashSize_def es'_def all_entries_def split: prod.split)
  have blk: "block_ok es' (c_id (the (clusters st d))) b (blocks (the (clusters st d)) b) (B d b) Fr" if d: "h < 4096" "d \<in> set (K h)" "b < 8192" for h d b
  proof -
    note ok = am_invD(2) [OF inv d]
    have k: "e_key (the (es' e)) = e_key (the (?es e))" if "e \<in> set (B d b)" for e by (rule shape_key [OF sh]) (use listing_dom [OF lst [OF d] that] in blast)
    then have m: "map (\<lambda>e. e_key (the (es' e))) (B d b) = map (\<lambda>e. e_key (the (?es e))) (B d b)" by simp
    show ?thesis using shape_listing [OF sh lst [OF d]] block_okD [OF ok] k unfolding block_ok_def m by auto
  qed
  have "am_inv live K B Fr Os (st\<lparr>entries := es'\<rparr>)"
    using T blk shape_listing [OF sh am_invD(3) [OF inv]] am_invD(4-8) [OF inv] shape_dom [OF sh] unfolding am_inv_def by simp
  moreover have "am_abs K B (st\<lparr>entries := es'\<rparr>) = M'"
  proof
    fix k
    have ae: "am_entry K B (st\<lparr>entries := es'\<rparr>) k = am_entry K B st k"
    proof (cases "find_cluster K (clusters st) k")
      case (Some c)
      have "find_entry es' (B c (BlockID k)) k = find_entry ?es (B c (BlockID k)) k" unfolding find_entry_def
        by (rule find_cong_list) (use shape_key [OF sh] listing_dom [OF lst [OF HashInt_less find_cluster_mem(1) [OF T Some] BlockID_less]] in force)
      then show ?thesis using Some by (simp add: am_entry_def)
    qed (simp add: am_entry_def)
    show "am_abs K B (st\<lparr>entries := es'\<rparr>) k = M' k"
    proof (cases "am_entry K B st k")
      case None
      then have "M k = None" using M by (auto simp: am_abs_def)
      have "k \<notin> (fst \<circ> pair ?es) ` set ?xs"
      proof
        assume "k \<in> (fst \<circ> pair ?es) ` set ?xs"
        then obtain e where e: "e \<in> set ?xs" "k = fst (pair ?es e)" by auto
        have "pair ?es e \<in> set (map (pair ?es) ?xs)" using e(1) by simp
        then show False using e(2) \<open>M k = None\<close> unfolding all_entries_pairs [OF inv M] by auto
      qed
      then have "M' k = M k" using V by blast
      then show ?thesis using ae None \<open>M k = None\<close> by (simp add: am_abs_def)
    next
      case (Some e)
      obtain c n where c: "find_cluster K (clusters st) k = Some c" "e \<in> set (B c (BlockID k))" "?es e = Some n" "e_key n = k" by (rule am_entry_mem [OF inv Some])
      have "e \<in> set ?xs" unfolding all_entries_set using find_cluster_mem(1) [OF T c(1)] c(2) HashInt_less BlockID_less by blast
      then have "M' k = Some (e_value (the (es' e)))" using V c(3,4) by auto
      then show ?thesis using ae Some by (simp add: am_abs_def)
    qed
  qed
  ultimately have "represents live (st\<lparr>entries := es'\<rparr>) M'" unfolding represents_def by blast
  moreover have "distinct (map fst (map (pair ?es) ?xs))" using all_entries_keys [OF inv] by simp
  ultimately show ?thesis using run V all_entries_pairs [OF inv M] unfolding M'_def by (intro exI [of _ "map (pair ?es) ?xs"] exI [of _ "st\<lparr>entries := es'\<rparr>"]) simp
qed

end
