(* ===== verification/Address_Map_Safe.thy ===== *)
theory Address_Map_Safe
  imports Address_Map_Search
begin

text \<open>
  The contract of the address map with its clients as a locale, its interpretation on the model of \<open>addressmap-inl.h\<close>, and the properties for every sequence of operations.
\<close>

section \<open>Dictionaries\<close>

datatype 'v dict_op = Find_op addr | Insert_op addr 'v | Remove_op addr

fun dict_step :: "'v dict_op \<Rightarrow> (addr \<rightharpoonup> 'v) \<Rightarrow> 'v option \<times> (addr \<rightharpoonup> 'v)" where
  "dict_step (Find_op k) M = (M k, M)"
| "dict_step (Insert_op k v) M = (None, M(k \<mapsto> v))"
| "dict_step (Remove_op k) M = (M k, M(k := None))"

fun dict_run :: "'v dict_op list \<Rightarrow> (addr \<rightharpoonup> 'v) \<Rightarrow> 'v option list \<times> (addr \<rightharpoonup> 'v)" where
  "dict_run [] M = ([], M)"
| "dict_run (x # xs) M = (case dict_step x M of (r, M) \<Rightarrow> case dict_run xs M of (rs, M) \<Rightarrow> (r # rs, M))"

fun impl_step ::
  "(addr \<Rightarrow> 's \<Rightarrow> 'v option res) \<Rightarrow> (addr \<Rightarrow> 'v \<Rightarrow> 's \<Rightarrow> 's res) \<Rightarrow> (addr \<Rightarrow> 's \<Rightarrow> ('v option \<times> 's) res) \<Rightarrow> 'v dict_op \<Rightarrow> 's \<Rightarrow> ('v option \<times> 's) res" where
  "impl_step fnd ins del (Find_op k) s = bind_res (fnd k s) (\<lambda>r. Inr (r, s))"
| "impl_step fnd ins del (Insert_op k v) s = bind_res (ins k v s) (\<lambda>s. Inr (None, s))"
| "impl_step fnd ins del (Remove_op k) s = del k s"

fun impl_run ::
  "(addr \<Rightarrow> 's \<Rightarrow> 'v option res) \<Rightarrow> (addr \<Rightarrow> 'v \<Rightarrow> 's \<Rightarrow> 's res) \<Rightarrow> (addr \<Rightarrow> 's \<Rightarrow> ('v option \<times> 's) res) \<Rightarrow> 'v dict_op list \<Rightarrow> 's \<Rightarrow> ('v option list \<times> 's) res" where
  "impl_run fnd ins del [] s = Inr ([], s)"
| "impl_run fnd ins del (x # xs) s = bind_res (impl_step fnd ins del x s) (\<lambda>(r, s). bind_res (impl_run fnd ins del xs s) (\<lambda>(rs, s). Inr (r # rs, s)))"

locale dictionary =
  fixes rep :: "'s \<Rightarrow> (addr \<rightharpoonup> 'v) \<Rightarrow> bool"
    and fnd :: "addr \<Rightarrow> 's \<Rightarrow> 'v option res" and ins :: "addr \<Rightarrow> 'v \<Rightarrow> 's \<Rightarrow> 's res" and del :: "addr \<Rightarrow> 's \<Rightarrow> ('v option \<times> 's) res"
  assumes find_law: "rep s M \<Longrightarrow> returns (\<lambda>r. r = M k) (fnd k s)"
    and insert_law: "rep s M \<Longrightarrow> returns (\<lambda>s'. rep s' (M(k \<mapsto> v))) (ins k v s)"
    and remove_law: "rep s M \<Longrightarrow> returns (\<lambda>(r, s'). r = M k \<and> rep s' (M(k := None))) (del k s)"
begin

lemma step_refines: "rep s M \<Longrightarrow> returns (\<lambda>(r, s'). r = fst (dict_step x M) \<and> rep s' (snd (dict_step x M))) (impl_step fnd ins del x s)"
proof (cases x)
  case (Find_op k)
  assume r: "rep s M"
  show ?thesis using find_law [OF r, of k] r Find_op by (auto simp: returns_iff)
next
  case (Insert_op k v)
  assume r: "rep s M"
  show ?thesis using insert_law [OF r, of k v] Insert_op by (auto simp: returns_iff)
next
  case (Remove_op k)
  assume r: "rep s M"
  show ?thesis using remove_law [OF r, of k] Remove_op by simp
qed

lemma run_refines: "rep s M \<Longrightarrow> returns (\<lambda>(rs, s'). rs = fst (dict_run xs M) \<and> rep s' (snd (dict_run xs M))) (impl_run fnd ins del xs s)"
proof (induction xs arbitrary: s M)
  case (Cons x xs)
  obtain r M' where d: "dict_step x M = (r, M')" by fastforce
  obtain s' where s': "impl_step fnd ins del x s = Inr (r, s')" "rep s' M'" using step_refines [OF Cons.prems, of x] d by (auto simp: returns_iff)
  show ?case using Cons.IH [OF s'(2)] s'(1) d by (auto simp: returns_iff split: prod.splits)
qed simp

end

section \<open>The address map\<close>

text \<open>\<open>Find\<close> with the value read through the pointer it returns.\<close>

definition am_lookup :: "('v, 'e) allocator \<Rightarrow> addr \<Rightarrow> ('v, 'e) AddressMap \<Rightarrow> 'v option res" where
  "am_lookup al k st = bind_res (AddressMap_Find al k st) (\<lambda>p. if p = 0 then Inr None else bind_res (at_ptr (entries st) p) (\<lambda>n. Inr (Some (e_value n))))"

definition am_run :: "('v, 'e) allocator \<Rightarrow> 'v dict_op list \<Rightarrow> ('v, 'e) AddressMap \<Rightarrow> ('v option list \<times> ('v, 'e) AddressMap) res" where
  "am_run al = impl_run (am_lookup al) (AddressMap_Insert al) (FindAndRemove al)"

definition never_null :: "('v, 'e) allocator \<Rightarrow> bool" where
  "never_null al \<longleftrightarrow> (\<forall>n s. fst (alloc_fn al n s) \<noteq> 0)"

definition am_rep :: "('v, 'e) allocator \<Rightarrow> ('e \<Rightarrow> addr set) \<Rightarrow> ('v, 'e) AddressMap \<Rightarrow> (addr \<rightharpoonup> 'v) \<Rightarrow> bool" where
  "am_rep al live st M \<longleftrightarrow> alloc_ok al live \<and> never_null al \<and> represents live st M"

interpretation address_map: dictionary "am_rep al live" "am_lookup al" "AddressMap_Insert al" "FindAndRemove al" for al live
proof
  fix st :: "('a, 'b) AddressMap" and M k and v :: 'a
  assume r: "am_rep al live st M"
  then have R: "represents live st M" "alloc_ok al live" "never_null al" by (simp_all add: am_rep_def)
  obtain p where p: "AddressMap_Find al k st = Inr p" "case M k of None \<Rightarrow> p = 0 | Some v \<Rightarrow> p \<noteq> 0 \<and> (\<exists>n. entries st p = Some n \<and> e_key n = k \<and> e_value n = v)"
    using Find_run [OF R(1)] by blast
  show "returns (\<lambda>r. r = M k) (am_lookup al k st)" using p by (cases "M k") (auto simp: am_lookup_def at_ptr_def)
  show "returns (\<lambda>st'. am_rep al live st' (M(k \<mapsto> v))) (AddressMap_Insert al k v st)"
    using Insert_run [OF R(2,1), of k v] R(2,3) unfolding am_rep_def never_null_def by auto
  show "returns (\<lambda>(r, st'). r = M k \<and> am_rep al live st' (M(k := None))) (FindAndRemove al k st)"
    using FindAndRemove_run [OF R(1), of al k] R(2,3) unfolding am_rep_def by auto
qed

lemma AddressMap_new_rep: "alloc_ok al live \<Longrightarrow> never_null al \<Longrightarrow> \<exists>st. AddressMap_new al env = Inr st \<and> am_rep al live st Map.empty"
  using AddressMap_new_run [of al live env] unfolding am_rep_def never_null_def by blast

lemma am_runs:
  assumes "alloc_ok al live" "never_null al"
  obtains st st' where "AddressMap_new al env = Inr st" "am_run al ops st = Inr (fst (dict_run ops Map.empty), st')" "represents live st' (snd (dict_run ops Map.empty))"
proof -
  obtain st where st: "AddressMap_new al env = Inr st" "am_rep al live st Map.empty" using AddressMap_new_rep [OF assms] by blast
  then show ?thesis using that address_map.run_refines [OF st(2), of ops] unfolding am_run_def returns_iff am_rep_def by auto
qed

section \<open>An allocator\<close>

text \<open>It hands out memory from address 1 upwards and never takes any back.\<close>

definition bump :: "(nat, nat) allocator" where
  "bump = \<lparr> alloc_fn = (\<lambda>n s. (Suc s, s + n)), dealloc_fn = (\<lambda>_ s. s), sizeof_Value = 8, zero_Value = 0 \<rparr>"

lemma bump_ok: "alloc_ok bump (\<lambda>s. {1..s})" "never_null bump"
  by (auto simp: alloc_ok_def bump_def never_null_def)

section \<open>Properties\<close>

text \<open>
  C33: with an allocator that behaves like \<open>malloc\<close> and does not fail, every sequence of \<open>Find\<close>, \<open>Insert\<close> and \<open>FindAndRemove\<close> on a new address map returns, and gives
  the results that the same sequence has on a partial function from keys to values.
\<close>

theorem AddressMap_refines:
  assumes "alloc_ok al live" "never_null al"
  shows "returns (\<lambda>(rs, _). rs = fst (dict_run ops Map.empty)) (bind_res (AddressMap_new al env) (am_run al ops))"
  by (rule am_runs [OF assms, of env ops]) simp

theorem AddressMap_refines_witness:
  "returns (\<lambda>(rs, _). rs = [None, None, Some 8, Some 7, Some 8, None])
     (bind_res (AddressMap_new bump 0) (am_run bump [Insert_op 4096 7, Insert_op 1052672 8, Find_op 1052672, Find_op 4096, Remove_op 1052672, Find_op 1052672]))"
  using AddressMap_refines [OF bump_ok, of "[Insert_op 4096 7, Insert_op 1052672 8, Find_op 1052672, Find_op 4096, Remove_op 1052672, Find_op 1052672]" 0] by simp

text \<open>
  C34: after any such sequence, when the keys are the starts of ranges that do not overlap and are at most \<open>max_size\<close> long, \<open>FindInside\<close> returns the
  entry of the range that has the key and stores the start of this range, also when the range starts in an earlier block or cluster; it returns NULL, and leaves the result key alone, only when
  no range has the key.
\<close>

theorem FindInside_correct:
  assumes "alloc_ok al live" "never_null al" "ranges_ok sf mx (snd (dict_run ops Map.empty))" "key < 2 ^ 64"
  shows "returns (\<lambda>(_, st). returns (\<lambda>(p, rk). let M = snd (dict_run ops Map.empty) in
      if p = 0 then rk = res_key \<and> (\<forall>k v. M k = Some v \<longrightarrow> \<not> (k = key \<or> (k \<le> key \<and> key < k + sf v)))
      else \<exists>n. entries st p = Some n \<and> rk = e_key n \<and> M rk = Some (e_value n) \<and> (rk = key \<or> (rk \<le> key \<and> key < rk + sf (e_value n))))
      (FindInside al sf mx key res_key st))
    (bind_res (AddressMap_new al env) (am_run al ops))"
proof (rule am_runs [OF assms(1,2), of env ops])
  fix st st' assume r: "AddressMap_new al env = Inr st" "am_run al ops st = Inr (fst (dict_run ops Map.empty), st')" "represents live st' (snd (dict_run ops Map.empty))"
  obtain p rk where F: "FindInside al sf mx key res_key st' = Inr (p, rk)" "if p = 0 then rk = res_key \<and> (\<forall>k v. snd (dict_run ops Map.empty) k = Some v \<longrightarrow> \<not> inside sf key k v)
      else \<exists>n. entries st' p = Some n \<and> rk = e_key n \<and> snd (dict_run ops Map.empty) rk = Some (e_value n) \<and> inside sf key rk (e_value n)"
    using FindInside_run [OF r(3) assms(3,4), of al res_key] by blast
  show ?thesis using F(2) unfolding r(1) bind_res.simps r(2) returns_simps prod.case F(1) Let_def inside_def .
qed

theorem FindInside_correct_witness:
  "returns (\<lambda>(_, st). returns (\<lambda>(p, rk). rk = 1048000) (FindInside bump (\<lambda>v. v) 4096 1050000 0 st)) (bind_res (AddressMap_new bump 0) (am_run bump [Insert_op 1048000 4000, Insert_op 1052672 8]))"
proof -
  let ?ops = "[Insert_op 1048000 4000, Insert_op 1052672 8]" let ?M = "[1048000 \<mapsto> 4000, 1052672 \<mapsto> 8] :: nat \<rightharpoonup> nat"
  have M: "snd (dict_run ?ops Map.empty) = ?M" by simp
  have cases: "(k = 1052672 \<and> v = 8) \<or> (k = 1048000 \<and> v = 4000)" if "?M k = Some v" for k v using that by (simp split: if_splits)
  have "ranges_ok (\<lambda>v. v) 4096 ?M" unfolding ranges_ok_def
  proof (intro conjI allI impI)
    fix k v k' v' assume "?M k = Some v \<and> ?M k' = Some v' \<and> k < k'"
    then show "k + v \<le> k'" using cases [of k v] cases [of k' v'] by linarith
  qed (use cases in fastforce)+
  then have ok: "ranges_ok (\<lambda>v. v) 4096 (snd (dict_run ?ops Map.empty))" unfolding M .
  have lt: "(1050000 :: nat) < 2 ^ 64" by simp
  have hit: "?M 1048000 = Some 4000" by simp
  have found: "rk = 1048000" if r: "if p = 0 then rk = 0 \<and> (\<forall>k v. ?M k = Some v \<longrightarrow> \<not> (k = 1050000 \<or> (k \<le> 1050000 \<and> 1050000 < k + v)))
      else \<exists>n. entries st p = Some n \<and> rk = e_key n \<and> ?M rk = Some (e_value n) \<and> (rk = 1050000 \<or> (rk \<le> 1050000 \<and> 1050000 < rk + e_value n))" for p rk and st :: "(nat, nat) AddressMap"
  proof (cases "p = 0")
    case True
    then have "\<not> (1048000 = (1050000 :: nat) \<or> (1048000 \<le> (1050000 :: nat) \<and> 1050000 < 1048000 + (4000 :: nat)))" using r hit by metis
    then show ?thesis by simp
  next
    case False
    then obtain n :: "nat Entry" where "?M rk = Some (e_value n)" "rk = 1050000 \<or> rk \<le> 1050000" using r by metis
    then show ?thesis using cases [of rk "e_value n"] by auto
  qed
  show ?thesis
    by (rule returns_mono [OF FindInside_correct [OF bump_ok ok lt, of 0 0, unfolded M Let_def]], simp only: split_paired_all prod.case, erule returns_mono,
      simp only: split_paired_all prod.case, erule found)
qed

text \<open>
  C35: after any such sequence, \<open>Iterate\<close> calls the callback exactly once for each key with its value and leaves the values that the callback stores; the destructor gives every block that the
  map has allocated back to the deallocator exactly once, and does not read a block after it is gone.
\<close>

theorem Iterate_destroy_correct:
  fixes cb :: "('v, 'a) callback"
  assumes "alloc_ok al live" "never_null al"
  shows "returns (\<lambda>(_, st). let M = snd (dict_run ops Map.empty) in
      (\<exists>ps. distinct (map fst ps) \<and> set ps = {(k, v). M k = Some v} \<and>
         returns (\<lambda>(a', st'). a' = snd (calls cb ps M a) \<and> (\<forall>k. returns (\<lambda>r. r = fst (calls cb ps M a) k) (am_lookup al k st'))) (AddressMap_Iterate cb a st)) \<and>
      returns (\<lambda>(freed, _). distinct freed \<and> set freed = dom (am_objects st)) (AddressMap_destroy al st))
    (bind_res (AddressMap_new al env) (am_run al ops))"
proof (rule am_runs [OF assms, of env ops])
  fix st st' assume r: "AddressMap_new al env = Inr st" "am_run al ops st = Inr (fst (dict_run ops Map.empty), st')" "represents live st' (snd (dict_run ops Map.empty))"
  let ?M = "snd (dict_run ops Map.empty)"
  obtain ps st2 where I: "distinct (map fst ps)" "set ps = {(k, v). ?M k = Some v}" "AddressMap_Iterate cb a st' = Inr (snd (calls cb ps ?M a), st2)" "represents live st2 (fst (calls cb ps ?M a))"
    using Iterate_run [OF r(3), of cb a] by blast
  have "am_rep al live st2 (fst (calls cb ps ?M a))" using I(4) assms by (simp add: am_rep_def)
  then have "returns (\<lambda>r. r = fst (calls cb ps ?M a) k) (am_lookup al k st2)" for k by (rule address_map.find_law)
  then have "\<exists>ps. distinct (map fst ps) \<and> set ps = {(k, v). ?M k = Some v} \<and>
      returns (\<lambda>(a', st'). a' = snd (calls cb ps ?M a) \<and> (\<forall>k. returns (\<lambda>r. r = fst (calls cb ps ?M a) k) (am_lookup al k st'))) (AddressMap_Iterate cb a st')"
    using I(1-3) by (intro exI [of _ ps]) simp
  moreover have "returns (\<lambda>(freed, _). distinct freed \<and> set freed = dom (am_objects st')) (AddressMap_destroy al st')"
    using AddressMap_destroy_run [OF r(3), of al] by auto
  ultimately show ?thesis using r(1,2) by (simp add: Let_def)
qed

theorem Iterate_destroy_correct_witness:
  "returns (\<lambda>(_, st). returns (\<lambda>(total, _). total = 7) (AddressMap_Iterate (\<lambda>k v s. (v + 1, s + v)) 0 st)) (bind_res (AddressMap_new bump 0) (am_run bump [Insert_op 4096 7]))"
proof -
  let ?cb = "\<lambda>k v s. (v + 1, s + v) :: nat \<times> nat" let ?M = "[4096 \<mapsto> 7] :: nat \<rightharpoonup> nat"
  have M: "snd (dict_run [Insert_op 4096 7] Map.empty) = ?M" by simp
  have one: "ps = [(4096, 7)]" if "distinct (map fst ps)" "set ps = {(k, v). ?M k = Some v}" for ps
  proof -
    have s: "set ps = {(4096, 7)}" using that(2) by (auto split: if_splits)
    have "distinct ps" using that(1) by (simp add: distinct_map)
    then have "length ps = 1" using distinct_card [of ps] s by simp
    then obtain x where "ps = [x]" by (metis One_nat_def length_0_conv length_Suc_conv)
    then show ?thesis using s by simp
  qed
  have "returns (\<lambda>(total, _). total = 7) (AddressMap_Iterate ?cb 0 st)"
    if ex: "\<exists>ps. distinct (map fst ps) \<and> set ps = {(k, v). ?M k = Some v} \<and>
         returns (\<lambda>(a', st'). a' = snd (calls ?cb ps ?M 0) \<and> (\<forall>k. returns (\<lambda>r. r = fst (calls ?cb ps ?M 0) k) (am_lookup bump k st'))) (AddressMap_Iterate ?cb 0 st)" for st
  proof -
    obtain ps where ps: "distinct (map fst ps)" "set ps = {(k, v). ?M k = Some v}"
      "returns (\<lambda>(a', st'). a' = snd (calls ?cb ps ?M 0) \<and> (\<forall>k. returns (\<lambda>r. r = fst (calls ?cb ps ?M 0) k) (am_lookup bump k st'))) (AddressMap_Iterate ?cb 0 st)" using ex by blast
    show ?thesis using ps(3) unfolding one [OF ps(1,2)] by (elim returns_mono) auto
  qed
  then show ?thesis using Iterate_destroy_correct [OF bump_ok, of "[Insert_op 4096 7]" ?cb 0 0] unfolding M Let_def
    by (elim returns_mono) auto
qed

end
