(* ===== verification/Low_Level_Alloc.thy ===== *)
theory Low_Level_Alloc
  imports System_Alloc Linked_List
begin

text \<open>
  The low-level allocator (\<open>base/low_level_alloc.cc\<close>): a first-fit allocator whose free blocks are in a skip list sorted by
  address, in arenas of their own.  An \<open>AllocList*\<close> is the address of a node; the map \<open>nodes\<close> has a node wherever the code has
  written a header, and the head of an arena's list, which is the member \<open>freelist\<close> of the arena.  An entry \<open>next[i]\<close> can be accessed
  if it is within the block (a head, whose size field is 0, has all of them).  The system calls are the parameter \<open>os\<close>; calls run one after the other, as
  they do under the lock of the arena; the malloc hooks are not modelled.
\<close>

section \<open>State\<close>

definition kMaxLevel :: nat where "kMaxLevel = 30"

record AllocList =
  hsize :: nat
  magic :: u64
  harena :: addr
  lv :: nat
  nx :: "nat \<Rightarrow> addr"

record Arena =
  allocation_count :: int
  aflags :: u32
  apagesize :: nat
  roundup :: nat
  min_size :: nat

record 'o lla =
  ll_os :: 'o
  rand :: u32
  nodes :: "addr \<rightharpoonup> AllocList"
  arenas :: "addr \<rightharpoonup> Arena"
  default_arena :: addr
  unhooked_arena :: addr
  unhooked_async_sig_safe_arena :: addr

definition sizeof_Header :: nat where "sizeof_Header = 32"
definition offset_next :: nat where "offset_next = 40"
definition sizeof_AllocList :: nat where "sizeof_AllocList = offset_next + 8 * kMaxLevel"
definition sizeof_Arena :: nat where "sizeof_Arena = 8 + sizeof_AllocList + 32"

text \<open>\<open>&arena->freelist\<close>, behind the lock.\<close>

definition freelist :: "addr \<Rightarrow> addr" where "freelist arena = arena + 8"

definition kCallMallocHook :: u32 where "kCallMallocHook = 1"
definition kAsyncSignalSafe :: u32 where "kAsyncSignalSafe = 2"
definition kMagicAllocated :: u64 where "kMagicAllocated = 0x4c833e95"
definition kMagicUnallocated :: u64 where "kMagicUnallocated = NOT kMagicAllocated"

definition Magic :: "u64 \<Rightarrow> addr \<Rightarrow> u64" where "Magic m ptr = m XOR of_nat ptr"

definition raw_check :: "bool \<Rightarrow> unit res" where
  "raw_check b = (if b then Inr () else Inl Abort)"

definition get_node :: "addr \<Rightarrow> 'o lla \<Rightarrow> AllocList res" where "get_node p st = at_ptr (nodes st) p"

definition on_node :: "addr \<Rightarrow> (AllocList \<Rightarrow> AllocList) \<Rightarrow> 'o lla \<Rightarrow> 'o lla res" where
  "on_node p f st = bind_res (get_node p st) (\<lambda>n. Inr (st\<lparr>nodes := (nodes st)(p \<mapsto> f n)\<rparr>))"

definition get_arena :: "addr \<Rightarrow> 'o lla \<Rightarrow> Arena res" where "get_arena a st = at_ptr (arenas st) a"

definition on_arena :: "addr \<Rightarrow> (Arena \<Rightarrow> Arena) \<Rightarrow> 'o lla \<Rightarrow> 'o lla res" where
  "on_arena a f st = bind_res (get_arena a st) (\<lambda>x. Inr (st\<lparr>arenas := (arenas st)(a \<mapsto> f x)\<rparr>))"

text \<open>The number of elements of \<open>next\<close> that are inside the block.\<close>

definition room :: "AllocList \<Rightarrow> nat" where
  "room n = (if hsize n = 0 then kMaxLevel else min kMaxLevel ((hsize n - offset_next) div 8))"

definition rd_next :: "addr \<Rightarrow> nat \<Rightarrow> 'o lla \<Rightarrow> addr res" where
  "rd_next p i st = bind_res (get_node p st) (\<lambda>n. if i < room n then Inr (nx n i) else Inl Segv)"

definition wr_next :: "addr \<Rightarrow> nat \<Rightarrow> addr \<Rightarrow> 'o lla \<Rightarrow> 'o lla res" where
  "wr_next p i v st = bind_res (get_node p st) (\<lambda>n. if i < room n then on_node p (\<lambda>n. n\<lparr>nx := (nx n)(i := v)\<rparr>) st else Inl Segv)"

section \<open>The skip list\<close>

function IntLog2_loop :: "nat \<Rightarrow> nat \<Rightarrow> nat \<Rightarrow> nat" where
  "IntLog2_loop base i result = (if i > base then IntLog2_loop base (i div 2) (result + 1) else result)"
  by pat_completeness auto
termination by (relation "measure (\<lambda>(base, i, result). i)") auto

declare IntLog2_loop.simps [simp del]

definition IntLog2 :: "nat \<Rightarrow> nat \<Rightarrow> nat" where "IntLog2 sz base = IntLog2_loop base sz 0"

text \<open>\<open>(r >> 30) & 1\<close> is bit 30.\<close>

partial_function (option) Random_loop :: "nat \<Rightarrow> u32 \<Rightarrow> (nat \<times> u32) option" where
  "Random_loop result r =
     (let r = r * 1103515245 + 12345 in if bit r 30 then Some (result, r) else Random_loop (result + 1) r)"

definition Random :: "'o lla \<Rightarrow> (nat \<times> 'o lla) res" where
  "Random st = (case Random_loop 1 (rand st) of None \<Rightarrow> Inl Diverge | Some (n, r) \<Rightarrow> Inr (n, st\<lparr>rand := r\<rparr>))"

text \<open>\<open>size - OFFSETOF_MEMBER(AllocList, next)\<close> is computed in \<open>size_t\<close>, and \<open>max_fit\<close> is an \<open>int\<close>.\<close>

definition LLA_SkiplistLevels :: "nat \<Rightarrow> nat \<Rightarrow> bool \<Rightarrow> 'o lla \<Rightarrow> (nat \<times> 'o lla) res" where
  "LLA_SkiplistLevels sz base random st =
     (let max_fit = to_int32 (int (wrap64 (sz + 2 ^ 64 - offset_next) div 8)) in
      bind_res (if random then Random st else Inr (1, st)) (\<lambda>(n, st).
      let level = int (IntLog2 sz base + n);
          level = (if level > max_fit then max_fit else level);
          level = (if level > int kMaxLevel - 1 then int kMaxLevel - 1 else level) in
      bind_res (raw_check (level \<ge> 1)) (\<lambda>_. Inr (nat level, st))))"

text \<open>The loop \<open>for (AllocList *n; (n = p->next[level]) != 0 && n < e; p = n)\<close>.\<close>

partial_function (option) level_walk :: "'o lla \<Rightarrow> nat \<Rightarrow> addr \<Rightarrow> addr \<Rightarrow> addr res option" where
  "level_walk st level e p =
     (case rd_next p level st of Inl f \<Rightarrow> Some (Inl f)
      | Inr n \<Rightarrow> if n \<noteq> 0 \<and> n < e then level_walk st level e n else Some (Inr p))"

primrec search_levels :: "nat \<Rightarrow> addr \<Rightarrow> addr \<Rightarrow> (nat \<Rightarrow> addr) \<Rightarrow> 'o lla \<Rightarrow> (nat \<Rightarrow> addr) res" where
  "search_levels 0 e p prev st = Inr prev"
| "search_levels (Suc level) e p prev st =
     bind_res (ends (level_walk st level e p)) (\<lambda>p. search_levels level e p (prev(level := p)) st)"

definition LLA_SkiplistSearch :: "addr \<Rightarrow> addr \<Rightarrow> (nat \<Rightarrow> addr) \<Rightarrow> 'o lla \<Rightarrow> (addr \<times> (nat \<Rightarrow> addr)) res" where
  "LLA_SkiplistSearch head e prev st =
     bind_res (get_node head st) (\<lambda>h.
     bind_res (search_levels (lv h) e head prev st) (\<lambda>prev.
     if lv h = 0 then Inr (0, prev)
     else bind_res (rd_next (prev 0) 0 st) (\<lambda>x. Inr (x, prev))))"

fun link_levels :: "addr \<Rightarrow> (nat \<Rightarrow> addr) \<Rightarrow> nat list \<Rightarrow> 'o lla \<Rightarrow> 'o lla res" where
  "link_levels e prev [] st = Inr st"
| "link_levels e prev (i # is) st =
     bind_res (rd_next (prev i) i st) (\<lambda>x.
     bind_res (wr_next e i x st) (\<lambda>st.
     bind_res (wr_next (prev i) i e st) (\<lambda>st.
     link_levels e prev is st)))"

definition LLA_SkiplistInsert :: "addr \<Rightarrow> addr \<Rightarrow> (nat \<Rightarrow> addr) \<Rightarrow> 'o lla \<Rightarrow> ((nat \<Rightarrow> addr) \<times> 'o lla) res" where
  "LLA_SkiplistInsert head e prev st =
     bind_res (LLA_SkiplistSearch head e prev st) (\<lambda>(_, prev).
     bind_res (get_node head st) (\<lambda>h.
     bind_res (get_node e st) (\<lambda>n.
     let prev = foldl (\<lambda>prev i. prev(i := head)) prev [lv h..<lv n] in
     bind_res (on_node head (\<lambda>h. h\<lparr>lv := max (lv h) (lv n)\<rparr>) st) (\<lambda>st.
     bind_res (link_levels e prev [0..<lv n] st) (\<lambda>st.
     Inr (prev, st))))))"

fun unlink_levels :: "addr \<Rightarrow> (nat \<Rightarrow> addr) \<Rightarrow> nat list \<Rightarrow> 'o lla \<Rightarrow> 'o lla res" where
  "unlink_levels e prev [] st = Inr st"
| "unlink_levels e prev (i # is) st =
     bind_res (rd_next (prev i) i st) (\<lambda>x.
     if x = e then
       bind_res (rd_next e i st) (\<lambda>y.
       bind_res (wr_next (prev i) i y st) (\<lambda>st.
       unlink_levels e prev is st))
     else Inr st)"

primrec trim_levels :: "nat \<Rightarrow> addr \<Rightarrow> 'o lla \<Rightarrow> 'o lla res" where
  "trim_levels 0 head st = Inr st"
| "trim_levels (Suc l) head st =
     bind_res (rd_next head l st) (\<lambda>x.
     if x = 0 then bind_res (on_node head (\<lambda>h. h\<lparr>lv := l\<rparr>) st) (trim_levels l head) else Inr st)"

definition LLA_SkiplistDelete :: "addr \<Rightarrow> addr \<Rightarrow> (nat \<Rightarrow> addr) \<Rightarrow> 'o lla \<Rightarrow> ((nat \<Rightarrow> addr) \<times> 'o lla) res" where
  "LLA_SkiplistDelete head e prev st =
     bind_res (LLA_SkiplistSearch head e prev st) (\<lambda>(found, prev).
     bind_res (raw_check (e = found)) (\<lambda>_.
     bind_res (get_node e st) (\<lambda>n.
     bind_res (unlink_levels e prev [0..<lv n] st) (\<lambda>st.
     bind_res (get_node head st) (\<lambda>h.
     bind_res (trim_levels (lv h) head st) (\<lambda>st.
     Inr (prev, st)))))))"

text \<open>The array \<open>prev\<close> on the stack before it is set.\<close>

definition no_prev :: "nat \<Rightarrow> addr" where "no_prev = (\<lambda>_. 0)"

section \<open>Free arena_blocks\<close>

definition Coalesce :: "addr \<Rightarrow> 'o lla \<Rightarrow> 'o lla res" where
  "Coalesce a st =
     bind_res (rd_next a 0 st) (\<lambda>n.
     bind_res (get_node a st) (\<lambda>na.
     if n \<noteq> 0 \<and> a + hsize na = n then
       let arena = harena na in
       bind_res (get_node n st) (\<lambda>nn.
       bind_res (on_node a (\<lambda>x. x\<lparr>hsize := hsize x + hsize nn\<rparr>) st) (\<lambda>st.
       bind_res (on_node n (\<lambda>x. x\<lparr>magic := 0, harena := 0\<rparr>) st) (\<lambda>st.
       bind_res (LLA_SkiplistDelete (freelist arena) n no_prev st) (\<lambda>(prev, st).
       bind_res (LLA_SkiplistDelete (freelist arena) a prev st) (\<lambda>(prev, st).
       bind_res (get_node a st) (\<lambda>na.
       bind_res (get_arena arena st) (\<lambda>ar.
       bind_res (LLA_SkiplistLevels (hsize na) (min_size ar) True st) (\<lambda>(l, st).
       bind_res (on_node a (\<lambda>x. x\<lparr>lv := l\<rparr>) st) (\<lambda>st.
       bind_res (LLA_SkiplistInsert (freelist arena) a prev st) (\<lambda>(_, st).
       Inr st))))))))))
     else Inr st))"

definition AddToFreelist :: "addr \<Rightarrow> addr \<Rightarrow> 'o lla \<Rightarrow> 'o lla res" where
  "AddToFreelist v arena st =
     (let f = v - sizeof_Header in
      bind_res (get_node f st) (\<lambda>n.
      bind_res (raw_check (magic n = Magic kMagicAllocated f)) (\<lambda>_.
      bind_res (raw_check (harena n = arena)) (\<lambda>_.
      bind_res (get_arena arena st) (\<lambda>ar.
      bind_res (LLA_SkiplistLevels (hsize n) (min_size ar) True st) (\<lambda>(l, st).
      bind_res (on_node f (\<lambda>x. x\<lparr>lv := l\<rparr>) st) (\<lambda>st.
      bind_res (LLA_SkiplistInsert (freelist arena) f no_prev st) (\<lambda>(prev, st).
      bind_res (on_node f (\<lambda>x. x\<lparr>magic := Magic kMagicUnallocated f\<rparr>) st) (\<lambda>st.
      bind_res (Coalesce f st) (\<lambda>st.
      Coalesce (prev 0) st))))))))))"

section \<open>Arenas\<close>

text \<open>The constructor of \<open>ArenaLock\<close> refuses arenas with the flag \<open>kAsyncSignalSafe\<close>.\<close>

definition ArenaLock :: "addr \<Rightarrow> 'o lla \<Rightarrow> unit res" where
  "ArenaLock arena st = bind_res (get_arena arena st) (\<lambda>ar. raw_check (aflags ar AND kAsyncSignalSafe = 0))"

function roundup_loop :: "nat \<Rightarrow> nat" where
  "roundup_loop r = (if 0 < r \<and> r < sizeof_Header then roundup_loop (r + r) else r)"
  by pat_completeness auto
termination by (relation "measure (\<lambda>r. sizeof_Header - r)") auto

declare roundup_loop.simps [simp del]

definition ArenaInit :: "'o os \<Rightarrow> addr \<Rightarrow> 'o lla \<Rightarrow> 'o lla res" where
  "ArenaInit os arena st =
     bind_res (get_arena arena st) (\<lambda>ar.
     if apagesize ar = 0 then
       let r = roundup_loop 16; head = freelist arena in
       bind_res (get_node head st) (\<lambda>_.
       Inr (st\<lparr>nodes := (nodes st)(head \<mapsto> \<lparr> hsize = 0, magic = Magic kMagicUnallocated head, harena = arena, lv = 0, nx = (\<lambda>_. 0) \<rparr>),
               arenas := (arenas st)(arena \<mapsto> \<lparr> allocation_count = 0,
                 aflags = (if arena = default_arena st then kCallMallocHook
                           else if arena = unhooked_async_sig_safe_arena st then kAsyncSignalSafe else 0),
                 apagesize = os_getpagesize os, roundup = r, min_size = 2 * r \<rparr>)\<rparr>))
     else Inr st)"

text \<open>\<open>(addr + align - 1) & ~(align - 1)\<close>.\<close>

definition RoundUp :: "nat \<Rightarrow> nat \<Rightarrow> nat" where
  "RoundUp ad align = (let x = wrap64 (ad + align - 1) in x - (x AND (align - 1)))"

definition lla_Next :: "nat \<Rightarrow> addr \<Rightarrow> addr \<Rightarrow> 'o lla \<Rightarrow> addr res" where
  "lla_Next i prev arena st =
     bind_res (get_node prev st) (\<lambda>p.
     bind_res (raw_check (i < lv p)) (\<lambda>_.
     bind_res (rd_next prev i st) (\<lambda>n.
     if n \<noteq> 0 then
       bind_res (get_node n st) (\<lambda>nn.
       bind_res (raw_check (magic nn = Magic kMagicUnallocated n)) (\<lambda>_.
       bind_res (raw_check (harena nn = arena)) (\<lambda>_.
       if prev \<noteq> freelist arena then
         bind_res (raw_check (prev < n)) (\<lambda>_.
         bind_res (raw_check (prev + hsize p < n)) (\<lambda>_. Inr n))
       else Inr n)))
     else Inr n)))"

partial_function (option) fit_loop :: "nat \<Rightarrow> addr \<Rightarrow> nat \<Rightarrow> addr \<Rightarrow> 'o lla \<Rightarrow> addr res option" where
  "fit_loop i arena req_rnd before st =
     (case lla_Next i before arena st of Inl f \<Rightarrow> Some (Inl f)
      | Inr s \<Rightarrow> if s = 0 then Some (Inr 0)
        else case nodes st s of None \<Rightarrow> Some (Inl Segv)
             | Some n \<Rightarrow> if hsize n < req_rnd then fit_loop i arena req_rnd s st else Some (Inr s))"

text \<open>\<open>mmap\<close> of a new region, which is then given to the free list as if it was an allocated block.\<close>

definition new_region :: "'o os \<Rightarrow> addr \<Rightarrow> nat \<Rightarrow> 'o lla \<Rightarrow> 'o lla res" where
  "new_region os arena req_rnd st =
     bind_res (get_arena arena st) (\<lambda>ar.
     let new_pages_size = RoundUp req_rnd (apagesize ar * 16);
         (new_pages, s) = os_mmap os new_pages_size (ll_os st); st = st\<lparr>ll_os := s\<rparr> in
     bind_res (raw_check (new_pages \<noteq> minus1)) (\<lambda>_.
     AddToFreelist (new_pages + sizeof_Header) arena
       (st\<lparr>nodes := (nodes st)(new_pages \<mapsto> \<lparr> hsize = new_pages_size, magic = Magic kMagicAllocated new_pages, harena = arena, lv = 0, nx = (\<lambda>_. 0) \<rparr>)\<rparr>)))"

text \<open>One round of the loop \<open>for (;;)\<close> up to the \<open>break\<close>: the region that fits, or 0.\<close>

definition find_fit :: "addr \<Rightarrow> nat \<Rightarrow> 'o lla \<Rightarrow> addr res" where
  "find_fit arena req_rnd st =
     bind_res (get_arena arena st) (\<lambda>ar.
     bind_res (LLA_SkiplistLevels req_rnd (min_size ar) False st) (\<lambda>(l, _).
     bind_res (get_node (freelist arena) st) (\<lambda>h.
     if l - 1 < lv h then ends (fit_loop (l - 1) arena req_rnd (freelist arena) st) else Inr 0)))"

partial_function (option) region_loop :: "'o os \<Rightarrow> addr \<Rightarrow> nat \<Rightarrow> 'o lla \<Rightarrow> (addr \<times> 'o lla) res option" where
  "region_loop os arena req_rnd st =
     (case find_fit arena req_rnd st of Inl f \<Rightarrow> Some (Inl f)
      | Inr s \<Rightarrow> if s \<noteq> 0 then Some (Inr (s, st))
        else case new_region os arena req_rnd st of Inl f \<Rightarrow> Some (Inl f) | Inr st \<Rightarrow> region_loop os arena req_rnd st)"

definition split_block :: "addr \<Rightarrow> addr \<Rightarrow> nat \<Rightarrow> 'o lla \<Rightarrow> 'o lla res" where
  "split_block s arena req_rnd st =
     bind_res (get_node s st) (\<lambda>n.
     bind_res (get_arena arena st) (\<lambda>ar.
     if wrap64 (req_rnd + min_size ar) \<le> hsize n then
       let r = req_rnd + s in
       bind_res (on_node s (\<lambda>x. x\<lparr>hsize := req_rnd\<rparr>)
         (st\<lparr>nodes := (nodes st)(r \<mapsto> \<lparr> hsize = hsize n - req_rnd, magic = Magic kMagicAllocated r, harena = arena, lv = 0, nx = (\<lambda>_. 0) \<rparr>)\<rparr>)) (\<lambda>st.
       AddToFreelist (r + sizeof_Header) arena st)
     else Inr st))"

definition DoAllocWithArena :: "'o os \<Rightarrow> nat \<Rightarrow> addr \<Rightarrow> 'o lla \<Rightarrow> (addr \<times> 'o lla) res" where
  "DoAllocWithArena os request arena st =
     (if request = 0 then Inr (0, st)
      else
        bind_res (ArenaLock arena st) (\<lambda>_.
        bind_res (ArenaInit os arena st) (\<lambda>st.
        bind_res (get_arena arena st) (\<lambda>ar.
        let req_rnd = RoundUp (wrap64 (request + sizeof_Header)) (roundup ar) in
        bind_res (ends (region_loop os arena req_rnd st)) (\<lambda>(s, st).
        bind_res (LLA_SkiplistDelete (freelist arena) s no_prev st) (\<lambda>(_, st).
        bind_res (split_block s arena req_rnd st) (\<lambda>st.
        bind_res (on_node s (\<lambda>x. x\<lparr>magic := Magic kMagicAllocated s\<rparr>) st) (\<lambda>st.
        bind_res (get_node s st) (\<lambda>n.
        bind_res (raw_check (harena n = arena)) (\<lambda>_.
        bind_res (on_arena arena (\<lambda>ar. ar\<lparr>allocation_count := to_int32 (allocation_count ar + 1)\<rparr>) st) (\<lambda>st.
        Inr (s + sizeof_Header, st))))))))))))"

definition lla_Alloc :: "'o os \<Rightarrow> nat \<Rightarrow> 'o lla \<Rightarrow> (addr \<times> 'o lla) res" where
  "lla_Alloc os request st = DoAllocWithArena os request (default_arena st) st"

definition AllocWithArena :: "'o os \<Rightarrow> nat \<Rightarrow> addr \<Rightarrow> 'o lla \<Rightarrow> (addr \<times> 'o lla) res" where
  "AllocWithArena os request arena st =
     bind_res (raw_check (arena \<noteq> 0)) (\<lambda>_. DoAllocWithArena os request arena st)"

definition DefaultArena :: "'o lla \<Rightarrow> addr" where "DefaultArena st = default_arena st"

definition lla_Free :: "addr \<Rightarrow> 'o lla \<Rightarrow> 'o lla res" where
  "lla_Free v st =
     (if v \<noteq> 0 then
        let f = v - sizeof_Header in
        bind_res (get_node f st) (\<lambda>n.
        bind_res (raw_check (magic n = Magic kMagicAllocated f)) (\<lambda>_.
        let arena = harena n in
        bind_res (ArenaLock arena st) (\<lambda>_.
        bind_res (AddToFreelist v arena st) (\<lambda>st.
        bind_res (get_arena arena st) (\<lambda>ar.
        bind_res (raw_check (allocation_count ar > 0)) (\<lambda>_.
        on_arena arena (\<lambda>ar. ar\<lparr>allocation_count := to_int32 (allocation_count ar - 1)\<rparr>) st))))))
      else Inr st)"

text \<open>
  The constructor \<open>Arena(0)\<close> sets only the page size; the other members keep what is in the memory until \<open>ArenaInit\<close> sets them.
\<close>

definition NewArena :: "'o os \<Rightarrow> u32 \<Rightarrow> addr \<Rightarrow> 'o lla \<Rightarrow> (addr \<times> 'o lla) res" where
  "NewArena os flags meta st =
     bind_res (raw_check (meta \<noteq> 0)) (\<lambda>_.
     let meta = (if meta = default_arena st then
                   if flags AND kAsyncSignalSafe \<noteq> 0 then unhooked_async_sig_safe_arena st
                   else if flags AND kCallMallocHook = 0 then unhooked_arena st else meta
                 else meta) in
     bind_res (AllocWithArena os sizeof_Arena meta st) (\<lambda>(result, st).
     let st = st\<lparr>nodes := (nodes st)(freelist result \<mapsto> \<lparr> hsize = 0, magic = 0, harena = 0, lv = 0, nx = (\<lambda>_. 0) \<rparr>),
                 arenas := (arenas st)(result \<mapsto> \<lparr> allocation_count = 0, aflags = 0, apagesize = 0, roundup = 0, min_size = 0 \<rparr>)\<rparr> in
     bind_res (ArenaInit os result st) (\<lambda>st.
     bind_res (on_arena result (\<lambda>ar. ar\<lparr>aflags := flags\<rparr>) st) (\<lambda>st.
     Inr (result, st)))))"

text \<open>The loop that unmaps the regions of an empty arena; unmapped memory has no nodes.\<close>

definition unmap_region :: "'o os \<Rightarrow> addr \<Rightarrow> 'o lla \<Rightarrow> 'o lla res" where
  "unmap_region os arena st =
     bind_res (get_arena arena st) (\<lambda>ar.
     bind_res (rd_next (freelist arena) 0 st) (\<lambda>region.
     bind_res (get_node region st) (\<lambda>n.
     let sz = hsize n in
     bind_res (rd_next region 0 st) (\<lambda>x.
     bind_res (wr_next (freelist arena) 0 x st) (\<lambda>st.
     bind_res (raw_check (magic n = Magic kMagicUnallocated region)) (\<lambda>_.
     bind_res (raw_check (harena n = arena)) (\<lambda>_.
     bind_res (raw_check (sz mod apagesize ar = 0)) (\<lambda>_.
     bind_res (raw_check (region mod apagesize ar = 0)) (\<lambda>_.
     bind_res (raw_check (\<not> os_munmap_fails os region sz (ll_os st))) (\<lambda>_.
     Inr (st\<lparr>ll_os := os_munmap os region sz (ll_os st), nodes := (\<lambda>p. if p \<in> {region..<region + sz} then None else nodes st p)\<rparr>)))))))))))"

partial_function (option) unmap_loop :: "'o os \<Rightarrow> addr \<Rightarrow> 'o lla \<Rightarrow> 'o lla res option" where
  "unmap_loop os arena st =
     (case rd_next (freelist arena) 0 st of Inl f \<Rightarrow> Some (Inl f)
      | Inr region \<Rightarrow> if region = 0 then Some (Inr st)
        else case unmap_region os arena st of Inl f \<Rightarrow> Some (Inl f) | Inr st \<Rightarrow> unmap_loop os arena st)"

definition DeleteArena :: "'o os \<Rightarrow> addr \<Rightarrow> 'o lla \<Rightarrow> (bool \<times> 'o lla) res" where
  "DeleteArena os arena st =
     bind_res (raw_check (arena \<noteq> 0 \<and> arena \<noteq> default_arena st \<and> arena \<noteq> unhooked_arena st)) (\<lambda>_.
     bind_res (ArenaLock arena st) (\<lambda>_.
     bind_res (get_arena arena st) (\<lambda>ar.
     if allocation_count ar = 0 then
       bind_res (ends (unmap_loop os arena st)) (\<lambda>st.
       bind_res (lla_Free arena (st\<lparr>arenas := (arenas st)(arena := None)\<rparr>)) (\<lambda>st.
       Inr (True, st)))
     else Inr (False, st))))"

end
