(* ===== verification/Skip_List.thy ===== *)
theory Skip_List
  imports Low_Level_Alloc
begin

text \<open>
  The skip list of the low-level allocator as a sorted list: at level \<open>i\<close> the links visit the nodes with more than \<open>i\<close> levels, in the order of their
  addresses.  Search, insertion and deletion are those of the sorted list.
\<close>

section \<open>The representation\<close>

definition link :: "'o lla \<Rightarrow> nat \<Rightarrow> addr \<Rightarrow> addr" where
  "link st i p = (case nodes st p of None \<Rightarrow> 0 | Some n \<Rightarrow> nx n i)"

definition lvl :: "'o lla \<Rightarrow> addr \<Rightarrow> nat" where
  "lvl st p = (case nodes st p of None \<Rightarrow> 0 | Some n \<Rightarrow> lv n)"

definition at_level :: "'o lla \<Rightarrow> nat \<Rightarrow> addr list \<Rightarrow> addr list" where
  "at_level st i xs = filter (\<lambda>x. i < lvl st x) xs"

definition node_ok :: "'o lla \<Rightarrow> addr \<Rightarrow> addr \<Rightarrow> bool" where
  "node_ok st hp x \<longleftrightarrow> (\<exists>n. nodes st x = Some n \<and> hsize n \<noteq> 0 \<and> 1 \<le> lv n \<and> lv n \<le> lvl st hp \<and> lv n \<le> room n)"

definition head_ok :: "'o lla \<Rightarrow> addr \<Rightarrow> bool" where
  "head_ok st hp \<longleftrightarrow> (\<exists>h. nodes st hp = Some h \<and> hsize h = 0 \<and> lv h < 30)"

definition skip :: "'o lla \<Rightarrow> addr \<Rightarrow> addr list \<Rightarrow> bool" where
  "skip st hp xs \<longleftrightarrow> head_ok st hp \<and> (\<forall>x\<in>set xs. node_ok st hp x) \<and> sorted_wrt (<) xs \<and> 0 \<notin> set xs \<and> hp \<notin> set xs \<and> hp \<noteq> 0 \<and>
     (\<forall>i<30. sll (link st i) (link st i hp) (at_level st i xs))"

lemma skipD:
  assumes "skip st hp xs"
  shows "head_ok st hp" "x \<in> set xs \<Longrightarrow> node_ok st hp x" "sorted_wrt (<) xs" "0 \<notin> set xs" "hp \<notin> set xs" "hp \<noteq> 0"
    "i < 30 \<Longrightarrow> sll (link st i) (link st i hp) (at_level st i xs)"
  using assms by (simp_all add: skip_def)

lemma head_lvl: "head_ok st hp \<Longrightarrow> lvl st hp < 30"
  by (auto simp: head_ok_def lvl_def)

lemma node_lvl: "node_ok st hp x \<Longrightarrow> 1 \<le> lvl st x \<and> lvl st x \<le> lvl st hp"
  by (auto simp: node_ok_def lvl_def)

lemma room_le: "room n \<le> 30"
  by (simp add: room_def kMaxLevel_def)

lemma rd_head: "head_ok st hp \<Longrightarrow> i < 30 \<Longrightarrow> rd_next hp i st = Inr (link st i hp)"
  by (auto simp: head_ok_def rd_next_def get_node_def at_ptr_def link_def room_def kMaxLevel_def)

lemma rd_node: "node_ok st hp x \<Longrightarrow> i < lvl st x \<Longrightarrow> rd_next x i st = Inr (link st i x)"
  by (auto simp: node_ok_def lvl_def rd_next_def get_node_def at_ptr_def link_def)

section \<open>Sorted lists\<close>

lemma takeWhile_filter: "sorted_wrt (<) xs \<Longrightarrow> takeWhile (\<lambda>x. x < e) xs = filter (\<lambda>x. x < e) xs" for e :: nat
proof (induction xs)
  case (Cons x xs)
  show ?case
  proof (cases "x < e")
    case False
    then have "filter (\<lambda>x. x < e) xs = []" using Cons.prems by (auto simp: filter_empty_conv)
    then show ?thesis using False by simp
  qed (use Cons in simp)
qed simp

text \<open>The list is cut at \<open>e\<close>.\<close>

abbreviation lower :: "addr \<Rightarrow> addr list \<Rightarrow> addr list" where "lower e xs \<equiv> filter (\<lambda>x. x < e) xs"
abbreviation upper :: "addr \<Rightarrow> addr list \<Rightarrow> addr list" where "upper e xs \<equiv> filter (\<lambda>x. e \<le> x) xs"

lemma cut: "sorted_wrt (<) xs \<Longrightarrow> xs = lower e xs @ upper e xs"
proof (induction xs)
  case (Cons x xs)
  show ?case
  proof (cases "x < e")
    case True
    then show ?thesis using Cons by simp
  next
    case False
    then have "lower e xs = []" "upper e xs = xs" using Cons.prems by (auto simp: filter_empty_conv filter_id_conv)
    then show ?thesis using False by simp
  qed
qed simp

lemma sorted_filter: "sorted_wrt (<) xs \<Longrightarrow> sorted_wrt (<) (filter P xs)"
  by (simp add: sorted_wrt_filter)

definition prev_at :: "'o lla \<Rightarrow> nat \<Rightarrow> addr \<Rightarrow> addr \<Rightarrow> addr list \<Rightarrow> addr" where
  "prev_at st i e hp xs = last (hp # lower e (at_level st i xs))"

lemma pred_cases: "prev_at st i e hp xs = hp \<or> (prev_at st i e hp xs \<in> set xs \<and> prev_at st i e hp xs < e \<and> i < lvl st (prev_at st i e hp xs))"
proof (cases "lower e (at_level st i xs) = []")
  case False
  then have "prev_at st i e hp xs \<in> set (lower e (at_level st i xs))" using last_in_set [OF False] by (simp add: prev_at_def del: set_filter)
  then show ?thesis by (simp add: at_level_def)
qed (simp add: prev_at_def)

section \<open>Search\<close>

lemma level_walk_run:
  assumes "sll (link st i) (link st i p) ys" "\<And>x. x \<in> set (p # ys) \<Longrightarrow> rd_next x i st = Inr (link st i x)"
  shows "level_walk st i e p = Some (Inr (last (p # takeWhile (\<lambda>x. x < e) ys)))"
  using assms
proof (induction ys arbitrary: p)
  case Nil
  then show ?case by (subst level_walk.simps) simp
next
  case (Cons y ys)
  have y: "link st i p = y" "y \<noteq> 0" "sll (link st i) (link st i y) ys" using Cons.prems(1) by simp_all
  have "rd_next p i st = Inr y" using Cons.prems(2) [of p] y(1) by simp
  then show ?case using Cons.IH [OF y(3)] Cons.prems(2) y(2) by (subst level_walk.simps) simp
qed

lemma walk_pred:
  assumes sk: "skip st hp xs" and i: "i < 30" and p: "p = hp \<or> (p \<in> set xs \<and> p < e \<and> i < lvl st p)"
  shows "level_walk st i e p = Some (Inr (prev_at st i e hp xs))"
proof -
  let ?ys = "at_level st i xs"
  have s: "sorted_wrt (<) ?ys" unfolding at_level_def by (rule sorted_filter [OF skipD(3) [OF sk]])
  have rd: "rd_next x i st = Inr (link st i x)" if "x = hp \<or> x \<in> set ?ys" for x
    using that rd_head [OF skipD(1) [OF sk] i] rd_node [OF skipD(2) [OF sk]] by (auto simp: at_level_def)
  have l: "sll (link st i) (link st i hp) ?ys" by (rule skipD(7) [OF sk i])
  show ?thesis
  proof (cases "p = hp")
    case True
    then show ?thesis using level_walk_run [OF l, of e] rd takeWhile_filter [OF s] by (simp add: prev_at_def)
  next
    case False
    then have p': "p \<in> set ?ys" "p < e" using p by (auto simp: at_level_def)
    then obtain us vs where ys: "?ys = us @ p # vs" by (meson split_list)
    have "sll (link st i) (link st i p) vs" using l ys by auto
    moreover have "sorted_wrt (<) vs" using s ys by (simp add: sorted_wrt_append)
    moreover have "rd_next x i st = Inr (link st i x)" if "x \<in> set (p # vs)" for x by (rule rd) (use that ys in auto)
    ultimately have "level_walk st i e p = Some (Inr (last (p # lower e vs)))" using level_walk_run [of st i p vs e] takeWhile_filter [of vs e] by simp
    moreover have "prev_at st i e hp xs = last (p # lower e vs)" using ys p'(2) by (simp add: prev_at_def)
    ultimately show ?thesis by simp
  qed
qed

lemma search_levels_run:
  assumes sk: "skip st hp xs"
  shows "l \<le> 30 \<Longrightarrow> p = hp \<or> (p \<in> set xs \<and> p < e \<and> l \<le> lvl st p) \<Longrightarrow>
    search_levels l e p prev st = Inr (\<lambda>i. if i < l then prev_at st i e hp xs else prev i)"
proof (induction l arbitrary: p prev)
  case (Suc l)
  have w: "level_walk st l e p = Some (Inr (prev_at st l e hp xs))" by (rule walk_pred [OF sk]) (use Suc.prems in auto)
  have "prev_at st l e hp xs = hp \<or> (prev_at st l e hp xs \<in> set xs \<and> prev_at st l e hp xs < e \<and> l \<le> lvl st (prev_at st l e hp xs))" using pred_cases [of st l e hp xs] by auto
  from Suc.IH [OF _ this] show ?case using Suc.prems(1) w by (auto simp: ends_def fun_eq_iff less_Suc_eq)
qed simp

text \<open>The first element from \<open>e\<close> on, or 0.\<close>

definition first_from :: "addr \<Rightarrow> addr list \<Rightarrow> addr" where
  "first_from e xs = (case upper e xs of [] \<Rightarrow> 0 | x # _ \<Rightarrow> x)"

lemma at_level_0: "skip st hp xs \<Longrightarrow> at_level st 0 xs = xs"
proof -
  assume sk: "skip st hp xs"
  have "0 < lvl st x" if "x \<in> set xs" for x using node_lvl [OF skipD(2) [OF sk that]] by simp
  then show ?thesis by (simp add: at_level_def filter_id_conv)
qed

lemma after_pred:
  assumes sk: "skip st hp xs" and i: "i < 30"
  shows "chain (link st i) (link st i hp) (lower e (at_level st i xs)) (link st i (prev_at st i e hp xs))" "sll (link st i) (link st i (prev_at st i e hp xs)) (upper e (at_level st i xs))"
proof -
  let ?ys = "at_level st i xs"
  have s: "sorted_wrt (<) ?ys" unfolding at_level_def by (rule sorted_filter [OF skipD(3) [OF sk]])
  obtain r where r: "chain (link st i) (link st i hp) (lower e ?ys) r" "sll (link st i) r (upper e ?ys)"
    using skipD(7) [OF sk i] cut [OF s, of e] by (metis chain_append)
  have "link st i (prev_at st i e hp xs) = r"
  proof (cases "lower e ?ys = []")
    case False
    then show ?thesis using chain_last [OF r(1)] by (simp add: prev_at_def)
  qed (use r(1) in \<open>simp add: prev_at_def\<close>)
  then show "chain (link st i) (link st i hp) (lower e ?ys) (link st i (prev_at st i e hp xs))" "sll (link st i) (link st i (prev_at st i e hp xs)) (upper e ?ys)" using r by simp_all
qed

lemma SkipSearch_run:
  assumes sk: "skip st hp xs"
  shows "LLA_SkiplistSearch hp e prev st = Inr (first_from e xs, \<lambda>i. if i < lvl st hp then prev_at st i e hp xs else prev i)"
proof -
  obtain h where h: "nodes st hp = Some h" "lv h < 30" using skipD(1) [OF sk] by (auto simp: head_ok_def)
  have lh: "lvl st hp = lv h" by (simp add: lvl_def h(1))
  have run: "search_levels (lv h) e hp prev st = Inr (\<lambda>i. if i < lv h then prev_at st i e hp xs else prev i)" by (rule search_levels_run [OF sk]) (use h(2) in auto)
  show ?thesis
  proof (cases "lv h = 0")
    case True
    have "xs = []" using node_lvl skipD(2) [OF sk] lh True by (metis last_in_set le_zero_eq not_one_le_zero)
    then show ?thesis using run h lh True by (simp add: LLA_SkiplistSearch_def get_node_def at_ptr_def first_from_def)
  next
    case False
    let ?p = "prev_at st 0 e hp xs"
    have "rd_next ?p 0 st = Inr (link st 0 ?p)" using pred_cases [of st 0 e hp xs] rd_head [OF skipD(1) [OF sk], of 0] rd_node [OF skipD(2) [OF sk]] by auto
    moreover have "link st 0 ?p = first_from e xs" using after_pred(2) [OF sk, of 0 e] at_level_0 [OF sk] by (cases "upper e xs") (simp_all add: first_from_def)
    ultimately show ?thesis using run h lh False by (simp add: LLA_SkiplistSearch_def get_node_def at_ptr_def)
  qed
qed

section \<open>Changes of links\<close>

definition can :: "'o lla \<Rightarrow> addr \<Rightarrow> nat \<Rightarrow> bool" where
  "can st p i \<longleftrightarrow> (\<exists>n. nodes st p = Some n \<and> i < room n)"

definition strip :: "AllocList \<Rightarrow> AllocList" where "strip n = n\<lparr>nx := (\<lambda>_. 0)\<rparr>"

text \<open>The same state but for the links of some nodes.\<close>

definition like :: "addr set \<Rightarrow> 'o lla \<Rightarrow> 'o lla \<Rightarrow> bool" where
  "like P st st' \<longleftrightarrow> (\<exists>N. st' = st\<lparr>nodes := N\<rparr> \<and> (\<forall>q. map_option strip (N q) = map_option strip (nodes st q)) \<and> (\<forall>q. q \<notin> P \<longrightarrow> N q = nodes st q))"

definition set_link :: "addr \<Rightarrow> nat \<Rightarrow> addr \<Rightarrow> 'o lla \<Rightarrow> 'o lla" where
  "set_link p i v st = st\<lparr>nodes := (nodes st)(p := map_option (\<lambda>n. n\<lparr>nx := (nx n)(i := v)\<rparr>) (nodes st p))\<rparr>"

lemma like_refl: "like P st st"
  by (auto simp: like_def intro: exI [of _ "nodes st"])

lemma like_trans: "like P st st' \<Longrightarrow> like Q st' st'' \<Longrightarrow> P \<subseteq> R \<Longrightarrow> Q \<subseteq> R \<Longrightarrow> like R st st''"
proof -
  assume "like P st st'" "like Q st' st''" and R: "P \<subseteq> R" "Q \<subseteq> R"
  then obtain N N' where 1: "st' = st\<lparr>nodes := N\<rparr>" "\<forall>q. map_option strip (N q) = map_option strip (nodes st q)" "\<forall>q. q \<notin> P \<longrightarrow> N q = nodes st q"
    and 2: "st'' = st'\<lparr>nodes := N'\<rparr>" "\<forall>q. map_option strip (N' q) = map_option strip (nodes st' q)" "\<forall>q. q \<notin> Q \<longrightarrow> N' q = nodes st' q" by (auto simp: like_def)
  have "N' q = nodes st q" if "q \<notin> R" for q 
  proof -
    have "q \<notin> P" "q \<notin> Q" using R that by blast+
    then show ?thesis using 1(1,3) 2(3) by simp
  qed
  then show ?thesis unfolding like_def using 1 2 by (intro exI [of _ N']) simp
qed

lemma like_node: "like P st st' \<Longrightarrow> map_option strip (nodes st' q) = map_option strip (nodes st q)"
  by (auto simp: like_def)

lemma strip_sel [simp]: "hsize (strip n) = hsize n" "magic (strip n) = magic n" "harena (strip n) = harena n" "lv (strip n) = lv n" "room (strip n) = room n"
  by (simp_all add: strip_def room_def)

lemma like_Some:
  assumes "like P st st'" "nodes st q = Some n"
  obtains n' where "nodes st' q = Some n'" "hsize n' = hsize n" "magic n' = magic n" "harena n' = harena n" "lv n' = lv n" "room n' = room n"
proof -
  obtain n' where n': "nodes st' q = Some n'" "strip n' = strip n" using like_node [OF assms(1), of q] assms(2) by auto
  then show ?thesis using that strip_sel by metis
qed

lemma like_None: "like P st st' \<Longrightarrow> nodes st' q = None \<longleftrightarrow> nodes st q = None"
  using like_node [of P st st' q] by auto

lemma like_lvl:
  assumes l: "like P st st'"
  shows "lvl st' q = lvl st q"
proof (cases "nodes st q")
  case None
  then have "nodes st' q = None" using like_None [OF l] by simp
  then show ?thesis using None by (simp add: lvl_def)
next
  case (Some n)
  obtain n' where "nodes st' q = Some n'" "lv n' = lv n" by (rule like_Some [OF l Some])
  then show ?thesis using Some by (simp add: lvl_def)
qed

lemma like_can:
  assumes l: "like P st st'"
  shows "can st' p i \<longleftrightarrow> can st p i"
proof (cases "nodes st p")
  case None
  then have "nodes st' p = None" using like_None [OF l] by simp
  then show ?thesis using None by (simp add: can_def)
next
  case (Some n)
  obtain n' where "nodes st' p = Some n'" "room n' = room n" by (rule like_Some [OF l Some])
  then show ?thesis using Some by (simp add: can_def)
qed

lemma rd_can: "can st p i \<Longrightarrow> rd_next p i st = Inr (link st i p)"
  by (auto simp: can_def rd_next_def get_node_def at_ptr_def link_def)

lemma wr_can: "can st p i \<Longrightarrow> wr_next p i v st = Inr (set_link p i v st)"
  by (auto simp: can_def wr_next_def get_node_def at_ptr_def on_node_def set_link_def)

lemma set_link_like: "like {p} st (set_link p i v st)"
proof -
  have "map_option strip (map_option (\<lambda>n. n\<lparr>nx := (nx n)(i := v)\<rparr>) (nodes st p)) = map_option strip (nodes st p)"
    by (cases "nodes st p") (simp_all add: strip_def)
  then show ?thesis unfolding like_def set_link_def by (intro exI [of _ "(nodes st)(p := map_option (\<lambda>n. n\<lparr>nx := (nx n)(i := v)\<rparr>) (nodes st p))"]) simp
qed

lemma link_set_link: "can st p i \<Longrightarrow> link (set_link p i v st) j q = (if q = p \<and> j = i then v else link st j q)"
  by (auto simp: can_def link_def set_link_def)

lemma link_levels_run:
  assumes "distinct is" "\<And>i. i \<in> set is \<Longrightarrow> can st e i \<and> can st (prev i) i \<and> prev i \<noteq> e"
  shows "\<exists>st'. link_levels e prev is st = Inr st' \<and> like (insert e (prev ` set is)) st st' \<and>
    (\<forall>j q. link st' j q = (if j \<in> set is \<and> q = prev j then e else if j \<in> set is \<and> q = e then link st j (prev j) else link st j q))"
  using assms
proof (induction "is" arbitrary: st)
  case Nil
  then show ?case by (simp add: like_refl)
next
  case (Cons i "is")
  have c: "can st e i" "can st (prev i) i" "prev i \<noteq> e" using Cons.prems(2) by auto
  define st1 where "st1 = set_link e i (link st i (prev i)) st"
  define st2 where "st2 = set_link (prev i) i e st1"
  have l1: "like {e} st st1" unfolding st1_def by (rule set_link_like)
  have c1: "can st1 (prev i) i" using like_can [OF l1] c(2) by simp
  have l2: "like {prev i} st1 st2" unfolding st2_def by (rule set_link_like)
  have l12: "like {e, prev i} st st2" by (rule like_trans [OF l1 l2]) auto
  have lk: "link st2 j q = (if j = i \<and> q = prev i then e else if j = i \<and> q = e then link st i (prev i) else link st j q)" for j q
    using link_set_link [OF c1] link_set_link [OF c(1)] c(3) by (simp add: st2_def st1_def)
  have "can st2 e j \<and> can st2 (prev j) j \<and> prev j \<noteq> e" if "j \<in> set is" for j using Cons.prems(2) [of j] that like_can [OF l12] by auto
  then obtain st' where st': "link_levels e prev is st2 = Inr st'" "like (insert e (prev ` set is)) st2 st'"
      "\<forall>j q. link st' j q = (if j \<in> set is \<and> q = prev j then e else if j \<in> set is \<and> q = e then link st2 j (prev j) else link st2 j q)"
    using Cons.IH [of st2] Cons.prems(1) by auto
  have "link_levels e prev (i # is) st = Inr st'" using st'(1) rd_can [OF c(2)] wr_can [OF c(1)] wr_can [OF c1] by (simp add: st2_def st1_def)
  moreover have "like (insert e (prev ` set (i # is))) st st'" by (rule like_trans [OF l12 st'(2)]) auto
  moreover have "i \<notin> set is" using Cons.prems(1) by simp
  ultimately show ?case using st'(3) lk by (intro exI [of _ st']) auto
qed

lemma unlink_levels_run:
  assumes "distinct is" "\<And>i. i \<in> set is \<Longrightarrow> can st e i \<and> can st (prev i) i \<and> link st i (prev i) = e \<and> prev i \<noteq> e"
  shows "\<exists>st'. unlink_levels e prev is st = Inr st' \<and> like (prev ` set is) st st' \<and>
    (\<forall>j q. link st' j q = (if j \<in> set is \<and> q = prev j then link st j e else link st j q))"
  using assms
proof (induction "is" arbitrary: st)
  case Nil
  then show ?case by (simp add: like_refl)
next
  case (Cons i "is")
  have c: "can st e i" "can st (prev i) i" "link st i (prev i) = e" "prev i \<noteq> e" using Cons.prems(2) by auto
  define st1 where "st1 = set_link (prev i) i (link st i e) st"
  have l1: "like {prev i} st st1" unfolding st1_def by (rule set_link_like)
  have lk: "link st1 j q = (if j = i \<and> q = prev i then link st i e else link st j q)" for j q using link_set_link [OF c(2)] by (auto simp: st1_def)
  have "can st1 e j \<and> can st1 (prev j) j \<and> link st1 j (prev j) = e \<and> prev j \<noteq> e" if "j \<in> set is" for j
  proof -
    have "j \<noteq> i" using that Cons.prems(1) by auto
    then show ?thesis using Cons.prems(2) [of j] that like_can [OF l1] lk by auto
  qed
  then obtain st' where st': "unlink_levels e prev is st1 = Inr st'" "like (prev ` set is) st1 st'"
      "\<forall>j q. link st' j q = (if j \<in> set is \<and> q = prev j then link st1 j e else link st1 j q)"
    using Cons.IH [of st1] Cons.prems(1) by auto
  have "unlink_levels e prev (i # is) st = Inr st'" using st'(1) rd_can [OF c(2)] rd_can [OF c(1)] wr_can [OF c(2)] c(3) by (simp add: st1_def)
  moreover have "like (prev ` set (i # is)) st st'" by (rule like_trans [OF l1 st'(2)]) auto
  moreover have "i \<notin> set is" using Cons.prems(1) by simp
  ultimately show ?case using st'(3) lk c(4) by (intro exI [of _ st']) auto
qed

section \<open>Insertion\<close>

definition hfields :: "AllocList \<Rightarrow> nat \<times> u64 \<times> addr" where "hfields n = (hsize n, magic n, harena n)"

text \<open>What the operations on the list at \<open>hp\<close> keep: headers, the levels of the nodes, and all nodes outside \<open>P\<close>.\<close>

definition touches :: "addr set \<Rightarrow> addr \<Rightarrow> 'o lla \<Rightarrow> 'o lla \<Rightarrow> bool" where
  "touches P hp st st' \<longleftrightarrow> (\<exists>N. st' = st\<lparr>nodes := N\<rparr> \<and> (\<forall>q. map_option hfields (N q) = map_option hfields (nodes st q)) \<and>
     (\<forall>q. q \<noteq> hp \<longrightarrow> lvl st' q = lvl st q) \<and> (\<forall>q. q \<notin> P \<longrightarrow> N q = nodes st q))"

lemma touches_trans:
  assumes "touches P hp st st'" "touches Q hp st' st''" "P \<subseteq> R" "Q \<subseteq> R"
  shows "touches R hp st st''"
proof -
  obtain N N' where 1: "st' = st\<lparr>nodes := N\<rparr>" "\<forall>q. map_option hfields (N q) = map_option hfields (nodes st q)" "\<forall>q. q \<noteq> hp \<longrightarrow> lvl st' q = lvl st q" "\<forall>q. q \<notin> P \<longrightarrow> N q = nodes st q"
    and 2: "st'' = st'\<lparr>nodes := N'\<rparr>" "\<forall>q. map_option hfields (N' q) = map_option hfields (nodes st' q)" "\<forall>q. q \<noteq> hp \<longrightarrow> lvl st'' q = lvl st' q" "\<forall>q. q \<notin> Q \<longrightarrow> N' q = nodes st' q"
    using assms(1,2) by (auto simp: touches_def)
  have "N' q = nodes st q" if "q \<notin> R" for q
  proof -
    have "q \<notin> P" "q \<notin> Q" using assms(3,4) that by blast+
    then show ?thesis using 1(1,4) 2(4) by simp
  qed
  then show ?thesis unfolding touches_def using 1 2 by (intro exI [of _ N']) simp
qed

lemma like_touches: "like P st st' \<Longrightarrow> touches P hp st st'"
proof -
  assume l: "like P st st'"
  then obtain N where N: "st' = st\<lparr>nodes := N\<rparr>" "\<forall>q. map_option strip (N q) = map_option strip (nodes st q)" "\<forall>q. q \<notin> P \<longrightarrow> N q = nodes st q" by (auto simp: like_def)
  have hfields: "hfields n = hfields (strip n)" for n by (simp add: hfields_def)
  have "map_option hfields (N q) = map_option hfields (nodes st q)" for q
  proof -
    have "map_option hfields (N q) = map_option hfields (map_option strip (N q))" using hfields by (cases "N q") simp_all
    also have "\<dots> = map_option hfields (map_option strip (nodes st q))" using N(2) by simp
    also have "\<dots> = map_option hfields (nodes st q)" using hfields by (cases "nodes st q") simp_all
    finally show ?thesis .
  qed
  then show ?thesis unfolding touches_def using N like_lvl [OF l] by blast
qed

lemma sll_insert:
  assumes "chain f (f hp) as (f p)" "sll f (f p) bs" "p = last (hp # as)" "e \<notin> set (hp # as @ bs)" "e \<noteq> 0" "distinct (hp # as @ bs)"
  shows "sll (f(e := f p, p := e)) ((f(e := f p, p := e)) hp) (as @ e # bs)"
proof (cases as rule: rev_cases)
  case Nil
  then have "p = hp" using assms(3) by simp
  then show ?thesis using Nil assms by (auto simp: fun_upd_twist)
next
  case (snoc us y)
  then have y: "p = y" "chain f (f hp) us y" "y \<noteq> 0" using assms(1,3) by auto
  have "chain (f(e := f p, p := e)) (f hp) us y" using y assms(4,6) snoc by (auto simp: chain_upd)
  then show ?thesis using snoc y assms by auto
qed

lemma foldl_prev: "foldl (\<lambda>prev i. prev(i := hp)) prev [a..<b] = (\<lambda>i. if a \<le> i \<and> i < b then hp else prev i)"
  by (induction b) (auto simp: fun_eq_iff)

lemma no_level: "skip st hp xs \<Longrightarrow> lvl st hp \<le> i \<Longrightarrow> at_level st i xs = []"
  using node_lvl skipD(2) by (fastforce simp: at_level_def filter_empty_conv)

lemma can_pred: "skip st hp xs \<Longrightarrow> i < 30 \<Longrightarrow> can st (prev_at st i e hp xs) i"
proof -
  assume sk: "skip st hp xs" and i: "i < 30"
  have h: "can st hp i" using skipD(1) [OF sk] i by (auto simp: head_ok_def can_def room_def kMaxLevel_def)
  have "can st x i" if "x \<in> set xs" "i < lvl st x" for x using skipD(2) [OF sk that(1)] that(2) by (auto simp: node_ok_def can_def lvl_def)
  then show ?thesis using h pred_cases [of st i e hp xs] by auto
qed

text \<open>Another number of levels for the head.\<close>

lemma skip_levels:
  assumes sk: "skip st hp xs" and h: "nodes st hp = Some h" and l: "\<forall>x\<in>set xs. lvl st x \<le> l" "l < 30"
  defines "st1 \<equiv> st\<lparr>nodes := (nodes st)(hp \<mapsto> h\<lparr>lv := l\<rparr>)\<rparr>"
  shows "skip st1 hp xs" "touches {hp} hp st st1" "link st1 = link st" "lvl st1 hp = l" "q \<noteq> hp \<Longrightarrow> lvl st1 q = lvl st q" "q \<noteq> hp \<Longrightarrow> nodes st1 q = nodes st q"
proof -
  show lk: "link st1 = link st" using h by (auto simp: fun_eq_iff link_def st1_def)
  show lh: "lvl st1 hp = l" and lo: "\<And>q. q \<noteq> hp \<Longrightarrow> lvl st1 q = lvl st q" and no: "\<And>q. q \<noteq> hp \<Longrightarrow> nodes st1 q = nodes st q" by (simp_all add: lvl_def st1_def)
  have al: "at_level st1 i xs = at_level st i xs" for i unfolding at_level_def by (rule filter_cong) (use lo skipD(5) [OF sk] in metis)+
  have "node_ok st1 hp x" if "x \<in> set xs" for x
  proof -
    have "x \<noteq> hp" using that skipD(5) [OF sk] by metis
    then show ?thesis using skipD(2) [OF sk that] no lh bspec [OF l(1) that] h by (auto simp: node_ok_def lvl_def)
  qed
  moreover have "head_ok st1 hp" using skipD(1) [OF sk] h l(2) by (simp add: head_ok_def st1_def)
  ultimately show "skip st1 hp xs" using sk unfolding skip_def lk al by blast
  show "touches {hp} hp st st1" using h lo unfolding touches_def by (intro exI [of _ "nodes st1"]) (simp add: st1_def hfields_def)
qed

lemma SkipInsert_run:
  assumes sk: "skip st hp xs" and e: "nodes st e = Some n" "hsize n \<noteq> 0" "1 \<le> lv n" "lv n < 30" "lv n \<le> room n" and ne: "e \<notin> set xs" "e \<noteq> hp" "e \<noteq> 0"
  shows "\<exists>prev' st'. LLA_SkiplistInsert hp e prev st = Inr (prev', st') \<and> skip st' hp (lower e xs @ e # upper e xs) \<and> prev' 0 = last (hp # lower e xs) \<and>
    touches (insert hp (insert e (set xs))) hp st st'"
proof -
  obtain h where h: "nodes st hp = Some h" "lv h < 30" using skipD(1) [OF sk] by (auto simp: head_ok_def)
  have lh: "lvl st hp = lv h" by (simp add: lvl_def h(1))
  let ?l = "max (lv h) (lv n)"
  define st1 where "st1 = st\<lparr>nodes := (nodes st)(hp \<mapsto> h\<lparr>lv := ?l\<rparr>)\<rparr>"
  have l30: "?l < 30" using h(2) e(4) by simp
  have lx: "\<forall>x\<in>set xs. lvl st x \<le> ?l" using node_lvl [OF skipD(2) [OF sk]] lh by (metis max.coboundedI1)
  note S = skip_levels [OF sk h(1) lx l30, folded st1_def]
  define prev' where "prev' = (\<lambda>i. if i < lv n then prev_at st i e hp xs else if i < lv h then prev_at st i e hp xs else prev i)"
  have pl: "prev_at st i e hp xs = hp" if "lv h \<le> i" for i using no_level [OF sk, of i] that lh by (simp add: prev_at_def)
  have fold: "foldl (\<lambda>prev i. prev(i := hp)) (\<lambda>i. if i < lvl st hp then prev_at st i e hp xs else prev i) [lv h..<lv n] = prev'"
    using pl lh by (auto simp: foldl_prev prev'_def fun_eq_iff)
  have prd: "prev_at st1 i e hp xs = prev_at st i e hp xs" for i
  proof -
    have "at_level st1 i xs = at_level st i xs" unfolding at_level_def by (rule filter_cong) (use S(5) skipD(5) [OF sk] in metis)+
    then show ?thesis by (simp add: prev_at_def)
  qed
  have pne: "prev_at st i e hp xs \<noteq> e" for i using pred_cases [of st i e hp xs] ne by auto
  have "can st1 e i \<and> can st1 (prev' i) i \<and> prev' i \<noteq> e" if "i \<in> set [0..<lv n]" for i
    using that can_pred [OF S(1), of i e] e(1,4,5) S(6) [OF ne(2)] pne by (auto simp: prev'_def prd can_def)
  then obtain st' where st': "link_levels e prev' [0..<lv n] st1 = Inr st'" "like (insert e (prev' ` set [0..<lv n])) st1 st'"
      "\<forall>j q. link st' j q = (if j \<in> set [0..<lv n] \<and> q = prev' j then e else if j \<in> set [0..<lv n] \<and> q = e then link st1 j (prev' j) else link st1 j q)"
    using link_levels_run [of "[0..<lv n]" st1 e prev'] by auto
  have run: "LLA_SkiplistInsert hp e prev st = Inr (prev', st')"
    using SkipSearch_run [OF sk, of e prev] fold h(1) e(1) st'(1) by (simp add: LLA_SkiplistInsert_def get_node_def at_ptr_def on_node_def st1_def Let_def)
  have lv': "lvl st' q = (if q = hp then ?l else lvl st q)" for q using like_lvl [OF st'(2)] S(4,5) by auto
  have le: "lvl st e = lv n" using e(1) by (simp add: lvl_def)
  have lk: "link st' i q = (if i < lv n \<and> q = prev_at st i e hp xs then e else if i < lv n \<and> q = e then link st i (prev_at st i e hp xs) else link st i q)" for i q
    using st'(3) S(3) by (auto simp: prev'_def)
  let ?zs = "lower e xs @ e # upper e xs"
  have al: "at_level st' i ?zs = lower e (at_level st i xs) @ (if i < lv n then [e] else []) @ upper e (at_level st i xs)" for i
  proof -
    have f: "filter (\<lambda>x. i < lvl st' x) (filter P xs) = filter P (filter (\<lambda>x. i < lvl st x) xs)" for P
    proof -
      have "filter (\<lambda>x. i < lvl st' x) (filter P xs) = filter (\<lambda>x. i < lvl st x) (filter P xs)" by (rule filter_cong) (use lv' skipD(5) [OF sk] in auto)
      then show ?thesis by (simp add: conj_commute)
    qed
    show ?thesis using lv' [of e] ne(2) le f [of "\<lambda>x. x < e"] f [of "\<lambda>x. e \<le> x"] by (simp add: at_level_def)
  qed
  have chains: "sll (link st' i) (link st' i hp) (at_level st' i ?zs)" if i: "i < 30" for i
  proof (cases "i < lv n")
    case True
    let ?f = "link st i" let ?p = "prev_at st i e hp xs"
    have lki: "link st' i = ?f(e := ?f ?p, ?p := e)" using lk [of i] True pne [of i] by (auto simp: fun_eq_iff)
    have sorted: "sorted_wrt (<) (at_level st i xs)" unfolding at_level_def by (rule sorted_filter [OF skipD(3) [OF sk]])
    have "distinct (at_level st i xs)" using sll_distinct [OF skipD(7) [OF sk i]] .
    then have d: "distinct (hp # lower e (at_level st i xs) @ upper e (at_level st i xs))" using cut [OF sorted, of e] skipD(5) [OF sk] by (auto simp: at_level_def)
    have en: "e \<notin> set (hp # lower e (at_level st i xs) @ upper e (at_level st i xs))" using ne by (auto simp: at_level_def)
    show ?thesis using sll_insert [OF after_pred [OF sk i, of e] prev_at_def en ne(3) d] True unfolding al lki by simp
  next
    case False
    have "link st' i = link st i" using lk [of i] False by (auto simp: fun_eq_iff)
    moreover have "at_level st' i ?zs = at_level st i xs"
      using al [of i] False cut [of "at_level st i xs" e] sorted_filter [OF skipD(3) [OF sk]] by (simp add: at_level_def)
    ultimately show ?thesis using skipD(7) [OF sk i] by simp
  qed
  have nok: "node_ok st' hp x" if x: "x \<in> set ?zs" for x
  proof -
    have hne: "x \<noteq> hp" using x ne(2) skipD(5) [OF sk] by auto
    obtain m where m: "nodes st x = Some m" "hsize m \<noteq> 0" "1 \<le> lv m" "lv m \<le> ?l" "lv m \<le> room m"
    proof (cases "x = e")
      case True
      then show ?thesis using that [of n] e by simp
    next
      case False
      then have "node_ok st hp x" using skipD(2) [OF sk] x by auto
      then show ?thesis using that lh by (auto simp: node_ok_def)
    qed
    have "nodes st1 x = Some m" using S(6) [OF hne] m(1) by simp
    then obtain m' where "nodes st' x = Some m'" "hsize m' = hsize m" "lv m' = lv m" "room m' = room m" by (rule like_Some [OF st'(2)])
    then show ?thesis using m lv' [of hp] by (auto simp: node_ok_def)
  qed
  have "nodes st1 hp = Some (h\<lparr>lv := ?l\<rparr>)" by (simp add: st1_def)
  then obtain h' where "nodes st' hp = Some h'" "hsize h' = hsize h" "lv h' = ?l" using like_Some [OF st'(2)] by (metis AllocList.select_convs(1,4) AllocList.surjective AllocList.update_convs(4))
  then have hok: "head_ok st' hp" using skipD(1) [OF sk] h(1) l30 by (auto simp: head_ok_def)
  have "sorted_wrt (<) ?zs" using sorted_filter [OF skipD(3) [OF sk]] ne(1) by (auto simp: sorted_wrt_append le_less)
  then have "skip st' hp ?zs" using hok nok chains skipD(4-6) [OF sk] ne unfolding skip_def by auto
  moreover have "prev' 0 = last (hp # lower e xs)" using e(3) at_level_0 [OF sk] by (simp add: prev'_def prev_at_def)
  moreover have "touches (insert hp (insert e (set xs))) hp st st'"
  proof (rule touches_trans [OF S(2) like_touches [OF st'(2)]])
    show "insert e (prev' ` set [0..<lv n]) \<subseteq> insert hp (insert e (set xs))" using pred_cases [of st _ e hp xs] by (auto simp: prev'_def)
  qed simp
  ultimately show ?thesis using run by blast
qed

section \<open>Deletion\<close>

lemma sll_remove:
  assumes "chain f (f hp) as e" "sll f e (e # bs)" "p = last (hp # as)" "distinct (hp # as @ e # bs)"
  shows "sll (f(p := f e)) ((f(p := f e)) hp) (as @ bs)"
proof (cases as rule: rev_cases)
  case Nil
  then show ?thesis using assms by auto
next
  case (snoc us y)
  then have y: "p = y" "chain f (f hp) us y" "y \<noteq> 0" using assms(1,3) by auto
  have "chain (f(p := f e)) (f hp) us y" using y assms(4) snoc by (auto simp: chain_upd)
  then show ?thesis using snoc y assms by auto
qed

lemma trim_run:
  assumes "head_ok st hp" "nodes st hp = Some h" "lv h = l"
  shows "\<exists>l'\<le>l. trim_levels l hp st = Inr (st\<lparr>nodes := (nodes st)(hp \<mapsto> h\<lparr>lv := l'\<rparr>)\<rparr>) \<and> (\<forall>i. l' \<le> i \<and> i < l \<longrightarrow> link st i hp = 0)"
  using assms
proof (induction l arbitrary: st h)
  case 0
  have "st\<lparr>nodes := (nodes st)(hp \<mapsto> h\<lparr>lv := 0\<rparr>)\<rparr> = st" using 0 by (auto simp: fun_upd_idem)
  then show ?case by (simp del: fun_upd_apply)
next
  case (Suc l)
  have rd: "rd_next hp l st = Inr (link st l hp)" by (rule rd_head [OF Suc.prems(1)]) (use Suc.prems in \<open>auto simp: head_ok_def\<close>)
  show ?case
  proof (cases "link st l hp = 0")
    case True
    define st1 where "st1 = st\<lparr>nodes := (nodes st)(hp \<mapsto> h\<lparr>lv := l\<rparr>)\<rparr>"
    have "head_ok st1 hp" "nodes st1 hp = Some (h\<lparr>lv := l\<rparr>)" using Suc.prems by (auto simp: st1_def head_ok_def)
    from Suc.IH [OF this] have "\<exists>l'\<le>l. trim_levels l hp st1 = Inr (st1\<lparr>nodes := (nodes st1)(hp \<mapsto> h\<lparr>lv := l'\<rparr>)\<rparr>) \<and> (\<forall>i. l' \<le> i \<and> i < l \<longrightarrow> link st1 i hp = 0)" by (simp del: fun_upd_apply)
    then obtain l' where l': "l' \<le> l" "trim_levels l hp st1 = Inr (st1\<lparr>nodes := (nodes st1)(hp \<mapsto> h\<lparr>lv := l'\<rparr>)\<rparr>)" "\<forall>i. l' \<le> i \<and> i < l \<longrightarrow> link st1 i hp = 0" by blast
    have "link st1 i hp = link st i hp" for i using Suc.prems(2) by (simp add: link_def st1_def)
    then have "\<forall>i. l' \<le> i \<and> i < Suc l \<longrightarrow> link st i hp = 0" using l'(3) True by (auto simp: less_Suc_eq)
    moreover have "trim_levels (Suc l) hp st = Inr (st\<lparr>nodes := (nodes st)(hp \<mapsto> h\<lparr>lv := l'\<rparr>)\<rparr>)" using rd True l'(2) Suc.prems(2) by (simp add: on_node_def get_node_def at_ptr_def st1_def)
    ultimately show ?thesis using l'(1) le_SucI by blast
  next
    case False
    have "st\<lparr>nodes := (nodes st)(hp \<mapsto> h\<lparr>lv := Suc l\<rparr>)\<rparr> = st" using Suc.prems by (auto simp: fun_upd_idem)
    then show ?thesis using rd False by (intro exI [of _ "Suc l"]) (simp del: fun_upd_apply)
  qed
qed

lemma upper_Cons:
  assumes "sorted_wrt (<) ys" "e \<in> set ys"
  shows "\<exists>bs. upper e ys = e # bs \<and> filter (\<lambda>x. x \<noteq> e) ys = lower e ys @ bs"
proof -
  obtain us vs where ys: "ys = us @ e # vs" using assms(2) by (meson split_list)
  have u: "\<forall>x\<in>set us. x < e" and v: "\<forall>x\<in>set vs. e < x" using assms(1) ys by (auto simp: sorted_wrt_append)
  have "upper e us = []" "lower e us = us" "filter (\<lambda>x. x \<noteq> e) us = us" using u by (auto simp: filter_empty_conv filter_id_conv)
  moreover have "upper e vs = vs" "lower e vs = []" "filter (\<lambda>x. x \<noteq> e) vs = vs" using v by (auto simp: filter_empty_conv filter_id_conv)
  ultimately show ?thesis using ys by simp
qed

lemma SkipDelete_run:
  assumes sk: "skip st hp xs" and e: "e \<in> set xs"
  shows "\<exists>prev' st'. LLA_SkiplistDelete hp e prev st = Inr (prev', st') \<and> skip st' hp (filter (\<lambda>x. x \<noteq> e) xs) \<and> touches (insert hp (set xs)) hp st st'"
proof -
  let ?zs = "filter (\<lambda>x. x \<noteq> e) xs"
  obtain n where n: "nodes st e = Some n" "lv n \<le> lvl st hp" "lv n \<le> room n" using skipD(2) [OF sk e] by (auto simp: node_ok_def)
  have le: "lvl st e = lv n" using n(1) by (simp add: lvl_def)
  have lh: "lvl st hp < 30" by (rule head_lvl [OF skipD(1) [OF sk]])
  have sorted: "sorted_wrt (<) (at_level st i xs)" for i unfolding at_level_def by (rule sorted_filter [OF skipD(3) [OF sk]])
  define prev' where "prev' = (\<lambda>i. if i < lvl st hp then prev_at st i e hp xs else prev i)"
  have found: "first_from e xs = e" using upper_Cons [OF skipD(3) [OF sk] e] by (auto simp: first_from_def)
  have pne: "prev_at st i e hp xs \<noteq> e" for i using pred_cases [of st i e hp xs] e skipD(5) [OF sk] by auto
  have up: "\<exists>bs. upper e (at_level st i xs) = e # bs \<and> filter (\<lambda>x. x \<noteq> e) (at_level st i xs) = lower e (at_level st i xs) @ bs" if "i < lv n" for i
    by (rule upper_Cons [OF sorted]) (use that le e in \<open>simp add: at_level_def\<close>)
  have lp: "link st i (prev_at st i e hp xs) = e" if "i < lv n" for i
  proof -
    have "i < 30" using that n(2) lh by simp
    then show ?thesis using after_pred(2) [OF sk, of i e] up [OF that] by auto
  qed
  have "can st e i \<and> can st (prev' i) i \<and> link st i (prev' i) = e \<and> prev' i \<noteq> e" if "i \<in> set [0..<lv n]" for i
    using that can_pred [OF sk, of i e] n lh lp pne by (auto simp: prev'_def can_def)
  then obtain st1 where st1: "unlink_levels e prev' [0..<lv n] st = Inr st1" "like (prev' ` set [0..<lv n]) st st1"
      "\<forall>j q. link st1 j q = (if j \<in> set [0..<lv n] \<and> q = prev' j then link st j e else link st j q)"
    using unlink_levels_run [of "[0..<lv n]" st e prev'] by auto
  have lv1: "lvl st1 q = lvl st q" for q by (rule like_lvl [OF st1(2)])
  have lk: "link st1 i q = (if i < lv n \<and> q = prev_at st i e hp xs then link st i e else link st i q)" for i q using st1(3) n(2) by (auto simp: prev'_def)
  have al: "at_level st1 i ?zs = filter (\<lambda>x. x \<noteq> e) (at_level st i xs)" for i by (simp add: at_level_def lv1 conj_commute)
  have chains: "sll (link st1 i) (link st1 i hp) (at_level st1 i ?zs)" if i: "i < 30" for i
  proof (cases "i < lv n")
    case True
    obtain bs where bs: "upper e (at_level st i xs) = e # bs" "filter (\<lambda>x. x \<noteq> e) (at_level st i xs) = lower e (at_level st i xs) @ bs" using up [OF True] by blast
    have lki: "link st1 i = (link st i)(prev_at st i e hp xs := link st i e)" using lk [of i] True by (auto simp: fun_eq_iff)
    have "distinct (at_level st i xs)" by (rule sll_distinct [OF skipD(7) [OF sk i]])
    moreover have "hp \<notin> set (at_level st i xs)" using skipD(5) [OF sk] by (simp add: at_level_def)
    ultimately have d: "distinct (hp # lower e (at_level st i xs) @ e # bs)" using cut [OF sorted, of i e] bs(1) by (metis distinct.simps(2))
    show ?thesis using sll_remove [OF _ _ prev_at_def d] after_pred [OF sk i, of e] lp [OF True] unfolding al lki bs by simp
  next
    case False
    have "e \<notin> set (at_level st i xs)" using False le by (simp add: at_level_def)
    then have "filter (\<lambda>x. x \<noteq> e) (at_level st i xs) = at_level st i xs" by (auto simp: filter_id_conv)
    moreover have "link st1 i = link st i" using lk [of i] False by (auto simp: fun_eq_iff)
    ultimately show ?thesis using skipD(7) [OF sk i] al by simp
  qed
  have nok: "node_ok st1 hp x" if "x \<in> set ?zs" for x
  proof -
    have "node_ok st hp x" using that skipD(2) [OF sk] by simp
    then obtain m where m: "nodes st x = Some m" "hsize m \<noteq> 0" "1 \<le> lv m" "lv m \<le> lvl st hp" "lv m \<le> room m" by (auto simp: node_ok_def)
    obtain m' where "nodes st1 x = Some m'" "hsize m' = hsize m" "lv m' = lv m" "room m' = room m" by (rule like_Some [OF st1(2) m(1)])
    then show ?thesis using m lv1 by (auto simp: node_ok_def)
  qed
  obtain h where h: "nodes st hp = Some h" "hsize h = 0" "lv h < 30" using skipD(1) [OF sk] by (auto simp: head_ok_def)
  obtain h1 where h1: "nodes st1 hp = Some h1" "hsize h1 = hsize h" "lv h1 = lv h" by (rule like_Some [OF st1(2) h(1)])
  have hok: "head_ok st1 hp" using h h1 by (simp add: head_ok_def)
  have sk1: "skip st1 hp ?zs" using hok nok chains skipD(3-6) [OF sk] sorted_filter [OF skipD(3) [OF sk]] unfolding skip_def by auto
  obtain l where l: "l \<le> lv h1" "trim_levels (lv h1) hp st1 = Inr (st1\<lparr>nodes := (nodes st1)(hp \<mapsto> h1\<lparr>lv := l\<rparr>)\<rparr>)" "\<forall>i. l \<le> i \<and> i < lv h1 \<longrightarrow> link st1 i hp = 0"
    using trim_run [OF hok h1(1) refl] by blast
  have lx: "\<forall>x\<in>set ?zs. lvl st1 x \<le> l"
  proof (rule ballI, rule ccontr)
    fix x assume x: "x \<in> set ?zs" and "\<not> lvl st1 x \<le> l"
    let ?i = "lvl st1 x - 1"
    have "lvl st1 x \<le> lv h1" using node_lvl [OF nok [OF x]] h1(1) by (simp add: lvl_def)
    then have i: "l \<le> ?i" "?i < lv h1" "?i < 30" "?i < lvl st1 x" using \<open>\<not> lvl st1 x \<le> l\<close> h(3) h1(3) by auto
    have "at_level st1 ?i ?zs = []" using skipD(7) [OF sk1 i(3)] l(3) i(1,2) by auto
    then show False using x i(4) by (auto simp: at_level_def filter_empty_conv)
  qed
  define st' where "st' = st1\<lparr>nodes := (nodes st1)(hp \<mapsto> h1\<lparr>lv := l\<rparr>)\<rparr>"
  have l30: "l < 30" using l(1) h(3) h1(3) by simp
  note S = skip_levels [OF sk1 h1(1) lx l30, folded st'_def]
  have run: "LLA_SkiplistDelete hp e prev st = Inr (prev', st')"
    using SkipSearch_run [OF sk, of e prev] found n(1) st1(1) h1(1) l(2) by (simp add: LLA_SkiplistDelete_def get_node_def at_ptr_def raw_check_def prev'_def st'_def)
  have "touches (insert hp (set xs)) hp st st'"
  proof (rule touches_trans [OF like_touches [OF st1(2)] S(2)])
    show "prev' ` set [0..<lv n] \<subseteq> insert hp (set xs)" using pred_cases [of st _ e hp xs] n(2) by (auto simp: prev'_def)
  qed simp
  then show ?thesis using run S(1) by blast
qed

section \<open>Refinement of sorted lists\<close>

lemma insort_cut: "sorted_wrt (<) xs \<Longrightarrow> e \<notin> set xs \<Longrightarrow> lower e xs @ e # upper e xs = insort e xs"
proof (induction xs)
  case (Cons x xs)
  show ?case
  proof (cases "x < e")
    case False
    then have "e < x" using Cons.prems(2) by auto
    then have "lower e xs = []" "upper e xs = xs" using Cons.prems(1) by (auto simp: filter_empty_conv filter_id_conv)
    then show ?thesis using \<open>e < x\<close> by simp
  qed (use Cons in auto)
qed simp

lemma remove1_cut: "sorted_wrt (<) xs \<Longrightarrow> filter (\<lambda>x. x \<noteq> e) xs = remove1 e xs" for xs :: "addr list"
  using strict_sorted_iff [of xs] by (simp add: distinct_remove1_removeAll removeAll_filter_not_eq eq_commute [of e])

text \<open>
  C38: the skip list implements a sorted list of addresses.  \<open>LLA_SkiplistSearch\<close> returns the first element that is not below \<open>e\<close>, and in \<open>prev[i]\<close> the last
  element below \<open>e\<close> of the list of level \<open>i\<close>; \<open>LLA_SkiplistInsert\<close> of a node that is not in the list and has at least one level, and
  \<open>LLA_SkiplistDelete\<close> of an element, are insertion into and removal from the sorted list, on all levels; all of them return.
\<close>

theorem skip_list_refines:
  assumes "skip st hp xs"
  shows "returns (\<lambda>(found, prev'). found = (case find (\<lambda>x. e \<le> x) xs of None \<Rightarrow> 0 | Some x \<Rightarrow> x) \<and>
      (\<forall>i<lvl st hp. prev' i = last (hp # takeWhile (\<lambda>x. x < e) (at_level st i xs)))) (LLA_SkiplistSearch hp e prev st) \<and>
    (\<forall>n. nodes st e = Some n \<and> hsize n \<noteq> 0 \<and> 1 \<le> lv n \<and> lv n < 30 \<and> lv n \<le> room n \<and> e \<notin> set xs \<and> e \<noteq> hp \<and> e \<noteq> 0 \<longrightarrow>
       returns (\<lambda>(prev', st'). skip st' hp (insort e xs)) (LLA_SkiplistInsert hp e prev st)) \<and>
    (e \<in> set xs \<longrightarrow> returns (\<lambda>(prev', st'). skip st' hp (remove1 e xs)) (LLA_SkiplistDelete hp e prev st))"
proof (intro conjI allI impI)
  note srt = skipD(3) [OF assms]
  have "first_from e xs = (case find (\<lambda>x. e \<le> x) xs of None \<Rightarrow> 0 | Some x \<Rightarrow> x)" by (induction xs) (simp_all add: first_from_def)
  moreover have "prev_at st i e hp xs = last (hp # takeWhile (\<lambda>x. x < e) (at_level st i xs))" for i
    using takeWhile_filter [OF sorted_filter [OF srt]] by (simp add: prev_at_def at_level_def)
  ultimately show "returns (\<lambda>(found, prev'). found = (case find (\<lambda>x. e \<le> x) xs of None \<Rightarrow> 0 | Some x \<Rightarrow> x) \<and>
      (\<forall>i<lvl st hp. prev' i = last (hp # takeWhile (\<lambda>x. x < e) (at_level st i xs)))) (LLA_SkiplistSearch hp e prev st)"
    using SkipSearch_run [OF assms, of e prev] by simp
  show "returns (\<lambda>(prev', st'). skip st' hp (insort e xs)) (LLA_SkiplistInsert hp e prev st)"
    if n: "nodes st e = Some n \<and> hsize n \<noteq> 0 \<and> 1 \<le> lv n \<and> lv n < 30 \<and> lv n \<le> room n \<and> e \<notin> set xs \<and> e \<noteq> hp \<and> e \<noteq> 0" for n
    using SkipInsert_run [OF assms, of e n prev] n insort_cut [OF srt, of e] by auto
  show "returns (\<lambda>(prev', st'). skip st' hp (remove1 e xs)) (LLA_SkiplistDelete hp e prev st)" if "e \<in> set xs"
    using SkipDelete_run [OF assms that, of prev] remove1_cut [OF srt, of e] by auto
qed

lemma skip_empty:
  assumes "nodes st hp = Some h" "hsize h = 0" "lv h = 0" "nx h = (\<lambda>_. 0)" "hp \<noteq> 0"
  shows "skip st hp []"
  using assms by (simp add: skip_def head_ok_def at_level_def link_def)

definition two_blocks :: "unit lla" where
  "two_blocks = \<lparr> ll_os = (), rand = 1,
     nodes = [8 \<mapsto> \<lparr> hsize = 0, magic = 0, harena = 0, lv = 0, nx = (\<lambda>_. 0) \<rparr>, 64 \<mapsto> \<lparr> hsize = 64, magic = 0, harena = 0, lv = 2, nx = (\<lambda>_. 0) \<rparr>],
     arenas = Map.empty, default_arena = 0, unhooked_arena = 0, unhooked_async_sig_safe_arena = 0 \<rparr>"

theorem skip_list_refines_witness:
  "returns (\<lambda>(prev', st'). skip st' 8 [64]) (LLA_SkiplistInsert 8 64 no_prev two_blocks)"
proof -
  have "skip two_blocks 8 []" 
    by (rule skip_empty [where h = "\<lparr> hsize = 0, magic = 0, harena = 0, lv = 0, nx = (\<lambda>_. 0) \<rparr>"]) (simp_all add: two_blocks_def)
  from skip_list_refines [OF this, of 64 no_prev] show ?thesis by (simp add: two_blocks_def room_def kMaxLevel_def offset_next_def)
qed

end
