(* ===== verification/Skip_Levels.thy ===== *)
theory Skip_Levels
  imports Low_Level_Alloc
begin

text \<open>
  The number of levels of a block: the random number generator stops for every seed, and the levels are within the bounds that the code
  documents.
\<close>

section \<open>The random number generator\<close>

definition lcg :: "u32 \<Rightarrow> u32" where "lcg r = r * 1103515245 + 12345"

text \<open>\<open>2 ^ k\<close> steps of the generator are one step of another linear generator.\<close>

primrec lcg_coeff :: "nat \<Rightarrow> nat \<times> nat" where
  "lcg_coeff 0 = (1103515245, 12345)"
| "lcg_coeff (Suc k) = (case lcg_coeff k of (a, c) \<Rightarrow> (a * a mod 2 ^ 32, (c * a + c) mod 2 ^ 32))"

lemma u32_of_nat_mod: "(of_nat (x mod 2 ^ 32) :: u32) = of_nat x"
  by (simp add: word_of_nat_eq_iff take_bit_eq_mod)

lemma lcg_pow: "(lcg ^^ (2 ^ k)) r = r * of_nat (fst (lcg_coeff k)) + of_nat (snd (lcg_coeff k))"
proof (induction k arbitrary: r)
  case 0
  show ?case by (simp add: lcg_def)
next
  case (Suc k)
  obtain a c where ac: "lcg_coeff k = (a, c)" by force
  have "(2::nat) ^ Suc k = 2 ^ k + 2 ^ k" by simp
  then have "(lcg ^^ (2 ^ Suc k)) r = (r * of_nat a + of_nat c) * of_nat a + of_nat c" using Suc ac by (simp only: funpow_add comp_apply fst_conv snd_conv)
  also have "\<dots> = r * of_nat (a * a) + of_nat (c * a + c)" by (simp add: algebra_simps)
  finally show ?case using u32_of_nat_mod [of "a * a"] u32_of_nat_mod [of "c * a + c"] by (simp only: lcg_coeff.simps ac prod.case fst_conv snd_conv)
qed

lemma lcg_coeff_numeral:
  "lcg_coeff (numeral n) = (case lcg_coeff (pred_numeral n) of (a, c) \<Rightarrow> (a * a mod 4294967296, (c * a + c) mod 4294967296))"
proof -
  have "lcg_coeff (numeral n) = lcg_coeff (Suc (pred_numeral n))" by (simp only: numeral_eq_Suc [of n])
  then show ?thesis by simp
qed

lemma lcg_30: "lcg_coeff 30 = (1, 3221225472)"
  by (simp add: lcg_coeff_numeral)

lemma bit_30_flip: "bit (r + 3 * 2 ^ 30) 30 \<longleftrightarrow> \<not> bit r 30" for r :: u32
proof -
  have d: "bit x 30 \<longleftrightarrow> odd (unat x div 2 ^ 30)" for x :: u32 
  proof -
    have "bit x 30 \<longleftrightarrow> bit (unat x) 30" by (simp add: bit_unsigned_iff)
    then show ?thesis by (simp only: bit_iff_odd)
  qed
  have "unat (r + 3 * 2 ^ 30) = (unat r + 3 * 2 ^ 30) mod 2 ^ 32" by (simp add: unat_word_ariths)
  moreover have "(unat r + 3 * 2 ^ 30) mod 2 ^ 32 div 2 ^ 30 = (unat r + 3 * 2 ^ 30) div 2 ^ 30 mod 4" 
    using drop_bit_take_bit [of 30 32 "unat r + 3 * 2 ^ 30"] by (simp add: drop_bit_eq_div take_bit_eq_mod)
  moreover have "(unat r + 3 * 2 ^ 30) div 2 ^ 30 = unat r div 2 ^ 30 + 3" by simp
  moreover have "odd (x mod 4) \<longleftrightarrow> odd x" for x :: nat by presburger
  ultimately have "odd (unat (r + 3 * 2 ^ 30) div 2 ^ 30) \<longleftrightarrow> odd (unat r div 2 ^ 30 + 3)" by metis
  then show ?thesis by (simp add: d)
qed

lemma lcg_flip: "bit ((lcg ^^ (2 ^ 30)) r) 30 \<longleftrightarrow> \<not> bit r 30"
  using lcg_pow [of 30 r] bit_30_flip [of r] by (simp add: lcg_30)

lemma lcg_reaches: "\<exists>k\<le>2 ^ 30. bit ((lcg ^^ Suc k) r) 30"
proof (cases "bit (lcg r) 30")
  case True
  then show ?thesis by (intro exI [of _ 0]) simp
next
  case False
  have "bit ((lcg ^^ (2 ^ 30)) (lcg r)) 30" using lcg_flip [of "lcg r"] False by simp
  then show ?thesis by (intro exI [of _ "2 ^ 30"]) (simp only: funpow_Suc_right comp_apply order_refl)
qed

lemma Random_loop_run:
  "bit ((lcg ^^ Suc k) r) 30 \<Longrightarrow> \<exists>j\<le>k. Random_loop n r = Some (n + j, (lcg ^^ Suc j) r)"
proof (induction k arbitrary: n r)
  case 0
  then show ?case by (subst Random_loop.simps) (simp add: lcg_def Let_def)
next
  case (Suc k)
  show ?case
  proof (cases "bit (lcg r) 30")
    case True
    then show ?thesis by (subst Random_loop.simps) (simp add: lcg_def Let_def exI [of _ 0])
  next
    case False
    have "bit ((lcg ^^ Suc k) (lcg r)) 30" using Suc.prems by (simp only: funpow_Suc_right comp_apply)
    then obtain j where j: "j \<le> k" "Random_loop (n + 1) (lcg r) = Some (n + 1 + j, (lcg ^^ Suc j) (lcg r))" using Suc.IH by blast
    then have "Random_loop n r = Some (n + Suc j, (lcg ^^ Suc (Suc j)) r)"
      using False by (subst Random_loop.simps) (simp add: lcg_def Let_def funpow_swap1)
    then show ?thesis using j(1) by blast
  qed
qed

lemma Random_run: "\<exists>n r. Random st = Inr (n, st\<lparr>rand := r\<rparr>) \<and> 1 \<le> n \<and> n \<le> 2 ^ 30 + 1"
proof -
  obtain k where k: "k \<le> 2 ^ 30" "bit ((lcg ^^ Suc k) (rand st)) 30" using lcg_reaches by blast
  obtain j where j: "j \<le> k" "Random_loop 1 (rand st) = Some (1 + j, (lcg ^^ Suc j) (rand st))" using Random_loop_run [OF k(2)] by blast
  then have "Random st = Inr (1 + j, st\<lparr>rand := (lcg ^^ Suc j) (rand st)\<rparr>)" by (simp add: Random_def)
  moreover have "1 + j \<le> 2 ^ 30 + 1" using j(1) k(1) by simp
  ultimately show ?thesis by (metis le_add1)
qed

section \<open>Levels\<close>

lemma IntLog2_loop_mono: "i \<le> j \<Longrightarrow> m \<le> n \<Longrightarrow> IntLog2_loop base i m \<le> IntLog2_loop base j n"
proof (induction base i m arbitrary: j n rule: IntLog2_loop.induct)
  case (1 base i m)
  show ?case
  proof (cases "i > base")
    case True
    have "IntLog2_loop base (i div 2) (m + 1) \<le> IntLog2_loop base (j div 2) (n + 1)" by (rule "1.IH" [OF True]) (use "1.prems" in \<open>auto intro: div_le_mono\<close>)
    then show ?thesis using True "1.prems" by (simp add: IntLog2_loop.simps [of base i] IntLog2_loop.simps [of base j])
  next
    case False
    have "n \<le> IntLog2_loop base j n" for j n
    proof (induction base j n rule: IntLog2_loop.induct)
      case (1 base j n)
      then show ?case by (subst IntLog2_loop.simps) fastforce
    qed
    then have "m \<le> IntLog2_loop base j n" using "1.prems"(2) le_trans by blast
    then show ?thesis using False by (simp add: IntLog2_loop.simps [of base i])
  qed
qed

lemma IntLog2_mono: "i \<le> j \<Longrightarrow> IntLog2 i base \<le> IntLog2 j base"
  by (simp add: IntLog2_def IntLog2_loop_mono)

text \<open>The number of pointers that fit in a block, and the levels without chance.\<close>

definition max_fit :: "nat \<Rightarrow> nat" where "max_fit sz = (sz - offset_next) div 8"

definition lev :: "nat \<Rightarrow> nat \<Rightarrow> nat" where
  "lev sz base = min 29 (min (max_fit sz) (IntLog2 sz base + 1))"

lemma lev_mono: "a \<le> b \<Longrightarrow> lev a base \<le> lev b base"
proof -
  assume ab: "a \<le> b"
  have "max_fit a \<le> max_fit b" using ab by (simp add: max_fit_def div_le_mono)
  then show ?thesis using IntLog2_mono [OF ab, of base] unfolding lev_def by (intro min.mono) simp_all
qed

lemma max_fit_pos: "48 \<le> sz \<Longrightarrow> 1 \<le> max_fit sz"
  by (simp add: max_fit_def offset_next_def)

lemma lev_bounds: "48 \<le> sz \<Longrightarrow> 1 \<le> lev sz base" "lev sz base \<le> max_fit sz" "lev sz base < 30"
  using max_fit_pos [of sz] by (simp_all add: lev_def)

lemma max_fit_id:
  assumes "48 \<le> sz" "sz < 2 ^ 34"
  shows "to_int32 (int (wrap64 (sz + 2 ^ 64 - offset_next) div 8)) = int (max_fit sz)"
proof -
  have "wrap64 (sz + 2 ^ 64 - offset_next) = sz - offset_next" 
  proof -
    have "sz + 2 ^ 64 - offset_next = (sz - offset_next) + 2 ^ 64" using assms by (simp add: offset_next_def)
    moreover have "wrap64 (x + 2 ^ 64) = wrap64 x" for x by (simp add: wrap64_def)
    moreover have "wrap64 (sz - offset_next) = sz - offset_next" using assms by (intro wrap64_id) (simp add: offset_next_def)
    ultimately show ?thesis by metis
  qed
  moreover have "max_fit sz < 2 ^ 31" using assms by (simp add: max_fit_def offset_next_def)
  ultimately show ?thesis by (simp add: max_fit_def to_int32_def)
qed

lemma Levels_run:
  assumes sz: "48 \<le> sz" "sz < 2 ^ 34"
  shows "LLA_SkiplistLevels sz base False st = Inr (lev sz base, st)"
    "\<exists>l r. LLA_SkiplistLevels sz base True st = Inr (l, st\<lparr>rand := r\<rparr>) \<and> lev sz base \<le> l \<and> l < 30 \<and> l \<le> max_fit sz"
proof -
  note m = max_fit_id [OF sz] max_fit_pos [OF sz(1)]
  show "LLA_SkiplistLevels sz base False st = Inr (lev sz base, st)"
    using m by (auto simp: LLA_SkiplistLevels_def Let_def raw_check_def lev_def kMaxLevel_def min_def)
  obtain n r where n: "Random st = Inr (n, st\<lparr>rand := r\<rparr>)" "1 \<le> n" using Random_run by blast
  let ?l = "min 29 (min (max_fit sz) (IntLog2 sz base + n))"
  have "LLA_SkiplistLevels sz base True st = Inr (?l, st\<lparr>rand := r\<rparr>)"
    using m n by (auto simp: LLA_SkiplistLevels_def Let_def raw_check_def kMaxLevel_def min_def)
  moreover have "lev sz base \<le> ?l" unfolding lev_def by (intro min.mono) (use n(2) in simp_all)
  ultimately show "\<exists>l r. LLA_SkiplistLevels sz base True st = Inr (l, st\<lparr>rand := r\<rparr>) \<and> lev sz base \<le> l \<and> l < 30 \<and> l \<le> max_fit sz" by fastforce
qed

text \<open>From 16 GB on \<open>max_fit\<close> does not fit an \<open>int\<close>: the number of levels is negative and the check fails.\<close>

lemma Levels_too_large:
  assumes "2 ^ 34 + 40 \<le> len" "len < 2 ^ 35"
  shows "LLA_SkiplistLevels len base random st = Inl Abort"
proof -
  have e: "len + 2 ^ 64 - offset_next = (len - offset_next) + 2 ^ 64" using assms by (simp add: offset_next_def)
  have "wrap64 (x + 2 ^ 64) = wrap64 x" for x by (simp add: wrap64_def)
  moreover have "wrap64 (len - offset_next) = len - offset_next" using assms by (intro wrap64_id) (simp add: offset_next_def)
  ultimately have w: "wrap64 (len + 2 ^ 64 - offset_next) = len - offset_next" using e by metis
  define x where "x = int ((len - offset_next) div 8)"
  have x: "2 ^ 31 \<le> x" "x < 2 ^ 32" using assms by (simp_all add: offset_next_def x_def)
  have "(x + 2 ^ 31 - 2 ^ 32) mod 2 ^ 32 = (x + 2 ^ 31) mod 2 ^ 32" by (rule minus_mod_self2)
  moreover have "(x + 2 ^ 31 - 2 ^ 32) mod 2 ^ 32 = x + 2 ^ 31 - 2 ^ 32" by (rule mod_pos_pos_trivial) (use x in simp_all)
  ultimately have "to_int32 x = x - 2 ^ 32" by (simp only: to_int32_def)
  then have neg: "to_int32 x < 0" using x(2) by simp
  obtain n r where n: "Random st = Inr (n, st\<lparr>rand := r\<rparr>)" using Random_run by blast
  have "to_int32 (int (wrap64 (len + 2 ^ 64 - offset_next) div 8)) < 0" using neg unfolding w x_def .
  then show ?thesis using n by (cases random) (simp_all add: LLA_SkiplistLevels_def Let_def raw_check_def kMaxLevel_def)
qed

text \<open>
  C40: as the comment on \<open>LLA_SkiplistLevels\<close> has it, \<open>0 < LLA_SkiplistLevels(x,y,false) <= LLA_SkiplistLevels(x,y,true) < kMaxLevel\<close>, and \<open>next[level-1]\<close> is
  inside the block, for blocks of 48 bytes up to 16 GB.  The call with chance returns for every value of the random number: the generator
  sets bit 30 after at most \<open>2 ^ 30 + 1\<close> steps, and its result is an \<open>int\<close>.
\<close>

theorem LLA_SkiplistLevels_bounds:
  assumes "48 \<le> len" "len < 2 ^ 34"
  shows "(\<exists>l. LLA_SkiplistLevels len base False st = Inr (l, st) \<and> 0 < l \<and>
      returns (\<lambda>(k, st'). l \<le> k \<and> k < kMaxLevel \<and> offset_next + 8 * k \<le> len \<and> (\<exists>r. st' = st\<lparr>rand := r\<rparr>)) (LLA_SkiplistLevels len base True st)) \<and>
    returns (\<lambda>(n, st'). 1 \<le> n \<and> n \<le> 2 ^ 30 + 1) (Random st)"
proof -
  obtain l r where l: "LLA_SkiplistLevels len base True st = Inr (l, st\<lparr>rand := r\<rparr>)" "lev len base \<le> l" "l < 30" "l \<le> max_fit len" using Levels_run(2) [OF assms] by blast
  have "8 * max_fit len \<le> len - offset_next" by (simp add: max_fit_def)
  then have "offset_next + 8 * l \<le> len" using l(4) assms(1) by (simp add: offset_next_def)
  moreover obtain n r' where "Random st = Inr (n, st\<lparr>rand := r'\<rparr>)" "1 \<le> n" "n \<le> 2 ^ 30 + 1" using Random_run by blast
  ultimately show ?thesis using Levels_run(1) [OF assms, of base st] lev_bounds(1) [OF assms(1), of base] l by (auto simp: kMaxLevel_def)
qed

definition no_arena :: "unit lla" where
  "no_arena = \<lparr> ll_os = (), rand = 1, nodes = Map.empty, arenas = Map.empty, default_arena = 8, unhooked_arena = 16, unhooked_async_sig_safe_arena = 24 \<rparr>"

theorem LLA_SkiplistLevels_bounds_witness:
  "returns (\<lambda>(k, st'). 1 \<le> k \<and> k < kMaxLevel \<and> offset_next + 8 * k \<le> 64) (LLA_SkiplistLevels 64 64 True no_arena)"
proof -
  obtain l where "0 < l" "returns (\<lambda>(k, st'). l \<le> k \<and> k < kMaxLevel \<and> offset_next + 8 * k \<le> 64 \<and> (\<exists>r. st' = no_arena\<lparr>rand := r\<rparr>)) (LLA_SkiplistLevels 64 64 True no_arena)"
    using LLA_SkiplistLevels_bounds [of 64 64 no_arena] by auto
  then show ?thesis by (auto elim!: returns_mono)
qed

end
