(* ===== verification/Arena_Tiles.thy ===== *)
theory Arena_Tiles
  imports Skip_List Skip_Levels
begin

text \<open>
  The blocks of an arena tile the memory that the arena has mapped.  A header map \<open>H\<close> gives for an address the size, the magic number and the
  arena of the header there; \<open>F\<close> are the free blocks, \<open>A\<close> the others, and \<open>C\<close> the mapped bytes.
\<close>

section \<open>Tilings\<close>

type_synonym hdrs = "addr \<rightharpoonup> nat \<times> u64 \<times> addr"

definition sz :: "hdrs \<Rightarrow> addr \<Rightarrow> nat" where
  "sz H p = (case H p of None \<Rightarrow> 0 | Some (s, _) \<Rightarrow> s)"

definition ext :: "hdrs \<Rightarrow> addr \<Rightarrow> addr set" where "ext H p = {p..<p + sz H p}"

definition tile :: "hdrs \<Rightarrow> addr \<Rightarrow> addr \<Rightarrow> bool" where
  "tile H a p \<longleftrightarrow> (\<exists>s m. H p = Some (s, m, a) \<and> 64 \<le> s \<and> 32 dvd s \<and> 32 dvd p)"

definition has_magic :: "u64 \<Rightarrow> hdrs \<Rightarrow> addr \<Rightarrow> bool" where
  "has_magic k H p \<longleftrightarrow> (\<exists>s a. H p = Some (s, Magic k p, a))"

definition tiled :: "hdrs \<Rightarrow> addr \<Rightarrow> addr set \<Rightarrow> addr set \<Rightarrow> addr set \<Rightarrow> bool" where
  "tiled H a F A C \<longleftrightarrow> finite C \<and> card C < 2 ^ 34 \<and> 0 \<notin> C \<and> freelist a \<notin> C \<and> F \<inter> A = {} \<and>
     (\<forall>p\<in>F \<union> A. tile H a p) \<and> (\<forall>p\<in>F. has_magic kMagicUnallocated H p) \<and>
     (\<forall>p\<in>F \<union> A. \<forall>q\<in>F \<union> A. p < q \<longrightarrow> p + sz H p \<le> q) \<and> (\<Union>p\<in>F \<union> A. ext H p) = C"

lemma tiledD:
  assumes "tiled H a F A C"
  shows "finite C" "card C < 2 ^ 34" "0 \<notin> C" "freelist a \<notin> C" "F \<inter> A = {}" "p \<in> F \<union> A \<Longrightarrow> tile H a p" "p \<in> F \<Longrightarrow> has_magic kMagicUnallocated H p"
    "p \<in> F \<union> A \<Longrightarrow> q \<in> F \<union> A \<Longrightarrow> p < q \<Longrightarrow> p + sz H p \<le> q" "(\<Union>p\<in>F \<union> A. ext H p) = C"
  using assms unfolding tiled_def by simp_all

lemma tiledI:
  assumes "finite C" "card C < 2 ^ 34" "0 \<notin> C" "freelist a \<notin> C" "F \<inter> A = {}" "\<And>p. p \<in> F \<union> A \<Longrightarrow> tile H a p" "\<And>p. p \<in> F \<Longrightarrow> has_magic kMagicUnallocated H p"
    "\<And>p q. p \<in> F \<union> A \<Longrightarrow> q \<in> F \<union> A \<Longrightarrow> p < q \<Longrightarrow> p + sz H p \<le> q" "(\<Union>p\<in>F \<union> A. ext H p) = C"
  shows "tiled H a F A C"
  using assms unfolding tiled_def by simp

lemma sz_upd [simp]: "sz (H(p \<mapsto> (s, m, a))) q = (if q = p then s else sz H q)"
  by (simp add: sz_def)

lemma ext_upd: "ext (H(p \<mapsto> (s, m, a))) q = (if q = p then {p..<p + s} else ext H q)"
  by (simp add: ext_def)

lemma tileD: "tile H a p \<Longrightarrow> 64 \<le> sz H p \<and> 32 dvd sz H p \<and> 32 dvd p \<and> (\<exists>m. H p = Some (sz H p, m, a))"
  by (auto simp: tile_def sz_def)

lemma tile_ext: "tile H a p \<Longrightarrow> p \<in> ext H p"
  using tileD [of H a p] by (simp add: ext_def)

lemma tiled_block:
  assumes t: "tiled H a F A C" and p: "p \<in> F \<union> A"
  shows "64 \<le> sz H p" "32 dvd sz H p" "32 dvd p" "\<exists>m. H p = Some (sz H p, m, a)" "ext H p \<subseteq> C" "p \<in> C" "sz H p < 2 ^ 34" "p \<noteq> 0" "p \<noteq> freelist a"
proof -
  note b = tiledD(6) [OF t p]
  show "64 \<le> sz H p" "32 dvd sz H p" "32 dvd p" "\<exists>m. H p = Some (sz H p, m, a)" using tileD [OF b] by auto
  show e: "ext H p \<subseteq> C" using tiledD(9) [OF t] p by blast
  then show c: "p \<in> C" using tile_ext [OF b] by blast
  have "card (ext H p) \<le> card C" by (rule card_mono [OF tiledD(1) [OF t] e])
  then show "sz H p < 2 ^ 34" using tiledD(2) [OF t] by (simp add: ext_def)
  show "p \<noteq> 0" "p \<noteq> freelist a" using c tiledD(3,4) [OF t] by metis+
qed

lemma tiled_disjoint:
  assumes t: "tiled H a F A C" and p: "p \<in> F \<union> A" and q: "q \<in> F \<union> A" and "p \<noteq> q"
  shows "ext H p \<inter> ext H q = {}"
proof -
  have "p < q \<or> q < p" using \<open>p \<noteq> q\<close> by linarith
  then show ?thesis
  proof
    assume "p < q"
    then show ?thesis using tiledD(8) [OF t p q] by (auto simp: ext_def)
  next
    assume "q < p"
    then show ?thesis using tiledD(8) [OF t q p] by (auto simp: ext_def)
  qed
qed

lemma UN_remove: "p \<in> S \<Longrightarrow> (\<Union>q\<in>S. f q) = f p \<union> (\<Union>q\<in>S - {p}. f q)"
  by blast

text \<open>Two adjacent free blocks become one.\<close>

lemma tiled_merge:
  assumes t: "tiled H a F A C" and p: "p \<in> F" and n: "n \<in> F" "n = p + sz H p"
  shows "tiled (H(p \<mapsto> (sz H p + sz H n, Magic kMagicUnallocated p, a), n \<mapsto> (sz H n, 0, 0))) a (F - {n}) A C"
proof -
  let ?H = "H(p \<mapsto> (sz H p + sz H n, Magic kMagicUnallocated p, a), n \<mapsto> (sz H n, 0, 0))"
  note P = tiled_block [OF t, of p] and N = tiled_block [OF t, of n]
  have pn: "p \<noteq> n" using P p n by auto
  have szs: "sz ?H q = (if q = p then sz H p + sz H n else sz H q)" for q using pn by simp
  have eq: "q \<in> F \<union> A \<Longrightarrow> q \<noteq> p \<Longrightarrow> q \<noteq> n \<Longrightarrow> ?H q = H q" for q by simp
  have nA: "n \<notin> A" using tiledD(5) [OF t] n(1) by blast
  have 6: "tile ?H a q" if q: "q \<in> F - {n} \<union> A" for q
  proof (cases "q = p")
    case True
    then show ?thesis using P N p n(1) pn by (auto simp: tile_def)
  next
    case False
    then have "?H q = H q" using q nA by (intro eq) auto
    then show ?thesis using tiledD(6) [OF t, of q] q by (auto simp: tile_def)
  qed
  have 7: "has_magic kMagicUnallocated ?H q" if q: "q \<in> F - {n}" for q
    using tiledD(7) [OF t, of q] q pn by (auto simp: has_magic_def)
  have 8: "x + sz ?H x \<le> y" if x: "x \<in> F - {n} \<union> A" and y: "y \<in> F - {n} \<union> A" and xy: "x < y" for x y
  proof (cases "x = p")
    case True
    have "p + sz H p \<le> y" using tiledD(8) [OF t, of p y] p y xy True by blast
    moreover have "y \<noteq> n" using y nA by auto
    ultimately have "n < y" using n(2) by simp
    then have "n + sz H n \<le> y" using tiledD(8) [OF t, of n y] n(1) y by blast
    then show ?thesis using True n(2) by (simp only: szs) simp
  next
    case False
    then show ?thesis using tiledD(8) [OF t, of x y] x y xy by (simp only: szs) auto
  qed
  have 9: "(\<Union>q\<in>F - {n} \<union> A. ext ?H q) = C"
  proof -
    have "sz ?H p = sz H p + sz H n" using szs [of p] by simp
    then have e: "ext ?H p = ext H p \<union> ext H n" using n(2) by (auto simp: ext_def simp del: sz_upd)
    have o: "(\<Union>q\<in>F - {n} \<union> A - {p}. ext ?H q) = (\<Union>q\<in>F - {n} \<union> A - {p}. ext H q)" by (rule SUP_cong) (simp_all add: ext_def szs del: sz_upd)
    have "(\<Union>q\<in>F - {n} \<union> A. ext ?H q) = ext ?H p \<union> (\<Union>q\<in>F - {n} \<union> A - {p}. ext ?H q)" by (rule UN_remove) (use p pn in blast)
    also have "\<dots> = ext H p \<union> ext H n \<union> (\<Union>q\<in>F - {n} \<union> A - {p}. ext H q)" by (simp only: e o)
    also have "\<dots> = (\<Union>q\<in>insert p (insert n (F - {n} \<union> A - {p})). ext H q)" by (simp add: Un_assoc)
    also have "insert p (insert n (F - {n} \<union> A - {p})) = F \<union> A" using p n(1) by blast
    also note tiledD(9) [OF t]
    finally show ?thesis .
  qed
  have 5: "(F - {n}) \<inter> A = {}" using tiledD(5) [OF t] by blast
  show ?thesis by (rule tiledI [OF tiledD(1-4) [OF t] 5 6 7 8 9])
qed

lemma tiled_cong:
  assumes t: "tiled H a F A C" and "\<And>q. q \<in> F \<union> A \<Longrightarrow> H' q = H q"
  shows "tiled H' a F A C"
proof -
  have "sz H' q = sz H q" "ext H' q = ext H q" "tile H' a q \<longleftrightarrow> tile H a q" "has_magic k H' q \<longleftrightarrow> has_magic k H q" if "q \<in> F \<union> A" for q k
    using assms(2) [OF that] by (simp_all add: sz_def ext_def tile_def has_magic_def)
  then show ?thesis using t unfolding tiled_def by (auto simp del: UN_iff)
qed

lemma tiled_free:
  assumes t: "tiled H a F A C" and f: "f \<in> A"
  shows "tiled (H(f \<mapsto> (sz H f, Magic kMagicUnallocated f, a))) a (insert f F) (A - {f}) C"
proof -
  let ?H = "H(f \<mapsto> (sz H f, Magic kMagicUnallocated f, a))"
  have szs: "sz ?H q = sz H q" "ext ?H q = ext H q" for q by (simp_all add: ext_def)
  have un: "insert f F \<union> (A - {f}) = F \<union> A" using f by blast
  have 6: "tile ?H a q" if "q \<in> F \<union> A" for q using tiledD(6) [OF t that] by (auto simp: tile_def sz_def)
  have 7: "has_magic kMagicUnallocated ?H q" if "q \<in> insert f F" for q using tiledD(7) [OF t, of q] that by (auto simp: has_magic_def)
  have 5: "insert f F \<inter> (A - {f}) = {}" using tiledD(5) [OF t] by blast
  show ?thesis by (rule tiledI [of _ _ _ _ ?H, OF tiledD(1-4) [OF t] 5, unfolded un szs, OF 6 7 tiledD(8,9) [OF t]])
qed

lemma tiled_take: "tiled H a F A C \<Longrightarrow> s \<in> F \<Longrightarrow> tiled H a (F - {s}) (insert s A) C"
proof -
  assume t: "tiled H a F A C" and s: "s \<in> F"
  have "F - {s} \<union> insert s A = F \<union> A" using s by blast
  then show ?thesis using tiledD [OF t] unfolding tiled_def by auto
qed

lemma tiled_split:
  assumes t: "tiled H a F A C" and s: "s \<in> A" and req: "64 \<le> req" "32 dvd req" "req + 64 \<le> sz H s"
  shows "tiled (H(s + req \<mapsto> (sz H s - req, m', a), s \<mapsto> (req, m, a))) a F (insert (s + req) A) C" "s + req \<notin> F \<union> A"
proof -
  let ?r = "s + req"
  let ?H = "H(?r \<mapsto> (sz H s - req, m', a), s \<mapsto> (req, m, a))"
  note S = tiled_block [OF t, of s]
  have r: "?r \<in> ext H s" "?r \<noteq> s" using req by (auto simp: ext_def)
  show rn: "?r \<notin> F \<union> A"
  proof
    assume r': "?r \<in> F \<union> A"
    have "?r \<in> ext H ?r" using tile_ext [OF tiledD(6) [OF t r']] .
    moreover have "ext H s \<inter> ext H ?r = {}" by (rule tiled_disjoint [OF t _ r']) (use s r(2) in auto)
    ultimately show False using r(1) by blast
  qed
  have szs: "sz ?H q = (if q = s then req else if q = ?r then sz H s - req else sz H q)" for q by simp
  have 6: "tile ?H a q" if q: "q \<in> F \<union> insert ?r A" for q
  proof -
    consider "q = s" | "q = ?r" | "q \<noteq> s" "q \<noteq> ?r" "q \<in> F \<union> A" using q by blast
    then show ?thesis
    proof cases
      case 3
      then show ?thesis using tiledD(6) [OF t, of q] by (auto simp: tile_def)
    qed (use S s req r(2) in \<open>auto simp: tile_def\<close>)
  qed
  have 7: "has_magic kMagicUnallocated ?H q" if q: "q \<in> F" for q
  proof -
    have "q \<noteq> s" "q \<noteq> ?r" using q s rn tiledD(5) [OF t] by blast+
    then show ?thesis using tiledD(7) [OF t q] by (auto simp: has_magic_def)
  qed
  have 8: "x + sz ?H x \<le> y" if x: "x \<in> F \<union> insert ?r A" and y: "y \<in> F \<union> insert ?r A" and xy: "x < y" for x y
  proof -
    have X: "x = ?r \<or> (x \<in> F \<union> A)" "y = ?r \<or> (y \<in> F \<union> A)" using x y by blast+
    have sy: "s + sz H s \<le> z" if "z \<in> F \<union> A" "s < z" for z using tiledD(8) [OF t, of s z] s that by blast
    have far: "x + sz H x \<le> s" if "x \<in> F \<union> A" "x < s" using tiledD(8) [OF t, of x s] s that by blast
    consider (r) "x = ?r" | (s) "x = s" | (o) "x \<noteq> s" "x \<noteq> ?r" "x \<in> F \<union> A" using X(1) by blast
    then show ?thesis
    proof cases
      case r
      then have "y \<in> F \<union> A" "s < y" using X(2) xy by auto
      then show ?thesis using sy [of y] r req by (simp only: szs) auto
    next
      case s
      then show ?thesis using X(2) sy [of y] xy req by (simp only: szs) auto
    next
      case o
      have "x + sz H x \<le> y"
      proof (cases "y = ?r")
        case False
        then show ?thesis using tiledD(8) [OF t o(3)] X(2) xy by blast
      next
        case True
        have "\<not> s < x" using sy [OF o(3)] True xy req by linarith
        then show ?thesis using far o True by simp
      qed
      then show ?thesis using o by (simp only: szs) simp
    qed
  qed
  have 9: "(\<Union>q\<in>F \<union> insert ?r A. ext ?H q) = C"
  proof -
    have e: "ext ?H s \<union> ext ?H ?r = ext H s" using req by (auto simp: ext_def)
    have "(\<Union>q\<in>F \<union> A - {s}. ext ?H q) = (\<Union>q\<in>F \<union> A - {s}. ext H q)" by (rule SUP_cong) (use rn in \<open>auto simp: ext_def\<close>)
    moreover have "(\<Union>q\<in>F \<union> insert ?r A. ext ?H q) = (ext ?H s \<union> ext ?H ?r) \<union> (\<Union>q\<in>F \<union> A - {s}. ext ?H q)" using s rn by blast
    moreover have "(\<Union>q\<in>F \<union> A. ext H q) = ext H s \<union> (\<Union>q\<in>F \<union> A - {s}. ext H q)" using s by blast
    ultimately show ?thesis using e tiledD(9) [OF t] by simp
  qed
  have 5: "F \<inter> insert ?r A = {}" using tiledD(5) [OF t] rn by blast
  show "tiled ?H a F (insert ?r A) C" by (rule tiledI [OF tiledD(1-4) [OF t] 5 6 7 8 9])
qed

lemma tiled_region:
  assumes t: "tiled H a F A C" and p: "{p..<p + len} \<inter> C = {}" "freelist a \<notin> {p..<p + len}" "p \<noteq> 0" and len: "64 \<le> len" "32 dvd len" "32 dvd p" "card C + len < 2 ^ 34"
  shows "tiled (H(p \<mapsto> (len, m, a))) a F (insert p A) (C \<union> {p..<p + len})" "p \<notin> F \<union> A"
proof -
  let ?H = "H(p \<mapsto> (len, m, a))"
  have new: "p \<in> {p..<p + len}" using len(1) by simp
  show pn: "p \<notin> F \<union> A" using tiled_block(6) [OF t, of p] p(1) new by blast
  have 6: "tile ?H a q" if "q \<in> F \<union> insert p A" for q
  proof (cases "q = p")
    case False
    then show ?thesis using tiledD(6) [OF t, of q] that by (auto simp: tile_def)
  qed (use len in \<open>simp add: tile_def\<close>)
  have 7: "has_magic kMagicUnallocated ?H q" if "q \<in> F" for q
  proof -
    have "q \<noteq> p" using pn that by blast
    then show ?thesis using tiledD(7) [OF t that] by (auto simp: has_magic_def)
  qed
  have 8: "x + sz ?H x \<le> y" if x: "x \<in> F \<union> insert p A" and y: "y \<in> F \<union> insert p A" and xy: "x < y" for x y
  proof -
    have out: "z \<notin> {p..<p + len}" "ext H z \<inter> {p..<p + len} = {}" if "z \<in> F \<union> A" for z using tiled_block(5,6) [OF t that] p(1) by blast+
    consider (l) "x = p" "y \<in> F \<union> A" | (u) "y = p" "x \<in> F \<union> A" "x \<noteq> p" | (o) "x \<in> F \<union> A" "y \<in> F \<union> A" "x \<noteq> p" using x y xy pn by blast
    then show ?thesis
    proof cases
      case l
      then show ?thesis using out(1) [of y] xy by simp
    next
      case u
      have "p \<notin> ext H x" using out(2) [OF u(2)] new by blast
      then show ?thesis using u xy by (simp add: ext_def)
    next
      case o
      then show ?thesis using tiledD(8) [OF t, of x y] xy by simp
    qed
  qed
  have 9: "(\<Union>q\<in>F \<union> insert p A. ext ?H q) = C \<union> {p..<p + len}"
  proof -
    have "(\<Union>q\<in>F \<union> A. ext ?H q) = (\<Union>q\<in>F \<union> A. ext H q)" by (rule SUP_cong) (use pn in \<open>auto simp: ext_def\<close>)
    then have "(\<Union>q\<in>F \<union> A. ext ?H q) = C" using tiledD(9) [OF t] by simp
    moreover have "ext ?H p = {p..<p + len}" by (simp add: ext_def)
    ultimately show ?thesis by blast
  qed
  have 2: "card (C \<union> {p..<p + len}) < 2 ^ 34" using card_Un_le [of C "{p..<p + len}"] len(4) by simp
  have 1: "finite (C \<union> {p..<p + len})" using tiledD(1) [OF t] by simp
  have 3: "0 \<notin> C \<union> {p..<p + len}" "freelist a \<notin> C \<union> {p..<p + len}" "F \<inter> insert p A = {}" using tiledD(3-5) [OF t] p pn by auto
  show "tiled ?H a F (insert p A) (C \<union> {p..<p + len})" by (rule tiledI [OF 1 2 3 6 7 8 9])
qed

end
