(* ===== verification/Arena_Blocks.thy ===== *)
theory Arena_Blocks
  imports Arena_Tiles
begin

text \<open>
  The free list of an arena with the tiling of its memory: adding a block to the free list, with the coalescing of neighbours, keeps both, and leaves
  no two adjacent free blocks.
\<close>

section \<open>The state of an arena\<close>

definition hdr :: "'o lla \<Rightarrow> hdrs" where "hdr st = (\<lambda>q. map_option hfields (nodes st q))"

definition keeps :: "addr set \<Rightarrow> 'o lla \<Rightarrow> 'o lla \<Rightarrow> bool" where
  "keeps P st st' \<longleftrightarrow> (\<exists>N r. st' = st\<lparr>nodes := N, rand := r\<rparr> \<and> (\<forall>q. q \<notin> P \<longrightarrow> N q = nodes st q))"

definition arena_blocks :: "'o lla \<Rightarrow> addr \<Rightarrow> addr list \<Rightarrow> addr set \<Rightarrow> addr set \<Rightarrow> bool" where
  "arena_blocks st a xs A C \<longleftrightarrow> skip st (freelist a) xs \<and> tiled (hdr st) a (set xs) A C \<and>
     (\<forall>x\<in>set xs. lev (sz (hdr st) x) 64 \<le> lvl st x) \<and> (\<exists>ar. arenas st a = Some ar \<and> min_size ar = 64)"

text \<open>No free block ends where the next one begins.\<close>

definition gapped :: "hdrs \<Rightarrow> addr list \<Rightarrow> bool" where "gapped H xs \<longleftrightarrow> sorted_wrt (\<lambda>p q. p + sz H p < q) xs"

lemma arena_blocksD:
  assumes "arena_blocks st a xs A C"
  shows "skip st (freelist a) xs" "tiled (hdr st) a (set xs) A C" "x \<in> set xs \<Longrightarrow> lev (sz (hdr st) x) 64 \<le> lvl st x" "\<exists>ar. arenas st a = Some ar \<and> min_size ar = 64"
  using assms by (simp_all add: arena_blocks_def)

lemma keeps_refl: "keeps P st st"
  by (auto simp: keeps_def intro!: exI [of _ "nodes st"] exI [of _ "rand st"])

lemma keeps_trans:
  assumes "keeps P st st'" "keeps Q st' st''" "P \<subseteq> R" "Q \<subseteq> R"
  shows "keeps R st st''"
proof -
  obtain N r N' r' where 1: "st' = st\<lparr>nodes := N, rand := r\<rparr>" "\<forall>q. q \<notin> P \<longrightarrow> N q = nodes st q"
    and 2: "st'' = st'\<lparr>nodes := N', rand := r'\<rparr>" "\<forall>q. q \<notin> Q \<longrightarrow> N' q = nodes st' q" using assms(1,2) by (auto simp: keeps_def)
  have "N' q = nodes st q" if "q \<notin> R" for q
  proof -
    have "q \<notin> P" "q \<notin> Q" using assms(3,4) that by blast+
    then show ?thesis using 1 2(2) by simp
  qed
  then show ?thesis unfolding keeps_def using 1(1) 2(1) by (intro exI [of _ N'] exI [of _ r']) simp
qed

lemma keeps_mono: "keeps P st st' \<Longrightarrow> P \<subseteq> R \<Longrightarrow> keeps R st st'"
  using keeps_trans [OF _ keeps_refl [of R]] by blast

lemma keepsD: "keeps P st st' \<Longrightarrow> arenas st' = arenas st" "keeps P st st' \<Longrightarrow> q \<notin> P \<Longrightarrow> nodes st' q = nodes st q" "keeps P st st' \<Longrightarrow> ll_os st' = ll_os st"
  by (auto simp: keeps_def)

lemma keeps_hdr: "keeps P st st' \<Longrightarrow> q \<notin> P \<Longrightarrow> hdr st' q = hdr st q"
  using keepsD(2) [of P st st' q] by (simp add: hdr_def)

lemma keeps_node: "keeps {e} st (st\<lparr>nodes := (nodes st)(e \<mapsto> n)\<rparr>)"
  by (auto simp: keeps_def intro!: exI [of _ "(nodes st)(e \<mapsto> n)"] exI [of _ "rand st"])

lemma keeps_rand: "keeps P st (st\<lparr>rand := r\<rparr>)"
  by (auto simp: keeps_def intro!: exI [of _ "nodes st"] exI [of _ r])

lemma touchesD:
  assumes "touches P hp st st'"
  shows "hdr st' = hdr st" "q \<noteq> hp \<Longrightarrow> lvl st' q = lvl st q" "keeps P st st'" "arenas st' = arenas st"
proof -
  obtain N where N: "st' = st\<lparr>nodes := N\<rparr>" "\<forall>q. map_option hfields (N q) = map_option hfields (nodes st q)" "\<forall>q. q \<noteq> hp \<longrightarrow> lvl st' q = lvl st q" "\<forall>q. q \<notin> P \<longrightarrow> N q = nodes st q"
    using assms by (auto simp: touches_def)
  show "hdr st' = hdr st" "q \<noteq> hp \<Longrightarrow> lvl st' q = lvl st q" "arenas st' = arenas st" using N by (simp_all add: hdr_def)
  show "keeps P st st'" unfolding keeps_def using N(1,4) by (intro exI [of _ N] exI [of _ "rand st"]) simp
qed

lemma hdr_upd: "hdr (st\<lparr>nodes := (nodes st)(e \<mapsto> n)\<rparr>) = (hdr st)(e \<mapsto> hfields n)"
  by (simp add: hdr_def fun_eq_iff)

lemma hdr_rand: "hdr (st\<lparr>rand := r\<rparr>) = hdr st"
  by (simp add: hdr_def)

lemma hdr_node: "hdr st p = Some (s, m, a) \<Longrightarrow> \<exists>n. nodes st p = Some n \<and> hsize n = s \<and> magic n = m \<and> harena n = a"
  by (auto simp: hdr_def hfields_def)

lemma hdr_lv:
  assumes "nodes st e = Some n"
  shows "hdr (st\<lparr>nodes := (nodes st)(e \<mapsto> n\<lparr>lv := l\<rparr>)\<rparr>) = hdr st"
  using assms by (auto simp: hdr_upd fun_eq_iff) (simp_all add: hdr_def hfields_def)

lemma room_mono: "hsize n \<noteq> 0 \<Longrightarrow> hsize n \<le> hsize n' \<Longrightarrow> room n \<le> room n'"
  by (auto simp: room_def min_def dest: div_le_mono [where k = 8, of "hsize n - offset_next" "hsize n' - offset_next"])

lemma max_fit_room: "hsize n \<noteq> 0 \<Longrightarrow> l \<le> max_fit (hsize n) \<Longrightarrow> l < 30 \<Longrightarrow> l \<le> room n"
  by (simp add: room_def max_fit_def kMaxLevel_def)

section \<open>The skip list when other fields change\<close>

lemma skip_cong:
  assumes sk: "skip st hp xs"
    and h: "\<And>h. nodes st hp = Some h \<Longrightarrow> \<exists>h'. nodes st' hp = Some h' \<and> hsize h' = hsize h \<and> lv h' = lv h \<and> nx h' = nx h"
    and x: "\<And>x n. x \<in> set xs \<Longrightarrow> nodes st x = Some n \<Longrightarrow> \<exists>n'. nodes st' x = Some n' \<and> hsize n \<le> hsize n' \<and> lv n' = lv n \<and> nx n' = nx n"
  shows "skip st' hp xs"
proof -
  obtain g where g: "nodes st hp = Some g" "hsize g = 0" "lv g < 30" using skipD(1) [OF sk] by (auto simp: head_ok_def)
  obtain g' where g': "nodes st' hp = Some g'" "hsize g' = hsize g" "lv g' = lv g" "nx g' = nx g" using h [OF g(1)] by blast
  have hok: "head_ok st' hp" using g g' by (simp add: head_ok_def)
  have lh: "lvl st' hp = lvl st hp" "link st' i hp = link st i hp" for i using g g' by (simp_all add: lvl_def link_def)
  have nd: "node_ok st' hp y \<and> lvl st' y = lvl st y \<and> (\<forall>i. link st' i y = link st i y)" if y: "y \<in> set xs" for y
  proof -
    obtain n where n: "nodes st y = Some n" "hsize n \<noteq> 0" "1 \<le> lv n" "lv n \<le> lvl st hp" "lv n \<le> room n" using skipD(2) [OF sk y] by (auto simp: node_ok_def)
    obtain n' where n': "nodes st' y = Some n'" "hsize n \<le> hsize n'" "lv n' = lv n" "nx n' = nx n" using x [OF y n(1)] by blast
    have "room n \<le> room n'" by (rule room_mono) (use n(2) n'(2) in auto)
    then show ?thesis using n n' lh(1) by (auto simp: node_ok_def lvl_def link_def)
  qed
  have "sll (link st' i) (link st' i hp) (at_level st' i xs)" if i: "i < 30" for i
  proof -
    have "at_level st' i xs = at_level st i xs" unfolding at_level_def by (rule filter_cong) (use nd in auto)
    moreover have "sll (link st' i) (link st i hp) (at_level st i xs) = sll (link st i) (link st i hp) (at_level st i xs)" by (rule chain_cong) (use nd in \<open>auto simp: at_level_def\<close>)
    ultimately show ?thesis using skipD(7) [OF sk i] lh(2) by simp
  qed
  then show ?thesis using hok nd skipD(3-6) [OF sk] unfolding skip_def by blast
qed

lemma skip_node:
  assumes sk: "skip st hp xs" and e: "e \<in> set xs" "nodes st e = Some n" "hsize n \<le> hsize n'" "lv n' = lv n" "nx n' = nx n"
  shows "skip (st\<lparr>nodes := (nodes st)(e \<mapsto> n')\<rparr>) hp xs"
proof -
  have "e \<noteq> hp" using e(1) skipD(5) [OF sk] by metis
  then show ?thesis by (intro skip_cong [OF sk]) (use e in auto)
qed

lemma skip_other: "skip st hp xs \<Longrightarrow> e \<notin> set xs \<Longrightarrow> e \<noteq> hp \<Longrightarrow> skip (st\<lparr>nodes := (nodes st)(e \<mapsto> n')\<rparr>) hp xs"
  by (rule skip_cong) auto

lemma skip_rand: "skip st hp xs \<Longrightarrow> skip (st\<lparr>rand := r\<rparr>) hp xs"
  by (rule skip_cong) auto

lemma lvl_upd: "lvl (st\<lparr>nodes := (nodes st)(e \<mapsto> n)\<rparr>) q = (if q = e then lv n else lvl st q)"
  by (simp add: lvl_def)

lemma lvl_rand: "lvl (st\<lparr>rand := r\<rparr>) q = lvl st q"
  by (simp add: lvl_def)

lemma next_free:
  assumes "skip st hp (as @ p # bs)"
  shows "rd_next p 0 st = Inr (case bs of [] \<Rightarrow> 0 | b # _ \<Rightarrow> b)"
proof -
  have "sll (link st 0) (link st 0 hp) (as @ p # bs)" using skipD(7) [OF assms, of 0] at_level_0 [OF assms] by simp
  then have "link st 0 p = (case bs of [] \<Rightarrow> 0 | b # _ \<Rightarrow> b)" by (cases bs) auto
  moreover have "node_ok st hp p" by (rule skipD(2) [OF assms]) simp
  ultimately show ?thesis using rd_node [of st hp p 0] node_lvl [of st hp p] by simp
qed

lemma filter_remove: "distinct (us @ e # vs) \<Longrightarrow> filter (\<lambda>x. x \<noteq> e) (us @ e # vs) = us @ vs"
proof -
  assume d: "distinct (us @ e # vs)"
  have "filter (\<lambda>x. x \<noteq> e) us = us" "filter (\<lambda>x. x \<noteq> e) vs = vs" using d by (auto simp: filter_id_conv)
  then show ?thesis by simp
qed

section \<open>Coalescing\<close>

lemma Coalesce_merge:
  assumes blk: "arena_blocks st a (as @ p # n # cs) A C" and adj: "n = p + sz (hdr st) p"
  defines "H \<equiv> (hdr st)(p \<mapsto> (sz (hdr st) p + sz (hdr st) n, Magic kMagicUnallocated p, a), n \<mapsto> (sz (hdr st) n, 0, 0))"
  shows "\<exists>st'. Coalesce p st = Inr st' \<and> arena_blocks st' a (as @ p # cs) A C \<and> keeps (insert (freelist a) (set (as @ p # n # cs))) st st' \<and> hdr st' = H"
proof -
  let ?xs = "as @ p # n # cs" let ?hp = "freelist a" let ?F = "insert (freelist a) (set ?xs)"
  note sk = arena_blocksD(1) [OF blk] and t = arena_blocksD(2) [OF blk]
  have P: "p \<in> set ?xs \<union> A" and N: "n \<in> set ?xs \<union> A" by simp_all
  have pn: "p \<noteq> n" "n \<noteq> 0" "p \<noteq> ?hp" "n \<noteq> ?hp" using tiled_block [OF t P] tiled_block [OF t N] adj by auto
  obtain m where "hdr st p = Some (sz (hdr st) p, m, a)" using tiled_block(4) [OF t P] by blast
  moreover have "has_magic kMagicUnallocated (hdr st) p" by (rule tiledD(7) [OF t]) simp
  ultimately obtain np where np: "nodes st p = Some np" "hsize np = sz (hdr st) p" "magic np = Magic kMagicUnallocated p" "harena np = a" using hdr_node [of st p] by (auto simp: has_magic_def)
  obtain m' where "hdr st n = Some (sz (hdr st) n, m', a)" using tiled_block(4) [OF t N] by blast
  then obtain nn where nn: "nodes st n = Some nn" "hsize nn = sz (hdr st) n" using hdr_node [of st n] by blast
  define st1 where "st1 = st\<lparr>nodes := (nodes st)(p \<mapsto> np\<lparr>hsize := hsize np + hsize nn\<rparr>)\<rparr>"
  have nn1: "nodes st1 n = Some nn" using nn(1) pn(1) by (simp add: st1_def)
  define st2 where "st2 = st1\<lparr>nodes := (nodes st1)(n \<mapsto> nn\<lparr>magic := 0, harena := 0\<rparr>)\<rparr>"
  have sk1: "skip st1 ?hp ?xs" unfolding st1_def by (rule skip_node [OF sk _ np(1)]) simp_all
  have sk2: "skip st2 ?hp ?xs" unfolding st2_def by (rule skip_node [OF sk1 _ nn1]) simp_all
  have h2: "hdr st2 = H" unfolding st2_def st1_def H_def by (simp only: hdr_upd) (simp add: hfields_def np nn)
  have k1: "keeps {p} st st1" "keeps {n} st1 st2" unfolding st2_def by (simp_all only: st1_def keeps_node)
  have k2: "keeps ?F st st2" by (rule keeps_trans [OF k1]) auto
  have dist: "distinct ?xs" using skipD(3) [OF sk] strict_sorted_iff by blast
  have f1: "filter (\<lambda>x. x \<noteq> n) ?xs = as @ p # cs" using filter_remove [of "as @ [p]" n cs] dist by simp
  have f2: "filter (\<lambda>x. x \<noteq> p) (as @ p # cs) = as @ cs" using filter_remove [of as p cs] dist by simp
  obtain pr3 st3 where st3: "LLA_SkiplistDelete ?hp n no_prev st2 = Inr (pr3, st3)" "skip st3 ?hp (as @ p # cs)" "touches ?F ?hp st2 st3" using SkipDelete_run [OF sk2, of n no_prev] f1 by auto
  obtain pr4 st4 where st4: "LLA_SkiplistDelete ?hp p pr3 st3 = Inr (pr4, st4)" "skip st4 ?hp (as @ cs)" "touches (insert ?hp (set (as @ p # cs))) ?hp st3 st4" using SkipDelete_run [OF st3(2), of p pr3] f2 by auto
  have h4: "hdr st4 = H" using touchesD(1) [OF st3(3)] touchesD(1) [OF st4(3)] h2 by simp
  have k4: "keeps ?F st st4" by (rule keeps_trans [OF k2 keeps_trans [OF touchesD(3) [OF st3(3)] touchesD(3) [OF st4(3)], of ?F]]) auto
  have t': "tiled H a (set ?xs - {n}) A C" unfolding H_def by (rule tiled_merge [OF t]) (use adj in simp_all)
  have s': "set ?xs - {n} = set (as @ p # cs)" using dist by auto
  have szp: "sz H p = sz (hdr st) p + sz (hdr st) n" using pn(1) by (simp add: H_def)
  have big: "64 \<le> sz H p" "sz H p < 2 ^ 34" using tiled_block(1,7) [OF t', of p] s' by auto
  have "hdr st4 p = Some (sz H p, Magic kMagicUnallocated p, a)" using h4 szp pn(1) by (simp add: H_def)
  then obtain n4 where n4: "nodes st4 p = Some n4" "hsize n4 = sz H p" using hdr_node by blast
  obtain ar where ar: "arenas st a = Some ar" "min_size ar = 64" using arena_blocksD(4) [OF blk] by blast
  have ar4: "arenas st4 a = Some ar" using keepsD(1) [OF k4] ar(1) by simp
  have s48: "48 \<le> sz H p" using big(1) by simp
  obtain l r where l: "LLA_SkiplistLevels (sz H p) 64 True st4 = Inr (l, st4\<lparr>rand := r\<rparr>)" "lev (sz H p) 64 \<le> l" "l < 30" "l \<le> max_fit (sz H p)"
    using Levels_run(2) [OF s48 big(2), of 64 st4] by blast
  define st5 where "st5 = st4\<lparr>rand := r\<rparr>"
  have n5: "nodes st5 p = Some n4" using n4(1) by (simp add: st5_def)
  define st6 where "st6 = st5\<lparr>nodes := (nodes st5)(p \<mapsto> n4\<lparr>lv := l\<rparr>)\<rparr>"
  have pnot: "p \<notin> set (as @ cs)" using dist by simp
  have sk5: "skip st5 ?hp (as @ cs)" unfolding st5_def by (rule skip_rand [OF st4(2)])
  have sk6: "skip st6 ?hp (as @ cs)" unfolding st6_def by (rule skip_other [OF sk5 pnot pn(3)])
  have n6: "nodes st6 p = Some (n4\<lparr>lv := l\<rparr>)" by (simp add: st6_def)
  have "1 \<le> l" using lev_bounds(1) [OF s48] l(2) le_trans by blast
  moreover have "l \<le> room n4" by (rule max_fit_room) (use l n4(2) big(1) in auto)
  moreover have "room (n4\<lparr>lv := l\<rparr>) = room n4" by (simp add: room_def)
  ultimately obtain pr7 st7 where st7: "LLA_SkiplistInsert ?hp p pr4 st6 = Inr (pr7, st7)" "skip st7 ?hp (lower p (as @ cs) @ p # upper p (as @ cs))" "touches (insert ?hp (insert p (set (as @ cs)))) ?hp st6 st7"
    using SkipInsert_run [OF sk6 n6 _ _ _ _ pnot pn(3), of pr4] l(3) n4(2) big(1) tiled_block(8) [OF t P] by auto
  have srt: "sorted_wrt (<) (as @ p # n # cs)" by (rule skipD(3) [OF sk])
  have "lower p as = as" "lower p cs = []" "upper p as = []" "upper p cs = cs"
    using srt by (auto simp: sorted_wrt_append filter_id_conv filter_empty_conv)
  then have sk7: "skip st7 ?hp (as @ p # cs)" using st7(2) by simp
  have h6: "hdr st6 = H" unfolding st6_def using hdr_lv [OF n5] h4 by (simp add: st5_def hdr_rand)
  have h7: "hdr st7 = H" using touchesD(1) [OF st7(3)] h6 by simp
  have k5: "keeps {p} st4 st5" "keeps {p} st5 st6" unfolding st6_def by (simp_all only: st5_def keeps_rand keeps_node)
  have k6: "keeps ?F st st6" by (rule keeps_trans [OF k4 keeps_trans [OF k5, of ?F]]) auto
  have k7: "keeps ?F st st7" by (rule keeps_trans [OF k6 touchesD(3) [OF st7(3)]]) auto
  have lv7: "lev (sz (hdr st7) x) 64 \<le> lvl st7 x" if x: "x \<in> set (as @ p # cs)" for x
  proof (cases "x = p")
    case True
    then show ?thesis using touchesD(2) [OF st7(3) pn(3)] l(2) h7 by (simp add: st6_def lvl_upd)
  next
    case False
    have xx: "x \<in> set ?xs" "x \<noteq> n" "x \<noteq> ?hp" using x dist skipD(5) [OF sk] by auto
    have "lvl st6 x = lvl st4 x" "lvl st2 x = lvl st x" using False xx(2) by (simp_all add: lvl_def st6_def st5_def st2_def st1_def)
    then have "lvl st7 x = lvl st x" using touchesD(2) [OF st7(3) xx(3)] touchesD(2) [OF st4(3) xx(3)] touchesD(2) [OF st3(3) xx(3)] by simp
    moreover have "sz H x = sz (hdr st) x" using False xx(2) by (simp add: H_def)
    ultimately show ?thesis using arena_blocksD(3) [OF blk xx(1)] h7 by simp
  qed
  have "arena_blocks st7 a (as @ p # cs) A C" unfolding arena_blocks_def using sk7 t' h7 s' lv7 keepsD(1) [OF k7] arena_blocksD(4) [OF blk] by simp
  moreover have "Coalesce p st = Inr st7"
  proof -
    have "rd_next p 0 st = Inr n" using next_free [OF sk] by simp
    moreover have "on_node p (\<lambda>x. x\<lparr>hsize := hsize x + hsize nn\<rparr>) st = Inr st1" using np(1) by (simp add: on_node_def get_node_def at_ptr_def st1_def)
    moreover have "on_node n (\<lambda>x. x\<lparr>magic := 0, harena := 0\<rparr>) st1 = Inr st2" using nn1 by (simp add: on_node_def get_node_def at_ptr_def st2_def)
    moreover have "on_node p (\<lambda>x. x\<lparr>lv := l\<rparr>) st5 = Inr st6" using n5 by (simp add: on_node_def get_node_def at_ptr_def st6_def)
    moreover have "get_node p st = Inr np" "get_node n st = Inr nn" "get_node p st4 = Inr n4" "get_arena a st4 = Inr ar" using np(1) nn(1) n4(1) ar4 by (simp_all add: get_node_def at_ptr_def get_arena_def)
    ultimately show ?thesis using pn(2) adj np(2,4) st3(1) st4(1) n4(2) l(1) st7(1) ar(2) by (simp add: Coalesce_def Let_def st5_def)
  qed
  ultimately show ?thesis using k7 h7 by blast
qed

lemma Coalesce_run:
  assumes blk: "arena_blocks st a (as @ p # bs) A C" and g: "gapped (hdr st) bs"
  shows "\<exists>st' bs'. Coalesce p st = Inr st' \<and> arena_blocks st' a (as @ p # bs') A C \<and> keeps (insert (freelist a) (set (as @ p # bs))) st st' \<and>
    gapped (hdr st') (p # bs') \<and> (\<forall>q. q \<notin> set (p # bs) \<longrightarrow> hdr st' q = hdr st q) \<and> set bs' \<subseteq> set bs \<and>
    (\<forall>b\<in>set (p # bs). \<exists>x\<in>set (p # bs'). sz (hdr st) b \<le> sz (hdr st') x)"
proof -
  let ?H = "hdr st"
  note sk = arena_blocksD(1) [OF blk] and t = arena_blocksD(2) [OF blk]
  have after: "p + sz ?H p \<le> b" if "b \<in> set bs" for b
  proof (rule tiledD(8) [OF t])
    show "p < b" using skipD(3) [OF sk] that by (simp add: sorted_wrt_append)
  qed (use that in auto)
  have run: "Coalesce p st = Inr st" if c: "bs = [] \<or> p + sz ?H p < hd bs"
  proof -
    have P: "p \<in> set (as @ p # bs) \<union> A" by simp
    obtain m where "?H p = Some (sz ?H p, m, a)" using tiled_block(4) [OF t P] by blast
    then obtain np where np: "nodes st p = Some np" "hsize np = sz ?H p" using hdr_node by blast
    show ?thesis using next_free [OF sk] np c by (cases bs) (simp_all add: Coalesce_def get_node_def at_ptr_def)
  qed
  show ?thesis
  proof (cases bs)
    case Nil
    then show ?thesis using run blk keeps_refl by (intro exI [of _ st] exI [of _ "[]"]) (simp add: gapped_def)
  next
    case (Cons n cs)
    have gn: "gapped ?H (n # cs)" using g Cons by simp
    show ?thesis
    proof (cases "p + sz ?H p = n")
      case False
      then have lt: "p + sz ?H p < n" using after Cons by force
      moreover have "n < c" if "c \<in> set cs" for c using skipD(3) [OF sk] Cons that by (simp add: sorted_wrt_append)
      ultimately have "gapped ?H (p # bs)" using gn Cons unfolding gapped_def by (auto intro: less_trans)
      then show ?thesis using run lt Cons blk keeps_refl [of "insert (freelist a) (set (as @ p # bs))" st] by (intro exI [of _ st] exI [of _ bs]) auto
    next
      case True
      let ?K = "?H(p \<mapsto> (sz ?H p + sz ?H n, Magic kMagicUnallocated p, a), n \<mapsto> (sz ?H n, 0, 0))"
      obtain st' where st': "Coalesce p st = Inr st'" "arena_blocks st' a (as @ p # cs) A C" "keeps (insert (freelist a) (set (as @ p # n # cs))) st st'" "hdr st' = ?K"
        using Coalesce_merge [OF blk [unfolded Cons] True [symmetric]] by blast
      have srt: "sorted_wrt (<) (as @ p # n # cs)" using skipD(3) [OF sk] Cons by simp
      then have pn: "p \<noteq> n" "p \<notin> set cs" "n \<notin> set cs" unfolding sorted_wrt_append by auto
      have "sz ?K c = sz ?H c" if "c \<in> set cs" for c using that pn by auto
      then have "sorted_wrt (\<lambda>p q. p + sz ?K p < q) cs" using gn sorted_wrt_mono_rel [of cs "\<lambda>p q. p + sz ?H p < q"] by (simp add: gapped_def)
      moreover have "p + sz ?K p < c" if "c \<in> set cs" for c using gn that True pn(1) by (auto simp: gapped_def)
      ultimately have "gapped (hdr st') (p # cs)" using st'(4) by (simp add: gapped_def)
      moreover have "\<forall>q. q \<notin> set (p # bs) \<longrightarrow> hdr st' q = hdr st q" using st'(4) Cons by auto
      moreover have "\<exists>x\<in>set (p # cs). sz ?H b \<le> sz (hdr st') x" if "b \<in> set (p # bs)" for b
        using st'(4) Cons pn that by (cases "b = n") auto
      moreover have "set cs \<subseteq> set bs" using Cons by auto
      ultimately show ?thesis using st'(1-3) Cons by blast
    qed
  qed
qed

lemma Coalesce_head:
  assumes "arena_blocks st a xs A C"
  shows "Coalesce (freelist a) st = Inr st"
proof -
  let ?hp = "freelist a"
  obtain h where h: "nodes st ?hp = Some h" "hsize h = 0" using skipD(1) [OF arena_blocksD(1) [OF assms]] by (auto simp: head_ok_def)
  have rd: "rd_next ?hp 0 st = Inr (link st 0 ?hp)" by (rule rd_head [OF skipD(1) [OF arena_blocksD(1) [OF assms]]]) simp
  have "sll (link st 0) (link st 0 ?hp) xs" using skipD(7) [OF arena_blocksD(1) [OF assms], of 0] at_level_0 [OF arena_blocksD(1) [OF assms]] by simp
  then have "link st 0 ?hp = 0 \<or> link st 0 ?hp \<in> set xs" by (cases xs) auto
  then have "link st 0 ?hp = 0 \<or> link st 0 ?hp \<noteq> ?hp" using skipD(5) [OF arena_blocksD(1) [OF assms]] by metis
  then show ?thesis using h rd by (elim disjE) (simp_all add: Coalesce_def get_node_def at_ptr_def)
qed

section \<open>Adding a tile to the free list\<close>

text \<open>The block is in the list, with its new magic number, before it is coalesced.\<close>

definition free_linked :: "addr \<Rightarrow> addr \<Rightarrow> 'o lla \<Rightarrow> ((nat \<Rightarrow> addr) \<times> 'o lla) res" where
  "free_linked f arena st =
     bind_res (get_node f st) (\<lambda>n.
     bind_res (raw_check (magic n = Magic kMagicAllocated f)) (\<lambda>_.
     bind_res (raw_check (harena n = arena)) (\<lambda>_.
     bind_res (get_arena arena st) (\<lambda>ar.
     bind_res (LLA_SkiplistLevels (hsize n) (min_size ar) True st) (\<lambda>(l, st).
     bind_res (on_node f (\<lambda>x. x\<lparr>lv := l\<rparr>) st) (\<lambda>st.
     bind_res (LLA_SkiplistInsert (freelist arena) f no_prev st) (\<lambda>(prev, st).
     bind_res (on_node f (\<lambda>x. x\<lparr>magic := Magic kMagicUnallocated f\<rparr>) st) (\<lambda>st.
     Inr (prev, st)))))))))"

lemma AddToFreelist_alt:
  "AddToFreelist (f + 32) arena st = bind_res (free_linked f arena st) (\<lambda>(prev, st). bind_res (Coalesce f st) (Coalesce (prev 0)))"
  by (simp add: AddToFreelist_def free_linked_def sizeof_Header_def bind_res_assoc split_def)

lemma free_linked_run:
  assumes blk: "arena_blocks st a xs A C" and f: "f \<in> A" "has_magic kMagicAllocated (hdr st) f"
  shows "\<exists>prev st'. free_linked f a st = Inr (prev, st') \<and> prev 0 = last (freelist a # lower f xs) \<and> arena_blocks st' a (lower f xs @ f # upper f xs) (A - {f}) C \<and>
    keeps (insert (freelist a) (insert f (set xs))) st st' \<and> hdr st' = (hdr st)(f \<mapsto> (sz (hdr st) f, Magic kMagicUnallocated f, a))"
proof -
  let ?hp = "freelist a" let ?F = "insert (freelist a) (insert f (set xs))" let ?H = "(hdr st)(f \<mapsto> (sz (hdr st) f, Magic kMagicUnallocated f, a))"
  let ?s = "sz (hdr st) f" let ?zs = "lower f xs @ f # upper f xs"
  note sk = arena_blocksD(1) [OF blk] and t = arena_blocksD(2) [OF blk]
  have fA: "f \<in> set xs \<union> A" using f(1) by simp
  note B = tiled_block [OF t fA]
  obtain n where n: "nodes st f = Some n" "hsize n = ?s" "magic n = Magic kMagicAllocated f" "harena n = a"
    using B(4) f(2) hdr_node [of st f] by (fastforce simp: has_magic_def)
  have fx: "f \<notin> set xs" using tiledD(5) [OF t] f(1) by blast
  have s48: "48 \<le> ?s" using B(1) by simp
  obtain ar where ar: "arenas st a = Some ar" "min_size ar = 64" using arena_blocksD(4) [OF blk] by blast
  obtain l r where l: "LLA_SkiplistLevels ?s 64 True st = Inr (l, st\<lparr>rand := r\<rparr>)" "lev ?s 64 \<le> l" "l < 30" "l \<le> max_fit ?s"
    using Levels_run(2) [OF s48 B(7), of 64 st] by blast
  define st1 where "st1 = st\<lparr>rand := r\<rparr>"
  define st2 where "st2 = st1\<lparr>nodes := (nodes st1)(f \<mapsto> n\<lparr>lv := l\<rparr>)\<rparr>"
  have n1: "nodes st1 f = Some n" using n(1) by (simp add: st1_def)
  have sk2: "skip st2 ?hp xs" unfolding st2_def by (rule skip_other [OF _ fx B(9)]) (simp only: st1_def skip_rand [OF sk])
  have n2: "nodes st2 f = Some (n\<lparr>lv := l\<rparr>)" by (simp add: st2_def)
  have "1 \<le> l" using lev_bounds(1) [OF s48] l(2) le_trans by blast
  moreover have "l \<le> room n" by (rule max_fit_room) (use l n(2) B(1) in auto)
  moreover have "room (n\<lparr>lv := l\<rparr>) = room n" by (simp add: room_def)
  ultimately obtain prev st3 where st3: "LLA_SkiplistInsert ?hp f no_prev st2 = Inr (prev, st3)" "skip st3 ?hp ?zs" "prev 0 = last (?hp # lower f xs)" "touches ?F ?hp st2 st3"
    using SkipInsert_run [OF sk2 n2 _ _ _ _ fx B(9,8), of no_prev] l(3) n(2) B(1) by auto
  have h2: "hdr st2 = hdr st" unfolding st2_def using hdr_lv [OF n1] by (simp add: st1_def hdr_rand)
  have h3: "hdr st3 = hdr st" using touchesD(1) [OF st3(4)] h2 by simp
  have "hdr st3 f = Some (?s, Magic kMagicAllocated f, a)" using n h3 by (simp add: hdr_def hfields_def)
  then obtain n3 where n3: "nodes st3 f = Some n3" "hsize n3 = ?s" "harena n3 = a" using hdr_node by blast
  define st4 where "st4 = st3\<lparr>nodes := (nodes st3)(f \<mapsto> n3\<lparr>magic := Magic kMagicUnallocated f\<rparr>)\<rparr>"
  have sk4: "skip st4 ?hp ?zs" unfolding st4_def by (rule skip_node [OF st3(2) _ n3(1)]) simp_all
  have h4: "hdr st4 = ?H" unfolding st4_def by (simp only: hdr_upd h3) (simp add: hfields_def n3)
  have k: "keeps {f} st st1" "keeps {f} st1 st2" unfolding st2_def by (simp_all only: st1_def keeps_rand keeps_node)
  have k2: "keeps ?F st st2" by (rule keeps_trans [OF k]) auto
  have k3: "keeps ?F st st3" by (rule keeps_trans [OF k2 touchesD(3) [OF st3(4)]]) auto
  have k4: "keeps ?F st st4" unfolding st4_def by (rule keeps_trans [OF k3 keeps_node]) auto
  have setz: "set ?zs = insert f (set xs)" by auto
  have lv4: "lev (sz (hdr st4) x) 64 \<le> lvl st4 x" if x: "x \<in> set ?zs" for x
  proof -
    have hx: "x \<noteq> ?hp" using x setz B(9) skipD(5) [OF sk] by auto
    have s4: "sz (hdr st4) x = sz (hdr st) x" using h4 by simp
    have "lvl st4 x = lvl st3 x" using n3(1) by (simp add: st4_def lvl_upd) (simp add: lvl_def)
    moreover have "lvl st2 x = (if x = f then l else lvl st x)" by (simp add: lvl_def st2_def st1_def)
    ultimately have "lvl st4 x = (if x = f then l else lvl st x)" using touchesD(2) [OF st3(4) hx] by simp
    then show ?thesis using s4 l(2) arena_blocksD(3) [OF blk] x setz by auto
  qed
  have t4: "tiled (hdr st4) a (set ?zs) (A - {f}) C" using tiled_free [OF t f(1)] unfolding h4 setz .
  have b4: "arena_blocks st4 a ?zs (A - {f}) C" unfolding arena_blocks_def using sk4 t4 lv4 keepsD(1) [OF k4] arena_blocksD(4) [OF blk] by simp
  have "free_linked f a st = Inr (prev, st4)"
  proof -
    have "on_node f (\<lambda>x. x\<lparr>lv := l\<rparr>) st1 = Inr st2" using n1 by (simp add: on_node_def get_node_def at_ptr_def st2_def)
    moreover have "on_node f (\<lambda>x. x\<lparr>magic := Magic kMagicUnallocated f\<rparr>) st3 = Inr st4" using n3(1) by (simp add: on_node_def get_node_def at_ptr_def st4_def)
    moreover have "get_node f st = Inr n" "get_arena a st = Inr ar" using n(1) ar(1) by (simp_all add: get_node_def at_ptr_def get_arena_def)
    ultimately show ?thesis using n(2-4) ar(2) l(1) st3(1) by (simp add: free_linked_def raw_check_def st1_def)
  qed
  then show ?thesis using st3(3) b4 k4 h4 by blast
qed

lemma gapped_cong: "gapped H xs \<Longrightarrow> (\<And>x. x \<in> set xs \<Longrightarrow> H' x = H x) \<Longrightarrow> gapped H' xs"
  unfolding gapped_def by (erule sorted_wrt_mono_rel [rotated]) (simp add: sz_def)

lemma gapped_filter: "gapped H xs \<Longrightarrow> gapped H (filter P xs)"
  by (simp add: gapped_def sorted_wrt_filter)

lemma AddToFreelist_run:
  assumes blk: "arena_blocks st a xs A C" and g: "gapped (hdr st) xs" and f: "f \<in> A" "has_magic kMagicAllocated (hdr st) f"
  shows "\<exists>st' xs'. AddToFreelist (f + 32) a st = Inr st' \<and> arena_blocks st' a xs' (A - {f}) C \<and> gapped (hdr st') xs' \<and>
    keeps (insert (freelist a) (insert f (set xs))) st st' \<and> (\<exists>x\<in>set xs'. sz (hdr st) f \<le> sz (hdr st') x)"
proof -
  let ?hp = "freelist a" let ?F = "insert (freelist a) (insert f (set xs))" let ?lo = "lower f xs" let ?up = "upper f xs"
  obtain prev st1 where st1: "free_linked f a st = Inr (prev, st1)" "prev 0 = last (?hp # ?lo)" "arena_blocks st1 a (?lo @ f # ?up) (A - {f}) C"
      "keeps ?F st st1" "hdr st1 = (hdr st)(f \<mapsto> (sz (hdr st) f, Magic kMagicUnallocated f, a))"
    using free_linked_run [OF blk f] by blast
  have fx: "f \<notin> set xs" using tiledD(5) [OF arena_blocksD(2) [OF blk]] f(1) by blast
  have h1: "hdr st1 x = hdr st x" if "x \<in> set xs" for x using st1(5) that fx by auto
  have "gapped (hdr st1) ?up" by (rule gapped_cong [OF gapped_filter [OF g]]) (use h1 in auto)
  from Coalesce_run [OF st1(3) this] obtain st2 ys where st2: "Coalesce f st1 = Inr st2" "arena_blocks st2 a (?lo @ f # ys) (A - {f}) C"
      "keeps (insert ?hp (set (?lo @ f # ?up))) st1 st2" "gapped (hdr st2) (f # ys)" "\<forall>q. q \<notin> set (f # ?up) \<longrightarrow> hdr st2 q = hdr st1 q" "set ys \<subseteq> set ?up" "\<forall>b\<in>set (f # ?up). \<exists>x\<in>set (f # ys). sz (hdr st1) b \<le> sz (hdr st2) x" by blast
  then obtain y where y: "y \<in> set (f # ys)" "sz (hdr st1) f \<le> sz (hdr st2) y" by auto
  have k2: "keeps ?F st st2" by (rule keeps_trans [OF st1(4) st2(3)]) auto
  have szf: "sz (hdr st1) f = sz (hdr st) f" using st1(5) by simp
  have lo: "gapped (hdr st2) ?lo"
  proof (rule gapped_cong [OF gapped_filter [OF g]])
    fix x assume "x \<in> set ?lo"
    then have "x \<in> set xs" "x \<notin> set (f # ?up)" by auto
    then show "hdr st2 x = hdr st x" using st2(5) h1 by simp
  qed
  show ?thesis
  proof (cases ?lo rule: rev_cases)
    case Nil
    have "Coalesce (prev 0) st2 = Inr st2" using Coalesce_head [OF st2(2)] st1(2) Nil by simp
    then have "AddToFreelist (f + 32) a st = Inr st2" using st1(1) st2(1) by (simp add: AddToFreelist_alt)
    moreover have "\<exists>x\<in>set (f # ys). sz (hdr st) f \<le> sz (hdr st2) x" using y szf by auto
    ultimately show ?thesis using st2(2,4) k2 Nil by (intro exI [of _ st2] exI [of _ "f # ys"]) simp
  next
    case (snoc us p)
    have b2: "arena_blocks st2 a (us @ p # f # ys) (A - {f}) C" using st2(2) snoc by simp
    from Coalesce_run [OF b2 st2(4)] obtain st3 zs where st3: "Coalesce p st2 = Inr st3" "arena_blocks st3 a (us @ p # zs) (A - {f}) C" "keeps (insert ?hp (set (us @ p # f # ys))) st2 st3"
        "gapped (hdr st3) (p # zs)" "\<forall>q. q \<notin> set (p # f # ys) \<longrightarrow> hdr st3 q = hdr st2 q" "set zs \<subseteq> set (f # ys)" "\<forall>b\<in>set (p # f # ys). \<exists>x\<in>set (p # zs). sz (hdr st2) b \<le> sz (hdr st3) x" by blast
    have srt: "sorted_wrt (<) (us @ p # f # ys)" by (rule skipD(3) [OF arena_blocksD(1) [OF b2]])
    have run: "AddToFreelist (f + 32) a st = Inr st3" using st1(1,2) st2(1) st3(1) snoc by (simp add: AddToFreelist_alt)
    have us: "u \<notin> set (p # f # ys)" if "u \<in> set us" for u using srt that by (auto simp: sorted_wrt_append)
    have gus: "gapped (hdr st3) us"
      by (rule gapped_cong [of "hdr st2"]) (use lo snoc st3(5) us in \<open>auto simp: gapped_def sorted_wrt_append\<close>)
    have before: "u + sz (hdr st3) u < p" if u: "u \<in> set us" for u
    proof -
      have "sz (hdr st3) u = sz (hdr st2) u" using st3(5) us [OF u] by (simp add: sz_def)
      then show ?thesis using lo snoc u by (simp add: gapped_def sorted_wrt_append)
    qed
    have pz: "p < z" if "z \<in> set zs" for z using st3(6) srt that by (auto simp: sorted_wrt_append)
    have "gapped (hdr st3) (us @ p # zs)" using gus st3(4) before pz unfolding gapped_def sorted_wrt_append by (auto intro: less_trans)
    moreover have k3: "keeps ?F st st3"
    proof (rule keeps_trans [OF k2 st3(3)])
      have "set ?lo = set (us @ [p])" using snoc by simp
      moreover have "set ?lo \<subseteq> set xs" "set ys \<subseteq> set xs" using st2(6) by auto
      ultimately have "set (us @ p # f # ys) \<subseteq> insert f (set xs)" by auto
      then show "insert ?hp (set (us @ p # f # ys)) \<subseteq> ?F" by blast
    qed simp
    moreover have "\<exists>x\<in>set (us @ p # zs). sz (hdr st) f \<le> sz (hdr st3) x"
    proof -
      have "y \<in> set (p # f # ys)" using y(1) by auto
      then obtain x where "x \<in> set (p # zs)" "sz (hdr st2) y \<le> sz (hdr st3) x" using st3(7) by blast
      then show ?thesis using y(2) szf by (intro bexI [of _ x]) auto
    qed
    ultimately show ?thesis using run st3(2) by blast
  qed
qed

end
