(* ===== verification/Arena_Alloc.thy ===== *)
theory Arena_Alloc
  imports Arena_Blocks System_Alloc_Correct
begin

text \<open>
  Allocation and release in an arena.  The search finds the first free block that is large enough; a block that \<open>DoAllocWithArena\<close> returns is
  part of the memory of the arena and of no other allocated block.
\<close>

section \<open>First fit\<close>

definition first_fit :: "hdrs \<Rightarrow> nat \<Rightarrow> addr list \<Rightarrow> addr" where
  "first_fit H req xs = (case filter (\<lambda>x. req \<le> sz H x) xs of [] \<Rightarrow> 0 | x # _ \<Rightarrow> x)"

lemma free_node:
  assumes blk: "arena_blocks st a xs A C" and x: "x \<in> set xs"
  obtains n where "nodes st x = Some n" "hsize n = sz (hdr st) x" "magic n = Magic kMagicUnallocated x" "harena n = a"
proof -
  note t = arena_blocksD(2) [OF blk]
  obtain m where "hdr st x = Some (sz (hdr st) x, m, a)" using tiled_block(4) [OF t, of x] x by blast
  moreover have "has_magic kMagicUnallocated (hdr st) x" by (rule tiledD(7) [OF t x])
  ultimately show ?thesis using that hdr_node [of st x] by (auto simp: has_magic_def)
qed

lemma Next_run:
  assumes blk: "arena_blocks st a xs A C" and g: "gapped (hdr st) xs" and i: "i < lvl st (freelist a)" and ys: "at_level st i xs = us @ ys"
  shows "lla_Next i (last (freelist a # us)) a st = Inr (case ys of [] \<Rightarrow> 0 | y # _ \<Rightarrow> y)"
proof -
  let ?hp = "freelist a" let ?p = "last (freelist a # us)"
  note sk = arena_blocksD(1) [OF blk]
  have i30: "i < 30" using i head_lvl [OF skipD(1) [OF sk]] by simp
  have us: "set us \<subseteq> set xs" and yx: "set ys \<subseteq> set xs" and ul: "u \<in> set us \<Longrightarrow> i < lvl st u" for u using arg_cong [OF ys, of set] by (auto simp: at_level_def)
  have p: "?p = ?hp \<and> us = [] \<or> ?p \<in> set us \<and> ?p \<noteq> ?hp" 
  proof (cases "us = []")
    case False
    then have "?p \<in> set us" by simp
    then show ?thesis using us skipD(5) [OF sk] by (metis subsetD)
  qed simp
  then have pl: "i < lvl st ?p" using i ul by metis
  have sll: "sll (link st i) (link st i ?hp) (us @ ys)" using skipD(7) [OF sk i30] ys by simp
  have lk: "link st i ?p = (case ys of [] \<Rightarrow> 0 | y # _ \<Rightarrow> y)"
  proof -
    obtain q where q: "chain (link st i) (link st i ?hp) us q" "sll (link st i) q ys" using sll by (auto simp: chain_append)
    have "link st i ?p = q" using chain_last [OF q(1)] q(1) by (cases "us = []") auto
    then show ?thesis using q(2) by (cases ys) auto
  qed
  have rd: "rd_next ?p i st = Inr (link st i ?p)"
  proof (cases "us = []")
    case True
    then show ?thesis using rd_head [OF skipD(1) [OF sk] i30] by simp
  next
    case False
    then have "?p \<in> set xs" using p us by auto
    then show ?thesis using rd_node [OF skipD(2) [OF sk]] pl by blast
  qed
  obtain n where n: "nodes st ?p = Some n" "lv n = lvl st ?p" "?p \<noteq> ?hp \<longrightarrow> hsize n = sz (hdr st) ?p"
  proof -
    have "lvl st ?p \<noteq> 0" using pl by simp
    then obtain n where n: "nodes st ?p = Some n" by (cases "nodes st ?p") (auto simp: lvl_def)
    have "lv n = lvl st ?p" "hsize n = sz (hdr st) ?p" using n by (simp_all add: lvl_def sz_def hdr_def hfields_def)
    then show ?thesis using that n by blast
  qed
  show ?thesis
  proof (cases ys)
    case Nil
    then show ?thesis using rd lk n pl by (simp add: lla_Next_def get_node_def at_ptr_def raw_check_def)
  next
    case (Cons y zs)
    have y: "y \<in> set xs" using yx Cons by simp
    obtain m where m: "nodes st y = Some m" "magic m = Magic kMagicUnallocated y" "harena m = a" by (rule free_node [OF blk y])
    have "y \<noteq> 0" using y skipD(4) [OF sk] by metis
    moreover have "?p < y \<and> ?p + sz (hdr st) ?p < y" if "?p \<noteq> ?hp"
    proof -
      have "?p \<in> set us" using p that by blast
      moreover have "gapped (hdr st) (us @ ys)" using gapped_filter [OF g] ys by (metis at_level_def)
      ultimately have "?p + sz (hdr st) ?p < y" using Cons by (auto simp: gapped_def sorted_wrt_append)
      then show ?thesis by simp
    qed
    ultimately show ?thesis using rd lk n pl m Cons by (simp add: lla_Next_def get_node_def at_ptr_def raw_check_def)
  qed
qed

lemma fit_loop_run:
  assumes blk: "arena_blocks st a xs A C" and g: "gapped (hdr st) xs" and i: "i < lvl st (freelist a)"
  shows "at_level st i xs = us @ ys \<Longrightarrow> fit_loop i a req (last (freelist a # us)) st = Some (Inr (first_fit (hdr st) req ys))"
proof (induction ys arbitrary: us)
  case Nil
  then show ?case using Next_run [OF blk g i Nil] by (subst fit_loop.simps) (simp add: first_fit_def)
next
  case (Cons y ys)
  have y: "y \<in> set xs" using arg_cong [OF Cons.prems, of set] by (auto simp: at_level_def)
  obtain n where n: "nodes st y = Some n" "hsize n = sz (hdr st) y" by (rule free_node [OF blk y])
  have y0: "y \<noteq> 0" using y skipD(4) [OF arena_blocksD(1) [OF blk]] by metis
  have "fit_loop i a req y st = Some (Inr (first_fit (hdr st) req ys))" using Cons.IH [of "us @ [y]"] Cons.prems by simp
  then show ?case using Next_run [OF blk g i Cons.prems] n y0 by (subst fit_loop.simps) (simp add: first_fit_def)
qed

lemma find_fit_run:
  assumes blk: "arena_blocks st a xs A C" and g: "gapped (hdr st) xs" and req: "48 \<le> req" "req < 2 ^ 34"
  shows "find_fit a req st = Inr (first_fit (hdr st) req xs)"
proof -
  let ?hp = "freelist a" let ?l = "lev req 64" let ?i = "lev req 64 - 1"
  note sk = arena_blocksD(1) [OF blk]
  obtain h where h: "nodes st ?hp = Some h" using skipD(1) [OF sk] by (auto simp: head_ok_def)
  have lh: "lvl st ?hp = lv h" using h by (simp add: lvl_def)
  obtain ar where ar: "arenas st a = Some ar" "min_size ar = 64" using arena_blocksD(4) [OF blk] by blast
  have l1: "1 \<le> ?l" by (rule lev_bounds(1) [OF req(1)])
  have big: "?i < lvl st x" if "x \<in> set xs" "req \<le> sz (hdr st) x" for x
    using lev_mono [OF that(2), of 64] arena_blocksD(3) [OF blk that(1)] l1 by linarith
  have run: "find_fit a req st = (if ?i < lv h then ends (fit_loop ?i a req ?hp st) else Inr 0)"
    using ar h Levels_run(1) [OF req, of 64 st] by (simp add: find_fit_def get_arena_def get_node_def at_ptr_def)
  show ?thesis
  proof (cases "?i < lv h")
    case True
    have "fit_loop ?i a req ?hp st = Some (Inr (first_fit (hdr st) req (at_level st ?i xs)))" using fit_loop_run [OF blk g, of ?i "[]"] True lh by simp
    moreover have "filter (\<lambda>x. req \<le> sz (hdr st) x) (at_level st ?i xs) = filter (\<lambda>x. req \<le> sz (hdr st) x) xs"
      unfolding at_level_def filter_filter by (rule filter_cong) (use big in auto)
    ultimately show ?thesis using run True by (simp add: ends_def first_fit_def)
  next
    case False
    have "lvl st x \<le> lv h" if "x \<in> set xs" for x using node_lvl [OF skipD(2) [OF sk that]] lh by simp
    then have "filter (\<lambda>x. req \<le> sz (hdr st) x) xs = []" using big False by (fastforce simp: filter_empty_conv)
    then show ?thesis using run False by (simp add: first_fit_def)
  qed
qed

lemma first_fit_in:
  assumes "0 \<notin> set xs"
  shows "first_fit H req xs \<noteq> 0 \<longleftrightarrow> (\<exists>x\<in>set xs. req \<le> sz H x)" "first_fit H req xs \<noteq> 0 \<Longrightarrow> first_fit H req xs \<in> set xs \<and> req \<le> sz H (first_fit H req xs)"
proof -
  have "set (filter (\<lambda>x. req \<le> sz H x) xs) = {x \<in> set xs. req \<le> sz H x}" by simp
  then show "first_fit H req xs \<noteq> 0 \<longleftrightarrow> (\<exists>x\<in>set xs. req \<le> sz H x)" "first_fit H req xs \<noteq> 0 \<Longrightarrow> first_fit H req xs \<in> set xs \<and> req \<le> sz H (first_fit H req xs)"
    using assms by (cases "filter (\<lambda>x. req \<le> sz H x) xs"; fastforce simp: first_fit_def filter_empty_conv)+
qed

section \<open>The pool of an arena\<close>

definition paged :: "nat \<Rightarrow> addr set \<Rightarrow> bool" where
  "paged pg C \<longleftrightarrow> (\<forall>b\<in>C. \<forall>c. c div pg = b div pg \<longrightarrow> c \<in> C)"

definition ready :: "'o os \<Rightarrow> addr \<Rightarrow> 'o lla \<Rightarrow> bool" where
  "ready os a st \<longleftrightarrow> (\<exists>ar. arenas st a = Some ar \<and> apagesize ar = os_getpagesize os \<and> roundup ar = 32 \<and> min_size ar = 64 \<and> aflags ar AND kAsyncSignalSafe = 0)"

definition pool :: "'o os \<Rightarrow> ('o \<Rightarrow> addr set) \<Rightarrow> addr \<Rightarrow> addr list \<Rightarrow> addr set \<Rightarrow> addr set \<Rightarrow> 'o lla \<Rightarrow> bool" where
  "pool os owned a xs A C st \<longleftrightarrow> arena_blocks st a xs A C \<and> gapped (hdr st) xs \<and> C \<subseteq> owned (ll_os st) \<and> freelist a \<in> owned (ll_os st) \<and>
     paged (os_getpagesize os) C \<and> ready os a st"

definition used :: "hdrs \<Rightarrow> addr set \<Rightarrow> addr set" where "used H A = (\<Union>p\<in>A. ext H p)"

text \<open>Nodes outside \<open>P\<close> stay, and so does all but the random number and the state of the system.\<close>

definition moves :: "addr set \<Rightarrow> 'o lla \<Rightarrow> 'o lla \<Rightarrow> bool" where
  "moves P st st' \<longleftrightarrow> (\<exists>N r s. st' = st\<lparr>nodes := N, rand := r, ll_os := s\<rparr> \<and> (\<forall>q. q \<notin> P \<longrightarrow> N q = nodes st q))"

definition lla_os :: "'o os \<Rightarrow> ('o \<Rightarrow> addr set) \<Rightarrow> bool" where
  "lla_os os owned \<longleftrightarrow> mmap_ok os owned \<and> (\<exists>k. 5 \<le> k \<and> k \<le> 16 \<and> os_getpagesize os = 2 ^ k)"

lemma poolD:
  assumes "pool os owned a xs A C st"
  shows "arena_blocks st a xs A C" "gapped (hdr st) xs" "C \<subseteq> owned (ll_os st)" "freelist a \<in> owned (ll_os st)" "paged (os_getpagesize os) C" "ready os a st"
  using assms by (simp_all add: pool_def)

lemma keeps_moves: "keeps P st st' \<Longrightarrow> moves P st st'"
proof -
  assume "keeps P st st'"
  then obtain N r where "st' = st\<lparr>nodes := N, rand := r\<rparr>" "\<forall>q. q \<notin> P \<longrightarrow> N q = nodes st q" by (auto simp: keeps_def)
  then show ?thesis unfolding moves_def by (intro exI [of _ N] exI [of _ r] exI [of _ "ll_os st"]) simp
qed

lemma moves_trans:
  assumes "moves P st st'" "moves Q st' st''" "P \<subseteq> R" "Q \<subseteq> R"
  shows "moves R st st''"
proof -
  obtain N r s N' r' s' where 1: "st' = st\<lparr>nodes := N, rand := r, ll_os := s\<rparr>" "\<forall>q. q \<notin> P \<longrightarrow> N q = nodes st q"
    and 2: "st'' = st'\<lparr>nodes := N', rand := r', ll_os := s'\<rparr>" "\<forall>q. q \<notin> Q \<longrightarrow> N' q = nodes st' q" using assms(1,2) by (auto simp: moves_def)
  have "N' q = nodes st q" if "q \<notin> R" for q
  proof -
    have "q \<notin> P" "q \<notin> Q" using assms(3,4) that by blast+
    then show ?thesis using 1 2(2) by simp
  qed
  then show ?thesis unfolding moves_def using 1(1) 2(1) by (intro exI [of _ N'] exI [of _ r'] exI [of _ s']) simp
qed

lemma movesD: "moves P st st' \<Longrightarrow> arenas st' = arenas st" "moves P st st' \<Longrightarrow> q \<notin> P \<Longrightarrow> nodes st' q = nodes st q"
  by (auto simp: moves_def)

lemma moves_hdr: "moves P st st' \<Longrightarrow> q \<notin> P \<Longrightarrow> hdr st' q = hdr st q"
  using movesD(2) [of P st st' q] by (simp add: hdr_def)

lemma ready_moves: "moves P st st' \<Longrightarrow> ready os a st \<Longrightarrow> ready os a st'"
  using movesD(1) [of P st st'] by (simp add: ready_def)

lemma free_unused:
  assumes "arena_blocks st a xs A C"
  shows "set xs \<subseteq> C - used (hdr st) A"
proof
  fix x assume x: "x \<in> set xs"
  note t = arena_blocksD(2) [OF assms]
  have "x \<notin> ext (hdr st) p" if "p \<in> A" for p
  proof -
    have "x \<noteq> p" using tiledD(5) [OF t] x that by blast
    then have "ext (hdr st) x \<inter> ext (hdr st) p = {}" using tiled_disjoint [OF t, of x p] x that by blast
    then show ?thesis using tile_ext [OF tiledD(6) [OF t, of x]] x by blast
  qed
  then show "x \<in> C - used (hdr st) A" using tiled_block(6) [OF t, of x] x by (auto simp: used_def)
qed

lemma RoundUp_pow:
  assumes "x + 2 ^ k \<le> 2 ^ 64" "0 < x"
  shows "x \<le> RoundUp x (2 ^ k)" "RoundUp x (2 ^ k) < x + 2 ^ k" "2 ^ k dvd RoundUp x (2 ^ k)"
proof -
  have w: "wrap64 (x + 2 ^ k - 1) = x + 2 ^ k - 1" using assms by (intro wrap64_id) linarith
  have eq: "RoundUp x (2 ^ k) = (x + 2 ^ k - 1) div 2 ^ k * 2 ^ k"
    by (simp only: RoundUp_def Let_def w and_pow2 minus_mod_eq_div_mult)
  have m: "(x + 2 ^ k - 1) div 2 ^ k * 2 ^ k + (x + 2 ^ k - 1) mod 2 ^ k = x + 2 ^ k - 1" by (rule div_mult_mod_eq)
  have lt: "(x + 2 ^ k - 1) mod 2 ^ k < 2 ^ k" by simp
  show "x \<le> RoundUp x (2 ^ k)" "RoundUp x (2 ^ k) < x + 2 ^ k" "2 ^ k dvd RoundUp x (2 ^ k)" unfolding eq using m lt by (linarith, linarith, simp)
qed

lemma paged_region:
  assumes "paged pg C" "pg dvd p" "pg dvd len" "0 < pg"
  shows "paged pg (C \<union> {p..<p + len})"
proof -
  obtain i j where ij: "p = pg * i" "len = pg * j" using assms(2,3) by (auto simp: dvd_def)
  have "c \<in> {p..<p + len} \<longleftrightarrow> i \<le> c div pg \<and> c div pg < i + j" for c
  proof -
    have "p \<le> c \<longleftrightarrow> i \<le> c div pg" using ij(1) assms(4) by (simp add: less_eq_div_iff_mult_less_eq mult.commute)
    moreover have "c < p + len \<longleftrightarrow> c div pg < i + j" using ij assms(4) by (simp add: div_less_iff_less_mult mult.commute distrib_left)
    ultimately show ?thesis by simp
  qed
  then show ?thesis using assms(1) unfolding paged_def by (metis Un_iff)
qed

section \<open>A new region\<close>

definition enlarged :: "('o \<Rightarrow> addr set) \<Rightarrow> addr set \<Rightarrow> 'o lla \<Rightarrow> addr set \<Rightarrow> 'o lla \<Rightarrow> bool" where
  "enlarged owned C st C' st' \<longleftrightarrow> C \<subseteq> C' \<and> (C' - C) \<inter> owned (ll_os st) = {} \<and> owned (ll_os st') = owned (ll_os st) \<union> C'"

lemma skip_os: "skip st hp xs \<Longrightarrow> skip (st\<lparr>ll_os := s\<rparr>) hp xs"
  by (rule skip_cong) auto

definition region_size :: "'o os \<Rightarrow> nat \<Rightarrow> nat" where "region_size os req = RoundUp req (os_getpagesize os * 16)"

lemma region_size_bounds:
  assumes "lla_os os owned" "0 < req" "req < 2 ^ 34"
  shows "req \<le> region_size os req" "region_size os req < req + 2 ^ 21" "os_getpagesize os dvd region_size os req" "32 dvd region_size os req"
proof -
  obtain k where k: "5 \<le> k" "k \<le> 16" "os_getpagesize os = 2 ^ k" using assms(1) by (auto simp: lla_os_def)
  have e: "os_getpagesize os * 16 = 2 ^ (k + 4)" by (simp add: k(3) power_add)
  have b: "(2::nat) ^ (k + 4) \<le> 2 ^ 20" by (rule power_increasing) (use k(2) in auto)
  have le: "req + 2 ^ (k + 4) \<le> 2 ^ 64" using b assms(3) by simp
  note R = RoundUp_pow [OF le assms(2), folded e, folded region_size_def]
  show "req \<le> region_size os req" by (rule R(1))
  show "region_size os req < req + 2 ^ 21" using R(2) b e by simp
  show "os_getpagesize os dvd region_size os req" using R(3) by (rule dvd_mult_left)
  moreover have "(32::nat) dvd os_getpagesize os" using le_imp_power_dvd [OF k(1), of "2::nat"] k(3) by simp
  ultimately show "32 dvd region_size os req" by (rule dvd_trans [rotated])
qed

lemma new_region_run:
  assumes P: "pool os owned a xs A C st" and os: "lla_os os owned" and req: "64 \<le> req" "32 dvd req" "card C + req + 2 ^ 21 < 2 ^ 34"
    and mm: "os_mmap os (region_size os req) (ll_os st) = (p, s)" "p \<noteq> minus1"
  shows "\<exists>st' xs' C'. new_region os a req st = Inr st' \<and> pool os owned a xs' A C' st' \<and> moves (insert (freelist a) (C' - used (hdr st) A)) st st' \<and>
    (\<exists>x\<in>set xs'. req \<le> sz (hdr st') x) \<and> enlarged owned C st C' st'"
proof -
  let ?hp = "freelist a" let ?len = "region_size os req" let ?R = "{p..<p + region_size os req}"
  note blk = poolD(1) [OF P]
  note sk = arena_blocksD(1) [OF blk] and t = arena_blocksD(2) [OF blk]
  have len: "req \<le> ?len" "?len < req + 2 ^ 21" "os_getpagesize os dvd ?len" "32 dvd ?len" using region_size_bounds [OF os, of req] req by auto
  have "mmap_ok os owned" using os by (simp add: lla_os_def)
  then have mp: "p \<noteq> 0" "os_getpagesize os dvd p" "?R \<inter> owned (ll_os st) = {}" "owned s = owned (ll_os st) \<union> ?R"
    using mm unfolding mmap_ok_def by metis+
  have new: "p \<in> ?R" using len(1) req(1) by simp
  have RC: "?R \<inter> C = {}" "?hp \<notin> ?R" using mp(3) poolD(3,4) [OF P] by blast+
  obtain k where k: "5 \<le> k" "os_getpagesize os = 2 ^ k" using os by (auto simp: lla_os_def)
  have p32: "32 dvd p" using le_imp_power_dvd [OF k(1), of "2::nat"] mp(2) k(2) by (simp add: dvd_trans)
  define st0 where "st0 = st\<lparr>ll_os := s\<rparr>"
  define n where "n = \<lparr> hsize = ?len, magic = Magic kMagicAllocated p, harena = a, lv = 0, nx = (\<lambda>_. 0) \<rparr>"
  define st1 where "st1 = st0\<lparr>nodes := (nodes st0)(p \<mapsto> n)\<rparr>"
  have h0: "hdr st0 = hdr st" by (simp add: hdr_def st0_def)
  have h1: "hdr st1 = (hdr st)(p \<mapsto> (?len, Magic kMagicAllocated p, a))" unfolding st1_def by (simp only: hdr_upd h0) (simp add: n_def hfields_def)
  have t1: "tiled (hdr st1) a (set xs) (insert p A) (C \<union> ?R)" and pn: "p \<notin> set xs \<union> A"
    unfolding h1 using tiled_region [OF t RC mp(1)] len req p32 by auto
  have php: "p \<noteq> ?hp" using RC(2) new by metis
  have sk1: "skip st1 ?hp xs" unfolding st1_def by (rule skip_other) (use skip_os [OF sk] pn php in \<open>auto simp: st0_def\<close>)
  have hx: "hdr st1 x = hdr st x" "lvl st1 x = lvl st x" if "x \<noteq> p" for x using that h1 by (simp_all add: st1_def st0_def lvl_def)
  have xp: "x \<noteq> p" if "x \<in> set xs" for x using that pn by blast
  have "lev (sz (hdr st1) x) 64 \<le> lvl st1 x" if "x \<in> set xs" for x using arena_blocksD(3) [OF blk that] hx [OF xp [OF that]] by (simp add: sz_def)
  then have b1: "arena_blocks st1 a xs (insert p A) (C \<union> ?R)" unfolding arena_blocks_def using sk1 t1 arena_blocksD(4) [OF blk] by (simp add: st1_def st0_def)
  have g1: "gapped (hdr st1) xs" by (rule gapped_cong [OF poolD(2) [OF P]]) (use hx xp in blast)
  have m1: "has_magic kMagicAllocated (hdr st1) p" by (simp add: h1 has_magic_def)
  obtain st' xs' where st': "AddToFreelist (p + 32) a st1 = Inr st'" "arena_blocks st' a xs' (insert p A - {p}) (C \<union> ?R)" "gapped (hdr st') xs'"
      "keeps (insert ?hp (insert p (set xs))) st1 st'" "\<exists>x\<in>set xs'. sz (hdr st1) p \<le> sz (hdr st') x"
    using AddToFreelist_run [OF b1 g1 _ m1] by blast
  have A: "insert p A - {p} = A" using pn by blast
  have mv1: "moves {p} st st1" unfolding moves_def st1_def st0_def by (intro exI [of _ "(nodes st)(p \<mapsto> n)"] exI [of _ "rand st"] exI [of _ s]) simp
  have pu: "p \<notin> used (hdr st) A"
  proof -
    have "used (hdr st) A \<subseteq> C" using tiled_block(5) [OF t] by (auto simp: used_def)
    then show ?thesis using RC(1) new by blast
  qed
  have mv: "moves (insert ?hp (C \<union> ?R - used (hdr st) A)) st st'"
    by (rule moves_trans [OF mv1 keeps_moves [OF st'(4)]]) (use free_unused [OF blk] pu new in auto)
  have os': "ll_os st' = s" using keepsD(3) [OF st'(4)] by (simp add: st1_def st0_def)
  have "pool os owned a xs' A (C \<union> ?R) st'" unfolding pool_def
    using st'(2,3) A os' mp(4) poolD(3,4) [OF P] paged_region [OF poolD(5) [OF P] mp(2) len(3)] k(2) ready_moves [OF mv poolD(6) [OF P]] by auto
  moreover have "new_region os a req st = Inr st'"
  proof -
    obtain ar where "arenas st a = Some ar" "apagesize ar = os_getpagesize os" using poolD(6) [OF P] by (auto simp: ready_def)
    then show ?thesis using mm st'(1) by (simp add: new_region_def get_arena_def at_ptr_def raw_check_def sizeof_Header_def st1_def st0_def n_def region_size_def Let_def)
  qed
  moreover have "\<exists>x\<in>set xs'. req \<le> sz (hdr st') x" using st'(5) len(1) h1 by (auto intro: le_trans)
  moreover have "enlarged owned C st (C \<union> ?R) st'" using mp(3,4) os' poolD(3) [OF P] by (auto simp: enlarged_def)
  ultimately show ?thesis using mv by blast
qed

lemma new_region_fails:
  assumes "pool os owned a xs A C st" "os_mmap os (region_size os req) (ll_os st) = (minus1, s)"
  shows "new_region os a req st = Inl Abort"
proof -
  obtain ar where "arenas st a = Some ar" "apagesize ar = os_getpagesize os" using poolD(6) [OF assms(1)] by (auto simp: ready_def)
  then show ?thesis using assms(2) by (simp add: new_region_def get_arena_def at_ptr_def raw_check_def region_size_def Let_def)
qed

section \<open>Taking a tile\<close>

lemma tiled_mark:
  assumes t: "tiled H a F A C" and p: "p \<in> A"
  shows "tiled (H(p \<mapsto> (sz H p, m, a))) a F A C"
proof -
  let ?H = "H(p \<mapsto> (sz H p, m, a))"
  have szs: "sz ?H q = sz H q" "ext ?H q = ext H q" for q by (simp_all add: ext_def)
  have 6: "tile ?H a q" if "q \<in> F \<union> A" for q using tiledD(6) [OF t that] by (auto simp: tile_def sz_def)
  have 7: "has_magic kMagicUnallocated ?H q" if "q \<in> F" for q
  proof -
    have "q \<noteq> p" using tiledD(5) [OF t] that p by blast
    then show ?thesis using tiledD(7) [OF t that] by (simp add: has_magic_def)
  qed
  show ?thesis by (rule tiledI [of _ _ _ _ ?H, OF tiledD(1-5) [OF t], unfolded szs, OF 6 7 tiledD(8,9) [OF t]])
qed

lemma region_loop_run:
  assumes P: "pool os owned a xs A C st" and os: "lla_os os owned" and req: "64 \<le> req" "32 dvd req" "card C + req + 2 ^ 21 < 2 ^ 34"
  shows "(\<exists>s' st' xs' C'. region_loop os a req st = Some (Inr (s', st')) \<and> pool os owned a xs' A C' st' \<and> moves (insert (freelist a) (C' - used (hdr st) A)) st st' \<and>
      s' \<in> set xs' \<and> req \<le> sz (hdr st') s' \<and> enlarged owned C st C' st') \<or>
    (fst (os_mmap os (region_size os req) (ll_os st)) = minus1 \<and> region_loop os a req st = Some (Inl Abort))"
proof -
  have r48: "48 \<le> req" "req < 2 ^ 34" using req by auto
  have fit: "find_fit a req st = Inr (first_fit (hdr st) req xs)" if "pool os owned a xs A C st" for xs C st
    by (rule find_fit_run [OF poolD(1,2) [OF that] r48])
  have n0: "0 \<notin> set xs" if "pool os owned a xs A C st" for xs C st by (rule skipD(4) [OF arena_blocksD(1) [OF poolD(1) [OF that]]])
  show ?thesis
  proof (cases "first_fit (hdr st) req xs = 0")
    case False
    have "region_loop os a req st = Some (Inr (first_fit (hdr st) req xs, st))" using fit [OF P] False by (subst region_loop.simps) simp
    moreover have "moves (insert (freelist a) (C - used (hdr st) A)) st st" by (rule keeps_moves [OF keeps_refl])
    moreover have "enlarged owned C st C st" using poolD(3) [OF P] by (auto simp: enlarged_def)
    ultimately show ?thesis using first_fit_in(2) [OF n0 [OF P] False] P by blast
  next
    case True
    obtain p s where mm: "os_mmap os (region_size os req) (ll_os st) = (p, s)" by force
    show ?thesis
    proof (cases "p = minus1")
      case True
      then show ?thesis using new_region_fails [OF P] mm fit [OF P] \<open>first_fit (hdr st) req xs = 0\<close> by (subst region_loop.simps) simp
    next
      case False
      obtain st' xs' C' where st': "new_region os a req st = Inr st'" "pool os owned a xs' A C' st'" "moves (insert (freelist a) (C' - used (hdr st) A)) st st'"
          "\<exists>x\<in>set xs'. req \<le> sz (hdr st') x" "enlarged owned C st C' st'" using new_region_run [OF P os req mm False] by blast
      let ?s = "first_fit (hdr st') req xs'"
      have s: "?s \<noteq> 0" "?s \<in> set xs'" "req \<le> sz (hdr st') ?s" using first_fit_in [OF n0 [OF st'(2)]] st'(4) by blast+
      have "region_loop os a req st' = Some (Inr (?s, st'))" using fit [OF st'(2)] s(1) by (subst region_loop.simps) simp
      then have "region_loop os a req st = Some (Inr (?s, st'))" using fit [OF P] True st'(1) by (subst region_loop.simps) simp
      then show ?thesis using st' s by blast
    qed
  qed
qed

lemma split_run:
  assumes P: "pool os owned a xs A C st" and s: "s \<in> A" and req: "64 \<le> req" "32 dvd req" "req \<le> sz (hdr st) s"
  shows "\<exists>st' xs'. split_block s a req st = Inr st' \<and> pool os owned a xs' A C st' \<and> req \<le> sz (hdr st') s \<and> keeps (insert (freelist a) (C - used (hdr st) (A - {s}))) st st'"
proof -
  let ?hp = "freelist a" let ?H = "hdr st" let ?r = "s + req"
  note blk = poolD(1) [OF P]
  note sk = arena_blocksD(1) [OF blk] and t = arena_blocksD(2) [OF blk]
  have sA: "s \<in> set xs \<union> A" using s by simp
  note S = tiled_block [OF t sA]
  obtain m where m: "?H s = Some (sz ?H s, m, a)" using S(4) by blast
  obtain n where n: "nodes st s = Some n" "hsize n = sz ?H s" "magic n = m" "harena n = a" using hdr_node [OF m] by blast
  obtain ar where ar: "arenas st a = Some ar" "min_size ar = 64" using arena_blocksD(4) [OF blk] by blast
  have w: "wrap64 (req + 64) = req + 64" using req(3) S(7) by (intro wrap64_id) simp
  show ?thesis
  proof (cases "req + 64 \<le> sz ?H s")
    case False
    then have "split_block s a req st = Inr st" using n ar w by (simp add: split_block_def get_node_def get_arena_def at_ptr_def)
    then show ?thesis using P req(3) keeps_refl by blast
  next
    case True
    let ?K = "?H(?r \<mapsto> (sz ?H s - req, Magic kMagicAllocated ?r, a), s \<mapsto> (req, m, a))"
    have t1: "tiled ?K a (set xs) (insert ?r A) C" and rn: "?r \<notin> set xs \<union> A" by (rule tiled_split [OF t s req(1,2) True])+
    have rs: "?r \<noteq> s" using req(1) by simp
    define n' where "n' = \<lparr> hsize = hsize n - req, magic = Magic kMagicAllocated ?r, harena = a, lv = 0, nx = (\<lambda>_. 0) \<rparr>"
    define st0 where "st0 = st\<lparr>nodes := (nodes st)(?r \<mapsto> n')\<rparr>"
    define st1 where "st1 = st0\<lparr>nodes := (nodes st0)(s \<mapsto> n\<lparr>hsize := req\<rparr>)\<rparr>"
    have h1: "hdr st1 = ?K" unfolding st1_def st0_def by (simp only: hdr_upd) (simp add: n'_def hfields_def n)
    have rC: "?r \<in> C" using S(5) True req(1) by (auto simp: ext_def)
    then have rhp: "?r \<noteq> ?hp" using tiledD(4) [OF t] by metis
    have sx: "s \<notin> set xs" using tiledD(5) [OF t] s by blast
    have rx: "?r \<notin> set xs" using rn by blast
    have sk1: "skip st1 ?hp xs" unfolding st1_def by (rule skip_other [OF _ sx S(9)]) (simp only: st0_def skip_other [OF sk rx rhp])
    have hx: "hdr st1 x = ?H x" "lvl st1 x = lvl st x" if "x \<noteq> s" "x \<noteq> ?r" for x using that h1 by (simp_all add: st1_def st0_def lvl_def)
    have xn: "x \<noteq> s \<and> x \<noteq> ?r" if "x \<in> set xs" for x using sx rx that by metis
    have "lev (sz (hdr st1) x) 64 \<le> lvl st1 x" if "x \<in> set xs" for x using arena_blocksD(3) [OF blk that] hx xn [OF that] by (simp add: sz_def)
    then have b1: "arena_blocks st1 a xs (insert ?r A) C" unfolding arena_blocks_def using sk1 t1 h1 arena_blocksD(4) [OF blk] by (simp add: st1_def st0_def)
    have g1: "gapped (hdr st1) xs" by (rule gapped_cong [OF poolD(2) [OF P]]) (use hx xn in blast)
    have m1: "has_magic kMagicAllocated (hdr st1) ?r" using h1 rs by (simp add: has_magic_def)
    obtain st' xs' where st': "AddToFreelist (?r + 32) a st1 = Inr st'" "arena_blocks st' a xs' (insert ?r A - {?r}) C" "gapped (hdr st') xs'" "keeps (insert ?hp (insert ?r (set xs))) st1 st'"
      using AddToFreelist_run [OF b1 g1 _ m1] by blast
    have A: "insert ?r A - {?r} = A" using rn by blast
    have k: "keeps {?r, s} st st1"
    proof -
      have "keeps {?r} st st0" "keeps {s} st0 st1" unfolding st1_def by (simp_all only: st0_def keeps_node)
      then show ?thesis by (rule keeps_trans) auto
    qed
    have out: "s \<in> C - used ?H (A - {s})" "?r \<in> C - used ?H (A - {s})" "set xs \<subseteq> C - used ?H (A - {s})"
    proof -
      have "ext ?H s \<inter> ext ?H q = {}" if "q \<in> A - {s}" for q using tiled_disjoint [OF t sA, of q] that by blast
      then have "ext ?H s \<inter> used ?H (A - {s}) = {}" by (auto simp: used_def)
      moreover have "s \<in> ext ?H s" "?r \<in> ext ?H s" using True req(1) by (auto simp: ext_def)
      ultimately show "s \<in> C - used ?H (A - {s})" "?r \<in> C - used ?H (A - {s})" using S(6) rC by blast+
      have "used ?H (A - {s}) \<subseteq> used ?H A" by (auto simp: used_def)
      then show "set xs \<subseteq> C - used ?H (A - {s})" using free_unused [OF blk] by blast
    qed
    have kk: "keeps (insert ?hp (C - used ?H (A - {s}))) st st'" by (rule keeps_trans [OF k st'(4)]) (use out in auto)
    have "hdr st' s = hdr st1 s" by (rule keeps_hdr [OF st'(4)]) (use S(9) rs sx in auto)
    then have "sz (hdr st') s = req" using h1 by (simp add: sz_def)
    moreover have "pool os owned a xs' A C st'" unfolding pool_def
      using st'(2,3) A keepsD(3) [OF kk] poolD(3-5) [OF P] ready_moves [OF keeps_moves [OF kk] poolD(6) [OF P]] by simp
    moreover have "split_block s a req st = Inr st'"
    proof -
      have "nodes st0 s = Some n" using n(1) rs by (simp add: st0_def)
      then have "on_node s (\<lambda>x. x\<lparr>hsize := req\<rparr>) st0 = Inr st1" by (simp add: on_node_def get_node_def at_ptr_def st1_def)
      then show ?thesis using n(1,2) ar w True st'(1)
        by (simp add: split_block_def get_node_def get_arena_def at_ptr_def sizeof_Header_def st0_def n'_def Let_def add.commute [of req s])
    qed
    ultimately show ?thesis using kk by blast
  qed
qed

end
