(* ===== verification/Arena_Heap.thy ===== *)
theory Arena_Heap
  imports Arena_Alloc
begin

text \<open>
  \<open>DoAllocWithArena\<close> and \<open>Free\<close> on an arena: the invariant, what a call changes, and that other arenas and the contents of the blocks of the program
  do not matter to it.
\<close>

section \<open>The invariant of an arena\<close>

definition arena_inv :: "'o os \<Rightarrow> ('o \<Rightarrow> addr set) \<Rightarrow> addr \<Rightarrow> addr set \<Rightarrow> addr set \<Rightarrow> 'o lla \<Rightarrow> bool" where
  "arena_inv os owned a A C st \<longleftrightarrow> (\<exists>xs. pool os owned a xs A C st) \<and> (\<forall>p\<in>A. has_magic kMagicAllocated (hdr st) p) \<and>
     (\<exists>ar. arenas st a = Some ar \<and> allocation_count ar = int (card A))"

lemma pool_tiled: "pool os owned a xs A C st \<Longrightarrow> tiled (hdr st) a (set xs) A C"
  by (rule arena_blocksD(2) [OF poolD(1)])

lemma live_block:
  assumes "arena_inv os owned a A C st" "p \<in> A"
  shows "64 \<le> sz (hdr st) p" "32 dvd p" "ext (hdr st) p \<subseteq> C" "p \<noteq> 0" "hdr st p = Some (sz (hdr st) p, Magic kMagicAllocated p, a)" "q \<in> A \<Longrightarrow> q \<noteq> p \<Longrightarrow> ext (hdr st) p \<inter> ext (hdr st) q = {}"
proof -
  obtain xs where P: "pool os owned a xs A C st" using assms(1) by (auto simp: arena_inv_def)
  note t = pool_tiled [OF P]
  have pA: "p \<in> set xs \<union> A" using assms(2) by simp
  note B = tiled_block [OF t pA]
  show "64 \<le> sz (hdr st) p" "32 dvd p" "ext (hdr st) p \<subseteq> C" "p \<noteq> 0" using B by auto
  have "has_magic kMagicAllocated (hdr st) p" using assms by (simp add: arena_inv_def)
  then show "hdr st p = Some (sz (hdr st) p, Magic kMagicAllocated p, a)" using B(4) by (auto simp: has_magic_def)
  show "q \<in> A \<Longrightarrow> q \<noteq> p \<Longrightarrow> ext (hdr st) p \<inter> ext (hdr st) q = {}" using tiled_disjoint [OF t pA, of q] by blast
qed

lemma arena_bounds:
  assumes "arena_inv os owned a A C st"
  shows "finite C" "C \<subseteq> owned (ll_os st)" "finite A" "A \<subseteq> C" "64 * card A \<le> card C" "freelist a \<notin> C" "freelist a \<in> owned (ll_os st)" "used (hdr st) A \<subseteq> C"
proof -
  obtain xs where P: "pool os owned a xs A C st" using assms by (auto simp: arena_inv_def)
  note t = pool_tiled [OF P]
  show fC: "finite C" and "freelist a \<notin> C" using tiledD(1,4) [OF t] by auto
  show "C \<subseteq> owned (ll_os st)" "freelist a \<in> owned (ll_os st)" using poolD(3,4) [OF P] by auto
  have "p \<in> C" if "p \<in> A" for p using tiled_block(6) [OF t, of p] that by simp
  then show "A \<subseteq> C" by blast
  then show fA: "finite A" using fC by (rule finite_subset)
  show uC: "used (hdr st) A \<subseteq> C" using live_block(3) [OF assms] by (auto simp: used_def)
  have "card (used (hdr st) A) = (\<Sum>p\<in>A. card (ext (hdr st) p))" unfolding used_def
    by (rule card_UN_disjoint [OF fA]) (use live_block(6) [OF assms] in \<open>auto simp: ext_def\<close>)
  also have "\<dots> = (\<Sum>p\<in>A. sz (hdr st) p)" by (simp add: ext_def)
  finally have "card (used (hdr st) A) = (\<Sum>p\<in>A. sz (hdr st) p)" .
  moreover have "card A * 64 \<le> (\<Sum>p\<in>A. sz (hdr st) p)" using sum_bounded_below [of A 64 "sz (hdr st)"] live_block(1) [OF assms] by simp
  ultimately show "64 * card A \<le> card C" using card_mono [OF fC uC] by simp
qed

text \<open>The state of an arena depends on the head of its list, on the free blocks and on the headers of the others.\<close>

lemma arena_frame:
  assumes inv: "arena_inv os owned a A C st" and N: "\<And>q. q \<in> insert (freelist a) (C - used (hdr st) A) \<Longrightarrow> nodes st' q = nodes st q"
    and H: "\<And>p. p \<in> A \<Longrightarrow> hdr st' p = hdr st p" and ar: "arenas st' a = arenas st a" and O: "insert (freelist a) C \<subseteq> owned (ll_os st')"
  shows "arena_inv os owned a A C st'"
proof -
  obtain xs where P: "pool os owned a xs A C st" using inv by (auto simp: arena_inv_def)
  note blk = poolD(1) [OF P]
  have nx: "nodes st' x = nodes st x" if "x \<in> insert (freelist a) (set xs)" for x using N [of x] free_unused [OF blk] that by blast
  have hx: "hdr st' x = hdr st x" if "x \<in> set xs \<union> A" for x
  proof (cases "x \<in> A")
    case False
    then have "nodes st' x = nodes st x" using that by (intro nx) simp
    then show ?thesis by (simp add: hdr_def)
  qed (rule H)
  have "skip st' (freelist a) xs" by (rule skip_cong [OF arena_blocksD(1) [OF blk]]) (use nx in auto)
  moreover have "tiled (hdr st') a (set xs) A C" by (rule tiled_cong [OF arena_blocksD(2) [OF blk] hx])
  moreover have "lev (sz (hdr st') x) 64 \<le> lvl st' x" if "x \<in> set xs" for x using arena_blocksD(3) [OF blk that] hx [of x] nx [of x] that by (simp add: sz_def lvl_def)
  ultimately have "arena_blocks st' a xs A C" using arena_blocksD(4) [OF blk] ar by (simp add: arena_blocks_def)
  moreover have "gapped (hdr st') xs" by (rule gapped_cong [OF poolD(2) [OF P]]) (use hx in auto)
  ultimately have "pool os owned a xs A C st'" using poolD(5,6) [OF P] O ar by (simp add: pool_def ready_def)
  moreover have "\<forall>p\<in>A. has_magic kMagicAllocated (hdr st') p" using inv H by (simp add: arena_inv_def has_magic_def)
  ultimately show ?thesis using inv ar by (auto simp: arena_inv_def)
qed

section \<open>Allocation\<close>

text \<open>What a call may change: the record of the arena, and nodes outside the blocks of the program.\<close>

definition arena_step :: "addr \<Rightarrow> addr set \<Rightarrow> 'o lla \<Rightarrow> 'o lla \<Rightarrow> bool" where
  "arena_step a P st st' \<longleftrightarrow> (\<forall>q. q \<notin> insert (freelist a) P \<longrightarrow> nodes st' q = nodes st q) \<and> (\<forall>b. b \<noteq> a \<longrightarrow> arenas st' b = arenas st b) \<and>
     default_arena st' = default_arena st \<and> unhooked_arena st' = unhooked_arena st \<and> unhooked_async_sig_safe_arena st' = unhooked_async_sig_safe_arena st"

lemma moves_step: "moves (insert (freelist a) P) st st' \<Longrightarrow> arena_step a P st st'"
  by (auto simp: moves_def arena_step_def)

lemma arena_step_trans: "arena_step a P st st' \<Longrightarrow> arena_step a Q st' st'' \<Longrightarrow> P \<subseteq> R \<Longrightarrow> Q \<subseteq> R \<Longrightarrow> arena_step a R st st''"
  unfolding arena_step_def by (metis insert_iff subsetD)

definition req_rnd :: "nat \<Rightarrow> nat" where "req_rnd request = RoundUp (request + 32) 32"

lemma req_rnd_bounds:
  assumes "0 < request" "request < 2 ^ 34"
  shows "64 \<le> req_rnd request" "32 dvd req_rnd request" "request + 32 \<le> req_rnd request" "req_rnd request < request + 64"
proof -
  have "request + 32 + 2 ^ 5 \<le> 2 ^ 64" "0 < request + 32" using assms by simp_all
  from RoundUp_pow [OF this] show b: "32 dvd req_rnd request" "request + 32 \<le> req_rnd request" "req_rnd request < request + 64" by (simp_all add: req_rnd_def)
  obtain k where k: "req_rnd request = 32 * k" using b(1) by (auto simp: dvd_def)
  then have "1 < k" using b(2) assms(1) by simp
  then show "64 \<le> req_rnd request" using k by simp
qed

lemma arena_count_step:
  assumes "arenas st a = Some ar"
  shows "on_arena a f st = Inr (st\<lparr>arenas := (arenas st)(a \<mapsto> f ar)\<rparr>)"
  using assms by (simp add: on_arena_def get_arena_def at_ptr_def)

lemma live_out:
  assumes "arena_inv os owned a A C st" "p \<in> A"
  shows "p \<notin> insert (freelist a) (X - used (hdr st) A)"
proof -
  have "p \<in> ext (hdr st) p" using live_block(1) [OF assms] by (simp add: ext_def)
  moreover have "p \<noteq> freelist a" using arena_bounds(4,6) [OF assms(1)] assms(2) by blast
  ultimately show ?thesis using assms(2) by (auto simp: used_def)
qed

text \<open>Steps of a call: a block leaves the list, a block gets its magic number, the count changes.\<close>

lemma pool_take:
  assumes P: "pool os owned a xs A C st" and s: "s \<in> set xs"
  shows "\<exists>prev st'. LLA_SkiplistDelete (freelist a) s no_prev st = Inr (prev, st') \<and> pool os owned a (filter (\<lambda>x. x \<noteq> s) xs) (insert s A) C st' \<and>
    keeps (insert (freelist a) (set xs)) st st' \<and> hdr st' = hdr st"
proof -
  let ?hp = "freelist a" let ?ys = "filter (\<lambda>x. x \<noteq> s) xs"
  note blk = poolD(1) [OF P]
  obtain prev st' where st': "LLA_SkiplistDelete ?hp s no_prev st = Inr (prev, st')" "skip st' ?hp ?ys" "touches (insert ?hp (set xs)) ?hp st st'"
    using SkipDelete_run [OF arena_blocksD(1) [OF blk] s, of no_prev] by blast
  note T = touchesD [OF st'(3)]
  have sys: "set ?ys = set xs - {s}" by auto
  have "lev (sz (hdr st') x) 64 \<le> lvl st' x" if x: "x \<in> set ?ys" for x
  proof -
    have "x \<in> set xs" "x \<noteq> ?hp" using x skipD(5) [OF arena_blocksD(1) [OF blk]] by auto
    then show ?thesis using arena_blocksD(3) [OF blk] T(1,2) by simp
  qed
  then have "arena_blocks st' a ?ys (insert s A) C" unfolding arena_blocks_def sys T(1) using st'(2) tiled_take [OF arena_blocksD(2) [OF blk] s] arena_blocksD(4) [OF blk] T(1,4) sys by simp
  then have "pool os owned a ?ys (insert s A) C st'"
    unfolding pool_def using gapped_filter [OF poolD(2) [OF P]] T(1) keepsD(3) [OF T(3)] poolD(3-5) [OF P] ready_moves [OF keeps_moves [OF T(3)] poolD(6) [OF P]] by simp
  then show ?thesis using st'(1) T(1,3) by blast
qed

lemma pool_mark:
  assumes P: "pool os owned a xs A C st" and s: "s \<in> A" "nodes st s = Some n"
  defines "st' \<equiv> st\<lparr>nodes := (nodes st)(s \<mapsto> n\<lparr>magic := Magic kMagicAllocated s\<rparr>)\<rparr>"
  shows "pool os owned a xs A C st'" "hdr st' = (hdr st)(s \<mapsto> (sz (hdr st) s, Magic kMagicAllocated s, a))" "harena n = a"
proof -
  note blk = poolD(1) [OF P]
  note t = arena_blocksD(2) [OF blk]
  obtain m where "hdr st s = Some (sz (hdr st) s, m, a)" using tiled_block(4) [OF t, of s] s(1) by blast
  then have n: "hsize n = sz (hdr st) s" "harena n = a" using s(2) by (auto simp: hdr_def hfields_def)
  then show "harena n = a" by simp
  show h: "hdr st' = (hdr st)(s \<mapsto> (sz (hdr st) s, Magic kMagicAllocated s, a))" unfolding st'_def by (simp only: hdr_upd) (simp add: hfields_def n)
  have s': "sz (hdr st') q = sz (hdr st) q" for q using h by simp
  have sx: "s \<notin> set xs" "s \<noteq> freelist a" using tiledD(5) [OF t] tiled_block(9) [OF t, of s] s(1) by auto
  have "skip st' (freelist a) xs" unfolding st'_def by (rule skip_other [OF arena_blocksD(1) [OF blk] sx])
  moreover have "tiled (hdr st') a (set xs) A C" unfolding h by (rule tiled_mark [OF t s(1)])
  moreover have "lev (sz (hdr st') x) 64 \<le> lvl st' x" if "x \<in> set xs" for x
  proof -
    have "x \<noteq> s" using that sx(1) by metis
    then show ?thesis using arena_blocksD(3) [OF blk that] s' by (simp add: st'_def lvl_upd)
  qed
  ultimately have "arena_blocks st' a xs A C" using arena_blocksD(4) [OF blk] by (simp add: arena_blocks_def st'_def)
  moreover have "gapped (hdr st') xs" using poolD(2) [OF P] s' by (simp add: gapped_def)
  ultimately show "pool os owned a xs A C st'" using poolD(3-6) [OF P] by (simp add: pool_def ready_def st'_def)
qed

lemma pool_record:
  assumes P: "pool os owned a xs A C st" and ar: "apagesize ar = os_getpagesize os" "roundup ar = 32" "min_size ar = 64" "aflags ar AND kAsyncSignalSafe = 0"
  defines "st' \<equiv> st\<lparr>arenas := (arenas st)(a \<mapsto> ar)\<rparr>"
  shows "pool os owned a xs A C st'" "hdr st' = hdr st"
proof -
  show h: "hdr st' = hdr st" by (simp add: hdr_def st'_def)
  have "skip st' (freelist a) xs" by (rule skip_cong [OF arena_blocksD(1) [OF poolD(1) [OF P]]]) (auto simp: st'_def)
  moreover have "lvl st' x = lvl st x" for x by (simp add: lvl_def st'_def)
  ultimately have "arena_blocks st' a xs A C" using poolD(1) [OF P] ar h by (simp add: arena_blocks_def) (simp add: st'_def)
  then show "pool os owned a xs A C st'" using P ar h by (auto simp: pool_def ready_def st'_def)
qed

lemma pool_count:
  assumes P: "pool os owned a xs A C st" and ar: "arenas st a = Some ar"
  shows "pool os owned a xs A C (st\<lparr>arenas := (arenas st)(a \<mapsto> ar\<lparr>allocation_count := c\<rparr>)\<rparr>)" "hdr (st\<lparr>arenas := (arenas st)(a \<mapsto> ar\<lparr>allocation_count := c\<rparr>)\<rparr>) = hdr st"
proof -
  have "apagesize ar = os_getpagesize os" "roundup ar = 32" "min_size ar = 64" "aflags ar AND kAsyncSignalSafe = 0" using poolD(6) [OF P] ar by (auto simp: ready_def)
  then show "pool os owned a xs A C (st\<lparr>arenas := (arenas st)(a \<mapsto> ar\<lparr>allocation_count := c\<rparr>)\<rparr>)" "hdr (st\<lparr>arenas := (arenas st)(a \<mapsto> ar\<lparr>allocation_count := c\<rparr>)\<rparr>) = hdr st"
    using pool_record [OF P, of "ar\<lparr>allocation_count := c\<rparr>"] by simp_all
qed

text \<open>A call with the record of the arena: what it finds before it searches.\<close>

lemma arena_record:
  assumes inv: "arena_inv os owned a A C st" and os: "lla_os os owned"
  obtains ar where "arenas st a = Some ar" "roundup ar = 32" "allocation_count ar = int (card A)" "apagesize ar = os_getpagesize os" "ArenaLock a st = Inr ()" "ArenaInit os a st = Inr st" "get_arena a st = Inr ar"
proof -
  obtain xs where P: "pool os owned a xs A C st" using inv by (auto simp: arena_inv_def)
  obtain ar where ar: "arenas st a = Some ar" "apagesize ar = os_getpagesize os" "roundup ar = 32" "aflags ar AND kAsyncSignalSafe = 0" "allocation_count ar = int (card A)"
    using poolD(6) [OF P] inv by (auto simp: ready_def arena_inv_def)
  have "os_getpagesize os \<noteq> 0" using os by (auto simp: lla_os_def)
  then show ?thesis using ar by (intro that [of ar]) (simp_all add: ArenaLock_def ArenaInit_def get_arena_def at_ptr_def raw_check_def)
qed

lemma take_block_run:
  assumes P: "pool os owned a xs A C st" and s: "s \<in> set xs" "req \<le> sz (hdr st) s" and req: "64 \<le> req" "32 dvd req"
  shows "\<exists>prev st1 st2 n st3 zs. LLA_SkiplistDelete (freelist a) s no_prev st = Inr (prev, st1) \<and> split_block s a req st1 = Inr st2 \<and> nodes st2 s = Some n \<and> harena n = a \<and>
    st3 = st2\<lparr>nodes := (nodes st2)(s \<mapsto> n\<lparr>magic := Magic kMagicAllocated s\<rparr>)\<rparr> \<and> pool os owned a zs (insert s A) C st3 \<and>
    keeps (insert (freelist a) (C - used (hdr st) A)) st st3 \<and> req \<le> sz (hdr st3) s \<and> has_magic kMagicAllocated (hdr st3) s \<and> s \<notin> A"
proof -
  let ?hp = "freelist a" let ?F = "insert (freelist a) (C - used (hdr st) A)"
  obtain prev st1 where st1: "LLA_SkiplistDelete ?hp s no_prev st = Inr (prev, st1)" "pool os owned a (filter (\<lambda>x. x \<noteq> s) xs) (insert s A) C st1" "keeps (insert ?hp (set xs)) st st1" "hdr st1 = hdr st"
    using pool_take [OF P s(1)] by blast
  have sA: "s \<notin> A" using tiledD(5) [OF pool_tiled [OF P]] s(1) by blast
  then have As: "insert s A - {s} = A" by blast
  have fit: "req \<le> sz (hdr st1) s" using s(2) st1(4) by simp
  obtain st2 zs where st2: "split_block s a req st1 = Inr st2" "pool os owned a zs (insert s A) C st2" "req \<le> sz (hdr st2) s" "keeps ?F st1 st2"
    using split_run [OF st1(2) _ req fit] As st1(4) by auto
  obtain m where "hdr st2 s = Some (sz (hdr st2) s, m, a)" using tiled_block(4) [OF pool_tiled [OF st2(2)], of s] by blast
  then obtain n where n: "nodes st2 s = Some n" using hdr_node by blast
  define st3 where "st3 = st2\<lparr>nodes := (nodes st2)(s \<mapsto> n\<lparr>magic := Magic kMagicAllocated s\<rparr>)\<rparr>"
  note M = pool_mark [OF st2(2) _ n, folded st3_def, simplified]
  have xin: "set xs \<subseteq> C - used (hdr st) A" by (rule free_unused [OF poolD(1) [OF P]])
  have "keeps ?F st st2" by (rule keeps_trans [OF st1(3) st2(4)]) (use xin in auto)
  moreover have "keeps {s} st2 st3" unfolding st3_def by (rule keeps_node)
  ultimately have "keeps ?F st st3" by (rule keeps_trans) (use xin s(1) in auto)
  moreover have "req \<le> sz (hdr st3) s" "has_magic kMagicAllocated (hdr st3) s" using st2(3) M(2) by (simp_all add: has_magic_def)
  ultimately show ?thesis using st1(1) st2(1) n M(1,3) sA st3_def by blast
qed

lemma Alloc_run:
  assumes inv: "arena_inv os owned a A C st" and os: "lla_os os owned" and request: "0 < request" "card C + request + 2 ^ 22 < 2 ^ 34"
  shows "(\<exists>s st' C'. DoAllocWithArena os request a st = Inr (s + 32, st') \<and> arena_inv os owned a (insert s A) C' st' \<and> s \<notin> A \<and> request + 32 \<le> sz (hdr st') s \<and>
      enlarged owned C st C' st' \<and> arena_step a (C' - used (hdr st) A) st st' \<and> (\<forall>p\<in>A. nodes st' p = nodes st p)) \<or>
    (fst (os_mmap os (region_size os (req_rnd request)) (ll_os st)) = minus1 \<and> DoAllocWithArena os request a st = Inl Abort)"
proof -
  let ?hp = "freelist a" let ?req = "req_rnd request"
  obtain xs where P: "pool os owned a xs A C st" using inv by (auto simp: arena_inv_def)
  have req: "64 \<le> ?req" "32 dvd ?req" "request + 32 \<le> ?req" "card C + ?req + 2 ^ 21 < 2 ^ 34" using req_rnd_bounds [of request] request by auto
  obtain ar where ar: "arenas st a = Some ar" "roundup ar = 32" "allocation_count ar = int (card A)" and begins: "ArenaLock a st = Inr ()" "ArenaInit os a st = Inr st" "get_arena a st = Inr ar"
    by (rule arena_record [OF inv os])
  have "wrap64 (request + 32) = request + 32" using request by (intro wrap64_id) simp
  then have rr: "RoundUp (wrap64 (request + sizeof_Header)) (roundup ar) = ?req" using ar(2) by (simp add: req_rnd_def sizeof_Header_def)
  consider (fails) "fst (os_mmap os (region_size os ?req) (ll_os st)) = minus1" "region_loop os a ?req st = Some (Inl Abort)"
    | (ok) s st1 xs1 C1 where "region_loop os a ?req st = Some (Inr (s, st1))" "pool os owned a xs1 A C1 st1" "moves (insert ?hp (C1 - used (hdr st) A)) st st1" "s \<in> set xs1"
      "?req \<le> sz (hdr st1) s" "enlarged owned C st C1 st1"
    using region_loop_run [OF P os req(1,2,4)] by blast
  then show ?thesis
  proof cases
    case fails
    then show ?thesis using begins rr request(1) by (simp add: DoAllocWithArena_def ends_def)
  next
    case ok
    have u1: "used (hdr st1) A = used (hdr st) A" using moves_hdr [OF ok(3) live_out [OF inv]] by (simp add: used_def ext_def sz_def)
    obtain prev st2 st3 n st4 zs where st4: "LLA_SkiplistDelete ?hp s no_prev st1 = Inr (prev, st2)" "split_block s a ?req st2 = Inr st3" "nodes st3 s = Some n" "harena n = a"
        "st4 = st3\<lparr>nodes := (nodes st3)(s \<mapsto> n\<lparr>magic := Magic kMagicAllocated s\<rparr>)\<rparr>" "pool os owned a zs (insert s A) C1 st4" "keeps (insert ?hp (C1 - used (hdr st) A)) st1 st4"
        "?req \<le> sz (hdr st4) s" "has_magic kMagicAllocated (hdr st4) s" "s \<notin> A"
      using take_block_run [OF ok(2,4,5) req(1,2)] u1 by (elim exE conjE) (simp only:, blast)
    have mv: "moves (insert ?hp (C1 - used (hdr st) A)) st st4" by (rule moves_trans [OF ok(3) keeps_moves [OF st4(7)]]) auto
    have ar4: "arenas st4 a = Some ar" using movesD(1) [OF mv] ar(1) by simp
    define st5 where "st5 = st4\<lparr>arenas := (arenas st4)(a \<mapsto> ar\<lparr>allocation_count := to_int32 (allocation_count ar + 1)\<rparr>)\<rparr>"
    note P5 = pool_count [OF st4(6) ar4, of "to_int32 (allocation_count ar + 1)", folded st5_def]
    have nA: "nodes st5 p = nodes st p" if "p \<in> A" for p using movesD(2) [OF mv live_out [OF inv that]] by (simp add: st5_def)
    then have "hdr st5 p = hdr st p" if "p \<in> A" for p using that by (simp add: hdr_def)
    then have mg: "\<forall>p\<in>insert s A. has_magic kMagicAllocated (hdr st5) p" using inv st4(9) P5(2) by (auto simp: arena_inv_def has_magic_def)
    have "card A < 2 ^ 30" using arena_bounds(5) [OF inv] request(2) by simp
    then have "to_int32 (allocation_count ar + 1) = int (card (insert s A))" using ar(3) st4(10) arena_bounds(3) [OF inv] by simp
    then have "arena_inv os owned a (insert s A) C1 st5" unfolding arena_inv_def using P5(1) mg by (auto simp: st5_def)
    moreover have "DoAllocWithArena os request a st = Inr (s + 32, st5)"
    proof -
      have "on_node s (\<lambda>x. x\<lparr>magic := Magic kMagicAllocated s\<rparr>) st3 = Inr st4" using st4(3,5) by (simp add: on_node_def get_node_def at_ptr_def)
      moreover have "get_node s st4 = Inr (n\<lparr>magic := Magic kMagicAllocated s\<rparr>)" by (simp add: get_node_def at_ptr_def st4(5))
      ultimately show ?thesis using begins rr request(1) ok(1) st4(1,2,4) arena_count_step [OF ar4] by (simp add: DoAllocWithArena_def ends_def raw_check_def sizeof_Header_def st5_def)
    qed
    moreover have "request + 32 \<le> sz (hdr st5) s" using st4(8) req(3) P5(2) by simp
    moreover have "enlarged owned C st C1 st5" using ok(6) keepsD(3) [OF st4(7)] by (simp add: enlarged_def st5_def)
    moreover have "arena_step a (C1 - used (hdr st) A) st st5" using moves_step [OF mv] by (simp add: arena_step_def st5_def)
    ultimately show ?thesis using nA st4(10) by blast
  qed
qed

section \<open>Release\<close>

lemma Free_run:
  assumes inv: "arena_inv os owned a A C st" and os: "lla_os os owned" and p: "p \<in> A"
  shows "\<exists>st'. lla_Free (p + 32) st = Inr st' \<and> arena_inv os owned a (A - {p}) C st' \<and> arena_step a (C - used (hdr st) (A - {p})) st st' \<and> ll_os st' = ll_os st \<and>
    (\<forall>q\<in>A - {p}. nodes st' q = nodes st q)"
proof -
  let ?hp = "freelist a"
  obtain xs where P: "pool os owned a xs A C st" using inv by (auto simp: arena_inv_def)
  obtain ar where ar: "arenas st a = Some ar" "allocation_count ar = int (card A)" and lock: "ArenaLock a st = Inr ()" by (rule arena_record [OF inv os])
  obtain n where n: "nodes st p = Some n" "magic n = Magic kMagicAllocated p" "harena n = a" using hdr_node [OF live_block(5) [OF inv p]] by blast
  have "has_magic kMagicAllocated (hdr st) p" using inv p by (simp add: arena_inv_def)
  then obtain st1 ys where st1: "AddToFreelist (p + 32) a st = Inr st1" "arena_blocks st1 a ys (A - {p}) C" "gapped (hdr st1) ys" "keeps (insert ?hp (insert p (set xs))) st st1"
    using AddToFreelist_run [OF poolD(1,2) [OF P] p] by blast
  have ar1: "arenas st1 a = Some ar" using keepsD(1) [OF st1(4)] ar(1) by simp
  have P1: "pool os owned a ys (A - {p}) C st1"
    using st1(2,3) keepsD(3) [OF st1(4)] poolD(3-5) [OF P] ready_moves [OF keeps_moves [OF st1(4)] poolD(6) [OF P]] by (simp add: pool_def)
  define st2 where "st2 = st1\<lparr>arenas := (arenas st1)(a \<mapsto> ar\<lparr>allocation_count := to_int32 (allocation_count ar - 1)\<rparr>)\<rparr>"
  note P2 = pool_count [OF P1 ar1, of "to_int32 (allocation_count ar - 1)", folded st2_def]
  have inU: "insert p (set xs) \<subseteq> C - used (hdr st) (A - {p})"
  proof -
    have "p \<in> ext (hdr st) p" using live_block(1) [OF inv p] by (simp add: ext_def)
    then have "p \<notin> ext (hdr st) q" if "q \<in> A - {p}" for q using live_block(6) [OF inv p, of q] that by blast
    moreover have "used (hdr st) (A - {p}) \<subseteq> used (hdr st) A" by (auto simp: used_def)
    ultimately show ?thesis using free_unused [OF poolD(1) [OF P]] arena_bounds(4) [OF inv] p by (auto simp: used_def)
  qed
  have k: "keeps (insert ?hp (C - used (hdr st) (A - {p}))) st st1" by (rule keeps_mono [OF st1(4)]) (use inU in auto)
  have nA: "nodes st2 q = nodes st q" if q: "q \<in> A - {p}" for q
  proof -
    have "q \<notin> set xs" using tiledD(5) [OF pool_tiled [OF P]] q by blast
    then show ?thesis using keepsD(2) [OF st1(4), of q] q live_out [OF inv, of q] by (auto simp: st2_def)
  qed
  then have "hdr st2 q = hdr st q" if "q \<in> A - {p}" for q using that by (simp add: hdr_def)
  then have mg: "\<forall>q\<in>A - {p}. has_magic kMagicAllocated (hdr st2) q" using inv by (auto simp: arena_inv_def has_magic_def)
  have fA: "finite A" "0 < card A" using arena_bounds(3) [OF inv] p by (auto simp: card_gt_0_iff)
  have "card A < 2 ^ 30" using arena_bounds(5) [OF inv] tiledD(2) [OF pool_tiled [OF P]] by simp
  then have "to_int32 (allocation_count ar - 1) = int (card (A - {p}))" using ar(2) fA p by simp
  then have "arena_inv os owned a (A - {p}) C st2" unfolding arena_inv_def using P2(1) mg by (auto simp: st2_def)
  moreover have "lla_Free (p + 32) st = Inr st2"
  proof -
    have "get_node p st = Inr n" "get_arena a st1 = Inr ar" using n(1) ar1 by (simp_all add: get_node_def get_arena_def at_ptr_def)
    then show ?thesis using n(2,3) lock st1(1) ar(2) fA(2) arena_count_step [OF ar1] by (simp add: lla_Free_def raw_check_def sizeof_Header_def st2_def)
  qed
  moreover have "arena_step a (C - used (hdr st) (A - {p})) st st2" using moves_step [OF keeps_moves [OF k]] by (simp add: arena_step_def st2_def)
  ultimately show ?thesis using nA keepsD(3) [OF st1(4)] by (intro exI [of _ st2]) (simp add: st2_def)
qed

end
