(* ===== verification/Arena_Safe.thy ===== *)
theory Arena_Safe
  imports Arena_Heap
begin

text \<open>
  An arena as a heap of blocks: for a sequence of allocations, releases and writes of the program, starting with a fresh arena, the blocks in use are
  disjoint parts of mapped memory, a release of any of them succeeds, and an allocation fails only if \<open>mmap\<close> does.
\<close>

section \<open>The interface\<close>

text \<open>\<open>L\<close> has the blocks in use with the sizes that were requested.\<close>

inductive heap_ops ::
  "(nat \<Rightarrow> 's \<Rightarrow> (addr \<times> 's) res) \<Rightarrow> (addr \<Rightarrow> 's \<Rightarrow> 's res) \<Rightarrow> ((addr \<rightharpoonup> nat) \<Rightarrow> 's \<Rightarrow> 's \<Rightarrow> bool) \<Rightarrow> (nat \<Rightarrow> 's \<Rightarrow> bool) \<Rightarrow> 's \<Rightarrow> (addr \<rightharpoonup> nat) \<Rightarrow> 's \<Rightarrow> bool"
  for alloc release writes small s0 where
  heap_start: "heap_ops alloc release writes small s0 Map.empty s0"
| heap_alloc: "heap_ops alloc release writes small s0 L s \<Longrightarrow> 0 < n \<Longrightarrow> small n s \<Longrightarrow> alloc n s = Inr (p, s') \<Longrightarrow> heap_ops alloc release writes small s0 (L(p \<mapsto> n)) s'"
| heap_release: "heap_ops alloc release writes small s0 L s \<Longrightarrow> p \<in> dom L \<Longrightarrow> release p s = Inr s' \<Longrightarrow> heap_ops alloc release writes small s0 (L(p := None)) s'"
| heap_write: "heap_ops alloc release writes small s0 L s \<Longrightarrow> writes L s s' \<Longrightarrow> heap_ops alloc release writes small s0 L s'"

locale block_heap =
  fixes rep :: "(addr \<rightharpoonup> nat) \<Rightarrow> 's \<Rightarrow> bool" and mapped :: "'s \<Rightarrow> addr set"
    and alloc :: "nat \<Rightarrow> 's \<Rightarrow> (addr \<times> 's) res" and release :: "addr \<Rightarrow> 's \<Rightarrow> 's res" and writes :: "(addr \<rightharpoonup> nat) \<Rightarrow> 's \<Rightarrow> 's \<Rightarrow> bool"
    and small :: "nat \<Rightarrow> 's \<Rightarrow> bool" and refused :: "nat \<Rightarrow> 's \<Rightarrow> bool"
  assumes rep_apart: "rep L s \<Longrightarrow> L p = Some m \<Longrightarrow> L q = Some n \<Longrightarrow> p \<noteq> q \<Longrightarrow> {p..<p + m} \<inter> {q..<q + n} = {}"
    and rep_mapped: "rep L s \<Longrightarrow> L p = Some m \<Longrightarrow> 32 dvd p \<and> p \<noteq> 0 \<and> {p..<p + m} \<subseteq> mapped s"
    and alloc_law: "rep L s \<Longrightarrow> 0 < n \<Longrightarrow> small n s \<Longrightarrow>
      returns (\<lambda>(p, s'). L p = None \<and> rep (L(p \<mapsto> n)) s') (alloc n s) \<or> (refused n s \<and> alloc n s = Inl Abort)"
    and release_law: "rep L s \<Longrightarrow> p \<in> dom L \<Longrightarrow> returns (rep (L(p := None))) (release p s)"
    and write_law: "rep L s \<Longrightarrow> writes L s s' \<Longrightarrow> rep L s'"
begin

lemma ops_rep: "heap_ops alloc release writes small s0 L s \<Longrightarrow> rep Map.empty s0 \<Longrightarrow> rep L s"
proof (induction rule: heap_ops.induct)
  case (heap_alloc L s n p s')
  then show ?case using alloc_law [of L s n] by (simp del: fun_upd_apply)
next
  case (heap_release L s p s')
  then show ?case using release_law [of L s p] by (simp del: fun_upd_apply)
qed (use write_law in blast)+

lemma alloc_new:
  assumes "rep L s" "0 < n" "small n s"
  shows "returns (\<lambda>(p, s'). L p = None \<and> 32 dvd p \<and> {p..<p + n} \<subseteq> mapped s' \<and> (\<forall>q m. L q = Some m \<longrightarrow> {p..<p + n} \<inter> {q..<q + m} = {})) (alloc n s) \<or>
    (refused n s \<and> alloc n s = Inl Abort)"
  using alloc_law [OF assms]
proof
  assume "returns (\<lambda>(p, s'). L p = None \<and> rep (L(p \<mapsto> n)) s') (alloc n s)"
  moreover have "{p..<p + n} \<inter> {q..<q + m} = {}" if "L p = None" "rep (L(p \<mapsto> n)) s'" "L q = Some m" for p q m s'
    by (rule rep_apart [OF that(2)]) (use that in auto)
  moreover have "32 dvd p \<and> {p..<p + n} \<subseteq> mapped s'" if "rep (L(p \<mapsto> n)) s'" for p s' using rep_mapped [OF that, of p n] by simp
  ultimately have "returns (\<lambda>(p, s'). L p = None \<and> 32 dvd p \<and> {p..<p + n} \<subseteq> mapped s' \<and> (\<forall>q m. L q = Some m \<longrightarrow> {p..<p + n} \<inter> {q..<q + m} = {})) (alloc n s)"
    by (elim returns_mono) (simp only: split_paired_all prod.case, blast)
  then show ?thesis by blast
qed blast

end

section \<open>The arena\<close>

definition fresh_arena :: "('o \<Rightarrow> addr set) \<Rightarrow> addr \<Rightarrow> 'o lla \<Rightarrow> bool" where
  "fresh_arena owned a st \<longleftrightarrow> (\<exists>ar h. arenas st a = Some ar \<and> apagesize ar = 0 \<and> aflags ar AND kAsyncSignalSafe = 0 \<and> nodes st (freelist a) = Some h) \<and>
     a \<noteq> unhooked_async_sig_safe_arena st \<and> freelist a \<in> owned (ll_os st)"

text \<open>The blocks of the program are behind the headers of \<open>A\<close>, and large enough.\<close>

definition blocks_of :: "(addr \<rightharpoonup> nat) \<Rightarrow> addr set \<Rightarrow> 'o lla \<Rightarrow> bool" where
  "blocks_of L A st \<longleftrightarrow> dom L = (\<lambda>p. p + 32) ` A \<and> (\<forall>p n. L (p + 32) = Some n \<longrightarrow> n + 32 \<le> sz (hdr st) p)"

definition arena_heap :: "'o os \<Rightarrow> ('o \<Rightarrow> addr set) \<Rightarrow> addr \<Rightarrow> (addr \<rightharpoonup> nat) \<Rightarrow> 'o lla \<Rightarrow> bool" where
  "arena_heap os owned a L st \<longleftrightarrow> (L = Map.empty \<and> fresh_arena owned a st) \<or> (\<exists>A C. arena_inv os owned a A C st \<and> blocks_of L A st)"

definition small_heap :: "('o \<Rightarrow> addr set) \<Rightarrow> nat \<Rightarrow> 'o lla \<Rightarrow> bool" where
  "small_heap owned n st \<longleftrightarrow> finite (owned (ll_os st)) \<and> card (owned (ll_os st)) + n + 2 ^ 22 < 2 ^ 34"

definition mmap_fails :: "'o os \<Rightarrow> nat \<Rightarrow> 'o lla \<Rightarrow> bool" where
  "mmap_fails os n st \<longleftrightarrow> fst (os_mmap os (region_size os (req_rnd n)) (ll_os st)) = minus1"

text \<open>The program writes to its blocks: of a header before a block nothing changes but the links, which are in the block.\<close>

definition client_writes :: "(addr \<rightharpoonup> nat) \<Rightarrow> 'o lla \<Rightarrow> 'o lla \<Rightarrow> bool" where
  "client_writes L st st' \<longleftrightarrow> (\<exists>N. st' = st\<lparr>nodes := N\<rparr> \<and> (\<forall>q. (\<forall>p n. L p = Some n \<longrightarrow> q \<notin> {p - 32..<p + n}) \<longrightarrow> N q = nodes st q) \<and>
     (\<forall>p\<in>dom L. hdr st' (p - 32) = hdr st (p - 32)))"

lemma ArenaInit_fresh:
  assumes f: "fresh_arena owned a st" and os: "lla_os os owned"
  shows "\<exists>st'. ArenaInit os a st = Inr st' \<and> arena_inv os owned a {} {} st' \<and> arena_step a {} st st' \<and> ll_os st' = ll_os st"
proof -
  obtain ar h where ar: "arenas st a = Some ar" "apagesize ar = 0" "nodes st (freelist a) = Some h" using f by (auto simp: fresh_arena_def)
  have r: "roundup_loop 16 = 32" by (simp add: roundup_loop.simps sizeof_Header_def)
  let ?h = "\<lparr> hsize = 0, magic = Magic kMagicUnallocated (freelist a), harena = a, lv = 0, nx = (\<lambda>_. 0) \<rparr>"
  let ?ar = "\<lparr> allocation_count = 0, aflags = (if a = default_arena st then kCallMallocHook else 0), apagesize = os_getpagesize os, roundup = 32, min_size = 64 \<rparr>"
  define st' where "st' = st\<lparr>nodes := (nodes st)(freelist a \<mapsto> ?h), arenas := (arenas st)(a \<mapsto> ?ar)\<rparr>"
  have run: "ArenaInit os a st = Inr st'" using ar r f by (simp add: ArenaInit_def get_arena_def get_node_def at_ptr_def st'_def fresh_arena_def Let_def)
  have "skip st' (freelist a) []" by (rule skip_empty [of _ _ ?h]) (simp_all add: st'_def freelist_def)
  moreover have "tiled (hdr st') a {} {} {}" by (simp add: tiled_def)
  ultimately have "arena_blocks st' a [] {} {}" by (simp add: arena_blocks_def st'_def)
  moreover have "kCallMallocHook AND kAsyncSignalSafe = 0" by (simp add: kCallMallocHook_def kAsyncSignalSafe_def)
  ultimately have "pool os owned a [] {} {} st'" using f by (simp add: pool_def gapped_def paged_def ready_def fresh_arena_def) (simp add: st'_def)
  then have "arena_inv os owned a {} {} st'" by (auto simp: arena_inv_def st'_def)
  then show ?thesis using run by (auto simp: arena_step_def st'_def)
qed

lemma DoAlloc_init:
  assumes "fresh_arena owned a st" "ArenaInit os a st = Inr st'" "arena_inv os owned a {} {} st'" "lla_os os owned" "0 < n"
  shows "DoAllocWithArena os n a st = DoAllocWithArena os n a st'"
proof -
  have "ArenaLock a st = Inr ()" using assms(1) by (auto simp: fresh_arena_def ArenaLock_def get_arena_def at_ptr_def raw_check_def)
  moreover obtain ar where "ArenaLock a st' = Inr ()" "ArenaInit os a st' = Inr st'" by (rule arena_record [OF assms(3,4)])
  ultimately show ?thesis using assms(2,5) by (simp add: DoAllocWithArena_def)
qed

subsection \<open>Blocks of the program\<close>

lemma blocks_ofD:
  assumes L: "blocks_of L A st" and p: "L p = Some m"
  shows "p - 32 \<in> A" "p = (p - 32) + 32" "{p - 32..<p + m} \<subseteq> ext (hdr st) (p - 32)"
proof -
  have "p \<in> (\<lambda>p. p + 32) ` A" using p L by (auto simp: blocks_of_def)
  then show A: "p - 32 \<in> A" and e: "p = (p - 32) + 32" by auto
  have "L ((p - 32) + 32) = Some m" using p e by simp
  then have "m + 32 \<le> sz (hdr st) (p - 32)" using L unfolding blocks_of_def by blast
  then show "{p - 32..<p + m} \<subseteq> ext (hdr st) (p - 32)" using e by (auto simp: ext_def)
qed

lemma blocks_of_in: "blocks_of L A st \<Longrightarrow> L (q + 32) = Some m \<Longrightarrow> q \<in> A"
  using blocks_ofD(1) [of L A st "q + 32" m] by simp

lemma blocks_of_add:
  assumes L: "blocks_of L A st" and s: "s \<notin> A" "n + 32 \<le> sz (hdr st') s" "\<forall>p\<in>A. nodes st' p = nodes st p"
  shows "L (s + 32) = None" "blocks_of (L(s + 32 \<mapsto> n)) (insert s A) st'"
proof -
  show N: "L (s + 32) = None" using s(1) blocks_of_in [OF L] by (cases "L (s + 32)") auto
  have "m + 32 \<le> sz (hdr st') q" if "(L(s + 32 \<mapsto> n)) (q + 32) = Some m" for q m
  proof (cases "q = s")
    case False
    then have lq: "L (q + 32) = Some m" using that by simp
    then have "sz (hdr st') q = sz (hdr st) q" using blocks_of_in [OF L lq] s(3) by (simp add: sz_def hdr_def)
    then show ?thesis using L lq by (simp add: blocks_of_def)
  qed (use that s(2) in simp)
  moreover have "dom (L(s + 32 \<mapsto> n)) = (\<lambda>p. p + 32) ` insert s A" using L by (auto simp: blocks_of_def)
  ultimately show "blocks_of (L(s + 32 \<mapsto> n)) (insert s A) st'" unfolding blocks_of_def by blast
qed

lemma blocks_of_remove:
  assumes L: "blocks_of L A st" and p: "p \<in> A" "\<forall>q\<in>A - {p}. nodes st' q = nodes st q"
  shows "blocks_of (L(p + 32 := None)) (A - {p}) st'"
proof -
  have "n + 32 \<le> sz (hdr st') q" if "(L(p + 32 := None)) (q + 32) = Some n" for q n
  proof -
    have lq: "L (q + 32) = Some n" "q \<noteq> p" using that by (auto split: if_splits)
    then have "q \<in> A - {p}" using blocks_of_in [OF L] by simp
    then have "sz (hdr st') q = sz (hdr st) q" using p(2) by (simp add: sz_def hdr_def)
    then show ?thesis using L lq(1) by (simp add: blocks_of_def)
  qed
  moreover have "dom (L(p + 32 := None)) = (\<lambda>p. p + 32) ` (A - {p})" using L by (auto simp: blocks_of_def)
  ultimately show ?thesis unfolding blocks_of_def by blast
qed

lemma blocks_of_hdr: "blocks_of L A st \<Longrightarrow> (\<And>p. p \<in> A \<Longrightarrow> hdr st' p = hdr st p) \<Longrightarrow> blocks_of L A st'"
proof -
  assume L: "blocks_of L A st" and h: "\<And>p. p \<in> A \<Longrightarrow> hdr st' p = hdr st p"
  have "n + 32 \<le> sz (hdr st') p" if "L (p + 32) = Some n" for p n
    using L that h [OF blocks_of_in [OF L that]] by (simp add: blocks_of_def sz_def)
  then show ?thesis using L by (simp add: blocks_of_def)
qed

lemma live_apart:
  assumes inv: "arena_inv os owned a A C st" and L: "blocks_of L A st" and p: "L p = Some m" and q: "L q = Some n" and pq: "p \<noteq> q"
  shows "{p..<p + m} \<inter> {q..<q + n} = {}"
proof -
  note P = blocks_ofD [OF L p] and Q = blocks_ofD [OF L q]
  have "p - 32 \<noteq> q - 32" using P(2) Q(2) pq by metis
  then have "ext (hdr st) (p - 32) \<inter> ext (hdr st) (q - 32) = {}" using live_block(6) [OF inv P(1) Q(1)] by metis
  moreover have "{p..<p + m} \<subseteq> {p - 32..<p + m}" "{q..<q + n} \<subseteq> {q - 32..<q + n}" by auto
  ultimately show ?thesis using P(3) Q(3) by blast
qed

lemma blocks_mapped:
  assumes inv: "arena_inv os owned a A C st" and L: "blocks_of L A st" and p: "L p = Some m"
  shows "32 dvd p \<and> p \<noteq> 0 \<and> {p..<p + m} \<subseteq> owned (ll_os st)"
proof -
  note P = blocks_ofD [OF L p]
  have "32 dvd p - 32" by (rule live_block(2) [OF inv P(1)])
  then have "32 dvd (p - 32) + 32" by simp
  then have "32 dvd p" using P(2) by metis
  moreover have "{p..<p + m} \<subseteq> {p - 32..<p + m}" by auto
  then have "{p..<p + m} \<subseteq> owned (ll_os st)" using P(3) live_block(3) [OF inv P(1)] arena_bounds(2) [OF inv] by blast
  ultimately show ?thesis using P(2) by auto
qed

lemma small_heap_card:
  assumes "arena_inv os owned a A C st" "small_heap owned n st"
  shows "card C + n + 2 ^ 22 < 2 ^ 34"
proof -
  have "card C \<le> card (owned (ll_os st))" using arena_bounds(2) [OF assms(1)] assms(2) by (intro card_mono) (auto simp: small_heap_def)
  then show ?thesis using assms(2) by (simp add: small_heap_def)
qed

lemma blocks_write:
  assumes inv: "arena_inv os owned a A C st" and L: "blocks_of L A st" and w: "client_writes L st st'"
  shows "arena_inv os owned a A C st'" "blocks_of L A st'" "\<And>q. q \<notin> used (hdr st) A \<Longrightarrow> nodes st' q = nodes st q" "\<exists>N. st' = st\<lparr>nodes := N\<rparr>"
proof -
  obtain N where N: "st' = st\<lparr>nodes := N\<rparr>" "\<forall>q. (\<forall>p n. L p = Some n \<longrightarrow> q \<notin> {p - 32..<p + n}) \<longrightarrow> N q = nodes st q" "\<forall>p\<in>dom L. hdr st' (p - 32) = hdr st (p - 32)" using w by (auto simp: client_writes_def)
  show "\<exists>N. st' = st\<lparr>nodes := N\<rparr>" using N(1) by blast
  have hA: "hdr st' p = hdr st p" if "p \<in> A" for p
  proof -
    have "p + 32 \<in> dom L" using L that by (simp add: blocks_of_def)
    from bspec [OF N(3) this] show ?thesis by simp
  qed
  then show "blocks_of L A st'" by (rule blocks_of_hdr [OF L])
  show n: "nodes st' q = nodes st q" if q: "q \<notin> used (hdr st) A" for q
  proof -
    have "q \<notin> {p - 32..<p + n}" if "L p = Some n" for p n using blocks_ofD(1,3) [OF L that] q by (auto simp: used_def)
    then show ?thesis using N(1,2) by simp
  qed
  show "arena_inv os owned a A C st'"
  proof (rule arena_frame [OF inv _ hA])
    fix q assume "q \<in> insert (freelist a) (C - used (hdr st) A)"
    then have "q \<notin> used (hdr st) A" using arena_bounds(6,8) [OF inv] by auto
    then show "nodes st' q = nodes st q" by (rule n)
  qed (use N(1) arena_bounds(2,7) [OF inv] in auto)
qed

section \<open>The contract\<close>

lemma arena_heapE:
  assumes "arena_heap os owned a L st" "p \<in> dom L"
  obtains A C where "arena_inv os owned a A C st" "blocks_of L A st"
  using assms by (auto simp: arena_heap_def)

lemma arena_heap_alloc:
  assumes h: "arena_heap os owned a L st" and os: "lla_os os owned" and n: "0 < n" "small_heap owned n st"
  shows "returns (\<lambda>(p, st'). L p = None \<and> arena_heap os owned a (L(p \<mapsto> n)) st') (DoAllocWithArena os n a st) \<or> (mmap_fails os n st \<and> DoAllocWithArena os n a st = Inl Abort)"
proof -
  obtain A C st1 where inv: "arena_inv os owned a A C st1" "blocks_of L A st1"
      and run: "DoAllocWithArena os n a st = DoAllocWithArena os n a st1" and o1: "ll_os st1 = ll_os st"
  proof (cases "L = Map.empty \<and> fresh_arena owned a st")
    case True
    then obtain st1 where "ArenaInit os a st = Inr st1" "arena_inv os owned a {} {} st1" "ll_os st1 = ll_os st" using ArenaInit_fresh [OF _ os] by blast
    then show ?thesis using that [of "{}" "{}" st1] DoAlloc_init [of owned a st os st1 n] True os n(1) by (auto simp: blocks_of_def)
  next
    case False
    then show ?thesis using that h by (auto simp: arena_heap_def)
  qed
  have "small_heap owned n st1" using n(2) o1 by (simp add: small_heap_def)
  from Alloc_run [OF inv(1) os n(1) small_heap_card [OF inv(1) this]] show ?thesis
  proof
    assume "\<exists>s st' C'. DoAllocWithArena os n a st1 = Inr (s + 32, st') \<and> arena_inv os owned a (insert s A) C' st' \<and> s \<notin> A \<and> n + 32 \<le> sz (hdr st') s \<and>
      enlarged owned C st1 C' st' \<and> arena_step a (C' - used (hdr st1) A) st1 st' \<and> (\<forall>p\<in>A. nodes st' p = nodes st1 p)"
    then obtain s st' C' where s: "DoAllocWithArena os n a st1 = Inr (s + 32, st')" "arena_inv os owned a (insert s A) C' st'" "s \<notin> A" "n + 32 \<le> sz (hdr st') s" "\<forall>p\<in>A. nodes st' p = nodes st1 p" by blast
    show ?thesis using blocks_of_add [OF inv(2) s(3-5)] s(1,2) run unfolding arena_heap_def by (simp del: fun_upd_apply) blast
  qed (use run o1 in \<open>simp add: mmap_fails_def\<close>)
qed

lemma arena_heap_free:
  assumes h: "arena_heap os owned a L st" and os: "lla_os os owned" and p: "p \<in> dom L"
  shows "returns (arena_heap os owned a (L(p := None))) (lla_Free p st)"
proof -
  obtain A C where inv: "arena_inv os owned a A C st" "blocks_of L A st" by (rule arena_heapE [OF h p])
  obtain m where "L p = Some m" using p by blast
  note P = blocks_ofD [OF inv(2) this]
  obtain st' where st': "lla_Free (p - 32 + 32) st = Inr st'" "arena_inv os owned a (A - {p - 32}) C st'" "\<forall>q\<in>A - {p - 32}. nodes st' q = nodes st q" using Free_run [OF inv(1) os P(1)] by blast
  then show ?thesis using blocks_of_remove [OF inv(2) P(1) st'(3)] P(2) unfolding arena_heap_def by (simp del: fun_upd_apply) blast
qed

lemma arena_heap_write:
  assumes h: "arena_heap os owned a L st" and w: "client_writes L st st'"
  shows "arena_heap os owned a L st'"
proof (cases "L = Map.empty")
  case True
  then have "st' = st" using w by (auto simp: client_writes_def fun_eq_iff)
  then show ?thesis using h by simp
next
  case False
  then obtain A C where inv: "arena_inv os owned a A C st" "blocks_of L A st" using h by (auto simp: arena_heap_def)
  show ?thesis using blocks_write(1,2) [OF inv w] unfolding arena_heap_def by blast
qed

definition arena_state :: "'o os \<Rightarrow> ('o \<Rightarrow> addr set) \<Rightarrow> addr \<Rightarrow> (addr \<rightharpoonup> nat) \<Rightarrow> 'o lla \<Rightarrow> bool" where
  "arena_state os owned a L st \<longleftrightarrow> lla_os os owned \<and> arena_heap os owned a L st"

interpretation arena: block_heap "arena_state os owned a" "\<lambda>st. owned (ll_os st)" "\<lambda>n. DoAllocWithArena os n a" lla_Free client_writes "small_heap owned" "mmap_fails os"
  for os owned a
proof
  fix L :: "addr \<rightharpoonup> nat" and st :: "'a lla" and p q m n :: nat
  assume r: "arena_state os owned a L st"
  then have os: "lla_os os owned" and h: "arena_heap os owned a L st" by (simp_all add: arena_state_def)
  show "{p..<p + m} \<inter> {q..<q + n} = {}" if pq: "L p = Some m" "L q = Some n" "p \<noteq> q"
  proof -
    have "p \<in> dom L" using pq(1) by blast
    then obtain A C where "arena_inv os owned a A C st" "blocks_of L A st" by (rule arena_heapE [OF h])
    then show ?thesis using pq by (rule live_apart)
  qed
  show "32 dvd p \<and> p \<noteq> 0 \<and> {p..<p + m} \<subseteq> owned (ll_os st)" if pm: "L p = Some m"
  proof -
    have "p \<in> dom L" using pm by blast
    then obtain A C where "arena_inv os owned a A C st" "blocks_of L A st" by (rule arena_heapE [OF h])
    then show ?thesis using pm by (rule blocks_mapped)
  qed
  show "0 < n \<Longrightarrow> small_heap owned n st \<Longrightarrow> returns (\<lambda>(p, st'). L p = None \<and> arena_state os owned a (L(p \<mapsto> n)) st') (DoAllocWithArena os n a st) \<or>
      (mmap_fails os n st \<and> DoAllocWithArena os n a st = Inl Abort)"
    using arena_heap_alloc [OF h os, of n] by (simp only: arena_state_def os simp_thms)
  show "p \<in> dom L \<Longrightarrow> returns (arena_state os owned a (L(p := None))) (lla_Free p st)"
    by (rule returns_mono [OF arena_heap_free [OF h os]]) (simp_all add: arena_state_def os)
  show "arena_state os owned a L st'" if "client_writes L st st'" for st'
    using arena_heap_write [OF h that] os by (simp add: arena_state_def)
qed

text \<open>
  C36: take an arena that was never used, and any sequence of allocations from it with \<open>DoAllocWithArena\<close> (the process staying below 16 GB), of calls of \<open>Free\<close>
  with blocks that are in use, and of writes of the program to its blocks.  Then the blocks in use are aligned, lie in memory of the process with all the
  bytes that were asked for, and do not overlap; \<open>Free\<close> of any of them returns, with no failed check; and a further allocation returns a block disjoint
  from all of them, unless \<open>mmap\<close> fails, in which case it aborts.
\<close>

theorem arena_blocks_safe:
  assumes "lla_os os owned" "fresh_arena owned a st0" "heap_ops (\<lambda>n. DoAllocWithArena os n a) lla_Free client_writes (small_heap owned) st0 L st"
  shows "(\<forall>p m. L p = Some m \<longrightarrow> 32 dvd p \<and> p \<noteq> 0 \<and> {p..<p + m} \<subseteq> owned (ll_os st)) \<and>
    (\<forall>p q m n. L p = Some m \<and> L q = Some n \<and> p \<noteq> q \<longrightarrow> {p..<p + m} \<inter> {q..<q + n} = {}) \<and>
    (\<forall>p\<in>dom L. returns (\<lambda>st'. True) (lla_Free p st)) \<and>
    (\<forall>n>0. small_heap owned n st \<longrightarrow>
       returns (\<lambda>(p, st'). L p = None \<and> 32 dvd p \<and> {p..<p + n} \<subseteq> owned (ll_os st') \<and> (\<forall>q m. L q = Some m \<longrightarrow> {p..<p + n} \<inter> {q..<q + m} = {})) (DoAllocWithArena os n a st) \<or>
       (mmap_fails os n st \<and> DoAllocWithArena os n a st = Inl Abort))"
proof -
  have "arena_state os owned a Map.empty st0" using assms(1,2) by (simp add: arena_state_def arena_heap_def)
  then have rep: "arena_state os owned a L st" by (rule arena.ops_rep [OF assms(3)])
  have "returns (\<lambda>st'. True) (lla_Free p st)" if "p \<in> dom L" for p by (rule returns_mono [OF arena.release_law [OF rep that]]) simp
  then show ?thesis using arena.rep_mapped [OF rep] arena.rep_apart [OF rep] arena.alloc_new [OF rep] by blast
qed

text \<open>A small system: \<open>mmap\<close> takes the page after all that was mapped before.\<close>

definition seg_end :: "(nat \<times> nat) list \<Rightarrow> nat" where "seg_end s = foldr (\<lambda>(p, n) m. max (p + n) m) s 0"

definition map_os :: "(nat \<times> nat) list os" where
  "map_os = \<lparr> os_sbrk = (\<lambda>n s. (minus1, s)),
     os_mmap = (\<lambda>n s. let p = (seg_end s div 4096 + 1) * 4096 in if p + n < 2 ^ 40 then (p, (p, n) # s) else (minus1, s)),
     os_munmap = (\<lambda>p n s. filter (\<lambda>x. x \<noteq> (p, n)) s), os_madvise = (\<lambda>p n s. (MadviseOk, s)),
     os_getpagesize = 4096, os_retries = 0, os_munmap_fails = (\<lambda>p n s. False) \<rparr>"

definition map_owned :: "(nat \<times> nat) list \<Rightarrow> addr set" where "map_owned s = (\<Union>(p, n)\<in>set s. {p..<p + n})"

definition static_arena :: "(nat \<times> nat) list lla" where
  "static_arena = \<lparr> ll_os = [(4096, 1024)], rand = 1, nodes = [freelist 4096 \<mapsto> \<lparr> hsize = 0, magic = 0, harena = 0, lv = 0, nx = (\<lambda>_. 0) \<rparr>],
     arenas = [4096 \<mapsto> \<lparr> allocation_count = 0, aflags = 0, apagesize = 0, roundup = 0, min_size = 0 \<rparr>],
     default_arena = 4096, unhooked_arena = 4416, unhooked_async_sig_safe_arena = 4736 \<rparr>"

lemma seg_end: "(p, n) \<in> set s \<Longrightarrow> p + n \<le> seg_end s"
  by (induction s) (auto simp: seg_end_def)

lemma map_os_ok: "lla_os map_os map_owned"
proof -
  have "mmap_ok map_os map_owned" unfolding mmap_ok_def
  proof (intro allI impI)
    fix n s p s' assume m: "os_mmap map_os n s = (p, s')"
    let ?p = "(seg_end s div 4096 + 1) * 4096"
    show "if p = minus1 then map_owned s' = map_owned s else p \<noteq> 0 \<and> os_getpagesize map_os dvd p \<and> p + n < 2 ^ 64 \<and> {p..<p + n} \<inter> map_owned s = {} \<and> map_owned s' = map_owned s \<union> {p..<p + n}"
    proof (cases "?p + n < 2 ^ 40")
      case True
      then have p: "p = ?p" "s' = (p, n) # s" using m by (auto simp: map_os_def Let_def)
      have "seg_end s mod 4096 < 4096" by simp
      then have "seg_end s < p" unfolding p(1) using div_mult_mod_eq [of "seg_end s" 4096] by (simp only: distrib_right)
      then have "{p..<p + n} \<inter> map_owned s = {}" using seg_end [of _ _ s] by (fastforce simp: map_owned_def)
      then show ?thesis using p True by (auto simp: map_os_def map_owned_def minus1_def)
    qed (use m in \<open>simp add: map_os_def Let_def\<close>)
  qed
  moreover have "\<exists>k. 5 \<le> k \<and> k \<le> 16 \<and> os_getpagesize map_os = 2 ^ k" by (rule exI [of _ 12]) (simp add: map_os_def)
  ultimately show ?thesis by (simp add: lla_os_def)
qed

lemma static_arena_fresh: "fresh_arena map_owned 4096 static_arena"
  by (simp add: fresh_arena_def static_arena_def map_owned_def freelist_def)

lemma static_arena_small: "small_heap map_owned 100 static_arena"
  by (simp add: small_heap_def static_arena_def map_owned_def)

lemma static_arena_maps: "\<not> mmap_fails map_os 100 static_arena"
proof -
  have "region_size map_os (req_rnd 100) < req_rnd 100 + 2 ^ 21" using region_size_bounds(2) [OF map_os_ok, of "req_rnd 100"] req_rnd_bounds [of 100] by simp
  then show ?thesis using req_rnd_bounds(4) [of 100] by (simp add: mmap_fails_def static_arena_def map_os_def seg_end_def minus1_def Let_def)
qed

theorem arena_blocks_safe_witness:
  "\<exists>p st. DoAllocWithArena map_os 100 4096 static_arena = Inr (p, st) \<and> 32 dvd p \<and> {p..<p + 100} \<subseteq> map_owned (ll_os st) \<and> returns (\<lambda>st'. True) (lla_Free p st)"
proof -
  note begins = heap_start [of "\<lambda>n. DoAllocWithArena map_os n 4096" lla_Free client_writes "small_heap map_owned" static_arena]
  have "returns (\<lambda>(p, st'). 32 dvd p \<and> {p..<p + 100} \<subseteq> map_owned (ll_os st')) (DoAllocWithArena map_os 100 4096 static_arena)"
    using arena_blocks_safe [OF map_os_ok static_arena_fresh begins, THEN conjunct2, THEN conjunct2, THEN conjunct2, rule_format, OF _ static_arena_small] static_arena_maps
    by (auto simp del: ivl_subset elim!: returns_mono)
  then obtain p st where p: "DoAllocWithArena map_os 100 4096 static_arena = Inr (p, st)" "32 dvd p" "{p..<p + 100} \<subseteq> map_owned (ll_os st)"
    by (cases "DoAllocWithArena map_os 100 4096 static_arena") (auto simp del: ivl_subset)
  have "heap_ops (\<lambda>n. DoAllocWithArena map_os n 4096) lla_Free client_writes (small_heap map_owned) static_arena (Map.empty(p \<mapsto> 100)) st"
    by (rule heap_alloc [OF begins _ static_arena_small p(1)]) simp
  then have "returns (\<lambda>st'. True) (lla_Free p st)" using arena_blocks_safe [OF map_os_ok static_arena_fresh] by auto
  then show ?thesis using p by blast
qed

section \<open>The search of the code\<close>

text \<open>
  C39: the search for a block is first fit: in an arena whose blocks tile its memory, the walk along the list of the level that belongs to the size finds the
  first block of the whole free list that is large enough, and 0 when none is, although it skips all blocks with fewer levels.  No check of \<open>Next\<close> fails.
\<close>

theorem find_fit_first:
  assumes "pool os owned a xs A C st" "48 \<le> req" "req < 2 ^ 34"
  shows "find_fit a req st = Inr (case find (\<lambda>x. req \<le> sz (hdr st) x) xs of None \<Rightarrow> 0 | Some x \<Rightarrow> x)"
proof -
  have "first_fit H req xs = (case find (\<lambda>x. req \<le> sz H x) xs of None \<Rightarrow> 0 | Some x \<Rightarrow> x)" for H by (induction xs) (simp_all add: first_fit_def)
  then show ?thesis using find_fit_run [OF poolD(1,2) [OF assms(1)] assms(2,3)] by simp
qed

theorem find_fit_first_witness:
  "\<exists>st0 st x. ArenaInit map_os 4096 static_arena = Inr st0 \<and> new_region map_os 4096 160 st0 = Inr st \<and> find_fit 4096 160 st = Inr x \<and> x \<noteq> 0"
proof -
  obtain st0 xs where st0: "ArenaInit map_os 4096 static_arena = Inr st0" "pool map_os map_owned 4096 xs {} {} st0" "ll_os st0 = ll_os static_arena"
    using ArenaInit_fresh [OF static_arena_fresh map_os_ok] by (auto simp: arena_inv_def)
  have "region_size map_os 160 < 160 + 2 ^ 21" using region_size_bounds(2) [OF map_os_ok, of 160] by simp
  then have "os_mmap map_os (region_size map_os 160) (ll_os st0) = (8192, [(8192, region_size map_os 160), (4096, 1024)])"
    using st0(3) by (simp add: map_os_def static_arena_def seg_end_def Let_def)
  from new_region_run [OF st0(2) map_os_ok _ _ _ this] obtain st xs' C' where st: "new_region map_os 4096 160 st0 = Inr st" "pool map_os map_owned 4096 xs' {} C' st" "\<exists>x\<in>set xs'. 160 \<le> sz (hdr st) x"
    by (auto simp: minus1_def)
  obtain x where x: "find (\<lambda>x. 160 \<le> sz (hdr st) x) xs' = Some x" using st(3) by (cases "find (\<lambda>x. 160 \<le> sz (hdr st) x) xs'") (auto simp: find_None_iff)
  have "x \<in> set xs'" using x by (auto simp: find_Some_iff)
  then have "x \<noteq> 0" using skipD(4) [OF arena_blocksD(1) [OF poolD(1) [OF st(2)]]] by metis
  then show ?thesis using find_fit_first [OF st(2), of 160] x st0(1) st(1) by auto
qed

end
