(* ===== verification/Arena_Delete.thy ===== *)
theory Arena_Delete
  imports Arena_Safe
begin

text \<open>
  Arenas come and go: \<open>NewArena\<close> puts an arena in a block of another one, \<open>DeleteArena\<close> unmaps the memory of an arena without blocks in use and gives
  its own block back.  With no block in use the free blocks are whole pages.
\<close>

section \<open>The free blocks of an empty arena\<close>

lemma gapped_less: "gapped H xs \<Longrightarrow> sorted_wrt (<) xs \<Longrightarrow> x \<in> set xs \<Longrightarrow> y \<in> set xs \<Longrightarrow> x < y \<Longrightarrow> x + sz H x < y"
  by (induction xs) (auto simp: gapped_def)

lemma same_page: "\<not> pg dvd x \<Longrightarrow> (x - 1) div pg = x div pg" for x pg :: nat
proof -
  assume n: "\<not> pg dvd x"
  then obtain y where y: "x = Suc y" by (cases x) auto
  have "Suc (y mod pg) \<noteq> pg" using n y by (metis dvd_eq_mod_eq_0 mod_Suc)
  then show ?thesis using y by (simp add: div_Suc mod_Suc)
qed

lemma free_pages_whole:
  assumes P: "pool os owned a xs {} C st" and x: "x \<in> set xs"
  shows "os_getpagesize os dvd x" "os_getpagesize os dvd sz (hdr st) x"
proof -
  let ?H = "hdr st" let ?pg = "os_getpagesize os"
  note t = pool_tiled [OF P] and g = poolD(2) [OF P] and srt = skipD(3) [OF arena_blocksD(1) [OF poolD(1) [OF P]]]
  have C: "\<exists>y\<in>set xs. c \<in> ext ?H y" if "c \<in> C" for c using that tiledD(9) [OF t] by auto
  have page: "c \<in> C" if "b \<in> C" "c div ?pg = b div ?pg" for b c using poolD(5) [OF P] that unfolding paged_def by blast
  have below: "y + sz ?H y < z" if "y \<in> set xs" "z \<in> set xs" "y < z" for y z by (rule gapped_less [OF g srt that])
  have x': "x \<in> set xs \<union> {}" using x by simp
  note B = tiled_block [OF t x']
  show px: "?pg dvd x"
  proof (rule ccontr)
    assume "\<not> ?pg dvd x"
    then have "x - 1 \<in> C" using page [OF B(6)] same_page by blast
    then obtain y where y: "y \<in> set xs" "x - 1 \<in> ext ?H y" using C by blast
    then have "y \<le> x - 1" "x - 1 < y + sz ?H y" by (auto simp: ext_def)
    then have "y < x" "x \<le> y + sz ?H y" using B(8) by linarith+
    then show False using below [OF y(1) x] by simp
  qed
  have "?pg dvd x + sz ?H x"
  proof (rule ccontr)
    let ?e = "x + sz ?H x"
    assume "\<not> ?pg dvd ?e"
    then have "?e div ?pg = (?e - 1) div ?pg" using same_page by metis
    moreover have "?e - 1 \<in> ext ?H x" using B(1) by (auto simp: ext_def)
    ultimately have "?e \<in> C" using page [of "?e - 1" ?e] B(5) by blast
    then obtain y where y: "y \<in> set xs" "y \<le> ?e" "?e < y + sz ?H y" using C by (auto simp: ext_def)
    then have "x < y" using below [OF y(1) x] by (metis add_le_cancel_left leD le_add1 le_trans less_imp_le_nat linorder_neqE_nat)
    then show False using below [OF x y(1)] y(2) by simp
  qed
  then show "?pg dvd sz ?H x" using px by (simp add: dvd_add_right_iff)
qed

section \<open>Unmapping\<close>

definition munmap_works :: "'o os \<Rightarrow> ('o \<Rightarrow> addr set) \<Rightarrow> bool" where
  "munmap_works os owned \<longleftrightarrow> munmap_ok os owned \<and> (\<forall>p n s. os_getpagesize os dvd p \<and> os_getpagesize os dvd n \<and> 0 < n \<longrightarrow> \<not> os_munmap_fails os p n s)"

text \<open>A region that is left to unmap.\<close>

definition region_ok :: "'o os \<Rightarrow> addr \<Rightarrow> (addr \<Rightarrow> nat) \<Rightarrow> 'o lla \<Rightarrow> addr \<Rightarrow> bool" where
  "region_ok os a s st y \<longleftrightarrow> (\<exists>n. nodes st y = Some n \<and> magic n = Magic kMagicUnallocated y \<and> harena n = a \<and> hsize n = s y \<and> 48 \<le> s y) \<and>
     os_getpagesize os dvd y \<and> os_getpagesize os dvd s y"

definition unmapped :: "addr \<Rightarrow> addr set \<Rightarrow> 'o lla \<Rightarrow> 'o lla \<Rightarrow> bool" where
  "unmapped hp R st st' \<longleftrightarrow> (\<exists>N s. st' = st\<lparr>ll_os := s, nodes := N\<rparr>) \<and> (\<forall>q. q \<noteq> hp \<longrightarrow> nodes st' q = (if q \<in> R then None else nodes st q))"

lemma unmap_region_run:
  assumes os: "munmap_works os owned" and ar: "arenas st a = Some ar" "apagesize ar = os_getpagesize os" and h: "nodes st (freelist a) = Some h" "hsize h = 0"
    and y: "nx h 0 = y" "region_ok os a s st y" "freelist a \<notin> {y..<y + s y}"
  defines "x \<equiv> link st 0 y"
  shows "\<exists>st'. unmap_region os a st = Inr st' \<and> unmapped (freelist a) {y..<y + s y} st st' \<and> nodes st' (freelist a) = Some (h\<lparr>nx := (nx h)(0 := x)\<rparr>) \<and>
    owned (ll_os st) - {y..<y + s y} \<subseteq> owned (ll_os st')"
proof -
  let ?hp = "freelist a"
  obtain n where n: "nodes st y = Some n" "magic n = Magic kMagicUnallocated y" "harena n = a" "hsize n = s y" "48 \<le> s y" and pg: "os_getpagesize os dvd y" "os_getpagesize os dvd s y"
    using y(2) by (auto simp: region_ok_def)
  have yh: "y \<noteq> ?hp" using y(3) n(5) by auto
  have x: "x = nx n 0" using n(1) by (simp add: x_def link_def)
  have rooms: "0 < room h" "0 < room n" using h(2) n(4,5) by (simp_all add: room_def kMaxLevel_def offset_next_def)
  define st1 where "st1 = st\<lparr>nodes := (nodes st)(?hp \<mapsto> h\<lparr>nx := (nx h)(0 := x)\<rparr>)\<rparr>"
  define st' where "st' = st1\<lparr>ll_os := os_munmap os y (s y) (ll_os st1), nodes := (\<lambda>p. if p \<in> {y..<y + s y} then None else nodes st1 p)\<rparr>"
  have w: "wr_next ?hp 0 x st = Inr st1" using h(1) rooms(1) by (simp add: wr_next_def get_node_def at_ptr_def on_node_def st1_def)
  have "\<not> os_munmap_fails os y (s y) t" for t using os pg n(5) by (simp add: munmap_works_def)
  then have "unmap_region os a st = Inr st'"
    using ar h(1) rooms y(1) n x w pg by (simp add: unmap_region_def get_arena_def get_node_def at_ptr_def rd_next_def raw_check_def st'_def dvd_eq_mod_eq_0 Let_def)
  moreover have "unmapped ?hp {y..<y + s y} st st'" by (auto simp: unmapped_def st'_def st1_def)
  moreover have "owned (ll_os st) - {y..<y + s y} \<subseteq> owned (ll_os st')" using os by (simp add: st'_def st1_def munmap_works_def munmap_ok_def)
  moreover have "nodes st' ?hp = Some (h\<lparr>nx := (nx h)(0 := x)\<rparr>)" using y(3) by (simp add: st'_def st1_def)
  ultimately show ?thesis by blast
qed

lemma unmapped_trans: "unmapped hp R st st' \<Longrightarrow> unmapped hp S st' st'' \<Longrightarrow> unmapped hp (R \<union> S) st st''"
  unfolding unmapped_def by (elim conjE exE) (intro conjI, fastforce, simp)

lemma unmap_loop_run:
  assumes os: "munmap_works os owned"
  shows "arenas st a = Some ar \<Longrightarrow> apagesize ar = os_getpagesize os \<Longrightarrow> nodes st (freelist a) = Some h \<Longrightarrow> hsize h = 0 \<Longrightarrow> sll (link st 0) (link st 0 (freelist a)) ys \<Longrightarrow>
    (\<forall>y\<in>set ys. region_ok os a s st y \<and> freelist a \<notin> {y..<y + s y} \<and> (\<forall>z\<in>set ys. z \<noteq> y \<longrightarrow> z \<notin> {y..<y + s y})) \<Longrightarrow>
    \<exists>st'. unmap_loop os a st = Some (Inr st') \<and> unmapped (freelist a) (\<Union>y\<in>set ys. {y..<y + s y}) st st' \<and> owned (ll_os st) - (\<Union>y\<in>set ys. {y..<y + s y}) \<subseteq> owned (ll_os st')"
proof (induction ys arbitrary: st h)
  case Nil
  have "rd_next (freelist a) 0 st = Inr 0" using Nil by (simp add: rd_next_def get_node_def at_ptr_def room_def kMaxLevel_def link_def)
  moreover have "unmapped (freelist a) {} st st" by (auto simp: unmapped_def intro!: exI [of _ "nodes st"] exI [of _ "ll_os st"])
  ultimately show ?case by (subst unmap_loop.simps) simp
next
  case (Cons y ys)
  let ?hp = "freelist a" let ?R = "{y..<y + s y}"
  have "link st 0 ?hp = nx h 0" using Cons.prems(3) by (simp add: link_def)
  then have y: "nx h 0 = y" "y \<noteq> 0" "sll (link st 0) (link st 0 y) ys" using Cons.prems(5) by simp_all
  have ry: "region_ok os a s st y" "?hp \<notin> ?R" using Cons.prems(6) by simp_all
  obtain st1 where st1: "unmap_region os a st = Inr st1" "unmapped ?hp ?R st st1" "nodes st1 ?hp = Some (h\<lparr>nx := (nx h)(0 := link st 0 y)\<rparr>)" "owned (ll_os st) - ?R \<subseteq> owned (ll_os st1)"
    using unmap_region_run [OF os Cons.prems(1-4) y(1) ry] by blast
  have dist: "y \<notin> set ys" using sll_distinct [OF Cons.prems(5)] by simp
  have keep: "nodes st1 z = nodes st z" if "z \<in> set ys" for z
  proof -
    have "z \<noteq> y" using that dist by metis
    then have "z \<notin> ?R" using Cons.prems(6) that by simp
    moreover have "z \<noteq> ?hp"
    proof -
      have "region_ok os a s st z" "?hp \<notin> {z..<z + s z}" using Cons.prems(6) that by simp_all
      then show ?thesis by (auto simp: region_ok_def)
    qed
    ultimately show ?thesis using st1(2) unfolding unmapped_def by metis
  qed
  have l1: "link st1 0 ?hp = link st 0 y" using st1(3) by (simp add: link_def)
  have "sll (link st1 0) (link st1 0 ?hp) ys"
  proof -
    have "sll (link st1 0) (link st 0 y) ys = sll (link st 0) (link st 0 y) ys" by (rule chain_cong) (simp add: link_def keep)
    then show ?thesis using y(3) l1 by simp
  qed
  moreover have "\<forall>z\<in>set ys. region_ok os a s st1 z \<and> ?hp \<notin> {z..<z + s z} \<and> (\<forall>w\<in>set ys. w \<noteq> z \<longrightarrow> w \<notin> {z..<z + s z})"
    using Cons.prems(6) keep by (simp add: region_ok_def)
  moreover have "arenas st1 a = Some ar" using st1(2) Cons.prems(1) by (auto simp: unmapped_def)
  ultimately obtain st' where st': "unmap_loop os a st1 = Some (Inr st')" "unmapped ?hp (\<Union>y\<in>set ys. {y..<y + s y}) st1 st'" "owned (ll_os st1) - (\<Union>y\<in>set ys. {y..<y + s y}) \<subseteq> owned (ll_os st')"
    using Cons.IH [of st1, OF _ Cons.prems(2) st1(3)] Cons.prems(4) by auto
  have "rd_next ?hp 0 st = Inr y" using Cons.prems(3,4) y(1) by (simp add: rd_next_def get_node_def at_ptr_def room_def kMaxLevel_def)
  then have "unmap_loop os a st = Some (Inr st')" using y(2) st1(1) st'(1) by (subst unmap_loop.simps) simp
  moreover have "unmapped ?hp (\<Union>y\<in>set (y # ys). {y..<y + s y}) st st'" using unmapped_trans [OF st1(2) st'(2)] by simp
  moreover have "owned (ll_os st) - (\<Union>y\<in>set (y # ys). {y..<y + s y}) \<subseteq> owned (ll_os st')" using st1(4) st'(3) by auto
  ultimately show ?case by blast
qed

section \<open>Deletion\<close>

lemma head_in_block:
  assumes inv: "arena_inv os owned b B D st" and p: "p \<in> B"
  shows "freelist (p + 32) \<in> used (hdr st) B" "freelist (p + 32) \<notin> B"
proof -
  have in_p: "freelist (p + 32) \<in> ext (hdr st) p" using live_block(1) [OF inv p] by (simp add: ext_def freelist_def)
  then show "freelist (p + 32) \<in> used (hdr st) B" using p by (auto simp: used_def)
  show "freelist (p + 32) \<notin> B"
  proof
    assume q: "freelist (p + 32) \<in> B"
    have "freelist (p + 32) \<noteq> p" by (simp add: freelist_def)
    then have "ext (hdr st) p \<inter> ext (hdr st) (freelist (p + 32)) = {}" by (rule live_block(6) [OF inv p q])
    moreover have "freelist (p + 32) \<in> ext (hdr st) (freelist (p + 32))" using live_block(1) [OF inv q] by (simp add: ext_def)
    ultimately show False using in_p by blast
  qed
qed

text \<open>What is done to another arena, whose own record is in a block of this one, does not matter to this one.\<close>

lemma other_arena:
  assumes inv: "arena_inv os owned b B D st" and p: "p \<in> B" and S: "D \<inter> R = {}" "freelist b \<notin> R"
    and N: "\<And>q. q \<notin> insert (freelist (p + 32)) R \<Longrightarrow> nodes st' q = nodes st q" and ar: "arenas st' b = arenas st b" and O: "insert (freelist b) D \<subseteq> owned (ll_os st')"
  shows "arena_inv os owned b B D st'"
proof (rule arena_frame [OF inv _ _ ar O])
  note H = head_in_block [OF inv p] and bnd = arena_bounds [OF inv]
  show "nodes st' q = nodes st q" if "q \<in> insert (freelist b) (D - used (hdr st) B)" for q
  proof (rule N)
    have "q \<noteq> freelist (p + 32)" using that H(1) bnd(6,8) by auto
    moreover have "q \<notin> R" using that S by auto
    ultimately show "q \<notin> insert (freelist (p + 32)) R" by simp
  qed
  show "hdr st' q = hdr st q" if "q \<in> B" for q
  proof -
    have "q \<notin> insert (freelist (p + 32)) R" using that H(2) bnd(4) S(1) by blast
    then show ?thesis using N by (simp add: hdr_def)
  qed
qed

lemma DeleteArena_run:
  assumes inv: "arena_inv os owned a {} C st" and meta: "arena_inv os owned b B D st" "p \<in> B" "a = p + 32" and S: "C \<inter> D = {}" "freelist b \<notin> C" "a \<noteq> b"
    and os: "lla_os os owned" "munmap_works os owned" and d: "a \<noteq> default_arena st" "a \<noteq> unhooked_arena st"
  shows "\<exists>st'. DeleteArena os a st = Inr (True, st') \<and> arena_inv os owned b (B - {p}) D st' \<and> arenas st' a = None \<and> (\<forall>q\<in>C. nodes st' q = None)"
proof -
  let ?hp = "freelist a" let ?H = "hdr st"
  obtain xs where P: "pool os owned a xs {} C st" using inv by (auto simp: arena_inv_def)
  note blk = poolD(1) [OF P]
  note sk = arena_blocksD(1) [OF blk] and t = arena_blocksD(2) [OF blk]
  obtain ar where ar: "arenas st a = Some ar" "allocation_count ar = int (card ({} :: addr set))" "apagesize ar = os_getpagesize os" "ArenaLock a st = Inr ()" "get_arena a st = Inr ar" by (rule arena_record [OF inv os(1)])
  obtain h where h: "nodes st ?hp = Some h" "hsize h = 0" using skipD(1) [OF sk] by (auto simp: head_ok_def)
  have ch: "sll (link st 0) (link st 0 ?hp) xs" using skipD(7) [OF sk, of 0] at_level_0 [OF sk] by simp
  have reg: "\<forall>y\<in>set xs. region_ok os a (sz ?H) st y \<and> ?hp \<notin> {y..<y + sz ?H y} \<and> (\<forall>z\<in>set xs. z \<noteq> y \<longrightarrow> z \<notin> {y..<y + sz ?H y})"
  proof (intro ballI conjI impI)
    fix y assume y: "y \<in> set xs"
    have y': "y \<in> set xs \<union> {}" using y by simp
    obtain n where "nodes st y = Some n" "hsize n = sz ?H y" "magic n = Magic kMagicUnallocated y" "harena n = a" by (rule free_node [OF blk y])
    then show "region_ok os a (sz ?H) st y" using free_pages_whole [OF P y] tiled_block(1) [OF t y'] by (simp add: region_ok_def)
    show "?hp \<notin> {y..<y + sz ?H y}" using tiled_block(5) [OF t y'] tiledD(4) [OF t] by (auto simp: ext_def)
    fix z assume z: "z \<in> set xs" "z \<noteq> y"
    then have z': "z \<in> set xs \<union> {}" by simp
    have "z \<in> ext ?H z" using tile_ext [OF tiledD(6) [OF t z']] .
    then show "z \<notin> {y..<y + sz ?H y}" using tiled_disjoint [OF t z' y' z(2)] by (auto simp: ext_def)
  qed
  have R: "(\<Union>y\<in>set xs. {y..<y + sz ?H y}) = C" using tiledD(9) [OF t] by (simp add: ext_def)
  obtain st1 where st1: "unmap_loop os a st = Some (Inr st1)" "unmapped ?hp C st st1" "owned (ll_os st) - C \<subseteq> owned (ll_os st1)"
    using unmap_loop_run [OF os(2) ar(1,3) h ch reg] unfolding R by blast
  define st2 where "st2 = st1\<lparr>arenas := (arenas st1)(a := None)\<rparr>"
  have n2: "nodes st2 q = nodes st q" if "q \<notin> insert ?hp C" for q using st1(2) that by (auto simp: unmapped_def st2_def)
  have DC: "D \<inter> C = {}" using S(1) by blast
  have "arena_inv os owned b B D st2"
  proof (rule other_arena [OF meta(1,2) DC S(2) n2 [unfolded meta(3)]])
    show "arenas st2 b = arenas st b" using st1(2) S(3) by (auto simp: unmapped_def st2_def)
    show "insert (freelist b) D \<subseteq> owned (ll_os st2)" using arena_bounds(2,7) [OF meta(1)] st1(3) S(1,2) by (auto simp: st2_def)
  qed
  from Free_run [OF this os(1) meta(2)] obtain st' where st': "lla_Free (p + 32) st2 = Inr st'" "arena_inv os owned b (B - {p}) D st'" "arena_step b (D - used (hdr st2) (B - {p})) st2 st'" by blast
  have "DeleteArena os a st = Inr (True, st')" using ar(2,4,5) d meta(3) st1(1) st'(1) by (simp add: DeleteArena_def raw_check_def ends_def st2_def)
  moreover have "arenas st' a = None" using st'(3) S(3) by (simp add: arena_step_def st2_def)
  moreover have "nodes st' q = None" if q: "q \<in> C" for q
  proof -
    have "q \<notin> insert (freelist b) (D - used (hdr st2) (B - {p}))" "q \<noteq> ?hp" using q S tiledD(4) [OF t] by blast+
    then show ?thesis using st'(3) st1(2) q by (simp add: arena_step_def unmapped_def st2_def)
  qed
  ultimately show ?thesis using st'(2) by blast
qed

lemma DeleteArena_busy:
  assumes inv: "arena_inv os owned a A C st" and os: "lla_os os owned" and A: "A \<noteq> {}" and d: "a \<noteq> 0" "a \<noteq> default_arena st" "a \<noteq> unhooked_arena st"
  shows "DeleteArena os a st = Inr (False, st)"
proof -
  obtain ar where ar: "allocation_count ar = int (card A)" "ArenaLock a st = Inr ()" "get_arena a st = Inr ar" by (rule arena_record [OF inv os])
  have "card A \<noteq> 0" using A arena_bounds(3) [OF inv] by simp
  then show ?thesis using ar d by (simp add: DeleteArena_def raw_check_def)
qed

section \<open>An arena in a block of another\<close>

text \<open>The record of the arena \<open>p + 32\<close>, which has mapped \<open>C\<close>, is the block \<open>p\<close> of the arena \<open>b\<close>.\<close>

definition beside :: "'o os \<Rightarrow> ('o \<Rightarrow> addr set) \<Rightarrow> addr \<Rightarrow> addr set \<Rightarrow> addr set \<Rightarrow> addr \<Rightarrow> addr set \<Rightarrow> 'o lla \<Rightarrow> bool" where
  "beside os owned b B D p C st \<longleftrightarrow> arena_inv os owned b B D st \<and> p \<in> B \<and> C \<inter> D = {} \<and> freelist b \<notin> C \<and> p + 32 \<noteq> b \<and> p + 32 \<noteq> default_arena st \<and> p + 32 \<noteq> unhooked_arena st"

definition nested_state :: "'o os \<Rightarrow> ('o \<Rightarrow> addr set) \<Rightarrow> addr \<Rightarrow> addr set \<Rightarrow> addr set \<Rightarrow> addr \<Rightarrow> (addr \<rightharpoonup> nat) \<Rightarrow> 'o lla \<Rightarrow> bool" where
  "nested_state os owned b B D p L st \<longleftrightarrow> lla_os os owned \<and> (\<exists>A C. arena_inv os owned (p + 32) A C st \<and> blocks_of L A st \<and> beside os owned b B D p C st)"

lemma beside_step:
  assumes b: "beside os owned b B D p C st" and C': "(C' - C) \<inter> owned (ll_os st) = {}" "P \<subseteq> C'" and s: "arena_step (p + 32) P st st'" and O: "owned (ll_os st) \<subseteq> owned (ll_os st')"
  shows "beside os owned b B D p C' st'"
proof -
  have inv: "arena_inv os owned b B D st" and p: "p \<in> B" using b by (simp_all add: beside_def)
  note bnd = arena_bounds(2,7) [OF inv]
  have d: "D \<inter> C' = {}" "freelist b \<notin> C'" using b C'(1) bnd by (auto simp: beside_def)
  have "arena_inv os owned b B D st'"
  proof (rule other_arena [OF inv p d])
    show "nodes st' q = nodes st q" if "q \<notin> insert (freelist (p + 32)) C'" for q using s that C'(2) by (auto simp: arena_step_def)
    show "arenas st' b = arenas st b" using s b by (auto simp: arena_step_def beside_def)
    show "insert (freelist b) D \<subseteq> owned (ll_os st')" using bnd O by blast
  qed
  then show ?thesis using b d s by (auto simp: beside_def arena_step_def)
qed

lemma nested_alloc:
  assumes r: "nested_state os owned b B D p L st" and n: "0 < n" "small_heap owned n st"
  shows "returns (\<lambda>(q, st'). L q = None \<and> nested_state os owned b B D p (L(q \<mapsto> n)) st') (DoAllocWithArena os n (p + 32) st) \<or> (mmap_fails os n st \<and> DoAllocWithArena os n (p + 32) st = Inl Abort)"
proof -
  obtain A C where os: "lla_os os owned" and inv: "arena_inv os owned (p + 32) A C st" "blocks_of L A st" and b: "beside os owned b B D p C st" using r by (auto simp: nested_state_def)
  from Alloc_run [OF inv(1) os n(1) small_heap_card [OF inv(1) n(2)]] show ?thesis
  proof
    assume "\<exists>s st' C'. DoAllocWithArena os n (p + 32) st = Inr (s + 32, st') \<and> arena_inv os owned (p + 32) (insert s A) C' st' \<and> s \<notin> A \<and> n + 32 \<le> sz (hdr st') s \<and>
      enlarged owned C st C' st' \<and> arena_step (p + 32) (C' - used (hdr st) A) st st' \<and> (\<forall>p\<in>A. nodes st' p = nodes st p)"
    then obtain s st' C' where s: "DoAllocWithArena os n (p + 32) st = Inr (s + 32, st')" "arena_inv os owned (p + 32) (insert s A) C' st'" "s \<notin> A" "n + 32 \<le> sz (hdr st') s"
      "\<forall>p\<in>A. nodes st' p = nodes st p" and g: "enlarged owned C st C' st'" "arena_step (p + 32) (C' - used (hdr st) A) st st'" by blast
    have "beside os owned b B D p C' st'" by (rule beside_step [OF b _ _ g(2)]) (use g(1) in \<open>auto simp: enlarged_def\<close>)
    then show ?thesis using blocks_of_add [OF inv(2) s(3-5)] s(1,2) os unfolding nested_state_def by (simp del: fun_upd_apply) blast
  qed (simp add: mmap_fails_def)
qed

lemma nested_free:
  assumes r: "nested_state os owned b B D p L st" and q: "q \<in> dom L"
  shows "returns (nested_state os owned b B D p (L(q := None))) (lla_Free q st)"
proof -
  obtain A C where os: "lla_os os owned" and inv: "arena_inv os owned (p + 32) A C st" "blocks_of L A st" and b: "beside os owned b B D p C st" using r by (auto simp: nested_state_def)
  obtain m where "L q = Some m" using q by blast
  note P = blocks_ofD [OF inv(2) this]
  obtain st' where st': "lla_Free (q - 32 + 32) st = Inr st'" "arena_inv os owned (p + 32) (A - {q - 32}) C st'" "\<forall>z\<in>A - {q - 32}. nodes st' z = nodes st z"
    and g: "arena_step (p + 32) (C - used (hdr st) (A - {q - 32})) st st'" "ll_os st' = ll_os st" using Free_run [OF inv(1) os P(1)] by blast
  have "beside os owned b B D p C st'" by (rule beside_step [OF b _ _ g(1)]) (use g(2) in auto)
  then show ?thesis using blocks_of_remove [OF inv(2) P(1) st'(3)] st'(1,2) P(2) os unfolding nested_state_def by (simp del: fun_upd_apply) blast
qed

lemma nested_write:
  assumes r: "nested_state os owned b B D p L st" and w: "client_writes L st st'"
  shows "nested_state os owned b B D p L st'"
proof -
  obtain A C where os: "lla_os os owned" and inv: "arena_inv os owned (p + 32) A C st" "blocks_of L A st" and b: "beside os owned b B D p C st" using r by (auto simp: nested_state_def)
  note W = blocks_write [OF inv w]
  obtain N where N: "st' = st\<lparr>nodes := N\<rparr>" using W(4) by blast
  have "arena_step (p + 32) C st st'" using W(3) N arena_bounds(8) [OF inv(1)] by (auto simp: arena_step_def)
  then have "beside os owned b B D p C st'" by (intro beside_step [OF b]) (use N in auto)
  then show ?thesis using W(1,2) os unfolding nested_state_def by blast
qed

interpretation nested: block_heap "nested_state os owned b B D p" "\<lambda>st. owned (ll_os st)" "\<lambda>n. DoAllocWithArena os n (p + 32)" lla_Free client_writes "small_heap owned" "mmap_fails os"
  for os owned b B D p
proof
  fix L :: "addr \<rightharpoonup> nat" and st :: "'a lla" and q r m n :: nat
  assume s: "nested_state os owned b B D p L st"
  then obtain A C where inv: "arena_inv os owned (p + 32) A C st" "blocks_of L A st" by (auto simp: nested_state_def)
  show "L q = Some m \<Longrightarrow> L r = Some n \<Longrightarrow> q \<noteq> r \<Longrightarrow> {q..<q + m} \<inter> {r..<r + n} = {}" by (rule live_apart [OF inv])
  show "L q = Some m \<Longrightarrow> 32 dvd q \<and> q \<noteq> 0 \<and> {q..<q + m} \<subseteq> owned (ll_os st)" by (rule blocks_mapped [OF inv])
  show "0 < n \<Longrightarrow> small_heap owned n st \<Longrightarrow> returns (\<lambda>(q, st'). L q = None \<and> nested_state os owned b B D p (L(q \<mapsto> n)) st') (DoAllocWithArena os n (p + 32) st) \<or>
      (mmap_fails os n st \<and> DoAllocWithArena os n (p + 32) st = Inl Abort)" by (rule nested_alloc [OF s])
  show "q \<in> dom L \<Longrightarrow> returns (nested_state os owned b B D p (L(q := None))) (lla_Free q st)" by (rule nested_free [OF s])
  show "nested_state os owned b B D p L st'" if "client_writes L st st'" for st' by (rule nested_write [OF s that])
qed

section \<open>Creation\<close>

definition meta_arena :: "u32 \<Rightarrow> addr \<Rightarrow> 'o lla \<Rightarrow> addr" where
  "meta_arena flags m st = (if m = default_arena st \<and> flags AND kCallMallocHook = 0 then unhooked_arena st else m)"

lemma NewArena_run:
  assumes meta: "arena_inv os owned b B D st" "b = meta_arena flags m st" "m \<noteq> 0" "b \<noteq> 0" and os: "lla_os os owned" and fl: "flags AND kAsyncSignalSafe = 0"
    and small: "small_heap owned sizeof_Arena st" and u: "{default_arena st, unhooked_arena st, unhooked_async_sig_safe_arena st} \<subseteq> owned (ll_os st) - D"
  shows "(\<exists>p st' D'. NewArena os flags m st = Inr (p + 32, st') \<and> p \<notin> B \<and> arena_inv os owned (p + 32) {} {} st' \<and> beside os owned b (insert p B) D' p {} st') \<or>
    (mmap_fails os sizeof_Arena st \<and> NewArena os flags m st = Inl Abort)"
proof -
  have sa: "sizeof_Arena = 320" by (simp add: sizeof_Arena_def sizeof_AllocList_def offset_next_def kMaxLevel_def)
  have pos: "0 < sizeof_Arena" "card D + sizeof_Arena + 2 ^ 22 < 2 ^ 34" using small_heap_card [OF meta(1) small] by (simp_all add: sa)
  have al: "AllocWithArena os sizeof_Arena b st = DoAllocWithArena os sizeof_Arena b st" using meta(4) by (simp add: AllocWithArena_def raw_check_def)
  have choice: "NewArena os flags m st = bind_res (DoAllocWithArena os sizeof_Arena b st) (\<lambda>(result, st).
     let st = st\<lparr>nodes := (nodes st)(freelist result \<mapsto> \<lparr> hsize = 0, magic = 0, harena = 0, lv = 0, nx = (\<lambda>_. 0) \<rparr>),
                 arenas := (arenas st)(result \<mapsto> \<lparr> allocation_count = 0, aflags = 0, apagesize = 0, roundup = 0, min_size = 0 \<rparr>)\<rparr> in
     bind_res (ArenaInit os result st) (\<lambda>st. bind_res (on_arena result (\<lambda>ar. ar\<lparr>aflags := flags\<rparr>) st) (\<lambda>st. Inr (result, st))))"
    using meta(2,3) fl al [symmetric] by (auto simp: NewArena_def raw_check_def meta_arena_def Let_def)
  from Alloc_run [OF meta(1) os pos] show ?thesis
  proof
    assume "\<exists>s st' C'. DoAllocWithArena os sizeof_Arena b st = Inr (s + 32, st') \<and> arena_inv os owned b (insert s B) C' st' \<and> s \<notin> B \<and> sizeof_Arena + 32 \<le> sz (hdr st') s \<and>
      enlarged owned D st C' st' \<and> arena_step b (C' - used (hdr st) B) st st' \<and> (\<forall>p\<in>B. nodes st' p = nodes st p)"
    then obtain s st1 D1 where s: "DoAllocWithArena os sizeof_Arena b st = Inr (s + 32, st1)" "arena_inv os owned b (insert s B) D1 st1" "s \<notin> B" "sizeof_Arena + 32 \<le> sz (hdr st1) s"
        "enlarged owned D st D1 st1" "arena_step b (D1 - used (hdr st) B) st st1" by blast
    let ?a = "s + 32" let ?hp = "freelist (s + 32)"
    have in_s: "?a \<in> D1" "?hp \<in> D1" using live_block(3) [OF s(2), of s] s(4) sa by (auto simp: ext_def freelist_def)
    have ab: "?a \<noteq> b" using in_s(2) arena_bounds(6) [OF s(2)] by metis
    have "{default_arena st1, unhooked_arena st1, unhooked_async_sig_safe_arena st1} \<inter> D1 = {}" using s(5,6) u by (auto simp: enlarged_def arena_step_def)
    then have au: "?a \<noteq> unhooked_async_sig_safe_arena st1" "?a \<noteq> default_arena st1" "?a \<noteq> unhooked_arena st1" using in_s(1) by auto
    define st2 where "st2 = st1\<lparr>nodes := (nodes st1)(?hp \<mapsto> \<lparr> hsize = 0, magic = 0, harena = 0, lv = 0, nx = (\<lambda>_. 0) \<rparr>),
                 arenas := (arenas st1)(?a \<mapsto> \<lparr> allocation_count = 0, aflags = 0, apagesize = 0, roundup = 0, min_size = 0 \<rparr>)\<rparr>"
    have "?hp \<in> owned (ll_os st1)" using in_s(2) arena_bounds(2) [OF s(2)] by blast
    then have "fresh_arena owned ?a st2" using au(1) by (simp add: fresh_arena_def st2_def)
    then obtain st3 where st3: "ArenaInit os ?a st2 = Inr st3" "arena_inv os owned ?a {} {} st3" "arena_step ?a {} st2 st3" "ll_os st3 = ll_os st2" using ArenaInit_fresh [OF _ os] by blast
    obtain xs ar where P3: "pool os owned ?a xs {} {} st3" and ar: "arenas st3 ?a = Some ar" "allocation_count ar = 0" "apagesize ar = os_getpagesize os" "roundup ar = 32" "min_size ar = 64"
      using st3(2) by (auto simp: arena_inv_def pool_def ready_def)
    define st4 where "st4 = st3\<lparr>arenas := (arenas st3)(?a \<mapsto> ar\<lparr>aflags := flags\<rparr>)\<rparr>"
    have "pool os owned ?a xs {} {} st4" unfolding st4_def by (rule pool_record(1) [OF P3]) (use ar fl in simp_all)
    then have inva: "arena_inv os owned ?a {} {} st4" using ar(2) by (auto simp: arena_inv_def st4_def)
    have "beside os owned b (insert s B) D1 s {} st4" unfolding beside_def
    proof (intro conjI)
      show "arena_inv os owned b (insert s B) D1 st4"
      proof (rule other_arena [OF s(2), of s "{}"])
        show "nodes st4 q = nodes st1 q" if "q \<notin> insert ?hp {}" for q using st3(3) that by (simp add: arena_step_def st4_def st2_def)
        show "arenas st4 b = arenas st1 b" using st3(3) ab by (auto simp: arena_step_def st4_def st2_def)
        show "insert (freelist b) D1 \<subseteq> owned (ll_os st4)" using arena_bounds(2,7) [OF s(2)] st3(4) by (simp add: st4_def st2_def)
      qed simp_all
      show "?a \<noteq> default_arena st4" "?a \<noteq> unhooked_arena st4" using au(2,3) st3(3) by (simp_all add: arena_step_def st4_def st2_def)
    qed (use ab in simp_all)
    moreover have "NewArena os flags m st = Inr (?a, st4)" using choice s(1) st3(1) arena_count_step [OF ar(1), of "\<lambda>ar. ar\<lparr>aflags := flags\<rparr>"] by (simp add: st2_def st4_def Let_def)
    ultimately show ?thesis using s(3) inva by blast
  qed (use choice in \<open>simp add: mmap_fails_def\<close>)
qed


lemma map_os_munmap: "munmap_works map_os map_owned"
  by (auto simp: munmap_works_def munmap_ok_def map_os_def map_owned_def)


end
