(* ===== verification/Spec2Isabelle.thy ===== *)
theory Spec2Isabelle
  imports Linked_List Reuse_Correct Size_Map_Correct Page_Map_Correct Packed_Cache
    System_Alloc_Correct Object_Alloc Span Page_Heap_Correct Thread_Cache_Objects Tcmalloc_New Address_Map_Safe
    Arena_Delete
begin

text \<open>
  A verification of the liveness-based parallel memory allocator, a descendant of tcmalloc.

  \<^bold>\<open>The program.\<close>  The allocator has five layers.  The system allocator (\<open>system-alloc.cc\<close>) takes memory from the
  operating system; the metadata allocator (\<open>common.cc\<close>, \<open>page_heap_allocator.h\<close>) cuts memory for
  the allocator's own objects; the page heap (\<open>page_heap.cc\<close>, \<open>span.cc\<close>, \<open>pagemap.h\<close>,
  \<open>packed-cache-inl.h\<close>) manages runs of pages called spans; the central free lists (\<open>central_freelist.cc\<close>) cut spans into
  objects of one size class (\<open>common.cc\<close>); the thread caches (\<open>thread_cache.h\<close>, \<open>thread_cache.cc\<close>) keep objects per thread and decide
  from the reuse distances of a trace how many to keep.  On top of them \<open>tcmalloc.cc\<close> has \<open>malloc\<close>, \<open>free\<close> and
  their relatives, and the extension interface.  The address map (\<open>addressmap-inl.h\<close>) and the low-level
  allocator (\<open>base/low_level_alloc.cc\<close>), with arenas of its own, stand beside these layers.

  \<^bold>\<open>State.\<close>  Each layer has a record of its static variables and members that extends the record of the layer
  below: \<open>sys_state\<close>, \<open>meta_state\<close>, \<open>heap\<close>, \<open>central\<close>, \<open>tc_state\<close>, \<open>malloc_state\<close>.  Spans live in a store indexed by
  pointers, free objects in a memory of links, thread caches in a map from addresses.  Every operation takes the state and
  returns \<open>Inr\<close> of its result and the new state, or \<open>Inl\<close> of a fault: \<open>Segv\<close> for an invalid access, \<open>Abort\<close> for a crash the
  code itself causes, \<open>Diverge\<close> for a loop that does not end.  \<open>returns P\<close> says that the code returns with \<open>P\<close>,
  \<open>safe P\<close> that it does or aborts, \<open>always P\<close> that it returns with \<open>P\<close> if it returns.  The operations run
  one after the other, as they do under the locks of the code; the points where the central free list
  drops its lock are sequential too.

  \<^bold>\<open>Theories.\<close>
  \<^item> \<open>Tc_Prelude\<close>: faults and results, array accesses, C division and conversion, shared lemmas.
  \<^item> \<open>Linked_List\<close>: \<open>linked_list.h\<close>, free lists that run through the free objects.
  \<^item> \<open>Ieee_Round\<close>, \<open>Reuse\<close>, \<open>Reuse_Correct\<close>: the reuse model of \<open>thread_cache.h\<close> with its doubles
    as correctly rounded rationals; the linear-time computation equals the average over all windows.
  \<^item> \<open>Size_Map\<close>, \<open>Size_Map_Correct\<close>: \<open>SizeMap\<close> and its initialisation; the class of a size is the best one.
  \<^item> \<open>Page_Map\<close>, \<open>Page_Map_Correct\<close>: the three page maps; the locale \<open>page_map\<close> is their contract.
  \<^item> \<open>Packed_Cache\<close>: \<open>PackedCache\<close>; the locale \<open>lossy_cache\<close> is its contract.
  \<^item> \<open>System_Alloc\<close>, \<open>System_Alloc_Correct\<close>: the system allocators over an operating system \<open>os\<close>
    that is a parameter; \<open>os_ok\<close> states what sbrk, mmap, munmap and madvise are documented to do.
  \<^item> \<open>Meta_Alloc\<close>, \<open>Object_Alloc\<close>: \<open>MetaDataAlloc\<close> and \<open>PageHeapAllocator\<close>; the locale
    \<open>object_allocator\<close> is the contract.
  \<^item> \<open>Dll\<close>, \<open>Span\<close>: spans in a store and the circular lists through them.
  \<^item> \<open>Page_Heap\<close>: \<open>PageHeap\<close>.  \<open>Page_Heap_Inv\<close> has its invariant \<open>hinv\<close>, and \<open>Page_Heap_Merge\<close>, \<open>Page_Heap_Release\<close>,
    \<open>Page_Heap_Alloc\<close>, \<open>Page_Heap_Search\<close>, \<open>Page_Heap_Grow\<close>, \<open>Page_Heap_Client\<close> and \<open>Page_Heap_Init\<close> the effect of coalescing,
    releasing, carving, searching, growing, splitting and of the constructor; \<open>Page_Heap_Correct\<close> has the
    properties: \<open>New\<close>, \<open>Delete\<close> and \<open>Split\<close> refine operations on the map of spans in use.
  \<^item> \<open>Central_Freelist\<close>: \<open>CentralFreeList\<close> and \<open>static_vars.cc\<close>.  \<open>Central_Inv\<close> has the invariant \<open>cinv\<close>: every object
    of a span with a size class is in the chain of its span, in a slot of the transfer cache or out with a client.  \<open>Central_Release\<close>,
    \<open>Central_Transfer\<close>, \<open>Central_Fetch\<close>, \<open>Central_Populate\<close> and \<open>Central_Correct\<close> have the effect of the operations on it;
    \<open>Central_Safe\<close> has the contract with the clients, the locale \<open>object_pool\<close>, and the properties for all sequences of calls.
  \<^item> \<open>Thread_Cache\<close>: \<open>ThreadCache\<close>, its free lists, \<open>Allocate\<close> and \<open>Deallocate\<close> with the trace, the list of all caches and
    the caches of threads.
  \<^item> \<open>Frames\<close>: what each operation leaves alone of the layers above it.
  \<^item> \<open>Thread_Cache_Limits\<close>: the list of caches and the accounts of their size limits are kept by every
    sequence of operations.
  \<^item> \<open>Thread_Cache_Objects\<close>: the caches as clients of the central lists: an object that is out is in a list of a cache or with
    the program.  The locale \<open>object_cache\<close> is the contract with the program; no object is handed out twice.
  \<^item> \<open>Tcmalloc\<close>: \<open>tcmalloc.cc\<close>.  \<open>Tcmalloc_Correct\<close>: error returns, contents of blocks, numeric properties;
    \<open>Tcmalloc_Pages\<close>: large blocks, \<open>memalign\<close>, the enumeration of ranges; \<open>Tcmalloc_New\<close>: the loop of \<open>operator new\<close>.
  \<^item> \<open>Address_Map\<close>: \<open>addressmap-inl.h\<close>, the hash table of clusters of blocks of entries.  \<open>Address_Map_Correct\<close> has its invariant and the effect of
    \<open>Find\<close>, \<open>Insert\<close> and \<open>FindAndRemove\<close>, \<open>Address_Map_Search\<close> that of \<open>FindInside\<close> and \<open>Iterate\<close>; \<open>Address_Map_Safe\<close> has the locale \<open>dictionary\<close>, and
    that the map refines a partial function.
  \<^item> \<open>Low_Level_Alloc\<close>: \<open>base/low_level_alloc.cc\<close>; its state is the record \<open>lla\<close>, with the headers and links of blocks as nodes in a map from addresses.
    \<open>Skip_List\<close>: the skip list of free blocks is a sorted list on every level.  \<open>Skip_Levels\<close>: the number of levels, and that the random
    number generator stops.  \<open>Arena_Tiles\<close>: blocks tile the mapped memory; \<open>Arena_Blocks\<close>: coalescing keeps the tiling and leaves no adjacent free
    blocks; \<open>Arena_Alloc\<close>: the search is first fit, and new regions and splitting keep the tiling; \<open>Arena_Heap\<close>: the invariant \<open>arena_inv\<close> and the
    effect of allocation and \<open>Free\<close>; \<open>Arena_Safe\<close>: the contract with the program, the locale \<open>block_heap\<close>, for all sequences of operations;
    \<open>Arena_Delete\<close>: \<open>NewArena\<close> and \<open>DeleteArena\<close>, for an arena in a block of another one, a second interpretation of \<open>block_heap\<close>.

  \<^bold>\<open>Loops.\<close>  Loops over lists and arrays are recursive functions with termination proofs; walks along pointers and loops that end
  only when memory is found are partial functions into \<open>option\<close>, and the theorems show that they end.  The only fuel
  is the recursion depth 2 of \<open>AllocLarge\<close>, which is enough because the second call finds a normal span.

  \<^bold>\<open>Bounds.\<close>  The theorems on the low-level allocator are for processes below 16 GB (\<open>small_heap\<close>): the code computes the number of links that fit in
  a block as an \<open>int\<close>, and aborts for larger blocks.

  \<^bold>\<open>Not modelled.\<close>  Concurrency between threads, and the locks; the text of messages and statistics; \<open>/proc\<close>, clocks,
  stack traces and symbols; the system calls, which are the parameter \<open>os\<close>; the debug allocator and the profilers, which this
  repository does not build; the malloc hooks; the containers of \<open>lmutility.h\<close>, \<open>lmhashtb.h\<close>, \<open>hash_table.h\<close> and \<open>lmstack.h\<close>, which no built code
  uses; \<open>MallocExtension\<close> itself, whose source is not in the repository.
\<close>

end
